(* ===== verification/Prelude.thy ===== *)
theory Prelude
  imports Main
begin

text \<open>
  Shared vocabulary of the development.

  \<^item> \<open>exn\<close> lists what the modelled C++ code can throw: \<open>CheckArgument\<close> raises
    \<open>IllegalArgumentException\<close>, \<open>Unreachable()\<close> and \<open>Unimplemented()\<close> raise their own
    exceptions, and the type rules raise \<open>TypeCheckingExceptionPrivate\<close> with a message.
    \<open>OutOfFuel\<close> is no exception of the code: it marks an evaluation whose fuel was too small, or a call that does not return.
    The macros \<open>Assert\<close> and \<open>DebugCheckArgument\<close> expand to nothing in a production build
    (\<open>src/src/base/cvc4_assert.h\<close>), so they are no branch of the model.
  \<^item> \<open>u32\<close> and \<open>u32_sub\<close> are C++'s \<open>unsigned\<close> (32-bit) arithmetic on natural numbers:
    a sum or a difference is reduced modulo \<open>2 ^ 32\<close>.
  \<^item> \<open>bits_val\<close> reads a list of bits, least significant first, as an integer; the lemmas on it
    carry the circuits of the bit-blaster.
  The collections \<open>bv_arith\<close> and \<open>bits_simps\<close> gather the facts the component proofs rewrite with.
\<close>

named_theorems bits_simps \<open>rewriting of bit lists\<close>
named_theorems bv_arith \<open>arithmetic of values modulo a power of two\<close>

subsection \<open>Exceptions\<close>

datatype exn =
    IllegalArgumentException
  | AssertionException
  | UnreachableCodeException
  | UnimplementedOperationException
  | TypeCheckingExceptionPrivate string
  | UnsafeInterruptException
  | OutOfFuel

type_synonym 'a exc = "exn + 'a"

definition ebind :: "'a exc \<Rightarrow> ('a \<Rightarrow> 'b exc) \<Rightarrow> 'b exc" where
  "ebind r f = (case r of Inl e \<Rightarrow> Inl e | Inr x \<Rightarrow> f x)"

lemma ebind_simps [simp]:
  "ebind (Inl e) f = Inl e"
  "ebind (Inr x) f = f x"
  by (simp_all add: ebind_def)

lemma ebind_eq_Inr [simp]:
  "ebind r f = Inr y \<longleftrightarrow> (\<exists>x. r = Inr x \<and> f x = Inr y)"
  by (cases r) auto

lemma ebind_cong [fundef_cong]:
  "r = r' \<Longrightarrow> (\<And>x. r' = Inr x \<Longrightarrow> f x = f' x) \<Longrightarrow> ebind r f = ebind r' f'"
  by (cases r') auto

text \<open>The loop that runs a fallible step over a list and collects the results in order.\<close>

fun emap :: "('a \<Rightarrow> 'b exc) \<Rightarrow> 'a list \<Rightarrow> 'b list exc" where
  "emap f [] = Inr []"
| "emap f (x # xs) = ebind (f x) (\<lambda>y. ebind (emap f xs) (\<lambda>ys. Inr (y # ys)))"

lemma emap_cong [fundef_cong]:
  "xs = ys \<Longrightarrow> (\<And>x. x \<in> set ys \<Longrightarrow> f x = g x) \<Longrightarrow> emap f xs = emap g ys"
  by (induction ys arbitrary: xs) auto

lemma emap_Inr_length: "emap f xs = Inr ys \<Longrightarrow> length ys = length xs"
  by (induction xs arbitrary: ys) auto

lemma emap_Inr_list_all2: "emap f xs = Inr ys \<longleftrightarrow> list_all2 (\<lambda>x y. f x = Inr y) xs ys"
  by (induction xs arbitrary: ys) (auto simp: list_all2_Cons1)

text \<open>A loop that updates a state and may throw.\<close>

fun efoldl :: "('s \<Rightarrow> 'a \<Rightarrow> 's exc) \<Rightarrow> 's \<Rightarrow> 'a list \<Rightarrow> 's exc" where
  "efoldl f s [] = Inr s"
| "efoldl f s (x # xs) = ebind (f s x) (\<lambda>s. efoldl f s xs)"

lemma efoldl_inv:
  assumes "P s []"
    and "\<And>s ys x. P s ys \<Longrightarrow> x \<in> set xs \<Longrightarrow> \<exists>s'. f s x = Inr s' \<and> P s' (ys @ [x])"
  shows "\<exists>s'. efoldl f s xs = Inr s' \<and> P s' xs"
proof -
  have "\<exists>s'. efoldl f s zs = Inr s' \<and> P s' (ys @ zs)" if "P s ys" "set zs \<subseteq> set xs" for zs s ys
    using that
  proof (induction zs arbitrary: s ys)
    case (Cons z zs)
    then obtain s' where "f s z = Inr s'" "P s' (ys @ [z])" using assms(2) [of s ys z] by auto
    with Cons.IH [of s' "ys @ [z]"] Cons.prems(2) show ?case by simp
  qed simp
  from this [OF assms(1) subset_refl] show ?thesis by simp
qed

subsection \<open>Unsigned 32-bit arithmetic on natural numbers\<close>

definition u32 :: "nat \<Rightarrow> nat" where
  "u32 n = n mod 2 ^ 32"

definition u32_sub :: "nat \<Rightarrow> nat \<Rightarrow> nat" where
  "u32_sub a b = (a + (2 ^ 32 - b mod 2 ^ 32)) mod 2 ^ 32"

lemma u32_less [simp]: "u32 n < 2 ^ 32"
  by (simp add: u32_def)

lemma u32_id [simp]: "n < 2 ^ 32 \<Longrightarrow> u32 n = n"
  by (simp add: u32_def)

lemma u32_sub_id [simp]:
  assumes "b \<le> a" and "a < 2 ^ 32"
  shows "u32_sub a b = a - b"
proof -
  have "a + (2 ^ 32 - b mod 2 ^ 32) = (a - b) + 2 ^ 32"
    using assms by (simp add: mod_less)
  moreover have "a - b < 2 ^ 32"
    using assms by simp
  ultimately show ?thesis
    by (simp add: u32_sub_def)
qed

lemma u32_sub_wrap: "u32_sub 0 (Suc 0) = 2 ^ 32 - 1"
  by (simp add: u32_sub_def)

subsection \<open>Powers of two\<close>

lemma int_mod_pow2_div: "(x :: int) mod 2 ^ (m + n) div 2 ^ m = x div 2 ^ m mod 2 ^ n"
  by (metis add_diff_cancel_left' drop_bit_eq_div drop_bit_take_bit take_bit_eq_mod)

lemma int_mod_pow2_split: "(x :: int) mod 2 ^ (m + n) = x mod 2 ^ m + 2 ^ m * (x div 2 ^ m mod 2 ^ n)"
  by (simp add: power_add zmod_zmult2_eq)

lemma int_mod_pow2_Suc: "(x :: int) mod 2 ^ Suc n = x mod 2 ^ n + 2 ^ n * of_bool (bit x n)"
  using int_mod_pow2_split [of x n 1] by (simp add: bit_iff_odd mod_2_eq_odd)

lemma int_add_high_bits:
  assumes "k \<le> n"
  shows "(x :: int) mod 2 ^ k + 2 ^ k * ((x div 2 ^ k + c) mod 2 ^ (n - k)) = (x + 2 ^ k * c) mod 2 ^ n"
  using int_mod_pow2_split [of "x + 2 ^ k * c" k "n - k"] assms by (simp add: add.commute)

lemma int_neg_div_pow2: "- (2 ^ k) \<le> (z :: int) \<Longrightarrow> z < 0 \<Longrightarrow> z div 2 ^ k = - 1"
proof -
  assume "- (2 ^ k) \<le> z" and "z < 0"
  then have "(z + 2 ^ k) div 2 ^ k = 0" by (intro div_pos_pos_trivial) auto
  moreover have "(z + 2 ^ k) div 2 ^ k = z div 2 ^ k + 1" by (rule div_add_self2) simp
  ultimately show ?thesis by simp
qed

lemma int_compare_top_bit:
  assumes "0 \<le> (x :: int)" and "x < p" and "0 \<le> y" and "y < p"
  shows "x + p * of_bool a < y + p * of_bool b \<longleftrightarrow> a = b \<and> x < y \<or> \<not> a \<and> b"
    and "x + p * of_bool a \<le> y + p * of_bool b \<longleftrightarrow> a = b \<and> x \<le> y \<or> \<not> a \<and> b"
  using assms by auto

subsection \<open>Lists of bits\<close>

definition bits_val :: "bool list \<Rightarrow> int" where
  "bits_val bs = horner_sum of_bool 2 bs"

lemma bits_val_Nil [simp, bits_simps]: "bits_val [] = 0"
  by (simp add: bits_val_def)

lemma bits_val_Cons [simp, bits_simps]: "bits_val (b # bs) = of_bool b + 2 * bits_val bs"
  by (simp add: bits_val_def)

lemma bits_val_append [bits_simps]:
  "bits_val (bs @ cs) = bits_val bs + 2 ^ length bs * bits_val cs"
  by (induction bs) (auto simp: algebra_simps)

lemma bits_val_nonneg [simp]: "0 \<le> bits_val bs"
  by (induction bs) auto

lemma bits_val_less: "bits_val bs < 2 ^ length bs"
  by (induction bs) auto

lemma bits_val_mod [simp]: "bits_val bs mod 2 ^ length bs = bits_val bs"
  using bits_val_less [of bs] by simp

lemma bits_val_replicate_False [simp, bits_simps]: "bits_val (replicate n False) = 0"
  by (induction n) auto

lemma bits_val_replicate_True [bits_simps]: "bits_val (replicate n True) = 2 ^ n - 1"
  by (induction n) auto

lemma bits_val_map_Not [bits_simps]: "bits_val (map Not bs) = 2 ^ length bs - 1 - bits_val bs"
  by (induction bs) (auto simp: of_bool_def)

lemma bits_val_eq_iff:
  "length bs = length cs \<Longrightarrow> bits_val bs = bits_val cs \<longleftrightarrow> bs = cs"
proof (induction bs cs rule: list_induct2)
  case Nil
  then show ?case by simp
next
  case (Cons b bs c cs)
  have "of_bool b + 2 * bits_val bs = of_bool c + 2 * bits_val cs \<longleftrightarrow>
      b = c \<and> bits_val bs = bits_val cs"
    by (cases b; cases c; simp; presburger)
  with Cons show ?case by simp
qed

lemma bits_val_bit [bits_simps]: "bit (bits_val bs) i \<longleftrightarrow> i < length bs \<and> bs ! i"
  by (simp add: bits_val_def bit_horner_sum_bit_iff)

lemma bits_val_of_int [bits_simps]: "bits_val (map (bit k) [0..<n]) = k mod 2 ^ n"
  by (simp add: bits_val_def horner_sum_bit_eq_take_bit take_bit_eq_mod)

lemma bits_val_take [bits_simps]: "bits_val (take n bs) = bits_val bs mod 2 ^ n"
proof (cases "n \<le> length bs")
  case True
  have "bits_val bs = bits_val (take n bs) + 2 ^ n * bits_val (drop n bs)"
    using True by (metis append_take_drop_id bits_val_append length_take min.absorb2)
  moreover have "bits_val (take n bs) < 2 ^ n"
    using bits_val_less [of "take n bs"] True by (simp add: min.absorb2)
  ultimately show ?thesis by simp
next
  case False
  have "(2::int) ^ length bs \<le> 2 ^ n"
    using False by (intro power_increasing) auto
  then have "bits_val bs < 2 ^ n"
    using bits_val_less [of bs] by linarith
  with False show ?thesis by simp
qed

lemma bits_val_drop [bits_simps]: "bits_val (drop n bs) = bits_val bs div 2 ^ n"
proof (cases "n \<le> length bs")
  case True
  have "bits_val bs = bits_val (take n bs) + 2 ^ n * bits_val (drop n bs)"
    using True by (metis append_take_drop_id bits_val_append length_take min.absorb2)
  moreover have "bits_val (take n bs) < 2 ^ n"
    using bits_val_less [of "take n bs"] True by (simp add: min.absorb2)
  ultimately show ?thesis by simp
next
  case False
  have "(2::int) ^ length bs \<le> 2 ^ n"
    using False by (intro power_increasing) auto
  then have "bits_val bs < 2 ^ n"
    using bits_val_less [of bs] by linarith
  with False show ?thesis by simp
qed

end
