(* ===== verification/Integer_Util.thy ===== *)
theory Integer_Util
  imports Prelude
begin

text \<open>
  The class \<open>Integer\<close> of \<open>src/src/util/integer_gmp_imp.h\<close> and \<open>integer_gmp_imp.cpp\<close>: an
  unbounded integer over GMP's \<open>mpz_class\<close>. A value is a HOL integer, and the C++ operators of
  \<open>mpz_class\<close> are those of \<open>int\<close>. GMP itself is not part of the sources: its C functions are the
  fields of a record \<open>gmp\<close> that every method using them takes as an argument, and the locale
  \<open>gmp_documented\<close> states what the GMP manual promises about them (floor division, two's
  complement bit operations, exact division, the size in base 2 and so on). Inside the locale each
  method is shown to compute its closed form; \<open>gmp_reference\<close> is a set of functions with the
  documented behaviour.
  Parameters of type \<open>uint32_t\<close> are natural numbers and their arithmetic wraps (\<open>u32\<close>).
\<close>

section \<open>GMP\<close>

record gmp =
  mpz_ior :: "int \<Rightarrow> int \<Rightarrow> int"
  mpz_and :: "int \<Rightarrow> int \<Rightarrow> int"
  mpz_xor :: "int \<Rightarrow> int \<Rightarrow> int"
  mpz_com :: "int \<Rightarrow> int"
  mpz_mul_2exp :: "int \<Rightarrow> nat \<Rightarrow> int"
  mpz_setbit :: "int \<Rightarrow> nat \<Rightarrow> int"
  mpz_tstbit :: "int \<Rightarrow> nat \<Rightarrow> bool"
  mpz_fdiv_r_2exp :: "int \<Rightarrow> nat \<Rightarrow> int"
  mpz_fdiv_q_2exp :: "int \<Rightarrow> nat \<Rightarrow> int"
  mpz_fdiv_q :: "int \<Rightarrow> int \<Rightarrow> int"
  mpz_fdiv_r :: "int \<Rightarrow> int \<Rightarrow> int"
  mpz_fdiv_qr :: "int \<Rightarrow> int \<Rightarrow> int \<times> int"
  mpz_cdiv_q :: "int \<Rightarrow> int \<Rightarrow> int"
  mpz_cdiv_r :: "int \<Rightarrow> int \<Rightarrow> int"
  mpz_divisible_p :: "int \<Rightarrow> int \<Rightarrow> bool"
  mpz_divexact :: "int \<Rightarrow> int \<Rightarrow> int"
  mpz_get_ui :: "int \<Rightarrow> nat"
  mpz_get_si :: "int \<Rightarrow> int"
  mpz_fits_sint_p :: "int \<Rightarrow> bool"
  mpz_fits_uint_p :: "int \<Rightarrow> bool"
  mpz_popcount :: "int \<Rightarrow> nat"
  mpz_scan1 :: "int \<Rightarrow> nat \<Rightarrow> nat"
  mpz_sizeinbase_2 :: "int \<Rightarrow> nat"

section \<open>The methods of Integer\<close>

definition Integer_bitwiseOr :: "gmp \<Rightarrow> int \<Rightarrow> int \<Rightarrow> int" where
  "Integer_bitwiseOr G x y = mpz_ior G x y"

definition Integer_bitwiseAnd :: "gmp \<Rightarrow> int \<Rightarrow> int \<Rightarrow> int" where
  "Integer_bitwiseAnd G x y = mpz_and G x y"

definition Integer_bitwiseXor :: "gmp \<Rightarrow> int \<Rightarrow> int \<Rightarrow> int" where
  "Integer_bitwiseXor G x y = mpz_xor G x y"

definition Integer_bitwiseNot :: "gmp \<Rightarrow> int \<Rightarrow> int" where
  "Integer_bitwiseNot G x = mpz_com G x"

definition Integer_multiplyByPow2 :: "gmp \<Rightarrow> int \<Rightarrow> nat \<Rightarrow> int" where
  "Integer_multiplyByPow2 G x pow = mpz_mul_2exp G x pow"

definition Integer_setBit :: "gmp \<Rightarrow> int \<Rightarrow> nat \<Rightarrow> int" where
  "Integer_setBit G x i = mpz_setbit G x i"

definition Integer_toUnsignedInt :: "gmp \<Rightarrow> int \<Rightarrow> nat" where
  "Integer_toUnsignedInt G x = u32 (mpz_get_ui G x)"

text \<open>\<open>high\<close> is a \<open>uint32_t\<close>, and so is \<open>high + 1\<close>: with \<open>bitCount = 0\<close> both wrap around and the
  remainder is taken modulo \<open>2 ^ 0\<close>.\<close>

definition Integer_extractBitRange :: "gmp \<Rightarrow> int \<Rightarrow> nat \<Rightarrow> nat \<Rightarrow> int" where
  "Integer_extractBitRange G x bitCount low =
     (let high = u32_sub (low + bitCount) 1;
          rem = mpz_fdiv_r_2exp G x (u32 (high + 1))
      in mpz_fdiv_q_2exp G rem low)"

definition Integer_floorDivideQuotient :: "gmp \<Rightarrow> int \<Rightarrow> int \<Rightarrow> int" where
  "Integer_floorDivideQuotient G x y = mpz_fdiv_q G x y"

definition Integer_floorDivideRemainder :: "gmp \<Rightarrow> int \<Rightarrow> int \<Rightarrow> int" where
  "Integer_floorDivideRemainder G x y = mpz_fdiv_r G x y"

definition Integer_floorQR :: "gmp \<Rightarrow> int \<Rightarrow> int \<Rightarrow> int \<times> int" where
  "Integer_floorQR G x y = mpz_fdiv_qr G x y"

definition Integer_ceilingDivideQuotient :: "gmp \<Rightarrow> int \<Rightarrow> int \<Rightarrow> int" where
  "Integer_ceilingDivideQuotient G x y = mpz_cdiv_q G x y"

definition Integer_ceilingDivideRemainder :: "gmp \<Rightarrow> int \<Rightarrow> int \<Rightarrow> int" where
  "Integer_ceilingDivideRemainder G x y = mpz_cdiv_r G x y"

definition Integer_sgn :: "int \<Rightarrow> int" where
  "Integer_sgn x = (if x < 0 then - 1 else if x = 0 then 0 else 1)"

definition Integer_strictlyPositive :: "int \<Rightarrow> bool" where
  "Integer_strictlyPositive x \<longleftrightarrow> Integer_sgn x > 0"

definition Integer_strictlyNegative :: "int \<Rightarrow> bool" where
  "Integer_strictlyNegative x \<longleftrightarrow> Integer_sgn x < 0"

definition Integer_isZero :: "int \<Rightarrow> bool" where
  "Integer_isZero x \<longleftrightarrow> Integer_sgn x = 0"

definition Integer_isBitSet :: "gmp \<Rightarrow> int \<Rightarrow> nat \<Rightarrow> bool" where
  "Integer_isBitSet G x i \<longleftrightarrow> \<not> Integer_isZero (Integer_extractBitRange G x 1 i)"

definition Integer_testBit :: "gmp \<Rightarrow> int \<Rightarrow> nat \<Rightarrow> bool" where
  "Integer_testBit G x n \<longleftrightarrow> mpz_tstbit G x n"

text \<open>The inner test reads the sign of the remainder, as the source does.\<close>

definition Integer_euclidianQR :: "gmp \<Rightarrow> int \<Rightarrow> int \<Rightarrow> int \<times> int" where
  "Integer_euclidianQR G x y =
     (case Integer_floorQR G x y of (q, r) \<Rightarrow>
        if Integer_strictlyNegative r then
          if Integer_sgn r \<ge> 0 then (q - 1, r + y) else (q + 1, r - y)
        else (q, r))"

definition Integer_euclidianDivideQuotient :: "gmp \<Rightarrow> int \<Rightarrow> int \<Rightarrow> int" where
  "Integer_euclidianDivideQuotient G x y = fst (Integer_euclidianQR G x y)"

definition Integer_euclidianDivideRemainder :: "gmp \<Rightarrow> int \<Rightarrow> int \<Rightarrow> int" where
  "Integer_euclidianDivideRemainder G x y = snd (Integer_euclidianQR G x y)"

definition Integer_exactQuotient :: "gmp \<Rightarrow> int \<Rightarrow> int \<Rightarrow> int" where
  "Integer_exactQuotient G x y = mpz_divexact G x y"

definition Integer_modByPow2 :: "gmp \<Rightarrow> int \<Rightarrow> nat \<Rightarrow> int" where
  "Integer_modByPow2 G x exp = mpz_fdiv_r_2exp G x exp"

definition Integer_divByPow2 :: "gmp \<Rightarrow> int \<Rightarrow> nat \<Rightarrow> int" where
  "Integer_divByPow2 G x exp = mpz_fdiv_q_2exp G x exp"

definition Integer_divides :: "gmp \<Rightarrow> int \<Rightarrow> int \<Rightarrow> bool" where
  "Integer_divides G x y = mpz_divisible_p G y x"

definition Integer_abs :: "int \<Rightarrow> int" where
  "Integer_abs x = (if x \<ge> 0 then x else - x)"

text \<open>The loop \<open>for (i = size; i < size + amount; ++i) mpz_setbit(res, i)\<close>.\<close>

primrec oneExtend_loop :: "gmp \<Rightarrow> nat \<Rightarrow> nat \<Rightarrow> int \<Rightarrow> int" where
  "oneExtend_loop G sz 0 res = res"
| "oneExtend_loop G sz (Suc k) res = mpz_setbit G (oneExtend_loop G sz k res) (sz + k)"

definition Integer_oneExtend :: "gmp \<Rightarrow> int \<Rightarrow> nat \<Rightarrow> nat \<Rightarrow> int" where
  "Integer_oneExtend G x sz amount = oneExtend_loop G sz (u32 (sz + amount) - sz) x"

definition Integer_fitsSignedInt :: "gmp \<Rightarrow> int \<Rightarrow> bool" where
  "Integer_fitsSignedInt G x = mpz_fits_sint_p G x"

definition Integer_fitsUnsignedInt :: "gmp \<Rightarrow> int \<Rightarrow> bool" where
  "Integer_fitsUnsignedInt G x = mpz_fits_uint_p G x"

definition Integer_getSignedInt :: "gmp \<Rightarrow> int \<Rightarrow> int exc" where
  "Integer_getSignedInt G x =
     (if \<not> x \<le> 2 ^ 31 - 1 then Inl IllegalArgumentException
      else if \<not> x \<ge> - (2 ^ 31) then Inl IllegalArgumentException
      else if \<not> Integer_fitsSignedInt G x then Inl IllegalArgumentException
      else Inr (mpz_get_si G x))"

definition Integer_getUnsignedInt :: "gmp \<Rightarrow> int \<Rightarrow> nat exc" where
  "Integer_getUnsignedInt G x =
     (if \<not> x \<le> 2 ^ 32 - 1 then Inl IllegalArgumentException
      else if \<not> x \<ge> 0 then Inl IllegalArgumentException
      else if \<not> Integer_fitsSignedInt G x then Inl IllegalArgumentException
      else Inr (u32 (mpz_get_ui G x)))"

definition Integer_getLong :: "gmp \<Rightarrow> int \<Rightarrow> int exc" where
  "Integer_getLong G x =
     (let si = mpz_get_si G x
      in if x = si then Inr si else Inl IllegalArgumentException)"

definition Integer_getUnsignedLong :: "gmp \<Rightarrow> int \<Rightarrow> nat exc" where
  "Integer_getUnsignedLong G x =
     (let ui = mpz_get_ui G x
      in if x = int ui then Inr ui else Inl IllegalArgumentException)"

definition Integer_isPow2 :: "gmp \<Rightarrow> int \<Rightarrow> nat" where
  "Integer_isPow2 G x =
     (if x \<le> 0 then 0
      else if mpz_popcount G x = 1 then u32 (mpz_scan1 G x 0 + 1) else 0)"

definition Integer_length :: "gmp \<Rightarrow> int \<Rightarrow> nat" where
  "Integer_length G x = (if Integer_sgn x = 0 then 1 else mpz_sizeinbase_2 G x)"

section \<open>What GMP documents\<close>

text \<open>The statements of the GMP manual on the functions above (Integer Division, Integer Logic and
  Bit Manipulation, Converting Integers). Division functions promise nothing for a zero divisor.\<close>

locale gmp_documented =
  fixes G :: gmp
  assumes ior: "mpz_ior G a b = or a b"
    and and_: "mpz_and G a b = and a b"
    and xor: "mpz_xor G a b = xor a b"
    and com: "mpz_com G a = not a"
    and mul_2exp: "mpz_mul_2exp G a n = a * 2 ^ n"
    and setbit: "mpz_setbit G a n = set_bit n a"
    and tstbit: "mpz_tstbit G a n = bit a n"
    and fdiv_r_2exp: "mpz_fdiv_r_2exp G a n = a mod 2 ^ n"
    and fdiv_q_2exp: "mpz_fdiv_q_2exp G a n = a div 2 ^ n"
    and fdiv_q: "b \<noteq> 0 \<Longrightarrow> mpz_fdiv_q G a b = a div b"
    and fdiv_r: "b \<noteq> 0 \<Longrightarrow> mpz_fdiv_r G a b = a mod b"
    and fdiv_qr: "b \<noteq> 0 \<Longrightarrow> mpz_fdiv_qr G a b = (a div b, a mod b)"
    and cdiv_q: "b \<noteq> 0 \<Longrightarrow> mpz_cdiv_q G a b = - (- a div b)"
    and cdiv_r: "b \<noteq> 0 \<Longrightarrow> mpz_cdiv_r G a b = a - b * mpz_cdiv_q G a b"
    and divisible_p: "mpz_divisible_p G a b = (b dvd a)"
    and divexact: "b \<noteq> 0 \<Longrightarrow> b dvd a \<Longrightarrow> mpz_divexact G a b = a div b"
    and get_ui: "mpz_get_ui G a = nat (\<bar>a\<bar> mod 2 ^ 64)"
    and get_si: "- (2 ^ 63) \<le> a \<Longrightarrow> a < 2 ^ 63 \<Longrightarrow> mpz_get_si G a = a"
    and get_si_range: "- (2 ^ 63) \<le> mpz_get_si G a" "mpz_get_si G a < 2 ^ 63"
    and fits_sint: "mpz_fits_sint_p G a = (- (2 ^ 31) \<le> a \<and> a < 2 ^ 31)"
    and fits_uint: "mpz_fits_uint_p G a = (0 \<le> a \<and> a < 2 ^ 32)"
    and popcount: "0 \<le> a \<Longrightarrow> mpz_popcount G a = card {i. bit a i}"
    and scan1: "s \<le> i \<Longrightarrow> bit a i \<Longrightarrow> mpz_scan1 G a s = (LEAST j. s \<le> j \<and> bit a j)"
    and sizeinbase_2: "a \<noteq> 0 \<Longrightarrow> 0 < mpz_sizeinbase_2 G a \<and>
          2 ^ (mpz_sizeinbase_2 G a - 1) \<le> \<bar>a\<bar> \<and> \<bar>a\<bar> < 2 ^ mpz_sizeinbase_2 G a"
begin

lemma bitwise [simp]:
  "Integer_bitwiseOr G x y = or x y"
  "Integer_bitwiseAnd G x y = and x y"
  "Integer_bitwiseXor G x y = xor x y"
  "Integer_bitwiseNot G x = not x"
  by (simp_all add: Integer_bitwiseOr_def Integer_bitwiseAnd_def Integer_bitwiseXor_def
      Integer_bitwiseNot_def ior and_ xor com)

lemma pow2_ops [simp]:
  "Integer_multiplyByPow2 G x n = x * 2 ^ n"
  "Integer_modByPow2 G x n = x mod 2 ^ n"
  "Integer_divByPow2 G x n = x div 2 ^ n"
  "Integer_setBit G x n = set_bit n x"
  by (simp_all add: Integer_multiplyByPow2_def Integer_modByPow2_def Integer_divByPow2_def
      Integer_setBit_def mul_2exp fdiv_r_2exp fdiv_q_2exp setbit)

lemma toUnsignedInt [simp]: "0 \<le> x \<Longrightarrow> x < 2 ^ 32 \<Longrightarrow> Integer_toUnsignedInt G x = nat x"
proof -
  assume x: "0 \<le> x" "x < 2 ^ 32"
  then have "x mod 2 ^ 64 = x" by simp
  with x show ?thesis by (simp add: Integer_toUnsignedInt_def get_ui nat_less_iff)
qed

lemma extractBitRange [simp]:
  assumes "0 < n" and "low + n < 2 ^ 32"
  shows "Integer_extractBitRange G x n low = (x div 2 ^ low) mod 2 ^ n"
proof -
  have "u32 (u32_sub (low + n) 1 + 1) = low + n"
    using assms by simp
  then show ?thesis
    by (simp add: Integer_extractBitRange_def fdiv_r_2exp fdiv_q_2exp int_mod_pow2_div)
qed

text \<open>An empty range extracts zero, which depends on \<open>high + 1\<close> wrapping around.\<close>

lemma extractBitRange_empty [simp]: "Integer_extractBitRange G x 0 0 = 0"
  by (simp add: Integer_extractBitRange_def fdiv_r_2exp fdiv_q_2exp u32_sub_wrap u32_def)

lemma isBitSet [simp]: "i < 2 ^ 32 - 1 \<Longrightarrow> Integer_isBitSet G x i \<longleftrightarrow> bit x i"
  by (simp add: Integer_isBitSet_def Integer_isZero_def Integer_sgn_def bit_iff_odd odd_iff_mod_2_eq_one)

lemma testBit [simp]: "Integer_testBit G x n \<longleftrightarrow> bit x n"
  by (simp add: Integer_testBit_def tstbit)

lemma oneExtend_loop_eq:
  "0 \<le> x \<Longrightarrow> x < 2 ^ sz \<Longrightarrow> oneExtend_loop G sz k x = x + 2 ^ sz * (2 ^ k - 1)"
proof (induction k)
  case 0
  then show ?case by simp
next
  case (Suc k)
  let ?y = "x + 2 ^ sz * (2 ^ k - 1)"
  have nonneg: "0 \<le> ?y" using Suc.prems by simp
  have "?y < 2 ^ (sz + k)"
    using Suc.prems by (simp add: power_add algebra_simps)
  then have "take_bit (sz + k) ?y = ?y"
    using nonneg by (simp add: take_bit_int_eq_self_iff)
  then have "\<not> bit ?y (sz + k)"
    by (metis bit_take_bit_iff less_irrefl)
  then have "set_bit (sz + k) ?y = ?y + 2 ^ (sz + k)"
    by (simp add: set_bit_eq)
  moreover have "oneExtend_loop G sz (Suc k) x = set_bit (sz + k) ?y"
    using Suc by (simp only: oneExtend_loop.simps setbit)
  ultimately have "oneExtend_loop G sz (Suc k) x = ?y + 2 ^ (sz + k)"
    by simp
  then show ?case
    by (simp only: power_add power_Suc) (simp add: algebra_simps)
qed

lemma oneExtend [simp]:
  assumes "0 \<le> x" and "x < 2 ^ sz" and "sz + k < 2 ^ 32"
  shows "Integer_oneExtend G x sz k = x + 2 ^ sz * (2 ^ k - 1)"
  using assms by (simp add: Integer_oneExtend_def oneExtend_loop_eq)

lemma floorDivide [simp]:
  "y \<noteq> 0 \<Longrightarrow> Integer_floorDivideQuotient G x y = x div y"
  "y \<noteq> 0 \<Longrightarrow> Integer_floorDivideRemainder G x y = x mod y"
  by (simp_all add: Integer_floorDivideQuotient_def Integer_floorDivideRemainder_def fdiv_q fdiv_r)

lemma ceilingDivide:
  assumes "y \<noteq> 0"
  shows "x = y * Integer_ceilingDivideQuotient G x y + Integer_ceilingDivideRemainder G x y"
    and "\<bar>Integer_ceilingDivideRemainder G x y\<bar> < \<bar>y\<bar>"
    and "Integer_ceilingDivideRemainder G x y * y \<le> 0"
proof -
  have r: "Integer_ceilingDivideRemainder G x y = - (- x mod y)"
    using assms
    by (simp add: Integer_ceilingDivideRemainder_def cdiv_r cdiv_q minus_mult_div_eq_mod [symmetric])
  show "x = y * Integer_ceilingDivideQuotient G x y + Integer_ceilingDivideRemainder G x y"
    using assms by (simp add: Integer_ceilingDivideQuotient_def Integer_ceilingDivideRemainder_def cdiv_r)
  show "\<bar>Integer_ceilingDivideRemainder G x y\<bar> < \<bar>y\<bar>"
    using assms by (simp add: r abs_mod_less)
  show "Integer_ceilingDivideRemainder G x y * y \<le> 0"
  proof (cases "0 < y")
    case True
    then have "0 \<le> (- x) mod y" by simp
    with True show ?thesis by (simp add: r mult_le_0_iff)
  next
    case False
    then have "(- x) mod y \<le> 0" using assms by simp
    with False show ?thesis by (simp add: r mult_nonpos_nonpos)
  qed
qed

lemma euclidianQR:
  assumes "y \<noteq> 0" and "Integer_euclidianQR G x y = (q, r)"
  shows "x = y * q + r" and "0 \<le> r" and "r < \<bar>y\<bar>"
proof -
  have qr: "(q, r) = (if x mod y < 0 then (x div y + 1, x mod y - y) else (x div y, x mod y))"
    using assms by (auto simp: Integer_euclidianQR_def Integer_floorQR_def fdiv_qr
        Integer_strictlyNegative_def Integer_sgn_def split: if_splits)
  have neg: "y < 0" if "x mod y < 0"
    using that assms(1) pos_mod_sign [of y x] by linarith
  have bound: "y \<le> x mod y" if "y < 0"
    using that by (simp add: order_less_imp_le)
  have div: "y * (x div y) + x mod y = x"
    by simp
  show "x = y * q + r"
    using qr div by (cases "x mod y < 0") (simp_all add: distrib_left)
  show "0 \<le> r"
    using qr neg bound by (auto split: if_splits dest: order_less_imp_le)
  show "r < \<bar>y\<bar>"
    using qr neg abs_mod_less [OF assms(1), of x] by (auto split: if_splits)
qed

lemma exactQuotient [simp]: "y \<noteq> 0 \<Longrightarrow> y dvd x \<Longrightarrow> Integer_exactQuotient G x y = x div y"
  by (simp add: Integer_exactQuotient_def divexact)

lemma divides [simp]: "Integer_divides G x y \<longleftrightarrow> x dvd y"
  by (simp add: Integer_divides_def divisible_p)

lemma getSignedInt:
  "Integer_getSignedInt G x =
     (if - (2 ^ 31) \<le> x \<and> x < 2 ^ 31 then Inr x else Inl IllegalArgumentException)"
  by (auto simp: Integer_getSignedInt_def Integer_fitsSignedInt_def fits_sint get_si)

lemma getUnsignedInt:
  "Integer_getUnsignedInt G x =
     (if 0 \<le> x \<and> x < 2 ^ 31 then Inr (nat x) else Inl IllegalArgumentException)"
  by (auto simp: Integer_getUnsignedInt_def Integer_fitsSignedInt_def fits_sint get_ui nat_less_iff)

lemma getLong:
  "Integer_getLong G x =
     (if - (2 ^ 63) \<le> x \<and> x < 2 ^ 63 then Inr x else Inl IllegalArgumentException)"
proof (cases "- (2 ^ 63) \<le> x \<and> x < 2 ^ 63")
  case True
  then show ?thesis by (simp add: Integer_getLong_def get_si)
next
  case False
  then have "x \<noteq> mpz_get_si G x"
    using get_si_range [of x] by auto
  with False show ?thesis by (auto simp: Integer_getLong_def Let_def)
qed

lemma getUnsignedLong:
  "Integer_getUnsignedLong G x =
     (if 0 \<le> x \<and> x < 2 ^ 64 then Inr (nat x) else Inl IllegalArgumentException)"
proof (cases "0 \<le> x \<and> x < 2 ^ 64")
  case True
  then show ?thesis by (simp add: Integer_getUnsignedLong_def get_ui)
next
  case False
  then have "x \<noteq> \<bar>x\<bar> mod 2 ^ 64"
    by (metis pos_mod_bound pos_mod_sign zero_less_numeral zero_less_power)
  with False show ?thesis by (auto simp: Integer_getUnsignedLong_def get_ui Let_def)
qed

lemma length_bounds:
  "x \<noteq> 0 \<Longrightarrow> 2 ^ (Integer_length G x - 1) \<le> \<bar>x\<bar> \<and> \<bar>x\<bar> < 2 ^ Integer_length G x"
  using sizeinbase_2 [of x] by (auto simp: Integer_length_def Integer_sgn_def)

lemma isPow2_power:
  assumes "k < 2 ^ 32 - 1"
  shows "Integer_isPow2 G (2 ^ k) = k + 1"
proof -
  have bits: "{i. bit (2 ^ k :: int) i} = {k}"
    by (auto simp: bit_exp_iff)
  then have "mpz_popcount G (2 ^ k) = 1" by (simp add: popcount)
  moreover have "mpz_scan1 G (2 ^ k) 0 = k"
    using scan1 [of 0 k "2 ^ k"] by (auto simp: bit_exp_iff intro: Least_equality)
  ultimately show ?thesis
    using assms by (simp add: Integer_isPow2_def)
qed

lemma isPow2_nonzero:
  assumes "Integer_isPow2 G x \<noteq> 0"
  shows "\<exists>k. x = 2 ^ k"
proof -
  from assms have pos: "0 < x" and "mpz_popcount G x = 1"
    by (auto simp: Integer_isPow2_def split: if_splits)
  then have "card {i. bit x i} = 1" by (simp add: popcount)
  then obtain k where k: "{i. bit x i} = {k}" by (auto simp: card_1_singleton_iff)
  have "x = 2 ^ k"
    by (rule bit_eqI) (use k in \<open>auto simp: bit_exp_iff\<close>)
  then show ?thesis by blast
qed

end

section \<open>A library with the documented behaviour\<close>

definition gmp_reference :: gmp where
  "gmp_reference = \<lparr>
     mpz_ior = or, mpz_and = and, mpz_xor = xor, mpz_com = not,
     mpz_mul_2exp = (\<lambda>a n. a * 2 ^ n), mpz_setbit = (\<lambda>a n. set_bit n a), mpz_tstbit = bit,
     mpz_fdiv_r_2exp = (\<lambda>a n. a mod 2 ^ n), mpz_fdiv_q_2exp = (\<lambda>a n. a div 2 ^ n),
     mpz_fdiv_q = (div), mpz_fdiv_r = (mod), mpz_fdiv_qr = (\<lambda>a b. (a div b, a mod b)),
     mpz_cdiv_q = (\<lambda>a b. - (- a div b)), mpz_cdiv_r = (\<lambda>a b. a - b * - (- a div b)),
     mpz_divisible_p = (\<lambda>a b. b dvd a), mpz_divexact = (div),
     mpz_get_ui = (\<lambda>a. nat (\<bar>a\<bar> mod 2 ^ 64)),
     mpz_get_si = (\<lambda>a. if - (2 ^ 63) \<le> a \<and> a < 2 ^ 63 then a else 0),
     mpz_fits_sint_p = (\<lambda>a. - (2 ^ 31) \<le> a \<and> a < 2 ^ 31),
     mpz_fits_uint_p = (\<lambda>a. 0 \<le> a \<and> a < 2 ^ 32),
     mpz_popcount = (\<lambda>a. length (filter (bit a) [0..<nat a])),
     mpz_scan1 = (\<lambda>a s. LEAST j. s \<le> j \<and> bit a j),
     mpz_sizeinbase_2 = (\<lambda>a. LEAST k. \<bar>a\<bar> < 2 ^ k) \<rparr>"

lemma nonneg_bit_bound: "0 \<le> (a :: int) \<Longrightarrow> bit a i \<Longrightarrow> i < nat a"
proof -
  assume a: "0 \<le> a" and "bit a i"
  then have "(2 :: int) ^ i \<le> a"
    by (metis bit_take_bit_iff less_irrefl linorder_not_less take_bit_int_eq_self)
  moreover have "int i < 2 ^ i" by simp
  ultimately show ?thesis using a by linarith
qed

lemma least_exceeding_power:
  assumes "a \<noteq> (0 :: int)"
  defines "k \<equiv> LEAST k. \<bar>a\<bar> < 2 ^ k"
  shows "0 < k \<and> 2 ^ (k - 1) \<le> \<bar>a\<bar> \<and> \<bar>a\<bar> < 2 ^ k"
proof -
  have ex: "\<bar>a\<bar> < 2 ^ nat \<bar>a\<bar>"
    by (metis abs_ge_zero int_nat_eq less_exp of_nat_less_iff of_nat_numeral of_nat_power)
  have lt: "\<bar>a\<bar> < 2 ^ k"
    unfolding k_def using ex by (rule LeastI)
  have pos: "0 < k"
    using lt assms(1) by (cases k) auto
  have "\<not> \<bar>a\<bar> < 2 ^ (k - 1)"
    using pos unfolding k_def by (intro not_less_Least) simp
  with lt pos show ?thesis by simp
qed

interpretation reference: gmp_documented gmp_reference
proof
  fix a :: int
  show "mpz_popcount gmp_reference a = card {i. bit a i}" if "0 \<le> a"
  proof -
    have "set (filter (bit a) [0..<nat a]) = {i. bit a i}"
      using nonneg_bit_bound [OF that] by auto
    then show ?thesis
      by (simp add: gmp_reference_def flip: distinct_card)
  qed
  show "0 < mpz_sizeinbase_2 gmp_reference a \<and> 2 ^ (mpz_sizeinbase_2 gmp_reference a - 1) \<le> \<bar>a\<bar> \<and>
      \<bar>a\<bar> < 2 ^ mpz_sizeinbase_2 gmp_reference a" if "a \<noteq> 0"
    using least_exceeding_power [OF that] by (simp add: gmp_reference_def)
qed (simp_all add: gmp_reference_def)

end
