(* ===== verification/BV_Semantics.thy ===== *)
theory BV_Semantics
  imports Prelude
begin

text \<open>
  The reference semantics of fixed-width bit-vectors, after the SMT-LIB theory
  \<open>FixedSizeBitVectors\<close>: a bit-vector of width \<open>n\<close> is an integer in \<open>{0..<2 ^ n}\<close>, arithmetic is
  modulo \<open>2 ^ n\<close>, and the signed operations read the value in two's complement (\<open>sval\<close>). Nothing
  here is taken from the code: these are the functions the \<open>BitVector\<close> class, the bit-blaster and
  the rewrite rules are proved against. The division kinds take the result of a division by zero
  from the kinds file: all ones for the quotient, the dividend for the remainder.
\<close>

definition in_width :: "nat \<Rightarrow> int \<Rightarrow> bool" where
  "in_width n a \<longleftrightarrow> 0 \<le> a \<and> a < 2 ^ n"

definition sval :: "nat \<Rightarrow> int \<Rightarrow> int" where
  "sval n a = (if a < 2 ^ (n - 1) then a else a - 2 ^ n)"

definition bvadd :: "nat \<Rightarrow> int \<Rightarrow> int \<Rightarrow> int" where
  "bvadd n a b = (a + b) mod 2 ^ n"

definition bvsub :: "nat \<Rightarrow> int \<Rightarrow> int \<Rightarrow> int" where
  "bvsub n a b = (a - b) mod 2 ^ n"

definition bvneg :: "nat \<Rightarrow> int \<Rightarrow> int" where
  "bvneg n a = (- a) mod 2 ^ n"

definition bvmul :: "nat \<Rightarrow> int \<Rightarrow> int \<Rightarrow> int" where
  "bvmul n a b = (a * b) mod 2 ^ n"

definition bvnot :: "nat \<Rightarrow> int \<Rightarrow> int" where
  "bvnot n a = 2 ^ n - 1 - a"

definition bvudiv :: "nat \<Rightarrow> int \<Rightarrow> int \<Rightarrow> int" where
  "bvudiv n a b = (if b = 0 then 2 ^ n - 1 else a div b)"

definition bvurem :: "nat \<Rightarrow> int \<Rightarrow> int \<Rightarrow> int" where
  "bvurem n a b = (if b = 0 then a else a mod b)"

definition bvshl :: "nat \<Rightarrow> int \<Rightarrow> int \<Rightarrow> int" where
  "bvshl n a b = (a * 2 ^ nat b) mod 2 ^ n"

definition bvlshr :: "nat \<Rightarrow> int \<Rightarrow> int \<Rightarrow> int" where
  "bvlshr n a b = a div 2 ^ nat b"

definition bvashr :: "nat \<Rightarrow> int \<Rightarrow> int \<Rightarrow> int" where
  "bvashr n a b = (sval n a div 2 ^ nat b) mod 2 ^ n"

definition bvextract :: "nat \<Rightarrow> nat \<Rightarrow> int \<Rightarrow> int" where
  "bvextract hi lo a = (a div 2 ^ lo) mod 2 ^ (hi - lo + 1)"

definition bvconcat :: "nat \<Rightarrow> int \<Rightarrow> int \<Rightarrow> int" where
  "bvconcat m a b = a * 2 ^ m + b"

definition bvsign_extend :: "nat \<Rightarrow> nat \<Rightarrow> int \<Rightarrow> int" where
  "bvsign_extend k n a = sval n a mod 2 ^ (n + k)"

fun bvrepeat :: "nat \<Rightarrow> nat \<Rightarrow> int \<Rightarrow> int" where
  "bvrepeat 0 n a = 0"
| "bvrepeat (Suc k) n a = bvconcat n (bvrepeat k n a) a"

definition bvrotate_left :: "nat \<Rightarrow> nat \<Rightarrow> int \<Rightarrow> int" where
  "bvrotate_left k n a = (a * 2 ^ (k mod n)) mod 2 ^ n + a div 2 ^ (n - k mod n)"

definition bvrotate_right :: "nat \<Rightarrow> nat \<Rightarrow> int \<Rightarrow> int" where
  "bvrotate_right k n a = a div 2 ^ (k mod n) + (a mod 2 ^ (k mod n)) * 2 ^ (n - k mod n)"

text \<open>Signed division truncates towards zero, the remainder follows the sign of the dividend, and
  \<open>bvsmod\<close> follows the sign of the divisor.\<close>

definition trunc_quot :: "int \<Rightarrow> int \<Rightarrow> int" where
  "trunc_quot x y = sgn x * sgn y * (\<bar>x\<bar> div \<bar>y\<bar>)"

definition bvsdiv :: "nat \<Rightarrow> int \<Rightarrow> int \<Rightarrow> int" where
  "bvsdiv n a b = trunc_quot (sval n a) (sval n b) mod 2 ^ n"

definition bvsrem :: "nat \<Rightarrow> int \<Rightarrow> int \<Rightarrow> int" where
  "bvsrem n a b = (sval n a - sval n b * trunc_quot (sval n a) (sval n b)) mod 2 ^ n"

definition bvsmod :: "nat \<Rightarrow> int \<Rightarrow> int \<Rightarrow> int" where
  "bvsmod n a b = (sval n a mod sval n b) mod 2 ^ n"

section \<open>Ranges\<close>

lemma in_widthD: "in_width n a \<Longrightarrow> 0 \<le> a" "in_width n a \<Longrightarrow> a < 2 ^ n"
  by (simp_all add: in_width_def)

lemma in_widthI [intro]: "0 \<le> a \<Longrightarrow> a < 2 ^ n \<Longrightarrow> in_width n a"
  by (simp add: in_width_def)

lemma in_width_mod [simp]: "in_width n (a mod 2 ^ n)"
  by (simp add: in_width_def)

lemma in_width_mod_id [simp]: "in_width n a \<Longrightarrow> a mod 2 ^ n = a"
  by (simp add: in_width_def)

lemma in_width_take_bit: "in_width n a \<longleftrightarrow> take_bit n a = a"
  by (auto simp: in_width_def take_bit_int_eq_self_iff)

lemma in_width_not_bit: "in_width n a \<Longrightarrow> n \<le> i \<Longrightarrow> \<not> bit a i"
  by (metis bit_take_bit_iff in_width_take_bit not_less)

lemma in_width_bit_less: "in_width n a \<Longrightarrow> bit a i \<Longrightarrow> i < n"
  using in_width_not_bit [of n a i] by (cases "i < n") auto

lemma in_width_bitwise [simp]:
  "in_width n a \<Longrightarrow> in_width n b \<Longrightarrow> in_width n (and a b)"
  "in_width n a \<Longrightarrow> in_width n b \<Longrightarrow> in_width n (or a b)"
  "in_width n a \<Longrightarrow> in_width n b \<Longrightarrow> in_width n (xor a b)"
  by (simp_all add: in_width_take_bit)

lemma in_width_ones [simp]: "in_width n (2 ^ n - 1)"
  by (simp add: in_width_def)

lemma bit_ones: "bit (2 ^ n - 1 :: int) i \<longleftrightarrow> i < n"
  by (simp add: bit_mask_iff mask_eq_exp_minus_1 [symmetric])

lemma in_width_zero [simp]: "in_width n 0"
  by (simp add: in_width_def)

lemma in_width_mono: "in_width n a \<Longrightarrow> n \<le> m \<Longrightarrow> in_width m a"
proof -
  assume a: "in_width n a" and "n \<le> m"
  then have "(2 :: int) ^ n \<le> 2 ^ m" by (intro power_increasing) auto
  with a show ?thesis unfolding in_width_def by linarith
qed

lemma in_width_ops [simp]:
  "in_width n (bvadd n a b)"
  "in_width n (bvsub n a b)"
  "in_width n (bvneg n a)"
  "in_width n (bvmul n a b)"
  "in_width n (bvshl n a b)"
  "in_width n (bvashr n a b)"
  "in_width (n + k) (bvsign_extend k n a)"
  "in_width (k + n) (bvsign_extend k n a)"
  "in_width n (bvsdiv n a b)"
  "in_width n (bvsrem n a b)"
  "in_width n (bvsmod n a b)"
  by (simp_all add: bvadd_def bvsub_def bvneg_def bvmul_def bvshl_def bvashr_def bvsign_extend_def
      bvsdiv_def bvsrem_def bvsmod_def add.commute)

lemma in_width_bvextract [simp]: "in_width (Suc (hi - lo)) (bvextract hi lo a)"
  unfolding bvextract_def Suc_eq_plus1 by (rule in_width_mod)

lemma in_width_bvnot [simp]: "in_width n a \<Longrightarrow> in_width n (bvnot n a)"
  by (auto simp: bvnot_def in_width_def)

lemma in_width_div [simp]: "in_width n a \<Longrightarrow> 0 \<le> b \<Longrightarrow> in_width n (a div b)"
proof -
  assume a: "in_width n a" and b: "0 \<le> b"
  have "a div b \<le> a"
  proof (cases "b = 0")
    case False
    then have "a div b \<le> a div 1"
      using a b by (intro zdiv_mono2) (auto simp: in_width_def)
    then show ?thesis by simp
  qed (use a in \<open>simp add: in_width_def\<close>)
  moreover have "0 \<le> a div b"
    using a b by (simp add: in_width_def div_int_pos_iff)
  ultimately show ?thesis
    using a unfolding in_width_def by linarith
qed

section \<open>Sign bit\<close>

lemma sval_top_bit:
  assumes "in_width n a" and "0 < n"
  shows "sval n a = a mod 2 ^ (n - 1) - 2 ^ (n - 1) * of_bool (bit a (n - 1))"
    and "bit a (n - 1) \<longleftrightarrow> 2 ^ (n - 1) \<le> a"
proof -
  obtain m where n: "n = Suc m" using assms(2) by (cases n) auto
  define r where "r = a mod 2 ^ m"
  have lt: "r < 2 ^ m" and ge: "0 \<le> r" by (simp_all add: r_def)
  have am: "a mod 2 ^ n = a" using assms(1) by simp
  have e: "a mod 2 ^ n = r + 2 ^ m * of_bool (bit a m)"
    by (simp only: n r_def int_mod_pow2_Suc)
  have pos: "a = r + 2 ^ m \<and> sval n a = r - 2 ^ m \<and> 2 ^ m \<le> a" if "bit a m"
  proof -
    have "r + 2 ^ m * of_bool (bit a m) = r + 2 ^ m" using that by simp
    then have "a = r + 2 ^ m" by (rule trans [OF trans [OF am [symmetric] e]])
    then show ?thesis using ge unfolding sval_def n by force
  qed
  have neg: "a = r \<and> sval n a = r \<and> \<not> 2 ^ m \<le> a" if "\<not> bit a m"
  proof -
    have "r + 2 ^ m * of_bool (bit a m) = r" using that by simp
    then have "a = r" by (rule trans [OF trans [OF am [symmetric] e]])
    then show ?thesis using lt unfolding sval_def n by force
  qed
  show "bit a (n - 1) \<longleftrightarrow> 2 ^ (n - 1) \<le> a"
    using pos neg by (auto simp: n)
  show "sval n a = a mod 2 ^ (n - 1) - 2 ^ (n - 1) * of_bool (bit a (n - 1))"
    unfolding n diff_Suc_1 r_def [symmetric] using pos neg unfolding n by (cases "bit a m") auto
qed

lemma sval_compare:
  assumes "in_width n a" and "in_width n b" and "0 < n"
  shows "sval n a < sval n b \<longleftrightarrow>
      bit a (n - 1) = bit b (n - 1) \<and> a mod 2 ^ (n - 1) < b mod 2 ^ (n - 1) \<or> bit a (n - 1) \<and> \<not> bit b (n - 1)"
    and "sval n a \<le> sval n b \<longleftrightarrow>
      bit a (n - 1) = bit b (n - 1) \<and> a mod 2 ^ (n - 1) \<le> b mod 2 ^ (n - 1) \<or> bit a (n - 1) \<and> \<not> bit b (n - 1)"
proof -
  let ?p = "2 ^ (n - 1) :: int"
  have cmp: "a mod ?p + ?p * of_bool (bit b (n - 1)) < b mod ?p + ?p * of_bool (bit a (n - 1)) \<longleftrightarrow>
      bit b (n - 1) = bit a (n - 1) \<and> a mod ?p < b mod ?p \<or> \<not> bit b (n - 1) \<and> bit a (n - 1)"
    "a mod ?p + ?p * of_bool (bit b (n - 1)) \<le> b mod ?p + ?p * of_bool (bit a (n - 1)) \<longleftrightarrow>
      bit b (n - 1) = bit a (n - 1) \<and> a mod ?p \<le> b mod ?p \<or> \<not> bit b (n - 1) \<and> bit a (n - 1)"
    by (rule int_compare_top_bit; simp)+
  have diff: "x - u < y - v \<longleftrightarrow> x + v < y + u" "x - u \<le> y - v \<longleftrightarrow> x + v \<le> y + u" for x y u v :: int
    by linarith+
  show "sval n a < sval n b \<longleftrightarrow>
      bit a (n - 1) = bit b (n - 1) \<and> a mod ?p < b mod ?p \<or> bit a (n - 1) \<and> \<not> bit b (n - 1)"
    and "sval n a \<le> sval n b \<longleftrightarrow>
      bit a (n - 1) = bit b (n - 1) \<and> a mod ?p \<le> b mod ?p \<or> bit a (n - 1) \<and> \<not> bit b (n - 1)"
    unfolding sval_top_bit(1) [OF assms(1,3)] sval_top_bit(1) [OF assms(2,3)] diff cmp by blast+
qed

end
