(* ===== verification/Bit_Vector.thy ===== *)
theory Bit_Vector
  imports Integer_Util BV_Semantics
begin

text \<open>
  The class \<open>BitVector\<close> of \<open>src/src/util/bitvector.h\<close>: a width and a value. One definition per
  method, in the order of the class; the methods that call \<open>CheckArgument\<close> return \<open>exc\<close> values.
  \<open>bv_wf\<close> is the class invariant (the value is within the width). Inside \<open>gmp_documented\<close> every
  method is shown to keep the invariant and to compute the operation of \<open>BV_Semantics\<close> that
  SMT-LIB gives the corresponding symbol.
\<close>

section \<open>Data and methods\<close>

record bitvector =
  d_size :: nat
  d_value :: int

definition bv_wf :: "bitvector \<Rightarrow> bool" where
  "bv_wf x \<longleftrightarrow> d_size x < 2 ^ 32 \<and> in_width (d_size x) (d_value x)"

definition BitVector :: "gmp \<Rightarrow> nat \<Rightarrow> int \<Rightarrow> bitvector" where
  "BitVector G sz val = \<lparr>d_size = sz, d_value = Integer_modByPow2 G val sz\<rparr>"

definition BitVector_zero :: "nat \<Rightarrow> bitvector" where
  "BitVector_zero sz = \<lparr>d_size = sz, d_value = 0\<rparr>"

definition BitVector_unsigned :: "gmp \<Rightarrow> nat \<Rightarrow> nat \<Rightarrow> bitvector" where
  "BitVector_unsigned G sz z = \<lparr>d_size = sz, d_value = Integer_modByPow2 G (int z) sz\<rparr>"

definition BitVector_resize :: "nat \<Rightarrow> bitvector \<Rightarrow> bitvector" where
  "BitVector_resize sz q = \<lparr>d_size = sz, d_value = d_value q\<rparr>"

definition check_size :: "bitvector \<Rightarrow> bitvector \<Rightarrow> 'a exc \<Rightarrow> 'a exc" where
  "check_size x y r = (if d_size x = d_size y then r else Inl IllegalArgumentException)"

definition BitVector_eq :: "bitvector \<Rightarrow> bitvector \<Rightarrow> bool" where
  "BitVector_eq x y = (if d_size x \<noteq> d_size y then False else d_value x = d_value y)"

definition BitVector_neq :: "bitvector \<Rightarrow> bitvector \<Rightarrow> bool" where
  "BitVector_neq x y = (if d_size x \<noteq> d_size y then True else d_value x \<noteq> d_value y)"

definition BitVector_concat :: "gmp \<Rightarrow> bitvector \<Rightarrow> bitvector \<Rightarrow> bitvector" where
  "BitVector_concat G x other =
     BitVector G (u32 (d_size x + d_size other))
       (Integer_multiplyByPow2 G (d_value x) (d_size other) + d_value other)"

definition BitVector_extract :: "gmp \<Rightarrow> bitvector \<Rightarrow> nat \<Rightarrow> nat \<Rightarrow> bitvector" where
  "BitVector_extract G x high low =
     BitVector G (u32 (u32_sub high low + 1))
       (Integer_extractBitRange G (d_value x) (u32 (u32_sub high low + 1)) low)"

definition BitVector_xor :: "gmp \<Rightarrow> bitvector \<Rightarrow> bitvector \<Rightarrow> bitvector exc" where
  "BitVector_xor G x y =
     check_size x y (Inr (BitVector G (d_size x) (Integer_bitwiseXor G (d_value x) (d_value y))))"

definition BitVector_or :: "gmp \<Rightarrow> bitvector \<Rightarrow> bitvector \<Rightarrow> bitvector exc" where
  "BitVector_or G x y =
     check_size x y (Inr (BitVector G (d_size x) (Integer_bitwiseOr G (d_value x) (d_value y))))"

definition BitVector_and :: "gmp \<Rightarrow> bitvector \<Rightarrow> bitvector \<Rightarrow> bitvector exc" where
  "BitVector_and G x y =
     check_size x y (Inr (BitVector G (d_size x) (Integer_bitwiseAnd G (d_value x) (d_value y))))"

definition BitVector_not :: "gmp \<Rightarrow> bitvector \<Rightarrow> bitvector" where
  "BitVector_not G x = BitVector G (d_size x) (Integer_bitwiseNot G (d_value x))"

definition BitVector_less :: "bitvector \<Rightarrow> bitvector \<Rightarrow> bool" where
  "BitVector_less x y \<longleftrightarrow> d_value x < d_value y"

definition BitVector_leq :: "bitvector \<Rightarrow> bitvector \<Rightarrow> bool" where
  "BitVector_leq x y \<longleftrightarrow> d_value x \<le> d_value y"

definition BitVector_plus :: "gmp \<Rightarrow> bitvector \<Rightarrow> bitvector \<Rightarrow> bitvector exc" where
  "BitVector_plus G x y =
     check_size x y (Inr (BitVector G (d_size x) (d_value x + d_value y)))"

definition BitVector_minus :: "gmp \<Rightarrow> bitvector \<Rightarrow> bitvector \<Rightarrow> bitvector exc" where
  "BitVector_minus G x y =
     check_size x y
       (ebind (BitVector_plus G x (BitVector_not G y)) (\<lambda>s.
        BitVector_plus G s (BitVector G (d_size x) 1)))"

definition BitVector_neg :: "gmp \<Rightarrow> bitvector \<Rightarrow> bitvector exc" where
  "BitVector_neg G x = BitVector_plus G (BitVector_not G x) (BitVector G (d_size x) 1)"

definition BitVector_mult :: "gmp \<Rightarrow> bitvector \<Rightarrow> bitvector \<Rightarrow> bitvector exc" where
  "BitVector_mult G x y =
     check_size x y (Inr (BitVector G (d_size x) (d_value x * d_value y)))"

definition BitVector_setBit :: "gmp \<Rightarrow> bitvector \<Rightarrow> nat \<Rightarrow> bitvector exc" where
  "BitVector_setBit G x i =
     (if i < d_size x then Inr (BitVector G (d_size x) (Integer_setBit G (d_value x) i))
      else Inl IllegalArgumentException)"

definition BitVector_isBitSet :: "gmp \<Rightarrow> bitvector \<Rightarrow> nat \<Rightarrow> bool exc" where
  "BitVector_isBitSet G x i =
     (if i < d_size x then Inr (Integer_isBitSet G (d_value x) i)
      else Inl IllegalArgumentException)"

definition BitVector_unsignedDivTotal :: "gmp \<Rightarrow> bitvector \<Rightarrow> bitvector \<Rightarrow> bitvector exc" where
  "BitVector_unsignedDivTotal G x y =
     check_size x y
       (if d_value y = 0 then
          Inr (BitVector G (d_size x) (Integer_oneExtend G 1 1 (u32_sub (d_size x) 1)))
        else if \<not> d_value x \<ge> 0 then Inl IllegalArgumentException
        else if \<not> d_value y > 0 then Inl IllegalArgumentException
        else Inr (BitVector G (d_size x) (Integer_floorDivideQuotient G (d_value x) (d_value y))))"

definition BitVector_unsignedRemTotal :: "gmp \<Rightarrow> bitvector \<Rightarrow> bitvector \<Rightarrow> bitvector exc" where
  "BitVector_unsignedRemTotal G x y =
     check_size x y
       (if d_value y = 0 then Inr (BitVector G (d_size x) (d_value x))
        else if \<not> d_value x \<ge> 0 then Inl IllegalArgumentException
        else if \<not> d_value y > 0 then Inl IllegalArgumentException
        else Inr (BitVector G (d_size x) (Integer_floorDivideRemainder G (d_value x) (d_value y))))"

definition BitVector_toSignedInt :: "gmp \<Rightarrow> bitvector \<Rightarrow> int" where
  "BitVector_toSignedInt G x =
     (let size = d_size x;
          sign_bit = Integer_extractBitRange G (d_value x) 1 (u32_sub size 1);
          val = Integer_extractBitRange G (d_value x) (u32_sub size 1) 0
      in - 1 * Integer_multiplyByPow2 G sign_bit (u32_sub size 1) + val)"

definition check_compare :: "bitvector \<Rightarrow> bitvector \<Rightarrow> 'a exc \<Rightarrow> 'a exc" where
  "check_compare x y r =
     check_size x y
       (if \<not> d_value x \<ge> 0 then Inl IllegalArgumentException
        else if \<not> d_value y \<ge> 0 then Inl IllegalArgumentException
        else r)"

definition BitVector_signedLessThan :: "gmp \<Rightarrow> bitvector \<Rightarrow> bitvector \<Rightarrow> bool exc" where
  "BitVector_signedLessThan G x y =
     check_compare x y (Inr (BitVector_toSignedInt G x < BitVector_toSignedInt G y))"

definition BitVector_unsignedLessThan :: "bitvector \<Rightarrow> bitvector \<Rightarrow> bool exc" where
  "BitVector_unsignedLessThan x y = check_compare x y (Inr (d_value x < d_value y))"

definition BitVector_signedLessThanEq :: "gmp \<Rightarrow> bitvector \<Rightarrow> bitvector \<Rightarrow> bool exc" where
  "BitVector_signedLessThanEq G x y =
     check_compare x y (Inr (BitVector_toSignedInt G x \<le> BitVector_toSignedInt G y))"

definition BitVector_unsignedLessThanEq :: "bitvector \<Rightarrow> bitvector \<Rightarrow> bool exc" where
  "BitVector_unsignedLessThanEq x y = check_compare x y (Inr (d_value x \<le> d_value y))"

definition BitVector_zeroExtend :: "gmp \<Rightarrow> bitvector \<Rightarrow> nat \<Rightarrow> bitvector" where
  "BitVector_zeroExtend G x amount = BitVector G (u32 (d_size x + amount)) (d_value x)"

definition BitVector_signExtend :: "gmp \<Rightarrow> bitvector \<Rightarrow> nat \<Rightarrow> bitvector" where
  "BitVector_signExtend G x amount =
     (let sign_bit = Integer_extractBitRange G (d_value x) 1 (u32_sub (d_size x) 1)
      in if sign_bit = 0 then BitVector G (u32 (d_size x + amount)) (d_value x)
         else BitVector G (u32 (d_size x + amount)) (Integer_oneExtend G (d_value x) (d_size x) amount))"

definition BitVector_leftShift :: "gmp \<Rightarrow> bitvector \<Rightarrow> bitvector \<Rightarrow> bitvector exc" where
  "BitVector_leftShift G x y =
     (if d_value y > int (d_size x) then Inr (BitVector G (d_size x) 0)
      else if d_value y = 0 then Inr x
      else if \<not> d_value y < Integer_multiplyByPow2 G 1 32 then Inl IllegalArgumentException
      else let amount = Integer_toUnsignedInt G (d_value y)
           in Inr (BitVector G (d_size x) (Integer_multiplyByPow2 G (d_value x) amount)))"

definition BitVector_logicalRightShift :: "gmp \<Rightarrow> bitvector \<Rightarrow> bitvector \<Rightarrow> bitvector exc" where
  "BitVector_logicalRightShift G x y =
     (if d_value y > int (d_size x) then Inr (BitVector G (d_size x) 0)
      else if \<not> d_value y < Integer_multiplyByPow2 G 1 32 then Inl IllegalArgumentException
      else let amount = Integer_toUnsignedInt G (d_value y)
           in Inr (BitVector G (d_size x) (Integer_divByPow2 G (d_value x) amount)))"

definition BitVector_arithRightShift :: "gmp \<Rightarrow> bitvector \<Rightarrow> bitvector \<Rightarrow> bitvector exc" where
  "BitVector_arithRightShift G x y =
     (let sign_bit = Integer_extractBitRange G (d_value x) 1 (u32_sub (d_size x) 1)
      in if d_value y > int (d_size x) then
           (if sign_bit = 0 then Inr (BitVector G (d_size x) 0)
            else Inr (BitVector G (d_size x)
                   (Integer_multiplyByPow2 G (int (d_size x)) (d_size x) - 1)))
         else if d_value y = 0 then Inr x
         else if \<not> d_value y < Integer_multiplyByPow2 G 1 32 then Inl IllegalArgumentException
         else let amount = Integer_toUnsignedInt G (d_value y);
                  rest = Integer_divByPow2 G (d_value x) amount
              in if sign_bit = 0 then Inr (BitVector G (d_size x) rest)
                 else Inr (BitVector G (d_size x)
                        (Integer_oneExtend G rest (u32_sub (d_size x) amount) amount)))"

definition BitVector_isPow2 :: "gmp \<Rightarrow> bitvector \<Rightarrow> nat" where
  "BitVector_isPow2 G x = Integer_isPow2 G (d_value x)"

section \<open>The methods compute the SMT-LIB operations\<close>

lemma check_size_same [simp]: "d_size x = d_size y \<Longrightarrow> check_size x y r = r"
  by (simp add: check_size_def)

lemma check_size_differ [simp]:
  "d_size x \<noteq> d_size y \<Longrightarrow> check_size x y r = Inl IllegalArgumentException"
  by (simp add: check_size_def)

lemma check_compare_same [simp]:
  "bv_wf x \<Longrightarrow> bv_wf y \<Longrightarrow> d_size x = d_size y \<Longrightarrow> check_compare x y r = r"
  by (simp add: check_compare_def bv_wf_def in_width_def)

lemma bv_wfD:
  "bv_wf x \<Longrightarrow> d_size x < 2 ^ 32"
  "bv_wf x \<Longrightarrow> in_width (d_size x) (d_value x)"
  "bv_wf x \<Longrightarrow> 0 \<le> d_value x"
  "bv_wf x \<Longrightarrow> d_value x < 2 ^ d_size x"
  by (simp_all add: bv_wf_def in_width_def)

lemma BitVector_eq_iff [simp]: "BitVector_eq x y \<longleftrightarrow> (x :: bitvector) = y"
  by (cases x; cases y) (auto simp: BitVector_eq_def)

lemma sign_bit_sval:
  assumes "in_width n a" and "0 < n"
  shows "sval n a = - (2 ^ (n - 1)) * (a div 2 ^ (n - 1)) + a mod 2 ^ (n - 1)"
    and "a div 2 ^ (n - 1) = (if a < 2 ^ (n - 1) then 0 else 1)"
proof -
  have p: "(2 :: int) ^ n = 2 * 2 ^ (n - 1)"
    using assms(2) by (metis power_minus_mult mult.commute)
  have q: "a div 2 ^ (n - 1) = (if a < 2 ^ (n - 1) then 0 else 1)"
  proof (cases "a < 2 ^ (n - 1)")
    case False
    have "a div 2 ^ (n - 1) = (a - 2 ^ (n - 1)) div 2 ^ (n - 1) + 1"
      by (simp add: div_add_self2 [symmetric] del: div_add_self2)
    moreover have "(a - 2 ^ (n - 1)) div 2 ^ (n - 1) = 0"
      using False assms(1) p by (intro div_pos_pos_trivial) (auto simp: in_width_def)
    ultimately show ?thesis using False by simp
  qed (use assms(1) in \<open>simp add: in_width_def\<close>)
  then show "a div 2 ^ (n - 1) = (if a < 2 ^ (n - 1) then 0 else 1)" .
  have "a mod 2 ^ (n - 1) = a - 2 ^ (n - 1) * (a div 2 ^ (n - 1))"
    by (simp add: minus_mult_div_eq_mod)
  then show "sval n a = - (2 ^ (n - 1)) * (a div 2 ^ (n - 1)) + a mod 2 ^ (n - 1)"
    using p q by (cases "a < 2 ^ (n - 1)") (simp_all add: sval_def)
qed

lemma bvnot_eq_mod: "(- 1 - a) mod 2 ^ n = bvnot n a" if "in_width n a"
proof -
  have "(- 1 - a) mod 2 ^ n = (bvnot n a - 2 ^ n) mod 2 ^ n"
    by (simp add: bvnot_def)
  also have "\<dots> = bvnot n a mod 2 ^ n"
    by (metis minus_mod_self2)
  finally show ?thesis using that by simp
qed

lemma bvshl_large: "int n \<le> b \<Longrightarrow> bvshl n a b = 0"
proof -
  assume "int n \<le> b"
  then have "(2 :: int) ^ n dvd 2 ^ nat b" by (intro le_imp_power_dvd) linarith
  then show ?thesis by (simp add: bvshl_def)
qed

lemma bvlshr_large: "in_width n a \<Longrightarrow> int n \<le> b \<Longrightarrow> bvlshr n a b = 0"
proof -
  assume a: "in_width n a" and "int n \<le> b"
  then have "(2 :: int) ^ n \<le> 2 ^ nat b" by (intro power_increasing) auto
  then have "a < 2 ^ nat b" using a unfolding in_width_def by linarith
  with a show ?thesis by (simp add: bvlshr_def in_width_def)
qed

lemma div_pow2_less: "(a :: int) < 2 ^ m * 2 ^ k \<Longrightarrow> a div 2 ^ k < 2 ^ m"
proof -
  assume "a < 2 ^ m * 2 ^ k"
  moreover have "a = (a div 2 ^ k) * 2 ^ k + a mod 2 ^ k" by (rule div_mult_mod_eq [symmetric])
  moreover have "0 \<le> a mod 2 ^ k" by simp
  ultimately have "(a div 2 ^ k) * 2 ^ k < 2 ^ m * 2 ^ k" by linarith
  then show ?thesis by (simp only: mult_less_cancel_right) auto
qed

lemma bvashr_nonneg: "in_width n a \<Longrightarrow> a < 2 ^ (n - 1) \<Longrightarrow> bvashr n a b = a div 2 ^ nat b"
  by (simp add: bvashr_def sval_def)

lemma bvashr_neg:
  assumes a: "in_width n a" and neg: "2 ^ (n - 1) \<le> a" and k: "k \<le> n"
  shows "bvashr n a (int k) = a div 2 ^ k + 2 ^ (n - k) * (2 ^ k - 1)"
proof -
  have p: "(2 :: int) ^ n = 2 ^ (n - k) * 2 ^ k"
    using k by (metis le_add_diff_inverse2 power_add)
  have "(a - 2 ^ n) div 2 ^ k = a div 2 ^ k - 2 ^ (n - k)"
    unfolding p using div_mult_self1 [of "2 ^ k :: int" a "- (2 ^ (n - k))"] by simp
  then have "bvashr n a (int k) = (a div 2 ^ k - 2 ^ (n - k) + 2 ^ n) mod 2 ^ n"
    using neg by (simp add: bvashr_def sval_def)
  also have "a div 2 ^ k - 2 ^ (n - k) + 2 ^ n = a div 2 ^ k + 2 ^ (n - k) * (2 ^ k - 1)"
    by (simp add: p algebra_simps)
  also have "\<dots> mod 2 ^ n = \<dots>"
  proof (rule mod_pos_pos_trivial)
    have "0 \<le> a div 2 ^ k" using a by (simp add: in_width_def div_int_pos_iff)
    then show "0 \<le> a div 2 ^ k + 2 ^ (n - k) * (2 ^ k - 1)" by simp
    have "a div 2 ^ k < 2 ^ (n - k)"
      using a p by (simp add: in_width_def div_pow2_less)
    then show "a div 2 ^ k + 2 ^ (n - k) * (2 ^ k - 1) < 2 ^ n"
      by (simp add: p algebra_simps)
  qed
  finally show ?thesis .
qed

lemma bvashr_neg_large:
  assumes a: "in_width n a" and neg: "2 ^ (n - 1) \<le> a" and b: "int n \<le> b"
  shows "bvashr n a b = 2 ^ n - 1"
proof -
  have le: "(2 :: int) ^ n \<le> 2 ^ nat b" using b by (intro power_increasing) auto
  have "sval n a = a - 2 ^ n" using neg by (simp add: sval_def)
  then have "sval n a < 0" and "- (2 ^ nat b) \<le> sval n a"
    using a le unfolding in_width_def by linarith+
  then have "sval n a div 2 ^ nat b = - 1"
    by (intro int_neg_div_pow2)
  then show ?thesis by (simp add: bvashr_def zmod_minus1)
qed

context gmp_documented
begin

lemma BitVector_fields [simp]:
  "d_size (BitVector G n a) = n"
  "d_value (BitVector G n a) = a mod 2 ^ n"
  by (simp_all add: BitVector_def)

lemma bv_wf_BitVector [simp]: "n < 2 ^ 32 \<Longrightarrow> bv_wf (BitVector G n a)"
  by (simp add: bv_wf_def)

lemma BitVector_self [simp]: "bv_wf x \<Longrightarrow> BitVector G (d_size x) (d_value x) = x"
  by (simp add: BitVector_def bv_wf_def)

lemma BitVector_eqI: "in_width n b \<Longrightarrow> a mod 2 ^ n = b \<Longrightarrow> BitVector G n a = BitVector G n b"
  by (simp add: BitVector_def)

lemma not_refines: "bv_wf x \<Longrightarrow> BitVector_not G x = BitVector G (d_size x) (bvnot (d_size x) (d_value x))"
proof -
  assume wf: "bv_wf x"
  have "BitVector_not G x = BitVector G (d_size x) (- 1 - d_value x)"
    by (simp add: BitVector_not_def not_int_def minus_diff_commute)
  also have "\<dots> = BitVector G (d_size x) (bvnot (d_size x) (d_value x))"
    using wf by (intro BitVector_eqI) (simp_all add: bvnot_eq_mod bv_wfD)
  finally show ?thesis .
qed

lemma bitwise_refines:
  assumes "d_size x = d_size y"
  shows "BitVector_xor G x y = Inr (BitVector G (d_size x) (xor (d_value x) (d_value y)))"
    and "BitVector_or G x y = Inr (BitVector G (d_size x) (or (d_value x) (d_value y)))"
    and "BitVector_and G x y = Inr (BitVector G (d_size x) (and (d_value x) (d_value y)))"
  using assms by (simp_all add: BitVector_xor_def BitVector_or_def BitVector_and_def)

lemma plus_refines:
  "d_size x = d_size y \<Longrightarrow>
    BitVector_plus G x y = Inr (BitVector G (d_size x) (bvadd (d_size x) (d_value x) (d_value y)))"
  by (simp add: BitVector_plus_def BitVector_def bvadd_def)

lemma mult_refines:
  "d_size x = d_size y \<Longrightarrow>
    BitVector_mult G x y = Inr (BitVector G (d_size x) (bvmul (d_size x) (d_value x) (d_value y)))"
  by (simp add: BitVector_mult_def BitVector_def bvmul_def)

lemma neg_refines:
  assumes wf: "bv_wf x"
  shows "BitVector_neg G x = Inr (BitVector G (d_size x) (bvneg (d_size x) (d_value x)))"
proof -
  have "(bvnot n a mod 2 ^ n + 1 mod 2 ^ n) mod 2 ^ n = (- a) mod 2 ^ n" for n :: nat and a :: int
    unfolding mod_add_eq by (simp add: bvnot_def)
  then show ?thesis
    using wf by (simp add: BitVector_neg_def not_refines plus_refines bvadd_def bvneg_def)
qed

lemma minus_refines:
  assumes wf: "bv_wf y" and sz: "d_size x = d_size y"
  shows "BitVector_minus G x y = Inr (BitVector G (d_size x) (bvsub (d_size x) (d_value x) (d_value y)))"
proof -
  have "(a + bvnot n b + 1) mod 2 ^ n = (a - b) mod 2 ^ n" for n :: nat and a b :: int
    using mod_add_self2 [of "a - b" "2 ^ n"] by (simp add: bvnot_def algebra_simps)
  then show ?thesis
    using wf sz by (simp add: BitVector_minus_def not_refines plus_refines bvadd_def bvsub_def
        mod_add_left_eq mod_add_right_eq mod_add_eq)
qed

lemma concat_refines:
  assumes "bv_wf x" and "bv_wf y" and "d_size x + d_size y < 2 ^ 32"
  shows "BitVector_concat G x y =
    BitVector G (d_size x + d_size y) (bvconcat (d_size y) (d_value x) (d_value y))"
  using assms by (simp add: BitVector_concat_def bvconcat_def)

lemma extract_refines:
  assumes "bv_wf x" and "low \<le> high" and "high < d_size x"
  shows "BitVector_extract G x high low = BitVector G (high - low + 1) (bvextract high low (d_value x))"
proof -
  have "high < 2 ^ 32 - 1" using assms by (simp add: bv_wf_def)
  then show ?thesis
    using assms by (simp add: BitVector_extract_def bvextract_def)
qed

lemma setBit_refines:
  assumes "bv_wf x" and "i < d_size x"
  shows "BitVector_setBit G x i = Inr (BitVector G (d_size x) (set_bit i (d_value x)))"
  using assms by (simp add: BitVector_setBit_def)

lemma isBitSet_refines:
  assumes "bv_wf x" and "i < d_size x"
  shows "BitVector_isBitSet G x i = Inr (bit (d_value x) i)"
proof -
  have "i < 2 ^ 32 - 1" using assms by (simp add: bv_wf_def)
  then show ?thesis using assms by (simp add: BitVector_isBitSet_def)
qed

lemma unsignedDivTotal_refines:
  assumes wf: "bv_wf x" "bv_wf y" and sz: "d_size x = d_size y" "0 < d_size x"
  shows "BitVector_unsignedDivTotal G x y =
    Inr (BitVector G (d_size x) (bvudiv (d_size x) (d_value x) (d_value y)))"
proof (cases "d_value y = 0")
  case True
  have "1 + 2 * (2 ^ (d_size x - 1) - 1) = (2 :: int) ^ d_size x - 1"
    using sz(2) by (cases "d_size x") auto
  moreover have "Integer_oneExtend G 1 1 (d_size x - 1) = 1 + 2 ^ 1 * (2 ^ (d_size x - 1) - 1)"
    using wf(1) sz(2) by (intro oneExtend) (auto simp: bv_wf_def)
  ultimately show ?thesis
    using True wf sz by (simp add: BitVector_unsignedDivTotal_def bvudiv_def bv_wf_def)
next
  case False
  then show ?thesis
    using wf sz by (auto simp: BitVector_unsignedDivTotal_def bvudiv_def bv_wf_def in_width_def)
qed

lemma unsignedRemTotal_refines:
  assumes wf: "bv_wf x" "bv_wf y" and sz: "d_size x = d_size y"
  shows "BitVector_unsignedRemTotal G x y =
    Inr (BitVector G (d_size x) (bvurem (d_size x) (d_value x) (d_value y)))"
  using assms by (auto simp: BitVector_unsignedRemTotal_def bvurem_def bv_wf_def in_width_def)

lemma sign_bit:
  assumes wf: "bv_wf x" and pos: "0 < d_size x"
  shows "Integer_extractBitRange G (d_value x) 1 (u32_sub (d_size x) 1) =
    (if d_value x < 2 ^ (d_size x - 1) then 0 else 1)"
proof -
  have "Integer_extractBitRange G (d_value x) 1 (u32_sub (d_size x) 1) =
      d_value x div 2 ^ (d_size x - 1) mod 2 ^ 1"
    using wf pos by (subst extractBitRange) (auto simp: bv_wf_def)
  then show ?thesis
    using sign_bit_sval(2) [of "d_size x" "d_value x"] wf pos by (simp add: bv_wf_def)
qed

lemma toSignedInt_refines:
  assumes wf: "bv_wf x" and pos: "0 < d_size x"
  shows "BitVector_toSignedInt G x = sval (d_size x) (d_value x)"
proof -
  have "Integer_extractBitRange G (d_value x) (d_size x - 1) 0 = d_value x mod 2 ^ (d_size x - 1)"
  proof (cases "d_size x = 1")
    case False
    then show ?thesis using wf pos by (subst extractBitRange) (auto simp: bv_wf_def)
  qed simp
  then show ?thesis
    using sign_bit [OF wf pos] sign_bit_sval [of "d_size x" "d_value x"] wf pos
    by (simp add: BitVector_toSignedInt_def bv_wf_def Let_def)
qed

lemma compare_refines:
  assumes wf: "bv_wf x" "bv_wf y" and sz: "d_size x = d_size y" "0 < d_size x"
  shows "BitVector_signedLessThan G x y =
      Inr (sval (d_size x) (d_value x) < sval (d_size x) (d_value y))"
    and "BitVector_signedLessThanEq G x y =
      Inr (sval (d_size x) (d_value x) \<le> sval (d_size x) (d_value y))"
    and "BitVector_unsignedLessThan x y = Inr (d_value x < d_value y)"
    and "BitVector_unsignedLessThanEq x y = Inr (d_value x \<le> d_value y)"
  using assms by (simp_all add: BitVector_signedLessThan_def BitVector_signedLessThanEq_def
      BitVector_unsignedLessThan_def BitVector_unsignedLessThanEq_def toSignedInt_refines)

lemma zeroExtend_refines:
  assumes "bv_wf x" and "d_size x + k < 2 ^ 32"
  shows "BitVector_zeroExtend G x k = BitVector G (d_size x + k) (d_value x)"
  using assms by (simp add: BitVector_zeroExtend_def)

lemma signExtend_refines:
  assumes wf: "bv_wf x" and pos: "0 < d_size x" and lim: "d_size x + k < 2 ^ 32"
  shows "BitVector_signExtend G x k =
    BitVector G (d_size x + k) (bvsign_extend k (d_size x) (d_value x))"
proof (cases "d_value x < 2 ^ (d_size x - 1)")
  case True
  then show ?thesis
    using sign_bit [OF wf pos] lim
    by (simp add: BitVector_signExtend_def bvsign_extend_def sval_def BitVector_def)
next
  case False
  have "(d_value x - 2 ^ d_size x) mod 2 ^ (d_size x + k) =
      (d_value x - 2 ^ d_size x + 2 ^ (d_size x + k)) mod 2 ^ (d_size x + k)"
    by simp
  then have "(d_value x + 2 ^ d_size x * (2 ^ k - 1)) mod 2 ^ (d_size x + k) =
      (d_value x - 2 ^ d_size x) mod 2 ^ (d_size x + k)"
    by (simp add: power_add algebra_simps)
  then show ?thesis
    using False sign_bit [OF wf pos] lim wf
    by (simp add: BitVector_signExtend_def bvsign_extend_def sval_def BitVector_def bv_wfD)
qed

lemma shift_amount:
  assumes "bv_wf x" and "bv_wf y" and "\<not> d_value y > int (d_size x)"
  shows "d_value y < 2 ^ 32" and "Integer_toUnsignedInt G (d_value y) = nat (d_value y)"
proof -
  show "d_value y < 2 ^ 32"
    using assms by (auto simp: bv_wf_def)
  then show "Integer_toUnsignedInt G (d_value y) = nat (d_value y)"
    using assms(2) by (simp add: bv_wf_def in_width_def)
qed

lemma leftShift_refines:
  assumes wf: "bv_wf x" "bv_wf y"
  shows "BitVector_leftShift G x y =
    Inr (BitVector G (d_size x) (bvshl (d_size x) (d_value x) (d_value y)))"
  using wf shift_amount [OF wf] bvshl_large [of "d_size x" "d_value y" "d_value x"]
  by (auto simp: BitVector_leftShift_def BitVector_def bvshl_def bv_wf_def Let_def)

lemma logicalRightShift_refines:
  assumes wf: "bv_wf x" "bv_wf y"
  shows "BitVector_logicalRightShift G x y =
    Inr (BitVector G (d_size x) (bvlshr (d_size x) (d_value x) (d_value y)))"
  using shift_amount [OF wf] bvlshr_large [of "d_size x" "d_value x" "d_value y"] wf
  by (auto simp: BitVector_logicalRightShift_def bvlshr_def bv_wf_def Let_def)

lemma arithRightShift_refines:
  assumes wf: "bv_wf x" "bv_wf y" and pos: "0 < d_size x"
  shows "BitVector_arithRightShift G x y =
    Inr (BitVector G (d_size x) (bvashr (d_size x) (d_value x) (d_value y)))"
proof -
  let ?n = "d_size x" and ?a = "d_value x" and ?b = "d_value y"
  have w: "in_width ?n ?a" and b: "0 \<le> ?b" using wf by (auto simp: bv_wf_def in_width_def)
  note [simp] = sign_bit [OF wf(1) pos, simplified]
  consider (zero) "?b = 0" | (over) "?b > int ?n" | (amount) "?b \<noteq> 0" "\<not> ?b > int ?n" by blast
  then show ?thesis
  proof cases
    case zero
    then show ?thesis
      using wf(1) w by (simp add: BitVector_arithRightShift_def Let_def bvashr_def sval_def
          BitVector_def bv_wf_def)
  next
    case over
    then show ?thesis
      using bvashr_neg_large [OF w, of ?b] bvashr_nonneg [OF w, of ?b] bvlshr_large [OF w, of ?b]
      by (auto simp: BitVector_arithRightShift_def Let_def BitVector_def bvlshr_def)
        (simp_all add: zmod_minus1 mod_diff_left_eq [symmetric])
  next
    case amount
    then have k: "nat ?b \<le> ?n" "int (nat ?b) = ?b" using b by auto
    then have "Integer_oneExtend G (?a div 2 ^ nat ?b) (?n - nat ?b) (nat ?b) =
        ?a div 2 ^ nat ?b + 2 ^ (?n - nat ?b) * (2 ^ nat ?b - 1)"
      using w wf by (intro oneExtend div_pow2_less)
        (auto simp: in_width_def bv_wf_def div_int_pos_iff power_add [symmetric])
    then show ?thesis
      using amount k shift_amount [OF wf amount(2)] bvashr_nonneg [OF w, of ?b]
        bvashr_neg [OF w _ k(1)] wf
      by (auto simp: BitVector_arithRightShift_def Let_def bv_wf_def)
  qed
qed

end

end
