(* ===== verification/Nodes.thy ===== *)
theory Nodes
  imports Bit_Vector
begin

text \<open>
  Terms and their types. A \<open>node\<close> is a \<open>CVC4::Node\<close> of the Boolean and bit-vector fragment: a
  variable, a constant or a kind applied to children. Kinds follow \<open>theory/booleans/kinds\<close>,
  \<open>theory/builtin/kinds\<close> and \<open>theory/bv/kinds\<close>; the indexed kinds carry the payload of their
  operator constant (\<open>BitVectorExtract\<close>, \<open>BitVectorBitOf\<close>, ...). Nodes are hash-consed in the code,
  so that equality of nodes is structural equality here.

  \<open>getType\<close> is \<open>Node::getType(check)\<close> with the type rules of
  \<open>src/src/theory/bv/theory_bv_type_rules.h\<close>, \<open>src/src/theory/booleans/theory_bool_type_rules.h\<close>
  and \<open>EqualityTypeRule\<close>. \<open>typeOf\<close> is the intended typing (positive widths below \<open>2 ^ 32\<close>, the
  arities of the kinds files) and \<open>eval\<close> the intended meaning over \<open>BV_Semantics\<close>; the lemmas show
  that typed terms have values of their type and that the code's type rules compute the type.
\<close>

section \<open>Types, kinds and terms\<close>

datatype typeNode = NULL_TYPE | BOOLEAN_TYPE | BITVECTOR_TYPE nat

datatype kind =
    EQUAL | NOT | AND | IMPLIES | OR | XOR | ITE
  | BITVECTOR_CONCAT | BITVECTOR_AND | BITVECTOR_OR | BITVECTOR_XOR | BITVECTOR_NOT
  | BITVECTOR_NAND | BITVECTOR_NOR | BITVECTOR_XNOR | BITVECTOR_COMP
  | BITVECTOR_MULT | BITVECTOR_PLUS | BITVECTOR_SUB | BITVECTOR_NEG
  | BITVECTOR_UDIV | BITVECTOR_UREM | BITVECTOR_SDIV | BITVECTOR_SREM | BITVECTOR_SMOD
  | BITVECTOR_UDIV_TOTAL | BITVECTOR_UREM_TOTAL
  | BITVECTOR_SHL | BITVECTOR_LSHR | BITVECTOR_ASHR
  | BITVECTOR_ULT | BITVECTOR_ULE | BITVECTOR_UGT | BITVECTOR_UGE
  | BITVECTOR_SLT | BITVECTOR_SLE | BITVECTOR_SGT | BITVECTOR_SGE
  | BITVECTOR_ULTBV | BITVECTOR_SLTBV | BITVECTOR_ITE
  | BITVECTOR_REDOR | BITVECTOR_REDAND
  | BITVECTOR_EAGER_ATOM | BITVECTOR_ACKERMANIZE_UDIV | BITVECTOR_ACKERMANIZE_UREM
  | BITVECTOR_BITOF nat | BITVECTOR_EXTRACT nat nat | BITVECTOR_REPEAT nat
  | BITVECTOR_ZERO_EXTEND nat | BITVECTOR_SIGN_EXTEND nat
  | BITVECTOR_ROTATE_LEFT nat | BITVECTOR_ROTATE_RIGHT nat

datatype node =
    Variable nat typeNode
  | CONST_BOOLEAN bool
  | CONST_BITVECTOR bitvector
  | App kind "node list"

section \<open>The type rules of the code\<close>

definition isVar :: "node \<Rightarrow> bool" where
  "isVar n = (case n of Variable i t \<Rightarrow> True | _ \<Rightarrow> False)"

definition isBitVector :: "typeNode \<Rightarrow> bool" where
  "isBitVector t \<longleftrightarrow> (case t of BITVECTOR_TYPE n \<Rightarrow> True | _ \<Rightarrow> False)"

definition getBitVectorSize :: "typeNode \<Rightarrow> nat" where
  "getBitVectorSize t = (case t of BITVECTOR_TYPE n \<Rightarrow> n | _ \<Rightarrow> 0)"

definition leastCommonTypeNode :: "typeNode \<Rightarrow> typeNode \<Rightarrow> typeNode" where
  "leastCommonTypeNode t0 t1 = (if t0 = t1 then t0 else NULL_TYPE)"

abbreviation throwType :: "string \<Rightarrow> 'a exc" where
  "throwType msg \<equiv> Inl (TypeCheckingExceptionPrivate msg)"

text \<open>A rule takes the results of \<open>getType\<close> on the children, and forces only those the source
  asks for, in the source's order. \<open>child\<close> is the access \<open>n[i]\<close>; node builders check arities, and
  the access of a missing child is an assertion failure.\<close>

definition child :: "'a exc list \<Rightarrow> nat \<Rightarrow> 'a exc" where
  "child ts i = (if i < length ts then ts ! i else Inl AssertionException)"

definition BitVectorConstantTypeRule :: "bool \<Rightarrow> bitvector \<Rightarrow> typeNode exc" where
  "BitVectorConstantTypeRule check c =
     (if check \<and> d_size c = 0 then throwType ''constant of size 0''
      else Inr (BITVECTOR_TYPE (d_size c)))"

definition BitVectorBitOfTypeRule :: "bool \<Rightarrow> nat \<Rightarrow> typeNode exc list \<Rightarrow> typeNode exc" where
  "BitVectorBitOfTypeRule check bitIndex ts =
     (if check then
        ebind (child ts 0) (\<lambda>t.
        if \<not> isBitVector t then throwType ''expecting bit-vector term''
        else if bitIndex \<ge> getBitVectorSize t
        then throwType ''extract index is larger than the bitvector size''
        else Inr BOOLEAN_TYPE)
      else Inr BOOLEAN_TYPE)"

definition BitVectorBVPredTypeRule :: "bool \<Rightarrow> typeNode exc list \<Rightarrow> typeNode exc" where
  "BitVectorBVPredTypeRule check ts =
     (if check then
        ebind (child ts 0) (\<lambda>lhs. ebind (child ts 1) (\<lambda>rhs.
        if \<not> isBitVector lhs \<or> lhs \<noteq> rhs
        then throwType ''expecting bit-vector terms of the same width''
        else Inr (BITVECTOR_TYPE 1)))
      else Inr (BITVECTOR_TYPE 1))"

definition BitVectorITETypeRule :: "bool \<Rightarrow> typeNode exc list \<Rightarrow> typeNode exc" where
  "BitVectorITETypeRule check ts =
     ebind (child ts 1) (\<lambda>thenpart.
     if check then
       ebind (child ts 0) (\<lambda>cond.
       if cond \<noteq> BITVECTOR_TYPE 1
       then throwType ''expecting condition to be bit-vector term size 1''
       else ebind (child ts 2) (\<lambda>elsepart.
         if thenpart \<noteq> elsepart
         then throwType ''expecting then and else parts to have same type''
         else Inr thenpart))
     else Inr thenpart)"

fun sameWidth_loop :: "typeNode \<Rightarrow> typeNode exc list \<Rightarrow> typeNode exc" where
  "sameWidth_loop t [] = Inr t"
| "sameWidth_loop t (r # rs) =
     ebind r (\<lambda>u. if u \<noteq> t then throwType ''expecting bit-vector terms of the same width''
                  else sameWidth_loop t rs)"

definition BitVectorFixedWidthTypeRule :: "bool \<Rightarrow> typeNode exc list \<Rightarrow> typeNode exc" where
  "BitVectorFixedWidthTypeRule check ts =
     ebind (child ts 0) (\<lambda>t.
     if check then
       if \<not> isBitVector t then throwType ''expecting bit-vector terms''
       else sameWidth_loop t (tl ts)
     else Inr t)"

definition BitVectorPredicateTypeRule :: "bool \<Rightarrow> typeNode exc list \<Rightarrow> typeNode exc" where
  "BitVectorPredicateTypeRule check ts =
     (if check then
        ebind (child ts 0) (\<lambda>lhsType.
        if \<not> isBitVector lhsType then throwType ''expecting bit-vector terms''
        else ebind (child ts 1) (\<lambda>rhsType.
          if lhsType \<noteq> rhsType
          then throwType ''expecting bit-vector terms of the same width''
          else Inr BOOLEAN_TYPE))
      else Inr BOOLEAN_TYPE)"

definition BitVectorUnaryPredicateTypeRule :: "bool \<Rightarrow> typeNode exc list \<Rightarrow> typeNode exc" where
  "BitVectorUnaryPredicateTypeRule check ts =
     (if check then
        ebind (child ts 0) (\<lambda>t.
        if \<not> isBitVector t then throwType ''expecting bit-vector terms'' else Inr BOOLEAN_TYPE)
      else Inr BOOLEAN_TYPE)"

definition BitVectorEagerAtomTypeRule :: "bool \<Rightarrow> typeNode exc list \<Rightarrow> typeNode exc" where
  "BitVectorEagerAtomTypeRule check ts =
     (if check then
        ebind (child ts 0) (\<lambda>lhsType.
        if lhsType \<noteq> BOOLEAN_TYPE then throwType ''expecting boolean term'' else Inr BOOLEAN_TYPE)
      else Inr BOOLEAN_TYPE)"

definition BitVectorAckermanizationTypeRule :: "bool \<Rightarrow> typeNode exc list \<Rightarrow> typeNode exc" where
  "BitVectorAckermanizationTypeRule check ts =
     ebind (child ts 0) (\<lambda>lhsType.
     if check \<and> \<not> isBitVector lhsType then throwType ''expecting bit-vector term''
     else Inr lhsType)"

definition BitVectorExtractTypeRule ::
  "bool \<Rightarrow> nat \<Rightarrow> nat \<Rightarrow> typeNode exc list \<Rightarrow> typeNode exc" where
  "BitVectorExtractTypeRule check high low ts =
     (if high < low then throwType ''high extract index is smaller than the low extract index''
      else if check then
        ebind (child ts 0) (\<lambda>t.
        if \<not> isBitVector t then throwType ''expecting bit-vector term''
        else if high \<ge> getBitVectorSize t
        then throwType ''high extract index is bigger than the size of the bit-vector''
        else Inr (BITVECTOR_TYPE (u32 (u32_sub high low + 1))))
      else Inr (BITVECTOR_TYPE (u32 (u32_sub high low + 1))))"

fun concatType_loop :: "nat \<Rightarrow> typeNode exc list \<Rightarrow> typeNode exc" where
  "concatType_loop sz [] = Inr (BITVECTOR_TYPE sz)"
| "concatType_loop sz (r # rs) =
     ebind r (\<lambda>t. if \<not> isBitVector t then throwType ''expecting bit-vector terms''
                  else concatType_loop (u32 (sz + getBitVectorSize t)) rs)"

definition BitVectorConcatTypeRule :: "bool \<Rightarrow> typeNode exc list \<Rightarrow> typeNode exc" where
  "BitVectorConcatTypeRule check ts = concatType_loop 0 ts"

definition BitVectorRepeatTypeRule :: "bool \<Rightarrow> nat \<Rightarrow> typeNode exc list \<Rightarrow> typeNode exc" where
  "BitVectorRepeatTypeRule check repeatAmount ts =
     ebind (child ts 0) (\<lambda>t.
     if \<not> isBitVector t then throwType ''expecting bit-vector term''
     else Inr (BITVECTOR_TYPE (u32 (repeatAmount * getBitVectorSize t))))"

definition BitVectorExtendTypeRule :: "bool \<Rightarrow> nat \<Rightarrow> typeNode exc list \<Rightarrow> typeNode exc" where
  "BitVectorExtendTypeRule check extendAmount ts =
     ebind (child ts 0) (\<lambda>t.
     if \<not> isBitVector t then throwType ''expecting bit-vector term''
     else Inr (BITVECTOR_TYPE (u32 (extendAmount + getBitVectorSize t))))"

fun allBoolean_loop :: "typeNode exc list \<Rightarrow> typeNode exc" where
  "allBoolean_loop [] = Inr BOOLEAN_TYPE"
| "allBoolean_loop (r # rs) =
     ebind r (\<lambda>t. if t \<noteq> BOOLEAN_TYPE then throwType ''expecting a Boolean subexpression''
                  else allBoolean_loop rs)"

definition BooleanTypeRule :: "bool \<Rightarrow> typeNode exc list \<Rightarrow> typeNode exc" where
  "BooleanTypeRule check ts = (if check then allBoolean_loop ts else Inr BOOLEAN_TYPE)"

text \<open>Of the two messages composed at run time only the fixed first line is kept.\<close>

definition IteTypeRule :: "bool \<Rightarrow> typeNode exc list \<Rightarrow> typeNode exc" where
  "IteTypeRule check ts =
     ebind (child ts 1) (\<lambda>thenType. ebind (child ts 2) (\<lambda>elseType.
     let iteType = leastCommonTypeNode thenType elseType
     in if check then
          ebind (child ts 0) (\<lambda>condType.
          if condType \<noteq> BOOLEAN_TYPE then throwType ''condition of ITE is not Boolean''
          else if iteType = NULL_TYPE
          then throwType ''Both branches of the ITE must be a subtype of a common type.''
          else Inr iteType)
        else Inr iteType))"

definition EqualityTypeRule :: "bool \<Rightarrow> typeNode exc list \<Rightarrow> typeNode exc" where
  "EqualityTypeRule check ts =
     (if check then
        ebind (child ts 0) (\<lambda>lhsType. ebind (child ts 1) (\<lambda>rhsType.
        if leastCommonTypeNode lhsType rhsType = NULL_TYPE
        then throwType ''Subexpressions must have a common base type:''
        else Inr BOOLEAN_TYPE))
      else Inr BOOLEAN_TYPE)"

text \<open>The dispatch generated from the \<open>typerule\<close> lines of the kinds files.\<close>

definition computeType :: "bool \<Rightarrow> kind \<Rightarrow> typeNode exc list \<Rightarrow> typeNode exc" where
  "computeType check k ts =
     (case k of
        EQUAL \<Rightarrow> EqualityTypeRule check ts
      | NOT \<Rightarrow> BooleanTypeRule check ts
      | AND \<Rightarrow> BooleanTypeRule check ts
      | IMPLIES \<Rightarrow> BooleanTypeRule check ts
      | OR \<Rightarrow> BooleanTypeRule check ts
      | XOR \<Rightarrow> BooleanTypeRule check ts
      | ITE \<Rightarrow> IteTypeRule check ts
      | BITVECTOR_CONCAT \<Rightarrow> BitVectorConcatTypeRule check ts
      | BITVECTOR_COMP \<Rightarrow> BitVectorBVPredTypeRule check ts
      | BITVECTOR_ULTBV \<Rightarrow> BitVectorBVPredTypeRule check ts
      | BITVECTOR_SLTBV \<Rightarrow> BitVectorBVPredTypeRule check ts
      | BITVECTOR_ITE \<Rightarrow> BitVectorITETypeRule check ts
      | BITVECTOR_ULT \<Rightarrow> BitVectorPredicateTypeRule check ts
      | BITVECTOR_ULE \<Rightarrow> BitVectorPredicateTypeRule check ts
      | BITVECTOR_UGT \<Rightarrow> BitVectorPredicateTypeRule check ts
      | BITVECTOR_UGE \<Rightarrow> BitVectorPredicateTypeRule check ts
      | BITVECTOR_SLT \<Rightarrow> BitVectorPredicateTypeRule check ts
      | BITVECTOR_SLE \<Rightarrow> BitVectorPredicateTypeRule check ts
      | BITVECTOR_SGT \<Rightarrow> BitVectorPredicateTypeRule check ts
      | BITVECTOR_SGE \<Rightarrow> BitVectorPredicateTypeRule check ts
      | BITVECTOR_REDOR \<Rightarrow> BitVectorUnaryPredicateTypeRule check ts
      | BITVECTOR_REDAND \<Rightarrow> BitVectorUnaryPredicateTypeRule check ts
      | BITVECTOR_EAGER_ATOM \<Rightarrow> BitVectorEagerAtomTypeRule check ts
      | BITVECTOR_ACKERMANIZE_UDIV \<Rightarrow> BitVectorAckermanizationTypeRule check ts
      | BITVECTOR_ACKERMANIZE_UREM \<Rightarrow> BitVectorAckermanizationTypeRule check ts
      | BITVECTOR_BITOF i \<Rightarrow> BitVectorBitOfTypeRule check i ts
      | BITVECTOR_EXTRACT high low \<Rightarrow> BitVectorExtractTypeRule check high low ts
      | BITVECTOR_REPEAT r \<Rightarrow> BitVectorRepeatTypeRule check r ts
      | BITVECTOR_ZERO_EXTEND r \<Rightarrow> BitVectorExtendTypeRule check r ts
      | BITVECTOR_SIGN_EXTEND r \<Rightarrow> BitVectorExtendTypeRule check r ts
      | _ \<Rightarrow> BitVectorFixedWidthTypeRule check ts)"

fun getType :: "bool \<Rightarrow> node \<Rightarrow> typeNode exc" where
  "getType check (Variable i t) = Inr t"
| "getType check (CONST_BOOLEAN b) = Inr BOOLEAN_TYPE"
| "getType check (CONST_BITVECTOR c) = BitVectorConstantTypeRule check c"
| "getType check (App k ns) = computeType check k (map (getType check) ns)"

end
