(* ===== verification/Node_Semantics.thy ===== *)
theory Node_Semantics
  imports Nodes
begin

text \<open>
  The intended typing and meaning of the terms of \<open>Nodes\<close>, against which the code is proved:
  \<open>typeOf\<close> asks for the arities of the kinds files and for widths in \<open>{1..<2 ^ 32}\<close>, \<open>eval\<close> maps
  each kind to its operation of \<open>BV_Semantics\<close>. N-ary kinds are read from one child up. The
  partial kinds \<open>BITVECTOR_UDIV\<close> and \<open>BITVECTOR_UREM\<close> are uninterpreted on a zero divisor: the
  interpretation supplies a function of the dividend for each width, which the Ackermann kinds name.
\<close>

section \<open>Typing\<close>

definition valid_width :: "nat \<Rightarrow> bool" where
  "valid_width n \<longleftrightarrow> 0 < n \<and> n < 2 ^ 32"

definition valid_type :: "typeNode \<Rightarrow> bool" where
  "valid_type t = (case t of NULL_TYPE \<Rightarrow> False | BOOLEAN_TYPE \<Rightarrow> True | BITVECTOR_TYPE n \<Rightarrow> valid_width n)"

lemma valid_type_simps [simp]:
  "\<not> valid_type NULL_TYPE"
  "valid_type BOOLEAN_TYPE"
  "valid_type (BITVECTOR_TYPE n) \<longleftrightarrow> valid_width n"
  by (simp_all add: valid_type_def)

fun sum_widths :: "typeNode list \<Rightarrow> nat option" where
  "sum_widths [] = Some 0"
| "sum_widths (BITVECTOR_TYPE n # ts) = map_option (\<lambda>m. n + m) (sum_widths ts)"
| "sum_widths (_ # ts) = None"

definition mk_bvtype :: "nat \<Rightarrow> typeNode option" where
  "mk_bvtype n = (if valid_width n then Some (BITVECTOR_TYPE n) else None)"

definition type_same :: "(nat \<Rightarrow> bool) \<Rightarrow> typeNode list \<Rightarrow> nat option" where
  "type_same arity ts =
     (case ts of BITVECTOR_TYPE n # rest \<Rightarrow>
        if valid_width n \<and> arity (length ts) \<and> list_all ((=) (BITVECTOR_TYPE n)) rest
        then Some n else None
      | _ \<Rightarrow> None)"

definition type_bools :: "(nat \<Rightarrow> bool) \<Rightarrow> typeNode list \<Rightarrow> typeNode option" where
  "type_bools arity ts =
     (if arity (length ts) \<and> list_all ((=) BOOLEAN_TYPE) ts then Some BOOLEAN_TYPE else None)"

definition type_op :: "kind \<Rightarrow> typeNode list \<Rightarrow> typeNode option" where
  "type_op k ts =
     (let nary = map_option BITVECTOR_TYPE (type_same (\<lambda>l. 2 \<le> l) ts);
          unary = map_option BITVECTOR_TYPE (type_same (\<lambda>l. l = 1) ts);
          binary = map_option BITVECTOR_TYPE (type_same (\<lambda>l. l = 2) ts);
          bit = map_option (\<lambda>n. BITVECTOR_TYPE 1) (type_same (\<lambda>l. l = 2) ts);
          upred = map_option (\<lambda>n. BOOLEAN_TYPE) (type_same (\<lambda>l. l = 1) ts);
          pred = map_option (\<lambda>n. BOOLEAN_TYPE) (type_same (\<lambda>l. l = 2) ts);
          indexed = (\<lambda>ok f. Option.bind (type_same (\<lambda>l. l = 1) ts)
                        (\<lambda>n. if ok n then mk_bvtype (f n) else None))
      in case k of
        EQUAL \<Rightarrow> (case ts of [t, u] \<Rightarrow> if t = u \<and> valid_type t then Some BOOLEAN_TYPE else None
                  | _ \<Rightarrow> None)
      | NOT \<Rightarrow> type_bools (\<lambda>l. l = 1) ts
      | AND \<Rightarrow> type_bools (\<lambda>l. 2 \<le> l) ts
      | OR \<Rightarrow> type_bools (\<lambda>l. 2 \<le> l) ts
      | IMPLIES \<Rightarrow> type_bools (\<lambda>l. l = 2) ts
      | XOR \<Rightarrow> type_bools (\<lambda>l. l = 2) ts
      | ITE \<Rightarrow> (case ts of [c, t, u] \<Rightarrow>
                  if c = BOOLEAN_TYPE \<and> t = u \<and> valid_type t then Some t else None
                | _ \<Rightarrow> None)
      | BITVECTOR_CONCAT \<Rightarrow>
          if 2 \<le> length ts \<and> list_all valid_type ts then Option.bind (sum_widths ts) mk_bvtype else None
      | BITVECTOR_AND \<Rightarrow> nary | BITVECTOR_OR \<Rightarrow> nary | BITVECTOR_XOR \<Rightarrow> nary
      | BITVECTOR_MULT \<Rightarrow> nary | BITVECTOR_PLUS \<Rightarrow> nary
      | BITVECTOR_NOT \<Rightarrow> unary | BITVECTOR_NEG \<Rightarrow> unary
      | BITVECTOR_ACKERMANIZE_UDIV \<Rightarrow> unary | BITVECTOR_ACKERMANIZE_UREM \<Rightarrow> unary
      | BITVECTOR_ROTATE_LEFT r \<Rightarrow> unary | BITVECTOR_ROTATE_RIGHT r \<Rightarrow> unary
      | BITVECTOR_COMP \<Rightarrow> bit | BITVECTOR_ULTBV \<Rightarrow> bit | BITVECTOR_SLTBV \<Rightarrow> bit
      | BITVECTOR_ITE \<Rightarrow> (case ts of [c, t, u] \<Rightarrow>
                  if c = BITVECTOR_TYPE 1 \<and> t = u \<and> isBitVector t \<and> valid_type t then Some t else None
                | _ \<Rightarrow> None)
      | BITVECTOR_ULT \<Rightarrow> pred | BITVECTOR_ULE \<Rightarrow> pred | BITVECTOR_UGT \<Rightarrow> pred
      | BITVECTOR_UGE \<Rightarrow> pred | BITVECTOR_SLT \<Rightarrow> pred | BITVECTOR_SLE \<Rightarrow> pred
      | BITVECTOR_SGT \<Rightarrow> pred | BITVECTOR_SGE \<Rightarrow> pred
      | BITVECTOR_REDOR \<Rightarrow> upred | BITVECTOR_REDAND \<Rightarrow> upred
      | BITVECTOR_EAGER_ATOM \<Rightarrow> type_bools (\<lambda>l. l = 1) ts
      | BITVECTOR_BITOF i \<Rightarrow>
          Option.bind (type_same (\<lambda>l. l = 1) ts) (\<lambda>n. if i < n then Some BOOLEAN_TYPE else None)
      | BITVECTOR_EXTRACT hi lo \<Rightarrow> indexed (\<lambda>n. lo \<le> hi \<and> hi < n) (\<lambda>n. hi - lo + 1)
      | BITVECTOR_REPEAT r \<Rightarrow> indexed (\<lambda>n. True) (\<lambda>n. r * n)
      | BITVECTOR_ZERO_EXTEND r \<Rightarrow> indexed (\<lambda>n. True) (\<lambda>n. r + n)
      | BITVECTOR_SIGN_EXTEND r \<Rightarrow> indexed (\<lambda>n. True) (\<lambda>n. r + n)
      | _ \<Rightarrow> binary)"

fun typeOf :: "node \<Rightarrow> typeNode option" where
  "typeOf (Variable i t) = (if valid_type t then Some t else None)"
| "typeOf (CONST_BOOLEAN b) = Some BOOLEAN_TYPE"
| "typeOf (CONST_BITVECTOR c) = (if bv_wf c then mk_bvtype (d_size c) else None)"
| "typeOf (App k ns) =
     (let ts = map typeOf ns
      in if None \<in> set ts then None else type_op k (map the ts))"

section \<open>Meaning\<close>

datatype val = VBool bool | VBV nat int | VUndef

record interp =
  ivar :: "nat \<Rightarrow> typeNode \<Rightarrow> val"
  udiv0 :: "nat \<Rightarrow> int \<Rightarrow> int"
  urem0 :: "nat \<Rightarrow> int \<Rightarrow> int"

fun has_type :: "val \<Rightarrow> typeNode \<Rightarrow> bool" where
  "has_type (VBool b) BOOLEAN_TYPE \<longleftrightarrow> True"
| "has_type (VBV w a) (BITVECTOR_TYPE n) \<longleftrightarrow> w = n \<and> in_width n a"
| "has_type _ _ \<longleftrightarrow> False"

definition wf_interp :: "interp \<Rightarrow> bool" where
  "wf_interp I \<longleftrightarrow>
     (\<forall>i t. valid_type t \<longrightarrow> has_type (ivar I i t) t) \<and>
     (\<forall>n a. in_width n (udiv0 I n a)) \<and> (\<forall>n a. in_width n (urem0 I n a))"

fun v_bool :: "val \<Rightarrow> bool" where
  "v_bool (VBool b) = b"
| "v_bool _ = False"

fun v_int :: "val \<Rightarrow> int" where
  "v_int (VBV w a) = a"
| "v_int _ = 0"

fun v_width :: "val \<Rightarrow> nat" where
  "v_width (VBV w a) = w"
| "v_width _ = 0"

text \<open>SMT-LIB defines the signed operations by the unsigned ones on absolute values; \<open>q\<close> and \<open>r\<close>
  are the unsigned quotient and remainder at the width at hand.\<close>

definition msb :: "nat \<Rightarrow> int \<Rightarrow> bool" where
  "msb n a \<longleftrightarrow> 2 ^ (n - 1) \<le> a"

definition bvabs :: "nat \<Rightarrow> int \<Rightarrow> int" where
  "bvabs n a = (if msb n a then bvneg n a else a)"

definition smt_sdiv :: "(int \<Rightarrow> int \<Rightarrow> int) \<Rightarrow> nat \<Rightarrow> int \<Rightarrow> int \<Rightarrow> int" where
  "smt_sdiv q n a b =
     (let d = q (bvabs n a) (bvabs n b) in if msb n a = msb n b then d else bvneg n d)"

definition smt_srem :: "(int \<Rightarrow> int \<Rightarrow> int) \<Rightarrow> nat \<Rightarrow> int \<Rightarrow> int \<Rightarrow> int" where
  "smt_srem r n a b =
     (let d = r (bvabs n a) (bvabs n b) in if msb n a then bvneg n d else d)"

definition smt_smod :: "(int \<Rightarrow> int \<Rightarrow> int) \<Rightarrow> nat \<Rightarrow> int \<Rightarrow> int \<Rightarrow> int" where
  "smt_smod r n a b =
     (let u = r (bvabs n a) (bvabs n b)
      in if u = 0 then u
         else if \<not> msb n a \<and> \<not> msb n b then u
         else if msb n a \<and> \<not> msb n b then bvadd n (bvneg n u) b
         else if \<not> msb n a \<and> msb n b then bvadd n u b
         else bvneg n u)"

definition udivI :: "interp \<Rightarrow> nat \<Rightarrow> int \<Rightarrow> int \<Rightarrow> int" where
  "udivI I n a b = (if b = 0 then udiv0 I n a else a div b)"

definition uremI :: "interp \<Rightarrow> nat \<Rightarrow> int \<Rightarrow> int \<Rightarrow> int" where
  "uremI I n a b = (if b = 0 then urem0 I n a else a mod b)"

definition v_un :: "(nat \<Rightarrow> int \<Rightarrow> int) \<Rightarrow> val list \<Rightarrow> val" where
  "v_un f vs = (case vs of [VBV w a] \<Rightarrow> VBV w (f w a) | _ \<Rightarrow> VUndef)"

definition v_bin :: "(nat \<Rightarrow> int \<Rightarrow> int \<Rightarrow> int) \<Rightarrow> val list \<Rightarrow> val" where
  "v_bin f vs = (case vs of [VBV w a, VBV _ b] \<Rightarrow> VBV w (f w a b) | _ \<Rightarrow> VUndef)"

definition v_nary :: "(nat \<Rightarrow> int \<Rightarrow> int \<Rightarrow> int) \<Rightarrow> val list \<Rightarrow> val" where
  "v_nary f vs =
     (case vs of VBV w a # rest \<Rightarrow> VBV w (foldl (f w) a (map v_int rest)) | _ \<Rightarrow> VUndef)"

definition v_pred :: "(nat \<Rightarrow> int \<Rightarrow> int \<Rightarrow> bool) \<Rightarrow> val list \<Rightarrow> val" where
  "v_pred p vs = (case vs of [VBV w a, VBV _ b] \<Rightarrow> VBool (p w a b) | _ \<Rightarrow> VUndef)"

definition v_bit :: "(nat \<Rightarrow> int \<Rightarrow> int \<Rightarrow> bool) \<Rightarrow> val list \<Rightarrow> val" where
  "v_bit p vs = (case vs of [VBV w a, VBV _ b] \<Rightarrow> VBV 1 (of_bool (p w a b)) | _ \<Rightarrow> VUndef)"

fun v_concat :: "val \<Rightarrow> val list \<Rightarrow> val" where
  "v_concat v [] = v"
| "v_concat v (u # us) =
     v_concat (VBV (v_width v + v_width u) (bvconcat (v_width u) (v_int v) (v_int u))) us"

definition sem_op :: "interp \<Rightarrow> kind \<Rightarrow> val list \<Rightarrow> val" where
  "sem_op I k vs =
     (case k of
        EQUAL \<Rightarrow> (case vs of [v, u] \<Rightarrow> VBool (v = u) | _ \<Rightarrow> VUndef)
      | NOT \<Rightarrow> (case vs of [v] \<Rightarrow> VBool (\<not> v_bool v) | _ \<Rightarrow> VUndef)
      | AND \<Rightarrow> VBool (list_all v_bool vs)
      | OR \<Rightarrow> VBool (list_ex v_bool vs)
      | IMPLIES \<Rightarrow> (case vs of [v, u] \<Rightarrow> VBool (v_bool v \<longrightarrow> v_bool u) | _ \<Rightarrow> VUndef)
      | XOR \<Rightarrow> (case vs of [v, u] \<Rightarrow> VBool (v_bool v \<noteq> v_bool u) | _ \<Rightarrow> VUndef)
      | ITE \<Rightarrow> (case vs of [c, v, u] \<Rightarrow> if v_bool c then v else u | _ \<Rightarrow> VUndef)
      | BITVECTOR_CONCAT \<Rightarrow> (case vs of [] \<Rightarrow> VUndef | v # us \<Rightarrow> v_concat v us)
      | BITVECTOR_AND \<Rightarrow> v_nary (\<lambda>n. and) vs
      | BITVECTOR_OR \<Rightarrow> v_nary (\<lambda>n. or) vs
      | BITVECTOR_XOR \<Rightarrow> v_nary (\<lambda>n. xor) vs
      | BITVECTOR_NOT \<Rightarrow> v_un bvnot vs
      | BITVECTOR_NAND \<Rightarrow> v_bin (\<lambda>n a b. bvnot n (and a b)) vs
      | BITVECTOR_NOR \<Rightarrow> v_bin (\<lambda>n a b. bvnot n (or a b)) vs
      | BITVECTOR_XNOR \<Rightarrow> v_bin (\<lambda>n a b. bvnot n (xor a b)) vs
      | BITVECTOR_COMP \<Rightarrow> v_bit (\<lambda>n a b. a = b) vs
      | BITVECTOR_MULT \<Rightarrow> v_nary bvmul vs
      | BITVECTOR_PLUS \<Rightarrow> v_nary bvadd vs
      | BITVECTOR_SUB \<Rightarrow> v_bin bvsub vs
      | BITVECTOR_NEG \<Rightarrow> v_un bvneg vs
      | BITVECTOR_UDIV \<Rightarrow> v_bin (udivI I) vs
      | BITVECTOR_UREM \<Rightarrow> v_bin (uremI I) vs
      | BITVECTOR_SDIV \<Rightarrow> v_bin (\<lambda>n. smt_sdiv (udivI I n) n) vs
      | BITVECTOR_SREM \<Rightarrow> v_bin (\<lambda>n. smt_srem (uremI I n) n) vs
      | BITVECTOR_SMOD \<Rightarrow> v_bin (\<lambda>n. smt_smod (uremI I n) n) vs
      | BITVECTOR_UDIV_TOTAL \<Rightarrow> v_bin bvudiv vs
      | BITVECTOR_UREM_TOTAL \<Rightarrow> v_bin bvurem vs
      | BITVECTOR_SHL \<Rightarrow> v_bin bvshl vs
      | BITVECTOR_LSHR \<Rightarrow> v_bin bvlshr vs
      | BITVECTOR_ASHR \<Rightarrow> v_bin bvashr vs
      | BITVECTOR_ULT \<Rightarrow> v_pred (\<lambda>n a b. a < b) vs
      | BITVECTOR_ULE \<Rightarrow> v_pred (\<lambda>n a b. a \<le> b) vs
      | BITVECTOR_UGT \<Rightarrow> v_pred (\<lambda>n a b. a > b) vs
      | BITVECTOR_UGE \<Rightarrow> v_pred (\<lambda>n a b. a \<ge> b) vs
      | BITVECTOR_SLT \<Rightarrow> v_pred (\<lambda>n a b. sval n a < sval n b) vs
      | BITVECTOR_SLE \<Rightarrow> v_pred (\<lambda>n a b. sval n a \<le> sval n b) vs
      | BITVECTOR_SGT \<Rightarrow> v_pred (\<lambda>n a b. sval n a > sval n b) vs
      | BITVECTOR_SGE \<Rightarrow> v_pred (\<lambda>n a b. sval n a \<ge> sval n b) vs
      | BITVECTOR_ULTBV \<Rightarrow> v_bit (\<lambda>n a b. a < b) vs
      | BITVECTOR_SLTBV \<Rightarrow> v_bit (\<lambda>n a b. sval n a < sval n b) vs
      | BITVECTOR_ITE \<Rightarrow> (case vs of [c, v, u] \<Rightarrow> if v_int c = 1 then v else u | _ \<Rightarrow> VUndef)
      | BITVECTOR_REDOR \<Rightarrow> (case vs of [VBV w a] \<Rightarrow> VBool (a \<noteq> 0) | _ \<Rightarrow> VUndef)
      | BITVECTOR_REDAND \<Rightarrow> (case vs of [VBV w a] \<Rightarrow> VBool (a = 2 ^ w - 1) | _ \<Rightarrow> VUndef)
      | BITVECTOR_EAGER_ATOM \<Rightarrow> (case vs of [v] \<Rightarrow> v | _ \<Rightarrow> VUndef)
      | BITVECTOR_ACKERMANIZE_UDIV \<Rightarrow> v_un (udiv0 I) vs
      | BITVECTOR_ACKERMANIZE_UREM \<Rightarrow> v_un (urem0 I) vs
      | BITVECTOR_BITOF i \<Rightarrow> (case vs of [VBV w a] \<Rightarrow> VBool (bit a i) | _ \<Rightarrow> VUndef)
      | BITVECTOR_EXTRACT hi lo \<Rightarrow>
          (case vs of [VBV w a] \<Rightarrow> VBV (hi - lo + 1) (bvextract hi lo a) | _ \<Rightarrow> VUndef)
      | BITVECTOR_REPEAT r \<Rightarrow>
          (case vs of [VBV w a] \<Rightarrow> VBV (r * w) (bvrepeat r w a) | _ \<Rightarrow> VUndef)
      | BITVECTOR_ZERO_EXTEND r \<Rightarrow> (case vs of [VBV w a] \<Rightarrow> VBV (r + w) a | _ \<Rightarrow> VUndef)
      | BITVECTOR_SIGN_EXTEND r \<Rightarrow>
          (case vs of [VBV w a] \<Rightarrow> VBV (r + w) (bvsign_extend r w a) | _ \<Rightarrow> VUndef)
      | BITVECTOR_ROTATE_LEFT r \<Rightarrow> v_un (bvrotate_left r) vs
      | BITVECTOR_ROTATE_RIGHT r \<Rightarrow> v_un (bvrotate_right r) vs)"

fun eval :: "interp \<Rightarrow> node \<Rightarrow> val" where
  "eval I (Variable i t) = ivar I i t"
| "eval I (CONST_BOOLEAN b) = VBool b"
| "eval I (CONST_BITVECTOR c) = VBV (d_size c) (d_value c)"
| "eval I (App k ns) = sem_op I k (map (eval I) ns)"

section \<open>Typed terms have values of their type\<close>

lemma typeOf_App_iff:
  "typeOf (App k ns) = Some t \<longleftrightarrow>
    (\<exists>ts. list_all2 (\<lambda>n u. typeOf n = Some u) ns ts \<and> type_op k ts = Some t)"
proof -
  have all2: "list_all2 (\<lambda>n u. typeOf n = Some u) ns ts \<longleftrightarrow> map typeOf ns = map Some ts" for ts
    by (induction ns arbitrary: ts) (auto simp: list_all2_Cons1 Cons_eq_map_conv)
  have the: "None \<notin> set rs \<Longrightarrow> rs = map Some (map the rs)" for rs :: "typeNode option list"
    by (induction rs) auto
  show ?thesis
  proof
    assume "typeOf (App k ns) = Some t"
    then have "None \<notin> set (map typeOf ns)" and "type_op k (map the (map typeOf ns)) = Some t"
      unfolding typeOf.simps Let_def by (metis option.distinct(1))+
    then show "\<exists>ts. list_all2 (\<lambda>n u. typeOf n = Some u) ns ts \<and> type_op k ts = Some t"
      unfolding all2 using the by blast
  next
    assume "\<exists>ts. list_all2 (\<lambda>n u. typeOf n = Some u) ns ts \<and> type_op k ts = Some t"
    then obtain ts where "map typeOf ns = map Some ts" and "type_op k ts = Some t"
      unfolding all2 by blast
    then show "typeOf (App k ns) = Some t"
      by (simp only: typeOf.simps Let_def) (simp add: comp_def image_iff)
  qed
qed

lemma has_type_simps [simp]:
  "has_type v BOOLEAN_TYPE \<longleftrightarrow> (\<exists>b. v = VBool b)"
  "has_type v (BITVECTOR_TYPE n) \<longleftrightarrow> (\<exists>a. v = VBV n a \<and> in_width n a)"
  "\<not> has_type v NULL_TYPE"
  by (cases v; auto)+

lemma type_same_values:
  assumes "type_same arity ts = Some n" and "list_all2 has_type vs ts"
  obtains a as where "vs = VBV n a # map (VBV n) as" and "in_width n a" and "list_all (in_width n) as"
    and "arity (Suc (length as))" and "valid_width n"
proof -
  from assms(1) obtain rest where ts: "ts = BITVECTOR_TYPE n # rest" and "valid_width n"
    and ar: "arity (length ts)" and same: "list_all ((=) (BITVECTOR_TYPE n)) rest"
    by (auto simp: type_same_def split: list.splits typeNode.splits if_splits)
  from assms(2) ts obtain a us where vs: "vs = VBV n a # us" "in_width n a" "list_all2 has_type us rest"
    by (auto simp: list_all2_Cons2)
  have "\<exists>as. us = map (VBV n) as \<and> list_all (in_width n) as"
    using vs(3) same
  proof (induction rule: list_all2_induct)
    case (Cons v vs t ts)
    then obtain b as where "v = VBV n b" "in_width n b" "vs = map (VBV n) as" "list_all (in_width n) as"
      by auto
    then show ?case by (intro exI [of _ "b # as"]) simp
  qed simp
  then obtain as where as: "us = map (VBV n) as" "list_all (in_width n) as" by blast
  have "arity (Suc (length as))"
    using ar ts vs as assms(2) by (simp add: list_all2_lengthD [symmetric])
  with vs as \<open>valid_width n\<close> show thesis using that by blast
qed

lemma type_bools_values:
  assumes "type_bools arity ts = Some t" and "list_all2 has_type vs ts"
  obtains bs where "vs = map VBool bs" and "arity (length bs)" and "t = BOOLEAN_TYPE"
proof -
  have ar: "arity (length ts)" and bools: "list_all ((=) BOOLEAN_TYPE) ts" and "t = BOOLEAN_TYPE"
    using assms(1) by (auto simp: type_bools_def split: if_splits)
  have "\<exists>bs. vs = map VBool bs"
    using assms(2) bools
  proof (induction rule: list_all2_induct)
    case (Cons v vs t ts)
    then obtain b bs where "v = VBool b" "vs = map VBool bs" by auto
    then show ?case by (intro exI [of _ "b # bs"]) simp
  qed simp
  with that ar \<open>t = BOOLEAN_TYPE\<close> assms(2) show thesis
    by (metis length_map list_all2_lengthD)
qed

lemma foldl_in_width:
  assumes "\<And>x y. in_width n x \<Longrightarrow> in_width n y \<Longrightarrow> in_width n (f x y)"
  shows "in_width n a \<Longrightarrow> list_all (in_width n) as \<Longrightarrow> in_width n (foldl f a as)"
  by (induction as arbitrary: a) (simp_all add: assms)

lemma in_width_bvconcat: "in_width m a \<Longrightarrow> in_width n b \<Longrightarrow> in_width (m + n) (bvconcat n a b)"
proof -
  assume a: "in_width m a" and b: "in_width n b"
  have "a * 2 ^ n + 2 ^ n \<le> 2 ^ m * 2 ^ n"
    using a by (metis add.commute distrib_right in_widthD(2) mult.left_neutral mult_right_mono
        zero_le_numeral zero_le_power zle_add1_eq_le add_mono1 add1_zle_eq)
  with a b show ?thesis
    by (auto simp: bvconcat_def in_width_def power_add)
qed

lemma in_width_bvrepeat: "in_width n a \<Longrightarrow> in_width (r * n) (bvrepeat r n a)"
proof (induction r)
  case (Suc r)
  then show ?case
    using in_width_bvconcat [of "r * n" "bvrepeat r n a" n a] by (simp add: add.commute)
qed (simp add: in_width_def)

lemma in_width_rotate:
  assumes "in_width n a" and "0 < n"
  shows "in_width n (bvrotate_left r n a)" and "in_width n (bvrotate_right r n a)"
proof -
  let ?k = "r mod n"
  have k: "?k < n" using assms(2) by simp
  then have p: "n = ?k + (n - ?k)" "n = (n - ?k) + ?k" by simp_all
  have "in_width (n - ?k) (a mod 2 ^ (n - ?k))" and "in_width ?k (a mod 2 ^ ?k)" by simp_all
  moreover have "in_width ?k (a div 2 ^ (n - ?k))" "in_width (n - ?k) (a div 2 ^ ?k)"
    using assms(1) p by (auto simp: in_width_def div_int_pos_iff power_add [symmetric] intro!: div_pow2_less)
  moreover have "(a * 2 ^ ?k) mod 2 ^ n = (a mod 2 ^ (n - ?k)) * 2 ^ ?k"
    using k by (metis le_add_diff_inverse2 mult_mod_right mult.commute nat_less_le power_add)
  ultimately show "in_width n (bvrotate_left r n a)" "in_width n (bvrotate_right r n a)"
    using in_width_bvconcat [of "n - ?k" "a mod 2 ^ (n - ?k)" ?k "a div 2 ^ (n - ?k)"]
      in_width_bvconcat [of ?k "a mod 2 ^ ?k" "n - ?k" "a div 2 ^ ?k"] k
    by (simp_all add: bvrotate_left_def bvrotate_right_def bvconcat_def add.commute)
qed

lemma in_width_smt_signed:
  assumes "\<And>x y. in_width n x \<Longrightarrow> in_width n y \<Longrightarrow> in_width n (q x y)" and "in_width n a" and "in_width n b"
  shows "in_width n (smt_sdiv q n a b)" and "in_width n (smt_srem q n a b)" and "in_width n (smt_smod q n a b)"
  using assms by (auto simp: smt_sdiv_def smt_srem_def smt_smod_def bvabs_def Let_def)

lemma in_width_urem: "in_width n a \<Longrightarrow> 0 \<le> b \<Longrightarrow> b \<noteq> 0 \<Longrightarrow> in_width n (a mod b)"
proof -
  assume a: "in_width n a" and b: "0 \<le> b" "b \<noteq> 0"
  have "a mod b \<le> a" using a b by (simp add: in_width_def zmod_le_nonneg_dividend)
  with a b show ?thesis by (auto simp: in_width_def)
qed

lemma in_width_division:
  assumes "in_width n a" and "in_width n b"
  shows "in_width n (bvudiv n a b)" and "in_width n (bvurem n a b)"
    and "wf_interp I \<Longrightarrow> in_width n (udivI I n a b)" and "wf_interp I \<Longrightarrow> in_width n (uremI I n a b)"
    and "in_width n (bvlshr n a b)"
  using assms in_widthD(1) [OF assms(2)]
  by (auto simp: bvudiv_def bvurem_def udivI_def uremI_def wf_interp_def bvlshr_def in_width_urem)

lemma v_concat_has_type:
  assumes "has_type v (BITVECTOR_TYPE m)" and "list_all2 has_type vs ts" and "sum_widths ts = Some k"
  shows "has_type (v_concat v vs) (BITVECTOR_TYPE (m + k))"
  using assms
proof (induction ts arbitrary: v vs m k rule: sum_widths.induct)
  case (2 n ts)
  then obtain u us j where vs: "vs = u # us" "has_type u (BITVECTOR_TYPE n)" "list_all2 has_type us ts"
    and j: "sum_widths ts = Some j" "k = n + j"
    by (auto simp: list_all2_Cons2)
  have "has_type (VBV (v_width v + v_width u) (bvconcat (v_width u) (v_int v) (v_int u)))
      (BITVECTOR_TYPE (m + n))"
    using 2(2) vs(2) by (auto simp: in_width_bvconcat)
  from 2(1) [OF this vs(3) j(1)] show ?case
    using vs j by (simp add: add.assoc)
qed auto

lemmas in_width_results =
  in_width_bvconcat in_width_bvrepeat in_width_rotate in_width_smt_signed in_width_division

lemma list_all2_has_type_simps:
  "list_all2 has_type vs [] \<longleftrightarrow> vs = []"
  "list_all2 has_type vs (t # ts) \<longleftrightarrow> (\<exists>u us. vs = u # us \<and> has_type u t \<and> list_all2 has_type us ts)"
  by (auto simp: list_all2_Cons2)

lemma type_same_simps [simp]:
  "type_same ar [] = None"
  "type_same ar (t # ts) = Some n \<longleftrightarrow>
    t = BITVECTOR_TYPE n \<and> valid_width n \<and> ar (Suc (length ts)) \<and> list_all ((=) (BITVECTOR_TYPE n)) ts"
  by (auto simp: type_same_def split: typeNode.splits)

lemma v_ops_simps [simp]:
  "v_un g [VBV w a] = VBV w (g w a)"
  "v_bin f [VBV w a, VBV v b] = VBV w (f w a b)"
  "v_pred p [VBV w a, VBV v b] = VBool (p w a b)"
  "v_bit p [VBV w a, VBV v b] = VBV 1 (of_bool (p w a b))"
  "v_nary f (VBV w a # vs) = VBV w (foldl (f w) a (map v_int vs))"
  "map v_int (map (VBV n) as) = as"
  by (simp_all add: v_un_def v_bin_def v_pred_def v_bit_def v_nary_def comp_def)

lemma in_width_of_bool [simp]: "in_width (Suc 0) (of_bool b)" "in_width (Suc 0) 0" "in_width (Suc 0) 1"
  by (auto simp: in_width_def)

definition bitvector_kind :: "kind \<Rightarrow> bool" where
  "bitvector_kind k \<longleftrightarrow> k \<notin> {EQUAL, NOT, AND, IMPLIES, OR, XOR, ITE, BITVECTOR_ITE,
     BITVECTOR_CONCAT, BITVECTOR_EAGER_ATOM}"

text \<open>The kinds whose children all have one width are settled from the list of their values.\<close>

lemma sem_op_nary_type:
  assumes k: "k \<in> {BITVECTOR_AND, BITVECTOR_OR, BITVECTOR_XOR, BITVECTOR_MULT, BITVECTOR_PLUS}"
    and t: "type_op k ts = Some t" and vs: "list_all2 has_type vs ts"
  shows "has_type (sem_op I k vs) t"
proof -
  from k t obtain n where ts: "type_same (\<lambda>l. 2 \<le> l) ts = Some n" and [simp]: "t = BITVECTOR_TYPE n"
    by (auto simp: type_op_def Let_def)
  from type_same_values [OF ts vs] obtain a as
    where "vs = VBV n a # map (VBV n) as" "in_width n a" "list_all (in_width n) as" by metis
  with k show ?thesis
    by (auto simp: sem_op_def simp del: map_map intro!: foldl_in_width)
qed

lemma sem_op_unary_type:
  assumes "type_op k ts = Some t" and "type_same (\<lambda>l. l = 1) ts = Some n" and vs: "list_all2 has_type vs ts"
    and wf: "wf_interp I" and k: "bitvector_kind k"
    and nary: "k \<notin> {BITVECTOR_AND, BITVECTOR_OR, BITVECTOR_XOR, BITVECTOR_MULT, BITVECTOR_PLUS}"
  shows "has_type (sem_op I k vs) t"
proof -
  from type_same_values [OF assms(2) vs] obtain a
    where v: "vs = [VBV n a]" "in_width n a" "valid_width n" by auto
  have n: "0 < n" using v(3) by (simp add: valid_width_def)
  have ts: "ts = [BITVECTOR_TYPE n]"
    using assms(2) by (cases ts) auto
  show ?thesis
    using assms(1) k nary v n wf ts
    by (cases k) (auto simp: type_op_def sem_op_def Let_def bitvector_kind_def mk_bvtype_def
        type_same_def wf_interp_def in_width_results add.commute in_width_mono split: if_splits)
qed

lemma sem_op_binary_type:
  assumes "type_op k ts = Some t" and "type_same (\<lambda>l. l = 2) ts = Some n" and vs: "list_all2 has_type vs ts"
    and wf: "wf_interp I" and k: "bitvector_kind k"
    and nary: "k \<notin> {BITVECTOR_AND, BITVECTOR_OR, BITVECTOR_XOR, BITVECTOR_MULT, BITVECTOR_PLUS}"
  shows "has_type (sem_op I k vs) t"
proof -
  from type_same_values [OF assms(2) vs] obtain a as
    where as: "vs = VBV n a # map (VBV n) as" "in_width n a" "list_all (in_width n) as"
      "Suc (length as) = 2" "valid_width n" by metis
  then obtain b where v: "vs = [VBV n a, VBV n b]" "in_width n a" "in_width n b" "valid_width n"
    by (cases as) auto
  have ts: "ts = [BITVECTOR_TYPE n, BITVECTOR_TYPE n]"
    using assms(2) by (cases ts) (auto simp: length_Suc_conv)
  show ?thesis
    using assms(1) k nary v wf ts
    by (cases k) (auto simp: type_op_def sem_op_def Let_def bitvector_kind_def
        type_same_def in_width_results split: if_splits)
qed

lemma bitvector_kind_type_same:
  assumes "bitvector_kind k" and "type_op k ts = Some t"
    and "k \<notin> {BITVECTOR_AND, BITVECTOR_OR, BITVECTOR_XOR, BITVECTOR_MULT, BITVECTOR_PLUS}"
  shows "\<exists>n. type_same (\<lambda>l. l = 1) ts = Some n \<or> type_same (\<lambda>l. l = 2) ts = Some n"
  using assms
  by (cases k) (auto simp: bitvector_kind_def type_op_def Let_def bind_eq_Some_conv)

lemma type_op_mixed:
  "type_op EQUAL ts = Some t \<longleftrightarrow> (\<exists>u. ts = [u, u] \<and> valid_type u \<and> t = BOOLEAN_TYPE)"
  "type_op ITE ts = Some t \<longleftrightarrow> ts = [BOOLEAN_TYPE, t, t] \<and> valid_type t"
  "type_op BITVECTOR_ITE ts = Some t \<longleftrightarrow>
    (\<exists>n. ts = [BITVECTOR_TYPE 1, BITVECTOR_TYPE n, BITVECTOR_TYPE n] \<and> valid_width n \<and> t = BITVECTOR_TYPE n)"
  by (auto simp: type_op_def Let_def isBitVector_def split: list.splits if_splits typeNode.splits)

lemma sem_op_type:
  assumes t: "type_op k ts = Some t" and vs: "list_all2 has_type vs ts" and wf: "wf_interp I"
  shows "has_type (sem_op I k vs) t"
proof (cases "bitvector_kind k")
  case True
  with t consider "k \<in> {BITVECTOR_AND, BITVECTOR_OR, BITVECTOR_XOR, BITVECTOR_MULT, BITVECTOR_PLUS}"
    | n where "type_same (\<lambda>l. l = 1) ts = Some n"
        "k \<notin> {BITVECTOR_AND, BITVECTOR_OR, BITVECTOR_XOR, BITVECTOR_MULT, BITVECTOR_PLUS}"
    | n where "type_same (\<lambda>l. l = 2) ts = Some n"
        "k \<notin> {BITVECTOR_AND, BITVECTOR_OR, BITVECTOR_XOR, BITVECTOR_MULT, BITVECTOR_PLUS}"
    using bitvector_kind_type_same by metis
  then show ?thesis
  proof cases
    case 1
    then show ?thesis using sem_op_nary_type t vs by blast
  next
    case 2
    then show ?thesis using sem_op_unary_type [OF t _ vs wf True] by blast
  next
    case 3
    then show ?thesis using sem_op_binary_type [OF t _ vs wf True] by blast
  qed
next
  case False
  then consider "k \<in> {NOT, AND, IMPLIES, OR, XOR, BITVECTOR_EAGER_ATOM}" | "k \<in> {EQUAL, ITE, BITVECTOR_ITE}"
    | "k = BITVECTOR_CONCAT"
    by (auto simp: bitvector_kind_def)
  then show ?thesis
  proof cases
    case 1
    with t obtain ar where "type_bools ar ts = Some t"
      by (auto simp: type_op_def Let_def)
    with vs t 1 show ?thesis
      by (auto elim!: type_bools_values simp: type_op_def Let_def sem_op_def type_bools_def length_Suc_conv
          list_all2_has_type_simps numeral_2_eq_2 split: if_splits)
  next
    case 2
    with t vs show ?thesis
      by (auto simp: type_op_mixed sem_op_def list_all2_has_type_simps)
  next
    case 3
    with t obtain n ts' k' where "ts = BITVECTOR_TYPE n # ts'" "sum_widths ts' = Some k'"
        "t = BITVECTOR_TYPE (n + k')"
      by (cases ts rule: sum_widths.cases)
        (auto simp: type_op_def mk_bvtype_def split: if_splits bind_splits)
    with 3 vs show ?thesis
      by (auto simp: sem_op_def list_all2_has_type_simps simp del: has_type_simps intro!: v_concat_has_type)
  qed
qed

lemma eval_has_type:
  "typeOf n = Some t \<Longrightarrow> wf_interp I \<Longrightarrow> has_type (eval I n) t"
proof (induction n arbitrary: t)
  case (App k ns)
  then obtain ts where ts: "list_all2 (\<lambda>n u. typeOf n = Some u) ns ts" "type_op k ts = Some t"
    unfolding typeOf_App_iff by blast
  then have "list_all2 has_type (map (eval I) ns) ts"
    using App.IH App.prems(2) by (auto simp: list_all2_conv_all_nth)
  then show ?case
    using sem_op_type [OF ts(2)] App.prems(2) by simp
qed (auto simp: wf_interp_def bv_wf_def mk_bvtype_def simp del: has_type_simps(1,2) split: if_splits)


lemma type_same_valid: "type_same ar ts = Some n \<Longrightarrow> valid_width n"
  by (cases ts) auto

lemma type_bools_simps [simp]:
  "type_bools ar ts = Some t \<longleftrightarrow> ar (length ts) \<and> list_all ((=) BOOLEAN_TYPE) ts \<and> t = BOOLEAN_TYPE"
  by (auto simp: type_bools_def)

lemma map_option_Some_iff: "map_option f x = Some t \<longleftrightarrow> (\<exists>n. x = Some n \<and> t = f n)"
  by (cases x) auto

lemma type_op_uniform:
  "type_op BITVECTOR_AND ts = Some t \<longleftrightarrow> (\<exists>n. type_same (\<lambda>l. 2 \<le> l) ts = Some n \<and> t = BITVECTOR_TYPE n)"
  "type_op BITVECTOR_OR ts = Some t \<longleftrightarrow> (\<exists>n. type_same (\<lambda>l. 2 \<le> l) ts = Some n \<and> t = BITVECTOR_TYPE n)"
  "type_op BITVECTOR_XOR ts = Some t \<longleftrightarrow> (\<exists>n. type_same (\<lambda>l. 2 \<le> l) ts = Some n \<and> t = BITVECTOR_TYPE n)"
  "type_op BITVECTOR_MULT ts = Some t \<longleftrightarrow> (\<exists>n. type_same (\<lambda>l. 2 \<le> l) ts = Some n \<and> t = BITVECTOR_TYPE n)"
  "type_op BITVECTOR_PLUS ts = Some t \<longleftrightarrow> (\<exists>n. type_same (\<lambda>l. 2 \<le> l) ts = Some n \<and> t = BITVECTOR_TYPE n)"
  "type_op BITVECTOR_NOT ts = Some t \<longleftrightarrow> (\<exists>n. type_same (\<lambda>l. l = 1) ts = Some n \<and> t = BITVECTOR_TYPE n)"
  "type_op BITVECTOR_NEG ts = Some t \<longleftrightarrow> (\<exists>n. type_same (\<lambda>l. l = 1) ts = Some n \<and> t = BITVECTOR_TYPE n)"
  "type_op BITVECTOR_ACKERMANIZE_UDIV ts = Some t \<longleftrightarrow> (\<exists>n. type_same (\<lambda>l. l = 1) ts = Some n \<and> t = BITVECTOR_TYPE n)"
  "type_op BITVECTOR_ACKERMANIZE_UREM ts = Some t \<longleftrightarrow> (\<exists>n. type_same (\<lambda>l. l = 1) ts = Some n \<and> t = BITVECTOR_TYPE n)"
  "type_op (BITVECTOR_ROTATE_LEFT r) ts = Some t \<longleftrightarrow> (\<exists>n. type_same (\<lambda>l. l = 1) ts = Some n \<and> t = BITVECTOR_TYPE n)"
  "type_op (BITVECTOR_ROTATE_RIGHT r) ts = Some t \<longleftrightarrow> (\<exists>n. type_same (\<lambda>l. l = 1) ts = Some n \<and> t = BITVECTOR_TYPE n)"
  "type_op BITVECTOR_NAND ts = Some t \<longleftrightarrow> (\<exists>n. type_same (\<lambda>l. l = 2) ts = Some n \<and> t = BITVECTOR_TYPE n)"
  "type_op BITVECTOR_NOR ts = Some t \<longleftrightarrow> (\<exists>n. type_same (\<lambda>l. l = 2) ts = Some n \<and> t = BITVECTOR_TYPE n)"
  "type_op BITVECTOR_XNOR ts = Some t \<longleftrightarrow> (\<exists>n. type_same (\<lambda>l. l = 2) ts = Some n \<and> t = BITVECTOR_TYPE n)"
  "type_op BITVECTOR_SUB ts = Some t \<longleftrightarrow> (\<exists>n. type_same (\<lambda>l. l = 2) ts = Some n \<and> t = BITVECTOR_TYPE n)"
  "type_op BITVECTOR_UDIV ts = Some t \<longleftrightarrow> (\<exists>n. type_same (\<lambda>l. l = 2) ts = Some n \<and> t = BITVECTOR_TYPE n)"
  "type_op BITVECTOR_UREM ts = Some t \<longleftrightarrow> (\<exists>n. type_same (\<lambda>l. l = 2) ts = Some n \<and> t = BITVECTOR_TYPE n)"
  "type_op BITVECTOR_SDIV ts = Some t \<longleftrightarrow> (\<exists>n. type_same (\<lambda>l. l = 2) ts = Some n \<and> t = BITVECTOR_TYPE n)"
  "type_op BITVECTOR_SREM ts = Some t \<longleftrightarrow> (\<exists>n. type_same (\<lambda>l. l = 2) ts = Some n \<and> t = BITVECTOR_TYPE n)"
  "type_op BITVECTOR_SMOD ts = Some t \<longleftrightarrow> (\<exists>n. type_same (\<lambda>l. l = 2) ts = Some n \<and> t = BITVECTOR_TYPE n)"
  "type_op BITVECTOR_UDIV_TOTAL ts = Some t \<longleftrightarrow> (\<exists>n. type_same (\<lambda>l. l = 2) ts = Some n \<and> t = BITVECTOR_TYPE n)"
  "type_op BITVECTOR_UREM_TOTAL ts = Some t \<longleftrightarrow> (\<exists>n. type_same (\<lambda>l. l = 2) ts = Some n \<and> t = BITVECTOR_TYPE n)"
  "type_op BITVECTOR_SHL ts = Some t \<longleftrightarrow> (\<exists>n. type_same (\<lambda>l. l = 2) ts = Some n \<and> t = BITVECTOR_TYPE n)"
  "type_op BITVECTOR_LSHR ts = Some t \<longleftrightarrow> (\<exists>n. type_same (\<lambda>l. l = 2) ts = Some n \<and> t = BITVECTOR_TYPE n)"
  "type_op BITVECTOR_ASHR ts = Some t \<longleftrightarrow> (\<exists>n. type_same (\<lambda>l. l = 2) ts = Some n \<and> t = BITVECTOR_TYPE n)"
  "type_op BITVECTOR_COMP ts = Some t \<longleftrightarrow> (\<exists>n. type_same (\<lambda>l. l = 2) ts = Some n \<and> t = BITVECTOR_TYPE 1)"
  "type_op BITVECTOR_ULTBV ts = Some t \<longleftrightarrow> (\<exists>n. type_same (\<lambda>l. l = 2) ts = Some n \<and> t = BITVECTOR_TYPE 1)"
  "type_op BITVECTOR_SLTBV ts = Some t \<longleftrightarrow> (\<exists>n. type_same (\<lambda>l. l = 2) ts = Some n \<and> t = BITVECTOR_TYPE 1)"
  "type_op BITVECTOR_REDOR ts = Some t \<longleftrightarrow> (\<exists>n. type_same (\<lambda>l. l = 1) ts = Some n \<and> t = BOOLEAN_TYPE)"
  "type_op BITVECTOR_REDAND ts = Some t \<longleftrightarrow> (\<exists>n. type_same (\<lambda>l. l = 1) ts = Some n \<and> t = BOOLEAN_TYPE)"
  "type_op BITVECTOR_ULT ts = Some t \<longleftrightarrow> (\<exists>n. type_same (\<lambda>l. l = 2) ts = Some n \<and> t = BOOLEAN_TYPE)"
  "type_op BITVECTOR_ULE ts = Some t \<longleftrightarrow> (\<exists>n. type_same (\<lambda>l. l = 2) ts = Some n \<and> t = BOOLEAN_TYPE)"
  "type_op BITVECTOR_UGT ts = Some t \<longleftrightarrow> (\<exists>n. type_same (\<lambda>l. l = 2) ts = Some n \<and> t = BOOLEAN_TYPE)"
  "type_op BITVECTOR_UGE ts = Some t \<longleftrightarrow> (\<exists>n. type_same (\<lambda>l. l = 2) ts = Some n \<and> t = BOOLEAN_TYPE)"
  "type_op BITVECTOR_SLT ts = Some t \<longleftrightarrow> (\<exists>n. type_same (\<lambda>l. l = 2) ts = Some n \<and> t = BOOLEAN_TYPE)"
  "type_op BITVECTOR_SLE ts = Some t \<longleftrightarrow> (\<exists>n. type_same (\<lambda>l. l = 2) ts = Some n \<and> t = BOOLEAN_TYPE)"
  "type_op BITVECTOR_SGT ts = Some t \<longleftrightarrow> (\<exists>n. type_same (\<lambda>l. l = 2) ts = Some n \<and> t = BOOLEAN_TYPE)"
  "type_op BITVECTOR_SGE ts = Some t \<longleftrightarrow> (\<exists>n. type_same (\<lambda>l. l = 2) ts = Some n \<and> t = BOOLEAN_TYPE)"
  "type_op NOT ts = Some t \<longleftrightarrow> type_bools (\<lambda>l. l = 1) ts = Some t"
  "type_op AND ts = Some t \<longleftrightarrow> type_bools (\<lambda>l. 2 \<le> l) ts = Some t"
  "type_op OR ts = Some t \<longleftrightarrow> type_bools (\<lambda>l. 2 \<le> l) ts = Some t"
  "type_op IMPLIES ts = Some t \<longleftrightarrow> type_bools (\<lambda>l. l = 2) ts = Some t"
  "type_op XOR ts = Some t \<longleftrightarrow> type_bools (\<lambda>l. l = 2) ts = Some t"
  "type_op BITVECTOR_EAGER_ATOM ts = Some t \<longleftrightarrow> type_bools (\<lambda>l. l = 1) ts = Some t"
  by (simp_all add: type_op_def Let_def map_option_Some_iff del: map_option_eq_Some)

lemma type_op_indexed:
  "type_op (BITVECTOR_BITOF i) ts = Some t \<longleftrightarrow> (\<exists>n. type_same (\<lambda>l. l = 1) ts = Some n \<and> i < n \<and> t = BOOLEAN_TYPE)"
  "type_op (BITVECTOR_EXTRACT hi lo) ts = Some t \<longleftrightarrow>
    (\<exists>n. type_same (\<lambda>l. l = 1) ts = Some n \<and> lo \<le> hi \<and> hi < n \<and> t = BITVECTOR_TYPE (hi - lo + 1))"
  "type_op (BITVECTOR_REPEAT r) ts = Some t \<longleftrightarrow>
    (\<exists>n. type_same (\<lambda>l. l = 1) ts = Some n \<and> valid_width (r * n) \<and> t = BITVECTOR_TYPE (r * n))"
  "type_op (BITVECTOR_ZERO_EXTEND r) ts = Some t \<longleftrightarrow>
    (\<exists>n. type_same (\<lambda>l. l = 1) ts = Some n \<and> valid_width (r + n) \<and> t = BITVECTOR_TYPE (r + n))"
  "type_op (BITVECTOR_SIGN_EXTEND r) ts = Some t \<longleftrightarrow>
    (\<exists>n. type_same (\<lambda>l. l = 1) ts = Some n \<and> valid_width (r + n) \<and> t = BITVECTOR_TYPE (r + n))"
  "type_op BITVECTOR_CONCAT ts = Some t \<longleftrightarrow>
    (\<exists>n. 2 \<le> length ts \<and> list_all valid_type ts \<and> sum_widths ts = Some n \<and> valid_width n \<and> t = BITVECTOR_TYPE n)"
proof -
  let ?same = "type_same (\<lambda>l. l = 1) ts"
  show "type_op (BITVECTOR_BITOF i) ts = Some t \<longleftrightarrow> (\<exists>n. ?same = Some n \<and> i < n \<and> t = BOOLEAN_TYPE)"
    "type_op (BITVECTOR_REPEAT r) ts = Some t \<longleftrightarrow>
      (\<exists>n. ?same = Some n \<and> valid_width (r * n) \<and> t = BITVECTOR_TYPE (r * n))"
    "type_op (BITVECTOR_ZERO_EXTEND r) ts = Some t \<longleftrightarrow>
      (\<exists>n. ?same = Some n \<and> valid_width (r + n) \<and> t = BITVECTOR_TYPE (r + n))"
    "type_op (BITVECTOR_SIGN_EXTEND r) ts = Some t \<longleftrightarrow>
      (\<exists>n. ?same = Some n \<and> valid_width (r + n) \<and> t = BITVECTOR_TYPE (r + n))"
    by (cases ?same; force simp: type_op_def mk_bvtype_def)+
  show "type_op (BITVECTOR_EXTRACT hi lo) ts = Some t \<longleftrightarrow>
      (\<exists>n. ?same = Some n \<and> lo \<le> hi \<and> hi < n \<and> t = BITVECTOR_TYPE (hi - lo + 1))"
  proof (cases ?same)
    case (Some n)
    with type_same_valid [OF this] show ?thesis
      by (auto simp: type_op_def mk_bvtype_def valid_width_def)
  qed (simp add: type_op_def)
  show "type_op BITVECTOR_CONCAT ts = Some t \<longleftrightarrow>
      (\<exists>n. 2 \<le> length ts \<and> list_all valid_type ts \<and> sum_widths ts = Some n \<and> valid_width n \<and> t = BITVECTOR_TYPE n)"
    by (cases "sum_widths ts") (auto simp: type_op_def mk_bvtype_def)
qed

lemmas type_op_iffs = type_op_uniform type_op_indexed

lemmas type_op_simps = type_op_iffs type_op_mixed type_bools_simps

lemma typeOf_short:
  "typeOf (App k [x]) = Some t \<longleftrightarrow> (\<exists>u. typeOf x = Some u \<and> type_op k [u] = Some t)"
  "typeOf (App k [x, y]) = Some t \<longleftrightarrow>
    (\<exists>u v. typeOf x = Some u \<and> typeOf y = Some v \<and> type_op k [u, v] = Some t)"
  "typeOf (App k [x, y, z]) = Some t \<longleftrightarrow>
    (\<exists>u v w. typeOf x = Some u \<and> typeOf y = Some v \<and> typeOf z = Some w \<and> type_op k [u, v, w] = Some t)"
  unfolding typeOf_App_iff by (auto simp: list_all2_Cons1)

lemma sem_op_simps [simp]:
  "sem_op I EQUAL vs = (case vs of [v, u] \<Rightarrow> VBool (v = u) | _ \<Rightarrow> VUndef)"
  "sem_op I NOT vs = (case vs of [v] \<Rightarrow> VBool (\<not> v_bool v) | _ \<Rightarrow> VUndef)"
  "sem_op I AND vs = VBool (list_all v_bool vs)"
  "sem_op I OR vs = VBool (list_ex v_bool vs)"
  "sem_op I IMPLIES vs = (case vs of [v, u] \<Rightarrow> VBool (v_bool v \<longrightarrow> v_bool u) | _ \<Rightarrow> VUndef)"
  "sem_op I XOR vs = (case vs of [v, u] \<Rightarrow> VBool (v_bool v \<noteq> v_bool u) | _ \<Rightarrow> VUndef)"
  "sem_op I ITE vs = (case vs of [c, v, u] \<Rightarrow> if v_bool c then v else u | _ \<Rightarrow> VUndef)"
  "sem_op I BITVECTOR_CONCAT vs = (case vs of [] \<Rightarrow> VUndef | v # us \<Rightarrow> v_concat v us)"
  "sem_op I BITVECTOR_AND vs = v_nary (\<lambda>n. and) vs"
  "sem_op I BITVECTOR_OR vs = v_nary (\<lambda>n. or) vs"
  "sem_op I BITVECTOR_XOR vs = v_nary (\<lambda>n. xor) vs"
  "sem_op I BITVECTOR_NOT vs = v_un bvnot vs"
  "sem_op I BITVECTOR_NAND vs = v_bin (\<lambda>n a b. bvnot n (and a b)) vs"
  "sem_op I BITVECTOR_NOR vs = v_bin (\<lambda>n a b. bvnot n (or a b)) vs"
  "sem_op I BITVECTOR_XNOR vs = v_bin (\<lambda>n a b. bvnot n (xor a b)) vs"
  "sem_op I BITVECTOR_COMP vs = v_bit (\<lambda>n a b. a = b) vs"
  "sem_op I BITVECTOR_MULT vs = v_nary bvmul vs"
  "sem_op I BITVECTOR_PLUS vs = v_nary bvadd vs"
  "sem_op I BITVECTOR_SUB vs = v_bin bvsub vs"
  "sem_op I BITVECTOR_NEG vs = v_un bvneg vs"
  "sem_op I BITVECTOR_UDIV vs = v_bin (udivI I) vs"
  "sem_op I BITVECTOR_UREM vs = v_bin (uremI I) vs"
  "sem_op I BITVECTOR_SDIV vs = v_bin (\<lambda>n. smt_sdiv (udivI I n) n) vs"
  "sem_op I BITVECTOR_SREM vs = v_bin (\<lambda>n. smt_srem (uremI I n) n) vs"
  "sem_op I BITVECTOR_SMOD vs = v_bin (\<lambda>n. smt_smod (uremI I n) n) vs"
  "sem_op I BITVECTOR_UDIV_TOTAL vs = v_bin bvudiv vs"
  "sem_op I BITVECTOR_UREM_TOTAL vs = v_bin bvurem vs"
  "sem_op I BITVECTOR_SHL vs = v_bin bvshl vs"
  "sem_op I BITVECTOR_LSHR vs = v_bin bvlshr vs"
  "sem_op I BITVECTOR_ASHR vs = v_bin bvashr vs"
  "sem_op I BITVECTOR_ULT vs = v_pred (\<lambda>n a b. a < b) vs"
  "sem_op I BITVECTOR_ULE vs = v_pred (\<lambda>n a b. a \<le> b) vs"
  "sem_op I BITVECTOR_UGT vs = v_pred (\<lambda>n a b. a > b) vs"
  "sem_op I BITVECTOR_UGE vs = v_pred (\<lambda>n a b. a \<ge> b) vs"
  "sem_op I BITVECTOR_SLT vs = v_pred (\<lambda>n a b. sval n a < sval n b) vs"
  "sem_op I BITVECTOR_SLE vs = v_pred (\<lambda>n a b. sval n a \<le> sval n b) vs"
  "sem_op I BITVECTOR_SGT vs = v_pred (\<lambda>n a b. sval n a > sval n b) vs"
  "sem_op I BITVECTOR_SGE vs = v_pred (\<lambda>n a b. sval n a \<ge> sval n b) vs"
  "sem_op I BITVECTOR_ULTBV vs = v_bit (\<lambda>n a b. a < b) vs"
  "sem_op I BITVECTOR_SLTBV vs = v_bit (\<lambda>n a b. sval n a < sval n b) vs"
  "sem_op I BITVECTOR_ITE vs = (case vs of [c, v, u] \<Rightarrow> if v_int c = 1 then v else u | _ \<Rightarrow> VUndef)"
  "sem_op I BITVECTOR_REDOR vs = (case vs of [VBV w a] \<Rightarrow> VBool (a \<noteq> 0) | _ \<Rightarrow> VUndef)"
  "sem_op I BITVECTOR_REDAND vs = (case vs of [VBV w a] \<Rightarrow> VBool (a = 2 ^ w - 1) | _ \<Rightarrow> VUndef)"
  "sem_op I BITVECTOR_EAGER_ATOM vs = (case vs of [v] \<Rightarrow> v | _ \<Rightarrow> VUndef)"
  "sem_op I BITVECTOR_ACKERMANIZE_UDIV vs = v_un (udiv0 I) vs"
  "sem_op I BITVECTOR_ACKERMANIZE_UREM vs = v_un (urem0 I) vs"
  "sem_op I (BITVECTOR_BITOF i) vs = (case vs of [VBV w a] \<Rightarrow> VBool (bit a i) | _ \<Rightarrow> VUndef)"
  "sem_op I (BITVECTOR_EXTRACT hi lo) vs = (case vs of [VBV w a] \<Rightarrow> VBV (hi - lo + 1) (bvextract hi lo a) | _ \<Rightarrow> VUndef)"
  "sem_op I (BITVECTOR_REPEAT r) vs = (case vs of [VBV w a] \<Rightarrow> VBV (r * w) (bvrepeat r w a) | _ \<Rightarrow> VUndef)"
  "sem_op I (BITVECTOR_ZERO_EXTEND r) vs = (case vs of [VBV w a] \<Rightarrow> VBV (r + w) a | _ \<Rightarrow> VUndef)"
  "sem_op I (BITVECTOR_SIGN_EXTEND r) vs = (case vs of [VBV w a] \<Rightarrow> VBV (r + w) (bvsign_extend r w a) | _ \<Rightarrow> VUndef)"
  "sem_op I (BITVECTOR_ROTATE_LEFT r) vs = v_un (bvrotate_left r) vs"
  "sem_op I (BITVECTOR_ROTATE_RIGHT r) vs = v_un (bvrotate_right r) vs"
  by (simp_all add: sem_op_def)

declare typeOf.simps(4) [simp del]

lemma type_op_valid: "type_op k ts = Some t \<Longrightarrow> valid_type t"
  by (cases k) (auto simp: type_op_def Let_def bind_eq_Some_conv mk_bvtype_def type_bools_def
      valid_width_def dest!: type_same_valid split: if_splits list.splits)

lemma typeOf_valid: "typeOf n = Some t \<Longrightarrow> valid_type t"
  by (cases n) (auto simp only: typeOf_App_iff type_op_valid, auto simp: mk_bvtype_def split: if_splits)

section \<open>The type rules compute the type\<close>

lemma child_map_Inr: "child (map Inr ts) i = (if i < length ts then Inr (ts ! i) else Inl AssertionException)"
  by (simp add: child_def)

lemma sameWidth_loop_same: "list_all ((=) t) ts \<Longrightarrow> sameWidth_loop t (map Inr ts) = Inr t"
  by (induction ts) auto

lemma allBoolean_loop_bools: "list_all ((=) BOOLEAN_TYPE) ts \<Longrightarrow> allBoolean_loop (map Inr ts) = Inr BOOLEAN_TYPE"
  by (induction ts) auto

lemma concatType_loop_sum:
  "sum_widths ts = Some k \<Longrightarrow> sz + k < 2 ^ 32 \<Longrightarrow> concatType_loop sz (map Inr ts) = Inr (BITVECTOR_TYPE (sz + k))"
  by (induction ts arbitrary: sz k rule: sum_widths.induct)
    (auto simp: isBitVector_def getBitVectorSize_def add.assoc)

lemma type_same_exists:
  "type_same ar ts = Some n \<Longrightarrow>
    \<exists>rest. ts = BITVECTOR_TYPE n # rest \<and> ar (length ts) \<and> valid_width n \<and> list_all ((=) (BITVECTOR_TYPE n)) rest"
  by (cases ts) auto

lemma fixedWidth_type_same:
  assumes "type_same ar ts = Some n"
  shows "BitVectorFixedWidthTypeRule check (map Inr ts) = Inr (BITVECTOR_TYPE n)"
  using type_same_exists [OF assms]
  by (auto simp: BitVectorFixedWidthTypeRule_def child_map_Inr isBitVector_def sameWidth_loop_same)

lemma fixedWidth_short:
  "BitVectorFixedWidthTypeRule check [Inr (BITVECTOR_TYPE n)] = Inr (BITVECTOR_TYPE n)"
  "BitVectorFixedWidthTypeRule check [Inr (BITVECTOR_TYPE n), Inr (BITVECTOR_TYPE n)] = Inr (BITVECTOR_TYPE n)"
  by (simp_all add: BitVectorFixedWidthTypeRule_def child_def isBitVector_def)

lemmas type_rule_defs =
  BitVectorBitOfTypeRule_def BitVectorBVPredTypeRule_def BitVectorITETypeRule_def
  BitVectorPredicateTypeRule_def BitVectorUnaryPredicateTypeRule_def BitVectorEagerAtomTypeRule_def
  BitVectorAckermanizationTypeRule_def BitVectorExtractTypeRule_def BitVectorRepeatTypeRule_def
  BitVectorExtendTypeRule_def IteTypeRule_def EqualityTypeRule_def leastCommonTypeNode_def
  isBitVector_def getBitVectorSize_def

lemma type_same_binary: "type_same (\<lambda>l. l = 2) ts = Some n \<longleftrightarrow> ts = [BITVECTOR_TYPE n, BITVECTOR_TYPE n] \<and> valid_width n"
  by (cases ts) (auto simp: length_Suc_conv)

lemma type_same_unary: "type_same (\<lambda>l. l = 1) ts = Some n \<longleftrightarrow> ts = [BITVECTOR_TYPE n] \<and> valid_width n"
  by (cases ts) auto

lemma computeType_type_op:
  assumes t: "type_op k ts = Some t"
  shows "computeType check k (map Inr ts) = Inr t"
proof (cases "bitvector_kind k")
  case False
  then consider "k \<in> {NOT, AND, IMPLIES, OR, XOR, BITVECTOR_EAGER_ATOM}" | "k \<in> {EQUAL, ITE, BITVECTOR_ITE}"
    | "k = BITVECTOR_CONCAT"
    by (auto simp: bitvector_kind_def)
  then show ?thesis
  proof cases
    case 1
    then show ?thesis
      using t by (auto simp: computeType_def type_op_def Let_def type_bools_def BooleanTypeRule_def
          allBoolean_loop_bools BitVectorEagerAtomTypeRule_def child_map_Inr length_Suc_conv split: if_splits)
  next
    case 2
    then show ?thesis
      using t by (auto simp: computeType_def type_op_mixed type_rule_defs child_def)
  next
    case 3
    then show ?thesis
      using t concatType_loop_sum [of ts _ 0]
      by (auto simp: computeType_def type_op_def BitVectorConcatTypeRule_def bind_eq_Some_conv mk_bvtype_def
          valid_width_def split: if_splits)
  qed
next
  case True
  with t show ?thesis
    by (cases k) (auto simp: bitvector_kind_def type_op_def computeType_def Let_def bind_eq_Some_conv
        type_same_unary [simplified] type_same_binary mk_bvtype_def valid_width_def fixedWidth_short
        child_def type_rule_defs fixedWidth_type_same split: if_splits)
qed

lemma getType_typeOf: "typeOf n = Some t \<Longrightarrow> getType check n = Inr t"
proof (induction n arbitrary: t)
  case (App k ns)
  then obtain ts where ts: "list_all2 (\<lambda>n u. typeOf n = Some u) ns ts" "type_op k ts = Some t"
    unfolding typeOf_App_iff by blast
  then have "map (getType check) ns = map Inr ts"
    using App.IH by (auto simp: list_all2_conv_all_nth intro: nth_equalityI)
  then show ?case
    using computeType_type_op [OF ts(2)] by simp
qed (auto simp: BitVectorConstantTypeRule_def mk_bvtype_def valid_width_def split: if_splits)

section \<open>Children of typed applications\<close>

lemma type_same_nodes:
  assumes "list_all2 (\<lambda>n u. typeOf n = Some u) ns ts" and "type_same ar ts = Some w"
  shows "ns \<noteq> []" "\<forall>n\<in>set ns. typeOf n = Some (BITVECTOR_TYPE w)" "ar (length ns)" "valid_width w"
proof -
  from type_same_exists [OF assms(2)] obtain rest where ts: "ts = BITVECTOR_TYPE w # rest"
    "ar (length ts)" "valid_width w" "list_all ((=) (BITVECTOR_TYPE w)) rest" by blast
  then have all: "\<forall>t\<in>set ts. t = BITVECTOR_TYPE w" by (auto simp: list_all_iff)
  have len: "length ns = length ts" using assms(1) by (rule list_all2_lengthD)
  show "ns \<noteq> []" "ar (length ns)" "valid_width w" using ts len by auto
  show "\<forall>n\<in>set ns. typeOf n = Some (BITVECTOR_TYPE w)"
    using assms(1) all len by (fastforce simp: list_all2_conv_all_nth in_set_conv_nth)
qed

lemma typeOf_nary:
  assumes "typeOf (App k ns) = Some t"
    and "k \<in> {BITVECTOR_AND, BITVECTOR_OR, BITVECTOR_XOR, BITVECTOR_MULT, BITVECTOR_PLUS}"
  obtains w where "t = BITVECTOR_TYPE w" "ns \<noteq> []" "\<forall>n\<in>set ns. typeOf n = Some (BITVECTOR_TYPE w)" "valid_width w"
    "2 \<le> length ns"
proof -
  from assms obtain ts w where "list_all2 (\<lambda>n u. typeOf n = Some u) ns ts"
      "type_same (\<lambda>l. 2 \<le> l) ts = Some w" "t = BITVECTOR_TYPE w"
    unfolding typeOf_App_iff by (auto simp: type_op_iffs)
  with type_same_nodes [OF this(1,2)] that show thesis by blast
qed

text \<open>The number a concatenation stands for, most significant value first.\<close>

definition cat_width :: "val list \<Rightarrow> nat" where
  "cat_width vs = sum_list (map v_width vs)"

fun cat_val :: "val list \<Rightarrow> int" where
  "cat_val [] = 0"
| "cat_val (v # vs) = v_int v * 2 ^ cat_width vs + cat_val vs"

lemma cat_width_simps [simp]:
  "cat_width [] = 0" "cat_width (v # vs) = v_width v + cat_width vs"
  "cat_width (vs @ us) = cat_width vs + cat_width us"
  by (simp_all add: cat_width_def)

lemma cat_val_append: "cat_val (vs @ us) = cat_val vs * 2 ^ cat_width us + cat_val us"
  by (induction vs) (simp_all add: power_add algebra_simps)

lemma v_concat_cat:
  "v_concat (VBV w a) us = VBV (w + cat_width us) (a * 2 ^ cat_width us + cat_val us)"
  by (induction us arbitrary: w a) (simp_all add: bvconcat_def power_add algebra_simps)

lemma sum_widths_nodes:
  assumes "list_all2 (\<lambda>n u. typeOf n = Some u) ns ts" and "list_all valid_type ts" and "sum_widths ts = Some w"
  shows "\<forall>n\<in>set ns. \<exists>v. typeOf n = Some (BITVECTOR_TYPE v) \<and> valid_width v"
    and "wf_interp I \<Longrightarrow> cat_width (map (eval I) ns) = w"
proof -
  have "(\<forall>n\<in>set ns. \<exists>v. typeOf n = Some (BITVECTOR_TYPE v) \<and> valid_width v) \<and>
      (wf_interp I \<longrightarrow> cat_width (map (eval I) ns) = w)"
    using assms
  proof (induction ts arbitrary: ns w rule: sum_widths.induct)
    case (2 n ts)
    then obtain m ms k where ns: "ns = m # ms" "typeOf m = Some (BITVECTOR_TYPE n)" "valid_width n"
      "list_all2 (\<lambda>n u. typeOf n = Some u) ms ts" "list_all valid_type ts" "sum_widths ts = Some k" "w = n + k"
      by (auto simp: list_all2_Cons2)
    have "v_width (eval I m) = n" if "wf_interp I"
      using eval_has_type [OF ns(2) that] by auto
    with 2(1) [OF ns(4-6)] ns show ?case by auto
  qed auto
  then show "\<forall>n\<in>set ns. \<exists>v. typeOf n = Some (BITVECTOR_TYPE v) \<and> valid_width v"
    and "wf_interp I \<Longrightarrow> cat_width (map (eval I) ns) = w" by blast+
qed

lemma typeOf_concat:
  assumes "typeOf (App BITVECTOR_CONCAT ns) = Some t"
  obtains w where "t = BITVECTOR_TYPE w" "valid_width w" "ns \<noteq> []"
    "\<forall>n\<in>set ns. \<exists>v. typeOf n = Some (BITVECTOR_TYPE v) \<and> valid_width v"
    "\<And>I. wf_interp I \<Longrightarrow> cat_width (map (eval I) ns) = w" "2 \<le> length ns"
proof -
  from assms obtain ts w where ts: "list_all2 (\<lambda>n u. typeOf n = Some u) ns ts" "2 \<le> length ts" "list_all valid_type ts"
      "sum_widths ts = Some w" "valid_width w" "t = BITVECTOR_TYPE w"
    unfolding typeOf_App_iff by (auto simp: type_op_iffs)
  then have "ns \<noteq> []" "2 \<le> length ns" by (auto dest: list_all2_lengthD)
  with sum_widths_nodes [OF ts(1,3,4)] ts(5,6) that show thesis by blast
qed

lemma eval_concat:
  assumes "typeOf (App BITVECTOR_CONCAT ns) = Some t" and "wf_interp I"
  shows "eval I (App BITVECTOR_CONCAT ns) = VBV (cat_width (map (eval I) ns)) (cat_val (map (eval I) ns))"
proof -
  from typeOf_concat [OF assms(1)] have ne: "ns \<noteq> []"
    and typed: "\<forall>n\<in>set ns. \<exists>v. typeOf n = Some (BITVECTOR_TYPE v) \<and> valid_width v" by metis+
  then obtain m ms v where ns: "ns = m # ms" "typeOf m = Some (BITVECTOR_TYPE v)"
    by (cases ns) auto
  from eval_has_type [OF ns(2) assms(2)] obtain a where "eval I m = VBV v a" by auto
  then show ?thesis by (simp add: ns(1) v_concat_cat)
qed

end
