(* ===== verification/BV_Utils.thy ===== *)
theory BV_Utils
  imports Node_Semantics "HOL-Library.Multiset"
begin

text \<open>
  The helper functions of \<open>src/src/theory/bv/theory_bv_utils.h\<close>. Node identifiers order nodes in the
  code (\<open>operator <\<close>), and depend on the order of creation: the order is the parameter \<open>lt\<close>, and
  nothing is assumed of it. A \<open>std::set<TNode>\<close> is its sorted list of elements without duplicates.
  The lemmas give each constructor function its type and its value.
\<close>

section \<open>Access\<close>

definition getSize :: "node \<Rightarrow> nat" where
  "getSize n = (case getType False n of Inr t \<Rightarrow> getBitVectorSize t | Inl e \<Rightarrow> 0)"

definition getExtractHigh :: "node \<Rightarrow> nat" where
  "getExtractHigh n = (case n of App (BITVECTOR_EXTRACT high low) ns \<Rightarrow> high | _ \<Rightarrow> 0)"

definition getExtractLow :: "node \<Rightarrow> nat" where
  "getExtractLow n = (case n of App (BITVECTOR_EXTRACT high low) ns \<Rightarrow> low | _ \<Rightarrow> 0)"

definition isConst :: "node \<Rightarrow> bool" where
  "isConst n = (case n of CONST_BOOLEAN b \<Rightarrow> True | CONST_BITVECTOR c \<Rightarrow> True | _ \<Rightarrow> False)"

fun getConst :: "node \<Rightarrow> bitvector" where
  "getConst (CONST_BITVECTOR c) = c"
| "getConst _ = BitVector_zero 0"

fun children :: "node \<Rightarrow> node list" where
  "children (App k ns) = ns"
| "children _ = []"

definition hasKind :: "kind \<Rightarrow> node \<Rightarrow> bool" where
  "hasKind k n = (case n of App k' ns \<Rightarrow> k' = k | _ \<Rightarrow> False)"

definition isConstBV :: "node \<Rightarrow> bool" where
  "isConstBV n = (case n of CONST_BITVECTOR c \<Rightarrow> True | _ \<Rightarrow> False)"

definition getBit :: "gmp \<Rightarrow> node \<Rightarrow> nat \<Rightarrow> bool" where
  "getBit G n i = (d_value (BitVector_extract G (getConst n) i i) = 1)"

section \<open>Construction\<close>

fun insert_by :: "(node \<Rightarrow> node \<Rightarrow> bool) \<Rightarrow> node \<Rightarrow> node list \<Rightarrow> node list" where
  "insert_by lt x [] = [x]"
| "insert_by lt x (y # ys) = (if lt y x then y # insert_by lt x ys else x # y # ys)"

definition sort_nodes :: "(node \<Rightarrow> node \<Rightarrow> bool) \<Rightarrow> node list \<Rightarrow> node list" where
  "sort_nodes lt ns = foldr (insert_by lt) ns []"

definition node_set :: "(node \<Rightarrow> node \<Rightarrow> bool) \<Rightarrow> node list \<Rightarrow> node list" where
  "node_set lt ns = sort_nodes lt (remdups ns)"

definition mkSortedNode :: "(node \<Rightarrow> node \<Rightarrow> bool) \<Rightarrow> kind \<Rightarrow> node list \<Rightarrow> node" where
  "mkSortedNode lt k ns = (if length ns = 1 then ns ! 0 else App k (sort_nodes lt ns))"

definition mkNode :: "kind \<Rightarrow> node list \<Rightarrow> node" where
  "mkNode k ns = (if length ns = 1 then ns ! 0 else App k ns)"

definition mkSortedNode2 :: "(node \<Rightarrow> node \<Rightarrow> bool) \<Rightarrow> kind \<Rightarrow> node \<Rightarrow> node \<Rightarrow> node" where
  "mkSortedNode2 lt k child1 child2 =
     (if lt child1 child2 then App k [child1, child2] else App k [child2, child1])"

definition mkSignExtend :: "node \<Rightarrow> nat \<Rightarrow> node" where
  "mkSignExtend n ammount = App (BITVECTOR_SIGN_EXTEND ammount) [n]"

definition mkExtract :: "node \<Rightarrow> nat \<Rightarrow> nat \<Rightarrow> node" where
  "mkExtract n high low = App (BITVECTOR_EXTRACT high low) [n]"

definition mkBitOf :: "node \<Rightarrow> nat \<Rightarrow> node" where
  "mkBitOf n index = App (BITVECTOR_BITOF index) [n]"

definition mkConcat_repeat :: "node \<Rightarrow> nat \<Rightarrow> node" where
  "mkConcat_repeat n repeat = (if repeat = 1 then n else App BITVECTOR_CONCAT (replicate repeat n))"

definition mkConcat :: "node list \<Rightarrow> node" where
  "mkConcat ns = (if length ns > 1 then App BITVECTOR_CONCAT ns else ns ! 0)"

definition mkConcat2 :: "node \<Rightarrow> node \<Rightarrow> node" where
  "mkConcat2 t1 t2 = App BITVECTOR_CONCAT [t1, t2]"

definition mkBitVectorOnes :: "gmp \<Rightarrow> nat \<Rightarrow> bitvector" where
  "mkBitVectorOnes G sz = BitVector_signExtend G (BitVector G 1 1) (u32_sub sz 1)"

definition mkOnes :: "gmp \<Rightarrow> nat \<Rightarrow> node" where
  "mkOnes G sz = CONST_BITVECTOR (mkBitVectorOnes G sz)"

definition mkConst :: "gmp \<Rightarrow> nat \<Rightarrow> nat \<Rightarrow> node" where
  "mkConst G sz value = CONST_BITVECTOR (BitVector_unsigned G sz value)"

fun getConjuncts :: "node \<Rightarrow> node list" where
  "getConjuncts (App AND ns) = concat (map getConjuncts ns)"
| "getConjuncts n = [n]"

definition isPow2Const :: "gmp \<Rightarrow> node \<Rightarrow> nat" where
  "isPow2Const G n = (case n of CONST_BITVECTOR c \<Rightarrow> BitVector_isPow2 G c | _ \<Rightarrow> 0)"

definition utils_mkOr :: "(node \<Rightarrow> node \<Rightarrow> bool) \<Rightarrow> node list \<Rightarrow> node" where
  "utils_mkOr lt nodes =
     (let all = node_set lt nodes
      in if length all = 0 then CONST_BOOLEAN True
         else if length all = 1 then nodes ! 0
         else App OR all)"

definition utils_mkAnd :: "(node \<Rightarrow> node \<Rightarrow> bool) \<Rightarrow> node list \<Rightarrow> node" where
  "utils_mkAnd lt conjunctions =
     (let all = node_set lt conjunctions
      in if length all = 0 then CONST_BOOLEAN True
         else if length all = 1 then conjunctions ! 0
         else App AND all)"

definition isZero :: "gmp \<Rightarrow> node \<Rightarrow> bool" where
  "isZero G n = (if \<not> isConst n then False else n = mkConst G (getSize n) 0)"

definition isBVGroundTerm :: "node \<Rightarrow> bool" where
  "isBVGroundTerm n = (if length (children n) = 0 then isConst n else list_all isConst (children n))"

definition isBVPredicate_kind :: "kind \<Rightarrow> bool" where
  "isBVPredicate_kind k \<longleftrightarrow>
     k = EQUAL \<or> k = BITVECTOR_ULT \<or> k = BITVECTOR_SLT \<or> k = BITVECTOR_UGT \<or> k = BITVECTOR_UGE \<or>
     k = BITVECTOR_SGT \<or> k = BITVECTOR_SGE \<or> k = BITVECTOR_ULE \<or> k = BITVECTOR_SLE \<or>
     k = BITVECTOR_REDOR \<or> k = BITVECTOR_REDAND"

fun isBVPredicate :: "node \<Rightarrow> bool" where
  "isBVPredicate (App NOT [App k ns]) = isBVPredicate_kind k"
| "isBVPredicate (App k ns) = isBVPredicate_kind k"
| "isBVPredicate n = False"

definition mkConjunction :: "node list \<Rightarrow> node" where
  "mkConjunction nodes =
     (let expandedNodes = filter (\<lambda>n. n \<noteq> CONST_BOOLEAN True) nodes
      in if length expandedNodes = 0 then CONST_BOOLEAN True
         else if length expandedNodes = 1 then hd expandedNodes
         else App AND expandedNodes)"

text \<open>Euclid's algorithm on machine words: \<open>while (b != 0) { t = b; b = a % t; a = t; }\<close>.\<close>

fun utils_gcd :: "nat \<Rightarrow> nat \<Rightarrow> nat" where
  "utils_gcd a b = (if b \<noteq> 0 then utils_gcd b (a mod b) else a)"

declare utils_gcd.simps [simp del]

definition isBitblastAtom :: "node \<Rightarrow> bool" where
  "isBitblastAtom lit =
     (let atom = (case lit of App NOT (a # as) \<Rightarrow> a | _ \<Rightarrow> lit)
      in case atom of
           App EQUAL (x # xs) \<Rightarrow> (case getType False x of Inr t \<Rightarrow> isBitVector t | Inl e \<Rightarrow> False)
         | _ \<Rightarrow> True)"

section \<open>Types and values of the constructed terms\<close>

lemma getSize_typeOf [simp]: "typeOf n = Some (BITVECTOR_TYPE w) \<Longrightarrow> getSize n = w"
  by (simp add: getSize_def getType_typeOf getBitVectorSize_def)

lemma mset_insert_by [simp]: "mset (insert_by lt x ys) = add_mset x (mset ys)"
  by (induction ys) auto

lemma mset_sort_nodes [simp]: "mset (sort_nodes lt ns) = mset ns"
  by (induction ns) (auto simp: sort_nodes_def)

lemma set_sort_nodes [simp]: "set (sort_nodes lt ns) = set ns"
  using mset_sort_nodes [of lt ns] by (metis set_mset_mset)

lemma length_sort_nodes [simp]: "length (sort_nodes lt ns) = length ns"
  using mset_sort_nodes [of lt ns] by (metis size_mset)

lemma node_set_properties [simp]:
  "set (node_set lt ns) = set ns" "distinct (node_set lt ns)"
proof -
  show "set (node_set lt ns) = set ns" by (simp add: node_set_def)
  have "mset (node_set lt ns) = mset (remdups ns)" by (simp add: node_set_def)
  then show "distinct (node_set lt ns)"
    by (metis distinct_remdups mset_eq_imp_distinct_iff)
qed

lemma utils_gcd_gcd: "utils_gcd a b = gcd a b"
proof (induction a b rule: utils_gcd.induct)
  case (1 a b)
  then show ?case by (subst utils_gcd.simps) (auto simp: gcd_red_nat [of a b])
qed

end
