(* ===== verification/BV_Rewrite_Rules.thy ===== *)
theory BV_Rewrite_Rules
  imports BV_Utils
begin

text \<open>
  The frame of the bit-vector rewrite rules (\<open>src/src/theory/bv/theory_bv_rewrite_rules.h\<close>): a
  \<open>RewriteRule\<close> is a record of its \<open>applies\<close> and its \<open>apply\<close>, and the strategies run rules one after
  the other. A rule is sound when, on every well-typed term it applies to, it returns a term of the
  same type and of the same value in every interpretation; soundness passes to the strategies.
  \<open>zero_division opt\<close> is what the option \<open>bitvectorDivByZeroConst\<close> says of the partial division.
  The lemmas at the end take typed terms apart for the rules' proofs.
\<close>

section \<open>Rules and strategies\<close>

record rule =
  applies :: "node \<Rightarrow> bool"
  apply_rule :: "node \<Rightarrow> node exc"

definition RewriteRule_run :: "bool \<Rightarrow> rule \<Rightarrow> node \<Rightarrow> node exc" where
  "RewriteRule_run checkApplies R node =
     (if \<not> checkApplies \<or> applies R node then apply_rule R node else Inr node)"

definition EmptyRule :: rule where
  "EmptyRule = \<lparr>applies = (\<lambda>node. False), apply_rule = (\<lambda>node. Inl UnreachableCodeException)\<rparr>"

definition ApplyRuleToChildren :: "kind \<Rightarrow> rule \<Rightarrow> rule" where
  "ApplyRuleToChildren k R =
     \<lparr>applies = (\<lambda>node. if hasKind k node then True else applies R node),
      apply_rule = (\<lambda>node.
        if \<not> hasKind k node then RewriteRule_run True R node
        else ebind (emap (RewriteRule_run True R) (children node)) (\<lambda>cs. Inr (App k cs)))\<rparr>"

fun LinearRewriteStrategy :: "rule list \<Rightarrow> node \<Rightarrow> node exc" where
  "LinearRewriteStrategy [] current = Inr current"
| "LinearRewriteStrategy (R # Rs) current =
     ebind (if applies R current then RewriteRule_run False R current else Inr current)
       (LinearRewriteStrategy Rs)"

text \<open>The kinds that carry parameters, and their operators.\<close>

definition isExtract :: "node \<Rightarrow> bool" where
  "isExtract n = (case n of App (BITVECTOR_EXTRACT high low) ns \<Rightarrow> True | _ \<Rightarrow> False)"

definition isSignExtend :: "node \<Rightarrow> bool" where
  "isSignExtend n = (case n of App (BITVECTOR_SIGN_EXTEND m) ns \<Rightarrow> True | _ \<Rightarrow> False)"

definition isZeroExtend :: "node \<Rightarrow> bool" where
  "isZeroExtend n = (case n of App (BITVECTOR_ZERO_EXTEND m) ns \<Rightarrow> True | _ \<Rightarrow> False)"

definition isRepeat :: "node \<Rightarrow> bool" where
  "isRepeat n = (case n of App (BITVECTOR_REPEAT m) ns \<Rightarrow> True | _ \<Rightarrow> False)"

definition isRotateLeft :: "node \<Rightarrow> bool" where
  "isRotateLeft n = (case n of App (BITVECTOR_ROTATE_LEFT m) ns \<Rightarrow> True | _ \<Rightarrow> False)"

definition isRotateRight :: "node \<Rightarrow> bool" where
  "isRotateRight n = (case n of App (BITVECTOR_ROTATE_RIGHT m) ns \<Rightarrow> True | _ \<Rightarrow> False)"

definition opAmount :: "node \<Rightarrow> nat" where
  "opAmount n =
     (case n of
        App (BITVECTOR_SIGN_EXTEND m) ns \<Rightarrow> m
      | App (BITVECTOR_ZERO_EXTEND m) ns \<Rightarrow> m
      | App (BITVECTOR_REPEAT m) ns \<Rightarrow> m
      | App (BITVECTOR_ROTATE_LEFT m) ns \<Rightarrow> m
      | App (BITVECTOR_ROTATE_RIGHT m) ns \<Rightarrow> m
      | _ \<Rightarrow> 0)"

lemma hasKind_iff: "hasKind k n \<longleftrightarrow> (\<exists>ns. n = App k ns)"
  by (cases n) (auto simp: hasKind_def)

lemma isConstBV_iff: "isConstBV n \<longleftrightarrow> (\<exists>c. n = CONST_BITVECTOR c)"
  by (cases n) (auto simp: isConstBV_def)

lemma isParam_iff:
  "isExtract n \<longleftrightarrow> (\<exists>high low ns. n = App (BITVECTOR_EXTRACT high low) ns)"
  "isSignExtend n \<longleftrightarrow> (\<exists>m ns. n = App (BITVECTOR_SIGN_EXTEND m) ns)"
  "isZeroExtend n \<longleftrightarrow> (\<exists>m ns. n = App (BITVECTOR_ZERO_EXTEND m) ns)"
  "isRepeat n \<longleftrightarrow> (\<exists>m ns. n = App (BITVECTOR_REPEAT m) ns)"
  "isRotateLeft n \<longleftrightarrow> (\<exists>m ns. n = App (BITVECTOR_ROTATE_LEFT m) ns)"
  "isRotateRight n \<longleftrightarrow> (\<exists>m ns. n = App (BITVECTOR_ROTATE_RIGHT m) ns)"
  by (auto simp: isExtract_def isSignExtend_def isZeroExtend_def isRepeat_def isRotateLeft_def isRotateRight_def
      split: node.splits kind.splits)

lemma opAmount_simps [simp]:
  "opAmount (App (BITVECTOR_SIGN_EXTEND m) ns) = m"
  "opAmount (App (BITVECTOR_ZERO_EXTEND m) ns) = m"
  "opAmount (App (BITVECTOR_REPEAT m) ns) = m"
  "opAmount (App (BITVECTOR_ROTATE_LEFT m) ns) = m"
  "opAmount (App (BITVECTOR_ROTATE_RIGHT m) ns) = m"
  by (simp_all add: opAmount_def)

lemma getExtract_simps [simp]:
  "getExtractHigh (App (BITVECTOR_EXTRACT high low) ns) = high"
  "getExtractLow (App (BITVECTOR_EXTRACT high low) ns) = low"
  by (simp_all add: getExtractHigh_def getExtractLow_def)

section \<open>Soundness\<close>

definition zero_division :: "bool \<Rightarrow> interp \<Rightarrow> bool" where
  "zero_division opt I \<longleftrightarrow> (opt \<longrightarrow> (\<forall>n a. udiv0 I n a = 2 ^ n - 1 \<and> urem0 I n a = a mod 2 ^ n))"

text \<open>Such interpretations exist, with either setting of the option.\<close>

definition default_interp :: interp where
  "default_interp =
     \<lparr>ivar = (\<lambda>i t. case t of BITVECTOR_TYPE n \<Rightarrow> VBV n 0 | _ \<Rightarrow> VBool False),
      udiv0 = (\<lambda>n a. 2 ^ n - 1), urem0 = (\<lambda>n a. a mod 2 ^ n)\<rparr>"

lemma wf_interp_default: "wf_interp default_interp"
  by (auto simp: wf_interp_def default_interp_def valid_type_def split: typeNode.split)

lemma zero_division_default: "zero_division opt default_interp"
  by (simp add: zero_division_def default_interp_def)

definition same_meaning :: "bool \<Rightarrow> node \<Rightarrow> node \<Rightarrow> bool" where
  "same_meaning opt m n \<longleftrightarrow>
     typeOf m = typeOf n \<and> (\<forall>I. wf_interp I \<longrightarrow> zero_division opt I \<longrightarrow> eval I m = eval I n)"

definition sound_result :: "bool \<Rightarrow> node \<Rightarrow> node exc \<Rightarrow> bool" where
  "sound_result opt n r \<longleftrightarrow> (\<exists>m. r = Inr m \<and> same_meaning opt m n)"

definition rule_sound :: "bool \<Rightarrow> rule \<Rightarrow> bool" where
  "rule_sound opt R \<longleftrightarrow> (\<forall>n t. typeOf n = Some t \<longrightarrow> applies R n \<longrightarrow> sound_result opt n (apply_rule R n))"

lemma same_meaning_refl [simp]: "same_meaning opt n n"
  by (simp add: same_meaning_def)

lemma same_meaning_trans: "same_meaning opt l m \<Longrightarrow> same_meaning opt m n \<Longrightarrow> same_meaning opt l n"
  by (simp add: same_meaning_def)

lemma sound_result_Inr [simp]: "sound_result opt n (Inr m) \<longleftrightarrow> same_meaning opt m n"
  by (simp add: sound_result_def)

lemma rule_soundI:
  "(\<And>n t. typeOf n = Some t \<Longrightarrow> applies R n \<Longrightarrow> sound_result opt n (apply_rule R n)) \<Longrightarrow> rule_sound opt R"
  by (simp add: rule_sound_def)

lemma same_meaningI:
  assumes "typeOf n = Some t" and "typeOf m = Some t"
    and "\<And>I. wf_interp I \<Longrightarrow> zero_division opt I \<Longrightarrow> eval I m = eval I n"
  shows "same_meaning opt m n"
  using assms by (simp add: same_meaning_def)

lemma same_meaning_bool:
  assumes "typeOf n = Some BOOLEAN_TYPE" and "\<And>I. wf_interp I \<Longrightarrow> zero_division opt I \<Longrightarrow> eval I n = VBool b"
  shows "same_meaning opt (CONST_BOOLEAN b) n"
  using assms by (simp add: same_meaning_def)

lemma run_sound:
  assumes "rule_sound opt R" and "typeOf n = Some t"
  shows "sound_result opt n (RewriteRule_run True R n)"
  using assms by (simp add: RewriteRule_run_def rule_sound_def)

lemma sound_result_bind:
  assumes "sound_result opt n r" and "typeOf n = Some t"
    and "\<And>m. same_meaning opt m n \<Longrightarrow> typeOf m = Some t \<Longrightarrow> sound_result opt m (f m)"
  shows "sound_result opt n (ebind r f)"
  using assms unfolding sound_result_def by (auto simp: same_meaning_def)

lemma linear_sound:
  "list_all (rule_sound opt) Rs \<Longrightarrow> typeOf n = Some t \<Longrightarrow> sound_result opt n (LinearRewriteStrategy Rs n)"
proof (induction Rs arbitrary: n)
  case (Cons R Rs)
  have "sound_result opt n (if applies R n then RewriteRule_run False R n else Inr n)"
    using Cons.prems by (simp add: rule_sound_def RewriteRule_run_def)
  then show ?case
    using sound_result_bind Cons by simp
qed simp

text \<open>Replacing children by terms of the same meaning keeps the meaning.\<close>

lemma same_meaning_App:
  assumes "list_all2 (same_meaning opt) ms ns"
  shows "same_meaning opt (App k ms) (App k ns)"
proof -
  have types: "map typeOf ms = map typeOf ns"
    using assms by (auto simp: list_all2_conv_all_nth same_meaning_def intro: nth_equalityI)
  have "map (eval I) ms = map (eval I) ns" if "wf_interp I" "zero_division opt I" for I
    using assms that by (auto simp: list_all2_conv_all_nth same_meaning_def intro: nth_equalityI)
  then show ?thesis
    using types by (simp add: same_meaning_def typeOf.simps(4))
qed

lemma emap_sound:
  assumes "\<And>n. n \<in> set ns \<Longrightarrow> sound_result opt n (f n)"
  shows "\<exists>ms. emap f ns = Inr ms \<and> list_all2 (same_meaning opt) ms ns"
  using assms
proof (induction ns)
  case (Cons n ns)
  then obtain m ms where "f n = Inr m" "same_meaning opt m n" "emap f ns = Inr ms" "list_all2 (same_meaning opt) ms ns"
    by (force simp: sound_result_def)
  then show ?case by simp
qed simp

lemma typed_children: "typeOf (App k ns) = Some t \<Longrightarrow> c \<in> set ns \<Longrightarrow> \<exists>u. typeOf c = Some u"
  by (auto simp: typeOf_App_iff list_all2_conv_all_nth in_set_conv_nth)

lemma ApplyRuleToChildren_sound:
  assumes "rule_sound opt R"
  shows "rule_sound opt (ApplyRuleToChildren k R)"
proof (rule rule_soundI)
  fix n t assume n: "typeOf n = Some t" "applies (ApplyRuleToChildren k R) n"
  show "sound_result opt n (apply_rule (ApplyRuleToChildren k R) n)"
  proof (cases "hasKind k n")
    case False
    then show ?thesis using run_sound [OF assms n(1)] by (simp add: ApplyRuleToChildren_def)
  next
    case True
    then obtain ns where ns: "n = App k ns" by (auto simp: hasKind_iff)
    have "\<exists>ms. emap (RewriteRule_run True R) ns = Inr ms \<and> list_all2 (same_meaning opt) ms ns"
    proof (rule emap_sound)
      fix c assume "c \<in> set ns"
      then show "sound_result opt c (RewriteRule_run True R c)"
        using typed_children n(1) run_sound [OF assms] unfolding ns by blast
    qed
    then show ?thesis
      using True same_meaning_App [of opt _ ns k] by (auto simp: ApplyRuleToChildren_def ns)
  qed
qed

section \<open>Taking typed terms apart\<close>

lemma typed_bv_value:
  assumes "typeOf n = Some (BITVECTOR_TYPE w)" and "wf_interp I"
  obtains a where "eval I n = VBV w a" "in_width w a" "0 \<le> a" "a < 2 ^ w"
  using eval_has_type [OF assms] by (auto simp: in_width_def)

lemma typed_const:
  "typeOf (CONST_BITVECTOR c) = Some t \<longleftrightarrow> bv_wf c \<and> 0 < d_size c \<and> t = BITVECTOR_TYPE (d_size c)"
  by (auto simp: mk_bvtype_def valid_width_def bv_wf_def)

declare typeOf.simps(3) [simp del] typed_const [simp]

lemma const_of_type:
  assumes "isConst n" and "typeOf n = Some (BITVECTOR_TYPE w)"
  obtains c where "n = CONST_BITVECTOR c" "bv_wf c" "d_size c = w" "0 < w" "w < 2 ^ 32"
proof (cases n)
  case (CONST_BITVECTOR c)
  with assms(2) have "bv_wf c" "0 < d_size c" "d_size c = w"
    unfolding CONST_BITVECTOR typed_const by simp_all
  then show thesis using that [OF CONST_BITVECTOR] bv_wfD(1) [of c] by simp
qed (use assms in \<open>simp_all add: isConst_def\<close>)

text \<open>The kinds that take one, or two, bit-vectors of one width.\<close>

definition unary_kind :: "kind \<Rightarrow> bool" where
  "unary_kind k \<longleftrightarrow> (\<forall>ts t. type_op k ts = Some t \<longrightarrow> (\<exists>w. type_same (\<lambda>l. l = 1) ts = Some w))"

definition binary_kind :: "kind \<Rightarrow> bool" where
  "binary_kind k \<longleftrightarrow> (\<forall>ts t. type_op k ts = Some t \<longrightarrow> (\<exists>w. type_same (\<lambda>l. l = 2) ts = Some w))"

lemma unary_kinds [simp]:
  "unary_kind BITVECTOR_NOT"
  "unary_kind BITVECTOR_NEG"
  "unary_kind BITVECTOR_ACKERMANIZE_UDIV"
  "unary_kind BITVECTOR_ACKERMANIZE_UREM"
  "unary_kind BITVECTOR_REDOR"
  "unary_kind BITVECTOR_REDAND"
  "unary_kind (BITVECTOR_ROTATE_LEFT r)"
  "unary_kind (BITVECTOR_ROTATE_RIGHT r)"
  "unary_kind (BITVECTOR_BITOF r)"
  "unary_kind (BITVECTOR_EXTRACT hi lo)"
  "unary_kind (BITVECTOR_REPEAT r)"
  "unary_kind (BITVECTOR_ZERO_EXTEND r)"
  "unary_kind (BITVECTOR_SIGN_EXTEND r)"
  by (auto simp: unary_kind_def type_op_iffs)

lemma binary_kinds [simp]:
  "binary_kind BITVECTOR_NAND"
  "binary_kind BITVECTOR_NOR"
  "binary_kind BITVECTOR_XNOR"
  "binary_kind BITVECTOR_SUB"
  "binary_kind BITVECTOR_UDIV"
  "binary_kind BITVECTOR_UREM"
  "binary_kind BITVECTOR_SDIV"
  "binary_kind BITVECTOR_SREM"
  "binary_kind BITVECTOR_SMOD"
  "binary_kind BITVECTOR_UDIV_TOTAL"
  "binary_kind BITVECTOR_UREM_TOTAL"
  "binary_kind BITVECTOR_SHL"
  "binary_kind BITVECTOR_LSHR"
  "binary_kind BITVECTOR_ASHR"
  "binary_kind BITVECTOR_COMP"
  "binary_kind BITVECTOR_ULTBV"
  "binary_kind BITVECTOR_SLTBV"
  "binary_kind BITVECTOR_ULT"
  "binary_kind BITVECTOR_ULE"
  "binary_kind BITVECTOR_UGT"
  "binary_kind BITVECTOR_UGE"
  "binary_kind BITVECTOR_SLT"
  "binary_kind BITVECTOR_SLE"
  "binary_kind BITVECTOR_SGT"
  "binary_kind BITVECTOR_SGE"
  by (auto simp: binary_kind_def type_op_iffs)

lemma unary_children:
  assumes "typeOf (App k ns) = Some t"
    and "unary_kind k"
  obtains x w where "ns = [x]" "typeOf x = Some (BITVECTOR_TYPE w)" "valid_width w"
proof -
  from assms(1) obtain ts where ts: "list_all2 (\<lambda>n u. typeOf n = Some u) ns ts" "type_op k ts = Some t"
    by (auto simp: typeOf_App_iff)
  with assms(2) obtain w where "type_same (\<lambda>l. l = 1) ts = Some w" by (auto simp: unary_kind_def)
  from type_same_nodes [OF ts(1) this] that show thesis by (auto simp: length_Suc_conv)
qed

lemma binary_children:
  assumes "typeOf (App k ns) = Some t"
    and "binary_kind k"
  obtains x y w where "ns = [x, y]" "typeOf x = Some (BITVECTOR_TYPE w)" "typeOf y = Some (BITVECTOR_TYPE w)"
    "valid_width w"
proof -
  from assms(1) obtain ts where ts: "list_all2 (\<lambda>n u. typeOf n = Some u) ns ts" "type_op k ts = Some t"
    by (auto simp: typeOf_App_iff)
  with assms(2) obtain w where "type_same (\<lambda>l. l = 2) ts = Some w" by (auto simp: binary_kind_def)
  from type_same_nodes [OF ts(1) this] that show thesis by (auto simp: length_Suc_conv numeral_2_eq_2)
qed

text \<open>A rule on a kind of one or two bit-vectors is sound when its result has the type and, for all
  values of the children, the value of the term.\<close>

lemma binary_rule:
  assumes "binary_kind k" and "\<And>n. applies R n \<Longrightarrow> hasKind k n"
    and "\<And>x y w t. typeOf x = Some (BITVECTOR_TYPE w) \<Longrightarrow> typeOf y = Some (BITVECTOR_TYPE w) \<Longrightarrow> valid_width w \<Longrightarrow>
      typeOf (App k [x, y]) = Some t \<Longrightarrow> applies R (App k [x, y]) \<Longrightarrow>
      \<exists>m. apply_rule R (App k [x, y]) = Inr m \<and> typeOf m = Some t \<and>
        (\<forall>I a b. wf_interp I \<longrightarrow> zero_division opt I \<longrightarrow> eval I x = VBV w a \<longrightarrow> eval I y = VBV w b \<longrightarrow>
          in_width w a \<longrightarrow> in_width w b \<longrightarrow> eval I m = eval I (App k [x, y]))"
  shows "rule_sound opt R"
proof (rule rule_soundI)
  fix n t assume n: "typeOf n = Some t" "applies R n"
  with assms(2) obtain ns where "n = App k ns" by (auto simp: hasKind_iff)
  with n(1) binary_children [of k ns t] assms(1) obtain x y w where xy: "n = App k [x, y]"
    "typeOf x = Some (BITVECTOR_TYPE w)" "typeOf y = Some (BITVECTOR_TYPE w)" "valid_width w" by metis
  from assms(3) [OF xy(2-4) n [unfolded xy(1)]] obtain m where m: "apply_rule R (App k [x, y]) = Inr m" "typeOf m = Some t"
    "\<And>I a b. wf_interp I \<Longrightarrow> zero_division opt I \<Longrightarrow> eval I x = VBV w a \<Longrightarrow> eval I y = VBV w b \<Longrightarrow>
      in_width w a \<Longrightarrow> in_width w b \<Longrightarrow> eval I m = eval I (App k [x, y])" by blast
  have "same_meaning opt m n"
    by (rule same_meaningI [OF n(1) m(2)]) (metis m(3) typed_bv_value xy(1-3))
  with m(1) show "sound_result opt n (apply_rule R n)" by (simp add: xy(1))
qed

lemma unary_rule_at:
  assumes "unary_kind k" and n: "typeOf n = Some t" "hasKind k n"
    and "\<And>x w. n = App k [x] \<Longrightarrow> typeOf x = Some (BITVECTOR_TYPE w) \<Longrightarrow> valid_width w \<Longrightarrow>
      \<exists>m. r = Inr m \<and> typeOf m = Some t \<and>
        (\<forall>I a. wf_interp I \<longrightarrow> zero_division opt I \<longrightarrow> eval I x = VBV w a \<longrightarrow> in_width w a \<longrightarrow> eval I m = eval I n)"
  shows "sound_result opt n r"
proof -
  from n(2) obtain ns where "n = App k ns" by (auto simp: hasKind_iff)
  with n(1) unary_children [of k ns t] assms(1) obtain x w where x: "n = App k [x]"
    "typeOf x = Some (BITVECTOR_TYPE w)" "valid_width w" by metis
  from assms(4) [OF x] obtain m where m: "r = Inr m" "typeOf m = Some t"
    "\<And>I a. wf_interp I \<Longrightarrow> zero_division opt I \<Longrightarrow> eval I x = VBV w a \<Longrightarrow> in_width w a \<Longrightarrow> eval I m = eval I n" by blast
  have "same_meaning opt m n"
    by (rule same_meaningI [OF n(1) m(2)]) (metis m(3) typed_bv_value x(2))
  with m(1) show ?thesis by simp
qed

lemma unary_rule:
  assumes "unary_kind k" and "\<And>n. applies R n \<Longrightarrow> hasKind k n"
    and "\<And>x w t. typeOf x = Some (BITVECTOR_TYPE w) \<Longrightarrow> valid_width w \<Longrightarrow>
      typeOf (App k [x]) = Some t \<Longrightarrow> applies R (App k [x]) \<Longrightarrow>
      \<exists>m. apply_rule R (App k [x]) = Inr m \<and> typeOf m = Some t \<and>
        (\<forall>I a. wf_interp I \<longrightarrow> zero_division opt I \<longrightarrow> eval I x = VBV w a \<longrightarrow> in_width w a \<longrightarrow>
          eval I m = eval I (App k [x]))"
  shows "rule_sound opt R"
  using assms by (intro rule_soundI unary_rule_at [of k]) auto

lemma ground_App: "isBVGroundTerm (App k ns) \<Longrightarrow> list_all isConst ns"
  by (auto simp: isBVGroundTerm_def split: if_splits)

lemma ground_unary:
  assumes "typeOf (App k ns) = Some t" and "isBVGroundTerm (App k ns)"
    and "unary_kind k"
  obtains a where "ns = [CONST_BITVECTOR a]" "bv_wf a" "0 < d_size a" "d_size a < 2 ^ 32"
proof -
  from unary_children [OF assms(1,3)] obtain x w where x: "ns = [x]" "typeOf x = Some (BITVECTOR_TYPE w)" by metis
  with ground_App [OF assms(2)] have "isConst x" by simp
  from const_of_type [OF this x(2)] x(1) that show thesis by metis
qed

lemma ground_binary:
  assumes "typeOf (App k ns) = Some t" and "isBVGroundTerm (App k ns)"
    and "binary_kind k"
  obtains a b where "ns = [CONST_BITVECTOR a, CONST_BITVECTOR b]" "bv_wf a" "bv_wf b" "d_size b = d_size a"
    "0 < d_size a" "d_size a < 2 ^ 32"
proof -
  from binary_children [OF assms(1,3)] obtain x y w
    where xy: "ns = [x, y]" "typeOf x = Some (BITVECTOR_TYPE w)" "typeOf y = Some (BITVECTOR_TYPE w)" by metis
  with ground_App [OF assms(2)] have "isConst x" "isConst y" by simp_all
  from const_of_type [OF this(1) xy(2)] const_of_type [OF this(2) xy(3)] xy(1) that show thesis by metis
qed

lemma ground_nary:
  assumes "typeOf (App k ns) = Some t" and "isBVGroundTerm (App k ns)"
    and "k \<in> {BITVECTOR_AND, BITVECTOR_OR, BITVECTOR_XOR, BITVECTOR_MULT, BITVECTOR_PLUS}"
  obtains c cs w where "ns = map CONST_BITVECTOR (c # cs)" "\<forall>x\<in>set (c # cs). bv_wf x \<and> d_size x = w"
    "t = BITVECTOR_TYPE w" "valid_width w"
proof -
  from typeOf_nary [OF assms(1,3)] obtain w where w: "t = BITVECTOR_TYPE w" "ns \<noteq> []"
    "\<forall>n\<in>set ns. typeOf n = Some (BITVECTOR_TYPE w)" "valid_width w" by metis
  from ground_App [OF assms(2)] have const: "\<forall>n\<in>set ns. isConst n" by (simp add: list_all_iff)
  have "\<forall>n\<in>set ns. \<exists>c. n = CONST_BITVECTOR c \<and> bv_wf c \<and> d_size c = w"
  proof
    fix n assume "n \<in> set ns"
    with const w(3) have "isConst n" "typeOf n = Some (BITVECTOR_TYPE w)" by auto
    from const_of_type [OF this] show "\<exists>c. n = CONST_BITVECTOR c \<and> bv_wf c \<and> d_size c = w" by metis
  qed
  then obtain f where f: "\<forall>n\<in>set ns. n = CONST_BITVECTOR (f n) \<and> bv_wf (f n) \<and> d_size (f n) = w" by metis
  then have "ns = map CONST_BITVECTOR (map f ns)" by (simp add: map_idI)
  moreover obtain c cs where "map f ns = c # cs" using w(2) by (cases ns) auto
  moreover have "\<forall>x\<in>set (map f ns). bv_wf x \<and> d_size x = w" using f by simp
  ultimately show thesis using that w by metis
qed

section \<open>Slices and concatenations\<close>

lemma typeOf_mkExtract:
  assumes "typeOf x = Some (BITVECTOR_TYPE w)" and "lo \<le> hi" and "hi < w"
  shows "typeOf (mkExtract x hi lo) = Some (BITVECTOR_TYPE (hi - lo + 1))"
  using assms typeOf_valid [OF assms(1)] by (simp add: mkExtract_def typeOf_short type_op_iffs valid_width_def)

lemma eval_mkExtract:
  "eval I x = VBV w a \<Longrightarrow> eval I (mkExtract x hi lo) = VBV (hi - lo + 1) (bvextract hi lo a)"
  by (simp add: mkExtract_def)

lemma typeOf_mkConcat2:
  assumes "typeOf x = Some (BITVECTOR_TYPE v)" and "typeOf y = Some (BITVECTOR_TYPE w)" and "v + w < 2 ^ 32"
  shows "typeOf (mkConcat2 x y) = Some (BITVECTOR_TYPE (v + w))"
  using assms typeOf_valid [OF assms(1)] typeOf_valid [OF assms(2)]
  by (simp add: mkConcat2_def typeOf_short type_op_iffs valid_width_def)

lemma eval_mkConcat2:
  "eval I x = VBV v a \<Longrightarrow> eval I y = VBV w b \<Longrightarrow> eval I (mkConcat2 x y) = VBV (v + w) (bvconcat w a b)"
  by (simp add: mkConcat2_def)

lemma sum_widths_replicate: "sum_widths (replicate r (BITVECTOR_TYPE w)) = Some (r * w)"
  by (induction r) auto

lemma typeOf_replicate:
  assumes "typeOf x = Some (BITVECTOR_TYPE w)" and "2 \<le> r" and "r * w < 2 ^ 32"
  shows "typeOf (App BITVECTOR_CONCAT (replicate r x)) = Some (BITVECTOR_TYPE (r * w))"
  unfolding typeOf_App_iff
  using assms typeOf_valid [OF assms(1)]
  by (intro exI [of _ "replicate r (BITVECTOR_TYPE w)"])
    (simp add: type_op_iffs sum_widths_replicate valid_width_def list_all2_conv_all_nth list_all_iff)

lemma v_concat_replicate:
  "v_concat (VBV (s * w) (bvrepeat s w a)) (replicate r (VBV w a)) = VBV ((s + r) * w) (bvrepeat (s + r) w a)"
proof (induction r arbitrary: s)
  case (Suc r)
  have "v_concat (VBV (s * w) (bvrepeat s w a)) (replicate (Suc r) (VBV w a)) =
      v_concat (VBV (Suc s * w) (bvrepeat (Suc s) w a)) (replicate r (VBV w a))"
    by (simp add: add.commute)
  also have "\<dots> = VBV ((s + Suc r) * w) (bvrepeat (s + Suc r) w a)" using Suc [of "Suc s"] by simp
  finally show ?case .
qed simp

lemma eval_replicate:
  assumes "eval I x = VBV w a" and "0 < r"
  shows "eval I (App BITVECTOR_CONCAT (replicate r x)) = VBV (r * w) (bvrepeat r w a)"
proof (cases r)
  case (Suc s)
  then show ?thesis
    using assms v_concat_replicate [of 1 w a s] by (simp add: bvconcat_def map_replicate_const)
qed (use assms in simp)

lemma mkConcat_repeat:
  assumes "0 < r"
  shows "typeOf x = Some (BITVECTOR_TYPE w) \<Longrightarrow> r * w < 2 ^ 32 \<Longrightarrow> typeOf (mkConcat_repeat x r) = Some (BITVECTOR_TYPE (r * w))"
    and "eval I x = VBV w a \<Longrightarrow> eval I (mkConcat_repeat x r) = VBV (r * w) (bvrepeat r w a)"
  using assms typeOf_replicate [of x w r] eval_replicate [of I x w a r]
  by (auto simp: mkConcat_repeat_def bvconcat_def)

lemma bvrepeat_bit: "bvrepeat r (Suc 0) (of_bool s) = of_bool s * (2 ^ r - 1)"
  by (induction r) (auto simp: bvconcat_def)

context gmp_documented
begin

lemma mkOnes_BitVector:
  assumes "valid_width n"
  shows "mkOnes G n = CONST_BITVECTOR (BitVector G n (2 ^ n - 1))"
proof -
  have one: "bv_wf (BitVector G 1 1)" by simp
  have v: "bvsign_extend (n - 1) (Suc 0) 1 = 2 ^ n - 1"
    using assms by (simp add: bvsign_extend_def sval_def valid_width_def zmod_minus1)
  show ?thesis
    using signExtend_refines [OF one, of "n - 1"] assms v less_diff_conv [of "n - 1" "2 ^ 32" 1]
    by (auto simp: mkOnes_def mkBitVectorOnes_def valid_width_def)
qed

lemma typeOf_mkOnes [simp]: "valid_width n \<Longrightarrow> typeOf (mkOnes G n) = Some (BITVECTOR_TYPE n)"
  by (simp add: mkOnes_BitVector valid_width_def)

lemma eval_mkOnes [simp]: "valid_width n \<Longrightarrow> eval I (mkOnes G n) = VBV n (2 ^ n - 1)"
  using in_width_mod_id [OF in_width_ones, of n] by (simp add: mkOnes_BitVector del: in_width_mod_id)

lemma typeOf_BitVector: "valid_width n \<Longrightarrow> typeOf (CONST_BITVECTOR (BitVector G n a)) = Some (BITVECTOR_TYPE n)"
  by (simp add: valid_width_def)

lemma same_meaning_const:
  assumes "typeOf n = Some (BITVECTOR_TYPE w)" and "in_width w v"
    and "\<And>I. wf_interp I \<Longrightarrow> zero_division opt I \<Longrightarrow> eval I n = VBV w v"
  shows "same_meaning opt (CONST_BITVECTOR (BitVector G w v)) n"
proof (rule same_meaningI [OF assms(1)])
  show "typeOf (CONST_BITVECTOR (BitVector G w v)) = Some (BITVECTOR_TYPE w)"
    using typeOf_BitVector typeOf_valid [OF assms(1)] by simp
  show "eval I (CONST_BITVECTOR (BitVector G w v)) = eval I n" if "wf_interp I" "zero_division opt I" for I
    using assms that by (simp add: in_width_def)
qed

lemma mkConst_BitVector: "mkConst G n v = CONST_BITVECTOR (BitVector G n (int v))"
  by (simp add: mkConst_def BitVector_unsigned_def BitVector_def)

lemma typeOf_mkConst [simp]: "valid_width n \<Longrightarrow> typeOf (mkConst G n v) = Some (BITVECTOR_TYPE n)"
  by (simp add: mkConst_BitVector typeOf_BitVector del: typed_const)

lemma eval_mkConst [simp]: "eval I (mkConst G n v) = VBV n (int v mod 2 ^ n)"
  by (simp add: mkConst_BitVector)

lemma same_meaning_mkConst:
  assumes "typeOf n = Some (BITVECTOR_TYPE w)"
    and "\<And>I. wf_interp I \<Longrightarrow> zero_division opt I \<Longrightarrow> eval I n = VBV w (int v mod 2 ^ w)"
  shows "same_meaning opt (mkConst G w v) n"
  using assms typeOf_valid [OF assms(1)] by (intro same_meaningI) simp_all

end

end
