(* ===== verification/Nary_Terms.thy ===== *)
theory Nary_Terms
  imports BV_Rewrite_Rules
begin

text \<open>
  The associative and commutative kinds \<open>BITVECTOR_AND\<close>, \<open>OR\<close>, \<open>XOR\<close>, \<open>PLUS\<close> and \<open>MULT\<close>. On values of a
  width each is a commutative monoid: the locale \<open>width_monoid\<close> states its laws, derives what
  flattening, sorting and regrouping of children rely on, and is interpreted for the five
  operations. \<open>nary_value\<close> is the value of an application as a fold in that monoid.
\<close>

section \<open>Commutative monoids of a width\<close>

locale width_monoid =
  fixes w :: nat and f :: "int \<Rightarrow> int \<Rightarrow> int" and u :: int
  assumes closed: "in_width w a \<Longrightarrow> in_width w b \<Longrightarrow> in_width w (f a b)"
    and unit_closed: "in_width w u"
    and assoc: "in_width w a \<Longrightarrow> in_width w b \<Longrightarrow> in_width w c \<Longrightarrow> f (f a b) c = f a (f b c)"
    and commute: "in_width w a \<Longrightarrow> in_width w b \<Longrightarrow> f a b = f b a"
    and unit_left: "in_width w a \<Longrightarrow> f u a = a"
begin

lemma unit_right: "in_width w a \<Longrightarrow> f a u = a"
  using commute unit_left unit_closed by simp

lemma foldr_closed: "list_all (in_width w) as \<Longrightarrow> in_width w (foldr f as u)"
  by (induction as) (auto simp: closed unit_closed)

lemma foldr_append:
  "list_all (in_width w) as \<Longrightarrow> list_all (in_width w) bs \<Longrightarrow> foldr f (as @ bs) u = f (foldr f as u) (foldr f bs u)"
  by (induction as) (auto simp: unit_left foldr_closed assoc)

lemma foldl_foldr:
  "in_width w a \<Longrightarrow> list_all (in_width w) as \<Longrightarrow> foldl f a as = f a (foldr f as u)"
  by (induction as arbitrary: a) (auto simp: unit_right closed assoc foldr_closed)

lemma foldr_remove:
  "list_all (in_width w) as \<Longrightarrow> in_width w a \<Longrightarrow> a \<in># mset as \<Longrightarrow> foldr f as u = f a (foldr f (remove1 a as) u)"
proof (induction as)
  case (Cons b as)
  show ?case
  proof (cases "a = b")
    case False
    have r: "list_all (in_width w) (remove1 a as)"
      using Cons.prems(1) notin_set_remove1 by (fastforce simp: list_all_iff)
    have "f b (f a (foldr f (remove1 a as) u)) = f a (f b (foldr f (remove1 a as) u))"
      using Cons.prems r by (metis (no_types, lifting) assoc commute foldr_closed list.pred_inject(2))
    with False Cons show ?thesis by simp
  qed simp
qed simp

lemma foldr_perm:
  "mset as = mset bs \<Longrightarrow> list_all (in_width w) as \<Longrightarrow> foldr f as u = foldr f bs u"
proof (induction as arbitrary: bs)
  case (Cons a as)
  have bs: "list_all (in_width w) bs" using Cons.prems by (metis list_all_iff set_mset_mset)
  have a: "a \<in># mset bs" "in_width w a" using Cons.prems by (metis list.set_intros(1) set_mset_mset, simp)
  have "mset as = mset (remove1 a bs)" using Cons.prems(1) by (metis add_mset_remove_trivial mset.simps(2) mset_remove1)
  with Cons.IH [of "remove1 a bs"] Cons.prems foldr_remove [OF bs a(2,1)] show ?case by simp
qed simp

end

section \<open>The five operations\<close>

definition nary_op :: "kind \<Rightarrow> nat \<Rightarrow> int \<Rightarrow> int \<Rightarrow> int" where
  "nary_op k w =
     (case k of BITVECTOR_AND \<Rightarrow> and | BITVECTOR_OR \<Rightarrow> or | BITVECTOR_XOR \<Rightarrow> xor | BITVECTOR_MULT \<Rightarrow> bvmul w | _ \<Rightarrow> bvadd w)"

definition nary_unit :: "kind \<Rightarrow> nat \<Rightarrow> int" where
  "nary_unit k w = (case k of BITVECTOR_AND \<Rightarrow> 2 ^ w - 1 | BITVECTOR_MULT \<Rightarrow> 1 mod 2 ^ w | _ \<Rightarrow> 0)"

abbreviation "nary_kinds \<equiv> {BITVECTOR_AND, BITVECTOR_OR, BITVECTOR_XOR, BITVECTOR_MULT, BITVECTOR_PLUS}"

definition nary_value :: "kind \<Rightarrow> nat \<Rightarrow> int list \<Rightarrow> int" where
  "nary_value k w as = foldr (nary_op k w) as (nary_unit k w)"

lemma nary_op_simps [simp]:
  "nary_op BITVECTOR_AND w = and" "nary_op BITVECTOR_OR w = or" "nary_op BITVECTOR_XOR w = xor"
  "nary_op BITVECTOR_MULT w = bvmul w" "nary_op BITVECTOR_PLUS w = bvadd w"
  "nary_unit BITVECTOR_AND w = 2 ^ w - 1" "nary_unit BITVECTOR_OR w = 0" "nary_unit BITVECTOR_XOR w = 0"
  "nary_unit BITVECTOR_MULT w = 1 mod 2 ^ w" "nary_unit BITVECTOR_PLUS w = 0"
  by (simp_all add: nary_op_def nary_unit_def)

lemma and_ones:
  assumes "in_width w a"
  shows "and (2 ^ w - 1) a = a" and "and a (2 ^ w - 1) = a"
proof -
  show "and a (2 ^ w - 1) = a" using assms by (simp add: in_width_take_bit flip: mask_eq_exp_minus_1 take_bit_eq_mask)
  then show "and (2 ^ w - 1) a = a" by (simp add: and.commute)
qed

interpretation bv_and: width_monoid w "and" "2 ^ w - 1" for w
  by unfold_locales (auto simp: ac_simps and_ones)

interpretation bv_or: width_monoid w "or" 0 for w
  by unfold_locales (auto simp: ac_simps)

interpretation bv_xor: width_monoid w "xor" 0 for w
  by unfold_locales (auto simp: ac_simps)

interpretation bv_mult: width_monoid w "bvmul w" "1 mod 2 ^ w" for w
  by unfold_locales (auto simp: bvmul_def ac_simps mod_simps in_width_def)

interpretation bv_plus: width_monoid w "bvadd w" 0 for w
  by unfold_locales (auto simp: bvadd_def ac_simps mod_simps)

lemma nary_monoid: "k \<in> nary_kinds \<Longrightarrow> width_monoid w (nary_op k w) (nary_unit k w)"
  using bv_and.width_monoid_axioms bv_or.width_monoid_axioms bv_xor.width_monoid_axioms
    bv_mult.width_monoid_axioms bv_plus.width_monoid_axioms by auto

lemma nary_value_simps:
  "nary_value k w [] = nary_unit k w"
  "nary_value k w (a # as) = nary_op k w a (nary_value k w as)"
  by (simp_all add: nary_value_def)

lemma nary_value_append:
  "k \<in> nary_kinds \<Longrightarrow> list_all (in_width w) as \<Longrightarrow> list_all (in_width w) bs \<Longrightarrow>
    nary_value k w (as @ bs) = nary_op k w (nary_value k w as) (nary_value k w bs)"
  unfolding nary_value_def by (rule width_monoid.foldr_append [OF nary_monoid])

lemma nary_value_perm:
  "k \<in> nary_kinds \<Longrightarrow> mset as = mset bs \<Longrightarrow> list_all (in_width w) as \<Longrightarrow> nary_value k w as = nary_value k w bs"
  unfolding nary_value_def by (rule width_monoid.foldr_perm [OF nary_monoid])

lemma nary_value_closed: "k \<in> nary_kinds \<Longrightarrow> list_all (in_width w) as \<Longrightarrow> in_width w (nary_value k w as)"
  unfolding nary_value_def by (rule width_monoid.foldr_closed [OF nary_monoid])

lemma nary_value_single: "k \<in> nary_kinds \<Longrightarrow> in_width w a \<Longrightarrow> nary_value k w [a] = a"
  using width_monoid.unit_right [OF nary_monoid, of k w a] by (simp add: nary_value_def)

text \<open>Sums and products as such.\<close>

lemma nary_value_sum: "nary_value BITVECTOR_PLUS w as = sum_list as mod 2 ^ w"
  by (induction as) (simp_all add: nary_value_simps bvadd_def mod_simps)

lemma nary_value_prod: "nary_value BITVECTOR_MULT w as = prod_list as mod 2 ^ w"
  by (induction as) (simp_all add: nary_value_simps bvmul_def mod_simps)

section \<open>Applications\<close>

definition all_of_width :: "nat \<Rightarrow> node list \<Rightarrow> bool" where
  "all_of_width w ns \<longleftrightarrow> list_all (\<lambda>n. typeOf n = Some (BITVECTOR_TYPE w)) ns"

lemma all_of_width_simps [simp]:
  "all_of_width w []"
  "all_of_width w (n # ns) \<longleftrightarrow> typeOf n = Some (BITVECTOR_TYPE w) \<and> all_of_width w ns"
  "all_of_width w (ns @ ms) \<longleftrightarrow> all_of_width w ns \<and> all_of_width w ms"
  "all_of_width w (rev ns) \<longleftrightarrow> all_of_width w ns"
  by (auto simp: all_of_width_def)

lemma all_of_width_mset: "mset ms = mset ns \<Longrightarrow> all_of_width w ms \<longleftrightarrow> all_of_width w ns"
  by (metis all_of_width_def list_all_iff set_mset_mset)

lemma typeOf_nary_iff:
  assumes "k \<in> nary_kinds"
  shows "typeOf (App k ns) = Some t \<longleftrightarrow> (\<exists>w. 2 \<le> length ns \<and> all_of_width w ns \<and> t = BITVECTOR_TYPE w)"
proof
  assume "typeOf (App k ns) = Some t"
  from typeOf_nary [OF this assms] show "\<exists>w. 2 \<le> length ns \<and> all_of_width w ns \<and> t = BITVECTOR_TYPE w"
    by (auto simp: all_of_width_def list_all_iff)
next
  assume "\<exists>w. 2 \<le> length ns \<and> all_of_width w ns \<and> t = BITVECTOR_TYPE w"
  then obtain w where w: "2 \<le> length ns" "all_of_width w ns" "t = BITVECTOR_TYPE w" by blast
  then obtain n ms where ns: "ns = n # ms" by (cases ns) auto
  have "valid_width w" using typeOf_valid [of n "BITVECTOR_TYPE w"] w(2) by (simp add: ns)
  moreover have "list_all2 (\<lambda>n u. typeOf n = Some u) ns (replicate (length ns) (BITVECTOR_TYPE w))"
    using w(2) by (auto simp: all_of_width_def list_all2_conv_all_nth list_all_length)
  moreover have "list_all ((=) (BITVECTOR_TYPE w)) (replicate (length ms) (BITVECTOR_TYPE w))"
    by (simp add: list_all_iff)
  ultimately show "typeOf (App k ns) = Some t"
    unfolding typeOf_App_iff using assms w(1,3)
    by (intro exI [of _ "replicate (length ns) (BITVECTOR_TYPE w)"]) (auto simp: ns type_op_iffs)
qed

lemma typeOf_nary_nonempty:
  "typeOf (App k ns) = Some t \<Longrightarrow> k \<in> nary_kinds \<Longrightarrow> \<exists>w. ns \<noteq> [] \<and> all_of_width w ns \<and> t = BITVECTOR_TYPE w"
  using typeOf_nary_iff [of k ns t] by auto

abbreviation "values I ns \<equiv> map (\<lambda>n. v_int (eval I n)) ns"

lemma values_in_width:
  assumes "all_of_width w ns" and "wf_interp I"
  shows "list_all (in_width w) (values I ns)"
  using assms(1)
proof (induction ns)
  case (Cons n ns)
  then obtain a where "eval I n = VBV w a" "in_width w a" using typed_bv_value [OF _ assms(2)] by (metis all_of_width_simps(2))
  with Cons show ?case by simp
qed simp

lemma eval_nary:
  assumes k: "k \<in> nary_kinds" and ns: "ns \<noteq> []" "all_of_width w ns" and I: "wf_interp I"
  shows "eval I (App k ns) = VBV w (nary_value k w (values I ns))"
proof -
  obtain n ms where n: "ns = n # ms" using ns by (cases ns) auto
  then obtain a where a: "eval I n = VBV w a" "in_width w a" using typed_bv_value [OF _ I] ns(2) by (metis all_of_width_simps(2))
  have vs: "list_all (in_width w) (values I ms)" using values_in_width [OF _ I] ns(2) n by simp
  have "foldl (nary_op k w) a (values I ms) = nary_op k w a (nary_value k w (values I ms))"
    using width_monoid.foldl_foldr [OF nary_monoid [OF k] a(2) vs] by (simp add: nary_value_def)
  with k a(1) show ?thesis by (auto simp: n nary_value_simps comp_def)
qed

text \<open>\<open>mkNode\<close> and \<open>mkSortedNode\<close>, which return an only child itself, have the type and the value of the
  application.\<close>

lemma mkNode_nary:
  assumes k: "k \<in> nary_kinds" and ns: "ns \<noteq> []" "all_of_width w ns"
  shows "typeOf (mkNode k ns) = Some (BITVECTOR_TYPE w)"
    and "wf_interp I \<Longrightarrow> eval I (mkNode k ns) = VBV w (nary_value k w (values I ns))"
proof -
  show "typeOf (mkNode k ns) = Some (BITVECTOR_TYPE w)"
    using ns typeOf_nary_iff [OF k, of ns] by (cases ns) (auto simp: mkNode_def Suc_le_eq)
  assume I: "wf_interp I"
  show "eval I (mkNode k ns) = VBV w (nary_value k w (values I ns))"
  proof (cases "length ns = 1")
    case True
    then obtain n where n: "ns = [n]" by (auto simp: length_Suc_conv)
    then obtain a where "eval I n = VBV w a" "in_width w a" using typed_bv_value [OF _ I] ns(2) by (metis all_of_width_simps(2))
    then show ?thesis using nary_value_single [OF k, of w a] by (simp add: n mkNode_def)
  next
    case False
    then show ?thesis using eval_nary [OF k ns I] by (simp add: mkNode_def del: eval.simps)
  qed
qed

lemma sorted_values_perm:
  assumes "mset ms = mset ns" and "k \<in> nary_kinds" and "all_of_width w ns" and "wf_interp I"
  shows "nary_value k w (values I ms) = nary_value k w (values I ns)"
proof (rule nary_value_perm [OF assms(2)])
  show "mset (values I ms) = mset (values I ns)" using assms(1) by (simp only: mset_map)
  show "list_all (in_width w) (values I ms)"
    using assms all_of_width_mset by (blast intro: values_in_width)
qed

lemma mkSortedNode_nary:
  assumes k: "k \<in> nary_kinds" and ns: "ns \<noteq> []" "all_of_width w ns"
  shows "typeOf (mkSortedNode lt k ns) = Some (BITVECTOR_TYPE w)"
    and "wf_interp I \<Longrightarrow> eval I (mkSortedNode lt k ns) = VBV w (nary_value k w (values I ns))"
proof -
  let ?ms = "sort_nodes lt ns"
  have ms: "?ms \<noteq> []" "all_of_width w ?ms" using ns all_of_width_mset [OF mset_sort_nodes]
    by (metis length_0_conv length_sort_nodes, blast)
  have eq: "mkSortedNode lt k ns = (if length ns = 1 then mkNode k ns else mkNode k ?ms)"
    by (simp add: mkSortedNode_def mkNode_def)
  show "typeOf (mkSortedNode lt k ns) = Some (BITVECTOR_TYPE w)"
    using mkNode_nary(1) [OF k ns] mkNode_nary(1) [OF k ms] by (simp add: eq)
  show "eval I (mkSortedNode lt k ns) = VBV w (nary_value k w (values I ns))" if "wf_interp I"
    using mkNode_nary(2) [OF k ns that] mkNode_nary(2) [OF k ms that]
      sorted_values_perm [OF mset_sort_nodes k ns(2) that] by (simp add: eq)
qed

end
