(* ===== verification/Concatenations.thy ===== *)
theory Concatenations
  imports BV_Rewrite_Rules
begin

text \<open>
  Lists of terms read as one concatenation. \<open>same_cat\<close> relates two lists whose concatenations have
  the same width and value; it is a congruence for append, so that a rule which replaces a few
  neighbours is proved on those alone. Slices and concatenations are compared bit by bit.
\<close>

section \<open>Bits of slices and concatenations\<close>

lemma bit_bvextract: "bit (bvextract hi lo a) i \<longleftrightarrow> i \<le> hi - lo \<and> bit a (lo + i)"
proof -
  have "bvextract hi lo a = take_bit (hi - lo + 1) (drop_bit lo a)"
    by (simp only: bvextract_def take_bit_eq_mod drop_bit_eq_div)
  then show ?thesis by (auto simp: bit_take_bit_iff bit_drop_bit_eq)
qed

lemma bit_bvconcat:
  assumes "in_width m b"
  shows "bit (bvconcat m a b) i \<longleftrightarrow> (if i < m then bit b i else bit a (i - m))"
proof -
  have b: "take_bit m b = b" using assms by (simp add: in_width_take_bit)
  have "and (push_bit m a) b = 0"
    by (rule bit_eqI) (metis assms bit_0_eq bit_and_iff bit_push_bit_iff bot_apply bot_bool_def in_width_not_bit)
  then have "push_bit m a + b = or (push_bit m a) b" by (rule disjunctive_add_eq_or)
  then have "bit (bvconcat m a b) i \<longleftrightarrow> bit (or (push_bit m a) b) i"
    by (simp add: bvconcat_def push_bit_eq_mult)
  then show ?thesis
    using in_width_not_bit [OF assms, of i] by (auto simp: bit_or_iff bit_push_bit_iff)
qed

lemma bvextract_merge:
  assumes "l \<le> h" and "h + 1 \<le> hi"
  shows "bvconcat (h - l + 1) (bvextract hi (h + 1) a) (bvextract h l a) = bvextract hi l a"
proof (rule bit_eqI)
  fix i
  show "bit (bvconcat (h - l + 1) (bvextract hi (h + 1) a) (bvextract h l a)) i = bit (bvextract hi l a) i"
    using assms by (auto simp: bit_bvconcat bit_bvextract add.commute [of i l])
qed

section \<open>Typed lists\<close>

definition bv_typed :: "node \<Rightarrow> bool" where
  "bv_typed n \<longleftrightarrow> (\<exists>w. typeOf n = Some (BITVECTOR_TYPE w))"

lemma bv_typed_getSize: "bv_typed n \<Longrightarrow> typeOf n = Some (BITVECTOR_TYPE (getSize n))"
  by (auto simp: bv_typed_def)

lemma bv_typed_valid: "bv_typed n \<Longrightarrow> valid_width (getSize n)"
  using typeOf_valid [of n] by (fastforce simp: bv_typed_def)

lemma bv_typed_value:
  assumes "bv_typed n" and "wf_interp I"
  obtains a where "eval I n = VBV (getSize n) a" "in_width (getSize n) a"
  using typed_bv_value [OF bv_typed_getSize [OF assms(1)] assms(2)] by metis

lemma sum_widths_getSize:
  "list_all bv_typed ns \<Longrightarrow> sum_widths (map (\<lambda>n. BITVECTOR_TYPE (getSize n)) ns) = Some (sum_list (map getSize ns))"
  by (induction ns) auto

lemma typeOf_CONCAT_iff:
  "typeOf (App BITVECTOR_CONCAT ns) = Some t \<longleftrightarrow>
    2 \<le> length ns \<and> list_all bv_typed ns \<and> valid_width (sum_list (map getSize ns)) \<and> t = BITVECTOR_TYPE (sum_list (map getSize ns))"
  (is "?l \<longleftrightarrow> ?r")
proof
  assume ?l
  from typeOf_concat [OF this] have ns: "2 \<le> length ns" "list_all bv_typed ns"
    by (metis, metis (no_types, lifting) bv_typed_def list_all_iff)
  from \<open>?l\<close> obtain ts where ts: "list_all2 (\<lambda>n u. typeOf n = Some u) ns ts" "type_op BITVECTOR_CONCAT ts = Some t"
    by (auto simp: typeOf_App_iff)
  have "ts = map (\<lambda>n. BITVECTOR_TYPE (getSize n)) ns"
  proof (rule nth_equalityI)
    fix i assume i: "i < length ts"
    then have "typeOf (ns ! i) = Some (ts ! i)" "bv_typed (ns ! i)" "i < length ns"
      using ts(1) ns(2) by (simp_all add: list_all2_conv_all_nth list_all_length)
    then show "ts ! i = map (\<lambda>n. BITVECTOR_TYPE (getSize n)) ns ! i"
      by (metis (no_types, lifting) bv_typed_getSize nth_map option.inject)
  qed (use ts(1) in \<open>simp add: list_all2_lengthD\<close>)
  with ts(2) have "type_op BITVECTOR_CONCAT (map (\<lambda>n. BITVECTOR_TYPE (getSize n)) ns) = Some t" by simp
  then show ?r using ns sum_widths_getSize [OF ns(2)] unfolding type_op_indexed(6) by auto
next
  assume r: ?r
  then have "list_all2 (\<lambda>n u. typeOf n = Some u) ns (map (\<lambda>n. BITVECTOR_TYPE (getSize n)) ns)"
    unfolding list_all2_map2 using bv_typed_getSize by (auto simp: list_all_iff intro!: list.rel_refl_strong)
  moreover have "type_op BITVECTOR_CONCAT (map (\<lambda>n. BITVECTOR_TYPE (getSize n)) ns) = Some t"
    using r bv_typed_valid by (auto simp: type_op_iffs sum_widths_getSize list_all_iff)
  ultimately show ?l by (auto simp: typeOf_App_iff)
qed

lemma cat_width_getSize:
  assumes "list_all bv_typed ns" and "wf_interp I"
  shows "cat_width (map (eval I) ns) = sum_list (map getSize ns)"
  using assms(1)
proof (induction ns)
  case (Cons n ns)
  then obtain a where "eval I n = VBV (getSize n) a" using bv_typed_value [OF _ assms(2)] by (metis list.pred_inject(2))
  with Cons show ?case by simp
qed simp

lemma cat_val_in_width:
  assumes "list_all bv_typed ns" and "wf_interp I"
  shows "in_width (sum_list (map getSize ns)) (cat_val (map (eval I) ns))"
  using assms(1)
proof (induction ns)
  case (Cons n ns)
  then obtain a where "eval I n = VBV (getSize n) a" "in_width (getSize n) a"
    using bv_typed_value [OF _ assms(2)] by (metis list.pred_inject(2))
  with Cons cat_width_getSize [OF _ assms(2), of ns] show ?case
    using in_width_bvconcat [of "getSize n" a "sum_list (map getSize ns)" "cat_val (map (eval I) ns)"]
    by (simp add: bvconcat_def)
qed (simp add: in_width_def)

lemma eval_CONCAT:
  assumes "list_all bv_typed ns" and "ns \<noteq> []" and "wf_interp I"
  shows "eval I (App BITVECTOR_CONCAT ns) = VBV (sum_list (map getSize ns)) (cat_val (map (eval I) ns))"
proof -
  obtain n ms where ns: "ns = n # ms" using assms(2) by (cases ns) auto
  then obtain a where "eval I n = VBV (getSize n) a" using bv_typed_value [OF _ assms(3)] assms(1) by (metis list.pred_inject(2))
  with ns cat_width_getSize [OF _ assms(3), of ms] assms(1) show ?thesis by (simp add: v_concat_cat)
qed

text \<open>\<open>mkConcat\<close> and \<open>mkNode\<close>, which return an only term itself.\<close>

lemma mkConcat_nodes:
  assumes ns: "list_all bv_typed ns" "ns \<noteq> []" and w: "valid_width (sum_list (map getSize ns))"
  shows "typeOf (mkConcat ns) = Some (BITVECTOR_TYPE (sum_list (map getSize ns)))"
    and "wf_interp I \<Longrightarrow> eval I (mkConcat ns) = VBV (sum_list (map getSize ns)) (cat_val (map (eval I) ns))"
    and "mkNode BITVECTOR_CONCAT ns = mkConcat ns"
proof -
  show "mkNode BITVECTOR_CONCAT ns = mkConcat ns" using ns(2) by (cases ns) (auto simp: mkConcat_def mkNode_def)
  have one: "mkConcat [n] = n" for n by (simp add: mkConcat_def)
  show "typeOf (mkConcat ns) = Some (BITVECTOR_TYPE (sum_list (map getSize ns)))"
  proof (cases "length ns = 1")
    case True
    then obtain n where n: "ns = [n]" by (auto simp: length_Suc_conv)
    then show ?thesis using ns(1) bv_typed_getSize [of n] by (simp only: one list.map sum_list.Cons sum_list.Nil add_0_right list.pred_inject(2))
  next
    case False
    with ns(2) have "2 \<le> length ns" by (cases ns) (auto simp: Suc_le_eq)
    then show ?thesis using ns w typeOf_CONCAT_iff by (simp add: mkConcat_def)
  qed
  assume I: "wf_interp I"
  show "eval I (mkConcat ns) = VBV (sum_list (map getSize ns)) (cat_val (map (eval I) ns))"
    using eval_CONCAT [OF ns I] ns(2) by (cases ns; cases "tl ns") (auto simp: mkConcat_def)
qed

section \<open>Lists with the same concatenation\<close>

definition same_cat :: "bool \<Rightarrow> node list \<Rightarrow> node list \<Rightarrow> bool" where
  "same_cat opt ms ns \<longleftrightarrow>
     list_all bv_typed ms \<and> list_all bv_typed ns \<and> sum_list (map getSize ms) = sum_list (map getSize ns) \<and>
     (\<forall>I. wf_interp I \<longrightarrow> zero_division opt I \<longrightarrow> cat_val (map (eval I) ms) = cat_val (map (eval I) ns))"

lemma same_cat_refl: "list_all bv_typed ns \<Longrightarrow> same_cat opt ns ns"
  by (simp add: same_cat_def)

lemma same_cat_trans: "same_cat opt ls ms \<Longrightarrow> same_cat opt ms ns \<Longrightarrow> same_cat opt ls ns"
  by (simp add: same_cat_def)

lemma same_cat_append:
  assumes "same_cat opt ms ns" and "same_cat opt ms' ns'"
  shows "same_cat opt (ms @ ms') (ns @ ns')"
  using assms by (auto simp: same_cat_def cat_val_append cat_width_getSize)

lemma same_cat_Cons:
  "bv_typed n \<Longrightarrow> same_cat opt ms ns \<Longrightarrow> same_cat opt (n # ms) (n # ns)"
  using same_cat_append [of opt "[n]" "[n]" ms ns] by (simp add: same_cat_refl)

lemma same_cat_nonempty:
  assumes "same_cat opt ms ns" and "ns \<noteq> []"
  shows "ms \<noteq> []"
proof -
  have "0 < sum_list (map getSize ns)"
    using assms bv_typed_valid by (cases ns) (auto simp: same_cat_def valid_width_def)
  moreover have "sum_list (map getSize ms) = sum_list (map getSize ns)" using assms(1) by (simp add: same_cat_def)
  ultimately show ?thesis by (metis list.simps(8) not_less_iff_gr_or_eq sum_list.Nil)
qed

lemma same_cat_meaning:
  assumes "same_cat opt ms ns" and "typeOf (App BITVECTOR_CONCAT ns) = Some t"
  shows "2 \<le> length ms \<Longrightarrow> same_meaning opt (App BITVECTOR_CONCAT ms) (App BITVECTOR_CONCAT ns)"
    and "same_meaning opt (mkConcat ms) (App BITVECTOR_CONCAT ns)"
proof -
  have "ns \<noteq> []" using typeOf_concat [OF assms(2)] by metis
  then have ne: "ns \<noteq> []" "ms \<noteq> []" using assms(1) same_cat_nonempty by blast+
  have ev: "eval I (App BITVECTOR_CONCAT ms) = eval I (App BITVECTOR_CONCAT ns)" if "wf_interp I" "zero_division opt I" for I
    using assms(1) that ne eval_CONCAT [OF _ _ that(1)] unfolding same_cat_def by metis
  show eq: "same_meaning opt (App BITVECTOR_CONCAT ms) (App BITVECTOR_CONCAT ns)" if l: "2 \<le> length ms"
  proof -
    have "typeOf (App BITVECTOR_CONCAT ms) = Some t" using assms l unfolding typeOf_CONCAT_iff same_cat_def by auto
    then show ?thesis using ev assms(2) unfolding same_meaning_def by metis
  qed
  show "same_meaning opt (mkConcat ms) (App BITVECTOR_CONCAT ns)"
  proof (cases "length ms > 1")
    case True
    then show ?thesis using eq by (simp add: mkConcat_def)
  next
    case False
    with ne(2) obtain m where m: "ms = [m]" by (cases ms) auto
    have "bv_typed m" using assms(1) by (simp add: same_cat_def m)
    moreover have "t = BITVECTOR_TYPE (getSize m)" using assms unfolding typeOf_CONCAT_iff same_cat_def by (simp add: m)
    ultimately have "typeOf m = Some t" by (metis bv_typed_getSize)
    moreover have "eval I (App BITVECTOR_CONCAT ms) = eval I m" for I by (simp add: m)
    moreover have "mkConcat ms = m" by (simp add: mkConcat_def m)
    ultimately show ?thesis using ev assms(2) unfolding same_meaning_def by metis
  qed
qed

end
