(* ===== verification/Rules_Operator_Elimination.thy ===== *)
theory Rules_Operator_Elimination
  imports BV_Rewrite_Rules
begin

text \<open>
  The rules that eliminate derived operators
  (\<open>src/src/theory/bv/theory_bv_rewrite_rules_operator_elimination.h\<close>). Each expands an operator into
  more basic ones; soundness says that the expansion is the SMT-LIB definition of the operator.
  The rules for \<open>BITVECTOR_TO_NAT\<close> and \<open>INT_TO_BITVECTOR\<close>, which build terms of integer
  arithmetic, are left out.
\<close>

section \<open>Rules\<close>

definition swap_rule :: "kind \<Rightarrow> kind \<Rightarrow> rule" where
  "swap_rule k k' =
     \<lparr>applies = hasKind k,
      apply_rule = (\<lambda>node. let a = children node ! 0; b = children node ! 1 in Inr (App k' [b, a]))\<rparr>"

definition UgtEliminate :: rule where
  "UgtEliminate = swap_rule BITVECTOR_UGT BITVECTOR_ULT"

definition UgeEliminate :: rule where
  "UgeEliminate = swap_rule BITVECTOR_UGE BITVECTOR_ULE"

definition SgtEliminate :: rule where
  "SgtEliminate = swap_rule BITVECTOR_SGT BITVECTOR_SLT"

definition SgeEliminate :: rule where
  "SgeEliminate = swap_rule BITVECTOR_SGE BITVECTOR_SLE"

definition SltEliminate :: "gmp \<Rightarrow> rule" where
  "SltEliminate G =
     \<lparr>applies = hasKind BITVECTOR_SLT,
      apply_rule = (\<lambda>node.
        let sz = getSize (children node ! 0);
            pow_two = CONST_BITVECTOR (BitVector G sz (Integer_multiplyByPow2 G 1 (u32_sub sz 1)));
            a = App BITVECTOR_PLUS [children node ! 0, pow_two];
            b = App BITVECTOR_PLUS [children node ! 1, pow_two]
        in Inr (App BITVECTOR_ULT [a, b]))\<rparr>"

definition SleEliminate :: rule where
  "SleEliminate =
     \<lparr>applies = hasKind BITVECTOR_SLE,
      apply_rule = (\<lambda>node.
        let a = children node ! 0;
            b = children node ! 1;
            b_slt_a = App BITVECTOR_SLT [b, a]
        in Inr (App NOT [b_slt_a]))\<rparr>"

definition UleEliminate :: rule where
  "UleEliminate =
     \<lparr>applies = hasKind BITVECTOR_ULE,
      apply_rule = (\<lambda>node.
        let a = children node ! 0;
            b = children node ! 1;
            b_ult_a = App BITVECTOR_ULT [b, a]
        in Inr (App NOT [b_ult_a]))\<rparr>"

definition CompEliminate :: "gmp \<Rightarrow> rule" where
  "CompEliminate G =
     \<lparr>applies = hasKind BITVECTOR_COMP,
      apply_rule = (\<lambda>node.
        let comp = App EQUAL [children node ! 0, children node ! 1];
            one = mkConst G 1 1;
            zero = mkConst G 1 0
        in Inr (App ITE [comp, one, zero]))\<rparr>"

definition SubEliminate :: rule where
  "SubEliminate =
     \<lparr>applies = hasKind BITVECTOR_SUB,
      apply_rule = (\<lambda>node.
        let negb = App BITVECTOR_NEG [children node ! 1];
            a = children node ! 0
        in Inr (App BITVECTOR_PLUS [a, negb]))\<rparr>"

definition RepeatEliminate :: rule where
  "RepeatEliminate =
     \<lparr>applies = isRepeat,
      apply_rule = (\<lambda>node.
        let a = children node ! 0;
            amount = opAmount node
        in if amount = 1 then Inr a
           else Inr (App BITVECTOR_CONCAT (replicate amount (children node ! 0))))\<rparr>"

definition RotateLeftEliminate :: rule where
  "RotateLeftEliminate =
     \<lparr>applies = isRotateLeft,
      apply_rule = (\<lambda>node.
        let a = children node ! 0;
            amount = opAmount node mod getSize a
        in if amount = 0 then Inr a
           else
             let left = mkExtract a (u32_sub (u32_sub (getSize a) 1) amount) 0;
                 right = mkExtract a (u32_sub (getSize a) 1) (u32_sub (getSize a) amount)
             in Inr (mkConcat2 left right))\<rparr>"

definition RotateRightEliminate :: rule where
  "RotateRightEliminate =
     \<lparr>applies = isRotateRight,
      apply_rule = (\<lambda>node.
        let a = children node ! 0;
            amount = opAmount node mod getSize a
        in if amount = 0 then Inr a
           else
             let left = mkExtract a (u32_sub amount 1) 0;
                 right = mkExtract a (u32_sub (getSize a) 1) amount
             in Inr (mkConcat2 left right))\<rparr>"

definition not_rule :: "kind \<Rightarrow> kind \<Rightarrow> rule" where
  "not_rule k k' =
     \<lparr>applies = (\<lambda>node. hasKind k node \<and> length (children node) = 2),
      apply_rule = (\<lambda>node.
        let a = children node ! 0;
            b = children node ! 1
        in Inr (App BITVECTOR_NOT [App k' [a, b]]))\<rparr>"

definition NandEliminate :: rule where
  "NandEliminate = not_rule BITVECTOR_NAND BITVECTOR_AND"

definition NorEliminate :: rule where
  "NorEliminate = not_rule BITVECTOR_NOR BITVECTOR_OR"

definition XnorEliminate :: rule where
  "XnorEliminate = not_rule BITVECTOR_XNOR BITVECTOR_XOR"

text \<open>The flag is the option \<open>bitvectorDivByZeroConst\<close>.\<close>

definition SdivEliminate :: "gmp \<Rightarrow> bool \<Rightarrow> rule" where
  "SdivEliminate G bitvectorDivByZeroConst =
     \<lparr>applies = hasKind BITVECTOR_SDIV,
      apply_rule = (\<lambda>node.
        let a = children node ! 0;
            b = children node ! 1;
            sz = getSize a;
            one = mkConst G 1 1;
            a_lt_0 = App EQUAL [mkExtract a (u32_sub sz 1) (u32_sub sz 1), one];
            b_lt_0 = App EQUAL [mkExtract b (u32_sub sz 1) (u32_sub sz 1), one];
            abs_a = App ITE [a_lt_0, App BITVECTOR_NEG [a], a];
            abs_b = App ITE [b_lt_0, App BITVECTOR_NEG [b], b];
            a_udiv_b = App (if bitvectorDivByZeroConst then BITVECTOR_UDIV_TOTAL else BITVECTOR_UDIV) [abs_a, abs_b];
            neg_result = App BITVECTOR_NEG [a_udiv_b];
            condition = App XOR [a_lt_0, b_lt_0]
        in Inr (App ITE [condition, neg_result, a_udiv_b]))\<rparr>"

definition SremEliminate :: "gmp \<Rightarrow> bool \<Rightarrow> rule" where
  "SremEliminate G bitvectorDivByZeroConst =
     \<lparr>applies = hasKind BITVECTOR_SREM,
      apply_rule = (\<lambda>node.
        let a = children node ! 0;
            b = children node ! 1;
            sz = getSize a;
            one = mkConst G 1 1;
            a_lt_0 = App EQUAL [mkExtract a (u32_sub sz 1) (u32_sub sz 1), one];
            b_lt_0 = App EQUAL [mkExtract b (u32_sub sz 1) (u32_sub sz 1), one];
            abs_a = App ITE [a_lt_0, App BITVECTOR_NEG [a], a];
            abs_b = App ITE [b_lt_0, App BITVECTOR_NEG [b], b];
            a_urem_b = App (if bitvectorDivByZeroConst then BITVECTOR_UREM_TOTAL else BITVECTOR_UREM) [abs_a, abs_b];
            neg_result = App BITVECTOR_NEG [a_urem_b]
        in Inr (App ITE [a_lt_0, neg_result, a_urem_b]))\<rparr>"

definition SmodEliminate :: "gmp \<Rightarrow> rule" where
  "SmodEliminate G =
     \<lparr>applies = hasKind BITVECTOR_SMOD,
      apply_rule = (\<lambda>node.
        let s = children node ! 0;
            t = children node ! 1;
            sz = getSize s;
            msb_s = mkExtract s (u32_sub sz 1) (u32_sub sz 1);
            msb_t = mkExtract t (u32_sub sz 1) (u32_sub sz 1);
            bit1 = mkConst G 1 1;
            bit0 = mkConst G 1 0;
            abs_s = App ITE [App EQUAL [msb_s, bit0], s, App BITVECTOR_NEG [s]];
            abs_t = App ITE [App EQUAL [msb_t, bit0], t, App BITVECTOR_NEG [t]];
            u = App BITVECTOR_UREM [abs_s, abs_t];
            neg_u = App BITVECTOR_NEG [u];
            cond0 = App EQUAL [u, mkConst G sz 0];
            cond1 = App AND [App EQUAL [msb_s, bit0], App EQUAL [msb_t, bit0]];
            cond2 = App AND [App EQUAL [msb_s, bit1], App EQUAL [msb_t, bit0]];
            cond3 = App AND [App EQUAL [msb_s, bit0], App EQUAL [msb_t, bit1]]
        in Inr (App ITE [cond0, u,
                App ITE [cond1, u,
                App ITE [cond2, App BITVECTOR_PLUS [neg_u, t],
                App ITE [cond3, App BITVECTOR_PLUS [u, t], neg_u]]]]))\<rparr>"

definition ZeroExtendEliminate :: "gmp \<Rightarrow> rule" where
  "ZeroExtendEliminate G =
     \<lparr>applies = isZeroExtend,
      apply_rule = (\<lambda>node.
        let amount = opAmount node
        in if amount = 0 then Inr (children node ! 0)
           else Inr (mkConcat2 (mkConst G amount 0) (children node ! 0)))\<rparr>"

definition SignExtendEliminate :: rule where
  "SignExtendEliminate =
     \<lparr>applies = isSignExtend,
      apply_rule = (\<lambda>node.
        let amount = opAmount node
        in if amount = 0 then Inr (children node ! 0)
           else
             let sz = getSize (children node ! 0);
                 sign_bit = mkExtract (children node ! 0) (u32_sub sz 1) (u32_sub sz 1);
                 extension = mkConcat_repeat sign_bit amount
             in Inr (mkConcat2 extension (children node ! 0)))\<rparr>"

definition RedorEliminate :: "gmp \<Rightarrow> rule" where
  "RedorEliminate G =
     \<lparr>applies = hasKind BITVECTOR_REDOR,
      apply_rule = (\<lambda>node.
        let a = children node ! 0;
            sz = getSize (children node ! 0);
            result = App EQUAL [a, mkConst G sz 0]
        in Inr (App NOT [result]))\<rparr>"

definition RedandEliminate :: "gmp \<Rightarrow> rule" where
  "RedandEliminate G =
     \<lparr>applies = hasKind BITVECTOR_REDAND,
      apply_rule = (\<lambda>node.
        let a = children node ! 0;
            sz = getSize (children node ! 0)
        in Inr (App EQUAL [a, mkOnes G sz]))\<rparr>"

section \<open>Soundness\<close>

lemmas typing_simps = typeOf_short type_op_iffs type_op_mixed mkExtract_def mkConcat2_def valid_width_def

lemma swap_rules_sound:
  "rule_sound opt UgtEliminate" "rule_sound opt UgeEliminate"
  "rule_sound opt SgtEliminate" "rule_sound opt SgeEliminate"
  by (rule binary_rule [of BITVECTOR_UGT], auto simp: UgtEliminate_def swap_rule_def typing_simps)
    (rule binary_rule [of BITVECTOR_UGE], auto simp: UgeEliminate_def swap_rule_def typing_simps,
     rule binary_rule [of BITVECTOR_SGT], auto simp: SgtEliminate_def swap_rule_def typing_simps,
     rule binary_rule [of BITVECTOR_SGE], auto simp: SgeEliminate_def swap_rule_def typing_simps)

lemma not_rules_sound:
  "rule_sound opt NandEliminate" "rule_sound opt NorEliminate" "rule_sound opt XnorEliminate"
  by (rule binary_rule [of BITVECTOR_NAND], auto simp: NandEliminate_def not_rule_def typing_simps)
    (rule binary_rule [of BITVECTOR_NOR], auto simp: NorEliminate_def not_rule_def typing_simps,
     rule binary_rule [of BITVECTOR_XNOR], auto simp: XnorEliminate_def not_rule_def typing_simps)

lemma SleEliminate_sound: "rule_sound opt SleEliminate"
  by (rule binary_rule [of BITVECTOR_SLE]) (auto simp: SleEliminate_def typing_simps)

lemma UleEliminate_sound: "rule_sound opt UleEliminate"
  by (rule binary_rule [of BITVECTOR_ULE]) (auto simp: UleEliminate_def typing_simps)

lemma SubEliminate_sound: "rule_sound opt SubEliminate"
  by (rule binary_rule [of BITVECTOR_SUB])
    (auto simp: SubEliminate_def typing_simps bvadd_def bvsub_def bvneg_def mod_simps)

lemma sval_offset:
  assumes "in_width w a" and "0 < w"
  shows "(a + 2 ^ (w - 1)) mod 2 ^ w = sval w a + 2 ^ (w - 1)"
proof -
  have p: "(2 :: int) ^ w = 2 * 2 ^ (w - 1)" using assms(2) by (cases w) auto
  show ?thesis
  proof (cases "a < 2 ^ (w - 1)")
    case True
    with assms p have "0 \<le> a + 2 ^ (w - 1)" "a + 2 ^ (w - 1) < 2 ^ w" by (auto simp: in_width_def)
    with True show ?thesis by (simp add: sval_def)
  next
    case False
    with assms p have "0 \<le> a - 2 ^ (w - 1)" "a - 2 ^ (w - 1) < 2 ^ w" by (auto simp: in_width_def)
    moreover have "a + 2 ^ (w - 1) = a - 2 ^ (w - 1) + 2 ^ w" using p by simp
    ultimately have "(a + 2 ^ (w - 1)) mod 2 ^ w = a - 2 ^ (w - 1)"
      by (metis mod_add_self2 mod_pos_pos_trivial)
    with False p show ?thesis by (simp add: sval_def)
  qed
qed

lemma extract_msb:
  assumes "in_width w a" and "0 < w"
  shows "bvextract (w - 1) (w - 1) a = of_bool (msb w a)"
  using sign_bit_sval(2) [OF assms] by (simp add: bvextract_def msb_def)

context gmp_documented
begin

lemma SltEliminate_sound: "rule_sound opt (SltEliminate G)"
proof (rule binary_rule [of BITVECTOR_SLT])
  fix x y w t
  assume x: "typeOf x = Some (BITVECTOR_TYPE w)" and y: "typeOf y = Some (BITVECTOR_TYPE w)" and w: "valid_width w"
    and t: "typeOf (App BITVECTOR_SLT [x, y]) = Some t"
  have "(2 :: int) ^ (w - 1) < 2 ^ w" using w by (simp add: valid_width_def)
  then show "\<exists>m. apply_rule (SltEliminate G) (App BITVECTOR_SLT [x, y]) = Inr m \<and> typeOf m = Some t \<and>
      (\<forall>I a b. wf_interp I \<longrightarrow> zero_division opt I \<longrightarrow> eval I x = VBV w a \<longrightarrow> eval I y = VBV w b \<longrightarrow>
        in_width w a \<longrightarrow> in_width w b \<longrightarrow> eval I m = eval I (App BITVECTOR_SLT [x, y]))"
    using x y w t sval_offset by (auto simp: SltEliminate_def typing_simps bvadd_def Let_def)
qed (auto simp: SltEliminate_def)

lemma CompEliminate_sound: "rule_sound opt (CompEliminate G)"
  by (rule binary_rule [of BITVECTOR_COMP]) (auto simp: CompEliminate_def typing_simps)

lemma msb_test_typed [simp]:
  "typeOf x = Some (BITVECTOR_TYPE w) \<Longrightarrow> valid_width w \<Longrightarrow>
    typeOf (App EQUAL [App (BITVECTOR_EXTRACT (w - Suc 0) (w - Suc 0)) [x], mkConst G (Suc 0) v]) = Some BOOLEAN_TYPE"
  by (simp add: typing_simps)

lemma if_typed [simp]:
  "typeOf c = Some BOOLEAN_TYPE \<Longrightarrow> typeOf x = Some t \<Longrightarrow> typeOf y = Some t \<Longrightarrow> typeOf (App ITE [c, x, y]) = Some t"
  using typeOf_valid [of x t] by (simp add: typeOf_short type_op_mixed)

lemma op_typed:
  assumes "typeOf x = Some (BITVECTOR_TYPE w)" "typeOf y = Some (BITVECTOR_TYPE w)"
  shows "typeOf (App BITVECTOR_NEG [x]) = Some (BITVECTOR_TYPE w)"
    "typeOf (App BITVECTOR_PLUS [x, y]) = Some (BITVECTOR_TYPE w)"
    "typeOf (App BITVECTOR_UDIV [x, y]) = Some (BITVECTOR_TYPE w)"
    "typeOf (App BITVECTOR_UREM [x, y]) = Some (BITVECTOR_TYPE w)"
    "typeOf (App BITVECTOR_UDIV_TOTAL [x, y]) = Some (BITVECTOR_TYPE w)"
    "typeOf (App BITVECTOR_UREM_TOTAL [x, y]) = Some (BITVECTOR_TYPE w)"
    "typeOf (App EQUAL [x, y]) = Some BOOLEAN_TYPE"
  using assms typeOf_valid [of x "BITVECTOR_TYPE w"] by (simp_all add: typeOf_short type_op_mixed type_op_iffs)

lemma connective_typed:
  "typeOf c = Some BOOLEAN_TYPE \<Longrightarrow> typeOf d = Some BOOLEAN_TYPE \<Longrightarrow> typeOf (App XOR [c, d]) = Some BOOLEAN_TYPE"
  "typeOf c = Some BOOLEAN_TYPE \<Longrightarrow> typeOf d = Some BOOLEAN_TYPE \<Longrightarrow> typeOf (App AND [c, d]) = Some BOOLEAN_TYPE"
  by (simp_all add: typeOf_short type_op_iffs)

lemma SdivEliminate_sound: "rule_sound opt (SdivEliminate G opt)"
proof (rule binary_rule [of BITVECTOR_SDIV])
  fix x y w t
  assume x: "typeOf x = Some (BITVECTOR_TYPE w)" and y: "typeOf y = Some (BITVECTOR_TYPE w)" and w: "valid_width w"
    and "typeOf (App BITVECTOR_SDIV [x, y]) = Some t"
  then have t: "t = BITVECTOR_TYPE w" by (simp add: typing_simps)
  let ?m = "apply_rule (SdivEliminate G opt) (App BITVECTOR_SDIV [x, y])"
  obtain m where m: "?m = Inr m" by (simp add: SdivEliminate_def Let_def)
  then have m': "m = projr ?m" by simp
  note expand = SdivEliminate_def Let_def mkExtract_def valid_width_def
  have "typeOf m = Some t"
    using x y w t by (simp add: m' expand op_typed connective_typed)
  moreover have "eval I m = eval I (App BITVECTOR_SDIV [x, y])"
    if I: "zero_division opt I" "eval I x = VBV w a" "eval I y = VBV w b" "in_width w a" "in_width w b" for I a b
    using I x w extract_msb [OF I(4)] extract_msb [OF I(5)]
    by (cases "msb w a"; cases "msb w b"; cases opt)
      (simp_all add: m' expand smt_sdiv_def bvabs_def udivI_def bvudiv_def zero_division_def)
  ultimately show "\<exists>m. ?m = Inr m \<and> typeOf m = Some t \<and>
      (\<forall>I a b. wf_interp I \<longrightarrow> zero_division opt I \<longrightarrow> eval I x = VBV w a \<longrightarrow> eval I y = VBV w b \<longrightarrow>
        in_width w a \<longrightarrow> in_width w b \<longrightarrow> eval I m = eval I (App BITVECTOR_SDIV [x, y]))"
    using m by blast
qed (auto simp: SdivEliminate_def)

lemma SremEliminate_sound: "rule_sound opt (SremEliminate G opt)"
proof (rule binary_rule [of BITVECTOR_SREM])
  fix x y w t
  assume x: "typeOf x = Some (BITVECTOR_TYPE w)" and y: "typeOf y = Some (BITVECTOR_TYPE w)" and w: "valid_width w"
    and "typeOf (App BITVECTOR_SREM [x, y]) = Some t"
  then have t: "t = BITVECTOR_TYPE w" by (simp add: typing_simps)
  let ?m = "apply_rule (SremEliminate G opt) (App BITVECTOR_SREM [x, y])"
  obtain m where m: "?m = Inr m" by (simp add: SremEliminate_def Let_def)
  then have m': "m = projr ?m" by simp
  note expand = SremEliminate_def Let_def mkExtract_def valid_width_def
  have "typeOf m = Some t"
    using x y w t by (simp add: m' expand op_typed connective_typed)
  moreover have "eval I m = eval I (App BITVECTOR_SREM [x, y])"
    if I: "zero_division opt I" "eval I x = VBV w a" "eval I y = VBV w b" "in_width w a" "in_width w b" for I a b
    using I x w extract_msb [OF I(4)] extract_msb [OF I(5)]
    by (cases "msb w a"; cases "msb w b"; cases opt)
      (simp_all add: m' expand smt_srem_def bvabs_def uremI_def bvurem_def zero_division_def)
  ultimately show "\<exists>m. ?m = Inr m \<and> typeOf m = Some t \<and>
      (\<forall>I a b. wf_interp I \<longrightarrow> zero_division opt I \<longrightarrow> eval I x = VBV w a \<longrightarrow> eval I y = VBV w b \<longrightarrow>
        in_width w a \<longrightarrow> in_width w b \<longrightarrow> eval I m = eval I (App BITVECTOR_SREM [x, y]))"
    using m by blast
qed (auto simp: SremEliminate_def)

lemma SmodEliminate_sound: "rule_sound opt (SmodEliminate G)"
proof (rule binary_rule [of BITVECTOR_SMOD])
  fix x y w t
  assume x: "typeOf x = Some (BITVECTOR_TYPE w)" and y: "typeOf y = Some (BITVECTOR_TYPE w)" and w: "valid_width w"
    and "typeOf (App BITVECTOR_SMOD [x, y]) = Some t"
  then have t: "t = BITVECTOR_TYPE w" by (simp add: typing_simps)
  let ?m = "apply_rule (SmodEliminate G) (App BITVECTOR_SMOD [x, y])"
  obtain m where m: "?m = Inr m" by (simp add: SmodEliminate_def Let_def)
  then have m': "m = projr ?m" by simp
  note expand = SmodEliminate_def Let_def mkExtract_def valid_width_def
  have "typeOf m = Some t"
    using x y w t by (simp add: m' expand op_typed connective_typed)
  moreover have "eval I m = eval I (App BITVECTOR_SMOD [x, y])"
    if I: "zero_division opt I" "eval I x = VBV w a" "eval I y = VBV w b" "in_width w a" "in_width w b" for I a b
    using I x w extract_msb [OF I(4)] extract_msb [OF I(5)]
    by (cases "msb w a"; cases "msb w b")
      (simp_all add: m' expand smt_smod_def bvabs_def)
  ultimately show "\<exists>m. ?m = Inr m \<and> typeOf m = Some t \<and>
      (\<forall>I a b. wf_interp I \<longrightarrow> zero_division opt I \<longrightarrow> eval I x = VBV w a \<longrightarrow> eval I y = VBV w b \<longrightarrow>
        in_width w a \<longrightarrow> in_width w b \<longrightarrow> eval I m = eval I (App BITVECTOR_SMOD [x, y]))"
    using m by blast
qed (auto simp: SmodEliminate_def)

lemma RedorEliminate_sound: "rule_sound opt (RedorEliminate G)"
  by (rule unary_rule [of BITVECTOR_REDOR]) (auto simp: RedorEliminate_def typing_simps)

lemma RedandEliminate_sound: "rule_sound opt (RedandEliminate G)"
  by (rule unary_rule [of BITVECTOR_REDAND]) (auto simp: RedandEliminate_def typeOf_short type_op_iffs type_op_mixed)

lemma ZeroExtendEliminate_sound: "rule_sound opt (ZeroExtendEliminate G)"
proof (rule rule_soundI)
  fix n t assume n: "typeOf n = Some t" "applies (ZeroExtendEliminate G) n"
  then obtain r ns where k: "n = App (BITVECTOR_ZERO_EXTEND r) ns" by (auto simp: ZeroExtendEliminate_def isParam_iff)
  show "sound_result opt n (apply_rule (ZeroExtendEliminate G) n)"
  proof (rule unary_rule_at [of "BITVECTOR_ZERO_EXTEND r"])
    fix x w assume x: "n = App (BITVECTOR_ZERO_EXTEND r) [x]" "typeOf x = Some (BITVECTOR_TYPE w)" "valid_width w"
    then have t: "t = BITVECTOR_TYPE (r + w)" "r + w < 2 ^ 32"
      using n(1) by (auto simp: typeOf_short type_op_iffs valid_width_def)
    then show "\<exists>m. apply_rule (ZeroExtendEliminate G) n = Inr m \<and> typeOf m = Some t \<and> (\<forall>I a. wf_interp I \<longrightarrow>
        zero_division opt I \<longrightarrow> eval I x = VBV w a \<longrightarrow> in_width w a \<longrightarrow> eval I m = eval I n)"
      using x(2) typeOf_mkConcat2 [of "mkConst G r 0" r x w]
      by (auto simp: ZeroExtendEliminate_def x(1) valid_width_def mkConcat2_def bvconcat_def)
  qed (use n k in \<open>auto simp: hasKind_iff\<close>)
qed

end

lemma RepeatEliminate_sound: "rule_sound opt RepeatEliminate"
proof (rule rule_soundI)
  fix n t assume n: "typeOf n = Some t" "applies RepeatEliminate n"
  then obtain r ns where k: "n = App (BITVECTOR_REPEAT r) ns" by (auto simp: RepeatEliminate_def isParam_iff)
  show "sound_result opt n (apply_rule RepeatEliminate n)"
  proof (rule unary_rule_at [of "BITVECTOR_REPEAT r"])
    fix x w assume x: "n = App (BITVECTOR_REPEAT r) [x]" "typeOf x = Some (BITVECTOR_TYPE w)" "valid_width w"
    then have t: "t = BITVECTOR_TYPE (r * w)" "r * w < 2 ^ 32" "0 < r"
      using n(1) by (auto simp: typeOf_short type_op_iffs valid_width_def)
    then show "\<exists>m. apply_rule RepeatEliminate n = Inr m \<and> typeOf m = Some t \<and> (\<forall>I a. wf_interp I \<longrightarrow>
        zero_division opt I \<longrightarrow> eval I x = VBV w a \<longrightarrow> in_width w a \<longrightarrow> eval I m = eval I n)"
      using x(2) typeOf_replicate [OF x(2) _ t(2)] eval_replicate [OF _ t(3)]
      by (auto simp: RepeatEliminate_def x(1) bvconcat_def simp del: eval.simps) (auto simp: bvconcat_def)
  qed (use n k in \<open>auto simp: hasKind_iff\<close>)
qed

lemma sign_extend_repeat:
  assumes "in_width w a" and "0 < w"
  shows "bvconcat w (bvrepeat k (Suc 0) (bvextract (w - 1) (w - 1) a)) a = bvsign_extend k w a"
proof (cases "msb w a")
  case True
  have p: "(2 :: int) ^ (w + k) = 2 ^ w * 2 ^ k" by (simp add: power_add)
  have "a + 2 ^ w * (2 ^ k - 1) = a - 2 ^ w + 2 ^ (w + k)" unfolding p by (simp add: algebra_simps)
  moreover have "0 \<le> a + 2 ^ w * (2 ^ k - 1)" using assms by (simp add: in_width_def)
  moreover have "a + 2 ^ w * (2 ^ k - 1) < 2 ^ (w + k)"
    using assms unfolding p by (simp add: in_width_def algebra_simps)
  ultimately have "(a - 2 ^ w) mod 2 ^ (w + k) = a + 2 ^ w * (2 ^ k - 1)"
    by (metis mod_add_self2 mod_pos_pos_trivial)
  with True show ?thesis
    by (simp add: extract_msb [OF assms, simplified] bvrepeat_bit [of k True, simplified] bvconcat_def bvsign_extend_def sval_def msb_def power_add algebra_simps)
next
  case False
  have "in_width (w + k) a" using assms(1) by (rule in_width_mono) simp
  with False show ?thesis
    by (simp add: extract_msb [OF assms, simplified] bvrepeat_bit [of k False, simplified] bvconcat_def bvsign_extend_def sval_def msb_def)
qed

lemma SignExtendEliminate_sound: "rule_sound opt SignExtendEliminate"
proof (rule rule_soundI)
  fix n t assume n: "typeOf n = Some t" "applies SignExtendEliminate n"
  then obtain r ns where k: "n = App (BITVECTOR_SIGN_EXTEND r) ns" by (auto simp: SignExtendEliminate_def isParam_iff)
  show "sound_result opt n (apply_rule SignExtendEliminate n)"
  proof (rule unary_rule_at [of "BITVECTOR_SIGN_EXTEND r"])
    fix x w assume x: "n = App (BITVECTOR_SIGN_EXTEND r) [x]" "typeOf x = Some (BITVECTOR_TYPE w)" "valid_width w"
    then have t: "t = BITVECTOR_TYPE (r + w)" "r + w < 2 ^ 32"
      using n(1) by (auto simp: typeOf_short type_op_iffs valid_width_def)
    have w: "0 < w" "w < 2 ^ 32" using x(3) by (auto simp: valid_width_def)
    let ?b = "mkExtract x (w - 1) (w - 1)"
    have b: "typeOf ?b = Some (BITVECTOR_TYPE 1)" using typeOf_mkExtract [OF x(2), of "w - 1" "w - 1"] w by simp
    show "\<exists>m. apply_rule SignExtendEliminate n = Inr m \<and> typeOf m = Some t \<and> (\<forall>I a. wf_interp I \<longrightarrow>
        zero_division opt I \<longrightarrow> eval I x = VBV w a \<longrightarrow> in_width w a \<longrightarrow> eval I m = eval I n)"
    proof (cases "r = 0")
      case True
      then show ?thesis
        using x t sign_extend_repeat [OF _ w(1), of _ 0] by (auto simp: SignExtendEliminate_def bvconcat_def)
    next
      case False
      then have r: "0 < r" by simp
      have "typeOf (mkConcat2 (mkConcat_repeat ?b r) x) = Some t"
        using typeOf_mkConcat2 [OF mkConcat_repeat(1) [OF r b] x(2)] t by simp
      moreover have "eval I (mkConcat2 (mkConcat_repeat ?b r) x) = eval I n" if "eval I x = VBV w a" "in_width w a" for I a
        using eval_mkConcat2 [OF mkConcat_repeat(2) [OF r eval_mkExtract [OF that(1)]] that(1)]
          sign_extend_repeat [OF that(2) w(1), of r] that(1) by (simp add: x(1) bvconcat_def)
      ultimately show ?thesis using False x w by (simp add: SignExtendEliminate_def)
    qed
  qed (use n k in \<open>auto simp: hasKind_iff\<close>)
qed

text \<open>A rotation swaps the two slices of its argument.\<close>

lemma rotate_slices:
  assumes a: "in_width w a" and k: "k < w" "0 < k"
  shows "bvconcat k (bvextract (w - 1 - k) 0 a) (bvextract (w - 1) (w - k) a) =
      (a * 2 ^ k) mod 2 ^ w + a div 2 ^ (w - k)"
    and "bvconcat (w - k) (bvextract (k - 1) 0 a) (bvextract (w - 1) k a) =
      a div 2 ^ k + (a mod 2 ^ k) * 2 ^ (w - k)"
proof -
  have top: "(a div 2 ^ (w - j)) mod 2 ^ j = a div 2 ^ (w - j)" if "j \<le> w" for j
  proof -
    have "a < 2 ^ j * 2 ^ (w - j)" using a that by (simp add: in_width_def flip: power_add)
    then have "a div 2 ^ (w - j) < 2 ^ j" by (rule div_pow2_less)
    moreover have "0 \<le> a div 2 ^ (w - j)" using a by (simp add: in_width_def pos_imp_zdiv_nonneg_iff)
    ultimately show ?thesis by simp
  qed
  have "(a * 2 ^ k) mod 2 ^ w = a mod 2 ^ (w - k) * 2 ^ k"
    using k by (simp add: mult_mod_left flip: power_add)
  then show "bvconcat k (bvextract (w - 1 - k) 0 a) (bvextract (w - 1) (w - k) a) =
      (a * 2 ^ k) mod 2 ^ w + a div 2 ^ (w - k)"
    using k top [of k] by (simp add: bvconcat_def bvextract_def Suc_diff_Suc)
  show "bvconcat (w - k) (bvextract (k - 1) 0 a) (bvextract (w - 1) k a) =
      a div 2 ^ k + (a mod 2 ^ k) * 2 ^ (w - k)"
    using k top [of "w - k"] by (simp add: bvconcat_def bvextract_def Suc_diff_Suc)
qed

lemma RotateLeftEliminate_sound: "rule_sound opt RotateLeftEliminate"
proof (rule rule_soundI)
  fix n t assume n: "typeOf n = Some t" "applies RotateLeftEliminate n"
  then obtain r ns where k: "n = App (BITVECTOR_ROTATE_LEFT r) ns" by (auto simp: RotateLeftEliminate_def isParam_iff)
  show "sound_result opt n (apply_rule RotateLeftEliminate n)"
  proof (rule unary_rule_at [of "BITVECTOR_ROTATE_LEFT r"])
    fix x w assume x: "n = App (BITVECTOR_ROTATE_LEFT r) [x]" "typeOf x = Some (BITVECTOR_TYPE w)" "valid_width w"
    then have t: "t = BITVECTOR_TYPE w" "0 < w" "w < 2 ^ 32"
      using n(1) by (auto simp: typeOf_short type_op_iffs valid_width_def)
    let ?k = "r mod w" let ?l = "mkExtract x (w - 1 - ?k) 0" and ?r = "mkExtract x (w - 1) (w - ?k)"
    show "\<exists>m. apply_rule RotateLeftEliminate n = Inr m \<and> typeOf m = Some t \<and> (\<forall>I a. wf_interp I \<longrightarrow>
        zero_division opt I \<longrightarrow> eval I x = VBV w a \<longrightarrow> in_width w a \<longrightarrow> eval I m = eval I n)"
    proof (cases "?k = 0")
      case True
      then show ?thesis using x t by (auto simp: RotateLeftEliminate_def bvrotate_left_def in_width_def)
    next
      case False
      then have k: "?k < w" "0 < ?k" using t by auto
      have ty: "typeOf ?l = Some (BITVECTOR_TYPE (w - ?k))" "typeOf ?r = Some (BITVECTOR_TYPE ?k)"
        using typeOf_mkExtract [OF x(2), of 0 "w - 1 - ?k"] typeOf_mkExtract [OF x(2), of "w - ?k" "w - 1"] k
        by (auto simp: Suc_diff_Suc)
      have "typeOf (mkConcat2 ?l ?r) = Some t" using typeOf_mkConcat2 [OF ty] k t by simp
      moreover have "eval I (mkConcat2 ?l ?r) = eval I n" if "eval I x = VBV w a" "in_width w a" for I a
        using eval_mkConcat2 [OF eval_mkExtract [OF that(1), of "w - 1 - ?k" 0] eval_mkExtract [OF that(1), of "w - 1" "w - ?k"]]
          rotate_slices(1) [OF that(2) k] k that(1)
        by (simp add: x(1) bvrotate_left_def Suc_diff_Suc)
      ultimately show ?thesis using False x t k by (simp add: RotateLeftEliminate_def Let_def)
    qed
  qed (use n k in \<open>auto simp: hasKind_iff\<close>)
qed

lemma RotateRightEliminate_sound: "rule_sound opt RotateRightEliminate"
proof (rule rule_soundI)
  fix n t assume n: "typeOf n = Some t" "applies RotateRightEliminate n"
  then obtain r ns where k: "n = App (BITVECTOR_ROTATE_RIGHT r) ns" by (auto simp: RotateRightEliminate_def isParam_iff)
  show "sound_result opt n (apply_rule RotateRightEliminate n)"
  proof (rule unary_rule_at [of "BITVECTOR_ROTATE_RIGHT r"])
    fix x w assume x: "n = App (BITVECTOR_ROTATE_RIGHT r) [x]" "typeOf x = Some (BITVECTOR_TYPE w)" "valid_width w"
    then have t: "t = BITVECTOR_TYPE w" "0 < w" "w < 2 ^ 32"
      using n(1) by (auto simp: typeOf_short type_op_iffs valid_width_def)
    let ?k = "r mod w" let ?l = "mkExtract x (?k - 1) 0" and ?r = "mkExtract x (w - 1) ?k"
    show "\<exists>m. apply_rule RotateRightEliminate n = Inr m \<and> typeOf m = Some t \<and> (\<forall>I a. wf_interp I \<longrightarrow>
        zero_division opt I \<longrightarrow> eval I x = VBV w a \<longrightarrow> in_width w a \<longrightarrow> eval I m = eval I n)"
    proof (cases "?k = 0")
      case True
      then show ?thesis using x t by (auto simp: RotateRightEliminate_def bvrotate_right_def in_width_def)
    next
      case False
      then have k: "?k < w" "0 < ?k" using t by auto
      have ty: "typeOf ?l = Some (BITVECTOR_TYPE ?k)" "typeOf ?r = Some (BITVECTOR_TYPE (w - ?k))"
        using typeOf_mkExtract [OF x(2), of 0 "?k - 1"] typeOf_mkExtract [OF x(2), of ?k "w - 1"] k
        by (auto simp: Suc_diff_Suc)
      have "typeOf (mkConcat2 ?l ?r) = Some t" using typeOf_mkConcat2 [OF ty] k t by simp
      moreover have "eval I (mkConcat2 ?l ?r) = eval I n" if "eval I x = VBV w a" "in_width w a" for I a
        using eval_mkConcat2 [OF eval_mkExtract [OF that(1), of "?k - 1" 0] eval_mkExtract [OF that(1), of "w - 1" ?k]]
          rotate_slices(2) [OF that(2) k] k that(1)
        by (simp add: x(1) bvrotate_right_def Suc_diff_Suc)
      ultimately show ?thesis using False x t k by (simp add: RotateRightEliminate_def Let_def)
    qed
  qed (use n k in \<open>auto simp: hasKind_iff\<close>)
qed

end
