(* ===== verification/Rules_Simplification.thy ===== *)
theory Rules_Simplification
  imports Nary_Terms Concatenations Rules_Operator_Elimination
begin

text \<open>
  The simplification rules (\<open>src/src/theory/bv/theory_bv_rewrite_rules_simplification.h\<close>). Most are
  sound as they stand. \<open>XorOne\<close>, \<open>XorZero\<close> and \<open>MultPow2\<close> build an application without children when
  no other child remains, and are sound otherwise; \<open>UdivSelf\<close> is wrong for zero (\<open>Rules_Simplification_Arith\<close>). Left out are the
  rules whose bodies begin with \<open>Unreachable()\<close>, and \<open>IsPowerOfTwo\<close>, which is only meant to
  preserve satisfiability.
\<close>

section \<open>Rules\<close>

subsection \<open>Shifts by a constant\<close>

definition ShlByConst :: "gmp \<Rightarrow> rule" where
  "ShlByConst G =
     \<lparr>applies = (\<lambda>node. hasKind BITVECTOR_SHL node \<and> isConstBV (children node ! 1)),
      apply_rule = (\<lambda>node.
        let amount = d_value (getConst (children node ! 1));
            a = children node ! 0;
            sz = getSize a
        in if amount = 0 then Inr (children node ! 0)
           else if amount \<ge> int sz then Inr (CONST_BITVECTOR (BitVector G sz 0))
           else
             let uint32_amount = Integer_toUnsignedInt G amount;
                 left = mkExtract a (u32_sub (u32_sub sz 1) uint32_amount) 0;
                 right = CONST_BITVECTOR (BitVector G uint32_amount 0)
             in Inr (mkConcat2 left right))\<rparr>"

definition LshrByConst :: "gmp \<Rightarrow> rule" where
  "LshrByConst G =
     \<lparr>applies = (\<lambda>node. hasKind BITVECTOR_LSHR node \<and> isConstBV (children node ! 1)),
      apply_rule = (\<lambda>node.
        let amount = d_value (getConst (children node ! 1));
            a = children node ! 0;
            sz = getSize a
        in if amount = 0 then Inr (children node ! 0)
           else if amount \<ge> int sz then Inr (CONST_BITVECTOR (BitVector G sz 0))
           else
             let uint32_amount = Integer_toUnsignedInt G amount;
                 right = mkExtract a (u32_sub sz 1) uint32_amount;
                 left = CONST_BITVECTOR (BitVector G uint32_amount 0)
             in Inr (mkConcat2 left right))\<rparr>"

definition AshrByConst :: "gmp \<Rightarrow> rule" where
  "AshrByConst G =
     \<lparr>applies = (\<lambda>node. hasKind BITVECTOR_ASHR node \<and> isConstBV (children node ! 1)),
      apply_rule = (\<lambda>node.
        let amount = d_value (getConst (children node ! 1));
            a = children node ! 0;
            sz = getSize a;
            sign_bit = mkExtract a (u32_sub sz 1) (u32_sub sz 1)
        in if amount = 0 then Inr (children node ! 0)
           else if amount \<ge> int sz then Inr (mkConcat_repeat sign_bit sz)
           else
             let uint32_amount = Integer_toUnsignedInt G amount
             in if uint32_amount = 0 then Inr a
                else
                  let left = mkConcat_repeat sign_bit uint32_amount;
                      right = mkExtract a (u32_sub sz 1) uint32_amount
                  in Inr (mkConcat2 left right))\<rparr>"

subsection \<open>Bitwise operations\<close>

definition XorOne :: "gmp \<Rightarrow> rule" where
  "XorOne G =
     \<lparr>applies = (\<lambda>node.
        if \<not> hasKind BITVECTOR_XOR node then False
        else list_ex (\<lambda>c. c = mkOnes G (getSize node)) (children node)),
      apply_rule = (\<lambda>node.
        let ones = mkOnes G (getSize node);
            cs = filter (\<lambda>c. c \<noteq> ones) (children node);
            found_ones = odd (length (filter (\<lambda>c. c = ones) (children node)));
            result = mkNode BITVECTOR_XOR cs
        in Inr (if found_ones then App BITVECTOR_NOT [result] else result))\<rparr>"

definition XorZero :: "gmp \<Rightarrow> rule" where
  "XorZero G =
     \<lparr>applies = (\<lambda>node.
        if \<not> hasKind BITVECTOR_XOR node then False
        else list_ex (\<lambda>c. c = mkConst G (getSize node) 0) (children node)),
      apply_rule = (\<lambda>node.
        let zero = mkConst G (getSize node) 0
        in Inr (mkNode BITVECTOR_XOR (filter (\<lambda>c. c \<noteq> zero) (children node))))\<rparr>"

definition NotXor :: "(node \<Rightarrow> node \<Rightarrow> bool) \<Rightarrow> rule" where
  "NotXor lt =
     \<lparr>applies = (\<lambda>node. hasKind BITVECTOR_NOT node \<and> hasKind BITVECTOR_XOR (children node ! 0)),
      apply_rule = (\<lambda>node.
        let cs = children (children node ! 0)
        in Inr (mkSortedNode lt BITVECTOR_XOR (App BITVECTOR_NOT [cs ! 0] # tl cs)))\<rparr>"

definition NotIdemp :: rule where
  "NotIdemp =
     \<lparr>applies = (\<lambda>node. hasKind BITVECTOR_NOT node \<and> hasKind BITVECTOR_NOT (children node ! 0)),
      apply_rule = (\<lambda>node. Inr (children (children node ! 0) ! 0))\<rparr>"

subsection \<open>Comparisons\<close>

definition LtSelf :: rule where
  "LtSelf =
     \<lparr>applies = (\<lambda>node. (hasKind BITVECTOR_ULT node \<or> hasKind BITVECTOR_SLT node) \<and> children node ! 0 = children node ! 1),
      apply_rule = (\<lambda>node. Inr (CONST_BOOLEAN False))\<rparr>"

definition LteSelf :: rule where
  "LteSelf =
     \<lparr>applies = (\<lambda>node. (hasKind BITVECTOR_ULE node \<or> hasKind BITVECTOR_SLE node) \<and> children node ! 0 = children node ! 1),
      apply_rule = (\<lambda>node. Inr (CONST_BOOLEAN True))\<rparr>"

definition ZeroUlt :: "gmp \<Rightarrow> rule" where
  "ZeroUlt G =
     \<lparr>applies = (\<lambda>node. hasKind BITVECTOR_ULT node \<and>
        children node ! 0 = CONST_BITVECTOR (BitVector G (getSize (children node ! 0)) 0)),
      apply_rule = (\<lambda>node. Inr (App NOT [App EQUAL [children node ! 0, children node ! 1]]))\<rparr>"

definition UltZero :: "gmp \<Rightarrow> rule" where
  "UltZero G =
     \<lparr>applies = (\<lambda>node. hasKind BITVECTOR_ULT node \<and>
        children node ! 1 = CONST_BITVECTOR (BitVector G (getSize (children node ! 0)) 0)),
      apply_rule = (\<lambda>node. Inr (CONST_BOOLEAN False))\<rparr>"

definition UltOne :: "gmp \<Rightarrow> rule" where
  "UltOne G =
     \<lparr>applies = (\<lambda>node. hasKind BITVECTOR_ULT node \<and>
        children node ! 1 = CONST_BITVECTOR (BitVector G (getSize (children node ! 0)) 1)),
      apply_rule = (\<lambda>node.
        Inr (App EQUAL [children node ! 0, CONST_BITVECTOR (BitVector_unsigned G (getSize (children node ! 0)) 0)]))\<rparr>"

definition SltZero :: "gmp \<Rightarrow> rule" where
  "SltZero G =
     \<lparr>applies = (\<lambda>node. hasKind BITVECTOR_SLT node \<and>
        children node ! 1 = CONST_BITVECTOR (BitVector G (getSize (children node ! 0)) 0)),
      apply_rule = (\<lambda>node.
        let sz = getSize (children node ! 0);
            most_significant_bit = mkExtract (children node ! 0) (u32_sub sz 1) (u32_sub sz 1);
            one = CONST_BITVECTOR (BitVector_unsigned G 1 1)
        in Inr (App EQUAL [most_significant_bit, one]))\<rparr>"

definition UltSelf :: rule where
  "UltSelf =
     \<lparr>applies = (\<lambda>node. hasKind BITVECTOR_ULT node \<and> children node ! 1 = children node ! 0),
      apply_rule = (\<lambda>node. Inr (CONST_BOOLEAN False))\<rparr>"

definition UleZero :: "gmp \<Rightarrow> rule" where
  "UleZero G =
     \<lparr>applies = (\<lambda>node. hasKind BITVECTOR_ULE node \<and>
        children node ! 1 = CONST_BITVECTOR (BitVector G (getSize (children node ! 0)) 0)),
      apply_rule = (\<lambda>node. Inr (App EQUAL [children node ! 0, children node ! 1]))\<rparr>"

definition UleSelf :: rule where
  "UleSelf =
     \<lparr>applies = (\<lambda>node. hasKind BITVECTOR_ULE node \<and> children node ! 1 = children node ! 0),
      apply_rule = (\<lambda>node. Inr (CONST_BOOLEAN True))\<rparr>"

definition ZeroUle :: "gmp \<Rightarrow> rule" where
  "ZeroUle G =
     \<lparr>applies = (\<lambda>node. hasKind BITVECTOR_ULE node \<and>
        children node ! 0 = CONST_BITVECTOR (BitVector G (getSize (children node ! 0)) 0)),
      apply_rule = (\<lambda>node. Inr (CONST_BOOLEAN True))\<rparr>"

definition UleMax :: "gmp \<Rightarrow> rule" where
  "UleMax G =
     \<lparr>applies = (\<lambda>node.
        if \<not> hasKind BITVECTOR_ULE node then False
        else
          let sz = getSize (children node ! 0);
              ones = Integer_multiplyByPow2 G 1 sz - 1
          in children node ! 1 = CONST_BITVECTOR (BitVector G sz ones)),
      apply_rule = (\<lambda>node. Inr (CONST_BOOLEAN True))\<rparr>"

definition NotUlt :: rule where
  "NotUlt =
     \<lparr>applies = (\<lambda>node. hasKind NOT node \<and> hasKind BITVECTOR_ULT (children node ! 0)),
      apply_rule = (\<lambda>node.
        let ult = children node ! 0; a = children ult ! 0; b = children ult ! 1
        in Inr (App BITVECTOR_ULE [b, a]))\<rparr>"

definition NotUle :: rule where
  "NotUle =
     \<lparr>applies = (\<lambda>node. hasKind NOT node \<and> hasKind BITVECTOR_ULE (children node ! 0)),
      apply_rule = (\<lambda>node.
        let ult = children node ! 0; a = children ult ! 0; b = children ult ! 1
        in Inr (App BITVECTOR_ULT [b, a]))\<rparr>"

definition UltPlusOne :: "gmp \<Rightarrow> rule" where
  "UltPlusOne G =
     \<lparr>applies = (\<lambda>node.
        if \<not> hasKind BITVECTOR_ULT node then False
        else
          let y1 = children node ! 1
          in if \<not> hasKind BITVECTOR_PLUS y1 then False
             else if \<not> isConstBV (children y1 ! 0) \<and> \<not> isConstBV (children y1 ! 1) then False
             else if isConstBV (children y1 ! 0) \<and> isConstBV (children y1 ! 1) then False
             else if length (children y1) \<noteq> 2 then False
             else
               let one = (if isConstBV (children y1 ! 0) then children y1 ! 0 else children y1 ! 1)
               in if one \<noteq> mkConst G (getSize one) 1 then False else True),
      apply_rule = (\<lambda>node.
        let x = children node ! 0;
            y1 = children node ! 1;
            y = (if \<not> isConstBV (children y1 ! 0) then children y1 ! 0 else children y1 ! 1);
            sz = getSize x;
            not_y_eq_1 = App NOT [App EQUAL [y, mkOnes G sz]];
            not_y_lt_x = App NOT [App BITVECTOR_ULT [y, x]]
        in Inr (App AND [not_y_eq_1, not_y_lt_x]))\<rparr>"

subsection \<open>Arithmetic\<close>

definition MultPow2 :: "gmp \<Rightarrow> rule" where
  "MultPow2 G =
     \<lparr>applies = (\<lambda>node.
        if \<not> hasKind BITVECTOR_MULT node then False
        else list_ex (\<lambda>c. isPow2Const G c \<noteq> 0) (children node)),
      apply_rule = (\<lambda>node.
        let cs = filter (\<lambda>c. isPow2Const G c = 0) (children node);
            exponent = foldl (\<lambda>e c. if isPow2Const G c \<noteq> 0 then u32 (e + u32_sub (isPow2Const G c) 1) else e) 0 (children node);
            a = mkNode BITVECTOR_MULT cs;
            extract = mkExtract a (u32_sub (u32_sub (getSize node) exponent) 1) 0;
            zeros = mkConst G exponent 0
        in Inr (mkConcat2 extract zeros))\<rparr>"

definition leading_zeroes :: "gmp \<Rightarrow> node \<Rightarrow> nat" where
  "leading_zeroes G c =
     (let i = d_value (getConst c);
          sz = getSize c
      in if Integer_isZero i then sz else u32 (sz - Integer_length G i))"

definition ExtractMultLeadingBit :: "gmp \<Rightarrow> rule" where
  "ExtractMultLeadingBit G =
     \<lparr>applies = (\<lambda>node.
        if \<not> isExtract node then False
        else
          let low = getExtractLow node;
              node = children node ! 0
          in if \<not> hasKind BITVECTOR_MULT node \<or> length (children node) \<noteq> 2 \<or> getSize node \<le> 64 then False
             else if \<not> hasKind BITVECTOR_CONCAT (children node ! 0) \<or> \<not> hasKind BITVECTOR_CONCAT (children node ! 1) \<or>
               \<not> isConst (children (children node ! 0) ! 0) \<or> \<not> isConst (children (children node ! 1) ! 0) then False
             else
               let n = getSize node;
                   zeroes1 = leading_zeroes G (children (children node ! 0) ! 0);
                   zeroes2 = leading_zeroes G (children (children node ! 1) ! 0);
                   k = u32_sub (u32 (2 * n)) (u32 (zeroes1 + zeroes2))
               in if k > low then False else True),
      apply_rule = (\<lambda>node. let bitwidth = getSize node in Inr (mkConst G bitwidth 0))\<rparr>"

definition NegIdemp :: rule where
  "NegIdemp =
     \<lparr>applies = (\<lambda>node. hasKind BITVECTOR_NEG node \<and> hasKind BITVECTOR_NEG (children node ! 0)),
      apply_rule = (\<lambda>node. Inr (children (children node ! 0) ! 0))\<rparr>"

definition UdivPow2 :: "gmp \<Rightarrow> rule" where
  "UdivPow2 G =
     \<lparr>applies = (\<lambda>node. hasKind BITVECTOR_UDIV_TOTAL node \<and> isPow2Const G (children node ! 1) \<noteq> 0),
      apply_rule = (\<lambda>node.
        let a = children node ! 0;
            power = u32_sub (isPow2Const G (children node ! 1)) 1
        in if power = 0 then Inr a
           else
             let extract = mkExtract a (u32_sub (getSize node) 1) power;
                 zeros = mkConst G power 0
             in Inr (App BITVECTOR_CONCAT [zeros, extract]))\<rparr>"

definition UdivOne :: "gmp \<Rightarrow> rule" where
  "UdivOne G =
     \<lparr>applies = (\<lambda>node. hasKind BITVECTOR_UDIV_TOTAL node \<and> children node ! 1 = mkConst G (getSize node) 1),
      apply_rule = (\<lambda>node. Inr (children node ! 0))\<rparr>"

definition UdivSelf :: "gmp \<Rightarrow> rule" where
  "UdivSelf G =
     \<lparr>applies = (\<lambda>node. hasKind BITVECTOR_UDIV_TOTAL node \<and> children node ! 0 = children node ! 1),
      apply_rule = (\<lambda>node. Inr (mkConst G (getSize node) 1))\<rparr>"

definition UremPow2 :: "gmp \<Rightarrow> rule" where
  "UremPow2 G =
     \<lparr>applies = (\<lambda>node. hasKind BITVECTOR_UREM_TOTAL node \<and> isPow2Const G (children node ! 1) \<noteq> 0),
      apply_rule = (\<lambda>node.
        let a = children node ! 0;
            power = u32_sub (isPow2Const G (children node ! 1)) 1
        in if power = 0 then Inr (mkConst G (getSize node) 0)
           else
             let extract = mkExtract a (u32_sub power 1) 0;
                 zeros = mkConst G (u32_sub (getSize node) power) 0
             in Inr (App BITVECTOR_CONCAT [zeros, extract]))\<rparr>"

definition UremOne :: "gmp \<Rightarrow> rule" where
  "UremOne G =
     \<lparr>applies = (\<lambda>node. hasKind BITVECTOR_UREM_TOTAL node \<and> children node ! 1 = mkConst G (getSize node) 1),
      apply_rule = (\<lambda>node. Inr (mkConst G (getSize node) 0))\<rparr>"

definition UremSelf :: "gmp \<Rightarrow> rule" where
  "UremSelf G =
     \<lparr>applies = (\<lambda>node. hasKind BITVECTOR_UREM_TOTAL node \<and> children node ! 0 = children node ! 1),
      apply_rule = (\<lambda>node. Inr (mkConst G (getSize node) 0))\<rparr>"

definition ShiftZero :: "gmp \<Rightarrow> rule" where
  "ShiftZero G =
     \<lparr>applies = (\<lambda>node. (hasKind BITVECTOR_SHL node \<or> hasKind BITVECTOR_LSHR node \<or> hasKind BITVECTOR_ASHR node) \<and>
        children node ! 0 = mkConst G (getSize node) 0),
      apply_rule = (\<lambda>node. Inr (children node ! 0))\<rparr>"

definition BBPlusNeg :: "gmp \<Rightarrow> rule" where
  "BBPlusNeg G =
     \<lparr>applies = (\<lambda>node.
        if \<not> hasKind BITVECTOR_PLUS node then False
        else length (filter (hasKind BITVECTOR_NEG) (children node)) > 1),
      apply_rule = (\<lambda>node.
        let neg_count = length (filter (hasKind BITVECTOR_NEG) (children node));
            cs = map (\<lambda>c. if hasKind BITVECTOR_NEG c then App BITVECTOR_NOT [children c ! 0] else c) (children node)
        in Inr (mkNode BITVECTOR_PLUS (cs @ [mkConst G (getSize node) neg_count])))\<rparr>"

definition MergeSignExtend :: rule where
  "MergeSignExtend =
     \<lparr>applies = (\<lambda>node.
        if \<not> isSignExtend node \<or> \<not> isSignExtend (children node ! 0) \<and> \<not> isZeroExtend (children node ! 0)
        then False else True),
      apply_rule = (\<lambda>node.
        let ammount1 = opAmount node;
            x = children (children node ! 0) ! 0;
            ammount2 = opAmount (children node ! 0)
        in if isZeroExtend (children node ! 0)
           then if ammount2 = 0 then Inr (App (BITVECTOR_SIGN_EXTEND ammount1) [x])
                else Inr (App (BITVECTOR_ZERO_EXTEND (u32 (ammount1 + ammount2))) [x])
           else Inr (App (BITVECTOR_SIGN_EXTEND (u32 (ammount1 + ammount2))) [x]))\<rparr>"

definition MultSlice :: "gmp \<Rightarrow> rule" where
  "MultSlice G =
     \<lparr>applies = (\<lambda>node.
        if \<not> hasKind BITVECTOR_MULT node \<or> length (children node) \<noteq> 2 then False
        else getSize (children node ! 0) mod 2 = 0),
      apply_rule = (\<lambda>node.
        let bitwidth = getSize (children node ! 0);
            zeros = mkConst G (bitwidth div 2) 0;
            a = children node ! 0;
            bottom_a = mkExtract a (u32_sub (bitwidth div 2) 1) 0;
            top_a = mkExtract a (u32_sub bitwidth 1) (bitwidth div 2);
            b = children node ! 1;
            bottom_b = mkExtract b (u32_sub (bitwidth div 2) 1) 0;
            top_b = mkExtract b (u32_sub bitwidth 1) (bitwidth div 2);
            term1 = App BITVECTOR_MULT [App BITVECTOR_CONCAT [zeros, bottom_a], App BITVECTOR_CONCAT [zeros, bottom_b]];
            term2 = App BITVECTOR_CONCAT [App BITVECTOR_MULT [top_b, bottom_a], zeros];
            term3 = App BITVECTOR_CONCAT [App BITVECTOR_MULT [top_a, bottom_b], zeros]
        in Inr (App BITVECTOR_PLUS [term1, term2, term3]))\<rparr>"

section \<open>Soundness\<close>

subsection \<open>Comparisons\<close>

lemma LtSelf_sound: "rule_sound opt LtSelf"
proof (rule rule_soundI)
  fix n t assume n: "typeOf n = Some t" "applies LtSelf n"
  then obtain k ns where k: "n = App k ns" "k = BITVECTOR_ULT \<or> k = BITVECTOR_SLT" "ns ! 0 = ns ! 1"
    by (auto simp: LtSelf_def hasKind_iff)
  with n(1) binary_children [of k ns t] obtain x y w where xy: "ns = [x, y]" "typeOf x = Some (BITVECTOR_TYPE w)"
    by (metis binary_kinds(18,22))
  have "t = BOOLEAN_TYPE" using n(1) k by (auto simp: typeOf_App_iff type_op_iffs)
  with n(1) have "same_meaning opt (CONST_BOOLEAN False) n"
    using k xy by (intro same_meaning_bool) (auto elim!: typed_bv_value)
  then show "sound_result opt n (apply_rule LtSelf n)" by (simp add: LtSelf_def)
qed

lemma LteSelf_sound: "rule_sound opt LteSelf"
proof (rule rule_soundI)
  fix n t assume n: "typeOf n = Some t" "applies LteSelf n"
  then obtain k ns where k: "n = App k ns" "k = BITVECTOR_ULE \<or> k = BITVECTOR_SLE" "ns ! 0 = ns ! 1"
    by (auto simp: LteSelf_def hasKind_iff)
  with n(1) binary_children [of k ns t] obtain x y w where xy: "ns = [x, y]" "typeOf x = Some (BITVECTOR_TYPE w)"
    by (metis binary_kinds(19,23))
  have "t = BOOLEAN_TYPE" using n(1) k by (auto simp: typeOf_App_iff type_op_iffs)
  with n(1) have "same_meaning opt (CONST_BOOLEAN True) n"
    using k xy by (intro same_meaning_bool) (auto elim!: typed_bv_value)
  then show "sound_result opt n (apply_rule LteSelf n)" by (simp add: LteSelf_def)
qed

lemma UltSelf_sound: "rule_sound opt UltSelf"
  by (rule binary_rule [of BITVECTOR_ULT]) (auto simp: UltSelf_def typing_simps)

lemma UleSelf_sound: "rule_sound opt UleSelf"
  by (rule binary_rule [of BITVECTOR_ULE]) (auto simp: UleSelf_def typing_simps)

lemma NotUlt_sound: "rule_sound opt NotUlt"
proof (rule rule_soundI)
  fix n t assume n: "typeOf n = Some t" "applies NotUlt n"
  then obtain ns ms where k: "n = App NOT ns" "ns ! 0 = App BITVECTOR_ULT ms" by (auto simp: NotUlt_def hasKind_iff)
  with n(1) have ns: "ns = [App BITVECTOR_ULT ms]" "typeOf (App BITVECTOR_ULT ms) = Some BOOLEAN_TYPE" "t = BOOLEAN_TYPE"
    by (auto simp: typeOf_App_iff type_op_iffs list_all2_Cons2 length_Suc_conv list_all2_conv_all_nth)
  from binary_children [OF ns(2)] obtain x y w where xy: "ms = [x, y]" "typeOf x = Some (BITVECTOR_TYPE w)"
    "typeOf y = Some (BITVECTOR_TYPE w)" "valid_width w" by (metis binary_kinds(18))
  have "same_meaning opt (App BITVECTOR_ULE [y, x]) n"
    using n(1) xy by (intro same_meaningI) (auto simp: k(1) ns typing_simps elim!: typed_bv_value [of x] typed_bv_value [of y])
  then show "sound_result opt n (apply_rule NotUlt n)" by (simp add: NotUlt_def k ns xy)
qed

lemma NotUle_sound: "rule_sound opt NotUle"
proof (rule rule_soundI)
  fix n t assume n: "typeOf n = Some t" "applies NotUle n"
  then obtain ns ms where k: "n = App NOT ns" "ns ! 0 = App BITVECTOR_ULE ms" by (auto simp: NotUle_def hasKind_iff)
  with n(1) have ns: "ns = [App BITVECTOR_ULE ms]" "typeOf (App BITVECTOR_ULE ms) = Some BOOLEAN_TYPE" "t = BOOLEAN_TYPE"
    by (auto simp: typeOf_App_iff type_op_iffs list_all2_Cons2 length_Suc_conv list_all2_conv_all_nth)
  from binary_children [OF ns(2)] obtain x y w where xy: "ms = [x, y]" "typeOf x = Some (BITVECTOR_TYPE w)"
    "typeOf y = Some (BITVECTOR_TYPE w)" "valid_width w" by (metis binary_kinds(19))
  have "same_meaning opt (App BITVECTOR_ULT [y, x]) n"
    using n(1) xy by (intro same_meaningI) (auto simp: k(1) ns typing_simps elim!: typed_bv_value [of x] typed_bv_value [of y])
  then show "sound_result opt n (apply_rule NotUle n)" by (simp add: NotUle_def k ns xy)
qed

context gmp_documented
begin

lemma ZeroUlt_sound: "rule_sound opt (ZeroUlt G)"
  by (rule binary_rule [of BITVECTOR_ULT]) (auto simp: ZeroUlt_def typing_simps in_width_def)

lemma UltZero_sound: "rule_sound opt (UltZero G)"
  by (rule binary_rule [of BITVECTOR_ULT]) (auto simp: UltZero_def typing_simps in_width_def)

lemma UltOne_sound: "rule_sound opt (UltOne G)"
  by (rule binary_rule [of BITVECTOR_ULT])
    (auto simp: UltOne_def typing_simps in_width_def BitVector_unsigned_def BitVector_def bv_wf_def)

lemma UleZero_sound: "rule_sound opt (UleZero G)"
  by (rule binary_rule [of BITVECTOR_ULE]) (auto simp: UleZero_def typing_simps in_width_def)

lemma ZeroUle_sound: "rule_sound opt (ZeroUle G)"
  by (rule binary_rule [of BITVECTOR_ULE]) (auto simp: ZeroUle_def typing_simps in_width_def)

lemma UleMax_sound: "rule_sound opt (UleMax G)"
  by (rule binary_rule [of BITVECTOR_ULE])
    (auto simp: UleMax_def typing_simps in_width_def zmod_minus1 split: if_splits)

lemma SltZero_sound: "rule_sound opt (SltZero G)"
proof (rule binary_rule [of BITVECTOR_SLT])
  fix x y w t
  assume x: "typeOf x = Some (BITVECTOR_TYPE w)" and y: "typeOf y = Some (BITVECTOR_TYPE w)" and w: "valid_width w"
    and t: "typeOf (App BITVECTOR_SLT [x, y]) = Some t" and a: "applies (SltZero G) (App BITVECTOR_SLT [x, y])"
  have y0: "y = CONST_BITVECTOR (BitVector G w 0)" using a x by (simp add: SltZero_def)
  have w': "0 < w" "w < 2 ^ 32" using w by (auto simp: valid_width_def)
  have neg: "sval w a < 0 \<longleftrightarrow> msb w a" if "in_width w a" for a
    using that by (auto simp: sval_def msb_def in_width_def)
  have s0: "sval w 0 = 0" by (simp add: sval_def)
  show "\<exists>m. apply_rule (SltZero G) (App BITVECTOR_SLT [x, y]) = Inr m \<and> typeOf m = Some t \<and>
      (\<forall>I a b. wf_interp I \<longrightarrow> zero_division opt I \<longrightarrow> eval I x = VBV w a \<longrightarrow> eval I y = VBV w b \<longrightarrow>
        in_width w a \<longrightarrow> in_width w b \<longrightarrow> eval I m = eval I (App BITVECTOR_SLT [x, y]))"
    using x t w' extract_msb [OF _ w'(1)] neg s0
    by (auto simp: SltZero_def y0 typing_simps Let_def BitVector_unsigned_def bv_wf_def)
qed (auto simp: SltZero_def)

lemma ult_plus_one:
  assumes "in_width w a" "in_width w b"
  shows "a < (b + 1) mod 2 ^ w \<longleftrightarrow> b \<noteq> 2 ^ w - 1 \<and> \<not> b < a"
proof (cases "b = 2 ^ w - 1")
  case False
  with assms have "0 \<le> b + 1" "b + 1 < 2 ^ w" by (auto simp: in_width_def)
  with False show ?thesis by auto
qed (use assms in \<open>auto simp: in_width_def\<close>)

lemma UltPlusOne_sound: "rule_sound opt (UltPlusOne G)"
proof (rule binary_rule [of BITVECTOR_ULT])
  fix x z w t
  assume x: "typeOf x = Some (BITVECTOR_TYPE w)" and z: "typeOf z = Some (BITVECTOR_TYPE w)" and w: "valid_width w"
    and t: "typeOf (App BITVECTOR_ULT [x, z]) = Some t" and ap: "applies (UltPlusOne G) (App BITVECTOR_ULT [x, z])"
  from ap obtain p q where pq: "z = App BITVECTOR_PLUS [p, q]" "isConstBV p \<noteq> isConstBV q"
      "(if isConstBV p then p else q) = mkConst G (getSize (if isConstBV p then p else q)) 1"
    by (cases z) (auto simp: UltPlusOne_def hasKind_def Let_def length_Suc_conv numeral_2_eq_2 split: if_splits)
  let ?y = "if isConstBV p then q else p"
  have ty: "typeOf p = Some (BITVECTOR_TYPE w)" "typeOf q = Some (BITVECTOR_TYPE w)"
    using z by (auto simp: pq(1) typing_simps)
  have one: "(if isConstBV p then p else q) = mkConst G w 1" using pq(2,3) ty by (auto split: if_splits)
  have t': "t = BOOLEAN_TYPE" using t by (auto simp: typing_simps)
  have r: "apply_rule (UltPlusOne G) (App BITVECTOR_ULT [x, z]) =
      Inr (App AND [App NOT [App EQUAL [?y, mkOnes G w]], App NOT [App BITVECTOR_ULT [?y, x]]])"
    using x pq by (simp add: UltPlusOne_def Let_def)
  have ev: "eval I (App AND [App NOT [App EQUAL [?y, mkOnes G w]], App NOT [App BITVECTOR_ULT [?y, x]]]) =
      eval I (App BITVECTOR_ULT [x, z])" if I: "wf_interp I" "eval I x = VBV w a" "in_width w a" for I a
  proof -
    have "typeOf ?y = Some (BITVECTOR_TYPE w)" using ty by simp
    then obtain b where b: "eval I ?y = VBV w b" "in_width w b" using typed_bv_value [OF _ I(1)] by metis
    have "eval I z = VBV w ((b + 1) mod 2 ^ w)"
      using one b pq(2) by (auto simp: pq(1) bvadd_def mod_simps add.commute split: if_splits)
    with b I w ult_plus_one [OF I(3) b(2)] show ?thesis by (auto simp: mod_simps)
  qed
  have "typeOf (App AND [App NOT [App EQUAL [?y, mkOnes G w]], App NOT [App BITVECTOR_ULT [?y, x]]]) = Some t"
    using ty x w by (auto simp: typing_simps t')
  then show "\<exists>m. apply_rule (UltPlusOne G) (App BITVECTOR_ULT [x, z]) = Inr m \<and> typeOf m = Some t \<and>
      (\<forall>I a b. wf_interp I \<longrightarrow> zero_division opt I \<longrightarrow> eval I x = VBV w a \<longrightarrow> eval I z = VBV w b \<longrightarrow>
        in_width w a \<longrightarrow> in_width w b \<longrightarrow> eval I m = eval I (App BITVECTOR_ULT [x, z]))"
    using r ev by blast
qed (auto simp: UltPlusOne_def split: if_splits)

end

subsection \<open>Bitwise operations\<close>

lemma nested_unary_rule:
  assumes k: "k = BITVECTOR_NOT \<or> k = BITVECTOR_NEG" and ap: "applies R = (\<lambda>n. hasKind k n \<and> hasKind k (children n ! 0))"
    and r: "\<And>x. apply_rule R (App k [App k [x]]) = Inr x"
    and inv: "\<And>I x w a. eval I x = VBV w a \<Longrightarrow> in_width w a \<Longrightarrow> eval I (App k [App k [x]]) = VBV w a"
  shows "rule_sound opt R"
proof (rule rule_soundI)
  fix n t assume n: "typeOf n = Some t" "applies R n"
  have uk: "unary_kind k" using k by auto
  from n ap obtain ns where ns: "n = App k ns" by (auto simp: hasKind_iff)
  with n(1) uk obtain y w where y: "ns = [y]" "typeOf y = Some (BITVECTOR_TYPE w)" by (metis unary_children)
  with n(2) ap ns obtain ms where ms: "y = App k ms" by (auto simp: hasKind_iff)
  with y(2) uk obtain x v where x: "ms = [x]" "typeOf x = Some (BITVECTOR_TYPE v)" by (metis unary_children)
  have "v = w" "t = BITVECTOR_TYPE w" using y(2) n(1) k x by (auto simp: ns y(1) ms typing_simps)
  with n(1) x(2) have "same_meaning opt x n"
    by (intro same_meaningI) (auto simp: ns y(1) ms x(1) inv simp del: eval.simps elim!: typed_bv_value [of x])
  then show "sound_result opt n (apply_rule R n)" by (simp add: ns y(1) ms x(1) r)
qed

lemma NotIdemp_sound: "rule_sound opt NotIdemp"
  by (rule nested_unary_rule [of BITVECTOR_NOT]) (auto simp: NotIdemp_def bvnot_def)

lemma NegIdemp_sound: "rule_sound opt NegIdemp"
  by (rule nested_unary_rule [of BITVECTOR_NEG]) (auto simp: NegIdemp_def bvneg_def mod_simps)

end
