(* ===== verification/Rules_Constant_Evaluation.thy ===== *)
theory Rules_Constant_Evaluation
  imports BV_Rewrite_Rules
begin

text \<open>
  The rules that evaluate operations on constants
  (\<open>src/src/theory/bv/theory_bv_rewrite_rules_constant_evaluation.h\<close>), with the operations of
  class \<open>BitVector\<close>. Each is proved sound; \<open>EvalUdiv\<close> and \<open>EvalUrem\<close> on the partial kinds are
  so for a divisor other than zero only, which is how the rewriter calls them.
  \<open>EvalAnd\<close>, \<open>EvalOr\<close> and \<open>EvalXor\<close>, whose bodies begin with \<open>Unreachable()\<close>, are left out.
\<close>

section \<open>Rules\<close>

definition EvalNot :: "gmp \<Rightarrow> rule" where
  "EvalNot G =
     \<lparr>applies = (\<lambda>node. hasKind BITVECTOR_NOT node \<and> isBVGroundTerm node),
      apply_rule = (\<lambda>node.
        let a = getConst (children node ! 0)
        in Inr (CONST_BITVECTOR (BitVector_not G a)))\<rparr>"

fun eval_fold :: "(bitvector \<Rightarrow> bitvector \<Rightarrow> bitvector exc) \<Rightarrow> bitvector \<Rightarrow> node list \<Rightarrow> bitvector exc" where
  "eval_fold f res [] = Inr res"
| "eval_fold f res (c # cs) = ebind (f res (getConst c)) (\<lambda>res. eval_fold f res cs)"

definition EvalMult :: "gmp \<Rightarrow> rule" where
  "EvalMult G =
     \<lparr>applies = (\<lambda>node. hasKind BITVECTOR_MULT node \<and> isBVGroundTerm node),
      apply_rule = (\<lambda>node.
        ebind (eval_fold (BitVector_mult G) (getConst (children node ! 0)) (tl (children node))) (\<lambda>res.
        Inr (CONST_BITVECTOR res)))\<rparr>"

definition EvalPlus :: "gmp \<Rightarrow> rule" where
  "EvalPlus G =
     \<lparr>applies = (\<lambda>node. hasKind BITVECTOR_PLUS node \<and> isBVGroundTerm node),
      apply_rule = (\<lambda>node.
        ebind (eval_fold (BitVector_plus G) (getConst (children node ! 0)) (tl (children node))) (\<lambda>res.
        Inr (CONST_BITVECTOR res)))\<rparr>"

definition EvalNeg :: "gmp \<Rightarrow> rule" where
  "EvalNeg G =
     \<lparr>applies = (\<lambda>node. hasKind BITVECTOR_NEG node \<and> isBVGroundTerm node),
      apply_rule = (\<lambda>node.
        let a = getConst (children node ! 0)
        in ebind (BitVector_neg G a) (\<lambda>res. Inr (CONST_BITVECTOR res)))\<rparr>"

text \<open>The binary operations share their shape: read the two constants, compute, build the constant.\<close>

definition eval_binary :: "(bitvector \<Rightarrow> bitvector \<Rightarrow> bitvector exc) \<Rightarrow> node \<Rightarrow> node exc" where
  "eval_binary f node =
     (let a = getConst (children node ! 0);
          b = getConst (children node ! 1)
      in ebind (f a b) (\<lambda>res. Inr (CONST_BITVECTOR res)))"

definition EvalUdiv :: "gmp \<Rightarrow> rule" where
  "EvalUdiv G =
     \<lparr>applies = (\<lambda>node. isBVGroundTerm node \<and>
        (hasKind BITVECTOR_UDIV_TOTAL node \<or> hasKind BITVECTOR_UDIV node \<and> isConst (children node ! 1))),
      apply_rule = eval_binary (BitVector_unsignedDivTotal G)\<rparr>"

definition EvalUrem :: "gmp \<Rightarrow> rule" where
  "EvalUrem G =
     \<lparr>applies = (\<lambda>node. isBVGroundTerm node \<and>
        (hasKind BITVECTOR_UREM_TOTAL node \<or> hasKind BITVECTOR_UREM node \<and> isConst (children node ! 1))),
      apply_rule = eval_binary (BitVector_unsignedRemTotal G)\<rparr>"

definition EvalShl :: "gmp \<Rightarrow> rule" where
  "EvalShl G =
     \<lparr>applies = (\<lambda>node. hasKind BITVECTOR_SHL node \<and> isBVGroundTerm node),
      apply_rule = eval_binary (BitVector_leftShift G)\<rparr>"

definition EvalLshr :: "gmp \<Rightarrow> rule" where
  "EvalLshr G =
     \<lparr>applies = (\<lambda>node. hasKind BITVECTOR_LSHR node \<and> isBVGroundTerm node),
      apply_rule = eval_binary (BitVector_logicalRightShift G)\<rparr>"

definition EvalAshr :: "gmp \<Rightarrow> rule" where
  "EvalAshr G =
     \<lparr>applies = (\<lambda>node. hasKind BITVECTOR_ASHR node \<and> isBVGroundTerm node),
      apply_rule = eval_binary (BitVector_arithRightShift G)\<rparr>"

definition eval_predicate :: "(bitvector \<Rightarrow> bitvector \<Rightarrow> bool exc) \<Rightarrow> node \<Rightarrow> node \<Rightarrow> node \<Rightarrow> node exc" where
  "eval_predicate p yes no node =
     (let a = getConst (children node ! 0);
          b = getConst (children node ! 1)
      in ebind (p a b) (\<lambda>r. if r then Inr yes else Inr no))"

definition EvalUlt :: "gmp \<Rightarrow> rule" where
  "EvalUlt G =
     \<lparr>applies = (\<lambda>node. hasKind BITVECTOR_ULT node \<and> isBVGroundTerm node),
      apply_rule = eval_predicate BitVector_unsignedLessThan (CONST_BOOLEAN True) (CONST_BOOLEAN False)\<rparr>"

definition EvalUltBv :: "gmp \<Rightarrow> rule" where
  "EvalUltBv G =
     \<lparr>applies = (\<lambda>node. hasKind BITVECTOR_ULTBV node \<and> isBVGroundTerm node),
      apply_rule = eval_predicate BitVector_unsignedLessThan (mkConst G 1 1) (mkConst G 1 0)\<rparr>"

definition EvalSlt :: "gmp \<Rightarrow> rule" where
  "EvalSlt G =
     \<lparr>applies = (\<lambda>node. hasKind BITVECTOR_SLT node \<and> isBVGroundTerm node),
      apply_rule = eval_predicate (BitVector_signedLessThan G) (CONST_BOOLEAN True) (CONST_BOOLEAN False)\<rparr>"

definition EvalSltBv :: "gmp \<Rightarrow> rule" where
  "EvalSltBv G =
     \<lparr>applies = (\<lambda>node. hasKind BITVECTOR_SLTBV node \<and> isBVGroundTerm node),
      apply_rule = eval_predicate (BitVector_signedLessThan G) (mkConst G 1 1) (mkConst G 1 0)\<rparr>"

definition EvalITEBv :: "gmp \<Rightarrow> rule" where
  "EvalITEBv G =
     \<lparr>applies = (\<lambda>node. hasKind BITVECTOR_ITE node \<and> isBVGroundTerm node),
      apply_rule = (\<lambda>node.
        if children node ! 0 = mkConst G 1 1 then Inr (children node ! 1) else Inr (children node ! 2))\<rparr>"

definition EvalUle :: "gmp \<Rightarrow> rule" where
  "EvalUle G =
     \<lparr>applies = (\<lambda>node. hasKind BITVECTOR_ULE node \<and> isBVGroundTerm node),
      apply_rule = eval_predicate BitVector_unsignedLessThanEq (CONST_BOOLEAN True) (CONST_BOOLEAN False)\<rparr>"

definition EvalSle :: "gmp \<Rightarrow> rule" where
  "EvalSle G =
     \<lparr>applies = (\<lambda>node. hasKind BITVECTOR_SLE node \<and> isBVGroundTerm node),
      apply_rule = eval_predicate (BitVector_signedLessThanEq G) (CONST_BOOLEAN True) (CONST_BOOLEAN False)\<rparr>"

definition EvalExtract :: "gmp \<Rightarrow> rule" where
  "EvalExtract G =
     \<lparr>applies = (\<lambda>node. isExtract node \<and> isBVGroundTerm node),
      apply_rule = (\<lambda>node.
        let a = getConst (children node ! 0);
            lo = getExtractLow node;
            hi = getExtractHigh node
        in Inr (CONST_BITVECTOR (BitVector_extract G a hi lo)))\<rparr>"

definition EvalConcat :: "gmp \<Rightarrow> rule" where
  "EvalConcat G =
     \<lparr>applies = (\<lambda>node. hasKind BITVECTOR_CONCAT node \<and> isBVGroundTerm node),
      apply_rule = (\<lambda>node.
        ebind (eval_fold (\<lambda>a b. Inr (BitVector_concat G a b)) (getConst (children node ! 0)) (tl (children node)))
          (\<lambda>res. Inr (CONST_BITVECTOR res)))\<rparr>"

definition EvalSignExtend :: "gmp \<Rightarrow> rule" where
  "EvalSignExtend G =
     \<lparr>applies = (\<lambda>node. isSignExtend node \<and> isBVGroundTerm node),
      apply_rule = (\<lambda>node.
        let a = getConst (children node ! 0);
            amount = opAmount node
        in Inr (CONST_BITVECTOR (BitVector_signExtend G a amount)))\<rparr>"

definition EvalEquals :: "gmp \<Rightarrow> rule" where
  "EvalEquals G =
     \<lparr>applies = (\<lambda>node. hasKind EQUAL node \<and> isBVGroundTerm node),
      apply_rule = eval_predicate (\<lambda>a b. Inr (BitVector_eq a b)) (CONST_BOOLEAN True) (CONST_BOOLEAN False)\<rparr>"

definition EvalComp :: "gmp \<Rightarrow> rule" where
  "EvalComp G =
     \<lparr>applies = (\<lambda>node. hasKind BITVECTOR_COMP node \<and> isBVGroundTerm node),
      apply_rule = eval_predicate (\<lambda>a b. Inr (BitVector_eq a b)) (mkConst G 1 1) (mkConst G 1 0)\<rparr>"

section \<open>Soundness\<close>

lemma ground_unary_rule:
  assumes "unary_kind k" and "\<And>n. applies R n \<longleftrightarrow> hasKind k n \<and> isBVGroundTerm n"
    and "\<And>a t. bv_wf a \<Longrightarrow> typeOf (App k [CONST_BITVECTOR a]) = Some t \<Longrightarrow> 0 < d_size a \<Longrightarrow>
      sound_result opt (App k [CONST_BITVECTOR a]) (apply_rule R (App k [CONST_BITVECTOR a]))"
  shows "rule_sound opt R"
proof (rule rule_soundI)
  fix n t assume n: "typeOf n = Some t" "applies R n"
  with assms(2) obtain ns where "n = App k ns" "isBVGroundTerm (App k ns)" by (auto simp: hasKind_iff)
  with n ground_unary [of k ns t] assms show "sound_result opt n (apply_rule R n)" by metis
qed

lemma ground_binary_rule:
  assumes "binary_kind k" and "\<And>n. applies R n \<longleftrightarrow> hasKind k n \<and> isBVGroundTerm n"
    and "\<And>a b t. bv_wf a \<Longrightarrow> bv_wf b \<Longrightarrow> d_size b = d_size a \<Longrightarrow> 0 < d_size a \<Longrightarrow>
      typeOf (App k [CONST_BITVECTOR a, CONST_BITVECTOR b]) = Some t \<Longrightarrow>
      sound_result opt (App k [CONST_BITVECTOR a, CONST_BITVECTOR b])
        (apply_rule R (App k [CONST_BITVECTOR a, CONST_BITVECTOR b]))"
  shows "rule_sound opt R"
proof (rule rule_soundI)
  fix n t assume n: "typeOf n = Some t" "applies R n"
  with assms(2) obtain ns where "n = App k ns" "isBVGroundTerm (App k ns)" by (auto simp: hasKind_iff)
  with n ground_binary [of k ns t] assms show "sound_result opt n (apply_rule R n)" by metis
qed

context gmp_documented
begin

lemma EvalNot_sound: "rule_sound opt (EvalNot G)"
  by (rule ground_unary_rule [of BITVECTOR_NOT])
    (auto simp: EvalNot_def not_refines bv_wfD typeOf_short type_op_iffs intro!: same_meaning_const)

lemma EvalNeg_sound: "rule_sound opt (EvalNeg G)"
  by (rule ground_unary_rule [of BITVECTOR_NEG])
    (auto simp: EvalNeg_def neg_refines bv_wfD typeOf_short type_op_iffs intro!: same_meaning_const)

lemmas eval_binary_simps = eval_binary_def eval_predicate_def Let_def bv_wfD typeOf_short type_op_iffs bvlshr_def in_width_division

lemma EvalShl_sound: "rule_sound opt (EvalShl G)"
  by (rule ground_binary_rule [of BITVECTOR_SHL])
    (auto simp: EvalShl_def leftShift_refines eval_binary_simps intro!: same_meaning_const)

lemma EvalLshr_sound: "rule_sound opt (EvalLshr G)"
  by (rule ground_binary_rule [of BITVECTOR_LSHR])
    (auto simp: EvalLshr_def logicalRightShift_refines eval_binary_simps intro!: same_meaning_const)

lemma EvalAshr_sound: "rule_sound opt (EvalAshr G)"
  by (rule ground_binary_rule [of BITVECTOR_ASHR])
    (auto simp: EvalAshr_def arithRightShift_refines eval_binary_simps intro!: same_meaning_const)

lemma EvalUlt_sound: "rule_sound opt (EvalUlt G)"
  by (rule ground_binary_rule [of BITVECTOR_ULT])
    (auto simp: EvalUlt_def compare_refines eval_binary_simps intro!: same_meaning_bool same_meaning_mkConst)

lemma EvalUle_sound: "rule_sound opt (EvalUle G)"
  by (rule ground_binary_rule [of BITVECTOR_ULE])
    (auto simp: EvalUle_def compare_refines eval_binary_simps intro!: same_meaning_bool same_meaning_mkConst)

lemma EvalSlt_sound: "rule_sound opt (EvalSlt G)"
  by (rule ground_binary_rule [of BITVECTOR_SLT])
    (auto simp: EvalSlt_def compare_refines eval_binary_simps intro!: same_meaning_bool same_meaning_mkConst)

lemma EvalSle_sound: "rule_sound opt (EvalSle G)"
  by (rule ground_binary_rule [of BITVECTOR_SLE])
    (auto simp: EvalSle_def compare_refines eval_binary_simps intro!: same_meaning_bool same_meaning_mkConst)

lemma EvalUltBv_sound: "rule_sound opt (EvalUltBv G)"
  by (rule ground_binary_rule [of BITVECTOR_ULTBV])
    (auto simp: EvalUltBv_def compare_refines eval_binary_simps intro!: same_meaning_bool same_meaning_mkConst)

lemma EvalSltBv_sound: "rule_sound opt (EvalSltBv G)"
  by (rule ground_binary_rule [of BITVECTOR_SLTBV])
    (auto simp: EvalSltBv_def compare_refines eval_binary_simps intro!: same_meaning_bool same_meaning_mkConst)

lemma EvalComp_sound: "rule_sound opt (EvalComp G)"
  by (rule ground_binary_rule [of BITVECTOR_COMP])
    (auto simp: EvalComp_def eval_binary_simps intro!: same_meaning_bool same_meaning_mkConst)

text \<open>On the partial kinds the rule computes the total operation, which agrees where the divisor is
  not zero, or where division by zero is fixed by the option.\<close>

lemma EvalUdiv_sound:
  assumes n: "typeOf n = Some t" "applies (EvalUdiv G) n"
    and nz: "hasKind BITVECTOR_UDIV n \<Longrightarrow> opt \<or> d_value (getConst (children n ! 1)) \<noteq> 0"
  shows "sound_result opt n (apply_rule (EvalUdiv G) n)"
proof -
  from n(2) obtain k ns where k: "n = App k ns" "k = BITVECTOR_UDIV_TOTAL \<or> k = BITVECTOR_UDIV" "isBVGroundTerm (App k ns)"
    by (auto simp: EvalUdiv_def hasKind_iff)
  with n(1) ground_binary [of k ns t] obtain a b where ab: "ns = [CONST_BITVECTOR a, CONST_BITVECTOR b]"
    "bv_wf a" "bv_wf b" "d_size b = d_size a" "0 < d_size a" by (metis binary_kinds(5,10))
  have "same_meaning opt (CONST_BITVECTOR (BitVector G (d_size a) (bvudiv (d_size a) (d_value a) (d_value b)))) n"
    using n(1) nz k(2) ab
    by (intro same_meaning_const)
      (auto simp: k(1) typeOf_short type_op_iffs bv_wfD in_width_division hasKind_iff udivI_def bvudiv_def zero_division_def)
  then show ?thesis using ab unsignedDivTotal_refines [of a b] by (simp add: EvalUdiv_def eval_binary_def k(1))
qed

lemma EvalUrem_sound:
  assumes n: "typeOf n = Some t" "applies (EvalUrem G) n"
    and nz: "hasKind BITVECTOR_UREM n \<Longrightarrow> opt \<or> d_value (getConst (children n ! 1)) \<noteq> 0"
  shows "sound_result opt n (apply_rule (EvalUrem G) n)"
proof -
  from n(2) obtain k ns where k: "n = App k ns" "k = BITVECTOR_UREM_TOTAL \<or> k = BITVECTOR_UREM" "isBVGroundTerm (App k ns)"
    by (auto simp: EvalUrem_def hasKind_iff)
  with n(1) ground_binary [of k ns t] obtain a b where ab: "ns = [CONST_BITVECTOR a, CONST_BITVECTOR b]"
    "bv_wf a" "bv_wf b" "d_size b = d_size a" "0 < d_size a" by (metis binary_kinds(6,11))
  have "same_meaning opt (CONST_BITVECTOR (BitVector G (d_size a) (bvurem (d_size a) (d_value a) (d_value b)))) n"
    using n(1) nz k(2) ab
    by (intro same_meaning_const)
      (auto simp: k(1) typeOf_short type_op_iffs bv_wfD in_width_division hasKind_iff uremI_def bvurem_def zero_division_def in_width_urem)
  then show ?thesis using ab unsignedRemTotal_refines [of a b] by (simp add: EvalUrem_def eval_binary_def k(1))
qed

lemma eval_fold_refines:
  assumes f: "\<And>x y. bv_wf x \<Longrightarrow> bv_wf y \<Longrightarrow> d_size x = w \<Longrightarrow> d_size y = w \<Longrightarrow>
      f x y = Inr (BitVector G w (g (d_value x) (d_value y)))"
    and g: "\<And>a b. in_width w a \<Longrightarrow> in_width w b \<Longrightarrow> in_width w (g a b)"
  shows "bv_wf c \<Longrightarrow> d_size c = w \<Longrightarrow> \<forall>x\<in>set cs. bv_wf x \<and> d_size x = w \<Longrightarrow>
    eval_fold f c (map CONST_BITVECTOR cs) = Inr (BitVector G w (foldl g (d_value c) (map d_value cs))) \<and>
    in_width w (foldl g (d_value c) (map d_value cs))"
proof (induction cs arbitrary: c)
  case Nil
  then show ?case using BitVector_self [of c] bv_wfD [of c] by auto
next
  case (Cons x cs)
  have xw: "bv_wf x" "d_size x = w" using Cons.prems by auto
  let ?c = "BitVector G w (g (d_value c) (d_value x))"
  have g': "in_width w (g (d_value c) (d_value x))" using g bv_wfD(2) Cons.prems xw by metis
  have "bv_wf ?c" using Cons.prems bv_wfD(1) [of c] by (intro bv_wf_BitVector) simp
  with Cons.IH [of ?c] Cons.prems f [OF Cons.prems(1) xw(1) Cons.prems(2) xw(2)] g' show ?case by simp
qed

lemma EvalPlus_sound: "rule_sound opt (EvalPlus G)"
proof (rule rule_soundI)
  fix n t assume n: "typeOf n = Some t" "applies (EvalPlus G) n"
  then obtain ns where ns: "n = App BITVECTOR_PLUS ns" "isBVGroundTerm (App BITVECTOR_PLUS ns)"
    by (auto simp: EvalPlus_def hasKind_iff)
  with n(1) ground_nary [of BITVECTOR_PLUS ns t] obtain c cs w where c: "ns = map CONST_BITVECTOR (c # cs)"
    "\<forall>x\<in>set (c # cs). bv_wf x \<and> d_size x = w" "t = BITVECTOR_TYPE w" by (metis insertCI)
  have r: "eval_fold (BitVector_plus G) c (map CONST_BITVECTOR cs) =
      Inr (BitVector G w (foldl (bvadd w) (d_value c) (map d_value cs))) \<and>
      in_width w (foldl (bvadd w) (d_value c) (map d_value cs))"
    by (rule eval_fold_refines) (use c(2) in \<open>auto simp: plus_refines\<close>)
  have "same_meaning opt (CONST_BITVECTOR (BitVector G w (foldl (bvadd w) (d_value c) (map d_value cs)))) n"
    using n(1) r c(2,3) by (intro same_meaning_const) (auto simp: ns(1) c(1) comp_def)
  with r show "sound_result opt n (apply_rule (EvalPlus G) n)" by (simp add: EvalPlus_def ns(1) c(1))
qed

lemma EvalMult_sound: "rule_sound opt (EvalMult G)"
proof (rule rule_soundI)
  fix n t assume n: "typeOf n = Some t" "applies (EvalMult G) n"
  then obtain ns where ns: "n = App BITVECTOR_MULT ns" "isBVGroundTerm (App BITVECTOR_MULT ns)"
    by (auto simp: EvalMult_def hasKind_iff)
  with n(1) ground_nary [of BITVECTOR_MULT ns t] obtain c cs w where c: "ns = map CONST_BITVECTOR (c # cs)"
    "\<forall>x\<in>set (c # cs). bv_wf x \<and> d_size x = w" "t = BITVECTOR_TYPE w" by (metis insertCI)
  have r: "eval_fold (BitVector_mult G) c (map CONST_BITVECTOR cs) =
      Inr (BitVector G w (foldl (bvmul w) (d_value c) (map d_value cs))) \<and>
      in_width w (foldl (bvmul w) (d_value c) (map d_value cs))"
    by (rule eval_fold_refines) (use c(2) in \<open>auto simp: mult_refines\<close>)
  have "same_meaning opt (CONST_BITVECTOR (BitVector G w (foldl (bvmul w) (d_value c) (map d_value cs)))) n"
    using n(1) r c(2,3) by (intro same_meaning_const) (auto simp: ns(1) c(1) comp_def)
  with r show "sound_result opt n (apply_rule (EvalMult G) n)" by (simp add: EvalMult_def ns(1) c(1))
qed

lemma EvalExtract_sound: "rule_sound opt (EvalExtract G)"
proof (rule rule_soundI)
  fix n t assume n: "typeOf n = Some t" "applies (EvalExtract G) n"
  then obtain hi lo ns where ns: "n = App (BITVECTOR_EXTRACT hi lo) ns" "isBVGroundTerm n"
    by (auto simp: EvalExtract_def isParam_iff)
  with n(1) ground_unary [of "BITVECTOR_EXTRACT hi lo" ns t] obtain a
    where a: "ns = [CONST_BITVECTOR a]" "bv_wf a" "0 < d_size a" by auto
  from n(1) have h: "lo \<le> hi" "hi < d_size a" "t = BITVECTOR_TYPE (hi - lo + 1)"
    by (auto simp: ns(1) a(1) typeOf_short type_op_iffs)
  have "same_meaning opt (CONST_BITVECTOR (BitVector G (hi - lo + 1) (bvextract hi lo (d_value a)))) n"
    using n(1) h by (intro same_meaning_const) (auto simp: ns(1) a(1))
  then show "sound_result opt n (apply_rule (EvalExtract G) n)"
    using extract_refines [OF a(2) h(1,2)] by (simp add: EvalExtract_def ns(1) a(1))
qed

lemma EvalSignExtend_sound: "rule_sound opt (EvalSignExtend G)"
proof (rule rule_soundI)
  fix n t assume n: "typeOf n = Some t" "applies (EvalSignExtend G) n"
  then obtain m ns where ns: "n = App (BITVECTOR_SIGN_EXTEND m) ns" "isBVGroundTerm n"
    by (auto simp: EvalSignExtend_def isParam_iff)
  with n(1) ground_unary [of "BITVECTOR_SIGN_EXTEND m" ns t] obtain a
    where a: "ns = [CONST_BITVECTOR a]" "bv_wf a" "0 < d_size a" by auto
  from n(1) have h: "d_size a + m < 2 ^ 32" "t = BITVECTOR_TYPE (d_size a + m)"
    by (auto simp: ns(1) a(1) typeOf_short type_op_iffs valid_width_def add.commute)
  have "same_meaning opt (CONST_BITVECTOR (BitVector G (d_size a + m) (bvsign_extend m (d_size a) (d_value a)))) n"
    using n(1) h by (intro same_meaning_const) (auto simp: ns(1) a(1) bvsign_extend_def add.commute)
  then show "sound_result opt n (apply_rule (EvalSignExtend G) n)"
    using signExtend_refines [OF a(2,3) h(1)] by (simp add: EvalSignExtend_def ns(1) a(1))
qed

lemma EvalITEBv_sound: "rule_sound opt (EvalITEBv G)"
proof (rule rule_soundI)
  fix n t assume n: "typeOf n = Some t" "applies (EvalITEBv G) n"
  then obtain ns where ns: "n = App BITVECTOR_ITE ns" "isBVGroundTerm n"
    by (auto simp: EvalITEBv_def hasKind_iff)
  with n(1) obtain c x y where xy: "ns = [c, x, y]" "typeOf c = Some (BITVECTOR_TYPE 1)" "typeOf x = Some t" "typeOf y = Some t"
    by (auto simp: typeOf_App_iff type_op_mixed list_all2_Cons2)
  moreover have "isConst c" using ground_App ns xy(1) by fastforce
  ultimately obtain a where a: "c = CONST_BITVECTOR a" "bv_wf a" "d_size a = 1" by (metis const_of_type)
  then have "c = mkConst G 1 1 \<longleftrightarrow> d_value a = 1" by (auto simp: mkConst_BitVector BitVector_def)
  then show "sound_result opt n (apply_rule (EvalITEBv G) n)"
    using n(1) xy a by (auto simp: EvalITEBv_def ns(1) same_meaning_def)
qed

text \<open>On a partial division by the constant zero, whose value is open when the option is off, the results of the total divisions are not sound.\<close>

lemma EvalUdiv_unsound:
  assumes n: "typeOf n = Some t" "applies (EvalUdiv G) n" "hasKind BITVECTOR_UDIV n" "d_value (getConst (children n ! 1)) = 0"
  shows "\<not> sound_result False n (apply_rule (EvalUdiv G) n)"
proof
  assume sound: "sound_result False n (apply_rule (EvalUdiv G) n)"
  from n(2,3) obtain ns where k: "n = App BITVECTOR_UDIV ns" "isBVGroundTerm (App BITVECTOR_UDIV ns)" by (auto simp: EvalUdiv_def hasKind_iff)
  with n(1) ground_binary [of BITVECTOR_UDIV ns t] obtain a b where ab: "ns = [CONST_BITVECTOR a, CONST_BITVECTOR b]"
    "bv_wf a" "bv_wf b" "d_size b = d_size a" "0 < d_size a" by (metis binary_kinds(5))
  let ?I = "default_interp\<lparr>udiv0 := \<lambda>w x. 0\<rparr>"
  have I: "wf_interp ?I" using wf_interp_default by (simp add: wf_interp_def)
  from sound obtain m where m: "apply_rule (EvalUdiv G) n = Inr m" "same_meaning False m n" by (auto simp: sound_result_def)
  then have "eval J m = eval K m" for J K using ab by (auto simp: EvalUdiv_def eval_binary_def k(1) unsignedDivTotal_refines)
  then have "eval default_interp n = eval ?I n" using m(2) I wf_interp_default by (metis same_meaning_def zero_division_def)
  moreover have "(2::int) ^ d_size a \<noteq> 1" using one_less_power [of "2::int" "d_size a"] ab(5) by linarith
  ultimately show False using ab n(4) by (simp add: k(1) udivI_def default_interp_def)
qed

lemma EvalUrem_unsound:
  assumes n: "typeOf n = Some t" "applies (EvalUrem G) n" "hasKind BITVECTOR_UREM n" "d_value (getConst (children n ! 1)) = 0"
  shows "\<not> sound_result False n (apply_rule (EvalUrem G) n)"
proof
  assume sound: "sound_result False n (apply_rule (EvalUrem G) n)"
  from n(2,3) obtain ns where k: "n = App BITVECTOR_UREM ns" "isBVGroundTerm (App BITVECTOR_UREM ns)" by (auto simp: EvalUrem_def hasKind_iff)
  with n(1) ground_binary [of BITVECTOR_UREM ns t] obtain a b where ab: "ns = [CONST_BITVECTOR a, CONST_BITVECTOR b]"
    "bv_wf a" "bv_wf b" "d_size b = d_size a" "0 < d_size a" by (metis binary_kinds(6))
  let ?I = "\<lambda>c. default_interp\<lparr>urem0 := \<lambda>w x. c mod 2 ^ w\<rparr>"
  have I: "wf_interp (?I c)" for c using wf_interp_default by (simp add: wf_interp_def)
  from sound obtain m where m: "apply_rule (EvalUrem G) n = Inr m" "same_meaning False m n" by (auto simp: sound_result_def)
  then have "eval J m = eval K m" for J K using ab by (auto simp: EvalUrem_def eval_binary_def k(1) unsignedRemTotal_refines)
  then have "eval (?I 0) n = eval (?I 1) n" using m(2) I by (metis same_meaning_def zero_division_def)
  then show False using ab n(4) by (simp add: k(1) uremI_def one_mod_2_pow_eq)
qed

lemma EvalEquals_sound:
  assumes n: "typeOf n = Some t" "applies (EvalEquals G) n" and bv: "typeOf (children n ! 0) = Some (BITVECTOR_TYPE w)"
  shows "sound_result opt n (apply_rule (EvalEquals G) n)"
proof -
  from n(2) obtain ns where ns: "n = App EQUAL ns" "isBVGroundTerm n" by (auto simp: EvalEquals_def hasKind_iff)
  with n(1) bv obtain x y where xy: "ns = [x, y]" "typeOf x = Some (BITVECTOR_TYPE w)" "typeOf y = Some (BITVECTOR_TYPE w)"
    by (auto simp: typeOf_App_iff type_op_mixed list_all2_Cons2)
  moreover have "isConst x" "isConst y" using ground_App ns xy(1) by fastforce+
  ultimately obtain a b where "x = CONST_BITVECTOR a" "bv_wf a" "d_size a = w" "y = CONST_BITVECTOR b" "bv_wf b" "d_size b = w"
    by (metis const_of_type)
  with n(1) show ?thesis
    by (auto simp: EvalEquals_def ns(1) xy(1) eval_predicate_def typeOf_short type_op_mixed intro!: same_meaning_bool)
qed

lemma fold_concat_refines:
  assumes "bv_wf c" and "\<forall>x\<in>set cs. bv_wf x" and "d_size c + sum_list (map d_size cs) < 2 ^ 32"
  shows "bv_wf (foldl (BitVector_concat G) c cs) \<and>
    VBV (d_size (foldl (BitVector_concat G) c cs)) (d_value (foldl (BitVector_concat G) c cs)) =
      v_concat (VBV (d_size c) (d_value c)) (map (\<lambda>x. VBV (d_size x) (d_value x)) cs)"
  using assms
proof (induction cs arbitrary: c)
  case (Cons x cs)
  then have x: "bv_wf x" "d_size c + d_size x < 2 ^ 32" by auto
  let ?v = "bvconcat (d_size x) (d_value c) (d_value x)"
  have v: "in_width (d_size c + d_size x) ?v"
    using bv_wfD(2) Cons.prems(1) x(1) by (intro in_width_bvconcat) blast+
  have r: "BitVector_concat G c x = BitVector G (d_size c + d_size x) ?v"
    using concat_refines [OF Cons.prems(1) x] .
  show ?case
    using Cons.IH [of "BitVector_concat G c x"] Cons.prems x v by (simp add: r)
qed simp

lemma eval_fold_pure: "eval_fold (\<lambda>a b. Inr (f a b)) c (map CONST_BITVECTOR cs) = Inr (foldl f c cs)"
  by (induction cs arbitrary: c) auto

lemma EvalConcat_sound: "rule_sound opt (EvalConcat G)"
proof (rule rule_soundI)
  fix n t assume n: "typeOf n = Some t" "applies (EvalConcat G) n"
  then obtain ns where ns: "n = App BITVECTOR_CONCAT ns" "isBVGroundTerm n"
    by (auto simp: EvalConcat_def hasKind_iff)
  from n(1) [unfolded ns(1)] obtain w where w: "t = BITVECTOR_TYPE w" "valid_width w" "ns \<noteq> []"
    "\<forall>n\<in>set ns. \<exists>v. typeOf n = Some (BITVECTOR_TYPE v) \<and> valid_width v"
    "\<And>I. wf_interp I \<Longrightarrow> cat_width (map (eval I) ns) = w" by (metis typeOf_concat)
  have "list_all isConst ns" using ground_App ns by simp
  then have "\<forall>m\<in>set ns. \<exists>c. m = CONST_BITVECTOR c \<and> bv_wf c"
    using w(4) by (metis const_of_type list_all_iff)
  then obtain f where f: "\<forall>m\<in>set ns. m = CONST_BITVECTOR (f m) \<and> bv_wf (f m)" by metis
  then have "ns = map CONST_BITVECTOR (map f ns)" by (simp add: map_idI)
  moreover obtain c cs where c: "map f ns = c # cs" using w(3) by (cases ns) auto
  ultimately have ns': "ns = map CONST_BITVECTOR (c # cs)" by simp
  have wf: "\<forall>x\<in>set (c # cs). bv_wf x" using f c by (metis image_iff list.set_map)
  have W: "d_size c + sum_list (map d_size cs) = w"
    using w(5) [OF wf_interp_default] by (simp add: ns' cat_width_def comp_def)
  let ?r = "foldl (BitVector_concat G) c cs"
  have r: "bv_wf ?r" "VBV (d_size ?r) (d_value ?r) = v_concat (VBV (d_size c) (d_value c)) (map (\<lambda>x. VBV (d_size x) (d_value x)) cs)"
    using fold_concat_refines [of c cs] wf W w(2) by (simp_all add: valid_width_def)
  have "v_concat (VBV (d_size c) (d_value c)) (map (\<lambda>x. VBV (d_size x) (d_value x)) cs) = eval I n" for I
    by (simp add: ns(1) ns' comp_def)
  moreover have "d_size ?r = w" using r(2) W by (simp add: v_concat_cat cat_width_def comp_def)
  ultimately have "same_meaning opt (CONST_BITVECTOR ?r) n"
    using n(1) w(1,2) r by (intro same_meaningI) (auto simp: valid_width_def)
  then show "sound_result opt n (apply_rule (EvalConcat G) n)"
    by (simp add: EvalConcat_def ns(1) ns' eval_fold_pure)
qed

end

end
