(* ===== verification/Rules_Core.thy ===== *)
theory Rules_Core
  imports Concatenations Rules_Constant_Evaluation
begin

text \<open>
  The core rules (\<open>src/src/theory/bv/theory_bv_rewrite_rules_core.h\<close>): flattening and merging of
  concatenations, extraction, and equalities. The stack and the loops of the code are recursive
  functions over the terms still to be processed, with the loop variables as arguments.
  \<open>ExtractConcat\<close> computes with \<open>int\<close>: its soundness asks for a width below \<open>2 ^ 31\<close>.
\<close>

section \<open>Rules\<close>

text \<open>\<open>processing_stack\<close>, top first.\<close>

function concatFlatten_loop :: "node list \<Rightarrow> node list" where
  "concatFlatten_loop [] = []"
| "concatFlatten_loop (current # stack) =
     (if hasKind BITVECTOR_CONCAT current then concatFlatten_loop (children current @ stack)
      else current # concatFlatten_loop stack)"
  by pat_completeness auto

termination
  by (relation "measure (size_list size)") (auto simp: hasKind_iff)

definition ConcatFlatten :: rule where
  "ConcatFlatten =
     \<lparr>applies = hasKind BITVECTOR_CONCAT,
      apply_rule = (\<lambda>node. Inr (App BITVECTOR_CONCAT (concatFlatten_loop [node])))\<rparr>"

text \<open>The arguments are \<open>current\<close>, \<open>mergeStarted\<close>, \<open>currentHigh\<close>, \<open>currentLow\<close> and the children from
  \<open>i\<close> on; the result is what is pushed to \<open>mergedExtracts\<close> from there on.\<close>

fun concatExtractMerge_loop :: "node \<Rightarrow> bool \<Rightarrow> nat \<Rightarrow> nat \<Rightarrow> node list \<Rightarrow> node list" where
  "concatExtractMerge_loop current mergeStarted currentHigh currentLow [] =
     [if \<not> mergeStarted then current else mkExtract (children current ! 0) currentHigh currentLow]"
| "concatExtractMerge_loop current mergeStarted currentHigh currentLow (next # rest) =
     (if \<not> isExtract current
      then current # concatExtractMerge_loop next mergeStarted currentHigh currentLow rest
      else
        let currentHigh = (if \<not> mergeStarted then getExtractHigh current else currentHigh);
            currentLow = (if \<not> mergeStarted then getExtractLow current else currentLow)
        in if isExtract next \<and> children current ! 0 = children next ! 0 \<and> u32 (getExtractHigh next + 1) = currentLow
           then concatExtractMerge_loop current True currentHigh (getExtractLow next) rest
           else (if \<not> mergeStarted then current else mkExtract (children current ! 0) currentHigh currentLow) #
                concatExtractMerge_loop next False currentHigh currentLow rest)"

definition ConcatExtractMerge :: rule where
  "ConcatExtractMerge =
     \<lparr>applies = hasKind BITVECTOR_CONCAT,
      apply_rule = (\<lambda>node.
        Inr (mkConcat (concatExtractMerge_loop (children node ! 0) False 0 0 (tl (children node)))))\<rparr>"

function concatConstantMerge_loop :: "gmp \<Rightarrow> node list \<Rightarrow> node list" where
  "concatConstantMerge_loop G [] = []"
| "concatConstantMerge_loop G (n # ns) =
     (if \<not> isConstBV n then n # concatConstantMerge_loop G ns
      else
        let current = foldl (BitVector_concat G) (getConst n) (map getConst (takeWhile isConstBV ns))
        in CONST_BITVECTOR current # concatConstantMerge_loop G (dropWhile isConstBV ns))"
  by pat_completeness auto

termination
  by (relation "measure (length \<circ> snd)") (auto simp: less_Suc_eq_le length_dropWhile_le)

definition ConcatConstantMerge :: "gmp \<Rightarrow> rule" where
  "ConcatConstantMerge G =
     \<lparr>applies = hasKind BITVECTOR_CONCAT,
      apply_rule = (\<lambda>node. Inr (mkConcat (concatConstantMerge_loop G (children node))))\<rparr>"

definition ExtractWhole :: rule where
  "ExtractWhole =
     \<lparr>applies = (\<lambda>node.
        if \<not> isExtract node then False
        else if getExtractHigh node \<noteq> u32_sub (getSize (children node ! 0)) 1 then False
        else if getExtractLow node \<noteq> 0 then False
        else True),
      apply_rule = (\<lambda>node. Inr (children node ! 0))\<rparr>"

definition ExtractConstant :: "gmp \<Rightarrow> rule" where
  "ExtractConstant G =
     \<lparr>applies = (\<lambda>node.
        if \<not> isExtract node then False
        else if \<not> isConstBV (children node ! 0) then False
        else True),
      apply_rule = (\<lambda>node.
        let childValue = getConst (children node ! 0)
        in Inr (CONST_BITVECTOR (BitVector_extract G childValue (getExtractHigh node) (getExtractLow node))))\<rparr>"

definition i32 :: "nat \<Rightarrow> int" where
  "i32 n = (if n < 2 ^ 31 then int n else int n - 2 ^ 32)"

text \<open>The children are taken from the last to the first.\<close>

fun extractConcat_loop :: "int \<Rightarrow> int \<Rightarrow> node list \<Rightarrow> node list" where
  "extractConcat_loop extract_high extract_low [] = []"
| "extractConcat_loop extract_high extract_low (concatChild # rest) =
     (if extract_high \<ge> 0
      then
        let concatChildSize = i32 (getSize concatChild);
            pushed =
              (if extract_low < concatChildSize
               then
                 let extract_start = (if extract_low < 0 then 0 else extract_low);
                     extract_end = (if extract_high < concatChildSize then extract_high else concatChildSize - 1)
                 in [mkExtract concatChild (nat extract_end) (nat extract_start)]
               else [])
        in pushed @ extractConcat_loop (extract_high - concatChildSize) (extract_low - concatChildSize) rest
      else [])"

definition ExtractConcat :: rule where
  "ExtractConcat =
     \<lparr>applies = (\<lambda>node.
        if \<not> isExtract node then False
        else if \<not> hasKind BITVECTOR_CONCAT (children node ! 0) then False
        else True),
      apply_rule = (\<lambda>node.
        let extract_high = i32 (getExtractHigh node);
            extract_low = i32 (getExtractLow node);
            resultChildren = extractConcat_loop extract_high extract_low (rev (children (children node ! 0)))
        in Inr (mkConcat (rev resultChildren)))\<rparr>"

definition ExtractExtract :: rule where
  "ExtractExtract =
     \<lparr>applies = (\<lambda>node.
        if \<not> isExtract node then False
        else if \<not> isExtract (children node ! 0) then False
        else True),
      apply_rule = (\<lambda>node.
        let child = children node ! 0;
            k = getExtractHigh node;
            l = getExtractLow node;
            j = getExtractLow child
        in Inr (mkExtract (children child ! 0) (u32 (k + j)) (u32 (l + j))))\<rparr>"

definition FailEq :: rule where
  "FailEq =
     \<lparr>applies = (\<lambda>node.
        if \<not> hasKind EQUAL node then False
        else if \<not> isConstBV (children node ! 0) then False
        else if \<not> isConstBV (children node ! 1) then False
        else children node ! 0 \<noteq> children node ! 1),
      apply_rule = (\<lambda>node. Inr (CONST_BOOLEAN False))\<rparr>"

definition SimplifyEq :: rule where
  "SimplifyEq =
     \<lparr>applies = (\<lambda>node. if \<not> hasKind EQUAL node then False else children node ! 0 = children node ! 1),
      apply_rule = (\<lambda>node. Inr (CONST_BOOLEAN True))\<rparr>"

definition ReflexivityEq :: "(node \<Rightarrow> node \<Rightarrow> bool) \<Rightarrow> rule" where
  "ReflexivityEq lt =
     \<lparr>applies = (\<lambda>node. hasKind EQUAL node \<and> lt (children node ! 0) (children node ! 1)),
      apply_rule = (\<lambda>node. Inr (App EQUAL [children node ! 1, children node ! 0]))\<rparr>"

section \<open>Soundness of the rules on concatenations\<close>

lemma concatFlatten_same_cat:
  "list_all bv_typed stack \<Longrightarrow> same_cat opt (concatFlatten_loop stack) stack"
proof (induction stack rule: concatFlatten_loop.induct)
  case (2 current stack)
  then have cur: "bv_typed current" and st: "list_all bv_typed stack" by simp_all
  show ?case
  proof (cases "hasKind BITVECTOR_CONCAT current")
    case False
    then show ?thesis using 2 same_cat_Cons [OF cur] by simp
  next
    case True
    then obtain ns where ns: "current = App BITVECTOR_CONCAT ns" by (auto simp: hasKind_iff)
    have c: "ns \<noteq> []" "list_all bv_typed ns" "getSize current = sum_list (map getSize ns)"
      using cur bv_typed_getSize [OF cur] unfolding ns typeOf_CONCAT_iff by auto
    have "same_cat opt ns [current]"
      using cur c eval_CONCAT [OF c(2,1)] by (simp add: same_cat_def ns del: eval.simps)
    then have "same_cat opt (ns @ stack) (current # stack)"
      using same_cat_append [OF _ same_cat_refl [OF st]] by force
    moreover have "same_cat opt (concatFlatten_loop (ns @ stack)) (ns @ stack)"
      using 2(1) [OF True] c(2) st by (simp add: ns)
    ultimately show ?thesis using True same_cat_trans by (simp add: ns)
  qed
qed (simp add: same_cat_refl)

lemma concatFlatten_length: "list_all bv_typed stack \<Longrightarrow> length stack \<le> length (concatFlatten_loop stack)"
proof (induction stack rule: concatFlatten_loop.induct)
  case (2 current stack)
  show ?case
  proof (cases "hasKind BITVECTOR_CONCAT current")
    case True
    then obtain ns where ns: "current = App BITVECTOR_CONCAT ns" by (auto simp: hasKind_iff)
    have c: "2 \<le> length ns" "list_all bv_typed ns"
      using bv_typed_getSize [of current] 2(3) unfolding ns typeOf_CONCAT_iff by auto
    then show ?thesis using 2(1) [OF True] 2(3) by (simp add: hasKind_iff ns)
  qed (use 2 in simp)
qed simp

lemma ConcatFlatten_sound: "rule_sound opt ConcatFlatten"
proof (rule rule_soundI)
  fix n t assume n: "typeOf n = Some t" "applies ConcatFlatten n"
  then obtain ns where ns: "n = App BITVECTOR_CONCAT ns" by (auto simp: ConcatFlatten_def hasKind_iff)
  then have c: "list_all bv_typed ns" "2 \<le> length ns" using n(1) typeOf_CONCAT_iff by blast+
  then have "2 \<le> length (concatFlatten_loop ns)" using concatFlatten_length by (meson le_trans)
  from same_cat_meaning(1) [OF concatFlatten_same_cat [OF c(1)] _ this] n(1)
  show "sound_result opt n (apply_rule ConcatFlatten n)"
    by (simp add: ConcatFlatten_def ns hasKind_iff)
qed

lemma typed_extract:
  assumes "bv_typed n" and "isExtract n"
  obtains x hi lo where "n = mkExtract x hi lo" "bv_typed x" "lo \<le> hi" "hi < getSize x" "getSize n = hi - lo + 1"
proof -
  from assms obtain hi lo ns w where n: "n = App (BITVECTOR_EXTRACT hi lo) ns" "typeOf n = Some (BITVECTOR_TYPE w)"
    by (auto simp: isParam_iff bv_typed_def)
  from unary_children [OF this(2) [unfolded n(1)] unary_kinds(10)] obtain x v
    where x: "ns = [x]" "typeOf x = Some (BITVECTOR_TYPE v)" by metis
  then have "lo \<le> hi" "hi < v" "w = hi - lo + 1" using n by (auto simp: typeOf_short type_op_iffs)
  with that [of x hi lo] n x show thesis by (simp add: mkExtract_def bv_typed_def)
qed

lemma bv_typed_mkExtract:
  assumes "bv_typed x" and "lo \<le> hi" and "hi < getSize x"
  shows "bv_typed (mkExtract x hi lo)" and "getSize (mkExtract x hi lo) = hi - lo + 1"
proof -
  have "typeOf (mkExtract x hi lo) = Some (BITVECTOR_TYPE (hi - lo + 1))"
    using typeOf_mkExtract [OF bv_typed_getSize [OF assms(1)] assms(2,3)] .
  then show "bv_typed (mkExtract x hi lo)" and "getSize (mkExtract x hi lo) = hi - lo + 1"
    by (auto simp: bv_typed_def)
qed

lemma mkExtract_simps [simp]:
  "isExtract (mkExtract x hi lo)" "children (mkExtract x hi lo) = [x]"
  "getExtractHigh (mkExtract x hi lo) = hi" "getExtractLow (mkExtract x hi lo) = lo"
  by (simp_all add: mkExtract_def isParam_iff)

lemma mkExtract_typedD:
  assumes "bv_typed (mkExtract x hi lo)"
  shows "bv_typed x" and "lo \<le> hi" and "hi < getSize x"
proof -
  obtain y h l where "mkExtract x hi lo = mkExtract y h l" "bv_typed y" "l \<le> h" "h < getSize y"
    using typed_extract [OF assms mkExtract_simps(1)] by metis
  then show "bv_typed x" and "lo \<le> hi" and "hi < getSize x" by (simp_all add: mkExtract_def)
qed

lemma merge_pair:
  assumes x: "bv_typed x" and h: "l \<le> h" "h + 1 \<le> hi" "hi < getSize x"
  shows "same_cat opt [mkExtract x hi l] [mkExtract x hi (h + 1), mkExtract x h l]"
proof -
  have "cat_val (map (eval I) [mkExtract x hi l]) = cat_val (map (eval I) [mkExtract x hi (h + 1), mkExtract x h l])"
    if I: "wf_interp I" for I
  proof -
    obtain a where "eval I x = VBV (getSize x) a" using bv_typed_value [OF x I] by metis
    then show ?thesis using bvextract_merge [OF h(1,2), of a] by (simp add: eval_mkExtract bvconcat_def)
  qed
  then show ?thesis using bv_typed_mkExtract [OF x] h by (simp add: same_cat_def)
qed

definition pending :: "node \<Rightarrow> bool \<Rightarrow> nat \<Rightarrow> nat \<Rightarrow> node" where
  "pending current mergeStarted hi lo = (if mergeStarted then mkExtract (children current ! 0) hi lo else current)"

lemma concatExtractMerge_same_cat:
  "(started \<Longrightarrow> isExtract current) \<Longrightarrow> bv_typed (pending current started hi lo) \<Longrightarrow> bv_typed current \<Longrightarrow>
    list_all bv_typed rest \<Longrightarrow>
    same_cat opt (concatExtractMerge_loop current started hi lo rest) (pending current started hi lo # rest)"
proof (induction current started hi lo rest rule: concatExtractMerge_loop.induct)
  case (1 current started hi lo)
  then show ?case by (cases started) (simp_all add: pending_def same_cat_refl)
next
  case (2 current started hi lo nxt rest)
  let ?hi = "if \<not> started then getExtractHigh current else hi"
    and ?lo = "if \<not> started then getExtractLow current else lo"
  show ?case
  proof (cases "isExtract current")
    case False
    with 2(1) [OF False] 2(4-) show ?thesis
      by (auto simp: pending_def intro!: same_cat_Cons)
  next
    case True
    then obtain x h0 l0 where cur: "current = mkExtract x h0 l0" using typed_extract [OF 2(6)] by metis
    have pend: "pending current started hi lo = mkExtract x ?hi ?lo" by (simp add: pending_def cur)
    show ?thesis
    proof (cases "isExtract nxt \<and> children current ! 0 = children nxt ! 0 \<and> u32 (getExtractHigh nxt + 1) = ?lo")
      case True
      then obtain h l where nx: "nxt = mkExtract x h l" "bv_typed x" "l \<le> h" "h < getSize x"
        using typed_extract [of nxt] 2(7) by (metis children.simps(1) cur list.pred_inject(2) mkExtract_simps(2) nth_Cons_0)
      have "h + 1 < 2 ^ 32" using nx(4) bv_typed_valid [OF nx(2)] by (simp add: valid_width_def)
      then have lo: "?lo = h + 1" using True nx(1) by simp
      have hilo: "?lo \<le> ?hi" "?hi < getSize x"
        using mkExtract_typedD [of x ?hi ?lo] 2(5) unfolding pend by blast+
      have typed: "bv_typed (pending current True ?hi l)"
        using bv_typed_mkExtract(1) [OF nx(2), of l ?hi] nx(3) hilo lo by (simp add: pending_def cur)
      have "same_cat opt (concatExtractMerge_loop current True ?hi l rest) (mkExtract x ?hi l # rest)"
        using 2(2) [OF _ refl refl] True typed 2(6,7) \<open>isExtract current\<close> nx(1) cur by (simp add: pending_def)
      moreover have "same_cat opt (mkExtract x ?hi l # rest) (pending current started hi lo # nxt # rest)"
        using same_cat_append [OF merge_pair [OF nx(2,3)] same_cat_refl, of ?hi rest opt] hilo lo 2(7)
        by (simp add: pend nx(1))
      ultimately show ?thesis
        using True \<open>isExtract current\<close> nx(1) same_cat_trans by (simp add: Let_def)
    next
      case False
      have "same_cat opt (concatExtractMerge_loop nxt False ?hi ?lo rest) (nxt # rest)"
        using 2(3) [OF _ refl refl False] 2(7) \<open>isExtract current\<close> by (simp add: pending_def)
      then have "same_cat opt (pending current started hi lo # concatExtractMerge_loop nxt False ?hi ?lo rest)
          (pending current started hi lo # nxt # rest)"
        using 2(5) same_cat_Cons by blast
      moreover have "concatExtractMerge_loop current started hi lo (nxt # rest) =
          pending current started hi lo # concatExtractMerge_loop nxt False ?hi ?lo rest"
        using False \<open>isExtract current\<close> by (auto simp: pending_def Let_def)
      ultimately show ?thesis by simp
    qed
  qed
qed

lemma ConcatExtractMerge_sound: "rule_sound opt ConcatExtractMerge"
proof (rule rule_soundI)
  fix n t assume n: "typeOf n = Some t" "applies ConcatExtractMerge n"
  then obtain ns where ns: "n = App BITVECTOR_CONCAT ns" by (auto simp: ConcatExtractMerge_def hasKind_iff)
  then have c: "2 \<le> length ns" "list_all bv_typed ns" using n(1) typeOf_CONCAT_iff by blast+
  then obtain m ms where m: "ns = m # ms" by (cases ns) auto
  have "same_cat opt (concatExtractMerge_loop m False 0 0 ms) ns"
    using concatExtractMerge_same_cat [of False m 0 0 ms opt] c(2) by (simp add: m pending_def)
  from same_cat_meaning(2) [OF this] n(1) show "sound_result opt n (apply_rule ConcatExtractMerge n)"
    by (simp add: ConcatExtractMerge_def ns m)
qed

lemma bv_typed_const: "bv_typed (CONST_BITVECTOR c) \<longleftrightarrow> bv_wf c \<and> 0 < d_size c"
  by (auto simp: bv_typed_def)

lemma getSize_const: "bv_wf c \<Longrightarrow> 0 < d_size c \<Longrightarrow> getSize (CONST_BITVECTOR c) = d_size c"
  by simp

lemma constants_map:
  assumes "list_all isConstBV ns"
  shows "ns = map CONST_BITVECTOR (map getConst ns)"
  using assms by (induction ns) (auto simp: isConstBV_iff)

context gmp_documented
begin

lemma constants_same_cat:
  assumes typed: "list_all bv_typed (CONST_BITVECTOR c # map CONST_BITVECTOR cs)"
    and w: "d_size c + sum_list (map d_size cs) < 2 ^ 32"
  shows "same_cat opt [CONST_BITVECTOR (foldl (BitVector_concat G) c cs)] (CONST_BITVECTOR c # map CONST_BITVECTOR cs)"
proof -
  let ?r = "foldl (BitVector_concat G) c cs"
  have wf: "bv_wf c" "0 < d_size c" "\<forall>x\<in>set cs. bv_wf x \<and> 0 < d_size x"
    using typed by (auto simp: bv_typed_const list_all_iff)
  then have r: "bv_wf ?r" "VBV (d_size ?r) (d_value ?r) =
      v_concat (VBV (d_size c) (d_value c)) (map (\<lambda>x. VBV (d_size x) (d_value x)) cs)"
    using fold_concat_refines [OF wf(1) _ w] by auto
  have W: "cat_width (map (\<lambda>x. VBV (d_size x) (d_value x)) cs) = sum_list (map d_size cs)"
    by (simp add: cat_width_def comp_def)
  have v: "d_size ?r = d_size c + sum_list (map d_size cs)"
    "d_value ?r = d_value c * 2 ^ sum_list (map d_size cs) + cat_val (map (\<lambda>x. VBV (d_size x) (d_value x)) cs)"
    using r(2) by (simp_all add: v_concat_cat W)
  have "sum_list (map getSize (map CONST_BITVECTOR cs)) = sum_list (map d_size cs)"
    using wf(3) by (auto simp: comp_def intro!: arg_cong [where f = sum_list])
  then show ?thesis
    using typed r(1) wf v by (simp add: same_cat_def bv_typed_const getSize_const comp_def W)
qed

lemma concatConstantMerge_same_cat:
  "list_all bv_typed ns \<Longrightarrow> sum_list (map getSize ns) < 2 ^ 32 \<Longrightarrow> same_cat opt (concatConstantMerge_loop G ns) ns"
proof (induction "length ns" arbitrary: ns rule: less_induct)
  case less
  show ?case
  proof (cases ns)
    case Nil
    then show ?thesis by (simp add: same_cat_refl)
  next
    case (Cons n ms)
    show ?thesis
    proof (cases "isConstBV n")
      case False
      then show ?thesis using less.hyps [of ms] less.prems same_cat_Cons by (simp add: Cons)
    next
      case True
      then obtain c where n: "n = CONST_BITVECTOR c" by (auto simp: isConstBV_iff)
      let ?r = "dropWhile isConstBV ms"
      have "list_all isConstBV (takeWhile isConstBV ms)" by (auto simp: list_all_iff dest: set_takeWhileD)
      then obtain cs where cs: "takeWhile isConstBV ms = map CONST_BITVECTOR cs" using constants_map by blast
      have ms: "ms = map CONST_BITVECTOR cs @ ?r" by (metis cs takeWhile_dropWhile_id)
      have typed: "list_all bv_typed (CONST_BITVECTOR c # map CONST_BITVECTOR cs)" "list_all bv_typed ?r"
        using less.prems(1) n by (simp, metis Cons list.pred_inject(2) list_all_append ms,
            metis Cons list.pred_inject(2) list_all_append ms)
      have "sum_list (map getSize (map CONST_BITVECTOR cs)) = sum_list (map d_size cs)"
        using typed(1) by (auto simp: comp_def list_all_iff bv_typed_const getSize_const intro!: arg_cong [where f = sum_list])
      then have sums: "sum_list (map getSize ms) = sum_list (map d_size cs) + sum_list (map getSize ?r)"
        by (metis map_append ms sum_list.append)
      then have "d_size c + sum_list (map d_size cs) < 2 ^ 32"
        using less.prems typed(1) by (simp add: Cons n bv_typed_const)
      then have "same_cat opt [CONST_BITVECTOR (foldl (BitVector_concat G) c cs)] (CONST_BITVECTOR c # map CONST_BITVECTOR cs)"
        using constants_same_cat typed(1) by blast
      moreover have "same_cat opt (concatConstantMerge_loop G ?r) ?r"
        using less.hyps [of ?r] less.prems typed(2) sums length_dropWhile_le [of isConstBV ms] by (simp add: Cons)
      ultimately have "same_cat opt ([CONST_BITVECTOR (foldl (BitVector_concat G) c cs)] @ concatConstantMerge_loop G ?r)
          ((CONST_BITVECTOR c # map CONST_BITVECTOR cs) @ ?r)" by (rule same_cat_append)
      then show ?thesis using True by (simp add: Cons n cs comp_def flip: ms)
    qed
  qed
qed

lemma ConcatConstantMerge_sound: "rule_sound opt (ConcatConstantMerge G)"
proof (rule rule_soundI)
  fix n t assume n: "typeOf n = Some t" "applies (ConcatConstantMerge G) n"
  then obtain ns where ns: "n = App BITVECTOR_CONCAT ns" by (auto simp: ConcatConstantMerge_def hasKind_iff)
  then have "list_all bv_typed ns" "sum_list (map getSize ns) < 2 ^ 32"
    using n(1) by (auto simp: typeOf_CONCAT_iff valid_width_def)
  from same_cat_meaning(2) [OF concatConstantMerge_same_cat [OF this]] n(1)
  show "sound_result opt n (apply_rule (ConcatConstantMerge G) n)"
    by (simp add: ConcatConstantMerge_def ns)
qed

section \<open>Soundness of the rules on extractions\<close>

lemma ExtractConstant_sound: "rule_sound opt (ExtractConstant G)"
proof (rule rule_soundI)
  fix n t assume n: "typeOf n = Some t" "applies (ExtractConstant G) n"
  then have "isExtract n" "isConstBV (children n ! 0)" by (auto simp: ExtractConstant_def split: if_splits)
  moreover from this(1) n(1) have "bv_typed n" by (auto simp: isParam_iff bv_typed_def typeOf_App_iff type_op_iffs)
  ultimately obtain hi lo c where x: "n = mkExtract (CONST_BITVECTOR c) hi lo" "bv_typed (CONST_BITVECTOR c)"
      "lo \<le> hi" "hi < getSize (CONST_BITVECTOR c)"
    using typed_extract [of n] by (metis isConstBV_iff mkExtract_simps(2) nth_Cons_0)
  then have c: "bv_wf c" "0 < d_size c" "hi < d_size c" by (simp_all add: bv_typed_const getSize_const)
  have "t = BITVECTOR_TYPE (hi - lo + 1)" using n(1) x c by (auto simp: mkExtract_def typeOf_short type_op_iffs)
  then have "same_meaning opt (CONST_BITVECTOR (BitVector G (hi - lo + 1) (bvextract hi lo (d_value c)))) n"
    using n(1) by (intro same_meaning_const) (auto simp: x(1) mkExtract_def)
  then show "sound_result opt n (apply_rule (ExtractConstant G) n)"
    using extract_refines [OF c(1) x(3) c(3)] by (simp add: ExtractConstant_def x(1))
qed

end

lemma extract_rule:
  assumes "\<And>n. applies R n \<Longrightarrow> isExtract n"
    and "\<And>x hi lo. bv_typed x \<Longrightarrow> lo \<le> hi \<Longrightarrow> hi < getSize x \<Longrightarrow> applies R (mkExtract x hi lo) \<Longrightarrow>
      sound_result opt (mkExtract x hi lo) (apply_rule R (mkExtract x hi lo))"
  shows "rule_sound opt R"
proof (rule rule_soundI)
  fix n t assume n: "typeOf n = Some t" "applies R n"
  then have "isExtract n" using assms(1) by blast
  moreover from this n(1) have "bv_typed n" by (auto simp: isParam_iff bv_typed_def typeOf_App_iff type_op_iffs)
  ultimately show "sound_result opt n (apply_rule R n)" using assms(2) n(2) typed_extract [of n] by metis
qed

lemma ExtractWhole_sound: "rule_sound opt ExtractWhole"
proof (rule extract_rule)
  fix x hi lo assume x: "bv_typed x" "lo \<le> hi" "hi < getSize x" and a: "applies ExtractWhole (mkExtract x hi lo)"
  have v: "0 < getSize x" "getSize x < 2 ^ 32" using bv_typed_valid [OF x(1)] by (auto simp: valid_width_def)
  then have h: "hi = getSize x - 1" "lo = 0" using a by (auto simp: ExtractWhole_def split: if_splits)
  have "same_meaning opt x (mkExtract x hi lo)"
  proof (rule same_meaningI)
    show "typeOf (mkExtract x hi lo) = Some (BITVECTOR_TYPE (getSize x))"
      using typeOf_mkExtract [OF bv_typed_getSize [OF x(1)] x(2,3)] h v by simp
    show "typeOf x = Some (BITVECTOR_TYPE (getSize x))" using x(1) by (rule bv_typed_getSize)
    show "eval I x = eval I (mkExtract x hi lo)" if I: "wf_interp I" for I
    proof -
      obtain a where "eval I x = VBV (getSize x) a" "in_width (getSize x) a" using bv_typed_value [OF x(1) I] by metis
      then show ?thesis using h v by (simp add: eval_mkExtract bvextract_def)
    qed
  qed
  then show "sound_result opt (mkExtract x hi lo) (apply_rule ExtractWhole (mkExtract x hi lo))"
    by (simp add: ExtractWhole_def)
qed (simp add: ExtractWhole_def split: if_splits)

lemma ExtractExtract_sound: "rule_sound opt ExtractExtract"
proof (rule extract_rule)
  fix x k l assume x: "bv_typed x" "l \<le> k" "k < getSize x" and a: "applies ExtractExtract (mkExtract x k l)"
  then have "isExtract x" by (simp add: ExtractExtract_def split: if_splits)
  with typed_extract [OF x(1)] obtain y i j where y: "x = mkExtract y i j" "bv_typed y" "j \<le> i" "i < getSize y" "getSize x = i - j + 1"
    by metis
  have le: "k + j \<le> i" "l + j \<le> k + j" using x(2,3) y(3,5) by simp_all
  have lim: "k + j < 2 ^ 32" "l + j < 2 ^ 32"
    using le y(4) bv_typed_valid [OF y(2)] by (simp_all add: valid_width_def)
  have "same_meaning opt (mkExtract y (k + j) (l + j)) (mkExtract x k l)"
  proof (rule same_meaningI)
    show "typeOf (mkExtract x k l) = Some (BITVECTOR_TYPE (k - l + 1))"
      using typeOf_mkExtract [OF bv_typed_getSize [OF x(1)] x(2,3)] .
    show "typeOf (mkExtract y (k + j) (l + j)) = Some (BITVECTOR_TYPE (k - l + 1))"
      using typeOf_mkExtract [OF bv_typed_getSize [OF y(2)] le(2)] le(1) y(4) by simp
    show "eval I (mkExtract y (k + j) (l + j)) = eval I (mkExtract x k l)" if I: "wf_interp I" for I
    proof -
      obtain a where a: "eval I y = VBV (getSize y) a" using bv_typed_value [OF y(2) I] by metis
      have "bvextract (k + j) (l + j) a = bvextract k l (bvextract i j a)"
        by (rule bit_eqI) (use le in \<open>auto simp: bit_bvextract algebra_simps\<close>)
      with a show ?thesis by (simp add: y(1) eval_mkExtract)
    qed
  qed
  then show "sound_result opt (mkExtract x k l) (apply_rule ExtractExtract (mkExtract x k l))"
    using lim by (simp add: ExtractExtract_def y(1))
qed (simp add: ExtractExtract_def split: if_splits)

section \<open>Soundness of the rules on equalities\<close>

lemma typed_equality:
  assumes "typeOf (App EQUAL ns) = Some t"
  obtains x y u where "ns = [x, y]" "typeOf x = Some u" "typeOf y = Some u" "valid_type u" "t = BOOLEAN_TYPE"
  using assms that by (auto simp: typeOf_App_iff type_op_mixed list_all2_Cons2)

lemma FailEq_sound: "rule_sound opt FailEq"
proof (rule rule_soundI)
  fix n t assume n: "typeOf n = Some t" "applies FailEq n"
  then obtain ns where ns: "n = App EQUAL ns" by (auto simp: FailEq_def hasKind_iff split: if_splits)
  with n typed_equality [of ns t] obtain x y where "ns = [x, y]" "t = BOOLEAN_TYPE" by metis
  with n show "sound_result opt n (apply_rule FailEq n)"
    by (auto simp: FailEq_def ns isConstBV_iff split: if_splits intro!: same_meaning_bool)
qed

lemma SimplifyEq_sound: "rule_sound opt SimplifyEq"
proof (rule rule_soundI)
  fix n t assume n: "typeOf n = Some t" "applies SimplifyEq n"
  then obtain ns where ns: "n = App EQUAL ns" by (auto simp: SimplifyEq_def hasKind_iff split: if_splits)
  with n typed_equality [of ns t] obtain x y where "ns = [x, y]" "t = BOOLEAN_TYPE" by metis
  with n show "sound_result opt n (apply_rule SimplifyEq n)"
    by (auto simp: SimplifyEq_def ns split: if_splits intro!: same_meaning_bool)
qed

lemma ReflexivityEq_sound: "rule_sound opt (ReflexivityEq lt)"
proof (rule rule_soundI)
  fix n t assume n: "typeOf n = Some t" "applies (ReflexivityEq lt) n"
  then obtain ns where ns: "n = App EQUAL ns" by (auto simp: ReflexivityEq_def hasKind_iff)
  with n typed_equality [of ns t] obtain x y where "ns = [x, y]" "typeOf x = typeOf y" by metis
  then show "sound_result opt n (apply_rule (ReflexivityEq lt) n)"
    by (auto simp: ReflexivityEq_def ns same_meaning_def typeOf.simps(4))
qed

section \<open>Soundness of ExtractConcat\<close>

lemma cat_val_rev:
  assumes "bv_typed c" and "wf_interp I" and "eval I c = VBV (getSize c) a"
  shows "cat_val (map (eval I) (rev (c # cs))) = bvconcat (getSize c) (cat_val (map (eval I) (rev cs))) a"
  using assms by (simp add: cat_val_append bvconcat_def)

text \<open>What the loop has pushed stands for the slice: \<open>slices\<close> says this of its result \<open>rs\<close>.\<close>

definition slices :: "node list \<Rightarrow> nat \<Rightarrow> nat \<Rightarrow> node list \<Rightarrow> bool" where
  "slices rs h s cs \<longleftrightarrow>
     list_all bv_typed rs \<and> sum_list (map getSize rs) = h - s + 1 \<and>
     (\<forall>I. wf_interp I \<longrightarrow> cat_val (map (eval I) (rev rs)) = bvextract h s (cat_val (map (eval I) (rev cs))))"

lemma slices_within:
  assumes "bv_typed c" and "s \<le> h" and "h < getSize c"
  shows "slices [mkExtract c h s] h s (c # cs)"
proof -
  have "bvextract h s a = bvextract h s (bvconcat (getSize c) v a)" if "in_width (getSize c) a" for a v
    by (rule bit_eqI) (use that assms in \<open>auto simp: bit_bvextract bit_bvconcat\<close>)
  then show ?thesis
    using assms bv_typed_mkExtract [OF assms]
    by (auto simp: slices_def eval_mkExtract cat_val_append bvconcat_def elim!: bv_typed_value [OF assms(1)])
qed

lemma slices_across:
  assumes c: "bv_typed c" and h: "s < getSize c" "getSize c \<le> h" and rs: "slices rs (h - getSize c) 0 cs"
  shows "slices (mkExtract c (getSize c - 1) s # rs) h s (c # cs)"
proof -
  let ?n = "getSize c" and ?x = "mkExtract c (getSize c - 1) s"
  have x: "bv_typed ?x" "getSize ?x = ?n - s" using bv_typed_mkExtract [OF c, of s "?n - 1"] h by auto
  have bits: "bvconcat (?n - s) (bvextract (h - ?n) 0 v) (bvextract (?n - 1) s a) = bvextract h s (bvconcat ?n v a)"
    if "in_width ?n a" for a v
  proof (rule bit_eqI)
    fix i
    have "in_width (?n - s) (bvextract (?n - 1) s a)" using in_width_bvextract [of "?n - 1" s a] h by (simp add: Suc_diff_Suc)
    then show "bit (bvconcat (?n - s) (bvextract (h - ?n) 0 v) (bvextract (?n - 1) s a)) i =
        bit (bvextract h s (bvconcat ?n v a)) i"
      using that h by (auto simp: bit_bvextract bit_bvconcat add.commute)
  qed
  have "cat_val (map (eval I) (rev (?x # rs))) = bvextract h s (cat_val (map (eval I) (rev (c # cs))))"
    if I: "wf_interp I" for I
  proof -
    obtain a where a: "eval I c = VBV ?n a" "in_width ?n a" using bv_typed_value [OF c I] by metis
    have "eval I ?x = VBV (getSize ?x) (bvextract (?n - 1) s a)" using eval_mkExtract [OF a(1)] x(2) h by simp
    from cat_val_rev [OF x(1) I this, of rs] cat_val_rev [OF c I a(1), of cs] bits [OF a(2)] rs I x(2)
    show ?thesis by (simp add: slices_def)
  qed
  then show ?thesis using rs x h by (simp add: slices_def)
qed

lemma slices_above:
  assumes c: "bv_typed c" and h: "getSize c \<le> s" "s \<le> h" and rs: "slices rs (h - getSize c) (s - getSize c) cs"
  shows "slices rs h s (c # cs)"
proof -
  let ?n = "getSize c"
  have "cat_val (map (eval I) (rev rs)) = bvextract h s (cat_val (map (eval I) (rev (c # cs))))" if I: "wf_interp I" for I
  proof -
    obtain a where a: "eval I c = VBV ?n a" "in_width ?n a" using bv_typed_value [OF c I] by metis
    have "bvextract (h - ?n) (s - ?n) v = bvextract h s (bvconcat ?n v a)" for v
      by (rule bit_eqI) (use a(2) h in \<open>auto simp: bit_bvextract bit_bvconcat\<close>)
    with rs cat_val_rev [OF c I a(1), of cs] I show ?thesis by (simp add: slices_def)
  qed
  with rs h show ?thesis by (simp add: slices_def)
qed

lemma extractConcat_slices:
  "list_all bv_typed cs \<Longrightarrow> sum_list (map getSize cs) < 2 ^ 31 \<Longrightarrow> lo \<le> hi \<Longrightarrow> 0 \<le> hi \<Longrightarrow>
    hi < int (sum_list (map getSize cs)) \<Longrightarrow> slices (extractConcat_loop hi lo cs) (nat hi) (nat lo) cs"
proof (induction cs arbitrary: hi lo)
  case (Cons c cs)
  let ?n = "getSize c" and ?rest = "extractConcat_loop (hi - int (getSize c)) (lo - int (getSize c)) cs"
  have c: "bv_typed c" and n: "i32 ?n = int ?n" using Cons.prems by (auto simp: i32_def)
  have IH: "slices ?rest (nat (hi - int ?n)) (nat (lo - int ?n)) cs" if "int ?n \<le> hi"
    using Cons.IH [of "lo - int ?n" "hi - int ?n"] Cons.prems that by simp
  have lo: "(if lo < 0 then 0 else lo) = int (nat lo)" by simp
  consider "lo < int ?n" "hi < int ?n" | "lo < int ?n" "int ?n \<le> hi" | "int ?n \<le> lo" by linarith
  then show ?case
  proof cases
    case 1
    have "?rest = []" using 1 by (cases cs) auto
    then show ?thesis using slices_within [OF c, of "nat lo" "nat hi" cs] 1 Cons.prems n
      by (cases "lo < 0") (simp_all add: Let_def nat_le_iff nat_less_iff)
  next
    case 2
    have "0 < ?n" using bv_typed_valid [OF c] by (simp add: valid_width_def)
    moreover have "slices ?rest (nat hi - ?n) 0 cs" using IH 2 by (simp add: nat_diff_distrib')
    ultimately show ?thesis
      using slices_across [OF c, of "nat lo" "nat hi" ?rest cs] 2 Cons.prems n
      by (cases "lo < 0") (simp_all add: Let_def le_nat_iff nat_less_iff nat_diff_distrib')
  next
    case 3
    then have "slices ?rest (nat hi - ?n) (nat lo - ?n) cs" using IH Cons.prems by (simp add: nat_diff_distrib')
    then show ?thesis
      using slices_above [OF c, of "nat lo" "nat hi" ?rest cs] 3 Cons.prems n by (simp add: Let_def le_nat_iff nat_mono)
  qed
qed simp

lemma ExtractConcat_sound:
  assumes n: "typeOf n = Some t" "applies ExtractConcat n" and w: "getSize (children n ! 0) < 2 ^ 31"
  shows "sound_result opt n (apply_rule ExtractConcat n)"
proof -
  have "isExtract n" "hasKind BITVECTOR_CONCAT (children n ! 0)"
    using n(2) by (auto simp: ExtractConcat_def split: if_splits)
  moreover from this(1) n(1) have "bv_typed n" by (auto simp: isParam_iff bv_typed_def typeOf_App_iff type_op_iffs)
  ultimately obtain hi lo cs where x: "n = mkExtract (App BITVECTOR_CONCAT cs) hi lo" "bv_typed (App BITVECTOR_CONCAT cs)"
      "lo \<le> hi" "hi < getSize (App BITVECTOR_CONCAT cs)"
    using typed_extract [of n] by (metis hasKind_iff mkExtract_simps(2) nth_Cons_0)
  let ?c = "App BITVECTOR_CONCAT cs" and ?rs = "extractConcat_loop (int hi) (int lo) (rev cs)"
  have c: "cs \<noteq> []" "list_all bv_typed cs" "getSize ?c = sum_list (map getSize cs)"
    using bv_typed_getSize [OF x(2)] unfolding typeOf_CONCAT_iff by auto
  have lim: "hi < 2 ^ 31" "lo < 2 ^ 31" "sum_list (map getSize cs) < 2 ^ 31" using w x(3,4) c(3) by (auto simp: x(1))
  have sums: "sum_list (map getSize (rev ns)) = sum_list (map getSize ns)" for ns by (simp add: rev_map [symmetric] sum_list_rev)
  have rs: "slices ?rs hi lo (rev cs)"
    using extractConcat_slices [of "rev cs" "int lo" "int hi"] c x(3,4) lim by (simp add: sums)
  let ?m = "mkConcat (rev ?rs)"
  have r: "list_all bv_typed (rev ?rs)" "rev ?rs \<noteq> []" "valid_width (sum_list (map getSize (rev ?rs)))"
    unfolding sums using rs lim x(3) by (auto simp: slices_def valid_width_def)
  have "same_meaning opt ?m n"
  proof (rule same_meaningI)
    show "typeOf n = Some (BITVECTOR_TYPE (hi - lo + 1))"
      using typeOf_mkExtract [OF bv_typed_getSize [OF x(2)] x(3,4)] by (simp add: x(1))
    show "typeOf ?m = Some (BITVECTOR_TYPE (hi - lo + 1))"
      using mkConcat_nodes(1) [OF r] rs by (simp add: slices_def sums)
    show "eval I ?m = eval I n" if I: "wf_interp I" for I
      using mkConcat_nodes(2) [OF r I] eval_CONCAT [OF c(2,1) I] rs I eval_mkExtract
      by (simp add: slices_def x(1) sums del: eval.simps)
  qed
  then show ?thesis using lim by (simp add: ExtractConcat_def x(1) i32_def)
qed

end
