(* ===== verification/Rules_Simplification_Arith.thy ===== *)
theory Rules_Simplification_Arith
  imports Rules_Simplification Rules_Core
begin

text \<open>
  Soundness of the simplification rules on shifts, division, extension and multiplication
  (\<open>src/src/theory/bv/theory_bv_rewrite_rules_simplification.h\<close>). Shifting or dividing by a constant
  power of two is slicing and concatenating; \<open>UdivSelf\<close> is shown not to be sound.
\<close>

section \<open>Slices as arithmetic\<close>

lemma bvextract_top: "k < w \<Longrightarrow> bvextract (w - 1) k a = (a div 2 ^ k) mod 2 ^ (w - k)"
proof -
  assume "k < w"
  then have "w - 1 - k + 1 = w - k" by simp
  then show ?thesis unfolding bvextract_def by (rule arg_cong)
qed

lemma bvextract_low: "k < w \<Longrightarrow> bvextract (w - 1 - k) 0 a = a mod 2 ^ (w - k)"
proof -
  assume "k < w"
  then have "w - 1 - k - 0 + 1 = w - k" by simp
  then show ?thesis unfolding bvextract_def by simp
qed

lemma shl_slices:
  assumes "k < w"
  shows "bvconcat k (bvextract (w - 1 - k) 0 a) 0 = (a * 2 ^ k) mod 2 ^ w"
proof -
  have "(2 :: int) ^ w = 2 ^ (w - k) * 2 ^ k" using assms by (simp flip: power_add)
  then show ?thesis unfolding bvextract_low [OF assms] by (simp add: bvconcat_def mult_mod_left)
qed

lemma lshr_slices:
  assumes "in_width w a" and "k < w"
  shows "bvconcat (w - k) 0 (bvextract (w - 1) k a) = a div 2 ^ k"
proof -
  have "a div 2 ^ k < 2 ^ (w - k)"
    using assms by (intro div_pow2_less) (simp add: in_width_def flip: power_add)
  then show ?thesis
    unfolding bvextract_top [OF assms(2)] using assms(1) by (simp add: bvconcat_def in_width_def pos_imp_zdiv_nonneg_iff)
qed

lemma extract_div_sval:
  assumes "in_width w a" and "k < w"
  shows "bvextract (w - 1) k a = (sval w a div 2 ^ k) mod 2 ^ (w - k)"
proof -
  have p: "(2 :: int) ^ w = 2 ^ (w - k) * 2 ^ k" using assms by (simp flip: power_add)
  have "(a - 2 ^ w) div 2 ^ k = a div 2 ^ k - 2 ^ (w - k)"
    unfolding p by (metis add_diff_cancel_left' diff_add_cancel div_mult_self1 power_eq_0_iff zero_neq_numeral add.commute)
  then show ?thesis unfolding bvextract_top [OF assms(2)] by (simp add: sval_def)
qed

lemma ashr_slices:
  assumes "in_width w a" and "0 < k" and "k < w"
  shows "bvconcat (w - k) (bvrepeat k (Suc 0) (bvextract (w - 1) (w - 1) a)) (bvextract (w - 1) k a) =
    (sval w a div 2 ^ k) mod 2 ^ w"
proof -
  let ?d = "sval w a div 2 ^ k"
  have w: "0 < w" using assms by simp
  have p: "(2 :: int) ^ w = 2 ^ (w - k) * 2 ^ k" "(2 :: int) ^ w = 2 * 2 ^ (w - 1)"
    using assms by (auto simp flip: power_add power_Suc)
  have s: "- (2 ^ (w - 1)) \<le> sval w a" "sval w a < 2 ^ (w - 1)"
    using assms(1) p(2) by (auto simp: sval_def in_width_def)
  have ub: "?d < 2 ^ (w - k)" 
    using s p by (intro div_pow2_less) (simp flip: p(1))
  have r: "bvrepeat k (Suc 0) (bvextract (w - 1) (w - 1) a) = of_bool (msb w a) * (2 ^ k - 1)"
    using extract_msb [OF assms(1) w] bvrepeat_bit by simp
  show ?thesis
  proof (cases "msb w a")
    case False
    then have "0 \<le> ?d" using assms(1) by (auto simp: sval_def msb_def in_width_def pos_imp_zdiv_nonneg_iff)
    moreover have "?d < 2 ^ w" by (rule less_le_trans [OF ub power_increasing]) auto
    ultimately show ?thesis
      using False ub unfolding r extract_div_sval [OF assms(1,3)] by (simp add: bvconcat_def)
  next
    case True
    then have neg: "sval w a < 0" using assms(1) p(2) by (auto simp: sval_def msb_def in_width_def)
    then have d: "?d < 0" by (simp add: div_neg_pos_less0)
    have lb: "- (2 ^ (w - k)) \<le> ?d"
    proof -
      have "(- (2 ^ (w - k))) * 2 ^ k \<le> sval w a" using s p assms(1) by simp
      then have "(- (2 ^ (w - k))) * 2 ^ k div 2 ^ k \<le> ?d" by (rule zdiv_mono1) simp
      then show ?thesis by (simp only: nonzero_mult_div_cancel_right [OF power_not_zero [OF zero_neq_numeral [symmetric]]])
    qed
    have "?d mod 2 ^ (w - k) = ?d + 2 ^ (w - k)"
      using d lb by (intro int_mod_pos_eq [of _ _ "-1"]) auto
    moreover have "?d mod 2 ^ w = ?d + 2 ^ w"
    proof -
      have "(2 :: int) ^ (w - k) \<le> 2 ^ w" by (rule power_increasing) auto
      with lb have "- (2 ^ w) \<le> ?d" by linarith
      then show ?thesis using d by (intro int_mod_pos_eq [of _ _ "-1"]) auto
    qed
    ultimately show ?thesis
      using True p(1) unfolding r extract_div_sval [OF assms(1,3)] by (simp add: bvconcat_def algebra_simps)
  qed
qed

section \<open>Shifts by a constant\<close>

lemma const_child:
  assumes "isConstBV y" and "typeOf y = Some (BITVECTOR_TYPE w)"
  obtains c where "y = CONST_BITVECTOR c" "bv_wf c" "d_size c = w" "in_width w (d_value c)" "0 < w" "w < 2 ^ 32"
proof -
  from assms(1) have "isConst y" by (auto simp: isConstBV_iff isConst_def)
  from const_of_type [OF this assms(2)] obtain c where c: "y = CONST_BITVECTOR c" "bv_wf c" "d_size c = w" "0 < w" "w < 2 ^ 32"
    by metis
  then have "in_width w (d_value c)" by (auto simp: bv_wf_def in_width_def)
  with c that show thesis by metis
qed

lemma amount_cases:
  assumes "in_width w b"
  obtains (zero) "b = 0" | (large) "int w \<le> b" "b \<noteq> 0" | (inside) k where "0 < k" "k < w" "b = int k" "\<not> int w \<le> b"
  using assms that(3) [of "nat b"] by (cases "b = 0"; cases "int w \<le> b") (auto simp: in_width_def nat_less_iff not_le that)

lemma const_shift_rule:
  assumes k: "k = BITVECTOR_SHL \<and> f = bvshl \<or> k = BITVECTOR_LSHR \<and> f = bvlshr \<or> k = BITVECTOR_ASHR \<and> f = bvashr"
    and ap: "applies R = (\<lambda>n. hasKind k n \<and> isConstBV (children n ! 1))"
    and body: "\<And>x w c. typeOf x = Some (BITVECTOR_TYPE w) \<Longrightarrow> valid_width w \<Longrightarrow> bv_wf c \<Longrightarrow> d_size c = w \<Longrightarrow>
      in_width w (d_value c) \<Longrightarrow> 0 < w \<Longrightarrow> w < 2 ^ 32 \<Longrightarrow>
      \<exists>m. apply_rule R (App k [x, CONST_BITVECTOR c]) = Inr m \<and> typeOf m = Some (BITVECTOR_TYPE w) \<and>
        (\<forall>I a. eval I x = VBV w a \<longrightarrow> in_width w a \<longrightarrow> eval I m = VBV w (f w a (d_value c)))"
  shows "rule_sound opt R"
proof (rule binary_rule [of k])
  show "binary_kind k" using k by auto
  show "hasKind k n" if "applies R n" for n using that by (simp add: ap)
  fix x y w t
  assume x: "typeOf x = Some (BITVECTOR_TYPE w)" and y: "typeOf y = Some (BITVECTOR_TYPE w)" and w: "valid_width w"
    and t: "typeOf (App k [x, y]) = Some t" and a: "applies R (App k [x, y])"
  from a have "isConstBV y" by (simp add: ap)
  from const_child [OF this y] obtain c where c: "y = CONST_BITVECTOR c" "bv_wf c" "d_size c = w" "in_width w (d_value c)"
    "0 < w" "w < 2 ^ 32" by metis
  have t': "t = BITVECTOR_TYPE w" using t x y k by (auto simp: typing_simps)
  show "\<exists>m. apply_rule R (App k [x, y]) = Inr m \<and> typeOf m = Some t \<and>
      (\<forall>I a b. wf_interp I \<longrightarrow> zero_division opt I \<longrightarrow> eval I x = VBV w a \<longrightarrow> eval I y = VBV w b \<longrightarrow>
        in_width w a \<longrightarrow> in_width w b \<longrightarrow> eval I m = eval I (App k [x, y]))"
    using body [OF x w c(2-6)] k c(1,3) by (auto simp: t')
qed

context gmp_documented
begin

lemma ShlByConst_sound: "rule_sound opt (ShlByConst G)"
proof (rule const_shift_rule [of BITVECTOR_SHL bvshl])
  fix x w c
  assume x: "typeOf x = Some (BITVECTOR_TYPE w)" "valid_width w"
    and c: "bv_wf c" "d_size c = w" "in_width w (d_value c)" "0 < w" "w < 2 ^ 32"
  from c(3) show "\<exists>m. apply_rule (ShlByConst G) (App BITVECTOR_SHL [x, CONST_BITVECTOR c]) = Inr m \<and>
      typeOf m = Some (BITVECTOR_TYPE w) \<and>
      (\<forall>I a. eval I x = VBV w a \<longrightarrow> in_width w a \<longrightarrow> eval I m = VBV w (bvshl w a (d_value c)))"
  proof (cases rule: amount_cases)
    case (inside k)
    let ?m = "mkConcat2 (mkExtract x (w - 1 - k) 0) (CONST_BITVECTOR (BitVector G k 0))"
    have "apply_rule (ShlByConst G) (App BITVECTOR_SHL [x, CONST_BITVECTOR c]) = Inr ?m"
      using inside c x by (simp add: ShlByConst_def Let_def)
    moreover have "typeOf ?m = Some (BITVECTOR_TYPE w)"
      using inside c x by (auto simp: typing_simps)
    moreover have "eval I ?m = VBV w (bvshl w a (d_value c))" if "eval I x = VBV w a" for I a
      using inside shl_slices [of k w a]
      by (simp add: eval_mkConcat2 [OF eval_mkExtract [OF that]] bvshl_def)
    ultimately show ?thesis by blast
  qed (use x c typeOf_BitVector [OF x(2)] bvshl_large [of w "d_value c"] in \<open>auto simp: ShlByConst_def bvshl_def\<close>)
qed (auto simp: ShlByConst_def)

lemma LshrByConst_sound: "rule_sound opt (LshrByConst G)"
proof (rule const_shift_rule [of BITVECTOR_LSHR bvlshr])
  fix x w c
  assume x: "typeOf x = Some (BITVECTOR_TYPE w)" "valid_width w"
    and c: "bv_wf c" "d_size c = w" "in_width w (d_value c)" "0 < w" "w < 2 ^ 32"
  from c(3) show "\<exists>m. apply_rule (LshrByConst G) (App BITVECTOR_LSHR [x, CONST_BITVECTOR c]) = Inr m \<and>
      typeOf m = Some (BITVECTOR_TYPE w) \<and>
      (\<forall>I a. eval I x = VBV w a \<longrightarrow> in_width w a \<longrightarrow> eval I m = VBV w (bvlshr w a (d_value c)))"
  proof (cases rule: amount_cases)
    case (inside k)
    let ?m = "mkConcat2 (CONST_BITVECTOR (BitVector G k 0)) (mkExtract x (w - 1) k)"
    have "apply_rule (LshrByConst G) (App BITVECTOR_LSHR [x, CONST_BITVECTOR c]) = Inr ?m"
      using inside c x by (simp add: LshrByConst_def Let_def)
    moreover have "typeOf ?m = Some (BITVECTOR_TYPE w)"
      using inside c x by (auto simp: typing_simps)
    moreover have "eval I ?m = VBV w (bvlshr w a (d_value c))" if "eval I x = VBV w a" "in_width w a" for I a
    proof -
      have "k + (w - 1 - k + 1) = w" "w - 1 - k + 1 = w - k" using inside by auto
      then show ?thesis
        using inside lshr_slices [OF that(2) inside(2)]
        by (simp add: eval_mkConcat2 [OF _ eval_mkExtract [OF that(1)]] bvlshr_def del: add_Suc_right)
    qed
    ultimately show ?thesis by blast
  qed (use x c typeOf_BitVector [OF x(2)] bvlshr_large [of w _ "d_value c"] in \<open>auto simp: LshrByConst_def bvlshr_def\<close>)
qed (auto simp: LshrByConst_def)

lemma ashr_large:
  assumes "in_width w a" and "int w \<le> b"
  shows "bvashr w a b = of_bool (msb w a) * (2 ^ w - 1)"
proof -
  have le: "(2 :: int) ^ w \<le> 2 ^ nat b" using assms(2) by (intro power_increasing) auto
  show ?thesis
  proof (cases "msb w a")
    case True
    have "- (2 ^ nat b) \<le> a - 2 ^ w" "a - 2 ^ w < 0" using le assms(1) unfolding in_width_def by linarith+
    then have "(a - 2 ^ w) div 2 ^ nat b = - 1" by (rule int_neg_div_pow2)
    then show ?thesis using True by (simp add: bvashr_def sval_def msb_def zmod_minus1)
  next
    case False
    have "0 \<le> a" "a < 2 ^ nat b" using le assms(1) unfolding in_width_def by linarith+
    then have "a div 2 ^ nat b = 0" by simp
    then show ?thesis using False by (simp add: bvashr_def sval_def msb_def)
  qed
qed

lemma AshrByConst_sound: "rule_sound opt (AshrByConst G)"
proof (rule const_shift_rule [of BITVECTOR_ASHR bvashr])
  fix x w c
  assume x: "typeOf x = Some (BITVECTOR_TYPE w)" "valid_width w"
    and c: "bv_wf c" "d_size c = w" "in_width w (d_value c)" "0 < w" "w < 2 ^ 32"
  let ?s = "mkExtract x (w - 1) (w - 1)"
  have s: "typeOf ?s = Some (BITVECTOR_TYPE (Suc 0))" using typeOf_mkExtract [OF x(1), of "w - 1" "w - 1"] c by simp
  have ev: "eval I ?s = VBV (Suc 0) (of_bool (msb w a))" if "eval I x = VBV w a" "in_width w a" for I a
    using eval_mkExtract [OF that(1), of "w - 1" "w - 1"] extract_msb [OF that(2) c(4)] by simp
  from c(3) show "\<exists>m. apply_rule (AshrByConst G) (App BITVECTOR_ASHR [x, CONST_BITVECTOR c]) = Inr m \<and>
      typeOf m = Some (BITVECTOR_TYPE w) \<and>
      (\<forall>I a. eval I x = VBV w a \<longrightarrow> in_width w a \<longrightarrow> eval I m = VBV w (bvashr w a (d_value c)))"
  proof (cases rule: amount_cases)
    case zero
    have "bvashr w a 0 = a" if "in_width w a" for a using that by (auto simp: bvashr_def sval_def)
    then show ?thesis using zero x by (simp add: AshrByConst_def Let_def)
  next
    case large
    have "apply_rule (AshrByConst G) (App BITVECTOR_ASHR [x, CONST_BITVECTOR c]) = Inr (mkConcat_repeat ?s w)"
      using large c x by (simp add: AshrByConst_def Let_def)
    then show ?thesis
      using mkConcat_repeat(1) [OF c(4) s] mkConcat_repeat(2) [OF c(4) ev] c(5) ashr_large [OF _ large(1)] bvrepeat_bit
      by auto
  next
    case (inside k)
    let ?m = "mkConcat2 (mkConcat_repeat ?s k) (mkExtract x (w - 1) k)"
    have "apply_rule (AshrByConst G) (App BITVECTOR_ASHR [x, CONST_BITVECTOR c]) = Inr ?m"
      using inside c x by (simp add: AshrByConst_def Let_def)
    moreover have sum: "k * Suc 0 + (w - 1 - k + 1) = w" "w - 1 - k + 1 = w - k" using inside by auto
    then have "typeOf ?m = Some (BITVECTOR_TYPE w)"
      using typeOf_mkConcat2 [OF mkConcat_repeat(1) [OF inside(1) s] typeOf_mkExtract [OF x(1), of k "w - 1"]] inside c
      by simp
    moreover have "eval I ?m = VBV w (bvashr w a (d_value c))" if "eval I x = VBV w a" "in_width w a" for I a
      using eval_mkConcat2 [OF mkConcat_repeat(2) [OF inside(1) eval_mkExtract [OF that(1)]] eval_mkExtract [OF that(1)],
          of "w - 1" "w - 1" "w - 1" k] ashr_slices [OF that(2) inside(1,2)] sum inside(3)
      by (simp add: bvashr_def)
    ultimately show ?thesis by blast
  qed
qed (auto simp: AshrByConst_def)

lemma ShiftZero_sound: "rule_sound opt (ShiftZero G)"
proof (rule rule_soundI)
  fix n t assume n: "typeOf n = Some t" "applies (ShiftZero G) n"
  then obtain k ns where k: "n = App k ns" "k = BITVECTOR_SHL \<or> k = BITVECTOR_LSHR \<or> k = BITVECTOR_ASHR"
    "ns ! 0 = mkConst G (getSize n) 0" by (auto simp: ShiftZero_def hasKind_iff)
  with n(1) binary_children [of k ns t] obtain x y w where xy: "ns = [x, y]" "typeOf x = Some (BITVECTOR_TYPE w)"
    "typeOf y = Some (BITVECTOR_TYPE w)" "valid_width w" by (metis binary_kinds(12-14))
  have t: "t = BITVECTOR_TYPE w" using n(1) k xy by (auto simp: typing_simps)
  have sz: "getSize n = w" using n(1) t by simp
  have x0: "eval I x = VBV w 0" for I using k(3) xy(1) sz by simp
  have "eval I x = eval I n" if I: "wf_interp I" for I
  proof -
    obtain b where "eval I y = VBV w b" using typed_bv_value [OF xy(3) I] by metis
    then show ?thesis using x0 [of I] k(2) by (auto simp: k(1) xy(1) bvshl_def bvlshr_def bvashr_def sval_def)
  qed
  then show "sound_result opt n (apply_rule (ShiftZero G) n)"
    using n(1) xy t by (auto simp: ShiftZero_def k(1) same_meaning_def)
qed

section \<open>Division\<close>

lemma UdivOne_sound: "rule_sound opt (UdivOne G)"
  by (rule binary_rule [of BITVECTOR_UDIV_TOTAL])
    (auto simp: UdivOne_def typing_simps bvudiv_def)

lemma UremOne_sound: "rule_sound opt (UremOne G)"
  by (rule binary_rule [of BITVECTOR_UREM_TOTAL])
    (auto simp: UremOne_def typing_simps bvurem_def)

lemma UremSelf_sound: "rule_sound opt (UremSelf G)"
  by (rule binary_rule [of BITVECTOR_UREM_TOTAL])
    (auto simp: UremSelf_def typing_simps bvurem_def)

lemma pow2_child:
  assumes "isPow2Const G y \<noteq> 0" and y: "typeOf y = Some (BITVECTOR_TYPE w)"
  obtains k where "k < w" "w < 2 ^ 32" "isPow2Const G y = k + 1" "\<And>I. eval I y = VBV w (2 ^ k)"
proof -
  from assms(1) have "isConstBV y" by (auto simp: isPow2Const_def isConstBV_iff split: node.splits)
  from const_child [OF this y] obtain c where c: "y = CONST_BITVECTOR c" "d_size c = w" "in_width w (d_value c)" "w < 2 ^ 32"
    by metis
  with assms(1) have "Integer_isPow2 G (d_value c) \<noteq> 0" by (simp add: isPow2Const_def BitVector_isPow2_def)
  from isPow2_nonzero [OF this] obtain k where k: "d_value c = 2 ^ k" by blast
  with c(3) have "k < w" by (simp add: in_width_def)
  moreover from this c(4) isPow2_power [of k] have "isPow2Const G y = k + 1"
    by (simp add: isPow2Const_def BitVector_isPow2_def c(1) k)
  ultimately show thesis using that c k by simp
qed

lemma UdivPow2_sound: "rule_sound opt (UdivPow2 G)"
proof (rule binary_rule [of BITVECTOR_UDIV_TOTAL])
  fix x y w t
  assume x: "typeOf x = Some (BITVECTOR_TYPE w)" and y: "typeOf y = Some (BITVECTOR_TYPE w)" and w: "valid_width w"
    and t: "typeOf (App BITVECTOR_UDIV_TOTAL [x, y]) = Some t" and a: "applies (UdivPow2 G) (App BITVECTOR_UDIV_TOTAL [x, y])"
  have "isPow2Const G y \<noteq> 0" using a by (simp add: UdivPow2_def)
  from pow2_child [OF this y] obtain k where k: "k < w" "w < 2 ^ 32" "isPow2Const G y = k + 1" "\<And>I. eval I y = VBV w (2 ^ k)"
    by metis
  have t': "t = BITVECTOR_TYPE w" using t x y by (auto simp: typing_simps)
  have sz: "getSize (App BITVECTOR_UDIV_TOTAL [x, y]) = w" using t t' by simp
  show "\<exists>m. apply_rule (UdivPow2 G) (App BITVECTOR_UDIV_TOTAL [x, y]) = Inr m \<and> typeOf m = Some t \<and>
      (\<forall>I a b. wf_interp I \<longrightarrow> zero_division opt I \<longrightarrow> eval I x = VBV w a \<longrightarrow> eval I y = VBV w b \<longrightarrow>
        in_width w a \<longrightarrow> in_width w b \<longrightarrow> eval I m = eval I (App BITVECTOR_UDIV_TOTAL [x, y]))"
  proof (cases "k = 0")
    case True
    then show ?thesis using k x t' by (simp add: UdivPow2_def bvudiv_def)
  next
    case False
    let ?m = "mkConcat2 (mkConst G k 0) (mkExtract x (w - 1) k)"
    have sum: "k + (w - 1 - k + 1) = w" "w - 1 - k + 1 = w - k" using k by auto
    have "apply_rule (UdivPow2 G) (App BITVECTOR_UDIV_TOTAL [x, y]) = Inr ?m"
      using False k sz by (simp add: UdivPow2_def Let_def mkConcat2_def)
    moreover have "typeOf ?m = Some (BITVECTOR_TYPE w)"
      using typeOf_mkConcat2 [OF typeOf_mkConst typeOf_mkExtract [OF x, of k "w - 1"], of k 0] sum False k
      by (simp add: valid_width_def)
    moreover have "eval I ?m = eval I (App BITVECTOR_UDIV_TOTAL [x, y])" if "eval I x = VBV w a" "in_width w a" for I a
      using eval_mkConcat2 [OF eval_mkConst eval_mkExtract [OF that(1)], of k 0 "w - 1" k] lshr_slices [OF that(2) k(1)] sum k(4) that(1)
      by (simp add: bvudiv_def)
    ultimately show ?thesis unfolding t' by blast
  qed
qed (auto simp: UdivPow2_def)

lemma UremPow2_sound: "rule_sound opt (UremPow2 G)"
proof (rule binary_rule [of BITVECTOR_UREM_TOTAL])
  fix x y w t
  assume x: "typeOf x = Some (BITVECTOR_TYPE w)" and y: "typeOf y = Some (BITVECTOR_TYPE w)" and w: "valid_width w"
    and t: "typeOf (App BITVECTOR_UREM_TOTAL [x, y]) = Some t" and a: "applies (UremPow2 G) (App BITVECTOR_UREM_TOTAL [x, y])"
  have "isPow2Const G y \<noteq> 0" using a by (simp add: UremPow2_def)
  from pow2_child [OF this y] obtain k where k: "k < w" "w < 2 ^ 32" "isPow2Const G y = k + 1" "\<And>I. eval I y = VBV w (2 ^ k)"
    by metis
  have t': "t = BITVECTOR_TYPE w" using t x y by (auto simp: typing_simps)
  have sz: "getSize (App BITVECTOR_UREM_TOTAL [x, y]) = w" using t t' by simp
  show "\<exists>m. apply_rule (UremPow2 G) (App BITVECTOR_UREM_TOTAL [x, y]) = Inr m \<and> typeOf m = Some t \<and>
      (\<forall>I a b. wf_interp I \<longrightarrow> zero_division opt I \<longrightarrow> eval I x = VBV w a \<longrightarrow> eval I y = VBV w b \<longrightarrow>
        in_width w a \<longrightarrow> in_width w b \<longrightarrow> eval I m = eval I (App BITVECTOR_UREM_TOTAL [x, y]))"
  proof (cases "k = 0")
    case True
    then show ?thesis using k x w t' sz by (simp add: UremPow2_def bvurem_def)
  next
    case False
    let ?m = "mkConcat2 (mkConst G (w - k) 0) (mkExtract x (k - 1) 0)"
    have sum: "w - k + (k - 1 - 0 + 1) = w" "k - 1 - 0 + 1 = k" using False k by auto
    have "apply_rule (UremPow2 G) (App BITVECTOR_UREM_TOTAL [x, y]) = Inr ?m"
      using False k sz by (simp add: UremPow2_def Let_def mkConcat2_def)
    moreover have "typeOf ?m = Some (BITVECTOR_TYPE w)"
      using typeOf_mkConcat2 [OF typeOf_mkConst typeOf_mkExtract [OF x, of 0 "k - 1"], of "w - k" 0] sum False k
      by (simp add: valid_width_def)
    moreover have "eval I ?m = eval I (App BITVECTOR_UREM_TOTAL [x, y])" if "eval I x = VBV w a" "in_width w a" for I a
      using eval_mkConcat2 [OF eval_mkConst eval_mkExtract [OF that(1)], of "w - k" 0 "k - 1" 0] sum k(4) that(1)
      by (simp add: bvurem_def bvconcat_def bvextract_def)
    ultimately show ?thesis unfolding t' by blast
  qed
qed (auto simp: UremPow2_def)

end

section \<open>Exclusive or\<close>

lemma xor_ones:
  assumes "in_width w a"
  shows "xor (2 ^ w - 1) a = bvnot w a"
proof -
  have "xor (mask w) a = take_bit w (not a)"
    using in_width_not_bit [OF assms] by (auto simp: bit_eq_iff bit_simps)
  also have "\<dots> = mask w - a" using assms by (simp add: take_bit_not_eq_mask_diff in_width_take_bit)
  finally show ?thesis by (simp add: bvnot_def mask_eq_exp_minus_1)
qed

lemma nary_units_nodes:
  assumes k: "k \<in> nary_kinds" and ns: "all_of_width w ns" and I: "wf_interp I"
    and u: "\<And>n. n \<in> set ns \<Longrightarrow> \<not> P n \<Longrightarrow> eval I n = VBV w (nary_unit k w)"
  shows "nary_value k w (values I (filter P ns)) = nary_value k w (values I ns)"
  using ns u
proof (induction ns)
  case (Cons n ns)
  have "in_width w (nary_value k w (values I ns))"
    using nary_value_closed [OF k values_in_width [OF _ I]] Cons.prems(1) by simp
  then have "nary_op k w (nary_unit k w) (nary_value k w (values I ns)) = nary_value k w (values I ns)"
    by (rule width_monoid.unit_left [OF nary_monoid [OF k]])
  with Cons show ?case by (auto simp: nary_value_simps)
qed simp

lemma xor_ones_nodes:
  assumes ns: "all_of_width w ns" and I: "wf_interp I"
    and u: "\<And>n. n \<in> set ns \<Longrightarrow> \<not> P n \<Longrightarrow> eval I n = VBV w (2 ^ w - 1)"
  shows "nary_value BITVECTOR_XOR w (values I ns) =
    (let v = nary_value BITVECTOR_XOR w (values I (filter P ns))
     in if odd (length (filter (\<lambda>n. \<not> P n) ns)) then bvnot w v else v)"
  using ns u
proof (induction ns)
  case (Cons n ns)
  let ?v = "nary_value BITVECTOR_XOR w (values I (filter P ns))"
  have all: "all_of_width w (filter P ns)" using Cons.prems(1) by (auto simp: all_of_width_def list_all_iff)
  have v: "in_width w ?v" using nary_value_closed [OF _ values_in_width [OF all I]] by simp
  have x: "xor (v_int (eval I n)) (bvnot w ?v) = bvnot w (xor (v_int (eval I n)) ?v)"
  proof -
    obtain a where a: "eval I n = VBV w a" "in_width w a" using Cons.prems(1) typed_bv_value [OF _ I] by (metis all_of_width_simps(2))
    then show ?thesis using v by (simp flip: xor_ones add: xor.left_commute)
  qed
  have nn: "xor (2 ^ w - 1) (bvnot w ?v) = ?v" using v by (simp add: xor_ones in_width_def bvnot_def)
  show ?case
    using Cons x nn xor_ones [OF v] by (auto simp: nary_value_simps Let_def)
qed (simp add: nary_value_simps)

lemma filter_width: "all_of_width w ns \<Longrightarrow> all_of_width w (filter P ns)"
  by (auto simp: all_of_width_def list_all_iff)

context gmp_documented
begin

lemma XorZero_sound:
  assumes n: "typeOf n = Some t" "applies (XorZero G) n"
    and some: "\<exists>c\<in>set (children n). c \<noteq> mkConst G (getSize n) 0"
  shows "sound_result opt n (apply_rule (XorZero G) n)"
proof -
  obtain ns where ns: "n = App BITVECTOR_XOR ns" using n(2) by (auto simp: XorZero_def hasKind_iff split: if_splits)
  with n(1) obtain w where w: "ns \<noteq> []" "all_of_width w ns" "t = BITVECTOR_TYPE w" using typeOf_nary_nonempty [of BITVECTOR_XOR ns t] by auto
  have sz: "getSize n = w" using n(1) w by simp
  let ?cs = "filter (\<lambda>c. c \<noteq> mkConst G w 0) ns"
  have cs: "?cs \<noteq> []" "all_of_width w ?cs" using some sz filter_width [OF w(2)] by (auto simp: ns filter_empty_conv)
  have "eval I (mkNode BITVECTOR_XOR ?cs) = eval I n" if "wf_interp I" for I
    using mkNode_nary(2) [OF _ cs that] eval_nary [OF _ w(1,2) that] nary_units_nodes [OF _ w(2) that, of BITVECTOR_XOR "\<lambda>c. c \<noteq> mkConst G w 0"]
    by (simp add: ns del: eval.simps)
  then have "same_meaning opt (mkNode BITVECTOR_XOR ?cs) n"
    using mkNode_nary(1) [OF _ cs] n(1) w(3) by (auto simp: same_meaning_def)
  then show ?thesis using sz by (simp add: XorZero_def ns)
qed

lemma XorOne_sound:
  assumes n: "typeOf n = Some t" "applies (XorOne G) n"
    and some: "\<exists>c\<in>set (children n). c \<noteq> mkOnes G (getSize n)"
  shows "sound_result opt n (apply_rule (XorOne G) n)"
proof -
  obtain ns where ns: "n = App BITVECTOR_XOR ns" using n(2) by (auto simp: XorOne_def hasKind_iff split: if_splits)
  with n(1) obtain w where w: "ns \<noteq> []" "all_of_width w ns" "t = BITVECTOR_TYPE w" using typeOf_nary_nonempty [of BITVECTOR_XOR ns t] by auto
  have sz: "getSize n = w" and vw: "valid_width w" using n(1) w typeOf_valid [OF n(1)] by simp_all
  let ?cs = "filter (\<lambda>c. c \<noteq> mkOnes G w) ns"
  let ?m = "mkNode BITVECTOR_XOR ?cs"
  let ?odd = "odd (length (filter (\<lambda>c. c = mkOnes G w) ns))"
  have cs: "?cs \<noteq> []" "all_of_width w ?cs" using some sz filter_width [OF w(2)] by (auto simp: ns filter_empty_conv)
  have t: "typeOf ?m = Some (BITVECTOR_TYPE w)" using mkNode_nary(1) [OF _ cs] by simp
  have "eval I (if ?odd then App BITVECTOR_NOT [?m] else ?m) = eval I n" if "wf_interp I" for I
  proof -
    have m: "eval I ?m = VBV w (nary_value BITVECTOR_XOR w (values I ?cs))" using mkNode_nary(2) [OF _ cs that] by simp
    have "eval I n = VBV w (nary_value BITVECTOR_XOR w (values I ns))" using eval_nary [OF _ w(1,2) that] by (simp add: ns del: eval.simps)
    also have "nary_value BITVECTOR_XOR w (values I ns) =
        (let v = nary_value BITVECTOR_XOR w (values I ?cs) in if ?odd then bvnot w v else v)"
      using xor_ones_nodes [OF w(2) that, of "\<lambda>c. c \<noteq> mkOnes G w"] vw by simp
    finally show ?thesis using m by (simp add: Let_def)
  qed
  moreover have "typeOf (if ?odd then App BITVECTOR_NOT [?m] else ?m) = Some t"
    using t w(3) vw by (simp add: typing_simps)
  ultimately have "same_meaning opt (if ?odd then App BITVECTOR_NOT [?m] else ?m) n"
    using n(1) unfolding same_meaning_def by presburger
  moreover have "apply_rule (XorOne G) n = Inr (if ?odd then App BITVECTOR_NOT [?m] else ?m)"
    using sz by (simp add: XorOne_def ns Let_def)
  ultimately show ?thesis by (simp only: sound_result_Inr)
qed

end

lemma NotXor_sound: "rule_sound opt (NotXor lt)"
proof (rule unary_rule [of BITVECTOR_NOT])
  fix y w t
  assume y: "typeOf y = Some (BITVECTOR_TYPE w)" and w: "valid_width w" and t: "typeOf (App BITVECTOR_NOT [y]) = Some t"
    and a: "applies (NotXor lt) (App BITVECTOR_NOT [y])"
  from a obtain ns where ns: "y = App BITVECTOR_XOR ns" by (auto simp: NotXor_def hasKind_iff)
  then obtain c cs where c: "ns = c # cs" "all_of_width w ns" using y typeOf_nary_iff [of BITVECTOR_XOR ns] by (cases ns) auto
  let ?ms = "App BITVECTOR_NOT [c] # cs"
  have ms: "?ms \<noteq> []" "all_of_width w ?ms" using c w by (auto simp: typing_simps)
  have ev: "eval I (mkSortedNode lt BITVECTOR_XOR ?ms) = eval I (App BITVECTOR_NOT [y])" if I: "wf_interp I" for I
  proof -
    have "all_of_width w cs" and tc: "typeOf c = Some (BITVECTOR_TYPE w)" using c by auto
    then have v: "in_width w (nary_value BITVECTOR_XOR w (values I cs))" using nary_value_closed [OF _ values_in_width [OF _ I]] by simp
    obtain b where b: "eval I c = VBV w b" "in_width w b" using typed_bv_value [OF tc I] by metis
    have "eval I y = VBV w (xor b (nary_value BITVECTOR_XOR w (values I cs)))"
      using eval_nary [OF _ _ c(2) I, of BITVECTOR_XOR] b c(1) by (simp add: ns nary_value_simps del: eval.simps)
    moreover have "xor (bvnot w b) (nary_value BITVECTOR_XOR w (values I cs)) = bvnot w (xor b (nary_value BITVECTOR_XOR w (values I cs)))"
      using b v by (simp flip: xor_ones add: xor.assoc)
    ultimately show ?thesis
      using mkSortedNode_nary(2) [OF _ ms I, of BITVECTOR_XOR lt] b by (simp add: nary_value_simps)
  qed
  have "t = BITVECTOR_TYPE w" using t y by (auto simp: typing_simps)
  then show "\<exists>m. apply_rule (NotXor lt) (App BITVECTOR_NOT [y]) = Inr m \<and> typeOf m = Some t \<and>
      (\<forall>I a. wf_interp I \<longrightarrow> zero_division opt I \<longrightarrow> eval I y = VBV w a \<longrightarrow> in_width w a \<longrightarrow>
        eval I m = eval I (App BITVECTOR_NOT [y]))"
    using mkSortedNode_nary(1) [OF _ ms, of BITVECTOR_XOR lt] ev by (auto simp: NotXor_def ns c(1) Let_def)
qed (auto simp: NotXor_def)

section \<open>Sums and products\<close>

lemma plus_neg_values:
  assumes "all_of_width w ns" and I: "wf_interp I"
  shows "(sum_list (values I (map (\<lambda>c. if hasKind BITVECTOR_NEG c then App BITVECTOR_NOT [children c ! 0] else c) ns)) +
      int (length (filter (hasKind BITVECTOR_NEG) ns))) mod 2 ^ w = sum_list (values I ns) mod 2 ^ w"
  using assms(1)
proof (induction ns)
  case (Cons n ns)
  let ?g = "\<lambda>c. if hasKind BITVECTOR_NEG c then App BITVECTOR_NOT [children c ! 0] else c"
  let ?S = "sum_list (values I (map ?g ns))" and ?c = "int (length (filter (hasKind BITVECTOR_NEG) ns))"
  have IH: "(?S + ?c) mod 2 ^ w = sum_list (values I ns) mod 2 ^ w" using Cons by simp
  have n: "(v_int (eval I (?g n)) + of_bool (hasKind BITVECTOR_NEG n)) mod 2 ^ w = v_int (eval I n) mod 2 ^ w"
  proof (cases "hasKind BITVECTOR_NEG n")
    case True
    then obtain ms where ms: "n = App BITVECTOR_NEG ms" by (auto simp: hasKind_iff)
    have "typeOf n = Some (BITVECTOR_TYPE w)" using Cons.prems by simp
    from unary_children [OF this [unfolded ms] unary_kinds(2)] obtain x v where
      x: "ms = [x]" "typeOf x = Some (BITVECTOR_TYPE v)" by metis
    then have "v = w" using Cons.prems by (auto simp: ms typing_simps)
    then obtain a where "eval I x = VBV w a" using typed_bv_value [OF x(2) I] by metis
    then have "v_int (eval I (?g n)) = 2 ^ w - 1 - a" "v_int (eval I n) = (- a) mod 2 ^ w"
      by (simp_all add: hasKind_def ms x(1) bvnot_def bvneg_def)
    then show ?thesis using True by (simp add: mod_simps)
  qed simp
  have "(v_int (eval I (?g n)) + of_bool (hasKind BITVECTOR_NEG n) + (?S + ?c)) mod 2 ^ w =
      (v_int (eval I n) + sum_list (values I ns)) mod 2 ^ w"
    by (rule mod_add_cong [OF n IH])
  then show ?case by (cases "hasKind BITVECTOR_NEG n") (simp_all add: algebra_simps)
qed simp

context gmp_documented
begin

lemma BBPlusNeg_sound: "rule_sound opt (BBPlusNeg G)"
proof (rule rule_soundI)
  fix n t assume n: "typeOf n = Some t" "applies (BBPlusNeg G) n"
  then obtain ns where ns: "n = App BITVECTOR_PLUS ns" by (auto simp: BBPlusNeg_def hasKind_iff split: if_splits)
  with n(1) obtain w where w: "ns \<noteq> []" "all_of_width w ns" "t = BITVECTOR_TYPE w"
    using typeOf_nary_nonempty [of BITVECTOR_PLUS ns t] by auto
  have sz: "getSize n = w" and vw: "valid_width w" using n(1) w typeOf_valid [OF n(1)] by simp_all
  let ?g = "\<lambda>c. if hasKind BITVECTOR_NEG c then App BITVECTOR_NOT [children c ! 0] else c"
  let ?ms = "map ?g ns @ [mkConst G w (length (filter (hasKind BITVECTOR_NEG) ns))]"
  have "typeOf (App BITVECTOR_NOT [children c ! 0]) = Some (BITVECTOR_TYPE w)"
    if c: "typeOf c = Some (BITVECTOR_TYPE w)" "hasKind BITVECTOR_NEG c" for c
  proof -
    from c(2) obtain cs where cs: "c = App BITVECTOR_NEG cs" by (auto simp: hasKind_iff)
    from unary_children [OF c(1) [unfolded cs] unary_kinds(2)] obtain x v where x: "cs = [x]" "typeOf x = Some (BITVECTOR_TYPE v)" by metis
    then show ?thesis using c cs by (auto simp: typing_simps)
  qed
  then have ms: "?ms \<noteq> []" "all_of_width w ?ms" using w(2) vw by (auto simp: all_of_width_def list_all_iff)
  have "eval I (mkNode BITVECTOR_PLUS ?ms) = eval I n" if "wf_interp I" for I
    using mkNode_nary(2) [OF _ ms that] eval_nary [OF _ w(1,2) that] plus_neg_values [OF w(2) that]
    by (simp add: ns nary_value_sum mod_simps del: eval.simps(4))
  then have "same_meaning opt (mkNode BITVECTOR_PLUS ?ms) n"
    using mkNode_nary(1) [OF _ ms] n(1) w(3) by (auto simp: same_meaning_def)
  then show "sound_result opt n (apply_rule (BBPlusNeg G) n)" using sz by (simp add: BBPlusNeg_def ns Let_def)
qed

lemma mult_slices:
  assumes "in_width (2 * h) a" and "in_width (2 * h) b"
  shows "(a mod 2 ^ h * (b mod 2 ^ h) mod 2 ^ (2 * h) + (b div 2 ^ h * (a mod 2 ^ h)) mod 2 ^ h * 2 ^ h +
      (a div 2 ^ h * (b mod 2 ^ h)) mod 2 ^ h * 2 ^ h) mod 2 ^ (2 * h) = a * b mod 2 ^ (2 * h)"
proof -
  define p :: int where "p = 2 ^ h"
  have pp: "(2 :: int) ^ (2 * h) = p * p" by (simp add: p_def mult_2 power_add)
  let ?x = "a div p" and ?y = "a mod p" and ?u = "b div p" and ?v = "b mod p"
  have "a * b = (p * ?x + ?y) * (p * ?u + ?v)" by simp
  also have "\<dots> = ?y * ?v + ?u * ?y * p + ?x * ?v * p + p * p * (?x * ?u)"
    by (simp only: ring_distribs ac_simps)
  finally have ab: "a * b = ?y * ?v + ?u * ?y * p + ?x * ?v * p + p * p * (?x * ?u)" .
  have high: "((c mod p) * p) mod (p * p) = (c * p) mod (p * p)" for c by (simp add: mod_mult_mult2)
  have "(?y * ?v mod (p * p) + ?u * ?y mod p * p + ?x * ?v mod p * p) mod (p * p) = (?y * ?v + ?u * ?y * p + ?x * ?v * p) mod (p * p)"
    by (intro mod_add_cong high mod_mod_trivial)
  also have "\<dots> = a * b mod (p * p)" unfolding ab by simp
  finally show ?thesis unfolding pp by (simp only: p_def)
qed

lemma MultSlice_sound: "rule_sound opt (MultSlice G)"
proof (rule rule_soundI)
  fix n t assume n: "typeOf n = Some t" "applies (MultSlice G) n"
  then obtain a b where ns: "n = App BITVECTOR_MULT [a, b]" "getSize a mod 2 = 0"
    by (auto simp: MultSlice_def hasKind_iff length_Suc_conv numeral_2_eq_2 split: if_splits)
  with n(1) obtain w where w: "all_of_width w [a, b]" "t = BITVECTOR_TYPE w"
    using typeOf_nary_iff [of BITVECTOR_MULT "[a, b]" t] by auto
  then have ab: "typeOf a = Some (BITVECTOR_TYPE w)" "typeOf b = Some (BITVECTOR_TYPE w)" by auto
  have vw: "valid_width w" using typeOf_valid [OF ab(1)] by simp
  define h where "h = w div 2"
  have h: "w = 2 * h" "0 < h" "w < 2 ^ 32" using ns(2) ab(1) vw by (auto simp: h_def valid_width_def)
  let ?zeros = "mkConst G h 0" and ?lo = "\<lambda>x. mkExtract x (h - 1) 0" and ?hi = "\<lambda>x. mkExtract x (w - 1) h"
  let ?m = "App BITVECTOR_PLUS
    [App BITVECTOR_MULT [mkConcat2 ?zeros (?lo a), mkConcat2 ?zeros (?lo b)],
     mkConcat2 (App BITVECTOR_MULT [?hi b, ?lo a]) ?zeros, mkConcat2 (App BITVECTOR_MULT [?hi a, ?lo b]) ?zeros]"
  have r: "apply_rule (MultSlice G) n = Inr ?m"
    using ab h by (simp add: MultSlice_def ns(1) Let_def mkConcat2_def)
  have t: "typeOf ?m = Some (BITVECTOR_TYPE w)" using ab h by (simp add: typing_simps) arith
  have "eval I ?m = eval I n" if I: "wf_interp I" for I
  proof -
    obtain x y where xy: "eval I a = VBV w x" "in_width w x" "eval I b = VBV w y" "in_width w y"
      using typed_bv_value [OF ab(1) I] typed_bv_value [OF ab(2) I] by metis
    have ex: "bvextract (w - 1) h x = x div 2 ^ h" "bvextract (w - 1) h y = y div 2 ^ h"
      "bvextract (h - 1) 0 x = x mod 2 ^ h" "bvextract (h - 1) 0 y = y mod 2 ^ h"
      using lshr_slices [of w _ h] bvextract_low [of 0 h] xy(2,4) h by (auto simp: bvconcat_def)
    have e: "eval I (?hi x') = VBV h (bvextract (w - 1) h v)" "eval I (?lo x') = VBV h (bvextract (h - 1) 0 v)"
      if "eval I x' = VBV w v" for x' v
      using eval_mkExtract [OF that, of "w - 1" h] eval_mkExtract [OF that, of "h - 1" 0] h by simp_all
    have c: "eval I (mkConcat2 p q) = VBV w (bvconcat h u v)" if "eval I p = VBV h u" "eval I q = VBV h v" for p q u v
      using eval_mkConcat2 [OF that] h(1) by simp
    have z: "eval I ?zeros = VBV h 0" by simp
    have m2: "eval I (App BITVECTOR_MULT [p, q]) = VBV v (u1 * u2 mod 2 ^ v)" if "eval I p = VBV v u1" "eval I q = VBV v u2" for p q v u1 u2
      using that by (simp add: bvmul_def)
    have p3: "eval I (App BITVECTOR_PLUS [p, q, r]) = VBV w ((u1 + u2 + u3) mod 2 ^ w)"
      if "eval I p = VBV w u1" "eval I q = VBV w u2" "eval I r = VBV w u3" for p q r u1 u2 u3
      using that by (simp add: bvadd_def mod_simps)
    have "eval I ?m = VBV w ((x mod 2 ^ h * (y mod 2 ^ h) mod 2 ^ w + (y div 2 ^ h * (x mod 2 ^ h)) mod 2 ^ h * 2 ^ h +
        (x div 2 ^ h * (y mod 2 ^ h)) mod 2 ^ h * 2 ^ h) mod 2 ^ w)"
      using p3 [OF m2 [OF c [OF z e(2) [OF xy(1)]] c [OF z e(2) [OF xy(3)]]]
          c [OF m2 [OF e(1) [OF xy(3)] e(2) [OF xy(1)]] z] c [OF m2 [OF e(1) [OF xy(1)] e(2) [OF xy(3)]] z]]
      unfolding ex by (simp add: bvconcat_def)
    also have "\<dots> = VBV w (x * y mod 2 ^ w)"
      using mult_slices [of h x y] xy(2,4) unfolding h(1) by simp
    finally show ?thesis using xy by (simp add: ns(1) bvmul_def)
  qed
  then show "sound_result opt n (apply_rule (MultSlice G) n)"
    using n(1) t w(2) by (simp add: r same_meaning_def del: eval.simps)
qed

text \<open>\<open>UdivSelf\<close> keeps the value exactly when the operand is not zero or has width one.\<close>

lemma UdivSelf_value:
  assumes x: "typeOf x = Some (BITVECTOR_TYPE w)" and I: "wf_interp I"
    and r: "apply_rule (UdivSelf G) (App BITVECTOR_UDIV_TOTAL [x, x]) = Inr m"
  shows "eval I m = eval I (App BITVECTOR_UDIV_TOTAL [x, x]) \<longleftrightarrow> v_int (eval I x) \<noteq> 0 \<or> w = 1"
proof -
  have vw: "0 < w" using typeOf_valid [OF x] by (simp add: valid_width_def)
  have "getSize (App BITVECTOR_UDIV_TOTAL [x, x]) = w"
    using x typeOf_valid [OF x] by (intro getSize_typeOf) (simp add: typing_simps)
  with r have m: "eval I m = VBV w 1" using vw by (auto simp: UdivSelf_def)
  obtain a where a: "eval I x = VBV w a" "in_width w a" using typed_bv_value [OF x I] by metis
  have "(2 :: int) ^ w - 1 = 1 \<longleftrightarrow> w = 1"
  proof
    assume "(2 :: int) ^ w - 1 = 1"
    then have "(2 :: int) ^ w = 2 ^ 1" by simp
    then show "w = 1" by (rule power_inject_exp [THEN iffD1, rotated]) simp
  qed simp
  then show ?thesis using m a by (auto simp: bvudiv_def)
qed

lemma UdivSelf_unsound: "\<not> rule_sound opt (UdivSelf G)"
proof
  let ?x = "Variable 0 (BITVECTOR_TYPE 2)"
  let ?n = "App BITVECTOR_UDIV_TOTAL [?x, ?x]"
  assume S: "rule_sound opt (UdivSelf G)"
  have t: "typeOf ?x = Some (BITVECTOR_TYPE 2)" "typeOf ?n = Some (BITVECTOR_TYPE 2)"
    by (simp_all add: typing_simps)
  have "applies (UdivSelf G) ?n" by (simp add: UdivSelf_def hasKind_def)
  with S t(2) obtain m where m: "apply_rule (UdivSelf G) ?n = Inr m" "same_meaning opt m ?n"
    by (auto simp: rule_sound_def sound_result_def)
  have "eval default_interp m = eval default_interp ?n"
    using m(2) wf_interp_default zero_division_default [of opt] by (simp add: same_meaning_def del: eval.simps)
  with UdivSelf_value [OF t(1) wf_interp_default m(1)] show False by (simp add: default_interp_def)
qed

end

section \<open>Sign extension\<close>

lemma sval_sign_extend:
  assumes "in_width w a" and "0 < w"
  shows "sval (w + m) (sval w a mod 2 ^ (w + m)) = sval w a"
proof -
  have p: "(2 :: int) ^ (w + m) = 2 * 2 ^ (w + m - 1)" "(2 :: int) ^ w = 2 * 2 ^ (w - 1)"
    using assms(2) by (auto simp flip: power_Suc)
  have le: "(2 :: int) ^ (w - 1) \<le> 2 ^ (w + m - 1)" by (rule power_increasing) auto
  show ?thesis
  proof (cases "a < 2 ^ (w - 1)")
    case True
    then have "0 \<le> a" "a < 2 ^ (w + m - 1)" using assms(1) le unfolding in_width_def by linarith+
    moreover from this have "a < 2 ^ (w + m)" unfolding p by simp
    ultimately show ?thesis using True by (simp add: sval_def)
  next
    case False
    define z where "z = a - 2 ^ w"
    have z: "- (2 ^ (w + m - 1)) \<le> z" "z < 0" using False assms(1) le unfolding p(2) z_def in_width_def by linarith+
    have "z mod 2 ^ (w + m) = z + 2 ^ (w + m)"
      using z unfolding p by (intro int_mod_pos_eq [of _ _ "-1"]) auto
    moreover have "\<not> z + 2 ^ (w + m) < 2 ^ (w + m - 1)" using z unfolding p by linarith
    ultimately show ?thesis using False by (simp add: sval_def flip: z_def)
  qed
qed

lemma sval_zero_extend: "in_width w a \<Longrightarrow> 0 < m \<Longrightarrow> sval (w + m) a = a"
proof -
  assume a: "in_width w a" "0 < m"
  have "(2 :: int) ^ w \<le> 2 ^ (w + m - 1)" using a(2) by (intro power_increasing) auto
  then have "a < 2 ^ (w + m - 1)" using a unfolding in_width_def by linarith
  then show ?thesis by (simp add: sval_def)
qed

lemma MergeSignExtend_sound: "rule_sound opt MergeSignExtend"
proof (rule rule_soundI)
  fix n t assume n: "typeOf n = Some t" "applies MergeSignExtend n"
  then obtain r ns where ns: "n = App (BITVECTOR_SIGN_EXTEND r) ns" "isSignExtend (ns ! 0) \<or> isZeroExtend (ns ! 0)"
    by (auto simp: MergeSignExtend_def isParam_iff split: if_splits)
  from unary_children [OF n(1) [unfolded ns(1)] unary_kinds(13)] obtain y v where
    y: "ns = [y]" "typeOf y = Some (BITVECTOR_TYPE v)" by metis
  from ns(2) y(1) obtain k m ms where k: "y = App k ms" "k = BITVECTOR_SIGN_EXTEND m \<or> k = BITVECTOR_ZERO_EXTEND m"
    by (auto simp: isParam_iff)
  then have "unary_kind k" by auto
  from unary_children [OF y(2) [unfolded k(1)] this] obtain x w where
    x: "ms = [x]" "typeOf x = Some (BITVECTOR_TYPE w)" "valid_width w" by metis
  have v: "v = w + m" and t: "t = BITVECTOR_TYPE (w + m + r)" and lim: "w + m + r < 2 ^ 32" "0 < w"
    using n(1) y(2) k x by (auto simp: ns(1) y(1) typing_simps)
  let ?m = "if isZeroExtend y \<and> m = 0 then App (BITVECTOR_SIGN_EXTEND r) [x]
    else if isZeroExtend y then App (BITVECTOR_ZERO_EXTEND (r + m)) [x] else App (BITVECTOR_SIGN_EXTEND (r + m)) [x]"
  have res: "apply_rule MergeSignExtend n = Inr ?m"
    using lim k by (auto simp: MergeSignExtend_def ns(1) y(1) x(1) Let_def)
  have tm: "typeOf ?m = Some t" using k x lim by (auto simp: t typing_simps ac_simps)
  have "eval I ?m = eval I n" if I: "wf_interp I" for I
  proof -
    obtain a where a: "eval I x = VBV w a" "in_width w a" using typed_bv_value [OF x(2) I] by metis
    show ?thesis
      using k(2) a sval_sign_extend [OF a(2) lim(2), of m] sval_zero_extend [OF a(2), of m]
        in_width_mod_id [OF in_width_mono [OF a(2), of "m + (r + w)"]]
      by (auto simp: ns(1) y(1) k(1) x(1) isParam_iff bvsign_extend_def ac_simps)
  qed
  then show "sound_result opt n (apply_rule MergeSignExtend n)"
    using n(1) tm by (simp add: res same_meaning_def del: eval.simps split del: if_split)
qed

section \<open>Multiplication by powers of two and leading zeroes\<close>

lemma concat_head_bound:
  assumes "typeOf (App BITVECTOR_CONCAT (c # cs)) = Some (BITVECTOR_TYPE n)" and I: "wf_interp I"
    and c: "\<And>v. eval I c = VBV (getSize c) v \<Longrightarrow> v < 2 ^ (getSize c - z)" "z \<le> getSize c"
  shows "v_int (eval I (App BITVECTOR_CONCAT (c # cs))) < 2 ^ (n - z) \<and> getSize c \<le> n"
proof -
  have cc: "\<forall>x\<in>set (c # cs). bv_typed x" "sum_list (map getSize (c # cs)) = n"
    using assms(1) typeOf_CONCAT_iff [of "c # cs"] by (auto simp: list_all_iff)
  let ?r = "cat_val (map (eval I) cs)" and ?l = "cat_width (map (eval I) cs)"
  have l: "?l = sum_list (map getSize cs)" using cat_width_getSize [of cs I] cc(1) I by (auto simp: list_all_iff)
  have r: "in_width ?l ?r" using cat_val_in_width [of cs I] cc(1) I l by (auto simp: list_all_iff)
  obtain v where v: "eval I c = VBV (getSize c) v" "in_width (getSize c) v" using bv_typed_value [of c I] cc(1) I by auto
  have e: "v_int (eval I (App BITVECTOR_CONCAT (c # cs))) = v * 2 ^ ?l + ?r"
    using eval_CONCAT [of "c # cs" I] cc(1) I v by (simp add: list_all_iff)
  have n: "n - z = (getSize c - z) + ?l" "getSize c \<le> n" using cc(2) l c(2) by auto
  have "v + 1 \<le> 2 ^ (getSize c - z)" using c(1) [OF v(1)] by simp
  then have "(v + 1) * 2 ^ ?l \<le> 2 ^ (getSize c - z) * 2 ^ ?l" by (rule mult_right_mono) simp
  then show ?thesis using r n(2) unfolding e n(1) power_add by (simp add: in_width_def algebra_simps)
qed

context gmp_documented
begin

lemma leading_zeroes_bound:
  assumes "bv_wf b" and "0 < d_size b"
  shows "leading_zeroes G (CONST_BITVECTOR b) \<le> d_size b \<and>
    d_value b < 2 ^ (d_size b - leading_zeroes G (CONST_BITVECTOR b))"
proof -
  note b = bv_wfD [OF assms(1)]
  have sz: "getSize (CONST_BITVECTOR b) = d_size b" using assms by (intro getSize_typeOf) simp
  show ?thesis
  proof (cases "d_value b = 0")
    case False
    let ?l = "Integer_length G (d_value b)"
    have l: "2 ^ (?l - 1) \<le> d_value b" "d_value b < 2 ^ ?l" using length_bounds [OF False] b(3) by auto
    have "(2 :: int) ^ (?l - 1) < 2 ^ d_size b" using l(1) b(4) by linarith
    then have "?l - 1 < d_size b" by (rule power_less_imp_less_exp [rotated]) simp
    then have "?l \<le> d_size b" by linarith
    moreover from this have "leading_zeroes G (CONST_BITVECTOR b) = d_size b - ?l"
      using False sz b(1) by (simp add: leading_zeroes_def Integer_isZero_def Integer_sgn_def Let_def)
    ultimately show ?thesis using l(2) by simp
  qed (use sz in \<open>simp add: leading_zeroes_def Integer_isZero_def Integer_sgn_def\<close>)
qed

lemma const_concat_bound:
  assumes t: "typeOf p = Some (BITVECTOR_TYPE n)" and p: "hasKind BITVECTOR_CONCAT p" "isConst (children p ! 0)" and I: "wf_interp I"
  shows "leading_zeroes G (children p ! 0) \<le> n \<and>
    v_int (eval I p) < 2 ^ (n - leading_zeroes G (children p ! 0))"
proof -
  from p(1) obtain ps where ps: "p = App BITVECTOR_CONCAT ps" by (auto simp: hasKind_iff)
  with t obtain c cs where c: "ps = c # cs" "bv_typed c" by (cases ps) (auto simp: typeOf_CONCAT_iff)
  with p(2) ps have "isConst c" by simp
  from const_of_type [OF this bv_typed_getSize [OF c(2)]] obtain b where
    b: "c = CONST_BITVECTOR b" "bv_wf b" "d_size b = getSize c" "0 < getSize c" by metis
  have "0 < d_size b" using b(3,4) by linarith
  from leading_zeroes_bound [OF b(2) this, folded b(1), unfolded b(3)]
  have lz: "leading_zeroes G c \<le> getSize c" "d_value b < 2 ^ (getSize c - leading_zeroes G c)" by blast+
  have ev: "eval I c = VBV (d_size b) (d_value b)" by (simp add: b(1))
  have "v_int (eval I p) < 2 ^ (n - leading_zeroes G c) \<and> getSize c \<le> n"
    unfolding ps c(1) using t [unfolded ps c(1)] I
    by (rule concat_head_bound) (use lz ev in auto)
  with lz show ?thesis by (simp add: ps c(1))
qed

lemma ExtractMultLeadingBit_sound:
  assumes n: "typeOf n = Some t" "applies (ExtractMultLeadingBit G) n" and w31: "getSize (children n ! 0) < 2 ^ 31"
  shows "sound_result opt n (apply_rule (ExtractMultLeadingBit G) n)"
proof -
  obtain hi lo ns where ns: "n = App (BITVECTOR_EXTRACT hi lo) ns"
    using n(2) by (auto simp: ExtractMultLeadingBit_def isParam_iff split: if_splits)
  from unary_children [OF n(1) [unfolded ns] unary_kinds(10)] obtain m w where
    m: "ns = [m]" "typeOf m = Some (BITVECTOR_TYPE w)" by metis
  obtain p q where pq: "m = App BITVECTOR_MULT [p, q]" "hasKind BITVECTOR_CONCAT p" "hasKind BITVECTOR_CONCAT q"
      "isConst (children p ! 0)" "isConst (children q ! 0)"
      "\<not> u32_sub (u32 (2 * getSize m)) (u32 (leading_zeroes G (children p ! 0) + leading_zeroes G (children q ! 0))) > lo"
    using n(2) by (auto simp: ExtractMultLeadingBit_def ns m(1) hasKind_iff Let_def length_Suc_conv numeral_2_eq_2 split: if_splits)
  have t2: "typeOf p = Some (BITVECTOR_TYPE w)" "typeOf q = Some (BITVECTOR_TYPE w)"
    using m(2) typeOf_nary_iff [of BITVECTOR_MULT "[p, q]"] by (auto simp: pq(1))
  let ?z1 = "leading_zeroes G (children p ! 0)" and ?z2 = "leading_zeroes G (children q ! 0)"
  have w: "w < 2 ^ 31" using w31 m by (simp add: ns)
  have z: "?z1 \<le> w" "?z2 \<le> w"
    using const_concat_bound [OF t2(1) pq(2,4) wf_interp_default] const_concat_bound [OF t2(2) pq(3,5) wf_interp_default] by auto
  then have k: "(w - ?z1) + (w - ?z2) \<le> lo" using pq(6) m(2) w by simp
  obtain l where t: "t = BITVECTOR_TYPE l" using n(1) m by (auto simp: ns typing_simps)
  have "eval I n = VBV l (int 0 mod 2 ^ l)" if I: "wf_interp I" for I
  proof -
    obtain a b where ab: "eval I p = VBV w a" "in_width w a" "eval I q = VBV w b" "in_width w b"
      using typed_bv_value [OF t2(1) I] typed_bv_value [OF t2(2) I] by metis
    have "a < 2 ^ (w - ?z1)" "b < 2 ^ (w - ?z2)"
      using const_concat_bound [OF t2(1) pq(2,4) I] const_concat_bound [OF t2(2) pq(3,5) I] ab by auto
    then have "a * b < 2 ^ (w - ?z1) * 2 ^ (w - ?z2)"
      using ab(2,4) by (intro mult_strict_mono') (auto simp: in_width_def)
    also have "\<dots> \<le> 2 ^ lo" unfolding power_add [symmetric] using k by (intro power_increasing) auto
    finally have "a * b < 2 ^ lo" .
    moreover have "0 \<le> a * b" using ab by (simp add: in_width_def)
    moreover from this have "a * b mod 2 ^ w \<le> a * b" by (rule zmod_le_nonneg_dividend)
    ultimately have "(a * b mod 2 ^ w) div 2 ^ lo = 0" by (intro div_pos_pos_trivial) auto
    then have "eval I n = VBV (hi - lo + 1) 0" using ab by (simp add: ns m(1) pq(1) bvmul_def bvextract_def)
    moreover obtain v where "eval I n = VBV l v" using typed_bv_value [OF n(1) [unfolded t] I] by metis
    ultimately show ?thesis by simp
  qed
  then have "same_meaning opt (mkConst G l 0) n" using n(1) t by (intro same_meaning_mkConst) simp_all
  then show ?thesis using n(1) t by (simp add: ExtractMultLeadingBit_def)
qed

lemma foldl_filter: "foldl (\<lambda>e c. if P c then f e c else e) e ns = foldl f e (filter P ns)"
  by (induction ns arbitrary: e) auto

lemma prod_list_partition: "prod_list (map f ns) = prod_list (map f (filter P ns)) * (prod_list (map f (filter (\<lambda>n. \<not> P n) ns)) :: int)"
  by (induction ns) (auto simp: ac_simps)

text \<open>\<open>MultPow2\<close> runs after \<open>MultSimplify\<close>, which leaves at most one constant, neither zero nor one, beside
  other factors.\<close>

lemma MultPow2_sound:
  assumes n: "typeOf n = Some t" "hasKind BITVECTOR_MULT n"
    and c: "filter (\<lambda>c. isPow2Const G c \<noteq> 0) (children n) = [c]" "isPow2Const G c \<noteq> 1" "2 \<le> length (children n)"
  shows "applies (MultPow2 G) n" and "sound_result opt n (apply_rule (MultPow2 G) n)"
proof -
  obtain ns where ns: "n = App BITVECTOR_MULT ns" using n(2) by (auto simp: hasKind_iff)
  with n(1) obtain w where w: "ns \<noteq> []" "all_of_width w ns" "t = BITVECTOR_TYPE w"
    using typeOf_nary_nonempty [of BITVECTOR_MULT ns t] by auto
  have sz: "getSize n = w" using n(1) w by simp
  let ?P = "\<lambda>c. isPow2Const G c \<noteq> 0"
  let ?cs = "filter (\<lambda>c. isPow2Const G c = 0) ns"
  have cin: "c \<in> set ns" "isPow2Const G c \<noteq> 0" using c(1) filter_eq_Cons_iff [of ?P ns c "[]"] by (auto simp: ns)
  then have "typeOf c = Some (BITVECTOR_TYPE w)" using w(2) by (auto simp: all_of_width_def list_all_iff)
  from pow2_child [OF cin(2) this] obtain k where k: "k < w" "w < 2 ^ 32" "isPow2Const G c = k + 1" "\<And>I. eval I c = VBV w (2 ^ k)"
    by metis
  have k0: "0 < k" using k(3) c(2) by simp
  show "applies (MultPow2 G) n" using cin n(2) by (auto simp: MultPow2_def ns list_ex_iff)
  have "length ?cs + length (filter ?P ns) = length ns"
    using sum_length_filter_compl [of ?P ns] by simp
  then have cs: "?cs \<noteq> []" "all_of_width w ?cs" using c(1,3) filter_width [OF w(2)] by (auto simp: ns)
  have ex: "foldl (\<lambda>e c. if isPow2Const G c \<noteq> 0 then u32 (e + u32_sub (isPow2Const G c) 1) else e) 0 ns = k"
    using c(1) k by (simp add: foldl_filter ns)
  let ?a = "mkNode BITVECTOR_MULT ?cs"
  let ?m = "mkConcat2 (mkExtract ?a (w - 1 - k) 0) (mkConst G k 0)"
  have r: "apply_rule (MultPow2 G) n = Inr ?m"
    using sz k ex by (simp add: MultPow2_def Let_def ns)
  note a = mkNode_nary [OF _ cs, of BITVECTOR_MULT, simplified]
  have sum: "w - 1 - k - 0 + 1 + k = w" using k by simp
  have "typeOf ?m = Some (BITVECTOR_TYPE w)"
    using typeOf_mkConcat2 [OF typeOf_mkExtract [OF a(1), of 0 "w - 1 - k"] typeOf_mkConst, of k 0] sum k k0
    by (simp add: valid_width_def)
  moreover have "eval I ?m = eval I n" if I: "wf_interp I" for I
  proof -
    let ?v = "prod_list (values I ?cs)"
    have "eval I n = VBV w (prod_list (values I ns) mod 2 ^ w)"
      using eval_nary [OF _ w(1,2) I, of BITVECTOR_MULT] by (simp add: ns nary_value_prod del: eval.simps)
    also have "prod_list (values I ns) = 2 ^ k * ?v"
      using prod_list_partition [of "\<lambda>n. v_int (eval I n)" ns ?P] c(1) k(4) by (simp add: ns)
    finally have "eval I n = VBV w (?v * 2 ^ k mod 2 ^ w)" by (simp add: mult.commute)
    moreover have "eval I ?m = VBV w (?v mod 2 ^ w * 2 ^ k mod 2 ^ w)"
      using eval_mkConcat2 [OF eval_mkExtract [OF a(2) [OF I]] eval_mkConst, of "w - 1 - k" 0 k 0] sum shl_slices [OF k(1)]
      by (simp add: nary_value_prod)
    ultimately show ?thesis by (simp add: mod_simps)
  qed
  ultimately show "sound_result opt n (apply_rule (MultPow2 G) n)"
    using n(1) w(3) by (simp add: r same_meaning_def del: eval.simps)
qed

end

end
