(* ===== verification/Rules_Normalization.thy ===== *)
theory Rules_Normalization
  imports Rules_Simplification_Arith
begin

text \<open>
  The normalization rules of \<open>src/src/theory/bv/theory_bv_rewrite_rules_normalization.h\<close> on extraction and
  flattening; \<open>Rules_Products\<close>, \<open>Rules_Linear\<close> and \<open>Rules_Bitwise\<close> hold the others. The vectors used as
  stacks are lists, top first; node order is the parameter \<open>lt\<close>. Every rule here is proved sound. Flattening
  without duplicates visits a shared subterm once: what it has processed in the end is closed under taking
  children, which is why the skipped occurrences do not matter.
\<close>

section \<open>Extraction\<close>

text \<open>\<open>getKind\<close> of a node that is an application; the rules ask for it under a test of the kind.\<close>

definition appKind :: "node \<Rightarrow> kind" where
  "appKind n = (case n of App k ns \<Rightarrow> k | _ \<Rightarrow> EQUAL)"

definition ExtractBitwise :: "(node \<Rightarrow> node \<Rightarrow> bool) \<Rightarrow> rule" where
  "ExtractBitwise lt =
     \<lparr>applies = (\<lambda>node.
        isExtract node \<and>
        (hasKind BITVECTOR_AND (children node ! 0) \<or> hasKind BITVECTOR_OR (children node ! 0) \<or>
         hasKind BITVECTOR_XOR (children node ! 0))),
      apply_rule = (\<lambda>node.
        let high = getExtractHigh node;
            low = getExtractLow node;
            cs = map (\<lambda>c. mkExtract c high low) (children (children node ! 0))
        in Inr (mkSortedNode lt (appKind (children node ! 0)) cs))\<rparr>"

definition ExtractNot :: rule where
  "ExtractNot =
     \<lparr>applies = (\<lambda>node. isExtract node \<and> hasKind BITVECTOR_NOT (children node ! 0)),
      apply_rule = (\<lambda>node.
        let a = mkExtract (children (children node ! 0) ! 0) (getExtractHigh node) (getExtractLow node)
        in Inr (App BITVECTOR_NOT [a]))\<rparr>"

definition ExtractSignExtend :: rule where
  "ExtractSignExtend =
     \<lparr>applies = (\<lambda>node. isExtract node \<and> isSignExtend (children node ! 0)),
      apply_rule = (\<lambda>node.
        let extendee = children (children node ! 0) ! 0;
            extendee_size = getSize extendee;
            high = getExtractHigh node;
            low = getExtractLow node
        in if high < extendee_size then Inr (mkExtract extendee high low)
           else if low < extendee_size \<and> high \<ge> extendee_size
           then
             let low_extract = mkExtract extendee (u32_sub extendee_size 1) low;
                 new_ammount = u32 (u32_sub high extendee_size + 1)
             in Inr (mkSignExtend low_extract new_ammount)
           else
             let top = u32_sub (getSize extendee) 1;
                 most_significant_bit = mkExtract extendee top top
             in Inr (mkNode BITVECTOR_CONCAT (replicate (u32 (u32_sub high low + 1)) most_significant_bit)))\<rparr>"

definition ExtractArith :: rule where
  "ExtractArith =
     \<lparr>applies = (\<lambda>node.
        isExtract node \<and> getExtractLow node = 0 \<and>
        (hasKind BITVECTOR_PLUS (children node ! 0) \<or> hasKind BITVECTOR_MULT (children node ! 0))),
      apply_rule = (\<lambda>node.
        let low = getExtractLow node;
            high = getExtractHigh node;
            cs = map (\<lambda>c. mkExtract c high low) (children (children node ! 0))
        in Inr (mkNode (appKind (children node ! 0)) cs))\<rparr>"

definition ExtractArith2 :: rule where
  "ExtractArith2 =
     \<lparr>applies = (\<lambda>node.
        isExtract node \<and> (hasKind BITVECTOR_PLUS (children node ! 0) \<or> hasKind BITVECTOR_MULT (children node ! 0))),
      apply_rule = (\<lambda>node.
        let low = getExtractLow node;
            high = getExtractHigh node;
            cs = map (\<lambda>c. mkExtract c high 0) (children (children node ! 0));
            op_children = mkNode (appKind (children node ! 0)) cs
        in Inr (mkExtract op_children high low))\<rparr>"

section \<open>Flattening\<close>

lemma size_list_rev [simp]: "size_list f (rev xs) = size_list f xs"
  by (simp add: size_list_conv_sum_list rev_map [symmetric] sum_list_rev)

text \<open>The children of a node are pushed in their order, so that the last one is on top.\<close>

function flatten_loop :: "kind \<Rightarrow> node list \<Rightarrow> node list" where
  "flatten_loop k [] = []"
| "flatten_loop k (current # processingStack) =
     (if hasKind k current then flatten_loop k (rev (children current) @ processingStack)
      else current # flatten_loop k processingStack)"
  by pat_completeness auto

termination
  by (relation "measure (size_list size \<circ> snd)") (auto simp: hasKind_iff)

definition FlattenAssocCommut :: "(node \<Rightarrow> node \<Rightarrow> bool) \<Rightarrow> rule" where
  "FlattenAssocCommut lt =
     \<lparr>applies = (\<lambda>node.
        if \<not> hasKind BITVECTOR_PLUS node \<and> \<not> hasKind BITVECTOR_MULT node \<and> \<not> hasKind BITVECTOR_OR node \<and>
           \<not> hasKind BITVECTOR_XOR node \<and> \<not> hasKind BITVECTOR_AND node
        then False
        else list_ex (hasKind (appKind node)) (children node)),
      apply_rule = (\<lambda>node.
        let k = appKind node;
            cs = flatten_loop k [node]
        in if hasKind BITVECTOR_PLUS node \<or> hasKind BITVECTOR_MULT node then Inr (mkNode k cs)
           else Inr (mkSortedNode lt k cs))\<rparr>"

function flattenNoDup_loop :: "kind \<Rightarrow> node set \<Rightarrow> node list \<Rightarrow> node list" where
  "flattenNoDup_loop k processed [] = []"
| "flattenNoDup_loop k processed (current # processingStack) =
     (if current \<in> processed then flattenNoDup_loop k processed processingStack
      else if hasKind k current
      then flattenNoDup_loop k (insert current processed) (rev (children current) @ processingStack)
      else current # flattenNoDup_loop k (insert current processed) processingStack)"
  by pat_completeness auto

termination
  by (relation "measure (size_list size \<circ> snd \<circ> snd)") (auto simp: hasKind_iff)

definition FlattenAssocCommutNoDuplicates :: "(node \<Rightarrow> node \<Rightarrow> bool) \<Rightarrow> rule" where
  "FlattenAssocCommutNoDuplicates lt =
     \<lparr>applies = (\<lambda>node.
        if \<not> hasKind BITVECTOR_OR node \<and> \<not> hasKind BITVECTOR_AND node then False
        else list_ex (hasKind (appKind node)) (children node)),
      apply_rule = (\<lambda>node.
        let k = appKind node
        in Inr (mkSortedNode lt k (flattenNoDup_loop k {} [node])))\<rparr>"

section \<open>Soundness of the rules on extraction\<close>

lemma unary_same:
  assumes "typeOf (App k ns) = Some (BITVECTOR_TYPE w)" and "k \<in> {BITVECTOR_NOT, BITVECTOR_NEG}"
  shows "\<exists>y. ns = [y] \<and> typeOf y = Some (BITVECTOR_TYPE w)"
proof -
  have "unary_kind k" using assms(2) by auto
  from unary_children [OF assms(1) this] obtain y v where y: "ns = [y]" "typeOf y = Some (BITVECTOR_TYPE v)" by metis
  with assms show ?thesis by (auto simp: typeOf_short type_op_iffs)
qed

lemma extract_parts:
  assumes "typeOf n = Some t" and "isExtract n"
  obtains x w hi lo where "n = mkExtract x hi lo" "typeOf x = Some (BITVECTOR_TYPE w)" "lo \<le> hi" "hi < w" "w < 2 ^ 32"
    "t = BITVECTOR_TYPE (hi - lo + 1)"
proof -
  from assms(2) obtain hi lo ns where ns: "n = App (BITVECTOR_EXTRACT hi lo) ns" by (auto simp: isParam_iff)
  from unary_children [OF assms(1) [unfolded ns]] obtain x w where x: "ns = [x]" "typeOf x = Some (BITVECTOR_TYPE w)"
    "valid_width w" by auto
  show thesis
    using assms(1) x by (intro that [of x hi lo w]) (auto simp: ns mkExtract_def typeOf_short type_op_iffs valid_width_def)
qed

lemma extract_slice_rule:
  assumes "\<And>n. applies R n \<Longrightarrow> isExtract n"
    and "\<And>x w hi lo. typeOf x = Some (BITVECTOR_TYPE w) \<Longrightarrow> lo \<le> hi \<Longrightarrow> hi < w \<Longrightarrow> w < 2 ^ 32 \<Longrightarrow> applies R (mkExtract x hi lo) \<Longrightarrow>
      \<exists>m. apply_rule R (mkExtract x hi lo) = Inr m \<and> typeOf m = Some (BITVECTOR_TYPE (hi - lo + 1)) \<and>
        (\<forall>I a. wf_interp I \<longrightarrow> eval I x = VBV w a \<longrightarrow> in_width w a \<longrightarrow> eval I m = VBV (hi - lo + 1) (bvextract hi lo a))"
  shows "rule_sound opt R"
proof (rule rule_soundI)
  fix n t assume n: "typeOf n = Some t" "applies R n"
  from extract_parts [OF n(1) assms(1) [OF n(2)]] obtain x w hi lo where x: "n = mkExtract x hi lo"
    "typeOf x = Some (BITVECTOR_TYPE w)" "lo \<le> hi" "hi < w" "w < 2 ^ 32" "t = BITVECTOR_TYPE (hi - lo + 1)" by metis
  from assms(2) [OF x(2-5)] n(2) obtain m where m: "apply_rule R n = Inr m" "typeOf m = Some t"
    "\<And>I a. wf_interp I \<Longrightarrow> eval I x = VBV w a \<Longrightarrow> in_width w a \<Longrightarrow> eval I m = VBV (hi - lo + 1) (bvextract hi lo a)"
    by (metis x(1,6))
  have "same_meaning opt m n"
    by (rule same_meaningI [OF n(1) m(2)]) (metis eval_mkExtract m(3) typed_bv_value x(1,2))
  then show "sound_result opt n (apply_rule R n)" by (simp add: m(1))
qed

text \<open>Bitwise operators commute with every slice, sums and products with the low slices.\<close>

lemma bvextract_ones:
  assumes "lo \<le> hi" and "hi < w"
  shows "bvextract hi lo (2 ^ w - 1) = 2 ^ (hi - lo + 1) - 1"
proof (rule bit_eqI)
  fix i
  show "bit (bvextract hi lo (2 ^ w - 1)) i = bit (2 ^ (hi - lo + 1) - 1 :: int) i"
    unfolding bit_bvextract bit_ones using assms by auto
qed

lemma bvextract_zero_low: "bvextract hi 0 a = a mod 2 ^ (hi + 1)"
  by (simp add: bvextract_def)

lemma bvextract_low_mod: "hi < w \<Longrightarrow> bvextract hi 0 (a mod 2 ^ w) = a mod 2 ^ (hi + 1)"
  unfolding bvextract_zero_low by (rule mod_mod_cancel) (simp add: le_imp_power_dvd Suc_leI del: power_Suc)

lemma bvextract_op:
  assumes "k \<in> {BITVECTOR_AND, BITVECTOR_OR, BITVECTOR_XOR} \<or> k \<in> {BITVECTOR_PLUS, BITVECTOR_MULT} \<and> lo = 0"
    and h: "lo \<le> hi" "hi < w"
  shows "bvextract hi lo (nary_op k w a b) = nary_op k (hi - lo + 1) (bvextract hi lo a) (bvextract hi lo b)"
    and "bvextract hi lo (nary_unit k w) = nary_unit k (hi - lo + 1)"
proof -
  have bits: "bvextract hi lo (f a b) = f (bvextract hi lo a) (bvextract hi lo b)"
    if "f = and \<or> f = or \<or> f = xor" for f :: "int \<Rightarrow> int \<Rightarrow> int"
    using that by (auto simp: bit_eq_iff bit_bvextract bit_simps)
  have arith: "bvextract hi 0 (bvadd w a b) = bvadd (hi + 1) (bvextract hi 0 a) (bvextract hi 0 b)"
    "bvextract hi 0 (bvmul w a b) = bvmul (hi + 1) (bvextract hi 0 a) (bvextract hi 0 b)"
    using bvextract_low_mod [OF h(2)] unfolding bvadd_def bvmul_def bvextract_zero_low mod_add_eq mod_mult_eq by simp_all
  show "bvextract hi lo (nary_op k w a b) = nary_op k (hi - lo + 1) (bvextract hi lo a) (bvextract hi lo b)"
    using assms(1) bits [of "and"] bits [of "or"] bits [of "xor"] arith by auto
  show "bvextract hi lo (nary_unit k w) = nary_unit k (hi - lo + 1)"
    using assms(1) bvextract_ones [OF h] bvextract_low_mod [OF h(2), of 1] by (auto simp: bvextract_def)
qed

lemma bvextract_nary:
  assumes "k \<in> {BITVECTOR_AND, BITVECTOR_OR, BITVECTOR_XOR} \<or> k \<in> {BITVECTOR_PLUS, BITVECTOR_MULT} \<and> lo = 0"
    and "lo \<le> hi" "hi < w"
  shows "bvextract hi lo (nary_value k w as) = nary_value k (hi - lo + 1) (map (bvextract hi lo) as)"
  by (induction as) (simp_all add: nary_value_simps bvextract_op [OF assms])

lemma extract_nary_nodes:
  assumes k: "k \<in> {BITVECTOR_AND, BITVECTOR_OR, BITVECTOR_XOR} \<or> k \<in> {BITVECTOR_PLUS, BITVECTOR_MULT} \<and> lo = 0"
    and x: "typeOf (App k ns) = Some (BITVECTOR_TYPE w)" and h: "lo \<le> hi" "hi < w"
  defines "cs \<equiv> map (\<lambda>c. mkExtract c hi lo) ns"
  shows "cs \<noteq> []" and "all_of_width (hi - lo + 1) cs"
    and "wf_interp I \<Longrightarrow> eval I (App k ns) = VBV w a \<Longrightarrow>
      nary_value k (hi - lo + 1) (values I cs) = bvextract hi lo a"
proof -
  have nk: "k \<in> nary_kinds" using k by auto
  then obtain ns: "ns \<noteq> []" "all_of_width w ns" using typeOf_nary_nonempty [OF x nk] by auto
  show "cs \<noteq> []" using ns(1) by (simp add: cs_def)
  show "all_of_width (hi - lo + 1) cs"
    using ns(2) typeOf_mkExtract [OF _ h] by (auto simp: all_of_width_def list_all_iff cs_def)
  assume I: "wf_interp I" and a: "eval I (App k ns) = VBV w a"
  have "values I cs = map (bvextract hi lo) (values I ns)"
  proof -
    have "v_int (eval I (mkExtract c hi lo)) = bvextract hi lo (v_int (eval I c))" if "c \<in> set ns" for c
    proof -
      have "typeOf c = Some (BITVECTOR_TYPE w)" using ns(2) that by (auto simp: all_of_width_def list_all_iff)
      then obtain b where "eval I c = VBV w b" using typed_bv_value [OF _ I] by metis
      then show ?thesis using eval_mkExtract by simp
    qed
    then show ?thesis by (simp add: cs_def)
  qed
  moreover have "a = nary_value k w (values I ns)" using eval_nary [OF nk ns I] a by simp
  ultimately show "nary_value k (hi - lo + 1) (values I cs) = bvextract hi lo a"
    using bvextract_nary [OF k h] by simp
qed

lemma ExtractBitwise_sound: "rule_sound opt (ExtractBitwise lt)"
proof (rule extract_slice_rule)
  fix x w hi lo
  assume x: "typeOf x = Some (BITVECTOR_TYPE w)" and h: "lo \<le> hi" "hi < w" and ap: "applies (ExtractBitwise lt) (mkExtract x hi lo)"
  then obtain k ns where ns: "x = App k ns" "k \<in> {BITVECTOR_AND, BITVECTOR_OR, BITVECTOR_XOR}"
    by (auto simp: ExtractBitwise_def hasKind_iff)
  then have k: "k \<in> nary_kinds" "k \<in> {BITVECTOR_AND, BITVECTOR_OR, BITVECTOR_XOR} \<or> k \<in> {BITVECTOR_PLUS, BITVECTOR_MULT} \<and> lo = 0"
    by auto
  let ?cs = "map (\<lambda>c. mkExtract c hi lo) ns"
  note cs = extract_nary_nodes [OF k(2) x [unfolded ns(1)] h]
  have "typeOf (mkSortedNode lt k ?cs) = Some (BITVECTOR_TYPE (hi - lo + 1))" by (rule mkSortedNode_nary(1) [OF k(1) cs(1,2)])
  moreover have "eval I (mkSortedNode lt k ?cs) = VBV (hi - lo + 1) (bvextract hi lo a)" if "wf_interp I" "eval I x = VBV w a" for I a
    using mkSortedNode_nary(2) [OF k(1) cs(1,2) that(1)] cs(3) [OF that [unfolded ns(1)]] by simp
  ultimately show "\<exists>m. apply_rule (ExtractBitwise lt) (mkExtract x hi lo) = Inr m \<and> typeOf m = Some (BITVECTOR_TYPE (hi - lo + 1)) \<and>
      (\<forall>I a. wf_interp I \<longrightarrow> eval I x = VBV w a \<longrightarrow> in_width w a \<longrightarrow> eval I m = VBV (hi - lo + 1) (bvextract hi lo a))"
    by (simp add: ExtractBitwise_def ns(1) appKind_def)
qed (auto simp: ExtractBitwise_def)

lemma extract_arith_nodes:
  assumes x: "typeOf x = Some (BITVECTOR_TYPE w)" "hi < w" "hasKind BITVECTOR_PLUS x \<or> hasKind BITVECTOR_MULT x"
  shows "typeOf (mkNode (appKind x) (map (\<lambda>c. mkExtract c hi 0) (children x))) = Some (BITVECTOR_TYPE (hi + 1))"
    and "wf_interp I \<Longrightarrow> eval I x = VBV w a \<Longrightarrow>
      eval I (mkNode (appKind x) (map (\<lambda>c. mkExtract c hi 0) (children x))) = VBV (hi + 1) (bvextract hi 0 a)"
proof -
  obtain k ns where ns: "x = App k ns" "k \<in> {BITVECTOR_PLUS, BITVECTOR_MULT}" using x(3) by (auto simp: hasKind_iff)
  then have k: "k \<in> nary_kinds" "k \<in> {BITVECTOR_AND, BITVECTOR_OR, BITVECTOR_XOR} \<or> k \<in> {BITVECTOR_PLUS, BITVECTOR_MULT} \<and> (0 :: nat) = 0"
    by auto
  note cs = extract_nary_nodes [OF k(2) x(1) [unfolded ns(1)] _ x(2)]
  show "typeOf (mkNode (appKind x) (map (\<lambda>c. mkExtract c hi 0) (children x))) = Some (BITVECTOR_TYPE (hi + 1))"
    using mkNode_nary(1) [OF k(1) cs(1,2)] by (simp add: ns(1) appKind_def)
  show "eval I (mkNode (appKind x) (map (\<lambda>c. mkExtract c hi 0) (children x))) = VBV (hi + 1) (bvextract hi 0 a)"
    if "wf_interp I" "eval I x = VBV w a"
    using mkNode_nary(2) [OF k(1) cs(1,2) that(1)] cs(3) [OF _ that [unfolded ns(1)]] by (simp add: ns(1) appKind_def)
qed

lemma ExtractArith_sound: "rule_sound opt ExtractArith"
proof (rule extract_slice_rule)
  fix x w hi lo
  assume x: "typeOf x = Some (BITVECTOR_TYPE w)" and h: "hi < w" and ap: "applies ExtractArith (mkExtract x hi lo)"
  then have "hasKind BITVECTOR_PLUS x \<or> hasKind BITVECTOR_MULT x" "lo = 0" by (auto simp: ExtractArith_def)
  with extract_arith_nodes [OF x h this(1)]
  show "\<exists>m. apply_rule ExtractArith (mkExtract x hi lo) = Inr m \<and> typeOf m = Some (BITVECTOR_TYPE (hi - lo + 1)) \<and>
      (\<forall>I a. wf_interp I \<longrightarrow> eval I x = VBV w a \<longrightarrow> in_width w a \<longrightarrow> eval I m = VBV (hi - lo + 1) (bvextract hi lo a))"
    by (simp add: ExtractArith_def)
qed (auto simp: ExtractArith_def)

lemma ExtractArith2_sound: "rule_sound opt ExtractArith2"
proof (rule extract_slice_rule)
  fix x w hi lo
  assume x: "typeOf x = Some (BITVECTOR_TYPE w)" and h: "lo \<le> hi" "hi < w" and ap: "applies ExtractArith2 (mkExtract x hi lo)"
  let ?m = "mkNode (appKind x) (map (\<lambda>c. mkExtract c hi 0) (children x))"
  have "hasKind BITVECTOR_PLUS x \<or> hasKind BITVECTOR_MULT x" using ap by (auto simp: ExtractArith2_def)
  note m = extract_arith_nodes [OF x h(2) this]
  have "typeOf (mkExtract ?m hi lo) = Some (BITVECTOR_TYPE (hi - lo + 1))"
    using typeOf_mkExtract [OF m(1) h(1)] by simp
  moreover have "bvextract hi lo (bvextract hi 0 a) = bvextract hi lo a" for a
    using h(1) by (auto simp: bit_eq_iff bit_bvextract)
  ultimately show "\<exists>m. apply_rule ExtractArith2 (mkExtract x hi lo) = Inr m \<and> typeOf m = Some (BITVECTOR_TYPE (hi - lo + 1)) \<and>
      (\<forall>I a. wf_interp I \<longrightarrow> eval I x = VBV w a \<longrightarrow> in_width w a \<longrightarrow> eval I m = VBV (hi - lo + 1) (bvextract hi lo a))"
    using m(2) eval_mkExtract [of _ ?m "hi + 1"] by (simp add: ExtractArith2_def Let_def)
qed (auto simp: ExtractArith2_def)

lemma bvextract_bvnot:
  assumes "in_width w a" and "lo \<le> hi" "hi < w"
  shows "bvextract hi lo (bvnot w a) = bvnot (hi - lo + 1) (bvextract hi lo a)"
proof -
  have "bvextract hi lo (xor (2 ^ w - 1) a) = xor (2 ^ (hi - lo + 1) - 1) (bvextract hi lo a)"
    using bvextract_op(1) [of BITVECTOR_XOR lo hi w "2 ^ w - 1" a] bvextract_ones [OF assms(2,3)] assms(2,3) by simp
  then show ?thesis using xor_ones [OF assms(1)] xor_ones [OF in_width_bvextract, of hi lo a] by simp
qed

lemma ExtractNot_sound: "rule_sound opt ExtractNot"
proof (rule extract_slice_rule)
  fix x w hi lo
  assume x: "typeOf x = Some (BITVECTOR_TYPE w)" and h: "lo \<le> hi" "hi < w" and ap: "applies ExtractNot (mkExtract x hi lo)"
  then obtain ns where "x = App BITVECTOR_NOT ns" by (auto simp: ExtractNot_def hasKind_iff)
  with x obtain y where y: "x = App BITVECTOR_NOT [y]" "typeOf y = Some (BITVECTOR_TYPE w)"
    using unary_same [of BITVECTOR_NOT ns w] by auto
  have "eval I (App BITVECTOR_NOT [mkExtract y hi lo]) = VBV (hi - lo + 1) (bvextract hi lo a)"
    if I: "wf_interp I" "eval I x = VBV w a" for I a
  proof -
    obtain b where b: "eval I y = VBV w b" "in_width w b" using typed_bv_value [OF y(2) I(1)] by metis
    then show ?thesis using I(2) bvextract_bvnot [OF b(2) h] eval_mkExtract [OF b(1)] by (simp add: y(1))
  qed
  moreover have "typeOf (App BITVECTOR_NOT [mkExtract y hi lo]) = Some (BITVECTOR_TYPE (hi - lo + 1))"
    using typeOf_mkExtract [OF y(2) h] typeOf_valid [OF typeOf_mkExtract [OF y(2) h]] by (simp add: typeOf_short type_op_iffs)
  ultimately show "\<exists>m. apply_rule ExtractNot (mkExtract x hi lo) = Inr m \<and> typeOf m = Some (BITVECTOR_TYPE (hi - lo + 1)) \<and>
      (\<forall>I a. wf_interp I \<longrightarrow> eval I x = VBV w a \<longrightarrow> in_width w a \<longrightarrow> eval I m = VBV (hi - lo + 1) (bvextract hi lo a))"
    by (simp add: ExtractNot_def y(1))
qed (auto simp: ExtractNot_def)

text \<open>The bits of a sign extension.\<close>

lemma bit_sign_extend:
  assumes "in_width v a" and "0 < v"
  shows "bit (bvsign_extend m v a) i \<longleftrightarrow> i < m + v \<and> bit a (min i (v - 1))"
proof -
  have s: "sval v a = signed_take_bit (v - 1) a"
    using assms sval_top_bit(2) [OF assms] in_width_take_bit [of v a]
    by (simp add: signed_take_bit_eq_take_bit_minus sval_def not_less)
  show ?thesis unfolding bvsign_extend_def s by (simp add: bit_simps flip: take_bit_eq_mod) (auto simp: ac_simps)
qed

lemma ExtractSignExtend_sound: "rule_sound opt ExtractSignExtend"
proof (rule extract_slice_rule)
  fix x w hi lo
  assume x: "typeOf x = Some (BITVECTOR_TYPE w)" and h: "lo \<le> hi" "hi < w" and w32: "w < 2 ^ 32"
    and ap: "applies ExtractSignExtend (mkExtract x hi lo)"
  then obtain m ns where ns: "x = App (BITVECTOR_SIGN_EXTEND m) ns" by (auto simp: ExtractSignExtend_def isParam_iff)
  from unary_children [OF x [unfolded ns]] obtain y v where y: "ns = [y]" "typeOf y = Some (BITVECTOR_TYPE v)" "valid_width v" by auto
  have wv: "w = m + v" using x by (auto simp: ns y typeOf_short type_op_iffs)
  have v: "0 < v" using y(3) by (simp add: valid_width_def)
  define r where "r = (if hi < v then mkExtract y hi lo
    else if lo < v then mkSignExtend (mkExtract y (v - 1) lo) (hi - v + 1)
    else mkConcat_repeat (mkExtract y (v - 1) (v - 1)) (hi - lo + 1))"
  have u: "u32_sub v (Suc 0) = v - 1" "v \<le> hi \<Longrightarrow> u32 (Suc (u32_sub hi v)) = hi - v + 1" "u32 (Suc (u32_sub hi lo)) = hi - lo + 1"
    using y(3) h w32 v by (auto simp: valid_width_def)
  have "apply_rule ExtractSignExtend (mkExtract x hi lo) = Inr r"
    using y(2) u by (auto simp: ExtractSignExtend_def ns y r_def Let_def mkNode_def mkConcat_repeat_def)
  moreover have "typeOf r = Some (BITVECTOR_TYPE (hi - lo + 1))"
  proof -
    have e: "typeOf (mkExtract y (v - 1) lo) = Some (BITVECTOR_TYPE (v - lo))" if "lo < v"
      using typeOf_mkExtract [OF y(2), of lo "v - 1"] that by (simp add: Suc_diff_Suc)
    have b: "typeOf (mkExtract y (v - 1) (v - 1)) = Some (BITVECTOR_TYPE 1)" using typeOf_mkExtract [OF y(2), of "v - 1" "v - 1"] v by simp
    show ?thesis
      using typeOf_mkExtract [OF y(2) h(1)] e mkConcat_repeat(1) [OF _ b, of "hi - lo + 1"] h w32
      by (auto simp: r_def mkSignExtend_def typeOf_short type_op_iffs valid_width_def)
  qed
  moreover have "eval I r = VBV (hi - lo + 1) (bvextract hi lo a)" if I: "wf_interp I" "eval I x = VBV w a" for I a
  proof -
    obtain b where b: "eval I y = VBV v b" "in_width v b" using typed_bv_value [OF y(2) I(1)] by metis
    have a: "a = bvsign_extend m v b" using I(2) b by (simp add: ns y)
    note bs = bit_sign_extend [OF b(2) v, of m]
    have top: "bvextract (v - 1) (v - 1) b = of_bool (bit b (v - 1))"
      by (simp add: bvextract_def bit_iff_odd mod_2_eq_odd)
    consider "hi < v" | "lo < v" "v \<le> hi" | "v \<le> lo" by linarith
    then show ?thesis
    proof cases
      case 1
      then have "bvextract hi lo b = bvextract hi lo a" unfolding a bit_eq_iff bit_bvextract bs using h by (auto simp: min_def)
      with 1 show ?thesis using eval_mkExtract [OF b(1)] by (simp add: r_def)
    next
      case 2
      let ?c = "bvextract (v - 1) lo b"
      have c: "in_width (v - lo) ?c" using in_width_bvextract [of "v - 1" lo b] 2 by (simp add: Suc_diff_Suc)
      have "bvsign_extend (hi - v + 1) (v - lo) ?c = bvextract hi lo a"
        unfolding a bit_eq_iff bit_bvextract bit_sign_extend [OF c zero_less_diff [THEN iffD2, OF 2(1)]] bs
        using 2 h wv by (auto simp: min_def)
      moreover have "v - 1 - lo + 1 = v - lo" "hi - v + 1 + (v - lo) = hi - lo + 1" using 2 by simp_all
      ultimately show ?thesis using 2 eval_mkExtract [OF b(1), of "v - 1" lo] by (simp add: r_def mkSignExtend_def)
    next
      case 3
      have "bvrepeat (hi - lo + 1) 1 (of_bool (bit b (v - 1))) = bvextract hi lo a"
        unfolding a bit_eq_iff bit_bvextract bs using bvrepeat_bit [of "hi - lo + 1" "bit b (v - 1)"] 3 h wv v
        by (auto simp: bit_ones min_def simp del: power_Suc)
      then show ?thesis
        using 3 h eval_mkExtract [OF b(1), of "v - 1" "v - 1"] mkConcat_repeat(2) [of "hi - lo + 1" I _ 1] top by (simp add: r_def)
    qed
  qed
  ultimately show "\<exists>m. apply_rule ExtractSignExtend (mkExtract x hi lo) = Inr m \<and> typeOf m = Some (BITVECTOR_TYPE (hi - lo + 1)) \<and>
      (\<forall>I a. wf_interp I \<longrightarrow> eval I x = VBV w a \<longrightarrow> in_width w a \<longrightarrow> eval I m = VBV (hi - lo + 1) (bvextract hi lo a))"
    by blast
qed (auto simp: ExtractSignExtend_def)

section \<open>Soundness of flattening\<close>

lemma nary_value_App:
  assumes "k \<in> nary_kinds" and "typeOf (App k ns) = Some (BITVECTOR_TYPE w)" and "wf_interp I"
  shows "v_int (eval I (App k ns)) = nary_value k w (values I ns)"
  using typeOf_nary_nonempty [OF assms(2,1)] eval_nary [OF assms(1) _ _ assms(3)] by auto

lemma nary_value_node:
  assumes "k \<in> nary_kinds" and "typeOf n = Some (BITVECTOR_TYPE w)" and "wf_interp I"
  shows "VBV w (nary_value k w (values I [n])) = eval I n"
proof -
  obtain a where "eval I n = VBV w a" "in_width w a" using typed_bv_value [OF assms(2,3)] by metis
  then show ?thesis using nary_value_single [OF assms(1)] by simp
qed

lemma all_of_width_nary:
  "k \<in> nary_kinds \<Longrightarrow> typeOf (App k ns) = Some (BITVECTOR_TYPE w) \<Longrightarrow> all_of_width w ns"
  using typeOf_nary_nonempty by blast

lemma nary_value_open:
  assumes k: "k \<in> nary_kinds" and ns: "typeOf (App k ns) = Some (BITVECTOR_TYPE w)" "all_of_width w stack" and I: "wf_interp I"
  shows "nary_value k w (values I (rev ns @ stack)) = nary_value k w (values I (App k ns # stack))"
proof -
  have w: "list_all (in_width w) (values I (rev ns))" "list_all (in_width w) (values I stack)"
    using values_in_width [OF _ I] all_of_width_nary [OF k ns(1)] ns(2) by simp_all
  have "nary_value k w (values I (rev ns @ stack)) = nary_op k w (nary_value k w (values I (rev ns))) (nary_value k w (values I stack))"
    using nary_value_append [OF k w] by simp
  also have "nary_value k w (values I (rev ns)) = nary_value k w (values I ns)"
    by (rule sorted_values_perm [OF mset_rev k all_of_width_nary [OF k ns(1)] I])
  finally show ?thesis using nary_value_App [OF k ns(1) I] by (simp add: nary_value_simps del: eval.simps)
qed

lemma flatten_nodes:
  assumes "k \<in> nary_kinds" and "all_of_width w stack"
  shows "all_of_width w (flatten_loop k stack) \<and> length stack \<le> length (flatten_loop k stack) \<and>
    (\<forall>I. wf_interp I \<longrightarrow> nary_value k w (values I (flatten_loop k stack)) = nary_value k w (values I stack))"
  using assms
proof (induction k stack rule: flatten_loop.induct)
  case (2 k current stack)
  show ?case
  proof (cases "hasKind k current")
    case True
    then obtain ns where ns: "current = App k ns" by (auto simp: hasKind_iff)
    have c: "typeOf (App k ns) = Some (BITVECTOR_TYPE w)" "all_of_width w stack" using 2(4) by (simp_all add: ns)
    then have "all_of_width w (rev ns @ stack)" using all_of_width_nary [OF 2(3)] by simp
    moreover have "2 \<le> length ns" using typeOf_nary_iff [OF 2(3)] c(1) by blast
    ultimately show ?thesis
      using 2(1) [OF True 2(3)] True nary_value_open [OF 2(3) c] by (simp add: ns del: eval.simps map_append)
  next
    case False
    then show ?thesis using 2 by (simp add: nary_value_simps)
  qed
qed simp

lemma flatten_children: "n \<in> set (flatten_loop k stack) \<Longrightarrow> \<not> hasKind k n"
  by (induction k stack rule: flatten_loop.induct) (auto split: if_splits)

lemma nary_kind_appKind:
  assumes "hasKind BITVECTOR_PLUS n \<or> hasKind BITVECTOR_MULT n \<or> hasKind BITVECTOR_OR n \<or> hasKind BITVECTOR_XOR n \<or>
    hasKind BITVECTOR_AND n"
  obtains k ns where "n = App k ns" "k \<in> nary_kinds" "appKind n = k"
  using assms that by (auto simp: hasKind_iff appKind_def)

lemma flatten_sound:
  assumes k: "k \<in> nary_kinds" and n: "typeOf (App k ns) = Some t"
  shows "same_meaning opt (mkNode k (flatten_loop k [App k ns])) (App k ns)"
    and "same_meaning opt (mkSortedNode lt k (flatten_loop k [App k ns])) (App k ns)"
proof -
  obtain w where w: "t = BITVECTOR_TYPE w" using typeOf_nary_nonempty [OF n k] by blast
  let ?fs = "flatten_loop k [App k ns]"
  have f: "all_of_width w ?fs" "1 \<le> length ?fs"
    "\<And>I. wf_interp I \<Longrightarrow> nary_value k w (values I ?fs) = nary_value k w (values I [App k ns])"
    using flatten_nodes [OF k, of w "[App k ns]"] n by (simp_all add: w del: flatten_loop.simps eval.simps)
  then have ne: "?fs \<noteq> []" by (metis list.size(3) not_one_le_zero)
  have v: "VBV w (nary_value k w (values I ?fs)) = eval I (App k ns)" if I: "wf_interp I" for I
    using f(3) [OF I] nary_value_node [OF k n [unfolded w] I] by simp
  show "same_meaning opt (mkNode k ?fs) (App k ns)"
    using mkNode_nary [OF k ne f(1)] v n w by (simp add: same_meaning_def del: flatten_loop.simps eval.simps)
  show "same_meaning opt (mkSortedNode lt k ?fs) (App k ns)"
    using mkSortedNode_nary [OF k ne f(1)] v n w by (simp add: same_meaning_def del: flatten_loop.simps eval.simps)
qed

lemma FlattenAssocCommut_sound: "rule_sound opt (FlattenAssocCommut lt)"
proof (rule rule_soundI)
  fix n t assume n: "typeOf n = Some t" "applies (FlattenAssocCommut lt) n"
  then obtain k ns where k: "n = App k ns" "k \<in> nary_kinds" "appKind n = k"
    using nary_kind_appKind [of n thesis] by (auto simp: FlattenAssocCommut_def split: if_splits)
  show "sound_result opt n (apply_rule (FlattenAssocCommut lt) n)"
    using flatten_sound [OF k(2) n(1) [unfolded k(1)]] k(3)
    by (simp add: FlattenAssocCommut_def k(1) Let_def del: flatten_loop.simps)
qed

text \<open>Without duplicates: what the loop has processed in the end is closed under taking children, and what
  it returns are the nodes of other kinds in it.\<close>

definition processed_set :: "(node \<Rightarrow> bool) \<Rightarrow> kind \<Rightarrow> node set \<Rightarrow> node list \<Rightarrow> node list \<Rightarrow> node set \<Rightarrow> bool" where
  "processed_set Q k P stack r D \<longleftrightarrow>
     P \<subseteq> D \<and> set stack \<subseteq> D \<and> set r \<subseteq> D \<and>
     (\<forall>p\<in>D - P. if hasKind k p then set (children p) \<subseteq> D else p \<in> set r) \<and>
     ((\<forall>n\<in>set stack. Q n) \<longrightarrow> (\<forall>n\<in>(D - P) \<union> set r. Q n))"

lemma processed_insert:
  assumes D: "processed_set Q k (insert c P) stack' r D" and stack: "set stack \<subseteq> set stack'"
    and r: "if hasKind k c then set (children c) \<subseteq> set stack' \<and> r' = r else r' = c # r"
    and Q: "\<forall>n\<in>set (c # stack). Q n \<Longrightarrow> \<forall>n\<in>set stack'. Q n"
  shows "processed_set Q k P (c # stack) r' D"
proof -
  have r': "set r \<subseteq> set r'" "set r' \<subseteq> insert c (set r)" using r by (auto split: if_splits)
  show ?thesis
    unfolding processed_set_def
  proof (intro conjI ballI impI)
    fix p assume "p \<in> D - P"
    then show "if hasKind k p then set (children p) \<subseteq> D else p \<in> set r'"
      using D r r' by (cases "p = c") (auto simp: processed_set_def split: if_splits)
  next
    fix n assume q: "\<forall>n\<in>set (c # stack). Q n" and n: "n \<in> (D - P) \<union> set r'"
    with D Q have "\<forall>n\<in>(D - insert c P) \<union> set r. Q n" unfolding processed_set_def by blast
    with n q r' show "Q n" by auto
  qed (use D stack r' in \<open>auto simp: processed_set_def\<close>)
qed

lemma flattenNoDup_processed:
  assumes Q: "\<And>n. Q n \<Longrightarrow> hasKind k n \<Longrightarrow> \<forall>c\<in>set (children n). Q c"
  shows "\<exists>D. processed_set Q k P stack (flattenNoDup_loop k P stack) D"
  using assms
proof (induction k P stack rule: flattenNoDup_loop.induct)
  case (1 k P)
  have "processed_set Q k P [] (flattenNoDup_loop k P []) P" by (simp add: processed_set_def)
  then show ?case by blast
next
  case (2 k P current stack)
  note IH = 2(1-3) and Q = 2(4)
  have skip: "processed_set Q k P (current # stack) r D" if "current \<in> P" "processed_set Q k P stack r D" for r D
    using that by (auto simp: processed_set_def)
  have opened: "processed_set Q k P (current # stack) r D"
    if "hasKind k current" "processed_set Q k (insert current P) (rev (children current) @ stack) r D" for r D
  proof (rule processed_insert [OF that(2)])
    show "\<forall>n\<in>set (rev (children current) @ stack). Q n" if "\<forall>n\<in>set (current # stack). Q n"
      using that 2(4) [OF _ \<open>hasKind k current\<close>] by auto
  qed (use that(1) in auto)
  have emit: "processed_set Q k P (current # stack) (current # r) D"
    if "\<not> hasKind k current" "processed_set Q k (insert current P) stack r D" for r D
    using processed_insert [OF that(2)] that(1) by simp
  consider "current \<in> P" | "current \<notin> P" "hasKind k current" | "current \<notin> P" "\<not> hasKind k current" by blast
  then show ?case
  proof cases
    case 1
    then show ?thesis using IH(1) [OF 1 Q] skip by auto
  next
    case 2
    then show ?thesis using IH(2) [OF 2 Q] opened by auto
  next
    case 3
    then show ?thesis using IH(3) [OF 3 Q] emit by auto
  qed
qed

text \<open>What holds of a node of the kind exactly when it holds of its children holds of the stack exactly when
  it holds of the result.\<close>

lemma flattenNoDup_iff:
  assumes Q: "\<And>n. Q n \<Longrightarrow> hasKind k n \<Longrightarrow> (\<forall>c\<in>set (children n). Q c) \<and> (B n \<longleftrightarrow> (\<forall>c\<in>set (children n). B c))"
    and stack: "\<forall>n\<in>set stack. Q n"
  shows "(\<forall>n\<in>set (flattenNoDup_loop k {} stack). Q n) \<and>
    ((\<forall>n\<in>set (flattenNoDup_loop k {} stack). B n) \<longleftrightarrow> (\<forall>n\<in>set stack. B n))"
proof -
  let ?r = "flattenNoDup_loop k {} stack"
  obtain D where "processed_set Q k {} stack ?r D" using flattenNoDup_processed [of Q k "{}" stack] Q by blast
  with stack have D: "set stack \<subseteq> D" "\<And>p. p \<in> D \<Longrightarrow> if hasKind k p then set (children p) \<subseteq> D else p \<in> set ?r"
    and q: "\<forall>n\<in>D \<union> set ?r. Q n"
    by (auto simp: processed_set_def)
  obtain E where "processed_set (\<lambda>n. Q n \<and> B n) k {} stack ?r E"
    using flattenNoDup_processed [of "\<lambda>n. Q n \<and> B n" k "{}" stack] Q by blast
  then have "\<forall>n\<in>set ?r. B n" if "\<forall>n\<in>set stack. B n" using stack that by (auto simp: processed_set_def)
  moreover have "B p" if r: "\<forall>n\<in>set ?r. B n" and p: "p \<in> D" for p
    using p
  proof (induction "size p" arbitrary: p rule: less_induct)
    case less
    show ?case
    proof (cases "hasKind k p")
      case True
      then obtain ns where ns: "p = App k ns" by (auto simp: hasKind_iff)
      have "B c" if c: "c \<in> set ns" for c
      proof (rule less.hyps)
        show "size c < size p" using c size_list_estimation' [of c ns "size c" size] by (simp add: ns less_Suc_eq_le)
        show "c \<in> D" using D(2) [OF less.prems] True c by (auto simp: ns)
      qed
      then show ?thesis using Q [OF _ True] q less.prems by (auto simp: ns)
    qed (use D(2) [OF less.prems] r in auto)
  qed
  ultimately show ?thesis using q D(1) by blast
qed

text \<open>The bits of conjunctions and disjunctions.\<close>

lemma bit_nary_and: "bit (nary_value BITVECTOR_AND w as) i \<longleftrightarrow> i < w \<and> (\<forall>a\<in>set as. bit a i)"
  by (induction as) (auto simp: nary_value_simps bit_ones bit_simps)

lemma bit_nary_or: "bit (nary_value BITVECTOR_OR w as) i \<longleftrightarrow> (\<exists>a\<in>set as. bit a i)"
  by (induction as) (auto simp: nary_value_simps bit_simps)

lemma nary_bits_eq:
  assumes "k \<in> {BITVECTOR_AND, BITVECTOR_OR}"
    and "\<And>i. i < w \<Longrightarrow> (\<forall>a\<in>set as. bit a i = (k = BITVECTOR_AND)) \<longleftrightarrow> (\<forall>a\<in>set bs. bit a i = (k = BITVECTOR_AND))"
    and "list_all (in_width w) as" "list_all (in_width w) bs"
  shows "nary_value k w as = nary_value k w bs"
proof (rule bit_eqI)
  fix i
  have "in_width w (nary_value k w as)" "in_width w (nary_value k w bs)" using assms nary_value_closed by blast+
  then show "bit (nary_value k w as) i = bit (nary_value k w bs) i"
    using assms(1) assms(2) [of i] by (cases "i < w") (auto simp: bit_nary_and bit_nary_or in_width_not_bit)
qed

lemma FlattenAssocCommutNoDuplicates_sound: "rule_sound opt (FlattenAssocCommutNoDuplicates lt)"
proof (rule rule_soundI)
  fix n t assume n: "typeOf n = Some t" "applies (FlattenAssocCommutNoDuplicates lt) n"
  then obtain k ns where k: "n = App k ns" "k \<in> {BITVECTOR_AND, BITVECTOR_OR}" "appKind n = k"
    by (auto simp: FlattenAssocCommutNoDuplicates_def hasKind_iff appKind_def split: if_splits)
  then have nk: "k \<in> nary_kinds" by auto
  obtain w where w: "t = BITVECTOR_TYPE w" using typeOf_nary_nonempty [OF n(1) [unfolded k(1)] nk] by blast
  let ?Q = "\<lambda>n. typeOf n = Some (BITVECTOR_TYPE w)" and ?r = "flattenNoDup_loop k {} [n]"
  have open_node: "\<exists>cs. m = App k cs \<and> cs \<noteq> [] \<and> all_of_width w cs" if "?Q m" "hasKind k m" for m
    using that typeOf_nary_nonempty [OF _ nk] by (auto simp: hasKind_iff)
  have Q: "\<forall>c\<in>set (children m). ?Q c" if "?Q m" "hasKind k m" for m
    using open_node [OF that] by (auto simp: all_of_width_def list_all_iff)
  have B: "bit (v_int (eval I m)) i = (k = BITVECTOR_AND) \<longleftrightarrow> (\<forall>c\<in>set (children m). bit (v_int (eval I c)) i = (k = BITVECTOR_AND))"
    if m: "?Q m" "hasKind k m" and I: "wf_interp I" and i: "i < w" for m I i
  proof -
    obtain cs where cs: "m = App k cs" using m(2) by (auto simp: hasKind_iff)
    have "v_int (eval I m) = nary_value k w (values I cs)" using nary_value_App [OF nk m(1) [unfolded cs] I] by (simp add: cs del: eval.simps)
    then show ?thesis using k(2) i by (auto simp: cs bit_nary_and bit_nary_or)
  qed
  have r: "all_of_width w ?r"
    using flattenNoDup_iff [of ?Q k "\<lambda>n. True" "[n]"] Q n(1) w by (simp add: all_of_width_def list_all_iff)
  have ne: "?r \<noteq> []"
  proof
    assume e: "?r = []"
    have "(\<forall>c\<in>set (children m). ?Q c) \<and> (False \<longleftrightarrow> (\<forall>c\<in>set (children m). False))" if "?Q m" "hasKind k m" for m
      using open_node [OF that] Q [OF that] by auto
    from flattenNoDup_iff [of ?Q k "\<lambda>n. False", OF this, of "[n]"] n(1) w show False unfolding e by simp
  qed
  have "nary_value k w (values I ?r) = nary_value k w (values I [n])" if I: "wf_interp I" for I
  proof (rule nary_bits_eq [OF k(2)])
    show "list_all (in_width w) (values I ?r)" "list_all (in_width w) (values I [n])"
      using values_in_width [OF r I] values_in_width [of w "[n]" I] I n(1) w by simp_all
    fix i assume i: "i < w"
    show "(\<forall>a\<in>set (values I ?r). bit a i = (k = BITVECTOR_AND)) \<longleftrightarrow> (\<forall>a\<in>set (values I [n]). bit a i = (k = BITVECTOR_AND))"
    proof -
      let ?B = "\<lambda>n. bit (v_int (eval I n)) i = (k = BITVECTOR_AND)"
      have q: "\<forall>n\<in>set [n]. ?Q n" using n(1) w by simp
      have "(\<forall>c\<in>set (children m). ?Q c) \<and> (?B m \<longleftrightarrow> (\<forall>c\<in>set (children m). ?B c))" if "?Q m" "hasKind k m" for m
        using Q [OF that] B [OF that I i] by blast
      from conjunct2 [OF flattenNoDup_iff [of ?Q k ?B, OF this q]]
      have "(\<forall>n\<in>set ?r. ?B n) \<longleftrightarrow> (\<forall>n\<in>set [n]. ?B n)" .
      then show ?thesis unfolding set_map ball_simps(9) .
    qed
  qed
  moreover have "VBV w (nary_value k w (values I [n])) = eval I n" if I: "wf_interp I" for I
    by (rule nary_value_node [OF nk n(1) [unfolded w] I])
  ultimately have "same_meaning opt (mkSortedNode lt k ?r) n"
    using mkSortedNode_nary [OF nk ne r] n(1) w by (simp add: same_meaning_def del: flattenNoDup_loop.simps)
  then show "sound_result opt n (apply_rule (FlattenAssocCommutNoDuplicates lt) n)"
    using k(3) by (simp add: FlattenAssocCommutNoDuplicates_def del: flattenNoDup_loop.simps)
qed

end
