(* ===== verification/Rules_Products.thy ===== *)
theory Rules_Products
  imports Rules_Normalization
begin

text \<open>
  The normalization rules of \<open>src/src/theory/bv/theory_bv_rewrite_rules_normalization.h\<close> on products, negation
  and equalities of one-bit terms, each with its soundness. \<open>NegMult\<close> looks for the constant among the
  children of the negation instead of the product: \<open>NegMult_never\<close> shows that it fires on no well-typed term.
\<close>

section \<open>Products\<close>

fun multSimplify_unsorted :: "(node \<Rightarrow> node \<Rightarrow> bool) \<Rightarrow> node list \<Rightarrow> bool" where
  "multSimplify_unsorted lt (child_it # child_next # rest) =
     (if isConst child_it \<or> \<not> lt child_it child_next then True
      else multSimplify_unsorted lt (child_next # rest))"
| "multSimplify_unsorted lt ns = False"

text \<open>The loop over the children: the product of the constants so far and the other children; it stops
  with \<open>None\<close> when the product is zero.\<close>

fun multSimplify_loop :: "gmp \<Rightarrow> nat \<Rightarrow> bitvector \<Rightarrow> node list \<Rightarrow> (bitvector \<times> node list) option exc" where
  "multSimplify_loop G sz constant [] = Inr (Some (constant, []))"
| "multSimplify_loop G sz constant (current # rest) =
     (if isConstBV current
      then
        ebind (BitVector_mult G constant (getConst current)) (\<lambda>constant.
        if BitVector_eq constant (BitVector_unsigned G sz 0) then Inr None
        else multSimplify_loop G sz constant rest)
      else
        ebind (multSimplify_loop G sz constant rest) (\<lambda>r.
        Inr (map_option (\<lambda>(constant, cs). (constant, current # cs)) r)))"

definition MultSimplify :: "gmp \<Rightarrow> (node \<Rightarrow> node \<Rightarrow> bool) \<Rightarrow> rule" where
  "MultSimplify G lt =
     \<lparr>applies = (\<lambda>node.
        if \<not> hasKind BITVECTOR_MULT node then False
        else if multSimplify_unsorted lt (children node) then True
        else if isConst (last (children node))
        then
          let bv = getConst (last (children node))
          in BitVector_eq bv (BitVector_unsigned G (getSize node) 0) \<or>
             BitVector_eq bv (BitVector_unsigned G (getSize node) 1)
        else False),
      apply_rule = (\<lambda>node.
        let size = getSize node
        in ebind (multSimplify_loop G size (BitVector G size 1) (children node)) (\<lambda>r.
           case r of
             None \<Rightarrow> Inr (mkConst G size 0)
           | Some (constant, cs) \<Rightarrow>
               let cs = sort_nodes lt cs;
                   cs = (if BitVector_neq constant (BitVector_unsigned G size 1)
                         then cs @ [CONST_BITVECTOR constant] else cs)
               in if length cs = 0 then Inr (mkConst G size 1) else Inr (mkNode BITVECTOR_MULT cs)))\<rparr>"

definition MultDistribConst :: "gmp \<Rightarrow> rule" where
  "MultDistribConst G =
     \<lparr>applies = (\<lambda>node.
        if \<not> hasKind BITVECTOR_MULT node \<or> length (children node) \<noteq> 2 then False
        else if \<not> isConst (children node ! 1) then False
        else
          let factor = children node ! 0
          in hasKind BITVECTOR_PLUS factor \<or> hasKind BITVECTOR_SUB factor \<or> hasKind BITVECTOR_NEG factor),
      apply_rule = (\<lambda>node.
        let constant = children node ! 1;
            factor = children node ! 0
        in if hasKind BITVECTOR_NEG factor
           then
             ebind (BitVector_neg G (getConst constant)) (\<lambda>c.
             Inr (App BITVECTOR_MULT [children factor ! 0, CONST_BITVECTOR c]))
           else
             Inr (mkNode (appKind factor) (map (\<lambda>c. App BITVECTOR_MULT [c, constant]) (children factor))))\<rparr>"

definition isSum :: "node \<Rightarrow> bool" where
  "isSum n \<longleftrightarrow> hasKind BITVECTOR_PLUS n \<or> hasKind BITVECTOR_SUB n"

definition MultDistrib :: rule where
  "MultDistrib =
     \<lparr>applies = (\<lambda>node.
        if \<not> hasKind BITVECTOR_MULT node \<or> length (children node) \<noteq> 2 then False
        else if isSum (children node ! 0) then \<not> isSum (children node ! 1)
        else isSum (children node ! 1)),
      apply_rule = (\<lambda>node.
        let is_rhs_factor = isSum (children node ! 0);
            factor = (if \<not> is_rhs_factor then children node ! 0 else children node ! 1);
            sum = (if is_rhs_factor then children node ! 0 else children node ! 1)
        in Inr (mkNode (appKind sum) (map (\<lambda>c. App BITVECTOR_MULT [c, factor]) (children sum))))\<rparr>"

definition ConcatToMult :: "gmp \<Rightarrow> rule" where
  "ConcatToMult G =
     \<lparr>applies = (\<lambda>node.
        if \<not> hasKind BITVECTOR_CONCAT node then False
        else if length (children node) \<noteq> 2 then False
        else if \<not> isExtract (children node ! 0) then False
        else if \<not> isConst (children node ! 1) then False
        else
          let extract = children node ! 0;
              c = children node ! 1;
              ammount = getSize c
          in if getSize node \<noteq> getSize (children extract ! 0) then False
             else if c \<noteq> mkConst G ammount 0 then False
             else if getExtractLow extract \<noteq> 0 then False
             else if u32 (u32 (getExtractHigh extract + ammount) + 1) \<noteq> getSize node then False
             else True),
      apply_rule = (\<lambda>node.
        let size = getSize node;
            factor = children (children node ! 0) ! 0;
            ammount = BitVector_unsigned G size (getSize (children node ! 1))
        in ebind (BitVector_leftShift G (BitVector_unsigned G size 1) ammount) (\<lambda>coef.
           Inr (App BITVECTOR_MULT [factor, CONST_BITVECTOR coef])))\<rparr>"

section \<open>Negation\<close>

definition NegMult :: "gmp \<Rightarrow> rule" where
  "NegMult G =
     \<lparr>applies = (\<lambda>node.
        if \<not> hasKind BITVECTOR_NEG node \<or> \<not> hasKind BITVECTOR_MULT (children node ! 0) then False
        else isConst (children node ! (length (children node) - 1))),
      apply_rule = (\<lambda>node.
        let mult = children node ! 0
        in ebind (BitVector_neg G (getConst (last (children mult)))) (\<lambda>bv.
           Inr (App BITVECTOR_MULT (butlast (children mult) @ [CONST_BITVECTOR bv]))))\<rparr>"

definition NegSub :: rule where
  "NegSub =
     \<lparr>applies = (\<lambda>node. hasKind BITVECTOR_NEG node \<and> hasKind BITVECTOR_SUB (children node ! 0)),
      apply_rule = (\<lambda>node.
        let sub = children node ! 0
        in Inr (App BITVECTOR_SUB [children sub ! 1, children sub ! 0]))\<rparr>"

definition NegPlus :: rule where
  "NegPlus =
     \<lparr>applies = (\<lambda>node. hasKind BITVECTOR_NEG node \<and> hasKind BITVECTOR_PLUS (children node ! 0)),
      apply_rule = (\<lambda>node.
        Inr (mkNode BITVECTOR_PLUS (map (\<lambda>c. App BITVECTOR_NEG [c]) (children (children node ! 0)))))\<rparr>"

section \<open>Equalities of one-bit terms\<close>

definition bitwiseEq_split :: "node \<Rightarrow> (bitvector \<times> node) option" where
  "bitwiseEq_split node =
     (if isConstBV (children node ! 0) then Some (getConst (children node ! 0), children node ! 1)
      else if isConstBV (children node ! 1) then Some (getConst (children node ! 1), children node ! 0)
      else None)"

definition mkNodeKind :: "kind \<Rightarrow> node \<Rightarrow> node \<Rightarrow> node" where
  "mkNodeKind k node c = App k (map (\<lambda>n. App EQUAL [n, c]) (children node))"

definition BitwiseEq :: "gmp \<Rightarrow> rule" where
  "BitwiseEq G =
     \<lparr>applies = (\<lambda>node.
        if \<not> hasKind EQUAL node \<or> getSize (children node ! 0) \<noteq> 1 then False
        else
          case bitwiseEq_split node of
            None \<Rightarrow> False
          | Some (c, term) \<Rightarrow>
              hasKind BITVECTOR_AND term \<or> hasKind BITVECTOR_OR term \<or> hasKind BITVECTOR_NOT term \<or>
              hasKind BITVECTOR_NAND term \<or> hasKind BITVECTOR_NOR term \<or> hasKind BITVECTOR_COMP term \<or>
              hasKind BITVECTOR_NEG term),
      apply_rule = (\<lambda>node.
        case bitwiseEq_split node of
          None \<Rightarrow> Inl UnreachableCodeException
        | Some (c, term) \<Rightarrow>
            let eqOne = BitVector_eq c (BitVector_unsigned G 1 1);
                one = mkConst G 1 1;
                zero = mkConst G 1 0;
                t0 = children term ! 0;
                t1 = children term ! 1
            in if hasKind BITVECTOR_AND term
               then Inr (if eqOne then mkNodeKind AND term one else mkNodeKind OR term zero)
               else if hasKind BITVECTOR_NAND term
               then Inr (if eqOne then mkNodeKind OR term zero else mkNodeKind AND term one)
               else if hasKind BITVECTOR_OR term
               then Inr (if eqOne then mkNodeKind OR term one else mkNodeKind AND term zero)
               else if hasKind BITVECTOR_NOR term
               then Inr (if eqOne then mkNodeKind AND term zero else mkNodeKind OR term one)
               else if hasKind BITVECTOR_NOT term
               then Inr (App EQUAL [t0, CONST_BITVECTOR (BitVector_not G c)])
               else if hasKind BITVECTOR_COMP term
               then Inr (if eqOne then App EQUAL [t0, t1] else App NOT [App EQUAL [t0, t1]])
               else if hasKind BITVECTOR_NEG term
               then Inr (App EQUAL [t0, CONST_BITVECTOR c])
               else Inl UnreachableCodeException)\<rparr>"

section \<open>Soundness\<close>

lemma sub_children:
  assumes "typeOf (App BITVECTOR_SUB ns) = Some (BITVECTOR_TYPE w)"
  shows "\<exists>c d. ns = [c, d] \<and> typeOf c = Some (BITVECTOR_TYPE w) \<and> typeOf d = Some (BITVECTOR_TYPE w)"
proof -
  from binary_children [OF assms binary_kinds(4)] obtain c d v where c: "ns = [c, d]"
    "typeOf c = Some (BITVECTOR_TYPE v)" "typeOf d = Some (BITVECTOR_TYPE v)" "valid_width v" by metis
  then have "typeOf (App BITVECTOR_SUB ns) = Some (BITVECTOR_TYPE v)" by (simp add: typeOf_short type_op_iffs)
  with assms c show ?thesis by simp
qed

lemma NegSub_sound: "rule_sound opt NegSub"
proof (rule unary_rule [of BITVECTOR_NEG])
  fix y w t
  assume y: "typeOf y = Some (BITVECTOR_TYPE w)" and w: "valid_width w" and t: "typeOf (App BITVECTOR_NEG [y]) = Some t"
    and a: "applies NegSub (App BITVECTOR_NEG [y])"
  from a obtain ns where ns: "y = App BITVECTOR_SUB ns" by (auto simp: NegSub_def hasKind_iff)
  obtain c d where c: "ns = [c, d]" "typeOf c = Some (BITVECTOR_TYPE w)" "typeOf d = Some (BITVECTOR_TYPE w)"
    using sub_children [OF y [unfolded ns]] by blast
  have tw: "t = BITVECTOR_TYPE w" using t y by (auto simp: typeOf_short type_op_iffs)
  have "eval I (App BITVECTOR_SUB [d, c]) = eval I (App BITVECTOR_NEG [y])" if I: "wf_interp I" for I
  proof -
    obtain p q where p: "eval I c = VBV w p" "eval I d = VBV w q" using typed_bv_value [OF c(2) I] typed_bv_value [OF c(3) I] by metis
    have "(- (p - q) mod 2 ^ w) mod 2 ^ w = (q - p) mod 2 ^ w" by simp
    then show ?thesis using p by (simp add: ns c(1) bvneg_def bvsub_def mod_simps)
  qed
  then show "\<exists>m. apply_rule NegSub (App BITVECTOR_NEG [y]) = Inr m \<and> typeOf m = Some t \<and>
      (\<forall>I a. wf_interp I \<longrightarrow> zero_division opt I \<longrightarrow> eval I y = VBV w a \<longrightarrow> in_width w a \<longrightarrow>
        eval I m = eval I (App BITVECTOR_NEG [y]))"
    using c(2,3) w tw by (simp add: NegSub_def ns c(1) typing_simps del: eval.simps)
qed (auto simp: NegSub_def)

lemma NegMult_never:
  assumes "typeOf n = Some t"
  shows "\<not> applies (NegMult G) n"
proof
  assume a: "applies (NegMult G) n"
  then obtain ns where ns: "n = App BITVECTOR_NEG ns" by (auto simp: NegMult_def hasKind_iff split: if_splits)
  from unary_children [OF assms [unfolded ns]] obtain x where "ns = [x]" by auto
  with a show False by (auto simp: NegMult_def ns hasKind_iff isConst_def split: if_splits)
qed

text \<open>Sums of terms computed from the children of a sum.\<close>

lemma sum_list_mod_cong:
  "(\<And>x. x \<in> set xs \<Longrightarrow> (f x :: int) mod m = g x mod m) \<Longrightarrow> sum_list (map f xs) mod m = sum_list (map g xs) mod m"
  by (induction xs) (auto intro: mod_add_cong)

lemma plus_map_nodes:
  assumes x: "typeOf (App BITVECTOR_PLUS ns) = Some (BITVECTOR_TYPE w)"
    and f: "\<And>c. typeOf c = Some (BITVECTOR_TYPE w) \<Longrightarrow> typeOf (f c) = Some (BITVECTOR_TYPE w)"
    and v: "\<And>c I a. wf_interp I \<Longrightarrow> eval I c = VBV w a \<Longrightarrow> v_int (eval I (f c)) mod 2 ^ w = (u I * a) mod 2 ^ w"
  shows "typeOf (mkNode BITVECTOR_PLUS (map f ns)) = Some (BITVECTOR_TYPE w)"
    and "wf_interp I \<Longrightarrow> eval I (mkNode BITVECTOR_PLUS (map f ns)) = VBV w ((u I * v_int (eval I (App BITVECTOR_PLUS ns))) mod 2 ^ w)"
proof -
  obtain ns: "ns \<noteq> []" "all_of_width w ns" using typeOf_nary_nonempty [OF x] by auto
  then have fs: "map f ns \<noteq> []" "all_of_width w (map f ns)" using f by (auto simp: all_of_width_def list_all_iff)
  show "typeOf (mkNode BITVECTOR_PLUS (map f ns)) = Some (BITVECTOR_TYPE w)" using mkNode_nary(1) [OF _ fs] by simp
  assume I: "wf_interp I"
  have "sum_list (map (\<lambda>c. v_int (eval I (f c))) ns) mod 2 ^ w = sum_list (map (\<lambda>c. u I * v_int (eval I c)) ns) mod 2 ^ w"
  proof (rule sum_list_mod_cong)
    fix c assume "c \<in> set ns"
    then have "typeOf c = Some (BITVECTOR_TYPE w)" using ns(2) by (auto simp: all_of_width_def list_all_iff)
    then obtain a where "eval I c = VBV w a" using typed_bv_value [OF _ I] by metis
    then show "v_int (eval I (f c)) mod 2 ^ w = u I * v_int (eval I c) mod 2 ^ w" using v [OF I] by simp
  qed
  also have "\<dots> = (u I * v_int (eval I (App BITVECTOR_PLUS ns))) mod 2 ^ w"
    using eval_nary [OF _ ns I, of BITVECTOR_PLUS] by (simp add: nary_value_sum sum_list_const_mult mod_mult_right_eq del: eval.simps)
  finally show "eval I (mkNode BITVECTOR_PLUS (map f ns)) = VBV w ((u I * v_int (eval I (App BITVECTOR_PLUS ns))) mod 2 ^ w)"
    using mkNode_nary(2) [OF _ fs I, of BITVECTOR_PLUS] by (simp add: nary_value_sum comp_def del: eval.simps)
qed

lemma NegPlus_sound: "rule_sound opt NegPlus"
proof (rule unary_rule [of BITVECTOR_NEG])
  fix y w t
  assume y: "typeOf y = Some (BITVECTOR_TYPE w)" and w: "valid_width w" and t: "typeOf (App BITVECTOR_NEG [y]) = Some t"
    and a: "applies NegPlus (App BITVECTOR_NEG [y])"
  from a obtain ns where ns: "y = App BITVECTOR_PLUS ns" by (auto simp: NegPlus_def hasKind_iff)
  have "t = BITVECTOR_TYPE w" using t y by (auto simp: typing_simps)
  then show "\<exists>m. apply_rule NegPlus (App BITVECTOR_NEG [y]) = Inr m \<and> typeOf m = Some t \<and>
      (\<forall>I a. wf_interp I \<longrightarrow> zero_division opt I \<longrightarrow> eval I y = VBV w a \<longrightarrow> in_width w a \<longrightarrow>
        eval I m = eval I (App BITVECTOR_NEG [y]))"
    using plus_map_nodes [OF y [unfolded ns], of "\<lambda>c. App BITVECTOR_NEG [c]" "\<lambda>I. - 1"] w
    by (auto simp: NegPlus_def ns typing_simps bvneg_def)
qed (auto simp: NegPlus_def)

text \<open>Products over sums and differences.\<close>

lemma mult2_node:
  assumes "typeOf c = Some (BITVECTOR_TYPE w)" and "typeOf f = Some (BITVECTOR_TYPE w)"
  shows "typeOf (App BITVECTOR_MULT [c, f]) = Some (BITVECTOR_TYPE w)"
    and "eval I c = VBV w a \<Longrightarrow> eval I f = VBV w b \<Longrightarrow> eval I (App BITVECTOR_MULT [c, f]) = VBV w (a * b mod 2 ^ w)"
proof -
  show "typeOf (App BITVECTOR_MULT [c, f]) = Some (BITVECTOR_TYPE w)"
    using assms by (intro typeOf_nary_iff [THEN iffD2]) auto
qed (simp add: bvmul_def)

lemma distrib_nodes:
  assumes st: "typeOf s = Some (BITVECTOR_TYPE w)" "isSum s" and f: "typeOf f = Some (BITVECTOR_TYPE w)"
  defines "m \<equiv> mkNode (appKind s) (map (\<lambda>c. App BITVECTOR_MULT [c, f]) (children s))"
  shows "typeOf m = Some (BITVECTOR_TYPE w)"
    and "wf_interp I \<Longrightarrow> eval I m = VBV w (v_int (eval I s) * v_int (eval I f) mod 2 ^ w)"
proof -
  have "typeOf m = Some (BITVECTOR_TYPE w) \<and>
      (wf_interp I \<longrightarrow> eval I m = VBV w (v_int (eval I s) * v_int (eval I f) mod 2 ^ w))"
  proof (cases "hasKind BITVECTOR_PLUS s")
    case True
    then obtain ns where ns: "s = App BITVECTOR_PLUS ns" by (auto simp: hasKind_iff)
    have v: "v_int (eval J (App BITVECTOR_MULT [c, f])) mod 2 ^ w = v_int (eval J f) * a mod 2 ^ w"
      if J: "wf_interp J" "eval J c = VBV w a" for J c a
    proof -
      obtain b where "eval J f = VBV w b" using typed_bv_value [OF f J(1)] by metis
      then show ?thesis using J(2) by (simp add: bvmul_def mult.commute)
    qed
    note p = plus_map_nodes [OF st(1) [unfolded ns], of "\<lambda>c. App BITVECTOR_MULT [c, f]" "\<lambda>J. v_int (eval J f)", OF mult2_node(1) [OF _ f] v]
    have m: "m = mkNode BITVECTOR_PLUS (map (\<lambda>c. App BITVECTOR_MULT [c, f]) ns)" by (simp add: m_def ns appKind_def)
    have "v_int (eval I s) * v_int (eval I f) = v_int (eval I f) * v_int (eval I (App BITVECTOR_PLUS ns))"
      unfolding ns by (rule mult.commute)
    with p(1) p(2) [of I] show ?thesis unfolding m by presburger
  next
    case False
    then obtain ns where ns: "s = App BITVECTOR_SUB ns" using st(2) by (auto simp: isSum_def hasKind_iff)
    obtain c d where c: "ns = [c, d]" "typeOf c = Some (BITVECTOR_TYPE w)" "typeOf d = Some (BITVECTOR_TYPE w)"
      using sub_children [OF st(1) [unfolded ns]] by blast
    have m: "m = App BITVECTOR_SUB [App BITVECTOR_MULT [c, f], App BITVECTOR_MULT [d, f]]"
      by (simp add: m_def ns c(1) appKind_def mkNode_def)
    have "typeOf m = Some (BITVECTOR_TYPE w)"
      using mult2_node(1) [OF c(2) f] mult2_node(1) [OF c(3) f] typeOf_valid [OF f] by (simp add: m typeOf_short type_op_iffs)
    moreover have "eval I m = VBV w (v_int (eval I s) * v_int (eval I f) mod 2 ^ w)" if I: "wf_interp I"
    proof -
      obtain p q b where p: "eval I c = VBV w p" "eval I d = VBV w q" "eval I f = VBV w b"
        using typed_bv_value [OF c(2) I] typed_bv_value [OF c(3) I] typed_bv_value [OF f I] by metis
      then show ?thesis by (simp add: m ns c(1) bvsub_def bvmul_def mod_simps left_diff_distrib)
    qed
    ultimately show ?thesis by blast
  qed
  then show "typeOf m = Some (BITVECTOR_TYPE w)"
    and "wf_interp I \<Longrightarrow> eval I m = VBV w (v_int (eval I s) * v_int (eval I f) mod 2 ^ w)" by blast+
qed

lemma mult_pair:
  assumes "typeOf n = Some t" and "hasKind BITVECTOR_MULT n" and "length (children n) = 2"
  obtains x y w where "n = App BITVECTOR_MULT [x, y]" "typeOf x = Some (BITVECTOR_TYPE w)" "typeOf y = Some (BITVECTOR_TYPE w)"
    "t = BITVECTOR_TYPE w"
proof -
  obtain ns where ns: "n = App BITVECTOR_MULT ns" using assms(2) by (auto simp: hasKind_iff)
  then obtain x y where xy: "ns = [x, y]" using assms(3) by (auto simp: length_Suc_conv numeral_2_eq_2)
  then show thesis using typeOf_nary_nonempty [OF assms(1) [unfolded ns]] that [of x y] by (auto simp: ns)
qed

lemma distrib_sound:
  assumes n: "typeOf (App BITVECTOR_MULT [x, y]) = Some (BITVECTOR_TYPE w)"
    and xy: "typeOf x = Some (BITVECTOR_TYPE w)" "typeOf y = Some (BITVECTOR_TYPE w)"
    and sf: "(s, f) = (x, y) \<or> (s, f) = (y, x)" "isSum s"
  shows "same_meaning opt (mkNode (appKind s) (map (\<lambda>c. App BITVECTOR_MULT [c, f]) (children s))) (App BITVECTOR_MULT [x, y])"
proof -
  have t: "typeOf s = Some (BITVECTOR_TYPE w)" "typeOf f = Some (BITVECTOR_TYPE w)" using sf(1) xy by auto
  show ?thesis
  proof (rule same_meaningI [OF n distrib_nodes(1) [OF t(1) sf(2) t(2)]])
    fix I assume I: "wf_interp I"
    obtain a b where a: "eval I x = VBV w a" "eval I y = VBV w b" using typed_bv_value [OF xy(1) I] typed_bv_value [OF xy(2) I] by metis
    then show "eval I (mkNode (appKind s) (map (\<lambda>c. App BITVECTOR_MULT [c, f]) (children s))) = eval I (App BITVECTOR_MULT [x, y])"
      using distrib_nodes(2) [OF t(1) sf(2) t(2) I] mult2_node(2) [OF xy a] sf(1) by (auto simp: mult.commute simp del: eval.simps)
  qed
qed

lemma MultDistrib_sound: "rule_sound opt MultDistrib"
proof (rule rule_soundI)
  fix n t assume n: "typeOf n = Some t" "applies MultDistrib n"
  then have "hasKind BITVECTOR_MULT n" "length (children n) = 2" by (auto simp: MultDistrib_def split: if_splits)
  from mult_pair [OF n(1) this] obtain x y w where xy: "n = App BITVECTOR_MULT [x, y]"
    "typeOf x = Some (BITVECTOR_TYPE w)" "typeOf y = Some (BITVECTOR_TYPE w)" "t = BITVECTOR_TYPE w" by metis
  have "isSum x \<or> isSum y" using n(2) by (auto simp: MultDistrib_def xy(1) split: if_splits)
  then show "sound_result opt n (apply_rule MultDistrib n)"
    using distrib_sound [OF n(1) [unfolded xy(1,4)] xy(2,3), of x y] distrib_sound [OF n(1) [unfolded xy(1,4)] xy(2,3), of y x]
    by (auto simp: MultDistrib_def xy(1) Let_def)
qed

text \<open>The constant and the other factors that the loop of \<open>MultSimplify\<close> leaves.\<close>

definition mult_split :: "nat \<Rightarrow> bitvector \<Rightarrow> node list \<Rightarrow> (bitvector \<times> node list) option \<Rightarrow> bool" where
  "mult_split w c ns r \<longleftrightarrow>
     (case r of
        None \<Rightarrow> \<forall>I. wf_interp I \<longrightarrow> d_value c * prod_list (values I ns) mod 2 ^ w = 0
      | Some (d, cs) \<Rightarrow>
          bv_wf d \<and> d_size d = w \<and> (d_value d = 0 \<longrightarrow> d_value c = 0) \<and> cs = filter (\<lambda>n. \<not> isConstBV n) ns \<and>
          (\<forall>I. wf_interp I \<longrightarrow>
            d_value d * prod_list (values I cs) mod 2 ^ w = d_value c * prod_list (values I ns) mod 2 ^ w))"

context gmp_documented
begin

lemma MultDistribConst_sound: "rule_sound opt (MultDistribConst G)"
proof (rule rule_soundI)
  fix n t assume n: "typeOf n = Some t" "applies (MultDistribConst G) n"
  then have "hasKind BITVECTOR_MULT n" "length (children n) = 2" by (auto simp: MultDistribConst_def split: if_splits)
  from mult_pair [OF n(1) this] obtain x y w where xy: "n = App BITVECTOR_MULT [x, y]"
    "typeOf x = Some (BITVECTOR_TYPE w)" "typeOf y = Some (BITVECTOR_TYPE w)" "t = BITVECTOR_TYPE w" by metis
  have ap: "isConst y" "isSum x \<or> hasKind BITVECTOR_NEG x"
    using n(2) by (auto simp: MultDistribConst_def xy(1) isSum_def split: if_splits)
  from const_of_type [OF ap(1) xy(3)] obtain c where c: "y = CONST_BITVECTOR c" "bv_wf c" "d_size c = w" "w < 2 ^ 32" "0 < w" by metis
  show "sound_result opt n (apply_rule (MultDistribConst G) n)"
  proof (cases "hasKind BITVECTOR_NEG x")
    case True
    then obtain z where z: "x = App BITVECTOR_NEG [z]" "typeOf z = Some (BITVECTOR_TYPE w)"
      using unary_same [of BITVECTOR_NEG _ w] xy(2) by (auto simp: hasKind_iff)
    let ?d = "CONST_BITVECTOR (BitVector G w (bvneg w (d_value c)))"
    have d: "typeOf ?d = Some (BITVECTOR_TYPE w)" using c by simp
    have "same_meaning opt (App BITVECTOR_MULT [z, ?d]) n"
    proof (rule same_meaningI [OF n(1)])
      show "typeOf (App BITVECTOR_MULT [z, ?d]) = Some t" using mult2_node(1) [OF z(2) d] by (simp add: xy(4))
      fix I assume I: "wf_interp I"
      obtain a where a: "eval I z = VBV w a" using typed_bv_value [OF z(2) I] by metis
      then show "eval I (App BITVECTOR_MULT [z, ?d]) = eval I n"
        using c(3) by (simp add: xy(1) z(1) c(1) bvmul_def bvneg_def mod_simps)
    qed
    then show ?thesis using True neg_refines [OF c(2)] c(3) by (simp add: MultDistribConst_def xy(1) z(1) c(1))
  next
    case False
    with ap(2) have s: "isSum x" by simp
    show ?thesis
      using distrib_sound [OF n(1) [unfolded xy(1,4)] xy(2,3) _ s, of y opt] False
      by (simp add: MultDistribConst_def xy(1))
  qed
qed

lemma multSimplify_loop_split:
  assumes "all_of_width w ns" and "bv_wf c" "d_size c = w"
  shows "\<exists>r. multSimplify_loop G w c ns = Inr r \<and> mult_split w c ns r"
  using assms
proof (induction ns arbitrary: c)
  case (Cons n ns)
  show ?case
  proof (cases "isConstBV n")
    case True
    then obtain d where d: "n = CONST_BITVECTOR d" "bv_wf d" "d_size d = w" using const_child [of n w] Cons.prems(1) by auto
    let ?p = "BitVector G w (bvmul w (d_value c) (d_value d))"
    have p: "BitVector_mult G c (getConst n) = Inr ?p" using mult_refines [of c d] Cons.prems d by simp
    have pw: "bv_wf ?p" "d_size ?p = w" "d_value ?p = d_value c * d_value d mod 2 ^ w"
      using Cons.prems bv_wfD(1) [of c] by (simp_all add: bvmul_def)
    have v: "d_value ?p * x mod 2 ^ w = d_value c * (d_value d * x) mod 2 ^ w" for x
      unfolding pw(3) by (simp add: mod_mult_left_eq mult.assoc)
    show ?thesis
    proof (cases "d_value ?p = 0")
      case zero: True
      have "d_value c * (d_value d * x) mod 2 ^ w = 0" for x unfolding v [symmetric] zero by simp
      then have "mult_split w c (n # ns) None" by (simp add: mult_split_def d(1))
      moreover have "multSimplify_loop G w c (n # ns) = Inr None"
        using True p zero pw(3) by (simp add: BitVector_unsigned_def BitVector_def bvmul_def)
      ultimately show ?thesis by blast
    next
      case False
      obtain r where r: "multSimplify_loop G w ?p ns = Inr r" "mult_split w ?p ns r"
        using Cons.IH [of ?p] Cons.prems(1) pw by auto
      have "mult_split w c (n # ns) r"
        using r(2) False True v by (auto simp: mult_split_def d(1) split: option.splits)
      moreover have "multSimplify_loop G w c (n # ns) = Inr r"
        using True p False r(1) pw(3) by (auto simp: BitVector_unsigned_def BitVector_def bvmul_def)
      ultimately show ?thesis by blast
    qed
  next
    case False
    obtain r where r: "multSimplify_loop G w c ns = Inr r" "mult_split w c ns r" using Cons by auto
    have v: "x * (y * z) mod 2 ^ w = u * (y * t) mod 2 ^ w" if "x * z mod 2 ^ w = u * t mod 2 ^ w" for x y z u t :: int
      using mod_mult_cong [OF refl that, of y] by (simp add: ac_simps)
    have "mult_split w c (n # ns) (map_option (\<lambda>(constant, cs). (constant, n # cs)) r)"
    proof (cases r)
      case None
      have "x * (y * z) mod 2 ^ w = 0" if "x * z mod 2 ^ w = 0" for x y z :: int using v [of x z 0 0 y] that by simp
      then show ?thesis using r(2) by (simp add: mult_split_def None)
    next
      case (Some a)
      then obtain d cs where a: "r = Some (d, cs)" by (cases a) auto
      have f: "bv_wf d" "d_size d = w" "d_value d = 0 \<longrightarrow> d_value c = 0" "cs = filter (\<lambda>n. \<not> isConstBV n) ns"
        "\<And>I. wf_interp I \<Longrightarrow> d_value d * prod_list (values I cs) mod 2 ^ w = d_value c * prod_list (values I ns) mod 2 ^ w"
        using r(2) unfolding mult_split_def a option.case prod.case by blast+
      have "d_value d * prod_list (values I (n # cs)) mod 2 ^ w = d_value c * prod_list (values I (n # ns)) mod 2 ^ w"
        if "wf_interp I" for I using v [OF f(5) [OF that]] by simp
      then show ?thesis using f(1-4) False by (simp add: mult_split_def a)
    qed
    then show ?thesis using False r(1) by simp
  qed
qed (simp add: mult_split_def)

lemma nonzero_is_one: "bv_wf c \<Longrightarrow> d_size c = w \<Longrightarrow> BitVector_neq c (BitVector_unsigned G w 1) \<longleftrightarrow> d_value c \<noteq> 1 mod 2 ^ w"
  by (auto simp: BitVector_neq_def BitVector_unsigned_def)

text \<open>What \<open>MultSimplify\<close> returns.\<close>

lemma MultSimplify_result:
  assumes ns: "typeOf (App BITVECTOR_MULT ns) = Some (BITVECTOR_TYPE w)"
  shows "\<exists>m. apply_rule (MultSimplify G lt) (App BITVECTOR_MULT ns) = Inr m \<and>
    same_meaning opt m (App BITVECTOR_MULT ns) \<and>
    (isConst m \<or> (\<exists>cs cc. m = mkNode BITVECTOR_MULT (cs @ cc) \<and> cs @ cc \<noteq> [] \<and> mset cs = mset (filter (\<lambda>n. \<not> isConstBV n) ns) \<and>
      (cc = [] \<or> (\<exists>d. cc = [CONST_BITVECTOR d] \<and> bv_wf d \<and> d_size d = w \<and> d_value d \<noteq> 0 \<and> d_value d \<noteq> 1))))"
proof -
  have w: "ns \<noteq> []" "all_of_width w ns" "valid_width w" using typeOf_nary_nonempty [OF ns] typeOf_valid [OF ns] by auto
  have sz: "getSize (App BITVECTOR_MULT ns) = w" using ns by simp
  have one: "bv_wf (BitVector G w 1)" "d_size (BitVector G w 1) = w" "d_value (BitVector G w 1) = 1"
    using w(3) by (simp_all add: valid_width_def mod_pos_pos_trivial)
  obtain r where r: "multSimplify_loop G w (BitVector G w 1) ns = Inr r" "mult_split w (BitVector G w 1) ns r"
    using multSimplify_loop_split [OF w(2) one(1,2)] by blast
  have ev: "eval I (App BITVECTOR_MULT ns) = VBV w (prod_list (values I ns) mod 2 ^ w)" if "wf_interp I" for I
    using eval_nary [OF _ w(1,2) that, of BITVECTOR_MULT] by (simp add: nary_value_prod del: eval.simps)
  show ?thesis
  proof (cases r)
    case None
    have "same_meaning opt (mkConst G w 0) (App BITVECTOR_MULT ns)"
      using r(2) ev one(3) by (intro same_meaning_mkConst [OF ns]) (simp add: mult_split_def None del: eval.simps)
    then show ?thesis using r(1) None by (simp add: MultSimplify_def sz mkConst_def isConst_def Let_def)
  next
    case (Some a)
    then obtain d cs where a: "r = Some (d, cs)" by (cases a) auto
    have d: "bv_wf d" "d_size d = w" "d_value d \<noteq> 0" "cs = filter (\<lambda>n. \<not> isConstBV n) ns"
      "\<And>I. wf_interp I \<Longrightarrow> d_value d * prod_list (values I cs) mod 2 ^ w = prod_list (values I ns) mod 2 ^ w"
      using r(2) unfolding mult_split_def a option.case prod.case one(3) mult_1 by auto
    let ?cc = "if d_value d = 1 then [] else [CONST_BITVECTOR d]" and ?ss = "sort_nodes lt cs"
    let ?m = "if ?ss @ ?cc = [] then mkConst G w 1 else mkNode BITVECTOR_MULT (?ss @ ?cc)"
    have m: "apply_rule (MultSimplify G lt) (App BITVECTOR_MULT ns) = Inr ?m"
      using r(1) a nonzero_is_one [OF d(1,2)] w(3) by (auto simp: MultSimplify_def sz Let_def valid_width_def)
    have all: "all_of_width w (?ss @ ?cc)"
      using d(1,2) w(3) filter_width [OF w(2)] all_of_width_mset [OF mset_sort_nodes [of lt cs]] by (auto simp: d(4) valid_width_def)
    have val: "prod_list (values I (?ss @ ?cc)) mod 2 ^ w = prod_list (values I ns) mod 2 ^ w" if I: "wf_interp I" for I
    proof -
      have "prod_list (values I ?ss) = prod_list (values I cs)"
        using prod_mset_prod_list [of "values I ?ss"] prod_mset_prod_list [of "values I cs"] by simp
      then show ?thesis using d(5) [OF I] by (auto simp: mult.commute)
    qed
    have "same_meaning opt ?m (App BITVECTOR_MULT ns)"
    proof (cases "?ss @ ?cc = []")
      case True
      then have "eval I (App BITVECTOR_MULT ns) = VBV w (int 1 mod 2 ^ w)" if "wf_interp I" for I
        using val [OF that] ev [OF that] by (simp del: eval.simps)
      then show ?thesis using True same_meaning_mkConst [OF ns] by simp
    next
      case False
      then have "eval I (mkNode BITVECTOR_MULT (?ss @ ?cc)) = eval I (App BITVECTOR_MULT ns)" if I: "wf_interp I" for I
        using mkNode_nary(2) [OF _ False all I, of BITVECTOR_MULT] val [OF I] ev [OF I] by (simp add: nary_value_prod del: eval.simps map_append)
      then show ?thesis
        unfolding if_not_P [OF False] using mkNode_nary(1) [OF _ False all, of BITVECTOR_MULT] ns by (simp add: same_meaning_def del: eval.simps)
    qed
    moreover have "isConst ?m \<or> (\<exists>cs cc. ?m = mkNode BITVECTOR_MULT (cs @ cc) \<and> cs @ cc \<noteq> [] \<and>
        mset cs = mset (filter (\<lambda>n. \<not> isConstBV n) ns) \<and>
        (cc = [] \<or> (\<exists>d. cc = [CONST_BITVECTOR d] \<and> bv_wf d \<and> d_size d = w \<and> d_value d \<noteq> 0 \<and> d_value d \<noteq> 1)))"
    proof (cases "?ss @ ?cc = []")
      case False
      have "mset ?ss = mset (filter (\<lambda>n. \<not> isConstBV n) ns)" by (simp add: d(4))
      moreover have "?cc = [] \<or> (\<exists>d. ?cc = [CONST_BITVECTOR d] \<and> bv_wf d \<and> d_size d = w \<and> d_value d \<noteq> 0 \<and> d_value d \<noteq> 1)"
        using d(1-3) by simp
      ultimately show ?thesis unfolding if_not_P [OF False] using False by blast
    qed (simp add: mkConst_def isConst_def)
    ultimately show ?thesis using m by blast
  qed
qed

lemma MultSimplify_sound: "rule_sound opt (MultSimplify G lt)"
proof (rule rule_soundI)
  fix n t assume n: "typeOf n = Some t" "applies (MultSimplify G lt) n"
  then obtain ns where ns: "n = App BITVECTOR_MULT ns" by (auto simp: MultSimplify_def hasKind_iff split: if_splits)
  obtain w where "t = BITVECTOR_TYPE w" using typeOf_nary_nonempty [OF n(1) [unfolded ns]] by auto
  with MultSimplify_result [OF n(1) [unfolded ns this]] show "sound_result opt n (apply_rule (MultSimplify G lt) n)"
    unfolding sound_result_def ns by blast
qed

lemma ConcatToMult_sound: "rule_sound opt (ConcatToMult G)"
proof (rule rule_soundI)
  fix n t assume n: "typeOf n = Some t" "applies (ConcatToMult G) n"
  then obtain e c where e: "n = App BITVECTOR_CONCAT [e, c]" "isExtract e" "isConst c" "c = mkConst G (getSize c) 0"
    "getSize n = getSize (children e ! 0)" "getExtractLow e = 0"
    by (auto simp: ConcatToMult_def hasKind_iff length_Suc_conv numeral_2_eq_2 Let_def split: if_splits)
  obtain ty: "bv_typed e" "bv_typed c" "valid_width (getSize e + getSize c)" "t = BITVECTOR_TYPE (getSize e + getSize c)"
    using n(1) [unfolded e(1) typeOf_CONCAT_iff] by auto
  from extract_parts [OF bv_typed_getSize [OF ty(1)] e(2)] e(6) obtain x w hi where x: "e = mkExtract x hi 0"
    "typeOf x = Some (BITVECTOR_TYPE w)" "hi < w" "w < 2 ^ 32" by (metis mkExtract_simps(4))
  define k where "k = getSize c"
  have se: "getSize e = hi + 1" using typeOf_mkExtract [OF x(2) _ x(3), of 0] by (simp add: x(1))
  have kw: "w = hi + 1 + k" "t = BITVECTOR_TYPE w" "0 < k"
    using e(5) n(1) ty(4) x(1,2) se bv_typed_valid [OF ty(2)] by (simp_all add: k_def valid_width_def)
  then have "k < w" by simp
  then have "k < 2 ^ w" using less_exp [of w] by (rule less_trans)
  then have "int k < 2 ^ w" by simp
  moreover have "k < w" "hi = w - 1 - k" "valid_width w" using kw x(4) by (simp_all add: valid_width_def)
  ultimately have k: "k < w" "hi = w - 1 - k" "int k < 2 ^ w" "valid_width w" by blast+
  let ?one = "BitVector_unsigned G w 1" and ?am = "BitVector_unsigned G w k"
  let ?c = "BitVector G w (bvshl w (d_value ?one) (d_value ?am))"
  have bu: "BitVector_unsigned G w v = BitVector G w (int v)" for v by (simp add: BitVector_unsigned_def BitVector_def)
  have sh: "BitVector_leftShift G ?one ?am = Inr ?c"
    using leftShift_refines [of ?one ?am] bv_wf_BitVector [OF x(4)] unfolding bu by (simp only: BitVector_fields)
  have v: "d_value ?one = 1" "d_value ?am = int k" using k x(4) by (simp_all add: BitVector_unsigned_def valid_width_def)
  have c: "typeOf (CONST_BITVECTOR ?c) = Some (BITVECTOR_TYPE w)" using k(4) by (simp add: valid_width_def)
  have "same_meaning opt (App BITVECTOR_MULT [x, CONST_BITVECTOR ?c]) n"
  proof (rule same_meaningI [OF n(1)])
    show "typeOf (App BITVECTOR_MULT [x, CONST_BITVECTOR ?c]) = Some t" using mult2_node(1) [OF x(2) c] by (simp add: kw(2))
    fix I assume I: "wf_interp I"
    obtain a where a: "eval I x = VBV w a" using typed_bv_value [OF x(2) I] by metis
    have "eval I n = VBV w (bvconcat k (bvextract hi 0 a) 0)"
    proof -
      have "c = mkConst G k 0" unfolding k_def by (rule e(4))
      then have "eval I c = VBV k 0" by simp
      then show ?thesis using eval_mkExtract [OF a, of hi 0] kw(1) by (simp add: e(1) x(1))
    qed
    then show "eval I (App BITVECTOR_MULT [x, CONST_BITVECTOR ?c]) = eval I n"
      using shl_slices [OF k(1), of a] k(2) a v by (simp add: bvshl_def bvmul_def mod_simps)
  qed
  moreover have "getSize n = w" using n(1) kw(2) by simp
  ultimately show "sound_result opt n (apply_rule (ConcatToMult G) n)"
    using sh by (simp add: ConcatToMult_def e(1) x(1) k_def)
qed

text \<open>One-bit values are zero or one.\<close>

lemma one_bit: "in_width (Suc 0) a \<longleftrightarrow> a = 0 \<or> a = 1"
  by (auto simp: in_width_def)

lemma one_bit_node:
  assumes "typeOf n = Some (BITVECTOR_TYPE 1)" and "wf_interp I"
  shows "eval I n = VBV 1 (of_bool (v_int (eval I n) = 1))"
proof -
  obtain a where "eval I n = VBV 1 a" "in_width 1 a" using typed_bv_value [OF assms] by metis
  then show ?thesis using one_bit [of a] by auto
qed

lemma mkNodeKind_node:
  assumes cs: "2 \<le> length cs" "all_of_width 1 cs" and k: "k \<in> {AND, OR}" and b: "b \<le> 1"
  shows "typeOf (mkNodeKind k (App k' cs) (mkConst G 1 b)) = Some BOOLEAN_TYPE"
    and "wf_interp I \<Longrightarrow> eval I (mkNodeKind k (App k' cs) (mkConst G 1 b)) =
      VBool (if k = AND then \<forall>c\<in>set cs. v_int (eval I c) = int b else \<exists>c\<in>set cs. v_int (eval I c) = int b)"
proof -
  have e: "typeOf (App EQUAL [c, mkConst G 1 b]) = Some BOOLEAN_TYPE" if "c \<in> set cs" for c
    using cs(2) that by (auto simp: all_of_width_def list_all_iff typing_simps)
  have "list_all2 (\<lambda>n u. typeOf n = Some u) (map (\<lambda>n. App EQUAL [n, mkConst G 1 b]) cs) (replicate (length cs) BOOLEAN_TYPE)"
    using e by (auto simp: list_all2_conv_all_nth)
  then show "typeOf (mkNodeKind k (App k' cs) (mkConst G 1 b)) = Some BOOLEAN_TYPE"
    unfolding mkNodeKind_def typeOf_App_iff using k cs(1)
    by (intro exI [of _ "replicate (length cs) BOOLEAN_TYPE"]) (auto simp: type_op_iffs list_all_iff)
  assume I: "wf_interp I"
  have eq: "eval I (App EQUAL [c, mkConst G 1 b]) = VBool (v_int (eval I c) = int b)" if "c \<in> set cs" for c
  proof -
    have "typeOf c = Some (BITVECTOR_TYPE 1)" using cs(2) that by (auto simp: all_of_width_def list_all_iff)
    from one_bit_node [OF this I] show ?thesis using b by (cases "v_int (eval I c) = 1") (auto simp: le_Suc_eq)
  qed
  show "eval I (mkNodeKind k (App k' cs) (mkConst G 1 b)) =
      VBool (if k = AND then \<forall>c\<in>set cs. v_int (eval I c) = int b else \<exists>c\<in>set cs. v_int (eval I c) = int b)"
    using k unfolding mkNodeKind_def children.simps eval.simps(4) [of I k] map_map comp_def
    by (auto simp: list_all_iff list_ex_iff eq [unfolded One_nat_def] simp del: eval.simps)
qed

lemma bitwiseEq_parts:
  assumes n: "typeOf n = Some t" "hasKind EQUAL n" "getSize (children n ! 0) = 1" and s: "bitwiseEq_split n = Some (c, u)"
  shows "t = BOOLEAN_TYPE" "bv_wf c" "d_size c = 1" "d_value c = 0 \<or> d_value c = 1" "typeOf u = Some (BITVECTOR_TYPE 1)"
    and "wf_interp I \<Longrightarrow> eval I n = VBool (v_int (eval I u) = d_value c)"
proof -
  obtain ns where ns: "n = App EQUAL ns" using n(2) by (auto simp: hasKind_iff)
  then obtain l r v where l: "ns = [l, r]" "typeOf l = Some v" "typeOf r = Some v" "t = BOOLEAN_TYPE"
    using n(1) by (auto simp: typeOf_App_iff type_op_mixed list_all2_Cons2)
  have cu: "l = CONST_BITVECTOR c \<and> u = r \<or> r = CONST_BITVECTOR c \<and> u = l"
    using s by (auto simp: bitwiseEq_split_def ns l(1) isConstBV_iff split: if_splits)
  then have c: "bv_wf c" "v = BITVECTOR_TYPE (d_size c)" "typeOf u = Some v" using l(2,3) by auto
  have one: "d_size c = 1" using n(3) l(2) c(2) by (simp add: ns l(1))
  have "in_width 1 (d_value c)" using c(1) one by (simp add: bv_wf_def)
  then show "t = BOOLEAN_TYPE" "bv_wf c" "d_size c = 1" "d_value c = 0 \<or> d_value c = 1" "typeOf u = Some (BITVECTOR_TYPE 1)"
    using c one l(4) one_bit by auto
  assume I: "wf_interp I"
  obtain a where "eval I u = VBV 1 a" using typed_bv_value [OF _ I, of u 1] c(2,3) one by metis
  with cu one show "eval I n = VBool (v_int (eval I u) = d_value c)" by (auto simp: ns l(1))
qed

lemma one_bit_nary:
  assumes u: "typeOf (App k cs) = Some (BITVECTOR_TYPE 1)" "k \<in> {BITVECTOR_AND, BITVECTOR_OR}" and I: "wf_interp I"
  shows "v_int (eval I (App k cs)) = 1 \<longleftrightarrow>
      (if k = BITVECTOR_AND then \<forall>c\<in>set cs. v_int (eval I c) = 1 else \<exists>c\<in>set cs. v_int (eval I c) = 1)"
    and "v_int (eval I (App k cs)) = 0 \<longleftrightarrow>
      (if k = BITVECTOR_AND then \<exists>c\<in>set cs. v_int (eval I c) = 0 else \<forall>c\<in>set cs. v_int (eval I c) = 0)"
proof -
  have nk: "k \<in> nary_kinds" using u(2) by auto
  have bits: "(v_int (eval I c) = 1 \<longleftrightarrow> bit (v_int (eval I c)) 0) \<and> (v_int (eval I c) = 0 \<longleftrightarrow> \<not> bit (v_int (eval I c)) 0)"
    if c: "typeOf c = Some (BITVECTOR_TYPE 1)" for c
  proof -
    obtain a where "eval I c = VBV 1 a" "in_width 1 a" using typed_bv_value [OF c I] by metis
    then show ?thesis using one_bit [of a] by (auto simp: bit_simps)
  qed
  have cs: "\<forall>c\<in>set cs. typeOf c = Some (BITVECTOR_TYPE 1)"
    using all_of_width_nary [OF nk u(1)] by (auto simp: all_of_width_def list_all_iff)
  have "bit (v_int (eval I (App k cs))) 0 \<longleftrightarrow>
      (if k = BITVECTOR_AND then \<forall>c\<in>set cs. bit (v_int (eval I c)) 0 else \<exists>c\<in>set cs. bit (v_int (eval I c)) 0)"
    unfolding nary_value_App [OF nk u(1) I] using u(2) by (auto simp: bit_nary_and bit_nary_or)
  with bits [OF u(1)] bits cs
  show "v_int (eval I (App k cs)) = 1 \<longleftrightarrow>
      (if k = BITVECTOR_AND then \<forall>c\<in>set cs. v_int (eval I c) = 1 else \<exists>c\<in>set cs. v_int (eval I c) = 1)"
    and "v_int (eval I (App k cs)) = 0 \<longleftrightarrow>
      (if k = BITVECTOR_AND then \<exists>c\<in>set cs. v_int (eval I c) = 0 else \<forall>c\<in>set cs. v_int (eval I c) = 0)"
    by (auto simp del: eval.simps)
qed

lemma one_bit_nand_nor:
  assumes u: "typeOf (App k cs) = Some (BITVECTOR_TYPE 1)" "k = BITVECTOR_NAND \<and> k' = BITVECTOR_AND \<or> k = BITVECTOR_NOR \<and> k' = BITVECTOR_OR"
  shows "2 \<le> length cs" "all_of_width 1 cs"
    and "wf_interp I \<Longrightarrow> v_int (eval I (App k cs)) = 1 - v_int (eval I (App k' cs))"
proof -
  have "binary_kind k" using u(2) by auto
  from binary_children [OF u(1) this] obtain x y w where x: "cs = [x, y]" "typeOf x = Some (BITVECTOR_TYPE w)"
    "typeOf y = Some (BITVECTOR_TYPE w)" "valid_width w" by metis
  then have "typeOf (App k cs) = Some (BITVECTOR_TYPE w)" using u(2) by (auto simp: typeOf_short type_op_iffs)
  with u(1) have w: "w = 1" by simp
  show "2 \<le> length cs" "all_of_width 1 cs" using x w by simp_all
  assume I: "wf_interp I"
  obtain a b where a: "eval I x = VBV 1 a" "eval I y = VBV 1 b"
    using typed_bv_value [OF x(2) I] typed_bv_value [OF x(3) I] w by metis
  then show "v_int (eval I (App k cs)) = 1 - v_int (eval I (App k' cs))"
    using u(2) by (auto simp: x(1) bvnot_def)
qed

lemma BitwiseEq_result:
  assumes u: "typeOf u = Some (BITVECTOR_TYPE 1)" and c: "bv_wf c" "d_size c = 1" "d_value c = 0 \<or> d_value c = 1"
    and s: "bitwiseEq_split n = Some (c, u)"
    and k: "hasKind BITVECTOR_AND u \<or> hasKind BITVECTOR_OR u \<or> hasKind BITVECTOR_NOT u \<or> hasKind BITVECTOR_NAND u \<or>
      hasKind BITVECTOR_NOR u \<or> hasKind BITVECTOR_COMP u \<or> hasKind BITVECTOR_NEG u"
  shows "\<exists>m. apply_rule (BitwiseEq G) n = Inr m \<and> typeOf m = Some BOOLEAN_TYPE \<and>
    (\<forall>I. wf_interp I \<longrightarrow> eval I m = VBool (v_int (eval I u) = d_value c))"
proof -
  have eq1: "BitVector_eq c (BitVector_unsigned G 1 1) \<longleftrightarrow> d_value c = 1"
    using c(2) by (auto simp: BitVector_eq_def BitVector_unsigned_def)
  from k consider (nary) k' cs where "u = App k' cs" "k' \<in> {BITVECTOR_AND, BITVECTOR_OR}"
    | (neg) k' cs l where "u = App k' cs" "k' = BITVECTOR_NAND \<and> l = BITVECTOR_AND \<or> k' = BITVECTOR_NOR \<and> l = BITVECTOR_OR"
    | (unary) k' cs where "u = App k' cs" "k' \<in> {BITVECTOR_NOT, BITVECTOR_NEG}"
    | (comp) cs where "u = App BITVECTOR_COMP cs"
    by (auto simp: hasKind_iff)
  then show ?thesis
  proof cases
    case nary
    have nk: "k' \<in> nary_kinds" using nary(2) by auto
    have cs: "2 \<le> length cs" "all_of_width 1 cs" using typeOf_nary_iff [OF nk, of cs] u nary(1) by auto
    note m = mkNodeKind_node [OF cs] and v = one_bit_nary [OF u [unfolded nary(1)] nary(2)]
    show ?thesis
      using m v c(3) s nary eq1
      by (auto simp: BitwiseEq_def hasKind_def Let_def simp del: eval.simps)
  next
    case neg
    note cs = one_bit_nand_nor [OF u [unfolded neg(1)] neg(2)]
    have nk: "l \<in> nary_kinds" "l \<in> {BITVECTOR_AND, BITVECTOR_OR}" using neg(2) by auto
    have l: "typeOf (App l cs) = Some (BITVECTOR_TYPE 1)" using typeOf_nary_iff [OF nk(1)] cs(1,2) by blast
    note m = mkNodeKind_node [OF cs(1,2)] and v = one_bit_nary [OF l nk(2)]
    show ?thesis
      using m v cs(3) c(3) s neg eq1
      by (auto simp: BitwiseEq_def hasKind_def Let_def simp del: eval.simps)
  next
    case unary
    obtain y where un: "u = App k' [y]" "k' \<in> {BITVECTOR_NOT, BITVECTOR_NEG}" "typeOf y = Some (BITVECTOR_TYPE 1)"
      using unary_same [OF u [unfolded unary(1)] unary(2)] unary by blast
    have y: "\<exists>a. eval I y = VBV 1 a \<and> (a = 0 \<or> a = 1)" if "wf_interp I" for I
      using typed_bv_value [OF un(3) that] one_bit by (metis One_nat_def)
    have "typeOf (App EQUAL [y, CONST_BITVECTOR d]) = Some BOOLEAN_TYPE" if "bv_wf d" "d_size d = 1" for d
      using un(3) that by (simp add: typing_simps)
    then show ?thesis
      using c s un not_refines [OF c(1)] y
      by (force simp: BitwiseEq_def hasKind_def Let_def bvnot_def bvneg_def)
  next
    case comp
    have "binary_kind BITVECTOR_COMP" by simp
    from binary_children [OF u [unfolded comp] this] obtain x y w where x: "cs = [x, y]" "typeOf x = Some (BITVECTOR_TYPE w)"
      "typeOf y = Some (BITVECTOR_TYPE w)" by metis
    have t: "typeOf (App EQUAL [x, y]) = Some BOOLEAN_TYPE" "typeOf (App NOT [App EQUAL [x, y]]) = Some BOOLEAN_TYPE"
      using x(2,3) typeOf_valid [OF x(2)] by (simp_all add: typeOf_short type_op_iffs type_op_mixed)
    have "v_int (eval I u) = of_bool (eval I x = eval I y)" if I: "wf_interp I" for I
    proof -
      obtain a b where "eval I x = VBV w a" "eval I y = VBV w b" using typed_bv_value [OF x(2) I] typed_bv_value [OF x(3) I] by metis
      then show ?thesis by (simp add: comp x(1))
    qed
    then show ?thesis
      using t c(3) s eq1 by (auto simp: BitwiseEq_def hasKind_def comp x(1) Let_def)
  qed
qed

lemma BitwiseEq_sound: "rule_sound opt (BitwiseEq G)"
proof (rule rule_soundI)
  fix n t assume n: "typeOf n = Some t" "applies (BitwiseEq G) n"
  then obtain c u where cu: "hasKind EQUAL n" "getSize (children n ! 0) = 1" "bitwiseEq_split n = Some (c, u)"
    "hasKind BITVECTOR_AND u \<or> hasKind BITVECTOR_OR u \<or> hasKind BITVECTOR_NOT u \<or> hasKind BITVECTOR_NAND u \<or>
      hasKind BITVECTOR_NOR u \<or> hasKind BITVECTOR_COMP u \<or> hasKind BITVECTOR_NEG u"
    by (auto simp: BitwiseEq_def split: if_splits option.splits prod.splits)
  note p = bitwiseEq_parts [OF n(1) cu(1-3)]
  obtain m where m: "apply_rule (BitwiseEq G) n = Inr m" "typeOf m = Some BOOLEAN_TYPE"
    "\<And>I. wf_interp I \<Longrightarrow> eval I m = VBool (v_int (eval I u) = d_value c)"
    using BitwiseEq_result [OF p(5,2-4) cu(3,4)] by blast
  then have "same_meaning opt m n" using p(1,6) n(1) by (intro same_meaningI) auto
  then show "sound_result opt n (apply_rule (BitwiseEq G) n)" by (simp add: m(1))
qed

end

end
