(* ===== verification/Rules_Linear.thy ===== *)
theory Rules_Linear
  imports Rules_Products "HOL-Library.AList"
begin

text \<open>
  The normalization rules on sums (\<open>src/src/theory/bv/theory_bv_rewrite_rules_normalization.h\<close>):
  \<open>PlusCombineLikeTerms\<close> collects the coefficient of every term of a sum, and \<open>SolveEq\<close> does so on both sides
  of an equality and subtracts. A \<open>std::map<Node, BitVector>\<close> is an association list in the order of its keys:
  \<open>std_map_insert\<close> puts a new key at its place. \<open>linear\<close> is the value a map of coefficients stands for; the
  lemmas show that every step keeps it modulo the power of two.

  \<open>hasSubterm\<close> (\<open>src/src/expr/node.h\<close>) walks the term breadth first and enters shared subterms once;
  \<open>hasSubterm_iff\<close> shows that it decides the subterm relation.
\<close>

section \<open>Subterms\<close>

text \<open>The children of one node: whether \<open>t\<close> is among those looked at, the visited nodes, and what is pushed to
  \<open>toProcess\<close>. The search stops at \<open>t\<close>.\<close>

fun hasSubterm_children :: "node \<Rightarrow> node set \<Rightarrow> node list \<Rightarrow> bool \<times> node set \<times> node list" where
  "hasSubterm_children t visited [] = (False, visited, [])"
| "hasSubterm_children t visited (c # cs) =
     (if c = t then (True, visited, [])
      else if c \<in> visited then hasSubterm_children t visited cs
      else
        let (found, visited, pushed) = hasSubterm_children t (insert c visited) cs
        in (found, visited, c # pushed))"

lemma hasSubterm_children_size: "hasSubterm_children t V cs = (b, V', ps) \<Longrightarrow> size_list size ps \<le> size_list size cs"
proof (induction t V cs arbitrary: b V' ps rule: hasSubterm_children.induct)
  case (2 t V c cs)
  then show ?case
    by (cases "hasSubterm_children t (insert c V) cs") (force split: if_splits)
qed simp

lemma size_children: "size_list size (children n) \<le> size n"
  by (cases n) auto

function hasSubterm_loop :: "node \<Rightarrow> node set \<Rightarrow> node list \<Rightarrow> bool" where
  "hasSubterm_loop t visited [] = False"
| "hasSubterm_loop t visited (current # toProcess) =
     (let (found, visited, pushed) = hasSubterm_children t visited (children current)
      in if found then True else hasSubterm_loop t visited (toProcess @ pushed))"
  by pat_completeness auto

termination
proof (relation "measure (\<lambda>(t, V, q). size_list size q)")
  fix t V and current :: node and q found V' pushed x y
  assume "x = hasSubterm_children t V (children current)" "(found, y) = x" "(V', pushed) = y" 
  then have "hasSubterm_children t V (children current) = (found, V', pushed)" by simp
  from hasSubterm_children_size [OF this] size_children [of current]
  show "((t, V', q @ pushed), t, V, current # q) \<in> measure (\<lambda>(t, V, q). size_list size q)" by simp
qed simp

definition hasSubterm :: "node \<Rightarrow> node \<Rightarrow> bool \<Rightarrow> bool" where
  "hasSubterm n t strict = (if \<not> strict \<and> n = t then True else hasSubterm_loop t {} [n])"

text \<open>The subterm relation, and the search for a strict subterm.\<close>

inductive subterm :: "node \<Rightarrow> node \<Rightarrow> bool" where
  child: "c \<in> set (children n) \<Longrightarrow> subterm c n"
| deeper: "c \<in> set (children n) \<Longrightarrow> subterm t c \<Longrightarrow> subterm t n"

lemma hasSubterm_children_spec:
  assumes "hasSubterm_children t V cs = (found, V', ps)"
  shows "(found \<longrightarrow> t \<in> set cs) \<and> (\<not> found \<longrightarrow> t \<notin> set cs \<and> V' = V \<union> set cs) \<and>
    V' = V \<union> set ps \<and> set ps \<subseteq> set cs"
  using assms
proof (induction t V cs arbitrary: found V' ps rule: hasSubterm_children.induct)
  case (2 t V c cs)
  show ?case
  proof (cases "c = t \<or> c \<in> V")
    case True
    then show ?thesis using 2 by (cases "c = t") auto
  next
    case False
    obtain f W qs where r: "hasSubterm_children t (insert c V) cs = (f, W, qs)" by (metis prod.collapse)
    then have "found = f" "V' = W" "ps = c # qs" using 2(3) False by auto
    with 2(2) [OF _ _ r] False show ?thesis by auto
  qed
qed auto

text \<open>When the search fails, the visited nodes are closed under children and \<open>t\<close> is none of them.\<close>

lemma hasSubterm_loop_closed:
  assumes "\<not> hasSubterm_loop t V q" and "t \<notin> V"
  shows "\<exists>D. V \<subseteq> D \<and> t \<notin> D \<and> (\<forall>n\<in>set q \<union> (D - V). set (children n) \<subseteq> D)"
  using assms
proof (induction t V q rule: hasSubterm_loop.induct)
  case (2 t V n q)
  obtain found V' ps where r: "hasSubterm_children t V (children n) = (found, V', ps)" by (metis prod.collapse)
  note spec = hasSubterm_children_spec [OF r]
  have f: "\<not> found" "\<not> hasSubterm_loop t V' (q @ ps)" using 2(2) r by (simp_all split: if_splits)
  then have "t \<notin> V'" using spec 2(3) by auto
  with 2(1) [OF r [symmetric] refl refl f] obtain D where D: "V' \<subseteq> D" "t \<notin> D" "\<forall>n\<in>set (q @ ps) \<union> (D - V'). set (children n) \<subseteq> D" by blast
  have "set (children m) \<subseteq> D" if "m \<in> set (n # q) \<union> (D - V)" for m
    using that D spec f(1) by (cases "m \<in> V'") auto
  then show ?case using D(1,2) spec by (intro exI [of _ D]) auto
qed auto

lemma hasSubterm_loop_found: "hasSubterm_loop t V q \<Longrightarrow> \<exists>n\<in>set q. subterm t n"
proof (induction t V q rule: hasSubterm_loop.induct)
  case (2 t V n q)
  obtain found V' ps where r: "hasSubterm_children t V (children n) = (found, V', ps)" by (metis prod.collapse)
  note spec = hasSubterm_children_spec [OF r]
  show ?case
  proof (cases found)
    case True
    then show ?thesis using spec by (auto intro: subterm.child)
  next
    case False
    with 2(1) [OF r [symmetric] refl refl False] 2(2) r obtain m where "m \<in> set (q @ ps)" "subterm t m" by auto
    then show ?thesis using spec by (auto intro: subterm.deeper)
  qed
qed simp

lemma hasSubterm_iff: "hasSubterm n t strict \<longleftrightarrow> subterm t n \<or> \<not> strict \<and> n = t"
proof -
  have "\<not> subterm t n" if no: "\<not> hasSubterm_loop t {} [n]"
  proof
    obtain D where D: "t \<notin> D" "\<forall>m\<in>insert n D. set (children m) \<subseteq> D" using hasSubterm_loop_closed [OF no] by auto
    have "subterm u m \<Longrightarrow> m \<in> insert n D \<Longrightarrow> u \<in> D" for u m
      by (induction rule: subterm.induct) (use D(2) in blast)+
    moreover assume "subterm t n"
    ultimately show False using D(1) by blast
  qed
  moreover have "subterm t n" if "hasSubterm_loop t {} [n]" using hasSubterm_loop_found [OF that] by simp
  ultimately show ?thesis unfolding hasSubterm_def by (metis (full_types))
qed

section \<open>Maps of coefficients\<close>

type_synonym coef_map = "(node \<times> bitvector) list"

fun std_map_insert :: "(node \<Rightarrow> node \<Rightarrow> bool) \<Rightarrow> node \<Rightarrow> bitvector \<Rightarrow> coef_map \<Rightarrow> coef_map" where
  "std_map_insert lt k v [] = [(k, v)]"
| "std_map_insert lt k v (p # m) = (if lt (fst p) k then p # std_map_insert lt k v m else (k, v) # p # m)"

definition addToCoefMap ::
  "gmp \<Rightarrow> (node \<Rightarrow> node \<Rightarrow> bool) \<Rightarrow> coef_map \<Rightarrow> node \<Rightarrow> bitvector \<Rightarrow> coef_map exc" where
  "addToCoefMap G lt m term coef =
     (case map_of m term of
        Some c \<Rightarrow> ebind (BitVector_plus G c coef) (\<lambda>s. Inr (AList.update term s m))
      | None \<Rightarrow> Inr (std_map_insert lt term coef m))"

text \<open>The coefficient and the term of a product.\<close>

definition mult_coefficient :: "gmp \<Rightarrow> nat \<Rightarrow> node \<Rightarrow> bitvector \<times> node" where
  "mult_coefficient G sz current =
     (let cs = children current
      in if length cs = 2
         then if isConst (cs ! 1) then (getConst (cs ! 1), cs ! 0) else (BitVector_unsigned G sz 1, current)
         else if isConst (cs ! (length cs - 1))
         then (getConst (cs ! (length cs - 1)), App BITVECTOR_MULT (butlast cs))
         else (BitVector_unsigned G sz 1, current))"

definition updateCoefMap ::
  "gmp \<Rightarrow> (node \<Rightarrow> node \<Rightarrow> bool) \<Rightarrow> node \<Rightarrow> nat \<Rightarrow> coef_map \<Rightarrow> bitvector \<Rightarrow> (coef_map \<times> bitvector) exc" where
  "updateCoefMap G lt current sz factorToCoefficient constSum =
     (let one = BitVector_unsigned G sz 1;
          keep = (\<lambda>m. Inr (m, constSum))
      in if hasKind BITVECTOR_MULT current
         then
           let (coeff, term) = mult_coefficient G sz current
           in if hasKind BITVECTOR_SUB term
              then
                ebind (addToCoefMap G lt factorToCoefficient (children term ! 0) coeff) (\<lambda>m.
                ebind (BitVector_neg G coeff) (\<lambda>c.
                ebind (addToCoefMap G lt m (children term ! 1) c) keep))
              else if hasKind BITVECTOR_NEG term
              then
                ebind (BitVector_neg G (BitVector_resize sz coeff)) (\<lambda>c.
                ebind (addToCoefMap G lt factorToCoefficient (children term ! 0) c) keep)
              else ebind (addToCoefMap G lt factorToCoefficient term coeff) keep
         else if hasKind BITVECTOR_SUB current
         then
           ebind (addToCoefMap G lt factorToCoefficient (children current ! 0) one) (\<lambda>m.
           ebind (BitVector_neg G one) (\<lambda>c.
           ebind (addToCoefMap G lt m (children current ! 1) c) keep))
         else if hasKind BITVECTOR_NEG current
         then
           ebind (BitVector_neg G one) (\<lambda>c.
           ebind (addToCoefMap G lt factorToCoefficient (children current ! 0) c) keep)
         else if isConstBV current
         then ebind (BitVector_plus G constSum (getConst current)) (\<lambda>s. Inr (factorToCoefficient, s))
         else ebind (addToCoefMap G lt factorToCoefficient current one) keep)"

definition addToChildren :: "gmp \<Rightarrow> node \<Rightarrow> nat \<Rightarrow> bitvector \<Rightarrow> node list \<Rightarrow> node list exc" where
  "addToChildren G term sz coeff cs =
     (if BitVector_eq coeff (BitVector_unsigned G sz 0) then Inr cs
      else if BitVector_eq coeff (BitVector_unsigned G sz 1) then Inr (cs @ [term])
      else
        ebind (BitVector_neg G (BitVector_unsigned G sz 1)) (\<lambda>minus_one.
        if BitVector_eq coeff minus_one then Inr (cs @ [App BITVECTOR_NEG [term]])
        else if hasKind BITVECTOR_MULT term
        then Inr (cs @ [App BITVECTOR_MULT (children term @ [CONST_BITVECTOR coeff])])
        else Inr (cs @ [App BITVECTOR_MULT [term, CONST_BITVECTOR coeff]])))"

section \<open>Sums\<close>

definition PlusCombineLikeTerms :: "gmp \<Rightarrow> (node \<Rightarrow> node \<Rightarrow> bool) \<Rightarrow> rule" where
  "PlusCombineLikeTerms G lt =
     \<lparr>applies = hasKind BITVECTOR_PLUS,
      apply_rule = (\<lambda>node.
        let size = getSize node
        in ebind (efoldl (\<lambda>(m, constSum) current. updateCoefMap G lt current size m constSum)
                    ([], BitVector_unsigned G size 0) (children node)) (\<lambda>(factorToCoefficient, constSum).
           ebind (efoldl (\<lambda>cs (term, coeff). addToChildren G term size coeff cs) [] factorToCoefficient) (\<lambda>cs.
           let cs = (if BitVector_neq constSum (BitVector_unsigned G size 0) then cs @ [CONST_BITVECTOR constSum] else cs)
           in if length cs = 0 then Inr (mkConst G size 0) else Inr (mkNode BITVECTOR_PLUS cs))))\<rparr>"

section \<open>Equalities\<close>

definition BitVector_greater :: "bitvector \<Rightarrow> bitvector \<Rightarrow> bool" where
  "BitVector_greater x y \<longleftrightarrow> d_value x > d_value y"

text \<open>One side of the equality: its terms with their coefficients and its constant.\<close>

definition solveEq_side ::
  "gmp \<Rightarrow> (node \<Rightarrow> node \<Rightarrow> bool) \<Rightarrow> nat \<Rightarrow> node \<Rightarrow> (coef_map \<times> bitvector) exc" where
  "solveEq_side G lt sz side =
     (if hasKind BITVECTOR_PLUS side
      then efoldl (\<lambda>(m, c) current. updateCoefMap G lt current sz m c) ([], BitVector_unsigned G sz 0) (children side)
      else updateCoefMap G lt side sz [] (BitVector_unsigned G sz 0))"

text \<open>The loop over both maps.\<close>

fun solveEq_merge ::
  "gmp \<Rightarrow> (node \<Rightarrow> node \<Rightarrow> bool) \<Rightarrow> nat \<Rightarrow> coef_map \<Rightarrow> coef_map \<Rightarrow> node list \<Rightarrow> node list \<Rightarrow> (node list \<times> node list) exc" where
  "solveEq_merge G lt sz [] [] childrenLeft childrenRight = Inr (childrenLeft, childrenRight)"
| "solveEq_merge G lt sz ((termLeft, coeffLeft) # left) [] childrenLeft childrenRight =
     ebind (addToChildren G termLeft sz coeffLeft childrenLeft) (\<lambda>childrenLeft.
     solveEq_merge G lt sz left [] childrenLeft childrenRight)"
| "solveEq_merge G lt sz [] ((termRight, coeffRight) # right) childrenLeft childrenRight =
     ebind (addToChildren G termRight sz coeffRight childrenRight) (\<lambda>childrenRight.
     solveEq_merge G lt sz [] right childrenLeft childrenRight)"
| "solveEq_merge G lt sz ((termLeft, coeffLeft) # left) ((termRight, coeffRight) # right) childrenLeft childrenRight =
     (if lt termLeft termRight
      then
        ebind (addToChildren G termLeft sz coeffLeft childrenLeft) (\<lambda>childrenLeft.
        solveEq_merge G lt sz left ((termRight, coeffRight) # right) childrenLeft childrenRight)
      else if lt termRight termLeft
      then
        ebind (addToChildren G termRight sz coeffRight childrenRight) (\<lambda>childrenRight.
        solveEq_merge G lt sz ((termLeft, coeffLeft) # left) right childrenLeft childrenRight)
      else if BitVector_greater coeffLeft coeffRight
      then
        ebind (BitVector_minus G coeffLeft coeffRight) (\<lambda>c.
        ebind (addToChildren G termLeft sz c childrenLeft) (\<lambda>childrenLeft.
        solveEq_merge G lt sz left right childrenLeft childrenRight))
      else if BitVector_greater coeffRight coeffLeft
      then
        ebind (BitVector_minus G coeffRight coeffLeft) (\<lambda>c.
        ebind (addToChildren G termRight sz c childrenRight) (\<lambda>childrenRight.
        solveEq_merge G lt sz left right childrenLeft childrenRight))
      else solveEq_merge G lt sz left right childrenLeft childrenRight)"

text \<open>The result: constants are combined on the right, moved when a side is empty, and the sides built.\<close>

definition solveEq_sum :: "gmp \<Rightarrow> nat \<Rightarrow> node list \<Rightarrow> node" where
  "solveEq_sum G sz cs =
     (if length cs = 0 then mkConst G sz 0
      else if length cs = 1 then cs ! 0
      else mkNode BITVECTOR_PLUS cs)"

definition solveEq_equality :: "(node \<Rightarrow> node \<Rightarrow> bool) \<Rightarrow> node \<Rightarrow> node \<Rightarrow> node" where
  "solveEq_equality lt newLeft newRight =
     (if newLeft = newRight then CONST_BOOLEAN True
      else if lt newLeft newRight then App EQUAL [newRight, newLeft]
      else App EQUAL [newLeft, newRight])"

definition solveEq_build ::
  "gmp \<Rightarrow> (node \<Rightarrow> node \<Rightarrow> bool) \<Rightarrow> nat \<Rightarrow> bitvector \<Rightarrow> node list \<Rightarrow> node list \<Rightarrow> node exc" where
  "solveEq_build G lt sz rightConst childrenLeft childrenRight =
     (if length childrenLeft = 0 \<and> BitVector_neq rightConst (BitVector_unsigned G sz 0)
      then
        if length childrenRight = 1 then Inr (CONST_BOOLEAN False)
        else
          ebind (BitVector_neg G rightConst) (\<lambda>c.
          Inr (solveEq_equality lt (CONST_BITVECTOR c) (solveEq_sum G sz (butlast childrenRight))))
      else Inr (solveEq_equality lt (solveEq_sum G sz childrenLeft) (solveEq_sum G sz childrenRight)))"

definition solveEq_result ::
  "gmp \<Rightarrow> (node \<Rightarrow> node \<Rightarrow> bool) \<Rightarrow> nat \<Rightarrow> bitvector \<Rightarrow> bitvector \<Rightarrow> node list \<Rightarrow> node list \<Rightarrow> node exc" where
  "solveEq_result G lt sz leftConst rightConst childrenLeft childrenRight =
     (let zero = BitVector_unsigned G sz 0
      in if BitVector_neq rightConst zero
         then
           ebind (BitVector_minus G rightConst leftConst) (\<lambda>rightConst.
           solveEq_build G lt sz rightConst childrenLeft
             (if BitVector_neq rightConst zero then childrenRight @ [CONST_BITVECTOR rightConst] else childrenRight))
         else if BitVector_neq leftConst zero
         then
           if length childrenRight = 0
           then
             if length (childrenLeft @ [CONST_BITVECTOR leftConst]) = 1 then Inr (CONST_BOOLEAN False)
             else
               ebind (BitVector_neg G leftConst) (\<lambda>c.
               solveEq_build G lt sz rightConst childrenLeft [CONST_BITVECTOR c])
           else solveEq_build G lt sz rightConst (childrenLeft @ [CONST_BITVECTOR leftConst]) childrenRight
         else solveEq_build G lt sz rightConst childrenLeft childrenRight)"

definition SolveEq :: "gmp \<Rightarrow> (node \<Rightarrow> node \<Rightarrow> bool) \<Rightarrow> rule" where
  "SolveEq G lt =
     \<lparr>applies = (\<lambda>node.
        if \<not> hasKind EQUAL node \<or>
           isVar (children node ! 0) \<and> \<not> hasSubterm (children node ! 1) (children node ! 0) False \<or>
           isVar (children node ! 1) \<and> \<not> hasSubterm (children node ! 0) (children node ! 1) False
        then False else True),
      apply_rule = (\<lambda>node.
        let left = children node ! 0;
            right = children node ! 1;
            size = getSize left
        in if \<not> hasKind BITVECTOR_PLUS left \<and> hasKind BITVECTOR_NOT left \<and> children left ! 0 = right
           then Inr (CONST_BOOLEAN False)
           else
             ebind (solveEq_side G lt size left) (\<lambda>(leftMap, leftConst).
             if \<not> hasKind BITVECTOR_PLUS right \<and> hasKind BITVECTOR_NOT right \<and> children right ! 0 = left
             then Inr (CONST_BOOLEAN False)
             else
               ebind (solveEq_side G lt size right) (\<lambda>(rightMap, rightConst).
               ebind (solveEq_merge G lt size leftMap rightMap [] []) (\<lambda>(childrenLeft, childrenRight).
               solveEq_result G lt size leftConst rightConst childrenLeft childrenRight))))\<rparr>"

section \<open>The value of a map of coefficients\<close>

definition coef_wf :: "nat \<Rightarrow> coef_map \<Rightarrow> bool" where
  "coef_wf w m \<longleftrightarrow> list_all (\<lambda>(t, c). typeOf t = Some (BITVECTOR_TYPE w) \<and> bv_wf c \<and> d_size c = w) m"

definition linear :: "interp \<Rightarrow> coef_map \<Rightarrow> int" where
  "linear I m = sum_list (map (\<lambda>(t, c). d_value c * v_int (eval I t)) m)"

lemma coef_simps [simp]:
  "coef_wf w []" "coef_wf w ((t, c) # m) \<longleftrightarrow> typeOf t = Some (BITVECTOR_TYPE w) \<and> bv_wf c \<and> d_size c = w \<and> coef_wf w m"
  "linear I [] = 0" "linear I ((t, c) # m) = d_value c * v_int (eval I t) + linear I m"
  by (auto simp: coef_wf_def linear_def)

lemma std_map_insert_coef:
  "typeOf t = Some (BITVECTOR_TYPE w) \<Longrightarrow> bv_wf c \<Longrightarrow> d_size c = w \<Longrightarrow> coef_wf w m \<Longrightarrow> coef_wf w (std_map_insert lt t c m)"
  "linear I (std_map_insert lt t c m) = linear I m + d_value c * v_int (eval I t)"
  by (induction m) auto

lemma map_of_coef: "coef_wf w m \<Longrightarrow> map_of m t = Some c \<Longrightarrow> bv_wf c \<and> d_size c = w"
  by (induction m) (auto split: if_splits)

lemma update_coef:
  assumes "map_of m t = Some c"
  shows "coef_wf w m \<Longrightarrow> bv_wf s \<Longrightarrow> d_size s = w \<Longrightarrow> coef_wf w (AList.update t s m)"
    and "linear I (AList.update t s m) = linear I m + (d_value s - d_value c) * v_int (eval I t)"
  using assms by (induction m) (auto split: if_splits simp: left_diff_distrib)

lemma sub_node:
  assumes u: "typeOf u = Some (BITVECTOR_TYPE w)" "hasKind BITVECTOR_SUB u"
  shows "\<exists>a b. u = App BITVECTOR_SUB [a, b] \<and> typeOf a = Some (BITVECTOR_TYPE w) \<and> typeOf b = Some (BITVECTOR_TYPE w) \<and>
    (\<forall>I. wf_interp I \<longrightarrow> v_int (eval I u) = (v_int (eval I a) - v_int (eval I b)) mod 2 ^ w)"
proof -
  obtain ns where ns: "u = App BITVECTOR_SUB ns" using u(2) by (auto simp: hasKind_iff)
  then obtain a b where ab: "ns = [a, b]" "typeOf a = Some (BITVECTOR_TYPE w)" "typeOf b = Some (BITVECTOR_TYPE w)"
    using sub_children [OF u(1) [unfolded ns]] by blast
  have "v_int (eval I u) = (v_int (eval I a) - v_int (eval I b)) mod 2 ^ w" if I: "wf_interp I" for I
  proof -
    obtain p q where "eval I a = VBV w p" "eval I b = VBV w q" using typed_bv_value [OF ab(2) I] typed_bv_value [OF ab(3) I] by metis
    then show ?thesis by (simp add: ns ab(1) bvsub_def)
  qed
  with ns ab show ?thesis by blast
qed

lemma neg_node:
  assumes u: "typeOf u = Some (BITVECTOR_TYPE w)" "hasKind BITVECTOR_NEG u"
  shows "\<exists>a. u = App BITVECTOR_NEG [a] \<and> typeOf a = Some (BITVECTOR_TYPE w) \<and>
    (\<forall>I. wf_interp I \<longrightarrow> v_int (eval I u) = - v_int (eval I a) mod 2 ^ w)"
proof -
  obtain ns where ns: "u = App BITVECTOR_NEG ns" using u(2) by (auto simp: hasKind_iff)
  then obtain a where a: "ns = [a]" "typeOf a = Some (BITVECTOR_TYPE w)" using unary_same [OF u(1) [unfolded ns]] by blast
  have "v_int (eval I u) = - v_int (eval I a) mod 2 ^ w" if I: "wf_interp I" for I
  proof -
    obtain p where "eval I a = VBV w p" using typed_bv_value [OF a(2) I] by metis
    then show ?thesis by (simp add: ns a(1) bvneg_def)
  qed
  with ns a show ?thesis by blast
qed

text \<open>What a step has to do: keep the map well-formed and add a value.\<close>

definition adds :: "nat \<Rightarrow> coef_map \<Rightarrow> bitvector \<Rightarrow> (interp \<Rightarrow> int) \<Rightarrow> (coef_map \<times> bitvector) exc \<Rightarrow> bool" where
  "adds w m s v r \<longleftrightarrow>
     (\<exists>m' s'. r = Inr (m', s') \<and> coef_wf w m' \<and> bv_wf s' \<and> d_size s' = w \<and>
       (\<forall>I. wf_interp I \<longrightarrow> (linear I m' + d_value s') mod 2 ^ w = (linear I m + d_value s + v I) mod 2 ^ w))"

lemma mod_add_swap: "(x :: int) mod k = y mod k \<Longrightarrow> (x + z) mod k = (y + z) mod k"
  by (rule mod_add_cong) simp_all

definition merged :: "nat \<Rightarrow> coef_map \<Rightarrow> coef_map \<Rightarrow> node list \<Rightarrow> node list \<Rightarrow> (node list \<times> node list) exc \<Rightarrow> bool" where
  "merged w L R cl cr r \<longleftrightarrow>
     (\<exists>cl' cr'. r = Inr (cl', cr') \<and> all_of_width w cl' \<and> all_of_width w cr' \<and>
       (\<forall>I. wf_interp I \<longrightarrow> (sum_list (values I cl') - sum_list (values I cr')) mod 2 ^ w =
         ((sum_list (values I cl) + linear I L) - (sum_list (values I cr) + linear I R)) mod 2 ^ w))"

lemma merged_step:
  assumes "merged w L' R' cl' cr' r"
    and "\<And>I. wf_interp I \<Longrightarrow> (sum_list (values I cl') + linear I L') mod 2 ^ w = (sum_list (values I cl) + linear I L + e I) mod 2 ^ w"
    and "\<And>I. wf_interp I \<Longrightarrow> (sum_list (values I cr') + linear I R') mod 2 ^ w = (sum_list (values I cr) + linear I R + e I) mod 2 ^ w"
  shows "merged w L R cl cr r"
proof -
  have "((sum_list (values I cl') + linear I L') - (sum_list (values I cr') + linear I R')) mod 2 ^ w =
      ((sum_list (values I cl) + linear I L) - (sum_list (values I cr) + linear I R)) mod 2 ^ w" if "wf_interp I" for I
    using mod_diff_cong [OF assms(2,3)] that by simp
  then show ?thesis using assms(1) unfolding merged_def by simp
qed

text \<open>A result that says whether a difference is zero.\<close>

definition decides :: "nat \<Rightarrow> (interp \<Rightarrow> int) \<Rightarrow> node exc \<Rightarrow> bool" where
  "decides w D r \<longleftrightarrow>
     (\<exists>m. r = Inr m \<and> typeOf m = Some BOOLEAN_TYPE \<and> (\<forall>I. wf_interp I \<longrightarrow> eval I m = VBool (D I mod 2 ^ w = 0)))"

lemma decides_cong: "decides w D r \<Longrightarrow> (\<And>I. wf_interp I \<Longrightarrow> D I mod 2 ^ w = E I mod 2 ^ w) \<Longrightarrow> decides w E r"
  unfolding decides_def by auto

lemma decides_False: "(\<And>I. wf_interp I \<Longrightarrow> D I mod 2 ^ w \<noteq> 0) \<Longrightarrow> decides w D (Inr (CONST_BOOLEAN False))"
  by (simp add: decides_def)

lemma decides_equality:
  assumes l: "typeOf l = Some (BITVECTOR_TYPE w)" and r: "typeOf r = Some (BITVECTOR_TYPE w)"
  shows "decides w (\<lambda>I. v_int (eval I l) - v_int (eval I r)) (Inr (solveEq_equality lt l r))"
proof -
  have "(eval I l = eval I r \<longleftrightarrow> 2 ^ w dvd v_int (eval I l) - v_int (eval I r)) \<and>
      (eval I r = eval I l \<longleftrightarrow> 2 ^ w dvd v_int (eval I l) - v_int (eval I r))" if I: "wf_interp I" for I
  proof -
    obtain a b where a: "eval I l = VBV w a" "in_width w a" "eval I r = VBV w b" "in_width w b"
      using typed_bv_value [OF l I] typed_bv_value [OF r I] by metis
    then have "a mod 2 ^ w = b mod 2 ^ w \<longleftrightarrow> a = b" by simp
    then show ?thesis using a(1,3) by (auto simp: mod_eq_dvd_iff)
  qed
  moreover have "typeOf (App EQUAL [x, y]) = Some BOOLEAN_TYPE" if "{x, y} = {l, r}" for x y
    using that l r typeOf_valid [OF l] by (auto simp: typeOf_short type_op_mixed doubleton_eq_iff)
  ultimately show ?thesis by (auto simp: decides_def solveEq_equality_def)
qed

context gmp_documented
begin

lemma unsigned_BitVector: "BitVector_unsigned G w v = BitVector G w (int v)"
  by (simp add: BitVector_unsigned_def BitVector_def)

lemma addToCoefMap_linear:
  assumes m: "coef_wf w m" and t: "typeOf t = Some (BITVECTOR_TYPE w)" and c: "bv_wf c" "d_size c = w"
  shows "\<exists>m'. addToCoefMap G lt m t c = Inr m' \<and> coef_wf w m' \<and>
    (\<forall>I. linear I m' mod 2 ^ w = (linear I m + d_value c * v_int (eval I t)) mod 2 ^ w)"
proof (cases "map_of m t")
  case None
  then show ?thesis using std_map_insert_coef(1) [OF t c m] by (simp add: addToCoefMap_def std_map_insert_coef(2))
next
  case (Some d)
  have d: "bv_wf d" "d_size d = w" using map_of_coef [OF m Some] by simp_all
  let ?s = "BitVector G w (bvadd w (d_value d) (d_value c))"
  have s: "bv_wf ?s" "d_size ?s = w" "d_value ?s = (d_value d + d_value c) mod 2 ^ w" using bv_wfD(1) [OF c(1)] c(2) by (simp_all add: bvadd_def)
  have "(x + ((y + z) mod k - y) * v) mod k = (x + z * v) mod k" for x y z v k :: int
  proof -
    have "((y + z) mod k - y) mod k = z mod k" by (simp add: mod_diff_left_eq)
    then have "((y + z) mod k - y) * v mod k = z * v mod k" by (metis mod_mult_left_eq)
    then show ?thesis by (metis mod_add_right_eq)
  qed
  then show ?thesis
    using Some plus_refines [of d c] d c update_coef [OF Some] m s by (simp add: addToCoefMap_def)
qed

text \<open>A product is its coefficient times its term.\<close>

lemma mult_coefficient_node:
  assumes t: "typeOf n = Some (BITVECTOR_TYPE w)" "hasKind BITVECTOR_MULT n" and r: "mult_coefficient G w n = (c, u)"
  shows "bv_wf c" "d_size c = w" "typeOf u = Some (BITVECTOR_TYPE w)"
    and "wf_interp I \<Longrightarrow> v_int (eval I n) = d_value c * v_int (eval I u) mod 2 ^ w"
proof -
  obtain cs where n: "n = App BITVECTOR_MULT cs" using t(2) by (auto simp: hasKind_iff)
  have cs: "2 \<le> length cs" "all_of_width w cs" using typeOf_nary_iff [of BITVECTOR_MULT cs] t(1) by (auto simp: n)
  have w: "valid_width w" using typeOf_valid [OF t(1)] by simp
  have ev: "v_int (eval I n) = prod_list (values I cs) mod 2 ^ w" if "wf_interp I" for I
    using nary_value_App [OF _ t(1) [unfolded n] that] by (simp add: n nary_value_prod del: eval.simps)
  let ?l = "cs ! (length cs - 1)"
  have split: "cs = butlast cs @ [?l]" using cs(1) by (cases cs rule: rev_cases) auto
  have bl: "all_of_width w (butlast cs)" "typeOf ?l = Some (BITVECTOR_TYPE w)"
    using cs(2) by (subst (asm) split, simp)+
  have last: "bv_wf d \<and> d_size d = w" if "?l = CONST_BITVECTOR d" for d using bl(2) that by simp
  have "bv_wf c \<and> d_size c = w \<and> typeOf u = Some (BITVECTOR_TYPE w) \<and>
      (wf_interp I \<longrightarrow> v_int (eval I n) = d_value c * v_int (eval I u) mod 2 ^ w)" for I
  proof (cases "isConst ?l")
    case False
    then have cu: "c = BitVector G w 1" "u = n" using r cs(1) by (auto simp: mult_coefficient_def n unsigned_BitVector Let_def split: if_splits)
    then show ?thesis using t(1) w ev by (simp add: valid_width_def mod_pos_pos_trivial del: eval.simps)
  next
    case True
    then obtain d where d: "?l = CONST_BITVECTOR d" using bl(2) by (metis const_of_type)
    have "c = d" "u = mkNode BITVECTOR_MULT (butlast cs)"
      using r True d cs(1) split by (auto simp: mult_coefficient_def n Let_def mkNode_def nth_butlast split: if_splits)
    moreover have "butlast cs \<noteq> []" using cs(1) split by (metis One_nat_def Suc_le_eq length_butlast less_irrefl list.size(3) numeral_2_eq_2 zero_less_diff)
    moreover have "prod_list (values J cs) = d_value d * prod_list (values J (butlast cs))" for J
      by (subst split) (simp add: d [unfolded One_nat_def])
    ultimately show ?thesis
      using last [OF d] mkNode_nary [OF _ _ bl(1), of BITVECTOR_MULT] ev [of I] by (simp add: nary_value_prod mod_simps)
  qed
  then show "bv_wf c" "d_size c = w" "typeOf u = Some (BITVECTOR_TYPE w)"
    and "wf_interp I \<Longrightarrow> v_int (eval I n) = d_value c * v_int (eval I u) mod 2 ^ w" by blast+
qed

lemma adds_term:
  assumes m: "coef_wf w m" "bv_wf s" "d_size s = w" and t: "typeOf t = Some (BITVECTOR_TYPE w)" and c: "bv_wf c" "d_size c = w"
    and v: "\<And>I. wf_interp I \<Longrightarrow> d_value c * v_int (eval I t) mod 2 ^ w = v I mod 2 ^ w"
  shows "adds w m s v (ebind (addToCoefMap G lt m t c) (\<lambda>m. Inr (m, s)))"
proof -
  obtain m' where m': "addToCoefMap G lt m t c = Inr m'" "coef_wf w m'"
    "\<And>I. linear I m' mod 2 ^ w = (linear I m + d_value c * v_int (eval I t)) mod 2 ^ w"
    using addToCoefMap_linear [OF m(1) t c] by blast
  have "(linear I m' + d_value s) mod 2 ^ w = (linear I m + d_value s + v I) mod 2 ^ w" if "wf_interp I" for I
  proof -
    have "(linear I m' + d_value s) mod 2 ^ w = (linear I m + d_value s + d_value c * v_int (eval I t)) mod 2 ^ w"
      using mod_add_swap [OF m'(3)] by (simp add: ac_simps)
    also have "\<dots> = (linear I m + d_value s + v I) mod 2 ^ w" using v [OF that] by (intro mod_add_cong) simp_all
    finally show ?thesis .
  qed
  then show ?thesis using m' m unfolding adds_def by auto
qed

lemma neg_value:
  assumes "bv_wf c" "d_size c = w"
  shows "BitVector_neg G c = Inr (BitVector G w (bvneg w (d_value c)))" "bv_wf (BitVector G w (bvneg w (d_value c)))"
    and "d_value (BitVector G w (bvneg w (d_value c))) * x mod 2 ^ w = - (d_value c * x) mod 2 ^ w"
  using neg_refines [OF assms(1)] assms bv_wfD(1) [OF assms(1)]
  by (simp_all add: bvneg_def) (metis minus_mult_left mod_mult_left_eq)

lemma adds_neg:
  assumes m: "coef_wf w m" "bv_wf s" "d_size s = w" and t: "typeOf t = Some (BITVECTOR_TYPE w)" and c: "bv_wf c" "d_size c = w"
    and v: "\<And>I. wf_interp I \<Longrightarrow> - (d_value c * v_int (eval I t)) mod 2 ^ w = v I mod 2 ^ w"
  shows "adds w m s v (ebind (BitVector_neg G c) (\<lambda>d. ebind (addToCoefMap G lt m t d) (\<lambda>m. Inr (m, s))))"
  using adds_term [OF m t neg_value(2) [OF c], of v] neg_value(1,3) [OF c] v by simp

lemma adds_difference:
  assumes m: "coef_wf w m" "bv_wf s" "d_size s = w" and c: "bv_wf c" "d_size c = w"
    and ab: "typeOf a = Some (BITVECTOR_TYPE w)" "typeOf b = Some (BITVECTOR_TYPE w)"
    and v: "\<And>I. wf_interp I \<Longrightarrow> d_value c * (v_int (eval I a) - v_int (eval I b)) mod 2 ^ w = v I mod 2 ^ w"
  shows "adds w m s v
    (ebind (addToCoefMap G lt m a c) (\<lambda>m. ebind (BitVector_neg G c) (\<lambda>d. ebind (addToCoefMap G lt m b d) (\<lambda>m. Inr (m, s)))))"
proof -
  obtain m' where m': "addToCoefMap G lt m a c = Inr m'" "coef_wf w m'"
    "\<And>I. linear I m' mod 2 ^ w = (linear I m + d_value c * v_int (eval I a)) mod 2 ^ w"
    using addToCoefMap_linear [OF m(1) ab(1) c] by blast
  have "adds w m' s (\<lambda>I. - (d_value c * v_int (eval I b))) (ebind (BitVector_neg G c) (\<lambda>d. ebind (addToCoefMap G lt m' b d) (\<lambda>m. Inr (m, s))))"
    by (rule adds_neg [OF m'(2) m(2,3) ab(2) c]) simp
  moreover have "(linear I m' + d_value s - d_value c * v_int (eval I b)) mod 2 ^ w = (linear I m + d_value s + v I) mod 2 ^ w"
    if "wf_interp I" for I
  proof -
    have "(linear I m' + (d_value s - d_value c * v_int (eval I b))) mod 2 ^ w =
        (linear I m + d_value c * v_int (eval I a) + (d_value s - d_value c * v_int (eval I b))) mod 2 ^ w"
      by (rule mod_add_swap [OF m'(3)])
    also have "\<dots> = (linear I m + d_value s + d_value c * (v_int (eval I a) - v_int (eval I b))) mod 2 ^ w"
      by (simp add: algebra_simps)
    also have "\<dots> = (linear I m + d_value s + v I) mod 2 ^ w" using v [OF that] by (intro mod_add_cong) simp_all
    finally show ?thesis by (simp add: add_diff_eq)
  qed
  ultimately show ?thesis using m'(1) unfolding adds_def by simp
qed

lemma updateCoefMap_adds:
  assumes m: "coef_wf w m" "bv_wf s" "d_size s = w" and n: "typeOf n = Some (BITVECTOR_TYPE w)"
  shows "adds w m s (\<lambda>I. v_int (eval I n)) (updateCoefMap G lt n w m s)"
proof -
  have w: "valid_width w" using typeOf_valid [OF n] by simp
  have one: "bv_wf (BitVector G w 1)" "d_size (BitVector G w 1) = w" "d_value (BitVector G w 1) = 1"
    using w by (simp_all add: valid_width_def mod_pos_pos_trivial)
  consider (mult) "hasKind BITVECTOR_MULT n" | (sub) "hasKind BITVECTOR_SUB n" | (neg) "hasKind BITVECTOR_NEG n"
    | (const) "isConstBV n"
    | (other) "\<not> hasKind BITVECTOR_MULT n" "\<not> hasKind BITVECTOR_SUB n" "\<not> hasKind BITVECTOR_NEG n" "\<not> isConstBV n" by blast
  then show ?thesis
  proof cases
    case mult
    obtain c u where cu: "mult_coefficient G w n = (c, u)" by fastforce
    note p = mult_coefficient_node [OF n mult cu]
    consider "hasKind BITVECTOR_SUB u" | "hasKind BITVECTOR_NEG u" | "\<not> hasKind BITVECTOR_SUB u" "\<not> hasKind BITVECTOR_NEG u" by blast
    then show ?thesis
    proof cases
      case 1
      then obtain a b where ab: "u = App BITVECTOR_SUB [a, b]" "typeOf a = Some (BITVECTOR_TYPE w)" "typeOf b = Some (BITVECTOR_TYPE w)"
        "\<And>I. wf_interp I \<Longrightarrow> v_int (eval I u) = (v_int (eval I a) - v_int (eval I b)) mod 2 ^ w" using sub_node [OF p(3)] by blast
      have "d_value c * (v_int (eval I a) - v_int (eval I b)) mod 2 ^ w = v_int (eval I n) mod 2 ^ w" if "wf_interp I" for I
        using p(4) [OF that] ab(4) [OF that] by (simp add: mod_simps)
      from adds_difference [OF m p(1,2) ab(2,3) this] show ?thesis using mult cu 1 ab(1) by (simp add: updateCoefMap_def)
    next
      case 2
      then obtain a where a: "u = App BITVECTOR_NEG [a]" "typeOf a = Some (BITVECTOR_TYPE w)"
        "\<And>I. wf_interp I \<Longrightarrow> v_int (eval I u) = - v_int (eval I a) mod 2 ^ w" using neg_node [OF p(3)] by blast
      have "- (d_value c * v_int (eval I a)) mod 2 ^ w = v_int (eval I n) mod 2 ^ w" if "wf_interp I" for I
        using p(4) [OF that] a(3) [OF that] by (simp add: mod_simps)
      moreover have "BitVector_resize w c = c" using p(2) by (simp add: BitVector_resize_def)
      ultimately show ?thesis using adds_neg [OF m a(2) p(1,2)] mult cu 2 a(1) by (simp add: updateCoefMap_def hasKind_def)
    next
      case 3
      have "d_value c * v_int (eval I u) mod 2 ^ w = v_int (eval I n) mod 2 ^ w" if "wf_interp I" for I using p(4) [OF that] by simp
      from adds_term [OF m p(3) p(1,2) this] show ?thesis using mult cu 3 by (simp add: updateCoefMap_def)
    qed
  next
    case sub
    then obtain a b where ab: "n = App BITVECTOR_SUB [a, b]" "typeOf a = Some (BITVECTOR_TYPE w)" "typeOf b = Some (BITVECTOR_TYPE w)"
      "\<And>I. wf_interp I \<Longrightarrow> v_int (eval I n) = (v_int (eval I a) - v_int (eval I b)) mod 2 ^ w" using sub_node [OF n] by blast
    have "d_value (BitVector G w 1) * (v_int (eval I a) - v_int (eval I b)) mod 2 ^ w = v_int (eval I n) mod 2 ^ w" if "wf_interp I" for I
      using ab(4) [OF that] one(3) by simp
    from adds_difference [OF m one(1,2) ab(2,3) this] show ?thesis using ab(1) by (simp add: updateCoefMap_def hasKind_def unsigned_BitVector Let_def)
  next
    case neg
    then obtain a where a: "n = App BITVECTOR_NEG [a]" "typeOf a = Some (BITVECTOR_TYPE w)"
      "\<And>I. wf_interp I \<Longrightarrow> v_int (eval I n) = - v_int (eval I a) mod 2 ^ w" using neg_node [OF n] by blast
    have "- (d_value (BitVector G w 1) * v_int (eval I a)) mod 2 ^ w = v_int (eval I n) mod 2 ^ w" if "wf_interp I" for I
      using a(3) [OF that] one(3) by simp
    from adds_neg [OF m a(2) one(1,2) this] show ?thesis using a(1) by (simp add: updateCoefMap_def hasKind_def unsigned_BitVector)
  next
    case const
    then obtain c where c: "n = CONST_BITVECTOR c" "bv_wf c" "d_size c = w" using const_child [of n w] n by auto
    have "BitVector_plus G s c = Inr (BitVector G w ((d_value s + d_value c) mod 2 ^ w))"
      using plus_refines [of s c] m(3) c(3) by (simp add: bvadd_def)
    then have "updateCoefMap G lt n w m s = Inr (m, BitVector G w ((d_value s + d_value c) mod 2 ^ w))"
      by (simp add: updateCoefMap_def hasKind_def isConstBV_def c(1))
    moreover have "(linear I m + (d_value s + d_value c) mod 2 ^ w mod 2 ^ w) mod 2 ^ w = (linear I m + d_value s + d_value c) mod 2 ^ w" for I
      unfolding mod_mod_trivial by (simp add: mod_add_right_eq add.assoc)
    ultimately show ?thesis using m w unfolding adds_def by (simp add: c(1) valid_width_def)
  next
    case other
    have "d_value (BitVector G w 1) * v_int (eval I n) mod 2 ^ w = v_int (eval I n) mod 2 ^ w" for I using one(3) by simp
    from adds_term [OF m n one(1,2) this] show ?thesis using other by (simp add: updateCoefMap_def unsigned_BitVector)
  qed
qed

text \<open>A term with its coefficient as a summand.\<close>

lemma addToChildren_sum:
  assumes t: "typeOf t = Some (BITVECTOR_TYPE w)" and c: "bv_wf c" "d_size c = w"
  shows "\<exists>cs'. addToChildren G t w c cs = Inr (cs @ cs') \<and> all_of_width w cs' \<and>
    (\<forall>I. wf_interp I \<longrightarrow> sum_list (values I cs') mod 2 ^ w = d_value c * v_int (eval I t) mod 2 ^ w)"
proof -
  have w: "valid_width w" using typeOf_valid [OF t] by simp
  have one: "bv_wf (BitVector G w 1)" "d_size (BitVector G w 1) = w" "d_value (BitVector G w 1) = 1"
    using w by (simp_all add: valid_width_def mod_pos_pos_trivial)
  let ?m1 = "BitVector G w (bvneg w 1)"
  have neg: "BitVector_neg G (BitVector_unsigned G w 1) = Inr ?m1" using neg_refines [OF one(1)] one by (simp add: unsigned_BitVector)
  have eqs: "c = BitVector_unsigned G w 0 \<Longrightarrow> d_value c = 0" "c = BitVector_unsigned G w 1 \<Longrightarrow> d_value c = 1"
    "c = ?m1 \<Longrightarrow> d_value c = -1 mod 2 ^ w"
    using one(3) by (simp_all add: unsigned_BitVector bvneg_def)
  consider (zero) "c = BitVector_unsigned G w 0" | (one) "c \<noteq> BitVector_unsigned G w 0" "c = BitVector_unsigned G w 1"
    | (neg) "c \<noteq> BitVector_unsigned G w 0" "c \<noteq> BitVector_unsigned G w 1" "c = ?m1"
    | (mult) "c \<noteq> BitVector_unsigned G w 0" "c \<noteq> BitVector_unsigned G w 1" "c \<noteq> ?m1" by blast
  then show ?thesis
  proof cases
    case zero
    then show ?thesis using eqs(1) by (intro exI [of _ "[]"]) (simp add: addToChildren_def)
  next
    case one
    then show ?thesis using eqs(2) t by (intro exI [of _ "[t]"]) (simp add: addToChildren_def)
  next
    case neg
    have "v_int (eval I (App BITVECTOR_NEG [t])) mod 2 ^ w = d_value c * v_int (eval I t) mod 2 ^ w" if I: "wf_interp I" for I
    proof -
      obtain a where "eval I t = VBV w a" using typed_bv_value [OF t I] by metis
      then show ?thesis using eqs(3) [OF neg(3)] by (simp add: bvneg_def) (metis minus_mult_left mod_mult_left_eq mult_1)
    qed
    moreover have "typeOf (App BITVECTOR_NEG [t]) = Some (BITVECTOR_TYPE w)" using t w by (simp add: typeOf_short type_op_iffs)
    ultimately show ?thesis
      using neg \<open>BitVector_neg G _ = _\<close> by (intro exI [of _ "[App BITVECTOR_NEG [t]]"]) (simp add: addToChildren_def del: eval.simps)
  next
    case mult
    let ?fs = "if hasKind BITVECTOR_MULT t then children t else [t]"
    let ?cs = "?fs @ [CONST_BITVECTOR c]"
    have fs: "all_of_width w ?fs \<and> ?fs \<noteq> [] \<and> (\<forall>I. wf_interp I \<longrightarrow> prod_list (values I ?fs) mod 2 ^ w = v_int (eval I t) mod 2 ^ w)"
    proof (cases "hasKind BITVECTOR_MULT t")
      case True
      then obtain ns where ns: "t = App BITVECTOR_MULT ns" by (auto simp: hasKind_iff)
      obtain "ns \<noteq> []" "all_of_width w ns" using typeOf_nary_nonempty [OF t [unfolded ns]] by auto
      then show ?thesis using True nary_value_App [OF _ t [unfolded ns]] by (simp add: ns nary_value_prod del: eval.simps)
    qed (use t in simp)
    then have all: "all_of_width w ?cs" "2 \<le> length ?cs"
      using c w by (simp_all add: valid_width_def Suc_le_eq split: if_splits)
    have ty: "typeOf (App BITVECTOR_MULT ?cs) = Some (BITVECTOR_TYPE w)" by (rule typeOf_nary_iff [THEN iffD2]) (use all in auto)
    have "v_int (eval I (App BITVECTOR_MULT ?cs)) = d_value c * v_int (eval I t) mod 2 ^ w" if I: "wf_interp I" for I
    proof -
      have "d_value c * prod_list (values I ?fs) mod 2 ^ w = d_value c * v_int (eval I t) mod 2 ^ w"
        using fs I by (metis mod_mult_right_eq)
      then have "prod_list (values I ?cs) mod 2 ^ w = d_value c * v_int (eval I t) mod 2 ^ w"
        by (simp only: map_append prod_list.append) (simp add: mult.commute)
      then show ?thesis using nary_value_App [OF _ ty I] by (simp only: nary_value_prod insert_iff simp_thms)
    qed
    then show ?thesis
      using mult neg ty by (intro exI [of _ "[App BITVECTOR_MULT ?cs]"]) (auto simp: addToChildren_def simp del: eval.simps)
  qed
qed

lemma adds_trans:
  assumes "adds w m s v (Inr (m', s'))" and "adds w m' s' u r" and "\<And>I. v' I = v I + u I"
  shows "adds w m s v' r"
proof -
  obtain m2 s2 where r: "r = Inr (m2, s2)" "coef_wf w m2" "bv_wf s2" "d_size s2 = w"
    "\<And>I. wf_interp I \<Longrightarrow> (linear I m2 + d_value s2) mod 2 ^ w = (linear I m' + d_value s' + u I) mod 2 ^ w"
    using assms(2) unfolding adds_def by blast
  have "(linear I m2 + d_value s2) mod 2 ^ w = (linear I m + d_value s + v' I) mod 2 ^ w" if I: "wf_interp I" for I
  proof -
    have "(linear I m' + d_value s' + u I) mod 2 ^ w = (linear I m + d_value s + v I + u I) mod 2 ^ w"
      using assms(1) I unfolding adds_def by (intro mod_add_swap) auto
    then show ?thesis unfolding r(5) [OF I] assms(3) by (simp only: add.assoc)
  qed
  then show ?thesis using r(1-4) unfolding adds_def by blast
qed

lemma updateCoefMap_fold:
  assumes "all_of_width w ns" and "coef_wf w m" "bv_wf s" "d_size s = w"
  shows "adds w m s (\<lambda>I. sum_list (values I ns)) (efoldl (\<lambda>(m, c) n. updateCoefMap G lt n w m c) (m, s) ns)"
  using assms
proof (induction ns arbitrary: m s)
  case (Cons n ns)
  from updateCoefMap_adds [OF Cons.prems(2-4), of n lt] Cons.prems(1)
  obtain m' s' where u: "updateCoefMap G lt n w m s = Inr (m', s')" "coef_wf w m'" "bv_wf s'" "d_size s' = w"
    "adds w m s (\<lambda>I. v_int (eval I n)) (Inr (m', s'))" by (auto simp: adds_def)
  from Cons.IH [OF _ u(2-4)] Cons.prems(1) have "adds w m' s' (\<lambda>I. sum_list (values I ns))
      (efoldl (\<lambda>(m, c) n. updateCoefMap G lt n w m c) (m', s') ns)" by simp
  from adds_trans [OF u(5) this] show ?case by (simp add: u(1))
qed (simp add: adds_def)

lemma addToChildren_fold:
  assumes "coef_wf w m"
  shows "\<exists>cs'. efoldl (\<lambda>cs (t, c). addToChildren G t w c cs) cs m = Inr (cs @ cs') \<and> all_of_width w cs' \<and>
    (\<forall>I. wf_interp I \<longrightarrow> sum_list (values I cs') mod 2 ^ w = linear I m mod 2 ^ w)"
  using assms
proof (induction m arbitrary: cs)
  case (Cons p m)
  obtain t c where p: "p = (t, c)" by fastforce
  from addToChildren_sum [of t w c cs] Cons.prems obtain cs1 where 1: "addToChildren G t w c cs = Inr (cs @ cs1)" "all_of_width w cs1"
    "\<And>I. wf_interp I \<Longrightarrow> sum_list (values I cs1) mod 2 ^ w = d_value c * v_int (eval I t) mod 2 ^ w" by (auto simp: p)
  from Cons.IH [of "cs @ cs1"] Cons.prems obtain cs2 where 2: "efoldl (\<lambda>cs (t, c). addToChildren G t w c cs) (cs @ cs1) m = Inr (cs @ cs1 @ cs2)"
    "all_of_width w cs2" "\<And>I. wf_interp I \<Longrightarrow> sum_list (values I cs2) mod 2 ^ w = linear I m mod 2 ^ w" by (auto simp: p)
  have "sum_list (values I (cs1 @ cs2)) mod 2 ^ w = linear I (p # m) mod 2 ^ w" if "wf_interp I" for I
    using mod_add_cong [OF 1(3) 2(3)] that by (simp add: p)
  then show ?case using 1 2 by (intro exI [of _ "cs1 @ cs2"]) (simp add: p)
qed simp

text \<open>A sum of terms and a constant.\<close>

lemma const_summand:
  assumes "bv_wf c" "d_size c = w" "valid_width w"
  defines "cc \<equiv> if BitVector_neq c (BitVector_unsigned G w 0) then [CONST_BITVECTOR c] else []"
  shows "all_of_width w cc" and "sum_list (values I cc) = d_value c"
  using assms by (auto simp: cc_def BitVector_neq_def unsigned_BitVector valid_width_def)

lemma sum_node:
  assumes cs: "all_of_width w cs" and w: "valid_width w"
  shows "typeOf (solveEq_sum G w cs) = Some (BITVECTOR_TYPE w)"
    and "wf_interp I \<Longrightarrow> eval I (solveEq_sum G w cs) = VBV w (sum_list (values I cs) mod 2 ^ w)"
    and "solveEq_sum G w cs = (if length cs = 0 then mkConst G w 0 else mkNode BITVECTOR_PLUS cs)"
proof -
  show eq: "solveEq_sum G w cs = (if length cs = 0 then mkConst G w 0 else mkNode BITVECTOR_PLUS cs)"
    by (simp add: solveEq_sum_def mkNode_def)
  show "typeOf (solveEq_sum G w cs) = Some (BITVECTOR_TYPE w)" using mkNode_nary(1) [OF _ _ cs, of BITVECTOR_PLUS] w by (simp add: eq)
  show "eval I (solveEq_sum G w cs) = VBV w (sum_list (values I cs) mod 2 ^ w)" if "wf_interp I"
    using mkNode_nary(2) [OF _ _ cs that, of BITVECTOR_PLUS] by (simp add: eq nary_value_sum)
qed

lemma PlusCombineLikeTerms_sound: "rule_sound opt (PlusCombineLikeTerms G lt)"
proof (rule rule_soundI)
  fix n t assume n: "typeOf n = Some t" "applies (PlusCombineLikeTerms G lt) n"
  then obtain ns where ns: "n = App BITVECTOR_PLUS ns" by (auto simp: PlusCombineLikeTerms_def hasKind_iff)
  obtain w where w: "ns \<noteq> []" "all_of_width w ns" "t = BITVECTOR_TYPE w" using typeOf_nary_nonempty [OF n(1) [unfolded ns]] by auto
  have sz: "getSize n = w" and vw: "valid_width w" using n(1) w(3) typeOf_valid [OF n(1)] by simp_all
  let ?z = "BitVector_unsigned G w 0"
  have z: "bv_wf ?z" "d_size ?z = w" "d_value ?z = 0" using vw by (simp_all add: unsigned_BitVector valid_width_def)
  obtain m s where ms: "efoldl (\<lambda>(m, c) n. updateCoefMap G lt n w m c) ([], ?z) ns = Inr (m, s)" "coef_wf w m" "bv_wf s" "d_size s = w"
    "\<And>I. wf_interp I \<Longrightarrow> (linear I m + d_value s) mod 2 ^ w = sum_list (values I ns) mod 2 ^ w"
    using updateCoefMap_fold [OF w(2) coef_simps(1) z(1,2), of lt] z(3) by (auto simp: adds_def)
  obtain cs where cs: "efoldl (\<lambda>cs (t, c). addToChildren G t w c cs) [] m = Inr cs" "all_of_width w cs"
    "\<And>I. wf_interp I \<Longrightarrow> sum_list (values I cs) mod 2 ^ w = linear I m mod 2 ^ w"
    using addToChildren_fold [OF ms(2), of "[]"] by auto
  let ?cc = "if BitVector_neq s ?z then [CONST_BITVECTOR s] else []"
  note cc = const_summand [OF ms(3,4) vw]
  have all: "all_of_width w (cs @ ?cc)" using cs(2) cc(1) by simp
  have "same_meaning opt (solveEq_sum G w (cs @ ?cc)) n"
  proof (rule same_meaningI [OF n(1)])
    show "typeOf (solveEq_sum G w (cs @ ?cc)) = Some t" using sum_node(1) [OF all vw] w(3) by simp
    fix I assume I: "wf_interp I"
    have "sum_list (values I (cs @ ?cc)) mod 2 ^ w = (linear I m + d_value s) mod 2 ^ w"
      using mod_add_swap [OF cs(3) [OF I]] cc(2) by simp
    then show "eval I (solveEq_sum G w (cs @ ?cc)) = eval I n"
      using sum_node(2) [OF all vw I] ms(5) [OF I] eval_nary [OF _ w(1,2) I, of BITVECTOR_PLUS]
      by (simp add: ns nary_value_sum del: eval.simps map_append)
  qed
  moreover have "apply_rule (PlusCombineLikeTerms G lt) n = Inr (solveEq_sum G w (cs @ ?cc))"
    unfolding sum_node(3) [OF all vw] using ms(1) cs(1) sz by (simp add: PlusCombineLikeTerms_def ns Let_def)
  ultimately show "sound_result opt n (apply_rule (PlusCombineLikeTerms G lt) n)" by simp
qed

lemma addToChildren_value:
  assumes "typeOf t = Some (BITVECTOR_TYPE w)" "bv_wf c" "d_size c = w" "all_of_width w cs"
  obtains cs' where "addToChildren G t w c cs = Inr cs'" "all_of_width w cs'"
    "\<And>I. wf_interp I \<Longrightarrow> sum_list (values I cs') mod 2 ^ w = (sum_list (values I cs) + d_value c * v_int (eval I t)) mod 2 ^ w"
proof -
  from addToChildren_sum [OF assms(1-3), of cs] obtain cs' where cs': "addToChildren G t w c cs = Inr (cs @ cs')" "all_of_width w cs'"
    "\<And>I. wf_interp I \<Longrightarrow> sum_list (values I cs') mod 2 ^ w = d_value c * v_int (eval I t) mod 2 ^ w" by blast
  show thesis
    using cs'(1,2) assms(4) mod_add_cong [OF refl cs'(3)] by (intro that [of "cs @ cs'"]) simp_all
qed

lemma minus_value:
  assumes "bv_wf c" "d_size c = w" "bv_wf d" "d_size d = w"
  shows "\<exists>e. BitVector_minus G c d = Inr e \<and> bv_wf e \<and> d_size e = w \<and> d_value e = (d_value c - d_value d) mod 2 ^ w"
  using minus_refines [OF assms(3), of c] assms bv_wfD(1) [OF assms(1)] by (simp add: bvsub_def)

lemma merged_left:
  assumes t: "typeOf t = Some (BITVECTOR_TYPE w)" "bv_wf c" "d_size c = w" "all_of_width w cl"
    and f: "\<And>cl'. all_of_width w cl' \<Longrightarrow> merged w L R cl' cr (f cl')"
    and L: "\<And>I. (linear I L + d_value c * v_int (eval I t)) mod 2 ^ w = (linear I L' + e I) mod 2 ^ w"
    and R: "\<And>I. linear I R = linear I R' + e I"
  shows "merged w L' R' cl cr (ebind (addToChildren G t w c cl) f)"
proof -
  obtain cl' where cl': "addToChildren G t w c cl = Inr cl'" "all_of_width w cl'"
    "\<And>I. wf_interp I \<Longrightarrow> sum_list (values I cl') mod 2 ^ w = (sum_list (values I cl) + d_value c * v_int (eval I t)) mod 2 ^ w"
    using addToChildren_value [OF t] by auto
  have "merged w L' R' cl cr (f cl')"
  proof (rule merged_step [OF f [OF cl'(2)]])
    fix I assume I: "wf_interp I"
    have "(sum_list (values I cl') + linear I L) mod 2 ^ w = (sum_list (values I cl) + d_value c * v_int (eval I t) + linear I L) mod 2 ^ w"
      by (rule mod_add_swap [OF cl'(3) [OF I]])
    also have "\<dots> = (sum_list (values I cl) + (linear I L + d_value c * v_int (eval I t))) mod 2 ^ w" by (simp add: ac_simps)
    also have "\<dots> = (sum_list (values I cl) + (linear I L' + e I)) mod 2 ^ w" by (rule mod_add_cong [OF refl L])
    finally show "(sum_list (values I cl') + linear I L) mod 2 ^ w = (sum_list (values I cl) + linear I L' + e I) mod 2 ^ w"
      by (simp only: add.assoc)
    show "(sum_list (values I cr) + linear I R) mod 2 ^ w = (sum_list (values I cr) + linear I R' + e I) mod 2 ^ w"
      by (simp only: R add.assoc)
  qed
  then show ?thesis by (simp add: cl'(1))
qed

lemma merged_swap: "merged w R L cr cl (map_sum id prod.swap r) \<longleftrightarrow> merged w L R cl cr r"
proof -
  have neg: "(b - a) mod k = (d - c) mod k" if "(a - b) mod k = (c - d) mod k" for a b c d k :: int
    using mod_minus_cong [OF that] by simp
  show ?thesis
  proof (cases r)
    case (Inr p)
    obtain x y where p: "p = (x, y)" by fastforce
    show ?thesis unfolding merged_def Inr p by (auto dest: neg)
  qed (simp add: merged_def)
qed

lemma merged_right:
  assumes "typeOf t = Some (BITVECTOR_TYPE w)" "bv_wf c" "d_size c = w" "all_of_width w cr"
    and f: "\<And>cr'. all_of_width w cr' \<Longrightarrow> merged w L R cl cr' (f cr')"
    and "\<And>I. (linear I R + d_value c * v_int (eval I t)) mod 2 ^ w = (linear I R' + e I) mod 2 ^ w"
    and "\<And>I. linear I L = linear I L' + e I"
  shows "merged w L' R' cl cr (ebind (addToChildren G t w c cr) f)"
proof -
  have "merged w R L cr' cl (map_sum id prod.swap (f cr'))" if "all_of_width w cr'" for cr' using f [OF that] merged_swap by blast
  from merged_left [OF assms(1-4) this assms(6,7)] have "merged w R' L' cr cl (ebind (addToChildren G t w c cr) (\<lambda>cr. map_sum id prod.swap (f cr)))" .
  moreover have "ebind r (\<lambda>x. map_sum id prod.swap (f x)) = map_sum id prod.swap (ebind r f)" for r :: "node list exc" by (cases r) auto
  ultimately show ?thesis using merged_swap by simp
qed

text \<open>The loop, under the assumption that nodes that are not ordered are equal.\<close>

lemma solveEq_merge_merged:
  assumes total: "\<And>a b. \<not> lt a b \<Longrightarrow> \<not> lt b a \<Longrightarrow> a = b"
    and "coef_wf w L" "coef_wf w R" "all_of_width w cl" "all_of_width w cr"
  shows "merged w L R cl cr (solveEq_merge G lt w L R cl cr)"
  using assms(2-)
proof (induction "length L + length R" arbitrary: L R cl cr rule: less_induct)
  case less
  let ?merge = "solveEq_merge G lt w"
  have IH: "merged w L' R' cl' cr' (?merge L' R' cl' cr')"
    if "length L' + length R' < length L + length R" "coef_wf w L'" "coef_wf w R'" "all_of_width w cl'" "all_of_width w cr'" for L' R' cl' cr'
    by (rule less.hyps [OF that])
  have left: "merged w L R cl cr (ebind (addToChildren G t w c cl) (\<lambda>cl. ?merge L' R cl cr))" if L: "L = (t, c) # L'" for t c L'
  proof (rule merged_left [where L = L' and R = R and e = "\<lambda>I. 0"])
    show "merged w L' R cl' cr (?merge L' R cl' cr)" if "all_of_width w cl'" for cl' using that less.prems by (intro IH) (simp_all add: L)
  qed (use less.prems in \<open>simp_all add: L add.commute\<close>)
  have right: "merged w L R cl cr (ebind (addToChildren G t w c cr) (\<lambda>cr. ?merge L R' cl cr))" if R: "R = (t, c) # R'" for t c R'
  proof (rule merged_right [where L = L and R = R' and e = "\<lambda>I. 0"])
    show "merged w L R' cl cr' (?merge L R' cl cr')" if "all_of_width w cr'" for cr' using that less.prems by (intro IH) (simp_all add: R)
  qed (use less.prems in \<open>simp_all add: R add.commute\<close>)
  have both: "merged w L R cl cr (?merge L R cl cr)" if L: "L = (t, c) # L'" and R: "R = (t, c') # R'" and nlt: "\<not> lt t t" for t c L' c' R'
  proof -
    have wf: "typeOf t = Some (BITVECTOR_TYPE w)" "bv_wf c" "d_size c = w" "bv_wf c'" "d_size c' = w" using less.prems by (simp_all add: L R)
    have rec: "merged w L' R' cl' cr' (?merge L' R' cl' cr')" if "all_of_width w cl'" "all_of_width w cr'" for cl' cr'
      using that less.prems by (intro IH) (simp_all add: L R)
    have swap: "(x + (a - b) mod 2 ^ w * v) mod 2 ^ w = (a * v + x - b * v) mod 2 ^ w" for x a b v :: int
    proof -
      have "(x + (a - b) mod 2 ^ w * v) mod 2 ^ w = (x + (a - b) * v) mod 2 ^ w"
        by (intro mod_add_cong refl) (rule mod_mult_left_eq)
      then show ?thesis by (simp add: algebra_simps)
    qed
    consider "d_value c' < d_value c" | "d_value c < d_value c'" | "d_value c = d_value c'" by linarith
    then show ?thesis
    proof cases
      case 1
      obtain e where e: "BitVector_minus G c c' = Inr e" "bv_wf e" "d_size e = w" "d_value e = (d_value c - d_value c') mod 2 ^ w"
        using minus_value [OF wf(2-5)] by blast
      have "merged w L R cl cr (ebind (addToChildren G t w e cl) (\<lambda>cl. ?merge L' R' cl cr))"
        using wf(1) e(2,3) less.prems(3) rec [OF _ less.prems(4)]
        by (rule merged_left [where e = "\<lambda>I. - (d_value c' * v_int (eval I t))"]) (simp_all add: L R e(4) swap)
      then show ?thesis using 1 nlt e(1) by (simp add: L R BitVector_greater_def)
    next
      case 2
      obtain e where e: "BitVector_minus G c' c = Inr e" "bv_wf e" "d_size e = w" "d_value e = (d_value c' - d_value c) mod 2 ^ w"
        using minus_value [OF wf(4,5,2,3)] by blast
      have "merged w L R cl cr (ebind (addToChildren G t w e cr) (\<lambda>cr. ?merge L' R' cl cr))"
        using wf(1) e(2,3) less.prems(4) rec [OF less.prems(3)]
        by (rule merged_right [where e = "\<lambda>I. - (d_value c * v_int (eval I t))"]) (simp_all add: L R e(4) swap)
      then show ?thesis using 2 nlt e(1) by (simp add: L R BitVector_greater_def)
    next
      case 3
      have "merged w L' R' cl cr (?merge L' R' cl cr)" by (rule rec [OF less.prems(3,4)])
      then have "merged w L R cl cr (?merge L' R' cl cr)"
        by (rule merged_step [where e = "\<lambda>I. - (d_value c * v_int (eval I t))"]) (simp_all add: L R 3)
      then show ?thesis using 3 nlt by (simp add: L R BitVector_greater_def)
    qed
  qed
  show ?case
  proof (cases L; cases R)
    fix p L' q R' assume LR: "L = p # L'" "R = q # R'"
    obtain t c t' c' where pq: "p = (t, c)" "q = (t', c')" by (cases p, cases q) auto
    show ?thesis
    proof (cases "lt t t' \<or> lt t' t")
      case True
      then show ?thesis using left [of t c L'] right [of t' c' R'] by (auto simp: LR pq)
    next
      case False
      then show ?thesis using total [of t t'] both [of t c L' c' R'] by (auto simp: LR pq)
    qed
  next
    fix p L' assume LR: "L = p # L'" "R = []"
    then show ?thesis using left [of "fst p" "snd p" L'] by (cases p) simp
  next
    fix q R' assume LR: "L = []" "R = q # R'"
    then show ?thesis using right [of "fst q" "snd q" R'] by (cases q) simp
  qed (use less.prems in \<open>simp add: merged_def\<close>)
qed

lemma neq_zero: "bv_wf c \<Longrightarrow> d_size c = w \<Longrightarrow> BitVector_neq c (BitVector_unsigned G w 0) \<longleftrightarrow> d_value c \<noteq> 0"
  by (simp add: BitVector_neq_def unsigned_BitVector)

lemma solveEq_build_decides:
  assumes w: "valid_width w" and cl: "all_of_width w cl" and cr: "all_of_width w cr" and c: "bv_wf c" "d_size c = w"
    and last: "d_value c \<noteq> 0 \<Longrightarrow> \<exists>ds. cr = ds @ [CONST_BITVECTOR c]"
  shows "decides w (\<lambda>I. sum_list (values I cl) - sum_list (values I cr)) (solveEq_build G lt w c cl cr)"
proof (cases "cl = [] \<and> d_value c \<noteq> 0")
  case True
  then obtain ds where ds: "cr = ds @ [CONST_BITVECTOR c]" using last by blast
  show ?thesis
  proof (cases "ds = []")
    case one: True
    have "- d_value c mod 2 ^ w \<noteq> 0"
      using c True by (metis bv_wf_def dvd_eq_mod_eq_0 dvd_minus_iff in_width_mod_id)
    then show ?thesis using True one neq_zero [OF c] by (simp add: solveEq_build_def ds decides_False)
  next
    case False
    have all: "all_of_width w ds" using cr unfolding ds all_of_width_simps(3) by blast
    let ?n = "CONST_BITVECTOR (BitVector G w (bvneg w (d_value c)))"
    have n: "typeOf ?n = Some (BITVECTOR_TYPE w)" using w by (simp add: valid_width_def)
    have "decides w (\<lambda>I. sum_list (values I cl) - sum_list (values I cr)) (Inr (solveEq_equality lt ?n (solveEq_sum G w ds)))"
    proof (rule decides_cong [OF decides_equality [OF n sum_node(1) [OF all w]]])
      fix I assume I: "wf_interp I"
      show "(v_int (eval I ?n) - v_int (eval I (solveEq_sum G w ds))) mod 2 ^ w = (sum_list (values I cl) - sum_list (values I cr)) mod 2 ^ w"
        using True sum_node(2) [OF all w I] by (simp add: ds bvneg_def mod_simps ac_simps)
    qed
    then show ?thesis using True False neq_zero [OF c] neg_value(1) [OF c] by (simp add: solveEq_build_def ds)
  qed
next
  case False
  have "decides w (\<lambda>I. sum_list (values I cl) - sum_list (values I cr)) (Inr (solveEq_equality lt (solveEq_sum G w cl) (solveEq_sum G w cr)))"
    by (rule decides_cong [OF decides_equality [OF sum_node(1) [OF cl w] sum_node(1) [OF cr w]]])
      (simp add: sum_node(2) [OF cl w] sum_node(2) [OF cr w] mod_simps)
  then show ?thesis using False neq_zero [OF c] by (auto simp: solveEq_build_def)
qed

lemma solveEq_result_decides:
  assumes w: "valid_width w" and cl: "all_of_width w cl" and cr: "all_of_width w cr"
    and l: "bv_wf l" "d_size l = w" and r: "bv_wf r" "d_size r = w"
  shows "decides w (\<lambda>I. (sum_list (values I cl) + d_value l) - (sum_list (values I cr) + d_value r)) (solveEq_result G lt w l r cl cr)"
proof -
  have const: "all_of_width w [CONST_BITVECTOR c]" if "bv_wf c" "d_size c = w" for c using that w by (simp add: valid_width_def)
  consider (right) "d_value r \<noteq> 0" | (single) "d_value r = 0" "d_value l \<noteq> 0" "cr = []" "cl = []"
    | (move) "d_value r = 0" "d_value l \<noteq> 0" "cr = []" "cl \<noteq> []" | (left) "d_value r = 0" "d_value l \<noteq> 0" "cr \<noteq> []"
    | (none) "d_value r = 0" "d_value l = 0" by blast
  then show ?thesis
  proof cases
    case right
    obtain e where e: "BitVector_minus G r l = Inr e" "bv_wf e" "d_size e = w" "d_value e = (d_value r - d_value l) mod 2 ^ w"
      using minus_value [OF r l] by blast
    let ?cr = "if BitVector_neq e (BitVector_unsigned G w 0) then cr @ [CONST_BITVECTOR e] else cr"
    have "decides w (\<lambda>I. sum_list (values I cl) - sum_list (values I ?cr)) (solveEq_build G lt w e cl ?cr)"
    proof (rule solveEq_build_decides [OF w cl _ e(2,3)])
      show "all_of_width w ?cr" using const [OF e(2,3)] cr by (cases "BitVector_neq e (BitVector_unsigned G w 0)") (simp_all only: all_of_width_simps(3) if_True if_False simp_thms)
    qed (simp add: neq_zero [OF e(2,3)])
    then have "decides w (\<lambda>I. (sum_list (values I cl) + d_value l) - (sum_list (values I cr) + d_value r)) (solveEq_build G lt w e cl ?cr)"
    proof (rule decides_cong)
      fix I
      have "sum_list (values I ?cr) = sum_list (values I cr) + d_value e" using neq_zero [OF e(2,3)] by simp
      then have "(sum_list (values I cl) - sum_list (values I ?cr)) mod 2 ^ w =
          (sum_list (values I cl) - sum_list (values I cr) - (d_value r - d_value l)) mod 2 ^ w"
        by (simp add: e(4) mod_diff_right_eq diff_diff_eq [symmetric] del: diff_diff_eq)
      then show "(sum_list (values I cl) - sum_list (values I ?cr)) mod 2 ^ w =
          ((sum_list (values I cl) + d_value l) - (sum_list (values I cr) + d_value r)) mod 2 ^ w" by (simp add: algebra_simps)
    qed
    then show ?thesis using right neq_zero [OF r] e(1) by (simp add: solveEq_result_def Let_def)
  next
    case single
    have "d_value l mod 2 ^ w \<noteq> 0" using l single(2) by (simp add: bv_wf_def)
    then show ?thesis using single neq_zero [OF r] neq_zero [OF l] by (simp add: solveEq_result_def decides_False)
  next
    case move
    let ?n = "BitVector G w (bvneg w (d_value l))"
    have n: "bv_wf ?n" "d_size ?n = w" using w by (simp_all add: valid_width_def)
    have "decides w (\<lambda>I. sum_list (values I cl) - sum_list (values I [CONST_BITVECTOR ?n])) (solveEq_build G lt w r cl [CONST_BITVECTOR ?n])"
      using move(1) by (intro solveEq_build_decides w cl r const n) simp
    then have "decides w (\<lambda>I. (sum_list (values I cl) + d_value l) - (sum_list (values I cr) + d_value r)) (solveEq_build G lt w r cl [CONST_BITVECTOR ?n])"
      by (rule decides_cong) (simp add: move bvneg_def mod_simps)
    then show ?thesis using move neq_zero [OF r] neq_zero [OF l] neg_value(1) [OF l] by (simp add: solveEq_result_def)
  next
    case left
    have "decides w (\<lambda>I. sum_list (values I (cl @ [CONST_BITVECTOR l])) - sum_list (values I cr)) (solveEq_build G lt w r (cl @ [CONST_BITVECTOR l]) cr)"
      using left(1) const [OF l] cl by (intro solveEq_build_decides w cr r) simp_all
    then have "decides w (\<lambda>I. (sum_list (values I cl) + d_value l) - (sum_list (values I cr) + d_value r)) (solveEq_build G lt w r (cl @ [CONST_BITVECTOR l]) cr)"
      by (rule decides_cong) (simp add: left(1))
    then show ?thesis using left neq_zero [OF r] neq_zero [OF l] by (simp add: solveEq_result_def)
  next
    case none
    have "decides w (\<lambda>I. sum_list (values I cl) - sum_list (values I cr)) (solveEq_build G lt w r cl cr)"
      using none(1) by (intro solveEq_build_decides w cl cr r) simp
    then show ?thesis using none neq_zero [OF r] neq_zero [OF l] by (simp add: solveEq_result_def)
  qed
qed

lemma solveEq_side_adds:
  assumes n: "typeOf n = Some (BITVECTOR_TYPE w)"
  shows "\<exists>m s. solveEq_side G lt w n = Inr (m, s) \<and> coef_wf w m \<and> bv_wf s \<and> d_size s = w \<and>
    (\<forall>I. wf_interp I \<longrightarrow> (linear I m + d_value s) mod 2 ^ w = v_int (eval I n) mod 2 ^ w)"
proof -
  let ?z = "BitVector_unsigned G w 0"
  have z: "bv_wf ?z" "d_size ?z = w" "d_value ?z = 0" using typeOf_valid [OF n] by (simp_all add: unsigned_BitVector valid_width_def)
  have "adds w [] ?z (\<lambda>I. v_int (eval I n)) (solveEq_side G lt w n)"
  proof (cases "hasKind BITVECTOR_PLUS n")
    case True
    then obtain ns where ns: "n = App BITVECTOR_PLUS ns" by (auto simp: hasKind_iff)
    have all: "all_of_width w ns" using all_of_width_nary [OF _ n [unfolded ns]] by simp
    have "v_int (eval I n) = sum_list (values I ns) mod 2 ^ w" if "wf_interp I" for I
      using nary_value_App [OF _ n [unfolded ns] that] by (simp add: ns nary_value_sum del: eval.simps)
    then show ?thesis
      using updateCoefMap_fold [OF all coef_simps(1) z(1,2), of lt] True z(3)
      by (auto simp: adds_def solveEq_side_def ns simp del: eval.simps)
  next
    case False
    then show ?thesis using updateCoefMap_adds [OF coef_simps(1) z(1,2) n] by (simp add: solveEq_side_def)
  qed
  then show ?thesis using z(3) by (auto simp: adds_def)
qed

lemma not_differs:
  assumes x: "typeOf x = Some (BITVECTOR_TYPE w)" and I: "wf_interp I"
  shows "eval I (App BITVECTOR_NOT [x]) \<noteq> eval I x"
proof -
  obtain a where a: "eval I x = VBV w a" using typed_bv_value [OF x I] by metis
  have "odd ((2 :: int) ^ w - 1)" using typeOf_valid [OF x] by (simp add: valid_width_def)
  then have "2 ^ w - 1 - a \<noteq> a" by presburger
  then show ?thesis by (simp add: a bvnot_def)
qed

lemma SolveEq_sound:
  assumes total: "\<And>a b. \<not> lt a b \<Longrightarrow> \<not> lt b a \<Longrightarrow> a = b"
    and n: "typeOf n = Some t" "applies (SolveEq G lt) n" and bv: "typeOf (children n ! 0) = Some (BITVECTOR_TYPE w)"
  shows "sound_result opt n (apply_rule (SolveEq G lt) n)"
proof -
  obtain ns where ns: "n = App EQUAL ns" using n(2) by (auto simp: SolveEq_def hasKind_iff split: if_splits)
  then obtain l r where lr: "ns = [l, r]" "typeOf l = Some (BITVECTOR_TYPE w)" "typeOf r = Some (BITVECTOR_TYPE w)" "t = BOOLEAN_TYPE"
    using n(1) bv by (auto simp: typeOf_App_iff type_op_mixed list_all2_Cons2)
  have sz: "getSize l = w" and w: "valid_width w" using lr(2) typeOf_valid [OF lr(2)] by simp_all
  have ev: "eval I n = VBool ((v_int (eval I l) - v_int (eval I r)) mod 2 ^ w = 0)" if I: "wf_interp I" for I
  proof -
    obtain a b where a: "eval I l = VBV w a" "in_width w a" "eval I r = VBV w b" "in_width w b"
      using typed_bv_value [OF lr(2) I] typed_bv_value [OF lr(3) I] by metis
    then have "a = b \<longleftrightarrow> 2 ^ w dvd a - b" using mod_eq_dvd_iff [of a "2 ^ w" b] by simp
    then show ?thesis using a by (simp add: ns lr(1) dvd_eq_mod_eq_0)
  qed
  have "decides w (\<lambda>I. v_int (eval I l) - v_int (eval I r)) (apply_rule (SolveEq G lt) n)"
  proof (cases "l = App BITVECTOR_NOT [r] \<or> r = App BITVECTOR_NOT [l]")
    case True
    obtain ml sl where ls: "solveEq_side G lt w l = Inr (ml, sl)" using solveEq_side_adds [OF lr(2), of lt] by blast
    have "apply_rule (SolveEq G lt) n = Inr (CONST_BOOLEAN False)"
      using True ls sz by (auto simp: SolveEq_def ns lr(1) hasKind_def)
    moreover have "(v_int (eval I l) - v_int (eval I r)) mod 2 ^ w \<noteq> 0" if I: "wf_interp I" for I
      using ev [OF I] not_differs [OF lr(2) I] not_differs [OF lr(3) I] True by (auto simp: ns lr(1) simp del: eval.simps(4)) (auto simp: ns lr(1))
    ultimately show ?thesis by (simp add: decides_False)
  next
    case False
    obtain ml sl where ls: "solveEq_side G lt w l = Inr (ml, sl)" "coef_wf w ml" "bv_wf sl" "d_size sl = w"
      "\<And>I. wf_interp I \<Longrightarrow> (linear I ml + d_value sl) mod 2 ^ w = v_int (eval I l) mod 2 ^ w" using solveEq_side_adds [OF lr(2), of lt] by blast
    obtain mr sr where rs: "solveEq_side G lt w r = Inr (mr, sr)" "coef_wf w mr" "bv_wf sr" "d_size sr = w"
      "\<And>I. wf_interp I \<Longrightarrow> (linear I mr + d_value sr) mod 2 ^ w = v_int (eval I r) mod 2 ^ w" using solveEq_side_adds [OF lr(3), of lt] by blast
    have "merged w ml mr [] [] (solveEq_merge G lt w ml mr [] [])" by (rule solveEq_merge_merged [OF total ls(2) rs(2)]) simp_all
    then obtain cl cr where mg: "solveEq_merge G lt w ml mr [] [] = Inr (cl, cr)" "all_of_width w cl" "all_of_width w cr"
      "\<And>I. wf_interp I \<Longrightarrow> (sum_list (values I cl) - sum_list (values I cr)) mod 2 ^ w = (linear I ml - linear I mr) mod 2 ^ w"
      unfolding merged_def by auto
    have "\<not> (hasKind BITVECTOR_NOT l \<and> children l ! 0 = r)" "\<not> (hasKind BITVECTOR_NOT r \<and> children r ! 0 = l)"
      using False lr(2,3) by (auto simp: hasKind_iff dest!: unary_same)
    then have "apply_rule (SolveEq G lt) n = solveEq_result G lt w sl sr cl cr"
      using ls(1) rs(1) mg(1) sz by (auto simp: SolveEq_def ns lr(1))
    moreover have "decides w (\<lambda>I. v_int (eval I l) - v_int (eval I r)) (solveEq_result G lt w sl sr cl cr)"
    proof (rule decides_cong [OF solveEq_result_decides [OF w mg(2,3) ls(3,4) rs(3,4)]])
      fix I assume I: "wf_interp I"
      have "(sum_list (values I cl) - sum_list (values I cr) + (d_value sl - d_value sr)) mod 2 ^ w =
          (linear I ml - linear I mr + (d_value sl - d_value sr)) mod 2 ^ w" by (rule mod_add_swap [OF mg(4) [OF I]])
      also have "\<dots> = ((linear I ml + d_value sl) - (linear I mr + d_value sr)) mod 2 ^ w" by (simp add: algebra_simps)
      also have "\<dots> = (v_int (eval I l) - v_int (eval I r)) mod 2 ^ w" by (rule mod_diff_cong [OF ls(5) [OF I] rs(5) [OF I]])
      finally show "((sum_list (values I cl) + d_value sl) - (sum_list (values I cr) + d_value sr)) mod 2 ^ w =
          (v_int (eval I l) - v_int (eval I r)) mod 2 ^ w" by (simp add: algebra_simps)
    qed
    ultimately show ?thesis by simp
  qed
  then obtain m where m: "apply_rule (SolveEq G lt) n = Inr m" "typeOf m = Some BOOLEAN_TYPE"
    "\<And>I. wf_interp I \<Longrightarrow> eval I m = VBool ((v_int (eval I l) - v_int (eval I r)) mod 2 ^ w = 0)" unfolding decides_def by blast
  have "same_meaning opt m n" using m(2,3) ev n(1) lr(4) by (intro same_meaningI) auto
  then show ?thesis by (simp add: m(1))
qed

end

end
