(* ===== verification/Rules_Bitwise.thy ===== *)
theory Rules_Bitwise
  imports Rules_Linear
begin

text \<open>
  The normalization rules of \<open>src/src/theory/bv/theory_bv_rewrite_rules_normalization.h\<close> on bitwise operators:
  \<open>AndSimplify\<close>, \<open>OrSimplify\<close> and \<open>XorSimplify\<close>, which count the occurrences of every term and of its negation,
  and \<open>BitwiseSlicing\<close>. The \<open>hash_map\<close> of counts is an association list; the order in which the code iterates over
  it is the parameter \<open>iter\<close>, of which only that it lists the entries is used. A node has fewer than \<open>2 ^ 26\<close>
  children, so the counters do not wrap and are natural numbers. \<open>counts_hold\<close> and \<open>counts_sum\<close> say what a map of
  counts means for one bit of a conjunction and of an exclusive or; both follow \<open>insert_count\<close>.
\<close>

section \<open>Counting terms\<close>

record Count =
  pos :: nat
  neg :: nat

type_synonym count_map = "(node \<times> Count) list"

definition insert_count :: "count_map \<Rightarrow> node \<Rightarrow> bool \<Rightarrow> count_map" where
  "insert_count m node negated =
     (case map_of m node of
        None \<Rightarrow> AList.update node (if negated then \<lparr>pos = 0, neg = 1\<rparr> else \<lparr>pos = 1, neg = 0\<rparr>) m
      | Some c \<Rightarrow> AList.update node (if negated then c\<lparr>neg := neg c + 1\<rparr> else c\<lparr>pos := pos c + 1\<rparr>) m)"

text \<open>One child of the node: constants are combined by \<open>f\<close>, other terms are counted.\<close>

definition bitwise_step ::
  "('c \<Rightarrow> bitvector \<Rightarrow> 'c exc) \<Rightarrow> 'c \<times> count_map \<Rightarrow> node \<Rightarrow> ('c \<times> count_map) exc" where
  "bitwise_step f s current =
     (let (constant, subterms) = s
      in if isConstBV current then ebind (f constant (getConst current)) (\<lambda>constant. Inr (constant, subterms))
         else if hasKind BITVECTOR_NOT current then Inr (constant, insert_count subterms (children current ! 0) True)
         else Inr (constant, insert_count subterms current False))"

section \<open>Conjunction and disjunction\<close>

text \<open>The loop over the counted terms; \<open>None\<close> when a term occurs with its negation.\<close>

fun bitwise_children :: "count_map \<Rightarrow> node list option" where
  "bitwise_children [] = Some []"
| "bitwise_children ((t, c) # m) =
     (if pos c > 0 \<and> neg c > 0 then None
      else if neg c > 0 then map_option ((#) (App BITVECTOR_NOT [t])) (bitwise_children m)
      else map_option ((#) t) (bitwise_children m))"

definition AndSimplify :: "gmp \<Rightarrow> (node \<Rightarrow> node \<Rightarrow> bool) \<Rightarrow> (count_map \<Rightarrow> count_map) \<Rightarrow> rule" where
  "AndSimplify G lt iter =
     \<lparr>applies = hasKind BITVECTOR_AND,
      apply_rule = (\<lambda>node.
        let size = getSize node;
            zero = BitVector_unsigned G size 0
        in ebind (efoldl (bitwise_step (BitVector_and G)) (mkBitVectorOnes G size, []) (children node)) (\<lambda>(constant, subterms).
           if BitVector_eq constant zero then Inr (CONST_BITVECTOR zero)
           else
             let cs = (if BitVector_neq constant (mkBitVectorOnes G size) then [CONST_BITVECTOR constant] else [])
             in case bitwise_children (iter subterms) of
                  None \<Rightarrow> Inr (CONST_BITVECTOR zero)
                | Some ds \<Rightarrow>
                    if length (cs @ ds) = 0 then Inr (mkOnes G size)
                    else Inr (mkSortedNode lt BITVECTOR_AND (cs @ ds))))\<rparr>"

definition OrSimplify :: "gmp \<Rightarrow> (node \<Rightarrow> node \<Rightarrow> bool) \<Rightarrow> (count_map \<Rightarrow> count_map) \<Rightarrow> rule" where
  "OrSimplify G lt iter =
     \<lparr>applies = hasKind BITVECTOR_OR,
      apply_rule = (\<lambda>node.
        let size = getSize node;
            zero = BitVector_unsigned G size 0
        in ebind (efoldl (bitwise_step (BitVector_or G)) (zero, []) (children node)) (\<lambda>(constant, subterms).
           if BitVector_eq constant (mkBitVectorOnes G size) then Inr (mkOnes G size)
           else
             let cs = (if BitVector_neq constant zero then [CONST_BITVECTOR constant] else [])
             in case bitwise_children (iter subterms) of
                  None \<Rightarrow> Inr (mkOnes G size)
                | Some ds \<Rightarrow>
                    if length (cs @ ds) = 0 then Inr (CONST_BITVECTOR zero)
                    else Inr (mkSortedNode lt BITVECTOR_OR (cs @ ds))))\<rparr>"

section \<open>Exclusive or\<close>

text \<open>\<open>const_set\<close> and \<open>constant\<close> are one optional constant.\<close>

definition xor_constant :: "gmp \<Rightarrow> bitvector option \<Rightarrow> bitvector \<Rightarrow> bitvector option exc" where
  "xor_constant G constant bv =
     (case constant of
        Some c \<Rightarrow> ebind (BitVector_xor G c bv) (\<lambda>c. Inr (Some c))
      | None \<Rightarrow> Inr (Some bv))"

definition xor_step :: "node list \<times> nat \<times> bool \<Rightarrow> node \<times> Count \<Rightarrow> node list \<times> nat \<times> bool" where
  "xor_step s e =
     (let (cs, true_count, seen_false) = s;
          (t, c) = e;
          seen_false = (if seen_false then seen_false else pos c > 1 \<or> neg c > 1)
      in if pos c mod 2 \<noteq> 0 \<and> neg c mod 2 \<noteq> 0 then (cs, true_count + 1, seen_false)
         else if pos c mod 2 \<noteq> 0 then (cs @ [t], true_count, seen_false)
         else if neg c mod 2 \<noteq> 0 then (cs @ [App BITVECTOR_NOT [t]], true_count, seen_false)
         else (cs, true_count, seen_false))"

definition XorSimplify :: "gmp \<Rightarrow> (node \<Rightarrow> node \<Rightarrow> bool) \<Rightarrow> (count_map \<Rightarrow> count_map) \<Rightarrow> rule" where
  "XorSimplify G lt iter =
     \<lparr>applies = hasKind BITVECTOR_XOR,
      apply_rule = (\<lambda>node.
        let size = getSize node
        in ebind (efoldl (bitwise_step (xor_constant G)) (None, []) (children node)) (\<lambda>(constant, subterms).
           let (cs, true_count, seen_false) = foldl xor_step ([], 0, False) (iter subterms);
               true_bv = mkBitVectorOnes G size;
               false_bv = BitVector_unsigned G size 0;
               xorConst =
                 (if true_count \<noteq> 0 then [if true_count mod 2 \<noteq> 0 then true_bv else false_bv] else []) @
                 (if seen_false then [false_bv] else []) @
                 (case constant of Some c \<Rightarrow> [c] | None \<Rightarrow> [])
           in if length xorConst > 0
              then
                ebind (efoldl (BitVector_xor G) (hd xorConst) (tl xorConst)) (\<lambda>result.
                Inr (mkSortedNode lt BITVECTOR_XOR (cs @ [CONST_BITVECTOR result])))
              else Inr (mkSortedNode lt BITVECTOR_XOR cs)))\<rparr>"

section \<open>Slicing\<close>

text \<open>The first constant child and the other children.\<close>

fun bitwiseSlicing_split :: "node list \<Rightarrow> node option \<times> node list" where
  "bitwiseSlicing_split [] = (None, [])"
| "bitwiseSlicing_split (c # cs) =
     (if isConstBV c then (Some c, cs)
      else let (constant, others) = bitwiseSlicing_split cs in (constant, c # others))"

text \<open>The loop downwards from bit \<open>i\<close>; \<open>start\<close> and \<open>stop\<close> (\<open>end\<close> in the code) bound the current run of equal bits.\<close>

definition bitwise_slice :: "kind \<Rightarrow> node \<Rightarrow> node \<Rightarrow> int \<Rightarrow> int \<Rightarrow> node" where
  "bitwise_slice k constant other high low =
     App k [mkExtract constant (nat high) (nat low), mkExtract other (nat high) (nat low)]"

function bitwiseSlicing_loop :: "gmp \<Rightarrow> kind \<Rightarrow> node \<Rightarrow> node \<Rightarrow> int \<Rightarrow> int \<Rightarrow> int \<Rightarrow> node list exc" where
  "bitwiseSlicing_loop G k constant other start stop i =
     (if i < 0 then Inr []
      else
        ebind (BitVector_isBitSet G (getConst constant) (nat (i + 1))) (\<lambda>upper.
        ebind (BitVector_isBitSet G (getConst constant) (nat i)) (\<lambda>lower.
        let pushed = (if upper \<noteq> lower then [bitwise_slice k constant other stop start] else []);
            start = (if upper \<noteq> lower then i else start - 1);
            stop = (if upper \<noteq> lower then i else stop);
            final = (if i = 0 then [bitwise_slice k constant other stop 0] else [])
        in ebind (bitwiseSlicing_loop G k constant other start stop (i - 1)) (\<lambda>rest.
           Inr (pushed @ final @ rest)))))"
  by pat_completeness auto

termination
  by (relation "measure (\<lambda>(G, k, constant, other, start, stop, i). nat (i + 1))") auto

declare bitwiseSlicing_loop.simps [simp del]

definition BitwiseSlicing :: "gmp \<Rightarrow> rule" where
  "BitwiseSlicing G =
     \<lparr>applies = (\<lambda>node.
        if \<not> hasKind BITVECTOR_AND node \<and> \<not> hasKind BITVECTOR_OR node \<and> \<not> hasKind BITVECTOR_XOR node \<or> getSize node = 1
        then False
        else
          case fst (bitwiseSlicing_split (children node)) of
            None \<Rightarrow> False
          | Some c \<Rightarrow>
              let constant = getConst c
              in if BitVector_eq constant (BitVector_unsigned G (getSize node) 0) then False
                 else list_ex (\<lambda>i. BitVector_isBitSet G constant i = Inr False) [0..<d_size constant]),
      apply_rule = (\<lambda>node.
        case bitwiseSlicing_split (children node) of
          (None, other_children) \<Rightarrow> Inl AssertionException
        | (Some constant, other_children) \<Rightarrow>
            let other = mkNode (appKind node) other_children;
                start = i32 (u32_sub (d_size (getConst constant)) 1)
            in ebind (bitwiseSlicing_loop G (appKind node) constant other start start (start - 1)) (\<lambda>concat_children.
               Inr (mkNode BITVECTOR_CONCAT concat_children)))\<rparr>"


section \<open>What the counts mean\<close>

definition count_child :: "count_map \<Rightarrow> node \<Rightarrow> count_map" where
  "count_child m n = (if hasKind BITVECTOR_NOT n then insert_count m (children n ! 0) True else insert_count m n False)"

text \<open>Constants and counts do not interact.\<close>

lemma bitwise_collect:
  "efoldl (bitwise_step f) (c, m) ns =
    ebind (efoldl f c (map getConst (filter isConstBV ns)))
      (\<lambda>c. Inr (c, foldl count_child m (filter (\<lambda>n. \<not> isConstBV n) ns)))"
proof (induction ns arbitrary: c m)
  case (Cons n ns)
  then show ?case by (cases "f c (getConst n)") (simp_all add: bitwise_step_def count_child_def)
qed simp

lemma insert_count_simps [simp]:
  "insert_count [] n b = [(n, \<lparr>pos = of_bool (\<not> b), neg = of_bool b\<rparr>)]"
  "insert_count ((t, c) # m) n b =
    (if t = n then (n, \<lparr>pos = pos c + of_bool (\<not> b), neg = neg c + of_bool b\<rparr>) # m else (t, c) # insert_count m n b)"
  by (cases c; simp add: insert_count_def split: option.split)+

definition counts_ok :: "nat \<Rightarrow> count_map \<Rightarrow> bool" where
  "counts_ok w m \<longleftrightarrow> list_all (\<lambda>(t, c). typeOf t = Some (BITVECTOR_TYPE w) \<and> 0 < pos c + neg c) m"

definition counts_hold :: "(node \<Rightarrow> bool) \<Rightarrow> count_map \<Rightarrow> bool" where
  "counts_hold B m \<longleftrightarrow> list_all (\<lambda>(t, c). (0 < pos c \<longrightarrow> B t) \<and> (0 < neg c \<longrightarrow> \<not> B t)) m"

definition counts_sum :: "(node \<Rightarrow> bool) \<Rightarrow> count_map \<Rightarrow> nat" where
  "counts_sum B m = sum_list (map (\<lambda>(t, c). if B t then pos c else neg c) m)"

lemma counts_Nil [simp]: "counts_ok w []" "counts_hold B []" "counts_sum B [] = 0"
  by (simp_all add: counts_ok_def counts_hold_def counts_sum_def)

lemma counts_Cons [simp]:
  "counts_ok w ((t, c) # m) \<longleftrightarrow> typeOf t = Some (BITVECTOR_TYPE w) \<and> 0 < pos c + neg c \<and> counts_ok w m"
  "counts_hold B ((t, c) # m) \<longleftrightarrow> (0 < pos c \<longrightarrow> B t) \<and> (0 < neg c \<longrightarrow> \<not> B t) \<and> counts_hold B m"
  "counts_sum B ((t, c) # m) = (if B t then pos c else neg c) + counts_sum B m"
  by (simp_all add: counts_ok_def counts_hold_def counts_sum_def)

lemma counts_insert [simp]:
  "typeOf n = Some (BITVECTOR_TYPE w) \<Longrightarrow> counts_ok w m \<Longrightarrow> counts_ok w (insert_count m n b)"
  "counts_hold B (insert_count m n b) \<longleftrightarrow> counts_hold B m \<and> B n \<noteq> b"
  "counts_sum B (insert_count m n b) = counts_sum B m + of_bool (B n \<noteq> b)"
proof -
  show "counts_ok w (insert_count m n b)" if "typeOf n = Some (BITVECTOR_TYPE w)" "counts_ok w m"
    using that(2) by (induction m) (use that(1) in \<open>auto split: if_splits\<close>)
  show "counts_hold B (insert_count m n b) \<longleftrightarrow> counts_hold B m \<and> B n \<noteq> b"
    by (induction m) (auto split: if_splits)
  show "counts_sum B (insert_count m n b) = counts_sum B m + of_bool (B n \<noteq> b)"
    by (induction m) (auto split: if_splits)
qed

lemma counts_mset:
  assumes "mset m = mset m'"
  shows "counts_ok w m \<longleftrightarrow> counts_ok w m'" and "counts_hold B m \<longleftrightarrow> counts_hold B m'" and "counts_sum B m = counts_sum B m'"
proof -
  have "set m = set m'" using assms by (rule mset_eq_setD)
  then show "counts_ok w m \<longleftrightarrow> counts_ok w m'" and "counts_hold B m \<longleftrightarrow> counts_hold B m'"
    by (simp_all add: counts_ok_def counts_hold_def list_all_iff)
  have "mset (map f m) = mset (map f m')" for f :: "node \<times> Count \<Rightarrow> nat" using assms by simp
  from arg_cong [OF this, of sum_mset] show "counts_sum B m = counts_sum B m'" by (simp only: counts_sum_def sum_mset_sum_list)
qed

text \<open>A predicate that tells a term from its negation, such as one bit of the value.\<close>

definition flips :: "nat \<Rightarrow> (node \<Rightarrow> bool) \<Rightarrow> bool" where
  "flips w B \<longleftrightarrow> (\<forall>t. typeOf t = Some (BITVECTOR_TYPE w) \<longrightarrow> B (App BITVECTOR_NOT [t]) = (\<not> B t))"

lemma bit_flips:
  assumes "wf_interp I" and "i < w"
  shows "flips w (\<lambda>t. bit (v_int (eval I t)) i = P)"
proof -
  have "bit (v_int (eval I (App BITVECTOR_NOT [t]))) i = (\<not> bit (v_int (eval I t)) i)"
    if t: "typeOf t = Some (BITVECTOR_TYPE w)" for t
  proof -
    obtain a where "eval I t = VBV w a" "in_width w a" using typed_bv_value [OF t assms(1)] by metis
    then show ?thesis using assms(2) by (simp add: xor_ones [symmetric] bit_xor_iff bit_ones)
  qed
  then show ?thesis by (auto simp: flips_def)
qed

lemma count_child_counts:
  assumes n: "typeOf n = Some (BITVECTOR_TYPE w)"
  shows "counts_ok w m \<Longrightarrow> counts_ok w (count_child m n)"
    and "flips w B \<Longrightarrow> counts_hold B (count_child m n) \<longleftrightarrow> counts_hold B m \<and> B n"
    and "flips w B \<Longrightarrow> counts_sum B (count_child m n) = counts_sum B m + of_bool (B n)"
proof -
  have "\<exists>t. typeOf t = Some (BITVECTOR_TYPE w) \<and> n = App BITVECTOR_NOT [t]" if "hasKind BITVECTOR_NOT n"
    using that n by (auto simp: hasKind_iff dest!: unary_same)
  then consider "\<not> hasKind BITVECTOR_NOT n" | t where "typeOf t = Some (BITVECTOR_TYPE w)" "n = App BITVECTOR_NOT [t]" by blast
  then have "(counts_ok w m \<longrightarrow> counts_ok w (count_child m n)) \<and>
    (flips w B \<longrightarrow> (counts_hold B (count_child m n) \<longleftrightarrow> counts_hold B m \<and> B n)) \<and>
    (flips w B \<longrightarrow> counts_sum B (count_child m n) = counts_sum B m + of_bool (B n))"
    using n by cases (auto simp: count_child_def hasKind_def flips_def)
  then show "counts_ok w m \<Longrightarrow> counts_ok w (count_child m n)"
    and "flips w B \<Longrightarrow> counts_hold B (count_child m n) \<longleftrightarrow> counts_hold B m \<and> B n"
    and "flips w B \<Longrightarrow> counts_sum B (count_child m n) = counts_sum B m + of_bool (B n)" by blast+
qed

lemma count_children:
  assumes "all_of_width w ns"
  shows "counts_ok w m \<Longrightarrow> counts_ok w (foldl count_child m ns)"
    and "flips w B \<Longrightarrow> counts_hold B (foldl count_child m ns) \<longleftrightarrow> counts_hold B m \<and> (\<forall>n\<in>set ns. B n)"
    and "flips w B \<Longrightarrow> counts_sum B (foldl count_child m ns) = counts_sum B m + length (filter B ns)"
  using assms by (induction ns arbitrary: m) (auto simp: count_child_counts)

lemma bitwise_children_None: "bitwise_children m = None \<Longrightarrow> \<not> counts_hold B m"
  by (induction m rule: bitwise_children.induct) (auto split: if_splits)

lemma bitwise_children_Some:
  assumes "bitwise_children m = Some ds" and "counts_ok w m" and "valid_width w"
  shows "all_of_width w ds" and "flips w B \<Longrightarrow> counts_hold B m \<longleftrightarrow> (\<forall>d\<in>set ds. B d)"
proof -
  have "all_of_width w ds \<and> (flips w B \<longrightarrow> counts_hold B m \<longleftrightarrow> (\<forall>d\<in>set ds. B d))"
    using assms(1,2)
  proof (induction m arbitrary: ds rule: bitwise_children.induct)
    case (2 t c m)
    then show ?case using assms(3) by (auto simp: flips_def typeOf_short type_op_iffs split: if_splits)
  qed simp
  then show "all_of_width w ds" and "flips w B \<Longrightarrow> counts_hold B m \<longleftrightarrow> (\<forall>d\<in>set ds. B d)" by blast+
qed

section \<open>Soundness\<close>

abbreviation "bitwise_kinds \<equiv> {BITVECTOR_AND, BITVECTOR_OR, BITVECTOR_XOR}"

lemma bit_nary_xor: "bit (nary_value BITVECTOR_XOR w as) i \<longleftrightarrow> odd (length (filter (\<lambda>a. bit a i) as))"
  by (induction as) (auto simp: nary_value_simps bit_simps)

text \<open>The bit with which a conjunction or disjunction does not change, and the constant that decides it.\<close>

lemma bit_nary_neutral:
  assumes "k \<in> {BITVECTOR_AND, BITVECTOR_OR}" and "i < w"
  shows "bit (nary_value k w as) i = (k = BITVECTOR_AND) \<longleftrightarrow> (\<forall>a\<in>set as. bit a i = (k = BITVECTOR_AND))"
  using assms by (auto simp: bit_nary_and bit_nary_or)

definition absorbing :: "kind \<Rightarrow> nat \<Rightarrow> int" where
  "absorbing k w = (if k = BITVECTOR_AND then 0 else 2 ^ w - 1)"

lemma bit_absorbing:
  "k \<in> {BITVECTOR_AND, BITVECTOR_OR} \<Longrightarrow> i < w \<Longrightarrow> bit (absorbing k w) i = (k \<noteq> BITVECTOR_AND)"
  "k \<in> {BITVECTOR_AND, BITVECTOR_OR} \<Longrightarrow> i < w \<Longrightarrow> bit (nary_unit k w) i = (k = BITVECTOR_AND)"
  by (auto simp: absorbing_def bit_ones)

text \<open>The loop over the counted terms of an exclusive or.\<close>

lemma xor_step_counts:
  assumes "foldl xor_step (cs0, t0, s0) m = (cs, t, s)" and "counts_ok w m" and "all_of_width w cs0" and w: "valid_width w"
  shows "all_of_width w cs" and "cs = [] \<and> t = 0 \<and> \<not> s \<longrightarrow> m = []"
    and "flips w B \<Longrightarrow> even (length (filter B cs) + t + length (filter B cs0) + t0 + counts_sum B m)"
proof -
  have "all_of_width w cs \<and> (cs = [] \<and> t = 0 \<and> \<not> s \<longrightarrow> m = [] \<and> cs0 = [] \<and> t0 = 0 \<and> \<not> s0) \<and>
      (flips w B \<longrightarrow> even (length (filter B cs) + t + length (filter B cs0) + t0 + counts_sum B m))"
    using assms(1-3)
  proof (induction m arbitrary: cs0 t0 s0)
    case (Cons e m)
    obtain u c where e: "e = (u, c)" by (cases e)
    obtain cs1 t1 s1 where st: "xor_step (cs0, t0, s0) e = (cs1, t1, s1)" by (metis prod_cases3)
    have n: "typeOf (App BITVECTOR_NOT [u]) = Some (BITVECTOR_TYPE w)" using Cons.prems(2) w by (simp add: e typeOf_short type_op_iffs)
    have c1: "all_of_width w cs1" "\<not> (cs1 = [] \<and> t1 = 0 \<and> \<not> s1)"
      using st Cons.prems(2,3) n by (auto simp: xor_step_def e Let_def split: if_splits)
    have par: "even (length (filter B cs1) + t1 + length (filter B cs0) + t0 + (if B u then pos c else neg c))" if "flips w B"
      using st that Cons.prems(2) by (auto simp: xor_step_def e Let_def flips_def split: if_splits)
    have IH: "all_of_width w cs \<and> (cs = [] \<and> t = 0 \<and> \<not> s \<longrightarrow> m = [] \<and> cs1 = [] \<and> t1 = 0 \<and> \<not> s1) \<and>
      (flips w B \<longrightarrow> even (length (filter B cs) + t + length (filter B cs1) + t1 + counts_sum B m))"
      using Cons.IH [of cs1 t1 s1] Cons.prems st c1(1) by (simp add: e)
    have "even (a + b + (c + d) + e) \<Longrightarrow> even (c + d + f + g + h) \<Longrightarrow> even (a + b + f + g + (h + e))" for a b c d e f g h :: nat
      by presburger
    then have "flips w B \<longrightarrow> even (length (filter B cs) + t + length (filter B cs0) + t0 + counts_sum B ((u, c) # m))"
      using IH par unfolding counts_Cons(3) by (simp only: add.assoc) blast
    then show ?case using IH c1(2) unfolding e by blast
  qed auto
  then show "all_of_width w cs" and "cs = [] \<and> t = 0 \<and> \<not> s \<longrightarrow> m = []"
    and "flips w B \<Longrightarrow> even (length (filter B cs) + t + length (filter B cs0) + t0 + counts_sum B m)" by blast+
qed

lemma xor_step_elements:
  assumes "foldl xor_step (cs0, t0, s0) m = (cs, t, s)" and "c \<in> set cs"
  shows "c \<in> set cs0 \<or> hasKind BITVECTOR_NOT c \<or> (\<exists>k. (c, k) \<in> set m \<and> 0 < pos k)"
  using assms(1)
proof (induction m arbitrary: cs0 t0 s0)
  case (Cons e m)
  obtain u k where e: "e = (u, k)" by (cases e)
  obtain cs1 t1 s1 where st: "xor_step (cs0, t0, s0) e = (cs1, t1, s1)" by (metis prod_cases3)
  have "c \<in> set cs1 \<Longrightarrow> c \<in> set cs0 \<or> hasKind BITVECTOR_NOT c \<or> c = u \<and> 0 < pos k"
    using st by (auto simp: xor_step_def e Let_def hasKind_def split: if_splits intro: Nat.gr0I)
  then show ?case using Cons.IH [of cs1 t1 s1] Cons.prems st by (auto simp: e)
qed (use assms(2) in auto)

lemma insert_count_pos: "(t, k) \<in> set (insert_count m n b) \<Longrightarrow> 0 < pos k \<Longrightarrow> t = n \<and> \<not> b \<or> (\<exists>k'. (t, k') \<in> set m \<and> 0 < pos k')"
proof (induction m)
  case (Cons e m)
  then show ?case by (cases e) (auto split: if_splits)
qed auto

lemma count_children_pos:
  "(t, k) \<in> set (foldl count_child m ns) \<Longrightarrow> 0 < pos k \<Longrightarrow> t \<in> set ns \<or> (\<exists>k'. (t, k') \<in> set m \<and> 0 < pos k')"
proof (induction ns arbitrary: m)
  case (Cons n ns)
  then show ?case using insert_count_pos [of t _ m] by (auto simp: count_child_def split: if_splits)
qed auto

lemma count_children_nonempty: "ns \<noteq> [] \<Longrightarrow> foldl count_child m ns \<noteq> []"
proof -
  have "insert_count m n b \<noteq> []" for m n b by (cases m) (auto split: if_splits)
  then show "ns \<noteq> [] \<Longrightarrow> foldl count_child m ns \<noteq> []" by (cases ns rule: rev_cases) (simp_all add: count_child_def)
qed

text \<open>A list of terms that together are the low bits of a value.\<close>

definition cat_slices :: "nat \<Rightarrow> (interp \<Rightarrow> int) \<Rightarrow> node list \<Rightarrow> bool" where
  "cat_slices e v ms \<longleftrightarrow> list_all bv_typed ms \<and> sum_list (map getSize ms) = e + 1 \<and>
     (\<forall>I. wf_interp I \<longrightarrow> cat_val (map (eval I) ms) = bvextract e 0 (v I))"

text \<open>Conjunction and disjunction share this form.\<close>

definition bitwise_simplify ::
  "gmp \<Rightarrow> kind \<Rightarrow> (node \<Rightarrow> node \<Rightarrow> bool) \<Rightarrow> (count_map \<Rightarrow> count_map) \<Rightarrow> (bitvector \<Rightarrow> bitvector \<Rightarrow> bitvector exc) \<Rightarrow> nat \<Rightarrow> node list \<Rightarrow> node exc" where
  "bitwise_simplify G k lt iter f w ns =
     (let unit = BitVector G w (nary_unit k w);
          stop = BitVector G w (absorbing k w)
      in ebind (efoldl (bitwise_step f) (unit, []) ns) (\<lambda>(constant, subterms).
         if BitVector_eq constant stop then Inr (CONST_BITVECTOR stop)
         else
           let cs = (if BitVector_neq constant unit then [CONST_BITVECTOR constant] else [])
           in case bitwise_children (iter subterms) of
                None \<Rightarrow> Inr (CONST_BITVECTOR stop)
              | Some ds \<Rightarrow>
                  if length (cs @ ds) = 0 then Inr (CONST_BITVECTOR unit) else Inr (mkSortedNode lt k (cs @ ds))))"

context gmp_documented
begin

lemma mkBitVectorOnes_BitVector: "valid_width w \<Longrightarrow> mkBitVectorOnes G w = BitVector G w (2 ^ w - 1)"
  using mkOnes_BitVector [of w] by (simp add: mkOnes_def)

lemma fold_constants:
  assumes k: "k \<in> nary_kinds"
    and f: "\<And>x y. bv_wf x \<Longrightarrow> bv_wf y \<Longrightarrow> d_size x = w \<Longrightarrow> d_size y = w \<Longrightarrow>
      f x y = Inr (BitVector G w (nary_op k w (d_value x) (d_value y)))"
    and w: "w < 2 ^ 32" and c: "bv_wf c" "d_size c = w" and ds: "list_all (\<lambda>d. bv_wf d \<and> d_size d = w) ds"
  shows "efoldl f c ds = Inr (BitVector G w (nary_value k w (map d_value (c # ds))))"
  using c ds
proof (induction ds arbitrary: c)
  case Nil
  then have "nary_value k w [d_value c] = d_value c" using nary_value_single [OF k] by (simp add: bv_wf_def)
  moreover have "BitVector G w (d_value c) = c" using BitVector_self [OF Nil(1)] Nil(2) by simp
  ultimately show ?case by simp
next
  case (Cons d ds)
  let ?c = "BitVector G w (nary_op k w (d_value c) (d_value d))"
  have iw: "in_width w (d_value c)" "in_width w (d_value d)" "list_all (in_width w) (map d_value ds)"
    using Cons.prems by (auto simp: bv_wf_def list_all_iff)
  have v: "d_value ?c = nary_op k w (d_value c) (d_value d)"
    using width_monoid.closed [OF nary_monoid [OF k] iw(1,2)] by simp
  have "efoldl f c (d # ds) = efoldl f ?c ds" using Cons.prems f by simp
  also have "\<dots> = Inr (BitVector G w (nary_value k w (map d_value (?c # ds))))"
    using Cons.IH [of ?c] Cons.prems w by simp
  also have "nary_value k w (map d_value (?c # ds)) = nary_value k w (map d_value (c # d # ds))"
    using width_monoid.assoc [OF nary_monoid [OF k] iw(1,2) nary_value_closed [OF k iw(3)]] v by (simp add: nary_value_simps)
  finally show ?case .
qed

lemma constants_typed:
  assumes "all_of_width w ns"
  shows "list_all (\<lambda>d. bv_wf d \<and> d_size d = w) (map getConst (filter isConstBV ns))"
    and "map d_value (map getConst (filter isConstBV ns)) = values I (filter isConstBV ns)"
proof -
  show "list_all (\<lambda>d. bv_wf d \<and> d_size d = w) (map getConst (filter isConstBV ns))"
    using assms by (auto simp: all_of_width_def list_all_iff isConstBV_iff)
  show "map d_value (map getConst (filter isConstBV ns)) = values I (filter isConstBV ns)"
    by (induction ns) (auto simp: isConstBV_iff)
qed

lemma bitwise_simplify_sound:
  assumes k: "k \<in> {BITVECTOR_AND, BITVECTOR_OR}"
    and f: "\<And>x y. bv_wf x \<Longrightarrow> bv_wf y \<Longrightarrow> d_size x = w \<Longrightarrow> d_size y = w \<Longrightarrow>
      f x y = Inr (BitVector G w (nary_op k w (d_value x) (d_value y)))"
    and n: "typeOf (App k ns) = Some (BITVECTOR_TYPE w)" and iter: "\<And>m. mset (iter m) = mset m"
  shows "sound_result opt (App k ns) (bitwise_simplify G k lt iter f w ns)"
proof -
  have nk: "k \<in> nary_kinds" using k by auto
  have ns: "all_of_width w ns" and w: "valid_width w" "w < 2 ^ 32"
    using all_of_width_nary [OF nk n] typeOf_valid [OF n] by (simp_all add: valid_width_def)
  let ?P = "k = BITVECTOR_AND"
  let ?cv = "map d_value (map getConst (filter isConstBV ns))"
  let ?unit = "BitVector G w (nary_unit k w)" and ?stop = "BitVector G w (absorbing k w)"
  let ?c = "BitVector G w (nary_value k w ?cv)" and ?m = "iter (foldl count_child [] (filter (\<lambda>n. \<not> isConstBV n) ns))"
  have os: "all_of_width w (filter (\<lambda>n. \<not> isConstBV n) ns)" using ns by (auto simp: all_of_width_def list_all_iff)
  have unit: "in_width w (nary_unit k w)" "in_width w (absorbing k w)" using k by (auto simp: absorbing_def)
  have cv: "set ?cv = set (values I (filter isConstBV ns))" for I by (simp only: constants_typed(2) [OF ns, of I])
  have iw: "list_all (in_width w) ?cv" using constants_typed(1) [OF ns] by (auto simp: list_all_iff bv_wf_def)
  have c: "in_width w (nary_value k w ?cv)" by (rule nary_value_closed [OF nk iw])
  have fold: "efoldl (bitwise_step f) (?unit, []) ns =
      Inr (?c, foldl count_child [] (filter (\<lambda>n. \<not> isConstBV n) ns))"
  proof -
    have "nary_value k w (d_value ?unit # ?cv) = nary_value k w ?cv"
      using width_monoid.unit_left [OF nary_monoid [OF nk] c] unit by (simp add: nary_value_simps)
    moreover have "efoldl f ?unit (map getConst (filter isConstBV ns)) = Inr (BitVector G w (nary_value k w (d_value ?unit # ?cv)))"
      unfolding list.map(2) [symmetric] by (rule fold_constants [OF nk f w(2) _ _ constants_typed(1) [OF ns]]) (use w(2) in simp_all)
    ultimately show ?thesis by (simp only: bitwise_collect ebind_simps)
  qed
  have ok: "counts_ok w ?m" using counts_mset(1) [OF iter] count_children(1) [OF os] by simp
  have key: "(\<forall>a\<in>set (values I ns). bit a i = ?P) \<longleftrightarrow>
      bit (nary_value k w ?cv) i = ?P \<and> counts_hold (\<lambda>t. bit (v_int (eval I t)) i = ?P) ?m"
    if I: "wf_interp I" and i: "i < w" for I i
  proof -
    have "counts_hold (\<lambda>t. bit (v_int (eval I t)) i = ?P) ?m \<longleftrightarrow>
        (\<forall>n\<in>set (filter (\<lambda>n. \<not> isConstBV n) ns). bit (v_int (eval I n)) i = ?P)"
      unfolding counts_mset(2) [OF iter] count_children(2) [OF os bit_flips [OF I i]] by simp
    then show ?thesis unfolding bit_nary_neutral [OF k i] cv [of I] by auto
  qed
  have ev: "eval I (App k ns) = VBV w (nary_value k w bs)"
    if I: "wf_interp I" and bs: "list_all (in_width w) bs"
      "\<And>i. i < w \<Longrightarrow> (\<forall>a\<in>set (values I ns). bit a i = ?P) \<longleftrightarrow> (\<forall>a\<in>set bs. bit a i = ?P)" for I bs
    using eval_nary [OF nk _ ns I] typeOf_nary_nonempty [OF n nk] nary_bits_eq [OF k bs(2) values_in_width [OF ns I] bs(1)]
    by auto
  have stop: "same_meaning opt (CONST_BITVECTOR ?stop) (App k ns)"
    if "\<And>I i. wf_interp I \<Longrightarrow> i < w \<Longrightarrow> \<not> (\<forall>a\<in>set (values I ns). bit a i = ?P)"
    using ev [of _ "[absorbing k w]"] that unit bit_absorbing(1) [OF k] nary_value_single [OF nk unit(2)]
    by (intro same_meaning_const [OF n unit(2)]) auto
  show ?thesis
  proof (cases "BitVector_eq ?c ?stop")
    case True
    then have "d_value ?c = d_value ?stop" by (simp add: BitVector_eq_def split: if_splits)
    then have "nary_value k w ?cv = absorbing k w" using c unit(2) by (simp only: BitVector_fields in_width_mod_id)
    then have "same_meaning opt (CONST_BITVECTOR ?stop) (App k ns)"
      using key bit_absorbing(1) [OF k] by (intro stop) auto
    with True fold show ?thesis by (simp add: bitwise_simplify_def)
  next
    case False
    define cs where "cs = (if BitVector_neq ?c ?unit then [CONST_BITVECTOR ?c] else [])"
    have res: "bitwise_simplify G k lt iter f w ns = (case bitwise_children ?m of None \<Rightarrow> Inr (CONST_BITVECTOR ?stop)
        | Some ds \<Rightarrow> if length (cs @ ds) = 0 then Inr (CONST_BITVECTOR ?unit) else Inr (mkSortedNode lt k (cs @ ds)))"
      using False by (simp only: bitwise_simplify_def Let_def fold ebind_simps prod.case cs_def if_False)
    show ?thesis
    proof (cases "bitwise_children ?m")
      case None
      have "same_meaning opt (CONST_BITVECTOR ?stop) (App k ns)"
        by (rule stop) (use key bitwise_children_None [OF None] in auto)
      then show ?thesis by (simp add: res None)
    next
      case (Some ds)
      have ds: "all_of_width w (cs @ ds)"
        using bitwise_children_Some(1) [OF Some ok w(1)] w by (auto simp: cs_def valid_width_def)
      have bits: "(\<forall>a\<in>set (values I ns). bit a i = ?P) \<longleftrightarrow> (\<forall>a\<in>set (values I (cs @ ds)). bit a i = ?P)"
        if I: "wf_interp I" and i: "i < w" for I i
      proof -
        have "bit (nary_value k w ?cv) i = ?P \<longleftrightarrow> (\<forall>a\<in>set (values I cs). bit a i = ?P)"
          using c unit bit_absorbing(2) [OF k i] by (auto simp: cs_def BitVector_neq_def)
        then show ?thesis
          using key [OF I i] bitwise_children_Some(2) [OF Some ok w(1) bit_flips [OF I i], of ?P] by auto
      qed
      have val: "eval I (App k ns) = VBV w (nary_value k w (values I (cs @ ds)))" if I: "wf_interp I" for I
        by (rule ev [OF I values_in_width [OF ds I] bits [OF I]])
      have "same_meaning opt (CONST_BITVECTOR ?unit) (App k ns)" if "cs @ ds = []"
        using val that unit by (intro same_meaning_const [OF n unit(1)]) (auto simp: nary_value_simps)
      moreover have "same_meaning opt (mkSortedNode lt k (cs @ ds)) (App k ns)" if ne: "cs @ ds \<noteq> []"
        using mkSortedNode_nary [OF nk ne ds] val by (intro same_meaningI [OF n]) simp_all
      ultimately show ?thesis by (simp add: res Some)
    qed
  qed
qed

lemma AndSimplify_sound:
  assumes "\<And>m. mset (iter m) = mset m"
  shows "rule_sound opt (AndSimplify G lt iter)"
proof (rule rule_soundI)
  fix n t assume n: "typeOf n = Some t" "applies (AndSimplify G lt iter) n"
  then obtain ns where ns: "n = App BITVECTOR_AND ns" by (auto simp: AndSimplify_def hasKind_iff)
  obtain w where w: "t = BITVECTOR_TYPE w" using typeOf_nary_nonempty [OF n(1) [unfolded ns]] by auto
  have e: "getSize (App BITVECTOR_AND ns) = w" "mkBitVectorOnes G w = BitVector G w (2 ^ w - 1)"
    using n(1) mkBitVectorOnes_BitVector [of w] typeOf_valid [OF n(1) [unfolded w]] by (simp_all add: ns w)
  have "apply_rule (AndSimplify G lt iter) n = bitwise_simplify G BITVECTOR_AND lt iter (BitVector_and G) w ns"
    by (simp only: AndSimplify_def bitwise_simplify_def ns rule.select_convs children.simps mkOnes_def unsigned_BitVector
        absorbing_def nary_op_simps Let_def e of_nat_0 kind.distinct simp_thms if_True if_False)
  with bitwise_simplify_sound [OF _ _ n(1) [unfolded ns w] assms, of "BitVector_and G"] bitwise_refines(3)
  show "sound_result opt n (apply_rule (AndSimplify G lt iter) n)" by (simp add: ns)
qed

lemma OrSimplify_sound:
  assumes "\<And>m. mset (iter m) = mset m"
  shows "rule_sound opt (OrSimplify G lt iter)"
proof (rule rule_soundI)
  fix n t assume n: "typeOf n = Some t" "applies (OrSimplify G lt iter) n"
  then obtain ns where ns: "n = App BITVECTOR_OR ns" by (auto simp: OrSimplify_def hasKind_iff)
  obtain w where w: "t = BITVECTOR_TYPE w" using typeOf_nary_nonempty [OF n(1) [unfolded ns]] by auto
  have e: "getSize (App BITVECTOR_OR ns) = w" "mkBitVectorOnes G w = BitVector G w (2 ^ w - 1)"
    using n(1) mkBitVectorOnes_BitVector [of w] typeOf_valid [OF n(1) [unfolded w]] by (simp_all add: ns w)
  have "apply_rule (OrSimplify G lt iter) n = bitwise_simplify G BITVECTOR_OR lt iter (BitVector_or G) w ns"
    by (simp only: OrSimplify_def bitwise_simplify_def ns rule.select_convs children.simps mkOnes_def unsigned_BitVector
        absorbing_def nary_op_simps Let_def e of_nat_0 kind.distinct simp_thms if_True if_False)
  with bitwise_simplify_sound [OF _ _ n(1) [unfolded ns w] assms, of "BitVector_or G"] bitwise_refines(2)
  show "sound_result opt n (apply_rule (OrSimplify G lt iter) n)" by (simp add: ns)
qed

lemma xor_constants:
  assumes ds: "list_all (\<lambda>d. bv_wf d \<and> d_size d = w) ds" and w: "w < 2 ^ 32"
  shows "efoldl (xor_constant G) None ds =
    Inr (if ds = [] then None else Some (BitVector G w (nary_value BITVECTOR_XOR w (map d_value ds))))"
    and "ds \<noteq> [] \<Longrightarrow> efoldl (BitVector_xor G) (hd ds) (tl ds) = Inr (BitVector G w (nary_value BITVECTOR_XOR w (map d_value ds)))"
proof -
  have *: "efoldl (xor_constant G) (Some c) ds = ebind (efoldl (BitVector_xor G) c ds) (\<lambda>c. Inr (Some c))" for c ds
  proof (induction ds arbitrary: c)
    case (Cons d ds)
    then show ?case by (cases "BitVector_xor G c d") (simp_all add: xor_constant_def)
  qed simp
  have **: "efoldl (BitVector_xor G) d es = Inr (BitVector G w (nary_value BITVECTOR_XOR w (map d_value (d # es))))"
    if "ds = d # es" for d es
    by (rule fold_constants [OF _ _ w]) (use ds that bitwise_refines(1) in simp_all)
  show "efoldl (xor_constant G) None ds =
    Inr (if ds = [] then None else Some (BitVector G w (nary_value BITVECTOR_XOR w (map d_value ds))))"
    using * ** by (cases ds) (simp_all add: xor_constant_def)
  show "efoldl (BitVector_xor G) (hd ds) (tl ds) = Inr (BitVector G w (nary_value BITVECTOR_XOR w (map d_value ds)))" if "ds \<noteq> []"
    using ** that by (cases ds) simp_all
qed

text \<open>The result of \<open>XorSimplify\<close>: children of the node, negations, and at most one constant.\<close>

lemma XorSimplify_result:
  assumes iter: "\<And>m. mset (iter m) = mset m" and n: "typeOf n = Some ty" "applies (XorSimplify G lt iter) n"
  shows "\<exists>cs cc. apply_rule (XorSimplify G lt iter) n = Inr (mkSortedNode lt BITVECTOR_XOR (cs @ cc)) \<and>
    same_meaning opt (mkSortedNode lt BITVECTOR_XOR (cs @ cc)) n \<and> cs @ cc \<noteq> [] \<and>
    (\<forall>c\<in>set cs. \<not> isConstBV c \<and> (hasKind BITVECTOR_NOT c \<or> c \<in> set (children n))) \<and> (cc = [] \<or> (\<exists>d. cc = [CONST_BITVECTOR d]))"
proof -
  from n(2) obtain ns where ns: "n = App BITVECTOR_XOR ns" by (auto simp: XorSimplify_def hasKind_iff)
  have k: "BITVECTOR_XOR \<in> nary_kinds" by simp
  obtain w where w: "ty = BITVECTOR_TYPE w" "ns \<noteq> []" "all_of_width w ns" using typeOf_nary_nonempty [OF n(1) [unfolded ns]] by auto
  have vw: "valid_width w" "w < 2 ^ 32" using typeOf_valid [OF n(1)] by (simp_all add: w valid_width_def)
  let ?os = "filter (\<lambda>n. \<not> isConstBV n) ns" and ?ds = "map getConst (filter isConstBV ns)"
  let ?m = "iter (foldl count_child [] ?os)"
  have os: "all_of_width w ?os" using w(3) by (auto simp: all_of_width_def list_all_iff)
  define cst where "cst = (if ?ds = [] then None else Some (BitVector G w (nary_value BITVECTOR_XOR w (map d_value ?ds))))"
  have fold: "efoldl (bitwise_step (xor_constant G)) (None, []) ns = Inr (cst, foldl count_child [] ?os)"
    using xor_constants(1) [OF constants_typed(1) [OF w(3)] vw(2)] by (simp only: bitwise_collect cst_def ebind_simps)
  obtain cs t s where st: "foldl xor_step ([], 0, False) ?m = (cs, t, s)" by (metis prod_cases3)
  have ok: "counts_ok w ?m" using counts_mset(1) [OF iter] count_children(1) [OF os] by simp
  note xs = xor_step_counts [OF st ok all_of_width_simps(1) vw(1)]
  let ?one = "BitVector G w (2 ^ w - 1)" and ?zero = "BitVector G w 0"
  define xc where "xc = (if t \<noteq> 0 then [if t mod 2 \<noteq> 0 then ?one else ?zero] else []) @
    (if s then [?zero] else []) @ (case cst of Some c \<Rightarrow> [c] | None \<Rightarrow> [])"
  have xw: "list_all (\<lambda>d. bv_wf d \<and> d_size d = w) xc" using vw by (auto simp: xc_def cst_def)
  define r where "r = cs @ (if xc = [] then [] else [CONST_BITVECTOR (BitVector G w (nary_value BITVECTOR_XOR w (map d_value xc)))])"
  have e: "getSize (App BITVECTOR_XOR ns) = w" "mkBitVectorOnes G w = ?one" "BitVector_unsigned G w 0 = ?zero"
    using n(1) mkBitVectorOnes_BitVector [OF vw(1)] by (simp_all add: w(1) unsigned_BitVector ns)
  have res: "apply_rule (XorSimplify G lt iter) n = Inr (mkSortedNode lt BITVECTOR_XOR r)"
    unfolding XorSimplify_def rule.select_convs ns e Let_def children.simps fold ebind_simps prod.case st xc_def [symmetric]
    using xor_constants(2) [OF xw vw(2)] by (cases "xc = []") (simp_all add: r_def)
  have ne: "r \<noteq> []"
  proof
    assume r: "r = []"
    then have "cs = []" "t = 0" "\<not> s" and ds: "filter isConstBV ns = []" by (auto simp: r_def xc_def cst_def split: if_splits)
    then have "?m = []" using xs(2) by simp
    then have "foldl count_child [] ?os = []" using iter by (metis mset_zero_iff)
    then have "?os = []" using count_children_nonempty by blast
    with ds w(2) show False by (cases ns) (auto split: if_splits)
  qed
  have r: "all_of_width w r" using xs(1) vw by (auto simp: r_def valid_width_def)
  have "nary_value BITVECTOR_XOR w (values I r) = nary_value BITVECTOR_XOR w (values I ns)" if I: "wf_interp I" for I
  proof (rule bit_eqI)
    fix i
    let ?B = "\<lambda>n. bit (v_int (eval I n)) i = True"
    have bits: "bit (nary_value BITVECTOR_XOR w (values I ms)) i \<longleftrightarrow> odd (length (filter ?B ms))" for ms
      by (simp add: bit_nary_xor filter_map comp_def)
    show "bit (nary_value BITVECTOR_XOR w (values I r)) i = bit (nary_value BITVECTOR_XOR w (values I ns)) i"
    proof (cases "i < w")
      case True
      have par: "even (length (filter ?B cs) + t + length (filter ?B ?os))"
        using xs(3) [OF bit_flips [OF I True], of True] count_children(3) [OF os bit_flips [OF I True], of True "[]"] counts_mset(3) [OF iter] by simp
      have len: "length (filter ?B ns) = length (filter ?B ?os) + length (filter ?B (filter isConstBV ns))"
        by (induction ns) auto
      have bm: "bit (d_value (BitVector G w a)) i \<longleftrightarrow> bit a i" for a
        using True by (simp add: bit_take_bit_iff flip: take_bit_eq_mod)
      have dc: "odd (length (filter (\<lambda>a. bit a i) (map d_value (case cst of Some c \<Rightarrow> [c] | None \<Rightarrow> [])))) \<longleftrightarrow>
          odd (length (filter ?B (filter isConstBV ns)))"
        using bits [of "filter isConstBV ns"] unfolding cst_def constants_typed(2) [OF w(3), of I]
        by (cases "?ds = []") (simp_all add: bm del: BitVector_fields)
      have "odd (length (filter (\<lambda>a. bit a i) (map d_value xc))) \<longleftrightarrow> (odd t \<noteq> odd (length (filter ?B (filter isConstBV ns))))"
      proof -
        have tm: "(t mod 2 \<noteq> 0) = odd t" by presburger
        show ?thesis unfolding dc [symmetric] xc_def tm using True
          by (cases "t = 0"; cases s) (simp_all add: bm bit_ones del: BitVector_fields)
      qed
      then have r': "length (filter ?B r) = length (filter ?B cs) + (if xc = [] then 0 else of_bool (odd t \<noteq> odd (length (filter ?B (filter isConstBV ns)))))"
        by (simp add: r_def bm bit_nary_xor del: BitVector_fields)
      have z: "xc = [] \<Longrightarrow> odd t = odd (length (filter ?B (filter isConstBV ns)))"
        using dc by (auto simp: xc_def split: if_splits)
      have "even (a + t + o') \<Longrightarrow> l = o' + c \<Longrightarrow> (z \<Longrightarrow> odd t = odd c) \<Longrightarrow> odd (a + (if z then 0 else of_bool (odd t \<noteq> odd c))) = odd l"
        for a t o' l c :: nat and z by (cases z) auto
      from this [OF par len z] show ?thesis unfolding bits r' .
    next
      case False
      then show ?thesis using nary_value_closed [OF k values_in_width [OF _ I]] r w(3) in_width_not_bit by (metis not_less)
    qed
  qed
  then have "same_meaning opt (mkSortedNode lt BITVECTOR_XOR r) n"
    using mkSortedNode_nary [OF k ne r] eval_nary [OF k w(2,3)] w(1) unfolding ns
    by (intro same_meaningI [OF n(1) [unfolded ns]]) simp_all
  moreover have "\<not> isConstBV c \<and> (hasKind BITVECTOR_NOT c \<or> c \<in> set (children n))" if c: "c \<in> set cs" for c
  proof -
    have "hasKind BITVECTOR_NOT c \<or> (\<exists>k. (c, k) \<in> set (foldl count_child [] ?os) \<and> 0 < pos k)"
      using xor_step_elements [OF st c] mset_eq_setD [OF iter] by simp
    then show ?thesis using count_children_pos [of c _ "[]" ?os] by (auto simp: ns hasKind_iff isConstBV_def)
  qed
  moreover obtain cc where "r = cs @ cc" "cc = [] \<or> (\<exists>d. cc = [CONST_BITVECTOR d])" using r_def by auto
  ultimately show ?thesis using res ne by (intro exI [of _ cs] exI [of _ cc]) simp
qed

lemma XorSimplify_sound:
  assumes "\<And>m. mset (iter m) = mset m"
  shows "rule_sound opt (XorSimplify G lt iter)"
proof (rule rule_soundI)
  fix n t assume n: "typeOf n = Some t" "applies (XorSimplify G lt iter) n"
  show "sound_result opt n (apply_rule (XorSimplify G lt iter) n)"
    using XorSimplify_result [where iter = iter and opt = opt, OF assms n] unfolding sound_result_def by blast
qed

subsection \<open>Slicing\<close>

lemma bitwiseSlicing_split_perm:
  "bitwiseSlicing_split ns = (Some c, os) \<Longrightarrow> isConstBV c \<and> mset ns = mset (c # os)"
  by (induction ns arbitrary: os) (auto split: if_splits prod.splits)

text \<open>One slice, and the loop: its slices make up the bits from \<open>e\<close> down.\<close>

lemma bitwise_slice_node:
  assumes k: "k \<in> bitwise_kinds" and c: "typeOf c = Some (BITVECTOR_TYPE w)" and x: "typeOf x = Some (BITVECTOR_TYPE w)"
    and h: "lo \<le> hi" "hi < w"
  defines "s \<equiv> bitwise_slice k c x (int hi) (int lo)"
  shows "typeOf s = Some (BITVECTOR_TYPE (hi - lo + 1))"
    and "wf_interp I \<Longrightarrow> eval I s = VBV (hi - lo + 1) (bvextract hi lo (nary_op k w (v_int (eval I c)) (v_int (eval I x))))"
proof -
  have nk: "k \<in> nary_kinds" using k by auto
  have ms: "all_of_width (hi - lo + 1) [mkExtract c hi lo, mkExtract x hi lo]" using c x typeOf_mkExtract [OF _ h] by simp
  show "typeOf s = Some (BITVECTOR_TYPE (hi - lo + 1))" using ms typeOf_nary_iff [OF nk] by (simp add: s_def bitwise_slice_def)
  assume I: "wf_interp I"
  obtain a b where a: "eval I c = VBV w a" and b: "eval I x = VBV w b" using typed_bv_value [OF c I] typed_bv_value [OF x I] by metis
  have "nary_value k (hi - lo + 1) [bvextract hi lo a, bvextract hi lo b] = nary_op k (hi - lo + 1) (bvextract hi lo a) (bvextract hi lo b)"
    using nary_value_single [OF nk in_width_bvextract, of hi lo b] by (simp add: nary_value_simps)
  then show "eval I s = VBV (hi - lo + 1) (bvextract hi lo (nary_op k w (v_int (eval I c)) (v_int (eval I x))))"
    using eval_nary [OF nk _ ms I] bvextract_op(1) [OF disjI1 [OF k] h, of a b]
    by (simp add: s_def bitwise_slice_def eval_mkExtract [OF a] eval_mkExtract [OF b] a b del: eval.simps)
qed

lemma cat_slices_single:
  assumes "typeOf s = Some (BITVECTOR_TYPE (e + 1))" and "\<And>I. wf_interp I \<Longrightarrow> eval I s = VBV (e + 1) (bvextract e 0 (v I))"
  shows "cat_slices e v [s]"
  using assms by (auto simp: cat_slices_def bv_typed_def)

lemma cat_slices_Cons:
  assumes "i < e" and "typeOf s = Some (BITVECTOR_TYPE (e - i))"
    and "\<And>I. wf_interp I \<Longrightarrow> eval I s = VBV (e - i) (bvextract e (i + 1) (v I))" and ms: "cat_slices i v ms"
  shows "cat_slices e v (s # ms)"
proof -
  have "cat_val (map (eval I) (s # ms)) = bvextract e 0 (v I)" if I: "wf_interp I" for I
    using bvextract_merge [of 0 i e "v I"] assms(1,3) ms I cat_width_getSize [OF _ I, of ms]
    by (simp add: cat_slices_def bvconcat_def)
  then show ?thesis using assms by (auto simp: cat_slices_def bv_typed_def)
qed

lemma bitwiseSlicing_loop_slices:
  assumes k: "k \<in> bitwise_kinds" and c: "typeOf (CONST_BITVECTOR c) = Some (BITVECTOR_TYPE w)"
    and x: "typeOf x = Some (BITVECTOR_TYPE w)" and e: "i < e" "e < w"
  shows "\<exists>ms. bitwiseSlicing_loop G k (CONST_BITVECTOR c) x (int i + 1) (int e) (int i) = Inr ms \<and>
    cat_slices e (\<lambda>I. nary_op k w (d_value c) (v_int (eval I x))) ms"
  using e
proof (induction i arbitrary: e)
  case 0
  note slice = bitwise_slice_node [OF k c x]
  let ?b = "bit (d_value c) 1 \<noteq> bit (d_value c) 0"
  have wf: "bv_wf c" "d_size c = w" using c by auto
  have set: "BitVector_isBitSet G c j = Inr (bit (d_value c) j)" if "j < w" for j
    using isBitSet_refines [of c j] wf that by simp
  have "bitwiseSlicing_loop G k (CONST_BITVECTOR c) x (int 0 + 1) (int e) (int 0) =
      Inr (if ?b then [bitwise_slice k (CONST_BITVECTOR c) x (int e) (int 1), bitwise_slice k (CONST_BITVECTOR c) x (int 0) (int 0)]
           else [bitwise_slice k (CONST_BITVECTOR c) x (int e) (int 0)])"
    using set [of 0] set [of 1] 0 by (simp add: bitwiseSlicing_loop.simps [of _ _ _ _ _ _ 0] bitwiseSlicing_loop.simps [of _ _ _ _ _ _ "- 1"])
  moreover have "cat_slices 0 (\<lambda>I. nary_op k w (d_value c) (v_int (eval I x))) [bitwise_slice k (CONST_BITVECTOR c) x (int 0) (int 0)]"
    using slice [of 0 0] 0 by (intro cat_slices_single) simp_all
  then have "cat_slices e (\<lambda>I. nary_op k w (d_value c) (v_int (eval I x)))
      [bitwise_slice k (CONST_BITVECTOR c) x (int e) (int 1), bitwise_slice k (CONST_BITVECTOR c) x (int 0) (int 0)]"
    by (rule cat_slices_Cons [of 0, rotated 3]) (use slice [of 1 e] 0 in simp_all)
  moreover have "cat_slices e (\<lambda>I. nary_op k w (d_value c) (v_int (eval I x))) [bitwise_slice k (CONST_BITVECTOR c) x (int e) (int 0)]"
    using slice [of 0 e] 0 by (intro cat_slices_single) simp_all
  ultimately show ?case by simp
next
  case (Suc i)
  note slice = bitwise_slice_node [OF k c x]
  let ?L = "\<lambda>e. bitwiseSlicing_loop G k (CONST_BITVECTOR c) x (int i + 1) (int e) (int i)"
  let ?v = "\<lambda>I. nary_op k w (d_value c) (v_int (eval I x))"
  let ?b = "bit (d_value c) (i + 2) \<noteq> bit (d_value c) (i + 1)"
  have wf: "bv_wf c" "d_size c = w" using c by auto
  have set: "BitVector_isBitSet G c j = Inr (bit (d_value c) j)" if "j < w" for j
    using isBitSet_refines [of c j] wf that by simp
  have "bitwiseSlicing_loop G k (CONST_BITVECTOR c) x (int (Suc i) + 1) (int e) (int (Suc i)) =
      (if ?b then ebind (?L (i + 1)) (\<lambda>ms. Inr (bitwise_slice k (CONST_BITVECTOR c) x (int e) (int (i + 2)) # ms)) else ?L e)"
    using set [of "i + 1"] set [of "i + 2"] Suc.prems
    by (subst bitwiseSlicing_loop.simps) (cases "?L e"; simp add: nat_add_distrib ac_simps)
  moreover obtain ms where "?L (i + 1) = Inr ms" "cat_slices (i + 1) ?v ms" using Suc.IH [of "i + 1"] Suc.prems by auto
  moreover obtain ns where "?L e = Inr ns" "cat_slices e ?v ns" using Suc.IH [of e] Suc.prems by auto
  moreover have "cat_slices e ?v (bitwise_slice k (CONST_BITVECTOR c) x (int e) (int (i + 2)) # ms)" if "cat_slices (i + 1) ?v ms"
    by (rule cat_slices_Cons [of "i + 1"]) (use slice [of "i + 2" e] Suc.prems that in \<open>simp_all add: Suc_diff_Suc\<close>)
  ultimately show ?case by simp
qed

lemma BitwiseSlicing_sound:
  assumes n: "typeOf n = Some (BITVECTOR_TYPE w)" "applies (BitwiseSlicing G) n" and lim: "w < 2 ^ 31"
  shows "sound_result opt n (apply_rule (BitwiseSlicing G) n)"
proof -
  obtain k ns c os where k: "n = App k ns" "k \<in> bitwise_kinds" "appKind n = k" "w \<noteq> 1" "bitwiseSlicing_split ns = (Some c, os)"
    using n by (cases "bitwiseSlicing_split (children n)") (auto simp: BitwiseSlicing_def hasKind_iff appKind_def split: if_splits option.splits)
  then have nk: "k \<in> nary_kinds" by auto
  have perm: "isConstBV c" "mset ns = mset (c # os)" using bitwiseSlicing_split_perm [OF k(5)] by simp_all
  obtain l: "2 \<le> length ns" and ns: "all_of_width w ns" using n(1) typeOf_nary_iff [OF nk] unfolding k(1) by auto
  have os: "typeOf c = Some (BITVECTOR_TYPE w)" "all_of_width w os" "os \<noteq> []"
    using all_of_width_mset [OF perm(2), of w] ns l mset_eq_length [OF perm(2)] by auto
  obtain d where d: "c = CONST_BITVECTOR d" "d_size d = w" "w < 2 ^ 32" "0 < w" using perm(1) os(1) bv_wfD(1) by (auto simp: isConstBV_iff)
  let ?o = "mkNode k os" and ?v = "\<lambda>I. nary_op k w (d_value d) (v_int (eval I (mkNode k os)))"
  note o = mkNode_nary [OF nk os(3,2)]
  have w: "2 \<le> w" "valid_width w" "w - 2 < w - 1" using d k(4) by (auto simp: valid_width_def)
  obtain ms where ms: "bitwiseSlicing_loop G k c ?o (int (w - 1)) (int (w - 1)) (int (w - 2)) = Inr ms" "cat_slices (w - 1) ?v ms"
    using bitwiseSlicing_loop_slices [OF k(2) os(1) [unfolded d(1)] o(1), of "w - 2" "w - 1"] w d(1) by (auto simp: of_nat_diff)
  then have ty: "list_all bv_typed ms" "sum_list (map getSize ms) = w" "ms \<noteq> []" using w by (auto simp: cat_slices_def)
  note cat = mkConcat_nodes [OF ty(1,3)]
  have "w - 1 < 2 ^ 31" using lim by simp
  then have "apply_rule (BitwiseSlicing G) n = Inr (mkConcat ms)"
    using ms(1) cat(3) lim w ty(2) by (simp add: BitwiseSlicing_def k(1,3,5) k(3) [unfolded k(1)] d(1,2) i32_def of_nat_diff)
  moreover have "same_meaning opt (mkConcat ms) n"
  proof (rule same_meaningI [OF n(1)])
    show "typeOf (mkConcat ms) = Some (BITVECTOR_TYPE w)" using cat(1) ty(2) w by simp
    fix I assume I: "wf_interp I"
    have iw: "in_width w (v_int (eval I c))" "in_width w (nary_value k w (values I os))" "list_all (in_width w) (values I (c # os))"
      using values_in_width [of w "c # os"] os I nary_value_closed [OF nk] by auto
    have "eval I n = VBV w (nary_value k w (values I (c # os)))"
      using eval_nary [OF nk _ ns I] l sorted_values_perm [OF perm(2) nk _ I] os unfolding k(1) by (cases ns) auto
    also have "nary_value k w (values I (c # os)) = ?v I" using o(2) [OF I] by (simp add: nary_value_simps d(1))
    also have "?v I = bvextract (w - 1) 0 (?v I)"
    proof -
      have "in_width w (?v I)" using nary_value_closed [OF nk iw(3)] o(2) [OF I] by (simp add: nary_value_simps d(1))
      then show ?thesis using w by (simp add: bvextract_def)
    qed
    finally show "eval I (mkConcat ms) = eval I n" using cat(2) ty(2) w ms(2) I by (simp add: cat_slices_def)
  qed
  ultimately show ?thesis by simp
qed

end

end
