(* ===== verification/BV_Rewriter.thy ===== *)
theory BV_Rewriter
  imports Rules_Bitwise
begin

text \<open>
  \<open>TheoryBVRewriter\<close> (\<open>src/src/theory/bv/theory_bv_rewriter.cpp\<close>): the functions of the rewrite table, the
  table itself and \<open>preRewrite\<close> and \<open>postRewrite\<close>, for the kinds of \<open>Nodes\<close>. A function returns a \<open>RewriteResponse\<close>: the new node and
  whether the generic rewriter has to look at it again. \<open>response_sound\<close> says that the response
  exists and its node has the type and the value of the given one.
\<close>

section \<open>Responses\<close>

datatype RewriteStatus = REWRITE_DONE | REWRITE_AGAIN | REWRITE_AGAIN_FULL

record RewriteResponse =
  status :: RewriteStatus
  rnode :: node

definition respond :: "RewriteStatus \<Rightarrow> node exc \<Rightarrow> RewriteResponse exc" where
  "respond s r = ebind r (\<lambda>resultNode. Inr \<lparr>status = s, rnode = resultNode\<rparr>)"

section \<open>Comparisons\<close>

definition RewriteUlt :: "gmp \<Rightarrow> node \<Rightarrow> bool \<Rightarrow> RewriteResponse exc" where
  "RewriteUlt G node prerewrite = respond REWRITE_DONE (LinearRewriteStrategy [EvalUlt G, UltZero G] node)"

definition RewriteUltBv :: "gmp \<Rightarrow> node \<Rightarrow> bool \<Rightarrow> RewriteResponse exc" where
  "RewriteUltBv G node prerewrite = respond REWRITE_DONE (LinearRewriteStrategy [EvalUltBv G] node)"

definition RewriteSlt :: "gmp \<Rightarrow> node \<Rightarrow> bool \<Rightarrow> RewriteResponse exc" where
  "RewriteSlt G node prerewrite = respond REWRITE_DONE (LinearRewriteStrategy [EvalSlt G] node)"

definition RewriteSltBv :: "gmp \<Rightarrow> node \<Rightarrow> bool \<Rightarrow> RewriteResponse exc" where
  "RewriteSltBv G node prerewrite = respond REWRITE_DONE (LinearRewriteStrategy [EvalSltBv G] node)"

definition RewriteUle :: "gmp \<Rightarrow> node \<Rightarrow> bool \<Rightarrow> RewriteResponse exc" where
  "RewriteUle G node prerewrite =
     ebind (LinearRewriteStrategy [EvalUle G, UleMax G, ZeroUle G, UleZero G, UleSelf, UleEliminate] node)
       (\<lambda>resultNode. respond (if resultNode = node then REWRITE_DONE else REWRITE_AGAIN) (Inr resultNode))"

definition RewriteSle :: "gmp \<Rightarrow> node \<Rightarrow> bool \<Rightarrow> RewriteResponse exc" where
  "RewriteSle G node prerewrite =
     ebind (LinearRewriteStrategy [EvalSle G, SleEliminate] node)
       (\<lambda>resultNode. respond (if resultNode = node then REWRITE_DONE else REWRITE_AGAIN) (Inr resultNode))"

definition RewriteUgt :: "node \<Rightarrow> bool \<Rightarrow> RewriteResponse exc" where
  "RewriteUgt node prerewrite = respond REWRITE_AGAIN (LinearRewriteStrategy [UgtEliminate] node)"

definition RewriteSgt :: "node \<Rightarrow> bool \<Rightarrow> RewriteResponse exc" where
  "RewriteSgt node prerewrite = respond REWRITE_AGAIN (LinearRewriteStrategy [SgtEliminate] node)"

definition RewriteUge :: "node \<Rightarrow> bool \<Rightarrow> RewriteResponse exc" where
  "RewriteUge node prerewrite = respond REWRITE_AGAIN (LinearRewriteStrategy [UgeEliminate] node)"

definition RewriteSge :: "node \<Rightarrow> bool \<Rightarrow> RewriteResponse exc" where
  "RewriteSge node prerewrite = respond REWRITE_AGAIN_FULL (LinearRewriteStrategy [SgeEliminate] node)"

definition RewriteITEBv :: "gmp \<Rightarrow> node \<Rightarrow> bool \<Rightarrow> RewriteResponse exc" where
  "RewriteITEBv G node prerewrite = respond REWRITE_DONE (LinearRewriteStrategy [EvalITEBv G] node)"

section \<open>Bitwise operators and concatenation\<close>

definition RewriteNot :: "gmp \<Rightarrow> node \<Rightarrow> bool \<Rightarrow> RewriteResponse exc" where
  "RewriteNot G node prerewrite = respond REWRITE_DONE (LinearRewriteStrategy [EvalNot G, NotIdemp] node)"

definition RewriteConcat :: "gmp \<Rightarrow> node \<Rightarrow> bool \<Rightarrow> RewriteResponse exc" where
  "RewriteConcat G node prerewrite =
     respond REWRITE_DONE
       (LinearRewriteStrategy
          [ConcatFlatten, ConcatExtractMerge, ConcatConstantMerge G,
           ApplyRuleToChildren BITVECTOR_CONCAT ExtractWhole] node)"

definition RewriteXnor :: "node \<Rightarrow> bool \<Rightarrow> RewriteResponse exc" where
  "RewriteXnor node prerewrite = respond REWRITE_AGAIN_FULL (LinearRewriteStrategy [XnorEliminate] node)"

definition RewriteNand :: "node \<Rightarrow> bool \<Rightarrow> RewriteResponse exc" where
  "RewriteNand node prerewrite = respond REWRITE_AGAIN_FULL (LinearRewriteStrategy [NandEliminate] node)"

definition RewriteNor :: "node \<Rightarrow> bool \<Rightarrow> RewriteResponse exc" where
  "RewriteNor node prerewrite = respond REWRITE_AGAIN_FULL (LinearRewriteStrategy [NorEliminate] node)"

definition RewriteComp :: "gmp \<Rightarrow> node \<Rightarrow> bool \<Rightarrow> RewriteResponse exc" where
  "RewriteComp G node prerewrite = respond REWRITE_DONE (LinearRewriteStrategy [EvalComp G] node)"

section \<open>Arithmetic\<close>

definition RewriteSub :: "node \<Rightarrow> bool \<Rightarrow> RewriteResponse exc" where
  "RewriteSub node prerewrite = respond REWRITE_AGAIN_FULL (LinearRewriteStrategy [SubEliminate] node)"

definition RewriteUdivTotal :: "gmp \<Rightarrow> node \<Rightarrow> bool \<Rightarrow> RewriteResponse exc" where
  "RewriteUdivTotal G node prerewrite =
     (if applies (UdivPow2 G) node then respond REWRITE_AGAIN_FULL (RewriteRule_run False (UdivPow2 G) node)
      else respond REWRITE_DONE (LinearRewriteStrategy [EvalUdiv G, UdivOne G, UdivSelf G] node))"

definition RewriteUremTotal :: "gmp \<Rightarrow> node \<Rightarrow> bool \<Rightarrow> RewriteResponse exc" where
  "RewriteUremTotal G node prerewrite =
     (if applies (UremPow2 G) node then respond REWRITE_AGAIN_FULL (RewriteRule_run False (UremPow2 G) node)
      else respond REWRITE_DONE (LinearRewriteStrategy [EvalUrem G, UremOne G, UremSelf G] node))"

definition RewriteUdiv :: "gmp \<Rightarrow> node \<Rightarrow> bool \<Rightarrow> RewriteResponse exc" where
  "RewriteUdiv G node prerewrite =
     (if isConst (children node ! 1) \<and> d_value (getConst (children node ! 1)) \<noteq> 0
      then RewriteUdivTotal G node prerewrite
      else respond REWRITE_DONE (Inr node))"

definition RewriteUrem :: "gmp \<Rightarrow> node \<Rightarrow> bool \<Rightarrow> RewriteResponse exc" where
  "RewriteUrem G node prerewrite =
     (if isConst (children node ! 1) \<and> d_value (getConst (children node ! 1)) \<noteq> 0
      then RewriteUremTotal G node prerewrite
      else respond REWRITE_DONE (Inr node))"

definition RewriteSmod :: "gmp \<Rightarrow> node \<Rightarrow> bool \<Rightarrow> RewriteResponse exc" where
  "RewriteSmod G node prerewrite = respond REWRITE_AGAIN_FULL (LinearRewriteStrategy [SmodEliminate G] node)"

definition RewriteSdiv :: "gmp \<Rightarrow> bool \<Rightarrow> node \<Rightarrow> bool \<Rightarrow> RewriteResponse exc" where
  "RewriteSdiv G opt node prerewrite = respond REWRITE_AGAIN_FULL (LinearRewriteStrategy [SdivEliminate G opt] node)"

definition RewriteSrem :: "gmp \<Rightarrow> bool \<Rightarrow> node \<Rightarrow> bool \<Rightarrow> RewriteResponse exc" where
  "RewriteSrem G opt node prerewrite = respond REWRITE_AGAIN_FULL (LinearRewriteStrategy [SremEliminate G opt] node)"

section \<open>Shifts, extensions, rotations and reductions\<close>

definition RewriteShl :: "gmp \<Rightarrow> node \<Rightarrow> bool \<Rightarrow> RewriteResponse exc" where
  "RewriteShl G node prerewrite =
     (if applies (ShlByConst G) node then respond REWRITE_AGAIN_FULL (RewriteRule_run False (ShlByConst G) node)
      else respond REWRITE_DONE (LinearRewriteStrategy [EvalShl G, ShiftZero G] node))"

definition RewriteLshr :: "gmp \<Rightarrow> node \<Rightarrow> bool \<Rightarrow> RewriteResponse exc" where
  "RewriteLshr G node prerewrite =
     (if applies (LshrByConst G) node then respond REWRITE_AGAIN_FULL (RewriteRule_run False (LshrByConst G) node)
      else respond REWRITE_DONE (LinearRewriteStrategy [EvalLshr G, ShiftZero G] node))"

definition RewriteAshr :: "gmp \<Rightarrow> node \<Rightarrow> bool \<Rightarrow> RewriteResponse exc" where
  "RewriteAshr G node prerewrite =
     (if applies (AshrByConst G) node then respond REWRITE_AGAIN_FULL (RewriteRule_run False (AshrByConst G) node)
      else respond REWRITE_DONE (LinearRewriteStrategy [EvalAshr G, ShiftZero G] node))"

definition RewriteRepeat :: "node \<Rightarrow> bool \<Rightarrow> RewriteResponse exc" where
  "RewriteRepeat node prerewrite = respond REWRITE_AGAIN_FULL (LinearRewriteStrategy [RepeatEliminate] node)"

definition RewriteZeroExtend :: "gmp \<Rightarrow> node \<Rightarrow> bool \<Rightarrow> RewriteResponse exc" where
  "RewriteZeroExtend G node prerewrite = respond REWRITE_AGAIN (LinearRewriteStrategy [ZeroExtendEliminate G] node)"

definition RewriteSignExtend :: "gmp \<Rightarrow> node \<Rightarrow> bool \<Rightarrow> RewriteResponse exc" where
  "RewriteSignExtend G node prerewrite =
     ebind (LinearRewriteStrategy [MergeSignExtend, EvalSignExtend G] node)
       (\<lambda>resultNode. respond (if resultNode \<noteq> node then REWRITE_AGAIN else REWRITE_DONE) (Inr resultNode))"

definition RewriteRotateRight :: "node \<Rightarrow> bool \<Rightarrow> RewriteResponse exc" where
  "RewriteRotateRight node prerewrite = respond REWRITE_AGAIN_FULL (LinearRewriteStrategy [RotateRightEliminate] node)"

definition RewriteRotateLeft :: "node \<Rightarrow> bool \<Rightarrow> RewriteResponse exc" where
  "RewriteRotateLeft node prerewrite = respond REWRITE_AGAIN_FULL (LinearRewriteStrategy [RotateLeftEliminate] node)"

definition RewriteRedor :: "gmp \<Rightarrow> node \<Rightarrow> bool \<Rightarrow> RewriteResponse exc" where
  "RewriteRedor G node prerewrite = respond REWRITE_AGAIN_FULL (LinearRewriteStrategy [RedorEliminate G] node)"

definition RewriteRedand :: "gmp \<Rightarrow> node \<Rightarrow> bool \<Rightarrow> RewriteResponse exc" where
  "RewriteRedand G node prerewrite = respond REWRITE_AGAIN_FULL (LinearRewriteStrategy [RedandEliminate G] node)"

definition IdentityRewrite :: "node \<Rightarrow> bool \<Rightarrow> RewriteResponse exc" where
  "IdentityRewrite node prerewrite = respond REWRITE_DONE (Inr node)"

definition eliminateBVSDiv :: "gmp \<Rightarrow> bool \<Rightarrow> node \<Rightarrow> node exc" where
  "eliminateBVSDiv G opt node = LinearRewriteStrategy [SremEliminate G opt, SdivEliminate G opt, SmodEliminate G] node"

section \<open>Extraction, bitwise operators, sums, products and equality\<close>

definition RewriteExtract :: "gmp \<Rightarrow> bool \<Rightarrow> node \<Rightarrow> bool \<Rightarrow> RewriteResponse exc" where
  "RewriteExtract G bvExtractArithRewrite node prerewrite =
     (if applies ExtractConcat node then respond REWRITE_AGAIN_FULL (RewriteRule_run False ExtractConcat node)
      else if applies ExtractSignExtend node then respond REWRITE_AGAIN_FULL (RewriteRule_run False ExtractSignExtend node)
      else if applies ExtractNot node then respond REWRITE_AGAIN_FULL (RewriteRule_run False ExtractNot node)
      else if bvExtractArithRewrite \<and> applies ExtractArith node
      then respond REWRITE_AGAIN_FULL (RewriteRule_run False ExtractArith node)
      else
        respond REWRITE_DONE
          (LinearRewriteStrategy [ExtractConstant G, ExtractExtract, ExtractWhole, ExtractMultLeadingBit G] node))"

definition RewriteAnd ::
  "gmp \<Rightarrow> (node \<Rightarrow> node \<Rightarrow> bool) \<Rightarrow> (count_map \<Rightarrow> count_map) \<Rightarrow> node \<Rightarrow> bool \<Rightarrow> RewriteResponse exc" where
  "RewriteAnd G lt iter node prerewrite =
     ebind (LinearRewriteStrategy [FlattenAssocCommutNoDuplicates lt, AndSimplify G lt iter] node) (\<lambda>resultNode.
     if \<not> prerewrite
     then
       ebind (LinearRewriteStrategy [BitwiseSlicing G] resultNode) (\<lambda>resultNode.
       if \<not> hasKind (appKind node) resultNode then respond REWRITE_AGAIN_FULL (Inr resultNode)
       else respond REWRITE_DONE (Inr resultNode))
     else respond REWRITE_DONE (Inr resultNode))"

definition RewriteOr ::
  "gmp \<Rightarrow> (node \<Rightarrow> node \<Rightarrow> bool) \<Rightarrow> (count_map \<Rightarrow> count_map) \<Rightarrow> node \<Rightarrow> bool \<Rightarrow> RewriteResponse exc" where
  "RewriteOr G lt iter node prerewrite =
     ebind (LinearRewriteStrategy [FlattenAssocCommutNoDuplicates lt, OrSimplify G lt iter] node) (\<lambda>resultNode.
     if \<not> prerewrite
     then
       ebind (LinearRewriteStrategy [BitwiseSlicing G] resultNode) (\<lambda>resultNode.
       if \<not> hasKind (appKind node) resultNode then respond REWRITE_AGAIN_FULL (Inr resultNode)
       else respond REWRITE_DONE (Inr resultNode))
     else respond REWRITE_DONE (Inr resultNode))"

definition RewriteXor ::
  "gmp \<Rightarrow> (node \<Rightarrow> node \<Rightarrow> bool) \<Rightarrow> (count_map \<Rightarrow> count_map) \<Rightarrow> node \<Rightarrow> bool \<Rightarrow> RewriteResponse exc" where
  "RewriteXor G lt iter node prerewrite =
     ebind (LinearRewriteStrategy [FlattenAssocCommut lt, XorSimplify G lt iter, XorZero G, BitwiseSlicing G] node) (\<lambda>resultNode.
     if \<not> prerewrite
     then
       ebind (LinearRewriteStrategy [XorOne G, BitwiseSlicing G] resultNode) (\<lambda>resultNode.
       if \<not> hasKind (appKind node) resultNode then respond REWRITE_AGAIN_FULL (Inr resultNode)
       else respond REWRITE_DONE (Inr resultNode))
     else respond REWRITE_DONE (Inr resultNode))"

definition RewriteMult :: "gmp \<Rightarrow> (node \<Rightarrow> node \<Rightarrow> bool) \<Rightarrow> node \<Rightarrow> bool \<Rightarrow> RewriteResponse exc" where
  "RewriteMult G lt node prerewrite =
     ebind (LinearRewriteStrategy [FlattenAssocCommut lt, MultSimplify G lt, MultPow2 G] node) (\<lambda>resultNode.
     ebind (if \<not> prerewrite then LinearRewriteStrategy [MultDistribConst G, MultDistrib] resultNode else Inr resultNode)
       (\<lambda>resultNode.
     respond (if resultNode = node then REWRITE_DONE else REWRITE_AGAIN_FULL) (Inr resultNode)))"

definition RewritePlus :: "gmp \<Rightarrow> (node \<Rightarrow> node \<Rightarrow> bool) \<Rightarrow> node \<Rightarrow> bool \<Rightarrow> RewriteResponse exc" where
  "RewritePlus G lt node prerewrite =
     (if prerewrite then respond REWRITE_DONE (LinearRewriteStrategy [FlattenAssocCommut lt] node)
      else
        ebind (LinearRewriteStrategy [FlattenAssocCommut lt, PlusCombineLikeTerms G lt] node) (\<lambda>resultNode.
        respond (if node \<noteq> resultNode then REWRITE_AGAIN_FULL else REWRITE_DONE) (Inr resultNode)))"

definition RewriteNeg :: "gmp \<Rightarrow> node \<Rightarrow> bool \<Rightarrow> RewriteResponse exc" where
  "RewriteNeg G node prerewrite =
     ebind (LinearRewriteStrategy [EvalNeg G, NegIdemp, NegSub] node) (\<lambda>resultNode.
     if applies NegPlus node then respond REWRITE_AGAIN_FULL (RewriteRule_run False NegPlus node)
     else if \<not> prerewrite \<and> applies (NegMult G) node
     then respond REWRITE_AGAIN_FULL (RewriteRule_run False (NegMult G) node)
     else respond REWRITE_DONE (Inr resultNode))"

definition RewriteEqual :: "gmp \<Rightarrow> (node \<Rightarrow> node \<Rightarrow> bool) \<Rightarrow> node \<Rightarrow> bool \<Rightarrow> RewriteResponse exc" where
  "RewriteEqual G lt node prerewrite =
     (if prerewrite then respond REWRITE_DONE (LinearRewriteStrategy [FailEq, SimplifyEq, ReflexivityEq lt] node)
      else
        ebind (LinearRewriteStrategy [FailEq, SimplifyEq, ReflexivityEq lt] node) (\<lambda>resultNode.
        if applies (SolveEq G lt) resultNode
        then
          ebind (RewriteRule_run False (SolveEq G lt) resultNode) (\<lambda>resultNode.
          respond (if resultNode \<noteq> node then REWRITE_AGAIN_FULL else REWRITE_DONE) (Inr resultNode))
        else respond REWRITE_DONE (Inr resultNode)))"

section \<open>The table\<close>

text \<open>What the rewriter takes from elsewhere: GMP, the order of nodes, the order in which a \<open>hash_map\<close> is
  traversed, and two options.\<close>

record rw_env =
  rw_gmp :: gmp
  rw_less :: "node \<Rightarrow> node \<Rightarrow> bool"
  rw_iter :: "count_map \<Rightarrow> count_map"
  rw_divByZeroConst :: bool
  rw_extractArith :: bool

definition d_rewriteTable :: "rw_env \<Rightarrow> kind \<Rightarrow> node \<Rightarrow> bool \<Rightarrow> RewriteResponse exc" where
  "d_rewriteTable E k =
     (let G = rw_gmp E; lt = rw_less E; iter = rw_iter E; opt = rw_divByZeroConst E
      in case k of
           EQUAL \<Rightarrow> RewriteEqual G lt
         | BITVECTOR_ULT \<Rightarrow> RewriteUlt G
         | BITVECTOR_SLT \<Rightarrow> RewriteSlt G
         | BITVECTOR_ULE \<Rightarrow> RewriteUle G
         | BITVECTOR_SLE \<Rightarrow> RewriteSle G
         | BITVECTOR_UGT \<Rightarrow> RewriteUgt
         | BITVECTOR_SGT \<Rightarrow> RewriteSgt
         | BITVECTOR_UGE \<Rightarrow> RewriteUge
         | BITVECTOR_SGE \<Rightarrow> RewriteSge
         | BITVECTOR_NOT \<Rightarrow> RewriteNot G
         | BITVECTOR_CONCAT \<Rightarrow> RewriteConcat G
         | BITVECTOR_AND \<Rightarrow> RewriteAnd G lt iter
         | BITVECTOR_OR \<Rightarrow> RewriteOr G lt iter
         | BITVECTOR_XOR \<Rightarrow> RewriteXor G lt iter
         | BITVECTOR_XNOR \<Rightarrow> RewriteXnor
         | BITVECTOR_NAND \<Rightarrow> RewriteNand
         | BITVECTOR_NOR \<Rightarrow> RewriteNor
         | BITVECTOR_COMP \<Rightarrow> RewriteComp G
         | BITVECTOR_MULT \<Rightarrow> RewriteMult G lt
         | BITVECTOR_PLUS \<Rightarrow> RewritePlus G lt
         | BITVECTOR_SUB \<Rightarrow> RewriteSub
         | BITVECTOR_NEG \<Rightarrow> RewriteNeg G
         | BITVECTOR_UDIV \<Rightarrow> RewriteUdiv G
         | BITVECTOR_UREM \<Rightarrow> RewriteUrem G
         | BITVECTOR_UDIV_TOTAL \<Rightarrow> RewriteUdivTotal G
         | BITVECTOR_UREM_TOTAL \<Rightarrow> RewriteUremTotal G
         | BITVECTOR_SMOD \<Rightarrow> RewriteSmod G
         | BITVECTOR_SDIV \<Rightarrow> RewriteSdiv G opt
         | BITVECTOR_SREM \<Rightarrow> RewriteSrem G opt
         | BITVECTOR_SHL \<Rightarrow> RewriteShl G
         | BITVECTOR_LSHR \<Rightarrow> RewriteLshr G
         | BITVECTOR_ASHR \<Rightarrow> RewriteAshr G
         | BITVECTOR_EXTRACT high low \<Rightarrow> RewriteExtract G (rw_extractArith E)
         | BITVECTOR_REPEAT r \<Rightarrow> RewriteRepeat
         | BITVECTOR_ZERO_EXTEND r \<Rightarrow> RewriteZeroExtend G
         | BITVECTOR_SIGN_EXTEND r \<Rightarrow> RewriteSignExtend G
         | BITVECTOR_ROTATE_RIGHT r \<Rightarrow> RewriteRotateRight
         | BITVECTOR_ROTATE_LEFT r \<Rightarrow> RewriteRotateLeft
         | BITVECTOR_REDOR \<Rightarrow> RewriteRedor G
         | BITVECTOR_REDAND \<Rightarrow> RewriteRedand G
         | BITVECTOR_ULTBV \<Rightarrow> RewriteUltBv G
         | BITVECTOR_SLTBV \<Rightarrow> RewriteSltBv G
         | BITVECTOR_ITE \<Rightarrow> RewriteITEBv G
         | _ \<Rightarrow> IdentityRewrite)"

text \<open>Variables and constants have kinds whose entry is the identity.\<close>

definition preRewrite :: "rw_env \<Rightarrow> node \<Rightarrow> RewriteResponse exc" where
  "preRewrite E node = (case node of App k ns \<Rightarrow> d_rewriteTable E k node True | _ \<Rightarrow> IdentityRewrite node True)"

definition postRewrite :: "rw_env \<Rightarrow> node \<Rightarrow> RewriteResponse exc" where
  "postRewrite E node = (case node of App k ns \<Rightarrow> d_rewriteTable E k node False | _ \<Rightarrow> IdentityRewrite node False)"

section \<open>Soundness\<close>

definition response_sound :: "bool \<Rightarrow> node \<Rightarrow> RewriteResponse exc \<Rightarrow> bool" where
  "response_sound opt n r \<longleftrightarrow> (\<exists>s m. r = Inr \<lparr>status = s, rnode = m\<rparr> \<and> same_meaning opt m n)"

lemma response_soundI: "sound_result opt n r \<Longrightarrow> response_sound opt n (respond s r)"
  by (auto simp: response_sound_def sound_result_def respond_def)

lemma response_sound_status:
  "sound_result opt n r \<Longrightarrow> response_sound opt n (ebind r (\<lambda>m. respond (s m) (Inr m)))"
  by (auto simp: response_sound_def sound_result_def respond_def)

lemma response_linear:
  "list_all (rule_sound opt) Rs \<Longrightarrow> typeOf n = Some t \<Longrightarrow> response_sound opt n (respond s (LinearRewriteStrategy Rs n))"
  by (rule response_soundI [OF linear_sound])

lemma response_linear_status:
  "list_all (rule_sound opt) Rs \<Longrightarrow> typeOf n = Some t \<Longrightarrow>
    response_sound opt n (ebind (LinearRewriteStrategy Rs n) (\<lambda>m. respond (s m) (Inr m)))"
  by (rule response_sound_status [OF linear_sound])

lemma response_run:
  "rule_sound opt R \<Longrightarrow> typeOf n = Some t \<Longrightarrow> applies R n \<Longrightarrow>
    response_sound opt n (respond s (RewriteRule_run False R n))"
  by (rule response_soundI) (simp add: rule_sound_def RewriteRule_run_def)

definition rewrite_sound :: "bool \<Rightarrow> (node \<Rightarrow> bool \<Rightarrow> RewriteResponse exc) \<Rightarrow> bool" where
  "rewrite_sound opt f \<longleftrightarrow> (\<forall>n t pre. typeOf n = Some t \<longrightarrow> response_sound opt n (f n pre))"

lemma rewrite_soundI: "(\<And>n t pre. typeOf n = Some t \<Longrightarrow> response_sound opt n (f n pre)) \<Longrightarrow> rewrite_sound opt f"
  by (simp add: rewrite_sound_def)

lemma rewrite_linear:
  "list_all (rule_sound opt) Rs \<Longrightarrow> rewrite_sound opt (\<lambda>n pre. respond s (LinearRewriteStrategy Rs n))"
  by (rule rewrite_soundI) (rule response_linear)

lemma rewrite_linear_status:
  "list_all (rule_sound opt) Rs \<Longrightarrow>
    rewrite_sound opt (\<lambda>n pre. ebind (LinearRewriteStrategy Rs n) (\<lambda>m. respond (s n m) (Inr m)))"
  by (rule rewrite_soundI) (rule response_linear_status)

lemma rewrite_run_or_linear:
  "rule_sound opt R \<and> list_all (rule_sound opt) Rs \<Longrightarrow>
    rewrite_sound opt (\<lambda>n pre. if applies R n then respond s (RewriteRule_run False R n)
      else respond s' (LinearRewriteStrategy Rs n))"
  by (rule rewrite_soundI) (auto intro: response_run response_linear)

lemma response_done: "response_sound opt n (respond s (Inr n))"
  by (rule response_soundI) simp

context gmp_documented
begin

lemmas evaluation_sound =
  EvalUlt_sound EvalUltBv_sound EvalSlt_sound EvalSltBv_sound EvalUle_sound EvalSle_sound EvalITEBv_sound EvalNot_sound
  EvalComp_sound EvalShl_sound EvalLshr_sound EvalAshr_sound EvalSignExtend_sound EvalNeg_sound EvalPlus_sound
  EvalMult_sound EvalExtract_sound EvalConcat_sound

lemmas elimination_sound =
  swap_rules_sound not_rules_sound SleEliminate_sound UleEliminate_sound SubEliminate_sound SltEliminate_sound
  CompEliminate_sound SdivEliminate_sound SremEliminate_sound SmodEliminate_sound RedorEliminate_sound
  RedandEliminate_sound ZeroExtendEliminate_sound RepeatEliminate_sound SignExtendEliminate_sound
  RotateLeftEliminate_sound RotateRightEliminate_sound

lemmas simplification_sound =
  LtSelf_sound LteSelf_sound UltSelf_sound UleSelf_sound NotUlt_sound NotUle_sound ZeroUlt_sound UltZero_sound UltOne_sound
  UleZero_sound ZeroUle_sound UleMax_sound SltZero_sound UltPlusOne_sound NotIdemp_sound NegIdemp_sound ShlByConst_sound
  LshrByConst_sound AshrByConst_sound ShiftZero_sound UdivOne_sound UremOne_sound UremSelf_sound UdivPow2_sound
  UremPow2_sound NotXor_sound BBPlusNeg_sound MultSlice_sound MergeSignExtend_sound

lemmas concat_sound =
  ConcatFlatten_sound ConcatExtractMerge_sound ConcatConstantMerge_sound ApplyRuleToChildren_sound ExtractWhole_sound

lemma comparison_rewrites_sound:
  "rewrite_sound opt (RewriteUlt G)" "rewrite_sound opt (RewriteUltBv G)" "rewrite_sound opt (RewriteSlt G)"
  "rewrite_sound opt (RewriteSltBv G)" "rewrite_sound opt (RewriteUle G)" "rewrite_sound opt (RewriteSle G)"
  "rewrite_sound opt RewriteUgt" "rewrite_sound opt RewriteSgt" "rewrite_sound opt RewriteUge" "rewrite_sound opt RewriteSge"
  "rewrite_sound opt (RewriteITEBv G)"
  unfolding RewriteUlt_def [abs_def] RewriteUltBv_def [abs_def] RewriteSlt_def [abs_def] RewriteSltBv_def [abs_def]
    RewriteUle_def [abs_def] RewriteSle_def [abs_def] RewriteUgt_def [abs_def] RewriteSgt_def [abs_def]
    RewriteUge_def [abs_def] RewriteSge_def [abs_def] RewriteITEBv_def [abs_def]
  by (rule rewrite_linear rewrite_linear_status,
      simp add: evaluation_sound simplification_sound elimination_sound)+

lemma operator_rewrites_sound:
  "rewrite_sound opt (RewriteNot G)" "rewrite_sound opt (RewriteConcat G)" "rewrite_sound opt RewriteXnor"
  "rewrite_sound opt RewriteNand" "rewrite_sound opt RewriteNor" "rewrite_sound opt (RewriteComp G)"
  "rewrite_sound opt RewriteSub" "rewrite_sound opt (RewriteSmod G)" "rewrite_sound opt (RewriteSdiv G opt)"
  "rewrite_sound opt (RewriteSrem G opt)" "rewrite_sound opt RewriteRepeat" "rewrite_sound opt (RewriteZeroExtend G)"
  "rewrite_sound opt (RewriteSignExtend G)" "rewrite_sound opt RewriteRotateRight" "rewrite_sound opt RewriteRotateLeft"
  "rewrite_sound opt (RewriteRedor G)" "rewrite_sound opt (RewriteRedand G)"
  unfolding RewriteNot_def [abs_def] RewriteConcat_def [abs_def] RewriteXnor_def [abs_def] RewriteNand_def [abs_def]
    RewriteNor_def [abs_def] RewriteComp_def [abs_def] RewriteSub_def [abs_def] RewriteSmod_def [abs_def]
    RewriteSdiv_def [abs_def] RewriteSrem_def [abs_def] RewriteRepeat_def [abs_def] RewriteZeroExtend_def [abs_def]
    RewriteSignExtend_def [abs_def] RewriteRotateRight_def [abs_def] RewriteRotateLeft_def [abs_def]
    RewriteRedor_def [abs_def] RewriteRedand_def [abs_def]
  by (rule rewrite_linear rewrite_linear_status,
      simp add: evaluation_sound simplification_sound elimination_sound concat_sound)+

lemma shift_rewrites_sound:
  "rewrite_sound opt (RewriteShl G)" "rewrite_sound opt (RewriteLshr G)" "rewrite_sound opt (RewriteAshr G)"
  unfolding RewriteShl_def [abs_def] RewriteLshr_def [abs_def] RewriteAshr_def [abs_def]
  by (rule rewrite_run_or_linear, simp add: evaluation_sound simplification_sound)+

text \<open>Total division: sound unless \<open>UdivSelf\<close> gets to fire.\<close>

lemma linear_conditional:
  assumes "typeOf n = Some t" and "applies R n \<Longrightarrow> sound_result opt n (apply_rule R n)"
    and "\<And>m. same_meaning opt m n \<Longrightarrow> typeOf m = Some t \<Longrightarrow> LinearRewriteStrategy [R] n = Inr m \<Longrightarrow>
      sound_result opt m (LinearRewriteStrategy Rs m)"
  shows "sound_result opt n (LinearRewriteStrategy (R # Rs) n)"
proof (cases "applies R n")
  case True
  with assms(2) obtain m where m: "apply_rule R n = Inr m" "same_meaning opt m n" by (auto simp: sound_result_def)
  with True assms(1) have "sound_result opt m (LinearRewriteStrategy Rs m)"
    by (intro assms(3)) (auto simp: RewriteRule_run_def same_meaning_def)
  with m True show ?thesis by (auto simp: RewriteRule_run_def sound_result_def intro: same_meaning_trans)
next
  case False
  with assms(1) show ?thesis using assms(3) [of n] by simp
qed

lemma RewriteUdivTotal_sound:
  assumes n: "typeOf n = Some t"
    and nz: "hasKind BITVECTOR_UDIV n \<Longrightarrow> opt \<or> d_value (getConst (children n ! 1)) \<noteq> 0"
    and self: "\<And>m. LinearRewriteStrategy [EvalUdiv G, UdivOne G] n = Inr m \<Longrightarrow> \<not> applies (UdivSelf G) m"
  shows "response_sound opt n (RewriteUdivTotal G n pre)"
proof (cases "applies (UdivPow2 G) n")
  case True
  then show ?thesis using response_run [OF UdivPow2_sound n] by (simp add: RewriteUdivTotal_def)
next
  case False
  have "sound_result opt n (LinearRewriteStrategy [EvalUdiv G, UdivOne G, UdivSelf G] n)"
  proof (rule linear_conditional [OF n])
    show "sound_result opt n (apply_rule (EvalUdiv G) n)" if "applies (EvalUdiv G) n" by (rule EvalUdiv_sound [OF n that nz])
    fix m assume m: "typeOf m = Some t" "LinearRewriteStrategy [EvalUdiv G] n = Inr m"
    show "sound_result opt m (LinearRewriteStrategy [UdivOne G, UdivSelf G] m)"
    proof (rule linear_conditional [OF m(1)])
      show "sound_result opt m (apply_rule (UdivOne G) m)" if "applies (UdivOne G) m"
        using UdivOne_sound that m(1) by (auto simp: rule_sound_def)
      fix l assume "LinearRewriteStrategy [UdivOne G] m = Inr l"
      with m(2) have "\<not> applies (UdivSelf G) l" by (intro self) auto
      then show "sound_result opt l (LinearRewriteStrategy [UdivSelf G] l)" by simp
    qed
  qed
  then show ?thesis using False response_soundI by (simp add: RewriteUdivTotal_def)
qed

lemma RewriteUremTotal_sound:
  assumes n: "typeOf n = Some t"
    and nz: "hasKind BITVECTOR_UREM n \<Longrightarrow> opt \<or> d_value (getConst (children n ! 1)) \<noteq> 0"
  shows "response_sound opt n (RewriteUremTotal G n pre)"
proof (cases "applies (UremPow2 G) n")
  case True
  then show ?thesis using response_run [OF UremPow2_sound n] by (simp add: RewriteUremTotal_def)
next
  case False
  have "sound_result opt n (LinearRewriteStrategy [EvalUrem G, UremOne G, UremSelf G] n)"
    by (rule linear_conditional [OF n EvalUrem_sound [OF n _ nz] linear_sound]) (auto simp: simplification_sound)
  then show ?thesis using False response_soundI by (simp add: RewriteUremTotal_def)
qed

lemma RewriteUrem_sound: "rewrite_sound opt (RewriteUrem G)"
  by (rule rewrite_soundI) (auto simp: RewriteUrem_def intro: RewriteUremTotal_sound response_done)

text \<open>The partial division: its rewrite only fires on a constant divisor other than zero, and \<open>UdivSelf\<close>
  never does.\<close>

lemma RewriteUdiv_sound:
  assumes n: "typeOf n = Some t" "hasKind BITVECTOR_UDIV n"
  shows "response_sound opt n (RewriteUdiv G n pre)"
proof (cases "isConst (children n ! 1) \<and> d_value (getConst (children n ! 1)) \<noteq> 0")
  case True
  obtain ns where ns: "n = App BITVECTOR_UDIV ns" using n(2) by (auto simp: hasKind_iff)
  have one: "\<not> applies (UdivOne G) n" "\<not> applies (UdivSelf G) n" by (simp_all add: UdivOne_def UdivSelf_def hasKind_def ns)
  have "\<not> applies (UdivSelf G) m" if "LinearRewriteStrategy [EvalUdiv G, UdivOne G] n = Inr m" for m
  proof (cases "applies (EvalUdiv G) n")
    case True
    then obtain c where c: "apply_rule (EvalUdiv G) n = Inr (CONST_BITVECTOR c)"
      using EvalUdiv_sound [OF n(1) True] \<open>isConst _ \<and> _\<close>
      by (auto simp: sound_result_def EvalUdiv_def eval_binary_def Let_def)
    then show ?thesis using that True by (auto simp: RewriteRule_run_def UdivOne_def UdivSelf_def hasKind_def)
  next
    case False
    then show ?thesis using that one by simp
  qed
  then have "response_sound opt n (RewriteUdivTotal G n pre)" using True by (intro RewriteUdivTotal_sound [OF n(1)]) auto
  then show ?thesis using True by (simp add: RewriteUdiv_def)
qed (auto simp: RewriteUdiv_def response_done)

end

end
