(* ===== verification/Bool_Rewriter.thy ===== *)
theory Bool_Rewriter
  imports BV_Rewriter
begin

text \<open>
  The rewriter of the Boolean theory (\<open>src/src/theory/booleans/theory_bool_rewriter.cpp\<close>): flattening of conjunctions and
  disjunctions, and the simplifications of each connective, in the order the code tries them. A response keeps the type and
  the value of the node. The rewriter is called on the nodes the Boolean theory owns; an equality is among them when it is
  between Booleans. \<open>Assert\<close> is no branch, and \<open>getConst<bool>\<close> of a constant that is no Boolean is an error.
\<close>

section \<open>Flattening\<close>

definition MAX_CHILDREN :: nat where
  "MAX_CHILDREN = 2 ^ 26 - 1"

text \<open>The children of one node: \<open>None\<close> when the trivial node is found, otherwise the visited nodes, the queue and the
  collected children.\<close>

fun flattenNode_scan :: "kind \<Rightarrow> node \<Rightarrow> node list \<Rightarrow> node set \<times> node list \<times> node list \<Rightarrow> (node set \<times> node list \<times> node list) option" where
  "flattenNode_scan k trivialNode [] s = Some s"
| "flattenNode_scan k trivialNode (c # cs) (visited, toProcess, childList) =
     (if c \<in> visited then flattenNode_scan k trivialNode cs (visited, toProcess, childList)
      else if c = trivialNode then None
      else if hasKind k c then flattenNode_scan k trivialNode cs (insert c visited, toProcess @ [c], childList)
      else flattenNode_scan k trivialNode cs (insert c visited, toProcess, childList @ [c]))"

lemma flattenNode_scan_size:
  "flattenNode_scan k tr cs (V, q, cl) = Some (V', q', cl') \<Longrightarrow> size_list size q' \<le> size_list size q + size_list size cs"
  by (induction k tr cs "(V, q, cl)" arbitrary: V q cl rule: flattenNode_scan.induct) (fastforce split: if_splits)+

function flattenNode_loop :: "kind \<Rightarrow> node \<Rightarrow> node set \<Rightarrow> node list \<Rightarrow> node list \<Rightarrow> node list option" where
  "flattenNode_loop k trivialNode visited [] childList = Some childList"
| "flattenNode_loop k trivialNode visited (current # toProcess) childList =
     (case flattenNode_scan k trivialNode (children current) (visited, toProcess, childList) of
        None \<Rightarrow> None
      | Some (visited, toProcess, childList) \<Rightarrow> flattenNode_loop k trivialNode visited toProcess childList)"
  by pat_completeness auto

termination
proof (relation "measure (\<lambda>(k, tr, V, q, cl). size_list size q)")
  fix k tr V and current :: node and q cl V' q' cl' y x
  assume "flattenNode_scan k tr (children current) (V, q, cl) = Some x" "(V', y) = x" "(q', cl') = y"
  then have "flattenNode_scan k tr (children current) (V, q, cl) = Some (V', q', cl')" by simp
  from flattenNode_scan_size [OF this] have "size_list size q' \<le> size_list size q + size_list size (children current)" .
  then show "((k, tr, V', q', cl'), k, tr, V, current # q, cl) \<in> measure (\<lambda>(k, tr, V, q, cl). size_list size q)"
    by (cases current) auto
qed simp

fun chunks :: "nat \<Rightarrow> 'a list \<Rightarrow> 'a list list" where
  "chunks m xs = (if xs = [] \<or> m = 0 then [] else take m xs # chunks m (drop m xs))"

declare chunks.simps [simp del]

definition flattenNode :: "kind \<Rightarrow> node \<Rightarrow> node \<Rightarrow> node \<Rightarrow> RewriteResponse" where
  "flattenNode k n trivialNode skipNode =
     (case flattenNode_loop k trivialNode {skipNode} [n] [] of
        None \<Rightarrow> \<lparr>status = REWRITE_DONE, rnode = trivialNode\<rparr>
      | Some childList \<Rightarrow>
          if length childList = 0 then \<lparr>status = REWRITE_DONE, rnode = skipNode\<rparr>
          else if length childList = 1 then \<lparr>status = REWRITE_AGAIN, rnode = childList ! 0\<rparr>
          else if length childList < MAX_CHILDREN then \<lparr>status = REWRITE_DONE, rnode = App k childList\<rparr>
          else \<lparr>status = REWRITE_DONE, rnode = App k (map (App k) (chunks MAX_CHILDREN childList))\<rparr>)"

section \<open>Helper functions\<close>

definition equalityParity :: "node \<Rightarrow> node \<Rightarrow> nat" where
  "equalityParity a b =
     (if a = b then 1
      else if hasKind NOT a \<and> children a ! 0 = b then 2
      else if hasKind NOT b \<and> children b ! 0 = a then 3
      else 0)"

fun strip_negations :: "node \<Rightarrow> bool \<Rightarrow> node \<times> bool" where
  "strip_negations (App NOT (n # ns)) evn = strip_negations n (\<not> evn)"
| "strip_negations n evn = (n, evn)"

definition makeNegation :: "node \<Rightarrow> node exc" where
  "makeNegation n =
     (case strip_negations n False of (n, evn) \<Rightarrow>
        if evn then Inr n
        else if isConst n then (case n of CONST_BOOLEAN b \<Rightarrow> Inr (CONST_BOOLEAN (\<not> b)) | _ \<Rightarrow> Inl AssertionException)
        else Inr (App NOT [n]))"

text \<open>\<open>getCardinality().knownLessThanOrEqual(2)\<close> of a type.\<close>

definition atMostTwoValues :: "typeNode \<Rightarrow> bool exc" where
  "atMostTwoValues t =
     (case t of
        BOOLEAN_TYPE \<Rightarrow> Inr True
      | BITVECTOR_TYPE w \<Rightarrow> Inr (w = 0 \<or> (2::nat) ^ w \<le> 2)
      | NULL_TYPE \<Rightarrow> Inl AssertionException)"

abbreviation (input) tt :: node where "tt \<equiv> CONST_BOOLEAN True"

abbreviation (input) ff :: node where "ff \<equiv> CONST_BOOLEAN False"

abbreviation (input) finish :: "node \<Rightarrow> RewriteResponse exc" where "finish n \<equiv> respond REWRITE_DONE (Inr n)"

abbreviation (input) again :: "node \<Rightarrow> RewriteResponse exc" where "again n \<equiv> respond REWRITE_AGAIN (Inr n)"

section \<open>The cases of preRewrite\<close>

definition boolRewrite_NOT :: "node \<Rightarrow> RewriteResponse exc" where
  "boolRewrite_NOT n =
     (let n0 = children n ! 0
      in if n0 = tt then finish ff
         else if n0 = ff then finish tt
         else if hasKind NOT n0 then again (children n0 ! 0)
         else finish n)"

definition boolRewrite_OR :: "node \<Rightarrow> RewriteResponse exc" where
  "boolRewrite_OR n =
     (if tt \<in> set (children n) then finish tt
      else if list_ex (\<lambda>i. i = ff \<or> hasKind OR i) (children n) then Inr (flattenNode OR n tt ff)
      else finish n)"

definition boolRewrite_AND :: "node \<Rightarrow> RewriteResponse exc" where
  "boolRewrite_AND n =
     (if ff \<in> set (children n) then finish ff
      else if list_ex (\<lambda>i. i = tt \<or> hasKind AND i) (children n) then Inr (flattenNode AND n ff tt)
      else finish n)"

definition boolRewrite_IMPLIES :: "node \<Rightarrow> RewriteResponse exc" where
  "boolRewrite_IMPLIES n =
     (let n0 = children n ! 0; n1 = children n ! 1
      in if n0 = ff \<or> n1 = tt then finish tt
         else if n0 = tt \<and> n1 = ff then finish ff
         else if n0 = tt then again n1
         else if n1 = ff then respond REWRITE_AGAIN (makeNegation n0)
         else finish n)"

text \<open>The constant side and the other side of an equality.\<close>

definition constantSide :: "node \<Rightarrow> (node \<times> node) option" where
  "constantSide e =
     (if isConst (children e ! 0) then Some (children e ! 0, children e ! 1)
      else if isConst (children e ! 1) then Some (children e ! 1, children e ! 0)
      else None)"

definition constantAgainst :: "node \<Rightarrow> node \<Rightarrow> node option" where
  "constantAgainst t e =
     (if children e ! 0 = t \<and> isConst (children e ! 1) then Some (children e ! 1)
      else if children e ! 1 = t \<and> isConst (children e ! 0) then Some (children e ! 0)
      else None)"

definition boolRewrite_equalities :: "node \<Rightarrow> RewriteResponse exc" where
  "boolRewrite_equalities n =
     (let n0 = children n ! 0; n1 = children n ! 1
      in case constantSide n0 of
           None \<Rightarrow> finish n
         | Some (c, t) \<Rightarrow>
             (case constantAgainst t n1 of
                None \<Rightarrow> finish n
              | Some d \<Rightarrow>
                  if d = c then finish tt
                  else ebind (getType False t) (\<lambda>ty. ebind (atMostTwoValues ty) (\<lambda>small.
                       if small then finish ff
                       else ebind (makeNegation n0) (\<lambda>a. ebind (makeNegation n1) (\<lambda>b. again (App AND [a, b])))))))"

definition boolRewrite_EQUAL :: "node \<Rightarrow> RewriteResponse exc" where
  "boolRewrite_EQUAL n =
     (let n0 = children n ! 0; n1 = children n ! 1
      in if n0 = tt then again n1
         else if n1 = tt then again n0
         else if n0 = ff then respond REWRITE_AGAIN (makeNegation n1)
         else if n1 = ff then respond REWRITE_AGAIN (makeNegation n0)
         else if n0 = n1 then finish tt
         else if hasKind NOT n0 \<and> children n0 ! 0 = n1 then finish ff
         else if hasKind NOT n1 \<and> children n1 ! 0 = n0 then finish ff
         else if hasKind EQUAL n0 \<and> hasKind EQUAL n1 then boolRewrite_equalities n
         else finish n)"

definition boolRewrite_XOR :: "node \<Rightarrow> RewriteResponse exc" where
  "boolRewrite_XOR n =
     (let n0 = children n ! 0; n1 = children n ! 1
      in if n0 = tt then respond REWRITE_AGAIN (makeNegation n1)
         else if n1 = tt then respond REWRITE_AGAIN (makeNegation n0)
         else if n0 = ff then again n1
         else if n1 = ff then again n0
         else if n0 = n1 then finish ff
         else if hasKind NOT n0 \<and> children n0 ! 0 = n1 then finish tt
         else if hasKind NOT n1 \<and> children n1 ! 0 = n0 then finish tt
         else finish n)"

definition boolRewrite_ITE_parity :: "node \<Rightarrow> RewriteResponse exc" where
  "boolRewrite_ITE_parity n =
     (let n0 = children n ! 0; n1 = children n ! 1; n2 = children n ! 2
      in if equalityParity n1 n2 \<noteq> 0 then
           again (if equalityParity n1 n2 = 1 then n1 else App EQUAL [n0, n1])
         else if \<not> isConst n1 \<and> equalityParity n0 n1 \<noteq> 0 then
           again (App ITE [n0, if equalityParity n0 n1 = 1 then tt else ff, n2])
         else if \<not> isConst n2 \<and> equalityParity n0 n2 \<noteq> 0 then
           again (App ITE [n0, n1, if equalityParity n0 n2 = 1 then ff else tt])
         else if hasKind ITE n1 \<and> equalityParity n0 (children n1 ! 0) \<noteq> 0 then
           again (App ITE [n0, if equalityParity n0 (children n1 ! 0) = 1 then children n1 ! 1 else children n1 ! 2, n2])
         else if hasKind ITE n2 \<and> equalityParity n0 (children n2 ! 0) \<noteq> 0 then
           again (App ITE [n0, n1, if equalityParity n0 (children n2 ! 0) = 1 then children n2 ! 2 else children n2 ! 1])
         else finish n)"

definition boolRewrite_ITE :: "node \<Rightarrow> RewriteResponse exc" where
  "boolRewrite_ITE n =
     (let n0 = children n ! 0; n1 = children n ! 1; n2 = children n ! 2
      in if isConst n0 then (if n0 = tt then again n1 else again n2)
         else if isConst n1 \<and> n1 = tt \<and> n2 = ff then again n0
         else if isConst n1 \<and> n1 = ff \<and> n2 = tt then respond REWRITE_AGAIN (makeNegation n0)
         else boolRewrite_ITE_parity n)"

definition TheoryBoolRewriter_preRewrite :: "node \<Rightarrow> RewriteResponse exc" where
  "TheoryBoolRewriter_preRewrite n =
     (case n of
        App NOT ns \<Rightarrow> boolRewrite_NOT n
      | App OR ns \<Rightarrow> boolRewrite_OR n
      | App AND ns \<Rightarrow> boolRewrite_AND n
      | App IMPLIES ns \<Rightarrow> boolRewrite_IMPLIES n
      | App EQUAL ns \<Rightarrow> boolRewrite_EQUAL n
      | App XOR ns \<Rightarrow> boolRewrite_XOR n
      | App ITE ns \<Rightarrow> boolRewrite_ITE n
      | _ \<Rightarrow> finish n)"

definition TheoryBoolRewriter_postRewrite :: "node \<Rightarrow> RewriteResponse exc" where
  "TheoryBoolRewriter_postRewrite node = TheoryBoolRewriter_preRewrite node"

section \<open>Soundness\<close>

lemma Boolean_value: "typeOf n = Some BOOLEAN_TYPE \<Longrightarrow> wf_interp I \<Longrightarrow> eval I n = VBool (v_bool (eval I n))"
  using eval_has_type [of n BOOLEAN_TYPE I] by auto

lemma respond_sound:
  assumes "typeOf n = Some t" and "typeOf m = Some t" and "\<And>I. wf_interp I \<Longrightarrow> eval I m = eval I n"
  shows "response_sound opt n (respond s (Inr m))"
  using assms by (auto simp: response_sound_def respond_def same_meaning_def)

lemma response_if:
  "(P \<Longrightarrow> response_sound opt n x) \<Longrightarrow> (\<not> P \<Longrightarrow> response_sound opt n y) \<Longrightarrow> response_sound opt n (if P then x else y)"
  by simp

lemma respond_same: "response_sound opt n (respond s (Inr n))"
  by (auto simp: response_sound_def respond_def)

text \<open>A Boolean node may be replaced by a Boolean node with the same truth value.\<close>

lemma respond_Boolean:
  assumes "typeOf n = Some BOOLEAN_TYPE" and "typeOf m = Some BOOLEAN_TYPE"
    and "\<And>I. wf_interp I \<Longrightarrow> v_bool (eval I m) = v_bool (eval I n)"
  shows "response_sound opt n (respond s (Inr m))"
proof (rule respond_sound [OF assms(1,2)])
  fix I assume I: "wf_interp I"
  show "eval I m = eval I n"
    using assms(3) [OF I] Boolean_value [OF assms(1) I] Boolean_value [OF assms(2) I] by simp
qed

lemma strip_negations_meaning:
  assumes "strip_negations n e = (m, e')" and "typeOf n = Some BOOLEAN_TYPE"
  shows "typeOf m = Some BOOLEAN_TYPE" and "wf_interp I \<Longrightarrow> (v_bool (eval I m) \<noteq> e') = (v_bool (eval I n) \<noteq> e)"
  using assms
  by (induction n e rule: strip_negations.induct) (auto simp: typeOf_App_iff type_op_iffs list_all2_Cons1 length_Suc_conv)

lemma makeNegation_meaning:
  assumes "typeOf n = Some BOOLEAN_TYPE"
  obtains m where "makeNegation n = Inr m" and "typeOf m = Some BOOLEAN_TYPE"
    and "\<And>I. wf_interp I \<Longrightarrow> v_bool (eval I m) = (\<not> v_bool (eval I n))"
proof -
  obtain m e where m: "strip_negations n False = (m, e)" by fastforce
  note strip = strip_negations_meaning [OF m assms]
  show thesis
  proof (cases "e \<or> \<not> isConst m")
    case True
    then show thesis using that [of m] that [of "App NOT [m]"] strip m
      by (cases e) (auto simp: makeNegation_def typeOf_short type_op_iffs)
  next
    case False
    then obtain b where "m = CONST_BOOLEAN b" using strip(1) by (auto simp: isConst_def mk_bvtype_def split: node.splits if_splits)
    with False strip(2) m show thesis using that [of "CONST_BOOLEAN (\<not> b)"] by (auto simp: makeNegation_def isConst_def)
  qed
qed

lemma respond_negation:
  assumes "typeOf n = Some BOOLEAN_TYPE" and "typeOf m = Some BOOLEAN_TYPE"
    and "\<And>I. wf_interp I \<Longrightarrow> v_bool (eval I n) = (\<not> v_bool (eval I m))"
  shows "response_sound opt n (respond s (makeNegation m))"
  using makeNegation_meaning [OF assms(2)] respond_Boolean [OF assms(1)] assms(3) by metis

subsection \<open>Flattening\<close>

text \<open>\<open>T\<close> stands for truth under a conjunction and for falsity under a disjunction.\<close>

definition flattens :: "kind \<Rightarrow> (node \<Rightarrow> bool) \<Rightarrow> bool" where
  "flattens k T \<longleftrightarrow> (\<forall>cs. T (App k cs) = (\<forall>c\<in>set cs. T c))"

lemma flattens_connectives: "flattens AND (\<lambda>n. v_bool (eval I n))" "flattens OR (\<lambda>n. \<not> v_bool (eval I n))"
  by (auto simp: flattens_def list_all_iff list_ex_iff)

lemma flattens_children: "flattens k T \<Longrightarrow> hasKind k n \<Longrightarrow> T n \<longleftrightarrow> (\<forall>c\<in>set (children n). T c)"
  by (cases n) (simp_all add: hasKind_def flattens_def)

lemma flattenNode_scan_None: "flattenNode_scan k tr cs s = None \<Longrightarrow> tr \<in> set cs"
  by (induction k tr cs s rule: flattenNode_scan.induct) (auto split: if_splits)

lemma flattenNode_scan_Some:
  assumes "flattenNode_scan k tr cs (V, q, cl) = Some (V', q', cl')"
  shows "V' = V \<union> set cs \<and> (\<exists>ps qs. q' = q @ ps \<and> cl' = cl @ qs \<and> set ps \<union> set qs = set cs - V \<and> (\<forall>c\<in>set ps. hasKind k c))"
  using assms
proof (induction k tr cs "(V, q, cl)" arbitrary: V q cl rule: flattenNode_scan.induct)
  case (2 k tr c cs V q cl)
  note ih = 2(1-3) and prem = 2(4)
  consider "c \<in> V" | "c \<notin> V" "c \<noteq> tr" "hasKind k c" | "c \<notin> V" "c \<noteq> tr" "\<not> hasKind k c" using prem by (auto split: if_splits)
  then show ?case
  proof cases
    case 1
    with ih(1) [OF 1] prem show ?thesis by auto
  next
    case 2
    with ih(2) [OF 2] prem
    obtain ps qs where "V' = insert c V \<union> set cs" "q' = (q @ [c]) @ ps" "cl' = cl @ qs" "set ps \<union> set qs = set cs - insert c V" "\<forall>c\<in>set ps. hasKind k c"
      by auto
    with 2 show ?thesis by (intro conjI exI [of _ "c # ps"] exI [of _ qs]) auto
  next
    case 3
    with ih(3) [OF 3] prem
    obtain ps qs where "V' = insert c V \<union> set cs" "q' = q @ ps" "cl' = (cl @ [c]) @ qs" "set ps \<union> set qs = set cs - insert c V" "\<forall>c\<in>set ps. hasKind k c"
      by auto
    with 3 show ?thesis by (intro conjI exI [of _ ps] exI [of _ "c # qs"]) auto
  qed
qed auto

text \<open>What has been visited at the end is among the collected children or is flattened itself.\<close>

lemma flattenNode_loop_closed:
  assumes "flattenNode_loop k tr V q cl = Some cl'"
  shows "set cl \<subseteq> set cl' \<and> (\<exists>D. V \<subseteq> D \<and> (\<forall>n\<in>set q. set (children n) \<subseteq> D) \<and>
    (\<forall>d\<in>D - V. d \<in> set cl' \<or> hasKind k d \<and> set (children d) \<subseteq> D))"
  using assms
proof (induction k tr V q cl rule: flattenNode_loop.induct)
  case (2 k tr V n q cl)
  then obtain V1 q1 cl1 where scan: "flattenNode_scan k tr (children n) (V, q, cl) = Some (V1, q1, cl1)"
    and loop: "flattenNode_loop k tr V1 q1 cl1 = Some cl'" by (auto split: option.splits)
  from flattenNode_scan_Some [OF scan] obtain ps qs where s: "V1 = V \<union> set (children n)" "q1 = q @ ps" "cl1 = cl @ qs"
    "set ps \<union> set qs = set (children n) - V" "\<forall>c\<in>set ps. hasKind k c" by blast
  from 2(1) [OF scan refl refl loop] obtain D where D: "set cl1 \<subseteq> set cl'" "V1 \<subseteq> D" "\<forall>n\<in>set q1. set (children n) \<subseteq> D"
    "\<forall>d\<in>D - V1. d \<in> set cl' \<or> hasKind k d \<and> set (children d) \<subseteq> D" by blast
  have "d \<in> set cl' \<or> hasKind k d \<and> set (children d) \<subseteq> D" if d: "d \<in> D - V" for d
  proof (cases "d \<in> V1")
    case True
    then have "d \<in> set ps \<union> set qs" using d s(1,4) by blast
    then show ?thesis using D(1,3) s(2,3,5) by auto
  next
    case False
    then show ?thesis using D(4) d by blast
  qed
  moreover have "set cl \<subseteq> set cl'" "V \<subseteq> D" "\<forall>m\<in>set (n # q). set (children m) \<subseteq> D" using D(1-3) s(1-3) by auto
  ultimately show ?case by blast
qed auto

lemma flattenNode_loop_implied:
  assumes T: "flattens k T" "\<not> T tr" and "\<forall>c\<in>set q. hasKind k c \<and> T c" and "\<forall>c\<in>set cl. T c"
  shows "\<exists>cl'. flattenNode_loop k tr V q cl = Some cl' \<and> (\<forall>c\<in>set cl'. T c)"
  using assms
proof (induction k tr V q cl rule: flattenNode_loop.induct)
  case (2 k tr V n q cl)
  have "hasKind k n" "T n" using 2(4) by simp_all
  then have cs: "\<forall>c\<in>set (children n). T c" using flattens_children [OF 2(2)] by blast
  then have "flattenNode_scan k tr (children n) (V, q, cl) \<noteq> None" using flattenNode_scan_None 2(3) by blast
  then obtain V1 q1 cl1 where scan: "flattenNode_scan k tr (children n) (V, q, cl) = Some (V1, q1, cl1)" by auto
  from flattenNode_scan_Some [OF this] obtain ps qs where "q1 = q @ ps" "cl1 = cl @ qs"
    "set ps \<union> set qs = set (children n) - V" "\<forall>c\<in>set ps. hasKind k c" by blast
  then have "\<forall>c\<in>set q1. hasKind k c \<and> T c" "\<forall>c\<in>set cl1. T c" using cs 2(4,5) by auto
  from 2(1) [OF scan refl refl 2(2,3) this] show ?case by (simp add: scan)
qed auto

lemma closed_holds:
  assumes T: "flattens k T" and D: "\<forall>d\<in>D. T d \<or> hasKind k d \<and> set (children d) \<subseteq> D"
  shows "d \<in> D \<Longrightarrow> T d"
proof (induction d rule: measure_induct_rule [where f = size])
  case (less d)
  show ?case
  proof (cases "T d")
    case False
    then have d: "hasKind k d" "set (children d) \<subseteq> D" using D less.prems by blast+
    have "size c < size d" if "c \<in> set (children d)" for c
      using that size_list_estimation' [OF that order_refl, of size] by (cases d) auto
    then show ?thesis using less.IH d(2) flattens_children [OF T d(1)] by blast
  qed simp
qed

lemma flattenNode_loop_meaning:
  assumes T: "flattens k T" "\<not> T tr" "T sk" and n: "hasKind k n"
  shows "case flattenNode_loop k tr {sk} [n] [] of None \<Rightarrow> \<not> T n | Some cl \<Rightarrow> T n = (\<forall>c\<in>set cl. T c)"
proof (cases "flattenNode_loop k tr {sk} [n] []")
  case None
  then show ?thesis using flattenNode_loop_implied [OF T(1,2), of "[n]" "[]" "{sk}"] n by auto
next
  case (Some cl)
  from flattenNode_loop_closed [OF this] obtain D where D: "set (children n) \<subseteq> D"
    "\<forall>d\<in>D - {sk}. d \<in> set cl \<or> hasKind k d \<and> set (children d) \<subseteq> D" by auto
  have "T n" if "\<forall>c\<in>set cl. T c"
  proof -
    have "\<forall>d\<in>D. T d \<or> hasKind k d \<and> set (children d) \<subseteq> D" using D(2) that T(3) by blast
    from closed_holds [OF T(1) this] have "\<forall>c\<in>set (children n). T c" using D(1) by blast
    then show ?thesis using flattens_children [OF T(1) n] by blast
  qed
  moreover have "\<forall>c\<in>set cl. T c" if "T n" using flattenNode_loop_implied [OF T(1,2), of "[n]" "[]" "{sk}"] n that Some by auto
  ultimately have "T n = (\<forall>c\<in>set cl. T c)" by blast
  then show ?thesis by (simp only: Some option.case)
qed

lemma flattenNode_scan_total:
  "flattenNode_scan k tr cs (V, q, cl) = Some (V', q', cl') \<Longrightarrow>
    size_list size q' + size_list size cl' \<le> size_list size q + size_list size cl + size_list size cs"
  by (induction k tr cs "(V, q, cl)" arbitrary: V q cl rule: flattenNode_scan.induct) (fastforce split: if_splits)+

lemma flattenNode_loop_all:
  assumes "\<And>cs. P (App k cs) \<Longrightarrow> \<forall>c\<in>set cs. P c" and "\<forall>c\<in>set q. hasKind k c \<and> P c" and "\<forall>c\<in>set cl. P c"
    and "flattenNode_loop k tr V q cl = Some cl'"
  shows "(\<forall>c\<in>set cl'. P c) \<and> size_list size cl' \<le> size_list size q + size_list size cl"
  using assms
proof (induction k tr V q cl rule: flattenNode_loop.induct)
  case (2 k tr V n q cl)
  then obtain V1 q1 cl1 where scan: "flattenNode_scan k tr (children n) (V, q, cl) = Some (V1, q1, cl1)"
    and loop: "flattenNode_loop k tr V1 q1 cl1 = Some cl'" by (auto split: option.splits)
  from flattenNode_scan_Some [OF scan] obtain ps qs where s: "q1 = q @ ps" "cl1 = cl @ qs"
    "set ps \<union> set qs = set (children n) - V" "\<forall>c\<in>set ps. hasKind k c" by blast
  have "\<forall>c\<in>set (children n). P c" using 2(2,3) by (auto simp: hasKind_iff)
  then have "\<forall>c\<in>set q1. hasKind k c \<and> P c" "\<forall>c\<in>set cl1. P c" using s 2(3,4) by auto
  from 2(1) [OF scan refl refl 2(2) this loop]
  have "(\<forall>c\<in>set cl'. P c)" "size_list size cl' \<le> size_list size q1 + size_list size cl1" by auto
  moreover have "size_list size q1 + size_list size cl1 \<le> size_list size (n # q) + size_list size cl"
    using flattenNode_scan_total [OF scan] by (cases n) simp_all
  ultimately show ?case by simp
qed auto

lemma type_bool_app: "k \<in> {AND, OR} \<Longrightarrow> typeOf (App k cs) = Some t \<longleftrightarrow>
    t = BOOLEAN_TYPE \<and> 2 \<le> length cs \<and> (\<forall>c\<in>set cs. typeOf c = Some BOOLEAN_TYPE)"
proof -
  assume k: "k \<in> {AND, OR}"
  have "typeOf (App k cs) = Some t \<longleftrightarrow> (\<exists>ts. list_all2 (\<lambda>n u. typeOf n = Some u) cs ts \<and>
      t = BOOLEAN_TYPE \<and> 2 \<le> length ts \<and> list_all ((=) BOOLEAN_TYPE) ts)"
    unfolding typeOf_App_iff using k by (auto simp: type_op_def type_bools_def split: if_splits)
  also have "\<dots> \<longleftrightarrow> t = BOOLEAN_TYPE \<and> 2 \<le> length cs \<and> (\<forall>c\<in>set cs. typeOf c = Some BOOLEAN_TYPE)"
  proof
    assume "t = BOOLEAN_TYPE \<and> 2 \<le> length cs \<and> (\<forall>c\<in>set cs. typeOf c = Some BOOLEAN_TYPE)"
    then show "\<exists>ts. list_all2 (\<lambda>n u. typeOf n = Some u) cs ts \<and> t = BOOLEAN_TYPE \<and> 2 \<le> length ts \<and> list_all ((=) BOOLEAN_TYPE) ts"
      by (intro exI [of _ "replicate (length cs) BOOLEAN_TYPE"]) (auto simp: list_all2_conv_all_nth list_all_iff)
  qed (auto simp: list_all2_conv_all_nth list_all_length in_set_conv_nth)
  finally show ?thesis .
qed

lemma flattenNode_sound:
  assumes k: "k \<in> {AND, OR}" and n: "typeOf n = Some BOOLEAN_TYPE" "hasKind k n" "size n + 1 < MAX_CHILDREN"
    and bools: "tr = CONST_BOOLEAN (k = OR)" "sk = CONST_BOOLEAN (k = AND)"
  shows "response_sound opt n (Inr (flattenNode k n tr sk))"
proof -
  let ?T = "\<lambda>I m. v_bool (eval I m) = (k = AND)"
  have T: "flattens k (?T I)" "\<not> ?T I tr" "?T I sk" for I
    using k bools flattens_connectives [of I] by auto
  have replace: "response_sound opt n (Inr \<lparr>status = s, rnode = m\<rparr>)"
    if "typeOf m = Some BOOLEAN_TYPE" "\<And>I. ?T I m = ?T I n" for m s
  proof -
    have "v_bool (eval I m) = v_bool (eval I n)" for I using that(2) [of I] by (cases "k = AND") auto
    with respond_Boolean [OF n(1) that(1), of opt s] show ?thesis by (simp add: respond_def)
  qed
  show ?thesis
  proof (cases "flattenNode_loop k tr {sk} [n] []")
    case None
    then have "\<not> ?T I n" for I using flattenNode_loop_meaning [OF T(1,2,3) n(2), of I] by simp
    then show ?thesis unfolding flattenNode_def None option.case using T(2) bools(1) by (intro replace) simp_all
  next
    case (Some cl)
    then have meaning: "?T I n = (\<forall>c\<in>set cl. ?T I c)" for I using flattenNode_loop_meaning [OF T(1,2,3) n(2), of I] by simp
    have all: "(\<forall>c\<in>set cl. typeOf c = Some BOOLEAN_TYPE) \<and> size_list size cl \<le> size_list size [n] + size_list size ([] :: node list)"
      by (rule flattenNode_loop_all [OF _ _ _ Some]) (use n k type_bool_app in auto)
    have "length cl \<le> size_list size cl" by (induction cl) auto
    then have len: "length cl < MAX_CHILDREN" using all n(3) by simp
    consider "cl = []" | c where "cl = [c]" | "2 \<le> length cl" by (cases cl; cases "tl cl") auto
    then show ?thesis
    proof cases
      case 1
      then have "flattenNode k n tr sk = \<lparr>status = REWRITE_DONE, rnode = sk\<rparr>" unfolding flattenNode_def Some option.case by simp
      then show ?thesis using 1 meaning T(3) bools(2) by (simp only:) (intro replace, simp_all)
    next
      case 2
      then have "flattenNode k n tr sk = \<lparr>status = REWRITE_AGAIN, rnode = c\<rparr>" unfolding flattenNode_def Some option.case by simp
      then show ?thesis using 2 meaning all by (simp only:) (intro replace, simp_all)
    next
      case 3
      have "?T I (App k cl) = ?T I n" for I using T(1) [of I] meaning [of I] by (simp add: flattens_def)
      moreover have "typeOf (App k cl) = Some BOOLEAN_TYPE" using 3 all k by (simp add: type_bool_app)
      moreover have "flattenNode k n tr sk = \<lparr>status = REWRITE_DONE, rnode = App k cl\<rparr>" unfolding flattenNode_def Some option.case using 3 len by auto
      ultimately show ?thesis by (simp only:) (rule replace)
    qed
  qed
qed

subsection \<open>The connectives\<close>

lemma typed_shape:
  "typeOf (App NOT ns) = Some t \<Longrightarrow> \<exists>a. ns = [a] \<and> typeOf a = Some BOOLEAN_TYPE \<and> t = BOOLEAN_TYPE"
  "k \<in> {IMPLIES, XOR} \<Longrightarrow> typeOf (App k ns) = Some t \<Longrightarrow>
    \<exists>a b. ns = [a, b] \<and> typeOf a = Some BOOLEAN_TYPE \<and> typeOf b = Some BOOLEAN_TYPE \<and> t = BOOLEAN_TYPE"
  "typeOf (App EQUAL ns) = Some t \<Longrightarrow>
    \<exists>a b u. ns = [a, b] \<and> typeOf a = Some u \<and> typeOf b = Some u \<and> valid_type u \<and> t = BOOLEAN_TYPE"
  "typeOf (App ITE ns) = Some t \<Longrightarrow>
    \<exists>c a b. ns = [c, a, b] \<and> typeOf c = Some BOOLEAN_TYPE \<and> typeOf a = Some t \<and> typeOf b = Some t \<and> valid_type t"
  unfolding typeOf_App_iff by (auto simp: type_op_iffs type_op_mixed list_all2_Cons2 length_Suc_conv numeral_2_eq_2)

lemma hasKind_NOT: "typeOf n = Some t \<Longrightarrow> hasKind NOT n \<Longrightarrow> \<exists>a. n = App NOT [a] \<and> typeOf a = Some BOOLEAN_TYPE"
  using typed_shape(1) by (fastforce simp: hasKind_iff)

lemma negation_of: "typeOf n = Some t \<Longrightarrow> hasKind NOT n \<and> children n ! 0 = m \<longleftrightarrow> n = App NOT [m]"
  using hasKind_NOT [of n t] by (auto simp: hasKind_def)

lemma equalityParity_meaning:
  assumes "typeOf a = Some t" and "typeOf b = Some u"
  shows "equalityParity a b = 1 \<longleftrightarrow> a = b"
    and "equalityParity a b \<noteq> 0 \<Longrightarrow> equalityParity a b \<noteq> 1 \<Longrightarrow> a = App NOT [b] \<or> b = App NOT [a]"
  using negation_of [OF assms(1), of b] negation_of [OF assms(2), of a] by (auto simp: equalityParity_def split: if_splits)

lemma boolRewrite_NOT_sound: "typeOf (App NOT ns) = Some t \<Longrightarrow> response_sound opt (App NOT ns) (boolRewrite_NOT (App NOT ns))"
proof -
  assume n: "typeOf (App NOT ns) = Some t"
  then obtain a where a: "ns = [a]" "typeOf a = Some BOOLEAN_TYPE" "t = BOOLEAN_TYPE" using typed_shape(1) by blast
  show ?thesis unfolding a(1) boolRewrite_NOT_def Let_def
    using a(2) hasKind_NOT [OF a(2)] by (auto simp: typeOf_short type_op_iffs intro!: respond_Boolean)
qed

lemma boolRewrite_OR_sound:
  assumes n: "typeOf (App OR ns) = Some t" "size (App OR ns) + 1 < MAX_CHILDREN"
  shows "response_sound opt (App OR ns) (boolRewrite_OR (App OR ns))"
proof -
  have t: "typeOf (App OR ns) = Some BOOLEAN_TYPE" using n(1) type_bool_app [of OR ns t] by simp
  have "response_sound opt (App OR ns) (finish tt)" if "tt \<in> set ns"
    using that by (intro respond_Boolean [OF t]) (auto simp: list_ex_iff intro!: bexI [of _ tt])
  then show ?thesis using flattenNode_sound [OF _ t, of OR tt ff opt] n(2) by (simp add: boolRewrite_OR_def hasKind_def respond_same)
qed

lemma boolRewrite_AND_sound:
  assumes n: "typeOf (App AND ns) = Some t" "size (App AND ns) + 1 < MAX_CHILDREN"
  shows "response_sound opt (App AND ns) (boolRewrite_AND (App AND ns))"
proof -
  have t: "typeOf (App AND ns) = Some BOOLEAN_TYPE" using n(1) type_bool_app [of AND ns t] by simp
  have "response_sound opt (App AND ns) (finish ff)" if "ff \<in> set ns"
    using that by (intro respond_Boolean [OF t]) (auto simp: list_all_iff intro!: bexI [of _ ff])
  then show ?thesis using flattenNode_sound [OF _ t, of AND ff tt opt] n(2) by (simp add: boolRewrite_AND_def hasKind_def respond_same)
qed

lemma boolRewrite_IMPLIES_sound: "typeOf (App IMPLIES ns) = Some t \<Longrightarrow> response_sound opt (App IMPLIES ns) (boolRewrite_IMPLIES (App IMPLIES ns))"
proof -
  assume n: "typeOf (App IMPLIES ns) = Some t"
  then obtain a b where ab: "ns = [a, b]" "typeOf a = Some BOOLEAN_TYPE" "typeOf b = Some BOOLEAN_TYPE" "t = BOOLEAN_TYPE"
    using typed_shape(2) [of IMPLIES] by blast
  show ?thesis unfolding ab(1) boolRewrite_IMPLIES_def Let_def
    using ab(2,3) by (auto simp: typeOf_short type_op_iffs intro!: respond_Boolean respond_negation)
qed

lemma boolRewrite_XOR_sound: "typeOf (App XOR ns) = Some t \<Longrightarrow> response_sound opt (App XOR ns) (boolRewrite_XOR (App XOR ns))"
proof -
  assume n: "typeOf (App XOR ns) = Some t"
  then obtain a b where ab: "ns = [a, b]" "typeOf a = Some BOOLEAN_TYPE" "typeOf b = Some BOOLEAN_TYPE" "t = BOOLEAN_TYPE"
    using typed_shape(2) [of XOR] by blast
  have ch: "children (App XOR [a, b]) ! 0 = a" "children (App XOR [a, b]) ! 1 = b" by simp_all
  show ?thesis unfolding ab(1) boolRewrite_XOR_def Let_def ch negation_of [OF ab(2)] negation_of [OF ab(3)]
    using ab(2,3) by (auto simp: typeOf_short type_op_iffs intro!: respond_Boolean respond_negation)
qed

lemma constants_differ:
  assumes "isConst c" "isConst d" and "typeOf c = Some t" "typeOf d = Some t"
  shows "eval I c = eval I d \<longleftrightarrow> c = d"
  using assms by (auto simp: isConst_def split: node.splits intro: bitvector.equality)

lemma two_values:
  assumes "atMostTwoValues t = Inr True" and "valid_type t" and "has_type a t" "has_type b t" "has_type c t" and "b \<noteq> c"
  shows "(a = b) = (a \<noteq> c)"
proof -
  consider "t = BOOLEAN_TYPE" | "t = BITVECTOR_TYPE 1"
  proof (cases t)
    case (BITVECTOR_TYPE w)
    then have "w \<noteq> 0" "(2::nat) ^ w \<le> 2 ^ 1" using assms(1,2) by (auto simp: atMostTwoValues_def valid_width_def)
    then have "w = 1" using power_increasing_iff [of "2::nat" w 1] by simp
    then show thesis using that(2) BITVECTOR_TYPE by simp
  qed (use assms(2) that in auto)
  then show ?thesis using assms(3-6) by cases (auto simp: in_width_def)
qed

lemma constantSide_Some:
  "constantSide (App EQUAL [a, b]) = Some (c, x) \<Longrightarrow> isConst c \<and> (c = a \<and> x = b \<or> c = b \<and> x = a)"
  "constantAgainst x (App EQUAL [a, b]) = Some d \<Longrightarrow> isConst d \<and> (x = a \<and> d = b \<or> x = b \<and> d = a)"
  by (auto simp: constantSide_def constantAgainst_def split: if_splits)

lemma boolRewrite_equalities_sound:
  assumes n: "typeOf (App EQUAL [App EQUAL ms, App EQUAL ns]) = Some t"
  shows "response_sound opt (App EQUAL [App EQUAL ms, App EQUAL ns]) (boolRewrite_equalities (App EQUAL [App EQUAL ms, App EQUAL ns]))"
proof -
  let ?e = "App EQUAL ms" and ?f = "App EQUAL ns"
  let ?n = "App EQUAL [?e, ?f]"
  have typed: "typeOf ?n = Some BOOLEAN_TYPE" "typeOf ?e = Some BOOLEAN_TYPE" "typeOf ?f = Some BOOLEAN_TYPE"
    using n typed_shape(3) by (auto simp: typeOf_short type_op_mixed)
  from typed_shape(3) [OF typed(2)] typed_shape(3) [OF typed(3)]
  obtain a b u a' b' u' where ms: "ms = [a, b]" "typeOf a = Some u" "typeOf b = Some u" "valid_type u"
    and ns: "ns = [a', b']" "typeOf a' = Some u'" "typeOf b' = Some u'" by blast
  show ?thesis
  proof (cases "\<exists>c x d. constantSide ?e = Some (c, x) \<and> constantAgainst x ?f = Some d")
    case False
    then have "boolRewrite_equalities ?n = finish ?n" by (auto simp: boolRewrite_equalities_def Let_def split: option.splits)
    then show ?thesis by (simp add: respond_same)
  next
    case True
    then obtain c x d where side: "constantSide ?e = Some (c, x)" "constantAgainst x ?f = Some d" by blast
    note cx = constantSide_Some(1) [OF side(1) [unfolded ms(1)]] and xd = constantSide_Some(2) [OF side(2) [unfolded ns(1)]]
    have c: "isConst c" "typeOf c = Some u" "typeOf x = Some u" using cx ms(2,3) by auto
    have d: "isConst d" "typeOf d = Some u" using xd ns(2,3) c(3) by auto
    have e: "eval I ?e = VBool (eval I x = eval I c)" for I using cx unfolding ms(1) by (elim conjE disjE) auto
    have f: "eval I ?f = VBool (eval I x = eval I d)" for I using xd unfolding ns(1) by (elim conjE disjE) auto
    have nval: "eval I ?n = VBool ((eval I x = eval I c) = (eval I x = eval I d))" for I
      by (subst eval.simps(4)) (simp only: list.map e f, simp)
    have gt: "getType False x = Inr u" using getType_typeOf [OF c(3)] by simp
    have unfolded: "boolRewrite_equalities ?n = (if d = c then finish tt else ebind (atMostTwoValues u) (\<lambda>small.
        if small then finish ff else ebind (makeNegation ?e) (\<lambda>a. ebind (makeNegation ?f) (\<lambda>b. again (App AND [a, b])))))"
      using side by (simp add: boolRewrite_equalities_def gt)
    have val: "has_type (eval I x) u" "has_type (eval I c) u" "has_type (eval I d) u" if "wf_interp I" for I
      using c(2,3) d(2) that by (auto intro: eval_has_type)
    obtain small where small: "atMostTwoValues u = Inr small" using ms(4) by (cases u) (auto simp: atMostTwoValues_def)
    consider "d = c" | "d \<noteq> c" "small" | "d \<noteq> c" "\<not> small" by blast
    then show ?thesis
    proof cases
      case 1
      then show ?thesis unfolding unfolded if_P [OF 1] by (intro respond_Boolean [OF typed(1)]) (simp_all only: nval, simp_all)
    next
      case 2
      have "eval I ?n = VBool False" if "wf_interp I" for I
        using two_values [OF small [unfolded eqTrueI [OF 2(2)]] ms(4) val [OF that]] constants_differ [OF c(1) d(1) c(2) d(2), of I] 2(1) unfolding nval by auto
      then have "response_sound opt ?n (finish ff)" by (intro respond_Boolean [OF typed(1)]) (simp_all only:, simp_all)
      then show ?thesis unfolding unfolded small using 2 by simp
    next
      case 3
      obtain p q where p: "makeNegation ?e = Inr p" "typeOf p = Some BOOLEAN_TYPE" "\<And>I. wf_interp I \<Longrightarrow> v_bool (eval I p) = (\<not> v_bool (eval I ?e))"
        and q: "makeNegation ?f = Inr q" "typeOf q = Some BOOLEAN_TYPE" "\<And>I. wf_interp I \<Longrightarrow> v_bool (eval I q) = (\<not> v_bool (eval I ?f))"
        using makeNegation_meaning [OF typed(2)] makeNegation_meaning [OF typed(3)] by metis
      have "v_bool (eval I (App AND [p, q])) = v_bool (eval I ?n)" if "wf_interp I" for I
        using constants_differ [OF c(1) d(1) c(2) d(2), of I] 3(1) p(3) [OF that] q(3) [OF that] unfolding nval e f by auto
      then have "response_sound opt ?n (again (App AND [p, q]))"
        using p(2) q(2) by (intro respond_Boolean [OF typed(1)]) (simp_all only: typeOf_short type_op_iffs, simp_all)
      then show ?thesis unfolding unfolded small using 3 p(1) q(1) by simp
    qed
  qed
qed

lemma boolRewrite_EQUAL_sound:
  assumes n: "typeOf (App EQUAL ns) = Some t" and bool: "typeOf (ns ! 0) = Some BOOLEAN_TYPE"
  shows "response_sound opt (App EQUAL ns) (boolRewrite_EQUAL (App EQUAL ns))"
proof -
  obtain a b where ab: "ns = [a, b]" "typeOf a = Some BOOLEAN_TYPE" "typeOf b = Some BOOLEAN_TYPE" "t = BOOLEAN_TYPE"
    using typed_shape(3) [OF n] bool by auto
  let ?n = "App EQUAL [a, b]"
  have typed: "typeOf ?n = Some BOOLEAN_TYPE" using n ab(1,4) by simp
  have val: "v_bool (eval I ?n) = (v_bool (eval I a) = v_bool (eval I b))" if "wf_interp I" for I
    using Boolean_value [OF ab(2) that] Boolean_value [OF ab(3) that] by simp (metis val.inject(1))
  have replace: "response_sound opt ?n (respond s (Inr m))"
    if "typeOf m = Some BOOLEAN_TYPE" "\<And>I. wf_interp I \<Longrightarrow> v_bool (eval I m) = (v_bool (eval I a) = v_bool (eval I b))" for m s
    using that(2) val by (intro respond_Boolean [OF typed that(1)]) blast
  have negate: "response_sound opt ?n (respond s (makeNegation m))"
    if "typeOf m = Some BOOLEAN_TYPE" "\<And>I. wf_interp I \<Longrightarrow> (v_bool (eval I a) = v_bool (eval I b)) = (\<not> v_bool (eval I m))" for m s
    using that(2) val by (intro respond_negation [OF typed that(1)]) blast
  have eqs: "response_sound opt ?n (boolRewrite_equalities ?n)" if "hasKind EQUAL a" "hasKind EQUAL b"
    using boolRewrite_equalities_sound [of _ _ BOOLEAN_TYPE] typed that by (auto simp: hasKind_iff)
  have simple: "a = tt \<Longrightarrow> response_sound opt ?n (again b)" "b = tt \<Longrightarrow> response_sound opt ?n (again a)"
    "a = ff \<Longrightarrow> response_sound opt ?n (respond REWRITE_AGAIN (makeNegation b))"
    "b = ff \<Longrightarrow> response_sound opt ?n (respond REWRITE_AGAIN (makeNegation a))"
    "a = b \<Longrightarrow> response_sound opt ?n (finish tt)"
    "a = App NOT [b] \<Longrightarrow> response_sound opt ?n (finish ff)" "b = App NOT [a] \<Longrightarrow> response_sound opt ?n (finish ff)"
    using ab(2,3) by (intro replace negate; simp)+
  have ch: "children ?n ! 0 = a" "children ?n ! 1 = b" by simp_all
  show ?thesis unfolding ab(1) boolRewrite_EQUAL_def Let_def ch negation_of [OF ab(2)] negation_of [OF ab(3)]
    using simple eqs by (simp add: respond_same)
qed

lemma ITE_sound:
  assumes n: "typeOf (App ITE [c, a, b]) = Some t" and m: "typeOf m = Some t"
    and val: "\<And>I. wf_interp I \<Longrightarrow> eval I m = (if v_bool (eval I c) then eval I a else eval I b)"
  shows "response_sound opt (App ITE [c, a, b]) (respond s (Inr m))"
  using val by (intro respond_sound [OF n m]) simp

lemma parity_negation:
  assumes "a = App NOT [b] \<or> b = App NOT [a]" and "typeOf a = Some t" and "typeOf b = Some u"
  shows "typeOf a = Some BOOLEAN_TYPE" and "typeOf b = Some BOOLEAN_TYPE" and "wf_interp I \<Longrightarrow> v_bool (eval I a) = (\<not> v_bool (eval I b))"
  using assms typed_shape(1) by auto fastforce+

lemma parity_value:
  assumes "typeOf c = Some BOOLEAN_TYPE" and "typeOf x = Some u" and "equalityParity c x \<noteq> 0"
  shows "typeOf x = Some BOOLEAN_TYPE" and "wf_interp I \<Longrightarrow> eval I x = VBool (v_bool (eval I c) = (equalityParity c x = 1))"
proof -
  have "typeOf x = Some BOOLEAN_TYPE \<and> (wf_interp I \<longrightarrow> v_bool (eval I x) = (v_bool (eval I c) = (equalityParity c x = 1)))"
  proof (cases "equalityParity c x = 1")
    case True
    then show ?thesis using equalityParity_meaning(1) [OF assms(1,2)] assms(1) by simp
  next
    case False
    note neg = parity_negation [OF equalityParity_meaning(2) [OF assms(1,2,3) False] assms(1,2)]
    show ?thesis using False neg(2,3) by simp
  qed
  then show "typeOf x = Some BOOLEAN_TYPE" "wf_interp I \<Longrightarrow> eval I x = VBool (v_bool (eval I c) = (equalityParity c x = 1))"
    using Boolean_value [of x I] by auto
qed

lemma boolRewrite_ITE_parity_sound:
  assumes n: "typeOf (App ITE [c, a, b]) = Some t"
  shows "response_sound opt (App ITE [c, a, b]) (boolRewrite_ITE_parity (App ITE [c, a, b]))"
proof -
  let ?n = "App ITE [c, a, b]"
  have typed: "typeOf c = Some BOOLEAN_TYPE" "typeOf a = Some t" "typeOf b = Some t" "valid_type t" using typed_shape(4) [OF n] by auto
  have nested: "response_sound opt ?n (again (App ITE [c, x, y]))"
    if "typeOf x = Some t" "typeOf y = Some t" "\<And>I. wf_interp I \<Longrightarrow> v_bool (eval I c) \<Longrightarrow> eval I x = eval I a"
      "\<And>I. wf_interp I \<Longrightarrow> \<not> v_bool (eval I c) \<Longrightarrow> eval I y = eval I b" for x y
    using that typed by (intro ITE_sound [OF n]) (simp_all add: typeOf_short type_op_mixed)
  have 1: "response_sound opt ?n (again (if equalityParity a b = 1 then a else App EQUAL [c, a]))" if p: "equalityParity a b \<noteq> 0"
  proof (cases "equalityParity a b = 1")
    case True
    then have "a = b" using equalityParity_meaning(1) [OF typed(2,3)] by simp
    then show ?thesis unfolding if_P [OF True] by (intro ITE_sound [OF n typed(2)]) simp
  next
    case False
    note ab = parity_negation [OF equalityParity_meaning(2) [OF typed(2,3) p False] typed(2,3)]
    have "eval I (App EQUAL [c, a]) = (if v_bool (eval I c) then eval I a else eval I b)" if I: "wf_interp I" for I
    proof -
      obtain p q r where "eval I c = VBool p" "eval I a = VBool q" "eval I b = VBool r"
        using Boolean_value [OF typed(1) I] Boolean_value [OF ab(1) I] Boolean_value [OF ab(2) I] by blast
      then show ?thesis using ab(3) [OF I] by auto
    qed
    moreover have "typeOf (App EQUAL [c, a]) = Some t" using typed(1,2) ab(1) by (simp add: typeOf_short type_op_mixed)
    ultimately show ?thesis unfolding if_not_P [OF False] by (intro ITE_sound [OF n])
  qed
  have 2: "response_sound opt ?n (again (App ITE [c, if equalityParity c a = 1 then tt else ff, b]))" if p: "equalityParity c a \<noteq> 0"
    using parity_value [OF typed(1,2) p] typed(2,3) by (intro nested) auto
  have 3: "response_sound opt ?n (again (App ITE [c, a, if equalityParity c b = 1 then ff else tt]))" if p: "equalityParity c b \<noteq> 0"
    using parity_value [OF typed(1,3) p] typed(2,3) by (intro nested) auto
  have inner: "\<exists>d x y. m = App ITE [d, x, y] \<and> typeOf d = Some BOOLEAN_TYPE \<and> typeOf x = Some t \<and> typeOf y = Some t"
    if "hasKind ITE m" "typeOf m = Some t" for m using that typed_shape(4) by (fastforce simp: hasKind_iff)
  have 4: "response_sound opt ?n (again (App ITE [c, if equalityParity c (children a ! 0) = 1 then children a ! 1 else children a ! 2, b]))"
    if ite: "hasKind ITE a" and p: "equalityParity c (children a ! 0) \<noteq> 0"
  proof -
    obtain d x y where a: "a = App ITE [d, x, y]" "typeOf d = Some BOOLEAN_TYPE" "typeOf x = Some t" "typeOf y = Some t" using inner [OF ite typed(2)] by blast
    have "equalityParity c d \<noteq> 0" using p by (simp add: a)
    from parity_value [OF typed(1) a(2) this] show ?thesis using a typed(3) by (intro nested) auto
  qed
  have 5: "response_sound opt ?n (again (App ITE [c, a, if equalityParity c (children b ! 0) = 1 then children b ! 2 else children b ! 1]))"
    if ite: "hasKind ITE b" and p: "equalityParity c (children b ! 0) \<noteq> 0"
  proof -
    obtain d x y where b: "b = App ITE [d, x, y]" "typeOf d = Some BOOLEAN_TYPE" "typeOf x = Some t" "typeOf y = Some t" using inner [OF ite typed(3)] by blast
    have "equalityParity c d \<noteq> 0" using p by (simp add: b)
    from parity_value [OF typed(1) b(2) this] show ?thesis using b typed(2) by (intro nested) auto
  qed
  have ch: "children ?n ! 0 = c" "children ?n ! 1 = a" "children ?n ! 2 = b" by simp_all
  show ?thesis unfolding boolRewrite_ITE_parity_def Let_def ch by (intro response_if) (blast intro: 1 2 3 4 5 respond_same)+
qed

lemma boolRewrite_ITE_sound: "typeOf (App ITE ns) = Some t \<Longrightarrow> response_sound opt (App ITE ns) (boolRewrite_ITE (App ITE ns))"
proof -
  assume "typeOf (App ITE ns) = Some t"
  then obtain c a b where ns: "ns = [c, a, b]" and n: "typeOf (App ITE [c, a, b]) = Some t"
    and typed: "typeOf c = Some BOOLEAN_TYPE" "typeOf a = Some t" "typeOf b = Some t" using typed_shape(4) by blast
  let ?n = "App ITE [c, a, b]"
  have const: "c = tt \<or> c = ff" if "isConst c" using that typed(1) by (auto simp: isConst_def mk_bvtype_def split: node.splits if_splits)
  have 1: "c = tt \<Longrightarrow> response_sound opt ?n (again a)" "c = ff \<Longrightarrow> response_sound opt ?n (again b)"
    using typed(2,3) by (intro ITE_sound [OF n]; simp)+
  have 2: "response_sound opt ?n (again c)" if "a = tt" "b = ff"
    using that typed Boolean_value [OF typed(1)] by (intro ITE_sound [OF n]) (auto, metis+)
  have 3: "response_sound opt ?n (respond REWRITE_AGAIN (makeNegation c))" if "a = ff" "b = tt"
    using that n typed by (intro respond_negation) auto
  have ch: "children ?n ! 0 = c" "children ?n ! 1 = a" "children ?n ! 2 = b" by simp_all
  show ?thesis unfolding ns boolRewrite_ITE_def Let_def ch using const 1 2 3 boolRewrite_ITE_parity_sound [OF n, of opt] by auto
qed

section \<open>The rewriter keeps the meaning\<close>

text \<open>The nodes the Boolean theory is asked to rewrite: it owns an equality only when it is between Booleans.\<close>

definition bool_rewritable :: "node \<Rightarrow> bool" where
  "bool_rewritable n \<longleftrightarrow> (hasKind EQUAL n \<longrightarrow> typeOf (children n ! 0) = Some BOOLEAN_TYPE) \<and> size n + 1 < MAX_CHILDREN"

lemma boolRewrite_sound:
  assumes "typeOf n = Some t" and "bool_rewritable n"
  shows "response_sound opt n (TheoryBoolRewriter_preRewrite n)"
proof (cases n)
  case (App k ns)
  note sound = boolRewrite_NOT_sound boolRewrite_OR_sound boolRewrite_AND_sound boolRewrite_IMPLIES_sound boolRewrite_EQUAL_sound
    boolRewrite_XOR_sound boolRewrite_ITE_sound
  show ?thesis
    using assms unfolding App bool_rewritable_def TheoryBoolRewriter_preRewrite_def
    by (cases k) (auto simp: hasKind_def respond_same intro: sound)
qed (simp_all add: TheoryBoolRewriter_preRewrite_def respond_same)

end
