(* ===== verification/BV_Rewrite_Table.thy ===== *)
theory BV_Rewrite_Table
  imports BV_Rewriter
begin

text \<open>
  The rewrite table of \<open>src/src/theory/bv/theory_bv_rewriter.cpp\<close> as a whole: every entry returns, and its result
  has the type and the value of the given term. The rules inside an entry rely on each other: \<open>XorZero\<close> and
  \<open>XorOne\<close> would build an application without children, and \<open>MultPow2\<close> miscounts several powers of two, were it
  not for the rules that run before them; \<open>xor_shape\<close> and \<open>mult_shape\<close> carry what those establish. Entries that
  use \<open>int\<close> for bit positions need widths below \<open>2 ^ 31\<close> (\<open>narrow\<close>); the entry of total division is sound where
  \<open>UdivSelf\<close> does not fire.
\<close>

section \<open>Widths\<close>

fun narrow :: "node \<Rightarrow> bool" where
  "narrow (App k ns) \<longleftrightarrow> getSize (App k ns) < 2 ^ 31 \<and> list_all narrow ns"
| "narrow n \<longleftrightarrow> getSize n < 2 ^ 31"

lemma narrow_size: "narrow n \<Longrightarrow> getSize n < 2 ^ 31"
  by (cases n) auto

lemma narrow_child: "narrow n \<Longrightarrow> c \<in> set (children n) \<Longrightarrow> narrow c"
  by (cases n) (auto simp: list_all_iff)

section \<open>Composing strategies\<close>

lemma linear_append:
  "LinearRewriteStrategy (Rs @ Ss) n = ebind (LinearRewriteStrategy Rs n) (LinearRewriteStrategy Ss)"
proof (induction Rs arbitrary: n)
  case (Cons R Rs)
  then show ?case by (cases "if applies R n then RewriteRule_run False R n else Inr n") simp_all
qed simp

text \<open>A strategy whose intermediate terms satisfy a predicate that the later rules need.\<close>

definition keeps :: "bool \<Rightarrow> (node \<Rightarrow> bool) \<Rightarrow> (node \<Rightarrow> bool) \<Rightarrow> rule list \<Rightarrow> bool" where
  "keeps opt P Q Rs \<longleftrightarrow> (\<forall>n t. typeOf n = Some t \<longrightarrow> P n \<longrightarrow>
     (\<exists>m. LinearRewriteStrategy Rs n = Inr m \<and> same_meaning opt m n \<and> Q m))"

lemma keeps_Nil: "(\<And>n. P n \<Longrightarrow> Q n) \<Longrightarrow> keeps opt P Q []"
  by (auto simp: keeps_def)

lemma keeps_Cons:
  assumes R: "\<And>n t. typeOf n = Some t \<Longrightarrow> P n \<Longrightarrow> applies R n \<Longrightarrow> \<exists>m. apply_rule R n = Inr m \<and> same_meaning opt m n \<and> P' m"
    and skip: "\<And>n t. typeOf n = Some t \<Longrightarrow> P n \<Longrightarrow> \<not> applies R n \<Longrightarrow> P' n" and Rs: "keeps opt P' Q Rs"
  shows "keeps opt P Q (R # Rs)"
  unfolding keeps_def
proof (intro allI impI)
  fix n t assume n: "typeOf n = Some t" "P n"
  have "\<exists>m. (if applies R n then RewriteRule_run False R n else Inr n) = Inr m \<and> same_meaning opt m n \<and> P' m"
    using R [OF n] skip [OF n] by (auto simp: RewriteRule_run_def)
  then obtain m where m: "(if applies R n then RewriteRule_run False R n else Inr n) = Inr m" "same_meaning opt m n" "P' m" by blast
  with n(1) Rs obtain l where "LinearRewriteStrategy Rs m = Inr l" "same_meaning opt l m" "Q l"
    unfolding keeps_def same_meaning_def by metis
  with m show "\<exists>m. LinearRewriteStrategy (R # Rs) n = Inr m \<and> same_meaning opt m n \<and> Q m"
    using same_meaning_trans by auto
qed

lemma keeps_sound: "keeps opt P Q Rs \<Longrightarrow> typeOf n = Some t \<Longrightarrow> P n \<Longrightarrow> \<exists>m. LinearRewriteStrategy Rs n = Inr m \<and> same_meaning opt m n \<and> Q m"
  by (simp add: keeps_def)

lemma keeps_rules: "list_all (rule_sound opt) Rs \<Longrightarrow> keeps opt P (\<lambda>n. True) Rs"
  using linear_sound [of opt Rs] by (auto simp: keeps_def sound_result_def)

lemma same_meaning_getSize: "same_meaning opt m n \<Longrightarrow> typeOf n = Some t \<Longrightarrow> getSize m = getSize n"
  by (simp add: same_meaning_def getSize_def getType_typeOf)

lemma response_Inr: "same_meaning opt m n \<Longrightarrow> response_sound opt n (respond s (Inr m))"
  by (rule response_soundI) (simp add: sound_result_def)

text \<open>After flattening no child has the kind of the node; an exclusive or keeps a child that is no constant.\<close>

definition flat :: "kind \<Rightarrow> node \<Rightarrow> bool" where
  "flat k n \<longleftrightarrow> (hasKind k n \<longrightarrow> list_all (\<lambda>c. \<not> hasKind k c) (children n))"

definition xor_shape :: "node \<Rightarrow> bool" where
  "xor_shape n \<longleftrightarrow> flat BITVECTOR_XOR n \<and> (hasKind BITVECTOR_XOR n \<longrightarrow> list_ex (\<lambda>c. \<not> isConstBV c) (children n))"

definition mult_shape :: "gmp \<Rightarrow> node \<Rightarrow> bool" where
  "mult_shape G n \<longleftrightarrow> (hasKind BITVECTOR_MULT n \<longrightarrow>
     (let ps = filter (\<lambda>c. isPow2Const G c \<noteq> 0) (children n) in ps = [] \<or> (\<exists>c. ps = [c] \<and> isPow2Const G c \<noteq> 1)))"

lemma multSimplify_sorted_const:
  "\<not> multSimplify_unsorted lt ns \<Longrightarrow> c \<in> set (butlast ns) \<Longrightarrow> \<not> isConst c"
  by (induction lt ns rule: multSimplify_unsorted.induct) (auto split: if_splits)

lemma isPow2Const_const: "\<not> isConstBV c \<Longrightarrow> isPow2Const G c = 0"
  by (cases c) (simp_all add: isConstBV_def isPow2Const_def)

context gmp_documented
begin

section \<open>Bitwise operators\<close>

lemma slicing_keeps:
  "w < 2 ^ 31 \<Longrightarrow> keeps opt (\<lambda>n. typeOf n = Some (BITVECTOR_TYPE w)) (\<lambda>n. True) [BitwiseSlicing G]"
  using BitwiseSlicing_sound [of _ w opt] by (intro keeps_Cons [OF _ _ keeps_Nil]) (auto simp: sound_result_def)

lemma bitwise_rewrites_sound:
  assumes iter: "\<And>m. mset (iter m) = mset m" and n: "typeOf n = Some (BITVECTOR_TYPE w)" "w < 2 ^ 31"
  shows "response_sound opt n (RewriteAnd G lt iter n pre)" and "response_sound opt n (RewriteOr G lt iter n pre)"
proof -
  have step: "response_sound opt n (ebind (LinearRewriteStrategy Rs n) (\<lambda>m.
      if \<not> pre then ebind (LinearRewriteStrategy [BitwiseSlicing G] m) (\<lambda>m.
        if P m then respond s (Inr m) else respond s' (Inr m)) else respond s' (Inr m)))"
    if Rs: "list_all (rule_sound opt) Rs" for Rs P s s'
  proof -
    obtain m where m: "LinearRewriteStrategy Rs n = Inr m" "same_meaning opt m n"
      using linear_sound [OF Rs n(1)] by (auto simp: sound_result_def)
    then have "typeOf m = Some (BITVECTOR_TYPE w)" using n(1) by (simp add: same_meaning_def)
    from keeps_sound [OF slicing_keeps [OF n(2)] this this] obtain l where
      l: "LinearRewriteStrategy [BitwiseSlicing G] m = Inr l" "same_meaning opt l m" by metis
    show ?thesis unfolding m(1) ebind_simps l(1) using m(2) same_meaning_trans [OF l(2) m(2)] by (auto intro: response_Inr)
  qed
  show "response_sound opt n (RewriteAnd G lt iter n pre)"
    unfolding RewriteAnd_def by (rule step) (simp add: FlattenAssocCommutNoDuplicates_sound AndSimplify_sound [OF iter])
  show "response_sound opt n (RewriteOr G lt iter n pre)"
    unfolding RewriteOr_def by (rule step) (simp add: FlattenAssocCommutNoDuplicates_sound OrSimplify_sound [OF iter])
qed

section \<open>Sums, negation and equality\<close>

lemma RewritePlus_sound: "rewrite_sound opt (RewritePlus G lt)"
proof (rule rewrite_soundI)
  fix n t pre assume n: "typeOf n = Some t"
  have Rs: "list_all (rule_sound opt) [FlattenAssocCommut lt]" "list_all (rule_sound opt) [FlattenAssocCommut lt, PlusCombineLikeTerms G lt]"
    by (simp_all add: FlattenAssocCommut_sound PlusCombineLikeTerms_sound)
  show "response_sound opt n (RewritePlus G lt n pre)"
    unfolding RewritePlus_def using response_linear [OF Rs(1) n] response_linear_status [OF Rs(2) n] by simp
qed

lemma RewriteNeg_sound:
  assumes n: "typeOf n = Some t"
  shows "response_sound opt n (RewriteNeg G n pre)"
proof -
  obtain m where m: "LinearRewriteStrategy [EvalNeg G, NegIdemp, NegSub] n = Inr m" "same_meaning opt m n"
    using linear_sound [of opt "[EvalNeg G, NegIdemp, NegSub]", OF _ n] EvalNeg_sound NegIdemp_sound NegSub_sound
    by (auto simp: sound_result_def)
  have "\<not> applies (NegMult G) n" using NegMult_never [OF n] by simp
  then show ?thesis
    unfolding RewriteNeg_def m(1) ebind_simps using response_run [OF NegPlus_sound n] response_Inr [OF m(2)] by simp
qed

lemma RewriteEqual_sound:
  assumes total: "\<And>a b. \<not> lt a b \<Longrightarrow> \<not> lt b a \<Longrightarrow> a = b"
    and n: "typeOf n = Some t" "hasKind EQUAL n" "typeOf (children n ! 0) = Some (BITVECTOR_TYPE w)"
  shows "response_sound opt n (RewriteEqual G lt n pre)"
proof -
  let ?Rs = "[FailEq, SimplifyEq, ReflexivityEq lt]"
  have Rs: "list_all (rule_sound opt) ?Rs" by (simp add: FailEq_sound SimplifyEq_sound ReflexivityEq_sound)
  obtain l r where lr: "n = App EQUAL [l, r]" "typeOf l = Some (BITVECTOR_TYPE w)" "typeOf r = Some (BITVECTOR_TYPE w)"
    using n typed_equality by (auto simp: hasKind_iff) (metis nth_Cons_0)
  obtain m where m: "LinearRewriteStrategy ?Rs n = Inr m" "same_meaning opt m n"
    using linear_sound [OF Rs n(1)] by (auto simp: sound_result_def)
  have solve: "\<exists>l. RewriteRule_run False (SolveEq G lt) m = Inr l \<and> same_meaning opt l n" if a: "applies (SolveEq G lt) m"
  proof -
    have "hasKind EQUAL m" using a by (auto simp: SolveEq_def split: if_splits)
    then have "typeOf (children m ! 0) = Some (BITVECTOR_TYPE w)"
      using m(1) lr by (auto simp: FailEq_def SimplifyEq_def ReflexivityEq_def RewriteRule_run_def hasKind_def split: if_splits)
    moreover have "typeOf m = Some t" using m(2) n(1) by (simp add: same_meaning_def)
    ultimately have "sound_result opt m (apply_rule (SolveEq G lt) m)" using SolveEq_sound [where lt = lt, OF total _ a] by blast
    then show ?thesis using same_meaning_trans [OF _ m(2)] by (auto simp: sound_result_def RewriteRule_run_def)
  qed
  show ?thesis
  proof (cases "\<not> pre \<and> applies (SolveEq G lt) m")
    case True
    then show ?thesis using solve m(1) by (auto simp: RewriteEqual_def intro!: response_Inr simp del: LinearRewriteStrategy.simps)
  next
    case False
    then show ?thesis using m by (auto simp: RewriteEqual_def intro: response_Inr simp del: LinearRewriteStrategy.simps)
  qed
qed

section \<open>Extraction\<close>

lemma RewriteExtract_sound:
  assumes n: "typeOf n = Some t" "isExtract n" and narrow: "narrow n"
  shows "response_sound opt n (RewriteExtract G arith n pre)"
proof -
  have small: "getSize (children m ! 0) < 2 ^ 31" if m: "narrow m" "isExtract m" "typeOf m = Some u" for m u
  proof -
    obtain x hi lo where "m = mkExtract x hi lo" using extract_parts [OF m(3,2)] by metis
    then show ?thesis using narrow_child [OF m(1), of x] narrow_size by simp
  qed
  have concat: "sound_result opt n (RewriteRule_run False ExtractConcat n)" if "applies ExtractConcat n"
    using ExtractConcat_sound [OF n(1) that small [OF narrow n(2,1)]] by (simp add: RewriteRule_run_def)
  let ?Rs = "[ExtractConstant G, ExtractExtract, ExtractWhole, ExtractMultLeadingBit G]"
  have "keeps opt (\<lambda>m. narrow m) (\<lambda>m. True) [ExtractMultLeadingBit G]"
  proof (rule keeps_Cons [OF _ _ keeps_Nil])
    fix m u assume m: "typeOf m = Some u" "narrow m" "applies (ExtractMultLeadingBit G) m"
    then have "isExtract m" by (auto simp: ExtractMultLeadingBit_def split: if_splits)
    then show "\<exists>l. apply_rule (ExtractMultLeadingBit G) m = Inr l \<and> same_meaning opt l m \<and> True"
      using ExtractMultLeadingBit_sound [OF m(1,3) small [OF m(2) _ m(1)]] by (simp add: sound_result_def)
  qed simp_all
  moreover have "keeps opt (\<lambda>m. narrow m) (\<lambda>m. True) (ExtractWhole # [ExtractMultLeadingBit G])"
  proof (rule keeps_Cons [OF _ _ calculation])
    fix m u assume m: "typeOf m = Some u" "narrow m" "applies ExtractWhole m"
    then have "isExtract m" by (simp add: ExtractWhole_def split: if_splits)
    then obtain x where "children m = [x]" using extract_parts [OF m(1)] by (metis mkExtract_simps(2))
    then show "\<exists>l. apply_rule ExtractWhole m = Inr l \<and> same_meaning opt l m \<and> narrow l"
      using ExtractWhole_sound [of opt] m narrow_child [OF m(2)] by (auto simp: rule_sound_def sound_result_def ExtractWhole_def)
  qed
  moreover have "keeps opt (\<lambda>m. narrow m) (\<lambda>m. True) (ExtractExtract # ExtractWhole # [ExtractMultLeadingBit G])"
  proof (rule keeps_Cons [OF _ _ calculation(2)])
    fix m u assume m: "typeOf m = Some u" "narrow m" "applies ExtractExtract m"
    then have "isExtract m" "isExtract (children m ! 0)" by (auto simp: ExtractExtract_def split: if_splits)
    then obtain x hi lo where x: "m = mkExtract x hi lo" "isExtract x" "bv_typed x" using extract_parts [OF m(1)]
      by (metis bv_typed_def mkExtract_simps(2) nth_Cons_0)
    then obtain y h l where y: "x = mkExtract y h l" using typed_extract [OF x(3,2)] by metis
    obtain r where r: "apply_rule ExtractExtract m = Inr r" "same_meaning opt r m"
      using ExtractExtract_sound [of opt] m by (auto simp: rule_sound_def sound_result_def)
    have "narrow y" "getSize m < 2 ^ 31" using m(2) narrow_size by (simp_all add: x(1) y mkExtract_def)
    moreover have "getSize r = getSize m" using same_meaning_getSize [OF r(2) m(1)] .
    moreover obtain i j where "r = mkExtract y i j" using r(1) by (auto simp: ExtractExtract_def x(1) y)
    ultimately have "narrow r" by (simp add: mkExtract_def)
    with r show "\<exists>r. apply_rule ExtractExtract m = Inr r \<and> same_meaning opt r m \<and> narrow r" by blast
  qed
  moreover have "keeps opt (\<lambda>m. narrow m) (\<lambda>m. True) ?Rs"
  proof (rule keeps_Cons [OF _ _ calculation(3)])
    fix m u assume m: "typeOf m = Some u" "narrow m" "applies (ExtractConstant G) m"
    then obtain r where r: "apply_rule (ExtractConstant G) m = Inr r" "same_meaning opt r m"
      using ExtractConstant_sound [of opt] by (auto simp: rule_sound_def sound_result_def)
    have "getSize r < 2 ^ 31" using same_meaning_getSize [OF r(2) m(1)] narrow_size [OF m(2)] by simp
    then have "narrow r" using r(1) by (auto simp: ExtractConstant_def)
    with r show "\<exists>r. apply_rule (ExtractConstant G) m = Inr r \<and> same_meaning opt r m \<and> narrow r" by blast
  qed
  ultimately obtain m where m: "LinearRewriteStrategy ?Rs n = Inr m" "same_meaning opt m n"
    using keeps_sound [where P = narrow, OF _ n(1) narrow] by metis
  show ?thesis
    unfolding RewriteExtract_def m(1)
    using response_soundI [OF concat] response_run [OF ExtractSignExtend_sound n(1)] response_run [OF ExtractNot_sound n(1)]
      response_run [OF ExtractArith_sound n(1)] response_Inr [OF m(2)] by simp
qed

section \<open>Exclusive or\<close>

lemma flatten_flat:
  assumes n: "typeOf n = Some t" "hasKind k n" and k: "k \<in> nary_kinds"
  shows "applies (FlattenAssocCommut lt) n \<Longrightarrow> \<exists>m. apply_rule (FlattenAssocCommut lt) n = Inr m \<and> same_meaning opt m n \<and> flat k m"
    and "\<not> applies (FlattenAssocCommut lt) n \<Longrightarrow> flat k n"
proof -
  obtain ns where ns: "n = App k ns" using n(2) by (auto simp: hasKind_iff)
  let ?fs = "flatten_loop k [n]"
  have "\<not> hasKind k (?fs ! 0)" if "length ?fs = 1" using that flatten_children [of "?fs ! 0" k "[n]"] by simp
  then have "flat k (mkNode k ?fs)" "flat k (mkSortedNode lt k ?fs)"
    using flatten_children [of _ k "[n]"] mset_eq_setD [OF mset_sort_nodes, of lt ?fs]
    by (auto simp: flat_def mkNode_def mkSortedNode_def list_all_iff simp del: flatten_loop.simps)
  then show "\<exists>m. apply_rule (FlattenAssocCommut lt) n = Inr m \<and> same_meaning opt m n \<and> flat k m"
    using flatten_sound [OF k n(1) [unfolded ns], of opt] k
    by (simp add: FlattenAssocCommut_def ns appKind_def Let_def del: flatten_loop.simps)
  show "flat k n" if "\<not> applies (FlattenAssocCommut lt) n"
    using that k by (auto simp: FlattenAssocCommut_def flat_def appKind_def list_ex_iff list_all_iff ns hasKind_def [of _ "App k ns"])
qed

lemma flatten_keeps:
  assumes k: "k \<in> nary_kinds" and Rs: "keeps opt (\<lambda>n. typeOf n = Some (BITVECTOR_TYPE w) \<and> flat k n) Q Rs"
  shows "keeps opt (\<lambda>n. typeOf n = Some (BITVECTOR_TYPE w) \<and> hasKind k n) Q (FlattenAssocCommut lt # Rs)"
proof (rule keeps_Cons [OF _ _ Rs])
  fix n t assume n: "typeOf n = Some (BITVECTOR_TYPE w) \<and> hasKind k n"
  show "\<exists>m. apply_rule (FlattenAssocCommut lt) n = Inr m \<and> same_meaning opt m n \<and> typeOf m = Some (BITVECTOR_TYPE w) \<and> flat k m"
    if "applies (FlattenAssocCommut lt) n"
    using flatten_flat(1) [OF conjunct1 [OF n] conjunct2 [OF n] k that, of opt] n by (auto simp: same_meaning_def)
  show "typeOf n = Some (BITVECTOR_TYPE w) \<and> flat k n" if "\<not> applies (FlattenAssocCommut lt) n"
    using flatten_flat(2) [OF conjunct1 [OF n] conjunct2 [OF n] k that] n by simp
qed

lemma xor_shape_mkNode:
  assumes "\<forall>c\<in>set cs. \<not> hasKind BITVECTOR_XOR c" and "\<exists>c\<in>set cs. \<not> isConstBV c"
  shows "xor_shape (mkNode BITVECTOR_XOR cs)"
proof (cases "length cs = 1")
  case True
  then show ?thesis using assms(1) by (auto simp: xor_shape_def flat_def mkNode_def length_Suc_conv)
next
  case False
  then show ?thesis using assms by (auto simp: xor_shape_def flat_def mkNode_def hasKind_def list_all_iff list_ex_iff)
qed

lemma xor_shape_mkSortedNode:
  assumes cs: "\<forall>c\<in>set cs. \<not> isConstBV c \<and> \<not> hasKind BITVECTOR_XOR c" and cc: "cc = [] \<or> (\<exists>d. cc = [CONST_BITVECTOR d])"
    and ne: "cs @ cc \<noteq> []"
  shows "xor_shape (mkSortedNode lt BITVECTOR_XOR (cs @ cc))"
proof (cases "length (cs @ cc) = 1")
  case True
  then have "\<not> hasKind BITVECTOR_XOR ((cs @ cc) ! 0)" using cs cc by (cases cs) (auto simp: hasKind_def)
  then show ?thesis using True by (simp add: xor_shape_def flat_def mkSortedNode_def)
next
  case False
  then have "cs \<noteq> []" using ne cc by auto
  then obtain c where "c \<in> set cs" by (cases cs) auto
  then have "\<exists>c\<in>set (sort_nodes lt (cs @ cc)). \<not> isConstBV c" "\<forall>c\<in>set (sort_nodes lt (cs @ cc)). \<not> hasKind BITVECTOR_XOR c"
    using cs cc unfolding mset_eq_setD [OF mset_sort_nodes] by (auto simp: hasKind_def)
  then show ?thesis using False by (auto simp: xor_shape_def flat_def mkSortedNode_def list_all_iff list_ex_iff)
qed

lemma slicing_xor_shape:
  assumes "typeOf n = Some (BITVECTOR_TYPE w)" "applies (BitwiseSlicing G) n" "w < 2 ^ 31"
  shows "\<exists>m. apply_rule (BitwiseSlicing G) n = Inr m \<and> same_meaning opt m n \<and> xor_shape m"
proof -
  have shape: "xor_shape (bitwise_slice k c x h l)" for k c x h l
    by (simp add: xor_shape_def flat_def bitwise_slice_def mkExtract_def hasKind_def isConstBV_def)
  have slices: "bitwiseSlicing_loop G k c x i j l = Inr ms \<Longrightarrow> list_all xor_shape ms" for k c x i j l ms
  proof (induction G k c x i j l arbitrary: ms rule: bitwiseSlicing_loop.induct)
    case (1 G k c x i j l)
    from 1(2) [unfolded bitwiseSlicing_loop.simps [of G k c x i j l]] 1(1) shape show ?case by (auto simp: Let_def split: if_splits)
  qed
  obtain m where m: "apply_rule (BitwiseSlicing G) n = Inr m" "same_meaning opt m n"
    using BitwiseSlicing_sound [OF assms, of opt] by (auto simp: sound_result_def)
  moreover obtain k c x i j l ms where ms: "bitwiseSlicing_loop G k c x i j l = Inr ms" "m = mkNode BITVECTOR_CONCAT ms"
    using m(1) by (auto simp: BitwiseSlicing_def Let_def split: prod.splits option.splits)
  have "xor_shape m"
  proof (cases "length ms = 1")
    case True
    then show ?thesis using slices [OF ms(1)] ms(2) by (auto simp: mkNode_def length_Suc_conv)
  qed (simp add: ms(2) mkNode_def xor_shape_def flat_def hasKind_def)
  ultimately show ?thesis using m(2) by blast
qed

lemma RewriteXor_sound:
  assumes iter: "\<And>m. mset (iter m) = mset m" and n: "typeOf n = Some (BITVECTOR_TYPE w)" "hasKind BITVECTOR_XOR n" and w: "w < 2 ^ 31"
  shows "response_sound opt n (RewriteXor G lt iter n pre)"
proof -
  let ?T = "\<lambda>P n. typeOf n = Some (BITVECTOR_TYPE w) \<and> P n"
  have typed: "\<exists>m. r = Inr m \<and> same_meaning opt m n \<and> ?T P m" if "\<exists>m. r = Inr m \<and> same_meaning opt m n \<and> P m" "?T Q n" for r P Q n
    using that by (auto simp: same_meaning_def)
  have slice: "keeps opt (?T xor_shape) (?T xor_shape) [BitwiseSlicing G]"
    by (rule keeps_Cons [OF _ _ keeps_Nil]) (use typed [OF slicing_xor_shape [OF _ _ w]] in auto)
  have zero: "keeps opt (?T xor_shape) (?T xor_shape) [XorZero G, BitwiseSlicing G]"
  proof (rule keeps_Cons [OF _ _ slice])
    fix m t assume m: "?T xor_shape m" "applies (XorZero G) m"
    then have k: "hasKind BITVECTOR_XOR m" by (auto simp: XorZero_def split: if_splits)
    let ?cs = "filter (\<lambda>c. c \<noteq> mkConst G (getSize m) 0) (children m)"
    have nc: "\<not> isConstBV c \<Longrightarrow> c \<noteq> mkConst G v 0" for c v by (auto simp: isConstBV_def mkConst_def)
    then have some: "\<exists>c\<in>set ?cs. \<not> isConstBV c" using m(1) k by (auto simp: xor_shape_def list_ex_iff)
    then have "sound_result opt m (apply_rule (XorZero G) m)" using m nc by (intro XorZero_sound) auto
    moreover have "xor_shape (mkNode BITVECTOR_XOR ?cs)"
      using m(1) k some by (intro xor_shape_mkNode) (auto simp: xor_shape_def flat_def list_all_iff)
    ultimately show "\<exists>l. apply_rule (XorZero G) m = Inr l \<and> same_meaning opt l m \<and> ?T xor_shape l"
      using m(1) by (intro typed) (auto simp: XorZero_def sound_result_def)
  qed simp
  have simplify: "keeps opt (?T (flat BITVECTOR_XOR)) (?T xor_shape) [XorSimplify G lt iter, XorZero G, BitwiseSlicing G]"
  proof (rule keeps_Cons [OF _ _ zero])
    fix m t assume m: "?T (flat BITVECTOR_XOR) m" "applies (XorSimplify G lt iter) m"
    then have k: "hasKind BITVECTOR_XOR m" by (simp add: XorSimplify_def)
    obtain cs cc where cs: "apply_rule (XorSimplify G lt iter) m = Inr (mkSortedNode lt BITVECTOR_XOR (cs @ cc))"
      "same_meaning opt (mkSortedNode lt BITVECTOR_XOR (cs @ cc)) m" "cs @ cc \<noteq> []" "cc = [] \<or> (\<exists>d. cc = [CONST_BITVECTOR d])"
      and e: "\<forall>c\<in>set cs. \<not> isConstBV c \<and> (hasKind BITVECTOR_NOT c \<or> c \<in> set (children m))"
      using XorSimplify_result [where iter = iter and lt = lt and opt = opt, OF iter conjunct1 [OF m(1)] m(2)] by blast
    have "\<forall>c\<in>set cs. \<not> isConstBV c \<and> \<not> hasKind BITVECTOR_XOR c" using e m(1) k by (auto simp: flat_def list_all_iff hasKind_iff)
    from xor_shape_mkSortedNode [OF this cs(4,3)] cs(1,2) m(1)
    show "\<exists>l. apply_rule (XorSimplify G lt iter) m = Inr l \<and> same_meaning opt l m \<and> ?T xor_shape l" by (intro typed) auto
  qed (simp add: XorSimplify_def xor_shape_def)
  have first: "keeps opt (?T (hasKind BITVECTOR_XOR)) (?T xor_shape) [FlattenAssocCommut lt, XorSimplify G lt iter, XorZero G, BitwiseSlicing G]"
    by (rule flatten_keeps [OF _ simplify]) simp
  have one: "keeps opt (?T xor_shape) (\<lambda>m. True) [XorOne G, BitwiseSlicing G]"
  proof (rule keeps_Cons [OF _ _ slicing_keeps [OF w]])
    fix m t assume m: "?T xor_shape m" "applies (XorOne G) m"
    then have k: "hasKind BITVECTOR_XOR m" by (auto simp: XorOne_def split: if_splits)
    have "\<not> isConstBV c \<Longrightarrow> c \<noteq> mkOnes G v" for c v by (auto simp: isConstBV_def mkOnes_def)
    then have "sound_result opt m (apply_rule (XorOne G) m)" using m k by (intro XorOne_sound) (auto simp: xor_shape_def list_ex_iff)
    then show "\<exists>l. apply_rule (XorOne G) m = Inr l \<and> same_meaning opt l m \<and> typeOf l = Some (BITVECTOR_TYPE w)"
      using m(1) by (auto simp: sound_result_def same_meaning_def)
  qed simp
  obtain m where m: "LinearRewriteStrategy [FlattenAssocCommut lt, XorSimplify G lt iter, XorZero G, BitwiseSlicing G] n = Inr m"
    "same_meaning opt m n" "?T xor_shape m" using keeps_sound [OF first n(1)] n by blast
  obtain l where l: "LinearRewriteStrategy [XorOne G, BitwiseSlicing G] m = Inr l" "same_meaning opt l m"
    using keeps_sound [OF one conjunct1 [OF m(3)] m(3)] by blast
  show ?thesis
    unfolding RewriteXor_def m(1) ebind_simps l(1) using response_Inr [OF m(2)] response_Inr [OF same_meaning_trans [OF l(2) m(2)]] by simp
qed

section \<open>Products\<close>

lemma isPow2Const_one:
  assumes "bv_wf d" "0 < d_size d" "isPow2Const G (CONST_BITVECTOR d) = 1"
  shows "d_value d = 1"
proof -
  have t: "typeOf (CONST_BITVECTOR d) = Some (BITVECTOR_TYPE (d_size d))" using assms(1,2) by simp
  obtain k where "isPow2Const G (CONST_BITVECTOR d) = k + 1" "\<And>I. eval I (CONST_BITVECTOR d) = VBV (d_size d) (2 ^ k)"
    using pow2_child [OF _ t] assms(3) by (metis one_neq_zero)
  then show ?thesis using assms(3) by simp
qed

lemma mult_shape_list:
  assumes cs: "\<forall>c\<in>set cs. \<not> isConstBV c" and cc: "\<And>d. c = CONST_BITVECTOR d \<Longrightarrow> bv_wf d \<and> 0 < d_size d \<and> d_value d \<noteq> 1"
  shows "mult_shape G (App BITVECTOR_MULT (cs @ [c]))"
proof -
  have "filter (\<lambda>c. isPow2Const G c \<noteq> 0) cs = []" using cs by (simp add: filter_empty_conv isPow2Const_const)
  moreover have "isPow2Const G c \<noteq> 1" using isPow2Const_one cc by (cases c) (auto simp: isPow2Const_def)
  ultimately show ?thesis by (simp add: mult_shape_def)
qed

lemma MultSimplify_shape:
  assumes n: "typeOf n = Some (BITVECTOR_TYPE w)" "flat BITVECTOR_MULT n"
  shows "applies (MultSimplify G lt) n \<Longrightarrow> \<exists>m. apply_rule (MultSimplify G lt) n = Inr m \<and> same_meaning opt m n \<and> mult_shape G m"
    and "\<not> applies (MultSimplify G lt) n \<Longrightarrow> mult_shape G n"
proof -
  show "\<exists>m. apply_rule (MultSimplify G lt) n = Inr m \<and> same_meaning opt m n \<and> mult_shape G m" if a: "applies (MultSimplify G lt) n"
  proof -
    obtain ns where ns: "n = App BITVECTOR_MULT ns" using a by (auto simp: MultSimplify_def hasKind_iff split: if_splits)
    have w: "0 < w" using typeOf_valid [OF n(1)] by (simp add: valid_width_def)
    obtain m where m: "apply_rule (MultSimplify G lt) n = Inr m" "same_meaning opt m n"
      and sh: "isConst m \<or> (\<exists>cs cc. m = mkNode BITVECTOR_MULT (cs @ cc) \<and> cs @ cc \<noteq> [] \<and> mset cs = mset (filter (\<lambda>n. \<not> isConstBV n) ns) \<and>
        (cc = [] \<or> (\<exists>d. cc = [CONST_BITVECTOR d] \<and> bv_wf d \<and> d_size d = w \<and> d_value d \<noteq> 0 \<and> d_value d \<noteq> 1)))"
      using MultSimplify_result [OF n(1) [unfolded ns], of lt opt] unfolding ns by blast
    have "mult_shape G m"
    proof (cases "isConst m")
      case True
      then show ?thesis by (auto simp: mult_shape_def hasKind_iff isConst_def)
    next
      case False
      with sh obtain cs cc where m': "m = mkNode BITVECTOR_MULT (cs @ cc)" "cs @ cc \<noteq> []" "mset cs = mset (filter (\<lambda>n. \<not> isConstBV n) ns)"
        and cc: "cc = [] \<or> (\<exists>d. cc = [CONST_BITVECTOR d] \<and> bv_wf d \<and> d_size d = w \<and> d_value d \<noteq> 0 \<and> d_value d \<noteq> 1)" by blast
      have cs: "\<forall>c\<in>set cs. \<not> isConstBV c \<and> c \<in> set ns" using mset_eq_setD [OF m'(3)] by auto
      have kinds: "\<forall>c\<in>set (cs @ cc). \<not> hasKind BITVECTOR_MULT c"
        using cs n(2) cc by (auto simp: flat_def ns hasKind_def list_all_iff)
      show ?thesis
      proof (cases "length (cs @ cc) = 1")
        case True
        then have "m \<in> set (cs @ cc)" unfolding m'(1) mkNode_def using nth_mem [of 0 "cs @ cc"] by simp
        then show ?thesis using kinds by (simp add: mult_shape_def)
      next
        case False
        have "mult_shape G (App BITVECTOR_MULT (cs @ cc))"
        proof (cases "cc = []")
          case True
          then show ?thesis using cs by (simp add: mult_shape_def filter_empty_conv isPow2Const_const)
        next
          case False
          then show ?thesis using cc w cs mult_shape_list [of cs] by auto
        qed
        then show ?thesis unfolding m'(1) mkNode_def using False by simp
      qed
    qed
    with m show ?thesis by blast
  qed
  show "mult_shape G n" if a: "\<not> applies (MultSimplify G lt) n"
  proof (cases "hasKind BITVECTOR_MULT n")
    case True
    then obtain ns where ns: "n = App BITVECTOR_MULT ns" by (auto simp: hasKind_iff)
    have ne: "ns \<noteq> []" "all_of_width w ns" using typeOf_nary_nonempty [OF n(1) [unfolded ns]] by auto
    have "\<not> multSimplify_unsorted lt ns" using a True by (auto simp: MultSimplify_def ns split: if_splits)
    moreover have "isConst c" if "isConstBV c" for c using that by (auto simp: isConstBV_iff isConst_def)
    ultimately have b: "\<forall>c\<in>set (butlast ns). \<not> isConstBV c" using multSimplify_sorted_const [of lt ns] by blast
    have l: "bv_wf d \<and> 0 < d_size d \<and> d_value d \<noteq> 1" if d: "last ns = CONST_BITVECTOR d" for d
    proof -
      have t: "typeOf (last ns) = Some (BITVECTOR_TYPE w)" using ne by (auto simp: all_of_width_def list_all_iff)
      then have wd: "bv_wf d" "d_size d = w" "0 < w" by (simp_all add: d)
      have "\<not> BitVector_eq d (BitVector_unsigned G w 1)"
        using a True n(1) by (auto simp: MultSimplify_def ns d isConst_def split: if_splits)
      then show ?thesis using wd by (auto simp: BitVector_eq_def unsigned_BitVector)
    qed
    have "mult_shape G (App BITVECTOR_MULT (butlast ns @ [last ns]))" by (rule mult_shape_list [OF b l])
    then show ?thesis using ne(1) by (simp add: ns)
  qed (simp add: mult_shape_def)
qed

lemma RewriteMult_sound:
  assumes n: "typeOf n = Some t" "hasKind BITVECTOR_MULT n"
  shows "response_sound opt n (RewriteMult G lt n pre)"
proof -
  obtain w where w: "t = BITVECTOR_TYPE w" using n typeOf_nary_nonempty [of BITVECTOR_MULT] by (auto simp: hasKind_iff)
  let ?T = "\<lambda>P n. typeOf n = Some (BITVECTOR_TYPE w) \<and> P n"
  have pow: "keeps opt (?T (mult_shape G)) (\<lambda>m. True) [MultPow2 G]"
  proof (rule keeps_Cons [OF _ _ keeps_Nil])
    fix m u assume m: "?T (mult_shape G) m" "applies (MultPow2 G) m"
    have k: "hasKind BITVECTOR_MULT m" "filter (\<lambda>c. isPow2Const G c \<noteq> 0) (children m) \<noteq> []"
      using m(2) by (auto simp: MultPow2_def list_ex_iff filter_empty_conv split: if_splits)
    then obtain c where "filter (\<lambda>c. isPow2Const G c \<noteq> 0) (children m) = [c]" "isPow2Const G c \<noteq> 1"
      using m(1) by (auto simp: mult_shape_def Let_def)
    moreover have "2 \<le> length (children m)" using m(1) k(1) typeOf_nary_iff [of BITVECTOR_MULT] by (auto simp: hasKind_iff)
    ultimately have "sound_result opt m (apply_rule (MultPow2 G) m)" using MultPow2_sound(2) [OF conjunct1 [OF m(1)] k(1)] by blast
    then show "\<exists>l. apply_rule (MultPow2 G) m = Inr l \<and> same_meaning opt l m \<and> True" by (simp add: sound_result_def)
  qed simp_all
  have simplify: "keeps opt (?T (flat BITVECTOR_MULT)) (\<lambda>m. True) [MultSimplify G lt, MultPow2 G]"
  proof (rule keeps_Cons [OF _ _ pow])
    fix m u assume m: "?T (flat BITVECTOR_MULT) m"
    show "\<exists>l. apply_rule (MultSimplify G lt) m = Inr l \<and> same_meaning opt l m \<and> ?T (mult_shape G) l" if "applies (MultSimplify G lt) m"
      using MultSimplify_shape(1) [OF conjunct1 [OF m] conjunct2 [OF m] that, of opt] m by (auto simp: same_meaning_def)
    show "?T (mult_shape G) m" if "\<not> applies (MultSimplify G lt) m"
      using MultSimplify_shape(2) [OF conjunct1 [OF m] conjunct2 [OF m] that] m by simp
  qed
  obtain m where m: "LinearRewriteStrategy [FlattenAssocCommut lt, MultSimplify G lt, MultPow2 G] n = Inr m" "same_meaning opt m n"
    using keeps_sound [OF flatten_keeps [OF _ simplify, of lt] n(1)] n w by (auto simp del: LinearRewriteStrategy.simps)
  have "typeOf m = Some t" using m(2) n(1) by (simp add: same_meaning_def)
  then obtain l where l: "LinearRewriteStrategy [MultDistribConst G, MultDistrib] m = Inr l" "same_meaning opt l m"
    using linear_sound [of opt "[MultDistribConst G, MultDistrib]" m] MultDistribConst_sound MultDistrib_sound by (auto simp: sound_result_def)
  show ?thesis
    unfolding RewriteMult_def m(1) ebind_simps l(1) using response_Inr [OF m(2)] response_Inr [OF same_meaning_trans [OF l(2) m(2)]] by simp
qed

section \<open>The table\<close>

text \<open>The terms the theory of bit-vectors is asked to rewrite: equalities are between bit-vectors.\<close>

lemma table_sound:
  assumes E: "rw_gmp E = G" "\<And>a b. \<not> rw_less E a b \<Longrightarrow> \<not> rw_less E b a \<Longrightarrow> a = b" "\<And>m. mset (rw_iter E m) = mset m"
    and n: "typeOf (App k ns) = Some t" and narrow: "narrow (App k ns)"
    and eq: "k = EQUAL \<Longrightarrow> bv_typed (ns ! 0)"
    and self: "\<And>m. k = BITVECTOR_UDIV_TOTAL \<Longrightarrow> LinearRewriteStrategy [EvalUdiv G, UdivOne G] (App k ns) = Inr m \<Longrightarrow> \<not> applies (UdivSelf G) m"
  shows "response_sound (rw_divByZeroConst E) (App k ns) (d_rewriteTable E k (App k ns) pre)"
proof -
  let ?n = "App k ns" and ?opt = "rw_divByZeroConst E" and ?lt = "rw_less E" and ?iter = "rw_iter E"
  have gen: "response_sound ?opt ?n (f ?n pre)" if "rewrite_sound ?opt f" for f using that n by (simp add: rewrite_sound_def)
  note sound = comparison_rewrites_sound operator_rewrites_sound shift_rewrites_sound RewriteUrem_sound RewritePlus_sound
  have bits: "response_sound ?opt ?n (RewriteAnd G ?lt ?iter ?n pre)" "response_sound ?opt ?n (RewriteOr G ?lt ?iter ?n pre)"
    "k = BITVECTOR_XOR \<Longrightarrow> response_sound ?opt ?n (RewriteXor G ?lt ?iter ?n pre)" if k: "k \<in> bitwise_kinds"
  proof -
    have "k \<in> nary_kinds" using k by auto
    then obtain w where w: "typeOf ?n = Some (BITVECTOR_TYPE w)" using typeOf_nary_nonempty [OF n] n by blast
    have lim: "w < 2 ^ 31" using narrow_size [OF narrow] w by simp
    show "response_sound ?opt ?n (RewriteAnd G ?lt ?iter ?n pre)" "response_sound ?opt ?n (RewriteOr G ?lt ?iter ?n pre)"
      by (rule bitwise_rewrites_sound [OF E(3) w lim])+
    show "response_sound ?opt ?n (RewriteXor G ?lt ?iter ?n pre)" if "k = BITVECTOR_XOR"
      by (rule RewriteXor_sound [OF E(3) w _ lim]) (simp add: that hasKind_def)
  qed
  have equal: "response_sound ?opt ?n (RewriteEqual G ?lt ?n pre)" if "k = EQUAL"
    using eq [OF that] RewriteEqual_sound [where lt = ?lt, OF E(2) n] that by (auto simp: bv_typed_def hasKind_def)
  have mult: "response_sound ?opt ?n (RewriteMult G ?lt ?n pre)" if "k = BITVECTOR_MULT"
    by (rule RewriteMult_sound [OF n]) (simp add: that hasKind_def)
  have udiv: "response_sound ?opt ?n (RewriteUdiv G ?n pre)" if "k = BITVECTOR_UDIV"
    by (rule RewriteUdiv_sound [OF n]) (simp add: that hasKind_def)
  have total: "response_sound ?opt ?n (RewriteUdivTotal G ?n pre)" if "k = BITVECTOR_UDIV_TOTAL"
    by (rule RewriteUdivTotal_sound [OF n]) (use self that in \<open>auto simp: hasKind_def\<close>)
  have rem: "response_sound ?opt ?n (RewriteUremTotal G ?n pre)" if "k = BITVECTOR_UREM_TOTAL"
    by (rule RewriteUremTotal_sound [OF n]) (use that in \<open>auto simp: hasKind_def\<close>)
  have slice: "response_sound ?opt ?n (RewriteExtract G arith ?n pre)" if "k = BITVECTOR_EXTRACT high low" for high low arith
    by (rule RewriteExtract_sound [OF n _ narrow]) (simp add: that isParam_iff)
  have ident: "response_sound ?opt ?n (IdentityRewrite ?n pre)" by (simp add: IdentityRewrite_def response_done)
  show ?thesis
    unfolding d_rewriteTable_def Let_def E(1)
    using bits equal mult udiv total rem slice ident RewriteNeg_sound [OF n] sound [THEN gen] by (cases k) simp_all
qed

end

end
