(* ===== verification/Theory_Of.thy ===== *)
theory Theory_Of
  imports Node_Semantics
begin

text \<open>
  \<open>Theory::theoryOf\<close> (\<open>src/src/theory/theory.cpp\<close>, \<open>src/src/theory/theory.h\<close>): which theory owns a term, in
  the type-based mode, the default, and in the term-based one. \<open>owner\<close> is \<open>s_uninterpretedSortOwner\<close>. The
  theories are listed in the order of \<open>Makefile.theories\<close>, which is the order of their identifiers; the
  owner of a kind is the directory of the \<open>kinds\<close> file that declares it.
\<close>

datatype theoryId =
    THEORY_BUILTIN | THEORY_BOOL | THEORY_UF | THEORY_ARITH | THEORY_BV | THEORY_FP | THEORY_ARRAY
  | THEORY_DATATYPES | THEORY_SEP | THEORY_SETS | THEORY_STRINGS | THEORY_QUANTIFIERS | THEORY_IDL

definition theoryIds :: "theoryId list" where
  "theoryIds = [THEORY_BUILTIN, THEORY_BOOL, THEORY_UF, THEORY_ARITH, THEORY_BV, THEORY_FP, THEORY_ARRAY,
     THEORY_DATATYPES, THEORY_SEP, THEORY_SETS, THEORY_STRINGS, THEORY_QUANTIFIERS, THEORY_IDL]"

definition theoryId_less :: "theoryId \<Rightarrow> theoryId \<Rightarrow> bool" where
  "theoryId_less a b \<longleftrightarrow> b \<in> set (tl (dropWhile (\<lambda>x. x \<noteq> a) theoryIds))"

datatype theoryOfMode = THEORY_OF_TYPE_BASED | THEORY_OF_TERM_BASED

definition kindToTheoryId :: "kind \<Rightarrow> theoryId" where
  "kindToTheoryId k = (if k = EQUAL then THEORY_BUILTIN
     else if k \<in> {NOT, AND, IMPLIES, OR, XOR, ITE} then THEORY_BOOL else THEORY_BV)"

definition theoryOf_type :: "theoryId \<Rightarrow> typeNode \<Rightarrow> theoryId" where
  "theoryOf_type owner t =
     (let i = (case t of NULL_TYPE \<Rightarrow> THEORY_BUILTIN | BOOLEAN_TYPE \<Rightarrow> THEORY_BOOL | BITVECTOR_TYPE w \<Rightarrow> THEORY_BV)
      in if i = THEORY_BUILTIN then owner else i)"

text \<open>Constants are owned by the theory of their type in both modes. An equality has two children (the node
  builder checks it).\<close>

definition is_ite :: "node \<Rightarrow> bool" where
  "is_ite n = (case n of App ITE ns \<Rightarrow> True | _ \<Rightarrow> False)"

fun theoryOf :: "theoryId \<Rightarrow> theoryOfMode \<Rightarrow> node \<Rightarrow> theoryId exc" where
  "theoryOf owner mode (Variable i t) =
     (case mode of
        THEORY_OF_TYPE_BASED \<Rightarrow> Inr (theoryOf_type owner t)
      | THEORY_OF_TERM_BASED \<Rightarrow> Inr (if theoryOf_type owner t \<noteq> THEORY_BOOL then owner else THEORY_BOOL))"
| "theoryOf owner mode (CONST_BOOLEAN b) = Inr (theoryOf_type owner BOOLEAN_TYPE)"
| "theoryOf owner mode (CONST_BITVECTOR c) = ebind (getType False (CONST_BITVECTOR c)) (\<lambda>t. Inr (theoryOf_type owner t))"
| "theoryOf owner mode (App k ns) =
     (case (k, ns) of
        (EQUAL, [l, r]) \<Rightarrow>
          (case mode of
             THEORY_OF_TYPE_BASED \<Rightarrow> ebind (getType False l) (\<lambda>t. Inr (theoryOf_type owner t))
           | THEORY_OF_TERM_BASED \<Rightarrow>
               if is_ite l then ebind (getType False l) (\<lambda>t. Inr (theoryOf_type owner t))
               else if is_ite r then ebind (getType False r) (\<lambda>t. Inr (theoryOf_type owner t))
               else
                 ebind (getType False l) (\<lambda>ltype.
                 ebind (getType False r) (\<lambda>rtype.
                 if ltype \<noteq> rtype then Inr (theoryOf_type owner ltype)
                 else
                   ebind (theoryOf owner mode l) (\<lambda>T1.
                   ebind (theoryOf owner mode r) (\<lambda>T2.
                   if T1 = T2 then Inr T1
                   else
                     let T3 = theoryOf_type owner ltype
                     in if T1 = T3 then Inr T2
                        else if T2 = T3 then Inr T1
                        else Inr (if theoryId_less T1 T2 then T1 else T2))))))
      | (EQUAL, _) \<Rightarrow> Inl AssertionException
      | _ \<Rightarrow> Inr (kindToTheoryId k))"

text \<open>In the type-based mode the Boolean theory owns exactly the Boolean structure: Boolean variables and
  constants, the connectives, and equality of Booleans.\<close>

definition bool_connective :: "node \<Rightarrow> bool" where
  "bool_connective n =
     (case n of
        App k ns \<Rightarrow> k \<in> {NOT, AND, IMPLIES, OR, XOR, ITE} \<or> k = EQUAL \<and> (case ns of m # ms \<Rightarrow> getType False m = Inr BOOLEAN_TYPE | [] \<Rightarrow> False)
      | _ \<Rightarrow> False)"

lemma theoryOf_type_based:
  assumes "typeOf n = Some BOOLEAN_TYPE"
  shows "\<exists>i. theoryOf owner THEORY_OF_TYPE_BASED n = Inr i \<and>
    (i = THEORY_BOOL \<longleftrightarrow> bool_connective n \<or> (case n of App k ns \<Rightarrow> False | _ \<Rightarrow> True))"
proof (cases n)
  case (App k ns)
  show ?thesis
  proof (cases "k = EQUAL")
    case True
    with assms App obtain l r u where ns: "ns = [l, r]" "typeOf l = Some u" "valid_type u"
      unfolding typeOf_App_iff by (auto simp: App type_op_mixed list_all2_Cons2 typeOf_App_iff)
    then show ?thesis using True App getType_typeOf [OF ns(2), of False]
      by (cases u) (auto simp: bool_connective_def theoryOf_type_def)
  next
    case False
    then have "theoryOf owner THEORY_OF_TYPE_BASED n = Inr (kindToTheoryId k)" by (simp add: App split: kind.split)
    then show ?thesis using False App by (auto simp: bool_connective_def kindToTheoryId_def)
  qed
next
  case (CONST_BITVECTOR c)
  then show ?thesis using assms by (simp add: mk_bvtype_def split: if_splits)
qed (use assms in \<open>auto simp: bool_connective_def theoryOf_type_def split: if_splits\<close>)

end
