(* ===== verification/Resource_Manager.thy ===== *)
theory Resource_Manager
  imports Prelude "HOL-Library.Word" "HOL-Library.Signed_Division"
begin

text \<open>
  Resource limits: \<open>Timer\<close> and \<open>ResourceManager\<close> (\<open>src/src/util/resource_manager.cpp\<close>, \<open>resource_manager.h\<close>), the
  listeners of \<open>src/src/base/listener.cpp\<close>, what \<open>NodeManager::init\<close> does with the options and the option listeners
  of \<open>src/src/expr/node_manager_listeners.cpp\<close>. Counters and budgets are 64-bit words and wrap around. The clocks are an
  argument: \<open>now i\<close> is the \<open>i\<close>-th reading an operation takes, with the time of day (\<open>gettimeofday\<close>) and the processor time
  (\<open>clock\<close>, in microseconds, as \<open>CLOCKS_PER_SEC\<close> is \<open>10 ^ 6\<close> on POSIX systems). The listeners that are called are
  recorded in \<open>notified\<close>.
\<close>

section \<open>Timers\<close>

record reading =
  tv_sec :: int
  tv_usec :: int
  cpu_clock :: int

record timer =
  d_ms :: "64 word"
  d_wall_sec :: int
  d_wall_usec :: int
  d_cpu_start_time :: int
  d_cpu_limit :: int
  d_wall_time :: bool

text \<open>A result stored in a \<open>clock_t\<close> or a \<open>long\<close>.\<close>

definition to_long :: "int \<Rightarrow> int" where
  "to_long x = sint (word_of_int x :: 64 word)"

definition new_Timer :: timer where
  "new_Timer = \<lparr>d_ms = 0, d_wall_sec = 0, d_wall_usec = 0, d_cpu_start_time = 0, d_cpu_limit = 0, d_wall_time = True\<rparr>"

definition Timer_on :: "timer \<Rightarrow> bool" where
  "Timer_on T \<longleftrightarrow> d_ms T \<noteq> 0"

definition Timer_set :: "reading \<Rightarrow> 64 word \<Rightarrow> bool \<Rightarrow> timer \<Rightarrow> timer" where
  "Timer_set now millis wallTime T =
     (let T = T\<lparr>d_ms := millis, d_wall_time := wallTime\<rparr>
      in if wallTime then
           let sec = tv_sec now + uint (millis div 1000); usec = tv_usec now + uint (millis mod 1000 * 1000)
           in if usec > 1000000 then T\<lparr>d_wall_sec := sec + 1, d_wall_usec := usec - 1000000\<rparr>
              else T\<lparr>d_wall_sec := sec, d_wall_usec := usec\<rparr>
         else
           let start = cpu_clock now div 1000
           in T\<lparr>d_cpu_start_time := start, d_cpu_limit := to_long (start + uint millis)\<rparr>)"

definition Timer_elapsedWall :: "reading \<Rightarrow> timer \<Rightarrow> 64 word" where
  "Timer_elapsedWall now T =
     (let sec = tv_sec now - (d_wall_sec T - uint (d_ms T div 1000));
          usec = tv_usec now - (d_wall_usec T - uint (d_ms T mod 1000 * 1000))
      in word_of_int (sec * 1000 + usec sdiv 1000))"

definition Timer_elapsedCPU :: "reading \<Rightarrow> timer \<Rightarrow> 64 word" where
  "Timer_elapsedCPU now T = word_of_int ((cpu_clock now - 1000 * d_cpu_start_time T) sdiv 1000)"

definition Timer_elapsed :: "reading \<Rightarrow> timer \<Rightarrow> 64 word" where
  "Timer_elapsed now T = (if d_wall_time T then Timer_elapsedWall now T else Timer_elapsedCPU now T)"

definition Timer_expired :: "reading \<Rightarrow> timer \<Rightarrow> bool" where
  "Timer_expired now T \<longleftrightarrow>
     Timer_on T \<and>
     (if d_wall_time T
      then d_wall_sec T < tv_sec now \<or> d_wall_sec T = tv_sec now \<and> d_wall_usec T \<le> tv_usec now
      else cpu_clock now \<ge> 1000 * d_cpu_limit T)"

section \<open>The resource manager\<close>

datatype listener = SoftResourceOutListener | HardResourceOutListener

record resource_manager =
  d_cumulativeTimer :: timer
  d_perCallTimer :: timer
  d_timeBudgetCumulative :: "64 word"
  d_timeBudgetPerCall :: "64 word"
  d_resourceBudgetCumulative :: "64 word"
  d_resourceBudgetPerCall :: "64 word"
  d_cumulativeTimeUsed :: "64 word"
  d_cumulativeResourceUsed :: "64 word"
  d_thisCallResourceUsed :: "64 word"
  d_thisCallTimeBudget :: "64 word"
  d_thisCallResourceBudget :: "64 word"
  d_isHardLimit :: bool
  d_on :: bool
  d_cpuTime :: bool
  d_spendResourceCalls :: "64 word"
  d_hardListeners :: "listener list"
  d_softListeners :: "listener list"
  notified :: "listener list"

definition s_resourceCount :: "64 word" where
  "s_resourceCount = 1000"

definition new_ResourceManager :: resource_manager where
  "new_ResourceManager =
     \<lparr>d_cumulativeTimer = new_Timer, d_perCallTimer = new_Timer, d_timeBudgetCumulative = 0, d_timeBudgetPerCall = 0,
      d_resourceBudgetCumulative = 0, d_resourceBudgetPerCall = 0, d_cumulativeTimeUsed = 0, d_cumulativeResourceUsed = 0,
      d_thisCallResourceUsed = 0, d_thisCallTimeBudget = 0, d_thisCallResourceBudget = 0, d_isHardLimit = False,
      d_on = False, d_cpuTime = False, d_spendResourceCalls = 0, d_hardListeners = [], d_softListeners = [], notified = []\<rparr>"

definition setResourceLimit :: "64 word \<Rightarrow> bool \<Rightarrow> resource_manager \<Rightarrow> resource_manager" where
  "setResourceLimit units cumulative rm =
     (let rm = rm\<lparr>d_on := True\<rparr>
      in if cumulative then
           let budget = (if units = 0 then 0 else d_cumulativeResourceUsed rm + units)
           in rm\<lparr>d_resourceBudgetCumulative := budget, d_thisCallResourceBudget := budget\<rparr>
         else rm\<lparr>d_resourceBudgetPerCall := units\<rparr>)"

definition setTimeLimit :: "(nat \<Rightarrow> reading) \<Rightarrow> 64 word \<Rightarrow> bool \<Rightarrow> resource_manager \<Rightarrow> resource_manager" where
  "setTimeLimit now millis cumulative rm =
     (let rm = rm\<lparr>d_on := True\<rparr>
      in if cumulative then
           rm\<lparr>d_timeBudgetCumulative := (if millis = 0 then 0 else d_cumulativeTimeUsed rm + millis),
              d_cumulativeTimer := Timer_set (now 0) millis (\<not> d_cpuTime rm) (d_cumulativeTimer rm)\<rparr>
         else rm\<lparr>d_timeBudgetPerCall := millis\<rparr>)"

definition getResourceUsage :: "resource_manager \<Rightarrow> 64 word" where
  "getResourceUsage rm = d_cumulativeResourceUsed rm"

definition getTimeUsage :: "(nat \<Rightarrow> reading) \<Rightarrow> resource_manager \<Rightarrow> 64 word" where
  "getTimeUsage now rm =
     (if d_timeBudgetCumulative rm \<noteq> 0 then Timer_elapsed (now 0) (d_cumulativeTimer rm) else d_cumulativeTimeUsed rm)"

definition getResourceRemaining :: "resource_manager \<Rightarrow> 64 word" where
  "getResourceRemaining rm =
     (if d_thisCallResourceBudget rm \<le> d_thisCallResourceUsed rm then 0
      else d_thisCallResourceBudget rm - d_thisCallResourceUsed rm)"

definition getTimeRemaining :: "(nat \<Rightarrow> reading) \<Rightarrow> resource_manager \<Rightarrow> 64 word" where
  "getTimeRemaining now rm =
     (let time_passed = Timer_elapsed (now 0) (d_cumulativeTimer rm)
      in if time_passed \<ge> d_thisCallTimeBudget rm then 0 else d_thisCallTimeBudget rm - time_passed)"

definition cumulativeLimitOn :: "resource_manager \<Rightarrow> bool" where
  "cumulativeLimitOn rm \<longleftrightarrow> d_timeBudgetCumulative rm \<noteq> 0 \<or> d_resourceBudgetCumulative rm \<noteq> 0"

definition perCallLimitOn :: "resource_manager \<Rightarrow> bool" where
  "perCallLimitOn rm \<longleftrightarrow> d_timeBudgetPerCall rm \<noteq> 0 \<or> d_resourceBudgetPerCall rm \<noteq> 0"

definition outOfResources :: "resource_manager \<Rightarrow> bool" where
  "outOfResources rm \<longleftrightarrow>
     \<not> (d_resourceBudgetPerCall rm = 0 \<and> d_resourceBudgetCumulative rm = 0) \<and> getResourceRemaining rm = 0"

definition outOfTime :: "(nat \<Rightarrow> reading) \<Rightarrow> resource_manager \<Rightarrow> bool" where
  "outOfTime now rm \<longleftrightarrow>
     \<not> (d_timeBudgetPerCall rm = 0 \<and> d_timeBudgetCumulative rm = 0) \<and>
     (Timer_expired (now 0) (d_cumulativeTimer rm) \<or> Timer_expired (now 1) (d_perCallTimer rm))"

definition rm_out :: "(nat \<Rightarrow> reading) \<Rightarrow> resource_manager \<Rightarrow> bool" where
  "rm_out now rm \<longleftrightarrow> d_on rm \<and> (outOfResources rm \<or> outOfTime now rm)"

definition notify :: "listener list \<Rightarrow> resource_manager \<Rightarrow> resource_manager" where
  "notify ls rm = rm\<lparr>notified := notified rm @ ls\<rparr>"

definition spendResource :: "(nat \<Rightarrow> reading) \<Rightarrow> 32 word \<Rightarrow> resource_manager \<Rightarrow> resource_manager \<times> unit exc" where
  "spendResource now ammount rm =
     (let rm = rm\<lparr>d_spendResourceCalls := d_spendResourceCalls rm + 1,
                 d_cumulativeResourceUsed := d_cumulativeResourceUsed rm + ucast ammount\<rparr>
      in if \<not> d_on rm then (rm, Inr ())
         else
           let rm = rm\<lparr>d_thisCallResourceUsed := d_thisCallResourceUsed rm + ucast ammount\<rparr>
           in if rm_out now rm then
                if d_isHardLimit rm then (notify (d_hardListeners rm) rm, Inl UnsafeInterruptException)
                else (notify (d_softListeners rm) rm, Inr ())
              else (rm, Inr ()))"

text \<open>The two parts of \<open>beginCall\<close>: the budget left by the cumulative limits, and the limits of the call.\<close>

definition beginCall_cumulative :: "(nat \<Rightarrow> reading) \<Rightarrow> resource_manager \<Rightarrow> resource_manager" where
  "beginCall_cumulative now rm =
     (let rm = (if d_resourceBudgetCumulative rm \<noteq> 0
                then rm\<lparr>d_thisCallResourceBudget :=
                  (if d_resourceBudgetCumulative rm \<le> d_cumulativeResourceUsed rm then 0
                   else d_resourceBudgetCumulative rm - d_cumulativeResourceUsed rm)\<rparr>
                else rm)
      in if d_timeBudgetCumulative rm \<noteq> 0 then
           let rm = rm\<lparr>d_cumulativeTimeUsed := Timer_elapsed (now 1) (d_cumulativeTimer rm)\<rparr>;
               rm = rm\<lparr>d_thisCallTimeBudget :=
                 (if d_timeBudgetCumulative rm \<le> d_cumulativeTimeUsed rm then 0
                  else d_timeBudgetCumulative rm - d_cumulativeTimeUsed rm)\<rparr>
           in rm\<lparr>d_cumulativeTimer := Timer_set (now 2) (d_thisCallTimeBudget rm) (d_cpuTime rm) (d_cumulativeTimer rm)\<rparr>
         else rm)"

definition beginCall_perCall :: "resource_manager \<Rightarrow> resource_manager" where
  "beginCall_perCall rm =
     (let rm = (if d_resourceBudgetPerCall rm \<noteq> 0
                then rm\<lparr>d_thisCallResourceBudget :=
                  (if d_thisCallResourceBudget rm < d_resourceBudgetPerCall rm \<and> d_thisCallResourceBudget rm \<noteq> 0
                   then d_thisCallResourceBudget rm else d_resourceBudgetPerCall rm)\<rparr>
                else rm)
      in if d_timeBudgetPerCall rm \<noteq> 0
         then rm\<lparr>d_thisCallTimeBudget :=
           (if d_thisCallTimeBudget rm < d_timeBudgetPerCall rm \<and> d_thisCallTimeBudget rm \<noteq> 0
            then d_thisCallTimeBudget rm else d_timeBudgetPerCall rm)\<rparr>
         else rm)"

text \<open>\<open>AlwaysAssert(d_cumulativeTimer.on())\<close> is checked in every build.\<close>

definition beginCall :: "(nat \<Rightarrow> reading) \<Rightarrow> resource_manager \<Rightarrow> resource_manager exc" where
  "beginCall now rm =
     (let rm = rm\<lparr>d_perCallTimer := Timer_set (now 0) (d_timeBudgetPerCall rm) (\<not> d_cpuTime rm) (d_perCallTimer rm),
                 d_thisCallResourceUsed := 0\<rparr>
      in if \<not> d_on rm then Inr rm
         else if cumulativeLimitOn rm then
           if d_timeBudgetCumulative rm \<noteq> 0 \<and> \<not> Timer_on (d_cumulativeTimer rm) then Inl AssertionException
           else
             let rm = beginCall_cumulative now rm
             in if d_thisCallTimeBudget rm = 0 \<or> d_thisCallResourceUsed rm = 0 then Inr rm
                else if perCallLimitOn rm then Inr (beginCall_perCall rm)
                else Inr rm
         else if perCallLimitOn rm then Inr (beginCall_perCall rm)
         else Inr rm)"

definition endCall :: "(nat \<Rightarrow> reading) \<Rightarrow> resource_manager \<Rightarrow> resource_manager" where
  "endCall now rm =
     (let usedInCall = Timer_elapsed (now 0) (d_perCallTimer rm)
      in rm\<lparr>d_perCallTimer := Timer_set (now 1) 0 True (d_perCallTimer rm),
            d_cumulativeTimeUsed := d_cumulativeTimeUsed rm + usedInCall\<rparr>)"

definition useCPUTime :: "bool \<Rightarrow> resource_manager \<Rightarrow> resource_manager" where
  "useCPUTime cpu rm = rm\<lparr>d_cpuTime := cpu\<rparr>"

definition setHardLimit :: "bool \<Rightarrow> resource_manager \<Rightarrow> resource_manager" where
  "setHardLimit v rm = rm\<lparr>d_isHardLimit := v\<rparr>"

definition rm_enable :: "bool \<Rightarrow> resource_manager \<Rightarrow> resource_manager" where
  "rm_enable b rm = rm\<lparr>d_on := b\<rparr>"

definition registerHardListener :: "listener \<Rightarrow> resource_manager \<Rightarrow> resource_manager" where
  "registerHardListener l rm = rm\<lparr>d_hardListeners := d_hardListeners rm @ [l]\<rparr>"

definition registerSoftListener :: "listener \<Rightarrow> resource_manager \<Rightarrow> resource_manager" where
  "registerSoftListener l rm = rm\<lparr>d_softListeners := d_softListeners rm @ [l]\<rparr>"

section \<open>The options\<close>

record limit_options =
  opt_hardLimit :: bool
  opt_cpuTime :: bool
  opt_cumulativeMillisecondLimit :: "64 word"
  opt_perCallMillisecondLimit :: "64 word"
  opt_cumulativeResourceLimit :: "64 word"
  opt_perCallResourceLimit :: "64 word"

text \<open>The part of \<open>NodeManager::init\<close> that sets up the resource manager.\<close>

definition init_limits :: "(nat \<Rightarrow> reading) \<Rightarrow> limit_options \<Rightarrow> resource_manager \<Rightarrow> resource_manager" where
  "init_limits now opts rm =
     (let rm = setHardLimit (opt_hardLimit opts) rm;
          rm = (if opt_perCallResourceLimit opts \<noteq> 0 then setResourceLimit (opt_perCallResourceLimit opts) False rm else rm);
          rm = (if opt_cumulativeResourceLimit opts \<noteq> 0 then setResourceLimit (opt_cumulativeResourceLimit opts) True rm else rm);
          rm = (if opt_perCallMillisecondLimit opts \<noteq> 0 then setTimeLimit now (opt_perCallMillisecondLimit opts) False rm else rm);
          rm = (if opt_cumulativeMillisecondLimit opts \<noteq> 0 then setTimeLimit now (opt_cumulativeMillisecondLimit opts) True rm else rm)
      in if opt_cpuTime opts then useCPUTime True rm else rm)"

definition TlimitListener_notify :: "(nat \<Rightarrow> reading) \<Rightarrow> limit_options \<Rightarrow> resource_manager \<Rightarrow> resource_manager" where
  "TlimitListener_notify now opts rm = setTimeLimit now (opt_cumulativeMillisecondLimit opts) True rm"

definition TlimitPerListener_notify :: "(nat \<Rightarrow> reading) \<Rightarrow> limit_options \<Rightarrow> resource_manager \<Rightarrow> resource_manager" where
  "TlimitPerListener_notify now opts rm = setTimeLimit now (opt_perCallMillisecondLimit opts) False rm"

definition RlimitListener_notify :: "(nat \<Rightarrow> reading) \<Rightarrow> limit_options \<Rightarrow> resource_manager \<Rightarrow> resource_manager" where
  "RlimitListener_notify now opts rm = setTimeLimit now (opt_cumulativeResourceLimit opts) True rm"

definition RlimitPerListener_notify :: "(nat \<Rightarrow> reading) \<Rightarrow> limit_options \<Rightarrow> resource_manager \<Rightarrow> resource_manager" where
  "RlimitPerListener_notify now opts rm = setTimeLimit now (opt_perCallResourceLimit opts) False rm"

section \<open>Timers measure what they should\<close>

definition wall_us :: "reading \<Rightarrow> int" where
  "wall_us now = tv_sec now * 1000000 + tv_usec now"

definition wf_reading :: "reading \<Rightarrow> bool" where
  "wf_reading now \<longleftrightarrow> 0 \<le> tv_usec now \<and> tv_usec now < 1000000"

lemma uint_millis:
  fixes m :: "64 word"
  shows "uint (m div 1000) = uint m div 1000" and "uint (m mod 1000 * 1000) = uint m mod 1000 * 1000"
proof -
  show "uint (m div 1000) = uint m div 1000" by (simp add: uint_div)
  have "uint m mod 1000 * 1000 < 2 ^ 64" using pos_mod_bound [of 1000 "uint m"] by simp
  moreover have "uint (m mod 1000 * 1000) = uint m mod 1000 * 1000 mod 2 ^ 64" by (simp add: uint_word_ariths(3) uint_mod)
  ultimately show "uint (m mod 1000 * 1000) = uint m mod 1000 * 1000" by simp
qed

lemma millis_split: "uint (m :: 64 word) div 1000 * 1000000 + uint m mod 1000 * 1000 = uint m * 1000"
  by presburger

lemma wall_limit:
  assumes "T' = Timer_set start ms True T"
  shows "d_wall_sec T' * 1000000 + d_wall_usec T' = wall_us start + uint ms * 1000" and "d_ms T' = ms" and "d_wall_time T'"
    and "wf_reading start \<Longrightarrow> 0 \<le> d_wall_usec T' \<and> d_wall_usec T' \<le> 1000000"
  using assms millis_split [of ms] pos_mod_bound [of 1000 "uint ms"] pos_mod_sign [of 1000 "uint ms"]
  by (auto simp: Timer_set_def Let_def uint_millis wall_us_def wf_reading_def)

lemma wall_timer_expired:
  assumes "wf_reading start" and "wf_reading now" and "ms \<noteq> 0"
  shows "Timer_expired now (Timer_set start ms True T) \<longleftrightarrow> wall_us start + uint ms * 1000 \<le> wall_us now"
proof -
  define T' where "T' = Timer_set start ms True T"
  note limit = wall_limit [OF T'_def]
  have "Timer_expired now T' \<longleftrightarrow> d_wall_sec T' * 1000000 + d_wall_usec T' \<le> wall_us now"
    using limit(2,3) limit(4) [OF assms(1)] assms(2,3) by (auto simp: Timer_expired_def Timer_on_def wall_us_def wf_reading_def)
  then show ?thesis using limit(1) by (simp only: T'_def)
qed

lemma sdiv_1000: "- 1000 < x - 1000 * (x sdiv 1000) \<and> x - 1000 * (x sdiv 1000) < (1000::int)"
  by (auto simp: signed_divide_int_def sgn_if abs_if; presburger)

lemma wall_timer_elapsed:
  assumes "wf_reading start" and "wf_reading now" and "wall_us start \<le> wall_us now" and "wall_us now - wall_us start < 2 ^ 63"
  shows "\<bar>uint (Timer_elapsedWall now (Timer_set start ms True T)) * 1000 - (wall_us now - wall_us start)\<bar> < 1000"
proof -
  define T' where "T' = Timer_set start ms True T"
  define sec where "sec = tv_sec now - (d_wall_sec T' - uint (ms div 1000))"
  define usec where "usec = tv_usec now - (d_wall_usec T' - uint (ms mod 1000 * 1000))"
  note limit = wall_limit [OF T'_def]
  have total: "sec * 1000000 + usec = wall_us now - wall_us start"
    using limit(1) millis_split [of ms] unfolding sec_def usec_def uint_millis wall_us_def left_diff_distrib
    by (simp only: algebra_simps)
  have nonneg: "0 \<le> sec * 1000 + usec sdiv 1000"
    using total assms(3) sdiv_1000 [of usec] by linarith
  moreover have "sec * 1000 + usec sdiv 1000 < 2 ^ 64"
    using total assms(4) sdiv_1000 [of usec] by simp
  moreover have "Timer_elapsedWall now T' = word_of_int (sec * 1000 + usec sdiv 1000)"
    by (simp only: Timer_elapsedWall_def Let_def limit(2) sec_def usec_def)
  ultimately have "uint (Timer_elapsedWall now T') = sec * 1000 + usec sdiv 1000"
    by (simp add: uint_word_of_int del: of_int_add of_int_mult)
  then show ?thesis unfolding T'_def [symmetric] using total sdiv_1000 [of usec] by linarith
qed

section \<open>Resource limits are enforced\<close>

text \<open>The requests of a call, one after the other, until one is interrupted.\<close>

fun spendResources :: "(nat \<Rightarrow> reading) \<Rightarrow> 32 word list \<Rightarrow> resource_manager \<Rightarrow> resource_manager \<times> unit exc" where
  "spendResources now [] rm = (rm, Inr ())"
| "spendResources now (a # as) rm =
     (case spendResource now a rm of
        (rm, Inl e) \<Rightarrow> (rm, Inl e)
      | (rm, Inr u) \<Rightarrow> spendResources now as rm)"

definition only_resources :: "resource_manager \<Rightarrow> bool" where
  "only_resources rm \<longleftrightarrow> d_on rm \<and> d_timeBudgetPerCall rm = 0 \<and> d_timeBudgetCumulative rm = 0 \<and>
     (d_resourceBudgetPerCall rm \<noteq> 0 \<or> d_resourceBudgetCumulative rm \<noteq> 0)"

lemma remaining_zero: "getResourceRemaining rm = 0 \<longleftrightarrow> d_thisCallResourceBudget rm \<le> d_thisCallResourceUsed rm"
  by (auto simp: getResourceRemaining_def)

lemma spendResource_only_resources:
  assumes "only_resources rm"
  shows "spendResource now a rm =
     (let rm' = rm\<lparr>d_spendResourceCalls := d_spendResourceCalls rm + 1,
                   d_cumulativeResourceUsed := d_cumulativeResourceUsed rm + ucast a,
                   d_thisCallResourceUsed := d_thisCallResourceUsed rm + ucast a\<rparr>
      in if d_thisCallResourceBudget rm \<le> d_thisCallResourceUsed rm + ucast a
         then if d_isHardLimit rm then (notify (d_hardListeners rm) rm', Inl UnsafeInterruptException)
              else (notify (d_softListeners rm) rm', Inr ())
         else (rm', Inr ()))"
  using assms
  by (auto simp: spendResource_def only_resources_def rm_out_def outOfResources_def outOfTime_def remaining_zero Let_def)

lemma unat_amount: "unat (ucast (a :: 32 word) :: 64 word) = unat a"
proof -
  have "unat a < 2 ^ 32" using unsigned_less [of a, where ?'a = nat] by simp
  then show ?thesis by (simp add: unsigned_ucast_eq take_bit_nat_eq_self)
qed

lemma spendResources_hard:
  assumes "only_resources rm" and "d_isHardLimit rm"
    and "unat (d_thisCallResourceUsed rm) + sum_list (map unat as) < 2 ^ 64"
    and "spendResources now as rm = (rm', r)"
  shows "r = (if as \<noteq> [] \<and> unat (d_thisCallResourceBudget rm) \<le> unat (d_thisCallResourceUsed rm) + sum_list (map unat as)
              then Inl UnsafeInterruptException else Inr ()) \<and>
    notified rm' = notified rm @ (if r = Inr () then [] else d_hardListeners rm)"
  using assms
proof (induction as arbitrary: rm)
  case (Cons a as)
  let ?used = "d_thisCallResourceUsed rm + ucast a"
  have used: "unat ?used = unat (d_thisCallResourceUsed rm) + unat a"
    using Cons.prems(3) by (subst unat_add_lem [THEN iffD1]) (auto simp: unat_amount)
  define rm1 where "rm1 = rm\<lparr>d_spendResourceCalls := d_spendResourceCalls rm + 1,
      d_cumulativeResourceUsed := d_cumulativeResourceUsed rm + ucast a, d_thisCallResourceUsed := ?used\<rparr>"
  note step = spendResource_only_resources [OF Cons.prems(1), of now a, folded rm1_def]
  have rm1: "only_resources rm1" "d_isHardLimit rm1" "d_thisCallResourceUsed rm1 = ?used"
    "d_thisCallResourceBudget rm1 = d_thisCallResourceBudget rm" "notified rm1 = notified rm" "d_hardListeners rm1 = d_hardListeners rm"
    using Cons.prems(1,2) by (simp_all add: rm1_def only_resources_def)
  show ?case
  proof (cases "d_thisCallResourceBudget rm \<le> ?used")
    case True
    then show ?thesis using step Cons.prems(2,4) rm1(5) by (auto simp: word_le_nat_alt used notify_def)
  next
    case False
    then have "spendResources now as rm1 = (rm', r)" using step Cons.prems(4) by simp
    then show ?thesis using False Cons.prems(3) Cons.IH [OF rm1(1,2)] unfolding rm1
      by (cases as) (auto simp: word_le_nat_alt used)
  qed
qed auto

text \<open>The budget a call gets.\<close>

definition call_budget :: "resource_manager \<Rightarrow> 64 word" where
  "call_budget rm =
     (if d_resourceBudgetCumulative rm \<noteq> 0 then
        if d_resourceBudgetCumulative rm \<le> d_cumulativeResourceUsed rm then 0
        else d_resourceBudgetCumulative rm - d_cumulativeResourceUsed rm
      else if d_thisCallResourceBudget rm < d_resourceBudgetPerCall rm \<and> d_thisCallResourceBudget rm \<noteq> 0
      then d_thisCallResourceBudget rm
      else d_resourceBudgetPerCall rm)"

lemma beginCall_only_resources:
  assumes "only_resources rm"
  obtains rm' where "beginCall now rm = Inr rm'" and "only_resources rm'" and "d_isHardLimit rm' = d_isHardLimit rm"
    and "d_thisCallResourceUsed rm' = 0" and "d_thisCallResourceBudget rm' = call_budget rm"
    and "notified rm' = notified rm" and "d_hardListeners rm' = d_hardListeners rm"
proof -
  note defs = beginCall_def only_resources_def Let_def cumulativeLimitOn_def perCallLimitOn_def beginCall_cumulative_def
      beginCall_perCall_def call_budget_def
  have "\<exists>rm'. beginCall now rm = Inr rm'" using assms by (auto simp: defs)
  then obtain rm' where rm': "beginCall now rm = Inr rm'" by blast
  show thesis
    by (rule that [OF rm']) (use assms rm' in \<open>auto simp: defs split: if_splits\<close>)
qed

section \<open>The cumulative time limit\<close>

text \<open>A process that computes all the time: both clocks show the same time, in milliseconds; complete calls that begin and end at such
  times, as \<open>SmtEngine\<close> pairs them.\<close>

definition at_cpu :: "nat \<Rightarrow> nat \<Rightarrow> reading" where
  "at_cpu t = (\<lambda>i. \<lparr>tv_sec = int t div 1000, tv_usec = int t mod 1000 * 1000, cpu_clock = int t * 1000\<rparr>)"

fun completeCalls :: "(nat \<times> nat) list \<Rightarrow> resource_manager \<Rightarrow> resource_manager exc" where
  "completeCalls [] rm = Inr rm"
| "completeCalls ((b, e) # cs) rm = ebind (beginCall (at_cpu b) rm) (\<lambda>rm. completeCalls cs (endCall (at_cpu e) rm))"

lemma completeCalls_append: "completeCalls (cs @ ds) rm = ebind (completeCalls cs rm) (completeCalls ds)"
proof (induction cs rm rule: completeCalls.induct)
  case (2 b e cs rm)
  then show ?case by (cases "beginCall (at_cpu b) rm") simp_all
qed simp

text \<open>The cumulative timer runs on the processor clock since \<open>t\<close>, with \<open>left\<close> milliseconds.\<close>

definition cpu_timed :: "nat \<Rightarrow> nat \<Rightarrow> nat \<Rightarrow> resource_manager \<Rightarrow> bool" where
  "cpu_timed budget t left rm \<longleftrightarrow>
     d_on rm \<and> \<not> d_cpuTime rm \<and> unat (d_timeBudgetCumulative rm) = budget \<and> d_timeBudgetPerCall rm = 0 \<and>
     d_ms (d_perCallTimer rm) = 0 \<and> \<not> d_wall_time (d_cumulativeTimer rm) \<and> unat (d_ms (d_cumulativeTimer rm)) = left \<and>
     d_cpu_start_time (d_cumulativeTimer rm) = int t \<and> d_cpu_limit (d_cumulativeTimer rm) = int (t + left)"

lemma to_long_id: "- (2 ^ 63) \<le> x \<Longrightarrow> x < 2 ^ 63 \<Longrightarrow> to_long x = x"
  by (simp add: to_long_def sint_sbintrunc' signed_take_bit_int_eq_self)

text \<open>With a cumulative limit the early return of \<open>beginCall\<close> is always taken: \<open>d_thisCallResourceUsed\<close> has just been reset.\<close>

lemma beginCall_cumulative_only:
  assumes "d_on rm" and "cumulativeLimitOn rm" and "d_timeBudgetCumulative rm \<noteq> 0 \<Longrightarrow> Timer_on (d_cumulativeTimer rm)"
  shows "beginCall now rm = Inr (beginCall_cumulative now
     (rm\<lparr>d_perCallTimer := Timer_set (now 0) (d_timeBudgetPerCall rm) (\<not> d_cpuTime rm) (d_perCallTimer rm), d_thisCallResourceUsed := 0\<rparr>))"
  using assms by (auto simp: beginCall_def Let_def cumulativeLimitOn_def beginCall_cumulative_def)

lemma beginCall_cumulative_frame:
  "d_on (beginCall_cumulative now rm) = d_on rm" "d_cpuTime (beginCall_cumulative now rm) = d_cpuTime rm"
  "d_timeBudgetCumulative (beginCall_cumulative now rm) = d_timeBudgetCumulative rm"
  "d_timeBudgetPerCall (beginCall_cumulative now rm) = d_timeBudgetPerCall rm"
  "d_perCallTimer (beginCall_cumulative now rm) = d_perCallTimer rm"
  by (simp_all add: beginCall_cumulative_def Let_def)

lemma beginCall_cumulative_timer:
  "d_timeBudgetCumulative rm \<noteq> 0 \<Longrightarrow> \<not> d_timeBudgetCumulative rm \<le> Timer_elapsed (now 1) (d_cumulativeTimer rm) \<Longrightarrow>
    d_cumulativeTimer (beginCall_cumulative now rm) =
      Timer_set (now 2) (d_timeBudgetCumulative rm - Timer_elapsed (now 1) (d_cumulativeTimer rm)) (d_cpuTime rm) (d_cumulativeTimer rm)"
  by (simp add: beginCall_cumulative_def Let_def)

lemma beginCall_cumulative_used:
  "d_timeBudgetCumulative rm \<noteq> 0 \<Longrightarrow>
    d_cumulativeTimeUsed (beginCall_cumulative now rm) = Timer_elapsed (now 1) (d_cumulativeTimer rm)"
  by (simp add: beginCall_cumulative_def Let_def)

lemma endCall_cpu_timed: "cpu_timed budget t left rm \<Longrightarrow> cpu_timed budget t left (endCall now rm)"
  by (simp add: cpu_timed_def endCall_def Let_def) (simp add: Timer_set_def Let_def)

lemma beginCall_cpu_timed:
  assumes "cpu_timed budget t left rm" and "t \<le> t'" and "t' - t < budget" and "t' + budget < 2 ^ 63" and "0 < left"
  obtains rm' where "beginCall (at_cpu t') rm = Inr rm'" and "cpu_timed budget t' (budget - (t' - t)) rm'"
    and "d_cumulativeTimeUsed rm' = of_nat (t' - t)"
proof -
  define B where "B = d_timeBudgetCumulative rm"
  have B: "unat B = budget" "B \<noteq> 0" using assms(1,3) by (auto simp: B_def cpu_timed_def)
  define used :: "64 word" where "used = of_nat (t' - t)"
  have used: "unat used = t' - t" using assms(3,4) by (simp add: used_def unat_of_nat)
  have elapsed: "Timer_elapsed (at_cpu t' i) (d_cumulativeTimer rm) = used" for i
    using assms(1,2) by (simp add: Timer_elapsed_def Timer_elapsedCPU_def cpu_timed_def at_cpu_def used_def signed_divide_int_def sgn_if abs_if of_nat_diff)
  have less: "\<not> B \<le> used" using assms(3) B(1) used by (simp add: word_le_nat_alt)
  have left: "unat (B - used) = budget - (t' - t)" using assms(3) B(1) used by (simp add: unat_sub word_le_nat_alt)
  then have "uint (B - used) = int (budget - (t' - t))" by (metis uint_nat)
  moreover have "to_long (int t' + int (budget - (t' - t))) = int (t' + (budget - (t' - t)))" using assms(4) by (subst to_long_id) auto
  moreover have start: "beginCall (at_cpu t') rm = Inr (beginCall_cumulative (at_cpu t') (rm\<lparr>d_perCallTimer :=
      Timer_set (at_cpu t' 0) (d_timeBudgetPerCall rm) (\<not> d_cpuTime rm) (d_perCallTimer rm), d_thisCallResourceUsed := 0\<rparr>))"
    using assms(1,5) B(2) by (intro beginCall_cumulative_only) (auto simp: cpu_timed_def cumulativeLimitOn_def Timer_on_def B_def)
  ultimately show thesis
    using assms(1) B less left
    by (intro that [OF start])
      (simp add: cpu_timed_def beginCall_cumulative_frame beginCall_cumulative_timer elapsed B_def [symmetric],
       simp add: Timer_set_def Let_def at_cpu_def,
       simp add: beginCall_cumulative_used elapsed B_def [symmetric], simp add: used_def)
qed

lemma cpu_timed_not_out:
  assumes "cpu_timed budget t left rm" and "s < t + left"
  shows "\<not> outOfTime (at_cpu s) rm"
  using assms by (auto simp: outOfTime_def Timer_expired_def Timer_on_def cpu_timed_def at_cpu_def)

text \<open>The first call turns the timer, set on the wall clock, to the processor clock: \<open>d_cpuTime\<close> is passed for \<open>wallTime\<close>.\<close>

lemma first_call_cpu_timed:
  assumes "0 < limit" and "limit < 2 ^ 63"
  obtains rm where "beginCall (at_cpu 0) (setTimeLimit (at_cpu 0) (of_nat limit) True new_ResourceManager) = Inr rm" and "cpu_timed limit 0 limit rm"
proof -
  define S where "S = setTimeLimit (at_cpu 0) (of_nat limit) True new_ResourceManager"
  define B where "B = (of_nat limit :: 64 word)"
  have B: "unat B = limit" using assms by (simp add: B_def unat_of_nat)
  then have B': "B \<noteq> 0" "\<not> B \<le> 0" "uint B = int limit" using assms(1) by (auto simp: uint_nat)
  have S: "d_on S" "d_cpuTime S = False" "d_timeBudgetCumulative S = B" "d_timeBudgetPerCall S = 0"
    "d_cumulativeTimer S = Timer_set (at_cpu 0 0) B True new_Timer" "d_ms (d_perCallTimer S) = 0"
    using B'(1) by (simp_all add: S_def B_def setTimeLimit_def new_ResourceManager_def new_Timer_def)
  note timer = wall_limit(2,3) [OF refl, of "at_cpu 0 0" B new_Timer]
  have elapsed: "Timer_elapsed (at_cpu 0 i) (Timer_set (at_cpu 0 0) B True new_Timer) = 0" for i
  proof -
    have "\<bar>uint (Timer_elapsedWall (at_cpu 0 i) (Timer_set (at_cpu 0 0) B True new_Timer)) * 1000 - 0\<bar> < 1000"
      using wall_timer_elapsed [of "at_cpu 0 0" "at_cpu 0 i" B new_Timer] by (simp add: wf_reading_def wall_us_def at_cpu_def)
    then have "uint (Timer_elapsedWall (at_cpu 0 i) (Timer_set (at_cpu 0 0) B True new_Timer)) = 0" by linarith
    then show ?thesis unfolding Timer_elapsed_def using timer(2) by (simp add: uint_0_iff)
  qed
  define S1 where "S1 = S\<lparr>d_perCallTimer := Timer_set (at_cpu 0 0) (d_timeBudgetPerCall S) (\<not> d_cpuTime S) (d_perCallTimer S), d_thisCallResourceUsed := 0\<rparr>"
  have S1: "d_on S1" "d_cpuTime S1 = False" "d_timeBudgetCumulative S1 = B" "d_timeBudgetPerCall S1 = 0"
    "d_cumulativeTimer S1 = Timer_set (at_cpu 0 0) B True new_Timer" "d_ms (d_perCallTimer S1) = 0"
    using S by (simp_all add: S1_def Timer_set_def Let_def)
  have start: "beginCall (at_cpu 0) S = Inr (beginCall_cumulative (at_cpu 0) S1)"
    unfolding S1_def using S(1,3,5) B'(1) timer(1) by (intro beginCall_cumulative_only) (simp_all add: cumulativeLimitOn_def Timer_on_def)
  have timer1: "d_cumulativeTimer (beginCall_cumulative (at_cpu 0) S1) = Timer_set (at_cpu 0 2) B False (d_cumulativeTimer S1)"
    using beginCall_cumulative_timer [of S1 "at_cpu 0"] S1 B'(1,2) elapsed by simp
  have "to_long (int limit) = int limit" using assms by (simp add: to_long_id)
  then have "cpu_timed limit 0 limit (beginCall_cumulative (at_cpu 0) S1)"
    using B B' S1 by (simp add: cpu_timed_def beginCall_cumulative_frame timer1) (simp add: Timer_set_def Let_def at_cpu_def)
  with start show thesis using that by (simp add: S_def)
qed

text \<open>However many calls there are, each of \<open>g\<close> milliseconds, the budget of the next one is only reduced by the last of them.\<close>

lemma calls_cpu_timed:
  assumes "0 < g" and "2 * g < limit" and "n * g + limit < 2 ^ 63"
  shows "\<exists>rm rm'. completeCalls (map (\<lambda>i. (i * g, Suc i * g)) [0..<n]) (setTimeLimit (at_cpu 0) (of_nat limit) True new_ResourceManager) = Inr rm \<and>
    beginCall (at_cpu (n * g)) rm = Inr rm' \<and> cpu_timed limit (n * g) (if n = 0 then limit else limit - g) rm' \<and>
    (0 < n \<longrightarrow> d_cumulativeTimeUsed rm' = of_nat g)"
  using assms(3)
proof (induction n)
  case 0
  show ?case using first_call_cpu_timed [of limit] assms(1,2) 0 by auto
next
  case (Suc n)
  let ?S = "setTimeLimit (at_cpu 0) (of_nat limit) True new_ResourceManager" and ?left = "if n = 0 then limit else limit - g"
  have "n * g + limit < 2 ^ 63" using Suc.prems by simp
  from Suc.IH [OF this] obtain rm rm' where rm: "completeCalls (map (\<lambda>i. (i * g, Suc i * g)) [0..<n]) ?S = Inr rm"
    "beginCall (at_cpu (n * g)) rm = Inr rm'" "cpu_timed limit (n * g) ?left rm'" by blast
  have calls: "completeCalls (map (\<lambda>i. (i * g, Suc i * g)) [0..<Suc n]) ?S = Inr (endCall (at_cpu (Suc n * g)) rm')"
    using rm(1,2) by (simp add: completeCalls_append)
  have "0 < ?left" "Suc n * g - n * g < limit" using assms(1,2) by simp_all
  from beginCall_cpu_timed [OF endCall_cpu_timed [OF rm(3)] _ this(2) Suc.prems this(1)]
  obtain rm'' where "beginCall (at_cpu (Suc n * g)) (endCall (at_cpu (Suc n * g)) rm') = Inr rm''"
    "cpu_timed limit (Suc n * g) (limit - (Suc n * g - n * g)) rm''" "d_cumulativeTimeUsed rm'' = of_nat (Suc n * g - n * g)" by auto
  with calls show ?case by simp
qed

text \<open>When a call begins after the limit has been reached, the timer is set to zero, which turns it off: the call has no limit
  at all, and the next one fails the assertion that the timer is on.\<close>

lemma exhausted_time_limit:
  assumes "d_on rm" and "Timer_on (d_cumulativeTimer rm)" and "d_timeBudgetCumulative rm \<noteq> 0" and "d_timeBudgetPerCall rm = 0"
    and "d_timeBudgetCumulative rm \<le> Timer_elapsed (now 1) (d_cumulativeTimer rm)"
  shows "\<exists>rm'. beginCall now rm = Inr rm' \<and> \<not> outOfTime later rm' \<and> beginCall afterwards (endCall later rm') = Inl AssertionException"
proof -
  define rm1 where "rm1 = rm\<lparr>d_perCallTimer := Timer_set (now 0) (d_timeBudgetPerCall rm) (\<not> d_cpuTime rm) (d_perCallTimer rm), d_thisCallResourceUsed := 0\<rparr>"
  have rm1: "d_on rm1" "d_timeBudgetCumulative rm1 \<noteq> 0" "d_ms (d_perCallTimer rm1) = 0"
    "d_timeBudgetCumulative rm1 \<le> Timer_elapsed (now 1) (d_cumulativeTimer rm1)"
    using assms by (simp_all add: rm1_def Timer_set_def Let_def)
  have start: "beginCall now rm = Inr (beginCall_cumulative now rm1)"
    unfolding rm1_def using assms(1-3) by (intro beginCall_cumulative_only) (simp_all add: cumulativeLimitOn_def)
  have timer: "d_ms (d_cumulativeTimer (beginCall_cumulative now rm1)) = 0"
    using rm1(2,4) by (simp add: beginCall_cumulative_def Let_def) (simp add: Timer_set_def Let_def)
  have "\<not> outOfTime later (beginCall_cumulative now rm1)"
    using timer rm1(3) by (simp add: outOfTime_def Timer_expired_def Timer_on_def beginCall_cumulative_frame)
  moreover have "beginCall afterwards (endCall later (beginCall_cumulative now rm1)) = Inl AssertionException"
    using timer rm1(1,2) by (simp add: beginCall_def endCall_def Let_def cumulativeLimitOn_def Timer_on_def beginCall_cumulative_frame)
  ultimately show ?thesis using start by blast
qed

end
