(* ===== verification/Generic_Rewriter.thy ===== *)
theory Generic_Rewriter
  imports Bool_Rewriter BV_Rewrite_Table Theory_Of Resource_Manager
begin

text \<open>
  The generic rewriter (\<open>src/src/theory/rewriter.cpp\<close>): the stack machine of \<open>Rewriter::rewriteTo\<close> with its caches
  (\<open>src/src/theory/rewriter_attributes.h\<close>), the dispatch to the rewriters of the theories
  (\<open>src/src/theory/rewriter_tables_template.h\<close>) and the resource it spends in every iteration. A rewriter of a theory that is
  not modelled is a parameter. The loops are partial functions: \<open>None\<close> means that rewriting does not end.
  \<open>calls\<close> records the calls of theory rewriters; the code has no such field.
\<close>

section \<open>State\<close>

text \<open>The attributes that hold the caches: no attribute, the null node (the node is its own rewrite) or a node.\<close>

type_synonym rewrite_cache = "theoryId \<times> node \<Rightarrow> node option option"

record rewriter_state =
  pre_rewrite :: rewrite_cache
  post_rewrite :: rewrite_cache
  d_iterationCount :: "64 word"
  d_resourceManager :: resource_manager
  calls :: "(bool \<times> theoryId \<times> node) list"

text \<open>The environment: the theory rewriters, whether an \<open>SmtEngine\<close> is in scope, the option \<open>rewriteStep\<close>, the clock
  readings of the \<open>i\<close>-th request of a resource, and \<open>s_uninterpretedSortOwner\<close>.\<close>

record rewriter_env =
  callPreRewrite :: "theoryId \<Rightarrow> node \<Rightarrow> RewriteResponse exc"
  callPostRewrite :: "theoryId \<Rightarrow> node \<Rightarrow> RewriteResponse exc"
  hasSmtEngine :: bool
  rewriteStep :: "32 word"
  clockAt :: "nat \<Rightarrow> nat \<Rightarrow> reading"
  sortOwner :: theoryId

section \<open>Caches\<close>

definition getCache :: "rewrite_cache \<Rightarrow> theoryId \<Rightarrow> node \<Rightarrow> node option" where
  "getCache cache i n =
     (case cache (i, n) of
        None \<Rightarrow> None
      | Some None \<Rightarrow> Some n
      | Some (Some c) \<Rightarrow> Some c)"

definition setCache :: "theoryId \<Rightarrow> node \<Rightarrow> node \<Rightarrow> rewrite_cache \<Rightarrow> rewrite_cache" where
  "setCache i n c cache = cache((i, n) := Some (if n = c then None else Some c))"

definition getPreRewriteCache :: "theoryId \<Rightarrow> node \<Rightarrow> rewriter_state \<Rightarrow> node option" where
  "getPreRewriteCache i n st = getCache (pre_rewrite st) i n"

definition setPreRewriteCache :: "theoryId \<Rightarrow> node \<Rightarrow> node \<Rightarrow> rewriter_state \<Rightarrow> rewriter_state" where
  "setPreRewriteCache i n c st = st\<lparr>pre_rewrite := setCache i n c (pre_rewrite st)\<rparr>"

definition getPostRewriteCache :: "theoryId \<Rightarrow> node \<Rightarrow> rewriter_state \<Rightarrow> node option" where
  "getPostRewriteCache i n st = getCache (post_rewrite st) i n"

definition setPostRewriteCache :: "theoryId \<Rightarrow> node \<Rightarrow> node \<Rightarrow> rewriter_state \<Rightarrow> rewriter_state" where
  "setPostRewriteCache i n c st = st\<lparr>post_rewrite := setCache i n c (post_rewrite st)\<rparr>"

definition clearCaches :: "rewriter_state \<Rightarrow> rewriter_state" where
  "clearCaches st = st\<lparr>pre_rewrite := (\<lambda>x. None), post_rewrite := (\<lambda>x. None)\<rparr>"

lemma getCache_setCache: "getCache (setCache i n c cache) j m = (if j = i \<and> m = n then Some c else getCache cache j m)"
  by (simp add: getCache_def setCache_def)

section \<open>Dispatch\<close>

text \<open>\<open>TheoryBuiltinRewriter::doRewrite\<close> acts on the kinds \<open>DISTINCT\<close> and \<open>CHAIN\<close>, which terms of the model do not have.\<close>

definition doRewrite :: "node \<Rightarrow> RewriteResponse exc" where
  "doRewrite n = respond REWRITE_DONE (Inr n)"

definition theoryPreRewrite :: "rw_env \<Rightarrow> (theoryId \<Rightarrow> node \<Rightarrow> RewriteResponse exc) \<Rightarrow> theoryId \<Rightarrow> node \<Rightarrow> RewriteResponse exc" where
  "theoryPreRewrite R other i n =
     (case i of
        THEORY_BUILTIN \<Rightarrow> doRewrite n
      | THEORY_BOOL \<Rightarrow> TheoryBoolRewriter_preRewrite n
      | THEORY_BV \<Rightarrow> preRewrite R n
      | _ \<Rightarrow> other i n)"

definition theoryPostRewrite :: "rw_env \<Rightarrow> (theoryId \<Rightarrow> node \<Rightarrow> RewriteResponse exc) \<Rightarrow> theoryId \<Rightarrow> node \<Rightarrow> RewriteResponse exc" where
  "theoryPostRewrite R other i n =
     (case i of
        THEORY_BUILTIN \<Rightarrow> doRewrite n
      | THEORY_BOOL \<Rightarrow> TheoryBoolRewriter_postRewrite n
      | THEORY_BV \<Rightarrow> postRewrite R n
      | _ \<Rightarrow> other i n)"

abbreviation ownerOf :: "rewriter_env \<Rightarrow> node \<Rightarrow> theoryId exc" where
  "ownerOf E n \<equiv> theoryOf (sortOwner E) THEORY_OF_TYPE_BASED n"

definition logCall :: "bool \<Rightarrow> theoryId \<Rightarrow> node \<Rightarrow> rewriter_state \<Rightarrow> rewriter_state" where
  "logCall pre i n st = st\<lparr>calls := calls st @ [(pre, i, n)]\<rparr>"

section \<open>The loops\<close>

text \<open>The beginning of an iteration. \<open>HardResourceOutListener::notify\<close> clears the caches.\<close>

definition spend :: "rewriter_env \<Rightarrow> rewriter_state \<Rightarrow> rewriter_state \<times> unit exc" where
  "spend E st =
     (if hasSmtEngine E \<and> d_iterationCount st mod s_resourceCount = 0 then
        let rm = d_resourceManager st
        in case spendResource (clockAt E (unat (d_spendResourceCalls rm))) (rewriteStep E) rm of
             (rm', r) \<Rightarrow>
               let st = st\<lparr>d_resourceManager := rm'\<rparr>;
                   st = (if HardResourceOutListener \<in> set (drop (length (notified rm)) (notified rm')) then clearCaches st else st)
               in case r of
                    Inl e \<Rightarrow> (st, Inl e)
                  | Inr u \<Rightarrow> (st\<lparr>d_iterationCount := 0\<rparr>, Inr ())
      else (st, Inr ()))"

record stack_element =
  el_node :: node
  el_original :: node
  el_theoryId :: theoryId
  el_originalTheoryId :: theoryId
  el_nextChild :: nat
  el_kind :: "kind option"
  el_children :: "node list"

definition RewriteStackElement :: "node \<Rightarrow> theoryId \<Rightarrow> stack_element" where
  "RewriteStackElement n i =
     \<lparr>el_node = n, el_original = n, el_theoryId = i, el_originalTheoryId = i, el_nextChild = 0, el_kind = None, el_children = []\<rparr>"

partial_function (option) preRewrite_loop ::
  "rewriter_env \<Rightarrow> theoryId \<Rightarrow> node \<Rightarrow> rewriter_state \<Rightarrow> (rewriter_state \<times> (theoryId \<times> node) exc) option" where
  "preRewrite_loop E i n st =
     (let st = logCall True i n st
      in case callPreRewrite E i n of
           Inl e \<Rightarrow> Some (st, Inl e)
         | Inr response \<Rightarrow>
             (case ownerOf E (rnode response) of
                Inl e \<Rightarrow> Some (st, Inl e)
              | Inr newTheory \<Rightarrow>
                  if newTheory = i \<and> status response = REWRITE_DONE then Some (st, Inr (i, rnode response))
                  else preRewrite_loop E newTheory (rnode response) st))"

text \<open>The pre-rewrite of the top of the stack, before its first child.\<close>

definition preRewrite_top :: "rewriter_env \<Rightarrow> stack_element \<Rightarrow> rewriter_state \<Rightarrow> (rewriter_state \<times> stack_element exc) option" where
  "preRewrite_top E el st =
     (if el_nextChild el \<noteq> 0 then Some (st, Inr (el\<lparr>el_original := el_node el\<rparr>))
      else
        case getPreRewriteCache (el_theoryId el) (el_node el) st of
          Some cached \<Rightarrow>
            (case ownerOf E cached of
               Inl e \<Rightarrow> Some (st, Inl e)
             | Inr i \<Rightarrow> Some (st, Inr (el\<lparr>el_node := cached, el_theoryId := i, el_original := cached\<rparr>)))
        | None \<Rightarrow>
            Option.bind (preRewrite_loop E (el_theoryId el) (el_node el) st) (\<lambda>(st, r).
              case r of
                Inl e \<Rightarrow> Some (st, Inl e)
              | Inr (i, n) \<Rightarrow>
                  Some (setPreRewriteCache (el_originalTheoryId el) (el_original el) n st,
                        Inr (el\<lparr>el_node := n, el_theoryId := i, el_original := n\<rparr>))))"

text \<open>Setting up the builder and taking the next child.\<close>

definition takeChild :: "stack_element \<Rightarrow> stack_element" where
  "takeChild el =
     (let el' = el\<lparr>el_nextChild := el_nextChild el + 1\<rparr>
      in if el_nextChild el = 0 \<and> length (children (el_node el)) > 0 then el'\<lparr>el_kind := Some (appKind (el_node el))\<rparr> else el')"

definition incorporateChildren :: "rewriter_env \<Rightarrow> stack_element \<Rightarrow> stack_element exc" where
  "incorporateChildren E el =
     (if length (children (el_node el)) > 0 then
        let rewritten = App (the (el_kind el)) (el_children el)
        in ebind (ownerOf E rewritten) (\<lambda>i. Inr (el\<lparr>el_node := rewritten, el_theoryId := i\<rparr>))
      else Inr el)"

text \<open>\<open>RewriteTo\<close> is a call of \<open>rewriteTo\<close>, \<open>Loop\<close> its main loop on a stack, the top first, and \<open>PostRewrite\<close> the loop of
  the post-rewrite.\<close>

datatype rewriter_task = RewriteTo theoryId node | Loop "stack_element list" | PostRewrite theoryId node

partial_function (option) rewriter_run ::
  "rewriter_env \<Rightarrow> rewriter_task \<Rightarrow> rewriter_state \<Rightarrow> (rewriter_state \<times> node exc) option" where
  "rewriter_run E task st =
     (case task of
        RewriteTo i n \<Rightarrow>
          (case getPostRewriteCache i n st of
             Some cached \<Rightarrow> Some (st, Inr cached)
           | None \<Rightarrow> rewriter_run E (Loop [RewriteStackElement n i]) st)
      | PostRewrite i n \<Rightarrow>
          (let st = logCall False i n st
           in case callPostRewrite E i n of
                Inl e \<Rightarrow> Some (st, Inl e)
              | Inr response \<Rightarrow>
                  (case ownerOf E (rnode response) of
                     Inl e \<Rightarrow> Some (st, Inl e)
                   | Inr newTheoryId \<Rightarrow>
                       if newTheoryId \<noteq> i \<or> status response = REWRITE_AGAIN_FULL
                       then rewriter_run E (RewriteTo newTheoryId (rnode response)) st
                       else if status response = REWRITE_DONE then Some (st, Inr (rnode response))
                       else rewriter_run E (PostRewrite i (rnode response)) st))
      | Loop stack \<Rightarrow>
          (case spend E st of
             (st, Inl e) \<Rightarrow> Some (st, Inl e)
           | (st, Inr u) \<Rightarrow>
               Option.bind (preRewrite_top E (hd stack) st) (\<lambda>(st, r).
                 case r of
                   Inl e \<Rightarrow> Some (st, Inl e)
                 | Inr el \<Rightarrow>
                     let cached = getPostRewriteCache (el_theoryId el) (el_node el) st
                     in if cached = None \<and> el_nextChild el < length (children (el_node el)) then
                          let childNode = children (el_node el) ! el_nextChild el
                          in case ownerOf E childNode of
                               Inl e \<Rightarrow> Some (st, Inl e)
                             | Inr i \<Rightarrow> rewriter_run E (Loop (RewriteStackElement childNode i # takeChild el # tl stack)) st
                        else
                          Option.bind
                            (case cached of
                               Some c \<Rightarrow> Some (st, Inr c)
                             | None \<Rightarrow>
                                 (case incorporateChildren E (takeChild el) of
                                    Inl e \<Rightarrow> Some (st, Inl e)
                                  | Inr el \<Rightarrow>
                                      Option.bind (rewriter_run E (PostRewrite (el_theoryId el) (el_node el)) st) (\<lambda>(st, r).
                                        case r of
                                          Inl e \<Rightarrow> Some (st, Inl e)
                                        | Inr n \<Rightarrow> Some (setPostRewriteCache (el_originalTheoryId el) (el_original el) n st, Inr n))))
                            (\<lambda>(st, r).
                               case r of
                                 Inl e \<Rightarrow> Some (st, Inl e)
                               | Inr n \<Rightarrow>
                                   (case tl stack of
                                      [] \<Rightarrow> Some (st, Inr n)
                                    | parent # rest \<Rightarrow>
                                        rewriter_run E (Loop (parent\<lparr>el_children := el_children parent @ [n]\<rparr> # rest)) st)))))"

definition rewrite :: "rewriter_env \<Rightarrow> node \<Rightarrow> rewriter_state \<Rightarrow> (rewriter_state \<times> node exc) option" where
  "rewrite E n st =
     (case ownerOf E n of
        Inl e \<Rightarrow> Some (st, Inl e)
      | Inr i \<Rightarrow> rewriter_run E (RewriteTo i n) st)"

text \<open>A client that rewrites one node after the other, and goes on after an interruption.\<close>

fun rewrite_all :: "rewriter_env \<Rightarrow> node list \<Rightarrow> rewriter_state \<Rightarrow> (rewriter_state \<times> node exc list) option" where
  "rewrite_all E [] st = Some (st, [])"
| "rewrite_all E (n # ns) st =
     Option.bind (rewrite E n st) (\<lambda>(st, r). Option.bind (rewrite_all E ns st) (\<lambda>(st, rs). Some (st, r # rs)))"

definition new_rewriter :: "resource_manager \<Rightarrow> rewriter_state" where
  "new_rewriter rm =
     \<lparr>pre_rewrite = (\<lambda>x. None), post_rewrite = (\<lambda>x. None), d_iterationCount = 0, d_resourceManager = rm, calls = []\<rparr>"

definition mk_rewriter_env :: "rw_env \<Rightarrow> (theoryId \<Rightarrow> node \<Rightarrow> RewriteResponse exc) \<Rightarrow> (theoryId \<Rightarrow> node \<Rightarrow> RewriteResponse exc) \<Rightarrow>
    bool \<Rightarrow> 32 word \<Rightarrow> (nat \<Rightarrow> nat \<Rightarrow> reading) \<Rightarrow> theoryId \<Rightarrow> rewriter_env" where
  "mk_rewriter_env R otherPre otherPost engine step clocks owner =
     \<lparr>callPreRewrite = theoryPreRewrite R otherPre, callPostRewrite = theoryPostRewrite R otherPost, hasSmtEngine = engine,
      rewriteStep = step, clockAt = clocks, sortOwner = owner\<rparr>"

section \<open>Equations of the loops\<close>

type_synonym runner = "rewriter_task \<Rightarrow> rewriter_state \<Rightarrow> (rewriter_state \<times> node exc) option"

definition continue :: "runner \<Rightarrow> stack_element list \<Rightarrow> rewriter_state \<Rightarrow> node \<Rightarrow> (rewriter_state \<times> node exc) option" where
  "continue run rest st n =
     (case rest of
        [] \<Rightarrow> Some (st, Inr n)
      | parent # rest \<Rightarrow> run (Loop (parent\<lparr>el_children := el_children parent @ [n]\<rparr> # rest)) st)"

text \<open>An iteration after the pre-rewrite: \<open>descend\<close> pushes a child, \<open>finishTop\<close> computes the rewrite of the top.\<close>

definition descend :: "runner \<Rightarrow> rewriter_env \<Rightarrow> stack_element \<Rightarrow> stack_element list \<Rightarrow> rewriter_state \<Rightarrow> (rewriter_state \<times> node exc) option" where
  "descend run E el rest st =
     (let childNode = children (el_node el) ! el_nextChild el
      in case ownerOf E childNode of
           Inl e \<Rightarrow> Some (st, Inl e)
         | Inr i \<Rightarrow> run (Loop (RewriteStackElement childNode i # takeChild el # rest)) st)"

definition finishTop :: "runner \<Rightarrow> rewriter_env \<Rightarrow> stack_element \<Rightarrow> rewriter_state \<Rightarrow> (rewriter_state \<times> node exc) option" where
  "finishTop run E el st =
     (case getPostRewriteCache (el_theoryId el) (el_node el) st of
        Some c \<Rightarrow> Some (st, Inr c)
      | None \<Rightarrow>
          (case incorporateChildren E (takeChild el) of
             Inl e \<Rightarrow> Some (st, Inl e)
           | Inr el \<Rightarrow>
               Option.bind (run (PostRewrite (el_theoryId el) (el_node el)) st) (\<lambda>(st, r).
                 case r of
                   Inl e \<Rightarrow> Some (st, Inl e)
                 | Inr n \<Rightarrow> Some (setPostRewriteCache (el_originalTheoryId el) (el_original el) n st, Inr n))))"

definition afterPre :: "runner \<Rightarrow> rewriter_env \<Rightarrow> stack_element \<Rightarrow> stack_element list \<Rightarrow> rewriter_state \<Rightarrow> (rewriter_state \<times> node exc) option" where
  "afterPre run E el rest st =
     (if getPostRewriteCache (el_theoryId el) (el_node el) st = None \<and> el_nextChild el < length (children (el_node el))
      then descend run E el rest st
      else Option.bind (finishTop run E el st) (\<lambda>(st, r). case r of Inl e \<Rightarrow> Some (st, Inl e) | Inr n \<Rightarrow> continue run rest st n))"

lemma run_RewriteTo:
  "rewriter_run E (RewriteTo i n) st =
     (case getPostRewriteCache i n st of
        Some cached \<Rightarrow> Some (st, Inr cached)
      | None \<Rightarrow> rewriter_run E (Loop [RewriteStackElement n i]) st)"
  by (subst rewriter_run.simps) simp

lemma run_PostRewrite:
  assumes "callPostRewrite E i n = Inr response" and "ownerOf E (rnode response) = Inr newTheoryId"
  shows "rewriter_run E (PostRewrite i n) st =
    (if newTheoryId \<noteq> i \<or> status response = REWRITE_AGAIN_FULL
     then rewriter_run E (RewriteTo newTheoryId (rnode response)) (logCall False i n st)
     else if status response = REWRITE_DONE then Some (logCall False i n st, Inr (rnode response))
     else rewriter_run E (PostRewrite i (rnode response)) (logCall False i n st))"
  by (subst rewriter_run.simps) (simp add: assms)

lemma run_Loop:
  "rewriter_run E (Loop (el # rest)) st =
     (case spend E st of
        (st, Inl e) \<Rightarrow> Some (st, Inl e)
      | (st, Inr u) \<Rightarrow>
          Option.bind (preRewrite_top E el st) (\<lambda>(st, r). case r of Inl e \<Rightarrow> Some (st, Inl e) | Inr el \<Rightarrow> afterPre (rewriter_run E) E el rest st))"
  by (subst rewriter_run.simps)
    (simp only: rewriter_task.case list.sel Let_def afterPre_def descend_def finishTop_def continue_def)

lemma takeChild_simps [simp]:
  "el_node (takeChild el) = el_node el" "el_original (takeChild el) = el_original el" "el_theoryId (takeChild el) = el_theoryId el"
  "el_originalTheoryId (takeChild el) = el_originalTheoryId el" "el_children (takeChild el) = el_children el"
  "el_nextChild (takeChild el) = Suc (el_nextChild el)"
  by (simp_all add: takeChild_def Let_def)

section \<open>Owners\<close>

lemma owner_exists:
  assumes "typeOf n = Some t"
  obtains i where "theoryOf owner THEORY_OF_TYPE_BASED n = Inr i"
proof (cases "n")
  case (App k ns)
  show ?thesis
  proof (cases "k = EQUAL")
    case True
    with assms App obtain l r u where ns: "ns = [l, r]" "typeOf l = Some u"
      unfolding typeOf_App_iff by (auto simp: App type_op_mixed list_all2_Cons2 typeOf_App_iff)
    then show ?thesis using that True App getType_typeOf [OF ns(2), of False] by simp
  next
    case False
    then have "theoryOf owner THEORY_OF_TYPE_BASED n = Inr (kindToTheoryId k)" by (simp add: App split: kind.split)
    then show ?thesis by (rule that)
  qed
next
  case (CONST_BITVECTOR c)
  then show ?thesis using that getType_typeOf [OF assms, of False] by (simp add: CONST_BITVECTOR)
qed (use that in simp_all)

declare theoryOf.simps(4) [simp del]

section \<open>Rewriting ends\<close>

text \<open>A set of terms that rewriting never leaves, and a weight that a rewriter of a theory decreases whenever it changes a
  term: then the generic rewriter returns, with a term of the same meaning. The interface is what the theory rewriters promise
  on these terms.\<close>

definition improves :: "bool \<Rightarrow> (node \<Rightarrow> bool) \<Rightarrow> (node \<Rightarrow> nat) \<Rightarrow> node \<Rightarrow> node \<Rightarrow> bool" where
  "improves opt good weight m n \<longleftrightarrow> same_meaning opt m n \<and> good m \<and> weight m \<le> weight n"

definition progress :: "bool \<Rightarrow> (node \<Rightarrow> bool) \<Rightarrow> (node \<Rightarrow> nat) \<Rightarrow> RewriteResponse exc \<Rightarrow> node \<Rightarrow> bool" where
  "progress opt good weight r n \<longleftrightarrow>
     (\<exists>s m. r = Inr \<lparr>status = s, rnode = m\<rparr> \<and> improves opt good weight m n \<and>
        (s = REWRITE_DONE \<and> m = n \<or> weight m < weight n))"

locale theory_rewriters =
  fixes E :: rewriter_env and opt :: bool and good :: "node \<Rightarrow> bool" and weight :: "node \<Rightarrow> nat" and interruptible :: bool
  assumes good_typed: "good n \<Longrightarrow> \<exists>t. typeOf n = Some t"
    and good_child: "good (App k ns) \<Longrightarrow> c \<in> set ns \<Longrightarrow> good c \<and> weight c < weight (App k ns)"
    and good_rebuilt: "good (App k ns) \<Longrightarrow> list_all2 (improves opt good weight) ms ns \<Longrightarrow> good (App k ms) \<and> weight (App k ms) \<le> weight (App k ns)"
    and pre_progress: "good n \<Longrightarrow> ownerOf E n = Inr i \<Longrightarrow> progress opt good weight (callPreRewrite E i n) n"
    and post_progress: "good n \<Longrightarrow> ownerOf E n = Inr i \<Longrightarrow> progress opt good weight (callPostRewrite E i n) n"
begin

abbreviation (input) imp :: "node \<Rightarrow> node \<Rightarrow> bool" where
  "imp \<equiv> improves opt good weight"

lemma imp_trans: "imp l m \<Longrightarrow> imp m n \<Longrightarrow> imp l n"
  using same_meaning_trans by (auto simp: improves_def)

lemma imp_refl: "good n \<Longrightarrow> imp n n"
  by (simp add: improves_def)

lemma good_owner: "good n \<Longrightarrow> \<exists>i. ownerOf E n = Inr i"
  using good_typed owner_exists by metis

definition caches_ok :: "rewriter_state \<Rightarrow> bool" where
  "caches_ok st \<longleftrightarrow> (\<forall>i n c. good n \<longrightarrow>
     (getPreRewriteCache i n st = Some c \<longrightarrow> imp c n) \<and> (getPostRewriteCache i n st = Some c \<longrightarrow> imp c n)) \<and>
     (d_on (d_resourceManager st) \<and> d_isHardLimit (d_resourceManager st) \<longrightarrow> interruptible)"

lemma caches_logCall [simp]: "caches_ok (logCall b i n st) = caches_ok st"
  by (simp add: caches_ok_def logCall_def getPreRewriteCache_def getPostRewriteCache_def)

lemma caches_setPre: "caches_ok st \<Longrightarrow> imp c n \<Longrightarrow> caches_ok (setPreRewriteCache i n c st)"
  by (simp add: caches_ok_def setPreRewriteCache_def getPreRewriteCache_def getPostRewriteCache_def getCache_setCache)

lemma caches_setPost: "caches_ok st \<Longrightarrow> imp c n \<Longrightarrow> caches_ok (setPostRewriteCache i n c st)"
  by (simp add: caches_ok_def setPostRewriteCache_def getPreRewriteCache_def getPostRewriteCache_def getCache_setCache)

lemma caches_spend: "caches_ok st \<Longrightarrow> spend E st = (st', r) \<Longrightarrow> caches_ok st'"
  by (auto simp: spend_def spendResource_def notify_def caches_ok_def getPreRewriteCache_def getPostRewriteCache_def getCache_def
      clearCaches_def Let_def split: if_splits sum.splits prod.splits)

subsection \<open>The pre-rewrite\<close>

lemma preRewrite_loop_returns:
  assumes "good n" and "ownerOf E n = Inr i"
  shows "\<exists>cs j m. preRewrite_loop E i n st = Some (st\<lparr>calls := cs\<rparr>, Inr (j, m)) \<and> imp m n \<and> ownerOf E m = Inr j"
  using assms
proof (induction "weight n" arbitrary: n i st rule: less_induct)
  case less
  from pre_progress [OF less.prems] obtain s m where m: "callPreRewrite E i n = Inr \<lparr>status = s, rnode = m\<rparr>" "imp m n"
    "s = REWRITE_DONE \<and> m = n \<or> weight m < weight n" by (auto simp: progress_def)
  obtain j where j: "ownerOf E m = Inr j" using good_owner m(2) by (auto simp: improves_def)
  show ?case
  proof (cases "j = i \<and> s = REWRITE_DONE")
    case True
    then show ?thesis using m j by (subst preRewrite_loop.simps) (auto simp: logCall_def)
  next
    case False
    then have "weight m < weight n" using m(3) j less.prems(2) by auto
    moreover have "good m" using m(2) by (simp add: improves_def)
    ultimately obtain cs j' l where l: "preRewrite_loop E j m (logCall True i n st) = Some (logCall True i n st\<lparr>calls := cs\<rparr>, Inr (j', l))"
      "imp l m" "ownerOf E l = Inr j'" using less.hyps [of m j] j by blast
    have "preRewrite_loop E i n st = preRewrite_loop E j m (logCall True i n st)"
      using m(1) j False by (subst preRewrite_loop.simps) auto
    then show ?thesis using l imp_trans [OF l(2) m(2)] by (auto simp: logCall_def)
  qed
qed

lemma caches_calls [simp]: "caches_ok (st\<lparr>calls := cs\<rparr>) = caches_ok st"
  by (simp add: caches_ok_def getPreRewriteCache_def getPostRewriteCache_def)

lemma preRewrite_top_returns:
  assumes "good n" and "ownerOf E n = Inr i" and "caches_ok st"
  shows "\<exists>st' j m. preRewrite_top E (RewriteStackElement n i) st =
      Some (st', Inr (RewriteStackElement n i\<lparr>el_node := m, el_theoryId := j, el_original := m\<rparr>)) \<and>
    imp m n \<and> ownerOf E m = Inr j \<and> caches_ok st'"
proof (cases "getPreRewriteCache i n st")
  case None
  with preRewrite_loop_returns [OF assms(1,2), of st] show ?thesis
    using caches_setPre assms(3) by (fastforce simp: preRewrite_top_def RewriteStackElement_def)
next
  case (Some c)
  then have "imp c n" using assms(1,3) by (auto simp: caches_ok_def)
  moreover from this obtain j where "ownerOf E c = Inr j" using good_owner by (auto simp: improves_def)
  ultimately show ?thesis using Some assms(3) by (auto simp: preRewrite_top_def RewriteStackElement_def)
qed

subsection \<open>The main loop\<close>

text \<open>A run is interrupted by the resource manager, or it goes on with a rewrite of \<open>n\<close>.\<close>

definition interrupted :: "(rewriter_state \<times> node exc) option \<Rightarrow> bool" where
  "interrupted r \<longleftrightarrow> hasSmtEngine E \<and> interruptible \<and> (\<exists>st. r = Some (st, Inl UnsafeInterruptException) \<and> caches_ok st)"

definition completes :: "node \<Rightarrow> stack_element list \<Rightarrow> (rewriter_state \<times> node exc) option \<Rightarrow> bool" where
  "completes n rest r \<longleftrightarrow> interrupted r \<or> (\<exists>st m. r = continue (rewriter_run E) rest st m \<and> imp m n \<and> caches_ok st)"

definition returns :: "node \<Rightarrow> (rewriter_state \<times> node exc) option \<Rightarrow> bool" where
  "returns n r \<longleftrightarrow> interrupted r \<or> (\<exists>st m. r = Some (st, Inr m) \<and> imp m n \<and> caches_ok st)"

lemma interruptedI: "caches_ok st \<Longrightarrow> hasSmtEngine E \<Longrightarrow> interruptible \<Longrightarrow> interrupted (Some (st, Inl UnsafeInterruptException))"
  unfolding interrupted_def by blast

lemma interruptedE:
  assumes "interrupted r"
  obtains st where "r = Some (st, Inl UnsafeInterruptException)" and "interrupted (Some (st, Inl UnsafeInterruptException))"
  using assms unfolding interrupted_def by blast

lemma completes_imp: "completes m rest r \<Longrightarrow> imp m n \<Longrightarrow> completes n rest r"
  unfolding completes_def using imp_trans by blast

lemma completes_alone: "completes n [] r = returns n r"
  by (simp add: completes_def returns_def continue_def)

lemma spend_cases:
  assumes "caches_ok st"
  obtains (interrupt) st' where "spend E st = (st', Inl UnsafeInterruptException)" and "caches_ok st'" and "hasSmtEngine E" and "interruptible"
    | (ok) st' where "spend E st = (st', Inr ())" and "caches_ok st'"
proof -
  obtain st' r where r: "spend E st = (st', r)" by fastforce
  then have "r = Inr () \<or> r = Inl UnsafeInterruptException \<and> hasSmtEngine E \<and> d_on (d_resourceManager st) \<and> d_isHardLimit (d_resourceManager st)"
    by (auto simp: spend_def spendResource_def Let_def split: if_splits)
  moreover have "interruptible" if "d_on (d_resourceManager st)" "d_isHardLimit (d_resourceManager st)"
    using assms that by (simp add: caches_ok_def)
  ultimately show thesis using r caches_spend [OF assms r] that by blast
qed

lemma PostRewrite_returns:
  assumes "\<And>m i st. good m \<Longrightarrow> ownerOf E m = Inr i \<Longrightarrow> caches_ok st \<Longrightarrow> weight m < weight n \<Longrightarrow> returns m (rewriter_run E (RewriteTo i m) st)"
    and "good n" and "ownerOf E n = Inr i" and "caches_ok st"
  shows "returns n (rewriter_run E (PostRewrite i n) st)"
  using assms
proof (induction "weight n" arbitrary: n i st rule: less_induct)
  case less
  from post_progress [OF less.prems(2,3)] obtain s m where m: "callPostRewrite E i n = Inr \<lparr>status = s, rnode = m\<rparr>" "imp m n"
    "s = REWRITE_DONE \<and> m = n \<or> weight m < weight n" by (auto simp: progress_def)
  obtain j where j: "ownerOf E m = Inr j" using good_owner m(2) by (auto simp: improves_def)
  have run: "rewriter_run E (PostRewrite i n) st =
    (if j \<noteq> i \<or> s = REWRITE_AGAIN_FULL then rewriter_run E (RewriteTo j m) (logCall False i n st)
     else if s = REWRITE_DONE then Some (logCall False i n st, Inr m)
     else rewriter_run E (PostRewrite i m) (logCall False i n st))" using run_PostRewrite [OF m(1)] j by simp
  have widen: "returns m r \<Longrightarrow> returns n r" for r using imp_trans m(2) by (auto simp: returns_def)
  show ?case
  proof (cases "m = n")
    case True
    then have "rewriter_run E (PostRewrite i n) st = Some (logCall False i n st, Inr n)" using run m j less.prems(3) by auto
    then show ?thesis using less.prems(2,4) imp_refl by (simp add: returns_def)
  next
    case False
    then have smaller: "weight m < weight n" "good m" using m by (auto simp: improves_def)
    then have "returns m (rewriter_run E (RewriteTo j m) (logCall False i n st))" using less.prems(1,4) j by simp
    moreover have "returns m (rewriter_run E (PostRewrite i m) (logCall False i n st))" if "j = i"
      using less.hyps [OF smaller(1) less.prems(1) smaller(2)] smaller(1) less.prems(4) j that by simp
    moreover have "returns m (Some (logCall False i n st, Inr m))" using smaller(2) less.prems(4) imp_refl by (simp add: returns_def)
    ultimately show ?thesis unfolding run by (auto intro: widen)
  qed
qed

text \<open>The top of the stack after its pre-rewrite, with the rewrites of the children before \<open>el_nextChild\<close>.\<close>

definition top_ok :: "stack_element \<Rightarrow> bool" where
  "top_ok el \<longleftrightarrow> good (el_node el) \<and> ownerOf E (el_node el) = Inr (el_theoryId el) \<and> el_original el = el_node el \<and>
     el_nextChild el \<le> length (children (el_node el)) \<and>
     list_all2 imp (el_children el) (take (el_nextChild el) (children (el_node el))) \<and>
     (el_nextChild el > 0 \<longrightarrow> el_kind el = Some (appKind (el_node el)))"

lemma takeChild_kind: "top_ok el \<Longrightarrow> 0 < length (children (el_node el)) \<Longrightarrow> el_kind (takeChild el) = Some (appKind (el_node el))"
  by (auto simp: takeChild_def Let_def top_ok_def)

lemma top_ok_child:
  assumes "top_ok el" and "el_nextChild el < length (children (el_node el))" and "imp m (children (el_node el) ! el_nextChild el)"
  shows "top_ok (takeChild el\<lparr>el_children := el_children el @ [m]\<rparr>)"
proof -
  have "0 < length (children (el_node el))" using assms(2) by linarith
  then show ?thesis using assms takeChild_kind [OF assms(1)]
    by (auto simp: top_ok_def take_Suc_conv_app_nth intro!: list_all2_appendI)
qed

lemma finishTop_returns:
  assumes IH: "\<And>m i st. good m \<Longrightarrow> ownerOf E m = Inr i \<Longrightarrow> caches_ok st \<Longrightarrow> weight m < weight (el_node el) \<Longrightarrow> returns m (rewriter_run E (RewriteTo i m) st)"
    and el: "top_ok el" and st: "caches_ok st"
    and last: "getPostRewriteCache (el_theoryId el) (el_node el) st = None \<Longrightarrow> el_nextChild el = length (children (el_node el))"
  shows "returns (el_node el) (finishTop (rewriter_run E) E el st)"
proof (cases "getPostRewriteCache (el_theoryId el) (el_node el) st")
  case (Some c)
  then have "imp c (el_node el)" using el st by (auto simp: top_ok_def caches_ok_def)
  then show ?thesis using Some st by (auto simp: finishTop_def returns_def)
next
  case None
  define n where "n = el_node el"
  have n: "good n" "el_original el = n" using el by (simp_all add: top_ok_def n_def)
  have "\<exists>el' m. incorporateChildren E (takeChild el) = Inr el' \<and> el_node el' = m \<and> el_original el' = n \<and> imp m n \<and> ownerOf E m = Inr (el_theoryId el')"
  proof (cases "children n = []")
    case True
    then show ?thesis using el imp_refl by (auto simp: incorporateChildren_def n_def top_ok_def)
  next
    case False
    then obtain k ns where k: "n = App k ns" by (cases n) auto
    have ns: "list_all2 imp (el_children el) ns" using el last [OF None] k by (simp add: top_ok_def n_def)
    then have "same_meaning opt (App k (el_children el)) n"
      unfolding k by (intro same_meaning_App) (auto simp: improves_def elim: list_all2_mono)
    with good_rebuilt [of k ns, OF _ ns] have imp: "imp (App k (el_children el)) n" using n(1) by (simp add: k improves_def)
    then obtain j where "ownerOf E (App k (el_children el)) = Inr j" using good_owner by (auto simp: improves_def)
    moreover have "el_kind (takeChild el) = Some k" using takeChild_kind [OF el] False k by (simp add: n_def appKind_def)
    ultimately show ?thesis using imp n(2) False by (simp add: incorporateChildren_def n_def)
  qed
  then obtain el' where el': "incorporateChildren E (takeChild el) = Inr el'" "el_original el' = n" "imp (el_node el') n"
    "ownerOf E (el_node el') = Inr (el_theoryId el')" by blast
  have "returns (el_node el') (rewriter_run E (PostRewrite (el_theoryId el') (el_node el')) st)"
    using el' st by (intro PostRewrite_returns IH) (auto simp: improves_def n_def)
  then show ?thesis
  proof (cases "interrupted (rewriter_run E (PostRewrite (el_theoryId el') (el_node el')) st)")
    case True
    then obtain st' where st': "rewriter_run E (PostRewrite (el_theoryId el') (el_node el')) st = Some (st', Inl UnsafeInterruptException)"
      "interrupted (Some (st', Inl UnsafeInterruptException))" by (rule interruptedE)
    have "finishTop (rewriter_run E) E el st = Some (st', Inl UnsafeInterruptException)" using st'(1) by (simp add: finishTop_def None el'(1))
    then show ?thesis using st'(2) by (simp add: returns_def)
  next
    case False
    with \<open>returns (el_node el') _\<close> obtain st' m where m: "rewriter_run E (PostRewrite (el_theoryId el') (el_node el')) st = Some (st', Inr m)"
      "imp m (el_node el')" "caches_ok st'" by (auto simp: returns_def)
    have "imp m n" using imp_trans m(2) el'(3) by blast
    with caches_setPost [OF m(3) this] show ?thesis by (simp add: finishTop_def None el'(1,2) m(1) returns_def n_def)
  qed
qed

text \<open>The remaining children of the top, then its post-rewrite.\<close>

lemma afterPre_completes:
  assumes IH: "\<And>m i st rest. good m \<Longrightarrow> ownerOf E m = Inr i \<Longrightarrow> caches_ok st \<Longrightarrow> weight m < weight (el_node el) \<Longrightarrow>
      completes m rest (rewriter_run E (Loop (RewriteStackElement m i # rest)) st)"
    and "top_ok el" and "caches_ok st"
  shows "completes (el_node el) rest (afterPre (rewriter_run E) E el rest st)"
  using assms
proof (induction "length (children (el_node el)) - el_nextChild el" arbitrary: el st rule: less_induct)
  case less
  let ?n = "el_node el" and ?j = "el_nextChild el"
  show ?case
  proof (cases "getPostRewriteCache (el_theoryId el) ?n st = None \<and> ?j < length (children ?n)")
    case True
    then obtain k ns where k: "?n = App k ns" by (cases ?n) auto
    define c where "c = children ?n ! ?j"
    have "good ?n" using less.prems(2) by (simp add: top_ok_def)
    then have c: "good c" "weight c < weight ?n" using good_child [of k ns c] True k by (auto simp: c_def)
    obtain i where i: "ownerOf E c = Inr i" using good_owner c(1) by blast
    have run: "afterPre (rewriter_run E) E el rest st = rewriter_run E (Loop (RewriteStackElement c i # takeChild el # rest)) st"
      using True i by (simp add: afterPre_def descend_def c_def)
    have "completes c (takeChild el # rest) (afterPre (rewriter_run E) E el rest st)"
      unfolding run by (rule less.prems(1) [OF c(1) i less.prems(3) c(2)])
    then consider "interrupted (afterPre (rewriter_run E) E el rest st)" | st' m where
      "afterPre (rewriter_run E) E el rest st = continue (rewriter_run E) (takeChild el # rest) st' m" "imp m c" "caches_ok st'" by (auto simp: completes_def)
    then show ?thesis
    proof cases
      case 1
      then show ?thesis by (simp add: completes_def)
    next
      case (2 st' m)
      define el' where "el' = takeChild el\<lparr>el_children := el_children el @ [m]\<rparr>"
      have el': "top_ok el'" "el_node el' = ?n" "el_nextChild el' = Suc ?j"
        using top_ok_child [OF less.prems(2), of m] True 2(2) by (simp_all add: el'_def c_def)
      have loop: "afterPre (rewriter_run E) E el rest st = rewriter_run E (Loop (el' # rest)) st'" using 2(1) by (simp add: continue_def el'_def)
      show ?thesis
      proof (rule spend_cases [OF 2(3)])
        fix st'' assume "spend E st' = (st'', Inl UnsafeInterruptException)" "caches_ok st''" "hasSmtEngine E" interruptible
        then have "afterPre (rewriter_run E) E el rest st = Some (st'', Inl UnsafeInterruptException)" "interrupted (Some (st'', Inl UnsafeInterruptException))"
          using interruptedI unfolding loop run_Loop by (simp, blast)
        then show ?thesis by (simp add: completes_def)
      next
        fix st'' assume st'': "spend E st' = (st'', Inr ())" "caches_ok st''"
        have "preRewrite_top E el' st'' = Some (st'', Inr el')" using el' by (simp add: preRewrite_top_def top_ok_def)
        then have "afterPre (rewriter_run E) E el rest st = afterPre (rewriter_run E) E el' rest st''" unfolding loop run_Loop by (simp add: st''(1))
        moreover have "completes (el_node el') rest (afterPre (rewriter_run E) E el' rest st'')"
          using True el' less.prems(1) by (intro less.hyps st''(2)) auto
        ultimately show ?thesis using el'(2) by simp
      qed
    qed
  next
    case False
    have "returns ?n (finishTop (rewriter_run E) E el st)"
    proof (rule finishTop_returns [OF _ less.prems(2,3)])
      fix m i st assume m: "good m" "ownerOf E m = Inr i" "caches_ok st" "weight m < weight ?n"
      then have "returns m (rewriter_run E (Loop [RewriteStackElement m i]) st)" using less.prems(1) [of m i st "[]"] by (simp add: completes_alone)
      then show "returns m (rewriter_run E (RewriteTo i m) st)"
        using m by (auto simp: run_RewriteTo caches_ok_def returns_def split: option.split)
    next
      show "?j = length (children ?n)" if "getPostRewriteCache (el_theoryId el) ?n st = None"
        using False that less.prems(2) by (auto simp: top_ok_def)
    qed
    then show ?thesis using False by (auto simp: afterPre_def returns_def completes_def interrupted_def)
  qed
qed

lemma Loop_completes:
  assumes "good n" and "ownerOf E n = Inr i" and "caches_ok st"
  shows "completes n rest (rewriter_run E (Loop (RewriteStackElement n i # rest)) st)"
  using assms
proof (induction "weight n" arbitrary: n i st rest rule: less_induct)
  case less
  show ?case
  proof (rule spend_cases [OF less.prems(3)])
    fix st' assume "spend E st = (st', Inl UnsafeInterruptException)" "caches_ok st'" "hasSmtEngine E" interruptible
    then have "rewriter_run E (Loop (RewriteStackElement n i # rest)) st = Some (st', Inl UnsafeInterruptException)"
      "interrupted (Some (st', Inl UnsafeInterruptException))" using interruptedI unfolding run_Loop by (simp, blast)
    then show ?thesis by (simp add: completes_def)
  next
    fix st1 assume st1: "spend E st = (st1, Inr ())" "caches_ok st1"
    from preRewrite_top_returns [OF less.prems(1,2) st1(2)] obtain st2 j m where
      pre: "preRewrite_top E (RewriteStackElement n i) st1 = Some (st2, Inr (RewriteStackElement n i\<lparr>el_node := m, el_theoryId := j, el_original := m\<rparr>))"
      and m: "imp m n" "ownerOf E m = Inr j" "caches_ok st2" by blast
    let ?el = "RewriteStackElement n i\<lparr>el_node := m, el_theoryId := j, el_original := m\<rparr>"
    have "top_ok ?el" using m by (simp add: top_ok_def RewriteStackElement_def improves_def)
    moreover have "weight m \<le> weight n" using m(1) by (simp add: improves_def)
    ultimately have "completes (el_node ?el) rest (afterPre (rewriter_run E) E ?el rest st2)"
      using m(3) by (intro afterPre_completes less.hyps) simp_all
    then have "completes m rest (rewriter_run E (Loop (RewriteStackElement n i # rest)) st)"
      unfolding run_Loop by (simp add: st1(1) pre)
    then show ?thesis using m(1) by (rule completes_imp)
  qed
qed

lemma rewrite_returns:
  assumes "good n" and "caches_ok st"
  shows "returns n (rewrite E n st)"
proof -
  obtain i where i: "ownerOf E n = Inr i" using good_owner [OF assms(1)] by blast
  have "returns n (rewriter_run E (Loop [RewriteStackElement n i]) st)" using Loop_completes [OF assms(1) i assms(2), of "[]"] by (simp add: completes_alone)
  then show ?thesis using assms by (auto simp: rewrite_def i run_RewriteTo caches_ok_def returns_def split: option.split)
qed

lemma new_rewriter_ok: "(d_on rm \<and> d_isHardLimit rm \<longrightarrow> interruptible) \<Longrightarrow> caches_ok (new_rewriter rm)"
  by (simp add: caches_ok_def new_rewriter_def getPreRewriteCache_def getPostRewriteCache_def getCache_def)

lemma rewrite_all_returns:
  assumes "list_all good ns" and "caches_ok st"
  shows "\<exists>st' rs. rewrite_all E ns st = Some (st', rs) \<and> caches_ok st' \<and>
    list_all2 (\<lambda>n r. r = Inl UnsafeInterruptException \<and> hasSmtEngine E \<and> interruptible \<or> (\<exists>m. r = Inr m \<and> imp m n)) ns rs"
  using assms
proof (induction ns arbitrary: st)
  case (Cons n ns)
  then obtain st1 r where r: "rewrite E n st = Some (st1, r)" "caches_ok st1"
    "r = Inl UnsafeInterruptException \<and> hasSmtEngine E \<and> interruptible \<or> (\<exists>m. r = Inr m \<and> imp m n)"
    using rewrite_returns [of n st] by (auto simp: returns_def interrupted_def)
  with Cons.IH [OF _ r(2)] Cons.prems(1) show ?case by fastforce
qed simp

end

end
