(* ===== verification/Propositional_Rewriting.thy ===== *)
theory Propositional_Rewriting
  imports Generic_Rewriter
begin

text \<open>
  The generic rewriter on propositional formulas. The rewriter of the Boolean theory
  (\<open>src/src/theory/booleans/theory_bool_rewriter.cpp\<close>) makes a formula smaller whenever it changes it, so it meets the
  interface \<open>theory_rewriters\<close>, and \<open>Rewriter::rewrite\<close> ends on every formula that fits the bound on the number of children.
\<close>

section \<open>Propositional formulas and their weight\<close>

fun propositional :: "node \<Rightarrow> bool" where
  "propositional (Variable i t) \<longleftrightarrow> t = BOOLEAN_TYPE"
| "propositional (CONST_BOOLEAN b) \<longleftrightarrow> True"
| "propositional (CONST_BITVECTOR c) \<longleftrightarrow> False"
| "propositional (App k ns) \<longleftrightarrow> k \<in> {NOT, AND, OR, IMPLIES, XOR, ITE, EQUAL} \<and> list_all propositional ns"

fun prop_weight :: "node \<Rightarrow> nat" where
  "prop_weight (Variable i t) = 2"
| "prop_weight (App k ns) = Suc (sum_list (map prop_weight ns))"
| "prop_weight n = 1"

definition prop_good :: "node \<Rightarrow> bool" where
  "prop_good n \<longleftrightarrow> propositional n \<and> typeOf n = Some BOOLEAN_TYPE \<and> 2 * prop_weight n + 2 < MAX_CHILDREN"

lemma prop_weight_pos: "0 < prop_weight n"
  by (cases n) simp_all

lemma prop_weight_child: "c \<in> set ns \<Longrightarrow> prop_weight c < prop_weight (App k ns)"
  using member_le_sum_list [of "prop_weight c" "map prop_weight ns"] by (simp add: less_Suc_eq_le)

lemma size_le_weight: "size n + 1 \<le> 2 * prop_weight n"
proof (induction n)
  case (App k ns)
  have "size_list size ms \<le> 2 * sum_list (map prop_weight ms)" if "set ms \<subseteq> set ns" for ms
    using that
  proof (induction ms)
    case (Cons m ms)
    then show ?case using App.IH [of m] by simp
  qed simp
  from this [of ns] have "size_list size ns \<le> 2 * sum_list (map prop_weight ns)" by simp
  moreover have "size k = 0" by (cases k) simp_all
  ultimately show ?case by simp
qed auto

lemma propositional_typed: "propositional n \<Longrightarrow> typeOf n = Some t \<Longrightarrow> t = BOOLEAN_TYPE"
proof (induction n arbitrary: t)
  case (App k ns)
  show ?case
  proof (cases "k = ITE")
    case True
    then obtain c a b where "ns = [c, a, b]" "typeOf a = Some t" using typed_shape(4) App.prems(2) by blast
    then show ?thesis using App.IH [of a t] App.prems(1) by simp
  next
    case False
    then show ?thesis using App.prems typed_shape(1) [of ns t] typed_shape(2) [of k ns t] typed_shape(3) [of ns t]
        type_bool_app [of k ns t] by auto
  qed
qed auto

section \<open>The Boolean rewriter makes formulas smaller\<close>

definition shrinks :: "node \<Rightarrow> RewriteResponse exc \<Rightarrow> bool" where
  "shrinks n r \<longleftrightarrow> (\<forall>s m. r = Inr \<lparr>status = s, rnode = m\<rparr> \<longrightarrow>
     propositional m \<and> (s = REWRITE_DONE \<and> m = n \<or> prop_weight m < prop_weight n))"

lemma shrinks_same: "propositional n \<Longrightarrow> shrinks n (respond REWRITE_DONE (Inr n))"
  by (simp add: shrinks_def respond_def)

lemma shrinks_respond: "propositional m \<Longrightarrow> prop_weight m < prop_weight n \<Longrightarrow> shrinks n (respond s (Inr m))"
  by (simp add: shrinks_def respond_def)

lemma shrinks_if: "(P \<Longrightarrow> shrinks n x) \<Longrightarrow> (\<not> P \<Longrightarrow> shrinks n y) \<Longrightarrow> shrinks n (if P then x else y)"
  by simp

lemma strip_negations_weight:
  "strip_negations n e = (m, e') \<Longrightarrow> propositional n \<Longrightarrow> propositional m \<and> prop_weight m \<le> prop_weight n"
  by (induction n e rule: strip_negations.induct) (auto split: prod.splits)

lemma makeNegation_weight:
  assumes "makeNegation n = Inr m" and "propositional n"
  shows "propositional m \<and> prop_weight m \<le> Suc (prop_weight n)"
proof -
  obtain x e where x: "strip_negations n False = (x, e)" by fastforce
  then show ?thesis using assms strip_negations_weight [OF x assms(2)]
    by (auto simp: makeNegation_def split: if_splits node.splits)
qed

lemma shrinks_negation:
  "propositional x \<Longrightarrow> Suc (prop_weight x) < prop_weight n \<Longrightarrow> shrinks n (respond s (makeNegation x))"
  using makeNegation_weight [of x] by (fastforce simp: shrinks_def respond_def)

subsection \<open>Flattening\<close>

definition child_weight :: "node \<Rightarrow> nat" where
  "child_weight n = sum_list (map prop_weight (children n))"

lemma child_weight_kind: "hasKind k n \<Longrightarrow> prop_weight n = Suc (child_weight n)"
  by (cases n) (simp_all add: hasKind_def child_weight_def)

definition queue_weight :: "node list \<Rightarrow> node list \<Rightarrow> nat" where
  "queue_weight q cl = sum_list (map child_weight q) + sum_list (map prop_weight cl)"

lemma queue_weight_simps [simp]:
  "queue_weight (q @ [c]) cl = queue_weight q cl + child_weight c"
  "queue_weight q (cl @ [c]) = queue_weight q cl + prop_weight c"
  by (simp_all add: queue_weight_def)

definition drops :: "kind \<Rightarrow> node set \<Rightarrow> node list \<Rightarrow> nat" where
  "drops k V cs = (if list_ex (\<lambda>c. c \<in> V \<or> hasKind k c) cs then 1 else 0)"

lemma drops_simps:
  "drops k V [] = 0" "drops k V (c # cs) \<le> 1"
  "c \<notin> V \<Longrightarrow> \<not> hasKind k c \<Longrightarrow> drops k V (c # cs) \<le> drops k (insert c V) cs"
  by (auto simp: drops_def list_ex_iff)

lemma flattenNode_scan_weight:
  "flattenNode_scan k tr cs (V, q, cl) = Some (V', q', cl') \<Longrightarrow>
    queue_weight q' cl' + drops k V cs \<le> queue_weight q cl + sum_list (map prop_weight cs)"
proof (induction cs arbitrary: V q cl)
  case (Cons c cs)
  consider "c \<in> V" | "c \<notin> V" "c \<noteq> tr" "hasKind k c" | "c \<notin> V" "c \<noteq> tr" "\<not> hasKind k c"
    using Cons.prems by (auto split: if_splits)
  then show ?case
  proof cases
    case 1
    then have "queue_weight q' cl' \<le> queue_weight q cl + sum_list (map prop_weight cs)" using Cons by fastforce
    then show ?thesis using drops_simps(2) [of k V c cs] prop_weight_pos [of c] by simp
  next
    case 2
    then have "queue_weight q' cl' \<le> queue_weight (q @ [c]) cl + sum_list (map prop_weight cs)" using Cons by fastforce
    then show ?thesis using drops_simps(2) [of k V c cs] child_weight_kind [OF 2(3)] by simp
  next
    case 3
    then have "queue_weight q' cl' + drops k (insert c V) cs \<le> queue_weight q (cl @ [c]) + sum_list (map prop_weight cs)"
      using Cons.prems by (intro Cons.IH) auto
    then show ?thesis using drops_simps(3) [OF 3(1,3), of cs] by simp
  qed
qed (simp add: drops_simps)

lemma flattenNode_loop_weight:
  "flattenNode_loop k tr V q cl = Some cl' \<Longrightarrow> sum_list (map prop_weight cl') \<le> queue_weight q cl"
proof (induction k tr V q cl rule: flattenNode_loop.induct)
  case (2 k tr V n q cl)
  then obtain V1 q1 cl1 where scan: "flattenNode_scan k tr (children n) (V, q, cl) = Some (V1, q1, cl1)"
    and loop: "flattenNode_loop k tr V1 q1 cl1 = Some cl'" by (auto split: option.splits)
  have "sum_list (map prop_weight cl') \<le> queue_weight q1 cl1" using 2(1) scan loop by blast
  also have "\<dots> \<le> queue_weight q cl + child_weight n" using flattenNode_scan_weight [OF scan] by (simp add: child_weight_def)
  finally show ?case by (simp add: queue_weight_def)
qed (simp add: queue_weight_def)

lemma flattenNode_loop_strict:
  assumes "flattenNode_loop k tr V [n] [] = Some cl" and "list_ex (\<lambda>c. c \<in> V \<or> hasKind k c) (children n)"
  shows "sum_list (map prop_weight cl) < child_weight n"
proof -
  from assms(1) obtain V1 q1 cl1 where scan: "flattenNode_scan k tr (children n) (V, [], []) = Some (V1, q1, cl1)"
    and loop: "flattenNode_loop k tr V1 q1 cl1 = Some cl" by (auto split: option.splits)
  have "sum_list (map prop_weight cl) \<le> queue_weight q1 cl1" by (rule flattenNode_loop_weight [OF loop])
  moreover have "queue_weight q1 cl1 + 1 \<le> queue_weight [] [] + child_weight n"
    using flattenNode_scan_weight [OF scan] assms(2) by (simp add: drops_def child_weight_def)
  ultimately show ?thesis by (simp add: queue_weight_def)
qed

lemma flattenNode_shrinks:
  assumes "hasKind k n" and "k \<in> {AND, OR}" and "propositional n" and "2 * prop_weight n + 2 < MAX_CHILDREN"
    and "list_ex (\<lambda>c. c = CONST_BOOLEAN b \<or> hasKind k c) (children n)"
  shows "shrinks n (Inr (flattenNode k n (CONST_BOOLEAN tr) (CONST_BOOLEAN b)))"
proof (cases "flattenNode_loop k (CONST_BOOLEAN tr) {CONST_BOOLEAN b} [n] []")
  case None
  obtain c where c: "c \<in> set (children n)" using assms(5) by (auto simp: list_ex_iff)
  then have "1 < prop_weight n" using assms(1) member_le_sum_list [of "prop_weight c" "map prop_weight (children n)"] prop_weight_pos [of c]
    by (simp add: child_weight_kind child_weight_def)
  then show ?thesis unfolding flattenNode_def None option.case by (simp add: shrinks_def)
next
  case (Some cl)
  have w: "sum_list (map prop_weight cl) < child_weight n"
    using flattenNode_loop_strict [OF Some] assms(5) by simp
  have "(\<forall>c\<in>set cl. propositional c)"
    using flattenNode_loop_all [OF _ _ _ Some, of propositional] assms(1,3) by (auto simp: list_all_iff)
  moreover have "length cl \<le> sum_list (map prop_weight cl)"
    using sum_list_mono [of cl "\<lambda>x. 1" prop_weight] prop_weight_pos by (simp add: Suc_le_eq sum_list_triv)
  moreover have "prop_weight n = Suc (child_weight n)" using child_weight_kind [OF assms(1)] .
  ultimately show ?thesis using w assms(2,4) unfolding flattenNode_def Some option.case
    by (auto simp: shrinks_def list_all_iff length_Suc_conv)
qed

subsection \<open>The connectives\<close>

lemma shrinks_NOT: "propositional (App NOT [a]) \<Longrightarrow> typeOf a = Some t \<Longrightarrow> shrinks (App NOT [a]) (boolRewrite_NOT (App NOT [a]))"
  unfolding boolRewrite_NOT_def Let_def using hasKind_NOT [of a t]
  by (intro shrinks_if shrinks_same shrinks_respond) (auto simp: list_all_iff)

lemma shrinks_constant: "c \<in> set ns \<Longrightarrow> shrinks (App k ns) (respond s (Inr (CONST_BOOLEAN b)))"
  using prop_weight_child [of c ns k] prop_weight_pos [of c] by (intro shrinks_respond) simp_all

lemma shrinks_OR:
  assumes "propositional (App OR ns)" and "2 * prop_weight (App OR ns) + 2 < MAX_CHILDREN"
  shows "shrinks (App OR ns) (boolRewrite_OR (App OR ns))"
  unfolding boolRewrite_OR_def using assms
  by (intro shrinks_if shrinks_same flattenNode_shrinks) (auto simp: hasKind_def intro: shrinks_constant)

lemma shrinks_AND:
  assumes "propositional (App AND ns)" and "2 * prop_weight (App AND ns) + 2 < MAX_CHILDREN"
  shows "shrinks (App AND ns) (boolRewrite_AND (App AND ns))"
  unfolding boolRewrite_AND_def using assms
  by (intro shrinks_if shrinks_same flattenNode_shrinks) (auto simp: hasKind_def intro: shrinks_constant)

lemma shrinks_IMPLIES:
  assumes "propositional (App IMPLIES [a, b])"
  shows "shrinks (App IMPLIES [a, b]) (boolRewrite_IMPLIES (App IMPLIES [a, b]))"
  unfolding boolRewrite_IMPLIES_def Let_def using assms prop_weight_pos [of a] prop_weight_pos [of b]
  by (intro shrinks_if shrinks_same shrinks_constant [of a]) (auto intro: shrinks_respond shrinks_negation)

lemma shrinks_XOR:
  assumes "propositional (App XOR [a, b])"
  shows "shrinks (App XOR [a, b]) (boolRewrite_XOR (App XOR [a, b]))"
  unfolding boolRewrite_XOR_def Let_def using assms prop_weight_pos [of a] prop_weight_pos [of b]
  by (intro shrinks_if shrinks_same shrinks_constant [of a]) (auto intro: shrinks_respond shrinks_negation)

text \<open>An equality of equalities between Booleans is decided: the type has two values only.\<close>

lemma shrinks_equalities:
  assumes "propositional (App EQUAL [a, b])" and "typeOf (App EQUAL [a, b]) = Some t" and "hasKind EQUAL a"
  shows "shrinks (App EQUAL [a, b]) (boolRewrite_equalities (App EQUAL [a, b]))"
proof -
  let ?n = "App EQUAL [a, b]"
  obtain ns where ns: "a = App EQUAL ns" using assms(3) by (auto simp: hasKind_iff)
  obtain u where "typeOf a = Some u" using typed_shape(3) [OF assms(2)] by auto
  then obtain x y v where a: "a = App EQUAL [x, y]" "typeOf x = Some v" "typeOf y = Some v" using typed_shape(3) ns by blast
  have "v = BOOLEAN_TYPE" using propositional_typed [OF _ a(2)] assms(1) a(1) by simp
  then have types: "getType False x = Inr BOOLEAN_TYPE" "getType False y = Inr BOOLEAN_TYPE" using a(2,3) getType_typeOf by blast+
  have decide: "shrinks ?n (case q of None \<Rightarrow> finish ?n | Some d \<Rightarrow> if d = c then finish tt else ebind (getType False z)
      (\<lambda>ty. ebind (atMostTwoValues ty) (\<lambda>small. if small then finish ff else r)))" if "z = x \<or> z = y" for q c z r
    using that types shrinks_constant [of a "[a, b]"] shrinks_same [OF assms(1)]
    by (auto simp: atMostTwoValues_def split: option.split)
  show ?thesis
  proof (cases "constantSide a")
    case None
    then show ?thesis using shrinks_same [OF assms(1)] by (simp add: boolRewrite_equalities_def)
  next
    case (Some p)
    then obtain c z where p: "p = (c, z)" "z = x \<or> z = y" by (auto simp: constantSide_def a(1) split: if_splits)
    then have side: "constantSide (children ?n ! 0) = Some (c, z)" using Some by simp
    show ?thesis unfolding boolRewrite_equalities_def Let_def side option.case prod.case by (rule decide [OF p(2)])
  qed
qed

lemma shrinks_EQUAL:
  assumes "propositional (App EQUAL [a, b])" and "typeOf (App EQUAL [a, b]) = Some t"
  shows "shrinks (App EQUAL [a, b]) (boolRewrite_EQUAL (App EQUAL [a, b]))"
  unfolding boolRewrite_EQUAL_def Let_def
  using assms prop_weight_pos [of a] prop_weight_pos [of b] shrinks_equalities [OF assms]
  by (intro shrinks_if shrinks_same shrinks_constant [of a]) (auto intro: shrinks_respond shrinks_negation)

lemma parity_ITE_shrinks:
  assumes "propositional (App ITE [c, a, b])" and "typeOf (App ITE [c, a, b]) = Some t"
  shows "shrinks (App ITE [c, a, b]) (boolRewrite_ITE_parity (App ITE [c, a, b]))"
proof -
  let ?n = "App ITE [c, a, b]"
  have branch: "\<exists>x y z. m = App ITE [x, y, z] \<and> propositional y \<and> propositional z \<and> prop_weight y < prop_weight m \<and> prop_weight z < prop_weight m"
    if "hasKind ITE m" "propositional m" "typeOf m = Some u" for m u
    using that typed_shape(4) by (fastforce simp: hasKind_iff)
  obtain u where typed: "typeOf a = Some u" "typeOf b = Some u" using typed_shape(4) [OF assms(2)] by auto
  have weight: "1 < prop_weight m" if "\<not> isConst m" "propositional m" "typeOf m = Some v" for m v
  proof (cases m)
    case (App k ns)
    then have "ns \<noteq> []" using that typed_shape(1,3,4) [of ns v] typed_shape(2) [of k ns v] type_bool_app [of k ns v] by auto
    then obtain x where "x \<in> set ns" by (cases ns) auto
    then show ?thesis using prop_weight_child [of x ns k] prop_weight_pos [of x] App by simp
  qed (use that in \<open>auto simp: isConst_def\<close>)
  note respond = shrinks_respond [of _ ?n]
  show ?thesis
    unfolding boolRewrite_ITE_parity_def Let_def
  proof (intro shrinks_if shrinks_same)
    show "shrinks ?n (again (if equalityParity (children ?n ! 1) (children ?n ! 2) = 1 then children ?n ! 1
        else App EQUAL [children ?n ! 0, children ?n ! 1]))"
      using assms(1) prop_weight_pos [of b] prop_weight_pos [of c] by (intro respond) auto
  next
    assume "\<not> isConst (children ?n ! 1) \<and> equalityParity (children ?n ! 0) (children ?n ! 1) \<noteq> 0"
    then show "shrinks ?n (again (App ITE [children ?n ! 0,
        if equalityParity (children ?n ! 0) (children ?n ! 1) = 1 then tt else ff, children ?n ! 2]))"
      using assms(1) weight [of a u] typed by (intro respond) auto
  next
    assume "\<not> isConst (children ?n ! 2) \<and> equalityParity (children ?n ! 0) (children ?n ! 2) \<noteq> 0"
    then show "shrinks ?n (again (App ITE [children ?n ! 0, children ?n ! 1,
        if equalityParity (children ?n ! 0) (children ?n ! 2) = 1 then ff else tt]))"
      using assms(1) weight [of b u] typed by (intro respond) auto
  next
    assume "hasKind ITE (children ?n ! 1) \<and> equalityParity (children ?n ! 0) (children (children ?n ! 1) ! 0) \<noteq> 0"
    then have "hasKind ITE a" by simp
    from branch [OF this _ typed(1)] assms(1)
    show "shrinks ?n (again (App ITE [children ?n ! 0, if equalityParity (children ?n ! 0) (children (children ?n ! 1) ! 0) = 1
        then children (children ?n ! 1) ! 1 else children (children ?n ! 1) ! 2, children ?n ! 2]))"
      by (intro respond) auto
  next
    assume "hasKind ITE (children ?n ! 2) \<and> equalityParity (children ?n ! 0) (children (children ?n ! 2) ! 0) \<noteq> 0"
    then have "hasKind ITE b" by simp
    from branch [OF this _ typed(2)] assms(1)
    show "shrinks ?n (again (App ITE [children ?n ! 0, children ?n ! 1, if equalityParity (children ?n ! 0)
        (children (children ?n ! 2) ! 0) = 1 then children (children ?n ! 2) ! 2 else children (children ?n ! 2) ! 1]))"
      by (intro respond) auto
  qed (rule assms(1))
qed

lemma shrinks_ITE:
  assumes "propositional (App ITE [c, a, b])" and "typeOf (App ITE [c, a, b]) = Some t"
  shows "shrinks (App ITE [c, a, b]) (boolRewrite_ITE (App ITE [c, a, b]))"
  unfolding boolRewrite_ITE_def Let_def
  using assms prop_weight_pos [of a] prop_weight_pos [of b] prop_weight_pos [of c] parity_ITE_shrinks [OF assms]
  by (intro shrinks_if) (auto intro: shrinks_respond shrinks_negation)

lemma boolRewrite_shrinks:
  assumes "prop_good n"
  shows "shrinks n (TheoryBoolRewriter_preRewrite n)"
proof (cases n)
  case (App k ns)
  have n: "propositional (App k ns)" "typeOf (App k ns) = Some BOOLEAN_TYPE" "2 * prop_weight (App k ns) + 2 < MAX_CHILDREN"
    using assms by (simp_all add: prop_good_def App)
  consider "k = NOT" | "k \<in> {AND, OR}" | "k \<in> {IMPLIES, XOR}" | "k = EQUAL" | "k = ITE" using n(1) by auto
  then show ?thesis
  proof cases
    case 1
    then show ?thesis using n(1,2) typed_shape(1) [of ns] shrinks_NOT by (auto simp: App TheoryBoolRewriter_preRewrite_def)
  next
    case 2
    then show ?thesis using n(1,3) shrinks_AND shrinks_OR by (auto simp: App TheoryBoolRewriter_preRewrite_def)
  next
    case 3
    then show ?thesis using n(1,2) typed_shape(2) [of k ns] shrinks_IMPLIES shrinks_XOR by (auto simp: App TheoryBoolRewriter_preRewrite_def)
  next
    case 4
    then obtain a b where "ns = [a, b]" using typed_shape(3) [of ns] n(2) by auto
    then show ?thesis using n(1,2) 4 shrinks_EQUAL by (simp add: App TheoryBoolRewriter_preRewrite_def)
  next
    case 5
    then obtain c a b where "ns = [c, a, b]" using typed_shape(4) [of ns] n(2) by auto
    then show ?thesis using n(1,2) 5 shrinks_ITE by (simp add: App TheoryBoolRewriter_preRewrite_def)
  qed
qed (use assms in \<open>simp_all add: TheoryBoolRewriter_preRewrite_def shrinks_same prop_good_def\<close>)

section \<open>Rewriting a propositional formula\<close>

lemma prop_good_owner:
  assumes "prop_good n"
  shows "theoryOf owner THEORY_OF_TYPE_BASED n = Inr THEORY_BOOL"
proof -
  have "bool_connective n \<or> (case n of App k ns \<Rightarrow> False | _ \<Rightarrow> True)"
  proof (cases n)
    case (App k ns)
    show ?thesis
    proof (cases "k = EQUAL")
      case True
      then obtain a b u where a: "ns = [a, b]" "typeOf a = Some u" using assms typed_shape(3) [of ns] by (auto simp: prop_good_def App)
      moreover have "u = BOOLEAN_TYPE" using propositional_typed [OF _ a(2)] assms a(1) by (simp add: prop_good_def App)
      ultimately show ?thesis using True getType_typeOf by (simp add: App bool_connective_def)
    qed (use assms in \<open>auto simp: prop_good_def App bool_connective_def\<close>)
  qed simp_all
  then show ?thesis using theoryOf_type_based [of n owner] assms by (auto simp: prop_good_def)
qed

lemma prop_good_child: "prop_good (App k ns) \<Longrightarrow> c \<in> set ns \<Longrightarrow> prop_good c \<and> prop_weight c < prop_weight (App k ns)"
  using typed_children [of k ns BOOLEAN_TYPE c] propositional_typed [of c] prop_weight_child [of c ns k]
  by (auto simp: prop_good_def list_all_iff)

lemma prop_good_rebuilt:
  assumes "prop_good (App k ns)" and ms: "list_all2 (improves opt prop_good prop_weight) ms ns"
  shows "prop_good (App k ms) \<and> prop_weight (App k ms) \<le> prop_weight (App k ns)"
proof -
  have "sum_list (map prop_weight ms) \<le> sum_list (map prop_weight ns)"
    using ms by (induction rule: list_all2_induct) (auto simp: improves_def)
  moreover have "list_all propositional ms"
    using ms by (induction rule: list_all2_induct) (auto simp: improves_def prop_good_def)
  moreover have "same_meaning opt (App k ms) (App k ns)"
    using ms by (intro same_meaning_App) (auto simp: improves_def elim: list_all2_mono)
  ultimately show ?thesis using assms(1) by (simp add: prop_good_def same_meaning_def)
qed

lemma prop_good_progress:
  assumes "prop_good n"
  shows "progress opt prop_good prop_weight (TheoryBoolRewriter_preRewrite n) n"
proof -
  have "bool_rewritable n"
    using assms size_le_weight [of n] prop_good_child [of EQUAL "children n" "children n ! 0"] typed_shape(3) [of "children n"]
    by (auto simp: bool_rewritable_def prop_good_def hasKind_iff)
  then obtain s m where m: "TheoryBoolRewriter_preRewrite n = Inr \<lparr>status = s, rnode = m\<rparr>" "same_meaning opt m n"
    using boolRewrite_sound [of n BOOLEAN_TYPE opt] assms by (auto simp: response_sound_def prop_good_def)
  moreover have "propositional m" "s = REWRITE_DONE \<and> m = n \<or> prop_weight m < prop_weight n"
    using boolRewrite_shrinks [OF assms] m(1) by (simp_all add: shrinks_def)
  ultimately show ?thesis using assms by (auto simp: progress_def improves_def prop_good_def same_meaning_def)
qed

interpretation propositional: theory_rewriters "mk_rewriter_env R otherPre otherPost engine step clocks owner" opt prop_good prop_weight interruptible
  for R otherPre otherPost engine step clocks owner opt interruptible
proof unfold_locales
  let ?E = "mk_rewriter_env R otherPre otherPost engine step clocks owner"
  show "\<exists>t. typeOf n = Some t" if "prop_good n" for n using that by (simp add: prop_good_def)
  show "prop_good c \<and> prop_weight c < prop_weight (App k ns)" if "prop_good (App k ns)" "c \<in> set ns" for k ns c
    using that by (rule prop_good_child)
  show "prop_good (App k ms) \<and> prop_weight (App k ms) \<le> prop_weight (App k ns)"
    if "prop_good (App k ns)" "list_all2 (improves opt prop_good prop_weight) ms ns" for k ns ms
    using that by (rule prop_good_rebuilt)
  show "progress opt prop_good prop_weight (callPreRewrite ?E i n) n" if "prop_good n" "ownerOf ?E n = Inr i" for n i
    using that prop_good_owner [OF that(1), of owner] prop_good_progress [OF that(1)] by (simp add: mk_rewriter_env_def theoryPreRewrite_def)
  show "progress opt prop_good prop_weight (callPostRewrite ?E i n) n" if "prop_good n" "ownerOf ?E n = Inr i" for n i
    using that prop_good_owner [OF that(1), of owner] prop_good_progress [OF that(1)]
    by (simp add: mk_rewriter_env_def theoryPostRewrite_def TheoryBoolRewriter_postRewrite_def)
qed

end
