(* ===== verification/Bitblast_Circuits.thy ===== *)
theory Bitblast_Circuits
  imports BV_Semantics
begin

text \<open>
  The circuits of the bit-blaster: the helpers of \<open>src/src/theory/bv/bitblast_utils.h\<close> and the
  recursive divider of \<open>src/src/theory/bv/bitblast_strategies_template.h\<close>. The C++ templates are
  generic in the bit type \<open>T\<close>; here they take a record \<open>bit_ops\<close> with the specialisations
  \<open>mkTrue<T>\<close>, \<open>mkAnd<T>\<close>, and so on. The locale \<open>bit_sem\<close> is the contract of these operations: on
  well-formed bits (\<open>ok\<close>) they compute the Boolean connectives. Inside it each circuit is proved to
  compute its arithmetic operation on the number the bits stand for. Bit lists start with the
  least significant bit, as the vectors of the code do.
\<close>

section \<open>The circuits\<close>

record 'b bit_ops =
  mkTrue :: 'b
  mkFalse :: 'b
  mkNot :: "'b \<Rightarrow> 'b"
  mkOr :: "'b \<Rightarrow> 'b \<Rightarrow> 'b"
  mkOrs :: "'b list \<Rightarrow> 'b"
  mkAnd :: "'b \<Rightarrow> 'b \<Rightarrow> 'b"
  mkAnds :: "'b list \<Rightarrow> 'b"
  mkXor :: "'b \<Rightarrow> 'b \<Rightarrow> 'b"
  mkIff :: "'b \<Rightarrow> 'b \<Rightarrow> 'b"
  mkIte :: "'b \<Rightarrow> 'b \<Rightarrow> 'b \<Rightarrow> 'b"

definition extractBits :: "'b list \<Rightarrow> nat \<Rightarrow> nat \<Rightarrow> 'b list" where
  "extractBits b lo hi = map (\<lambda>i. b ! i) [lo..<Suc hi]"

definition negateBits :: "'b bit_ops \<Rightarrow> 'b list \<Rightarrow> 'b list" where
  "negateBits B bits = map (mkNot B) bits"

definition isZeroBits :: "'b bit_ops \<Rightarrow> 'b list \<Rightarrow> bool" where
  "isZeroBits B bits = list_all (\<lambda>b. b = mkFalse B) bits"

definition rshift :: "'b bit_ops \<Rightarrow> 'b list \<Rightarrow> nat \<Rightarrow> 'b list" where
  "rshift B bits amount =
     map (\<lambda>i. if i < length bits - amount then bits ! (i + amount) else mkFalse B) [0..<length bits]"

definition lshift :: "'b bit_ops \<Rightarrow> 'b list \<Rightarrow> nat \<Rightarrow> 'b list" where
  "lshift B bits amount =
     map (\<lambda>i. if amount \<le> i then bits ! (i - amount) else mkFalse B) [0..<length bits]"

definition makeZero :: "'b bit_ops \<Rightarrow> nat \<Rightarrow> 'b list" where
  "makeZero B width = replicate width (mkFalse B)"

fun rippleCarryAdder :: "'b bit_ops \<Rightarrow> 'b list \<Rightarrow> 'b list \<Rightarrow> 'b \<Rightarrow> 'b list \<times> 'b" where
  "rippleCarryAdder B (a # as) (b # bs) carry =
     (let sum = mkXor B (mkXor B a b) carry;
          carry' = mkOr B (mkAnd B a b) (mkAnd B (mkXor B a b) carry);
          (res, co) = rippleCarryAdder B as bs carry'
      in (sum # res, co))"
| "rippleCarryAdder B _ _ carry = ([], carry)"

text \<open>One row of the multiplier: the loop over \<open>j\<close>, on the bits \<open>res[k], res[k + 1], ...\<close>.\<close>

fun shiftAdd_row :: "'b bit_ops \<Rightarrow> 'b \<Rightarrow> 'b list \<Rightarrow> 'b list \<Rightarrow> 'b \<Rightarrow> 'b list" where
  "shiftAdd_row B bk (r # rs) (a # as) carry_in =
     (let aj = mkAnd B bk a;
          carry_out = mkOr B (mkAnd B r aj) (mkAnd B (mkXor B r aj) carry_in)
      in mkXor B (mkXor B r aj) carry_in # shiftAdd_row B bk rs as carry_out)"
| "shiftAdd_row B bk rs _ carry_in = rs"

definition shiftAddMultiplier :: "'b bit_ops \<Rightarrow> 'b list \<Rightarrow> 'b list \<Rightarrow> 'b list" where
  "shiftAddMultiplier B a b =
     foldl (\<lambda>res k. take k res @ shiftAdd_row B (b ! k) (drop k res) a (mkFalse B))
       (map (\<lambda>x. mkAnd B (b ! 0) x) a) [1..<length a]"

definition uLessThanBB :: "'b bit_ops \<Rightarrow> 'b list \<Rightarrow> 'b list \<Rightarrow> bool \<Rightarrow> 'b" where
  "uLessThanBB B a b orEqual =
     (let res = mkAnd B (mkNot B (a ! 0)) (b ! 0);
          res = (if orEqual then mkOr B res (mkIff B (a ! 0) (b ! 0)) else res)
      in foldl (\<lambda>res i. mkOr B (mkAnd B (mkIff B (a ! i) (b ! i)) res)
                               (mkAnd B (mkNot B (a ! i)) (b ! i))) res [1..<length a])"

definition sLessThanBB :: "'b bit_ops \<Rightarrow> 'b list \<Rightarrow> 'b list \<Rightarrow> bool \<Rightarrow> 'b" where
  "sLessThanBB B a b orEqual =
     (if length a = 1 then
        if orEqual then mkOr B (mkIff B (a ! 0) (b ! 0)) (mkAnd B (a ! 0) (mkNot B (b ! 0)))
        else mkAnd B (a ! 0) (mkNot B (b ! 0))
      else
        let n = length a - 1;
            a1 = extractBits a 0 (n - 1);
            b1 = extractBits b 0 (n - 1);
            ures = uLessThanBB B a1 b1 orEqual
        in mkOr B (mkAnd B (mkIff B (a ! n) (b ! n)) ures) (mkAnd B (a ! n) (mkNot B (b ! n))))"

fun uDivModRec :: "'b bit_ops \<Rightarrow> 'b list \<Rightarrow> 'b list \<Rightarrow> nat \<Rightarrow> 'b list \<times> 'b list" where
  "uDivModRec B a b 0 = (makeZero B (length a), makeZero B (length a))"
| "uDivModRec B a b (Suc w) =
     (if isZeroBits B a then (makeZero B (length a), makeZero B (length a))
      else
        let a1 = rshift B a 1;
            (q1, r1) = uDivModRec B a1 b w;
            q1 = lshift B q1 1;
            r1 = lshift B r1 1;
            is_odd = mkIff B (a ! 0) (mkTrue B);
            one_if_odd = mkIte B is_odd (mkTrue B) (mkFalse B);
            zero = makeZero B (length b);
            r1_shift_add = fst (rippleCarryAdder B r1 zero one_if_odd);
            not_b = negateBits B b;
            (r_minus_b, co1) = rippleCarryAdder B r1_shift_add not_b (mkTrue B);
            sign = mkNot B co1;
            q1 = q1[0 := mkIte B sign (q1 ! 0) (mkTrue B)];
            r1_shift_add = map (\<lambda>i. mkIte B sign (r1_shift_add ! i) (r_minus_b ! i)) [0..<length a];
            co2 = snd (rippleCarryAdder B a not_b (mkTrue B));
            a_lt_b = mkNot B co2
        in (map (\<lambda>i. mkIte B a_lt_b (mkFalse B) (q1 ! i)) [0..<length a],
            map (\<lambda>i. mkIte B a_lt_b (a ! i) (r1_shift_add ! i)) [0..<length a]))"

text \<open>The barrel shifters of \<open>DefaultShlBB\<close>, \<open>DefaultLshrBB\<close> and \<open>DefaultAshrBB\<close>: stage \<open>s\<close> shifts by
  \<open>2 ^ s\<close> when bit \<open>s\<close> of the shift amount is set, and \<open>fill\<close> is what enters at the top of a right
  shift (\<open>mkFalse\<close> or the sign bit). \<open>ceil_log2\<close> is \<open>std::ceil(log2((double)size))\<close>.\<close>

fun ceil_log2 :: "nat \<Rightarrow> nat" where
  "ceil_log2 n = (if n \<le> 1 then 0 else Suc (ceil_log2 ((n + 1) div 2)))"

declare ceil_log2.simps [simp del]

definition shl_stage :: "'b bit_ops \<Rightarrow> 'b \<Rightarrow> nat \<Rightarrow> 'b list \<Rightarrow> 'b list" where
  "shl_stage B bs threshold prev =
     map (\<lambda>i. if i < threshold then mkIte B bs (mkFalse B) (prev ! i)
              else mkIte B bs (prev ! (i - threshold)) (prev ! i)) [0..<length prev]"

definition shl_barrel :: "'b bit_ops \<Rightarrow> 'b list \<Rightarrow> 'b list \<Rightarrow> nat \<Rightarrow> 'b list" where
  "shl_barrel B a b log2_size = foldl (\<lambda>res s. shl_stage B (b ! s) (2 ^ s) res) a [0..<log2_size]"

definition shr_stage :: "'b bit_ops \<Rightarrow> 'b \<Rightarrow> 'b \<Rightarrow> nat \<Rightarrow> 'b list \<Rightarrow> 'b list" where
  "shr_stage B fill bs threshold prev =
     map (\<lambda>i. if i + threshold \<ge> length prev then mkIte B bs fill (prev ! i)
              else mkIte B (mkNot B bs) (prev ! i) (prev ! (i + threshold))) [0..<length prev]"

definition shr_barrel :: "'b bit_ops \<Rightarrow> 'b \<Rightarrow> 'b list \<Rightarrow> 'b list \<Rightarrow> nat \<Rightarrow> 'b list" where
  "shr_barrel B fill a b log2_size =
     foldl (\<lambda>res s. shr_stage B fill (b ! s) (2 ^ s) res) a [0..<log2_size]"

section \<open>Arithmetic of the circuits\<close>

lemma ceil_log2_bounds: "n \<le> 2 ^ ceil_log2 n" "ceil_log2 n \<le> n" "1 < n \<Longrightarrow> 2 ^ (ceil_log2 n - 1) < n"
proof -
  have "n \<le> 2 ^ ceil_log2 n \<and> ceil_log2 n \<le> n \<and> (1 < n \<longrightarrow> 2 ^ (ceil_log2 n - 1) < n)"
  proof (induction n rule: ceil_log2.induct)
    case (1 n)
    show ?case
    proof (cases "n \<le> 1")
      case False
      let ?m = "(n + 1) div 2"
      have IH: "?m \<le> 2 ^ ceil_log2 ?m" "ceil_log2 ?m \<le> ?m" "1 < ?m \<longrightarrow> 2 ^ (ceil_log2 ?m - 1) < ?m"
        using 1 False by auto
      have e: "ceil_log2 n = Suc (ceil_log2 ?m)" using False by (subst ceil_log2.simps) simp
      have "2 ^ ceil_log2 ?m < n"
      proof (cases "1 < ?m")
        case True
        then have "ceil_log2 ?m \<noteq> 0" by (subst ceil_log2.simps) simp
        then obtain j where j: "ceil_log2 ?m = Suc j" by (cases "ceil_log2 ?m") auto
        then have "2 ^ j < ?m" using IH(3) True by simp
        then show ?thesis unfolding j by simp
      next
        case False': False
        then have "?m = 1" using False by auto
        then have "ceil_log2 ?m = 0" by (simp add: ceil_log2.simps)
        then show ?thesis using False by simp
      qed
      moreover have "n \<le> 2 * ?m" and "?m < n" using False by auto
      ultimately show ?thesis unfolding e using IH by auto
    qed (auto simp: ceil_log2.simps [of n] le_Suc_eq)
  qed
  then show "n \<le> 2 ^ ceil_log2 n" "ceil_log2 n \<le> n" "1 < n \<Longrightarrow> 2 ^ (ceil_log2 n - 1) < n" by simp_all
qed

text \<open>One step of the division by repeated halving, on numbers.\<close>

lemma div_mod_halving:
  assumes "0 < (y :: int)" and "0 \<le> x"
  defines "s \<equiv> 2 * (x div 2 mod y) + x mod 2"
  shows "s < 2 * y" and "s \<le> x" and "0 \<le> s"
    and "x div y = (if s < y then 2 * (x div 2 div y) else 2 * (x div 2 div y) + 1)"
    and "x mod y = (if s < y then s else s - y)"
proof -
  let ?q = "x div 2 div y" and ?r = "x div 2 mod y"
  have r: "0 \<le> ?r" "?r < y" using assms by simp_all
  have half: "x div 2 = y * ?q + ?r" by simp
  have "x = 2 * (x div 2) + x mod 2" by simp
  then have x: "x = y * (2 * ?q) + s"
    unfolding s_def using half by (metis (no_types, lifting) add.assoc distrib_left mult.left_commute)
  have b: "x mod 2 = 0 \<or> x mod 2 = 1" by auto
  then show "s < 2 * y" "0 \<le> s" unfolding s_def using r by auto
  have "0 \<le> y * (2 * ?q)" using assms by (simp add: pos_imp_zdiv_nonneg_iff)
  with x show "s \<le> x" by linarith
  have "x div y = (if s < y then 2 * ?q else 2 * ?q + 1) \<and> x mod y = (if s < y then s else s - y)"
  proof (cases "s < y")
    case True
    then show ?thesis
      using int_div_pos_eq [OF x] int_mod_pos_eq [OF x] \<open>0 \<le> s\<close> by simp
  next
    case False
    have x': "x = y * (2 * ?q + 1) + (s - y)" using x by (simp add: distrib_left)
    show ?thesis
      using int_div_pos_eq [OF x'] int_mod_pos_eq [OF x'] False \<open>s < 2 * y\<close> by simp
  qed
  then show "x div y = (if s < y then 2 * ?q else 2 * ?q + 1)" and "x mod y = (if s < y then s else s - y)"
    by simp_all
qed

lemma div_step_values:
  assumes y: "0 < y" and x: "0 \<le> x" "x < 2 ^ n"
    and s: "s = (2 * (x div 2 mod y) mod 2 ^ n + x mod 2) mod 2 ^ n"
  shows "(if x < y then 0 else 2 * (x div 2 div y) mod 2 ^ n + of_bool (\<not> s < y)) = x div y"
    and "(if x < y then x else if s < y then s else bvsub n s y) = x mod y"
proof -
  note h = div_mod_halving [OF y x(1)]
  have "0 \<le> x mod 2" "0 \<le> x div 2 mod y" using y by simp_all
  then have small: "0 \<le> 2 * (x div 2 mod y)" "2 * (x div 2 mod y) < 2 ^ n"
    using h(2) x(2) by linarith+
  then have s': "s = 2 * (x div 2 mod y) + x mod 2"
    unfolding s using h(2,3) x(2) by (simp add: mod_pos_pos_trivial)
  have q0: "0 \<le> x div 2 div y" using x y by (simp add: pos_imp_zdiv_nonneg_iff)
  have "2 * (x div 2 div y) \<le> x"
  proof -
    have "x div 2 div y \<le> x div 2 div 1"
      using x y by (intro zdiv_mono2) auto
    then show ?thesis by simp
  qed
  then have q: "2 * (x div 2 div y) mod 2 ^ n = 2 * (x div 2 div y)"
    using q0 x by (intro mod_pos_pos_trivial) auto
  have d: "bvsub n s y = s - y" if "\<not> s < y"
    unfolding bvsub_def using that h(2) x(2) y by (intro mod_pos_pos_trivial) (auto simp: s')
  have small_x: "x div y = 0" "x mod y = x" if "x < y"
    using that x by simp_all
  show "(if x < y then 0 else 2 * (x div 2 div y) mod 2 ^ n + of_bool (\<not> s < y)) = x div y"
  proof (cases "x < y")
    case False
    then show ?thesis using h(4) q unfolding s' [symmetric] by (simp split: if_splits)
  qed (simp add: small_x)
  show "(if x < y then x else if s < y then s else bvsub n s y) = x mod y"
  proof (cases "x < y")
    case False
    then show ?thesis using h(5) d unfolding s' [symmetric] by (simp split: if_splits)
  qed (simp add: small_x)
qed

section \<open>The contract of the bit operations\<close>

locale bit_sem =
  fixes B :: "'b bit_ops" and ok :: "'b \<Rightarrow> bool" and sem :: "'b \<Rightarrow> bool"
  assumes ok_ops [simp]:
      "ok (mkTrue B)" "ok (mkFalse B)"
      "ok a \<Longrightarrow> ok (mkNot B a)"
      "ok a \<Longrightarrow> ok b \<Longrightarrow> ok (mkOr B a b)"
      "ok a \<Longrightarrow> ok b \<Longrightarrow> ok (mkAnd B a b)"
      "ok a \<Longrightarrow> ok b \<Longrightarrow> ok (mkXor B a b)"
      "ok a \<Longrightarrow> ok b \<Longrightarrow> ok (mkIff B a b)"
      "ok c \<Longrightarrow> ok a \<Longrightarrow> ok b \<Longrightarrow> ok (mkIte B c a b)"
      "as \<noteq> [] \<Longrightarrow> list_all ok as \<Longrightarrow> ok (mkOrs B as)"
      "as \<noteq> [] \<Longrightarrow> list_all ok as \<Longrightarrow> ok (mkAnds B as)"
    and sem_ops [simp]:
      "sem (mkTrue B)" "\<not> sem (mkFalse B)"
      "ok a \<Longrightarrow> sem (mkNot B a) = (\<not> sem a)"
      "ok a \<Longrightarrow> ok b \<Longrightarrow> sem (mkOr B a b) = (sem a \<or> sem b)"
      "ok a \<Longrightarrow> ok b \<Longrightarrow> sem (mkAnd B a b) = (sem a \<and> sem b)"
      "ok a \<Longrightarrow> ok b \<Longrightarrow> sem (mkXor B a b) = (sem a \<noteq> sem b)"
      "ok a \<Longrightarrow> ok b \<Longrightarrow> sem (mkIff B a b) = (sem a = sem b)"
      "ok c \<Longrightarrow> ok a \<Longrightarrow> ok b \<Longrightarrow> sem (mkIte B c a b) = (if sem c then sem a else sem b)"
      "as \<noteq> [] \<Longrightarrow> list_all ok as \<Longrightarrow> sem (mkOrs B as) = list_ex sem as"
      "as \<noteq> [] \<Longrightarrow> list_all ok as \<Longrightarrow> sem (mkAnds B as) = list_all sem as"
begin

text \<open>\<open>bval\<close> is the number a list of bits stands for, and \<open>repr bs n v\<close> says that \<open>bs\<close> are \<open>n\<close>
  well-formed bits standing for \<open>v\<close>.\<close>

definition bval :: "'b list \<Rightarrow> int" where
  "bval bs = bits_val (map sem bs)"

definition repr :: "'b list \<Rightarrow> nat \<Rightarrow> int \<Rightarrow> bool" where
  "repr bs n v \<longleftrightarrow> list_all ok bs \<and> length bs = n \<and> bval bs = v"

lemma bval_simps [simp]: "bval [] = 0" "bval (b # bs) = of_bool (sem b) + 2 * bval bs"
  by (simp_all add: bval_def)

lemma bval_append: "bval (bs @ cs) = bval bs + 2 ^ length bs * bval cs"
  by (simp add: bval_def bits_val_append)

lemma bval_nonneg [simp]: "0 \<le> bval bs"
  by (simp add: bval_def)

lemma bval_less: "bval bs < 2 ^ length bs"
  using bits_val_less [of "map sem bs"] by (simp add: bval_def)

lemma bval_in_width [simp]: "length bs = n \<Longrightarrow> in_width n (bval bs)"
  using bval_less [of bs] by auto

lemma bval_eq_iff: "length bs = length cs \<Longrightarrow> bval bs = bval cs \<longleftrightarrow> map sem bs = map sem cs"
  by (simp add: bval_def bits_val_eq_iff)

lemma bval_take: "bval (take k bs) = bval bs mod 2 ^ k"
  by (simp add: bval_def take_map [symmetric] bits_val_take)

lemma bval_drop: "bval (drop k bs) = bval bs div 2 ^ k"
  by (simp add: bval_def drop_map [symmetric] bits_val_drop)

lemma bval_bit: "bit (bval bs) i \<longleftrightarrow> i < length bs \<and> sem (bs ! i)"
  by (auto simp: bval_def bits_val_bit)

lemma repr_eqI:
  assumes "list_all ok bs" and "length bs = n" and "in_width n v" and "\<And>i. i < n \<Longrightarrow> sem (bs ! i) = bit v i"
  shows "repr bs n v"
proof -
  have "bval bs = v"
    by (rule bit_eqI) (use assms in \<open>auto simp: bval_bit dest: in_width_bit_less\<close>)
  with assms show ?thesis by (simp add: repr_def)
qed

lemma reprD:
  assumes "repr bs n v"
  shows "list_all ok bs" "length bs = n" "bval bs = v" "in_width n v"
    "\<And>i. i < n \<Longrightarrow> ok (bs ! i)" "\<And>i. i < n \<Longrightarrow> sem (bs ! i) = bit v i"
  using assms by (auto simp: repr_def list_all_length bval_bit)

subsection \<open>Bit lists\<close>

lemma repr_Cons: "repr (b # bs) (Suc n) v \<longleftrightarrow> ok b \<and> (\<exists>u. repr bs n u \<and> v = of_bool (sem b) + 2 * u)"
  by (auto simp: repr_def)

lemma repr_append: "repr bs m u \<Longrightarrow> repr cs n v \<Longrightarrow> repr (bs @ cs) (m + n) (u + 2 ^ m * v)"
  by (auto simp: repr_def bval_append)

lemma repr_drop: "repr bs n v \<Longrightarrow> k \<le> n \<Longrightarrow> repr (drop k bs) (n - k) (v div 2 ^ k)"
  by (auto simp: repr_def bval_drop list_all_iff dest: in_set_dropD)

lemma repr_take: "repr bs n v \<Longrightarrow> k \<le> n \<Longrightarrow> repr (take k bs) k (v mod 2 ^ k)"
  by (auto simp: repr_def bval_take list_all_iff dest: in_set_takeD)

lemma repr_makeZero: "repr (makeZero B n) n 0"
  by (induction n) (auto simp: makeZero_def repr_def)

lemma repr_negateBits: "repr bs n v \<Longrightarrow> repr (negateBits B bs) n (bvnot n v)"
proof (induction bs arbitrary: n v)
  case (Cons b bs)
  then obtain m u where "n = Suc m" "ok b" "repr bs m u" "v = of_bool (sem b) + 2 * u"
    by (cases n) (auto simp: repr_def)
  with Cons.IH [of m u] show ?case
    by (auto simp: negateBits_def repr_def bvnot_def)
qed (simp add: repr_def negateBits_def bvnot_def)

lemma extractBits_drop_take:
  "hi < length b \<Longrightarrow> lo \<le> hi \<Longrightarrow> extractBits b lo hi = take (hi - lo + 1) (drop lo b)"
  by (rule nth_equalityI) (auto simp: extractBits_def simp del: upt_Suc)

lemma repr_extractBits:
  assumes "repr b n v" and "lo \<le> hi" and "hi < n"
  shows "repr (extractBits b lo hi) (hi - lo + 1) (bvextract hi lo v)"
proof -
  have "extractBits b lo hi = take (hi - lo + 1) (drop lo b)"
    using assms by (intro extractBits_drop_take) (auto simp: repr_def)
  then show ?thesis
    using repr_take [OF repr_drop [OF assms(1)], of lo "hi - lo + 1"] assms by (simp add: bvextract_def)
qed

lemma repr_isZero: "repr bs n v \<Longrightarrow> isZeroBits B bs \<Longrightarrow> v = 0"
  by (induction bs arbitrary: n v) (auto simp: repr_def isZeroBits_def)

lemma rshift_1: "bs \<noteq> [] \<Longrightarrow> rshift B bs 1 = tl bs @ [mkFalse B]"
  by (rule nth_equalityI) (auto simp: rshift_def nth_append nth_tl)

lemma repr_rshift_1: "repr bs n v \<Longrightarrow> repr (rshift B bs 1) n (v div 2)"
proof (cases bs)
  case Nil
  then show "repr bs n v \<Longrightarrow> ?thesis" by (auto simp: repr_def rshift_def)
next
  case (Cons b cs)
  assume "repr bs n v"
  with Cons show ?thesis
    using rshift_1 [of bs] by (auto simp: repr_def bval_append)
qed

lemma lshift_1: "bs \<noteq> [] \<Longrightarrow> lshift B bs 1 = mkFalse B # butlast bs"
  by (rule nth_equalityI) (auto simp: lshift_def nth_Cons nth_butlast split: nat.split)

lemma repr_lshift_1:
  assumes "repr bs n v" and "0 < n"
  shows "repr (lshift B bs 1) n (2 * v mod 2 ^ n)"
proof -
  have ne: "bs \<noteq> []" using assms by (auto simp: repr_def)
  have "repr (butlast bs) (n - 1) (v mod 2 ^ (n - 1))"
    using repr_take [OF assms(1), of "n - 1"] assms(1) by (simp add: butlast_conv_take repr_def)
  moreover have "2 * v mod 2 ^ n = 2 * (v mod 2 ^ (n - 1))"
    using assms(2) by (cases n) simp_all
  moreover obtain m where "n = Suc m"
    using assms(2) by (cases n) auto
  ultimately show ?thesis
    unfolding lshift_1 [OF ne] by (simp add: repr_Cons)
qed

subsection \<open>Addition\<close>

lemma rippleCarryAdder_sum:
  assumes "length a = length b" and "list_all ok a" and "list_all ok b" and "ok c"
  shows "case rippleCarryAdder B a b c of (res, co) \<Rightarrow>
     list_all ok res \<and> length res = length a \<and> ok co \<and>
     bval res + 2 ^ length a * of_bool (sem co) = bval a + bval b + of_bool (sem c)"
  using assms
proof (induction a b arbitrary: c rule: list_induct2)
  case (Cons x xs y ys)
  let ?c = "mkOr B (mkAnd B x y) (mkAnd B (mkXor B x y) c)"
  have "ok ?c" using Cons.prems by simp
  with Cons.IH [of ?c] Cons.prems show ?case
    by (auto simp: Let_def split: prod.splits)
qed simp

lemma rippleCarryAdder_repr:
  assumes "repr a n x" and "repr b n y" and "ok c" and "rippleCarryAdder B a b c = (res, co)"
  shows "repr res n ((x + y + of_bool (sem c)) mod 2 ^ n)" and "ok co"
    and "sem co \<longleftrightarrow> 2 ^ n \<le> x + y + of_bool (sem c)"
proof -
  have r: "list_all ok res" "length res = n" "ok co"
    "bval res + 2 ^ n * of_bool (sem co) = x + y + of_bool (sem c)"
    using rippleCarryAdder_sum [of a b c] assms by (auto simp: repr_def)
  have lt: "bval res < 2 ^ n" using bval_less [of res] r by simp
  have "(x + y + of_bool (sem c)) mod 2 ^ n = bval res"
    using lt by (simp flip: r(4))
  with r show "repr res n ((x + y + of_bool (sem c)) mod 2 ^ n)" by (simp add: repr_def)
  show "ok co" by fact
  show "sem co \<longleftrightarrow> 2 ^ n \<le> x + y + of_bool (sem c)"
    unfolding r(4) [symmetric] using lt by (auto simp: not_le)
qed

subsection \<open>Multiplication\<close>

lemma shiftAdd_row_adder:
  "length rs \<le> length as \<Longrightarrow>
    shiftAdd_row B bk rs as c = fst (rippleCarryAdder B rs (map (mkAnd B bk) (take (length rs) as)) c)"
  by (induction rs as arbitrary: c rule: list_induct2') (auto simp: Let_def split_beta)

lemma repr_gate:
  assumes "repr a n x" and "ok b"
  shows "repr (map (mkAnd B b) a) n (of_bool (sem b) * x)"
  using assms by (intro repr_eqI) (auto simp: reprD list_all_iff dest: reprD(1))

lemma repr_row:
  assumes res: "repr res n v" and a: "repr a n x" and "ok bk" and k: "k \<le> n"
  shows "repr (take k res @ shiftAdd_row B bk (drop k res) a (mkFalse B)) n
    ((v + 2 ^ k * (of_bool (sem bk) * x)) mod 2 ^ n)"
proof -
  let ?m = "n - k"
  have len: "length (drop k res) = ?m" and "length a = n" using res a by (auto simp: repr_def)
  then have row: "shiftAdd_row B bk (drop k res) a (mkFalse B) =
      fst (rippleCarryAdder B (drop k res) (map (mkAnd B bk) (take ?m a)) (mkFalse B))"
    by (subst shiftAdd_row_adder) auto
  have g: "repr (map (mkAnd B bk) (take ?m a)) ?m (of_bool (sem bk) * (x mod 2 ^ ?m))"
    using repr_gate [OF repr_take [OF a]] assms(3) by simp
  obtain r co where r: "rippleCarryAdder B (drop k res) (map (mkAnd B bk) (take ?m a)) (mkFalse B) = (r, co)"
    by fastforce
  have "repr r ?m ((v div 2 ^ k + of_bool (sem bk) * (x mod 2 ^ ?m)) mod 2 ^ ?m)"
    using rippleCarryAdder_repr(1) [OF repr_drop [OF res k] g ok_ops(2) r] by simp
  then have "repr r ?m ((v div 2 ^ k + of_bool (sem bk) * x) mod 2 ^ ?m)"
    by (cases "sem bk") (simp_all add: mod_add_right_eq)
  from repr_append [OF repr_take [OF res k] this] show ?thesis
    unfolding row r fst_conv int_add_high_bits [OF k] using k by simp
qed

lemma shiftAddMultiplier_rows:
  assumes a: "repr a n x" and b: "repr b n y" and "1 \<le> k" and "k \<le> n"
  shows "repr (foldl (\<lambda>res k. take k res @ shiftAdd_row B (b ! k) (drop k res) a (mkFalse B))
       (map (\<lambda>x. mkAnd B (b ! 0) x) a) [1..<k]) n (x * (y mod 2 ^ k) mod 2 ^ n)"
  using assms(3,4)
proof (induction k rule: dec_induct)
  case base
  then have gate: "repr (map (mkAnd B (b ! 0)) a) n (of_bool (sem (b ! 0)) * x)"
    using reprD(5) [OF b, of 0] by (intro repr_gate [OF a]) simp
  have "of_bool (sem (b ! 0)) = y mod 2"
    using base reprD(6) [OF b, of 0] by (simp add: bit_0 mod_2_eq_odd)
  then show ?case
    using gate reprD(4) [OF gate] by (simp add: mult.commute)
next
  case (step k)
  let ?res = "foldl (\<lambda>res k. take k res @ shiftAdd_row B (b ! k) (drop k res) a (mkFalse B))
       (map (\<lambda>x. mkAnd B (b ! 0) x) a) [1..<k]"
  have bk: "ok (b ! k)" "sem (b ! k) = bit y k"
    using step.prems reprD(5,6) [OF b] by auto
  have "repr (take k ?res @ shiftAdd_row B (b ! k) (drop k ?res) a (mkFalse B)) n
      ((x * (y mod 2 ^ k) mod 2 ^ n + 2 ^ k * (of_bool (bit y k) * x)) mod 2 ^ n)"
    using repr_row [OF _ a bk(1), of ?res "x * (y mod 2 ^ k) mod 2 ^ n" k] step bk(2) by simp
  moreover have "x * (y mod 2 ^ k) + 2 ^ k * (of_bool (bit y k) * x) = x * (y mod 2 ^ Suc k)"
    unfolding int_mod_pow2_Suc by (simp only: distrib_left mult_ac)
  ultimately show ?case
    using step.hyps by (simp add: mod_add_left_eq)
qed

lemma shiftAddMultiplier_repr:
  assumes a: "repr a n x" and b: "repr b n y" and "0 < n"
  shows "repr (shiftAddMultiplier B a b) n (bvmul n x y)"
  using shiftAddMultiplier_rows [OF a b, of n] assms reprD(2) [OF a] reprD(4) [OF b]
  by (simp add: shiftAddMultiplier_def bvmul_def)

subsection \<open>Comparison\<close>

lemma uLessThanBB_loop:
  assumes a: "repr a n x" and b: "repr b n y" and "1 \<le> k" and "k \<le> n"
    and init: "ok r" "sem r = (if orEqual then x mod 2 \<le> y mod 2 else x mod 2 < y mod 2)"
    and fin: "res = foldl (\<lambda>res i. mkOr B (mkAnd B (mkIff B (a ! i) (b ! i)) res)
                               (mkAnd B (mkNot B (a ! i)) (b ! i))) r [1..<k]"
  shows "ok res \<and> sem res =
    (if orEqual then x mod 2 ^ k \<le> y mod 2 ^ k else x mod 2 ^ k < y mod 2 ^ k)"
  using assms(3,4) fin
proof (induction k arbitrary: res rule: dec_induct)
  case base
  then show ?case using init by simp
next
  case (step k)
  let ?res = "foldl (\<lambda>res i. mkOr B (mkAnd B (mkIff B (a ! i) (b ! i)) res)
                               (mkAnd B (mkNot B (a ! i)) (b ! i))) r [1..<k]"
  have IH: "ok ?res" "sem ?res = (if orEqual then x mod 2 ^ k \<le> y mod 2 ^ k else x mod 2 ^ k < y mod 2 ^ k)"
    using step.IH step.prems by auto
  have bits: "ok (a ! k)" "ok (b ! k)" "sem (a ! k) = bit x k" "sem (b ! k) = bit y k"
    using step.prems reprD(5,6) [OF a] reprD(5,6) [OF b] by auto
  have res: "res = mkOr B (mkAnd B (mkIff B (a ! k) (b ! k)) ?res) (mkAnd B (mkNot B (a ! k)) (b ! k))"
    using step.prems step.hyps by simp
  have "x mod 2 ^ Suc k < y mod 2 ^ Suc k \<longleftrightarrow>
      bit x k = bit y k \<and> x mod 2 ^ k < y mod 2 ^ k \<or> \<not> bit x k \<and> bit y k"
    and "x mod 2 ^ Suc k \<le> y mod 2 ^ Suc k \<longleftrightarrow>
      bit x k = bit y k \<and> x mod 2 ^ k \<le> y mod 2 ^ k \<or> \<not> bit x k \<and> bit y k"
    unfolding int_mod_pow2_Suc by (rule int_compare_top_bit; simp)+
  with IH bits show ?case
    unfolding res by (simp del: power_Suc)
qed

lemma uLessThanBB_sem:
  assumes a: "repr a n x" and b: "repr b n y" and "0 < n"
  shows "ok (uLessThanBB B a b orEqual)"
    and "sem (uLessThanBB B a b orEqual) = (if orEqual then x \<le> y else x < y)"
proof -
  have bits: "ok (a ! 0)" "ok (b ! 0)" "sem (a ! 0) = odd x" "sem (b ! 0) = odd y"
    using assms reprD(5,6) [OF a, of 0] reprD(5,6) [OF b, of 0] by (auto simp: bit_0)
  have "ok (uLessThanBB B a b orEqual) \<and> sem (uLessThanBB B a b orEqual) =
      (if orEqual then x mod 2 ^ n \<le> y mod 2 ^ n else x mod 2 ^ n < y mod 2 ^ n)"
    using assms bits reprD(2) [OF a]
    by (intro uLessThanBB_loop [OF a b, of n "if orEqual
          then mkOr B (mkAnd B (mkNot B (a ! 0)) (b ! 0)) (mkIff B (a ! 0) (b ! 0))
          else mkAnd B (mkNot B (a ! 0)) (b ! 0)"])
      (auto simp: uLessThanBB_def Let_def mod_2_eq_odd)
  then show "ok (uLessThanBB B a b orEqual)"
    and "sem (uLessThanBB B a b orEqual) = (if orEqual then x \<le> y else x < y)"
    using reprD(4) [OF a] reprD(4) [OF b] by simp_all
qed

lemma sLessThanBB_sem:
  assumes a: "repr a n x" and b: "repr b n y" and n: "0 < n"
  shows "ok (sLessThanBB B a b orEqual)"
    and "sem (sLessThanBB B a b orEqual) = (if orEqual then sval n x \<le> sval n y else sval n x < sval n y)"
proof -
  have len: "length a = n" using a by (simp add: repr_def)
  have bits: "ok (a ! (n - 1))" "ok (b ! (n - 1))" "sem (a ! (n - 1)) = bit x (n - 1)"
    "sem (b ! (n - 1)) = bit y (n - 1)"
    using n reprD(5,6) [OF a, of "n - 1"] reprD(5,6) [OF b, of "n - 1"] by auto
  note cmp = sval_compare [OF reprD(4) [OF a] reprD(4) [OF b] n]
  have "ok (sLessThanBB B a b orEqual) \<and> sem (sLessThanBB B a b orEqual) =
    (if orEqual then sval n x \<le> sval n y else sval n x < sval n y)"
  proof (cases "n = 1")
    case True
    with bits cmp len show ?thesis by (auto simp: sLessThanBB_def)
  next
    case False
    with n have m: "0 < n - 1" by simp
    have "repr (extractBits a 0 (n - 2)) (n - 1) (x mod 2 ^ (n - 1))"
      and "repr (extractBits b 0 (n - 2)) (n - 1) (y mod 2 ^ (n - 1))"
      using repr_extractBits [OF a, of 0 "n - 2"] repr_extractBits [OF b, of 0 "n - 2"] m
      by (simp_all add: bvextract_def Suc_diff_Suc numeral_2_eq_2)
    note u = uLessThanBB_sem [OF this m, of orEqual]
    show ?thesis
      using u bits cmp len False by (auto simp: sLessThanBB_def Let_def numeral_2_eq_2)
  qed
  then show "ok (sLessThanBB B a b orEqual)"
    and "sem (sLessThanBB B a b orEqual) = (if orEqual then sval n x \<le> sval n y else sval n x < sval n y)"
    by simp_all
qed

subsection \<open>Bitwise selection\<close>

lemma repr_map_ite:
  assumes "ok c" and f: "repr (map f [0..<n]) n u" and g: "repr (map g [0..<n]) n v"
  shows "repr (map (\<lambda>i. mkIte B c (f i) (g i)) [0..<n]) n (if sem c then u else v)"
  using assms(1) reprD(4-6) [OF f] reprD(4-6) [OF g]
  by (intro repr_eqI) (auto simp: list_all_length)

lemma repr_map_nth: "repr bs n v \<Longrightarrow> repr (map ((!) bs) [0..<n]) n v"
  by (metis map_nth reprD(2))

lemma repr_map_False: "repr (map (\<lambda>i. mkFalse B) [0..<n]) n 0"
  using repr_makeZero [of n] by (simp add: makeZero_def map_replicate_const)

lemma repr_map_True: "repr (map (\<lambda>i. mkTrue B) [0..<n]) n (2 ^ n - 1)"
  by (intro repr_eqI) (auto simp: list_all_length bit_ones)

lemma repr_map_const:
  "ok s \<Longrightarrow> repr (map (\<lambda>i. s) [0..<n]) n (if sem s then 2 ^ n - 1 else 0)"
  by (intro repr_eqI) (auto simp: list_all_length bit_ones)

subsection \<open>Division\<close>

lemma adder_subtracts:
  assumes a: "repr a n x" and b: "repr b n y" and r: "rippleCarryAdder B a (negateBits B b) (mkTrue B) = (res, co)"
  shows "repr res n (bvsub n x y)" and "ok co" and "sem co \<longleftrightarrow> y \<le> x"
proof -
  have "(x + bvnot n y + 1) mod 2 ^ n = bvsub n x y"
    using mod_add_self2 [of "x - y" "2 ^ n"] by (simp add: bvnot_def bvsub_def algebra_simps)
  then show "repr res n (bvsub n x y)" and "ok co" and "sem co \<longleftrightarrow> y \<le> x"
    using rippleCarryAdder_repr [OF a repr_negateBits [OF b] ok_ops(1) r] by (auto simp: bvnot_def)
qed

lemma repr_set_low_bit:
  assumes q: "repr q n v" and n: "0 < n" and "ok c"
  shows "repr ((lshift B q 1)[0 := mkIte B c (lshift B q 1 ! 0) (mkTrue B)]) n
    (2 * v mod 2 ^ n + of_bool (\<not> sem c))"
proof -
  have ne: "q \<noteq> []" using q n by (auto simp: repr_def)
  obtain m where m: "n = Suc m" using n by (cases n) auto
  have "repr (lshift B q 1) n (2 * v mod 2 ^ n)" using repr_lshift_1 [OF q n] .
  then show ?thesis
    using assms(3) unfolding lshift_1 [OF ne] m repr_Cons by (auto simp: repr_Cons)
qed

text \<open>The body of \<open>uDivModRec\<close> after the recursive call, as a function of its results.\<close>

definition div_step :: "'b list \<Rightarrow> 'b list \<Rightarrow> 'b list \<Rightarrow> 'b list \<Rightarrow> 'b list \<times> 'b list" where
  "div_step a b q1 r1 =
     (let one_if_odd = mkIte B (mkIff B (a ! 0) (mkTrue B)) (mkTrue B) (mkFalse B);
          s = fst (rippleCarryAdder B (lshift B r1 1) (makeZero B (length b)) one_if_odd);
          (d, co1) = rippleCarryAdder B s (negateBits B b) (mkTrue B);
          q2 = (lshift B q1 1)[0 := mkIte B (mkNot B co1) (lshift B q1 1 ! 0) (mkTrue B)];
          t = map (\<lambda>i. mkIte B (mkNot B co1) (s ! i) (d ! i)) [0..<length a];
          a_lt_b = mkNot B (snd (rippleCarryAdder B a (negateBits B b) (mkTrue B)))
      in (map (\<lambda>i. mkIte B a_lt_b (mkFalse B) (q2 ! i)) [0..<length a],
          map (\<lambda>i. mkIte B a_lt_b (a ! i) (t ! i)) [0..<length a]))"

lemma uDivModRec_step:
  "\<not> isZeroBits B a \<Longrightarrow> uDivModRec B (rshift B a 1) b w = (q1, r1) \<Longrightarrow>
    uDivModRec B a b (Suc w) = div_step a b q1 r1"
  by (simp add: div_step_def Let_def split_beta)

lemma div_step_repr:
  assumes a: "repr a n x" and b: "repr b n y" and q1: "repr q1 n vq" and r1: "repr r1 n vr" and n: "0 < n"
    and v: "0 < y \<Longrightarrow> vq = x div 2 div y \<and> vr = x div 2 mod y"
    and res: "div_step a b q1 r1 = (q, r)"
  shows "\<exists>uq ur. repr q n uq \<and> repr r n ur \<and> (0 < y \<longrightarrow> uq = x div y \<and> ur = x mod y)"
proof -
  define odd where "odd = mkIte B (mkIff B (a ! 0) (mkTrue B)) (mkTrue B) (mkFalse B)"
  have odd: "ok odd" "of_bool (sem odd) = x mod 2"
    using reprD(5,6) [OF a, of 0] n by (auto simp: odd_def bit_0 mod_2_eq_odd)
  obtain s co where s: "rippleCarryAdder B (lshift B r1 1) (makeZero B (length b)) odd = (s, co)"
    by fastforce
  let ?S = "(2 * vr mod 2 ^ n + x mod 2) mod 2 ^ n"
  have len: "length b = n" "length a = n" using a b by (auto simp: repr_def)
  have rs: "repr s n ?S"
    using rippleCarryAdder_repr(1) [OF repr_lshift_1 [OF r1 n] repr_makeZero odd(1) s [unfolded len]] odd(2)
    by simp
  obtain d co1 where d: "rippleCarryAdder B s (negateBits B b) (mkTrue B) = (d, co1)" by fastforce
  note sub = adder_subtracts [OF rs b d]
  obtain e co2 where e: "rippleCarryAdder B a (negateBits B b) (mkTrue B) = (e, co2)" by fastforce
  note lt = adder_subtracts(2,3) [OF a b e]
  define q2 where "q2 = (lshift B q1 1)[0 := mkIte B (mkNot B co1) (lshift B q1 1 ! 0) (mkTrue B)]"
  define t where "t = map (\<lambda>i. mkIte B (mkNot B co1) (s ! i) (d ! i)) [0..<n]"
  have q: "q = map (\<lambda>i. mkIte B (mkNot B co2) (mkFalse B) (q2 ! i)) [0..<n]"
    and r: "r = map (\<lambda>i. mkIte B (mkNot B co2) (a ! i) (t ! i)) [0..<n]"
    using res len unfolding div_step_def Let_def odd_def [symmetric] s fst_conv d prod.case e snd_conv
    by (simp_all add: q2_def t_def)
  have q2: "repr q2 n (2 * vq mod 2 ^ n + of_bool (\<not> ?S < y))"
    unfolding q2_def using repr_set_low_bit [OF q1 n, of "mkNot B co1"] sub by (simp add: not_less)
  have t: "repr t n (if ?S < y then ?S else bvsub n ?S y)"
    unfolding t_def using repr_map_ite [OF _ repr_map_nth [OF rs] repr_map_nth [OF sub(1)], of "mkNot B co1"] sub
    by (simp add: not_le)
  have "repr q n (if x < y then 0 else 2 * vq mod 2 ^ n + of_bool (\<not> ?S < y))"
    unfolding q using repr_map_ite [OF _ repr_map_False repr_map_nth [OF q2], of "mkNot B co2"] lt
    by (simp add: not_le)
  moreover have "repr r n (if x < y then x else if ?S < y then ?S else bvsub n ?S y)"
    unfolding r using repr_map_ite [OF _ repr_map_nth [OF a] repr_map_nth [OF t], of "mkNot B co2"] lt
    by (simp add: not_le)
  moreover have "(if x < y then 0 else 2 * vq mod 2 ^ n + of_bool (\<not> ?S < y)) = x div y \<and>
      (if x < y then x else if ?S < y then ?S else bvsub n ?S y) = x mod y" if y: "0 < y"
  proof -
    have "0 \<le> x" "x < 2 ^ n" using reprD(4) [OF a] by (auto simp: in_width_def)
    note w = div_step_values [OF y this refl]
    have vq: "vq = x div 2 div y" and vr: "vr = x div 2 mod y" using v [OF y] by auto
    show ?thesis unfolding vq vr using w by blast
  qed
  ultimately show ?thesis by blast
qed

lemma uDivModRec_repr:
  assumes "repr a n x" and "repr b n y" and "x < 2 ^ w" and "uDivModRec B a b w = (q, r)"
  shows "\<exists>uq ur. repr q n uq \<and> repr r n ur \<and> (0 < y \<longrightarrow> uq = x div y \<and> ur = x mod y)"
  using assms
proof (induction w arbitrary: a x q r)
  case 0
  then have "x = 0" using reprD(4) [OF 0(1)] by (simp add: in_width_def)
  with 0 show ?case using repr_makeZero [of n] by (auto simp: reprD(2))
next
  case (Suc w)
  show ?case
  proof (cases "isZeroBits B a")
    case True
    then have "x = 0" using repr_isZero Suc.prems(1) by blast
    with True Suc.prems show ?thesis using repr_makeZero [of n] by (auto simp: reprD(2))
  next
    case False
    then have n: "0 < n" using Suc.prems(1) by (cases n) (auto simp: repr_def isZeroBits_def)
    obtain q1 r1 where rec: "uDivModRec B (rshift B a 1) b w = (q1, r1)" by fastforce
    have half: "repr (rshift B a 1) n (x div 2)" using repr_rshift_1 [OF Suc.prems(1)] .
    moreover have "x div 2 < 2 ^ w" using Suc.prems(3) by simp
    ultimately obtain vq vr where v: "repr q1 n vq" "repr r1 n vr"
        "0 < y \<longrightarrow> vq = x div 2 div y \<and> vr = x div 2 mod y"
      using Suc.IH [OF half Suc.prems(2) _ rec] by blast
    have "div_step a b q1 r1 = (q, r)"
      using uDivModRec_step [OF False rec] Suc.prems(4) by simp
    with div_step_repr [OF Suc.prems(1,2) v(1,2) n] v(3) show ?thesis by blast
  qed
qed

subsection \<open>Shifts\<close>

lemma shl_stage_repr:
  assumes r: "repr prev n v" and "ok bs"
  shows "repr (shl_stage B bs t prev) n (if sem bs then (v * 2 ^ t) mod 2 ^ n else v)"
proof (rule repr_eqI)
  have len: "length prev = n" using r by (simp add: repr_def)
  show "length (shl_stage B bs t prev) = n" by (simp add: shl_stage_def len)
  show "in_width n (if sem bs then (v * 2 ^ t) mod 2 ^ n else v)" using reprD(4) [OF r] by simp
  show "list_all ok (shl_stage B bs t prev)"
    using reprD(5) [OF r] assms(2) by (auto simp: shl_stage_def list_all_iff len)
  fix i assume i: "i < n"
  have "bit ((v * 2 ^ t) mod 2 ^ n) i = (t \<le> i \<and> bit v (i - t))"
    using i by (simp add: take_bit_eq_mod [symmetric] push_bit_eq_mult [symmetric] bit_simps)
  then show "sem (shl_stage B bs t prev ! i) = bit (if sem bs then (v * 2 ^ t) mod 2 ^ n else v) i"
    using i reprD(5,6) [OF r] assms(2) by (simp add: shl_stage_def len)
qed

lemma shl_barrel_repr:
  assumes a: "repr a n x" and b: "repr b n y" and "k \<le> n"
  shows "repr (shl_barrel B a b k) n ((x * 2 ^ nat (y mod 2 ^ k)) mod 2 ^ n)"
  using assms(3)
proof (induction k)
  case 0
  then show ?case using a reprD(4) [OF a] by (simp add: shl_barrel_def)
next
  case (Suc k)
  let ?v = "(x * 2 ^ nat (y mod 2 ^ k)) mod 2 ^ n"
  have bk: "ok (b ! k)" "sem (b ! k) = bit y k" using Suc.prems reprD(5,6) [OF b] by auto
  have "repr (shl_barrel B a b (Suc k)) n (if bit y k then (?v * 2 ^ 2 ^ k) mod 2 ^ n else ?v)"
    using shl_stage_repr [OF Suc.IH bk(1), of "2 ^ k"] Suc.prems bk(2) by (simp add: shl_barrel_def)
  moreover have "(?v * 2 ^ 2 ^ k) mod 2 ^ n = (x * 2 ^ nat (y mod 2 ^ Suc k)) mod 2 ^ n" if "bit y k"
  proof -
    have "nat (y mod 2 ^ Suc k) = nat (y mod 2 ^ k) + 2 ^ k"
      using that unfolding int_mod_pow2_Suc by (simp add: nat_add_distrib nat_power_eq)
    then show ?thesis by (simp add: power_add mod_mult_left_eq mult.assoc)
  qed
  moreover have "y mod 2 ^ Suc k = y mod 2 ^ k" if "\<not> bit y k"
    using that unfolding int_mod_pow2_Suc by simp
  ultimately show ?case by (auto split: if_splits)
qed

lemma shr_stage_repr:
  assumes r: "repr prev n ((z div 2 ^ m) mod 2 ^ n)" and "ok bs" and fill: "ok fill" "\<And>j. n \<le> j \<Longrightarrow> bit z j = sem fill"
  shows "repr (shr_stage B fill bs t prev) n ((z div 2 ^ (if sem bs then m + t else m)) mod 2 ^ n)"
proof (rule repr_eqI)
  have len: "length prev = n" using r by (simp add: repr_def)
  show "length (shr_stage B fill bs t prev) = n" by (simp add: shr_stage_def len)
  show "in_width n ((z div 2 ^ (if sem bs then m + t else m)) mod 2 ^ n)" by simp
  show "list_all ok (shr_stage B fill bs t prev)"
    using reprD(5) [OF r] assms(2) fill(1) by (auto simp: shr_stage_def list_all_iff len)
  fix i assume i: "i < n"
  have bit: "bit ((z div 2 ^ k) mod 2 ^ n) j = bit z (k + j)" if "j < n" for j k
    using that by (simp add: take_bit_eq_mod [symmetric] drop_bit_eq_div [symmetric] bit_simps)
  have prev: "sem (prev ! j) = bit z (m + j)" "ok (prev ! j)" if "j < n" for j
    using reprD(5,6) [OF r that] bit [OF that] by auto
  show "sem (shr_stage B fill bs t prev ! i) = bit ((z div 2 ^ (if sem bs then m + t else m)) mod 2 ^ n) i"
    unfolding bit [OF i] using i prev assms(2) fill(1) fill(2) [of "m + t + i"]
    by (auto simp: shr_stage_def len add_ac)
qed

lemma shr_barrel_repr:
  assumes a: "repr a n (z mod 2 ^ n)" and b: "repr b n y" and "k \<le> n"
    and fill: "ok fill" "\<And>j. n \<le> j \<Longrightarrow> bit z j = sem fill"
  shows "repr (shr_barrel B fill a b k) n ((z div 2 ^ nat (y mod 2 ^ k)) mod 2 ^ n)"
  using assms(3)
proof (induction k)
  case 0
  then show ?case using a by (simp add: shr_barrel_def)
next
  case (Suc k)
  have bk: "ok (b ! k)" "sem (b ! k) = bit y k" using Suc.prems reprD(5,6) [OF b] by auto
  have "nat (y mod 2 ^ Suc k) = (if bit y k then nat (y mod 2 ^ k) + 2 ^ k else nat (y mod 2 ^ k))"
    unfolding int_mod_pow2_Suc by (simp add: nat_add_distrib nat_power_eq)
  then show ?case
    using shr_stage_repr [OF Suc.IH bk(1) fill, of "2 ^ k"] Suc.prems bk(2)
    by (simp add: shr_barrel_def del: power_Suc)
qed

end

end
