(* ===== verification/Bitblast_Strategies.thy ===== *)
theory Bitblast_Strategies
  imports BV_Utils Bitblast_Circuits
begin

text \<open>
  The bit-blasting strategies of \<open>src/src/theory/bv/bitblast_strategies_template.h\<close>. A strategy is a
  template over the bit type \<open>T\<close> that calls back into the bit-blaster (\<open>TBitblaster<T>*\<close>) for the
  bits of the children, for atoms and for the term cache. The bit-blaster is a record of its
  virtual methods, and a strategy is a state transformer with exceptions over the bit-blaster's
  state. The locale \<open>bitblaster_contract\<close> states what the strategies rely on; inside it every
  strategy is shown to return bits that stand for the value of the term.
\<close>

section \<open>Stateful computations with exceptions\<close>

type_synonym ('s, 'a) sexc = "'s \<Rightarrow> ('a \<times> 's) exc"

definition sreturn :: "'a \<Rightarrow> ('s, 'a) sexc" where
  "sreturn x = (\<lambda>s. Inr (x, s))"

definition sthrow :: "exn \<Rightarrow> ('s, 'a) sexc" where
  "sthrow e = (\<lambda>s. Inl e)"

definition sbind :: "('s, 'a) sexc \<Rightarrow> ('a \<Rightarrow> ('s, 'b) sexc) \<Rightarrow> ('s, 'b) sexc" where
  "sbind m f = (\<lambda>s. ebind (m s) (\<lambda>(x, s'). f x s'))"

definition smodify :: "('s \<Rightarrow> 's) \<Rightarrow> ('s, unit) sexc" where
  "smodify f = (\<lambda>s. Inr ((), f s))"

section \<open>The interface of the bit-blaster\<close>

record ('b, 's) tbitblaster =
  tb_ops :: "'b bit_ops"
  bbTerm :: "node \<Rightarrow> ('s, 'b list) sexc"
  bbAtom :: "node \<Rightarrow> ('s, unit) sexc"
  getBBAtom :: "node \<Rightarrow> 'b"
  storeBBTerm :: "node \<Rightarrow> 'b list \<Rightarrow> 's \<Rightarrow> 's"
  makeVariable :: "node \<Rightarrow> ('s, 'b list) sexc"

section \<open>Strategies for atoms\<close>

definition UndefinedAtomBBStrategy :: "node \<Rightarrow> ('b, 's) tbitblaster \<Rightarrow> ('s, 'b) sexc" where
  "UndefinedAtomBBStrategy node bb = sthrow UnreachableCodeException"

definition iffBits :: "'b bit_ops \<Rightarrow> 'b list \<Rightarrow> 'b list \<Rightarrow> 'b list" where
  "iffBits B lhs rhs = map (\<lambda>i. mkIff B (lhs ! i) (rhs ! i)) [0..<length lhs]"

definition DefaultEqBB :: "node \<Rightarrow> ('b, 's) tbitblaster \<Rightarrow> ('s, 'b) sexc" where
  "DefaultEqBB node bb =
     sbind (bbTerm bb (children node ! 0)) (\<lambda>lhs.
     sbind (bbTerm bb (children node ! 1)) (\<lambda>rhs.
     sreturn (mkAnds (tb_ops bb) (iffBits (tb_ops bb) lhs rhs))))"

fun adderUlt_loop :: "'b bit_ops \<Rightarrow> 'b list \<Rightarrow> 'b list \<Rightarrow> 'b \<Rightarrow> 'b" where
  "adderUlt_loop B (a # as) (nb # nbs) carry =
     adderUlt_loop B as nbs (mkOr B (mkAnd B a nb) (mkAnd B (mkXor B a nb) carry))"
| "adderUlt_loop B _ _ carry = carry"

definition AdderUltBB :: "node \<Rightarrow> ('b, 's) tbitblaster \<Rightarrow> ('s, 'b) sexc" where
  "AdderUltBB node bb =
     sbind (bbTerm bb (children node ! 0)) (\<lambda>a.
     sbind (bbTerm bb (children node ! 1)) (\<lambda>b.
     let not_b = negateBits (tb_ops bb) b;
         carry = adderUlt_loop (tb_ops bb) a not_b (mkTrue (tb_ops bb))
     in sreturn (mkNot (tb_ops bb) carry)))"

definition DefaultUltBB :: "node \<Rightarrow> ('b, 's) tbitblaster \<Rightarrow> ('s, 'b) sexc" where
  "DefaultUltBB node bb =
     sbind (bbTerm bb (children node ! 0)) (\<lambda>a.
     sbind (bbTerm bb (children node ! 1)) (\<lambda>b.
     sreturn (uLessThanBB (tb_ops bb) a b False)))"

definition DefaultUleBB :: "node \<Rightarrow> ('b, 's) tbitblaster \<Rightarrow> ('s, 'b) sexc" where
  "DefaultUleBB node bb =
     sbind (bbTerm bb (children node ! 0)) (\<lambda>a.
     sbind (bbTerm bb (children node ! 1)) (\<lambda>b.
     sreturn (uLessThanBB (tb_ops bb) a b True)))"

definition DefaultUgtBB :: "node \<Rightarrow> ('b, 's) tbitblaster \<Rightarrow> ('s, 'b) sexc" where
  "DefaultUgtBB node bb = sthrow UnimplementedOperationException"

definition DefaultUgeBB :: "node \<Rightarrow> ('b, 's) tbitblaster \<Rightarrow> ('s, 'b) sexc" where
  "DefaultUgeBB node bb = sthrow UnimplementedOperationException"

definition DefaultSltBB :: "node \<Rightarrow> ('b, 's) tbitblaster \<Rightarrow> ('s, 'b) sexc" where
  "DefaultSltBB node bb =
     sbind (bbTerm bb (children node ! 0)) (\<lambda>a.
     sbind (bbTerm bb (children node ! 1)) (\<lambda>b.
     sreturn (sLessThanBB (tb_ops bb) a b False)))"

definition DefaultSleBB :: "node \<Rightarrow> ('b, 's) tbitblaster \<Rightarrow> ('s, 'b) sexc" where
  "DefaultSleBB node bb =
     sbind (bbTerm bb (children node ! 0)) (\<lambda>a.
     sbind (bbTerm bb (children node ! 1)) (\<lambda>b.
     sreturn (sLessThanBB (tb_ops bb) a b True)))"

definition DefaultSgtBB :: "node \<Rightarrow> ('b, 's) tbitblaster \<Rightarrow> ('s, 'b) sexc" where
  "DefaultSgtBB node bb = sthrow UnimplementedOperationException"

definition DefaultSgeBB :: "node \<Rightarrow> ('b, 's) tbitblaster \<Rightarrow> ('s, 'b) sexc" where
  "DefaultSgeBB node bb = sthrow UnimplementedOperationException"

section \<open>Strategies for terms\<close>

definition UndefinedTermBBStrategy :: "node \<Rightarrow> ('b, 's) tbitblaster \<Rightarrow> ('s, 'b list) sexc" where
  "UndefinedTermBBStrategy node bb = sthrow UnreachableCodeException"

definition DefaultVarBB :: "node \<Rightarrow> ('b, 's) tbitblaster \<Rightarrow> ('s, 'b list) sexc" where
  "DefaultVarBB node bb = makeVariable bb node"

definition DefaultConstBB :: "gmp \<Rightarrow> node \<Rightarrow> ('b, 's) tbitblaster \<Rightarrow> ('s, 'b list) sexc" where
  "DefaultConstBB G node bb =
     sreturn (map (\<lambda>i. let bit = d_value (BitVector_extract G (getConst node) i i)
                       in if bit = 0 then mkFalse (tb_ops bb) else mkTrue (tb_ops bb))
       [0..<getSize node])"

definition DefaultNotBB :: "node \<Rightarrow> ('b, 's) tbitblaster \<Rightarrow> ('s, 'b list) sexc" where
  "DefaultNotBB node bb =
     sbind (bbTerm bb (children node ! 0)) (\<lambda>bv. sreturn (negateBits (tb_ops bb) bv))"

text \<open>The children are visited from the last to the first: \<open>cs\<close> is the reversed list of children.\<close>

fun concatBB_loop :: "('b, 's) tbitblaster \<Rightarrow> node list \<Rightarrow> 'b list \<Rightarrow> ('s, 'b list) sexc" where
  "concatBB_loop bb [] bits = sreturn bits"
| "concatBB_loop bb (current # cs) bits =
     sbind (bbTerm bb current) (\<lambda>current_bits.
     concatBB_loop bb cs (bits @ map (\<lambda>j. current_bits ! j) [0..<getSize current]))"

definition DefaultConcatBB :: "node \<Rightarrow> ('b, 's) tbitblaster \<Rightarrow> ('s, 'b list) sexc" where
  "DefaultConcatBB node bb = concatBB_loop bb (rev (children node)) []"

fun bitwiseBB_loop ::
  "('b, 's) tbitblaster \<Rightarrow> ('b \<Rightarrow> 'b \<Rightarrow> 'b) \<Rightarrow> nat \<Rightarrow> node list \<Rightarrow> 'b list \<Rightarrow> ('s, 'b list) sexc" where
  "bitwiseBB_loop bb f sz [] bits = sreturn bits"
| "bitwiseBB_loop bb f sz (n # ns) bits =
     sbind (bbTerm bb n) (\<lambda>current.
     bitwiseBB_loop bb f sz ns
       (map (\<lambda>i. if i < sz then f (bits ! i) (current ! i) else bits ! i) [0..<length bits]))"

definition DefaultAndBB :: "node \<Rightarrow> ('b, 's) tbitblaster \<Rightarrow> ('s, 'b list) sexc" where
  "DefaultAndBB node bb =
     sbind (bbTerm bb (children node ! 0)) (\<lambda>bits.
     bitwiseBB_loop bb (mkAnd (tb_ops bb)) (getSize node) (tl (children node)) bits)"

definition DefaultOrBB :: "node \<Rightarrow> ('b, 's) tbitblaster \<Rightarrow> ('s, 'b list) sexc" where
  "DefaultOrBB node bb =
     sbind (bbTerm bb (children node ! 0)) (\<lambda>bits.
     bitwiseBB_loop bb (mkOr (tb_ops bb)) (getSize node) (tl (children node)) bits)"

definition DefaultXorBB :: "node \<Rightarrow> ('b, 's) tbitblaster \<Rightarrow> ('s, 'b list) sexc" where
  "DefaultXorBB node bb =
     sbind (bbTerm bb (children node ! 0)) (\<lambda>bits.
     bitwiseBB_loop bb (mkXor (tb_ops bb)) (getSize node) (tl (children node)) bits)"

definition DefaultXnorBB :: "node \<Rightarrow> ('b, 's) tbitblaster \<Rightarrow> ('s, 'b list) sexc" where
  "DefaultXnorBB node bb =
     sbind (bbTerm bb (children node ! 0)) (\<lambda>lhs.
     sbind (bbTerm bb (children node ! 1)) (\<lambda>rhs.
     sreturn (iffBits (tb_ops bb) lhs rhs)))"

definition DefaultNandBB :: "node \<Rightarrow> ('b, 's) tbitblaster \<Rightarrow> ('s, 'b list) sexc" where
  "DefaultNandBB node bb = sthrow UnimplementedOperationException"

definition DefaultNorBB :: "node \<Rightarrow> ('b, 's) tbitblaster \<Rightarrow> ('s, 'b list) sexc" where
  "DefaultNorBB node bb = sthrow UnimplementedOperationException"

definition DefaultCompBB :: "node \<Rightarrow> ('b, 's) tbitblaster \<Rightarrow> ('s, 'b list) sexc" where
  "DefaultCompBB node bb =
     sbind (bbTerm bb (children node ! 0)) (\<lambda>a.
     sbind (bbTerm bb (children node ! 1)) (\<lambda>b.
     sreturn [mkAnds (tb_ops bb) (iffBits (tb_ops bb) a b)]))"

fun multBB_loop :: "('b, 's) tbitblaster \<Rightarrow> node list \<Rightarrow> 'b list \<Rightarrow> ('s, 'b list) sexc" where
  "multBB_loop bb [] res = sreturn res"
| "multBB_loop bb (n # ns) res =
     sbind (bbTerm bb n) (\<lambda>current.
     multBB_loop bb ns (shiftAddMultiplier (tb_ops bb) res current))"

definition DefaultMultBB :: "node \<Rightarrow> ('b, 's) tbitblaster \<Rightarrow> ('s, 'b list) sexc" where
  "DefaultMultBB node bb =
     sbind (bbTerm bb (children node ! 0)) (\<lambda>res. multBB_loop bb (tl (children node)) res)"

fun plusBB_loop :: "('b, 's) tbitblaster \<Rightarrow> node list \<Rightarrow> 'b list \<Rightarrow> ('s, 'b list) sexc" where
  "plusBB_loop bb [] res = sreturn res"
| "plusBB_loop bb (n # ns) res =
     sbind (bbTerm bb n) (\<lambda>current.
     plusBB_loop bb ns (fst (rippleCarryAdder (tb_ops bb) res current (mkFalse (tb_ops bb)))))"

definition DefaultPlusBB :: "node \<Rightarrow> ('b, 's) tbitblaster \<Rightarrow> ('s, 'b list) sexc" where
  "DefaultPlusBB node bb =
     sbind (bbTerm bb (children node ! 0)) (\<lambda>res. plusBB_loop bb (tl (children node)) res)"

definition DefaultSubBB :: "node \<Rightarrow> ('b, 's) tbitblaster \<Rightarrow> ('s, 'b list) sexc" where
  "DefaultSubBB node bb =
     sbind (bbTerm bb (children node ! 0)) (\<lambda>a.
     sbind (bbTerm bb (children node ! 1)) (\<lambda>b.
     let not_b = negateBits (tb_ops bb) b
     in sreturn (fst (rippleCarryAdder (tb_ops bb) a not_b (mkTrue (tb_ops bb))))))"

definition DefaultNegBB :: "node \<Rightarrow> ('b, 's) tbitblaster \<Rightarrow> ('s, 'b list) sexc" where
  "DefaultNegBB node bb =
     sbind (bbTerm bb (children node ! 0)) (\<lambda>a.
     let not_a = negateBits (tb_ops bb) a;
         zero = makeZero (tb_ops bb) (getSize node)
     in sreturn (fst (rippleCarryAdder (tb_ops bb) not_a zero (mkTrue (tb_ops bb)))))"

text \<open>The common part of \<open>DefaultUdivBB\<close> and \<open>DefaultUremBB\<close>: the quotient and the remainder, with
  the special case of a zero divisor.\<close>

definition uDivMod_total :: "'b bit_ops \<Rightarrow> 'b list \<Rightarrow> 'b list \<Rightarrow> nat \<Rightarrow> 'b list \<times> 'b list" where
  "uDivMod_total B a b sz =
     (let (q, r) = uDivModRec B a b sz;
          iszero = map (\<lambda>i. mkIff B (b ! i) (mkFalse B)) [0..<length b];
          b_is_0 = mkAnds B iszero
      in (map (\<lambda>i. mkIte B b_is_0 (mkTrue B) (q ! i)) [0..<length q],
          map (\<lambda>i. mkIte B b_is_0 (a ! i) (r ! i)) [0..<length q]))"

definition DefaultUdivBB :: "node \<Rightarrow> ('b, 's) tbitblaster \<Rightarrow> ('s, 'b list) sexc" where
  "DefaultUdivBB node bb =
     sbind (bbTerm bb (children node ! 0)) (\<lambda>a.
     sbind (bbTerm bb (children node ! 1)) (\<lambda>b.
     let (q, r) = uDivMod_total (tb_ops bb) a b (getSize node);
         remainder = App BITVECTOR_UREM_TOTAL [children node ! 0, children node ! 1]
     in sbind (smodify (storeBBTerm bb remainder r)) (\<lambda>_. sreturn q)))"

definition DefaultUremBB :: "node \<Rightarrow> ('b, 's) tbitblaster \<Rightarrow> ('s, 'b list) sexc" where
  "DefaultUremBB node bb =
     sbind (bbTerm bb (children node ! 0)) (\<lambda>a.
     sbind (bbTerm bb (children node ! 1)) (\<lambda>b.
     let (q, rem) = uDivMod_total (tb_ops bb) a b (getSize node);
         quotient = App BITVECTOR_UDIV_TOTAL [children node ! 0, children node ! 1]
     in sbind (smodify (storeBBTerm bb quotient q)) (\<lambda>_. sreturn rem)))"

text \<open>The atom \<open>b < size\<close> that guards the barrel shifters.\<close>

definition b_ult_a_size_node :: "gmp \<Rightarrow> node \<Rightarrow> node" where
  "b_ult_a_size_node G node =
     App BITVECTOR_ULT
       [children node ! 1, CONST_BITVECTOR (BitVector_unsigned G (getSize node) (getSize node))]"

definition DefaultShlBB :: "gmp \<Rightarrow> node \<Rightarrow> ('b, 's) tbitblaster \<Rightarrow> ('s, 'b list) sexc" where
  "DefaultShlBB G node bb =
     sbind (bbTerm bb (children node ! 0)) (\<lambda>a.
     sbind (bbTerm bb (children node ! 1)) (\<lambda>b.
     sbind (bbAtom bb (b_ult_a_size_node G node)) (\<lambda>_.
     let b_ult_a_size = getBBAtom bb (b_ult_a_size_node G node);
         prev_res = shl_barrel (tb_ops bb) a b (ceil_log2 (getSize node))
     in sreturn (map (\<lambda>i. mkIte (tb_ops bb) b_ult_a_size (prev_res ! i) (mkFalse (tb_ops bb)))
          [0..<length b]))))"

definition DefaultLshrBB :: "gmp \<Rightarrow> node \<Rightarrow> ('b, 's) tbitblaster \<Rightarrow> ('s, 'b list) sexc" where
  "DefaultLshrBB G node bb =
     sbind (bbTerm bb (children node ! 0)) (\<lambda>a.
     sbind (bbTerm bb (children node ! 1)) (\<lambda>b.
     sbind (bbAtom bb (b_ult_a_size_node G node)) (\<lambda>_.
     let b_ult_a_size = getBBAtom bb (b_ult_a_size_node G node);
         prev_res = shr_barrel (tb_ops bb) (mkFalse (tb_ops bb)) a b (ceil_log2 (getSize node))
     in sreturn (map (\<lambda>i. mkIte (tb_ops bb) b_ult_a_size (prev_res ! i) (mkFalse (tb_ops bb)))
          [0..<length b]))))"

definition DefaultAshrBB :: "gmp \<Rightarrow> node \<Rightarrow> ('b, 's) tbitblaster \<Rightarrow> ('s, 'b list) sexc" where
  "DefaultAshrBB G node bb =
     sbind (bbTerm bb (children node ! 0)) (\<lambda>a.
     sbind (bbTerm bb (children node ! 1)) (\<lambda>b.
     sbind (bbAtom bb (b_ult_a_size_node G node)) (\<lambda>_.
     let b_ult_a_size = getBBAtom bb (b_ult_a_size_node G node);
         sign_bit = last a;
         prev_res = shr_barrel (tb_ops bb) sign_bit a b (ceil_log2 (getSize node))
     in sreturn (map (\<lambda>i. mkIte (tb_ops bb) b_ult_a_size (prev_res ! i) sign_bit)
          [0..<length b]))))"

definition DefaultUltbvBB :: "node \<Rightarrow> ('b, 's) tbitblaster \<Rightarrow> ('s, 'b list) sexc" where
  "DefaultUltbvBB node bb =
     sbind (bbTerm bb (children node ! 0)) (\<lambda>a.
     sbind (bbTerm bb (children node ! 1)) (\<lambda>b.
     sreturn [uLessThanBB (tb_ops bb) a b False]))"

definition DefaultSltbvBB :: "node \<Rightarrow> ('b, 's) tbitblaster \<Rightarrow> ('s, 'b list) sexc" where
  "DefaultSltbvBB node bb =
     sbind (bbTerm bb (children node ! 0)) (\<lambda>a.
     sbind (bbTerm bb (children node ! 1)) (\<lambda>b.
     sreturn [sLessThanBB (tb_ops bb) a b False]))"

definition DefaultIteBB :: "node \<Rightarrow> ('b, 's) tbitblaster \<Rightarrow> ('s, 'b list) sexc" where
  "DefaultIteBB node bb =
     sbind (bbTerm bb (children node ! 0)) (\<lambda>cond.
     sbind (bbTerm bb (children node ! 1)) (\<lambda>thenpart.
     sbind (bbTerm bb (children node ! 2)) (\<lambda>elsepart.
     let B = tb_ops bb
     in sreturn (map (\<lambda>i. mkAnd B (mkOr B (mkNot B (cond ! 0)) (thenpart ! i))
                                 (mkOr B (cond ! 0) (elsepart ! i))) [0..<length thenpart]))))"

definition DefaultExtractBB :: "node \<Rightarrow> ('b, 's) tbitblaster \<Rightarrow> ('s, 'b list) sexc" where
  "DefaultExtractBB node bb =
     sbind (bbTerm bb (children node ! 0)) (\<lambda>base_bits.
     let high = getExtractHigh node; low = getExtractLow node
     in sreturn (map (\<lambda>i. base_bits ! i) [low..<Suc high]))"

definition DefaultRepeatBB :: "node \<Rightarrow> ('b, 's) tbitblaster \<Rightarrow> ('s, 'b list) sexc" where
  "DefaultRepeatBB node bb = sthrow UnimplementedOperationException"

definition DefaultZeroExtendBB :: "node \<Rightarrow> ('b, 's) tbitblaster \<Rightarrow> ('s, 'b list) sexc" where
  "DefaultZeroExtendBB node bb = sthrow UnimplementedOperationException"

definition signExtendAmount :: "node \<Rightarrow> nat" where
  "signExtendAmount node = (case node of App (BITVECTOR_SIGN_EXTEND r) ns \<Rightarrow> r | _ \<Rightarrow> 0)"

definition DefaultSignExtendBB :: "node \<Rightarrow> ('b, 's) tbitblaster \<Rightarrow> ('s, 'b list) sexc" where
  "DefaultSignExtendBB node bb =
     sbind (bbTerm bb (children node ! 0)) (\<lambda>bits.
     sreturn (bits @ replicate (signExtendAmount node) (last bits)))"

definition DefaultRotateRightBB :: "node \<Rightarrow> ('b, 's) tbitblaster \<Rightarrow> ('s, 'b list) sexc" where
  "DefaultRotateRightBB node bb = sthrow UnimplementedOperationException"

definition DefaultRotateLeftBB :: "node \<Rightarrow> ('b, 's) tbitblaster \<Rightarrow> ('s, 'b list) sexc" where
  "DefaultRotateLeftBB node bb = sthrow UnimplementedOperationException"

section \<open>The strategy tables\<close>

definition d_atomBBStrategies :: "node \<Rightarrow> ('b, 's) tbitblaster \<Rightarrow> ('s, 'b) sexc" where
  "d_atomBBStrategies node =
     (case node of App k ns \<Rightarrow>
        (case k of
           EQUAL \<Rightarrow> DefaultEqBB node
         | BITVECTOR_ULT \<Rightarrow> DefaultUltBB node
         | BITVECTOR_ULE \<Rightarrow> DefaultUleBB node
         | BITVECTOR_UGT \<Rightarrow> DefaultUgtBB node
         | BITVECTOR_UGE \<Rightarrow> DefaultUgeBB node
         | BITVECTOR_SLT \<Rightarrow> DefaultSltBB node
         | BITVECTOR_SLE \<Rightarrow> DefaultSleBB node
         | BITVECTOR_SGT \<Rightarrow> DefaultSgtBB node
         | BITVECTOR_SGE \<Rightarrow> DefaultSgeBB node
         | _ \<Rightarrow> UndefinedAtomBBStrategy node)
      | _ \<Rightarrow> UndefinedAtomBBStrategy node)"

definition d_termBBStrategies :: "gmp \<Rightarrow> node \<Rightarrow> ('b, 's) tbitblaster \<Rightarrow> ('s, 'b list) sexc" where
  "d_termBBStrategies G node =
     (case node of
        CONST_BITVECTOR c \<Rightarrow> DefaultConstBB G node
      | App k ns \<Rightarrow>
        (case k of
           BITVECTOR_NOT \<Rightarrow> DefaultNotBB node
         | BITVECTOR_CONCAT \<Rightarrow> DefaultConcatBB node
         | BITVECTOR_AND \<Rightarrow> DefaultAndBB node
         | BITVECTOR_OR \<Rightarrow> DefaultOrBB node
         | BITVECTOR_XOR \<Rightarrow> DefaultXorBB node
         | BITVECTOR_XNOR \<Rightarrow> DefaultXnorBB node
         | BITVECTOR_NAND \<Rightarrow> DefaultNandBB node
         | BITVECTOR_NOR \<Rightarrow> DefaultNorBB node
         | BITVECTOR_COMP \<Rightarrow> DefaultCompBB node
         | BITVECTOR_MULT \<Rightarrow> DefaultMultBB node
         | BITVECTOR_PLUS \<Rightarrow> DefaultPlusBB node
         | BITVECTOR_SUB \<Rightarrow> DefaultSubBB node
         | BITVECTOR_NEG \<Rightarrow> DefaultNegBB node
         | BITVECTOR_UDIV \<Rightarrow> UndefinedTermBBStrategy node
         | BITVECTOR_UREM \<Rightarrow> UndefinedTermBBStrategy node
         | BITVECTOR_UDIV_TOTAL \<Rightarrow> DefaultUdivBB node
         | BITVECTOR_UREM_TOTAL \<Rightarrow> DefaultUremBB node
         | BITVECTOR_SDIV \<Rightarrow> UndefinedTermBBStrategy node
         | BITVECTOR_SREM \<Rightarrow> UndefinedTermBBStrategy node
         | BITVECTOR_SMOD \<Rightarrow> UndefinedTermBBStrategy node
         | BITVECTOR_SHL \<Rightarrow> DefaultShlBB G node
         | BITVECTOR_LSHR \<Rightarrow> DefaultLshrBB G node
         | BITVECTOR_ASHR \<Rightarrow> DefaultAshrBB G node
         | BITVECTOR_ULTBV \<Rightarrow> DefaultUltbvBB node
         | BITVECTOR_SLTBV \<Rightarrow> DefaultSltbvBB node
         | BITVECTOR_ITE \<Rightarrow> DefaultIteBB node
         | BITVECTOR_EXTRACT hi lo \<Rightarrow> DefaultExtractBB node
         | BITVECTOR_REPEAT r \<Rightarrow> DefaultRepeatBB node
         | BITVECTOR_ZERO_EXTEND r \<Rightarrow> DefaultZeroExtendBB node
         | BITVECTOR_SIGN_EXTEND r \<Rightarrow> DefaultSignExtendBB node
         | BITVECTOR_ROTATE_RIGHT r \<Rightarrow> DefaultRotateRightBB node
         | BITVECTOR_ROTATE_LEFT r \<Rightarrow> DefaultRotateLeftBB node
         | _ \<Rightarrow> DefaultVarBB node)
      | _ \<Rightarrow> DefaultVarBB node)"

section \<open>Which terms the tables cover\<close>

text \<open>\<open>bb_recursive\<close> are the kinds whose strategy asks for the bits of the children; the strategies of
  the \<open>bb_throws\<close> kinds raise (they are eliminated by the rewriter); every other term is treated as
  a variable.\<close>

definition bb_recursive :: "kind \<Rightarrow> bool" where
  "bb_recursive k =
     (case k of
        BITVECTOR_NOT \<Rightarrow> True | BITVECTOR_CONCAT \<Rightarrow> True | BITVECTOR_AND \<Rightarrow> True | BITVECTOR_OR \<Rightarrow> True
      | BITVECTOR_XOR \<Rightarrow> True | BITVECTOR_XNOR \<Rightarrow> True | BITVECTOR_COMP \<Rightarrow> True | BITVECTOR_MULT \<Rightarrow> True
      | BITVECTOR_PLUS \<Rightarrow> True | BITVECTOR_SUB \<Rightarrow> True | BITVECTOR_NEG \<Rightarrow> True
      | BITVECTOR_UDIV_TOTAL \<Rightarrow> True | BITVECTOR_UREM_TOTAL \<Rightarrow> True | BITVECTOR_SHL \<Rightarrow> True
      | BITVECTOR_LSHR \<Rightarrow> True | BITVECTOR_ASHR \<Rightarrow> True | BITVECTOR_ULTBV \<Rightarrow> True
      | BITVECTOR_SLTBV \<Rightarrow> True | BITVECTOR_ITE \<Rightarrow> True | BITVECTOR_EXTRACT hi lo \<Rightarrow> True
      | BITVECTOR_SIGN_EXTEND r \<Rightarrow> True | _ \<Rightarrow> False)"

definition bb_throws :: "kind \<Rightarrow> bool" where
  "bb_throws k =
     (case k of
        BITVECTOR_NAND \<Rightarrow> True | BITVECTOR_NOR \<Rightarrow> True | BITVECTOR_UDIV \<Rightarrow> True | BITVECTOR_UREM \<Rightarrow> True
      | BITVECTOR_SDIV \<Rightarrow> True | BITVECTOR_SREM \<Rightarrow> True | BITVECTOR_SMOD \<Rightarrow> True | BITVECTOR_REPEAT r \<Rightarrow> True
      | BITVECTOR_ZERO_EXTEND r \<Rightarrow> True | BITVECTOR_ROTATE_LEFT r \<Rightarrow> True | BITVECTOR_ROTATE_RIGHT r \<Rightarrow> True
      | _ \<Rightarrow> False)"

fun bb_supported :: "node \<Rightarrow> bool" where
  "bb_supported (App k ns) \<longleftrightarrow> \<not> bb_throws k \<and> (bb_recursive k \<longrightarrow> list_all bb_supported ns)"
| "bb_supported n \<longleftrightarrow> True"

definition bb_shift :: "kind \<Rightarrow> bool" where
  "bb_shift k \<longleftrightarrow> k = BITVECTOR_SHL \<or> k = BITVECTOR_LSHR \<or> k = BITVECTOR_ASHR"

lemma typeOf_arity2:
  assumes "typeOf (App k ns) = Some t"
    and "k \<in> {BITVECTOR_XNOR, BITVECTOR_COMP, BITVECTOR_SUB, BITVECTOR_UDIV_TOTAL, BITVECTOR_UREM_TOTAL,
      BITVECTOR_SHL, BITVECTOR_LSHR, BITVECTOR_ASHR, BITVECTOR_ULTBV, BITVECTOR_SLTBV, BITVECTOR_ULT,
      BITVECTOR_ULE, BITVECTOR_SLT, BITVECTOR_SLE, EQUAL}"
  obtains x y where "ns = [x, y]"
proof -
  have "length ns = 2"
    using assms by (auto simp: typeOf_App_iff type_op_iffs type_op_mixed type_same_binary list_all2_Cons2)
  then show thesis using that by (auto simp: length_Suc_conv numeral_2_eq_2)
qed

lemma typeOf_arity1:
  assumes "typeOf (App k ns) = Some t"
    and "k \<in> {BITVECTOR_NOT, BITVECTOR_NEG, BITVECTOR_EXTRACT hi lo, BITVECTOR_SIGN_EXTEND r}"
  obtains x where "ns = [x]"
proof -
  have "length ns = 1"
    using assms by (auto simp: typeOf_App_iff type_op_iffs type_same_unary [simplified] list_all2_Cons2)
  then show thesis using that by (auto simp: length_Suc_conv)
qed

section \<open>The strategies return the bits of the term\<close>

text \<open>A computation is valid for an invariant and a set of permitted exceptions if from every good state it either returns, in a good
  state, a result with the given property, or throws one of the exceptions.\<close>

definition sexc_valid :: "('s \<Rightarrow> bool) \<Rightarrow> exn set \<Rightarrow> ('s, 'a) sexc \<Rightarrow> ('a \<Rightarrow> bool) \<Rightarrow> bool" where
  "sexc_valid Q0 F m P \<longleftrightarrow>
     (\<forall>st. Q0 st \<longrightarrow> (\<exists>x st'. m st = Inr (x, st') \<and> Q0 st' \<and> P x) \<or> (\<exists>e \<in> F. m st = Inl e))"

lemma sexc_validE:
  assumes "sexc_valid Q0 F m P" and "Q0 st"
  obtains (returns) x st' where "m st = Inr (x, st')" "Q0 st'" "P x" | (throws) e where "e \<in> F" "m st = Inl e"
  using assms by (auto simp: sexc_valid_def)

lemma sexc_valid_bind:
  assumes "sexc_valid Q0 F m P" and "\<And>x. P x \<Longrightarrow> sexc_valid Q0 F (f x) Q"
  shows "sexc_valid Q0 F (sbind m f) Q"
  unfolding sexc_valid_def
proof (intro allI impI)
  fix st assume "Q0 st"
  with assms(1) show "(\<exists>x st'. sbind m f st = Inr (x, st') \<and> Q0 st' \<and> Q x) \<or> (\<exists>e \<in> F. sbind m f st = Inl e)"
  proof (cases rule: sexc_validE)
    case (returns x st')
    then show ?thesis using assms(2) [of x] by (auto simp: sexc_valid_def sbind_def)
  qed (auto simp: sbind_def)
qed

lemma sexc_valid_return: "P x \<Longrightarrow> sexc_valid Q0 F (sreturn x) P"
  by (simp add: sexc_valid_def sreturn_def)

lemma sexc_valid_throw: "e \<in> F \<Longrightarrow> sexc_valid Q0 F (sthrow e) P"
  by (auto simp: sexc_valid_def sthrow_def)

lemma sexc_valid_modify: "(\<And>st. Q0 st \<Longrightarrow> Q0 (f st)) \<Longrightarrow> sexc_valid Q0 F (smodify f) (\<lambda>_. True)"
  by (simp add: sexc_valid_def smodify_def)

lemma sexc_valid_weaken: "sexc_valid Q0 F m P \<Longrightarrow> (\<And>x. P x \<Longrightarrow> Q x) \<Longrightarrow> sexc_valid Q0 F m Q"
  unfolding sexc_valid_def by blast

text \<open>The terms in \<open>T\<close> and the atoms in \<open>A\<close> are those the bit-blaster at hand can translate, unless it throws an exception of \<open>fails\<close>;
  \<open>inv\<close> is the invariant of its state.\<close>

locale bitblaster_contract =
  bit_sem "tb_ops bb" ok sem + gmp_documented G
  for bb :: "('b, 's) tbitblaster" and ok :: "'b \<Rightarrow> bool" and sem :: "'b \<Rightarrow> bool" and G :: gmp +
  fixes I :: interp and inv :: "'s \<Rightarrow> bool" and T :: "node set" and A :: "node set" and fails :: "exn set"
  assumes wf_I: "wf_interp I"
    and bbTerm_contract: "n \<in> T \<Longrightarrow> typeOf n = Some (BITVECTOR_TYPE w) \<Longrightarrow>
      sexc_valid inv fails (bbTerm bb n) (\<lambda>bits. repr bits w (v_int (eval I n)))"
    and bbAtom_contract: "a \<in> A \<Longrightarrow> typeOf a = Some BOOLEAN_TYPE \<Longrightarrow> sexc_valid inv fails (bbAtom bb a) (\<lambda>_. True)"
    and getBBAtom_contract: "typeOf a = Some BOOLEAN_TYPE \<Longrightarrow>
      ok (getBBAtom bb a) \<and> sem (getBBAtom bb a) = v_bool (eval I a)"
    and storeBBTerm_contract: "typeOf n = Some (BITVECTOR_TYPE w) \<Longrightarrow>
      repr bits w (v_int (eval I n)) \<Longrightarrow> inv st \<Longrightarrow> inv (storeBBTerm bb n bits st)"
    and makeVariable_contract: "typeOf n = Some (BITVECTOR_TYPE w) \<Longrightarrow>
      sexc_valid inv fails (makeVariable bb n) (\<lambda>bits. repr bits w (v_int (eval I n)))"
begin

definition valid :: "('s, 'a) sexc \<Rightarrow> ('a \<Rightarrow> bool) \<Rightarrow> bool" where
  "valid m P \<longleftrightarrow> sexc_valid inv fails m P"

lemma valid_bind: "valid m P \<Longrightarrow> (\<And>x. P x \<Longrightarrow> valid (f x) Q) \<Longrightarrow> valid (sbind m f) Q"
  unfolding valid_def by (rule sexc_valid_bind)

lemma valid_return: "P x \<Longrightarrow> valid (sreturn x) P"
  unfolding valid_def by (rule sexc_valid_return)

lemma valid_store:
  "typeOf n = Some (BITVECTOR_TYPE w) \<Longrightarrow> repr bits w (v_int (eval I n)) \<Longrightarrow>
    valid (smodify (storeBBTerm bb n bits)) (\<lambda>_. True)"
  unfolding valid_def by (rule sexc_valid_modify) (rule storeBBTerm_contract)

lemma valid_term:
  "n \<in> T \<Longrightarrow> typeOf n = Some (BITVECTOR_TYPE w) \<Longrightarrow> valid (bbTerm bb n) (\<lambda>bits. repr bits w (v_int (eval I n)))"
  unfolding valid_def by (rule bbTerm_contract)

lemma valid_atom: "a \<in> A \<Longrightarrow> typeOf a = Some BOOLEAN_TYPE \<Longrightarrow> valid (bbAtom bb a) (\<lambda>_. True)"
  unfolding valid_def by (rule bbAtom_contract)

lemma valid_terms2:
  assumes "x \<in> T" "y \<in> T" "typeOf x = Some (BITVECTOR_TYPE v)" "typeOf y = Some (BITVECTOR_TYPE w)"
    and "\<And>a b. repr a v (v_int (eval I x)) \<Longrightarrow> repr b w (v_int (eval I y)) \<Longrightarrow> valid (f a b) Q"
  shows "valid (sbind (bbTerm bb x) (\<lambda>a. sbind (bbTerm bb y) (f a))) Q"
  using assms by (blast intro: valid_bind valid_term)

lemma BV_value:
  assumes "typeOf n = Some (BITVECTOR_TYPE w)"
  obtains a where "eval I n = VBV w a" and "in_width w a"
  using eval_has_type [OF assms wf_I] by auto

subsection \<open>Bitwise strategies\<close>

lemma iffBits_sem:
  assumes a: "repr a n x" and b: "repr b n y"
  shows "list_all ok (iffBits (tb_ops bb) a b)" and "length (iffBits (tb_ops bb) a b) = n"
    and "\<And>i. i < n \<Longrightarrow> sem (iffBits (tb_ops bb) a b ! i) \<longleftrightarrow> bit x i = bit y i"
  using reprD(2,5,6) [OF a] reprD(5,6) [OF b] by (auto simp: iffBits_def list_all_length)

lemma eqBits_sem:
  assumes a: "repr a n x" and b: "repr b n y" and n: "0 < n"
  shows "ok (mkAnds (tb_ops bb) (iffBits (tb_ops bb) a b))"
    and "sem (mkAnds (tb_ops bb) (iffBits (tb_ops bb) a b)) \<longleftrightarrow> x = y"
proof -
  note i = iffBits_sem [OF a b]
  have ne: "iffBits (tb_ops bb) a b \<noteq> []" using i(2) n by auto
  show "ok (mkAnds (tb_ops bb) (iffBits (tb_ops bb) a b))" using ne i(1) by simp
  have "(\<forall>i<n. bit x i = bit y i) \<longleftrightarrow> x = y"
  proof
    assume *: "\<forall>i<n. bit x i = bit y i"
    show "x = y"
    proof (rule bit_eqI)
      fix i
      show "bit x i = bit y i"
        using * in_width_bit_less [OF reprD(4) [OF a], of i] in_width_bit_less [OF reprD(4) [OF b], of i] by blast
    qed
  qed simp
  then show "sem (mkAnds (tb_ops bb) (iffBits (tb_ops bb) a b)) \<longleftrightarrow> x = y"
    using ne i by (simp add: list_all_length)
qed

lemma repr_bitwise:
  assumes a: "repr a n x" and b: "repr b n y"
    and f: "\<And>p q. ok p \<Longrightarrow> ok q \<Longrightarrow> ok (f p q) \<and> (sem (f p q) \<longleftrightarrow> g (sem p) (sem q))"
    and z: "in_width n z" "\<And>i. i < n \<Longrightarrow> bit z i = g (bit x i) (bit y i)"
  shows "repr (map (\<lambda>i. if i < n then f (a ! i) (b ! i) else a ! i) [0..<length a]) n z"
proof (rule repr_eqI)
  have len: "length a = n" using a by (simp add: repr_def)
  then show "length (map (\<lambda>i. if i < n then f (a ! i) (b ! i) else a ! i) [0..<length a]) = n" by simp
  show "in_width n z" by fact
  show "list_all ok (map (\<lambda>i. if i < n then f (a ! i) (b ! i) else a ! i) [0..<length a])"
    using len reprD(5) [OF a] reprD(5) [OF b] f by (auto simp: list_all_length)
  show "\<And>i. i < n \<Longrightarrow> sem (map (\<lambda>i. if i < n then f (a ! i) (b ! i) else a ! i) [0..<length a] ! i) = bit z i"
    using len reprD(5,6) [OF a] reprD(5,6) [OF b] f z by simp
qed

lemma valid_bitwise_loop:
  assumes f: "\<And>p q. ok p \<Longrightarrow> ok q \<Longrightarrow> ok (f p q) \<and> (sem (f p q) \<longleftrightarrow> g (sem p) (sem q))"
    and h: "\<And>x y. in_width w x \<Longrightarrow> in_width w y \<Longrightarrow> in_width w (h x y)"
      "\<And>x y i. bit (h x y) i = g (bit x i) (bit y i)"
  shows "repr bits w v \<Longrightarrow> set ns \<subseteq> T \<Longrightarrow> \<forall>n\<in>set ns. typeOf n = Some (BITVECTOR_TYPE w) \<Longrightarrow>
    valid (bitwiseBB_loop bb f w ns bits) (\<lambda>bits. repr bits w (foldl h v (map (v_int \<circ> eval I) ns)))"
proof (induction ns arbitrary: bits v)
  case Nil
  then show ?case by (simp add: valid_return)
next
  case (Cons n ns)
  have step: "repr (map (\<lambda>i. if i < w then f (bits ! i) (c ! i) else bits ! i) [0..<length bits]) w
      (h v (v_int (eval I n)))" if "repr c w (v_int (eval I n))" for c
    using Cons.prems(1) that f h reprD(4) [OF that] reprD(4) [OF Cons.prems(1)]
    by (intro repr_bitwise [where g = g]) auto
  then show ?case
    using Cons.prems Cons.IH [OF step] by (auto intro!: valid_bind [OF valid_term])
qed

lemma valid_bitwise:
  assumes t: "typeOf (App k ns) = Some (BITVECTOR_TYPE w)" and T: "set ns \<subseteq> T"
    and k: "k \<in> {BITVECTOR_AND, BITVECTOR_OR, BITVECTOR_XOR}"
    and f: "\<And>p q. ok p \<Longrightarrow> ok q \<Longrightarrow> ok (f p q) \<and> (sem (f p q) \<longleftrightarrow> g (sem p) (sem q))"
    and h: "\<And>x y. in_width w x \<Longrightarrow> in_width w y \<Longrightarrow> in_width w (h x y)"
      "\<And>x y i. bit (h x y) i = g (bit x i) (bit y i)"
    and sem_k: "\<And>vs. sem_op I k vs = v_nary (\<lambda>n. h) vs"
  shows "valid (sbind (bbTerm bb (children (App k ns) ! 0))
      (\<lambda>bits. bitwiseBB_loop bb f (getSize (App k ns)) (tl (children (App k ns))) bits))
    (\<lambda>bits. repr bits w (v_int (eval I (App k ns))))"
proof -
  from typeOf_nary [OF t] k have ne: "ns \<noteq> []" and ts: "\<forall>n\<in>set ns. typeOf n = Some (BITVECTOR_TYPE w)" by auto
  then obtain n ms where ns: "ns = n # ms" by (cases ns) auto
  with ts obtain a where "eval I n = VBV w a" by (auto elim: BV_value)
  then have "v_int (eval I (App k ns)) = foldl h (v_int (eval I n)) (map (v_int \<circ> eval I) ms)"
    unfolding ns by (simp add: sem_k)
  then show ?thesis
    using ts T ns t by (auto intro!: valid_bind [OF valid_term] valid_bitwise_loop [where g = g] f h)
qed

lemma valid_DefaultAndBB:
  assumes "typeOf (App BITVECTOR_AND ns) = Some (BITVECTOR_TYPE w)" and "set ns \<subseteq> T"
  shows "valid (DefaultAndBB (App BITVECTOR_AND ns) bb) (\<lambda>bits. repr bits w (v_int (eval I (App BITVECTOR_AND ns))))"
  unfolding DefaultAndBB_def using assms
  by (intro valid_bitwise [where g = "(\<and>)" and h = "and"]) (auto simp: bit_and_iff)

lemma valid_DefaultOrBB:
  assumes "typeOf (App BITVECTOR_OR ns) = Some (BITVECTOR_TYPE w)" and "set ns \<subseteq> T"
  shows "valid (DefaultOrBB (App BITVECTOR_OR ns) bb) (\<lambda>bits. repr bits w (v_int (eval I (App BITVECTOR_OR ns))))"
  unfolding DefaultOrBB_def using assms
  by (intro valid_bitwise [where g = "(\<or>)" and h = "or"]) (auto simp: bit_or_iff)

lemma valid_DefaultXorBB:
  assumes "typeOf (App BITVECTOR_XOR ns) = Some (BITVECTOR_TYPE w)" and "set ns \<subseteq> T"
  shows "valid (DefaultXorBB (App BITVECTOR_XOR ns) bb) (\<lambda>bits. repr bits w (v_int (eval I (App BITVECTOR_XOR ns))))"
  unfolding DefaultXorBB_def using assms
  by (intro valid_bitwise [where g = "(\<noteq>)" and h = "xor"]) (auto simp: bit_xor_iff)

lemma valid_DefaultNotBB:
  assumes t: "typeOf (App BITVECTOR_NOT [x]) = Some (BITVECTOR_TYPE w)" and "x \<in> T"
  shows "valid (DefaultNotBB (App BITVECTOR_NOT [x]) bb) (\<lambda>bits. repr bits w (v_int (eval I (App BITVECTOR_NOT [x]))))"
proof -
  have x: "typeOf x = Some (BITVECTOR_TYPE w)" using t by (auto simp: typeOf_short type_op_iffs)
  then obtain a where "eval I x = VBV w a" by (rule BV_value)
  then show ?thesis
    unfolding DefaultNotBB_def using valid_term [OF assms(2) x]
    by (auto intro!: valid_bind valid_return repr_negateBits)
qed

lemma valid_binary:
  assumes x: "typeOf x = Some (BITVECTOR_TYPE v)" and y: "typeOf y = Some (BITVECTOR_TYPE v)" and T: "x \<in> T" "y \<in> T"
    and f: "\<And>a b as bs. eval I x = VBV v a \<Longrightarrow> eval I y = VBV v b \<Longrightarrow> repr as v a \<Longrightarrow> repr bs v b \<Longrightarrow> valid (f as bs) Q"
  shows "valid (sbind (bbTerm bb x) (\<lambda>a. sbind (bbTerm bb y) (f a))) Q"
proof -
  obtain a b where "eval I x = VBV v a" "eval I y = VBV v b" using x y by (metis BV_value)
  with f show ?thesis by (intro valid_terms2 [OF T x y]) auto
qed

lemma bit_bvnot: "in_width n a \<Longrightarrow> i < n \<Longrightarrow> bit (bvnot n a) i \<longleftrightarrow> \<not> bit a i"
proof -
  assume a: "in_width n a" and i: "i < n"
  have "bvnot n a = take_bit n (not a)"
    using bvnot_eq_mod [OF a] by (simp add: take_bit_eq_mod not_int_def minus_diff_commute)
  with i show ?thesis by (simp add: bit_simps)
qed

lemma valid_DefaultXnorBB:
  assumes t: "typeOf (App BITVECTOR_XNOR [x, y]) = Some (BITVECTOR_TYPE w)" and "x \<in> T" "y \<in> T"
  shows "valid (DefaultXnorBB (App BITVECTOR_XNOR [x, y]) bb)
    (\<lambda>bits. repr bits w (v_int (eval I (App BITVECTOR_XNOR [x, y]))))"
proof -
  have xy: "typeOf x = Some (BITVECTOR_TYPE w)" "typeOf y = Some (BITVECTOR_TYPE w)"
    using t by (auto simp: typeOf_short type_op_iffs)
  have "repr (iffBits (tb_ops bb) as bs) w (bvnot w (xor a b))" if r: "repr as w a" "repr bs w b" for as bs a b
    using iffBits_sem [OF r] reprD(4) [OF r(1)] reprD(4) [OF r(2)]
    by (intro repr_eqI) (auto simp: bit_bvnot bit_xor_iff)
  then show ?thesis
    unfolding DefaultXnorBB_def using assms(2,3)
    by (auto intro!: valid_binary [OF xy] valid_return)
qed

lemma repr_single: "ok b \<Longrightarrow> repr [b] (Suc 0) (of_bool (sem b))"
  by (simp add: repr_def)

lemma valid_DefaultCompBB:
  assumes t: "typeOf (App BITVECTOR_COMP [x, y]) = Some (BITVECTOR_TYPE w)" and "x \<in> T" "y \<in> T"
  shows "valid (DefaultCompBB (App BITVECTOR_COMP [x, y]) bb)
    (\<lambda>bits. repr bits w (v_int (eval I (App BITVECTOR_COMP [x, y]))))"
proof -
  obtain v where xy: "typeOf x = Some (BITVECTOR_TYPE v)" "typeOf y = Some (BITVECTOR_TYPE v)"
    and w: "w = Suc 0" and v: "0 < v"
    using t by (auto simp: typeOf_short type_op_iffs valid_width_def)
  have "repr [mkAnds (tb_ops bb) (iffBits (tb_ops bb) as bs)] (Suc 0) (of_bool (a = b))"
    if r: "repr as v a" "repr bs v b" for as bs a b
    using repr_single [OF eqBits_sem(1) [OF r v]] by (simp only: eqBits_sem(2) [OF r v])
  then show ?thesis
    unfolding DefaultCompBB_def w using assms(2,3)
    by (auto intro!: valid_binary [OF xy] valid_return)
qed

subsection \<open>Arithmetic strategies\<close>

lemma valid_mult_loop:
  assumes "0 < w"
  shows "repr res w v \<Longrightarrow> set ns \<subseteq> T \<Longrightarrow> \<forall>n\<in>set ns. typeOf n = Some (BITVECTOR_TYPE w) \<Longrightarrow>
    valid (multBB_loop bb ns res) (\<lambda>bits. repr bits w (foldl (bvmul w) v (map (v_int \<circ> eval I) ns)))"
proof (induction ns arbitrary: res v)
  case (Cons n ns)
  note step = shiftAddMultiplier_repr [OF Cons.prems(1) _ assms]
  show ?case
    using Cons.prems Cons.IH [OF step] by (auto intro!: valid_bind [OF valid_term])
qed (simp add: valid_return)

lemma plus_step: "repr a w x \<Longrightarrow> repr b w y \<Longrightarrow>
    repr (fst (rippleCarryAdder (tb_ops bb) a b (mkFalse (tb_ops bb)))) w (bvadd w x y)"
  using rippleCarryAdder_repr(1) [of a w x b y "mkFalse (tb_ops bb)"]
  by (cases "rippleCarryAdder (tb_ops bb) a b (mkFalse (tb_ops bb))") (auto simp: bvadd_def)

lemma valid_plus_loop:
  "repr res w v \<Longrightarrow> set ns \<subseteq> T \<Longrightarrow> \<forall>n\<in>set ns. typeOf n = Some (BITVECTOR_TYPE w) \<Longrightarrow>
    valid (plusBB_loop bb ns res) (\<lambda>bits. repr bits w (foldl (bvadd w) v (map (v_int \<circ> eval I) ns)))"
proof (induction ns arbitrary: res v)
  case (Cons n ns)
  note step = plus_step [OF Cons.prems(1)]
  show ?case
    using Cons.prems Cons.IH [OF step] by (auto intro!: valid_bind [OF valid_term])
qed (simp add: valid_return)

lemma nary_children:
  assumes "typeOf (App k ns) = Some (BITVECTOR_TYPE w)" and "set ns \<subseteq> T"
    and "k \<in> {BITVECTOR_AND, BITVECTOR_OR, BITVECTOR_XOR, BITVECTOR_MULT, BITVECTOR_PLUS}"
  obtains n ms a where "ns = n # ms" "n \<in> T" "set ms \<subseteq> T" "typeOf n = Some (BITVECTOR_TYPE w)"
    "\<forall>n\<in>set ms. typeOf n = Some (BITVECTOR_TYPE w)" "eval I n = VBV w a" "0 < w"
proof -
  from typeOf_nary [OF assms(1,3)] have ne: "ns \<noteq> []" and ts: "\<forall>n\<in>set ns. typeOf n = Some (BITVECTOR_TYPE w)"
    and w: "0 < w" by (auto simp: valid_width_def)
  then obtain n ms where ns: "ns = n # ms" by (cases ns) auto
  moreover obtain a where "eval I n = VBV w a" using ts ns by (auto elim: BV_value)
  ultimately show thesis using that ts assms(2) w by auto
qed

lemma valid_DefaultMultBB:
  assumes t: "typeOf (App BITVECTOR_MULT ns) = Some (BITVECTOR_TYPE w)" and "set ns \<subseteq> T"
  shows "valid (DefaultMultBB (App BITVECTOR_MULT ns) bb)
    (\<lambda>bits. repr bits w (v_int (eval I (App BITVECTOR_MULT ns))))"
proof -
  from nary_children [OF assms] obtain n ms a where n: "ns = n # ms" "n \<in> T" "set ms \<subseteq> T"
    "typeOf n = Some (BITVECTOR_TYPE w)" "\<forall>n\<in>set ms. typeOf n = Some (BITVECTOR_TYPE w)" "eval I n = VBV w a" "0 < w"
    by auto
  then show ?thesis
    unfolding DefaultMultBB_def
    using valid_bind [OF valid_term [OF n(2,4)] valid_mult_loop [OF n(7) _ n(3,5)]] by simp
qed

lemma valid_DefaultPlusBB:
  assumes t: "typeOf (App BITVECTOR_PLUS ns) = Some (BITVECTOR_TYPE w)" and "set ns \<subseteq> T"
  shows "valid (DefaultPlusBB (App BITVECTOR_PLUS ns) bb)
    (\<lambda>bits. repr bits w (v_int (eval I (App BITVECTOR_PLUS ns))))"
proof -
  from nary_children [OF assms] obtain n ms a where n: "ns = n # ms" "n \<in> T" "set ms \<subseteq> T"
    "typeOf n = Some (BITVECTOR_TYPE w)" "\<forall>n\<in>set ms. typeOf n = Some (BITVECTOR_TYPE w)" "eval I n = VBV w a" "0 < w"
    by auto
  then show ?thesis
    unfolding DefaultPlusBB_def
    using valid_bind [OF valid_term [OF n(2,4)] valid_plus_loop [OF _ n(3,5)]] by simp
qed

lemma valid_DefaultSubBB:
  assumes t: "typeOf (App BITVECTOR_SUB [x, y]) = Some (BITVECTOR_TYPE w)" and "x \<in> T" "y \<in> T"
  shows "valid (DefaultSubBB (App BITVECTOR_SUB [x, y]) bb)
    (\<lambda>bits. repr bits w (v_int (eval I (App BITVECTOR_SUB [x, y]))))"
proof -
  have xy: "typeOf x = Some (BITVECTOR_TYPE w)" "typeOf y = Some (BITVECTOR_TYPE w)"
    using t by (auto simp: typeOf_short type_op_iffs)
  have "repr (fst (rippleCarryAdder (tb_ops bb) as (negateBits (tb_ops bb) bs) (mkTrue (tb_ops bb)))) w (bvsub w a b)"
    if "repr as w a" "repr bs w b" for as bs a b
    using adder_subtracts(1) [OF that] by (metis prod.collapse)
  then show ?thesis
    unfolding DefaultSubBB_def Let_def using assms(2,3)
    by (auto intro!: valid_binary [OF xy] valid_return)
qed

lemma valid_DefaultNegBB:
  assumes t: "typeOf (App BITVECTOR_NEG [x]) = Some (BITVECTOR_TYPE w)" and "x \<in> T"
  shows "valid (DefaultNegBB (App BITVECTOR_NEG [x]) bb) (\<lambda>bits. repr bits w (v_int (eval I (App BITVECTOR_NEG [x]))))"
proof -
  have x: "typeOf x = Some (BITVECTOR_TYPE w)" using t by (auto simp: typeOf_short type_op_iffs)
  then obtain a where a: "eval I x = VBV w a" by (rule BV_value)
  have "repr (fst (rippleCarryAdder (tb_ops bb) (negateBits (tb_ops bb) as) (makeZero (tb_ops bb) w) (mkTrue (tb_ops bb)))) w
      (bvneg w a)" if r: "repr as w a" for as
  proof -
    obtain res co where e: "rippleCarryAdder (tb_ops bb) (negateBits (tb_ops bb) as) (makeZero (tb_ops bb) w) (mkTrue (tb_ops bb)) = (res, co)"
      by fastforce
    have "(bvnot w a + 0 + of_bool True) mod 2 ^ w = bvneg w a"
      by (simp add: bvnot_def bvneg_def)
    with rippleCarryAdder_repr(1) [OF repr_negateBits [OF r] repr_makeZero ok_ops(1) e] e show ?thesis by simp
  qed
  then show ?thesis
    unfolding DefaultNegBB_def Let_def using valid_term [OF assms(2) x] a t
    by (auto intro!: valid_bind valid_return)
qed

lemma isZeroTest_sem:
  assumes b: "repr b n y" and n: "0 < n"
  shows "ok (mkAnds (tb_ops bb) (map (\<lambda>i. mkIff (tb_ops bb) (b ! i) (mkFalse (tb_ops bb))) [0..<length b]))"
    and "sem (mkAnds (tb_ops bb) (map (\<lambda>i. mkIff (tb_ops bb) (b ! i) (mkFalse (tb_ops bb))) [0..<length b])) \<longleftrightarrow> y = 0"
proof -
  have "map (\<lambda>i. mkIff (tb_ops bb) (b ! i) (mkFalse (tb_ops bb))) [0..<length b] =
      iffBits (tb_ops bb) b (makeZero (tb_ops bb) n)"
    using reprD(2) [OF b] by (auto simp: iffBits_def makeZero_def intro!: map_cong)
  with eqBits_sem [OF b repr_makeZero n]
  show "ok (mkAnds (tb_ops bb) (map (\<lambda>i. mkIff (tb_ops bb) (b ! i) (mkFalse (tb_ops bb))) [0..<length b]))"
    and "sem (mkAnds (tb_ops bb) (map (\<lambda>i. mkIff (tb_ops bb) (b ! i) (mkFalse (tb_ops bb))) [0..<length b])) \<longleftrightarrow> y = 0"
    by (simp_all only:)
qed

lemma uDivMod_total_repr:
  assumes a: "repr a w x" and b: "repr b w y" and w: "0 < w"
    and res: "uDivMod_total (tb_ops bb) a b w = (q, r)"
  shows "repr q w (bvudiv w x y)" and "repr r w (bvurem w x y)"
proof -
  obtain q1 r1 where rec: "uDivModRec (tb_ops bb) a b w = (q1, r1)" by fastforce
  have "x < 2 ^ w" "0 \<le> y" using reprD(4) [OF a] reprD(4) [OF b] by (auto simp: in_width_def)
  with uDivModRec_repr [OF a b _ rec] obtain uq ur where u: "repr q1 w uq" "repr r1 w ur"
    "y \<noteq> 0 \<longrightarrow> uq = x div y \<and> ur = x mod y" by force
  define z where "z = mkAnds (tb_ops bb) (map (\<lambda>i. mkIff (tb_ops bb) (b ! i) (mkFalse (tb_ops bb))) [0..<length b])"
  have z: "ok z" "sem z \<longleftrightarrow> y = 0" using isZeroTest_sem [OF b w] by (simp_all only: z_def)
  have qr: "q = map (\<lambda>i. mkIte (tb_ops bb) z (mkTrue (tb_ops bb)) (q1 ! i)) [0..<w]"
    "r = map (\<lambda>i. mkIte (tb_ops bb) z (a ! i) (r1 ! i)) [0..<w]"
    using res reprD(2) [OF u(1)] unfolding uDivMod_total_def Let_def rec prod.case z_def by simp_all
  show "repr q w (bvudiv w x y)"
    unfolding qr(1) using repr_map_ite [OF z(1) repr_map_True repr_map_nth [OF u(1)]] z(2) u(3)
    by (auto simp: bvudiv_def split: if_splits)
  show "repr r w (bvurem w x y)"
    unfolding qr(2) using repr_map_ite [OF z(1) repr_map_nth [OF a] repr_map_nth [OF u(2)]] z(2) u(3)
    by (auto simp: bvurem_def split: if_splits)
qed

lemma valid_DefaultUdivBB:
  assumes t: "typeOf (App BITVECTOR_UDIV_TOTAL [x, y]) = Some (BITVECTOR_TYPE w)" and "x \<in> T" "y \<in> T"
  shows "valid (DefaultUdivBB (App BITVECTOR_UDIV_TOTAL [x, y]) bb)
    (\<lambda>bits. repr bits w (v_int (eval I (App BITVECTOR_UDIV_TOTAL [x, y]))))"
proof -
  have xy: "typeOf x = Some (BITVECTOR_TYPE w)" "typeOf y = Some (BITVECTOR_TYPE w)"
    and w: "0 < w" and rem: "typeOf (App BITVECTOR_UREM_TOTAL [x, y]) = Some (BITVECTOR_TYPE w)"
    using t by (auto simp: typeOf_short type_op_iffs valid_width_def)
  show ?thesis
    unfolding DefaultUdivBB_def getSize_typeOf [OF t] children.simps nth_Cons_0 nth_Cons_Suc One_nat_def
  proof (rule valid_binary [OF xy assms(2,3)])
    fix a b as bs assume v: "eval I x = VBV w a" "eval I y = VBV w b" "repr as w a" "repr bs w b"
    obtain q r where qr: "uDivMod_total (tb_ops bb) as bs w = (q, r)" by fastforce
    note repr = uDivMod_total_repr [OF v(3,4) w qr]
    show "valid (let (q, r) = uDivMod_total (tb_ops bb) as bs w; remainder = App BITVECTOR_UREM_TOTAL [x, y]
        in sbind (smodify (storeBBTerm bb remainder r)) (\<lambda>_. sreturn q))
        (\<lambda>bits. repr bits w (v_int (eval I (App BITVECTOR_UDIV_TOTAL [x, y]))))"
      unfolding qr Let_def prod.case using repr v(1,2)
      by (intro valid_bind [OF valid_store [OF rem]] valid_return) simp_all
  qed
qed

lemma valid_DefaultUremBB:
  assumes t: "typeOf (App BITVECTOR_UREM_TOTAL [x, y]) = Some (BITVECTOR_TYPE w)" and "x \<in> T" "y \<in> T"
  shows "valid (DefaultUremBB (App BITVECTOR_UREM_TOTAL [x, y]) bb)
    (\<lambda>bits. repr bits w (v_int (eval I (App BITVECTOR_UREM_TOTAL [x, y]))))"
proof -
  have xy: "typeOf x = Some (BITVECTOR_TYPE w)" "typeOf y = Some (BITVECTOR_TYPE w)"
    and w: "0 < w" and quot: "typeOf (App BITVECTOR_UDIV_TOTAL [x, y]) = Some (BITVECTOR_TYPE w)"
    using t by (auto simp: typeOf_short type_op_iffs valid_width_def)
  show ?thesis
    unfolding DefaultUremBB_def getSize_typeOf [OF t] children.simps nth_Cons_0 nth_Cons_Suc One_nat_def
  proof (rule valid_binary [OF xy assms(2,3)])
    fix a b as bs assume v: "eval I x = VBV w a" "eval I y = VBV w b" "repr as w a" "repr bs w b"
    obtain q r where qr: "uDivMod_total (tb_ops bb) as bs w = (q, r)" by fastforce
    note repr = uDivMod_total_repr [OF v(3,4) w qr]
    show "valid (let (q, rem) = uDivMod_total (tb_ops bb) as bs w; quotient = App BITVECTOR_UDIV_TOTAL [x, y]
        in sbind (smodify (storeBBTerm bb quotient q)) (\<lambda>_. sreturn rem))
        (\<lambda>bits. repr bits w (v_int (eval I (App BITVECTOR_UREM_TOTAL [x, y]))))"
      unfolding qr Let_def prod.case using repr v(1,2)
      by (intro valid_bind [OF valid_store [OF quot]] valid_return) simp_all
  qed
qed

subsection \<open>Shifts\<close>

lemma guard_atom:
  assumes y: "typeOf y = Some (BITVECTOR_TYPE w)" and n: "typeOf (App k [x, y]) = Some (BITVECTOR_TYPE w)"
    and b: "eval I y = VBV w b"
  shows "typeOf (b_ult_a_size_node G (App k [x, y])) = Some BOOLEAN_TYPE"
    and "v_bool (eval I (b_ult_a_size_node G (App k [x, y]))) \<longleftrightarrow> b < int w"
proof -
  have w: "valid_width w" using typeOf_valid [OF y] by simp
  have lt: "int w < 2 ^ w" by simp
  have c: "BitVector_unsigned G w w = \<lparr>d_size = w, d_value = int w\<rparr>"
    using lt by (simp add: BitVector_unsigned_def)
  have "bv_wf \<lparr>d_size = w, d_value = int w\<rparr>"
    using w lt by (auto simp: bv_wf_def valid_width_def in_width_def)
  then show "typeOf (b_ult_a_size_node G (App k [x, y])) = Some BOOLEAN_TYPE"
    using y w by (simp add: b_ult_a_size_node_def getSize_typeOf [OF n] c typeOf_short type_op_iffs mk_bvtype_def)
  show "v_bool (eval I (b_ult_a_size_node G (App k [x, y]))) \<longleftrightarrow> b < int w"
    using b by (simp add: b_ult_a_size_node_def getSize_typeOf [OF n] c)
qed

lemma valid_guarded:
  assumes n: "typeOf (App k [x, y]) = Some (BITVECTOR_TYPE w)"
    and xy: "typeOf x = Some (BITVECTOR_TYPE w)" "typeOf y = Some (BITVECTOR_TYPE w)" and T: "x \<in> T" "y \<in> T"
    and A: "b_ult_a_size_node G (App k [x, y]) \<in> A"
    and f: "\<And>a b as bs g. eval I x = VBV w a \<Longrightarrow> eval I y = VBV w b \<Longrightarrow> repr as w a \<Longrightarrow> repr bs w b \<Longrightarrow>
      ok g \<Longrightarrow> sem g = (b < int w) \<Longrightarrow> P (f as bs g)"
  shows "valid (sbind (bbTerm bb x) (\<lambda>a. sbind (bbTerm bb y) (\<lambda>b.
     sbind (bbAtom bb (b_ult_a_size_node G (App k [x, y]))) (\<lambda>_.
     sreturn (f a b (getBBAtom bb (b_ult_a_size_node G (App k [x, y])))))))) P"
proof (rule valid_binary [OF xy T])
  fix a b as bs assume v: "eval I x = VBV w a" "eval I y = VBV w b" "repr as w a" "repr bs w b"
  note g = guard_atom [OF xy(2) n v(2)]
  have "P (f as bs (getBBAtom bb (b_ult_a_size_node G (App k [x, y]))))"
    using getBBAtom_contract [OF g(1)] g(2) by (intro f [OF v]) auto
  then show "valid (sbind (bbAtom bb (b_ult_a_size_node G (App k [x, y]))) (\<lambda>_.
     sreturn (f as bs (getBBAtom bb (b_ult_a_size_node G (App k [x, y])))))) P"
    by (intro valid_bind [OF valid_atom [OF A g(1)]] valid_return)
qed

text \<open>Below the width, the low bits of the shift amount that the stages look at are all of it.\<close>

lemma amount_low_bits:
  assumes "in_width w b" and "b < int w"
  shows "b mod 2 ^ ceil_log2 w = b"
proof -
  have "int w \<le> 2 ^ ceil_log2 w" using ceil_log2_bounds(1) [of w]
    by (metis of_nat_le_iff of_nat_numeral of_nat_power)
  then have "b < 2 ^ ceil_log2 w" using assms(2) by linarith
  with assms(1) show ?thesis by (simp add: in_width_def)
qed

lemma shl_result:
  assumes a: "repr as w a" and b: "repr bs w b" and g: "ok g" "sem g = (b < int w)"
  shows "repr (map (\<lambda>i. mkIte (tb_ops bb) g (shl_barrel (tb_ops bb) as bs (ceil_log2 w) ! i) (mkFalse (tb_ops bb)))
    [0..<length bs]) w (bvshl w a b)"
proof -
  note r = repr_map_nth [OF shl_barrel_repr [OF a b ceil_log2_bounds(2)]]
  have "(if sem g then a * 2 ^ nat (b mod 2 ^ ceil_log2 w) mod 2 ^ w else 0) = bvshl w a b"
    using amount_low_bits [OF reprD(4) [OF b]] bvshl_large [of w b a] g by (auto simp: bvshl_def)
  with repr_map_ite [OF g(1) r repr_map_False] reprD(2) [OF b] show ?thesis by simp
qed

lemma shr_result:
  assumes a: "repr as w (z mod 2 ^ w)" and b: "repr bs w b" and g: "ok g" "sem g = (b < int w)"
    and fill: "ok fill" "\<And>j. w \<le> j \<Longrightarrow> bit z j = sem fill"
  shows "repr (map (\<lambda>i. mkIte (tb_ops bb) g (shr_barrel (tb_ops bb) fill as bs (ceil_log2 w) ! i) fill)
    [0..<length bs]) w ((z div 2 ^ nat b) mod 2 ^ w)"
proof -
  note r = repr_map_nth [OF shr_barrel_repr [OF a b ceil_log2_bounds(2) fill]]
  have large: "(if sem fill then 2 ^ w - 1 else 0) = (z div 2 ^ nat b) mod 2 ^ w" if "\<not> b < int w"
  proof (rule bit_eqI)
    fix i
    have "w \<le> nat b + i" using that by auto
    then show "bit (if sem fill then 2 ^ w - 1 else 0 :: int) i = bit (z div 2 ^ nat b mod 2 ^ w) i"
      using fill(2) by (auto simp: bit_ones take_bit_eq_mod [symmetric] drop_bit_eq_div [symmetric] bit_simps)
  qed
  have "(if sem g then z div 2 ^ nat (b mod 2 ^ ceil_log2 w) mod 2 ^ w else if sem fill then 2 ^ w - 1 else 0) =
      (z div 2 ^ nat b) mod 2 ^ w"
    using amount_low_bits [OF reprD(4) [OF b]] g large by auto
  with repr_map_ite [OF g(1) r repr_map_const [OF fill(1)]] reprD(2) [OF b] show ?thesis by simp
qed

lemma valid_DefaultShlBB:
  assumes t: "typeOf (App BITVECTOR_SHL [x, y]) = Some (BITVECTOR_TYPE w)" and T: "x \<in> T" "y \<in> T"
    and A: "b_ult_a_size_node G (App BITVECTOR_SHL [x, y]) \<in> A"
  shows "valid (DefaultShlBB G (App BITVECTOR_SHL [x, y]) bb)
    (\<lambda>bits. repr bits w (v_int (eval I (App BITVECTOR_SHL [x, y]))))"
proof -
  have xy: "typeOf x = Some (BITVECTOR_TYPE w)" "typeOf y = Some (BITVECTOR_TYPE w)"
    using t by (auto simp: typeOf_short type_op_iffs)
  show ?thesis
    unfolding DefaultShlBB_def getSize_typeOf [OF t] children.simps nth_Cons_0 nth_Cons_Suc One_nat_def Let_def
    by (rule valid_guarded [OF t xy T A]) (simp add: shl_result)
qed

lemma valid_DefaultLshrBB:
  assumes t: "typeOf (App BITVECTOR_LSHR [x, y]) = Some (BITVECTOR_TYPE w)" and T: "x \<in> T" "y \<in> T"
    and A: "b_ult_a_size_node G (App BITVECTOR_LSHR [x, y]) \<in> A"
  shows "valid (DefaultLshrBB G (App BITVECTOR_LSHR [x, y]) bb)
    (\<lambda>bits. repr bits w (v_int (eval I (App BITVECTOR_LSHR [x, y]))))"
proof -
  have xy: "typeOf x = Some (BITVECTOR_TYPE w)" "typeOf y = Some (BITVECTOR_TYPE w)"
    using t by (auto simp: typeOf_short type_op_iffs)
  have "repr (map (\<lambda>i. mkIte (tb_ops bb) g (shr_barrel (tb_ops bb) (mkFalse (tb_ops bb)) as bs (ceil_log2 w) ! i)
      (mkFalse (tb_ops bb))) [0..<length bs]) w (bvlshr w a b)"
    if r: "repr as w a" "repr bs w b" "ok g" "sem g = (b < int w)" for a b as bs g
  proof -
    have w: "in_width w a" and b: "0 \<le> b" using reprD(4) r by (auto simp: in_width_def)
    then have "bvlshr w a b mod 2 ^ w = bvlshr w a b" by (simp add: bvlshr_def)
    moreover have "bvlshr w a b = a div 2 ^ nat b" by (simp add: bvlshr_def)
    ultimately show ?thesis
      using shr_result [of as w a bs b g "mkFalse (tb_ops bb)"] r w in_width_not_bit [OF w] by simp
  qed
  then show ?thesis
    unfolding DefaultLshrBB_def getSize_typeOf [OF t] children.simps nth_Cons_0 nth_Cons_Suc One_nat_def Let_def
    by (intro valid_guarded [OF t xy T A]) simp
qed

lemma bit_sval:
  assumes "in_width w a" and "0 < w"
  shows "w \<le> j \<Longrightarrow> bit (sval w a) j = bit a (w - 1)" and "sval w a mod 2 ^ w = a"
proof -
  show "sval w a mod 2 ^ w = a"
    using assms(1) by (auto simp: sval_def)
  have low: "sval w a < 2 ^ (w - 1)" and high: "- (2 ^ (w - 1)) \<le> sval w a"
  proof -
    have p: "(2 :: int) ^ w = 2 * 2 ^ (w - 1)" using assms(2) by (metis power_minus_mult mult.commute)
    show "sval w a < 2 ^ (w - 1)" "- (2 ^ (w - 1)) \<le> sval w a"
      using assms(1) by (auto simp: sval_def in_width_def p)
  qed
  show "bit (sval w a) j = bit a (w - 1)" if j: "w \<le> j"
  proof -
    have le: "(2 :: int) ^ (w - 1) \<le> 2 ^ j" using j by (intro power_increasing) auto
    show ?thesis
    proof (cases "bit a (w - 1)")
      case True
      then have "2 ^ (w - 1) \<le> a" using sval_top_bit(2) [OF assms] by simp
      then have neg: "sval w a < 0" using assms(1) by (simp add: sval_def in_width_def)
      have "- (2 ^ j) \<le> sval w a" using high le by linarith
      then have "sval w a div 2 ^ j = - 1" using neg by (rule int_neg_div_pow2)
      then show ?thesis using True by (simp add: bit_iff_odd)
    next
      case False
      then have "a < 2 ^ (w - 1)" using sval_top_bit(2) [OF assms] by simp
      then have "sval w a = a" by (simp add: sval_def)
      with False in_width_not_bit [OF assms(1) j] show ?thesis by simp
    qed
  qed
qed

lemma valid_DefaultAshrBB:
  assumes t: "typeOf (App BITVECTOR_ASHR [x, y]) = Some (BITVECTOR_TYPE w)" and T: "x \<in> T" "y \<in> T"
    and A: "b_ult_a_size_node G (App BITVECTOR_ASHR [x, y]) \<in> A"
  shows "valid (DefaultAshrBB G (App BITVECTOR_ASHR [x, y]) bb)
    (\<lambda>bits. repr bits w (v_int (eval I (App BITVECTOR_ASHR [x, y]))))"
proof -
  have xy: "typeOf x = Some (BITVECTOR_TYPE w)" "typeOf y = Some (BITVECTOR_TYPE w)" and w: "0 < w"
    using t by (auto simp: typeOf_short type_op_iffs valid_width_def)
  have "repr (map (\<lambda>i. mkIte (tb_ops bb) g (shr_barrel (tb_ops bb) (last as) as bs (ceil_log2 w) ! i)
      (last as)) [0..<length bs]) w (bvashr w a b)"
    if r: "repr as w a" "repr bs w b" "ok g" "sem g = (b < int w)" for a b as bs g
  proof -
    note a = reprD(4) [OF r(1)]
    have "last as = as ! (w - 1)" using reprD(2) [OF r(1)] w by (metis last_conv_nth length_greater_0_conv)
    then have sgn: "ok (last as)" "sem (last as) = bit a (w - 1)"
      using reprD(5,6) [OF r(1), of "w - 1"] w by auto
    show ?thesis
      using shr_result [of as w "sval w a" bs b g "last as"] r bit_sval [OF a w] sgn by (simp add: bvashr_def)
  qed
  then show ?thesis
    unfolding DefaultAshrBB_def getSize_typeOf [OF t] children.simps nth_Cons_0 nth_Cons_Suc One_nat_def Let_def
    by (intro valid_guarded [OF t xy T A]) simp
qed

subsection \<open>Structural strategies\<close>

lemma valid_DefaultUltbvBB:
  assumes t: "typeOf (App BITVECTOR_ULTBV [x, y]) = Some (BITVECTOR_TYPE w)" and T: "x \<in> T" "y \<in> T"
  shows "valid (DefaultUltbvBB (App BITVECTOR_ULTBV [x, y]) bb)
    (\<lambda>bits. repr bits w (v_int (eval I (App BITVECTOR_ULTBV [x, y]))))"
proof -
  obtain v where xy: "typeOf x = Some (BITVECTOR_TYPE v)" "typeOf y = Some (BITVECTOR_TYPE v)"
    and w: "w = Suc 0" and v: "0 < v"
    using t by (auto simp: typeOf_short type_op_iffs valid_width_def)
  have "repr [uLessThanBB (tb_ops bb) as bs False] (Suc 0) (of_bool (a < b))"
    if r: "repr as v a" "repr bs v b" for as bs a b
    using repr_single [OF uLessThanBB_sem(1) [OF r v, of False]] uLessThanBB_sem(2) [OF r v, of False] by simp
  then show ?thesis
    unfolding DefaultUltbvBB_def w using T by (auto intro!: valid_binary [OF xy] valid_return)
qed

lemma valid_DefaultSltbvBB:
  assumes t: "typeOf (App BITVECTOR_SLTBV [x, y]) = Some (BITVECTOR_TYPE w)" and T: "x \<in> T" "y \<in> T"
  shows "valid (DefaultSltbvBB (App BITVECTOR_SLTBV [x, y]) bb)
    (\<lambda>bits. repr bits w (v_int (eval I (App BITVECTOR_SLTBV [x, y]))))"
proof -
  obtain v where xy: "typeOf x = Some (BITVECTOR_TYPE v)" "typeOf y = Some (BITVECTOR_TYPE v)"
    and w: "w = Suc 0" and v: "0 < v"
    using t by (auto simp: typeOf_short type_op_iffs valid_width_def)
  have "repr [sLessThanBB (tb_ops bb) as bs False] (Suc 0) (of_bool (sval v a < sval v b))"
    if r: "repr as v a" "repr bs v b" for as bs a b
    using repr_single [OF sLessThanBB_sem(1) [OF r v, of False]] sLessThanBB_sem(2) [OF r v, of False] by simp
  then show ?thesis
    unfolding DefaultSltbvBB_def w using T by (auto intro!: valid_binary [OF xy] valid_return)
qed

lemma valid_DefaultIteBB:
  assumes t: "typeOf (App BITVECTOR_ITE [c, x, y]) = Some (BITVECTOR_TYPE w)" and T: "c \<in> T" "x \<in> T" "y \<in> T"
  shows "valid (DefaultIteBB (App BITVECTOR_ITE [c, x, y]) bb)
    (\<lambda>bits. repr bits w (v_int (eval I (App BITVECTOR_ITE [c, x, y]))))"
proof -
  have xy: "typeOf c = Some (BITVECTOR_TYPE 1)" "typeOf x = Some (BITVECTOR_TYPE w)" "typeOf y = Some (BITVECTOR_TYPE w)"
    using t by (auto simp: typeOf_short type_op_mixed)
  obtain d where d: "eval I c = VBV 1 d" "in_width 1 d" using xy(1) by (rule BV_value)
  have res: "repr (map (\<lambda>i. mkAnd (tb_ops bb) (mkOr (tb_ops bb) (mkNot (tb_ops bb) (cs ! 0)) (as ! i))
      (mkOr (tb_ops bb) (cs ! 0) (bs ! i))) [0..<length as]) w (if d = 1 then a else b)"
    if c: "repr cs 1 d" and a: "repr as w a" and b: "repr bs w b" for cs as bs a b
  proof (rule repr_eqI)
    have len: "length as = w" using reprD(2) [OF a] .
    have "d = 0 \<or> d = 1" using d(2) by (auto simp: in_width_def)
    then have c0: "ok (cs ! 0)" "sem (cs ! 0) \<longleftrightarrow> d = 1"
      using reprD(5,6) [OF c, of 0] by auto
    show "list_all ok (map (\<lambda>i. mkAnd (tb_ops bb) (mkOr (tb_ops bb) (mkNot (tb_ops bb) (cs ! 0)) (as ! i))
      (mkOr (tb_ops bb) (cs ! 0) (bs ! i))) [0..<length as])"
      using len c0 reprD(5) [OF a] reprD(5) [OF b] by (auto simp: list_all_length)
    show "in_width w (if d = 1 then a else b)" using reprD(4) [OF a] reprD(4) [OF b] by simp
    show "\<And>i. i < w \<Longrightarrow> sem (map (\<lambda>i. mkAnd (tb_ops bb) (mkOr (tb_ops bb) (mkNot (tb_ops bb) (cs ! 0)) (as ! i))
      (mkOr (tb_ops bb) (cs ! 0) (bs ! i))) [0..<length as] ! i) = bit (if d = 1 then a else b) i"
      using len c0 reprD(5,6) [OF a] reprD(5,6) [OF b] by auto
  qed (use reprD(2) [OF a] in simp)
  obtain a b where "eval I x = VBV w a" "eval I y = VBV w b" using xy by (metis BV_value)
  then show ?thesis
    unfolding DefaultIteBB_def Let_def
    using d res by (auto intro!: valid_bind [OF valid_term [OF T(1) xy(1)]] valid_bind [OF valid_term [OF T(2) xy(2)]]
        valid_bind [OF valid_term [OF T(3) xy(3)]] valid_return)
qed

lemma valid_DefaultExtractBB:
  assumes t: "typeOf (App (BITVECTOR_EXTRACT hi lo) [x]) = Some (BITVECTOR_TYPE w)" and T: "x \<in> T"
  shows "valid (DefaultExtractBB (App (BITVECTOR_EXTRACT hi lo) [x]) bb)
    (\<lambda>bits. repr bits w (v_int (eval I (App (BITVECTOR_EXTRACT hi lo) [x]))))"
proof -
  obtain v where x: "typeOf x = Some (BITVECTOR_TYPE v)" and w: "w = hi - lo + 1" "lo \<le> hi" "hi < v"
    using t by (auto simp: typeOf_short type_op_iffs)
  obtain a where a: "eval I x = VBV v a" using x by (rule BV_value)
  have "repr (map ((!) as) [lo..<Suc hi]) w (bvextract hi lo a)" if "repr as v a" for as
    using repr_extractBits [OF that w(2,3)] by (simp add: extractBits_def w(1) del: upt_Suc)
  then show ?thesis
    unfolding DefaultExtractBB_def Let_def
    using a by (auto simp: getExtractHigh_def getExtractLow_def simp del: upt_Suc
        intro!: valid_bind [OF valid_term [OF T x]] valid_return)
qed

lemma valid_DefaultSignExtendBB:
  assumes t: "typeOf (App (BITVECTOR_SIGN_EXTEND r) [x]) = Some (BITVECTOR_TYPE w)" and T: "x \<in> T"
  shows "valid (DefaultSignExtendBB (App (BITVECTOR_SIGN_EXTEND r) [x]) bb)
    (\<lambda>bits. repr bits w (v_int (eval I (App (BITVECTOR_SIGN_EXTEND r) [x]))))"
proof -
  obtain v where x: "typeOf x = Some (BITVECTOR_TYPE v)" and w: "w = r + v" "0 < v"
    using t by (auto simp: typeOf_short type_op_iffs valid_width_def)
  obtain a where a: "eval I x = VBV v a" using x by (rule BV_value)
  have "repr (as @ replicate r (last as)) w (bvsign_extend r v a)" if as: "repr as v a" for as
  proof -
    note a = reprD(4) [OF as]
    have "last as = as ! (v - 1)" using reprD(2) [OF as] w(2) by (metis last_conv_nth length_greater_0_conv)
    then have sgn: "ok (last as)" "sem (last as) = bit a (v - 1)"
      using reprD(5,6) [OF as, of "v - 1"] w(2) by auto
    have bit: "bit (bvsign_extend r v a) i \<longleftrightarrow> (if i < v then bit a i else bit a (v - 1))" if "i < r + v" for i
    proof (cases "i < v")
      case True
      have "bit (sval v a) i = bit (sval v a mod 2 ^ v) i"
        using True by (simp add: take_bit_eq_mod [symmetric] bit_simps)
      also have "\<dots> = bit a i" by (simp only: bit_sval(2) [OF a w(2)])
      finally show ?thesis using True that
        by (simp add: bvsign_extend_def take_bit_eq_mod [symmetric] bit_simps)
    next
      case False
      then show ?thesis using that bit_sval(1) [OF a w(2), of i]
        by (simp add: bvsign_extend_def take_bit_eq_mod [symmetric] bit_simps)
    qed
    show ?thesis
      using sgn reprD(1,2,5,6) [OF as] bit in_width_ops(8) [of r v a]
      by (intro repr_eqI) (auto simp: w(1) list_all_length nth_append)
  qed
  then show ?thesis
    unfolding DefaultSignExtendBB_def
    using a by (auto simp: signExtendAmount_def intro!: valid_bind [OF valid_term [OF T x]] valid_return)
qed

lemma valid_concat_loop:
  assumes "\<forall>n\<in>set cs. n \<in> T \<and> (\<exists>v. typeOf n = Some (BITVECTOR_TYPE v))"
    and "repr bits (cat_width (map (eval I) suf)) (cat_val (map (eval I) suf))"
  shows "valid (concatBB_loop bb cs bits)
    (\<lambda>bits. repr bits (cat_width (map (eval I) (rev cs @ suf))) (cat_val (map (eval I) (rev cs @ suf))))"
  using assms
proof (induction cs arbitrary: bits suf)
  case (Cons n cs)
  then obtain v where n: "n \<in> T" "typeOf n = Some (BITVECTOR_TYPE v)" by auto
  then obtain a where a: "eval I n = VBV v a" by (auto elim: BV_value)
  have "valid (concatBB_loop bb cs (bits @ map ((!) c) [0..<getSize n]))
      (\<lambda>bits. repr bits (cat_width (map (eval I) (rev cs @ n # suf))) (cat_val (map (eval I) (rev cs @ n # suf))))"
    if c: "repr c v (v_int (eval I n))" for c
  proof -
    have "map ((!) c) [0..<getSize n] = c" using reprD(2) [OF c] n(2) map_nth [of c] by simp
    then have "repr (bits @ map ((!) c) [0..<getSize n]) (cat_width (map (eval I) (n # suf))) (cat_val (map (eval I) (n # suf)))"
      using repr_append [OF Cons.prems(2) c] a by (simp add: add.commute mult.commute)
    with Cons.IH [of "bits @ map ((!) c) [0..<getSize n]" "n # suf"] Cons.prems(1) show ?thesis by simp
  qed
  then have "valid (concatBB_loop bb (n # cs) bits)
      (\<lambda>bits. repr bits (cat_width (map (eval I) (rev cs @ n # suf))) (cat_val (map (eval I) (rev cs @ n # suf))))"
    unfolding concatBB_loop.simps by (rule valid_bind [OF valid_term [OF n]])
  then show ?case by (simp only: rev.simps append.assoc append_Cons append_Nil)
qed (simp add: valid_return)

lemma valid_DefaultConcatBB:
  assumes t: "typeOf (App BITVECTOR_CONCAT ns) = Some (BITVECTOR_TYPE w)" and T: "set ns \<subseteq> T"
  shows "valid (DefaultConcatBB (App BITVECTOR_CONCAT ns) bb)
    (\<lambda>bits. repr bits w (v_int (eval I (App BITVECTOR_CONCAT ns))))"
proof -
  from typeOf_concat [OF t] have typed: "\<forall>n\<in>set ns. \<exists>v. typeOf n = Some (BITVECTOR_TYPE v)"
    and w: "cat_width (map (eval I) ns) = w" using wf_I by (metis typeNode.inject)+
  have "v_int (eval I (App BITVECTOR_CONCAT ns)) = cat_val (map (eval I) ns)"
    using eval_concat [OF t wf_I] by simp
  then show ?thesis
    using valid_concat_loop [of "rev ns" "[]" "[]"] typed T w
    by (auto simp: DefaultConcatBB_def repr_def)
qed

lemma valid_DefaultConstBB:
  assumes t: "typeOf (CONST_BITVECTOR c) = Some (BITVECTOR_TYPE w)"
  shows "valid (DefaultConstBB G (CONST_BITVECTOR c) bb) (\<lambda>bits. repr bits w (v_int (eval I (CONST_BITVECTOR c))))"
proof -
  have c: "bv_wf c" "d_size c = w" using t by (auto simp: mk_bvtype_def split: if_splits)
  have bit: "d_value (BitVector_extract G c i i) = of_bool (bit (d_value c) i)" if "i < w" for i
    using extract_refines [OF c(1), of i i] that c(2)
    by (simp add: bvextract_def bit_iff_odd mod_2_eq_odd)
  have "repr (map (\<lambda>i. let b = d_value (BitVector_extract G c i i)
      in if b = 0 then mkFalse (tb_ops bb) else mkTrue (tb_ops bb)) [0..<w]) w (d_value c)"
    using c bit by (intro repr_eqI) (auto simp: bv_wf_def list_all_length Let_def)
  then show ?thesis
    unfolding DefaultConstBB_def getSize_typeOf [OF t] by (auto intro: valid_return)
qed

lemma valid_makeVariable:
  "typeOf n = Some (BITVECTOR_TYPE w) \<Longrightarrow>
    valid (DefaultVarBB n bb) (\<lambda>bits. repr bits w (v_int (eval I n)))"
  unfolding valid_def DefaultVarBB_def by (rule makeVariable_contract)

theorem valid_termStrategy:
  assumes t: "typeOf n = Some (BITVECTOR_TYPE w)" and sup: "\<And>k ns. n = App k ns \<Longrightarrow> \<not> bb_throws k"
    and T: "\<And>k ns. n = App k ns \<Longrightarrow> bb_recursive k \<Longrightarrow> set ns \<subseteq> T"
    and A: "\<And>k x y. n = App k [x, y] \<Longrightarrow> bb_shift k \<Longrightarrow> b_ult_a_size_node G n \<in> A"
  shows "valid (d_termBBStrategies G n bb) (\<lambda>bits. repr bits w (v_int (eval I n)))"
proof (cases n)
  case (App k ns)
  note t = t [unfolded App] and sup = sup [OF App] and T = T [OF App] and A = A [unfolded App]
  consider (var) "d_termBBStrategies G n bb = DefaultVarBB n bb" "\<not> bb_recursive k"
    | (bin) "bb_recursive k" "k \<in> {BITVECTOR_XNOR, BITVECTOR_COMP, BITVECTOR_SUB, BITVECTOR_UDIV_TOTAL,
        BITVECTOR_UREM_TOTAL, BITVECTOR_SHL, BITVECTOR_LSHR, BITVECTOR_ASHR, BITVECTOR_ULTBV, BITVECTOR_SLTBV}"
    | (nary) "bb_recursive k" "k \<in> {BITVECTOR_AND, BITVECTOR_OR, BITVECTOR_XOR, BITVECTOR_MULT,
        BITVECTOR_PLUS, BITVECTOR_CONCAT}"
    | (un) hi lo r where "bb_recursive k" "k \<in> {BITVECTOR_NOT, BITVECTOR_NEG, BITVECTOR_EXTRACT hi lo, BITVECTOR_SIGN_EXTEND r}"
    | (ite) "bb_recursive k" "k = BITVECTOR_ITE"
    using sup unfolding App by (cases k) (auto simp: d_termBBStrategies_def bb_recursive_def bb_throws_def)
  then show ?thesis
  proof cases
    case var
    then show ?thesis using valid_makeVariable t App by (simp del: eval.simps)
  next
    case bin
    with typeOf_arity2 [OF t] obtain x y where ns: "ns = [x, y]" by auto
    have xy: "x \<in> T" "y \<in> T" using T bin(1) ns by auto
    show ?thesis
      using bin(2) t xy A unfolding App ns
      by (auto simp: d_termBBStrategies_def bb_shift_def valid_DefaultXnorBB valid_DefaultCompBB
          valid_DefaultSubBB valid_DefaultUdivBB valid_DefaultUremBB valid_DefaultShlBB valid_DefaultLshrBB
          valid_DefaultAshrBB valid_DefaultUltbvBB valid_DefaultSltbvBB simp del: eval.simps)
  next
    case nary
    then show ?thesis
      using t T unfolding App
      by (auto simp: d_termBBStrategies_def valid_DefaultAndBB valid_DefaultOrBB valid_DefaultXorBB
          valid_DefaultMultBB valid_DefaultPlusBB valid_DefaultConcatBB simp del: eval.simps)
  next
    case un
    from typeOf_arity1 [OF t un(2)] obtain x where ns: "ns = [x]" .
    have "x \<in> T" using T un(1) ns by auto
    then show ?thesis
      using un(2) t unfolding App ns
      by (auto simp: d_termBBStrategies_def valid_DefaultNotBB valid_DefaultNegBB valid_DefaultExtractBB
          valid_DefaultSignExtendBB simp del: eval.simps)
  next
    case ite
    then obtain c x y where ns: "ns = [c, x, y]"
      using t by (auto simp: typeOf_App_iff type_op_mixed list_all2_Cons2)
    then show ?thesis
      using ite T t unfolding App
      by (auto simp: d_termBBStrategies_def simp del: eval.simps intro!: valid_DefaultIteBB)
  qed
qed (use t valid_makeVariable valid_DefaultConstBB in \<open>auto simp: d_termBBStrategies_def simp del: eval.simps\<close>)

subsection \<open>Atoms\<close>

lemma adderUlt_loop_carry:
  "length a = length b \<Longrightarrow> adderUlt_loop B' a b c = snd (rippleCarryAdder B' a b c)"
  by (induction a b arbitrary: c rule: list_induct2) (auto simp: Let_def split_beta)

text \<open>The comparison by subtraction agrees with the strategy in the table.\<close>

lemma valid_AdderUltBB:
  assumes t: "typeOf (App BITVECTOR_ULT [x, y]) = Some BOOLEAN_TYPE" and T: "x \<in> T" "y \<in> T"
  shows "valid (AdderUltBB (App BITVECTOR_ULT [x, y]) bb)
    (\<lambda>b. ok b \<and> sem b = v_bool (eval I (App BITVECTOR_ULT [x, y])))"
proof -
  obtain v where xy: "typeOf x = Some (BITVECTOR_TYPE v)" "typeOf y = Some (BITVECTOR_TYPE v)"
    using t by (auto simp: typeOf_short type_op_iffs)
  have "ok (mkNot (tb_ops bb) (adderUlt_loop (tb_ops bb) as (negateBits (tb_ops bb) bs) (mkTrue (tb_ops bb)))) \<and>
      sem (mkNot (tb_ops bb) (adderUlt_loop (tb_ops bb) as (negateBits (tb_ops bb) bs) (mkTrue (tb_ops bb)))) = (a < b)"
    if r: "repr as v a" "repr bs v b" for as bs a b
  proof -
    obtain res co where e: "rippleCarryAdder (tb_ops bb) as (negateBits (tb_ops bb) bs) (mkTrue (tb_ops bb)) = (res, co)"
      by fastforce
    have "length as = length (negateBits (tb_ops bb) bs)"
      using reprD(2) [OF r(1)] reprD(2) [OF r(2)] by (simp add: negateBits_def)
    then show ?thesis
      using adder_subtracts(2,3) [OF r e] e by (simp add: adderUlt_loop_carry not_le)
  qed
  then show ?thesis
    unfolding AdderUltBB_def Let_def using T by (auto intro!: valid_binary [OF xy] valid_return)
qed

theorem valid_atomStrategy:
  assumes t: "typeOf (App k [x, y]) = Some BOOLEAN_TYPE" and T: "x \<in> T" "y \<in> T"
    and k: "k \<in> {BITVECTOR_ULT, BITVECTOR_ULE, BITVECTOR_SLT, BITVECTOR_SLE} \<or>
      k = EQUAL \<and> typeOf x = Some (BITVECTOR_TYPE w)"
  shows "valid (d_atomBBStrategies (App k [x, y]) bb) (\<lambda>b. ok b \<and> sem b = v_bool (eval I (App k [x, y])))"
proof -
  obtain v where xy: "typeOf x = Some (BITVECTOR_TYPE v)" "typeOf y = Some (BITVECTOR_TYPE v)" and v: "0 < v"
    using t k by (auto simp: typeOf_short type_op_iffs type_op_mixed valid_width_def)
  note u = uLessThanBB_sem [OF _ _ v] and s = sLessThanBB_sem [OF _ _ v] and e = eqBits_sem [OF _ _ v]
  from k consider "k = BITVECTOR_ULT" | "k = BITVECTOR_ULE" | "k = BITVECTOR_SLT" | "k = BITVECTOR_SLE" | "k = EQUAL"
    by auto
  then show ?thesis
  proof cases
    case 1
    then show ?thesis
      using T u by (auto simp: d_atomBBStrategies_def DefaultUltBB_def intro!: valid_binary [OF xy] valid_return)
  next
    case 2
    then show ?thesis
      using T u by (auto simp: d_atomBBStrategies_def DefaultUleBB_def intro!: valid_binary [OF xy] valid_return)
  next
    case 3
    then show ?thesis
      using T s by (auto simp: d_atomBBStrategies_def DefaultSltBB_def intro!: valid_binary [OF xy] valid_return)
  next
    case 4
    then show ?thesis
      using T s by (auto simp: d_atomBBStrategies_def DefaultSleBB_def intro!: valid_binary [OF xy] valid_return)
  next
    case 5
    have "valid (sreturn (mkAnds (tb_ops bb) (iffBits (tb_ops bb) as bs))) (\<lambda>b. ok b \<and> sem b = (a = c))"
      if "repr as v a" "repr bs v c" for as bs a c
      using e [OF that] by (intro valid_return) (simp only:)
    with 5 T show ?thesis
      by (auto simp: d_atomBBStrategies_def DefaultEqBB_def intro!: valid_binary [OF xy])
  qed
qed

end

section \<open>Simulation between bit-blasters\<close>

text \<open>A computation simulates another one on the runs that end in a state with \<open>ok\<close>: whenever the first returns in such a state, it
  started in one and the second returns the same. The strategies only call the methods of their bit-blaster, so they simulate each
  other as soon as the methods do.\<close>

definition sexc_sim :: "('s \<Rightarrow> bool) \<Rightarrow> ('s, 'a) sexc \<Rightarrow> ('s, 'a) sexc \<Rightarrow> bool" where
  "sexc_sim ok m m' \<longleftrightarrow> (\<forall>st x st'. m st = Inr (x, st') \<longrightarrow> ok st' \<longrightarrow> ok st \<and> m' st = Inr (x, st'))"

lemma sexc_simD: "sexc_sim ok m m' \<Longrightarrow> m st = Inr (x, st') \<Longrightarrow> ok st' \<Longrightarrow> ok st \<and> m' st = Inr (x, st')"
  by (simp add: sexc_sim_def)

lemma sexc_sim_bind:
  assumes "sexc_sim ok m m'" and "\<And>x. sexc_sim ok (f x) (f' x)"
  shows "sexc_sim ok (sbind m f) (sbind m' f')"
  unfolding sexc_sim_def
proof (intro allI impI)
  fix st y st' assume run: "sbind m f st = Inr (y, st')" and ok: "ok st'"
  from run obtain x st1 where first: "m st = Inr (x, st1)" and rest: "f x st1 = Inr (y, st')"
    by (cases "m st") (auto simp: sbind_def)
  from sexc_simD [OF assms(2) rest ok] sexc_simD [OF assms(1) first]
  show "ok st \<and> sbind m' f' st = Inr (y, st')" by (simp add: sbind_def)
qed

lemma sexc_sim_return: "sexc_sim ok (sreturn x) (sreturn x)"
  by (simp add: sexc_sim_def sreturn_def)

lemma sexc_sim_throw: "sexc_sim ok (sthrow e) m"
  by (simp add: sexc_sim_def sthrow_def)

lemma sexc_sim_modify: "(\<And>st. ok (f st) \<Longrightarrow> ok st) \<Longrightarrow> sexc_sim ok (smodify f) (smodify f)"
  by (auto simp: sexc_sim_def smodify_def)

locale bitblaster_simulation =
  fixes bb bb' :: "('b, 's) tbitblaster" and ok :: "'s \<Rightarrow> bool"
  assumes same_ops: "tb_ops bb' = tb_ops bb" and same_atom: "getBBAtom bb' = getBBAtom bb" and same_store: "storeBBTerm bb' = storeBBTerm bb"
    and store_ok: "ok (storeBBTerm bb n bits st) \<Longrightarrow> ok st"
    and sim_term: "sexc_sim ok (bbTerm bb n) (bbTerm bb' n)"
    and sim_atom: "sexc_sim ok (bbAtom bb n) (bbAtom bb' n)"
    and sim_variable: "sexc_sim ok (makeVariable bb n) (makeVariable bb' n)"
begin

lemma sim_store: "sexc_sim ok (smodify (storeBBTerm bb n bits)) (smodify (storeBBTerm bb n bits))"
  by (rule sexc_sim_modify) (rule store_ok)

lemma sim_concat: "sexc_sim ok (concatBB_loop bb cs bits) (concatBB_loop bb' cs bits)"
  by (induction cs arbitrary: bits) (auto intro: sexc_sim_bind sexc_sim_return sim_term)

lemma sim_bitwise: "sexc_sim ok (bitwiseBB_loop bb f sz ns bits) (bitwiseBB_loop bb' f sz ns bits)"
  by (induction ns arbitrary: bits) (auto intro: sexc_sim_bind sexc_sim_return sim_term)

lemma sim_mult: "sexc_sim ok (multBB_loop bb ns res) (multBB_loop bb' ns res)"
  by (induction ns arbitrary: res) (auto simp: same_ops intro: sexc_sim_bind sexc_sim_return sim_term)

lemma sim_plus: "sexc_sim ok (plusBB_loop bb ns res) (plusBB_loop bb' ns res)"
  by (induction ns arbitrary: res) (auto simp: same_ops intro: sexc_sim_bind sexc_sim_return sim_term)

lemmas sim_rules = sexc_sim_bind sexc_sim_return sexc_sim_throw sim_term sim_atom sim_variable sim_store sim_concat sim_bitwise sim_mult
  sim_plus

lemma sim_atomStrategy: "sexc_sim ok (d_atomBBStrategies n bb) (d_atomBBStrategies n bb')"
proof (cases n)
  case (App k ns)
  show ?thesis unfolding App
    by (cases k) (simp_all add: d_atomBBStrategies_def UndefinedAtomBBStrategy_def DefaultEqBB_def DefaultUltBB_def DefaultUleBB_def
        DefaultUgtBB_def DefaultUgeBB_def DefaultSltBB_def DefaultSleBB_def DefaultSgtBB_def DefaultSgeBB_def same_ops sim_rules)
qed (simp_all add: d_atomBBStrategies_def UndefinedAtomBBStrategy_def sexc_sim_throw)

lemma sim_termStrategy: "sexc_sim ok (d_termBBStrategies G n bb) (d_termBBStrategies G n bb')"
proof (cases n)
  case (App k ns)
  show ?thesis unfolding App
    by (cases k) (simp_all add: d_termBBStrategies_def UndefinedTermBBStrategy_def DefaultVarBB_def DefaultNotBB_def DefaultConcatBB_def
        DefaultAndBB_def DefaultOrBB_def DefaultXorBB_def DefaultXnorBB_def DefaultNandBB_def DefaultNorBB_def DefaultCompBB_def
        DefaultMultBB_def DefaultPlusBB_def DefaultSubBB_def DefaultNegBB_def DefaultUdivBB_def DefaultUremBB_def DefaultShlBB_def
        DefaultLshrBB_def DefaultAshrBB_def DefaultUltbvBB_def DefaultSltbvBB_def DefaultIteBB_def DefaultExtractBB_def DefaultRepeatBB_def
        DefaultZeroExtendBB_def DefaultSignExtendBB_def DefaultRotateRightBB_def DefaultRotateLeftBB_def Let_def split_def
        same_ops same_atom same_store sim_rules)
qed (simp_all add: d_termBBStrategies_def DefaultConstBB_def DefaultVarBB_def same_ops sexc_sim_return sim_variable cong: if_cong)

end

end
