(* ===== verification/Rewriter_Soundness.thy ===== *)
theory Rewriter_Soundness
  imports Generic_Rewriter
begin

text \<open>
  The generic rewriter (\<open>src/src/theory/rewriter.cpp\<close>) with any theories: whatever sequence of theory rewriters it calls, when
  each of the recorded calls kept the meaning of its node, so does the result, and the caches hold only rewrites that keep the
  meaning. The stack of partly rebuilt nodes is related to the node the run started from by \<open>stack_means\<close>.
\<close>

section \<open>Calls and caches\<close>

definition call_sound :: "rewriter_env \<Rightarrow> bool \<Rightarrow> bool \<times> theoryId \<times> node \<Rightarrow> bool" where
  "call_sound E opt = (\<lambda>(pre, i, n). typeOf n \<noteq> None \<longrightarrow>
     response_sound opt n (if pre then callPreRewrite E i n else callPostRewrite E i n))"

definition caches_mean :: "bool \<Rightarrow> rewriter_state \<Rightarrow> bool" where
  "caches_mean opt st \<longleftrightarrow> (\<forall>i n c. typeOf n \<noteq> None \<longrightarrow>
     (getPreRewriteCache i n st = Some c \<longrightarrow> same_meaning opt c n) \<and> (getPostRewriteCache i n st = Some c \<longrightarrow> same_meaning opt c n))"

lemma caches_mean_logCall [simp]: "caches_mean opt (logCall b i n st) = caches_mean opt st"
  by (simp add: caches_mean_def logCall_def getPreRewriteCache_def getPostRewriteCache_def)

lemma caches_mean_calls [simp]: "caches_mean opt (st\<lparr>calls := cs\<rparr>) = caches_mean opt st"
  by (simp add: caches_mean_def getPreRewriteCache_def getPostRewriteCache_def)

lemma caches_mean_set:
  assumes "caches_mean opt st" and "same_meaning opt c n"
  shows "caches_mean opt (setPreRewriteCache i n c st)" and "caches_mean opt (setPostRewriteCache i n c st)"
  using assms by (simp_all add: caches_mean_def setPreRewriteCache_def setPostRewriteCache_def getPreRewriteCache_def
      getPostRewriteCache_def getCache_setCache)

lemma spend_frame:
  assumes "spend E st = (st', r)"
  shows "calls st' = calls st" and "caches_mean opt st \<Longrightarrow> caches_mean opt st'"
  using assms by (auto simp: spend_def caches_mean_def getPreRewriteCache_def getPostRewriteCache_def getCache_def
      clearCaches_def Let_def split: if_splits sum.splits prod.splits)

lemma calls_set [simp]:
  "calls (setPreRewriteCache i n c st) = calls st" "calls (setPostRewriteCache i n c st) = calls st"
  "calls (logCall b i n st) = calls st @ [(b, i, n)]"
  by (simp_all add: setPreRewriteCache_def setPostRewriteCache_def logCall_def)

text \<open>A run records its calls; if they keep the meaning, its result has the meaning of the given node.\<close>

definition pre_means :: "bool \<Rightarrow> rewriter_env \<Rightarrow> node \<Rightarrow> rewriter_state \<Rightarrow> rewriter_state \<times> (theoryId \<times> node) exc \<Rightarrow> bool" where
  "pre_means opt E n st y \<longleftrightarrow> (\<exists>cs. fst y = st\<lparr>calls := calls st @ cs\<rparr> \<and>
     (list_all (call_sound E opt) cs \<longrightarrow> typeOf n \<noteq> None \<longrightarrow> (\<forall>j m. snd y = Inr (j, m) \<longrightarrow> same_meaning opt m n)))"

lemma pre_means_log:
  assumes "call_sound E opt (True, i, n) \<Longrightarrow> typeOf n \<noteq> None \<Longrightarrow> same_meaning opt m n"
    and "pre_means opt E m (logCall True i n st) y"
  shows "pre_means opt E n st y"
proof -
  from assms(2) obtain cs where cs: "fst y = logCall True i n st\<lparr>calls := calls (logCall True i n st) @ cs\<rparr>"
    "list_all (call_sound E opt) cs \<longrightarrow> typeOf m \<noteq> None \<longrightarrow> (\<forall>j l. snd y = Inr (j, l) \<longrightarrow> same_meaning opt l m)"
    by (auto simp: pre_means_def)
  have "same_meaning opt l n" if "list_all (call_sound E opt) ((True, i, n) # cs)" "typeOf n \<noteq> None" "snd y = Inr (j, l)" for j l
  proof -
    have m: "same_meaning opt m n" using assms(1) that(1,2) by simp
    then have "typeOf m \<noteq> None" using that(2) by (simp add: same_meaning_def)
    with cs(2) that have "same_meaning opt l m" by simp
    then show ?thesis using m by (rule same_meaning_trans)
  qed
  then show ?thesis
    unfolding pre_means_def using cs(1) by (intro exI [of _ "(True, i, n) # cs"]) (simp add: logCall_def)
qed

lemma pre_means_end:
  "(\<And>j m. r = Inr (j, m) \<Longrightarrow> call_sound E opt (True, i, n) \<Longrightarrow> typeOf n \<noteq> None \<Longrightarrow> same_meaning opt m n) \<Longrightarrow>
    pre_means opt E n st (logCall True i n st, r)"
  unfolding pre_means_def by (intro exI [of _ "[(True, i, n)]"]) (simp add: logCall_def)

lemma preRewrite_loop_means: "preRewrite_loop E i n st = Some y \<Longrightarrow> pre_means opt E n st y"
proof (induction E i n st y rule: preRewrite_loop.raw_induct [rotated 1, consumes 1])
  case (1 run E i n st y)
  show ?case
  proof (cases "callPreRewrite E i n")
    case (Inl e)
    then show ?thesis using 1(2) by (auto intro!: pre_means_end)
  next
    case (Inr response)
    have sound: "same_meaning opt (rnode response) n" if "call_sound E opt (True, i, n)" "typeOf n \<noteq> None"
      using that Inr by (auto simp: call_sound_def response_sound_def)
    show ?thesis
    proof (cases "ownerOf E (rnode response)")
      case (Inl e)
      then show ?thesis using 1(2) Inr by (auto intro!: pre_means_end)
    next
      case owner: (Inr j)
      show ?thesis
      proof (cases "j = i \<and> status response = REWRITE_DONE")
        case True
        then have y: "y = (logCall True i n st, Inr (i, rnode response))" using 1(2) Inr owner by auto
        show ?thesis unfolding y
        proof (rule pre_means_end)
          fix k m assume "Inr (i, rnode response) = (Inr (k, m) :: (theoryId \<times> node) exc)" "call_sound E opt (True, i, n)" "typeOf n \<noteq> None"
          then show "same_meaning opt m n" using sound by blast
        qed
      next
        case False
        then have "run E j (rnode response) (logCall True i n st) = Some y" using 1(2) Inr owner by auto
        from pre_means_log [OF sound 1(1) [OF this]] show ?thesis .
      qed
    qed
  qed
qed

section \<open>The stack\<close>

text \<open>The top of the stack has been pre-rewritten, or not, and rewrites of the children before \<open>el_nextChild\<close> are collected;
  \<open>x\<close> is the node the element was pushed for.\<close>

definition top_means :: "bool \<Rightarrow> stack_element \<Rightarrow> node \<Rightarrow> bool" where
  "top_means opt el x \<longleftrightarrow> typeOf x \<noteq> None \<and> same_meaning opt (el_node el) x \<and> same_meaning opt (el_original el) x \<and>
     el_nextChild el \<le> length (children (el_node el)) \<and>
     list_all2 (same_meaning opt) (el_children el) (take (el_nextChild el) (children (el_node el))) \<and>
     (if el_nextChild el = 0 then el_original el = x \<and> el_node el = x
      else el_original el = el_node el \<and> el_kind el = Some (appKind (el_node el)))"

text \<open>The elements below the top: \<open>y\<close> is the child the element above was pushed for.\<close>

fun stack_means :: "bool \<Rightarrow> node \<Rightarrow> stack_element list \<Rightarrow> node \<Rightarrow> bool" where
  "stack_means opt y [] x \<longleftrightarrow> y = x"
| "stack_means opt y (p # ps) x \<longleftrightarrow>
     (\<exists>z. stack_means opt z ps x \<and>
       (\<forall>m. same_meaning opt m y \<longrightarrow> top_means opt (p\<lparr>el_children := el_children p @ [m]\<rparr>) z))"

fun task_means :: "bool \<Rightarrow> rewriter_task \<Rightarrow> node \<Rightarrow> bool" where
  "task_means opt (RewriteTo i n) x \<longleftrightarrow> n = x \<and> typeOf x \<noteq> None"
| "task_means opt (PostRewrite i n) x \<longleftrightarrow> n = x \<and> typeOf x \<noteq> None"
| "task_means opt (Loop []) x \<longleftrightarrow> False"
| "task_means opt (Loop (el # rest)) x \<longleftrightarrow> (\<exists>y. top_means opt el y \<and> stack_means opt y rest x)"

definition logged :: "rewriter_env \<Rightarrow> bool \<Rightarrow> rewriter_state \<Rightarrow> bool" where
  "logged E opt st \<longleftrightarrow> list_all (call_sound E opt) (calls st)"

definition grows :: "rewriter_state \<Rightarrow> rewriter_state \<Rightarrow> bool" where
  "grows st st' \<longleftrightarrow> set (calls st) \<subseteq> set (calls st')"

lemma grows_trans: "grows st st' \<Longrightarrow> grows st' st'' \<Longrightarrow> grows st st''"
  by (auto simp: grows_def)

lemma grows_refl [simp]: "grows st st" "grows st (logCall b i n st)" "grows st (setPostRewriteCache i n c st)"
  by (auto simp: grows_def)

lemma logged_mono: "grows st st' \<Longrightarrow> logged E opt st' \<Longrightarrow> logged E opt st"
  by (auto simp: logged_def grows_def list_all_iff)

definition run_means :: "bool \<Rightarrow> rewriter_env \<Rightarrow> rewriter_task \<Rightarrow> rewriter_state \<Rightarrow> rewriter_state \<times> node exc \<Rightarrow> bool" where
  "run_means opt E task st y \<longleftrightarrow> grows st (fst y) \<and>
     (\<forall>x. logged E opt (fst y) \<longrightarrow> caches_mean opt st \<longrightarrow> task_means opt task x \<longrightarrow>
        caches_mean opt (fst y) \<and> (\<forall>m. snd y = Inr m \<longrightarrow> same_meaning opt m x))"

lemma run_meansD:
  assumes "run_means opt E task st y"
  shows "grows st (fst y)" and "logged E opt (fst y) \<Longrightarrow> caches_mean opt st \<Longrightarrow> task_means opt task x \<Longrightarrow> caches_mean opt (fst y)"
    and "logged E opt (fst y) \<Longrightarrow> caches_mean opt st \<Longrightarrow> task_means opt task x \<Longrightarrow> snd y = Inr m \<Longrightarrow> same_meaning opt m x"
  using assms by (auto simp: run_means_def)

text \<open>A run that goes on as another one, on a node of the same meaning.\<close>

lemma run_means_step:
  assumes "grows st st'" and "run_means opt E task' st' y"
    and "\<And>x. logged E opt (fst y) \<Longrightarrow> caches_mean opt st \<Longrightarrow> task_means opt task x \<Longrightarrow>
      caches_mean opt st' \<and> (\<exists>x'. task_means opt task' x' \<and> same_meaning opt x' x)"
  shows "run_means opt E task st y"
proof -
  have "caches_mean opt (fst y) \<and> (\<forall>m. snd y = Inr m \<longrightarrow> same_meaning opt m x)"
    if "logged E opt (fst y)" "caches_mean opt st" "task_means opt task x" for x
    using assms(3) [OF that] run_meansD(2,3) [OF assms(2) that(1)] same_meaning_trans by blast
  moreover have "grows st (fst y)" using assms(1) run_meansD(1) [OF assms(2)] by (rule grows_trans)
  ultimately show ?thesis by (simp add: run_means_def)
qed

lemma run_means_end:
  assumes "grows st (fst y)" and "\<And>x. logged E opt (fst y) \<Longrightarrow> caches_mean opt st \<Longrightarrow> task_means opt task x \<Longrightarrow>
      caches_mean opt (fst y) \<and> (\<forall>m. snd y = Inr m \<longrightarrow> same_meaning opt m x)"
  shows "run_means opt E task st y"
  using assms by (simp add: run_means_def)

section \<open>The tasks\<close>

lemma RewriteTo_means:
  assumes "\<And>task st y. run task st = Some y \<Longrightarrow> run_means opt E task st y"
    and "(case getPostRewriteCache i n st of Some cached \<Rightarrow> Some (st, Inr cached) | None \<Rightarrow> run (Loop [RewriteStackElement n i]) st) = Some y"
  shows "run_means opt E (RewriteTo i n) st y"
proof (cases "getPostRewriteCache i n st")
  case None
  then have "run (Loop [RewriteStackElement n i]) st = Some y" using assms(2) by simp
  from assms(1) [OF this] show ?thesis
    by (rule run_means_step [rotated 1]) (auto simp: top_means_def RewriteStackElement_def)
next
  case (Some c)
  then have "y = (st, Inr c)" using assms(2) by simp
  then show ?thesis using Some by (intro run_means_end) (auto simp: caches_mean_def)
qed

lemma PostRewrite_means:
  assumes "\<And>task st y. run task st = Some y \<Longrightarrow> run_means opt E task st y"
    and "(let st = logCall False i n st
           in case callPostRewrite E i n of
                Inl e \<Rightarrow> Some (st, Inl e)
              | Inr response \<Rightarrow>
                  (case ownerOf E (rnode response) of
                     Inl e \<Rightarrow> Some (st, Inl e)
                   | Inr newTheoryId \<Rightarrow>
                       if newTheoryId \<noteq> i \<or> status response = REWRITE_AGAIN_FULL
                       then run (RewriteTo newTheoryId (rnode response)) st
                       else if status response = REWRITE_DONE then Some (st, Inr (rnode response))
                       else run (PostRewrite i (rnode response)) st)) = Some y"
  shows "run_means opt E (PostRewrite i n) st y"
proof -
  let ?st = "logCall False i n st"
  have error: "run_means opt E (PostRewrite i n) st (?st, Inl e)" for e
    by (rule run_means_end) simp_all
  show ?thesis
  proof (cases "callPostRewrite E i n")
    case (Inl e)
    then show ?thesis using assms(2) error by auto
  next
    case (Inr response)
    have sound: "same_meaning opt (rnode response) n \<and> typeOf (rnode response) \<noteq> None" if "logged E opt st'" "grows ?st st'" "typeOf n \<noteq> None" for st'
    proof -
      have "call_sound E opt (False, i, n)" using logged_mono [OF that(2,1)] by (simp add: logged_def)
      then have "same_meaning opt (rnode response) n" using that(3) Inr by (auto simp: call_sound_def response_sound_def)
      then show ?thesis using that(3) by (simp add: same_meaning_def)
    qed
    have continued: "run_means opt E (PostRewrite i n) st y" if "run task ?st = Some y"
      "\<And>x. task_means opt task x \<longleftrightarrow> rnode response = x \<and> typeOf x \<noteq> None" for task
      using assms(1) [OF that(1)]
      by (rule run_means_step [rotated 1]) (use sound run_meansD(1) [OF assms(1) [OF that(1)]] in \<open>auto simp: that(2)\<close>)
    have final: "run_means opt E (PostRewrite i n) st (?st, Inr (rnode response))"
      by (rule run_means_end) (use sound [of ?st] in auto)
    show ?thesis
      using assms(2) Inr error final continued by (auto simp: Let_def split: sum.splits if_splits)
  qed
qed

text \<open>The pre-rewrite of the top; afterwards \<open>el_original\<close> is the node whose rewrite will be cached.\<close>

definition pre_done :: "bool \<Rightarrow> stack_element \<Rightarrow> node \<Rightarrow> bool" where
  "pre_done opt el x \<longleftrightarrow> typeOf x \<noteq> None \<and> same_meaning opt (el_node el) x \<and> el_original el = el_node el \<and>
     el_nextChild el \<le> length (children (el_node el)) \<and>
     list_all2 (same_meaning opt) (el_children el) (take (el_nextChild el) (children (el_node el))) \<and>
     (el_nextChild el > 0 \<longrightarrow> el_kind el = Some (appKind (el_node el)))"

lemma preRewrite_top_means:
  assumes "preRewrite_top E el st = Some (st', r)"
  shows "grows st st'" and "logged E opt st' \<Longrightarrow> caches_mean opt st \<Longrightarrow> top_means opt el x \<Longrightarrow>
    caches_mean opt st' \<and> (\<forall>el'. r = Inr el' \<longrightarrow> pre_done opt el' x)"
proof -
  have "grows st st' \<and> (logged E opt st' \<longrightarrow> caches_mean opt st \<longrightarrow> top_means opt el x \<longrightarrow>
    caches_mean opt st' \<and> (\<forall>el'. r = Inr el' \<longrightarrow> pre_done opt el' x))"
  proof (cases "el_nextChild el = 0")
    case False
    then show ?thesis using assms by (auto simp: preRewrite_top_def top_means_def pre_done_def)
  next
    case first: True
    show ?thesis
    proof (cases "getPreRewriteCache (el_theoryId el) (el_node el) st")
      case (Some c)
      then show ?thesis using assms first
        by (auto simp: preRewrite_top_def top_means_def pre_done_def caches_mean_def split: sum.splits)
    next
      case None
      then obtain st1 r1 where run: "preRewrite_loop E (el_theoryId el) (el_node el) st = Some (st1, r1)"
        using assms first by (cases "preRewrite_loop E (el_theoryId el) (el_node el) st") (auto simp: preRewrite_top_def)
      have rest: "(st', r) = (case r1 of Inl e \<Rightarrow> (st1, Inl e) | Inr (i, n) \<Rightarrow>
            (setPreRewriteCache (el_originalTheoryId el) (el_original el) n st1, Inr (el\<lparr>el_node := n, el_theoryId := i, el_original := n\<rparr>)))"
        using assms first None run by (cases r1) (auto simp: preRewrite_top_def split: prod.splits)
      from preRewrite_loop_means [OF run, of opt] obtain cs where cs: "st1 = st\<lparr>calls := calls st @ cs\<rparr>"
        "list_all (call_sound E opt) cs \<longrightarrow> typeOf (el_node el) \<noteq> None \<longrightarrow> (\<forall>j m. r1 = Inr (j, m) \<longrightarrow> same_meaning opt m (el_node el))"
        by (auto simp: pre_means_def)
      have calls: "calls st' = calls st @ cs" using rest cs(1) by (auto split: sum.splits prod.splits)
      have "caches_mean opt st' \<and> (\<forall>el'. r = Inr el' \<longrightarrow> pre_done opt el' x)"
        if "logged E opt st'" "caches_mean opt st" "top_means opt el x"
      proof -
        have x: "typeOf x \<noteq> None" "el_node el = x" "el_original el = x" "el_children el = []" using that(3) first by (auto simp: top_means_def)
        have c: "caches_mean opt st1" using cs(1) that(2) by simp
        have m: "same_meaning opt m x" if "r1 = Inr (j, m)" for j m
          using cs(2) x that \<open>logged E opt st'\<close> by (simp add: logged_def calls)
        show ?thesis
        proof (cases r1)
          case (Inl e)
          then show ?thesis using rest c by simp
        next
          case (Inr p)
          then obtain j n where p: "r1 = Inr (j, n)" by (cases p) simp
          then show ?thesis using rest x first caches_mean_set(1) [OF c, of n x] m [OF p] by (auto simp: pre_done_def)
        qed
      qed
      then show ?thesis using calls by (simp add: grows_def)
    qed
  qed
  then show "grows st st'" "logged E opt st' \<Longrightarrow> caches_mean opt st \<Longrightarrow> top_means opt el x \<Longrightarrow>
    caches_mean opt st' \<and> (\<forall>el'. r = Inr el' \<longrightarrow> pre_done opt el' x)" by blast+
qed

lemma incorporate_means:
  assumes "pre_done opt el x" and "length (children (el_node el)) \<le> el_nextChild el" and "incorporateChildren E (takeChild el) = Inr el'"
  shows "same_meaning opt (el_node el') (el_node el) \<and> el_original el' = el_node el"
proof (cases "el_node el")
  case (App k ns)
  have cs: "list_all2 (same_meaning opt) (el_children el) ns" "el_original el = el_node el" using assms(1,2) App by (simp_all add: pre_done_def)
  show ?thesis
  proof (cases "ns = []")
    case True
    then show ?thesis using assms(3) cs(2) App by (auto simp: incorporateChildren_def)
  next
    case False
    then have "el_kind (takeChild el) = Some k"
      using assms(1,2) App by (auto simp: takeChild_def Let_def pre_done_def appKind_def)
    then show ?thesis using assms(3) cs False App same_meaning_App [OF cs(1), of k]
      by (auto simp: incorporateChildren_def Let_def)
  qed
qed (use assms in \<open>auto simp: incorporateChildren_def pre_done_def\<close>)

text \<open>The end of an element: the cached rewrite, or the post-rewrite of the rebuilt node.\<close>

lemma finishTop_means:
  assumes IH: "\<And>task st y. run task st = Some y \<Longrightarrow> run_means opt E task st y"
    and finish: "finishTop run E el st = Some (st', r)"
    and complete: "getPostRewriteCache (el_theoryId el) (el_node el) st = None \<Longrightarrow> length (children (el_node el)) \<le> el_nextChild el"
  shows "grows st st' \<and> (logged E opt st' \<longrightarrow> caches_mean opt st \<longrightarrow> pre_done opt el x \<longrightarrow>
    caches_mean opt st' \<and> (\<forall>m. r = Inr m \<longrightarrow> same_meaning opt m x))"
proof (cases "getPostRewriteCache (el_theoryId el) (el_node el) st")
  case (Some c)
  have "same_meaning opt c x" if "caches_mean opt st" "pre_done opt el x"
  proof -
    have n: "same_meaning opt (el_node el) x" "typeOf (el_node el) \<noteq> None" using that(2) by (auto simp: pre_done_def same_meaning_def)
    then have "same_meaning opt c (el_node el)" using that(1) Some by (simp add: caches_mean_def)
    then show ?thesis using n(1) by (rule same_meaning_trans)
  qed
  then show ?thesis using finish Some by (auto simp: finishTop_def)
next
  case None
  show ?thesis
  proof (cases "incorporateChildren E (takeChild el)")
    case (Inl e)
    then show ?thesis using finish None by (auto simp: finishTop_def)
  next
    case (Inr el')
    obtain st1 r1 where post: "run (PostRewrite (el_theoryId el') (el_node el')) st = Some (st1, r1)"
      using finish None Inr by (cases "run (PostRewrite (el_theoryId el') (el_node el')) st") (auto simp: finishTop_def)
    have rest: "(st', r) = (case r1 of Inl e \<Rightarrow> (st1, Inl e) | Inr n \<Rightarrow> (setPostRewriteCache (el_originalTheoryId el') (el_original el') n st1, Inr n))"
      using finish None Inr post by (cases r1) (auto simp: finishTop_def)
    note means = run_meansD [OF IH [OF post]]
    have grow: "grows st1 st'" "logged E opt st' \<Longrightarrow> logged E opt st1" using rest by (auto simp: logged_def split: sum.splits)
    have "caches_mean opt st' \<and> (\<forall>m. r = Inr m \<longrightarrow> same_meaning opt m x)"
      if "logged E opt st'" "caches_mean opt st" "pre_done opt el x"
    proof -
      have n: "same_meaning opt (el_node el) x" "el_original el = el_node el" "typeOf x \<noteq> None" using that(3) by (simp_all add: pre_done_def)
      have rebuilt: "same_meaning opt (el_node el') (el_node el) \<and> el_original el' = el_node el"
        using Inr incorporate_means [OF that(3)] complete [OF None] by simp
      then have "typeOf (el_node el') \<noteq> None" using n by (simp add: same_meaning_def)
      then have task: "task_means opt (PostRewrite (el_theoryId el') (el_node el')) (el_node el')" by simp
      have 1: "caches_mean opt st1" using means(2) [OF _ that(2) task] grow(2) [OF that(1)] by simp
      have 2: "same_meaning opt m (el_node el)" if "r1 = Inr m" for m
        using means(3) [OF _ _ task] grow(2) \<open>logged E opt st'\<close> \<open>caches_mean opt st\<close> that rebuilt same_meaning_trans by auto
      show ?thesis
      proof (cases r1)
        case (Inl e)
        then show ?thesis using rest 1 by simp
      next
        case (Inr m)
        then show ?thesis using rest caches_mean_set(2) [OF 1 2 [OF Inr]] rebuilt same_meaning_trans [OF 2 [OF Inr] n(1)] by simp
      qed
    qed
    then show ?thesis using grows_trans [OF means(1)] grow(1) by simp
  qed
qed

lemma top_means_parent:
  assumes "pre_done opt el x" and "el_nextChild el < length (children (el_node el))" and "same_meaning opt m (children (el_node el) ! el_nextChild el)"
  shows "top_means opt (takeChild el\<lparr>el_children := el_children (takeChild el) @ [m]\<rparr>) x"
  using assms
  by (auto simp: top_means_def pre_done_def takeChild_def Let_def take_Suc_conv_app_nth intro!: list_all2_appendI)

lemma child_typed:
  assumes "pre_done opt el x" and "el_nextChild el < length (children (el_node el))"
  shows "typeOf (children (el_node el) ! el_nextChild el) \<noteq> None"
proof -
  obtain t where "typeOf (el_node el) = Some t" using assms(1) by (auto simp: pre_done_def same_meaning_def)
  then show ?thesis using assms(2) typed_children by (cases "el_node el") fastforce+
qed

lemma afterPre_means:
  assumes IH: "\<And>task st y. run task st = Some y \<Longrightarrow> run_means opt E task st y"
    and after: "afterPre run E el1 rest st1 = Some y" and g: "grows st st1"
    and el1: "\<And>z. logged E opt st1 \<Longrightarrow> caches_mean opt st \<Longrightarrow> top_means opt el z \<Longrightarrow> caches_mean opt st1 \<and> pre_done opt el1 z"
  shows "run_means opt E (Loop (el # rest)) st y"
proof (cases "getPostRewriteCache (el_theoryId el1) (el_node el1) st1 = None \<and> el_nextChild el1 < length (children (el_node el1))")
  case True
  let ?c = "children (el_node el1) ! el_nextChild el1"
  have down: "descend run E el1 rest st1 = Some y" using after True by (simp add: afterPre_def)
  show ?thesis
  proof (cases "ownerOf E ?c")
    case (Inl e)
    then have "y = (st1, Inl e)" using down by (simp add: descend_def)
    then show ?thesis using g el1 by (intro run_means_end) auto
  next
    case (Inr i)
    then have "run (Loop (RewriteStackElement ?c i # takeChild el1 # rest)) st1 = Some y" using down by (simp add: descend_def)
    note means = IH [OF this]
    show ?thesis
    proof (rule run_means_step [OF g means])
      fix x assume l: "logged E opt (fst y)" and c: "caches_mean opt st" and t: "task_means opt (Loop (el # rest)) x"
      then obtain z where z: "top_means opt el z" "stack_means opt z rest x" by auto
      have el: "caches_mean opt st1 \<and> pre_done opt el1 z" using el1 [OF logged_mono [OF run_meansD(1) [OF means] l] c z(1)] .
      have "top_means opt (RewriteStackElement ?c i) ?c" using child_typed el True by (auto simp: top_means_def RewriteStackElement_def)
      moreover have "stack_means opt ?c (takeChild el1 # rest) x" using z(2) top_means_parent el True by auto
      ultimately have "task_means opt (Loop (RewriteStackElement ?c i # takeChild el1 # rest)) x" unfolding task_means.simps by blast
      then show "caches_mean opt st1 \<and> (\<exists>x'. task_means opt (Loop (RewriteStackElement ?c i # takeChild el1 # rest)) x' \<and> same_meaning opt x' x)"
        using el same_meaning_refl by blast
    qed
  qed
next
  case False
  then obtain st2 r2 where finish: "finishTop run E el1 st1 = Some (st2, r2)"
    using after by (cases "finishTop run E el1 st1") (auto simp: afterPre_def)
  have complete: "getPostRewriteCache (el_theoryId el1) (el_node el1) st1 = None \<Longrightarrow> length (children (el_node el1)) \<le> el_nextChild el1" using False by auto
  note fin = finishTop_means [OF IH finish complete]
  have g2: "grows st st2" using g fin grows_trans by blast
  have sound: "caches_mean opt st2 \<and> (\<forall>m. r2 = Inr m \<longrightarrow> same_meaning opt m z)"
    if "logged E opt st2" "caches_mean opt st" "top_means opt el z" for z
    using fin [of z] el1 [OF logged_mono [of st1 st2, OF _ that(1)] that(2,3)] that(1) by blast
  have rest_run: "(case r2 of Inl e \<Rightarrow> Some (st2, Inl e) | Inr n \<Rightarrow> continue run rest st2 n) = Some y"
    using after False finish by (simp add: afterPre_def)
  show ?thesis
  proof (cases "r2")
    case (Inl e)
    then show ?thesis using rest_run g2 sound by (intro run_means_end) auto
  next
    case (Inr n)
    show ?thesis
    proof (cases rest)
      case Nil
      then have "y = (st2, Inr n)" using rest_run Inr by (simp add: continue_def)
      then show ?thesis using g2 sound Inr Nil by (intro run_means_end) auto
    next
      case (Cons p ps)
      then have "run (Loop (p\<lparr>el_children := el_children p @ [n]\<rparr> # ps)) st2 = Some y" using rest_run Inr by (simp add: continue_def)
      note means = IH [OF this]
      show ?thesis
      proof (rule run_means_step [OF g2 means])
        fix x assume l: "logged E opt (fst y)" and c: "caches_mean opt st" and t: "task_means opt (Loop (el # rest)) x"
        then obtain z where z: "top_means opt el z" "stack_means opt z rest x" by auto
        have n: "caches_mean opt st2 \<and> same_meaning opt n z" using sound [OF logged_mono [OF run_meansD(1) [OF means] l] c z(1)] Inr by simp
        then have "task_means opt (Loop (p\<lparr>el_children := el_children p @ [n]\<rparr> # ps)) x" using z(2) Cons by auto
        then show "caches_mean opt st2 \<and> (\<exists>x'. task_means opt (Loop (p\<lparr>el_children := el_children p @ [n]\<rparr> # ps)) x' \<and> same_meaning opt x' x)"
          using n same_meaning_refl by blast
      qed
    qed
  qed
qed

lemma Loop_means:
  assumes IH: "\<And>task st y. run task st = Some y \<Longrightarrow> run_means opt E task st y"
    and loop: "(case spend E st of
        (st, Inl e) \<Rightarrow> Some (st, Inl e)
      | (st, Inr u) \<Rightarrow>
          Option.bind (preRewrite_top E el st) (\<lambda>(st, r). case r of Inl e \<Rightarrow> Some (st, Inl e) | Inr el \<Rightarrow> afterPre run E el rest st)) = Some y"
  shows "run_means opt E (Loop (el # rest)) st y"
proof -
  obtain st0 r0 where spend: "spend E st = (st0, r0)" by fastforce
  note frame = spend_frame [OF spend]
  have g0: "grows st st0" using frame(1) by (simp add: grows_def)
  show ?thesis
  proof (cases r0)
    case (Inl e)
    then show ?thesis using loop spend frame(2) g0 by (intro run_means_end) auto
  next
    case (Inr u)
    obtain st1 r1 where pre: "preRewrite_top E el st0 = Some (st1, r1)"
      using loop spend Inr by (cases "preRewrite_top E el st0") auto
    note g1 = preRewrite_top_means(1) [OF pre] and pre_sound = preRewrite_top_means(2) [OF pre, of opt]
    have g: "grows st st1" using g0 g1 by (rule grows_trans)
    show ?thesis
    proof (cases r1)
      case (Inl e)
      then have "y = (st1, Inl e)" using loop spend Inr pre \<open>r0 = Inr u\<close> by simp
      then show ?thesis using g frame(2) pre_sound by (intro run_means_end) auto
    next
      case top: (Inr el1)
      then have after: "afterPre run E el1 rest st1 = Some y" using loop spend pre \<open>r0 = Inr u\<close> by simp
      have el1: "caches_mean opt st1 \<and> pre_done opt el1 z" if "logged E opt st1" "caches_mean opt st" "top_means opt el z" for z
        using pre_sound [OF that(1) frame(2) [OF that(2)] that(3)] top by simp
      show ?thesis using afterPre_means [OF IH after g el1] .
    qed
  qed
qed

lemma rewriter_run_means: "rewriter_run E task st = Some y \<Longrightarrow> run_means opt E task st y"
proof (induction E task st y rule: rewriter_run.raw_induct [rotated 1, consumes 1])
  case (1 run E task st y)
  show ?case
  proof (cases task)
    case (RewriteTo i n)
    show ?thesis unfolding RewriteTo by (rule RewriteTo_means [of "run E", OF 1(1)]) (use 1(2) RewriteTo in simp_all)
  next
    case (PostRewrite i n)
    show ?thesis unfolding PostRewrite by (rule PostRewrite_means [of "run E", OF 1(1)]) (use 1(2) PostRewrite in simp_all)
  next
    case (Loop stack)
    have means: "run_means opt E (Loop (hd stack # tl stack)) st y"
      by (rule Loop_means [of "run E", OF 1(1)])
        (use 1(2) in \<open>simp_all only: Loop rewriter_task.case list.sel Let_def afterPre_def descend_def finishTop_def continue_def\<close>)
    show ?thesis
    proof (cases stack)
      case Nil
      then show ?thesis using run_meansD(1) [OF means] Loop by (intro run_means_end) simp_all
    next
      case (Cons el rest)
      then show ?thesis using means Loop by simp
    qed
  qed
qed

section \<open>Rewriting keeps the meaning\<close>

lemma rewrite_means:
  assumes "rewrite E n st = Some (st', r)"
  shows "grows st st'" and "logged E opt st' \<Longrightarrow> caches_mean opt st \<Longrightarrow> typeOf n \<noteq> None \<Longrightarrow> caches_mean opt st'"
    and "logged E opt st' \<Longrightarrow> caches_mean opt st \<Longrightarrow> typeOf n \<noteq> None \<Longrightarrow> r = Inr m \<Longrightarrow> same_meaning opt m n"
proof -
  have "run_means opt E (RewriteTo THEORY_BUILTIN n) st (st', r)"
  proof (cases "ownerOf E n")
    case (Inl e)
    then show ?thesis using assms by (intro run_means_end) (auto simp: rewrite_def)
  next
    case (Inr i)
    then have "rewriter_run E (RewriteTo i n) st = Some (st', r)" using assms by (simp add: rewrite_def)
    from rewriter_run_means [OF this, of opt] show ?thesis by (simp add: run_means_def)
  qed
  from run_meansD(1) [OF this] run_meansD(2,3) [OF this, of n] show "grows st st'" "logged E opt st' \<Longrightarrow> caches_mean opt st \<Longrightarrow> typeOf n \<noteq> None \<Longrightarrow> caches_mean opt st'"
    "logged E opt st' \<Longrightarrow> caches_mean opt st \<Longrightarrow> typeOf n \<noteq> None \<Longrightarrow> r = Inr m \<Longrightarrow> same_meaning opt m n" by auto
qed

lemma rewrite_all_means:
  assumes "rewrite_all E ns st = Some (st', rs)"
  shows "grows st st' \<and> (logged E opt st' \<longrightarrow> caches_mean opt st \<longrightarrow> list_all (\<lambda>n. typeOf n \<noteq> None) ns \<longrightarrow>
    caches_mean opt st' \<and> list_all2 (\<lambda>n r. \<forall>m. r = Inr m \<longrightarrow> same_meaning opt m n) ns rs)"
  using assms
proof (induction ns arbitrary: st rs)
  case (Cons n ns)
  then obtain st1 r qs where r: "rewrite E n st = Some (st1, r)" "rewrite_all E ns st1 = Some (st', qs)" "rs = r # qs"
    by (auto simp: bind_eq_Some_conv)
  note first = rewrite_means [OF r(1)] and rest = Cons.IH [OF r(2)]
  show ?case using first(2,3) [of opt] rest logged_mono [of st1 st' E opt] grows_trans [OF first(1)] r(3) by auto
qed simp

lemma caches_mean_new: "caches_mean opt (new_rewriter rm)"
  by (simp add: caches_mean_def new_rewriter_def getPreRewriteCache_def getPostRewriteCache_def getCache_def)

section \<open>The theories\<close>

lemma table_responses_sound:
  assumes "gmp_documented (rw_gmp R)" and "\<And>a b. \<not> rw_less R a b \<Longrightarrow> \<not> rw_less R b a \<Longrightarrow> a = b" and "\<And>m. mset (rw_iter R m) = mset m"
    and "typeOf n = Some t" and "narrow n" and "hasKind EQUAL n \<Longrightarrow> bv_typed (children n ! 0)"
    and "\<And>m. hasKind BITVECTOR_UDIV_TOTAL n \<Longrightarrow> LinearRewriteStrategy [EvalUdiv (rw_gmp R), UdivOne (rw_gmp R)] n = Inr m \<Longrightarrow>
      \<not> applies (UdivSelf (rw_gmp R)) m"
  shows "response_sound (rw_divByZeroConst R) n (preRewrite R n)" and "response_sound (rw_divByZeroConst R) n (postRewrite R n)"
proof -
  have "response_sound (rw_divByZeroConst R) n (preRewrite R n) \<and> response_sound (rw_divByZeroConst R) n (postRewrite R n)"
  proof (cases n)
    case (App k ns)
    have "response_sound (rw_divByZeroConst R) n (d_rewriteTable R k n pre)" for pre
      using gmp_documented.table_sound [OF assms(1) refl assms(2,3) assms(4,5) [unfolded App], of pre] assms(6,7) unfolding App
      by (simp add: hasKind_def)
    then show ?thesis by (simp add: preRewrite_def postRewrite_def App)
  qed (simp_all add: preRewrite_def postRewrite_def IdentityRewrite_def response_done)
  then show "response_sound (rw_divByZeroConst R) n (preRewrite R n)" "response_sound (rw_divByZeroConst R) n (postRewrite R n)" by blast+
qed

text \<open>The calls the rewriters of the modelled theories are meant for.\<close>

definition supported_call :: "rw_env \<Rightarrow> bool \<times> theoryId \<times> node \<Rightarrow> bool" where
  "supported_call R = (\<lambda>(pre, i, n).
     i = THEORY_BUILTIN \<or> i = THEORY_BOOL \<and> bool_rewritable n \<or>
     i = THEORY_BV \<and> narrow n \<and> (hasKind EQUAL n \<longrightarrow> bv_typed (children n ! 0)) \<and>
       (hasKind BITVECTOR_UDIV_TOTAL n \<longrightarrow> (\<forall>m. LinearRewriteStrategy [EvalUdiv (rw_gmp R), UdivOne (rw_gmp R)] n = Inr m \<longrightarrow>
          \<not> applies (UdivSelf (rw_gmp R)) m)))"

lemma supported_call_sound:
  assumes "gmp_documented (rw_gmp R)" and "\<And>a b. \<not> rw_less R a b \<Longrightarrow> \<not> rw_less R b a \<Longrightarrow> a = b" and "\<And>m. mset (rw_iter R m) = mset m"
    and "supported_call R c"
  shows "call_sound (mk_rewriter_env R otherPre otherPost engine step clocks owner) (rw_divByZeroConst R) c"
proof -
  obtain pre i n where c: "c = (pre, i, n)" by (cases c)
  let ?opt = "rw_divByZeroConst R"
  have "response_sound ?opt n (theoryPreRewrite R otherPre i n) \<and> response_sound ?opt n (theoryPostRewrite R otherPost i n)" if t: "typeOf n = Some t" for t
  proof -
    consider "i = THEORY_BUILTIN" | "i = THEORY_BOOL" "bool_rewritable n" |
      "i = THEORY_BV" "narrow n" "hasKind EQUAL n \<Longrightarrow> bv_typed (children n ! 0)"
      "\<And>m. hasKind BITVECTOR_UDIV_TOTAL n \<Longrightarrow> LinearRewriteStrategy [EvalUdiv (rw_gmp R), UdivOne (rw_gmp R)] n = Inr m \<Longrightarrow> \<not> applies (UdivSelf (rw_gmp R)) m"
      using assms(4) unfolding supported_call_def c by fastforce
    then show ?thesis
    proof cases
      case 1
      then show ?thesis by (simp add: theoryPreRewrite_def theoryPostRewrite_def doRewrite_def response_done)
    next
      case 2
      then show ?thesis using boolRewrite_sound [OF t 2(2), of ?opt]
        by (simp add: theoryPreRewrite_def theoryPostRewrite_def TheoryBoolRewriter_postRewrite_def)
    next
      case 3
      then show ?thesis using table_responses_sound [OF assms(1-3) t 3(2-4)] by (simp add: theoryPreRewrite_def theoryPostRewrite_def)
    qed
  qed
  then show ?thesis by (auto simp: call_sound_def c mk_rewriter_env_def)
qed

end
