(* ===== verification/Bitblaster.thy ===== *)
theory Bitblaster
  imports Bitblast_Strategies Rewriter_Soundness
begin

text \<open>
  The bit-blasters \<open>TLazyBitblaster\<close> (\<open>src/src/theory/bv/lazy_bitblaster.cpp\<close>) and
  \<open>EagerBitblaster\<close> (\<open>src/src/theory/bv/eager_bitblaster.cpp\<close>), over nodes as bits. Their state is the term cache, the sets of
  translated atoms and of variables, the calls they made on the CNF stream and its solver, in order, and the state of \<open>Rewriter\<close>, which
  has the resource manager both spend from. \<open>bb_environment\<close> has the options, the clock and \<open>Rewriter::rewrite\<close> of
  \<open>Generic_Rewriter\<close>. The virtual calls of a strategy back into the bit-blaster are resolved by fuel: \<open>lazy_bb G E f\<close> is the
  object whose calls may nest \<open>f\<close> deep. No abstraction module is set and no proof object is attached (\<open>d_abstraction\<close> and \<open>d_bvp\<close>
  are \<open>NULL\<close>). A computation that throws leaves no state in the model.
\<close>

section \<open>Nodes as bits\<close>

definition node_ops :: "node bit_ops" where
  "node_ops = \<lparr>
     mkTrue = CONST_BOOLEAN True,
     mkFalse = CONST_BOOLEAN False,
     mkNot = (\<lambda>a. App NOT [a]),
     mkOr = (\<lambda>a b. App OR [a, b]),
     mkOrs = (\<lambda>children. if length children = 1 then children ! 0 else App OR children),
     mkAnd = (\<lambda>a b. App AND [a, b]),
     mkAnds = (\<lambda>children. if length children = 1 then children ! 0 else App AND children),
     mkXor = (\<lambda>a b. App XOR [a, b]),
     mkIff = (\<lambda>a b. App EQUAL [a, b]),
     mkIte = (\<lambda>cond a b. App ITE [cond, a, b]) \<rparr>"

definition ok_node :: "interp \<Rightarrow> node \<Rightarrow> bool" where
  "ok_node I n \<longleftrightarrow> typeOf n = Some BOOLEAN_TYPE \<and> (\<exists>b. eval I n = VBool b)"

definition sem_node :: "interp \<Rightarrow> node \<Rightarrow> bool" where
  "sem_node I n = v_bool (eval I n)"

lemma ok_node_list:
  "list_all (ok_node I) as \<Longrightarrow> 2 \<le> length as \<Longrightarrow>
    typeOf (App AND as) = Some BOOLEAN_TYPE \<and> typeOf (App OR as) = Some BOOLEAN_TYPE"
proof -
  assume "list_all (ok_node I) as" and ne: "2 \<le> length as"
  then have "list_all2 (\<lambda>n u. typeOf n = Some u) as (replicate (length as) BOOLEAN_TYPE)"
    by (auto simp: list_all2_conv_all_nth list_all_length ok_node_def)
  with ne show ?thesis
    unfolding typeOf_App_iff
    by (auto simp: type_op_iffs list_all_iff Suc_le_eq intro!: exI [of _ "replicate (length as) BOOLEAN_TYPE"])
qed

interpretation node_bits: bit_sem node_ops "ok_node I" "sem_node I" for I
proof
  fix as :: "node list" assume as: "as \<noteq> []" "list_all (ok_node I) as"
  show "ok_node I (mkOrs node_ops as)" "ok_node I (mkAnds node_ops as)"
    using as ok_node_list [OF as(2)] by (cases as; cases "tl as"; auto simp: node_ops_def ok_node_def)+
  show "sem_node I (mkOrs node_ops as) = list_ex (sem_node I) as"
    "sem_node I (mkAnds node_ops as) = list_all (sem_node I) as"
    using as by (auto simp: node_ops_def sem_node_def list_all_length list_ex_length length_Suc_conv)
qed (auto simp: node_ops_def ok_node_def sem_node_def typeOf_short type_op_iffs type_op_mixed)

section \<open>State and environment\<close>

text \<open>The calls on the CNF stream and on the SAT solver, which \<open>Cnf_Stream\<close> and \<open>Simp_Solver\<close> model: \<open>EnsureLiteral\<close> and
  \<open>ConvertAndAssert\<close> name the formula, \<open>AddMarkerLiteral\<close> the atom whose literal is marked.\<close>

datatype cnf_call = EnsureLiteral node | AddMarkerLiteral node | ConvertAndAssert node

record bb_state =
  d_termCache :: "node \<rightharpoonup> node list"
  d_bbAtoms :: "node list"
  d_variables :: "node list"
  d_cnfCalls :: "cnf_call list"
  d_rewriter :: rewriter_state

definition asserted :: "bb_state \<Rightarrow> node set" where
  "asserted st = {\<phi>. ConvertAndAssert \<phi> \<in> set (d_cnfCalls st)}"

record bb_env =
  env_rewrite :: "node \<Rightarrow> rewriter_state \<Rightarrow> (rewriter_state \<times> node exc) option"
  env_proof :: bool
  env_eagerMode :: bool
  env_bitblastStep :: "32 word"
  env_clock :: "nat \<Rightarrow> nat \<Rightarrow> reading"

definition bb_environment :: "rewriter_env \<Rightarrow> bool \<Rightarrow> bool \<Rightarrow> 32 word \<Rightarrow> bb_env" where
  "bb_environment RE pf eager step =
     \<lparr>env_rewrite = rewrite RE, env_proof = pf, env_eagerMode = eager, env_bitblastStep = step, env_clock = clockAt RE\<rparr>"

definition bb_init :: "resource_manager \<Rightarrow> bb_state" where
  "bb_init rm =
     \<lparr>d_termCache = Map.empty, d_bbAtoms = [], d_variables = [], d_cnfCalls = [], d_rewriter = new_rewriter rm\<rparr>"

definition strip_not :: "node \<Rightarrow> node" where
  "strip_not n = (case n of App NOT (a # as) \<Rightarrow> a | _ \<Rightarrow> n)"

definition TBitblaster_storeBBTerm :: "node \<Rightarrow> node list \<Rightarrow> bb_state \<Rightarrow> bb_state" where
  "TBitblaster_storeBBTerm n bits st =
     (case d_termCache st n of
        Some old \<Rightarrow> st
      | None \<Rightarrow> st\<lparr>d_termCache := (d_termCache st)(n \<mapsto> bits)\<rparr>)"

text \<open>\<open>utils::getSize\<close> on a term that is no bit-vector fails its assertion, and without assertions reads a constant of another type;
  the model stops there.\<close>

definition TBitblaster_makeVariable :: "node \<Rightarrow> (bb_state, node list) sexc" where
  "TBitblaster_makeVariable var =
     (\<lambda>st. case getType False var of
        Inr (BITVECTOR_TYPE w) \<Rightarrow> Inr (map (\<lambda>i. mkBitOf var i) [0..<getSize var], st\<lparr>d_variables := List.insert var (d_variables st)\<rparr>)
      | _ \<Rightarrow> Inl AssertionException)"

definition TBitblaster_storeBBAtom :: "node \<Rightarrow> bb_state \<Rightarrow> bb_state" where
  "TBitblaster_storeBBAtom atom st = st\<lparr>d_bbAtoms := List.insert atom (d_bbAtoms st)\<rparr>"

definition convertAndAssert :: "node \<Rightarrow> bb_state \<Rightarrow> bb_state" where
  "convertAndAssert formula st = st\<lparr>d_cnfCalls := d_cnfCalls st @ [ConvertAndAssert formula]\<rparr>"

definition TLazyBitblaster_addAtom :: "node \<Rightarrow> bb_state \<Rightarrow> bb_state" where
  "TLazyBitblaster_addAtom atom st = st\<lparr>d_cnfCalls := d_cnfCalls st @ [EnsureLiteral atom, AddMarkerLiteral atom]\<rparr>"

definition TheoryBV_spendResource :: "bb_env \<Rightarrow> (bb_state, unit) sexc" where
  "TheoryBV_spendResource E =
     (\<lambda>st. let rm = d_resourceManager (d_rewriter st)
       in case spendResource (env_clock E (unat (d_spendResourceCalls rm))) (env_bitblastStep E) rm of
            (rm', Inl e) \<Rightarrow> Inl e
          | (rm', Inr u) \<Rightarrow> Inr ((), st\<lparr>d_rewriter := d_rewriter st\<lparr>d_resourceManager := rm'\<rparr>\<rparr>))"

text \<open>A call of the rewriter that does not return is \<open>OutOfFuel\<close>.\<close>

definition Rewriter_rewrite :: "bb_env \<Rightarrow> node \<Rightarrow> (bb_state, node) sexc" where
  "Rewriter_rewrite E n =
     (\<lambda>st. case env_rewrite E n (d_rewriter st) of
        None \<Rightarrow> Inl OutOfFuel
      | Some (rs, Inl e) \<Rightarrow> Inl e
      | Some (rs, Inr m) \<Rightarrow> Inr (m, st\<lparr>d_rewriter := rs\<rparr>))"

section \<open>bbTerm and bbAtom\<close>

definition TLazyBitblaster_bbTerm ::
  "gmp \<Rightarrow> bb_env \<Rightarrow> (node, bb_state) tbitblaster \<Rightarrow> node \<Rightarrow> (bb_state, node list) sexc" where
  "TLazyBitblaster_bbTerm G E bb n =
     (\<lambda>st. case d_termCache st n of
        Some bits \<Rightarrow> Inr (bits, st)
      | None \<Rightarrow>
          sbind (TheoryBV_spendResource E) (\<lambda>_.
          sbind (d_termBBStrategies G n bb) (\<lambda>bits.
          sbind (smodify (TBitblaster_storeBBTerm n bits)) (\<lambda>_.
          sreturn bits))) st)"

definition is_const_boolean :: "node \<Rightarrow> bool" where
  "is_const_boolean n = (case n of CONST_BOOLEAN b \<Rightarrow> True | _ \<Rightarrow> False)"

definition bbAtom_definition ::
  "bb_env \<Rightarrow> (node, bb_state) tbitblaster \<Rightarrow> node \<Rightarrow> (bb_state, node) sexc" where
  "bbAtom_definition E bb n =
     sbind (Rewriter_rewrite E n) (\<lambda>normalized.
     sbind (if \<not> is_const_boolean normalized then d_atomBBStrategies normalized bb
            else sreturn normalized) (\<lambda>atom_bb.
     if \<not> env_proof E then Rewriter_rewrite E atom_bb else sreturn atom_bb))"

definition TLazyBitblaster_bbAtom ::
  "bb_env \<Rightarrow> (node, bb_state) tbitblaster \<Rightarrow> node \<Rightarrow> (bb_state, unit) sexc" where
  "TLazyBitblaster_bbAtom E bb lit =
     (let n = strip_not lit
      in (\<lambda>st. if n \<in> set (d_bbAtoms st) then Inr ((), st)
         else
           sbind (smodify (TLazyBitblaster_addAtom n)) (\<lambda>_.
           sbind (bbAtom_definition E bb n) (\<lambda>atom_bb.
           sbind (smodify (TBitblaster_storeBBAtom n)) (\<lambda>_.
           smodify (convertAndAssert (App EQUAL [n, atom_bb]))))) st))"

definition EagerBitblaster_bbAtom ::
  "bb_env \<Rightarrow> (node, bb_state) tbitblaster \<Rightarrow> node \<Rightarrow> (bb_state, unit) sexc" where
  "EagerBitblaster_bbAtom E bb lit =
     (let n = strip_not lit
      in (\<lambda>st. if (case n of App (BITVECTOR_BITOF i) ns \<Rightarrow> True | _ \<Rightarrow> False) then Inr ((), st)
         else if n \<in> set (d_bbAtoms st) then Inr ((), st)
         else
           sbind (bbAtom_definition E bb n) (\<lambda>atom_bb.
           if \<not> env_eagerMode E then sthrow AssertionException
           else
             sbind (smodify (TBitblaster_storeBBAtom n)) (\<lambda>_.
             smodify (convertAndAssert (App EQUAL [n, atom_bb])))) st))"

text \<open>The objects. Both classes define \<open>bbTerm\<close>, \<open>makeVariable\<close>, \<open>getBBAtom\<close> and \<open>storeBBTerm\<close> alike;
  they differ in \<open>bbAtom\<close>.\<close>

definition bb_object ::
  "gmp \<Rightarrow> bb_env \<Rightarrow> ((node, bb_state) tbitblaster \<Rightarrow> node \<Rightarrow> (bb_state, unit) sexc) \<Rightarrow>
    (node, bb_state) tbitblaster option \<Rightarrow> (node, bb_state) tbitblaster" where
  "bb_object G E atom this =
     \<lparr>tb_ops = node_ops,
      bbTerm = (case this of None \<Rightarrow> (\<lambda>n. sthrow OutOfFuel) | Some bb \<Rightarrow> TLazyBitblaster_bbTerm G E bb),
      bbAtom = (case this of None \<Rightarrow> (\<lambda>n. sthrow OutOfFuel) | Some bb \<Rightarrow> atom bb),
      getBBAtom = (\<lambda>n. n),
      storeBBTerm = TBitblaster_storeBBTerm,
      makeVariable = TBitblaster_makeVariable\<rparr>"

primrec lazy_bb :: "gmp \<Rightarrow> bb_env \<Rightarrow> nat \<Rightarrow> (node, bb_state) tbitblaster" where
  "lazy_bb G E 0 = bb_object G E (TLazyBitblaster_bbAtom E) None"
| "lazy_bb G E (Suc f) = bb_object G E (TLazyBitblaster_bbAtom E) (Some (lazy_bb G E f))"

primrec eager_bb :: "gmp \<Rightarrow> bb_env \<Rightarrow> nat \<Rightarrow> (node, bb_state) tbitblaster" where
  "eager_bb G E 0 = bb_object G E (EagerBitblaster_bbAtom E) None"
| "eager_bb G E (Suc f) = bb_object G E (EagerBitblaster_bbAtom E) (Some (eager_bb G E f))"

section \<open>Invariant\<close>

text \<open>Every cached translation stands for its term, every formula handed to the CNF stream holds in the interpretation at hand, the caches of
  the rewriter keep the meaning, and the resource manager interrupts only if \<open>H\<close>.\<close>

definition hard_limited :: "bb_state \<Rightarrow> bool" where
  "hard_limited st \<longleftrightarrow> d_on (d_resourceManager (d_rewriter st)) \<and> d_isHardLimit (d_resourceManager (d_rewriter st))"

definition bb_inv :: "bool \<Rightarrow> interp \<Rightarrow> bool \<Rightarrow> bb_state \<Rightarrow> bool" where
  "bb_inv opt I H st \<longleftrightarrow>
     (\<forall>n bits. d_termCache st n = Some bits \<longrightarrow>
        (\<exists>w. typeOf n = Some (BITVECTOR_TYPE w) \<and> node_bits.repr I bits w (v_int (eval I n)))) \<and>
     (\<forall>\<phi>\<in>asserted st. typeOf \<phi> = Some BOOLEAN_TYPE \<and> eval I \<phi> = VBool True) \<and>
     caches_mean opt (d_rewriter st) \<and> (hard_limited st \<longrightarrow> H)"

fun node_size :: "node \<Rightarrow> nat" where
  "node_size (App k ns) = Suc (sum_list (map node_size ns))"
| "node_size n = 1"

lemma node_size_pos: "0 < node_size n"
  by (cases n) simp_all

lemma node_size_child: "c \<in> set ns \<Longrightarrow> node_size c < node_size (App k ns)"
  by (induction ns) auto

fun shift_free :: "node \<Rightarrow> bool" where
  "shift_free (App k ns) \<longleftrightarrow> \<not> bb_shift k \<and> list_all shift_free ns"
| "shift_free n \<longleftrightarrow> True"

text \<open>The strategies of the shifts hand their guard \<open>b < size\<close> to \<open>bbAtom\<close>, which calls the rewriter; on the other supported terms the rewriter
  is not called.\<close>

definition bb_simple_terms :: "nat \<Rightarrow> node set" where
  "bb_simple_terms f = {n. bb_supported n \<and> shift_free n \<and> node_size n \<le> f}"

definition bb_comparison :: "kind \<Rightarrow> node \<Rightarrow> bool" where
  "bb_comparison k x \<longleftrightarrow> k \<in> {BITVECTOR_ULT, BITVECTOR_ULE, BITVECTOR_SLT, BITVECTOR_SLE} \<or>
     k = EQUAL \<and> typeOf x \<noteq> Some BOOLEAN_TYPE"

definition bb_simple_atom :: "nat \<Rightarrow> node \<Rightarrow> bool" where
  "bb_simple_atom f n =
     (case n of
        CONST_BOOLEAN b \<Rightarrow> True
      | App k [x, y] \<Rightarrow> bb_comparison k x \<and> x \<in> bb_simple_terms f \<and> y \<in> bb_simple_terms f
      | _ \<Rightarrow> False)"

text \<open>What a call may throw: what the rewriter throws, what the tables throw on kinds they do not cover, and what the resource manager
  throws.\<close>

definition rewriter_exns :: "bb_env \<Rightarrow> exn set" where
  "rewriter_exns E = {e. \<exists>n rs rs'. env_rewrite E n rs = Some (rs', Inl e)}"

definition table_exns :: "exn set" where
  "table_exns = {UnreachableCodeException, UnimplementedOperationException, AssertionException, OutOfFuel}"

definition interrupt_exns :: "bool \<Rightarrow> exn set" where
  "interrupt_exns H = (if H then {UnsafeInterruptException} else {})"

lemma asserted_simps [simp]:
  "asserted (st\<lparr>d_variables := xs\<rparr>) = asserted st" "asserted (st\<lparr>d_bbAtoms := xs\<rparr>) = asserted st"
  "asserted (st\<lparr>d_rewriter := rs\<rparr>) = asserted st" "asserted (st\<lparr>d_termCache := c\<rparr>) = asserted st"
  "asserted (TLazyBitblaster_addAtom a st) = asserted st" "asserted (convertAndAssert \<phi> st) = insert \<phi> (asserted st)"
  "asserted (TBitblaster_storeBBAtom a st) = asserted st"
  by (auto simp: asserted_def TLazyBitblaster_addAtom_def convertAndAssert_def TBitblaster_storeBBAtom_def)

lemma d_rewriter_simps [simp]:
  "d_rewriter (TLazyBitblaster_addAtom a st) = d_rewriter st" "d_rewriter (convertAndAssert \<phi> st) = d_rewriter st"
  "d_rewriter (TBitblaster_storeBBAtom a st) = d_rewriter st" "d_rewriter (TBitblaster_storeBBTerm n bits st) = d_rewriter st"
  by (simp_all add: TLazyBitblaster_addAtom_def convertAndAssert_def TBitblaster_storeBBAtom_def TBitblaster_storeBBTerm_def split: option.split)

lemma caches_mean_resources [simp]: "caches_mean opt (rs\<lparr>d_resourceManager := rm\<rparr>) = caches_mean opt rs"
  by (simp add: caches_mean_def getPreRewriteCache_def getPostRewriteCache_def)

lemma bb_inv_simps [simp]:
  "bb_inv opt I H (st\<lparr>d_variables := xs\<rparr>) = bb_inv opt I H st"
  "bb_inv opt I H (TLazyBitblaster_addAtom a st) = bb_inv opt I H st"
  "bb_inv opt I H (TBitblaster_storeBBAtom a st) = bb_inv opt I H st"
  by (simp_all add: bb_inv_def hard_limited_def) (simp_all add: TLazyBitblaster_addAtom_def TBitblaster_storeBBAtom_def)

lemma bb_inv_init: "(d_on rm \<and> d_isHardLimit rm \<Longrightarrow> H) \<Longrightarrow> bb_inv opt I H (bb_init rm)"
  by (simp add: bb_inv_def bb_init_def asserted_def caches_mean_new hard_limited_def) (simp add: new_rewriter_def)

lemma bb_inv_store:
  "typeOf n = Some (BITVECTOR_TYPE w) \<Longrightarrow> node_bits.repr I bits w (v_int (eval I n)) \<Longrightarrow> bb_inv opt I H st \<Longrightarrow>
    bb_inv opt I H (TBitblaster_storeBBTerm n bits st)"
  by (auto simp: bb_inv_def hard_limited_def TBitblaster_storeBBTerm_def split: option.split)

lemma bb_inv_assert:
  "typeOf \<phi> = Some BOOLEAN_TYPE \<Longrightarrow> eval I \<phi> = VBool True \<Longrightarrow> bb_inv opt I H st \<Longrightarrow> bb_inv opt I H (convertAndAssert \<phi> st)"
  by (simp add: bb_inv_def hard_limited_def) (simp add: convertAndAssert_def)

lemma bb_inv_rewriter: "bb_inv opt I H st \<Longrightarrow> caches_mean opt rs \<Longrightarrow> H' \<Longrightarrow> bb_inv opt I H' (st\<lparr>d_rewriter := rs\<rparr>)"
  by (auto simp: bb_inv_def)

lemma bb_inv_limit: "bb_inv opt I H st \<Longrightarrow> bb_inv opt I (hard_limited st) st"
  by (simp add: bb_inv_def)

lemma valid_spend:
  assumes "H \<Longrightarrow> UnsafeInterruptException \<in> F"
  shows "sexc_valid (bb_inv opt I H) F (TheoryBV_spendResource E) (\<lambda>_. True)"
proof -
  have "(\<exists>st'. TheoryBV_spendResource E st = Inr ((), st') \<and> bb_inv opt I H st') \<or> H \<and> TheoryBV_spendResource E st = Inl UnsafeInterruptException"
    if "bb_inv opt I H st" for st
    using that by (auto simp: TheoryBV_spendResource_def spendResource_def notify_def bb_inv_def hard_limited_def Let_def)
  with assms show ?thesis by (fastforce simp: sexc_valid_def)
qed

lemma makeVariable_repr:
  assumes n: "typeOf n = Some (BITVECTOR_TYPE w)" and I: "wf_interp I"
  shows "node_bits.repr I (map (\<lambda>i. mkBitOf n i) [0..<w]) w (v_int (eval I n))"
proof -
  obtain a where a: "eval I n = VBV w a" "in_width w a" using eval_has_type [OF n I] by auto
  have bits: "ok_node I (mkBitOf n i)" "sem_node I (mkBitOf n i) = bit a i" if "i < w" for i
    using that a(1) n typeOf_valid [OF n]
    by (auto simp: ok_node_def sem_node_def mkBitOf_def typeOf_short type_op_iffs)
  show ?thesis
    using bits a by (intro node_bits.repr_eqI) (auto simp: list_all_length)
qed

lemma ok_node_typed: "typeOf a = Some BOOLEAN_TYPE \<Longrightarrow> wf_interp I \<Longrightarrow> ok_node I a"
  using eval_has_type [of a BOOLEAN_TYPE I] by (auto simp: ok_node_def)

text \<open>The strategies of the kinds the tables do not cover.\<close>

lemma throwing_strategy:
  assumes "bb_throws k" and "table_exns \<subseteq> F"
  shows "sexc_valid Q0 F (d_termBBStrategies G (App k ns) bb) P"
proof -
  have "d_termBBStrategies G (App k ns) bb = sthrow UnreachableCodeException \<or>
      d_termBBStrategies G (App k ns) bb = sthrow UnimplementedOperationException"
    using assms(1) by (cases k) (simp_all add: bb_throws_def d_termBBStrategies_def UndefinedTermBBStrategy_def DefaultNandBB_def
        DefaultNorBB_def DefaultRepeatBB_def DefaultZeroExtendBB_def DefaultRotateLeftBB_def DefaultRotateRightBB_def fun_eq_iff)
  then show ?thesis using assms(2) by (auto simp: table_exns_def intro: sexc_valid_throw)
qed

lemma boolean_term_strategy:
  assumes "typeOf n = Some BOOLEAN_TYPE"
  shows "d_termBBStrategies G n bb = DefaultVarBB n bb"
proof (cases n)
  case (App k ns)
  then show ?thesis
    using assms by (cases k) (auto simp: d_termBBStrategies_def typeOf_App_iff type_op_iffs type_op_mixed)
qed (use assms in \<open>auto simp: d_termBBStrategies_def mk_bvtype_def split: if_splits\<close>)

lemma throwing_atom:
  assumes "typeOf m = Some BOOLEAN_TYPE" and "\<not> is_const_boolean m" and "table_exns \<subseteq> F"
    and "\<And>k x y. m = App k [x, y] \<Longrightarrow> k \<notin> {BITVECTOR_ULT, BITVECTOR_ULE, BITVECTOR_SLT, BITVECTOR_SLE, EQUAL}"
  shows "sexc_valid Q0 F (d_atomBBStrategies m bb) P"
proof -
  have "d_atomBBStrategies m bb = sthrow UnreachableCodeException \<or> d_atomBBStrategies m bb = sthrow UnimplementedOperationException"
  proof (cases m)
    case (App k ns)
    have "k \<notin> {BITVECTOR_ULT, BITVECTOR_ULE, BITVECTOR_SLT, BITVECTOR_SLE, EQUAL}"
    proof
      assume k: "k \<in> {BITVECTOR_ULT, BITVECTOR_ULE, BITVECTOR_SLT, BITVECTOR_SLE, EQUAL}"
      then have "k \<in> {BITVECTOR_XNOR, BITVECTOR_COMP, BITVECTOR_SUB, BITVECTOR_UDIV_TOTAL, BITVECTOR_UREM_TOTAL,
        BITVECTOR_SHL, BITVECTOR_LSHR, BITVECTOR_ASHR, BITVECTOR_ULTBV, BITVECTOR_SLTBV, BITVECTOR_ULT,
        BITVECTOR_ULE, BITVECTOR_SLT, BITVECTOR_SLE, EQUAL}" by auto
      from typeOf_arity2 [OF assms(1) [unfolded App] this] obtain x y where "ns = [x, y]" .
      with assms(4) App k show False by blast
    qed
    then show ?thesis using App
      by (cases k) (simp_all add: d_atomBBStrategies_def UndefinedAtomBBStrategy_def DefaultUgtBB_def DefaultUgeBB_def
          DefaultSgtBB_def DefaultSgeBB_def fun_eq_iff)
  qed (simp_all add: d_atomBBStrategies_def UndefinedAtomBBStrategy_def fun_eq_iff)
  then show ?thesis using assms(3) by (auto simp: table_exns_def intro: sexc_valid_throw)
qed

lemma strip_not_typed: "typeOf a = Some BOOLEAN_TYPE \<Longrightarrow> typeOf (strip_not a) = Some BOOLEAN_TYPE"
  unfolding strip_not_def
  by (auto simp: typeOf_App_iff type_op_iffs list_all2_Cons1 split: node.split kind.split list.split)

lemma definition_holds:
  assumes "typeOf a = Some BOOLEAN_TYPE" "typeOf d = Some BOOLEAN_TYPE" "eval I d = eval I a"
  shows "typeOf (App EQUAL [a, d]) = Some BOOLEAN_TYPE" "eval I (App EQUAL [a, d]) = VBool True"
  using assms by (auto simp: typeOf_short type_op_mixed)

section \<open>The methods meet the contract of the strategies\<close>

definition rewriter_keeps :: "bool \<Rightarrow> bb_env \<Rightarrow> bool" where
  "rewriter_keeps opt E \<longleftrightarrow> (\<forall>n rs rs' r. typeOf n \<noteq> None \<longrightarrow> caches_mean opt rs \<longrightarrow> env_rewrite E n rs = Some (rs', r) \<longrightarrow>
     caches_mean opt rs' \<and> (\<forall>m. r = Inr m \<longrightarrow> same_meaning opt m n))"

lemma valid_rewrite:
  assumes "rewriter_keeps opt E" and "table_exns \<union> rewriter_exns E \<subseteq> F" and "typeOf n = Some t" and I: "wf_interp I" "zero_division opt I" and H
  shows "sexc_valid (bb_inv opt I H) F (Rewriter_rewrite E n) (\<lambda>m. typeOf m = Some t \<and> eval I m = eval I n)"
  unfolding sexc_valid_def
proof (intro allI impI)
  fix st assume st: "bb_inv opt I H st"
  then have caches: "caches_mean opt (d_rewriter st)" by (simp add: bb_inv_def)
  show "(\<exists>m st'. Rewriter_rewrite E n st = Inr (m, st') \<and> bb_inv opt I H st' \<and> typeOf m = Some t \<and> eval I m = eval I n) \<or>
      (\<exists>e\<in>F. Rewriter_rewrite E n st = Inl e)"
  proof (cases "env_rewrite E n (d_rewriter st)")
    case None
    then show ?thesis using assms(2) by (auto simp: Rewriter_rewrite_def table_exns_def)
  next
    case (Some y)
    then obtain rs r where r: "env_rewrite E n (d_rewriter st) = Some (rs, r)" by (cases y) simp
    then have "caches_mean opt rs" "\<And>m. r = Inr m \<Longrightarrow> same_meaning opt m n"
      using assms(1,3) caches unfolding rewriter_keeps_def by blast+
    moreover have "\<exists>e\<in>F. r = Inl e" if "r = Inl e'" for e'
      using r that assms(2) unfolding rewriter_exns_def by blast
    ultimately show ?thesis using r bb_inv_rewriter [OF st] assms(3) I \<open>H\<close>
      by (cases r) (auto simp: Rewriter_rewrite_def same_meaning_def)
  qed
qed

text \<open>Terms and atoms that are closed under what the calls on them ask for, by the depth of calls that is left. \<open>F\<close> are the exceptions the
  calls may throw; where atoms are translated the rewriter is called, which has to keep the meaning.\<close>

locale bb_range = gmp_documented G for G :: gmp +
  fixes E :: bb_env and opt :: bool and T A :: "nat \<Rightarrow> node set" and F :: "exn set" and H :: bool
  assumes term_throws: "App k ns \<in> T (Suc f) \<Longrightarrow> bb_throws k \<Longrightarrow> table_exns \<subseteq> F"
    and term_children: "App k ns \<in> T (Suc f) \<Longrightarrow> bb_recursive k \<Longrightarrow> set ns \<subseteq> T f"
    and term_guard: "App k [x, y] \<in> T (Suc f) \<Longrightarrow> bb_shift k \<Longrightarrow> b_ult_a_size_node G (App k [x, y]) \<in> A f"
    and atom_rewrites: "a \<in> A f \<Longrightarrow> rewriter_keeps opt E \<and> table_exns \<union> rewriter_exns E \<subseteq> F \<and> H"
    and atom_terms: "a \<in> A (Suc f) \<Longrightarrow> T f = UNIV"
    and no_fuel: "T 0 = {} \<and> A 0 = {} \<or> OutOfFuel \<in> F"
    and interrupts: "H \<Longrightarrow> UnsafeInterruptException \<in> F"
begin

lemma bbTerm_step:
  assumes C: "bitblaster_contract bb (ok_node I) (sem_node I) G I (bb_inv opt I H) (T f) (A f) F"
    and n: "n \<in> T (Suc f)" "typeOf n = Some (BITVECTOR_TYPE w)"
  shows "sexc_valid (bb_inv opt I H) F (TLazyBitblaster_bbTerm G E bb n) (\<lambda>bits. node_bits.repr I bits w (v_int (eval I n)))"
proof -
  let ?P = "\<lambda>bits. node_bits.repr I bits w (v_int (eval I n))"
  have strategy: "sexc_valid (bb_inv opt I H) F (d_termBBStrategies G n bb) ?P"
  proof (cases "\<exists>k ns. n = App k ns \<and> bb_throws k")
    case True
    then obtain k ns where k: "n = App k ns" "bb_throws k" by blast
    with throwing_strategy [OF k(2)] term_throws n(1) show ?thesis by blast
  next
    case False
    show ?thesis unfolding bitblaster_contract.valid_def [OF C, symmetric]
    proof (rule bitblaster_contract.valid_termStrategy [OF C n(2)])
      show "\<not> bb_throws k" if "n = App k ns" for k ns using False that by blast
      show "set ns \<subseteq> T f" if "n = App k ns" "bb_recursive k" for k ns using term_children n(1) that by blast
      show "b_ult_a_size_node G n \<in> A f" if "n = App k [x, y]" "bb_shift k" for k x y using term_guard n(1) that by blast
    qed
  qed
  have run: "sexc_valid (bb_inv opt I H) F (sbind (TheoryBV_spendResource E) (\<lambda>_. sbind (d_termBBStrategies G n bb) (\<lambda>bits.
      sbind (smodify (TBitblaster_storeBBTerm n bits)) (\<lambda>_. sreturn bits)))) ?P"
    by (rule sexc_valid_bind [OF valid_spend [OF interrupts]], assumption, rule sexc_valid_bind [OF strategy],
      rule sexc_valid_bind [OF sexc_valid_modify], erule (1) bb_inv_store [OF n(2)], erule sexc_valid_return)
  show ?thesis
    unfolding sexc_valid_def
  proof (intro allI impI)
    fix st assume st: "bb_inv opt I H st"
    show "(\<exists>bits st'. TLazyBitblaster_bbTerm G E bb n st = Inr (bits, st') \<and> bb_inv opt I H st' \<and> ?P bits) \<or>
        (\<exists>e\<in>F. TLazyBitblaster_bbTerm G E bb n st = Inl e)"
    proof (cases "d_termCache st n")
      case (Some bits)
      with st obtain v where "typeOf n = Some (BITVECTOR_TYPE v)" "node_bits.repr I bits v (v_int (eval I n))"
        unfolding bb_inv_def by blast
      with n(2) Some st show ?thesis by (simp add: TLazyBitblaster_bbTerm_def)
    next
      case None
      from run st show ?thesis by (cases rule: sexc_validE) (simp_all add: TLazyBitblaster_bbTerm_def None)
    qed
  qed
qed

text \<open>The strategy of the normalized atom \<open>m\<close>, on which the tables may throw unless it is a comparison of bit-vectors.\<close>

lemma atom_strategy:
  assumes C: "bitblaster_contract bb (ok_node I) (sem_node I) G I (bb_inv opt I H) (T f) (A f) F"
    and m: "typeOf m = Some BOOLEAN_TYPE" "\<not> is_const_boolean m" and I: "wf_interp I"
    and range: "T f = UNIV \<and> table_exns \<subseteq> F \<or> (\<exists>k x y. m = App k [x, y] \<and> bb_comparison k x \<and> x \<in> T f \<and> y \<in> T f)"
    and B: "\<And>n. typeOf n = Some BOOLEAN_TYPE \<Longrightarrow> table_exns \<subseteq> F \<Longrightarrow> sexc_valid (bb_inv opt I H) F (bbTerm bb n) (\<lambda>_. False)"
  shows "sexc_valid (bb_inv opt I H) F (d_atomBBStrategies m bb) (\<lambda>d. typeOf d = Some BOOLEAN_TYPE \<and> eval I d = eval I m)"
proof -
  consider (cmp) k x y where "m = App k [x, y]" "bb_comparison k x" "x \<in> T f" "y \<in> T f"
    | (bool) x y where "m = App EQUAL [x, y]" "typeOf x = Some BOOLEAN_TYPE" "table_exns \<subseteq> F"
    | (other) "table_exns \<subseteq> F" "\<And>k x y. m = App k [x, y] \<Longrightarrow> k \<notin> {BITVECTOR_ULT, BITVECTOR_ULE, BITVECTOR_SLT, BITVECTOR_SLE, EQUAL}"
  proof (cases "\<exists>k x y. m = App k [x, y] \<and> k \<in> {BITVECTOR_ULT, BITVECTOR_ULE, BITVECTOR_SLT, BITVECTOR_SLE, EQUAL}")
    case True
    then obtain k x y where k: "m = App k [x, y]" "k \<in> {BITVECTOR_ULT, BITVECTOR_ULE, BITVECTOR_SLT, BITVECTOR_SLE, EQUAL}" by blast
    show thesis using range that(1,2) k unfolding bb_comparison_def by (cases "bb_comparison k x") (auto simp: bb_comparison_def)
  next
    case False
    then show thesis using range that(1,3) by blast
  qed
  then show ?thesis
  proof cases
    case cmp
    obtain v where "k \<in> {BITVECTOR_ULT, BITVECTOR_ULE, BITVECTOR_SLT, BITVECTOR_SLE} \<or> k = EQUAL \<and> typeOf x = Some (BITVECTOR_TYPE v)"
      using cmp(2) m(1) unfolding cmp(1) bb_comparison_def
      by (cases "typeOf x"; cases "the (typeOf x)") (auto simp: typeOf_short type_op_mixed)
    from bitblaster_contract.valid_atomStrategy [OF C m(1) [unfolded cmp(1)] cmp(3,4) this]
    have "sexc_valid (bb_inv opt I H) F (d_atomBBStrategies m bb) (\<lambda>b. ok_node I b \<and> sem_node I b = v_bool (eval I m))"
      unfolding bitblaster_contract.valid_def [OF C] cmp(1) .
    then show ?thesis
      by (rule sexc_valid_weaken) (use ok_node_typed [OF m(1) I(1)] in \<open>auto simp: ok_node_def sem_node_def\<close>)
  next
    case bool
    from sexc_valid_bind [OF B [OF bool(2,3)]] show ?thesis
      unfolding bool(1) by (simp add: d_atomBBStrategies_def DefaultEqBB_def)
  next
    case other
    then show ?thesis by (intro throwing_atom [OF m])
  qed
qed

lemma bbAtom_definition_step:
  assumes C: "bitblaster_contract bb (ok_node I) (sem_node I) G I (bb_inv opt I H) (T f) (A f) F"
    and a: "a \<in> A (Suc f)" "typeOf a = Some BOOLEAN_TYPE" and I: "wf_interp I" "zero_division opt I"
    and B: "\<And>n. typeOf n = Some BOOLEAN_TYPE \<Longrightarrow> table_exns \<subseteq> F \<Longrightarrow> sexc_valid (bb_inv opt I H) F (bbTerm bb n) (\<lambda>_. False)"
  shows "sexc_valid (bb_inv opt I H) F (bbAtom_definition E bb (strip_not a))
    (\<lambda>d. typeOf d = Some BOOLEAN_TYPE \<and> eval I d = eval I (strip_not a))"
proof -
  let ?P = "\<lambda>d. typeOf d = Some BOOLEAN_TYPE \<and> eval I d = eval I (strip_not a)"
  have R: "rewriter_keeps opt E" "table_exns \<union> rewriter_exns E \<subseteq> F" "H" using atom_rewrites [OF a(1)] by blast+
  have T: "T f = UNIV" "table_exns \<subseteq> F" using atom_terms [OF a(1)] R(2) by auto
  note rewrite = valid_rewrite [OF R(1,2) _ I R(3)]
  have first: "sexc_valid (bb_inv opt I H) F (if \<not> is_const_boolean m then d_atomBBStrategies m bb else sreturn m) ?P" if m: "?P m" for m
  proof (cases "is_const_boolean m")
    case False
    with atom_strategy [OF C _ False I(1) _ B] m T show ?thesis by simp
  qed (use m in \<open>simp add: sexc_valid_return\<close>)
  have last: "sexc_valid (bb_inv opt I H) F (if \<not> env_proof E then Rewriter_rewrite E d else sreturn d) ?P" if d: "?P d" for d
    using rewrite [of d BOOLEAN_TYPE] d by (cases "env_proof E") (simp_all add: sexc_valid_return)
  show ?thesis
    unfolding bbAtom_definition_def
    by (rule sexc_valid_bind [OF rewrite [OF strip_not_typed [OF a(2)]]], rule sexc_valid_bind [OF first], assumption, rule last)
qed

lemma valid_assert_definition:
  assumes "typeOf a = Some BOOLEAN_TYPE" and "typeOf d = Some BOOLEAN_TYPE \<and> eval I d = eval I a"
  shows "sexc_valid (bb_inv opt I H) F (sbind (smodify (TBitblaster_storeBBAtom a)) (\<lambda>_. smodify (convertAndAssert (App EQUAL [a, d])))) (\<lambda>_. True)"
  by (rule sexc_valid_bind [OF sexc_valid_modify], simp, rule sexc_valid_modify, rule bb_inv_assert)
    (use definition_holds [OF assms(1), of d I] assms(2) in auto)

lemma lazy_bbAtom_step:
  assumes C: "bitblaster_contract bb (ok_node I) (sem_node I) G I (bb_inv opt I H) (T f) (A f) F"
    and a: "a \<in> A (Suc f)" "typeOf a = Some BOOLEAN_TYPE" and I: "wf_interp I" "zero_division opt I"
    and B: "\<And>n. typeOf n = Some BOOLEAN_TYPE \<Longrightarrow> table_exns \<subseteq> F \<Longrightarrow> sexc_valid (bb_inv opt I H) F (bbTerm bb n) (\<lambda>_. False)"
  shows "sexc_valid (bb_inv opt I H) F (TLazyBitblaster_bbAtom E bb a) (\<lambda>_. True)"
proof -
  have "sexc_valid (bb_inv opt I H) F (sbind (smodify (TLazyBitblaster_addAtom (strip_not a))) (\<lambda>_.
      sbind (bbAtom_definition E bb (strip_not a)) (\<lambda>atom_bb. sbind (smodify (TBitblaster_storeBBAtom (strip_not a))) (\<lambda>_.
      smodify (convertAndAssert (App EQUAL [strip_not a, atom_bb])))))) (\<lambda>_. True)"
    by (intro sexc_valid_bind [OF sexc_valid_modify] sexc_valid_bind [OF bbAtom_definition_step [OF C a I B]]
        valid_assert_definition strip_not_typed [OF a(2)]) simp_all
  then show ?thesis unfolding sexc_valid_def TLazyBitblaster_bbAtom_def Let_def by auto
qed

lemma eager_bbAtom_step:
  assumes C: "bitblaster_contract bb (ok_node I) (sem_node I) G I (bb_inv opt I H) (T f) (A f) F"
    and a: "a \<in> A (Suc f)" "typeOf a = Some BOOLEAN_TYPE" and I: "wf_interp I" "zero_division opt I"
    and B: "\<And>n. typeOf n = Some BOOLEAN_TYPE \<Longrightarrow> table_exns \<subseteq> F \<Longrightarrow> sexc_valid (bb_inv opt I H) F (bbTerm bb n) (\<lambda>_. False)"
    and mode: "env_eagerMode E"
  shows "sexc_valid (bb_inv opt I H) F (EagerBitblaster_bbAtom E bb a) (\<lambda>_. True)"
proof -
  have "sexc_valid (bb_inv opt I H) F (sbind (bbAtom_definition E bb (strip_not a)) (\<lambda>atom_bb. if \<not> env_eagerMode E then sthrow AssertionException
      else sbind (smodify (TBitblaster_storeBBAtom (strip_not a))) (\<lambda>_. smodify (convertAndAssert (App EQUAL [strip_not a, atom_bb])))))
      (\<lambda>_. True)"
    by (rule sexc_valid_bind [OF bbAtom_definition_step [OF C a I B]])
      (simp_all add: mode valid_assert_definition strip_not_typed [OF a(2)])
  then show ?thesis unfolding sexc_valid_def EagerBitblaster_bbAtom_def Let_def by (auto split: node.split kind.split)
qed

text \<open>A Boolean term is no bit-vector: \<open>bbTerm\<close> throws.\<close>

lemma boolean_bbTerm:
  assumes "typeOf n = Some BOOLEAN_TYPE" and "table_exns \<subseteq> F"
    and var: "\<And>bb. this = Some bb \<Longrightarrow> makeVariable bb = TBitblaster_makeVariable"
  shows "sexc_valid (bb_inv opt I H) F (bbTerm (bb_object G E atom this) n) (\<lambda>_. False)"
proof (cases this)
  case None
  then show ?thesis using assms(2) by (auto simp: bb_object_def table_exns_def intro: sexc_valid_throw)
next
  case (Some bb)
  have run: "sexc_valid (bb_inv opt I H) F (sbind (TheoryBV_spendResource E) (\<lambda>_. sbind (makeVariable bb n) k)) (\<lambda>_. False)" for k
    by (rule sexc_valid_bind [OF valid_spend [OF interrupts]], assumption)
      (use getType_typeOf [OF assms(1), of False] assms(2) var [OF Some] in
        \<open>auto simp: sexc_valid_def sbind_def TBitblaster_makeVariable_def table_exns_def\<close>)
  have "d_termCache st n = None" if "bb_inv opt I H st" for st
    using that assms(1) unfolding bb_inv_def by (metis not_Some_eq option.inject typeNode.distinct(5))
  then show ?thesis using run Some
    by (simp add: boolean_term_strategy [OF assms(1)] bb_object_def sexc_valid_def TLazyBitblaster_bbTerm_def DefaultVarBB_def)
qed

lemma object_contract:
  assumes I: "wf_interp I"
    and T: "\<And>n w. n \<in> T' \<Longrightarrow> typeOf n = Some (BITVECTOR_TYPE w) \<Longrightarrow>
      sexc_valid (bb_inv opt I H) F (bbTerm (bb_object G E atom this) n) (\<lambda>bits. node_bits.repr I bits w (v_int (eval I n)))"
    and A: "\<And>a. a \<in> A' \<Longrightarrow> typeOf a = Some BOOLEAN_TYPE \<Longrightarrow>
      sexc_valid (bb_inv opt I H) F (bbAtom (bb_object G E atom this) a) (\<lambda>_. True)"
  shows "bitblaster_contract (bb_object G E atom this) (ok_node I) (sem_node I) G I (bb_inv opt I H) T' A' F"
proof (intro bitblaster_contract.intro bitblaster_contract_axioms.intro gmp_documented_axioms)
  have ops: "tb_ops (bb_object G E atom this) = node_ops" by (simp add: bb_object_def)
  show "bit_sem (tb_ops (bb_object G E atom this)) (ok_node I) (sem_node I)"
    unfolding ops by (rule node_bits.bit_sem_axioms)
  show "sexc_valid (bb_inv opt I H) F (makeVariable (bb_object G E atom this) n) (\<lambda>bits. node_bits.repr I bits w (v_int (eval I n)))"
    if "typeOf n = Some (BITVECTOR_TYPE w)" for n w
    using that makeVariable_repr [OF that I] getType_typeOf [OF that, of False]
    by (simp add: bb_object_def TBitblaster_makeVariable_def sexc_valid_def)
qed (use I T A bb_inv_store ok_node_typed in \<open>auto simp: bb_object_def sem_node_def\<close>)

lemma no_fuel_contract:
  assumes "wf_interp I"
  shows "bitblaster_contract (bb_object G E atom None) (ok_node I) (sem_node I) G I (bb_inv opt I H) (T 0) (A 0) F"
  by (rule object_contract [OF assms]) (use no_fuel in \<open>auto simp: bb_object_def intro: sexc_valid_throw\<close>)

lemma lazy_contract:
  assumes I: "wf_interp I" "zero_division opt I"
  shows "bitblaster_contract (lazy_bb G E f) (ok_node I) (sem_node I) G I (bb_inv opt I H) (T f) (A f) F"
proof (induction f)
  case 0
  show ?case unfolding lazy_bb.simps by (rule no_fuel_contract [OF I(1)])
next
  case (Suc f)
  have B: "sexc_valid (bb_inv opt I H) F (bbTerm (lazy_bb G E f) n) (\<lambda>_. False)"
    if "typeOf n = Some BOOLEAN_TYPE" "table_exns \<subseteq> F" for n
  proof (cases f)
    case (Suc g)
    have "makeVariable (lazy_bb G E g) = TBitblaster_makeVariable" by (cases g) (simp_all add: bb_object_def)
    with boolean_bbTerm [OF that, of "Some (lazy_bb G E g)"] show ?thesis unfolding Suc lazy_bb.simps by simp
  qed (use boolean_bbTerm [OF that, of None] in simp)
  show ?case
    unfolding lazy_bb.simps
    by (rule object_contract [OF I(1)]) (use bbTerm_step [OF Suc] lazy_bbAtom_step [OF Suc _ _ I B] in \<open>auto simp: bb_object_def\<close>)
qed

lemma eager_contract:
  assumes I: "wf_interp I" "zero_division opt I" and mode: "env_eagerMode E"
  shows "bitblaster_contract (eager_bb G E f) (ok_node I) (sem_node I) G I (bb_inv opt I H) (T f) (A f) F"
proof (induction f)
  case 0
  show ?case unfolding eager_bb.simps by (rule no_fuel_contract [OF I(1)])
next
  case (Suc f)
  have B: "sexc_valid (bb_inv opt I H) F (bbTerm (eager_bb G E f) n) (\<lambda>_. False)"
    if "typeOf n = Some BOOLEAN_TYPE" "table_exns \<subseteq> F" for n
  proof (cases f)
    case (Suc g)
    have "makeVariable (eager_bb G E g) = TBitblaster_makeVariable" by (cases g) (simp_all add: bb_object_def)
    with boolean_bbTerm [OF that, of "Some (eager_bb G E g)"] show ?thesis unfolding Suc eager_bb.simps by simp
  qed (use boolean_bbTerm [OF that, of None] in simp)
  show ?case
    unfolding eager_bb.simps
    by (rule object_contract [OF I(1)]) (use bbTerm_step [OF Suc] eager_bbAtom_step [OF Suc _ _ I B mode] in \<open>auto simp: bb_object_def\<close>)
qed

end

text \<open>A normalized atom that is a constant or a comparison of terms in range is translated; the only exceptions are those of \<open>F\<close> and of the
  second call of the rewriter.\<close>

context bb_range
begin

lemma bbAtom_definition_progress:
  assumes C: "bitblaster_contract bb (ok_node I) (sem_node I) G I (bb_inv opt I H) (T f) (A f) F"
    and m: "Rewriter_rewrite E n st = Inr (m, st1)" "typeOf m = Some BOOLEAN_TYPE"
      "is_const_boolean m \<or> (\<exists>k x y. m = App k [x, y] \<and> bb_comparison k x \<and> x \<in> T f \<and> y \<in> T f)"
    and st1: "bb_inv opt I H st1" and I: "wf_interp I"
  shows "(\<exists>d st'. bbAtom_definition E bb n st = Inr (d, st')) \<or> (\<exists>e\<in>F. bbAtom_definition E bb n st = Inl e) \<or>
    (\<exists>d st2 e. \<not> env_proof E \<and> typeOf d = Some BOOLEAN_TYPE \<and> Rewriter_rewrite E d st2 = Inl e \<and> bbAtom_definition E bb n st = Inl e)"
proof -
  have "sexc_valid (bb_inv opt I H) F (if \<not> is_const_boolean m then d_atomBBStrategies m bb else sreturn m)
      (\<lambda>d. typeOf d = Some BOOLEAN_TYPE)"
  proof (cases "is_const_boolean m")
    case False
    then obtain k x y where xy: "m = App k [x, y]" "bb_comparison k x" "x \<in> T f" "y \<in> T f" using m(3) by blast
    obtain v where "k \<in> {BITVECTOR_ULT, BITVECTOR_ULE, BITVECTOR_SLT, BITVECTOR_SLE} \<or> k = EQUAL \<and> typeOf x = Some (BITVECTOR_TYPE v)"
      using xy(2) m(2) unfolding xy(1) bb_comparison_def
      by (cases "typeOf x"; cases "the (typeOf x)") (auto simp: typeOf_short type_op_mixed)
    from bitblaster_contract.valid_atomStrategy [OF C m(2) [unfolded xy(1)] xy(3,4) this] False
    show ?thesis unfolding bitblaster_contract.valid_def [OF C] xy(1) by (auto simp: ok_node_def elim: sexc_valid_weaken)
  qed (use m(2) in \<open>simp add: sexc_valid_return\<close>)
  from this st1 show ?thesis
  proof (cases rule: sexc_validE)
    case (returns d st2)
    then show ?thesis
      using m(1) by (cases "env_proof E"; cases "Rewriter_rewrite E d st2") (auto simp: bbAtom_definition_def sbind_def sreturn_def)
  next
    case (throws e)
    then show ?thesis using m(1) by (auto simp: bbAtom_definition_def sbind_def)
  qed
qed

end

section \<open>The rewriter of the code\<close>

text \<open>The rewriters of the theories were called within their range.\<close>

definition calls_in_range :: "rw_env \<Rightarrow> bb_state \<Rightarrow> bool" where
  "calls_in_range R st \<longleftrightarrow> list_all (supported_call R) (calls (d_rewriter st))"

text \<open>The environment in which a call of the rewriter that leaves the range does not return. A run of the code that ends in range is a run of
  this environment, too.\<close>

definition ranged :: "rw_env \<Rightarrow> bb_env \<Rightarrow> bb_env" where
  "ranged R E = E\<lparr>env_rewrite := (\<lambda>n rs.
     case env_rewrite E n rs of
       None \<Rightarrow> None
     | Some (rs', r) \<Rightarrow> if list_all (supported_call R) (calls rs') then Some (rs', r) else None)\<rparr>"

lemma ranged_simps [simp]:
  "env_proof (ranged R E) = env_proof E" "env_eagerMode (ranged R E) = env_eagerMode E" "TheoryBV_spendResource (ranged R E) = TheoryBV_spendResource E"
  by (simp_all add: ranged_def TheoryBV_spendResource_def)

lemma ranged_rewrite:
  "env_rewrite (ranged R E) n rs = Some (rs', r) \<longleftrightarrow> env_rewrite E n rs = Some (rs', r) \<and> list_all (supported_call R) (calls rs')"
  by (auto simp: ranged_def split: option.split)

lemma ranged_exns: "rewriter_exns (ranged R E) \<subseteq> rewriter_exns E"
  by (auto simp: rewriter_exns_def ranged_rewrite)

lemma calls_in_range_simps [simp]:
  "calls_in_range R (st\<lparr>d_variables := xs\<rparr>) = calls_in_range R st" "calls_in_range R (TLazyBitblaster_addAtom a st) = calls_in_range R st"
  "calls_in_range R (convertAndAssert \<phi> st) = calls_in_range R st" "calls_in_range R (TBitblaster_storeBBAtom a st) = calls_in_range R st"
  "calls_in_range R (TBitblaster_storeBBTerm n bits st) = calls_in_range R st" "calls_in_range R (bb_init rm)"
  by (simp_all add: calls_in_range_def) (simp add: bb_init_def new_rewriter_def)

lemma sim_if:
  "sexc_sim ok m1 m1' \<Longrightarrow> sexc_sim ok m2 m2' \<Longrightarrow>
    sexc_sim ok (\<lambda>st. if c st then m1 st else m2 st) (\<lambda>st. if c st then m1' st else m2' st)"
  by (auto simp: sexc_sim_def)

lemma sim_stay: "sexc_sim ok (\<lambda>st. Inr ((), st)) (\<lambda>st. Inr ((), st))"
  by (simp add: sexc_sim_def)

locale bb_program =
  fixes R :: rw_env and RE :: rewriter_env and E :: bb_env and otherPre otherPost engine step clocks owner
  assumes gmp: "gmp_documented (rw_gmp R)" and less: "\<And>a b. \<not> rw_less R a b \<Longrightarrow> \<not> rw_less R b a \<Longrightarrow> a = b"
    and iter: "\<And>m. mset (rw_iter R m) = mset m"
    and RE: "RE = mk_rewriter_env R otherPre otherPost engine step clocks owner" and rewriter: "env_rewrite E = rewrite RE"
begin

lemma ranged_keeps: "rewriter_keeps (rw_divByZeroConst R) (ranged R E)"
  unfolding rewriter_keeps_def
proof (intro allI impI)
  fix n rs rs' r assume n: "typeOf n \<noteq> None" and rs: "caches_mean (rw_divByZeroConst R) rs" and "env_rewrite (ranged R E) n rs = Some (rs', r)"
  then have run: "rewrite RE n rs = Some (rs', r)" and range: "list_all (supported_call R) (calls rs')"
    by (simp_all add: ranged_rewrite rewriter)
  have "logged RE (rw_divByZeroConst R) rs'"
    using range supported_call_sound [OF gmp less iter] by (auto simp: logged_def list_all_iff RE)
  with rewrite_means(2,3) [OF run] rs n
  show "caches_mean (rw_divByZeroConst R) rs' \<and> (\<forall>m. r = Inr m \<longrightarrow> same_meaning (rw_divByZeroConst R) m n)" by blast
qed

lemma any_range:
  "bb_range (rw_gmp R) (ranged R E) (rw_divByZeroConst R) (\<lambda>_. UNIV) (\<lambda>_. UNIV) (rewriter_exns E \<union> table_exns \<union> interrupt_exns True) True"
  by (intro bb_range.intro bb_range_axioms.intro gmp) (use ranged_keeps ranged_exns in \<open>auto simp: table_exns_def interrupt_exns_def\<close>)

lemma simple_range: "bb_range (rw_gmp R) E (rw_divByZeroConst R) bb_simple_terms (\<lambda>_. {}) (interrupt_exns H) H"
proof (intro bb_range.intro bb_range_axioms.intro gmp)
  show "set ns \<subseteq> bb_simple_terms f" if "App k ns \<in> bb_simple_terms (Suc f)" "bb_recursive k" for k ns f
    using that node_size_child [of _ ns k] by (fastforce simp: bb_simple_terms_def list_all_iff)
qed (auto simp: bb_simple_terms_def interrupt_exns_def node_size_pos)

lemma sim_spend: "sexc_sim (calls_in_range R) (TheoryBV_spendResource E) (TheoryBV_spendResource E)"
  by (auto simp: sexc_sim_def TheoryBV_spendResource_def calls_in_range_def Let_def split: prod.splits sum.splits)

lemma sim_rewrite: "sexc_sim (calls_in_range R) (Rewriter_rewrite E n) (Rewriter_rewrite (ranged R E) n)"
  unfolding sexc_sim_def
proof (intro allI impI)
  fix st m st' assume run: "Rewriter_rewrite E n st = Inr (m, st')" and range: "calls_in_range R st'"
  from run obtain rs where rs: "rewrite RE n (d_rewriter st) = Some (rs, Inr m)" "st' = st\<lparr>d_rewriter := rs\<rparr>"
    by (auto simp: Rewriter_rewrite_def rewriter split: option.splits prod.splits sum.splits)
  then have "list_all (supported_call R) (calls rs)" using range by (simp add: calls_in_range_def)
  then show "calls_in_range R st \<and> Rewriter_rewrite (ranged R E) n st = Inr (m, st')"
    using rs rewrite_means(1) [OF rs(1)] by (auto simp: calls_in_range_def grows_def list_all_iff Rewriter_rewrite_def ranged_def rewriter)
qed

lemma sim_variable: "sexc_sim (calls_in_range R) (TBitblaster_makeVariable n) (TBitblaster_makeVariable n)"
  by (auto simp: sexc_sim_def TBitblaster_makeVariable_def split: sum.splits typeNode.splits)

lemma sim_bbTerm:
  assumes "bitblaster_simulation bb bb' (calls_in_range R)"
  shows "sexc_sim (calls_in_range R) (TLazyBitblaster_bbTerm G E bb n) (TLazyBitblaster_bbTerm G (ranged R E) bb' n)"
proof -
  have "sexc_sim (calls_in_range R)
      (sbind (TheoryBV_spendResource E) (\<lambda>_. sbind (d_termBBStrategies G n bb) (\<lambda>bits. sbind (smodify (TBitblaster_storeBBTerm n bits)) (\<lambda>_. sreturn bits))))
      (sbind (TheoryBV_spendResource E) (\<lambda>_. sbind (d_termBBStrategies G n bb') (\<lambda>bits. sbind (smodify (TBitblaster_storeBBTerm n bits)) (\<lambda>_. sreturn bits))))"
    by (intro sexc_sim_bind sim_spend bitblaster_simulation.sim_termStrategy [OF assms] sexc_sim_modify sexc_sim_return) simp
  then show ?thesis unfolding sexc_sim_def TLazyBitblaster_bbTerm_def by (auto split: option.splits)
qed

lemma sim_bbAtom_definition:
  assumes "bitblaster_simulation bb bb' (calls_in_range R)"
  shows "sexc_sim (calls_in_range R) (bbAtom_definition E bb n) (bbAtom_definition (ranged R E) bb' n)"
  unfolding bbAtom_definition_def
  by (intro sexc_sim_bind sim_rewrite) (simp_all add: sexc_sim_return bitblaster_simulation.sim_atomStrategy [OF assms] sim_rewrite)

lemma sim_lazy_bbAtom:
  assumes "bitblaster_simulation bb bb' (calls_in_range R)"
  shows "sexc_sim (calls_in_range R) (TLazyBitblaster_bbAtom E bb a) (TLazyBitblaster_bbAtom (ranged R E) bb' a)"
  unfolding TLazyBitblaster_bbAtom_def Let_def
  by (intro sim_if sim_stay sexc_sim_bind sexc_sim_modify sim_bbAtom_definition [OF assms]) simp_all

lemma sim_eager_bbAtom:
  assumes "bitblaster_simulation bb bb' (calls_in_range R)"
  shows "sexc_sim (calls_in_range R) (EagerBitblaster_bbAtom E bb a) (EagerBitblaster_bbAtom (ranged R E) bb' a)"
  unfolding EagerBitblaster_bbAtom_def Let_def
  by (intro sim_if sim_stay sexc_sim_bind sim_bbAtom_definition [OF assms])
    (auto simp: sexc_sim_throw intro!: sexc_sim_bind sexc_sim_modify)

lemma sim_object:
  assumes "bitblaster_simulation bb bb' (calls_in_range R)" and "\<And>a. sexc_sim (calls_in_range R) (atom bb a) (atom' bb' a)"
  shows "bitblaster_simulation (bb_object G E atom (Some bb)) (bb_object G (ranged R E) atom' (Some bb')) (calls_in_range R)"
  by unfold_locales (simp_all add: bb_object_def sim_bbTerm [OF assms(1)] assms(2) sim_variable)

lemma sim_no_fuel: "bitblaster_simulation (bb_object G E atom None) (bb_object G (ranged R E) atom' None) (calls_in_range R)"
  by unfold_locales (simp_all add: bb_object_def sexc_sim_throw sim_variable)

lemma lazy_simulation: "bitblaster_simulation (lazy_bb G E f) (lazy_bb G (ranged R E) f) (calls_in_range R)"
  by (induction f) (simp_all add: sim_no_fuel sim_object sim_lazy_bbAtom)

lemma eager_simulation: "bitblaster_simulation (eager_bb G E f) (eager_bb G (ranged R E) f) (calls_in_range R)"
  by (induction f) (simp_all add: sim_no_fuel sim_object sim_eager_bbAtom)

end

section \<open>Reachable states\<close>

text \<open>The states a bit-blaster reaches by calls that return, on any bit-vector terms and any atoms, however deep the calls nest.\<close>

inductive bb_reachable :: "(nat \<Rightarrow> (node, bb_state) tbitblaster) \<Rightarrow> resource_manager \<Rightarrow> bb_state \<Rightarrow> bool"
  for bb rm where
  init: "bb_reachable bb rm (bb_init rm)"
| call_term: "bb_reachable bb rm st \<Longrightarrow> typeOf n = Some (BITVECTOR_TYPE w) \<Longrightarrow>
    bbTerm (bb f) n st = Inr (bits, st') \<Longrightarrow> bb_reachable bb rm st'"
| call_atom: "bb_reachable bb rm st \<Longrightarrow> typeOf a = Some BOOLEAN_TYPE \<Longrightarrow>
    bbAtom (bb f) a st = Inr ((), st') \<Longrightarrow> bb_reachable bb rm st'"

inductive_cases bb_reachableE: "bb_reachable bb rm st"

lemma contract_call_term:
  assumes "bitblaster_contract bb (ok_node I) (sem_node I) G I (bb_inv opt I H) T A F"
    and "n \<in> T" "typeOf n = Some (BITVECTOR_TYPE w)" "bb_inv opt I H st"
  shows "(\<exists>bits st'. bbTerm bb n st = Inr (bits, st') \<and> bb_inv opt I H st' \<and> node_bits.repr I bits w (v_int (eval I n))) \<or>
    (\<exists>e\<in>F. bbTerm bb n st = Inl e)"
  using bitblaster_contract.valid_term [OF assms(1-3)] assms(4)
  unfolding bitblaster_contract.valid_def [OF assms(1)] sexc_valid_def by blast

lemma contract_call_atom:
  assumes "bitblaster_contract bb (ok_node I) (sem_node I) G I (bb_inv opt I H) T A F"
    and "a \<in> A" "typeOf a = Some BOOLEAN_TYPE" "bb_inv opt I H st"
  shows "(\<exists>st'. bbAtom bb a st = Inr ((), st') \<and> bb_inv opt I H st') \<or> (\<exists>e\<in>F. bbAtom bb a st = Inl e)"
  using bitblaster_contract.valid_atom [OF assms(1-3)] assms(4)
  unfolding bitblaster_contract.valid_def [OF assms(1)] sexc_valid_def by auto

text \<open>The bits are Boolean terms, as many as the term is wide, that spell its value in every interpretation.\<close>

definition bits_spell :: "bool \<Rightarrow> node list \<Rightarrow> node \<Rightarrow> nat \<Rightarrow> bool" where
  "bits_spell opt bits n w \<longleftrightarrow> length bits = w \<and> (\<forall>b\<in>set bits. typeOf b = Some BOOLEAN_TYPE) \<and>
     (\<forall>I. wf_interp I \<longrightarrow> zero_division opt I \<longrightarrow> bits_val (map (\<lambda>b. v_bool (eval I b)) bits) = v_int (eval I n))"

lemma bits_spellI:
  assumes "\<And>I. wf_interp I \<Longrightarrow> zero_division opt I \<Longrightarrow> node_bits.repr I bits w (v_int (eval I n))"
  shows "bits_spell opt bits n w"
proof -
  have repr: "list_all (ok_node I) bits \<and> length bits = w \<and> bits_val (map (sem_node I) bits) = v_int (eval I n)"
    if "wf_interp I" "zero_division opt I" for I
    using assms [OF that] by (simp add: node_bits.repr_def node_bits.bval_def)
  then show ?thesis
    using repr [OF wf_interp_default zero_division_default]
    by (auto simp: bits_spell_def sem_node_def [abs_def] ok_node_def list_all_iff)
qed

text \<open>Runs of a bit-blaster \<open>bb\<close> that end in a state with \<open>ok\<close>, over one that meets the contract on every term.\<close>

locale bb_runs =
  fixes bb bb' :: "nat \<Rightarrow> (node, bb_state) tbitblaster" and ok :: "bb_state \<Rightarrow> bool" and opt :: bool and G :: gmp and F :: "exn set"
  assumes simulates: "bitblaster_simulation (bb f) (bb' f) ok"
    and contract: "wf_interp I \<Longrightarrow> zero_division opt I \<Longrightarrow>
      bitblaster_contract (bb' f) (ok_node I) (sem_node I) G I (bb_inv opt I True) UNIV UNIV F"
begin

lemma bbTerm_means:
  assumes "bbTerm (bb f) n st = Inr (bits, st')" and "ok st'" and "typeOf n = Some (BITVECTOR_TYPE w)"
    and "wf_interp I" "zero_division opt I"
  shows "ok st \<and> (bb_inv opt I True st \<longrightarrow> bb_inv opt I True st' \<and> node_bits.repr I bits w (v_int (eval I n)))"
  using sexc_simD [OF bitblaster_simulation.sim_term [OF simulates] assms(1,2)] contract_call_term [OF contract [OF assms(4,5)] UNIV_I assms(3), of st f]
  by auto

lemma bbAtom_means:
  assumes "bbAtom (bb f) a st = Inr ((), st')" and "ok st'" and "typeOf a = Some BOOLEAN_TYPE" and "wf_interp I" "zero_division opt I"
  shows "ok st \<and> (bb_inv opt I True st \<longrightarrow> bb_inv opt I True st')"
  using sexc_simD [OF bitblaster_simulation.sim_atom [OF simulates] assms(1,2)] contract_call_atom [OF contract [OF assms(4,5)] UNIV_I assms(3), of st f]
  by auto

lemma reachable_inv:
  assumes "bb_reachable bb rm st" and "ok st" and "wf_interp I" and "zero_division opt I"
  shows "bb_inv opt I True st"
  using assms(1,2)
proof induction
  case init
  show ?case by (rule bb_inv_init) simp
next
  case (call_term st n w f bits st')
  then show ?case using bbTerm_means [OF call_term(3) _ call_term(2) assms(3,4)] by blast
next
  case (call_atom st a f st')
  then show ?case using bbAtom_means [OF call_atom(3) _ call_atom(2) assms(3,4)] by blast
qed

text \<open>What the invariant says, over all interpretations at once.\<close>

lemma reachable_asserted:
  assumes "bb_reachable bb rm st" and "ok st" and "\<phi> \<in> asserted st"
  shows "typeOf \<phi> = Some BOOLEAN_TYPE \<and> (\<forall>I. wf_interp I \<longrightarrow> zero_division opt I \<longrightarrow> eval I \<phi> = VBool True)"
  using reachable_inv [OF assms(1,2)] assms(3) wf_interp_default zero_division_default unfolding bb_inv_def by blast

lemma reachable_term:
  assumes "bb_reachable bb rm st" and "bbTerm (bb f) n st = Inr (bits, st')" and "ok st'" and n: "typeOf n = Some (BITVECTOR_TYPE w)"
  shows "bits_spell opt bits n w"
  using bbTerm_means [OF assms(2,3) n] reachable_inv [OF assms(1)] by (intro bits_spellI) blast

end

text \<open>What a successful call of \<open>bbAtom\<close> on a new atom leaves behind: the atom is marked and its definition is
  the last formula handed to the CNF stream.\<close>

lemma lazy_bbAtom_asserts:
  assumes "TLazyBitblaster_bbAtom E bb a st = Inr ((), st')" and "strip_not a \<notin> set (d_bbAtoms st)"
  shows "strip_not a \<in> set (d_bbAtoms st') \<and> (\<exists>d cs. d_cnfCalls st' = cs @ [ConvertAndAssert (App EQUAL [strip_not a, d])])"
  using assms
  by (auto simp: TLazyBitblaster_bbAtom_def Let_def sbind_def smodify_def TBitblaster_storeBBAtom_def convertAndAssert_def
      split: sum.splits)

lemma eager_bbAtom_asserts:
  assumes "EagerBitblaster_bbAtom E bb a st = Inr ((), st')" and "strip_not a \<notin> set (d_bbAtoms st)"
    and "\<And>i. \<not> hasKind (BITVECTOR_BITOF i) (strip_not a)"
  shows "strip_not a \<in> set (d_bbAtoms st') \<and> (\<exists>d cs. d_cnfCalls st' = cs @ [ConvertAndAssert (App EQUAL [strip_not a, d])])"
  using assms
  by (auto simp: EagerBitblaster_bbAtom_def Let_def sbind_def smodify_def sthrow_def TBitblaster_storeBBAtom_def convertAndAssert_def
      hasKind_def split: sum.splits if_splits node.splits kind.splits)

section \<open>The bit-blasters over the rewriter of the code\<close>

context bb_program
begin

abbreviation (input) exns :: "exn set" where
  "exns \<equiv> rewriter_exns E \<union> table_exns \<union> interrupt_exns True"

lemma lazy_runs: "bb_runs (lazy_bb (rw_gmp R) E) (lazy_bb (rw_gmp R) (ranged R E)) (calls_in_range R) (rw_divByZeroConst R) (rw_gmp R) exns"
  by (intro bb_runs.intro lazy_simulation bb_range.lazy_contract [OF any_range])

lemma eager_runs:
  "env_eagerMode E \<Longrightarrow>
    bb_runs (eager_bb (rw_gmp R) E) (eager_bb (rw_gmp R) (ranged R E)) (calls_in_range R) (rw_divByZeroConst R) (rw_gmp R) exns"
  by (intro bb_runs.intro eager_simulation bb_range.eager_contract [OF any_range]) simp_all

text \<open>Where the rewriter is not needed, the calls return unless the resource manager interrupts them.\<close>

lemma simple_bbTerm_returns:
  assumes st: "bb_reachable (lazy_bb (rw_gmp R) E) rm st" "calls_in_range R st" and n: "typeOf n = Some (BITVECTOR_TYPE w)" "n \<in> bb_simple_terms f"
  shows "(\<exists>bits st'. bbTerm (lazy_bb (rw_gmp R) E f) n st = Inr (bits, st') \<and> bits_spell (rw_divByZeroConst R) bits n w) \<or>
    hard_limited st \<and> bbTerm (lazy_bb (rw_gmp R) E f) n st = Inl UnsafeInterruptException"
proof -
  let ?opt = "rw_divByZeroConst R" and ?r = "bbTerm (lazy_bb (rw_gmp R) E f) n st"
  have call: "(\<exists>bits st'. ?r = Inr (bits, st') \<and> node_bits.repr I bits w (v_int (eval I n))) \<or> (\<exists>e\<in>interrupt_exns (hard_limited st). ?r = Inl e)"
    if I: "wf_interp I" "zero_division ?opt I" for I
    using contract_call_term [OF bb_range.lazy_contract [OF simple_range I] n(2,1) bb_inv_limit [OF bb_runs.reachable_inv [OF lazy_runs st I]]]
    by blast
  show ?thesis
  proof (cases ?r)
    case (Inl e)
    then show ?thesis using call [OF wf_interp_default zero_division_default] by (auto simp: interrupt_exns_def split: if_splits)
  next
    case (Inr y)
    then obtain bits st' where y: "?r = Inr (bits, st')" by (cases y) simp
    have "bits_spell ?opt bits n w" using call y by (intro bits_spellI) auto
    with y show ?thesis by blast
  qed
qed

lemma simple_definition_returns:
  assumes inv: "bb_inv (rw_divByZeroConst R) default_interp True st"
    and C: "bitblaster_contract bb (ok_node default_interp) (sem_node default_interp) (rw_gmp R) default_interp
      (bb_inv (rw_divByZeroConst R) default_interp (hard_limited (st\<lparr>d_rewriter := rs\<rparr>))) (bb_simple_terms f) {}
      (interrupt_exns (hard_limited (st\<lparr>d_rewriter := rs\<rparr>)))"
    and n: "typeOf n = Some BOOLEAN_TYPE" and run: "rewrite RE n (d_rewriter st) = Some (rs, Inr m)"
    and range: "list_all (supported_call R) (calls rs)" and m: "bb_simple_atom f m"
  shows "(\<exists>d st'. bbAtom_definition E bb n st = Inr (d, st')) \<or>
    hard_limited (st\<lparr>d_rewriter := rs\<rparr>) \<and> bbAtom_definition E bb n st = Inl UnsafeInterruptException \<or>
    (\<exists>d st2 e. \<not> env_proof E \<and> typeOf d = Some BOOLEAN_TYPE \<and> Rewriter_rewrite E d st2 = Inl e \<and> bbAtom_definition E bb n st = Inl e)"
proof -
  let ?opt = "rw_divByZeroConst R" and ?st1 = "st\<lparr>d_rewriter := rs\<rparr>"
  note I = wf_interp_default zero_division_default
  have first: "Rewriter_rewrite E n st = Inr (m, ?st1)" using run by (simp add: Rewriter_rewrite_def rewriter)
  have "caches_mean ?opt rs" "same_meaning ?opt m n"
    using ranged_keeps inv n run range by (auto simp: rewriter_keeps_def ranged_rewrite rewriter bb_inv_def)
  then have st1: "bb_inv ?opt default_interp (hard_limited ?st1) ?st1" and mt: "typeOf m = Some BOOLEAN_TYPE"
    using bb_inv_limit [OF bb_inv_rewriter [OF inv _ TrueI]] n by (auto simp: same_meaning_def)
  have "is_const_boolean m \<or> (\<exists>k x y. m = App k [x, y] \<and> bb_comparison k x \<and> x \<in> bb_simple_terms f \<and> y \<in> bb_simple_terms f)"
    using m by (auto simp: bb_simple_atom_def is_const_boolean_def split: node.splits list.splits)
  from bb_range.bbAtom_definition_progress [OF simple_range C first mt this st1 I(1)] show ?thesis
    by (auto simp: interrupt_exns_def split: if_splits)
qed

lemma hard_limited_addAtom [simp]: "hard_limited (TLazyBitblaster_addAtom a st\<lparr>d_rewriter := rs\<rparr>) = hard_limited (st\<lparr>d_rewriter := rs\<rparr>)"
  by (simp add: hard_limited_def)

lemma rewrite_in_range:
  assumes "env_rewrite E n (d_rewriter st) = Some (rs, r)" and "calls_in_range R (st\<lparr>d_rewriter := rs\<rparr>)"
  shows "rewrite RE n (d_rewriter st) = Some (rs, r)" and "list_all (supported_call R) (calls rs)" and "calls_in_range R st"
proof -
  show run: "rewrite RE n (d_rewriter st) = Some (rs, r)" and calls: "list_all (supported_call R) (calls rs)"
    using assms by (simp_all add: rewriter calls_in_range_def)
  show "calls_in_range R st" using rewrite_means(1) [OF run] calls by (auto simp: calls_in_range_def grows_def list_all_iff)
qed

lemma lazy_bbAtom_returns:
  assumes st: "bb_reachable (lazy_bb (rw_gmp R) E) rm st" and a: "typeOf a = Some BOOLEAN_TYPE"
    and new: "strip_not a \<notin> set (d_bbAtoms st)"
    and run: "env_rewrite E (strip_not a) (d_rewriter st) = Some (rs, Inr m)" "calls_in_range R (st\<lparr>d_rewriter := rs\<rparr>)" "bb_simple_atom f m"
  shows "(\<exists>st'. bbAtom (lazy_bb (rw_gmp R) E (Suc f)) a st = Inr ((), st')) \<or>
    hard_limited (st\<lparr>d_rewriter := rs\<rparr>) \<and> bbAtom (lazy_bb (rw_gmp R) E (Suc f)) a st = Inl UnsafeInterruptException \<or>
    (\<exists>d st2 e. \<not> env_proof E \<and> typeOf d = Some BOOLEAN_TYPE \<and> Rewriter_rewrite E d st2 = Inl e \<and>
       bbAtom (lazy_bb (rw_gmp R) E (Suc f)) a st = Inl e)"
proof -
  note I = wf_interp_default zero_division_default
  let ?st = "TLazyBitblaster_addAtom (strip_not a) st"
  note range = rewrite_in_range [OF run(1,2)]
  have inv: "bb_inv (rw_divByZeroConst R) default_interp True ?st"
    using bb_runs.reachable_inv [OF lazy_runs st range(3) I] by simp
  have outcome: "bbAtom (lazy_bb (rw_gmp R) E (Suc f)) a st =
      sbind (bbAtom_definition E (lazy_bb (rw_gmp R) E f) (strip_not a)) (\<lambda>atom_bb. sbind (smodify (TBitblaster_storeBBAtom (strip_not a))) (\<lambda>_.
        smodify (convertAndAssert (App EQUAL [strip_not a, atom_bb])))) ?st"
    using new by (simp add: bb_object_def TLazyBitblaster_bbAtom_def sbind_def smodify_def Let_def)
  have "rewrite RE (strip_not a) (d_rewriter ?st) = Some (rs, Inr m)" using range(1) by simp
  from simple_definition_returns [OF inv bb_range.lazy_contract [OF simple_range I] strip_not_typed [OF a] this range(2) run(3)]
  show ?thesis unfolding outcome by (elim disjE exE conjE) (auto simp: sbind_def smodify_def)
qed

lemma eager_bbAtom_returns:
  assumes mode: "env_eagerMode E" and st: "bb_reachable (eager_bb (rw_gmp R) E) rm st" and a: "typeOf a = Some BOOLEAN_TYPE"
    and new: "strip_not a \<notin> set (d_bbAtoms st)"
    and run: "env_rewrite E (strip_not a) (d_rewriter st) = Some (rs, Inr m)" "calls_in_range R (st\<lparr>d_rewriter := rs\<rparr>)" "bb_simple_atom f m"
  shows "(\<exists>st'. bbAtom (eager_bb (rw_gmp R) E (Suc f)) a st = Inr ((), st')) \<or>
    hard_limited (st\<lparr>d_rewriter := rs\<rparr>) \<and> bbAtom (eager_bb (rw_gmp R) E (Suc f)) a st = Inl UnsafeInterruptException \<or>
    (\<exists>d st2 e. \<not> env_proof E \<and> typeOf d = Some BOOLEAN_TYPE \<and> Rewriter_rewrite E d st2 = Inl e \<and>
       bbAtom (eager_bb (rw_gmp R) E (Suc f)) a st = Inl e)"
proof -
  note I = wf_interp_default zero_division_default and range = rewrite_in_range [OF run(1,2)]
  have inv: "bb_inv (rw_divByZeroConst R) default_interp True st"
    using bb_runs.reachable_inv [OF eager_runs [OF mode] st range(3) I] .
  have outcome: "(\<exists>i ns. strip_not a = App (BITVECTOR_BITOF i) ns \<and> bbAtom (eager_bb (rw_gmp R) E (Suc f)) a st = Inr ((), st)) \<or>
      bbAtom (eager_bb (rw_gmp R) E (Suc f)) a st =
        sbind (bbAtom_definition E (eager_bb (rw_gmp R) E f) (strip_not a)) (\<lambda>atom_bb. sbind (smodify (TBitblaster_storeBBAtom (strip_not a))) (\<lambda>_.
          smodify (convertAndAssert (App EQUAL [strip_not a, atom_bb])))) st"
    using new mode by (auto simp: bb_object_def EagerBitblaster_bbAtom_def Let_def split: node.split kind.split)
  from simple_definition_returns [OF inv bb_range.eager_contract [OF simple_range I mode] strip_not_typed [OF a] range(1,2) run(3)] outcome
  show ?thesis by (elim disjE exE conjE) (auto simp: sbind_def smodify_def)
qed

end

sublocale bb_program \<subseteq> lazy: bb_runs "lazy_bb (rw_gmp R) E" "lazy_bb (rw_gmp R) (ranged R E)" "calls_in_range R" "rw_divByZeroConst R" "rw_gmp R"
  "rewriter_exns E \<union> table_exns \<union> interrupt_exns True"
  by (rule lazy_runs)

sublocale bb_program \<subseteq> lazy_ranged: bitblaster_simulation "lazy_bb (rw_gmp R) E f" "lazy_bb (rw_gmp R) (ranged R E) f" "calls_in_range R" for f
  by (rule lazy_simulation)

sublocale bb_program \<subseteq> any: bb_range "rw_gmp R" "ranged R E" "rw_divByZeroConst R" "\<lambda>_. UNIV" "\<lambda>_. UNIV"
  "rewriter_exns E \<union> table_exns \<union> interrupt_exns True" True
  by (rule any_range)

sublocale bb_program \<subseteq> simple: bb_range "rw_gmp R" E "rw_divByZeroConst R" bb_simple_terms "\<lambda>_. {}" "interrupt_exns H" H for H
  by (rule simple_range)

end
