(* ===== verification/Sat_Solver.thy ===== *)
theory Sat_Solver
  imports Main "HOL-Library.Word"
begin

text \<open>
  The vocabulary of the SAT solvers: \<open>SatVariable\<close>, \<open>SatLiteral\<close>, \<open>SatClause\<close> and \<open>SatValue\<close> of
  \<open>src/src/prop/sat_solver_types.h\<close>, kept at their 64 bits, and the abstract class \<open>SatSolver\<close>
  (\<open>src/src/prop/sat_solver.h\<close>) as a record of its virtual methods. The locale \<open>sat_solver\<close> is what the
  comments of that class promise to a client: which variables exist and which assignments are
  models of the clauses added so far.
\<close>

section \<open>Literals\<close>

type_synonym satVariable = "64 word"

datatype satLiteral = Sat_Literal (toInt: "64 word")

type_synonym satClause = "satLiteral list"

datatype satValue = SAT_VALUE_UNKNOWN | SAT_VALUE_TRUE | SAT_VALUE_FALSE

definition invertValue :: "satValue \<Rightarrow> satValue" where
  "invertValue v = (if v = SAT_VALUE_UNKNOWN then SAT_VALUE_UNKNOWN
     else if v = SAT_VALUE_TRUE then SAT_VALUE_FALSE else SAT_VALUE_TRUE)"

definition undefSatVariable :: satVariable where
  "undefSatVariable = - 1"

definition SatLiteral_default :: satLiteral where
  "SatLiteral_default = Sat_Literal undefSatVariable"

definition SatLiteral :: "satVariable \<Rightarrow> bool \<Rightarrow> satLiteral" where
  "SatLiteral var negated = Sat_Literal (var + var + of_bool negated)"

definition getSatVariable :: "satLiteral \<Rightarrow> satVariable" where
  "getSatVariable l = drop_bit 1 (toInt l)"

definition isNegated :: "satLiteral \<Rightarrow> bool" where
  "isNegated l \<longleftrightarrow> and (toInt l) 1 \<noteq> 0"

definition SatLiteral_not :: "satLiteral \<Rightarrow> satLiteral" where
  "SatLiteral_not l = SatLiteral (getSatVariable l) (\<not> isNegated l)"

definition SatLiteral_isNull :: "satLiteral \<Rightarrow> bool" where
  "SatLiteral_isNull l \<longleftrightarrow> getSatVariable l = undefSatVariable"

definition undefSatLiteral :: satLiteral where
  "undefSatLiteral = SatLiteral undefSatVariable False"

text \<open>Variables a literal can hold: the upper half of the 64 bits is lost when a variable is doubled.\<close>

definition small_var :: "satVariable \<Rightarrow> bool" where
  "small_var x \<longleftrightarrow> uint x < 2 ^ 63"

lemma uint_getSatVariable: "uint (getSatVariable l) = uint (toInt l) div 2"
  by (simp add: getSatVariable_def drop_bit_eq_div uint_div)

lemma isNegated_odd: "isNegated l \<longleftrightarrow> odd (uint (toInt l))"
proof -
  have "uint (and (toInt l) 1) = uint (toInt l) mod 2" by (simp add: and_one_eq uint_mod)
  then show ?thesis unfolding isNegated_def word_eq_iff_unsigned [where 'a = int] by (auto simp: odd_iff_mod_2_eq_one)
qed

lemma small_getSatVariable [simp]: "small_var (getSatVariable l)"
  using uint_lt2p [of "toInt l"] by (simp add: small_var_def uint_getSatVariable)

lemma uint_SatLiteral: "small_var x \<Longrightarrow> uint (toInt (SatLiteral x b)) = 2 * uint x + of_bool b"
  by (simp add: SatLiteral_def small_var_def uint_word_ariths)

lemma getSatVariable_SatLiteral [simp]: "small_var x \<Longrightarrow> getSatVariable (SatLiteral x b) = x"
  by (rule word_eq_iff_unsigned [where 'a = int, THEN iffD2]) (simp add: uint_getSatVariable uint_SatLiteral)

lemma isNegated_SatLiteral [simp]: "small_var x \<Longrightarrow> isNegated (SatLiteral x b) = b"
  by (simp add: isNegated_odd uint_SatLiteral)

lemma SatLiteral_surj [simp]: "SatLiteral (getSatVariable l) (isNegated l) = l"
  by (rule satLiteral.expand, rule word_eq_iff_unsigned [where 'a = int, THEN iffD2]) (simp add: uint_SatLiteral uint_getSatVariable isNegated_odd)

lemma SatLiteral_not_simps [simp]:
  "getSatVariable (SatLiteral_not l) = getSatVariable l"
  "isNegated (SatLiteral_not l) \<longleftrightarrow> \<not> isNegated l"
  "SatLiteral_not (SatLiteral_not l) = l"
  by (simp_all add: SatLiteral_not_def)

text \<open>The value of the null literal has its lowest bit set or not, and its variable is at most
  \<open>2 ^ 63 - 1\<close>: no literal tests as null.\<close>

lemma not_isNull: "\<not> SatLiteral_isNull l"
proof
  assume "SatLiteral_isNull l"
  then have "small_var undefSatVariable" using small_getSatVariable [of l] by (simp add: SatLiteral_isNull_def)
  then show False by (simp add: small_var_def undefSatVariable_def unsigned_minus_1_eq_mask mask_eq_exp_minus_1)
qed

section \<open>Assignments\<close>

type_synonym assignment = "satVariable \<Rightarrow> bool"

definition lit_true :: "assignment \<Rightarrow> satLiteral \<Rightarrow> bool" where
  "lit_true \<alpha> l \<longleftrightarrow> \<alpha> (getSatVariable l) \<noteq> isNegated l"

definition clause_true :: "assignment \<Rightarrow> satClause \<Rightarrow> bool" where
  "clause_true \<alpha> c \<longleftrightarrow> list_ex (lit_true \<alpha>) c"

lemma lit_true_not [simp]: "lit_true \<alpha> (SatLiteral_not l) \<longleftrightarrow> \<not> lit_true \<alpha> l"
  by (auto simp: lit_true_def)

lemma lit_true_SatLiteral [simp]: "small_var x \<Longrightarrow> lit_true \<alpha> (SatLiteral x b) \<longleftrightarrow> \<alpha> x \<noteq> b"
  by (simp add: lit_true_def)

lemma clause_true_simps [simp]:
  "\<not> clause_true \<alpha> []"
  "clause_true \<alpha> (l # c) \<longleftrightarrow> lit_true \<alpha> l \<or> clause_true \<alpha> c"
  "clause_true \<alpha> (c @ d) \<longleftrightarrow> clause_true \<alpha> c \<or> clause_true \<alpha> d"
  by (simp_all add: clause_true_def)

lemma lit_true_upd: "getSatVariable l \<noteq> x \<Longrightarrow> lit_true (\<alpha>(x := b)) l = lit_true \<alpha> l"
  by (simp add: lit_true_def)

section \<open>The interface\<close>

text \<open>The methods \<open>CnfStream\<close> calls. \<open>newVar\<close> takes \<open>isTheoryAtom\<close>, \<open>preRegister\<close> and \<open>canErase\<close>; \<open>addClause\<close>
  takes \<open>removable\<close>, and its result, the identifier of the clause for proofs, is not used without them.\<close>

record 's satSolver =
  addClause :: "satClause \<Rightarrow> bool \<Rightarrow> 's \<Rightarrow> 's"
  newVar :: "bool \<Rightarrow> bool \<Rightarrow> bool \<Rightarrow> 's \<Rightarrow> satVariable \<times> 's"
  trueVar :: "'s \<Rightarrow> satVariable"
  falseVar :: "'s \<Rightarrow> satVariable"

text \<open>\<open>vars\<close> are the variables created so far, \<open>models\<close> the assignments that satisfy the clauses added so
  far, and \<open>capacity\<close> the number of variables the solver can number.\<close>

locale sat_solver =
  fixes S :: "'s satSolver"
    and sat_inv :: "'s \<Rightarrow> bool"
    and vars :: "'s \<Rightarrow> satVariable set"
    and models :: "'s \<Rightarrow> assignment set"
    and capacity :: nat
  assumes newVar_spec:
      "\<lbrakk>sat_inv s; card (vars s) < capacity; newVar S isTheoryAtom preRegister canErase s = (x, s')\<rbrakk> \<Longrightarrow>
        sat_inv s' \<and> x \<notin> vars s \<and> vars s' = insert x (vars s) \<and> models s' = models s"
    and addClause_spec:
      "\<lbrakk>sat_inv s; getSatVariable ` set c \<subseteq> vars s\<rbrakk> \<Longrightarrow>
        sat_inv (addClause S c removable s) \<and> vars (addClause S c removable s) = vars s \<and>
        models (addClause S c removable s) = {\<alpha> \<in> models s. clause_true \<alpha> c}"
    and constants: "sat_inv s \<Longrightarrow> {trueVar S s, falseVar S s} \<subseteq> vars s"
    and constants_fixed: "\<lbrakk>sat_inv s; \<alpha> \<in> models s\<rbrakk> \<Longrightarrow> \<alpha> (trueVar S s) \<and> \<not> \<alpha> (falseVar S s)"
    and models_local: "\<lbrakk>sat_inv s; \<alpha> \<in> models s; \<And>x. x \<in> vars s \<Longrightarrow> \<beta> x = \<alpha> x\<rbrakk> \<Longrightarrow> \<beta> \<in> models s"
    and vars_finite: "sat_inv s \<Longrightarrow> finite (vars s)"
    and vars_small: "\<lbrakk>sat_inv s; x \<in> vars s\<rbrakk> \<Longrightarrow> small_var x"

end
