(* ===== verification/Cnf_Stream.thy ===== *)
theory Cnf_Stream
  imports Bitblaster Sat_Solver Theory_Of
begin

text \<open>
  The CNF converter (\<open>src/src/prop/cnf_stream.cpp\<close>): \<open>CnfStream\<close> and \<open>TseitinCnfStream\<close>, over any solver
  behind the interface of \<open>Sat_Solver\<close>. The state is the two maps between nodes and literals, the list
  of Boolean variables, the flag for removable clauses, the solver, and what the stream tells its
  environment: the nodes given to the registrar and how often it spent a resource. The registrar does
  not call back (\<open>NullRegistrar\<close>, the one of the bit-blasters), no clauses are dumped and no proof is
  attached, so the node that comes with a clause is not used. The recursion of \<open>toCNF\<close> and
  \<open>convertAndAssert\<close> is structural: a handler gets the conversions of the children, not yet run.
\<close>

section \<open>State\<close>

record cnf_env =
  d_fullLitToNodeMap :: bool
  env_theoryOfMode :: theoryOfMode
  env_sortOwner :: theoryId

record 's cnf_state =
  d_satSolver :: 's
  d_booleanVariables :: "node list"
  d_nodeToLiteralMap :: "node \<rightharpoonup> satLiteral"
  d_literalToNodeMap :: "satLiteral \<rightharpoonup> node"
  d_convertAndAssertCounter :: nat
  d_removable :: bool
  d_preRegistered :: "node list"
  d_resourcesSpent :: nat

definition CnfStream :: "'s \<Rightarrow> 's cnf_state" where
  "CnfStream solver = \<lparr>d_satSolver = solver, d_booleanVariables = [], d_nodeToLiteralMap = Map.empty,
     d_literalToNodeMap = Map.empty, d_convertAndAssertCounter = 0, d_removable = False,
     d_preRegistered = [], d_resourcesSpent = 0\<rparr>"

definition getFrequencyCount :: nat where
  "getFrequencyCount = 1000"

text \<open>\<open>insert\<close> and \<open>insert_safe\<close> of \<open>CDInsertHashMap\<close>: a key that is mapped keeps its value.\<close>

definition cd_insert :: "'k \<Rightarrow> 'd \<Rightarrow> ('k \<rightharpoonup> 'd) \<Rightarrow> ('k \<rightharpoonup> 'd)" where
  "cd_insert k d m = (case m k of None \<Rightarrow> m(k \<mapsto> d) | Some old \<Rightarrow> m)"

definition notNode :: "node \<Rightarrow> node" where
  "notNode n = App NOT [n]"

section \<open>Literals and clauses\<close>

fun smapM :: "('s, 'a) sexc list \<Rightarrow> ('s, 'a list) sexc" where
  "smapM [] = sreturn []"
| "smapM (c # cs) = sbind c (\<lambda>x. sbind (smapM cs) (\<lambda>xs. sreturn (x # xs)))"

definition CnfStream_assertClause :: "'s satSolver \<Rightarrow> satClause \<Rightarrow> ('s cnf_state, unit) sexc" where
  "CnfStream_assertClause S c =
     smodify (\<lambda>st. st\<lparr>d_satSolver := addClause S c (d_removable st) (d_satSolver st)\<rparr>)"

fun assertClauses :: "'s satSolver \<Rightarrow> satClause list \<Rightarrow> ('s cnf_state, unit) sexc" where
  "assertClauses S [] = sreturn ()"
| "assertClauses S (c # cs) = sbind (CnfStream_assertClause S c) (\<lambda>_. assertClauses S cs)"

definition CnfStream_hasLiteral :: "'s cnf_state \<Rightarrow> node \<Rightarrow> bool" where
  "CnfStream_hasLiteral st n \<longleftrightarrow> d_nodeToLiteralMap st n \<noteq> None"

definition CnfStream_getLiteral :: "node \<Rightarrow> ('s cnf_state, satLiteral) sexc" where
  "CnfStream_getLiteral n =
     (\<lambda>st. case d_nodeToLiteralMap st n of Some l \<Rightarrow> Inr (l, st) | None \<Rightarrow> Inl AssertionException)"

definition CnfStream_getNode :: "satLiteral \<Rightarrow> ('s cnf_state, node) sexc" where
  "CnfStream_getNode l =
     (\<lambda>st. case d_literalToNodeMap st l of Some n \<Rightarrow> Inr (n, st) | None \<Rightarrow> Inl AssertionException)"

definition CnfStream_getBooleanVariables :: "'s cnf_state \<Rightarrow> node list \<Rightarrow> node list" where
  "CnfStream_getBooleanVariables st outputVariables = outputVariables @ d_booleanVariables st"

definition store_back :: "satLiteral \<Rightarrow> node \<Rightarrow> 's cnf_state \<Rightarrow> 's cnf_state" where
  "store_back lit n st =
     st\<lparr>d_literalToNodeMap := cd_insert (SatLiteral_not lit) (notNode n) (cd_insert lit n (d_literalToNodeMap st))\<rparr>"

definition make_literal ::
  "'s satSolver \<Rightarrow> node \<Rightarrow> bool \<Rightarrow> bool \<Rightarrow> bool \<Rightarrow> 's \<Rightarrow> satLiteral \<times> 's" where
  "make_literal S node isTheoryAtom preRegister canEliminate s =
     (case node of
        CONST_BOOLEAN b \<Rightarrow> (SatLiteral (if b then trueVar S s else falseVar S s) False, s)
      | _ \<Rightarrow> let (x, s') = newVar S isTheoryAtom preRegister canEliminate s in (SatLiteral x False, s'))"

definition CnfStream_newLiteral ::
  "'s satSolver \<Rightarrow> cnf_env \<Rightarrow> node \<Rightarrow> bool \<Rightarrow> bool \<Rightarrow> bool \<Rightarrow> ('s cnf_state, satLiteral) sexc" where
  "CnfStream_newLiteral S E node isTheoryAtom preRegister canEliminate =
     sbind (\<lambda>st.
       if \<not> CnfStream_hasLiteral st node then
         let (lit, s) = make_literal S node isTheoryAtom preRegister canEliminate (d_satSolver st)
         in Inr (lit, st\<lparr>d_satSolver := s,
              d_nodeToLiteralMap := cd_insert (notNode node) (SatLiteral_not lit) (cd_insert node lit (d_nodeToLiteralMap st))\<rparr>)
       else CnfStream_getLiteral node st) (\<lambda>lit.
     sbind (smodify (\<lambda>st. if isTheoryAtom \<or> d_fullLitToNodeMap E then store_back lit node st else st)) (\<lambda>_.
     sbind (smodify (\<lambda>st. if preRegister then st\<lparr>d_preRegistered := d_preRegistered st @ [node]\<rparr> else st)) (\<lambda>_.
     sreturn lit)))"

definition CnfStream_convertAtom ::
  "'s satSolver \<Rightarrow> cnf_env \<Rightarrow> node \<Rightarrow> bool \<Rightarrow> ('s cnf_state, satLiteral) sexc" where
  "CnfStream_convertAtom S E node noPreregistration =
     (if isVar node then
        sbind (smodify (\<lambda>st. st\<lparr>d_booleanVariables := d_booleanVariables st @ [node]\<rparr>)) (\<lambda>_.
        CnfStream_newLiteral S E node False False True)
      else CnfStream_newLiteral S E node True (\<not> noPreregistration) False)"

abbreviation gateLiteral :: "'s satSolver \<Rightarrow> cnf_env \<Rightarrow> node \<Rightarrow> ('s cnf_state, satLiteral) sexc" where
  "gateLiteral S E node \<equiv> CnfStream_newLiteral S E node False False True"

section \<open>The Tseitin handlers\<close>

definition TseitinCnfStream_handleXor ::
  "'s satSolver \<Rightarrow> cnf_env \<Rightarrow> node \<Rightarrow> ('s cnf_state, satLiteral) sexc list \<Rightarrow> ('s cnf_state, satLiteral) sexc" where
  "TseitinCnfStream_handleXor S E xorNode cs =
     (case cs of
        [ca, cb] \<Rightarrow>
          sbind ca (\<lambda>a. sbind cb (\<lambda>b.
          sbind (gateLiteral S E xorNode) (\<lambda>xorLit.
          sbind (assertClauses S
            [[a, b, SatLiteral_not xorLit],
             [SatLiteral_not a, SatLiteral_not b, SatLiteral_not xorLit],
             [a, SatLiteral_not b, xorLit],
             [SatLiteral_not a, b, xorLit]]) (\<lambda>_.
          sreturn xorLit))))
      | _ \<Rightarrow> sthrow AssertionException)"

definition TseitinCnfStream_handleOr ::
  "'s satSolver \<Rightarrow> cnf_env \<Rightarrow> node \<Rightarrow> ('s cnf_state, satLiteral) sexc list \<Rightarrow> ('s cnf_state, satLiteral) sexc" where
  "TseitinCnfStream_handleOr S E orNode cs =
     sbind (smapM cs) (\<lambda>clause.
     sbind (gateLiteral S E orNode) (\<lambda>orLit.
     sbind (assertClauses S (map (\<lambda>a. [orLit, SatLiteral_not a]) clause)) (\<lambda>_.
     sbind (CnfStream_assertClause S (clause @ [SatLiteral_not orLit])) (\<lambda>_.
     sreturn orLit))))"

definition TseitinCnfStream_handleAnd ::
  "'s satSolver \<Rightarrow> cnf_env \<Rightarrow> node \<Rightarrow> ('s cnf_state, satLiteral) sexc list \<Rightarrow> ('s cnf_state, satLiteral) sexc" where
  "TseitinCnfStream_handleAnd S E andNode cs =
     sbind (smapM (map (\<lambda>c. sbind c (\<lambda>a. sreturn (SatLiteral_not a))) cs)) (\<lambda>clause.
     sbind (gateLiteral S E andNode) (\<lambda>andLit.
     sbind (assertClauses S (map (\<lambda>a. [SatLiteral_not andLit, SatLiteral_not a]) clause)) (\<lambda>_.
     sbind (CnfStream_assertClause S (clause @ [andLit])) (\<lambda>_.
     sreturn andLit))))"

definition TseitinCnfStream_handleImplies ::
  "'s satSolver \<Rightarrow> cnf_env \<Rightarrow> node \<Rightarrow> ('s cnf_state, satLiteral) sexc list \<Rightarrow> ('s cnf_state, satLiteral) sexc" where
  "TseitinCnfStream_handleImplies S E impliesNode cs =
     (case cs of
        [ca, cb] \<Rightarrow>
          sbind ca (\<lambda>a. sbind cb (\<lambda>b.
          sbind (gateLiteral S E impliesNode) (\<lambda>impliesLit.
          sbind (assertClauses S
            [[SatLiteral_not impliesLit, SatLiteral_not a, b],
             [a, impliesLit],
             [SatLiteral_not b, impliesLit]]) (\<lambda>_.
          sreturn impliesLit))))
      | _ \<Rightarrow> sthrow AssertionException)"

definition TseitinCnfStream_handleIff ::
  "'s satSolver \<Rightarrow> cnf_env \<Rightarrow> node \<Rightarrow> ('s cnf_state, satLiteral) sexc list \<Rightarrow> ('s cnf_state, satLiteral) sexc" where
  "TseitinCnfStream_handleIff S E iffNode cs =
     (case cs of
        [ca, cb] \<Rightarrow>
          sbind ca (\<lambda>a. sbind cb (\<lambda>b.
          sbind (gateLiteral S E iffNode) (\<lambda>iffLit.
          sbind (assertClauses S
            [[SatLiteral_not a, b, SatLiteral_not iffLit],
             [a, SatLiteral_not b, SatLiteral_not iffLit],
             [SatLiteral_not a, SatLiteral_not b, iffLit],
             [a, b, iffLit]]) (\<lambda>_.
          sreturn iffLit))))
      | _ \<Rightarrow> sthrow AssertionException)"

definition TseitinCnfStream_handleNot ::
  "('s cnf_state, satLiteral) sexc list \<Rightarrow> ('s cnf_state, satLiteral) sexc" where
  "TseitinCnfStream_handleNot cs =
     (case cs of
        [c] \<Rightarrow> sbind c (\<lambda>a. sreturn (SatLiteral_not a))
      | _ \<Rightarrow> sthrow AssertionException)"

definition TseitinCnfStream_handleIte ::
  "'s satSolver \<Rightarrow> cnf_env \<Rightarrow> node \<Rightarrow> ('s cnf_state, satLiteral) sexc list \<Rightarrow> ('s cnf_state, satLiteral) sexc" where
  "TseitinCnfStream_handleIte S E iteNode cs =
     (case cs of
        [cc, ct, ce] \<Rightarrow>
          sbind cc (\<lambda>condLit. sbind ct (\<lambda>thenLit. sbind ce (\<lambda>elseLit.
          sbind (gateLiteral S E iteNode) (\<lambda>iteLit.
          sbind (assertClauses S
            [[SatLiteral_not iteLit, thenLit, elseLit],
             [SatLiteral_not iteLit, SatLiteral_not condLit, thenLit],
             [SatLiteral_not iteLit, condLit, elseLit],
             [iteLit, SatLiteral_not thenLit, SatLiteral_not elseLit],
             [iteLit, SatLiteral_not condLit, SatLiteral_not thenLit],
             [iteLit, condLit, SatLiteral_not elseLit]]) (\<lambda>_.
          sreturn iteLit)))))
      | _ \<Rightarrow> sthrow AssertionException)"

text \<open>The dispatch of \<open>toCNF\<close> on a node that has no literal yet; \<open>cs\<close> are the conversions of the children.\<close>

definition toCNF_switch ::
  "'s satSolver \<Rightarrow> cnf_env \<Rightarrow> node \<Rightarrow> ('s cnf_state, satLiteral) sexc list \<Rightarrow> ('s cnf_state, satLiteral) sexc" where
  "toCNF_switch S E node cs =
     (case node of
        App NOT ns \<Rightarrow> TseitinCnfStream_handleNot cs
      | App XOR ns \<Rightarrow> TseitinCnfStream_handleXor S E node cs
      | App ITE ns \<Rightarrow> TseitinCnfStream_handleIte S E node cs
      | App IMPLIES ns \<Rightarrow> TseitinCnfStream_handleImplies S E node cs
      | App OR ns \<Rightarrow> TseitinCnfStream_handleOr S E node cs
      | App AND ns \<Rightarrow> TseitinCnfStream_handleAnd S E node cs
      | App EQUAL (n # ns) \<Rightarrow>
          (case getType False n of
             Inl e \<Rightarrow> sthrow e
           | Inr t \<Rightarrow> if t = BOOLEAN_TYPE then TseitinCnfStream_handleIff S E node cs
                      else CnfStream_convertAtom S E node False)
      | _ \<Rightarrow> CnfStream_convertAtom S E node False)"

definition toCNF_step ::
  "'s satSolver \<Rightarrow> cnf_env \<Rightarrow> node \<Rightarrow> ('s cnf_state, satLiteral) sexc list \<Rightarrow> bool \<Rightarrow> ('s cnf_state, satLiteral) sexc" where
  "toCNF_step S E node cs negated =
     sbind (\<lambda>st. if CnfStream_hasLiteral st node then CnfStream_getLiteral node st else toCNF_switch S E node cs st) (\<lambda>nodeLit.
     sreturn (if \<not> negated then nodeLit else SatLiteral_not nodeLit))"

fun TseitinCnfStream_toCNF :: "'s satSolver \<Rightarrow> cnf_env \<Rightarrow> node \<Rightarrow> bool \<Rightarrow> ('s cnf_state, satLiteral) sexc" where
  "TseitinCnfStream_toCNF S E (App k ns) negated =
     toCNF_step S E (App k ns) (map (\<lambda>n. TseitinCnfStream_toCNF S E n False) ns) negated"
| "TseitinCnfStream_toCNF S E n negated = toCNF_step S E n [] negated"

section \<open>Asserting a formula\<close>

definition convertAll :: "'s satSolver \<Rightarrow> cnf_env \<Rightarrow> node list \<Rightarrow> bool \<Rightarrow> ('s cnf_state, satLiteral list) sexc" where
  "convertAll S E ns negated = smapM (map (\<lambda>n. TseitinCnfStream_toCNF S E n negated) ns)"

definition assertAll :: "(bool \<Rightarrow> ('s cnf_state, unit) sexc) list \<Rightarrow> bool \<Rightarrow> ('s cnf_state, unit) sexc" where
  "assertAll as negated = sbind (smapM (map (\<lambda>a. a negated) as)) (\<lambda>_. sreturn ())"

definition TseitinCnfStream_convertAndAssertAnd ::
  "'s satSolver \<Rightarrow> cnf_env \<Rightarrow> node list \<Rightarrow> (bool \<Rightarrow> ('s cnf_state, unit) sexc) list \<Rightarrow> bool \<Rightarrow> ('s cnf_state, unit) sexc" where
  "TseitinCnfStream_convertAndAssertAnd S E ns as negated =
     (if \<not> negated then assertAll as False
      else sbind (convertAll S E ns True) (\<lambda>clause. CnfStream_assertClause S clause))"

definition TseitinCnfStream_convertAndAssertOr ::
  "'s satSolver \<Rightarrow> cnf_env \<Rightarrow> node list \<Rightarrow> (bool \<Rightarrow> ('s cnf_state, unit) sexc) list \<Rightarrow> bool \<Rightarrow> ('s cnf_state, unit) sexc" where
  "TseitinCnfStream_convertAndAssertOr S E ns as negated =
     (if \<not> negated then sbind (convertAll S E ns False) (\<lambda>clause. CnfStream_assertClause S clause)
      else assertAll as True)"

definition TseitinCnfStream_convertAndAssertXor ::
  "'s satSolver \<Rightarrow> cnf_env \<Rightarrow> node list \<Rightarrow> bool \<Rightarrow> ('s cnf_state, unit) sexc" where
  "TseitinCnfStream_convertAndAssertXor S E ns negated =
     (case ns of
        [n, m] \<Rightarrow>
          sbind (TseitinCnfStream_toCNF S E n False) (\<lambda>p.
          sbind (TseitinCnfStream_toCNF S E m False) (\<lambda>q.
          if \<not> negated then assertClauses S [[SatLiteral_not p, SatLiteral_not q], [p, q]]
          else assertClauses S [[SatLiteral_not p, q], [p, SatLiteral_not q]]))
      | _ \<Rightarrow> sthrow AssertionException)"

definition TseitinCnfStream_convertAndAssertIff ::
  "'s satSolver \<Rightarrow> cnf_env \<Rightarrow> node list \<Rightarrow> bool \<Rightarrow> ('s cnf_state, unit) sexc" where
  "TseitinCnfStream_convertAndAssertIff S E ns negated =
     (case ns of
        [n, m] \<Rightarrow>
          sbind (TseitinCnfStream_toCNF S E n False) (\<lambda>p.
          sbind (TseitinCnfStream_toCNF S E m False) (\<lambda>q.
          if \<not> negated then assertClauses S [[SatLiteral_not p, q], [p, SatLiteral_not q]]
          else assertClauses S [[SatLiteral_not p, SatLiteral_not q], [p, q]]))
      | _ \<Rightarrow> sthrow AssertionException)"

definition TseitinCnfStream_convertAndAssertImplies ::
  "'s satSolver \<Rightarrow> cnf_env \<Rightarrow> node list \<Rightarrow> (bool \<Rightarrow> ('s cnf_state, unit) sexc) list \<Rightarrow> bool \<Rightarrow> ('s cnf_state, unit) sexc" where
  "TseitinCnfStream_convertAndAssertImplies S E ns as negated =
     (case (ns, as) of
        ([n, m], [a, b]) \<Rightarrow>
          if \<not> negated then
            sbind (TseitinCnfStream_toCNF S E n False) (\<lambda>p.
            sbind (TseitinCnfStream_toCNF S E m False) (\<lambda>q.
            CnfStream_assertClause S [SatLiteral_not p, q]))
          else sbind (a False) (\<lambda>_. b True)
      | _ \<Rightarrow> sthrow AssertionException)"

definition TseitinCnfStream_convertAndAssertIte ::
  "'s satSolver \<Rightarrow> cnf_env \<Rightarrow> node list \<Rightarrow> bool \<Rightarrow> ('s cnf_state, unit) sexc" where
  "TseitinCnfStream_convertAndAssertIte S E ns negated =
     (case ns of
        [c, t, e] \<Rightarrow>
          sbind (TseitinCnfStream_toCNF S E c False) (\<lambda>p.
          sbind (TseitinCnfStream_toCNF S E t negated) (\<lambda>q.
          sbind (TseitinCnfStream_toCNF S E e negated) (\<lambda>r.
          assertClauses S [[SatLiteral_not p, q], [p, r]])))
      | _ \<Rightarrow> sthrow AssertionException)"

definition count_resource :: "'s cnf_state \<Rightarrow> 's cnf_state" where
  "count_resource st =
     (let st = (if d_convertAndAssertCounter st mod getFrequencyCount = 0
                then st\<lparr>d_resourcesSpent := d_resourcesSpent st + 1, d_convertAndAssertCounter := 0\<rparr> else st)
      in st\<lparr>d_convertAndAssertCounter := d_convertAndAssertCounter st + 1\<rparr>)"

definition assertAtom :: "'s satSolver \<Rightarrow> cnf_env \<Rightarrow> node \<Rightarrow> bool \<Rightarrow> ('s cnf_state, unit) sexc" where
  "assertAtom S E node negated =
     sbind (TseitinCnfStream_toCNF S E node negated) (\<lambda>lit. CnfStream_assertClause S [lit])"

definition convertAndAssert_switch ::
  "'s satSolver \<Rightarrow> cnf_env \<Rightarrow> node \<Rightarrow> (bool \<Rightarrow> ('s cnf_state, unit) sexc) list \<Rightarrow> bool \<Rightarrow> ('s cnf_state, unit) sexc" where
  "convertAndAssert_switch S E node as negated =
     (case node of
        App AND ns \<Rightarrow> TseitinCnfStream_convertAndAssertAnd S E ns as negated
      | App OR ns \<Rightarrow> TseitinCnfStream_convertAndAssertOr S E ns as negated
      | App XOR ns \<Rightarrow> TseitinCnfStream_convertAndAssertXor S E ns negated
      | App IMPLIES ns \<Rightarrow> TseitinCnfStream_convertAndAssertImplies S E ns as negated
      | App ITE ns \<Rightarrow> TseitinCnfStream_convertAndAssertIte S E ns negated
      | App NOT ns \<Rightarrow> (case as of [a] \<Rightarrow> a (\<not> negated) | _ \<Rightarrow> sthrow AssertionException)
      | App EQUAL (n # ns) \<Rightarrow>
          (case getType False n of
             Inl e \<Rightarrow> sthrow e
           | Inr t \<Rightarrow> if t = BOOLEAN_TYPE then TseitinCnfStream_convertAndAssertIff S E (n # ns) negated
                      else assertAtom S E node negated)
      | _ \<Rightarrow> assertAtom S E node negated)"

fun convertAndAssert_rec :: "'s satSolver \<Rightarrow> cnf_env \<Rightarrow> node \<Rightarrow> bool \<Rightarrow> ('s cnf_state, unit) sexc" where
  "convertAndAssert_rec S E (App k ns) negated =
     sbind (smodify count_resource) (\<lambda>_.
     convertAndAssert_switch S E (App k ns) (map (\<lambda>n. convertAndAssert_rec S E n) ns) negated)"
| "convertAndAssert_rec S E n negated =
     sbind (smodify count_resource) (\<lambda>_. convertAndAssert_switch S E n [] negated)"

definition TseitinCnfStream_convertAndAssert ::
  "'s satSolver \<Rightarrow> cnf_env \<Rightarrow> node \<Rightarrow> bool \<Rightarrow> bool \<Rightarrow> ('s cnf_state, unit) sexc" where
  "TseitinCnfStream_convertAndAssert S E node removable negated =
     sbind (smodify (\<lambda>st. st\<lparr>d_removable := removable\<rparr>)) (\<lambda>_. convertAndAssert_rec S E node negated)"

section \<open>ensureLiteral\<close>

definition ensureLiteral_new ::
  "'s satSolver \<Rightarrow> cnf_env \<Rightarrow> node \<Rightarrow> bool \<Rightarrow> ('s cnf_state, unit) sexc" where
  "ensureLiteral_new S E n noPreregistration =
     (case getType False n of
        Inl e \<Rightarrow> sthrow e
      | Inr t \<Rightarrow>
          if t \<noteq> BOOLEAN_TYPE then sthrow AssertionException
          else
            let n = strip_not n
            in case theoryOf (env_sortOwner E) (env_theoryOfMode E) n of
                 Inl e \<Rightarrow> sthrow e
               | Inr i \<Rightarrow>
                   if i = THEORY_BOOL \<and> \<not> isVar n then
                     sbind (TseitinCnfStream_toCNF S E n False) (\<lambda>lit. smodify (store_back lit n))
                   else sbind (CnfStream_convertAtom S E n noPreregistration) (\<lambda>_. sreturn ()))"

definition TseitinCnfStream_ensureLiteral ::
  "'s satSolver \<Rightarrow> cnf_env \<Rightarrow> node \<Rightarrow> bool \<Rightarrow> ('s cnf_state, unit) sexc" where
  "TseitinCnfStream_ensureLiteral S E n noPreregistration =
     sbind (smodify (\<lambda>st. st\<lparr>d_removable := False\<rparr>)) (\<lambda>_ st.
     if CnfStream_hasLiteral st n then
       sbind (CnfStream_getLiteral n) (\<lambda>lit.
       smodify (\<lambda>st. if d_literalToNodeMap st lit = None then store_back lit n st else st)) st
     else ensureLiteral_new S E n noPreregistration st)"

text \<open>A sequence of formulas handed to the stream, each with its flags \<open>removable\<close> and \<open>negated\<close>.\<close>

fun assert_formulas :: "'s satSolver \<Rightarrow> cnf_env \<Rightarrow> (node \<times> bool \<times> bool) list \<Rightarrow> ('s cnf_state, unit) sexc" where
  "assert_formulas S E [] = sreturn ()"
| "assert_formulas S E ((n, removable, negated) # fs) =
     sbind (TseitinCnfStream_convertAndAssert S E n removable negated) (\<lambda>_. assert_formulas S E fs)"

section \<open>The meaning of a state\<close>

text \<open>\<open>skel v n\<close> is the truth value of a formula whose atoms have the values \<open>v\<close> gives them.\<close>

definition connect :: "kind \<Rightarrow> bool list \<Rightarrow> bool" where
  "connect k bs =
     (case k of
        NOT \<Rightarrow> (case bs of [a] \<Rightarrow> \<not> a | _ \<Rightarrow> False)
      | AND \<Rightarrow> list_all id bs
      | OR \<Rightarrow> list_ex id bs
      | XOR \<Rightarrow> (case bs of [a, b] \<Rightarrow> a \<noteq> b | _ \<Rightarrow> False)
      | IMPLIES \<Rightarrow> (case bs of [a, b] \<Rightarrow> a \<longrightarrow> b | _ \<Rightarrow> False)
      | EQUAL \<Rightarrow> (case bs of [a, b] \<Rightarrow> a = b | _ \<Rightarrow> False)
      | ITE \<Rightarrow> (case bs of [a, b, c] \<Rightarrow> if a then b else c | _ \<Rightarrow> False)
      | _ \<Rightarrow> False)"

fun skel :: "(node \<Rightarrow> bool) \<Rightarrow> node \<Rightarrow> bool" where
  "skel v (App k ns) = (if bool_connective (App k ns) then connect k (map (skel v) ns) else v (App k ns))"
| "skel v n = v n"

definition respects_constants :: "(node \<Rightarrow> bool) \<Rightarrow> bool" where
  "respects_constants v \<longleftrightarrow> v (CONST_BOOLEAN True) \<and> \<not> v (CONST_BOOLEAN False)"

definition holds_all :: "(node \<Rightarrow> bool) \<Rightarrow> (node \<times> bool \<times> bool) list \<Rightarrow> bool" where
  "holds_all v fs \<longleftrightarrow> list_all (\<lambda>(n, removable, negated). skel v n \<noteq> negated) fs"

definition boolean_formulas :: "(node \<times> bool \<times> bool) list \<Rightarrow> bool" where
  "boolean_formulas fs \<longleftrightarrow> list_all (\<lambda>(n, removable, negated). typeOf n = Some BOOLEAN_TYPE) fs"

definition formulas_size :: "(node \<times> bool \<times> bool) list \<Rightarrow> nat" where
  "formulas_size fs = sum_list (map (\<lambda>(n, removable, negated). node_size n) fs)"

definition agrees :: "(node \<Rightarrow> bool) \<Rightarrow> assignment \<Rightarrow> (node \<rightharpoonup> satLiteral) \<Rightarrow> bool" where
  "agrees v \<alpha> m \<longleftrightarrow> (\<forall>n l. m n = Some l \<longrightarrow> lit_true \<alpha> l = skel v n)"

definition atoms_agree :: "(node \<Rightarrow> bool) \<Rightarrow> assignment \<Rightarrow> (node \<rightharpoonup> satLiteral) \<Rightarrow> bool" where
  "atoms_agree v \<alpha> m \<longleftrightarrow> (\<forall>n l. m n = Some l \<longrightarrow> \<not> bool_connective n \<longrightarrow> lit_true \<alpha> l = v n)"

definition lit_means :: "(node \<rightharpoonup> satLiteral) \<Rightarrow> satLiteral \<Rightarrow> node \<Rightarrow> bool \<Rightarrow> bool" where
  "lit_means m l n negated \<longleftrightarrow> (\<forall>\<alpha> v. agrees v \<alpha> m \<longrightarrow> lit_true \<alpha> l = (skel v n \<noteq> negated))"

lemma connective_App:
  "k \<in> {NOT, AND, IMPLIES, OR, XOR, ITE} \<Longrightarrow> bool_connective (App k ns)"
  "bool_connective (App EQUAL (n # ns)) \<longleftrightarrow> getType False n = Inr BOOLEAN_TYPE"
  by (auto simp: bool_connective_def)

lemma skel_atom: "\<not> bool_connective n \<Longrightarrow> skel v n = v n"
  by (cases n) auto

lemma skel_notNode [simp]: "skel v (notNode n) \<longleftrightarrow> \<not> skel v n"
  by (simp add: notNode_def connective_App connect_def)

lemma agrees_mono: "m \<subseteq>\<^sub>m m' \<Longrightarrow> agrees v \<alpha> m' \<Longrightarrow> agrees v \<alpha> m"
  unfolding agrees_def map_le_def by (metis domI)

lemma atoms_agree_mono: "m \<subseteq>\<^sub>m m' \<Longrightarrow> atoms_agree v \<alpha> m' \<Longrightarrow> atoms_agree v \<alpha> m"
  unfolding atoms_agree_def map_le_def by (metis domI)

lemma lit_means_mono: "m \<subseteq>\<^sub>m m' \<Longrightarrow> lit_means m l n b \<Longrightarrow> lit_means m' l n b"
  unfolding lit_means_def using agrees_mono by blast

lemma lit_means_not [simp]: "lit_means m (SatLiteral_not l) n b = lit_means m l n (\<not> b)"
  by (auto simp: lit_means_def)

lemma lit_means_notNode: "lit_means m l (notNode n) b = lit_means m l n (\<not> b)"
  by (auto simp: lit_means_def)

lemma cd_insert_le: "m \<subseteq>\<^sub>m cd_insert k d m"
  by (auto simp: cd_insert_def map_le_def split: option.split)

lemma cd_insert_SomeD: "cd_insert k d m x = Some y \<Longrightarrow> m x = Some y \<or> x = k \<and> y = d"
  by (auto simp: cd_insert_def split: option.splits if_splits)

lemma notNode_typed: "typeOf n = Some BOOLEAN_TYPE \<Longrightarrow> typeOf (notNode n) = Some BOOLEAN_TYPE"
  by (simp add: notNode_def typeOf_short type_op_iffs)

text \<open>Total correctness of a computation.\<close>

definition swp :: "('s, 'a) sexc \<Rightarrow> ('a \<Rightarrow> 's \<Rightarrow> bool) \<Rightarrow> 's \<Rightarrow> bool" where
  "swp c Q st = (\<exists>x st'. c st = Inr (x, st') \<and> Q x st')"

lemma swp_simps [simp]:
  "swp (sreturn x) Q = Q x"
  "swp (smodify g) P = (\<lambda>st. P () (g st))"
  "swp (sbind c f) R = swp c (\<lambda>x. swp (f x) R)"
  by (auto simp: swp_def sreturn_def smodify_def sbind_def fun_eq_iff)

lemma swp_mono: "swp c Q st \<Longrightarrow> (\<And>x st'. Q x st' \<Longrightarrow> R x st') \<Longrightarrow> swp c R st"
  by (auto simp: swp_def)

lemma sbind_assoc: "sbind (sbind c f) g = sbind c (\<lambda>x. sbind (f x) g)"
  by (auto simp: sbind_def ebind_def fun_eq_iff split: sum.split)

lemma sbind_sreturn: "sbind (sreturn x) f = f x"
  by (auto simp: sbind_def sreturn_def)

text \<open>A handler converts the children, makes its literal and asserts the clauses that define it.\<close>

definition run_gate ::
  "'s satSolver \<Rightarrow> cnf_env \<Rightarrow> node \<Rightarrow> ('s cnf_state, satLiteral) sexc list \<Rightarrow>
    (satLiteral list \<Rightarrow> satLiteral \<Rightarrow> satClause list) \<Rightarrow> ('s cnf_state, satLiteral) sexc" where
  "run_gate S E n cs K =
     sbind (smapM cs) (\<lambda>ls. sbind (gateLiteral S E n) (\<lambda>l. sbind (assertClauses S (K ls l)) (\<lambda>_. sreturn l)))"

lemma assertClauses_eq:
  "assertClauses S cs st = Inr ((), st\<lparr>d_satSolver := fold (\<lambda>c. addClause S c (d_removable st)) cs (d_satSolver st)\<rparr>)"
  by (induction cs arbitrary: st) (simp_all add: sreturn_def sbind_def smodify_def CnfStream_assertClause_def)

lemma assertClauses_snoc:
  "sbind (assertClauses S cs) (\<lambda>_. sbind (CnfStream_assertClause S c) f) = sbind (assertClauses S (cs @ [c])) f"
  by (induction cs) (simp_all add: sbind_assoc, simp add: sbind_def sreturn_def)

lemma assertClause_single: "CnfStream_assertClause S = (\<lambda>c. assertClauses S [c])"
  by (simp add: sbind_def sreturn_def smodify_def CnfStream_assertClause_def fun_eq_iff)

lemma list_two: "length xs = 2 \<Longrightarrow> \<exists>a b. xs = [a, b]"
  and list_three: "length xs = 3 \<Longrightarrow> \<exists>a b c. xs = [a, b, c]"
  by (auto simp: length_Suc_conv numeral_eq_Suc)

lemma handlers_gate:
  "length cs = 2 \<Longrightarrow> TseitinCnfStream_handleXor S E n cs = run_gate S E n cs (\<lambda>ls l.
     [[ls ! 0, ls ! 1, SatLiteral_not l], [SatLiteral_not (ls ! 0), SatLiteral_not (ls ! 1), SatLiteral_not l],
      [ls ! 0, SatLiteral_not (ls ! 1), l], [SatLiteral_not (ls ! 0), ls ! 1, l]])"
  "length cs = 2 \<Longrightarrow> TseitinCnfStream_handleIff S E n cs = run_gate S E n cs (\<lambda>ls l.
     [[SatLiteral_not (ls ! 0), ls ! 1, SatLiteral_not l], [ls ! 0, SatLiteral_not (ls ! 1), SatLiteral_not l],
      [SatLiteral_not (ls ! 0), SatLiteral_not (ls ! 1), l], [ls ! 0, ls ! 1, l]])"
  "length cs = 2 \<Longrightarrow> TseitinCnfStream_handleImplies S E n cs = run_gate S E n cs (\<lambda>ls l.
     [[SatLiteral_not l, SatLiteral_not (ls ! 0), ls ! 1], [ls ! 0, l], [SatLiteral_not (ls ! 1), l]])"
  "length cs = 3 \<Longrightarrow> TseitinCnfStream_handleIte S E n cs = run_gate S E n cs (\<lambda>ls l.
     [[SatLiteral_not l, ls ! 1, ls ! 2], [SatLiteral_not l, SatLiteral_not (ls ! 0), ls ! 1], [SatLiteral_not l, ls ! 0, ls ! 2],
      [l, SatLiteral_not (ls ! 1), SatLiteral_not (ls ! 2)], [l, SatLiteral_not (ls ! 0), SatLiteral_not (ls ! 1)],
      [l, ls ! 0, SatLiteral_not (ls ! 2)]])"
  "TseitinCnfStream_handleOr S E n cs = run_gate S E n cs (\<lambda>ls l. map (\<lambda>a. [l, SatLiteral_not a]) ls @ [ls @ [SatLiteral_not l]])"
  "TseitinCnfStream_handleAnd S E n cs = run_gate S E n (map (\<lambda>c. sbind c (\<lambda>a. sreturn (SatLiteral_not a))) cs)
     (\<lambda>ls l. map (\<lambda>a. [SatLiteral_not l, SatLiteral_not a]) ls @ [ls @ [l]])"
  by (auto dest!: list_two list_three simp: TseitinCnfStream_handleXor_def TseitinCnfStream_handleIff_def
      TseitinCnfStream_handleImplies_def TseitinCnfStream_handleIte_def TseitinCnfStream_handleOr_def
      TseitinCnfStream_handleAnd_def run_gate_def sbind_assoc sbind_sreturn assertClauses_snoc simp del: assertClauses.simps)

end
