(* ===== verification/Minisat_Core.thy ===== *)
theory Minisat_Core
  imports Sat_Solver "HOL-Library.While_Combinator"
begin

text \<open>
  The SAT solver of the bit-blasters, as far as the CNF stream drives it: variables, the clause
  database with its watch lists, the trail, unit propagation and \<open>addClause_\<close>
  (\<open>src/src/prop/bvminisat/core/Solver.cc\<close>, \<open>SolverTypes.h\<close>), and the wrapper \<open>BVMinisatSatSolver\<close>
  (\<open>src/src/prop/bvminisat/bvminisat.cpp\<close>) that converts between the two kinds of literals. Proofs are
  off. A literal is the \<open>int\<close> of the code, \<open>2 * var + sign\<close>; a clause reference indexes the list of allocated
  clauses, which are never moved; heap order, activities and statistics, which only guide the search, are
  left out. The loop of \<open>propagate\<close> is \<open>while_option\<close>, so that returning is something to prove.
\<close>

section \<open>Literals and lifted Booleans\<close>

type_synonym mlit = int

definition mkLit :: "int \<Rightarrow> bool \<Rightarrow> mlit" where
  "mkLit x s = x + x + of_bool s"

definition lneg :: "mlit \<Rightarrow> mlit" where
  "lneg p = xor p 1"

definition lsign :: "mlit \<Rightarrow> bool" where
  "lsign p \<longleftrightarrow> and p 1 \<noteq> 0"

definition lvar :: "mlit \<Rightarrow> int" where
  "lvar p = drop_bit 1 p"

definition lit_Undef :: mlit where
  "lit_Undef = - 2"

datatype lbool = l_True | l_False | l_Undef

definition lbool_xor :: "lbool \<Rightarrow> bool \<Rightarrow> lbool" where
  "lbool_xor v b = (case v of l_True \<Rightarrow> if b then l_False else l_True | l_False \<Rightarrow> if b then l_True else l_False | l_Undef \<Rightarrow> l_Undef)"

section \<open>State\<close>

datatype watcher = Watcher (cref: nat) (blocker: mlit)

record minisat =
  ms_varTrue :: int
  ms_varFalse :: int
  ms_assigns :: "lbool list"
  ms_vardata :: "(nat option \<times> nat) list"
  ms_marker :: "nat list"
  ms_polarity :: "bool list"
  ms_decision :: "bool list"
  ms_watches :: "mlit \<Rightarrow> watcher list"
  ms_ca :: "mlit list list"
  ms_clauses :: "nat list"
  ms_trail :: "mlit list"
  ms_trail_lim :: "nat list"
  ms_qhead :: nat
  ms_ok :: bool
  ms_clause_added :: bool
  ms_assumptions :: "mlit list"
  ms_notified :: "mlit list"
  ms_phase_saving :: nat

definition nVars :: "minisat \<Rightarrow> nat" where
  "nVars s = length (ms_vardata s)"

definition decisionLevel :: "minisat \<Rightarrow> nat" where
  "decisionLevel s = length (ms_trail_lim s)"

definition mvalue :: "minisat \<Rightarrow> mlit \<Rightarrow> lbool" where
  "mvalue s p = lbool_xor (ms_assigns s ! nat (lvar p)) (lsign p)"

definition Solver_newVar :: "bool \<Rightarrow> bool \<Rightarrow> minisat \<Rightarrow> int \<times> minisat" where
  "Solver_newVar sign dvar s =
     (int (nVars s),
      s\<lparr>ms_assigns := ms_assigns s @ [l_Undef], ms_vardata := ms_vardata s @ [(None, 0)],
        ms_marker := ms_marker s @ [0], ms_polarity := ms_polarity s @ [sign], ms_decision := ms_decision s @ [dvar]\<rparr>)"

definition uncheckedEnqueue :: "mlit \<Rightarrow> nat option \<Rightarrow> minisat \<Rightarrow> minisat" where
  "uncheckedEnqueue p from s =
     s\<lparr>ms_assigns := (ms_assigns s)[nat (lvar p) := (if \<not> lsign p then l_True else l_False)],
       ms_vardata := (ms_vardata s)[nat (lvar p) := (from, decisionLevel s)],
       ms_trail := ms_trail s @ [p],
       ms_notified := (if decisionLevel s \<le> length (ms_assumptions s) \<and> ms_marker s ! nat (lvar p) = 1
                       then ms_notified s @ [p] else ms_notified s)\<rparr>"

definition Solver_empty :: "nat \<Rightarrow> minisat" where
  "Solver_empty phase_saving = \<lparr>ms_varTrue = 0, ms_varFalse = 0, ms_assigns = [], ms_vardata = [], ms_marker = [],
     ms_polarity = [], ms_decision = [], ms_watches = (\<lambda>p. []), ms_ca = [], ms_clauses = [], ms_trail = [],
     ms_trail_lim = [], ms_qhead = 0, ms_ok = True, ms_clause_added = False, ms_assumptions = [], ms_notified = [],
     ms_phase_saving = phase_saving\<rparr>"

definition Solver_init :: "nat \<Rightarrow> minisat" where
  "Solver_init phase_saving =
     (let (t, s) = Solver_newVar True False (Solver_empty phase_saving);
          (f, s) = Solver_newVar False False s;
          s = s\<lparr>ms_varTrue := t, ms_varFalse := f\<rparr>
      in uncheckedEnqueue (mkLit f True) None (uncheckedEnqueue (mkLit t False) None s))"

section \<open>Clauses\<close>

definition attachClause :: "nat \<Rightarrow> minisat \<Rightarrow> minisat" where
  "attachClause cr s =
     (let c = ms_ca s ! cr;
          ws = (ms_watches s)(lneg (c ! 0) := ms_watches s (lneg (c ! 0)) @ [Watcher cr (c ! 1)])
      in s\<lparr>ms_watches := ws(lneg (c ! 1) := ws (lneg (c ! 1)) @ [Watcher cr (c ! 0)])\<rparr>)"

definition cancel_one :: "nat \<times> mlit \<Rightarrow> minisat \<Rightarrow> minisat" where
  "cancel_one cp s =
     (let x = nat (lvar (snd cp))
      in s\<lparr>ms_assigns := (ms_assigns s)[x := l_Undef],
           ms_marker := (if ms_marker s ! x = 2 then (ms_marker s)[x := 1] else ms_marker s),
           ms_polarity := (if ms_phase_saving s > 1 \<or> ms_phase_saving s = 1 \<and> fst cp > last (ms_trail_lim s)
                           then (ms_polarity s)[x := lsign (snd cp)] else ms_polarity s)\<rparr>)"

definition cancelUntil :: "nat \<Rightarrow> minisat \<Rightarrow> minisat" where
  "cancelUntil level s =
     (if decisionLevel s > level then
        let low = ms_trail_lim s ! level;
            s = fold cancel_one (rev (drop low (zip [0..<length (ms_trail s)] (ms_trail s)))) s
        in s\<lparr>ms_qhead := low, ms_trail := take low (ms_trail s), ms_trail_lim := take level (ms_trail_lim s)\<rparr>
      else s)"

section \<open>Unit propagation\<close>

text \<open>The first literal from index 2 on that is not false.\<close>

definition find_watch :: "minisat \<Rightarrow> mlit list \<Rightarrow> nat option" where
  "find_watch s c = find (\<lambda>k. mvalue s (c ! k) \<noteq> l_False) [2..<length c]"

text \<open>The pass over the watchers \<open>ws\<close> of the fact \<open>p\<close>; \<open>kept\<close> are the watchers copied back so far.\<close>

fun propagate_watches :: "mlit \<Rightarrow> watcher list \<Rightarrow> watcher list \<Rightarrow> minisat \<Rightarrow> watcher list \<times> nat option \<times> minisat" where
  "propagate_watches p [] kept s = (kept, None, s)"
| "propagate_watches p (w # ws) kept s =
     (if mvalue s (blocker w) = l_True then propagate_watches p ws (kept @ [w]) s
      else
        let cr = cref w;
            false_lit = lneg p;
            c = ms_ca s ! cr;
            c = (if c ! 0 = false_lit then c[0 := c ! 1, 1 := false_lit] else c);
            s = s\<lparr>ms_ca := (ms_ca s)[cr := c]\<rparr>;
            first = c ! 0;
            w' = Watcher cr first
        in if first \<noteq> blocker w \<and> mvalue s first = l_True then propagate_watches p ws (kept @ [w']) s
           else case find_watch s c of
             Some k \<Rightarrow>
               let c = c[1 := c ! k, k := false_lit];
                   s = s\<lparr>ms_ca := (ms_ca s)[cr := c],
                         ms_watches := (ms_watches s)(lneg (c ! 1) := ms_watches s (lneg (c ! 1)) @ [w'])\<rparr>
               in propagate_watches p ws kept s
           | None \<Rightarrow>
               if mvalue s first = l_False
               then (kept @ w' # ws, Some cr, s\<lparr>ms_qhead := length (ms_trail s)\<rparr>)
               else propagate_watches p ws (kept @ [w']) (uncheckedEnqueue first (Some cr) s))"

definition propagate_step :: "nat option \<times> minisat \<Rightarrow> nat option \<times> minisat" where
  "propagate_step cs =
     (let s = snd cs;
          p = ms_trail s ! ms_qhead s;
          (kept, confl, s') = propagate_watches p (ms_watches s p) [] (s\<lparr>ms_qhead := ms_qhead s + 1\<rparr>)
      in (case confl of None \<Rightarrow> fst cs | Some cr \<Rightarrow> confl, s'\<lparr>ms_watches := (ms_watches s')(p := kept)\<rparr>))"

definition Solver_propagate :: "minisat \<Rightarrow> (nat option \<times> minisat) option" where
  "Solver_propagate s = while_option (\<lambda>cs. ms_qhead (snd cs) < length (ms_trail (snd cs))) propagate_step (None, s)"

section \<open>Adding a clause\<close>

text \<open>The loop over the sorted literals; \<open>p\<close> is the last literal that was kept. \<open>None\<close> stands for a clause that
  is satisfied or a tautology.\<close>

fun addClause_loop :: "minisat \<Rightarrow> mlit \<Rightarrow> mlit list \<Rightarrow> mlit list option" where
  "addClause_loop s p [] = Some []"
| "addClause_loop s p (x # xs) =
     (if mvalue s x = l_True \<or> x = lneg p then None
      else if x = p then addClause_loop s p xs
      else if mvalue s x = l_False then addClause_loop s p xs
      else map_option ((#) x) (addClause_loop s x xs))"

definition Solver_addClause :: "mlit list \<Rightarrow> minisat \<Rightarrow> (bool \<times> minisat) option" where
  "Solver_addClause ps s =
     (let s = (if decisionLevel s > 0 then cancelUntil 0 s else s)
      in if \<not> ms_ok s then Some (False, s)
         else case addClause_loop s lit_Undef (sort ps) of
           None \<Rightarrow> Some (True, s)
         | Some qs \<Rightarrow>
             let s = s\<lparr>ms_clause_added := True\<rparr>
             in if length qs = 0 then Some (False, s\<lparr>ms_ok := False\<rparr>)
                else if length qs = 1 then
                  (case Solver_propagate (uncheckedEnqueue (qs ! 0) None s) of
                     None \<Rightarrow> None
                   | Some (confl, s) \<Rightarrow> Some (confl = None, s\<lparr>ms_ok := (confl = None)\<rparr>))
                else
                  let cr = length (ms_ca s)
                  in Some (ms_ok s, attachClause cr (s\<lparr>ms_ca := ms_ca s @ [qs], ms_clauses := ms_clauses s @ [cr]\<rparr>)))"

section \<open>The wrapper\<close>

text \<open>A variable becomes an \<open>int\<close> by the conversion of C++, modulo \<open>2 ^ 32\<close>.\<close>

definition to_int32 :: "satVariable \<Rightarrow> int" where
  "to_int32 x = sint (ucast x :: 32 word)"

definition toMinisatLit :: "satLiteral \<Rightarrow> mlit" where
  "toMinisatLit l = (if l = undefSatLiteral then lit_Undef else mkLit (to_int32 (getSatVariable l)) (isNegated l))"

definition toSatLiteral :: "mlit \<Rightarrow> satLiteral" where
  "toSatLiteral p = (if p = lit_Undef then undefSatLiteral else SatLiteral (word_of_int (lvar p)) (lsign p))"

definition toSatLiteralValue :: "lbool \<Rightarrow> satValue" where
  "toSatLiteralValue r = (case r of l_True \<Rightarrow> SAT_VALUE_TRUE | l_Undef \<Rightarrow> SAT_VALUE_UNKNOWN | l_False \<Rightarrow> SAT_VALUE_FALSE)"

end
