(* ===== verification/Minisat_Correctness.thy ===== *)
theory Minisat_Correctness
  imports Minisat_Core "HOL-Library.Multiset"
begin

text \<open>
  Unit propagation and \<open>addClause_\<close> are correct: from every state that the modelled operations reach, they
  return, keep the watch lists and the trail in order, and change the models of the clause database
  exactly by the clause that is added; propagation empties its queue, and without a conflict it leaves no
  clause that is unit or false.
\<close>

section \<open>Literals\<close>

lemma lvar_div: "lvar p = p div 2"
  and lsign_odd: "lsign p \<longleftrightarrow> odd p"
  by (simp_all add: lvar_def lsign_def drop_bit_eq_div and_one_eq odd_iff_mod_2_eq_one)

lemma lneg_simps [simp]:
  "lneg (lneg p) = p" "lvar (lneg p) = lvar p" "lsign (lneg p) \<longleftrightarrow> \<not> lsign p" "lneg p \<noteq> p" "p \<noteq> lneg p"
proof -
  show "lneg (lneg p) = p" by (simp add: lneg_def xor.assoc)
  show "lvar (lneg p) = lvar p" by (simp add: lneg_def lvar_def drop_bit_xor)
  show "lsign (lneg p) \<longleftrightarrow> \<not> lsign p" by (simp add: lsign_odd lneg_def even_xor_iff)
  then show "lneg p \<noteq> p" "p \<noteq> lneg p" by auto
qed

lemma lit_eq_iff: "p = q \<longleftrightarrow> lvar p = lvar q \<and> lsign p = lsign q"
  unfolding lvar_div lsign_odd by presburger

lemma same_var: "lvar p = lvar q \<longleftrightarrow> p = q \<or> p = lneg q"
  using lit_eq_iff [of p q] lit_eq_iff [of p "lneg q"] by auto

lemma mkLit_simps [simp]: "lvar (mkLit x b) = x" "lsign (mkLit x b) = b"
  by (simp_all add: mkLit_def lvar_div lsign_odd)

lemma lneg_eq_iff [simp]: "lneg p = lneg q \<longleftrightarrow> p = q"
  by (metis lneg_simps(1))

lemma mvalue_lneg: "mvalue s (lneg p) = lbool_xor (mvalue s p) True"
  by (auto simp: mvalue_def lbool_xor_def split: lbool.split)

lemma lbool_xor_simps [simp]:
  "lbool_xor v b = l_Undef \<longleftrightarrow> v = l_Undef"
  "lbool_xor v True = l_True \<longleftrightarrow> v = l_False"
  "lbool_xor v True = l_False \<longleftrightarrow> v = l_True"
  by (auto simp: lbool_xor_def split: lbool.split)

section \<open>Invariants\<close>

definition in_range :: "minisat \<Rightarrow> mlit \<Rightarrow> bool" where
  "in_range s p \<longleftrightarrow> 0 \<le> lvar p \<and> lvar p < int (nVars s)"

definition mtrue :: "minisat \<Rightarrow> mlit list \<Rightarrow> bool" where
  "mtrue s c \<longleftrightarrow> (\<exists>l\<in>set c. mvalue s l = l_True)"

text \<open>The trail lists the true literals. Decisions are the business of the search: here the solver is at level 0.\<close>

definition trail_ok :: "minisat \<Rightarrow> bool" where
  "trail_ok s \<longleftrightarrow>
     length (ms_assigns s) = nVars s \<and> nVars s \<le> 2 ^ 30 \<and> ms_trail_lim s = [] \<and> ms_qhead s \<le> length (ms_trail s) \<and>
     distinct (map lvar (ms_trail s)) \<and> (\<forall>p\<in>set (ms_trail s). in_range s p) \<and>
     (\<forall>p. in_range s p \<longrightarrow> (mvalue s p = l_True \<longleftrightarrow> p \<in> set (ms_trail s)))"

definition clauses_ok :: "minisat \<Rightarrow> bool" where
  "clauses_ok s \<longleftrightarrow>
     (\<forall>cr\<in>set (ms_clauses s). cr < length (ms_ca s) \<and> 2 \<le> length (ms_ca s ! cr) \<and> distinct (ms_ca s ! cr) \<and>
        (\<forall>l\<in>set (ms_ca s ! cr). in_range s l))"

definition watched :: "minisat \<Rightarrow> nat \<Rightarrow> mlit \<Rightarrow> bool" where
  "watched s cr l \<longleftrightarrow> l = ms_ca s ! cr ! 0 \<or> l = ms_ca s ! cr ! 1"

definition watches_ok :: "minisat \<Rightarrow> bool" where
  "watches_ok s \<longleftrightarrow>
     (\<forall>q. distinct (map cref (ms_watches s q))) \<and>
     (\<forall>q. cref ` set (ms_watches s q) = {cr \<in> set (ms_clauses s). watched s cr (lneg q)}) \<and>
     (\<forall>q. \<forall>w\<in>set (ms_watches s q). blocker w \<in> set (ms_ca s ! cref w))"

text \<open>A clause one of whose watched literals has been propagated as false is true, unless it is in \<open>X\<close>.\<close>

definition bcp_ok :: "(nat \<Rightarrow> mlit \<Rightarrow> bool) \<Rightarrow> minisat \<Rightarrow> bool" where
  "bcp_ok X s \<longleftrightarrow>
     (\<forall>cr\<in>set (ms_clauses s). \<forall>l. watched s cr l \<longrightarrow> lneg l \<in> set (take (ms_qhead s) (ms_trail s)) \<longrightarrow>
        mtrue s (ms_ca s ! cr) \<or> X cr l)"

definition ms_models :: "minisat \<Rightarrow> (int \<Rightarrow> bool) set" where
  "ms_models s =
     {\<alpha>. (\<forall>cr\<in>set (ms_clauses s). \<exists>l\<in>set (ms_ca s ! cr). \<alpha> (lvar l) \<noteq> lsign l) \<and> (\<forall>l\<in>set (ms_trail s). \<alpha> (lvar l) \<noteq> lsign l)}"

lemma in_range_lneg [simp]: "in_range s (lneg p) = in_range s p"
  by (simp add: in_range_def)

lemma value_true: "trail_ok s \<Longrightarrow> in_range s p \<Longrightarrow> mvalue s p = l_True \<longleftrightarrow> p \<in> set (ms_trail s)"
  by (simp add: trail_ok_def)

lemma value_false: "trail_ok s \<Longrightarrow> in_range s p \<Longrightarrow> mvalue s p = l_False \<longleftrightarrow> lneg p \<in> set (ms_trail s)"
  using value_true [of s "lneg p"] by (simp add: mvalue_lneg)

lemma nVars_simps [simp]:
  "nVars (s\<lparr>ms_qhead := q\<rparr>) = nVars s" "nVars (s\<lparr>ms_ca := a\<rparr>) = nVars s" "nVars (s\<lparr>ms_watches := w\<rparr>) = nVars s"
  "nVars (s\<lparr>ms_clause_added := b\<rparr>) = nVars s" "nVars (s\<lparr>ms_ok := b\<rparr>) = nVars s" "nVars (s\<lparr>ms_clauses := cs\<rparr>) = nVars s"
  "nVars (uncheckedEnqueue p r s) = nVars s"
  by (simp_all add: nVars_def uncheckedEnqueue_def)

lemma mvalue_simps [simp]:
  "mvalue (s\<lparr>ms_qhead := q\<rparr>) l = mvalue s l" "mvalue (s\<lparr>ms_ca := a\<rparr>) l = mvalue s l" "mvalue (s\<lparr>ms_watches := w\<rparr>) l = mvalue s l"
  "mvalue (s\<lparr>ms_clause_added := b\<rparr>) l = mvalue s l" "mvalue (s\<lparr>ms_ok := b\<rparr>) l = mvalue s l" "mvalue (s\<lparr>ms_clauses := cs\<rparr>) l = mvalue s l"
  by (simp_all add: mvalue_def)

lemma in_range_cong: "nVars s = nVars t \<Longrightarrow> in_range s p = in_range t p"
  by (simp add: in_range_def)

text \<open>Enqueuing an unassigned literal.\<close>

lemma enqueue_fields [simp]:
  "ms_trail (uncheckedEnqueue p r s) = ms_trail s @ [p]"
  "ms_ca (uncheckedEnqueue p r s) = ms_ca s"
  "ms_clauses (uncheckedEnqueue p r s) = ms_clauses s"
  "ms_watches (uncheckedEnqueue p r s) = ms_watches s"
  "ms_qhead (uncheckedEnqueue p r s) = ms_qhead s"
  "ms_trail_lim (uncheckedEnqueue p r s) = ms_trail_lim s"
  "ms_ok (uncheckedEnqueue p r s) = ms_ok s"
  "ms_varTrue (uncheckedEnqueue p r s) = ms_varTrue s"
  "ms_varFalse (uncheckedEnqueue p r s) = ms_varFalse s"
  "length (ms_assigns (uncheckedEnqueue p r s)) = length (ms_assigns s)"
  by (simp_all add: uncheckedEnqueue_def)

lemma enqueue_value:
  assumes "length (ms_assigns s) = nVars s" and "in_range s p" and "in_range s l"
  shows "mvalue (uncheckedEnqueue p r s) l = (if l = p then l_True else if l = lneg p then l_False else mvalue s l)"
proof -
  have len: "nat (lvar p) < length (ms_assigns s)" and idx: "nat (lvar p) = nat (lvar l) \<longleftrightarrow> lvar p = lvar l"
    using assms by (auto simp: in_range_def)
  consider "l = p" | "l = lneg p" | "l \<noteq> p" "l \<noteq> lneg p" "lvar p \<noteq> lvar l" using same_var [of l p] by metis
  then show ?thesis
  proof cases
    case 3
    then show ?thesis using idx by (simp add: uncheckedEnqueue_def mvalue_def)
  qed (use len in \<open>simp_all add: uncheckedEnqueue_def mvalue_def lbool_xor_def\<close>)
qed

lemma enqueue_range [simp]: "in_range (uncheckedEnqueue p r s) l = in_range s l"
  by (simp add: in_range_def)

lemma enqueue_trail_ok:
  assumes s: "trail_ok s" and p: "in_range s p" "mvalue s p = l_Undef"
  shows "trail_ok (uncheckedEnqueue p r s)"
proof -
  have new: "p \<notin> set (ms_trail s)" "lneg p \<notin> set (ms_trail s)" using value_true [OF s p(1)] value_false [OF s p(1)] p(2) by auto
  then have "lvar p \<notin> lvar ` set (ms_trail s)" using same_var [of p] by (auto simp: image_iff)
  moreover have "length (ms_assigns s) = nVars s" using s by (simp add: trail_ok_def)
  moreover have "mvalue (uncheckedEnqueue p r s) l = l_True \<longleftrightarrow> l \<in> set (ms_trail s @ [p])" if "in_range s l" for l
    using enqueue_value [OF \<open>length (ms_assigns s) = nVars s\<close> p(1) that, of r] value_true [OF s that] new by auto
  ultimately show ?thesis using s p(1) by (simp add: trail_ok_def)
qed

lemma enqueue_true:
  assumes s: "trail_ok s" "clauses_ok s" and p: "in_range s p" "mvalue s p = l_Undef" and cr: "cr \<in> set (ms_clauses s)"
  shows "mtrue (uncheckedEnqueue p r s) (ms_ca s ! cr) \<longleftrightarrow> mtrue s (ms_ca s ! cr) \<or> p \<in> set (ms_ca s ! cr)"
proof -
  have l: "length (ms_assigns s) = nVars s" using s(1) by (simp add: trail_ok_def)
  have "mvalue (uncheckedEnqueue p r s) x = l_True \<longleftrightarrow> mvalue s x = l_True \<or> x = p" if "x \<in> set (ms_ca s ! cr)" for x
  proof -
    have "in_range s x" using s(2) cr that by (auto simp: clauses_ok_def)
    from enqueue_value [OF l p(1) this, of r] p(2) show ?thesis using mvalue_lneg [of s p] by auto
  qed
  then show ?thesis by (auto simp: mtrue_def)
qed

lemma nth_ne: "distinct c \<Longrightarrow> i < length c \<Longrightarrow> j < length c \<Longrightarrow> i \<noteq> j \<Longrightarrow> c ! i \<noteq> c ! j"
  by (simp add: nth_eq_iff_index_eq)

text \<open>Permuting a clause.\<close>

lemma permute_clause:
  assumes cr: "cr \<in> set (ms_clauses s)" and ok: "clauses_ok s" and c: "mset c = mset (ms_ca s ! cr)"
  defines "t \<equiv> s\<lparr>ms_ca := (ms_ca s)[cr := c]\<rparr>"
  shows "clauses_ok t" and "trail_ok t = trail_ok s" and "ms_models t = ms_models s" and "ms_ca t ! cr = c"
    and "d \<noteq> cr \<Longrightarrow> ms_ca t ! d = ms_ca s ! d" and "mtrue t (ms_ca t ! d) = mtrue s (ms_ca s ! d)"
    and "set (ms_ca t ! d) = set (ms_ca s ! d)"
proof -
  have len: "cr < length (ms_ca s)" using ok cr by (simp add: clauses_ok_def)
  then show at: "ms_ca t ! cr = c" and other: "d \<noteq> cr \<Longrightarrow> ms_ca t ! d = ms_ca s ! d" for d by (simp_all add: t_def)
  have same: "set c = set (ms_ca s ! cr)" "length c = length (ms_ca s ! cr)" "distinct c = distinct (ms_ca s ! cr)"
    using c by (auto dest: mset_eq_setD mset_eq_length mset_eq_imp_distinct_iff)
  show sets: "set (ms_ca t ! d) = set (ms_ca s ! d)" for d using at other same by (cases "d = cr") auto
  have range: "in_range t l = in_range s l" for l by (simp add: t_def in_range_def)
  have "length (ms_ca t ! d) = length (ms_ca s ! d)" "distinct (ms_ca t ! d) = distinct (ms_ca s ! d)" for d
    using at other same by (cases "d = cr"; simp)+
  then show "clauses_ok t" using ok range sets by (simp add: clauses_ok_def) (simp add: t_def)
  show "trail_ok t = trail_ok s" using range by (simp add: trail_ok_def) (simp add: t_def)
  show "ms_models t = ms_models s" using sets by (simp add: ms_models_def) (simp add: t_def)
  show "mtrue t (ms_ca t ! d) = mtrue s (ms_ca s ! d)" using sets by (simp add: mtrue_def) (simp add: t_def)
qed

lemma permute_watches:
  assumes cr: "cr \<in> set (ms_clauses s)" and ok: "clauses_ok s" and c: "mset c = mset (ms_ca s ! cr)"
    and w: "{c ! 0, c ! 1} = {ms_ca s ! cr ! 0, ms_ca s ! cr ! 1}"
  defines "t \<equiv> s\<lparr>ms_ca := (ms_ca s)[cr := c]\<rparr>"
  shows "watches_ok (t\<lparr>ms_watches := W\<rparr>) = watches_ok (s\<lparr>ms_watches := W\<rparr>)" and "bcp_ok X t = bcp_ok X s"
proof -
  note perm = permute_clause [OF cr ok c, folded t_def]
  have "watched t d l = watched s d l" for d l
    using w perm(4,5) by (cases "d = cr") (auto simp: watched_def)
  then have watched: "watched t d l = watched s d l" "watched (t\<lparr>ms_watches := W\<rparr>) d l = watched (s\<lparr>ms_watches := W\<rparr>) d l" for d l
    by (simp_all add: watched_def)
  show "watches_ok (t\<lparr>ms_watches := W\<rparr>) = watches_ok (s\<lparr>ms_watches := W\<rparr>)"
    using perm(7) by (simp add: watches_ok_def watched) (simp add: t_def)
  show "bcp_ok X t = bcp_ok X s" using perm(6) by (simp add: bcp_ok_def watched) (simp add: t_def)
qed

lemma watches_ok_iff:
  "watches_ok (s\<lparr>ms_watches := W\<rparr>) \<longleftrightarrow> (\<forall>q. distinct (map cref (W q))) \<and>
     (\<forall>q. cref ` set (W q) = {cr \<in> set (ms_clauses s). watched s cr (lneg q)}) \<and>
     (\<forall>q. \<forall>w\<in>set (W q). blocker w \<in> set (ms_ca s ! cref w))"
  by (simp add: watches_ok_def watched_def)

text \<open>Replacing the watch on the false literal \<open>lneg p\<close> by the literal at index \<open>k\<close>.\<close>

lemma move_watch:
  fixes s p kept w ws k
  defines "cr \<equiv> cref w"
  defines "c \<equiv> ms_ca s ! cr"
  defines "t \<equiv> s\<lparr>ms_ca := (ms_ca s)[cr := c[1 := c ! k, k := lneg p]],
    ms_watches := (ms_watches s)(lneg (c ! k) := ms_watches s (lneg (c ! k)) @ [Watcher cr (c ! 0)])\<rparr>"
  assumes ok: "clauses_ok s" and W: "watches_ok (s\<lparr>ms_watches := (ms_watches s)(p := kept @ w # ws)\<rparr>)"
    and c1: "c ! 1 = lneg p" and k: "2 \<le> k" "k < length c"
  shows "watches_ok (t\<lparr>ms_watches := (ms_watches t)(p := kept @ ws)\<rparr>)"
proof -
  let ?W0 = "(ms_watches s)(p := kept @ w # ws)" and ?W1 = "(ms_watches t)(p := kept @ ws)"
  have dist: "distinct (map cref (?W0 q))" and sets: "cref ` set (?W0 q) = {d \<in> set (ms_clauses s). watched s d (lneg q)}"
    and block: "v \<in> set (?W0 q) \<Longrightarrow> blocker v \<in> set (ms_ca s ! cref v)" for q v
    using W unfolding watches_ok_def by (simp_all add: watched_def)
  have cr: "cr \<in> set (ms_clauses s)" using sets [of p] by (auto simp: cr_def)
  then have c: "distinct c" "2 \<le> length c" using ok by (auto simp: clauses_ok_def c_def)
  have ne: "c ! k \<noteq> c ! 0" "c ! k \<noteq> c ! 1" "c ! 0 \<noteq> c ! 1"
    using c(2) k by (intro nth_ne [OF c(1)]; linarith)+
  let ?c' = "c[1 := c ! k, k := lneg p]"
  have m: "mset ?c' = mset (ms_ca s ! cr)" using mset_swap [of k c 1] k c1 unfolding c_def by simp
  have at: "?c' ! 0 = c ! 0" "?c' ! 1 = c ! k" using k c by simp_all
  note perm = permute_clause [OF cr ok m]
  have tca: "ms_ca t = (ms_ca s)[cr := ?c']" by (simp add: t_def)
  have watched: "watched (t\<lparr>ms_watches := V\<rparr>) d l \<longleftrightarrow> (if d = cr then l = c ! 0 \<or> l = c ! k else watched s d l)" for V d l
    using perm(4,5) at by (auto simp: watched_def tca)
  have blocked: "set (ms_ca t ! d) = set (ms_ca s ! d)" for d using perm(7) [of d] by (simp add: tca)
  have q2: "lneg (c ! k) \<noteq> p" using ne(2) c1 lneg_simps(1) by metis
  then have W1: "?W1 = ?W0(p := kept @ ws, lneg (c ! k) := ?W0 (lneg (c ! k)) @ [Watcher cr (c ! 0)])" by (auto simp: t_def)
  have fresh: "cr \<notin> cref ` set (?W0 (lneg (c ! k)))" using sets [of "lneg (c ! k)"] ne by (simp add: watched_def c_def [symmetric])
  have gone: "cr \<notin> cref ` set (kept @ ws)" using dist [of p] by (auto simp: cr_def image_iff)
  have "distinct (map cref (?W1 q))" for q
    unfolding W1 using dist [of q] dist [of p] fresh q2 by (auto simp: image_iff)
  moreover have "cref ` set (?W1 q) = {d \<in> set (ms_clauses s). watched (t\<lparr>ms_watches := ?W1\<rparr>) d (lneg q)}" for q
  proof -
    consider "q = p" | "q = lneg (c ! k)" | "q \<noteq> p" "q \<noteq> lneg (c ! k)" by blast
    then show ?thesis
    proof cases
      case 1
      have "cref ` set (kept @ w # ws) = insert cr (cref ` set (kept @ ws))" by (auto simp: cr_def)
      then have "cref ` set (kept @ ws) = {d \<in> set (ms_clauses s). watched s d (lneg p)} - {cr}" using sets [of p] gone by auto
      then show ?thesis unfolding W1 watched using 1 q2 ne c1 by auto
    next
      case 2
      then show ?thesis unfolding W1 watched using sets [of q] cr ne by (auto simp: watched_def c_def [symmetric])
    next
      case 3
      then have "lneg q \<noteq> c ! k" "lneg q \<noteq> c ! 1" using c1 lneg_simps(1) by metis+
      then show ?thesis unfolding W1 watched using sets [of q] 3 by (auto simp: watched_def c_def [symmetric])
    qed
  qed
  moreover have "blocker v \<in> set (ms_ca t ! cref v)" if "v \<in> set (?W1 q)" for q v
  proof -
    have "c ! 0 \<in> set c" by (rule nth_mem) (use k in linarith)
    then have "blocker (Watcher cr (c ! 0)) \<in> set (ms_ca s ! cr)" by (simp add: c_def [symmetric])
    moreover have "v \<in> set (?W0 q) \<or> v = Watcher cr (c ! 0)" using that unfolding W1 by (auto split: if_splits)
    ultimately show ?thesis using block [of v q] blocked by auto
  qed
  ultimately show ?thesis unfolding watches_ok_def by (simp add: t_def)
qed

section \<open>The pass over a watch list\<close>

definition unassigned :: "minisat \<Rightarrow> nat" where
  "unassigned s = length (filter (\<lambda>v. v = l_Undef) (ms_assigns s))"

text \<open>Between two watchers. \<open>done\<close> is the state with the watch list of \<open>p\<close> put together.\<close>

definition done_with :: "mlit \<Rightarrow> watcher list \<Rightarrow> minisat \<Rightarrow> minisat" where
  "done_with p ws s = s\<lparr>ms_watches := (ms_watches s)(p := ws)\<rparr>"

definition pass_inv :: "mlit \<Rightarrow> watcher list \<Rightarrow> watcher list \<Rightarrow> minisat \<Rightarrow> bool" where
  "pass_inv p ws kept s \<longleftrightarrow>
     trail_ok s \<and> clauses_ok s \<and> watches_ok (done_with p (kept @ ws) s) \<and> in_range s p \<and>
     p \<in> set (take (ms_qhead s) (ms_trail s)) \<and> bcp_ok (\<lambda>cr l. l = lneg p \<and> cr \<in> cref ` set ws) s"

text \<open>What a pass, or a part of it, keeps.\<close>

definition pass_frame :: "minisat \<Rightarrow> minisat \<Rightarrow> bool" where
  "pass_frame s t \<longleftrightarrow>
     ms_clauses t = ms_clauses s \<and> nVars t = nVars s \<and> ms_ok t = ms_ok s \<and> ms_varTrue t = ms_varTrue s \<and> ms_varFalse t = ms_varFalse s \<and>
     unassigned t + length (ms_trail t) = unassigned s + length (ms_trail s) \<and> (\<exists>ps. ms_trail t = ms_trail s @ ps) \<and>
     (\<forall>cr. set (ms_ca t ! cr) = set (ms_ca s ! cr))"

definition pass_post :: "mlit \<Rightarrow> minisat \<Rightarrow> watcher list \<times> nat option \<times> minisat \<Rightarrow> bool" where
  "pass_post p s r \<longleftrightarrow>
     (case r of (kept, confl, t) \<Rightarrow>
        pass_frame s t \<and> trail_ok t \<and> clauses_ok t \<and> watches_ok (done_with p kept t) \<and>
        (if confl = None then bcp_ok (\<lambda>cr l. False) t \<and> ms_qhead t = ms_qhead s \<and> ms_models t = ms_models s
         else ms_qhead t = length (ms_trail t) \<and> ms_models s = {}))"

lemma pass_frame_refl: "pass_frame s s"
  by (simp add: pass_frame_def)

lemma pass_post_step:
  assumes "pass_post p t r" and "pass_frame s t" and "ms_models t = ms_models s" and "ms_qhead t = ms_qhead s"
  shows "pass_post p s r"
  using assms by (auto simp: pass_post_def pass_frame_def split: prod.splits if_splits)

lemma keep_watches:
  assumes W: "watches_ok (done_with p (kept @ w # ws) s)" and w': "cref w' = cref w" "blocker w' \<in> set (ms_ca s ! cref w)"
  shows "watches_ok (done_with p (kept @ w' # ws) s)"
proof -
  have "map cref (((ms_watches s)(p := kept @ w' # ws)) q) = map cref (((ms_watches s)(p := kept @ w # ws)) q)" for q
    using w'(1) by simp
  then show ?thesis
    using W w' unfolding done_with_def watches_ok_iff set_map [symmetric] by (metis (no_types, lifting) fun_upd_apply in_set_conv_decomp
        Un_iff set_ConsD set_append list.set_intros)
qed

lemma pass_keep:
  assumes inv: "pass_inv p (w # ws) kept s" and true: "mtrue s (ms_ca s ! cref w)" and w': "cref w' = cref w" "blocker w' \<in> set (ms_ca s ! cref w)"
  shows "pass_inv p ws (kept @ [w']) s"
proof -
  have "watches_ok (done_with p (kept @ w # ws) s)" using inv by (simp add: pass_inv_def)
  from keep_watches [OF this w'] show ?thesis using inv true by (auto simp: pass_inv_def bcp_ok_def)
qed

lemma pass_member:
  assumes "pass_inv p (w # ws) kept s"
  shows "cref w \<in> set (ms_clauses s)" and "watched s (cref w) (lneg p)" and "blocker w \<in> set (ms_ca s ! cref w)"
proof -
  have W: "watches_ok (done_with p (kept @ w # ws) s)" using assms by (simp add: pass_inv_def)
  from W [unfolded done_with_def watches_ok_iff, THEN conjunct2, THEN conjunct1, THEN spec, of p]
  show "cref w \<in> set (ms_clauses s)" "watched s (cref w) (lneg p)" by auto
  from W [unfolded done_with_def watches_ok_iff, THEN conjunct2, THEN conjunct2, THEN spec, of p]
  show "blocker w \<in> set (ms_ca s ! cref w)" by simp
qed

text \<open>Making the false literal the second of its clause.\<close>

definition false_second :: "mlit \<Rightarrow> mlit list \<Rightarrow> mlit list" where
  "false_second f c = (if c ! 0 = f then c[0 := c ! 1, 1 := f] else c)"

lemma false_second:
  assumes "f = c ! 0 \<or> f = c ! 1" and "2 \<le> length c"
  shows "mset (false_second f c) = mset c" and "false_second f c ! 1 = f" and "{false_second f c ! 0, false_second f c ! 1} = {c ! 0, c ! 1}"
    and "length (false_second f c) = length c"
proof -
  have len: "0 < length c" "1 < length c" using assms(2) by linarith+
  show "mset (false_second f c) = mset c" using mset_swap [OF len(2) len(1)] by (auto simp: false_second_def)
  show "false_second f c ! 1 = f" "{false_second f c ! 0, false_second f c ! 1} = {c ! 0, c ! 1}" "length (false_second f c) = length c"
    using assms(1) len by (auto simp: false_second_def)
qed

lemma pass_normalise:
  assumes inv: "pass_inv p (w # ws) kept s"
  defines "c \<equiv> false_second (lneg p) (ms_ca s ! cref w)"
  defines "t \<equiv> s\<lparr>ms_ca := (ms_ca s)[cref w := c]\<rparr>"
  shows "pass_inv p (w # ws) kept t" and "ms_ca t ! cref w = c" and "c ! 1 = lneg p" and "2 \<le> length c" and "distinct c"
    and "pass_frame s t" and "ms_models t = ms_models s"
proof -
  note mem = pass_member [OF inv]
  have ok: "clauses_ok s" using inv by (simp add: pass_inv_def)
  then have len: "2 \<le> length (ms_ca s ! cref w)" "distinct (ms_ca s ! cref w)" using mem(1) by (auto simp: clauses_ok_def)
  note fs = false_second [OF mem(2) [unfolded watched_def] len(1), folded c_def]
  note perm = permute_clause [OF mem(1) ok fs(1), folded t_def] and perm_w = permute_watches [OF mem(1) ok fs(1,3), folded t_def]
  have "watches_ok (done_with p L t) = watches_ok (done_with p L s)" for L unfolding done_with_def perm_w(1) [symmetric] by (simp add: t_def)
  then show "pass_inv p (w # ws) kept t"
    using inv perm(1,2) perm_w(2) by (simp add: pass_inv_def) (simp add: t_def in_range_def)
  show "ms_ca t ! cref w = c" "c ! 1 = lneg p" "2 \<le> length c" "distinct c"
    using perm(4) fs(2,4) len mset_eq_imp_distinct_iff [OF fs(1)] by simp_all
  show "pass_frame s t" "ms_models t = ms_models s" using perm(3,7) by (simp_all add: pass_frame_def unassigned_def) (simp_all add: t_def)
qed

lemma pass_move:
  assumes inv: "pass_inv p (w # ws) kept s" and c1: "ms_ca s ! cref w ! 1 = lneg p" and k: "find_watch s (ms_ca s ! cref w) = Some k"
  defines "c \<equiv> (ms_ca s ! cref w)[1 := ms_ca s ! cref w ! k, k := lneg p]"
  defines "t \<equiv> s\<lparr>ms_ca := (ms_ca s)[cref w := c],
    ms_watches := (ms_watches s)(lneg (c ! 1) := ms_watches s (lneg (c ! 1)) @ [Watcher (cref w) (ms_ca s ! cref w ! 0)])\<rparr>"
  shows "pass_inv p ws kept t" and "pass_frame s t" and "ms_models t = ms_models s"
proof -
  note mem = pass_member [OF inv]
  let ?c = "ms_ca s ! cref w"
  have ok: "clauses_ok s" and tok: "trail_ok s" and W: "watches_ok (done_with p (kept @ w # ws) s)"
    and bcp: "bcp_ok (\<lambda>cr l. l = lneg p \<and> cr \<in> cref ` set (w # ws)) s" using inv by (simp_all add: pass_inv_def)
  then have len: "2 \<le> length ?c" "distinct ?c" and range: "\<And>l. l \<in> set ?c \<Longrightarrow> in_range s l" using mem(1) by (auto simp: clauses_ok_def)
  have k: "2 \<le> k" "k < length ?c" "mvalue s (?c ! k) \<noteq> l_False"
    using k by (auto simp: find_watch_def find_Some_iff)
  have c: "c ! 0 = ?c ! 0" "c ! 1 = ?c ! k" "mset c = mset ?c" using k c1 len mset_swap [of k ?c 1] by (simp_all add: c_def)
  note perm = permute_clause [OF mem(1) ok c(3)]
  have ca: "ms_ca t = (ms_ca s)[cref w := c]" by (simp add: t_def)
  have watches: "watches_ok (done_with p (kept @ ws) t)"
    using move_watch [OF ok W [unfolded done_with_def] c1 k(1,2)] unfolding done_with_def t_def c(2) by (simp add: c_def)
  have "0 < length ?c" "1 < length ?c" using len(1) by linarith+
  from nth_ne [OF len(2) this] c1 have c0: "?c ! 0 \<noteq> lneg p" by simp
  have sound: "lneg (?c ! k) \<notin> set (ms_trail s)" using value_false [OF tok range [OF nth_mem [OF k(2)]]] k(3) by simp
  have mt: "mtrue t (ms_ca t ! d) = mtrue s (ms_ca s ! d)" for d using perm(6) [of d] by (simp add: ca mtrue_def t_def)
  have "bcp_ok (\<lambda>cr l. l = lneg p \<and> cr \<in> cref ` set ws) t"
    unfolding bcp_ok_def
  proof (intro ballI allI impI)
    fix d l assume d: "d \<in> set (ms_clauses t)" "watched t d l" "lneg l \<in> set (take (ms_qhead t) (ms_trail t))"
    then have d': "d \<in> set (ms_clauses s)" "lneg l \<in> set (take (ms_qhead s) (ms_trail s))" by (simp_all add: t_def)
    show "mtrue t (ms_ca t ! d) \<or> l = lneg p \<and> d \<in> cref ` set ws"
    proof (cases "d = cref w")
      case True
      then have "l = ?c ! 0 \<or> l = ?c ! k" using d(2) perm(4) c(1,2) by (simp add: watched_def ca)
      then have "l = ?c ! 0" using sound d'(2) in_set_takeD by fastforce
      with bcp d' True c0 mt show ?thesis by (auto simp: bcp_ok_def watched_def)
    next
      case False
      then have "watched s d l" using d(2) perm(5) by (simp add: watched_def ca)
      with bcp d' False mt show ?thesis by (auto simp: bcp_ok_def)
    qed
  qed
  moreover have "clauses_ok t" "trail_ok t" using perm(1,2) tok by (simp_all add: t_def clauses_ok_def trail_ok_def in_range_def)
  moreover have "in_range t p" "p \<in> set (take (ms_qhead t) (ms_trail t))" using inv by (simp_all add: pass_inv_def t_def in_range_def)
  ultimately show "pass_inv p ws kept t" using watches by (simp add: pass_inv_def)
  show "pass_frame s t" "ms_models t = ms_models s" using perm(3) perm(7) [unfolded simp_thms] by (simp_all add: pass_frame_def t_def unassigned_def ms_models_def)
qed

lemma model_false: "trail_ok s \<Longrightarrow> in_range s l \<Longrightarrow> mvalue s l = l_False \<Longrightarrow> \<alpha> \<in> ms_models s \<Longrightarrow> \<alpha> (lvar l) = lsign l"
  using value_false [of s l] by (auto simp: ms_models_def)

lemma unassigned_enqueue:
  assumes "length (ms_assigns s) = nVars s" "in_range s p" "mvalue s p = l_Undef"
  shows "unassigned (uncheckedEnqueue p r s) + 1 = unassigned s"
proof -
  let ?i = "nat (lvar p)" and ?f = "filter (\<lambda>v. v = l_Undef)"
  have i: "?i < length (ms_assigns s)" "ms_assigns s ! ?i = l_Undef" using assms by (auto simp: in_range_def mvalue_def)
  have "length (?f (xs[i := v])) + 1 = length (?f xs)" if "i < length xs" "xs ! i = l_Undef" "v \<noteq> l_Undef" for xs i and v :: lbool
    using that by (induction xs arbitrary: i) (auto split: nat.split simp: nth_Cons')
  from this [OF i, of "if \<not> lsign p then l_True else l_False"] show ?thesis by (simp add: unassigned_def uncheckedEnqueue_def)
qed

lemma pass_unit:
  assumes inv: "pass_inv p (w # ws) kept s" and c1: "ms_ca s ! cref w ! 1 = lneg p" and k: "find_watch s (ms_ca s ! cref w) = None"
    and not_true: "mvalue s (ms_ca s ! cref w ! 0) \<noteq> l_True"
  defines "first \<equiv> ms_ca s ! cref w ! 0"
  shows "mvalue s first = l_False \<Longrightarrow> ms_models s = {}"
    and "mvalue s first \<noteq> l_False \<Longrightarrow> pass_inv p ws (kept @ [Watcher (cref w) first]) (uncheckedEnqueue first (Some (cref w)) s)"
    and "mvalue s first \<noteq> l_False \<Longrightarrow> pass_frame s (uncheckedEnqueue first (Some (cref w)) s)"
    and "mvalue s first \<noteq> l_False \<Longrightarrow> ms_models (uncheckedEnqueue first (Some (cref w)) s) = ms_models s"
proof -
  note mem = pass_member [OF inv]
  let ?c = "ms_ca s ! cref w" and ?t = "uncheckedEnqueue first (Some (cref w)) s"
  have ok: "clauses_ok s" and tok: "trail_ok s" and W: "watches_ok (done_with p (kept @ w # ws) s)" and p: "in_range s p" "p \<in> set (ms_trail s)"
    and bcp: "bcp_ok (\<lambda>cr l. l = lneg p \<and> cr \<in> cref ` set (w # ws)) s" using inv by (auto simp: pass_inv_def dest: in_set_takeD)
  then have len: "0 < length ?c" and range: "\<And>l. l \<in> set ?c \<Longrightarrow> in_range s l" using mem(1) by (force simp: clauses_ok_def)+
  have first: "in_range s first" "first \<in> set ?c" using range len by (auto simp: first_def)
  have "mvalue s (?c ! i) = l_False" if "0 < i" "i < length ?c" for i
  proof (cases "i = 1")
    case True
    then show ?thesis using c1 p value_false [OF tok, of "lneg p"] by simp
  next
    case False
    then show ?thesis using k that by (auto simp: find_watch_def find_None_iff)
  qed
  then have rest: "l = first \<or> mvalue s l = l_False" if "l \<in> set ?c" for l
    using that by (auto simp: in_set_conv_nth first_def) (metis gr0I)
  have implied: "\<alpha> (lvar first) \<noteq> lsign first" if "\<alpha> \<in> ms_models s" for \<alpha>
    using that mem(1) rest range model_false [OF tok _ _ that] by (force simp: ms_models_def)
  show "mvalue s first = l_False \<Longrightarrow> ms_models s = {}" using implied model_false [OF tok first(1)] by blast
  assume "mvalue s first \<noteq> l_False"
  with not_true have undef: "mvalue s first = l_Undef" by (cases "mvalue s first") (simp_all add: first_def)
  have assigns: "length (ms_assigns s) = nVars s" using tok by (simp add: trail_ok_def)
  show "ms_models ?t = ms_models s" using implied by (auto simp: ms_models_def)
  show "pass_frame s ?t" using unassigned_enqueue [OF assigns first(1) undef, of "Some (cref w)"] by (simp add: pass_frame_def)
  have "watches_ok (done_with p (kept @ Watcher (cref w) first # ws) ?t)"
    using keep_watches [OF W, of "Watcher (cref w) first"] first(2) by (simp add: done_with_def watches_ok_def watched_def)
  moreover have "clauses_ok ?t" using ok by (simp add: clauses_ok_def)
  moreover have "bcp_ok (\<lambda>cr l. l = lneg p \<and> cr \<in> cref ` set ws) ?t"
    using bcp enqueue_true [OF tok ok first(1) undef, of _ "Some (cref w)"] first(2) inv
    by (auto simp: bcp_ok_def watched_def pass_inv_def trail_ok_def)
  ultimately show "pass_inv p ws (kept @ [Watcher (cref w) first]) ?t"
    using inv enqueue_trail_ok [OF tok first(1) undef] by (simp add: pass_inv_def trail_ok_def)
qed

lemma propagate_watches_Cons:
  fixes p :: mlit
  assumes "mvalue s (blocker w) \<noteq> l_True"
  defines "c \<equiv> false_second (lneg p) (ms_ca s ! cref w)"
  defines "t \<equiv> s\<lparr>ms_ca := (ms_ca s)[cref w := c]\<rparr>"
  shows "propagate_watches p (w # ws) kept s =
    (if c ! 0 \<noteq> blocker w \<and> mvalue t (c ! 0) = l_True then propagate_watches p ws (kept @ [Watcher (cref w) (c ! 0)]) t
     else case find_watch t c of
       Some k \<Rightarrow> propagate_watches p ws kept (t\<lparr>ms_ca := (ms_ca t)[cref w := c[1 := c ! k, k := lneg p]],
         ms_watches := (ms_watches t)(lneg (c[1 := c ! k, k := lneg p] ! 1) :=
           ms_watches t (lneg (c[1 := c ! k, k := lneg p] ! 1)) @ [Watcher (cref w) (c ! 0)])\<rparr>)
     | None \<Rightarrow> if mvalue t (c ! 0) = l_False
         then (kept @ Watcher (cref w) (c ! 0) # ws, Some (cref w), t\<lparr>ms_qhead := length (ms_trail t)\<rparr>)
         else propagate_watches p ws (kept @ [Watcher (cref w) (c ! 0)]) (uncheckedEnqueue (c ! 0) (Some (cref w)) t))"
  unfolding propagate_watches.simps(2) Let_def false_second_def [symmetric] c_def [symmetric] t_def [symmetric] if_not_P [OF assms(1)] ..

lemma pass_correct: "pass_inv p ws kept s \<Longrightarrow> pass_post p s (propagate_watches p ws kept s)"
proof (induction ws arbitrary: kept s)
  case Nil
  then show ?case by (auto simp: pass_inv_def pass_post_def pass_frame_refl bcp_ok_def)
next
  case (Cons w ws)
  note inv = Cons.prems and mem = pass_member [OF Cons.prems]
  show ?case
  proof (cases "mvalue s (blocker w) = l_True")
    case True
    then have "mtrue s (ms_ca s ! cref w)" using mem(3) by (auto simp: mtrue_def)
    from Cons.IH [OF pass_keep [OF inv this refl mem(3)]] True show ?thesis by simp
  next
    case False
    define c where "c = false_second (lneg p) (ms_ca s ! cref w)"
    define t where "t = s\<lparr>ms_ca := (ms_ca s)[cref w := c]\<rparr>"
    note norm = pass_normalise [OF inv, folded c_def, folded t_def]
    note unfold = propagate_watches_Cons [OF False, of p ws kept, folded c_def, folded t_def]
    let ?w' = "Watcher (cref w) (c ! 0)"
    have c0: "c ! 0 \<in> set (ms_ca t ! cref w)" unfolding norm(2) using norm(4) by (intro nth_mem) linarith
    have q: "ms_qhead t = ms_qhead s" by (simp add: t_def)
    have "pass_post p t (propagate_watches p (w # ws) kept s)"
    proof (cases "c ! 0 \<noteq> blocker w \<and> mvalue t (c ! 0) = l_True")
      case True
      then have "mtrue t (ms_ca t ! cref w)" using c0 by (auto simp: mtrue_def)
      from Cons.IH [OF pass_keep [OF norm(1) this, of ?w']] c0 True show ?thesis unfolding unfold by simp
    next
      case first: False
      then have nt: "mvalue t (ms_ca t ! cref w ! 0) \<noteq> l_True" using False unfolding norm(2) by (auto simp: t_def)
      show ?thesis
      proof (cases "find_watch t c")
        case (Some k)
        note move = pass_move [OF norm(1) norm(3) [folded norm(2)] Some [folded norm(2)], unfolded norm(2)]
        show ?thesis unfolding unfold if_not_P [OF first] Some option.case
          by (rule pass_post_step [OF Cons.IH [OF move(1)] move(2,3)]) simp
      next
        case None
        note unit = pass_unit [OF norm(1) norm(3) [folded norm(2)] None [folded norm(2)] nt, unfolded norm(2)]
        show ?thesis
        proof (cases "mvalue t (c ! 0) = l_False")
          case True
          have t: "watches_ok (done_with p (kept @ w # ws) t)" "trail_ok t" "clauses_ok t" using norm(1) by (simp_all add: pass_inv_def)
          from keep_watches [OF t(1), of ?w'] c0 have "watches_ok (done_with p (kept @ ?w' # ws) (t\<lparr>ms_qhead := length (ms_trail t)\<rparr>))"
            by (simp add: done_with_def watches_ok_def watched_def)
          moreover have "trail_ok (t\<lparr>ms_qhead := length (ms_trail t)\<rparr>)" "clauses_ok (t\<lparr>ms_qhead := length (ms_trail t)\<rparr>)"
            using t(2,3) by (simp_all add: trail_ok_def clauses_ok_def in_range_def)
          ultimately show ?thesis unfolding unfold if_not_P [OF first] None option.case if_P [OF True]
            using unit(1) [OF True] by (simp add: pass_post_def pass_frame_def unassigned_def)
        next
          case other: False
          show ?thesis unfolding unfold if_not_P [OF first] None option.case if_not_P [OF other]
            by (rule pass_post_step [OF Cons.IH [OF unit(2) [OF other]] unit(3,4) [OF other]]) simp
        qed
      qed
    qed
    from pass_post_step [OF this norm(6,7) q] show ?thesis .
  qed
qed

section \<open>Propagation\<close>

definition prop_inv :: "minisat \<Rightarrow> bool" where
  "prop_inv s \<longleftrightarrow> trail_ok s \<and> clauses_ok s \<and> watches_ok s \<and> bcp_ok (\<lambda>cr l. False) s"

definition loop_inv :: "minisat \<Rightarrow> nat option \<times> minisat \<Rightarrow> bool" where
  "loop_inv s cs \<longleftrightarrow>
     (case cs of (confl, t) \<Rightarrow>
        pass_frame s t \<and> trail_ok t \<and> clauses_ok t \<and> watches_ok t \<and>
        (if confl = None then bcp_ok (\<lambda>cr l. False) t \<and> ms_models t = ms_models s
         else ms_qhead t = length (ms_trail t) \<and> ms_models s = {}))"

lemma pass_frame_trans: "pass_frame s t \<Longrightarrow> pass_frame t u \<Longrightarrow> pass_frame s u"
  by (auto simp: pass_frame_def)

lemma pass_start:
  assumes s: "prop_inv s" and q: "ms_qhead s < length (ms_trail s)"
  defines "p \<equiv> ms_trail s ! ms_qhead s"
  shows "pass_inv p (ms_watches s p) [] (s\<lparr>ms_qhead := ms_qhead s + 1\<rparr>)"
proof -
  let ?t = "s\<lparr>ms_qhead := ms_qhead s + 1\<rparr>"
  have p: "p \<in> set (ms_trail s)" "take (ms_qhead ?t) (ms_trail s) = take (ms_qhead s) (ms_trail s) @ [p]"
    using q by (simp_all add: p_def take_Suc_conv_app_nth)
  have range: "in_range ?t l = in_range s l" for l by (simp add: in_range_def)
  have W: "cref ` set (ms_watches s p) = {cr \<in> set (ms_clauses s). watched s cr (lneg p)}"
    using s unfolding prop_inv_def watches_ok_def by blast
  have "mtrue s (ms_ca s ! cr) \<or> l = lneg p \<and> cr \<in> cref ` set (ms_watches s p)"
    if "cr \<in> set (ms_clauses s)" "watched s cr l" "lneg l \<in> set (take (ms_qhead s) (ms_trail s) @ [p])" for cr l
  proof (cases "lneg l = p")
    case True
    then have "l = lneg p" by auto
    with W that(1,2) show ?thesis by auto
  next
    case False
    with that s show ?thesis by (auto simp: prop_inv_def bcp_ok_def)
  qed
  then have "bcp_ok (\<lambda>cr l. l = lneg p \<and> cr \<in> cref ` set (ms_watches s p)) ?t"
    unfolding bcp_ok_def using p(2) by (simp add: watched_def mtrue_def)
  moreover have "trail_ok ?t" "clauses_ok ?t" "watches_ok (done_with p (ms_watches s p) ?t)"
    using s q range by (simp_all add: prop_inv_def trail_ok_def clauses_ok_def watches_ok_def done_with_def watched_def)
  moreover have "in_range s p" using s p(1) by (simp add: prop_inv_def trail_ok_def)
  ultimately show ?thesis using p range by (simp add: pass_inv_def)
qed

definition loop_measure :: "nat option \<times> minisat \<Rightarrow> nat" where
  "loop_measure cs = unassigned (snd cs) + (length (ms_trail (snd cs)) - ms_qhead (snd cs))"

lemma propagate_step_correct:
  assumes inv: "loop_inv s cs" and q: "ms_qhead (snd cs) < length (ms_trail (snd cs))"
  shows "loop_inv s (propagate_step cs)" and "loop_measure (propagate_step cs) < loop_measure cs"
proof -
  obtain confl t where cs: "cs = (confl, t)" by fastforce
  let ?p = "ms_trail t ! ms_qhead t" and ?t = "t\<lparr>ms_qhead := ms_qhead t + 1\<rparr>"
  have confl: "confl = None" using inv q by (auto simp: loop_inv_def cs split: if_splits)
  with inv have t: "prop_inv t" "pass_frame s t" "ms_models t = ms_models s" by (auto simp: loop_inv_def cs prop_inv_def)
  obtain kept confl' u where u: "propagate_watches ?p (ms_watches t ?p) [] ?t = (kept, confl', u)" by (metis prod_cases3)
  have q': "ms_qhead t < length (ms_trail t)" using q by (simp add: cs)
  from pass_correct [OF pass_start [OF t(1) q'], unfolded u] have post: "pass_post ?p ?t (kept, confl', u)" .
  have step: "propagate_step cs = (confl', done_with ?p kept u)"
    using confl u by (auto simp: propagate_step_def cs Let_def done_with_def split: option.split)
  have frame: "pass_frame t ?t" "ms_models ?t = ms_models t" by (simp_all add: pass_frame_def unassigned_def ms_models_def)
  have u_frame: "pass_frame ?t u" using post by (simp add: pass_post_def)
  moreover have "pass_frame u (done_with ?p kept u)" by (simp add: pass_frame_def done_with_def unassigned_def)
  ultimately have "pass_frame s (done_with ?p kept u)" using t(2) frame(1) pass_frame_trans by blast
  moreover have "trail_ok (done_with ?p kept u) = trail_ok u" "clauses_ok (done_with ?p kept u) = clauses_ok u"
    "bcp_ok X (done_with ?p kept u) = bcp_ok X u" "ms_models (done_with ?p kept u) = ms_models u" for X
    by (simp_all add: done_with_def trail_ok_def clauses_ok_def bcp_ok_def watched_def mtrue_def in_range_def ms_models_def)
  ultimately show "loop_inv s (propagate_step cs)"
    using post t(3) frame(2) by (auto simp: loop_inv_def step pass_post_def done_with_def)
  have "unassigned u + length (ms_trail u) = unassigned t + length (ms_trail t)" "length (ms_trail t) \<le> length (ms_trail u)"
    using u_frame frame(1) by (auto simp: pass_frame_def)
  moreover have "ms_qhead u = ms_qhead t + 1 \<or> ms_qhead u = length (ms_trail u)" using post by (auto simp: pass_post_def split: if_splits)
  moreover have "loop_measure (propagate_step cs) = unassigned u + (length (ms_trail u) - ms_qhead u)"
    unfolding step by (simp add: loop_measure_def done_with_def unassigned_def)
  moreover have "loop_measure cs = unassigned t + (length (ms_trail t) - ms_qhead t)" by (simp add: loop_measure_def cs)
  ultimately show "loop_measure (propagate_step cs) < loop_measure cs" using q' by linarith
qed

lemma propagate_correct:
  assumes s: "prop_inv s"
  obtains confl t where "Solver_propagate s = Some (confl, t)" and "loop_inv s (confl, t)" and "ms_qhead t = length (ms_trail t)"
proof -
  have init: "loop_inv s (None, s)" using s by (simp add: loop_inv_def prop_inv_def pass_frame_refl)
  have "\<exists>cs. Solver_propagate s = Some cs"
    unfolding Solver_propagate_def
    by (rule measure_while_option_Some [where P = "loop_inv s" and f = loop_measure, OF _ init]) (simp add: propagate_step_correct)
  then obtain cs where cs: "Solver_propagate s = Some cs" ..
  have "loop_inv s cs"
    by (rule while_option_rule [where P = "loop_inv s", OF _ cs [unfolded Solver_propagate_def] init]) (rule propagate_step_correct)
  moreover have "\<not> ms_qhead (snd cs) < length (ms_trail (snd cs))" using while_option_stop [OF cs [unfolded Solver_propagate_def]] .
  ultimately show thesis using that cs by (cases cs) (auto simp: loop_inv_def trail_ok_def)
qed

text \<open>A clause that is not true is neither unit nor false once propagation has ended without a conflict.\<close>

lemma propagated_clause:
  assumes s: "prop_inv s" "ms_qhead s = length (ms_trail s)" and cr: "cr \<in> set (ms_clauses s)" and nt: "\<not> mtrue s (ms_ca s ! cr)"
  shows "mvalue s (ms_ca s ! cr ! 0) = l_Undef" and "mvalue s (ms_ca s ! cr ! 1) = l_Undef"
proof -
  let ?c = "ms_ca s ! cr"
  have "2 \<le> length ?c" using s(1) cr by (auto simp: prop_inv_def clauses_ok_def)
  then have "0 < length ?c" "1 < length ?c" by linarith+
  then have c: "?c ! 0 \<in> set ?c" "?c ! 1 \<in> set ?c" by simp_all
  have "mvalue s l = l_Undef" if l: "l = ?c ! 0 \<or> l = ?c ! 1" for l
  proof -
    have "l \<in> set ?c" using c l by auto
    then have "mvalue s l \<noteq> l_True" "in_range s l" using nt s(1) cr by (auto simp: mtrue_def prop_inv_def clauses_ok_def)
    moreover have "lneg l \<notin> set (ms_trail s)" using s cr nt l by (auto simp: prop_inv_def bcp_ok_def watched_def)
    ultimately show ?thesis using value_false [of s l] s(1) by (cases "mvalue s l") (auto simp: prop_inv_def)
  qed
  then show "mvalue s (?c ! 0) = l_Undef" "mvalue s (?c ! 1) = l_Undef" by blast+
qed

section \<open>Adding a clause\<close>

definition msat :: "(int \<Rightarrow> bool) \<Rightarrow> mlit set \<Rightarrow> bool" where
  "msat \<alpha> c \<longleftrightarrow> (\<exists>l\<in>c. \<alpha> (lvar l) \<noteq> lsign l)"

definition ms_inv :: "minisat \<Rightarrow> bool" where
  "ms_inv s \<longleftrightarrow> trail_ok s \<and> clauses_ok s \<and> watches_ok s \<and> (ms_ok s \<longrightarrow> bcp_ok (\<lambda>cr l. False) s) \<and>
     mkLit (ms_varTrue s) False \<in> set (ms_trail s) \<and> mkLit (ms_varFalse s) True \<in> set (ms_trail s)"

text \<open>The models of the clause database; there are none once a conflict at level 0 has been found.\<close>

definition db_models :: "minisat \<Rightarrow> (int \<Rightarrow> bool) set" where
  "db_models s = (if ms_ok s then ms_models s else {})"

lemma model_true: "trail_ok s \<Longrightarrow> in_range s l \<Longrightarrow> mvalue s l = l_True \<Longrightarrow> \<alpha> \<in> ms_models s \<Longrightarrow> \<alpha> (lvar l) \<noteq> lsign l"
  using value_true [of s l] by (auto simp: ms_models_def)

lemma msat_simps [simp]:
  "\<not> msat \<alpha> {}" "msat \<alpha> (insert l c) \<longleftrightarrow> \<alpha> (lvar l) \<noteq> lsign l \<or> msat \<alpha> c" "msat \<alpha> (c \<union> d) \<longleftrightarrow> msat \<alpha> c \<or> msat \<alpha> d"
  by (auto simp: msat_def)

definition kept_lit :: "mlit \<Rightarrow> mlit set" where
  "kept_lit p = (if p = lit_Undef then {} else {p})"

lemma addClause_loop_sound:
  assumes s: "trail_ok s" and \<alpha>: "\<alpha> \<in> ms_models s"
  shows "\<forall>x\<in>set xs. in_range s x \<Longrightarrow>
    (case addClause_loop s p xs of None \<Rightarrow> msat \<alpha> (kept_lit p \<union> set xs)
     | Some qs \<Rightarrow> msat \<alpha> (kept_lit p \<union> set xs) = msat \<alpha> (kept_lit p \<union> set qs))"
proof (induction xs arbitrary: p)
  case (Cons x xs)
  then have x: "in_range s x" "\<forall>x\<in>set xs. in_range s x" by auto
  then have und: "x \<noteq> lit_Undef" "x \<noteq> lneg lit_Undef" by (auto simp: in_range_def lit_Undef_def lneg_def lvar_def)
  consider "mvalue s x = l_True" | "mvalue s x \<noteq> l_True" "x = lneg p" | "mvalue s x \<noteq> l_True" "x \<noteq> lneg p" "x = p"
    | "x \<noteq> lneg p" "x \<noteq> p" "mvalue s x = l_False" | "x \<noteq> lneg p" "x \<noteq> p" "mvalue s x = l_Undef"
    using lbool.exhaust [of "mvalue s x"] by (metis lbool.distinct)
  then show ?case
  proof cases
    case 1
    then show ?thesis using model_true [OF s x(1) _ \<alpha>] by simp
  next
    case 2
    then have "p \<noteq> lit_Undef" using und by auto
    with 2 show ?thesis by (auto simp: kept_lit_def)
  next
    case 3
    then show ?thesis using Cons.IH [OF x(2), of p] und by (auto simp: kept_lit_def split: option.splits)
  next
    case 4
    then show ?thesis using Cons.IH [OF x(2), of p] model_false [OF s x(1) _ \<alpha>] by (auto split: option.splits)
  next
    case 5
    then show ?thesis using Cons.IH [OF x(2), of x] und by (auto simp: kept_lit_def split: option.splits)
  qed
qed simp

lemma addClause_loop_shape:
  "sorted xs \<Longrightarrow> \<forall>x\<in>set xs. p \<le> x \<Longrightarrow> addClause_loop s p xs = Some qs \<Longrightarrow>
    set qs \<subseteq> set xs \<and> distinct qs \<and> (\<forall>q\<in>set qs. p < q \<and> mvalue s q = l_Undef)"
proof (induction xs arbitrary: p qs)
  case (Cons x xs)
  show ?case
  proof (cases "x = p \<or> mvalue s x = l_False")
    case True
    with Cons show ?thesis by (auto split: if_splits)
  next
    case False
    with Cons.prems(2,3) obtain rs where rs: "addClause_loop s x xs = Some rs" "qs = x # rs" "mvalue s x \<noteq> l_True" by (auto split: if_splits)
    then have "mvalue s x = l_Undef" using False by (cases "mvalue s x") auto
    moreover have "p < x" using False Cons.prems(2) by auto
    ultimately show ?thesis using Cons.IH [OF _ _ rs(1)] Cons.prems(1) rs(2) by (auto simp: less_le_trans)
  qed
qed simp

lemma attach_correct:
  assumes s: "ms_inv s" "ms_ok s" and c: "2 \<le> length c" "distinct c" "\<forall>l\<in>set c. in_range s l \<and> mvalue s l = l_Undef"
  defines "cr \<equiv> length (ms_ca s)"
  defines "t \<equiv> attachClause cr (s\<lparr>ms_ca := ms_ca s @ [c], ms_clauses := ms_clauses s @ [cr]\<rparr>)"
  shows "ms_inv t" and "db_models t = {\<alpha> \<in> db_models s. msat \<alpha> (set c)}" and "nVars t = nVars s" and "ms_ok t"
    and "ms_varTrue t = ms_varTrue s" and "ms_varFalse t = ms_varFalse s"
proof -
  let ?V = "ms_watches s"
  define W where "W = ?V(lneg (c ! 0) := ?V (lneg (c ! 0)) @ [Watcher cr (c ! 1)], lneg (c ! 1) := ?V (lneg (c ! 1)) @ [Watcher cr (c ! 0)])"
  have inv: "trail_ok s" "clauses_ok s" "watches_ok s" "bcp_ok (\<lambda>cr l. False) s" using s by (simp_all add: ms_inv_def)
  have len: "0 < length c" "1 < length c" using c(1) by linarith+
  then have ne: "c ! 0 \<noteq> c ! 1" using nth_ne [OF c(2) len] by simp
  have t: "t = s\<lparr>ms_ca := ms_ca s @ [c], ms_clauses := ms_clauses s @ [cr], ms_watches := W\<rparr>"
    using ne by (simp add: t_def attachClause_def Let_def cr_def W_def nth_append)
  have old: "d < cr" "ms_ca t ! d = ms_ca s ! d" if "d \<in> set (ms_clauses s)" for d
    using inv(2) that by (auto simp: clauses_ok_def cr_def t nth_append)
  have at: "ms_ca t ! cr = c" by (simp add: t cr_def)
  have clauses: "set (ms_clauses t) = insert cr (set (ms_clauses s))" and cl: "length (ms_ca t) = Suc cr" by (simp_all add: t cr_def)
  have range: "in_range t l = in_range s l" for l by (simp add: t in_range_def)
  show "nVars t = nVars s" "ms_ok t" "ms_varTrue t = ms_varTrue s" "ms_varFalse t = ms_varFalse s" using s(2) by (simp_all add: t)
  show "db_models t = {\<alpha> \<in> db_models s. msat \<alpha> (set c)}"
  proof -
    have "(\<forall>d\<in>set (ms_clauses t). msat \<alpha> (set (ms_ca t ! d))) \<longleftrightarrow> msat \<alpha> (set c) \<and> (\<forall>d\<in>set (ms_clauses s). msat \<alpha> (set (ms_ca s ! d)))" for \<alpha>
      unfolding clauses using at old(2) by simp
    moreover have "ms_trail t = ms_trail s" "ms_ok t = ms_ok s" by (simp_all add: t)
    ultimately show ?thesis using s(2) unfolding db_models_def ms_models_def msat_def [symmetric] by auto
  qed
  have "trail_ok t" using inv(1) range by (simp add: trail_ok_def) (simp add: t)
  moreover have "clauses_ok t"
    unfolding clauses_ok_def clauses cl
  proof (intro ballI)
    fix d assume "d \<in> insert cr (set (ms_clauses s))"
    then show "d < Suc cr \<and> 2 \<le> length (ms_ca t ! d) \<and> distinct (ms_ca t ! d) \<and> (\<forall>l\<in>set (ms_ca t ! d). in_range t l)"
    proof
      assume "d = cr"
      then show ?thesis using at c range by simp
    next
      assume d: "d \<in> set (ms_clauses s)"
      then show ?thesis using inv(2) old [OF d] range by (simp add: clauses_ok_def)
    qed
  qed
  moreover have new: "cr \<notin> set (ms_clauses s)" using old(1) by blast
  have watched: "watched t cr l \<longleftrightarrow> l = c ! 0 \<or> l = c ! 1" "d \<in> set (ms_clauses s) \<Longrightarrow> watched t d l = watched s d l" for d l
    using at old by (auto simp: watched_def)
  have "watches_ok t"
  proof -
    have V: "distinct (map cref (?V q))" "cref ` set (?V q) = {d \<in> set (ms_clauses s). watched s d (lneg q)}"
      "v \<in> set (?V q) \<Longrightarrow> blocker v \<in> set (ms_ca s ! cref v) \<and> cref v \<in> set (ms_clauses s)" for q v
      using inv(3) unfolding watches_ok_def by blast+
    have fresh: "cr \<notin> cref ` set (?V q)" for q unfolding V(2) using old(1) by auto
    have "distinct (map cref (W q))" for q using V(1) fresh by (auto simp: W_def image_iff ne)
    moreover have "cref ` set (W q) = {d \<in> insert cr (set (ms_clauses s)). watched t d (lneg q)}" for q
    proof -
      have q: "q = lneg (c ! 0) \<longleftrightarrow> lneg q = c ! 0" "q = lneg (c ! 1) \<longleftrightarrow> lneg q = c ! 1" by (metis lneg_simps(1))+
      have "{d \<in> insert cr (set (ms_clauses s)). watched t d (lneg q)} =
        {d \<in> set (ms_clauses s). watched s d (lneg q)} \<union> (if lneg q = c ! 0 \<or> lneg q = c ! 1 then {cr} else {})"
        using watched new by auto
      also have "\<dots> = cref ` set (W q)"
        unfolding V(2) [symmetric] q [symmetric] using ne by (simp add: W_def)
      finally show ?thesis ..
    qed
    moreover have "blocker v \<in> set (ms_ca t ! cref v)" if "v \<in> set (W q)" for q v
    proof -
      have "v \<in> set (?V q) \<or> v = Watcher cr (c ! 1) \<or> v = Watcher cr (c ! 0)" using that by (auto simp: W_def split: if_splits)
      then show ?thesis using V(3) [of v q] old at len by auto
    qed
    ultimately show ?thesis unfolding watches_ok_def clauses [symmetric] by (simp add: t)
  qed
  moreover have "bcp_ok (\<lambda>cr l. False) t"
    unfolding bcp_ok_def clauses
  proof (intro ballI allI impI)
    fix d l assume d: "d \<in> insert cr (set (ms_clauses s))" "watched t d l" "lneg l \<in> set (take (ms_qhead t) (ms_trail t))"
    then have l: "lneg l \<in> set (take (ms_qhead s) (ms_trail s))" by (simp add: t)
    have "d \<noteq> cr"
    proof
      assume "d = cr"
      then have "l \<in> set c" using d watched len by auto
      then have "in_range s l" "mvalue s l = l_Undef" using c(3) by auto
      with value_false [OF inv(1), of l] l show False by (auto dest: in_set_takeD)
    qed
    with d l inv(4) watched old(2) show "mtrue t (ms_ca t ! d) \<or> False" by (auto simp: bcp_ok_def mtrue_def t)
  qed
  ultimately show "ms_inv t" using s(1) by (simp add: ms_inv_def) (simp add: t)
qed

text \<open>At most one clause is added, none when the solver becomes inconsistent, and the others keep their literals.\<close>

definition clauses_grow :: "minisat \<Rightarrow> minisat \<Rightarrow> bool" where
  "clauses_grow s t \<longleftrightarrow>
     (\<exists>cs. ms_clauses t = ms_clauses s @ cs \<and> length cs \<le> 1) \<and> (\<not> ms_ok t \<longrightarrow> ms_clauses t = ms_clauses s) \<and>
     (\<forall>cr\<in>set (ms_clauses s). set (ms_ca t ! cr) = set (ms_ca s ! cr))"

lemma clauses_grow_same: "ms_clauses t = ms_clauses s \<Longrightarrow> ms_ca t = ms_ca s \<Longrightarrow> clauses_grow s t"
  by (simp add: clauses_grow_def)

lemma unit_correct:
  assumes s: "ms_inv s" "ms_ok s" and p: "in_range s p" "mvalue s p = l_Undef"
  obtains confl t where "Solver_propagate (uncheckedEnqueue p None s) = Some (confl, t)"
    and "ms_inv (t\<lparr>ms_ok := (confl = None)\<rparr>)" and "db_models (t\<lparr>ms_ok := (confl = None)\<rparr>) = {\<alpha> \<in> db_models s. msat \<alpha> {p}}"
    and "nVars t = nVars s" and "ms_varTrue t = ms_varTrue s" and "ms_varFalse t = ms_varFalse s" and "clauses_grow s (t\<lparr>ms_ok := (confl = None)\<rparr>)"
proof -
  let ?s = "uncheckedEnqueue p None s"
  have inv: "trail_ok s" "clauses_ok s" "watches_ok s" "bcp_ok (\<lambda>cr l. False) s" using s by (simp_all add: ms_inv_def)
  have "trail_ok ?s" using enqueue_trail_ok [OF inv(1) p] .
  moreover have "clauses_ok ?s" "watches_ok ?s" using inv(2,3) by (simp_all add: clauses_ok_def watches_ok_def watched_def)
  moreover have "bcp_ok (\<lambda>cr l. False) ?s"
    using inv(4) enqueue_true [OF inv(1,2) p, of _ None] inv(1) by (auto simp: bcp_ok_def watched_def trail_ok_def)
  ultimately have "prop_inv ?s" by (simp add: prop_inv_def)
  from propagate_correct [OF this]
  obtain confl t where t: "Solver_propagate ?s = Some (confl, t)" "loop_inv ?s (confl, t)" "ms_qhead t = length (ms_trail t)" by blast
  let ?t = "t\<lparr>ms_ok := (confl = None)\<rparr>"
  have m: "ms_models ?s = {\<alpha> \<in> ms_models s. msat \<alpha> {p}}" by (auto simp: ms_models_def)
  have frame: "pass_frame ?s t" using t(2) by (simp add: loop_inv_def)
  have same: "trail_ok ?t = trail_ok t" "clauses_ok ?t = clauses_ok t" "watches_ok ?t = watches_ok t" "bcp_ok X ?t = bcp_ok X t" "ms_models ?t = ms_models t" for X
    by (simp_all add: trail_ok_def clauses_ok_def watches_ok_def bcp_ok_def watched_def mtrue_def in_range_def ms_models_def)
  have "ms_inv ?t"
    using t(2) s(1) frame same by (auto simp: loop_inv_def ms_inv_def pass_frame_def split: if_splits)
  moreover have "db_models ?t = {\<alpha> \<in> db_models s. msat \<alpha> {p}}"
    using t(2) s(2) m same(5) by (auto simp: loop_inv_def db_models_def split: if_splits)
  moreover have "clauses_grow s ?t" using frame by (simp add: pass_frame_def clauses_grow_def)
  ultimately show thesis using that t(1) frame by (auto simp: pass_frame_def)
qed

lemma addClause_correct:
  assumes s: "ms_inv s" and ps: "\<forall>l\<in>set ps. in_range s l"
  obtains r t where "Solver_addClause ps s = Some (r, t)" and "r = ms_ok t" and "ms_inv t"
    and "db_models t = {\<alpha> \<in> db_models s. msat \<alpha> (set ps)}" and "nVars t = nVars s" and "ms_varTrue t = ms_varTrue s" and "ms_varFalse t = ms_varFalse s"
    and "clauses_grow s t"
proof -
  have tok: "trail_ok s" and level: "decisionLevel s = 0" using s by (simp_all add: ms_inv_def trail_ok_def decisionLevel_def)
  show thesis
  proof (cases "ms_ok s")
    case False
    then show thesis using that [of False s] s level by (simp add: Solver_addClause_def db_models_def clauses_grow_same)
  next
    case ok: True
    let ?loop = "addClause_loop s lit_Undef (sort ps)"
    have range: "\<forall>l\<in>set (sort ps). in_range s l" using ps by simp
    have low: "\<forall>x\<in>set (sort ps). lit_Undef \<le> x" using ps by (auto simp: in_range_def lit_Undef_def lvar_div)
    note sound = addClause_loop_sound [OF tok _ range, of _ lit_Undef, unfolded kept_lit_def]
    show thesis
    proof (cases ?loop)
      case None
      then have "db_models s = {\<alpha> \<in> db_models s. msat \<alpha> (set ps)}" using sound by (auto simp: db_models_def)
      then show thesis using that [of True s] s level ok None by (simp add: Solver_addClause_def clauses_grow_same)
    next
      case (Some qs)
      let ?s = "s\<lparr>ms_clause_added := True\<rparr>"
      have sat: "msat \<alpha> (set ps) = msat \<alpha> (set qs)" if "\<alpha> \<in> db_models s" for \<alpha>
        using sound [of \<alpha>] that Some by (simp add: db_models_def ok)
      note shape = addClause_loop_shape [OF sorted_sort low Some]
      have inv: "ms_inv ?s" "ms_ok ?s" "db_models ?s = db_models s" "\<forall>q\<in>set qs. in_range ?s q \<and> mvalue ?s q = l_Undef"
        using s ok shape ps by (auto simp: ms_inv_def trail_ok_def clauses_ok_def watches_ok_def watched_def bcp_ok_def mtrue_def db_models_def
            ms_models_def in_range_def)
      consider "qs = []" | p where "qs = [p]" | "2 \<le> length qs" by (cases qs; cases "tl qs") auto
      then show thesis
      proof cases
        case 1
        let ?t = "?s\<lparr>ms_ok := False\<rparr>"
        have "Solver_addClause ps s = Some (False, ?t)" using 1 Some level ok by (simp add: Solver_addClause_def Let_def)
        moreover have "ms_inv ?t" using s by (simp add: ms_inv_def trail_ok_def clauses_ok_def watches_ok_def watched_def in_range_def)
        ultimately show thesis using that [of False ?t] 1 sat by (auto simp: db_models_def clauses_grow_same)
      next
        case 2
        from unit_correct [OF inv(1,2), of p] inv(4) 2
        obtain confl t where t: "Solver_propagate (uncheckedEnqueue p None ?s) = Some (confl, t)"
          "ms_inv (t\<lparr>ms_ok := (confl = None)\<rparr>)" "db_models (t\<lparr>ms_ok := (confl = None)\<rparr>) = {\<alpha> \<in> db_models ?s. msat \<alpha> {p}}"
          "nVars t = nVars ?s" "ms_varTrue t = ms_varTrue ?s" "ms_varFalse t = ms_varFalse ?s" "clauses_grow ?s (t\<lparr>ms_ok := (confl = None)\<rparr>)" by auto
        have "clauses_grow s (t\<lparr>ms_ok := (confl = None)\<rparr>)" using t(7) by (simp add: clauses_grow_def)
        moreover have "Solver_addClause ps s = Some (confl = None, t\<lparr>ms_ok := (confl = None)\<rparr>)"
          using 2 Some level ok t(1) by (simp add: Solver_addClause_def Let_def)
        moreover have "{\<alpha> \<in> db_models ?s. msat \<alpha> {p}} = {\<alpha> \<in> db_models s. msat \<alpha> (set ps)}" using sat 2 inv(3) by auto
        ultimately show thesis using t(2-6) by (intro that [of "confl = None" "t\<lparr>ms_ok := (confl = None)\<rparr>"]) simp_all
      next
        case 3
        let ?t = "attachClause (length (ms_ca ?s)) (?s\<lparr>ms_ca := ms_ca ?s @ [qs], ms_clauses := ms_clauses ?s @ [length (ms_ca ?s)]\<rparr>)"
        note att = attach_correct [OF inv(1,2) 3 _ inv(4)]
        have "Solver_addClause ps s = Some (True, ?t)"
          using 3 Some level ok by (auto simp: Solver_addClause_def Let_def)
        moreover have "{\<alpha> \<in> db_models ?s. msat \<alpha> (set qs)} = {\<alpha> \<in> db_models s. msat \<alpha> (set ps)}" using sat inv(3) by auto
        moreover have "clauses_grow s ?t"
          using s ok by (auto simp: clauses_grow_def attachClause_def Let_def nth_append ms_inv_def clauses_ok_def)
        ultimately show thesis using att shape by (intro that [of True ?t]) simp_all
      qed
    qed
  qed
qed

section \<open>Variables and models as the clients see them\<close>

definition minisat_vars :: "minisat \<Rightarrow> satVariable set" where
  "minisat_vars s = word_of_int ` {0..<int (nVars s)}"

definition minisat_models :: "minisat \<Rightarrow> assignment set" where
  "minisat_models s = {\<alpha>. (\<lambda>x. \<alpha> (word_of_int x)) \<in> db_models s}"

lemma uint_small: "0 \<le> x \<Longrightarrow> x < 2 ^ 30 \<Longrightarrow> uint (word_of_int x :: 64 word) = x"
  by (simp add: uint_word_of_int)

lemma to_int32_small: "0 \<le> x \<Longrightarrow> x < 2 ^ 30 \<Longrightarrow> to_int32 (word_of_int x) = x"
  by (simp add: to_int32_def ucast_eq uint_small sint_sbintrunc' signed_take_bit_int_eq_self)

lemma small_vars: "trail_ok s \<Longrightarrow> x \<in> minisat_vars s \<Longrightarrow> \<exists>i. x = word_of_int i \<and> 0 \<le> i \<and> i < int (nVars s) \<and> i < 2 ^ 30"
  by (auto simp: minisat_vars_def trail_ok_def)

lemma card_minisat_vars: "trail_ok s \<Longrightarrow> card (minisat_vars s) = nVars s"
proof -
  assume s: "trail_ok s"
  have "inj_on (word_of_int :: int \<Rightarrow> 64 word) {0..<int (nVars s)}"
  proof (rule inj_onI)
    fix x y assume "x \<in> {0..<int (nVars s)}" "y \<in> {0..<int (nVars s)}" and eq: "(word_of_int x :: 64 word) = word_of_int y"
    then have xy: "0 \<le> x" "x < 2 ^ 30" "0 \<le> y" "y < 2 ^ 30" using s by (auto simp: trail_ok_def)
    from arg_cong [OF eq, of uint] show "x = y" unfolding uint_small [OF xy(1,2)] uint_small [OF xy(3,4)] .
  qed
  then show ?thesis by (simp add: minisat_vars_def card_image)
qed

lemma undefSatLiteral_var: "uint (getSatVariable undefSatLiteral) = 2 ^ 63 - 1"
  by (simp add: undefSatLiteral_def undefSatVariable_def SatLiteral_def uint_getSatVariable uint_word_ariths)

lemma lvar_nonneg: "0 \<le> lvar p \<Longrightarrow> p \<noteq> lit_Undef"
  by (auto simp: lvar_div lit_Undef_def)

lemma toMinisatLit_mkLit:
  assumes "uint (getSatVariable l) < 2 ^ 30"
  shows "toMinisatLit l = mkLit (uint (getSatVariable l)) (isNegated l)" and "toSatLiteral (toMinisatLit l) = l"
proof -
  let ?x = "uint (getSatVariable l)"
  have "l \<noteq> undefSatLiteral" using assms undefSatLiteral_var by auto
  then show lit: "toMinisatLit l = mkLit ?x (isNegated l)"
    using to_int32_small [OF _ assms] by (simp add: toMinisatLit_def)
  have "mkLit ?x (isNegated l) \<noteq> lit_Undef" by (rule lvar_nonneg) simp
  then show "toSatLiteral (toMinisatLit l) = l" by (simp add: lit toSatLiteral_def)
qed

lemma toMinisatLit_small:
  assumes s: "trail_ok s" and l: "getSatVariable l \<in> minisat_vars s"
  shows "in_range s (toMinisatLit l)" and "word_of_int (lvar (toMinisatLit l)) = getSatVariable l" and "lsign (toMinisatLit l) = isNegated l"
proof -
  from small_vars [OF s l] obtain i where i: "getSatVariable l = word_of_int i" "0 \<le> i" "i < int (nVars s)" "i < 2 ^ 30" by blast
  then have "toMinisatLit l = mkLit i (isNegated l)" using toMinisatLit_mkLit(1) [of l] uint_small [OF i(2,4)] by simp
  then show "in_range s (toMinisatLit l)" "word_of_int (lvar (toMinisatLit l)) = getSatVariable l" "lsign (toMinisatLit l) = isNegated l"
    using i by (simp_all add: in_range_def)
qed

lemma msat_toMinisatLit:
  assumes "trail_ok s" and "getSatVariable ` set c \<subseteq> minisat_vars s"
  shows "msat (\<lambda>x. \<alpha> (word_of_int x)) (set (map toMinisatLit c)) = clause_true \<alpha> c"
  using assms(2) by (induction c) (auto simp: toMinisatLit_small [OF assms(1)] lit_true_def)

lemma newVar_correct:
  assumes s: "ms_inv s" and n: "nVars s < 2 ^ 30" and r: "Solver_newVar b d s = (x, t)"
  shows "ms_inv t" and "x = int (nVars s)" and "nVars t = nVars s + 1" and "db_models t = db_models s"
proof -
  have t: "x = int (nVars s)" "nVars t = nVars s + 1" "ms_trail t = ms_trail s" "ms_ca t = ms_ca s" "ms_clauses t = ms_clauses s"
    "ms_watches t = ms_watches s" "ms_qhead t = ms_qhead s" "ms_trail_lim t = ms_trail_lim s" "ms_ok t = ms_ok s"
    "ms_varTrue t = ms_varTrue s" "ms_varFalse t = ms_varFalse s" "ms_assigns t = ms_assigns s @ [l_Undef]"
    using r by (auto simp: Solver_newVar_def nVars_def)
  have tok: "trail_ok s" using s by (simp add: ms_inv_def)
  then have len: "length (ms_assigns s) = nVars s" by (simp add: trail_ok_def)
  have range: "in_range s l \<Longrightarrow> in_range t l" for l by (simp add: in_range_def t)
  have val: "mvalue t l = mvalue s l" if "in_range s l" for l
    using that len by (auto simp: mvalue_def t nth_append in_range_def)
  have new: "mvalue t l = l_Undef" if "in_range t l" "\<not> in_range s l" for l
    using that len by (auto simp: mvalue_def t nth_append in_range_def lbool_xor_def)
  have "trail_ok t"
    using tok n range val new unfolding trail_ok_def t by auto (metis lbool.distinct(3))+
  moreover have "clauses_ok t" "watches_ok t" using s range by (auto simp: ms_inv_def clauses_ok_def watches_ok_def watched_def t)
  moreover have "mtrue t (ms_ca t ! cr) = mtrue s (ms_ca s ! cr)" if "cr \<in> set (ms_clauses s)" for cr
    using that s val by (auto simp: mtrue_def t ms_inv_def clauses_ok_def)
  then have "bcp_ok X t = bcp_ok X s" for X by (simp add: bcp_ok_def t watched_def)
  ultimately show "ms_inv t" using s by (simp add: ms_inv_def t)
  show "x = int (nVars s)" "nVars t = nVars s + 1" "db_models t = db_models s" by (simp_all add: t db_models_def ms_models_def)
qed

lemma minisat_constants:
  assumes s: "ms_inv s" and \<alpha>: "\<alpha> \<in> minisat_models s"
  shows "\<alpha> (word_of_int (ms_varTrue s))" and "\<not> \<alpha> (word_of_int (ms_varFalse s))"
proof -
  have "\<forall>l\<in>set (ms_trail s). \<alpha> (word_of_int (lvar l)) \<noteq> lsign l"
    using \<alpha> by (simp add: minisat_models_def db_models_def ms_models_def split: if_splits)
  moreover have "mkLit (ms_varTrue s) False \<in> set (ms_trail s)" "mkLit (ms_varFalse s) True \<in> set (ms_trail s)" using s by (simp_all add: ms_inv_def)
  ultimately show "\<alpha> (word_of_int (ms_varTrue s))" "\<not> \<alpha> (word_of_int (ms_varFalse s))" by force+
qed

lemma minisat_models_local:
  assumes s: "ms_inv s" and \<alpha>: "\<alpha> \<in> minisat_models s" and \<beta>: "\<And>x. x \<in> minisat_vars s \<Longrightarrow> \<beta> x = \<alpha> x"
  shows "\<beta> \<in> minisat_models s"
proof -
  have "\<beta> (word_of_int (lvar l)) = \<alpha> (word_of_int (lvar l))" if "in_range s l" for l
    using that \<beta> by (auto simp: minisat_vars_def in_range_def)
  then show ?thesis using \<alpha> s
    by (auto simp: minisat_models_def db_models_def ms_models_def ms_inv_def clauses_ok_def trail_ok_def split: if_splits)
qed

lemma Solver_init_fields:
  "Solver_init phase_saving = \<lparr>ms_varTrue = 0, ms_varFalse = 1, ms_assigns = [l_True, l_False], ms_vardata = [(None, 0), (None, 0)],
     ms_marker = [0, 0], ms_polarity = [True, False], ms_decision = [False, False], ms_watches = (\<lambda>p. []), ms_ca = [], ms_clauses = [],
     ms_trail = [mkLit 0 False, mkLit 1 True], ms_trail_lim = [], ms_qhead = 0, ms_ok = True, ms_clause_added = False,
     ms_assumptions = [], ms_notified = [], ms_phase_saving = phase_saving\<rparr>"
  by (simp add: Solver_init_def Solver_newVar_def Solver_empty_def uncheckedEnqueue_def nVars_def decisionLevel_def)

lemma Solver_init_correct: "ms_inv (Solver_init phase_saving)" "minisat_models (Solver_init phase_saving) \<noteq> {}" "card (minisat_vars (Solver_init phase_saving)) = 2"
proof -
  let ?s = "Solver_init phase_saving"
  have val: "mvalue ?s p = l_True \<longleftrightarrow> p \<in> set (ms_trail ?s)" if "in_range ?s p" for p
  proof -
    have "lvar p = 0 \<or> lvar p = 1" using that by (auto simp: in_range_def nVars_def Solver_init_fields)
    then show ?thesis using lit_eq_iff [of p "mkLit 0 False"] lit_eq_iff [of p "mkLit 1 True"]
      by (auto simp: mvalue_def Solver_init_fields lbool_xor_def)
  qed
  have "trail_ok ?s" using val by (auto simp: trail_ok_def) (auto simp: Solver_init_fields nVars_def in_range_def)
  then show inv: "ms_inv ?s" by (simp add: ms_inv_def) (simp add: clauses_ok_def watches_ok_def bcp_ok_def Solver_init_fields)
  have "(\<lambda>x. x = 0) \<in> minisat_models ?s" by (simp add: minisat_models_def db_models_def ms_models_def Solver_init_fields)
  then show "minisat_models ?s \<noteq> {}" by blast
  show "card (minisat_vars ?s) = 2" using card_minisat_vars [OF \<open>trail_ok ?s\<close>] by (simp add: nVars_def Solver_init_fields)
qed

end
