(* ===== verification/Simp_Solver.thy ===== *)
theory Simp_Solver
  imports Minisat_Correctness
begin

text \<open>
  \<open>SimpSolver\<close> (\<open>src/src/prop/bvminisat/simp/SimpSolver.cc\<close>), the solver with the bookkeeping for variable
  elimination, and the wrapper \<open>BVMinisatSatSolver\<close> (\<open>src/src/prop/bvminisat/bvminisat.cpp\<close>) behind which the
  bit-blasters and the CNF stream use it. The heap that orders candidates for elimination is left out, and the
  option \<open>rcheck\<close> is off, its default. The wrapper keeps the contract \<open>sat_solver\<close>, and the occurrence
  lists and counters describe the clause database.
\<close>

section \<open>State and operations\<close>

record simpSolver =
  ss_core :: minisat
  ss_use_simplification :: bool
  ss_frozen :: "bool list"
  ss_eliminated :: "bool list"
  ss_touched :: "bool list"
  ss_occurs :: "nat list list"
  ss_n_occ :: "nat list"
  ss_subsumption_queue :: "nat list"
  ss_n_touched :: nat
  ss_bwdsub_tmpunit :: nat

definition SimpSolver_init :: "bool \<Rightarrow> nat \<Rightarrow> simpSolver" where
  "SimpSolver_init use_simplification phase_saving =
     (let s = Solver_init phase_saving;
          n = nVars s
      in \<lparr>ss_core = s\<lparr>ms_ca := ms_ca s @ [[lit_Undef]]\<rparr>, ss_use_simplification = use_simplification,
          ss_frozen = replicate n True, ss_eliminated = replicate n False,
          ss_touched = (if use_simplification then replicate n False else []),
          ss_occurs = (if use_simplification then replicate n [] else []),
          ss_n_occ = (if use_simplification then replicate (2 * n) 0 else []),
          ss_subsumption_queue = [], ss_n_touched = 0, ss_bwdsub_tmpunit = length (ms_ca s)\<rparr>)"

definition SimpSolver_setFrozen :: "int \<Rightarrow> bool \<Rightarrow> simpSolver \<Rightarrow> simpSolver" where
  "SimpSolver_setFrozen v b s = s\<lparr>ss_frozen := (ss_frozen s)[nat v := b]\<rparr>"

definition SimpSolver_newVar :: "bool \<Rightarrow> bool \<Rightarrow> bool \<Rightarrow> simpSolver \<Rightarrow> int \<times> simpSolver" where
  "SimpSolver_newVar sign dvar freeze s =
     (let (v, core) = Solver_newVar sign dvar (ss_core s);
          s = s\<lparr>ss_core := core, ss_frozen := ss_frozen s @ [False], ss_eliminated := ss_eliminated s @ [False]\<rparr>
      in if ss_use_simplification s then
           let s = s\<lparr>ss_n_occ := ss_n_occ s @ [0, 0], ss_occurs := ss_occurs s @ [[]], ss_touched := ss_touched s @ [False]\<rparr>
           in (v, if freeze then SimpSolver_setFrozen v True s else s)
         else (v, s))"

text \<open>What \<open>addClause_\<close> records for one literal of a new clause.\<close>

definition note_occurrence :: "nat \<Rightarrow> mlit \<Rightarrow> simpSolver \<Rightarrow> simpSolver" where
  "note_occurrence cr l s =
     (let v = nat (lvar l)
      in s\<lparr>ss_occurs := (ss_occurs s)[v := ss_occurs s ! v @ [cr]],
           ss_n_occ := (ss_n_occ s)[nat l := ss_n_occ s ! nat l + 1],
           ss_touched := (ss_touched s)[v := True],
           ss_n_touched := ss_n_touched s + 1\<rparr>)"

definition SimpSolver_addClause :: "mlit list \<Rightarrow> simpSolver \<Rightarrow> (bool \<times> simpSolver) option" where
  "SimpSolver_addClause ps s =
     (let nclauses = length (ms_clauses (ss_core s))
      in case Solver_addClause ps (ss_core s) of
           None \<Rightarrow> None
         | Some (r, core) \<Rightarrow>
             let s = s\<lparr>ss_core := core\<rparr>
             in if \<not> r then Some (False, s)
                else if ss_use_simplification s \<and> length (ms_clauses core) = nclauses + 1 then
                  let cr = last (ms_clauses core)
                  in Some (True, fold (note_occurrence cr) (ms_ca core ! cr)
                                   (s\<lparr>ss_subsumption_queue := ss_subsumption_queue s @ [cr]\<rparr>))
                else Some (True, s))"

section \<open>The wrapper\<close>

definition BVMinisat_addClause :: "satClause \<Rightarrow> bool \<Rightarrow> simpSolver \<Rightarrow> simpSolver" where
  "BVMinisat_addClause clause removable s =
     (case SimpSolver_addClause (map toMinisatLit clause) s of None \<Rightarrow> s | Some (r, s') \<Rightarrow> s')"

definition BVMinisat_newVar :: "bool \<Rightarrow> bool \<Rightarrow> bool \<Rightarrow> simpSolver \<Rightarrow> satVariable \<times> simpSolver" where
  "BVMinisat_newVar isTheoryAtom preRegister canErase s =
     (let (x, s') = SimpSolver_newVar True True (\<not> canErase) s in (word_of_int x, s'))"

definition BVMinisat_markUnremovable :: "satLiteral \<Rightarrow> simpSolver \<Rightarrow> simpSolver" where
  "BVMinisat_markUnremovable lit s = SimpSolver_setFrozen (lvar (toMinisatLit lit)) True s"

definition BVMinisat_value :: "satLiteral \<Rightarrow> simpSolver \<Rightarrow> satValue" where
  "BVMinisat_value l s = toSatLiteralValue (mvalue (ss_core s) (toMinisatLit l))"

definition BVMinisat_ok :: "simpSolver \<Rightarrow> bool" where
  "BVMinisat_ok s = ms_ok (ss_core s)"

definition bvMinisat :: "simpSolver satSolver" where
  "bvMinisat = \<lparr>addClause = BVMinisat_addClause, newVar = BVMinisat_newVar,
     trueVar = (\<lambda>s. word_of_int (ms_varTrue (ss_core s))), falseVar = (\<lambda>s. word_of_int (ms_varFalse (ss_core s)))\<rparr>"

section \<open>The occurrence lists describe the clause database\<close>

definition clauses_with :: "mlit \<Rightarrow> minisat \<Rightarrow> nat list" where
  "clauses_with l s = filter (\<lambda>cr. l \<in> set (ms_ca s ! cr)) (ms_clauses s)"

definition occurrences_ok :: "simpSolver \<Rightarrow> bool" where
  "occurrences_ok s \<longleftrightarrow>
     length (ss_frozen s) = nVars (ss_core s) \<and> length (ss_eliminated s) = nVars (ss_core s) \<and>
     (ss_use_simplification s \<longrightarrow>
        length (ss_touched s) = nVars (ss_core s) \<and> length (ss_occurs s) = nVars (ss_core s) \<and>
        length (ss_n_occ s) = 2 * nVars (ss_core s) \<and>
        (\<forall>l. in_range (ss_core s) l \<longrightarrow> ss_n_occ s ! nat l = length (clauses_with l (ss_core s))) \<and>
        (\<forall>l. in_range (ss_core s) l \<longrightarrow>
           set (ss_occurs s ! nat (lvar l)) = set (clauses_with l (ss_core s)) \<union> set (clauses_with (lneg l) (ss_core s))))"

definition ss_inv :: "simpSolver \<Rightarrow> bool" where
  "ss_inv s \<longleftrightarrow> ms_inv (ss_core s) \<and> occurrences_ok s"

lemma nat_lit:
  assumes "0 \<le> lvar p"
  shows "0 \<le> p" and "nat p div 2 = nat (lvar p)" and "nat p < 2 * n \<longleftrightarrow> nat (lvar p) < n"
  using assms by (auto simp: lvar_div nat_div_distrib)

lemma clauses_with_cong:
  assumes "ms_clauses t = ms_clauses s" and "\<And>cr. cr \<in> set (ms_clauses s) \<Longrightarrow> set (ms_ca t ! cr) = set (ms_ca s ! cr)"
  shows "clauses_with l t = clauses_with l s"
  using assms unfolding clauses_with_def by (metis (no_types, lifting) filter_cong)

lemma note_occurrences_frame:
  "ss_core (fold (note_occurrence cr) ls s) = ss_core s" "ss_use_simplification (fold (note_occurrence cr) ls s) = ss_use_simplification s"
  "ss_frozen (fold (note_occurrence cr) ls s) = ss_frozen s" "ss_eliminated (fold (note_occurrence cr) ls s) = ss_eliminated s"
  "length (ss_touched (fold (note_occurrence cr) ls s)) = length (ss_touched s)"
  "length (ss_occurs (fold (note_occurrence cr) ls s)) = length (ss_occurs s)"
  "length (ss_n_occ (fold (note_occurrence cr) ls s)) = length (ss_n_occ s)"
  by (induction ls arbitrary: s) (simp_all add: note_occurrence_def Let_def)

lemma note_occurrences:
  assumes "\<forall>p\<in>set ls. in_range c p" and "distinct ls" and "in_range c l"
    and "length (ss_occurs s) = nVars c" and "length (ss_n_occ s) = 2 * nVars c"
  shows "ss_n_occ (fold (note_occurrence cr) ls s) ! nat l = ss_n_occ s ! nat l + of_bool (l \<in> set ls) \<and>
    set (ss_occurs (fold (note_occurrence cr) ls s) ! nat (lvar l)) =
      set (ss_occurs s ! nat (lvar l)) \<union> (if l \<in> set ls \<or> lneg l \<in> set ls then {cr} else {})"
  using assms
proof (induction ls arbitrary: s)
  case (Cons p ls)
  let ?s = "note_occurrence cr p s"
  have range: "0 \<le> lvar p" "nat (lvar p) < nVars c" "0 \<le> lvar l" "nat (lvar l) < nVars c" using Cons.prems by (auto simp: in_range_def)
  have len: "length (ss_occurs ?s) = nVars c" "length (ss_n_occ ?s) = 2 * nVars c"
    using Cons.prems by (simp_all add: note_occurrence_def Let_def)
  have eq: "nat p = nat l \<longleftrightarrow> l = p" using nat_lit(1) [OF range(1)] nat_lit(1) [OF range(3)] by auto
  have lt: "nat l < length (ss_n_occ s)" "nat p < length (ss_n_occ s)"
    unfolding Cons.prems(5) using nat_lit(3) [OF range(1), of "nVars c"] nat_lit(3) [OF range(3), of "nVars c"] range(2,4) by simp_all
  have n: "ss_n_occ ?s ! nat l = ss_n_occ s ! nat l + of_bool (l = p)"
    using lt eq by (simp add: note_occurrence_def Let_def nth_list_update)
  have "nat (lvar p) = nat (lvar l) \<longleftrightarrow> lvar l = lvar p" using range(1,3) by auto
  also have "\<dots> \<longleftrightarrow> l = p \<or> lneg l = p" unfolding same_var using lneg_simps(1) by metis
  finally have o: "set (ss_occurs ?s ! nat (lvar l)) = set (ss_occurs s ! nat (lvar l)) \<union> (if l = p \<or> lneg l = p then {cr} else {})"
    using Cons.prems(4) range(2,4) by (simp add: note_occurrence_def Let_def nth_list_update) fastforce
  note ih = Cons.IH [OF _ _ Cons.prems(3) len]
  have "p \<notin> set ls" using Cons.prems(2) by simp
  then have "of_bool (l = p) + of_bool (l \<in> set ls) = (of_bool (l \<in> set (p # ls)) :: nat)" by (cases "l = p") simp_all
  moreover have "(l = p \<or> lneg l = p) \<or> (l \<in> set ls \<or> lneg l \<in> set ls) \<longleftrightarrow> l \<in> set (p # ls) \<or> lneg l \<in> set (p # ls)" by auto
  ultimately show ?case using ih Cons.prems(1,2) by (simp only: fold_Cons o_apply n o list.set ball_simps distinct.simps) (auto simp: add.assoc)
qed simp

lemma occurrences_new_clause:
  assumes s: "occurrences_ok s" "ss_use_simplification s" and n: "nVars c = nVars (ss_core s)"
    and cl: "ms_clauses c = ms_clauses (ss_core s) @ [cr]" "\<forall>d\<in>set (ms_clauses (ss_core s)). set (ms_ca c ! d) = set (ms_ca (ss_core s) ! d)"
    and ok: "clauses_ok c"
  shows "occurrences_ok (fold (note_occurrence cr) (ms_ca c ! cr) (s\<lparr>ss_core := c, ss_subsumption_queue := q\<rparr>))"
proof -
  have new: "distinct (ms_ca c ! cr)" "\<forall>p\<in>set (ms_ca c ! cr). in_range c p" using ok cl(1) by (simp_all add: clauses_ok_def)
  have "filter (\<lambda>d. l \<in> set (ms_ca c ! d)) (ms_clauses (ss_core s)) = clauses_with l (ss_core s)" for l
    using cl(2) by (auto simp: clauses_with_def intro: filter_cong)
  then have cw: "clauses_with l c = clauses_with l (ss_core s) @ (if l \<in> set (ms_ca c ! cr) then [cr] else [])" for l
    by (simp add: clauses_with_def cl(1))
  have range: "in_range (ss_core s) l = in_range c l" for l using n by (simp add: in_range_def)
  note occ = note_occurrences [OF new(2,1), of _ "s\<lparr>ss_core := c, ss_subsumption_queue := q\<rparr>" cr]
  from s show ?thesis using occ by (auto simp: occurrences_ok_def note_occurrences_frame n range cw)
qed

lemma simp_addClause_correct:
  assumes s: "ss_inv s" and ps: "\<forall>l\<in>set ps. in_range (ss_core s) l"
  obtains r t where "SimpSolver_addClause ps s = Some (r, t)" and "r = ms_ok (ss_core t)" and "ss_inv t"
    and "db_models (ss_core t) = {\<alpha> \<in> db_models (ss_core s). msat \<alpha> (set ps)}" and "nVars (ss_core t) = nVars (ss_core s)"
proof -
  have inv: "ms_inv (ss_core s)" "occurrences_ok s" using s by (simp_all add: ss_inv_def)
  from addClause_correct [OF inv(1) ps]
  obtain r c where c: "Solver_addClause ps (ss_core s) = Some (r, c)" "r = ms_ok c" "ms_inv c"
    "db_models c = {\<alpha> \<in> db_models (ss_core s). msat \<alpha> (set ps)}" "nVars c = nVars (ss_core s)" "clauses_grow (ss_core s) c" by blast
  from c(6) obtain cs where cs: "ms_clauses c = ms_clauses (ss_core s) @ cs" "length cs \<le> 1"
    and sets: "\<forall>d\<in>set (ms_clauses (ss_core s)). set (ms_ca c ! d) = set (ms_ca (ss_core s) ! d)" by (auto simp: clauses_grow_def)
  have ok_grow: "\<not> r \<Longrightarrow> ms_clauses c = ms_clauses (ss_core s)" using c(2,6) by (simp add: clauses_grow_def)
  let ?s = "s\<lparr>ss_core := c\<rparr>" and ?q = "ss_subsumption_queue s @ [last (ms_clauses c)]"
  consider cr where "r" "ss_use_simplification s" "cs = [cr]" | "\<not> (r \<and> ss_use_simplification s \<and> cs \<noteq> [])"
    using cs(2) by (cases cs) auto
  then show thesis
  proof cases
    case 1
    let ?t = "fold (note_occurrence cr) (ms_ca c ! cr) (s\<lparr>ss_core := c, ss_subsumption_queue := ?q\<rparr>)"
    have "SimpSolver_addClause ps s = Some (r, ?t)" using 1 c(1) cs by (simp add: SimpSolver_addClause_def Let_def)
    moreover have "occurrences_ok ?t"
      using occurrences_new_clause [OF inv(2) 1(2) c(5) _ sets] cs 1(3) c(3) by (simp add: ms_inv_def)
    ultimately show thesis using c by (intro that [of r ?t]) (simp_all add: ss_inv_def note_occurrences_frame)
  next
    case 2
    have "SimpSolver_addClause ps s = Some (r, ?s)" using 2 c(1) cs by (auto simp: SimpSolver_addClause_def Let_def)
    moreover have "occurrences_ok ?s"
    proof (cases "ss_use_simplification s")
      case True
      have "cs = []" using 2 True ok_grow cs(1) by auto
      then have "clauses_with l c = clauses_with l (ss_core s)" for l using cs(1) sets by (intro clauses_with_cong) simp_all
      then show ?thesis using inv(2) c(5) by (simp add: occurrences_ok_def in_range_def)
    next
      case False
      then show ?thesis using inv(2) c(5) by (simp add: occurrences_ok_def)
    qed
    ultimately show thesis using c by (intro that [of r ?s]) (simp_all add: ss_inv_def)
  qed
qed

lemma simp_newVar_core:
  assumes "SimpSolver_newVar b d fr s = (x, t)"
  shows "Solver_newVar b d (ss_core s) = (x, ss_core t)" and "ss_use_simplification t = ss_use_simplification s"
    and "length (ss_frozen t) = length (ss_frozen s) + 1" and "length (ss_eliminated t) = length (ss_eliminated s) + 1"
    and "ss_use_simplification s \<Longrightarrow>
      ss_n_occ t = ss_n_occ s @ [0, 0] \<and> ss_occurs t = ss_occurs s @ [[]] \<and> ss_touched t = ss_touched s @ [False]"
  using assms by (auto simp: SimpSolver_newVar_def SimpSolver_setFrozen_def Let_def split: prod.splits if_splits)

lemma clauses_with_newVar:
  assumes "clauses_ok s" and "Solver_newVar b d s = (x, t)"
  shows "clauses_with l t = clauses_with l s" and "\<not> in_range s l \<Longrightarrow> clauses_with l t = []"
  using assms by (auto simp: clauses_with_def Solver_newVar_def clauses_ok_def filter_empty_conv)

lemma occurrences_newVar:
  assumes s: "ms_inv (ss_core s)" "occurrences_ok s" and new: "SimpSolver_newVar b d fr s = (x, t)"
    and n: "nVars (ss_core t) = nVars (ss_core s) + 1"
  shows "occurrences_ok t"
proof -
  note core = simp_newVar_core [OF new]
  have "clauses_ok (ss_core s)" using s(1) by (simp add: ms_inv_def)
  note cw = clauses_with_newVar [OF this core(1)]
  have "ss_n_occ t ! nat l = length (clauses_with l (ss_core t)) \<and>
      set (ss_occurs t ! nat (lvar l)) = set (clauses_with l (ss_core t)) \<union> set (clauses_with (lneg l) (ss_core t))"
    if l: "in_range (ss_core t) l" and use: "ss_use_simplification s" for l
  proof -
    have len: "length (ss_occurs s) = nVars (ss_core s)" "length (ss_n_occ s) = 2 * nVars (ss_core s)" using s(2) use by (simp_all add: occurrences_ok_def)
    have range: "0 \<le> lvar l" using l by (simp add: in_range_def)
    note lt = nat_lit(3) [OF range, of "nVars (ss_core s)"]
    show ?thesis
    proof (cases "in_range (ss_core s) l")
      case True
      then have "nat (lvar l) < nVars (ss_core s)" by (auto simp: in_range_def)
      with True s(2) use lt show ?thesis unfolding cw(1) by (simp add: core(5) [OF use] nth_append len occurrences_ok_def)
    next
      case False
      then have v: "nat (lvar l) = nVars (ss_core s)" using l n by (auto simp: in_range_def)
      with nat_lit(2) [OF range] have "nat l - 2 * nVars (ss_core s) = 0 \<or> nat l - 2 * nVars (ss_core s) = 1" by linarith
      moreover have "\<not> nat l < 2 * nVars (ss_core s)" using lt v by simp
      ultimately show ?thesis using False v cw(2) [of l] cw(2) [of "lneg l"] by (auto simp: core(5) [OF use] nth_append len)
    qed
  qed
  then show ?thesis using s(2) core(2-5) n by (simp add: occurrences_ok_def)
qed

lemma simp_newVar_correct:
  assumes s: "ss_inv s" and n: "nVars (ss_core s) < 2 ^ 30" and new: "SimpSolver_newVar b d fr s = (x, t)"
  shows "ss_inv t" and "x = int (nVars (ss_core s))" and "nVars (ss_core t) = nVars (ss_core s) + 1"
    and "db_models (ss_core t) = db_models (ss_core s)"
proof -
  have inv: "ms_inv (ss_core s)" "occurrences_ok s" using s by (simp_all add: ss_inv_def)
  note core = newVar_correct [OF inv(1) n simp_newVar_core(1) [OF new]]
  show "ss_inv t" using core(1) occurrences_newVar [OF inv new core(3)] by (simp add: ss_inv_def)
  show "x = int (nVars (ss_core s))" "nVars (ss_core t) = nVars (ss_core s) + 1" "db_models (ss_core t) = db_models (ss_core s)" using core by simp_all
qed

section \<open>The contract of the solver\<close>

definition simp_vars :: "simpSolver \<Rightarrow> satVariable set" where
  "simp_vars s = minisat_vars (ss_core s)"

definition simp_models :: "simpSolver \<Rightarrow> assignment set" where
  "simp_models s = minisat_models (ss_core s)"

interpretation bvminisat: sat_solver bvMinisat ss_inv simp_vars simp_models "2 ^ 30"
proof
  fix s :: simpSolver and c r
  assume inv: "ss_inv s"
  then have s: "ms_inv (ss_core s)" by (simp add: ss_inv_def)
  then have tok: "trail_ok (ss_core s)" by (simp add: ms_inv_def)
  have lits: "in_range (ss_core s) (mkLit (ms_varTrue (ss_core s)) False)" "in_range (ss_core s) (mkLit (ms_varFalse (ss_core s)) True)"
    using s by (auto simp: ms_inv_def trail_ok_def)
  show "finite (simp_vars s)" by (simp add: simp_vars_def minisat_vars_def)
  show "{trueVar bvMinisat s, falseVar bvMinisat s} \<subseteq> simp_vars s"
    using lits by (auto simp: bvMinisat_def simp_vars_def minisat_vars_def in_range_def)
  show "\<alpha> (trueVar bvMinisat s) \<and> \<not> \<alpha> (falseVar bvMinisat s)" if "\<alpha> \<in> simp_models s" for \<alpha>
    using minisat_constants [OF s, of \<alpha>] that by (simp add: bvMinisat_def simp_models_def)
  show "small_var x" if "x \<in> simp_vars s" for x
    using small_vars [OF tok, of x] that by (auto simp: simp_vars_def small_var_def uint_small)
  show "\<beta> \<in> simp_models s" if "\<alpha> \<in> simp_models s" "\<And>x. x \<in> simp_vars s \<Longrightarrow> \<beta> x = \<alpha> x" for \<alpha> \<beta>
    using minisat_models_local [OF s, of \<alpha> \<beta>] that by (simp add: simp_models_def simp_vars_def)
  show "ss_inv s' \<and> x \<notin> simp_vars s \<and> simp_vars s' = insert x (simp_vars s) \<and> simp_models s' = simp_models s"
    if new: "card (simp_vars s) < 2 ^ 30" "newVar bvMinisat a p e s = (x, s')" for a p e x s'
  proof -
    have less: "nVars (ss_core s) < 2 ^ 30" using new(1) card_minisat_vars [OF tok] by (simp add: simp_vars_def)
    obtain i where i: "SimpSolver_newVar True True (\<not> e) s = (i, s')" "x = word_of_int i"
      using new(2) by (auto simp: bvMinisat_def BVMinisat_newVar_def split: prod.splits)
    note new = simp_newVar_correct [OF inv less i(1)]
    have "{0..<int (nVars (ss_core s) + 1)} = insert (int (nVars (ss_core s))) {0..<int (nVars (ss_core s))}" by auto
    then have "simp_vars s' = insert x (simp_vars s)" unfolding simp_vars_def minisat_vars_def new(3) i(2) new(2) by simp
    moreover have "card (simp_vars s') = card (simp_vars s) + 1"
      using card_minisat_vars [OF tok] card_minisat_vars [of "ss_core s'"] new(1,3) by (simp add: ss_inv_def ms_inv_def simp_vars_def)
    ultimately show ?thesis using new(1,4) by (auto simp: simp_models_def minisat_models_def insert_absorb)
  qed
  assume c: "getSatVariable ` set c \<subseteq> simp_vars s"
  then have "\<forall>l\<in>set (map toMinisatLit c). in_range (ss_core s) l" using toMinisatLit_small(1) [OF tok] by (auto simp: simp_vars_def)
  from simp_addClause_correct [OF inv this]
  obtain b t where t: "SimpSolver_addClause (map toMinisatLit c) s = Some (b, t)" "ss_inv t"
    "db_models (ss_core t) = {\<alpha> \<in> db_models (ss_core s). msat \<alpha> (set (map toMinisatLit c))}" "nVars (ss_core t) = nVars (ss_core s)" by blast
  then have "addClause bvMinisat c r s = t" by (simp add: bvMinisat_def BVMinisat_addClause_def)
  with t msat_toMinisatLit [OF tok c [unfolded simp_vars_def]]
  show "ss_inv (addClause bvMinisat c r s) \<and> simp_vars (addClause bvMinisat c r s) = simp_vars s \<and>
    simp_models (addClause bvMinisat c r s) = {\<alpha> \<in> simp_models s. clause_true \<alpha> c}"
    by (auto simp: simp_models_def minisat_models_def simp_vars_def minisat_vars_def)
qed

lemma SimpSolver_init_correct:
  "ss_inv (SimpSolver_init us ps)" "simp_models (SimpSolver_init us ps) \<noteq> {}" "card (simp_vars (SimpSolver_init us ps)) = 2"
proof -
  let ?c = "Solver_init ps" and ?s = "SimpSolver_init us ps"
  have core: "ss_core ?s = ?c\<lparr>ms_ca := ms_ca ?c @ [[lit_Undef]]\<rparr>" by (simp add: SimpSolver_init_def Let_def)
  have same: "ms_inv (ss_core ?s)" "db_models (ss_core ?s) = db_models ?c" "nVars (ss_core ?s) = nVars ?c" "nVars ?c = 2"
    using Solver_init_correct(1) [of ps]
    by (auto simp: core ms_inv_def trail_ok_def in_range_def clauses_ok_def watches_ok_def watched_def bcp_ok_def db_models_def ms_models_def
        Solver_init_fields nVars_def mvalue_def)
  have lit: "nat l < 4" if "in_range ?c l" for l
  proof -
    have "0 \<le> lvar l" "nat (lvar l) < 2" using that same(4) by (auto simp: in_range_def)
    then show ?thesis using nat_lit(3) [of l 2] by simp
  qed
  have "clauses_with l (ss_core ?s) = []" for l by (simp add: core clauses_with_def Solver_init_fields)
  then have "occurrences_ok ?s"
    using lit same(4) unfolding occurrences_ok_def same(3) in_range_cong [OF same(3)] by (auto simp: SimpSolver_init_def Let_def in_range_def)
  with same(1) show "ss_inv ?s" by (simp add: ss_inv_def)
  show "simp_models ?s \<noteq> {}" using Solver_init_correct(2) [of ps] same(2) by (simp add: simp_models_def minisat_models_def)
  show "card (simp_vars ?s) = 2" using Solver_init_correct(3) [of ps] same(3) by (simp add: simp_vars_def minisat_vars_def)
qed

section \<open>States while a problem is loaded\<close>

text \<open>The states the clients bring the solver to while they load a problem, before \<open>solve\<close> or \<open>eliminate\<close>.\<close>

inductive simp_loaded :: "simpSolver \<Rightarrow> bool" where
  reach_init: "simp_loaded (SimpSolver_init use_simplification phase_saving)"
| reach_newVar: "simp_loaded s \<Longrightarrow> card (simp_vars s) < 2 ^ 30 \<Longrightarrow> BVMinisat_newVar isTheoryAtom preRegister canErase s = (x, t) \<Longrightarrow> simp_loaded t"
| reach_addClause: "simp_loaded s \<Longrightarrow> getSatVariable ` set c \<subseteq> simp_vars s \<Longrightarrow> simp_loaded (BVMinisat_addClause c removable s)"
| reach_markUnremovable: "simp_loaded s \<Longrightarrow> simp_loaded (BVMinisat_markUnremovable l s)"

lemma simp_loaded_inv: "simp_loaded s \<Longrightarrow> ss_inv s"
proof (induction rule: simp_loaded.induct)
  case (reach_newVar s a p e x t)
  then show ?case using bvminisat.newVar_spec [of s a p e x t] by (simp add: bvMinisat_def)
next
  case (reach_addClause s c r)
  then show ?case using bvminisat.addClause_spec [of s c r] by (simp add: bvMinisat_def)
next
  case (reach_init us ps)
  show ?case by (rule SimpSolver_init_correct(1))
qed (simp add: ss_inv_def occurrences_ok_def BVMinisat_markUnremovable_def SimpSolver_setFrozen_def)

end
