(* ===== verification/Cnf_Correctness.thy ===== *)
theory Cnf_Correctness
  imports Cnf_Stream Simp_Solver
begin

text \<open>
  The CNF converter is correct over every solver that keeps the contract \<open>sat_solver\<close>. The invariant
  \<open>cnf_inv C\<close> of the stream says that the models of the clauses are, on the literals of the stream, the
  valuations of the atoms that satisfy the condition \<open>C\<close>, the formulas asserted so far; \<open>toCNF\<close> keeps \<open>C\<close> and
  \<open>convertAndAssert\<close> adds the formula to it. Each handler is an instance of one lemma on gates.
\<close>

lemma connective_children:
  assumes "bool_connective (App k ns)" and "typeOf (App k ns) = Some BOOLEAN_TYPE"
  shows "list_all (\<lambda>n. typeOf n = Some BOOLEAN_TYPE) ns"
    and "k = NOT \<Longrightarrow> length ns = 1" and "k \<in> {XOR, IMPLIES, EQUAL} \<Longrightarrow> length ns = 2" and "k = ITE \<Longrightarrow> length ns = 3"
proof -
  from assms(2) obtain ts where ts: "list_all2 (\<lambda>n u. typeOf n = Some u) ns ts" "type_op k ts = Some BOOLEAN_TYPE"
    unfolding typeOf_App_iff by blast
  have eq: "ts = [BOOLEAN_TYPE, BOOLEAN_TYPE]" if "k = EQUAL"
    using assms(1) ts that by (auto simp: type_op_mixed list_all2_Cons2 connective_App getType_typeOf)
  have k: "k \<in> {NOT, AND, IMPLIES, OR, XOR, ITE, EQUAL}" using assms(1) by (auto simp: bool_connective_def)
  with ts(2) eq have "list_all ((=) BOOLEAN_TYPE) ts" by (auto simp: type_op_iffs type_op_mixed)
  with ts(1) show "list_all (\<lambda>n. typeOf n = Some BOOLEAN_TYPE) ns"
    by (auto simp: list_all2_conv_all_nth list_all_length)
  show "k = NOT \<Longrightarrow> length ns = 1" "k \<in> {XOR, IMPLIES, EQUAL} \<Longrightarrow> length ns = 2" "k = ITE \<Longrightarrow> length ns = 3"
    using ts eq list_all2_lengthD [OF ts(1)] by (auto simp: type_op_iffs type_op_mixed)
qed

text \<open>The propositional reading of a formula is its value, when the atoms have the values of an interpretation.\<close>

lemma skel_eval:
  assumes I: "wf_interp I"
  shows "typeOf n = Some BOOLEAN_TYPE \<Longrightarrow> skel (\<lambda>a. v_bool (eval I a)) n = v_bool (eval I n)"
proof (induction n)
  case (App k ns)
  let ?v = "\<lambda>a. v_bool (eval I a)"
  show ?case
  proof (cases "bool_connective (App k ns)")
    case True
    note kids = connective_children [OF True App.prems]
    have vals: "map (skel ?v) ns = map ?v ns" using App.IH kids(1) by (auto simp: list_all_iff)
    have bools: "eval I a = VBool (?v a)" if "a \<in> set ns" for a
      using eval_has_type [OF _ I, of a BOOLEAN_TYPE] kids(1) that by (auto simp: list_all_iff)
    have "connect k (map ?v ns) = ?v (App k ns)"
      using True kids(2-4) bools by (auto simp: bool_connective_def connect_def sem_op_def list_all_iff list_ex_iff dest!: list_two list_three
          split: if_splits) (auto simp: length_Suc_conv, metis+)
    then show ?thesis unfolding skel.simps(1) if_P [OF True] vals .
  qed simp
qed simp_all

lemma map_eq_quantifiers:
  assumes "map f xs = map g ys"
  shows "list_ex f xs = list_ex g ys" and "list_all f xs = list_all g ys"
  using assms by (metis list_ex_length list_all_length length_map nth_map)+

lemma strip_not_shape:
  assumes "typeOf n = Some BOOLEAN_TYPE"
  shows "strip_not n = n \<and> (\<forall>x. n \<noteq> notNode x) \<or> n = notNode (strip_not n)"
proof (cases "\<exists>ns. n = App NOT ns")
  case True
  then obtain ns where ns: "n = App NOT ns" ..
  then obtain m where "ns = [m]" using connective_children(2) [OF _ assms [unfolded ns]] by (auto simp: bool_connective_def length_Suc_conv)
  then show ?thesis by (simp add: ns strip_not_def notNode_def)
next
  case False
  then show ?thesis by (auto simp: strip_not_def notNode_def split: node.split kind.split)
qed

text \<open>A node that is no negation has a literal if and only if its negation has the opposite one; a double negation has none.\<close>

definition paired :: "(node \<rightharpoonup> satLiteral) \<Rightarrow> bool" where
  "paired m \<longleftrightarrow> (\<forall>n. (\<forall>x. n \<noteq> notNode x) \<longrightarrow> m (notNode n) = map_option SatLiteral_not (m n)) \<and> (\<forall>x. m (notNode (notNode x)) = None)"

context sat_solver
begin

abbreviation n_vars :: "'s cnf_state \<Rightarrow> nat" where
  "n_vars st \<equiv> card (vars (d_satSolver st))"

definition maps_ok :: "'s \<Rightarrow> (node \<rightharpoonup> satLiteral) \<Rightarrow> bool" where
  "maps_ok s m \<longleftrightarrow> (\<forall>n l. m n = Some l \<longrightarrow> getSatVariable l \<in> vars s \<and> typeOf n = Some BOOLEAN_TYPE) \<and>
     (\<forall>b l. m (CONST_BOOLEAN b) = Some l \<longrightarrow> (\<forall>\<alpha>\<in>models s. lit_true \<alpha> l = b)) \<and> paired m"

definition cnf_inv :: "((node \<Rightarrow> bool) \<Rightarrow> bool) \<Rightarrow> 's cnf_state \<Rightarrow> bool" where
  "cnf_inv C st \<longleftrightarrow>
     sat_inv (d_satSolver st) \<and> maps_ok (d_satSolver st) (d_nodeToLiteralMap st) \<and>
     (\<forall>l n. d_literalToNodeMap st l = Some n \<longrightarrow> lit_means (d_nodeToLiteralMap st) l n False) \<and>
     (\<forall>\<alpha> v. \<alpha> \<in> models (d_satSolver st) \<longrightarrow> atoms_agree v \<alpha> (d_nodeToLiteralMap st) \<longrightarrow>
        agrees v \<alpha> (d_nodeToLiteralMap st) \<and> C v) \<and>
     (\<forall>v. respects_constants v \<longrightarrow> C v \<longrightarrow>
        (\<exists>\<alpha>\<in>models (d_satSolver st). agrees v \<alpha> (d_nodeToLiteralMap st)))"

definition cnf_le :: "'s cnf_state \<Rightarrow> 's cnf_state \<Rightarrow> bool" where
  "cnf_le st st' \<longleftrightarrow> d_nodeToLiteralMap st \<subseteq>\<^sub>m d_nodeToLiteralMap st' \<and>
     vars (d_satSolver st) \<subseteq> vars (d_satSolver st')"

definition lit_ok :: "'s cnf_state \<Rightarrow> satLiteral \<Rightarrow> node \<Rightarrow> bool \<Rightarrow> bool" where
  "lit_ok st l n negated \<longleftrightarrow>
     getSatVariable l \<in> vars (d_satSolver st) \<and> lit_means (d_nodeToLiteralMap st) l n negated \<and>
     ((\<forall>m. n \<noteq> notNode m) \<longrightarrow> d_nodeToLiteralMap st n = Some (if negated then SatLiteral_not l else l))"

lemma cnf_inv_simps [simp]:
  "cnf_inv C (st\<lparr>d_booleanVariables := xs\<rparr>) = cnf_inv C st"
  "cnf_inv C (st\<lparr>d_removable := b\<rparr>) = cnf_inv C st"
  "cnf_inv C (st\<lparr>d_preRegistered := ns\<rparr>) = cnf_inv C st"
  "cnf_inv C (count_resource st) = cnf_inv C st"
  by (simp_all add: cnf_inv_def count_resource_def Let_def)

lemma cnf_le_simps [simp]:
  "cnf_le st st"
  "cnf_le (st\<lparr>d_booleanVariables := xs\<rparr>) st' = cnf_le st st'"
  "cnf_le (st\<lparr>d_removable := b\<rparr>) st' = cnf_le st st'"
  "cnf_le (count_resource st) st' = cnf_le st st'"
  "cnf_le st (st'\<lparr>d_removable := b\<rparr>) = cnf_le st st'"
  "cnf_le st (st'\<lparr>d_preRegistered := ns\<rparr>) = cnf_le st st'"
  "cnf_le st (st'\<lparr>d_literalToNodeMap := m\<rparr>) = cnf_le st st'"
  "cnf_le st (count_resource st') = cnf_le st st'"
  by (simp_all add: cnf_le_def count_resource_def Let_def)

lemma count_resource_solver [simp]: "d_satSolver (count_resource st) = d_satSolver st"
  by (simp add: count_resource_def Let_def)

lemma cnf_le_trans: "cnf_le st st' \<Longrightarrow> cnf_le st' st'' \<Longrightarrow> cnf_le st st''"
  unfolding cnf_le_def using map_le_trans by blast

lemma lit_ok_mono: "cnf_le st st' \<Longrightarrow> lit_ok st l n b \<Longrightarrow> lit_ok st' l n b"
  unfolding cnf_le_def lit_ok_def using lit_means_mono by (metis (no_types, lifting) domI map_le_def subsetD)

lemma cnf_inv_init: "sat_inv s \<Longrightarrow> models s \<noteq> {} \<Longrightarrow> cnf_inv (\<lambda>v. True) (CnfStream s)"
  by (auto simp: cnf_inv_def CnfStream_def maps_ok_def agrees_def paired_def)

lemma maps_ok_mono: "maps_ok s m \<Longrightarrow> vars s \<subseteq> vars s' \<Longrightarrow> models s' \<subseteq> models s \<Longrightarrow> maps_ok s' m"
  unfolding maps_ok_def by blast

lemma addClauses_spec:
  "sat_inv s \<Longrightarrow> getSatVariable ` \<Union> (set ` set cs) \<subseteq> vars s \<Longrightarrow>
    sat_inv (fold (\<lambda>c. addClause S c r) cs s) \<and> vars (fold (\<lambda>c. addClause S c r) cs s) = vars s \<and>
    models (fold (\<lambda>c. addClause S c r) cs s) = {\<alpha> \<in> models s. \<forall>c\<in>set cs. clause_true \<alpha> c}"
proof (induction cs arbitrary: s)
  case (Cons c cs)
  from Cons.prems have "getSatVariable ` set c \<subseteq> vars s" "getSatVariable ` \<Union> (set ` set cs) \<subseteq> vars s" by auto
  with addClause_spec [OF Cons.prems(1), of c r] Cons.IH [of "addClause S c r s"] show ?case by auto
qed simp

text \<open>Clauses over literals of the stream that say, of the valuations that agree with the literals, that
  they satisfy \<open>P\<close>.\<close>

lemma assert_spec:
  assumes inv: "cnf_inv C st" and vs: "getSatVariable ` \<Union> (set ` set cs) \<subseteq> vars (d_satSolver st)"
    and sem: "\<And>\<alpha> v. agrees v \<alpha> (d_nodeToLiteralMap st) \<Longrightarrow> (\<forall>c\<in>set cs. clause_true \<alpha> c) \<longleftrightarrow> P v"
  shows "swp (assertClauses S cs) (\<lambda>_ st'. cnf_inv (\<lambda>v. C v \<and> P v) st' \<and> cnf_le st st' \<and> n_vars st' = n_vars st) st"
proof -
  let ?s = "fold (\<lambda>c. addClause S c (d_removable st)) cs (d_satSolver st)"
  have s: "sat_inv ?s" "vars ?s = vars (d_satSolver st)"
    "models ?s = {\<alpha> \<in> models (d_satSolver st). \<forall>c\<in>set cs. clause_true \<alpha> c}"
    using addClauses_spec [OF _ vs] inv unfolding cnf_inv_def by blast+
  have "cnf_inv (\<lambda>v. C v \<and> P v) (st\<lparr>d_satSolver := ?s\<rparr>)"
    using inv s sem maps_ok_mono [of "d_satSolver st" "d_nodeToLiteralMap st" ?s] unfolding cnf_inv_def by simp blast
  then show ?thesis unfolding swp_def assertClauses_eq by (simp add: cnf_le_def s)
qed

text \<open>A node gets a literal and the clauses that define it. For an atom there are none.\<close>

lemma make_literal_spec:
  assumes s: "sat_inv s" "card (vars s) < capacity" and r: "make_literal S n isTheoryAtom preRegister canEliminate s = (l, s')"
  shows "sat_inv s'" and "vars s \<subseteq> vars s'" and "card (vars s') \<le> card (vars s) + 1" and "getSatVariable l \<in> vars s'"
    and "models s' = models s"
    and "\<lbrakk>respects_constants v; \<alpha> \<in> models s\<rbrakk> \<Longrightarrow> \<exists>\<beta>\<in>models s. (\<forall>x\<in>vars s. \<beta> x = \<alpha> x) \<and> lit_true \<beta> l = skel v n"
    and "\<lbrakk>n = CONST_BOOLEAN b; \<alpha> \<in> models s\<rbrakk> \<Longrightarrow> lit_true \<alpha> l = b"
proof -
  have "sat_inv s' \<and> vars s \<subseteq> vars s' \<and> card (vars s') \<le> card (vars s) + 1 \<and> getSatVariable l \<in> vars s' \<and> models s' = models s \<and>
    (\<forall>v \<alpha>. respects_constants v \<longrightarrow> \<alpha> \<in> models s \<longrightarrow> (\<exists>\<beta>\<in>models s. (\<forall>x\<in>vars s. \<beta> x = \<alpha> x) \<and> lit_true \<beta> l = skel v n)) \<and>
    (\<forall>b \<alpha>. n = CONST_BOOLEAN b \<longrightarrow> \<alpha> \<in> models s \<longrightarrow> lit_true \<alpha> l = b)"
  proof (cases "\<exists>b. n = CONST_BOOLEAN b")
    case True
    then obtain b where "n = CONST_BOOLEAN b" ..
    moreover from this have "l = SatLiteral (if b then trueVar S s else falseVar S s) False" "s' = s"
      using r by (simp_all add: make_literal_def)
    moreover have "small_var (if b then trueVar S s else falseVar S s)" using constants [OF s(1)] vars_small [OF s(1)] by simp
    ultimately show ?thesis
      using s constants [OF s(1)] constants_fixed [OF s(1)] by (cases b) (auto simp: respects_constants_def)
  next
    case False
    then obtain x where x: "newVar S isTheoryAtom preRegister canEliminate s = (x, s')" "l = SatLiteral x False"
      using r by (auto simp: make_literal_def split: node.splits prod.splits)
    from newVar_spec [OF s x(1)] have s': "sat_inv s'" "x \<notin> vars s" "vars s' = insert x (vars s)" "models s' = models s" by blast+
    then have small: "small_var x" using vars_small by blast
    have "\<exists>\<beta>\<in>models s. (\<forall>x\<in>vars s. \<beta> x = \<alpha> x) \<and> lit_true \<beta> l = b" if "\<alpha> \<in> models s" for \<alpha> b
    proof
      show "\<alpha>(x := b) \<in> models s" using s'(2) by (intro models_local [OF s(1) that]) auto
    qed (use s'(2) small x(2) in auto)
    then show ?thesis using False s' small x(2) vars_finite [OF s(1)] by (auto simp: card_insert_if)
  qed
  then show "sat_inv s'" and "vars s \<subseteq> vars s'" and "card (vars s') \<le> card (vars s) + 1" and "getSatVariable l \<in> vars s'"
    and "models s' = models s"
    and "\<lbrakk>respects_constants v; \<alpha> \<in> models s\<rbrakk> \<Longrightarrow> \<exists>\<beta>\<in>models s. (\<forall>x\<in>vars s. \<beta> x = \<alpha> x) \<and> lit_true \<beta> l = skel v n"
    and "\<lbrakk>n = CONST_BOOLEAN b; \<alpha> \<in> models s\<rbrakk> \<Longrightarrow> lit_true \<alpha> l = b"
    by blast+
qed

text \<open>The two entries that \<open>newLiteral\<close> makes.\<close>

definition add_entries :: "node \<Rightarrow> satLiteral \<Rightarrow> (node \<rightharpoonup> satLiteral) \<Rightarrow> (node \<rightharpoonup> satLiteral)" where
  "add_entries n l m = cd_insert (notNode n) (SatLiteral_not l) (cd_insert n l m)"

lemma add_entries:
  assumes "m n = None"
  shows "m \<subseteq>\<^sub>m add_entries n l m" and "add_entries n l m n = Some l"
    and "add_entries n l m x = Some k \<Longrightarrow> m x = Some k \<or> x = n \<and> k = l \<or> x = notNode n \<and> k = SatLiteral_not l"
    and "agrees v \<alpha> m \<Longrightarrow> lit_true \<alpha> l = skel v n \<Longrightarrow> agrees v \<alpha> (add_entries n l m)"
proof -
  show "m \<subseteq>\<^sub>m add_entries n l m" unfolding add_entries_def by (rule map_le_trans [OF cd_insert_le cd_insert_le])
  show "add_entries n l m n = Some l" using assms by (auto simp: add_entries_def cd_insert_def split: option.split)
  show entry: "m x = Some k \<or> x = n \<and> k = l \<or> x = notNode n \<and> k = SatLiteral_not l" if "add_entries n l m x = Some k" for x k
    using that unfolding add_entries_def by (auto dest!: cd_insert_SomeD)
  show "agrees v \<alpha> m \<Longrightarrow> lit_true \<alpha> l = skel v n \<Longrightarrow> agrees v \<alpha> (add_entries n l m)"
    unfolding agrees_def using entry by fastforce
qed

lemma add_entries_paired:
  assumes "m n = None" and "\<And>x. n \<noteq> notNode x" and "paired m"
  shows "paired (add_entries n l m)"
proof -
  have "m (notNode n) = None" using assms by (simp add: paired_def)
  then have "add_entries n l m = m(n \<mapsto> l, notNode n \<mapsto> SatLiteral_not l)"
    using assms(1) assms(2) [of n] by (auto simp: add_entries_def cd_insert_def)
  then show ?thesis
    using assms(2,3) assms(2) [symmetric] by (auto simp: paired_def notNode_def)
qed

lemma store_back_means:
  assumes "\<And>l n. m l = Some n \<Longrightarrow> lit_means M l n False" and "lit_means M l n False"
    and "cd_insert (SatLiteral_not l) (notNode n) (cd_insert l n m) k = Some x"
  shows "lit_means M k x False"
  using assms(3) by (auto dest!: cd_insert_SomeD intro: assms(1,2) simp: lit_means_notNode assms(2))

lemma lit_means_entry: "m n = Some l \<Longrightarrow> lit_means m l n False"
  by (auto simp: lit_means_def agrees_def)

lemma newLiteral_spec:
  assumes inv: "cnf_inv C st" and n: "typeOf n = Some BOOLEAN_TYPE" and cap: "n_vars st < capacity" and plain: "\<And>x. n \<noteq> notNode x"
  shows "swp (CnfStream_newLiteral S E n isTheoryAtom preRegister canEliminate) (\<lambda>l st'.
      sat_inv (d_satSolver st') \<and> maps_ok (d_satSolver st') (d_nodeToLiteralMap st') \<and> cnf_le st st' \<and>
      n_vars st' \<le> n_vars st + 1 \<and> d_nodeToLiteralMap st' n = Some l \<and> models (d_satSolver st') = models (d_satSolver st) \<and>
      (\<forall>l n. d_literalToNodeMap st' l = Some n \<longrightarrow> lit_means (d_nodeToLiteralMap st') l n False) \<and>
      (\<forall>\<alpha> v. agrees v \<alpha> (d_nodeToLiteralMap st) \<longrightarrow> lit_true \<alpha> l = skel v n \<longrightarrow> agrees v \<alpha> (d_nodeToLiteralMap st')) \<and>
      (\<forall>v. respects_constants v \<longrightarrow> C v \<longrightarrow> (\<exists>\<alpha>\<in>models (d_satSolver st). agrees v \<alpha> (d_nodeToLiteralMap st')))) st"
proof -
  let ?m = "d_nodeToLiteralMap st" and ?s = "d_satSolver st"
  have inv': "sat_inv ?s" "maps_ok ?s ?m" "\<And>l n. d_literalToNodeMap st l = Some n \<Longrightarrow> lit_means ?m l n False"
    "\<And>v. respects_constants v \<Longrightarrow> C v \<Longrightarrow> \<exists>\<alpha>\<in>models ?s. agrees v \<alpha> ?m"
    using inv unfolding cnf_inv_def by blast+
  let ?rev_map = "\<lambda>l st. if isTheoryAtom \<or> d_fullLitToNodeMap E then store_back l n st else st"
  let ?reg = "\<lambda>st. if preRegister then st\<lparr>d_preRegistered := d_preRegistered st @ [n]\<rparr> else st"
  let ?fields = "\<lambda>l m s. sat_inv s \<and> maps_ok s m \<and> ?m \<subseteq>\<^sub>m m \<and> vars ?s \<subseteq> vars s \<and> card (vars s) \<le> card (vars ?s) + 1 \<and>
    m n = Some l \<and> models s = models ?s \<and>
    (\<forall>\<alpha> v. agrees v \<alpha> ?m \<longrightarrow> lit_true \<alpha> l = skel v n \<longrightarrow> agrees v \<alpha> m) \<and>
    (\<forall>v. respects_constants v \<longrightarrow> C v \<longrightarrow> (\<exists>\<alpha>\<in>models ?s. agrees v \<alpha> m))"
  have "\<exists>l m s. ?fields l m s \<and> CnfStream_newLiteral S E n isTheoryAtom preRegister canEliminate st =
    Inr (l, ?reg (?rev_map l (st\<lparr>d_satSolver := s, d_nodeToLiteralMap := m\<rparr>)))"
  proof (cases "?m n")
    case (Some l)
    then have "?fields l ?m ?s" using inv' by auto
    moreover have "CnfStream_newLiteral S E n isTheoryAtom preRegister canEliminate st = Inr (l, ?reg (?rev_map l st))"
      using Some by (simp add: CnfStream_newLiteral_def CnfStream_hasLiteral_def CnfStream_getLiteral_def sbind_def smodify_def sreturn_def)
    ultimately show ?thesis by (intro exI [of _ l] exI [of _ ?m] exI [of _ ?s]) simp
  next
    case None
    obtain l s where ls: "make_literal S n isTheoryAtom preRegister canEliminate ?s = (l, s)" by fastforce
    note lit = make_literal_spec [OF inv'(1) cap ls]
    note entries = add_entries [where m = ?m and l = l, OF None]
    have "getSatVariable k \<in> vars s \<and> typeOf x = Some BOOLEAN_TYPE" if "add_entries n l ?m x = Some k" for x k
      using inv'(2) lit(2,4) n notNode_typed [OF n] entries(3) [OF that] unfolding maps_ok_def by auto
    moreover have "lit_true \<alpha> k = b" if "add_entries n l ?m (CONST_BOOLEAN b) = Some k" "\<alpha> \<in> models s" for b k \<alpha>
      using inv'(2) lit(5,7) entries(3) [OF that(1)] that(2) unfolding maps_ok_def notNode_def by auto
    moreover have "paired (add_entries n l ?m)" using add_entries_paired [where m = ?m, OF None plain] inv'(2) unfolding maps_ok_def by blast
    ultimately have "maps_ok s (add_entries n l ?m)" unfolding maps_ok_def by blast
    moreover have "\<exists>\<alpha>\<in>models ?s. agrees v \<alpha> (add_entries n l ?m)" if v: "respects_constants v" "C v" for v
    proof -
      from inv'(4) [OF v] obtain \<alpha> where \<alpha>: "\<alpha> \<in> models ?s" "agrees v \<alpha> ?m" by blast
      from lit(6) [OF v(1) \<alpha>(1)] obtain \<beta> where \<beta>: "\<beta> \<in> models ?s" "\<forall>x\<in>vars ?s. \<beta> x = \<alpha> x" "lit_true \<beta> l = skel v n" by blast
      have "agrees v \<beta> ?m" using \<alpha>(2) inv'(2) \<beta>(2) unfolding agrees_def maps_ok_def lit_true_def by metis
      with entries(4) \<beta> show ?thesis by blast
    qed
    ultimately have "?fields l (add_entries n l ?m) s" using lit(1-5) entries by blast
    moreover have "CnfStream_newLiteral S E n isTheoryAtom preRegister canEliminate st =
      Inr (l, ?reg (?rev_map l (st\<lparr>d_satSolver := s, d_nodeToLiteralMap := add_entries n l ?m\<rparr>)))"
      using None ls by (simp add: CnfStream_newLiteral_def CnfStream_hasLiteral_def sbind_def smodify_def sreturn_def add_entries_def)
    ultimately show ?thesis by blast
  qed
  then obtain l m s where f: "?fields l m s" and r: "CnfStream_newLiteral S E n isTheoryAtom preRegister canEliminate st =
    Inr (l, ?reg (?rev_map l (st\<lparr>d_satSolver := s, d_nodeToLiteralMap := m\<rparr>)))" by blast
  have "lit_means m k x False" if "d_literalToNodeMap (?rev_map l (st\<lparr>d_satSolver := s, d_nodeToLiteralMap := m\<rparr>)) k = Some x" for k x
  proof -
    have "lit_means m k x False" if "d_literalToNodeMap st k = Some x" for k x
      using inv'(3) [OF that] lit_means_mono f by blast
    moreover have "lit_means m l n False" using f lit_means_entry by blast
    ultimately show ?thesis using that store_back_means [of "d_literalToNodeMap st" m l n k x] by (auto simp: store_back_def split: if_splits)
  qed
  moreover have "d_nodeToLiteralMap (?reg (?rev_map l (st\<lparr>d_satSolver := s, d_nodeToLiteralMap := m\<rparr>))) = m"
    "d_satSolver (?reg (?rev_map l (st\<lparr>d_satSolver := s, d_nodeToLiteralMap := m\<rparr>))) = s"
    "d_literalToNodeMap (?reg (?rev_map l (st\<lparr>d_satSolver := s, d_nodeToLiteralMap := m\<rparr>))) =
     d_literalToNodeMap (?rev_map l (st\<lparr>d_satSolver := s, d_nodeToLiteralMap := m\<rparr>))" by (simp_all add: store_back_def)
  ultimately show ?thesis unfolding swp_def r cnf_le_def using f by auto
qed

lemma gate_spec:
  assumes inv: "cnf_inv C st" and n: "typeOf n = Some BOOLEAN_TYPE" and cap: "n_vars st < capacity" and plain: "\<And>x. n \<noteq> notNode x"
    and vs: "\<And>l. getSatVariable ` \<Union> (set ` set (K l)) \<subseteq> insert (getSatVariable l) (vars (d_satSolver st))"
    and forces: "\<And>l \<alpha> v. agrees v \<alpha> (d_nodeToLiteralMap st) \<Longrightarrow> bool_connective n \<Longrightarrow>
      \<forall>c\<in>set (K l). clause_true \<alpha> c \<Longrightarrow> lit_true \<alpha> l = skel v n"
    and holds: "\<And>l \<alpha> v. agrees v \<alpha> (d_nodeToLiteralMap st) \<Longrightarrow> lit_true \<alpha> l = skel v n \<Longrightarrow> \<forall>c\<in>set (K l). clause_true \<alpha> c"
  shows "swp (sbind (CnfStream_newLiteral S E n isTheoryAtom preRegister canEliminate) (\<lambda>l. sbind (assertClauses S (K l)) (\<lambda>_. sreturn l)))
    (\<lambda>l st'. cnf_inv C st' \<and> cnf_le st st' \<and> n_vars st' \<le> n_vars st + 1 \<and> lit_ok st' l n False) st"
proof -
  obtain l st' where st': "CnfStream_newLiteral S E n isTheoryAtom preRegister canEliminate st = Inr (l, st')"
    "sat_inv (d_satSolver st')" "maps_ok (d_satSolver st') (d_nodeToLiteralMap st')" "cnf_le st st'"
    "n_vars st' \<le> n_vars st + 1" "d_nodeToLiteralMap st' n = Some l" "models (d_satSolver st') = models (d_satSolver st)"
    "\<And>l n. d_literalToNodeMap st' l = Some n \<Longrightarrow> lit_means (d_nodeToLiteralMap st') l n False"
    "\<And>\<alpha> v. agrees v \<alpha> (d_nodeToLiteralMap st) \<Longrightarrow> lit_true \<alpha> l = skel v n \<Longrightarrow> agrees v \<alpha> (d_nodeToLiteralMap st')"
    "\<And>v. respects_constants v \<Longrightarrow> C v \<Longrightarrow> \<exists>\<alpha>\<in>models (d_satSolver st). agrees v \<alpha> (d_nodeToLiteralMap st')"
    using newLiteral_spec [OF inv n cap plain, of E isTheoryAtom preRegister canEliminate] unfolding swp_def by blast
  let ?s = "fold (\<lambda>c. addClause S c (d_removable st')) (K l) (d_satSolver st')"
  have le: "d_nodeToLiteralMap st \<subseteq>\<^sub>m d_nodeToLiteralMap st'" "vars (d_satSolver st) \<subseteq> vars (d_satSolver st')"
    using st'(4) by (auto simp: cnf_le_def)
  have l: "getSatVariable l \<in> vars (d_satSolver st')" using st'(3,6) by (auto simp: maps_ok_def)
  then have "insert (getSatVariable l) (vars (d_satSolver st)) \<subseteq> vars (d_satSolver st')" using le(2) by simp
  with vs have "getSatVariable ` \<Union> (set ` set (K l)) \<subseteq> vars (d_satSolver st')" by (rule subset_trans)
  from addClauses_spec [OF st'(2) this, of "d_removable st'", unfolded st'(7)]
  have s: "sat_inv ?s" "vars ?s = vars (d_satSolver st')"
    "models ?s = {\<alpha> \<in> models (d_satSolver st). \<forall>c\<in>set (K l). clause_true \<alpha> c}" by blast+
  have sound: "agrees v \<alpha> (d_nodeToLiteralMap st') \<and> C v" if m: "\<alpha> \<in> models ?s" and a: "atoms_agree v \<alpha> (d_nodeToLiteralMap st')" for \<alpha> v
  proof -
    have pre: "agrees v \<alpha> (d_nodeToLiteralMap st) \<and> C v"
      using inv m s(3) atoms_agree_mono [OF le(1) a] unfolding cnf_inv_def by blast
    moreover have "lit_true \<alpha> l = skel v n"
      using forces [of v \<alpha> l] pre m s(3) a st'(6) skel_atom [of n v] by (cases "bool_connective n") (auto simp: atoms_agree_def)
    ultimately show ?thesis using st'(9) by blast
  qed
  have complete: "\<exists>\<alpha>\<in>models ?s. agrees v \<alpha> (d_nodeToLiteralMap st')" if v: "respects_constants v" "C v" for v
  proof -
    from st'(10) [OF v] obtain \<alpha> where \<alpha>: "\<alpha> \<in> models (d_satSolver st)" "agrees v \<alpha> (d_nodeToLiteralMap st')" by blast
    then have "lit_true \<alpha> l = skel v n" using st'(6) by (auto simp: agrees_def)
    then have "\<alpha> \<in> models ?s" using holds [OF agrees_mono [OF le(1) \<alpha>(2)], of l] \<alpha>(1) s(3) by blast
    with \<alpha> show ?thesis by blast
  qed
  have "maps_ok ?s (d_nodeToLiteralMap st')" using maps_ok_mono [OF st'(3)] s(2,3) st'(7) by auto
  then have "cnf_inv C (st'\<lparr>d_satSolver := ?s\<rparr>)"
    using s(1) st'(8) sound complete unfolding cnf_inv_def by simp
  moreover have "lit_ok (st'\<lparr>d_satSolver := ?s\<rparr>) l n False"
    using l s(2) st'(6) by (auto simp: lit_ok_def lit_means_def agrees_def)
  ultimately show ?thesis
    using st'(1,4,5) s(2) by (simp add: swp_def sbind_def assertClauses_eq sreturn_def cnf_le_def)
qed

text \<open>A computation that returns a literal for \<open>n\<close>, or for its negation.\<close>

definition converts :: "((node \<Rightarrow> bool) \<Rightarrow> bool) \<Rightarrow> ('s cnf_state, satLiteral) sexc \<Rightarrow> node \<Rightarrow> bool \<Rightarrow> bool" where
  "converts C c n negated \<longleftrightarrow>
     (\<forall>st. cnf_inv C st \<longrightarrow> n_vars st + node_size n \<le> capacity \<longrightarrow>
        swp c (\<lambda>l st'. cnf_inv C st' \<and> cnf_le st st' \<and> n_vars st' \<le> n_vars st + node_size n \<and> lit_ok st' l n negated) st)"

lemma converts_not: "converts C c n b \<Longrightarrow> converts C (sbind c (\<lambda>a. sreturn (SatLiteral_not a))) n (\<not> b)"
  unfolding converts_def by (auto simp: lit_ok_def elim!: swp_mono)

lemma smapM_spec:
  "list_all2 (\<lambda>c n. converts C c n b) cs ns \<Longrightarrow> cnf_inv C st \<Longrightarrow> n_vars st + sum_list (map node_size ns) \<le> capacity \<Longrightarrow>
    swp (smapM cs) (\<lambda>ls st'. cnf_inv C st' \<and> cnf_le st st' \<and> n_vars st' \<le> n_vars st + sum_list (map node_size ns) \<and>
      list_all2 (\<lambda>l n. lit_ok st' l n b) ls ns) st"
proof (induction cs ns arbitrary: st rule: list_all2_induct)
  case (Cons c cs n ns)
  have "n_vars st + node_size n \<le> capacity" using Cons.prems(2) by simp
  with Cons.hyps(1) Cons.prems(1)
  obtain l st' where l: "c st = Inr (l, st')" "cnf_inv C st'" "cnf_le st st'" "n_vars st' \<le> n_vars st + node_size n" "lit_ok st' l n b"
    unfolding converts_def swp_def by blast
  from Cons.IH [OF l(2)] l(4) Cons.prems(2)
  obtain ls st'' where ls: "smapM cs st' = Inr (ls, st'')" "cnf_inv C st''" "cnf_le st' st''"
    "n_vars st'' \<le> n_vars st' + sum_list (map node_size ns)" "list_all2 (\<lambda>l n. lit_ok st'' l n b) ls ns"
    unfolding swp_def by auto
  then show ?case
    using l cnf_le_trans [OF l(3) ls(3)] lit_ok_mono [OF ls(3) l(5)] by (auto simp: swp_def sbind_def sreturn_def)
qed simp

lemma lits_connect:
  assumes "list_all2 (\<lambda>l n. lit_ok st l n b) ls ns" and "agrees v \<alpha> (d_nodeToLiteralMap st)"
  shows "map (\<lambda>l. lit_true \<alpha> l \<noteq> b) ls = map (skel v) ns"
  using assms(1) by (induction rule: list_all2_induct) (use assms(2) in \<open>auto simp: lit_ok_def lit_means_def\<close>)

lemma lits_vars: "list_all2 (\<lambda>l n. lit_ok st l n b) ls ns \<Longrightarrow> getSatVariable ` set ls \<subseteq> vars (d_satSolver st)"
  by (induction rule: list_all2_induct) (auto simp: lit_ok_def)

lemma tseitin_gate:
  assumes cs: "list_all2 (\<lambda>c n. converts C c n b) cs ns"
    and n: "typeOf (App k ns) = Some BOOLEAN_TYPE" "bool_connective (App k ns)"
    and vs: "\<And>ls l. length ls = length ns \<Longrightarrow> getSatVariable ` \<Union> (set ` set (K ls l)) \<subseteq> insert (getSatVariable l) (getSatVariable ` set ls)"
    and sem: "\<And>ls l \<alpha>. length ls = length ns \<Longrightarrow> (\<forall>c\<in>set (K ls l). clause_true \<alpha> c) \<longleftrightarrow>
      lit_true \<alpha> l = connect k (map (\<lambda>x. lit_true \<alpha> x \<noteq> b) ls)"
    and plain: "k \<noteq> NOT"
  shows "converts C (run_gate S E (App k ns) cs K) (App k ns) False"
  unfolding converts_def run_gate_def
proof (intro allI impI)
  fix st assume st: "cnf_inv C st" "n_vars st + node_size (App k ns) \<le> capacity"
  from smapM_spec [OF cs st(1)] st(2)
  obtain ls st' where ls: "smapM cs st = Inr (ls, st')" "cnf_inv C st'" "cnf_le st st'"
    "n_vars st' \<le> n_vars st + sum_list (map node_size ns)" "list_all2 (\<lambda>l n. lit_ok st' l n b) ls ns"
    unfolding swp_def by auto
  have len: "length ls = length ns" using ls(5) by (rule list_all2_lengthD)
  have sk: "(\<forall>c\<in>set (K ls l). clause_true \<alpha> c) \<longleftrightarrow> lit_true \<alpha> l = skel v (App k ns)" if "agrees v \<alpha> (d_nodeToLiteralMap st')" for l \<alpha> v
    using sem [OF len] lits_connect [OF ls(5) that] n(2) by simp
  have "swp (sbind (gateLiteral S E (App k ns)) (\<lambda>l. sbind (assertClauses S (K ls l)) (\<lambda>_. sreturn l)))
    (\<lambda>l st''. cnf_inv C st'' \<and> cnf_le st' st'' \<and> n_vars st'' \<le> n_vars st' + 1 \<and> lit_ok st'' l (App k ns) False) st'"
  proof (rule gate_spec [OF ls(2) n(1)])
    show "n_vars st' < capacity" using ls(4) st(2) by simp
    show "App k ns \<noteq> notNode x" for x using plain by (simp add: notNode_def)
    show "getSatVariable ` \<Union> (set ` set (K ls l)) \<subseteq> insert (getSatVariable l) (vars (d_satSolver st'))" for l
      using vs [OF len, of l] lits_vars [OF ls(5)] by (meson insert_mono subset_trans)
  qed (use sk in blast)+
  then show "swp (sbind (smapM cs) (\<lambda>ls. sbind (gateLiteral S E (App k ns)) (\<lambda>l. sbind (assertClauses S (K ls l)) (\<lambda>_. sreturn l))))
    (\<lambda>l st'. cnf_inv C st' \<and> cnf_le st st' \<and> n_vars st' \<le> n_vars st + node_size (App k ns) \<and> lit_ok st' l (App k ns) False) st"
    unfolding swp_def using ls(1,4) cnf_le_trans [OF ls(3)] by (auto simp: sbind_def)
qed

lemma convertAtom_spec:
  assumes n: "typeOf n = Some BOOLEAN_TYPE" "\<not> bool_connective n"
  shows "converts C (CnfStream_convertAtom S E n noPreregistration) n False"
proof -
  have gate: "swp (CnfStream_newLiteral S E n a p c)
    (\<lambda>l st'. cnf_inv C st' \<and> cnf_le st st' \<and> n_vars st' \<le> n_vars st + node_size n \<and> lit_ok st' l n False) st"
    if "cnf_inv C st" "n_vars st + node_size n \<le> capacity" for st a p c
  proof -
    have "n \<noteq> notNode x" for x using n(2) by (auto simp: notNode_def bool_connective_def)
    then show ?thesis using gate_spec [OF that(1) n(1), of "\<lambda>_. []" E a p c] n(2) that(2) node_size_pos [of n] by (auto elim!: swp_mono)
  qed
  show ?thesis
  proof (cases "isVar n")
    case True
    have "swp (CnfStream_newLiteral S E n False False True)
      (\<lambda>l st'. cnf_inv C st' \<and> cnf_le st st' \<and> n_vars st' \<le> n_vars st + node_size n \<and> lit_ok st' l n False)
      (st\<lparr>d_booleanVariables := d_booleanVariables st @ [n]\<rparr>)" if "cnf_inv C st" "n_vars st + node_size n \<le> capacity" for st
      using gate [of "st\<lparr>d_booleanVariables := d_booleanVariables st @ [n]\<rparr>" False False True] that by simp
    with True show ?thesis by (simp add: converts_def CnfStream_convertAtom_def)
  qed (simp add: converts_def CnfStream_convertAtom_def gate)
qed

text \<open>The handlers. \<open>cs\<close> convert the children \<open>ns\<close>.\<close>

lemma handle_spec:
  assumes n: "typeOf (App k ns) = Some BOOLEAN_TYPE" "bool_connective (App k ns)"
    and cs: "list_all2 (\<lambda>c n. converts C c n False) cs ns"
  shows "converts C (toCNF_switch S E (App k ns) cs) (App k ns) False"
proof -
  have len: "length cs = length ns" using cs by (rule list_all2_lengthD)
  have nots: "list_all2 (\<lambda>c n. converts C c n True) (map (\<lambda>c. sbind c (\<lambda>a. sreturn (SatLiteral_not a))) cs) ns"
    using cs converts_not [where b = False] by (auto simp: list_all2_conv_all_nth)
  note gate = tseitin_gate [OF cs n] tseitin_gate [OF nots n]
  note arity = connective_children [OF n(2,1)] and two = list_two list_three
  consider "k = NOT" | "k = XOR" | "k = ITE" | "k = IMPLIES" | "k = OR" | "k = AND" | "k = EQUAL"
    using n(2) by (auto simp: bool_connective_def)
  then show ?thesis
  proof cases
    case 1
    then obtain m where m: "ns = [m]" using arity(2) by (auto simp: length_Suc_conv)
    then obtain c where c: "cs = [c]" "converts C c m False" using cs by (auto simp: list_all2_Cons2)
    show ?thesis using 1 m c(1) converts_not [OF c(2)]
      by (auto simp: toCNF_switch_def TseitinCnfStream_handleNot_def converts_def lit_ok_def notNode_def lit_means_notNode [unfolded notNode_def] elim!: swp_mono)
  next
    case 2
    then have l: "length ns = 2" using arity(3) by simp
    have "converts C (TseitinCnfStream_handleXor S E (App k ns) cs) (App k ns) False"
      unfolding handlers_gate(1) [OF len [unfolded l]] using 2 l by (intro gate(1)) (auto dest!: two simp: connect_def)
    with 2 show ?thesis by (simp add: toCNF_switch_def)
  next
    case 3
    then have l: "length ns = 3" using arity(4) by simp
    have "converts C (TseitinCnfStream_handleIte S E (App k ns) cs) (App k ns) False"
      unfolding handlers_gate(4) [OF len [unfolded l]] using 3 l by (intro gate(1)) (auto dest!: two simp: connect_def split: if_splits)
    with 3 show ?thesis by (simp add: toCNF_switch_def)
  next
    case 4
    then have l: "length ns = 2" using arity(3) by simp
    have "converts C (TseitinCnfStream_handleImplies S E (App k ns) cs) (App k ns) False"
      unfolding handlers_gate(3) [OF len [unfolded l]] using 4 l by (intro gate(1)) (auto dest!: two simp: connect_def)
    with 4 show ?thesis by (simp add: toCNF_switch_def)
  next
    case 5
    then have "converts C (TseitinCnfStream_handleOr S E (App k ns) cs) (App k ns) False"
      unfolding handlers_gate(5) by (intro gate(1)) (auto simp: connect_def clause_true_def list_ex_iff)
    with 5 show ?thesis by (simp add: toCNF_switch_def)
  next
    case 6
    then have "converts C (TseitinCnfStream_handleAnd S E (App k ns) cs) (App k ns) False"
      unfolding handlers_gate(6) by (intro gate(2)) (auto simp: connect_def clause_true_def list_ex_iff list_all_iff)
    with 6 show ?thesis by (simp add: toCNF_switch_def)
  next
    case 7
    then have l: "length ns = 2" using arity(3) by simp
    then obtain a b where ns: "ns = [a, b]" using two(1) by blast
    have "converts C (TseitinCnfStream_handleIff S E (App k ns) cs) (App k ns) False"
      unfolding handlers_gate(2) [OF len [unfolded l]] using 7 l by (intro gate(1)) (auto dest!: two simp: connect_def)
    with 7 n(2) show ?thesis by (simp add: toCNF_switch_def ns connective_App)
  qed
qed

lemma switch_atom: "\<not> bool_connective n \<Longrightarrow> typeOf n = Some BOOLEAN_TYPE \<Longrightarrow> toCNF_switch S E n cs = CnfStream_convertAtom S E n False"
proof (cases n)
  case (App k ns)
  assume n: "\<not> bool_connective n" "typeOf n = Some BOOLEAN_TYPE"
  show ?thesis
  proof (cases "k = EQUAL")
    case True
    with App n obtain l r u where ns: "ns = [l, r]" "typeOf l = Some u" by (auto simp: typeOf_App_iff type_op_mixed list_all2_Cons2)
    then show ?thesis using App True n(1) getType_typeOf [OF ns(2)] by (auto simp: toCNF_switch_def connective_App)
  next
    case False
    then show ?thesis using App n(1) by (auto simp: toCNF_switch_def bool_connective_def split: kind.split)
  qed
qed (auto simp: toCNF_switch_def)

lemma step_spec:
  assumes "converts C (toCNF_switch S E n cs) n False"
  shows "converts C (toCNF_step S E n cs b) n b"
proof -
  have "converts C (\<lambda>st. if CnfStream_hasLiteral st n then CnfStream_getLiteral n st else toCNF_switch S E n cs st) n False"
    unfolding converts_def
  proof (intro allI impI)
    fix st assume st: "cnf_inv C st" "n_vars st + node_size n \<le> capacity"
    show "swp (\<lambda>st. if CnfStream_hasLiteral st n then CnfStream_getLiteral n st else toCNF_switch S E n cs st)
      (\<lambda>l st'. cnf_inv C st' \<and> cnf_le st st' \<and> n_vars st' \<le> n_vars st + node_size n \<and> lit_ok st' l n False) st"
    proof (cases "d_nodeToLiteralMap st n")
      case (Some l)
      then have "lit_ok st l n False" using st(1) by (auto simp: lit_ok_def lit_means_entry cnf_inv_def maps_ok_def)
      with Some st show ?thesis by (simp add: swp_def CnfStream_hasLiteral_def CnfStream_getLiteral_def)
    next
      case None
      then show ?thesis using assms st by (simp add: swp_def converts_def CnfStream_hasLiteral_def)
    qed
  qed
  from this converts_not [OF this] show ?thesis
    by (cases b) (simp_all add: toCNF_step_def converts_def)
qed

theorem toCNF_converts: "typeOf n = Some BOOLEAN_TYPE \<Longrightarrow> converts C (TseitinCnfStream_toCNF S E n b) n b"
proof (induction n arbitrary: b)
  case (App k ns)
  let ?cs = "map (\<lambda>n. TseitinCnfStream_toCNF S E n False) ns"
  have "converts C (toCNF_switch S E (App k ns) ?cs) (App k ns) False"
  proof (cases "bool_connective (App k ns)")
    case True
    then have "list_all2 (\<lambda>c n. converts C c n False) ?cs ns"
      using connective_children(1) [OF True App.prems] App.IH by (auto simp: list_all2_conv_all_nth list_all_length)
    with handle_spec [OF App.prems True] show ?thesis .
  next
    case False
    then show ?thesis using convertAtom_spec [OF App.prems False] switch_atom [OF False App.prems] by simp
  qed
  then show ?case using step_spec by simp
qed (simp_all only: TseitinCnfStream_toCNF.simps, (rule step_spec, subst switch_atom, simp add: bool_connective_def, assumption,
    rule convertAtom_spec, assumption, simp add: bool_connective_def)+)

text \<open>A computation that asserts \<open>n\<close>, or its negation.\<close>

definition asserts :: "('s cnf_state, unit) sexc \<Rightarrow> node \<Rightarrow> bool \<Rightarrow> bool" where
  "asserts c n negated \<longleftrightarrow>
     (\<forall>C st. cnf_inv C st \<longrightarrow> n_vars st + node_size n \<le> capacity \<longrightarrow>
        swp c (\<lambda>_ st'. cnf_inv (\<lambda>v. C v \<and> skel v n \<noteq> negated) st' \<and> cnf_le st st' \<and> n_vars st' \<le> n_vars st + node_size n) st)"

lemma assert_gate:
  assumes cs: "\<And>C. list_all2 (\<lambda>c n. converts C c n b) cs ns" and size: "sum_list (map node_size ns) \<le> node_size n"
    and vs: "\<And>ls. length ls = length ns \<Longrightarrow> getSatVariable ` \<Union> (set ` set (K ls)) \<subseteq> getSatVariable ` set ls"
    and sem: "\<And>ls \<alpha> v. length ls = length ns \<Longrightarrow> map (\<lambda>l. lit_true \<alpha> l \<noteq> b) ls = map (skel v) ns \<Longrightarrow>
      (\<forall>c\<in>set (K ls). clause_true \<alpha> c) \<longleftrightarrow> skel v n \<noteq> negated"
  shows "asserts (sbind (smapM cs) (\<lambda>ls. assertClauses S (K ls))) n negated"
  unfolding asserts_def
proof (intro allI impI)
  fix C st assume st: "cnf_inv C st" "n_vars st + node_size n \<le> capacity"
  from smapM_spec [OF cs st(1)] st(2) size
  obtain ls st' where ls: "smapM cs st = Inr (ls, st')" "cnf_inv C st'" "cnf_le st st'"
    "n_vars st' \<le> n_vars st + sum_list (map node_size ns)" "list_all2 (\<lambda>l n. lit_ok st' l n b) ls ns"
    unfolding swp_def by auto
  have len: "length ls = length ns" using ls(5) by (rule list_all2_lengthD)
  have "swp (assertClauses S (K ls)) (\<lambda>_ st''. cnf_inv (\<lambda>v. C v \<and> skel v n \<noteq> negated) st'' \<and> cnf_le st' st'' \<and> n_vars st'' = n_vars st') st'"
    using vs [OF len] lits_vars [OF ls(5)] sem [OF len lits_connect [OF ls(5)]] by (intro assert_spec [OF ls(2)]) auto
  then show "swp (sbind (smapM cs) (\<lambda>ls. assertClauses S (K ls)))
    (\<lambda>_ st'. cnf_inv (\<lambda>v. C v \<and> skel v n \<noteq> negated) st' \<and> cnf_le st st' \<and> n_vars st' \<le> n_vars st + node_size n) st"
    unfolding swp_def using ls(1,4) size cnf_le_trans [OF ls(3)] by (fastforce simp: sbind_def)
qed

lemma asserts_all:
  "list_all2 (\<lambda>a n. asserts a n b) as ns \<Longrightarrow> cnf_inv C st \<Longrightarrow> n_vars st + sum_list (map node_size ns) \<le> capacity \<Longrightarrow>
    swp (smapM as) (\<lambda>_ st'. cnf_inv (\<lambda>v. C v \<and> list_all (\<lambda>n. skel v n \<noteq> b) ns) st' \<and> cnf_le st st' \<and>
      n_vars st' \<le> n_vars st + sum_list (map node_size ns)) st"
proof (induction as ns arbitrary: st C rule: list_all2_induct)
  case (Cons a as n ns)
  have "n_vars st + node_size n \<le> capacity" using Cons.prems(2) by simp
  with Cons.hyps(1) Cons.prems(1)
  obtain u st' where st': "a st = Inr (u, st')" "cnf_inv (\<lambda>v. C v \<and> skel v n \<noteq> b) st'" "cnf_le st st'" "n_vars st' \<le> n_vars st + node_size n"
    unfolding asserts_def swp_def by blast
  from Cons.IH [OF st'(2)] st'(4) Cons.prems(2)
  obtain us st'' where "smapM as st' = Inr (us, st'')" "cnf_inv (\<lambda>v. (C v \<and> skel v n \<noteq> b) \<and> list_all (\<lambda>n. skel v n \<noteq> b) ns) st''" "cnf_le st' st''"
    "n_vars st'' \<le> n_vars st' + sum_list (map node_size ns)"
    unfolding swp_def by auto
  then show ?case using st'(1,4) cnf_le_trans [OF st'(3)] by (auto simp: swp_def sbind_def sreturn_def)
qed simp

lemma asserts_count: "asserts c n b \<Longrightarrow> asserts (sbind (smodify count_resource) (\<lambda>_. c)) n b"
proof -
  assume c: "asserts c n b"
  show ?thesis unfolding asserts_def
  proof (intro allI impI)
    fix C st assume "cnf_inv C st" "n_vars st + node_size n \<le> capacity"
    with c [unfolded asserts_def, rule_format, of C "count_resource st"]
    show "swp (sbind (smodify count_resource) (\<lambda>_. c))
      (\<lambda>_ st'. cnf_inv (\<lambda>v. C v \<and> skel v n \<noteq> b) st' \<and> cnf_le st st' \<and> n_vars st' \<le> n_vars st + node_size n) st" by simp
  qed
qed

lemma toCNF_negated:
  "TseitinCnfStream_toCNF S E n b = sbind (TseitinCnfStream_toCNF S E n False) (\<lambda>l. sreturn (if b then SatLiteral_not l else l))"
  by (cases n; cases b) (simp_all add: toCNF_step_def sbind_assoc sbind_sreturn)

lemma convert_all: "list_all (\<lambda>n. typeOf n = Some BOOLEAN_TYPE) ns \<Longrightarrow>
    list_all2 (\<lambda>c n. converts C c n b) (map (\<lambda>n. TseitinCnfStream_toCNF S E n b) ns) ns"
  by (auto simp: list_all2_conv_all_nth list_all_length toCNF_converts)

lemma assertAtom_spec:
  assumes "typeOf n = Some BOOLEAN_TYPE"
  shows "asserts (assertAtom S E n b) n b"
proof -
  have "asserts (sbind (smapM [TseitinCnfStream_toCNF S E n b]) (\<lambda>ls. assertClauses S [[ls ! 0]])) n b"
    by (rule assert_gate [where ns = "[n]" and b = b]) (auto simp: toCNF_converts assms length_Suc_conv)
  then show ?thesis by (simp add: assertAtom_def sbind_assoc sbind_sreturn assertClause_single del: assertClauses.simps)
qed

text \<open>The cases of \<open>convertAndAssert\<close>; \<open>as\<close> assert the children.\<close>

lemma assertAll_spec:
  assumes "list_all2 (\<lambda>a n. asserts a n b) (map (\<lambda>a. a b) as) ns"
    and "\<And>v. list_all (\<lambda>n. skel v n \<noteq> b) ns \<longleftrightarrow> skel v (App k ns) \<noteq> negated"
  shows "asserts (assertAll as b) (App k ns) negated"
  unfolding asserts_def assertAll_def
proof (intro allI impI)
  fix C st assume "cnf_inv C st" "n_vars st + node_size (App k ns) \<le> capacity"
  from asserts_all [OF assms(1) this(1)] this(2)
  show "swp (sbind (smapM (map (\<lambda>a. a b) as)) (\<lambda>_. sreturn ()))
    (\<lambda>_ st'. cnf_inv (\<lambda>v. C v \<and> skel v (App k ns) \<noteq> negated) st' \<and> cnf_le st st' \<and> n_vars st' \<le> n_vars st + node_size (App k ns)) st"
    unfolding assms(2) by (auto elim!: swp_mono simp del: skel.simps)
qed

lemma asserts_weaken:
  assumes c: "asserts c m a" and size: "node_size m \<le> node_size n" and sem: "\<And>v. skel v m \<noteq> a \<longleftrightarrow> skel v n \<noteq> b"
  shows "asserts c n b"
  unfolding asserts_def
proof (intro allI impI)
  fix C st assume st: "cnf_inv C st" "n_vars st + node_size n \<le> capacity"
  with size have "n_vars st + node_size m \<le> capacity" by simp
  from c [unfolded asserts_def, rule_format, OF st(1) this]
  show "swp c (\<lambda>_ st'. cnf_inv (\<lambda>v. C v \<and> skel v n \<noteq> b) st' \<and> cnf_le st st' \<and> n_vars st' \<le> n_vars st + node_size n) st"
    unfolding sem by (rule swp_mono) (use size in auto)
qed

lemma asserts_seq:
  assumes c: "asserts c x a" and d: "asserts d y b" and size: "node_size x + node_size y \<le> node_size n"
    and sem: "\<And>v. skel v x \<noteq> a \<and> skel v y \<noteq> b \<longleftrightarrow> skel v n \<noteq> e"
  shows "asserts (sbind c (\<lambda>_. d)) n e"
  unfolding asserts_def
proof (intro allI impI)
  fix C st assume st: "cnf_inv C st" "n_vars st + node_size n \<le> capacity"
  with size have "n_vars st + node_size x \<le> capacity" by simp
  with c st(1) obtain st' where st': "c st = Inr ((), st')" "cnf_inv (\<lambda>v. C v \<and> skel v x \<noteq> a) st'" "cnf_le st st'"
    "n_vars st' \<le> n_vars st + node_size x" unfolding asserts_def swp_def by fastforce
  with st(2) size have "n_vars st' + node_size y \<le> capacity" by simp
  with d st'(2) have "swp d (\<lambda>_ st''. cnf_inv (\<lambda>v. (C v \<and> skel v x \<noteq> a) \<and> skel v y \<noteq> b) st'' \<and> cnf_le st' st'' \<and>
      n_vars st'' \<le> n_vars st' + node_size y) st'" unfolding asserts_def by blast
  then show "swp (sbind c (\<lambda>_. d)) (\<lambda>_ st'. cnf_inv (\<lambda>v. C v \<and> skel v n \<noteq> e) st' \<and> cnf_le st st' \<and> n_vars st' \<le> n_vars st + node_size n) st"
    unfolding conj_assoc sem using st'(1,4) size cnf_le_trans [OF st'(3)] by (auto simp: swp_def sbind_def)
qed

abbreviation flip_lit :: "bool \<Rightarrow> satLiteral \<Rightarrow> satLiteral" where
  "flip_lit b l \<equiv> (if b then SatLiteral_not l else l)"

lemma convertAndAssert_clauses:
  "TseitinCnfStream_convertAndAssertAnd S E ns as True = sbind (convertAll S E ns True) (\<lambda>ls. assertClauses S [ls])"
  "TseitinCnfStream_convertAndAssertOr S E ns as False = sbind (convertAll S E ns False) (\<lambda>ls. assertClauses S [ls])"
  "TseitinCnfStream_convertAndAssertXor S E [x, y] b = sbind (convertAll S E [x, y] False) (\<lambda>ls.
     assertClauses S [[SatLiteral_not (ls ! 0), flip_lit (\<not> b) (ls ! 1)], [ls ! 0, flip_lit b (ls ! 1)]])"
  "TseitinCnfStream_convertAndAssertIff S E [x, y] b = sbind (convertAll S E [x, y] False) (\<lambda>ls.
     assertClauses S [[SatLiteral_not (ls ! 0), flip_lit b (ls ! 1)], [ls ! 0, flip_lit (\<not> b) (ls ! 1)]])"
  "TseitinCnfStream_convertAndAssertImplies S E [x, y] [a, a'] False = sbind (convertAll S E [x, y] False) (\<lambda>ls.
     assertClauses S [[SatLiteral_not (ls ! 0), ls ! 1]])"
  "TseitinCnfStream_convertAndAssertIte S E [x, y, z] b = sbind (convertAll S E [x, y, z] False) (\<lambda>ls.
     assertClauses S [[SatLiteral_not (ls ! 0), flip_lit b (ls ! 1)], [ls ! 0, flip_lit b (ls ! 2)]])"
proof -
  show "TseitinCnfStream_convertAndAssertIte S E [x, y, z] b = sbind (convertAll S E [x, y, z] False) (\<lambda>ls.
     assertClauses S [[SatLiteral_not (ls ! 0), flip_lit b (ls ! 1)], [ls ! 0, flip_lit b (ls ! 2)]])"
    using toCNF_negated [of E y b] toCNF_negated [of E z b]
    by (cases b) (simp_all add: TseitinCnfStream_convertAndAssertIte_def convertAll_def sbind_assoc sbind_sreturn del: assertClauses.simps)
qed (cases b; simp add: TseitinCnfStream_convertAndAssertAnd_def TseitinCnfStream_convertAndAssertOr_def
      TseitinCnfStream_convertAndAssertXor_def TseitinCnfStream_convertAndAssertIff_def TseitinCnfStream_convertAndAssertImplies_def
      convertAll_def assertClause_single sbind_assoc sbind_sreturn del: assertClauses.simps)+

lemma assert_connective:
  assumes n: "typeOf (App k ns) = Some BOOLEAN_TYPE" "bool_connective (App k ns)"
    and as: "\<And>b. list_all2 (\<lambda>a n. asserts a n b) (map (\<lambda>a. a b) as) ns"
  shows "asserts (convertAndAssert_switch S E (App k ns) as b) (App k ns) b"
proof -
  note arity = connective_children [OF n(2,1)] and two = list_two list_three
  note gate = assert_gate [OF convert_all [OF arity(1), where E = E], of "App k ns", folded convertAll_def]
  have len: "length as = length ns" using as [of b] by (auto dest: list_all2_lengthD)
  have sk: "skel v (App k ns) = connect k (map (skel v) ns)" for v using n(2) by simp
  consider "k = NOT" | "k = XOR" | "k = ITE" | "k = IMPLIES" | "k = OR" | "k = AND" | "k = EQUAL"
    using n(2) by (auto simp: bool_connective_def)
  then show ?thesis
  proof cases
    case 1
    then obtain m a where ns: "ns = [m]" "as = [a]" using arity(2) len by (auto simp: length_Suc_conv)
    then have "asserts (a (\<not> b)) m (\<not> b)" using as [of "\<not> b"] by simp
    then have "asserts (a (\<not> b)) (App k ns) b"
      by (rule asserts_weaken) (simp_all add: ns connect_def connective_App 1)
    with 1 ns show ?thesis by (simp add: convertAndAssert_switch_def)
  next
    case 2
    then obtain x y where ns: "ns = [x, y]" using arity(3) two(1) [of ns] by auto
    have "asserts (TseitinCnfStream_convertAndAssertXor S E ns b) (App k ns) b"
      unfolding ns convertAndAssert_clauses by (rule gate [unfolded ns]) (auto dest!: two simp: connect_def connective_App n(2) [unfolded ns] 2)
    with 2 show ?thesis by (simp add: convertAndAssert_switch_def)
  next
    case 3
    then obtain x y z where ns: "ns = [x, y, z]" using arity(4) two(2) [of ns] by auto
    have "asserts (TseitinCnfStream_convertAndAssertIte S E ns b) (App k ns) b"
      unfolding ns convertAndAssert_clauses by (rule gate [unfolded ns]) (auto dest!: two simp: connect_def connective_App n(2) [unfolded ns] 3 split: if_splits)
    with 3 show ?thesis by (simp add: convertAndAssert_switch_def)
  next
    case 4
    then obtain x y a a' where ns: "ns = [x, y]" "as = [a, a']" using arity(3) len two(1) [of ns] two(1) [of as] by auto
    show ?thesis
    proof (cases b)
      case True
      have "asserts (a False) x False" "asserts (a' True) y True" using as [of False] as [of True] by (auto simp: ns)
      then have "asserts (sbind (a False) (\<lambda>_. a' True)) (App k ns) True"
        by (rule asserts_seq) (auto simp: ns connect_def connective_App 4)
      with 4 True show ?thesis by (simp add: convertAndAssert_switch_def TseitinCnfStream_convertAndAssertImplies_def ns)
    next
      case False
      have "asserts (TseitinCnfStream_convertAndAssertImplies S E ns as False) (App k ns) False"
        unfolding ns convertAndAssert_clauses by (rule gate [unfolded ns]) (auto dest!: two simp: connect_def connective_App n(2) [unfolded ns] 4)
      with 4 False show ?thesis by (simp add: convertAndAssert_switch_def)
    qed
  next
    case 5
    show ?thesis
    proof (cases b)
      case True
      then show ?thesis using 5 assertAll_spec [where k = k and negated = True, OF as [of True]] sk
        by (simp add: convertAndAssert_switch_def TseitinCnfStream_convertAndAssertOr_def connect_def list_all_iff list_ex_iff)
    next
      case False
      have "asserts (TseitinCnfStream_convertAndAssertOr S E ns as False) (App k ns) False"
        unfolding convertAndAssert_clauses by (rule gate)
          (auto simp: connective_App connect_def 5 clause_true_def list_ex_iff dest: map_eq_quantifiers(1))
      with 5 False show ?thesis by (simp add: convertAndAssert_switch_def)
    qed
  next
    case 6
    show ?thesis
    proof (cases b)
      case True
      have "asserts (TseitinCnfStream_convertAndAssertAnd S E ns as True) (App k ns) True"
        unfolding convertAndAssert_clauses by (rule gate)
          (auto simp: connective_App connect_def 6 clause_true_def list_ex_iff list_all_iff dest: map_eq_quantifiers(2))
      with 6 True show ?thesis by (simp add: convertAndAssert_switch_def)
    next
      case False
      then show ?thesis using 6 assertAll_spec [where k = k and negated = False, OF as [of False]] sk
        by (simp add: convertAndAssert_switch_def TseitinCnfStream_convertAndAssertAnd_def connect_def list_all_iff)
    qed
  next
    case 7
    then obtain x y where ns: "ns = [x, y]" using arity(3) two(1) [of ns] by auto
    have "asserts (TseitinCnfStream_convertAndAssertIff S E ns b) (App k ns) b"
      unfolding ns convertAndAssert_clauses by (rule gate [unfolded ns]) (auto dest!: two simp: connect_def n(2) [unfolded ns 7] 7)
    with 7 n(2) show ?thesis by (simp add: convertAndAssert_switch_def ns connective_App)
  qed
qed

lemma assert_switch_atom:
  "\<not> bool_connective n \<Longrightarrow> typeOf n = Some BOOLEAN_TYPE \<Longrightarrow> convertAndAssert_switch S E n as b = assertAtom S E n b"
proof (cases n)
  case (App k ns)
  assume n: "\<not> bool_connective n" "typeOf n = Some BOOLEAN_TYPE"
  show ?thesis
  proof (cases "k = EQUAL")
    case True
    with App n obtain l r u where ns: "ns = [l, r]" "typeOf l = Some u" by (auto simp: typeOf_App_iff type_op_mixed list_all2_Cons2)
    then show ?thesis using App True n(1) getType_typeOf [OF ns(2)] by (auto simp: convertAndAssert_switch_def connective_App)
  next
    case False
    then show ?thesis using App n(1) by (auto simp: convertAndAssert_switch_def bool_connective_def split: kind.split)
  qed
qed (auto simp: convertAndAssert_switch_def)

lemma convertAndAssert_rec_asserts: "typeOf n = Some BOOLEAN_TYPE \<Longrightarrow> asserts (convertAndAssert_rec S E n b) n b"
proof (induction n arbitrary: b)
  case (App k ns)
  let ?as = "map (\<lambda>n. convertAndAssert_rec S E n) ns"
  have "asserts (convertAndAssert_switch S E (App k ns) ?as b) (App k ns) b"
  proof (cases "bool_connective (App k ns)")
    case True
    then have "list_all2 (\<lambda>a n. asserts a n b) (map (\<lambda>a. a b) ?as) ns" for b
      using connective_children(1) [OF True App.prems] App.IH by (auto simp: list_all2_conv_all_nth list_all_length)
    with assert_connective [OF App.prems True] show ?thesis .
  next
    case False
    then show ?thesis using assertAtom_spec [OF App.prems] assert_switch_atom [OF False App.prems] by simp
  qed
  then show ?case using asserts_count by simp
qed (simp_all only: convertAndAssert_rec.simps, (rule asserts_count, subst assert_switch_atom, simp add: bool_connective_def, assumption,
    rule assertAtom_spec, assumption)+)

lemma convertAndAssert_spec:
  assumes n: "typeOf n = Some BOOLEAN_TYPE" and st: "cnf_inv C st" "n_vars st + node_size n \<le> capacity"
  obtains st' where "TseitinCnfStream_convertAndAssert S E n removable negated st = Inr ((), st')"
    and "cnf_inv (\<lambda>v. C v \<and> skel v n \<noteq> negated) st'" and "cnf_le st st'" and "n_vars st' \<le> n_vars st + node_size n"
proof -
  have "cnf_inv C (st\<lparr>d_removable := removable\<rparr>)" "n_vars (st\<lparr>d_removable := removable\<rparr>) + node_size n \<le> capacity" using st by simp_all
  from convertAndAssert_rec_asserts [OF n, of E negated, unfolded asserts_def, rule_format, OF this]
  obtain st' where "convertAndAssert_rec S E n negated (st\<lparr>d_removable := removable\<rparr>) = Inr ((), st')"
    "cnf_inv (\<lambda>v. C v \<and> skel v n \<noteq> negated) st'" "cnf_le (st\<lparr>d_removable := removable\<rparr>) st'"
    "n_vars st' \<le> n_vars (st\<lparr>d_removable := removable\<rparr>) + node_size n" unfolding swp_def by auto
  then show thesis using that by (simp add: TseitinCnfStream_convertAndAssert_def sbind_def smodify_def)
qed

lemma strip_not_cases: "strip_not n = n \<or> (\<exists>ms. n = App NOT (strip_not n # ms))"
  by (auto simp: strip_not_def split: node.split kind.split list.split)

lemma store_back_inv:
  assumes "cnf_inv C st" and "lit_means (d_nodeToLiteralMap st) l n False"
  shows "cnf_inv C (store_back l n st)" and "cnf_le st' (store_back l n st) = cnf_le st' st" and "n_vars (store_back l n st) = n_vars st"
    and "lit_ok (store_back l n st) k x b = lit_ok st k x b"
proof -
  show "cnf_inv C (store_back l n st)"
    using assms(1) store_back_means [OF _ assms(2), of "d_literalToNodeMap st"] unfolding cnf_inv_def store_back_def by simp
qed (simp_all add: store_back_def lit_ok_def)

text \<open>\<open>ensureLiteral\<close> makes a literal and asserts nothing.\<close>

lemma ensureLiteral_new_spec:
  assumes n: "typeOf n = Some BOOLEAN_TYPE" and mode: "env_theoryOfMode E = THEORY_OF_TYPE_BASED"
    and st: "cnf_inv C st" "n_vars st + node_size n \<le> capacity"
  shows "swp (ensureLiteral_new S E n noPreregistration) (\<lambda>_ st'. cnf_inv C st' \<and> cnf_le st st' \<and>
    n_vars st' \<le> n_vars st + node_size n \<and> (\<exists>l. lit_ok st' l (strip_not n) False)) st"
proof -
  let ?n = "strip_not n"
  have t: "typeOf ?n = Some BOOLEAN_TYPE"
    using n unfolding strip_not_def by (auto simp: typeOf_App_iff type_op_iffs list_all2_Cons1 split: node.split kind.split list.split)
  have "node_size ?n \<le> node_size n" using strip_not_cases [of n] node_size_child [of ?n] by (metis le_refl less_imp_le list.set_intros(1))
  then have size: "n_vars st + node_size ?n \<le> capacity" "\<And>k. k \<le> n_vars st + node_size ?n \<Longrightarrow> k \<le> n_vars st + node_size n"
    using st(2) by simp_all
  obtain i where i: "theoryOf (env_sortOwner E) THEORY_OF_TYPE_BASED ?n = Inr i"
    "i = THEORY_BOOL \<longleftrightarrow> bool_connective ?n \<or> (case ?n of App k ns \<Rightarrow> False | _ \<Rightarrow> True)" using theoryOf_type_based [OF t] by blast
  note new = ensureLiteral_new_def getType_typeOf [OF n] mode i(1)
  show ?thesis
  proof (cases "i = THEORY_BOOL \<and> \<not> isVar ?n")
    case True
    note toCNF = toCNF_converts [OF t, of C E False, unfolded converts_def, rule_format, OF st(1) size(1)]
    have "cnf_inv C (store_back l ?n st') \<and> cnf_le st (store_back l ?n st') \<and> n_vars (store_back l ?n st') \<le> n_vars st + node_size n \<and>
      (\<exists>l'. lit_ok (store_back l ?n st') l' ?n False)"
      if "cnf_inv C st' \<and> cnf_le st st' \<and> n_vars st' \<le> n_vars st + node_size ?n \<and> lit_ok st' l ?n False" for l st'
    proof -
      have "lit_means (d_nodeToLiteralMap st') l ?n False" using that by (simp add: lit_ok_def)
      with that store_back_inv [of C st' l ?n] size(2) show ?thesis by auto
    qed
    with True show ?thesis by (simp add: new Let_def) (rule swp_mono [OF toCNF], blast)
  next
    case False
    then have "\<not> bool_connective ?n" using i(2) by (auto simp: bool_connective_def isVar_def split: node.splits)
    note convertAtom = convertAtom_spec [OF t this, of C E noPreregistration, unfolded converts_def, rule_format, OF st(1) size(1)]
    from False show ?thesis by (auto simp add: new Let_def intro: swp_mono [OF convertAtom] size(2))
  qed
qed

lemma ensureLiteral_spec:
  assumes n: "typeOf n = Some BOOLEAN_TYPE" and mode: "env_theoryOfMode E = THEORY_OF_TYPE_BASED"
    and st: "cnf_inv C st" "n_vars st + node_size n \<le> capacity"
  shows "swp (TseitinCnfStream_ensureLiteral S E n noPreregistration) (\<lambda>_ st'. cnf_inv C st' \<and> cnf_le st st' \<and>
    n_vars st' \<le> n_vars st + node_size n \<and> (d_nodeToLiteralMap st' n \<noteq> None \<or> (\<exists>l. lit_ok st' l (strip_not n) False))) st"
proof -
  let ?st = "st\<lparr>d_removable := False\<rparr>"
  have st: "cnf_inv C ?st" "n_vars ?st + node_size n \<le> capacity" using st by simp_all
  have "swp (\<lambda>st. if CnfStream_hasLiteral st n then sbind (CnfStream_getLiteral n) (\<lambda>lit.
       smodify (\<lambda>st. if d_literalToNodeMap st lit = None then store_back lit n st else st)) st
     else ensureLiteral_new S E n noPreregistration st) (\<lambda>_ st'. cnf_inv C st' \<and> cnf_le ?st st' \<and>
    n_vars st' \<le> n_vars ?st + node_size n \<and> (d_nodeToLiteralMap st' n \<noteq> None \<or> (\<exists>l. lit_ok st' l (strip_not n) False))) ?st"
  proof (cases "d_nodeToLiteralMap ?st n")
    case (Some l)
    then have l: "lit_ok ?st l n False" using st(1) by (auto simp: lit_ok_def lit_means_entry cnf_inv_def maps_ok_def)
    then have means: "lit_means (d_nodeToLiteralMap ?st) l n False" by (simp add: lit_ok_def)
    show ?thesis
      using Some st l store_back_inv [OF st(1) means]
      by (auto simp: swp_def CnfStream_hasLiteral_def CnfStream_getLiteral_def sbind_def smodify_def store_back_def)
  next
    case None
    from ensureLiteral_new_spec [OF n mode st, of noPreregistration] show ?thesis
      using None by (auto simp: swp_def CnfStream_hasLiteral_def)
  qed
  then show ?thesis by (simp add: TseitinCnfStream_ensureLiteral_def)
qed

text \<open>A sequence of formulas, and the valuation that a model of the clauses gives.\<close>

lemma assert_formulas_spec:
  "boolean_formulas fs \<Longrightarrow> cnf_inv C st \<Longrightarrow> n_vars st + formulas_size fs \<le> capacity \<Longrightarrow>
    \<exists>st'. assert_formulas S E fs st = Inr ((), st') \<and> cnf_inv (\<lambda>v. C v \<and> holds_all v fs) st' \<and> cnf_le st st' \<and>
      n_vars st' \<le> n_vars st + formulas_size fs"
proof (induction fs arbitrary: C st)
  case Nil
  then show ?case by (simp add: holds_all_def sreturn_def)
next
  case (Cons f fs)
  obtain n r b where f: "f = (n, r, b)" by (cases f)
  from Cons.prems f have n: "typeOf n = Some BOOLEAN_TYPE" "boolean_formulas fs" "n_vars st + node_size n + formulas_size fs \<le> capacity"
    by (simp_all add: boolean_formulas_def formulas_size_def)
  from n(3) have "n_vars st + node_size n \<le> capacity" by simp
  from convertAndAssert_spec [OF n(1) Cons.prems(2) this, of E r b]
  obtain st' where st': "TseitinCnfStream_convertAndAssert S E n r b st = Inr ((), st')" "cnf_inv (\<lambda>v. C v \<and> skel v n \<noteq> b) st'"
    "cnf_le st st'" "n_vars st' \<le> n_vars st + node_size n" by blast
  from Cons.IH [OF n(2) st'(2)] n(3) st'(4)
  obtain st'' where st'': "assert_formulas S E fs st' = Inr ((), st'')" "cnf_inv (\<lambda>v. (C v \<and> skel v n \<noteq> b) \<and> holds_all v fs) st''"
    "cnf_le st' st''" "n_vars st'' \<le> n_vars st' + formulas_size fs" by auto
  have "(\<lambda>v. (C v \<and> skel v n \<noteq> b) \<and> holds_all v fs) = (\<lambda>v. C v \<and> holds_all v (f # fs))" by (auto simp: holds_all_def f)
  with st'' st'(1,4) cnf_le_trans [OF st'(3) st''(3)] show ?case by (auto simp: f sbind_def formulas_size_def)
qed

lemma model_valuation:
  assumes inv: "cnf_inv C st" and \<alpha>: "\<alpha> \<in> models (d_satSolver st)"
  shows "\<exists>v. respects_constants v \<and> agrees v \<alpha> (d_nodeToLiteralMap st) \<and> C v"
proof -
  let ?m = "d_nodeToLiteralMap st"
  define v where "v n = (case ?m n of Some l \<Rightarrow> lit_true \<alpha> l | None \<Rightarrow> n = CONST_BOOLEAN True)" for n
  have "atoms_agree v \<alpha> ?m" by (simp add: atoms_agree_def v_def)
  moreover have "maps_ok (d_satSolver st) ?m" using inv by (simp add: cnf_inv_def)
  then have "respects_constants v" using \<alpha> by (auto simp: respects_constants_def v_def maps_ok_def split: option.split)
  ultimately show ?thesis using inv \<alpha> unfolding cnf_inv_def by blast
qed

lemma assert_formulas_equisat:
  assumes fs: "boolean_formulas fs" and s: "sat_inv s" "models s \<noteq> {}" and size: "card (vars s) + formulas_size fs \<le> capacity"
  shows "\<exists>st. assert_formulas S E fs (CnfStream s) = Inr ((), st) \<and>
    (\<forall>\<alpha>\<in>models (d_satSolver st). \<exists>v. respects_constants v \<and> holds_all v fs \<and> agrees v \<alpha> (d_nodeToLiteralMap st)) \<and>
    (\<forall>v. respects_constants v \<longrightarrow> holds_all v fs \<longrightarrow> (\<exists>\<alpha>\<in>models (d_satSolver st). agrees v \<alpha> (d_nodeToLiteralMap st)))"
proof -
  have "n_vars (CnfStream s) + formulas_size fs \<le> capacity" using size by (simp add: CnfStream_def)
  from assert_formulas_spec [OF fs cnf_inv_init [OF s] this]
  obtain st where st: "assert_formulas S E fs (CnfStream s) = Inr ((), st)" "cnf_inv (\<lambda>v. True \<and> holds_all v fs) st" by blast
  have "\<forall>v. respects_constants v \<longrightarrow> holds_all v fs \<longrightarrow> (\<exists>\<alpha>\<in>models (d_satSolver st). agrees v \<alpha> (d_nodeToLiteralMap st))"
    using st(2) unfolding cnf_inv_def by blast
  with st model_valuation [OF st(2)] show ?thesis by blast
qed

end

end
