(* ===== verification/Context_Objects.thy ===== *)
theory Context_Objects
  imports Prelude
begin

text \<open>
  Backtrackable state (\<open>src/src/context/context.cpp\<close>, \<open>context.h\<close>, \<open>cdo.h\<close>, \<open>cdlist.h\<close>): a context is a stack of scopes; an
  object that is changed in a scope saves itself there first, and is restored when the scope is popped. \<open>CDO\<close> objects hold a
  value, \<open>CDList\<close> objects a list of which only the size is saved. An object is its current version followed by the saved ones it
  reaches through \<open>d_pContextObjRestore\<close>; the chain of a scope, a doubly linked list in the code, is a list of the objects with
  a version there, the saved copy in the place of the object it was copied from. A scope is named by its level. Objects live
  outside the context's memory region, whose allocator is the subject of \<open>Context_Memory\<close>; the array of a list grows within \<open>max_size\<close>,
  the limit of its allocator.
\<close>

section \<open>Objects\<close>

text \<open>The data of the subclasses. The array of a \<open>CDList\<close> has \<open>d_sizeAlloc\<close> slots; \<open>None\<close> is a slot that holds no constructed
  element.\<close>

record 'a cdlist =
  cl_list :: "'a option list"
  cl_size :: nat
  cl_callDestructor :: bool

datatype 'a obj_data = CDO 'a | CDList "'a cdlist"

definition save_data :: "'a obj_data \<Rightarrow> 'a obj_data" where
  "save_data p =
     (case p of
        CDO v \<Rightarrow> CDO v
      | CDList l \<Rightarrow> CDList \<lparr>cl_list = [], cl_size = cl_size l, cl_callDestructor = False\<rparr>)"

text \<open>The loop of \<open>truncateList\<close>, from the last element down. Its callers never ask for a larger size, which is part of the invariant of
  \<open>Context_Correctness\<close>; there the loop of the code would not end.\<close>

fun truncateList_destroy :: "nat \<Rightarrow> nat \<Rightarrow> 'a option list \<Rightarrow> 'a option list" where
  "truncateList_destroy m n xs = (if n \<le> m then xs else truncateList_destroy m (n - 1) (xs[n - 1 := None]))"

declare truncateList_destroy.simps [simp del]

definition truncateList :: "nat \<Rightarrow> 'a cdlist \<Rightarrow> 'a cdlist" where
  "truncateList m l =
     (if cl_callDestructor l then l\<lparr>cl_list := truncateList_destroy m (cl_size l) (cl_list l), cl_size := m\<rparr>
      else l\<lparr>cl_size := m\<rparr>)"

definition restore_data :: "'a obj_data \<Rightarrow> 'a obj_data \<Rightarrow> 'a obj_data" where
  "restore_data p saved =
     (case (p, saved) of
        (CDO v, CDO w) \<Rightarrow> CDO w
      | (CDList l, CDList s) \<Rightarrow> CDList (truncateList (cl_size s) l)
      | _ \<Rightarrow> p)"

section \<open>Contexts\<close>

type_synonym obj = nat

type_synonym 'a version = "nat \<times> 'a obj_data"

record 'a ctx =
  d_scopeList :: "obj list list"
  ctx_objects :: "obj \<Rightarrow> 'a version list"
  ctx_fresh :: obj
  d_pCNOpre :: "nat list"
  d_pCNOpost :: "nat list"
  ctx_notifications :: "nat list"

definition new_Context :: "'a ctx" where
  "new_Context = \<lparr>d_scopeList = [[]], ctx_objects = (\<lambda>x. []), ctx_fresh = 0, d_pCNOpre = [], d_pCNOpost = [], ctx_notifications = []\<rparr>"

definition getLevel :: "'a ctx \<Rightarrow> nat" where
  "getLevel C = length (d_scopeList C) - 1"

definition addToChain :: "nat \<Rightarrow> obj \<Rightarrow> 'a ctx \<Rightarrow> 'a ctx" where
  "addToChain k x C = C\<lparr>d_scopeList := (d_scopeList C)[k := x # d_scopeList C ! k]\<rparr>"

definition context_push :: "'a ctx \<Rightarrow> 'a ctx" where
  "context_push C = C\<lparr>d_scopeList := d_scopeList C @ [[]]\<rparr>"

fun ctx_restored :: "'a version list \<Rightarrow> 'a version list" where
  "ctx_restored ((k, p) # (j, s) # vs) = (j, restore_data p s) # vs"
| "ctx_restored vs = vs"

definition restoreAndContinue :: "obj \<Rightarrow> 'a ctx \<Rightarrow> 'a ctx" where
  "restoreAndContinue x C = C\<lparr>ctx_objects := (ctx_objects C)(x := ctx_restored (ctx_objects C x))\<rparr>"

definition delete_Scope :: "obj list \<Rightarrow> 'a ctx \<Rightarrow> 'a ctx" where
  "delete_Scope chain C = fold restoreAndContinue chain C"

definition contextNotifyPop :: "nat list \<Rightarrow> 'a ctx \<Rightarrow> 'a ctx" where
  "contextNotifyPop ns C = C\<lparr>ctx_notifications := ctx_notifications C @ ns\<rparr>"

definition context_pop :: "'a ctx \<Rightarrow> 'a ctx" where
  "context_pop C =
     (let C = contextNotifyPop (d_pCNOpre C) C;
          pScope = last (d_scopeList C);
          C = C\<lparr>d_scopeList := butlast (d_scopeList C)\<rparr>;
          C = delete_Scope pScope C
      in contextNotifyPop (d_pCNOpost C) C)"

lemma fold_restore_scopes: "d_scopeList (fold restoreAndContinue xs C) = d_scopeList C"
  by (induction xs arbitrary: C) (simp_all add: restoreAndContinue_def)

lemma level_pop: "getLevel (context_pop C) = getLevel C - 1"
  by (simp add: getLevel_def context_pop_def contextNotifyPop_def delete_Scope_def fold_restore_scopes Let_def)

function context_popto_loop :: "nat \<Rightarrow> 'a ctx \<Rightarrow> 'a ctx" where
  "context_popto_loop toLevel C = (if toLevel < getLevel C then context_popto_loop toLevel (context_pop C) else C)"
  by pat_completeness auto

termination
  by (relation "measure (\<lambda>(k, C). getLevel C)") (simp_all add: level_pop)

declare context_popto_loop.simps [simp del]

definition context_popto :: "int \<Rightarrow> 'a ctx \<Rightarrow> 'a ctx" where
  "context_popto toLevel C = context_popto_loop (nat (if toLevel < 0 then 0 else toLevel)) C"

definition addNotifyObjPre :: "nat \<Rightarrow> 'a ctx \<Rightarrow> 'a ctx" where
  "addNotifyObjPre n C = C\<lparr>d_pCNOpre := n # d_pCNOpre C\<rparr>"

definition addNotifyObjPost :: "nat \<Rightarrow> 'a ctx \<Rightarrow> 'a ctx" where
  "addNotifyObjPost n C = C\<lparr>d_pCNOpost := n # d_pCNOpost C\<rparr>"

text \<open>A \<open>ContextNotifyObj\<close> is a number; the context calls it before or after it restores a scope. What the call-back does is the
  client's, here it is recorded.\<close>

definition new_ContextNotifyObj :: "bool \<Rightarrow> nat \<Rightarrow> 'a ctx \<Rightarrow> 'a ctx" where
  "new_ContextNotifyObj preNotify n C = (if preNotify then addNotifyObjPre n C else addNotifyObjPost n C)"

definition delete_ContextNotifyObj :: "nat \<Rightarrow> 'a ctx \<Rightarrow> 'a ctx" where
  "delete_ContextNotifyObj n C = C\<lparr>d_pCNOpre := removeAll n (d_pCNOpre C), d_pCNOpost := removeAll n (d_pCNOpost C)\<rparr>"

definition delete_Context :: "'a ctx \<Rightarrow> 'a ctx" where
  "delete_Context C = (context_popto 0 C)\<lparr>d_pCNOpre := [], d_pCNOpost := []\<rparr>"

section \<open>Context objects\<close>

definition ContextObj_update :: "obj \<Rightarrow> 'a ctx \<Rightarrow> 'a ctx" where
  "ContextObj_update x C =
     (case ctx_objects C x of
        [] \<Rightarrow> C
      | (k, p) # vs \<Rightarrow>
          addToChain (getLevel C) x (C\<lparr>ctx_objects := (ctx_objects C)(x := (getLevel C, p) # (k, save_data p) # vs)\<rparr>))"

definition isCurrent :: "obj \<Rightarrow> 'a ctx \<Rightarrow> bool" where
  "isCurrent x C = (case ctx_objects C x of [] \<Rightarrow> True | (k, p) # vs \<Rightarrow> k = getLevel C)"

definition makeCurrent :: "obj \<Rightarrow> 'a ctx \<Rightarrow> 'a ctx" where
  "makeCurrent x C = (if \<not> isCurrent x C then ContextObj_update x C else C)"

text \<open>\<open>ContextObj(Context*)\<close>: a new object is linked into the bottom scope.\<close>

definition new_ContextObj :: "'a obj_data \<Rightarrow> 'a ctx \<Rightarrow> obj \<times> 'a ctx" where
  "new_ContextObj p C =
     (let x = ctx_fresh C in (x, addToChain 0 x (C\<lparr>ctx_objects := (ctx_objects C)(x := [(0, p)]), ctx_fresh := x + 1\<rparr>)))"

definition write_data :: "obj \<Rightarrow> ('a obj_data \<Rightarrow> 'a obj_data) \<Rightarrow> 'a ctx \<Rightarrow> 'a ctx" where
  "write_data x f C =
     C\<lparr>ctx_objects := (ctx_objects C)(x := (case ctx_objects C x of [] \<Rightarrow> [] | (k, p) # vs \<Rightarrow> (k, f p) # vs))\<rparr>"

text \<open>\<open>destroy\<close> unlinks an object from the scopes of all its versions, restoring it from version to version; after it the
  destructor frees the object, which is then no object of the context.\<close>

definition unlink :: "obj \<Rightarrow> nat \<Rightarrow> 'a ctx \<Rightarrow> 'a ctx" where
  "unlink x k C = C\<lparr>d_scopeList := (d_scopeList C)[k := removeAll x (d_scopeList C ! k)]\<rparr>"

lemma length_ctx_restored: "length (ctx_restored (v # w # vs)) = Suc (length vs)"
  by (cases v; cases w) simp

function ContextObj_destroy :: "obj \<Rightarrow> 'a ctx \<Rightarrow> 'a ctx" where
  "ContextObj_destroy x C =
     (case ctx_objects C x of
        [] \<Rightarrow> C
      | [(k, p)] \<Rightarrow> unlink x k C
      | (k, p) # v # vs \<Rightarrow> ContextObj_destroy x (restoreAndContinue x (unlink x k C)))"
  by pat_completeness auto

termination
  by (relation "measure (\<lambda>(x, C). length (ctx_objects C x))")
    (simp_all add: unlink_def restoreAndContinue_def length_ctx_restored)

declare ContextObj_destroy.simps [simp del]

definition delete_ContextObj :: "obj \<Rightarrow> 'a ctx \<Rightarrow> 'a ctx" where
  "delete_ContextObj x C = (let C = ContextObj_destroy x C in C\<lparr>ctx_objects := (ctx_objects C)(x := [])\<rparr>)"

section \<open>CDO and CDList\<close>

definition CDO_set :: "obj \<Rightarrow> 'a \<Rightarrow> 'a ctx \<Rightarrow> 'a ctx" where
  "CDO_set x v C = write_data x (\<lambda>p. case p of CDO w \<Rightarrow> CDO v | CDList l \<Rightarrow> CDList l) (makeCurrent x C)"

definition CDO_get :: "obj \<Rightarrow> 'a ctx \<Rightarrow> 'a option" where
  "CDO_get x C = (case ctx_objects C x of (k, CDO v) # vs \<Rightarrow> Some v | _ \<Rightarrow> None)"

text \<open>\<open>init\<close> is the default value \<open>T()\<close>.\<close>

definition new_CDO :: "'a \<Rightarrow> 'a \<Rightarrow> 'a ctx \<Rightarrow> obj \<times> 'a ctx" where
  "new_CDO init v C = (case new_ContextObj (CDO init) C of (x, C) \<Rightarrow> (x, CDO_set x v C))"

definition INITIAL_SIZE :: nat where
  "INITIAL_SIZE = 10"

definition GROWTH_FACTOR :: nat where
  "GROWTH_FACTOR = 2"

definition new_CDList :: "bool \<Rightarrow> 'a ctx \<Rightarrow> obj \<times> 'a ctx" where
  "new_CDList callDestructor C = new_ContextObj (CDList \<lparr>cl_list = [], cl_size = 0, cl_callDestructor = callDestructor\<rparr>) C"

definition CDList_grow :: "nat \<Rightarrow> 'a cdlist \<Rightarrow> 'a cdlist" where
  "CDList_grow max_size l =
     (let sizeAlloc = length (cl_list l); newSize = min (if sizeAlloc = 0 then INITIAL_SIZE else GROWTH_FACTOR * sizeAlloc) max_size
      in l\<lparr>cl_list := cl_list l @ replicate (newSize - sizeAlloc) None\<rparr>)"

definition append_element :: "nat \<Rightarrow> 'a \<Rightarrow> 'a cdlist \<Rightarrow> 'a cdlist" where
  "append_element max_size v l =
     (let l = (if cl_size l = length (cl_list l) then CDList_grow max_size l else l)
      in l\<lparr>cl_list := (cl_list l)[cl_size l := Some v], cl_size := cl_size l + 1\<rparr>)"

definition CDList_push_back :: "nat \<Rightarrow> obj \<Rightarrow> 'a \<Rightarrow> 'a ctx \<Rightarrow> 'a ctx" where
  "CDList_push_back max_size x v C =
     write_data x (\<lambda>p. case p of CDO w \<Rightarrow> CDO w | CDList l \<Rightarrow> CDList (append_element max_size v l)) (makeCurrent x C)"

definition cdlist_elements :: "'a cdlist \<Rightarrow> 'a option list" where
  "cdlist_elements l = take (cl_size l) (cl_list l)"

definition CDList_size :: "obj \<Rightarrow> 'a ctx \<Rightarrow> nat option" where
  "CDList_size x C = (case ctx_objects C x of (k, CDList l) # vs \<Rightarrow> Some (cl_size l) | _ \<Rightarrow> None)"

definition CDList_nth :: "obj \<Rightarrow> nat \<Rightarrow> 'a ctx \<Rightarrow> 'a option" where
  "CDList_nth x i C = (case ctx_objects C x of (k, CDList l) # vs \<Rightarrow> if i < length (cl_list l) then cl_list l ! i else None | _ \<Rightarrow> None)"

definition CDList_empty :: "obj \<Rightarrow> 'a ctx \<Rightarrow> bool option" where
  "CDList_empty x C = map_option (\<lambda>n. n = 0) (CDList_size x C)"

definition CDList_last :: "obj \<Rightarrow> 'a ctx \<Rightarrow> 'a option" where
  "CDList_last x C = (case CDList_size x C of Some n \<Rightarrow> CDList_nth x (n - 1) C | None \<Rightarrow> None)"

end
