(* ===== verification/Backtracking.thy ===== *)
theory Backtracking
  imports Prelude
begin

text \<open>
  The contract of state that is saved by \<open>push\<close> and restored by \<open>pop\<close>, and what follows from it for every component that keeps
  it: \<open>look s L\<close> is what the state holds for level \<open>L\<close>. A client may run any operations as long as it stays above a level; popping
  to that level brings back what the state held there.
\<close>

locale backtrackable =
  fixes inv :: "'s \<Rightarrow> bool" and level :: "'s \<Rightarrow> nat" and push :: "'s \<Rightarrow> 's" and pop :: "'s \<Rightarrow> 's" and look :: "'s \<Rightarrow> nat \<Rightarrow> 'v"
  assumes push_law: "inv s \<Longrightarrow> inv (push s) \<and> level (push s) = Suc (level s)"
    and push_look: "inv s \<Longrightarrow> L \<le> level s \<Longrightarrow> look (push s) L = look s L"
    and pop_law: "inv s \<Longrightarrow> 0 < level s \<Longrightarrow> inv (pop s) \<and> level (pop s) = level s - 1"
    and pop_look: "inv s \<Longrightarrow> L < level s \<Longrightarrow> look (pop s) L = look s L"
begin

lemma pops_law:
  "inv s \<Longrightarrow> n \<le> level s \<Longrightarrow> inv ((pop ^^ n) s) \<and> level ((pop ^^ n) s) = level s - n"
  by (induction n) (auto simp: pop_law)

lemma pops_look:
  "inv s \<Longrightarrow> n \<le> level s \<Longrightarrow> L + n \<le> level s \<Longrightarrow> look ((pop ^^ n) s) L = look s L"
proof (induction n)
  case (Suc n)
  then show ?case using pops_law [of s n] pop_look [of "(pop ^^ n) s" L] by simp
qed simp

end

text \<open>\<open>run_above step ok level n ops s\<close>: the operations are allowed one after the other and never leave the levels above \<open>n\<close>.\<close>

fun run_above :: "('op \<Rightarrow> 's \<Rightarrow> 's) \<Rightarrow> ('op \<Rightarrow> 's \<Rightarrow> bool) \<Rightarrow> ('s \<Rightarrow> nat) \<Rightarrow> nat \<Rightarrow> 'op list \<Rightarrow> 's \<Rightarrow> bool" where
  "run_above step ok level n [] s = (n < level s)"
| "run_above step ok level n (opn # ops) s = (n < level s \<and> ok opn s \<and> run_above step ok level n ops (step opn s))"

lemma run_above_level: "run_above step ok level n ops s \<Longrightarrow> n < level s"
  by (cases ops) simp_all

lemma run_above_mono:
  "run_above step ok level n ops s \<Longrightarrow> (\<And>opn s. opn \<in> set ops \<Longrightarrow> ok opn s \<Longrightarrow> ok' opn s) \<Longrightarrow> run_above step ok' level n ops s"
  by (induction ops arbitrary: s) auto

locale backtracking_client = backtrackable inv level push pop look
  for inv :: "'s \<Rightarrow> bool" and level :: "'s \<Rightarrow> nat" and push :: "'s \<Rightarrow> 's" and pop :: "'s \<Rightarrow> 's" and look :: "'s \<Rightarrow> nat \<Rightarrow> 'v" +
  fixes step :: "'op \<Rightarrow> 's \<Rightarrow> 's" and ok :: "'op \<Rightarrow> 's \<Rightarrow> bool"
  assumes step_law: "inv s \<Longrightarrow> ok opn s \<Longrightarrow> inv (step opn s)"
    and step_look: "inv s \<Longrightarrow> ok opn s \<Longrightarrow> L < level s \<Longrightarrow> L \<le> level (step opn s) \<Longrightarrow> look (step opn s) L = look s L"
begin

lemma run_look:
  "inv s \<Longrightarrow> run_above step ok level n ops s \<Longrightarrow>
     inv (fold step ops s) \<and> n < level (fold step ops s) \<and> (\<forall>L \<le> n. look (fold step ops s) L = look s L)"
proof (induction ops arbitrary: s)
  case (Cons opn ops)
  from Cons.prems(2) have r: "ok opn s" "n < level s" "run_above step ok level n ops (step opn s)" by simp_all
  from run_above_level [OF r(3)] have "look (step opn s) L = look s L" if "L \<le> n" for L
    using step_look [OF Cons.prems(1) r(1), of L] r(2) that by simp
  with Cons.IH [OF step_law [OF Cons.prems(1) r(1)] r(3)] show ?case by simp
qed simp

lemma run_undone:
  assumes "inv s" and "run_above step ok level (level s) ops (push s)"
  defines "t \<equiv> (pop ^^ (level (fold step ops (push s)) - level s)) (fold step ops (push s))"
  shows "inv t \<and> level t = level s \<and> (\<forall>L \<le> level s. look t L = look s L)"
proof -
  let ?r = "fold step ops (push s)"
  have r: "inv ?r" "level s < level ?r" "\<And>L. L \<le> level s \<Longrightarrow> look ?r L = look s L"
    using run_look [OF conjunct1 [OF push_law [OF assms(1)]] assms(2)] push_look [OF assms(1)] by simp_all
  have "look t L = look s L" if "L \<le> level s" for L
    using pops_look [OF r(1), of "level ?r - level s" L] r(2) r(3) [OF that] that by (simp add: t_def)
  with pops_law [OF r(1), of "level ?r - level s"] r(2) show ?thesis by (simp add: t_def)
qed

end

end
