(* ===== verification/Context_Correctness.thy ===== *)
theory Context_Correctness
  imports Context_Objects Backtracking
begin

text \<open>
  Contexts implement a stack of stores. The abstract state of a context has one store per level, which gives the value of every object
  at that level; \<open>push\<close> repeats the top store, \<open>pop\<close> drops it, and a change of an object changes the top store only. The
  invariant \<open>ctx_inv\<close> says that the chains of the scopes are exactly the objects with a version there and that every saved version
  can be restored; each operation keeps it, and refines the abstract operation.
\<close>

section \<open>The versions of one object\<close>

datatype 'a obj_value = CDO_value 'a | CDList_value "'a option list"

definition data_value :: "'a obj_data \<Rightarrow> 'a obj_value" where
  "data_value p = (case p of CDO v \<Rightarrow> CDO_value v | CDList l \<Rightarrow> CDList_value (cdlist_elements l))"

definition data_ok :: "'a obj_data \<Rightarrow> bool" where
  "data_ok p = (case p of CDO v \<Rightarrow> True | CDList l \<Rightarrow> cl_size l \<le> length (cl_list l) \<and> None \<notin> set (cdlist_elements l))"

definition restorable :: "'a obj_data \<Rightarrow> 'a obj_data \<Rightarrow> bool" where
  "restorable p s =
     (case (p, s) of (CDO v, CDO w) \<Rightarrow> True | (CDList l, CDList m) \<Rightarrow> cl_size m \<le> cl_size l | _ \<Rightarrow> False)"

text \<open>\<open>extends_data p q\<close>: what \<open>p\<close> can be restored to, \<open>q\<close> can be restored to as well.\<close>

definition extends_data :: "'a obj_data \<Rightarrow> 'a obj_data \<Rightarrow> bool" where
  "extends_data p q =
     (case (p, q) of
        (CDO v, CDO w) \<Rightarrow> True
      | (CDList l, CDList m) \<Rightarrow> cl_size l \<le> cl_size m \<and> take (cl_size l) (cl_list m) = cdlist_elements l
      | _ \<Rightarrow> False)"

lemmas data_defs = data_value_def data_ok_def restorable_def extends_data_def restore_data_def save_data_def

function vers_ok :: "'a version list \<Rightarrow> bool" where
  "vers_ok [] = True"
| "vers_ok [(k, p)] = (k = 0 \<and> data_ok p)"
| "vers_ok ((k, p) # (j, s) # vs) = (j < k \<and> data_ok p \<and> restorable p s \<and> vers_ok ((j, restore_data p s) # vs))"
  by pat_completeness auto

termination
  by (relation "measure length") simp_all

function value_at :: "nat \<Rightarrow> 'a version list \<Rightarrow> 'a obj_value option" where
  "value_at L [] = None"
| "value_at L [(k, p)] = Some (data_value p)"
| "value_at L ((k, p) # (j, s) # vs) = (if k \<le> L then Some (data_value p) else value_at L ((j, restore_data p s) # vs))"
  by pat_completeness auto

termination
  by (relation "measure (\<lambda>(L, vs). length vs)") simp_all

lemma truncateList_destroy_keeps:
  "length (truncateList_destroy m n xs) = length xs \<and> take m (truncateList_destroy m n xs) = take m xs"
proof (induction m n xs rule: truncateList_destroy.induct)
  case (1 m n xs)
  then show ?case by (subst (1 2) truncateList_destroy.simps) (simp del: truncateList_destroy.simps)
qed

lemma truncateList_facts [simp]:
  "cl_size (truncateList m l) = m"
  "length (cl_list (truncateList m l)) = length (cl_list l)"
  "cdlist_elements (truncateList m l) = take m (cl_list l)"
  by (simp_all add: truncateList_def cdlist_elements_def truncateList_destroy_keeps)

lemma truncateList_same: "truncateList (cl_size l) l = l"
  by (simp add: truncateList_def truncateList_destroy.simps)

lemma restore_save: "restore_data p (save_data p) = p"
  by (cases p) (simp_all add: data_defs truncateList_same)

lemma restorable_save: "restorable p (save_data p)"
  by (cases p) (simp_all add: data_defs)

lemma elements_mono: "x \<in> set (take m (cl_list l)) \<Longrightarrow> m \<le> cl_size l \<Longrightarrow> x \<in> set (cdlist_elements l)"
  unfolding cdlist_elements_def by (erule (1) subsetD [OF set_take_subset_set_take, rotated])

lemma restore_ok: "data_ok p \<Longrightarrow> restorable p s \<Longrightarrow> data_ok (restore_data p s)"
  by (cases p; cases s) (auto simp: data_defs dest: elements_mono)

lemma take_eq_mono: "take n xs = take n ys \<Longrightarrow> k \<le> n \<Longrightarrow> take k xs = take k ys"
  by (metis min.absorb1 take_take)

lemma extends_restore:
  assumes "extends_data p q" and "restorable p s"
  shows "restorable q s \<and> data_value (restore_data q s) = data_value (restore_data p s)
    \<and> extends_data (restore_data p s) (restore_data q s)"
proof (cases p)
  case (CDList l)
  from CDList assms obtain m t where q: "q = CDList m" and s: "s = CDList t" by (cases q; cases s) (simp_all add: data_defs)
  from assms have le: "cl_size l \<le> cl_size m" "take (cl_size l) (cl_list m) = take (cl_size l) (cl_list l)" "cl_size t \<le> cl_size l"
    by (simp_all add: CDList q s data_defs cdlist_elements_def)
  from take_eq_mono [OF le(2,3)]
  have "take (cl_size t) (cl_list m) = take (cl_size t) (cl_list l)" .
  moreover have "take (cl_size t) (cl_list (truncateList (cl_size t) m)) = cdlist_elements (truncateList (cl_size t) m)"
    by (simp only: cdlist_elements_def truncateList_facts(1))
  ultimately show ?thesis using le by (simp add: CDList q s data_defs)
qed (use assms in \<open>cases q; cases s; simp add: data_defs\<close>)

lemma vers_ok_data: "vers_ok ((k, p) # vs) \<Longrightarrow> data_ok p"
  by (cases vs) auto

lemma extends_vers:
  assumes "vers_ok ((k, p) # vs)" and "extends_data p q" and "data_ok q"
  shows "vers_ok ((k, q) # vs) \<and> (\<forall>L < k. value_at L ((k, q) # vs) = value_at L ((k, p) # vs))"
  using assms
proof (induction vs arbitrary: k p q)
  case (Cons v vs)
  obtain j s where v: "v = (j, s)" by force
  from Cons.prems have 1: "j < k" "restorable p s" "vers_ok ((j, restore_data p s) # vs)" by (simp_all add: v)
  note r = extends_restore [OF Cons.prems(2) 1(2)]
  from Cons.IH [OF 1(3) _ restore_ok [of q s]] r Cons.prems(3)
  have IH: "vers_ok ((j, restore_data q s) # vs)"
    "\<And>L. L < j \<Longrightarrow> value_at L ((j, restore_data q s) # vs) = value_at L ((j, restore_data p s) # vs)" by auto
  have "value_at L ((j, restore_data q s) # vs) = value_at L ((j, restore_data p s) # vs)" if "L < k" for L
  proof (cases "L < j")
    case False
    with r show ?thesis by (cases vs) auto
  qed (rule IH)
  with 1 r IH(1) Cons.prems(3) show ?case by (simp add: v)
qed simp

lemma value_at_head [simp]: "k \<le> L \<Longrightarrow> value_at L ((k, p) # vs) = Some (data_value p)"
  by (cases vs) auto

lemma vers_ok_scopes: "vers_ok ((k, p) # vs) \<Longrightarrow> j \<in> fst ` set vs \<Longrightarrow> j < k"
proof (induction vs arbitrary: k p)
  case (Cons v vs)
  obtain i s where v: "v = (i, s)" by force
  with Cons.prems Cons.IH [of i "restore_data p s"] have "j = i \<or> j < i" "i < k" by auto
  then show ?case by auto
qed simp

lemma vers_ok_restored: "vers_ok vs \<Longrightarrow> vers_ok (ctx_restored vs)"
  by (cases vs rule: ctx_restored.cases) auto

text \<open>An object with a version in the scope that is popped has a saved version below.\<close>

lemma vers_ok_popped:
  assumes "vers_ok vs" and "n \<in> fst ` set vs" and "\<And>k. k \<in> fst ` set vs \<Longrightarrow> k \<le> n" and "0 < n"
  obtains p j s ws where "vs = (n, p) # (j, s) # ws"
proof -
  from assms(2) obtain m p ws where vs: "vs = (m, p) # ws" by (cases vs) auto
  have "m = n"
  proof (rule ccontr)
    assume "m \<noteq> n"
    with assms(2) vs have "n \<in> fst ` set ws" by auto
    with vers_ok_scopes [of m p ws n] assms(1) vs have "n < m" by simp
    moreover have "m \<le> n" by (rule assms(3)) (simp add: vs)
    ultimately show False by simp
  qed
  with assms(1,4) vs that show ?thesis by (cases ws) auto
qed

lemma vers_ok_saved: "vers_ok ((k, p) # vs) \<Longrightarrow> k < n \<Longrightarrow> vers_ok ((n, p) # (k, save_data p) # vs)"
  by (simp add: restore_save restorable_save vers_ok_data)

lemma value_at_saved: "k < n \<Longrightarrow> value_at L ((n, p) # (k, save_data p) # vs) = value_at L ((k, p) # vs)"
  by (cases "n \<le> L") (simp_all add: restore_save)

section \<open>The invariant and the stores of a context\<close>

definition ctx_inv :: "'a ctx \<Rightarrow> bool" where
  "ctx_inv C \<longleftrightarrow>
     d_scopeList C \<noteq> [] \<and> (\<forall>chain \<in> set (d_scopeList C). distinct chain)
   \<and> (\<forall>x. vers_ok (ctx_objects C x))
   \<and> (\<forall>x k. k \<in> fst ` set (ctx_objects C x) \<longleftrightarrow> k < length (d_scopeList C) \<and> x \<in> set (d_scopeList C ! k))
   \<and> (\<forall>x \<ge> ctx_fresh C. ctx_objects C x = [])"

type_synonym 'a store = "obj \<Rightarrow> 'a obj_value option"

definition store_at :: "'a ctx \<Rightarrow> nat \<Rightarrow> 'a store" where
  "store_at C L = (\<lambda>x. value_at L (ctx_objects C x))"

definition stores :: "'a ctx \<Rightarrow> 'a store list" where
  "stores C = map (store_at C) [0..<length (d_scopeList C)]"

definition spec_push :: "'a store list \<Rightarrow> 'a store list" where
  "spec_push S = S @ [last S]"

definition spec_pop :: "'a store list \<Rightarrow> 'a store list" where
  "spec_pop S = butlast S"

definition spec_change :: "obj \<Rightarrow> ('a obj_value \<Rightarrow> 'a obj_value) \<Rightarrow> 'a store list \<Rightarrow> 'a store list" where
  "spec_change x g S = butlast S @ [(last S)(x := map_option g (last S x))]"

definition spec_new :: "obj \<Rightarrow> 'a obj_value \<Rightarrow> 'a store list \<Rightarrow> 'a store list" where
  "spec_new x d S = map (\<lambda>st. st(x \<mapsto> d)) S"

definition spec_delete :: "obj \<Rightarrow> 'a store list \<Rightarrow> 'a store list" where
  "spec_delete x S = map (\<lambda>st. st(x := None)) S"

lemma ctx_invD:
  assumes "ctx_inv C"
  shows "d_scopeList C \<noteq> []" and "vers_ok (ctx_objects C x)"
    and "k < length (d_scopeList C) \<Longrightarrow> distinct (d_scopeList C ! k)"
    and "k \<in> fst ` set (ctx_objects C x) \<longleftrightarrow> k < length (d_scopeList C) \<and> x \<in> set (d_scopeList C ! k)"
    and "ctx_fresh C \<le> x \<Longrightarrow> ctx_objects C x = []"
    and "length (d_scopeList C) = Suc (getLevel C)"
  using assms by (auto simp: ctx_inv_def getLevel_def)

lemma ctx_scope_le: "ctx_inv C \<Longrightarrow> k \<in> fst ` set (ctx_objects C x) \<Longrightarrow> k \<le> getLevel C"
  using ctx_invD(4) [of C k x] ctx_invD(6) [of C] by simp

lemma new_Context_inv: "ctx_inv new_Context"
  by (auto simp: ctx_inv_def new_Context_def)

section \<open>Push and pop\<close>

lemma push_inv:
  assumes "ctx_inv C"
  shows "ctx_inv (context_push C)"
proof -
  note I = ctx_invD [OF assms]
  have "k \<in> fst ` set (ctx_objects C x) \<longleftrightarrow> k < Suc (length (d_scopeList C)) \<and> x \<in> set ((d_scopeList C @ [[]]) ! k)" for x k
    using I(4) [of k x] by (cases "k < length (d_scopeList C)") (auto simp: nth_append less_Suc_eq)
  with assms show ?thesis by (simp add: ctx_inv_def context_push_def)
qed

lemma store_push: "ctx_inv C \<Longrightarrow> getLevel C \<le> L \<Longrightarrow> store_at C L = store_at C (getLevel C)"
proof
  fix x
  assume "ctx_inv C" and "getLevel C \<le> L"
  then show "store_at C L x = store_at C (getLevel C) x"
    using ctx_scope_le [of C "fst (hd (ctx_objects C x))" x]
    by (cases "ctx_objects C x") (auto simp: store_at_def)
qed

lemma stores_push: "ctx_inv C \<Longrightarrow> stores (context_push C) = spec_push (stores C)"
  using store_push [of C "Suc (getLevel C)"] ctx_invD(6) [of C]
  by (simp add: stores_def spec_push_def context_push_def store_at_def)

lemma fold_restore_objects:
  "distinct xs \<Longrightarrow> ctx_objects (fold restoreAndContinue xs C)
     = (\<lambda>x. if x \<in> set xs then ctx_restored (ctx_objects C x) else ctx_objects C x)"
proof (induction xs arbitrary: C)
  case (Cons y xs)
  then show ?case by (auto simp: restoreAndContinue_def fun_eq_iff)
qed simp

lemma fold_restore_fresh: "ctx_fresh (fold restoreAndContinue xs C) = ctx_fresh C"
  by (induction xs arbitrary: C) (simp_all add: restoreAndContinue_def)

lemma pop_objects:
  assumes "ctx_inv C"
  shows "ctx_objects (context_pop C) x = (if x \<in> set (last (d_scopeList C)) then ctx_restored (ctx_objects C x) else ctx_objects C x)"
    and "d_scopeList (context_pop C) = butlast (d_scopeList C)" and "ctx_fresh (context_pop C) = ctx_fresh C"
proof -
  have "distinct (last (d_scopeList C))" using assms by (simp add: ctx_inv_def)
  then show "ctx_objects (context_pop C) x = (if x \<in> set (last (d_scopeList C)) then ctx_restored (ctx_objects C x) else ctx_objects C x)"
    by (simp add: context_pop_def contextNotifyPop_def delete_Scope_def fold_restore_objects Let_def)
qed (simp_all add: context_pop_def contextNotifyPop_def delete_Scope_def fold_restore_scopes fold_restore_fresh Let_def)

lemma pop_versions:
  assumes "ctx_inv C" and "0 < getLevel C"
  shows "fst ` set (ctx_objects (context_pop C) x) = fst ` set (ctx_objects C x) - {getLevel C}"
    and "L < getLevel C \<Longrightarrow> value_at L (ctx_objects (context_pop C) x) = value_at L (ctx_objects C x)"
proof -
  note I = ctx_invD [OF assms(1)]
  have last: "last (d_scopeList C) = d_scopeList C ! getLevel C" by (simp add: last_conv_nth I(1) getLevel_def)
  have "fst ` set (ctx_objects (context_pop C) x) = fst ` set (ctx_objects C x) - {getLevel C}
    \<and> (L < getLevel C \<longrightarrow> value_at L (ctx_objects (context_pop C) x) = value_at L (ctx_objects C x))" for L
  proof (cases "x \<in> set (last (d_scopeList C))")
    case True
    then have "getLevel C \<in> fst ` set (ctx_objects C x)" by (simp add: I(4,6) last)
    with assms obtain p j s ws where v: "ctx_objects C x = (getLevel C, p) # (j, s) # ws"
      by (metis vers_ok_popped [OF I(2)] ctx_scope_le)
    have "j < getLevel C" "getLevel C \<notin> fst ` set ws"
      using vers_ok_scopes [of "getLevel C" p "(j, s) # ws"] I(2) [of x] by (auto simp: v)
    with True show ?thesis by (simp add: pop_objects [OF assms(1)] v insert_Diff_if)
  next
    case False
    then have "getLevel C \<notin> fst ` set (ctx_objects C x)" by (simp add: I(4,6) last)
    with False show ?thesis by (simp add: pop_objects [OF assms(1)])
  qed
  then show "fst ` set (ctx_objects (context_pop C) x) = fst ` set (ctx_objects C x) - {getLevel C}"
    and "L < getLevel C \<Longrightarrow> value_at L (ctx_objects (context_pop C) x) = value_at L (ctx_objects C x)" by blast+
qed

lemma pop_inv:
  assumes "ctx_inv C" and "0 < getLevel C"
  shows "ctx_inv (context_pop C)"
proof -
  note I = ctx_invD [OF assms(1)] and P = pop_objects [OF assms(1)]
  have "vers_ok (ctx_objects (context_pop C) x)" for x
    using I(2) [of x] by (simp add: P vers_ok_restored)
  moreover have "k \<in> fst ` set (ctx_objects (context_pop C) x)
      \<longleftrightarrow> k < length (butlast (d_scopeList C)) \<and> x \<in> set (butlast (d_scopeList C) ! k)" for x k
    by (auto simp: pop_versions(1) [OF assms] I(4,6) nth_butlast)
  moreover have "ctx_objects (context_pop C) x = []" if "ctx_fresh C \<le> x" for x
    using I(5) [OF that] by (simp add: P)
  moreover have "butlast (d_scopeList C) \<noteq> []" using assms(2) I(6) by (cases "d_scopeList C") auto
  ultimately show ?thesis using assms(1) by (auto simp: ctx_inv_def P dest: in_set_butlastD)
qed

lemma stores_pop:
  assumes "ctx_inv C" and "0 < getLevel C"
  shows "stores (context_pop C) = spec_pop (stores C)"
proof -
  have "store_at (context_pop C) L = store_at C L" if "L < getLevel C" for L
    using pop_versions(2) [OF assms that] by (simp add: store_at_def)
  moreover have "stores C = map (store_at C) [0..<getLevel C] @ [store_at C (getLevel C)]"
    using ctx_invD(6) [OF assms(1)] by (simp add: stores_def)
  moreover have "length (d_scopeList (context_pop C)) = getLevel C"
    using ctx_invD(6) [OF assms(1)] by (simp add: pop_objects [OF assms(1)])
  ultimately show ?thesis by (simp add: stores_def spec_pop_def)
qed

section \<open>Changes of an object\<close>

lemma update_facts:
  assumes "ctx_objects C x = (k, p) # vs"
  shows "ctx_objects (ContextObj_update x C) = (ctx_objects C)(x := (getLevel C, p) # (k, save_data p) # vs)"
    and "d_scopeList (ContextObj_update x C) = (d_scopeList C)[getLevel C := x # d_scopeList C ! getLevel C]"
    and "ctx_fresh (ContextObj_update x C) = ctx_fresh C"
  using assms by (simp_all add: ContextObj_update_def addToChain_def)

lemma update_inv:
  assumes "ctx_inv C" and "ctx_objects C x = (k, p) # vs" and "k \<noteq> getLevel C"
  shows "ctx_inv (ContextObj_update x C)"
proof -
  note I = ctx_invD [OF assms(1)] and U = update_facts [OF assms(2)]
  have k: "k < getLevel C" using ctx_scope_le [OF assms(1), of k x] assms(2,3) by simp
  have "\<And>j. j \<in> fst ` set vs \<Longrightarrow> j < getLevel C" using vers_ok_scopes [of k p vs] I(2) [of x] k by (fastforce simp: assms(2))
  then have "getLevel C \<notin> fst ` set (ctx_objects C x)" using k by (auto simp: assms(2))
  then have new: "x \<notin> set (d_scopeList C ! getLevel C)" by (simp add: I(4,6))
  have "vers_ok (ctx_objects (ContextObj_update x C) y)" for y
    using I(2) [of y] vers_ok_saved [OF _ k, of p vs] I(2) [of x] by (simp add: U assms(2) del: vers_ok.simps)
  moreover have "j \<in> fst ` set (ctx_objects (ContextObj_update x C) y)
      \<longleftrightarrow> j < length (d_scopeList C) \<and> y \<in> set ((d_scopeList C)[getLevel C := x # d_scopeList C ! getLevel C] ! j)" for y j
    using I(4) [of j y] by (cases "j = getLevel C") (auto simp: U assms(2) I(6) nth_list_update)
  moreover have "distinct chain" if "chain \<in> set ((d_scopeList C)[getLevel C := x # d_scopeList C ! getLevel C])" for chain
    using that assms(1) I(3) [of "getLevel C"] I(6) new set_update_subset_insert by (fastforce simp: ctx_inv_def)
  moreover have "x < ctx_fresh C" using I(5) [of x] assms(2) by (auto simp: not_le [symmetric])
  ultimately show ?thesis using I(1,5) by (auto simp: ctx_inv_def U)
qed

lemma makeCurrent_inv: "ctx_inv C \<Longrightarrow> ctx_inv (makeCurrent x C)"
  by (auto simp: makeCurrent_def isCurrent_def split: list.splits intro: update_inv)

lemma makeCurrent_facts:
  assumes "ctx_inv C"
  shows "getLevel (makeCurrent x C) = getLevel C" and "ctx_fresh (makeCurrent x C) = ctx_fresh C"
    and "store_at (makeCurrent x C) = store_at C"
    and "case ctx_objects C x of [] \<Rightarrow> ctx_objects (makeCurrent x C) x = []
      | (k, p) # vs \<Rightarrow> \<exists>ws. ctx_objects (makeCurrent x C) x = (getLevel C, p) # ws"
proof -
  have "getLevel (makeCurrent x C) = getLevel C \<and> ctx_fresh (makeCurrent x C) = ctx_fresh C
    \<and> store_at (makeCurrent x C) = store_at C
    \<and> (case ctx_objects C x of [] \<Rightarrow> ctx_objects (makeCurrent x C) x = []
      | (k, p) # vs \<Rightarrow> \<exists>ws. ctx_objects (makeCurrent x C) x = (getLevel C, p) # ws)"
  proof (cases "isCurrent x C")
    case False
    then obtain k p vs where v: "ctx_objects C x = (k, p) # vs" "k \<noteq> getLevel C" by (auto simp: isCurrent_def split: list.splits)
    then have "k < getLevel C" using ctx_scope_le [OF assms, of k x] by simp
    with False v show ?thesis
      by (simp add: makeCurrent_def update_facts [OF v(1)] getLevel_def store_at_def fun_eq_iff value_at_saved del: value_at.simps)
  qed (auto simp: makeCurrent_def isCurrent_def split: list.splits)
  then show "getLevel (makeCurrent x C) = getLevel C" and "ctx_fresh (makeCurrent x C) = ctx_fresh C"
    and "store_at (makeCurrent x C) = store_at C"
    and "case ctx_objects C x of [] \<Rightarrow> ctx_objects (makeCurrent x C) x = []
      | (k, p) # vs \<Rightarrow> \<exists>ws. ctx_objects (makeCurrent x C) x = (getLevel C, p) # ws" by blast+
qed

text \<open>A change of the data of a current object that keeps what the older versions need.\<close>

definition good_change :: "('a obj_data \<Rightarrow> 'a obj_data) \<Rightarrow> ('a obj_value \<Rightarrow> 'a obj_value) \<Rightarrow> 'a obj_data \<Rightarrow> bool" where
  "good_change f g p \<longleftrightarrow> data_ok (f p) \<and> extends_data p (f p) \<and> data_value (f p) = g (data_value p)"

lemma write_inv:
  assumes "ctx_inv C" and "\<And>k p vs. ctx_objects C x = (k, p) # vs \<Longrightarrow> good_change f g p"
  shows "ctx_inv (write_data x f C)"
proof -
  note I = ctx_invD [OF assms(1)]
  have "vers_ok (ctx_objects (write_data x f C) y)" for y
  proof (cases "y = x \<and> ctx_objects C x \<noteq> []")
    case True
    then obtain k p vs where v: "ctx_objects C x = (k, p) # vs" by (metis list.exhaust prod.exhaust)
    with extends_vers [of k p vs "f p"] I(2) [of x] assms(2) show ?thesis
      using True by (simp add: write_data_def good_change_def del: vers_ok.simps)
  qed (use I(2) [of y] in \<open>auto simp: write_data_def\<close>)
  moreover have "fst ` set (ctx_objects (write_data x f C) y) = fst ` set (ctx_objects C y)" for y
    by (cases "ctx_objects C x") (simp_all add: write_data_def split_beta)
  moreover have "ctx_objects (write_data x f C) y = []" if "ctx_fresh C \<le> y" for y
    using I(5) [OF that] by (auto simp: write_data_def)
  ultimately show ?thesis using assms(1) by (simp add: ctx_inv_def) (simp add: write_data_def)
qed

lemma stores_write:
  assumes "ctx_inv C" and "isCurrent x C" and "\<And>k p vs. ctx_objects C x = (k, p) # vs \<Longrightarrow> good_change f g p"
  shows "stores (write_data x f C) = spec_change x g (stores C)"
proof -
  note I = ctx_invD [OF assms(1)]
  have below: "store_at (write_data x f C) L = store_at C L" if "L < getLevel C" for L
  proof (cases "ctx_objects C x")
    case (Cons v vs)
    with assms(2) obtain p where v: "ctx_objects C x = (getLevel C, p) # vs" by (cases v) (simp add: isCurrent_def)
    with extends_vers [of "getLevel C" p vs "f p"] I(2) [of x] assms(3) that show ?thesis
      by (simp add: write_data_def good_change_def store_at_def fun_eq_iff del: value_at.simps vers_ok.simps)
  qed (simp add: write_data_def store_at_def fun_eq_iff)
  have here: "store_at (write_data x f C) (getLevel C) = (store_at C (getLevel C))(x := map_option g (store_at C (getLevel C) x))"
  proof (cases "ctx_objects C x")
    case (Cons v vs)
    with assms(2) obtain p where v: "ctx_objects C x = (getLevel C, p) # vs" by (cases v) (simp add: isCurrent_def)
    with assms(3) show ?thesis by (simp add: write_data_def good_change_def store_at_def fun_eq_iff)
  qed (simp add: write_data_def store_at_def fun_eq_iff)
  have split: "stores D = map (store_at D) [0..<getLevel C] @ [store_at D (getLevel C)]" if "d_scopeList D = d_scopeList C" for D
    using I(6) that by (simp add: stores_def)
  have same: "d_scopeList (write_data x f C) = d_scopeList C" by (simp add: write_data_def)
  show ?thesis using below here by (simp add: spec_change_def split [OF same] split [OF refl])
qed

lemma change_refines:
  assumes "ctx_inv C" and "\<And>k p vs. ctx_objects C x = (k, p) # vs \<Longrightarrow> good_change f g p"
  shows "ctx_inv (write_data x f (makeCurrent x C)) \<and> stores (write_data x f (makeCurrent x C)) = spec_change x g (stores C)"
proof -
  note M = makeCurrent_inv [OF assms(1), of x] and F = makeCurrent_facts [OF assms(1), of x]
  have "good_change f g p" if "ctx_objects (makeCurrent x C) x = (k, p) # vs" for k p vs
    using F(4) that assms(2) by (auto split: list.splits)
  moreover have "isCurrent x (makeCurrent x C)"
    using F(1,4) by (auto simp: isCurrent_def split: list.splits)
  moreover have "stores (makeCurrent x C) = stores C"
    using ctx_invD(6) [OF M] ctx_invD(6) [OF assms(1)] F(1,3) by (simp add: stores_def)
  ultimately show ?thesis using write_inv [OF M] stores_write [OF M] by metis
qed

lemma current_data_ok: "ctx_inv C \<Longrightarrow> ctx_objects C x = (k, p) # vs \<Longrightarrow> data_ok p"
  by (metis ctx_invD(2) vers_ok_data)

definition spec_set :: "'a \<Rightarrow> 'a obj_value \<Rightarrow> 'a obj_value" where
  "spec_set v d = (case d of CDO_value w \<Rightarrow> CDO_value v | CDList_value vs \<Rightarrow> CDList_value vs)"

definition spec_append :: "'a \<Rightarrow> 'a obj_value \<Rightarrow> 'a obj_value" where
  "spec_append v d = (case d of CDO_value w \<Rightarrow> CDO_value w | CDList_value vs \<Rightarrow> CDList_value (vs @ [Some v]))"

lemma set_refines:
  assumes "ctx_inv C"
  shows "ctx_inv (CDO_set x v C) \<and> stores (CDO_set x v C) = spec_change x (spec_set v) (stores C)"
  unfolding CDO_set_def
proof (rule change_refines [OF assms])
  fix k p vs
  assume "ctx_objects C x = (k, p) # vs"
  from current_data_ok [OF assms this]
  show "good_change (\<lambda>p. case p of CDO w \<Rightarrow> CDO v | CDList l \<Rightarrow> CDList l) (spec_set v) p"
    by (cases p) (simp_all add: good_change_def data_defs spec_set_def cdlist_elements_def)
qed

lemma append_element_facts:
  assumes "cl_size l \<le> length (cl_list l)" and "cl_size l < max_size"
  shows "cl_size (append_element max_size v l) = Suc (cl_size l)"
    and "cl_size l < length (cl_list (append_element max_size v l))"
    and "take (cl_size l) (cl_list (append_element max_size v l)) = cdlist_elements l"
    and "cdlist_elements (append_element max_size v l) = cdlist_elements l @ [Some v]"
  using assms
  by (auto simp: append_element_def CDList_grow_def Let_def INITIAL_SIZE_def GROWTH_FACTOR_def cdlist_elements_def
      take_Suc_conv_app_nth)

definition has_room :: "nat \<Rightarrow> obj \<Rightarrow> 'a ctx \<Rightarrow> bool" where
  "has_room max_size x C = (case ctx_objects C x of (k, CDList l) # vs \<Rightarrow> cl_size l < max_size | _ \<Rightarrow> True)"

lemma push_back_refines:
  assumes "ctx_inv C" and "has_room max_size x C"
  shows "ctx_inv (CDList_push_back max_size x v C)
    \<and> stores (CDList_push_back max_size x v C) = spec_change x (spec_append v) (stores C)"
  unfolding CDList_push_back_def
proof (rule change_refines [OF assms(1)])
  fix k p vs
  assume v: "ctx_objects C x = (k, p) # vs"
  show "good_change (\<lambda>p. case p of CDO w \<Rightarrow> CDO w | CDList l \<Rightarrow> CDList (append_element max_size v l)) (spec_append v) p"
  proof (cases p)
    case (CDList l)
    with current_data_ok [OF assms(1) v] assms(2) v append_element_facts [of l max_size v] show ?thesis
      by (simp add: good_change_def data_defs spec_append_def has_room_def)
  qed (simp add: good_change_def data_defs spec_append_def)
qed

section \<open>Creation and destruction\<close>

lemma new_refines:
  assumes "ctx_inv C" and "data_ok p" and "new_ContextObj p C = (x, D)"
  shows "x = ctx_fresh C \<and> ctx_inv D \<and> stores D = spec_new x (data_value p) (stores C)
    \<and> ctx_fresh D = Suc x \<and> getLevel D = getLevel C"
proof -
  note I = ctx_invD [OF assms(1)]
  from assms(3) have x: "x = ctx_fresh C"
    and D: "D = addToChain 0 x (C\<lparr>ctx_objects := (ctx_objects C)(x := [(0, p)]), ctx_fresh := x + 1\<rparr>)"
    by (auto simp: new_ContextObj_def Let_def)
  then have sD: "d_scopeList D = (d_scopeList C)[0 := x # d_scopeList C ! 0]" and oD: "ctx_objects D = (ctx_objects C)(x := [(0, p)])"
    and fD: "ctx_fresh D = Suc x" by (simp_all add: addToChain_def)
  have none: "k < length (d_scopeList C) \<Longrightarrow> x \<notin> set (d_scopeList C ! k)" for k
    using I(4) [of k x] I(5) [of x] by (simp add: x)
  have "k \<in> fst ` set (ctx_objects D y) \<longleftrightarrow> k < length (d_scopeList D) \<and> y \<in> set (d_scopeList D ! k)" for y k
    using I(4) [of k y] I(1) none [of k] by (cases "k = 0") (auto simp: sD oD)
  moreover have "distinct chain" if "chain \<in> set (d_scopeList D)" for chain
    using that assms(1) I(1) I(3) [of 0] none [of 0] set_update_subset_insert by (fastforce simp: ctx_inv_def sD)
  ultimately have "ctx_inv D" using I(1,2,5) assms(2) by (simp add: ctx_inv_def) (simp add: sD oD fD x)
  moreover have "store_at D L = (store_at C L)(x \<mapsto> data_value p)" for L by (simp add: store_at_def oD fun_eq_iff)
  ultimately show ?thesis by (simp add: x fD stores_def spec_new_def sD getLevel_def)
qed

lemma unlink_facts:
  "ctx_objects (unlink x k C) = ctx_objects C" "ctx_fresh (unlink x k C) = ctx_fresh C"
  "length (d_scopeList (unlink x k C)) = length (d_scopeList C)"
  "k < length (d_scopeList C) \<Longrightarrow>
     d_scopeList (unlink x k C) ! j = (if j = k then removeAll x (d_scopeList C ! k) else d_scopeList C ! j)"
  by (auto simp: unlink_def nth_list_update)

text \<open>Replacing the versions of an object by others without the scope it is unlinked from.\<close>

lemma unlink_inv:
  assumes "ctx_inv C" and "k \<in> fst ` set (ctx_objects C x)" and "vers_ok ws" and "fst ` set ws = fst ` set (ctx_objects C x) - {k}"
  shows "ctx_inv ((unlink x k C)\<lparr>ctx_objects := (ctx_objects C)(x := ws)\<rparr>)"
proof -
  note I = ctx_invD [OF assms(1)]
  have k: "k < length (d_scopeList C)" using assms(2) I(4) by simp
  note U = unlink_facts(4) [OF k, of x]
  have "j \<in> fst ` set (((ctx_objects C)(x := ws)) y)
      \<longleftrightarrow> j < length (d_scopeList C) \<and> y \<in> set (d_scopeList (unlink x k C) ! j)" for y j
    using I(4) [of j y] k by (auto simp: U assms(4))
  moreover have "distinct (d_scopeList (unlink x k C) ! j)" if "j < length (d_scopeList C)" for j
    using that I(3) [of j] I(3) [OF k] by (simp add: U distinct_removeAll)
  moreover have "ctx_objects C x \<noteq> []" using assms(2) by auto
  ultimately show ?thesis using I(1,2,5) assms(3) unlink_facts(3) [of x k C]
    by (fastforce simp: ctx_inv_def unlink_facts(1,2) all_set_conv_all_nth)
qed

lemma destroy_refines:
  "ctx_inv C \<Longrightarrow> ctx_inv (delete_ContextObj x C) \<and> ctx_objects (delete_ContextObj x C) = (ctx_objects C)(x := [])
     \<and> ctx_fresh (delete_ContextObj x C) = ctx_fresh C \<and> getLevel (delete_ContextObj x C) = getLevel C"
proof (induction x C rule: ContextObj_destroy.induct)
  case (1 x C)
  note IH = "1.IH" and inv = "1.prems"
  consider (nil) "ctx_objects C x = []" | (one) k p where "ctx_objects C x = [(k, p)]"
    | (more) k p j s vs where "ctx_objects C x = (k, p) # (j, s) # vs" by (metis list.exhaust prod.exhaust)
  then show ?case
  proof cases
    case nil
    with inv show ?thesis by (simp add: delete_ContextObj_def ContextObj_destroy.simps [of x C] fun_upd_idem)
  next
    case one
    with unlink_inv [OF inv, of k x "[]"] show ?thesis
      by (simp add: delete_ContextObj_def ContextObj_destroy.simps [of x C] Let_def unlink_facts(1-3) getLevel_def)
  next
    case more
    let ?D = "restoreAndContinue x (unlink x k C)"
    have ok: "vers_ok ((k, p) # (j, s) # vs)" using ctx_invD(2) [OF inv, of x] by (simp add: more)
    have e: "fst ` set ((j, restore_data p s) # vs) = fst ` set (ctx_objects C x) - {k}"
      using vers_ok_scopes [OF ok, of k] by (auto simp: more)
    have "ctx_inv ((unlink x k C)\<lparr>ctx_objects := (ctx_objects C)(x := (j, restore_data p s) # vs)\<rparr>)"
      by (rule unlink_inv [OF inv _ _ e]) (use ok in \<open>simp_all add: more\<close>)
    then have "ctx_inv ?D" by (simp add: restoreAndContinue_def more unlink_facts(1))
    note step = IH [OF more refl refl this]
    have "delete_ContextObj x C = delete_ContextObj x ?D"
      by (simp add: delete_ContextObj_def ContextObj_destroy.simps [of x C] more)
    moreover have "(ctx_objects ?D)(x := []) = (ctx_objects C)(x := [])" "ctx_fresh ?D = ctx_fresh C" "getLevel ?D = getLevel C"
      by (simp_all add: restoreAndContinue_def unlink_facts(1-3) getLevel_def)
    ultimately show ?thesis using step by simp
  qed
qed

lemma stores_delete: "ctx_inv C \<Longrightarrow> stores (delete_ContextObj x C) = spec_delete x (stores C)"
  using destroy_refines [of C x] ctx_invD(6) [of C] ctx_invD(6) [of "delete_ContextObj x C"]
  by (simp add: stores_def spec_delete_def store_at_def fun_eq_iff)

section \<open>Levels and backtracking\<close>

lemma level_push: "ctx_inv C \<Longrightarrow> getLevel (context_push C) = Suc (getLevel C)"
  using ctx_invD(6) [of C] ctx_invD(6) [OF push_inv, of C] by (simp add: context_push_def getLevel_def)

lemma store_pop: "ctx_inv C \<Longrightarrow> L < getLevel C \<Longrightarrow> store_at (context_pop C) L = store_at C L"
  using pop_versions(2) [of C L] by (simp add: store_at_def)

interpretation scopes: backtrackable ctx_inv getLevel context_push context_pop store_at
proof
  show "store_at (context_push s) L = store_at s L" for s :: "'a ctx" and L
    by (simp add: store_at_def context_push_def)
qed (simp_all add: push_inv level_push pop_inv level_pop store_pop)

lemma popto_pops: "context_popto_loop n C = (context_pop ^^ (getLevel C - n)) C"
proof (induction n C rule: context_popto_loop.induct)
  case (1 n C)
  show ?case
  proof (cases "n < getLevel C")
    case True
    then have "getLevel C - n = Suc (getLevel (context_pop C) - n)" by (simp add: level_pop)
    with 1 True show ?thesis by (subst context_popto_loop.simps) (simp add: funpow_swap1)
  qed (simp add: context_popto_loop.simps)
qed

end
