(* ===== verification/Context_Runs.thy ===== *)
theory Context_Runs
  imports Context_Correctness
begin

text \<open>
  Sequences of operations on a context: every sequence refines the same sequence on a stack of stores, and a \<open>popto\<close> undoes whatever
  was done above the level it returns to. \<open>op_ok\<close> is what the code asks of its callers: no pop at level 0, and a list that may still
  grow within the allocator's limit.
\<close>

section \<open>Operations\<close>

datatype 'a ctx_op =
    PushOp
  | PopOp
  | PoptoOp int
  | NewCDO 'a 'a
  | NewCDList bool
  | SetOp obj 'a
  | PushBackOp obj 'a
  | DeleteOp obj

definition ctx_step :: "nat \<Rightarrow> 'a ctx_op \<Rightarrow> 'a ctx \<Rightarrow> 'a ctx" where
  "ctx_step max_size opn C =
     (case opn of
        PushOp \<Rightarrow> context_push C
      | PopOp \<Rightarrow> context_pop C
      | PoptoOp toLevel \<Rightarrow> context_popto toLevel C
      | NewCDO init v \<Rightarrow> snd (new_CDO init v C)
      | NewCDList callDestructor \<Rightarrow> snd (new_CDList callDestructor C)
      | SetOp x v \<Rightarrow> CDO_set x v C
      | PushBackOp x v \<Rightarrow> CDList_push_back max_size x v C
      | DeleteOp x \<Rightarrow> delete_ContextObj x C)"

definition op_ok :: "nat \<Rightarrow> 'a ctx_op \<Rightarrow> 'a ctx \<Rightarrow> bool" where
  "op_ok max_size opn C =
     (case opn of PopOp \<Rightarrow> 0 < getLevel C | PushBackOp x v \<Rightarrow> has_room max_size x C | _ \<Rightarrow> True)"

definition ctx_run :: "nat \<Rightarrow> 'a ctx_op list \<Rightarrow> 'a ctx \<Rightarrow> 'a ctx" where
  "ctx_run max_size ops C = fold (ctx_step max_size) ops C"

fun run_ok :: "nat \<Rightarrow> 'a ctx_op list \<Rightarrow> 'a ctx \<Rightarrow> bool" where
  "run_ok max_size [] C = True"
| "run_ok max_size (opn # ops) C = (op_ok max_size opn C \<and> run_ok max_size ops (ctx_step max_size opn C))"

text \<open>The operations on the stack of stores, with the number of the next object.\<close>

definition spec_step :: "'a ctx_op \<Rightarrow> 'a store list \<times> obj \<Rightarrow> 'a store list \<times> obj" where
  "spec_step opn = (\<lambda>(S, fresh).
     case opn of
        PushOp \<Rightarrow> (spec_push S, fresh)
      | PopOp \<Rightarrow> (spec_pop S, fresh)
      | PoptoOp toLevel \<Rightarrow> (take (Suc (nat toLevel)) S, fresh)
      | NewCDO init v \<Rightarrow> (spec_change fresh (spec_set v) (spec_new fresh (CDO_value init) S), Suc fresh)
      | NewCDList callDestructor \<Rightarrow> (spec_new fresh (CDList_value []) S, Suc fresh)
      | SetOp x v \<Rightarrow> (spec_change x (spec_set v) S, fresh)
      | PushBackOp x v \<Rightarrow> (spec_change x (spec_append v) S, fresh)
      | DeleteOp x \<Rightarrow> (spec_delete x S, fresh))"

definition ctx_abs :: "'a ctx \<Rightarrow> 'a store list \<times> obj" where
  "ctx_abs C = (stores C, ctx_fresh C)"

section \<open>Refinement\<close>

lemma length_stores: "ctx_inv C \<Longrightarrow> length (stores C) = Suc (getLevel C)"
  using ctx_invD(6) [of C] by (simp add: stores_def)

lemma stores_nth: "ctx_inv C \<Longrightarrow> L \<le> getLevel C \<Longrightarrow> stores C ! L = store_at C L"
  using ctx_invD(6) [of C] by (simp add: stores_def del: upt_Suc)

lemma fresh_change: "ctx_inv C \<Longrightarrow> ctx_fresh (write_data x f (makeCurrent x C)) = ctx_fresh C"
  by (simp add: write_data_def makeCurrent_facts(2))

lemma fresh_pops: "ctx_inv C \<Longrightarrow> n \<le> getLevel C \<Longrightarrow> ctx_fresh ((context_pop ^^ n) C) = ctx_fresh C"
proof (induction n)
  case (Suc n)
  then show ?case using scopes.pops_law [of C n] pop_objects(3) [of "(context_pop ^^ n) C"] by simp
qed simp

lemma popto_refines:
  assumes "ctx_inv C"
  shows "ctx_inv (context_popto t C) \<and> ctx_abs (context_popto t C) = (take (Suc (nat t)) (stores C), ctx_fresh C)
    \<and> getLevel (context_popto t C) = min (nat t) (getLevel C)"
proof -
  let ?n = "getLevel C - nat t" and ?D = "context_popto t C"
  have D: "?D = (context_pop ^^ ?n) C" by (simp add: context_popto_def popto_pops)
  have law: "ctx_inv ?D" "getLevel ?D = min (nat t) (getLevel C)" using scopes.pops_law [OF assms, of ?n] by (auto simp: D)
  have "stores ?D ! L = stores C ! L" if "L \<le> getLevel ?D" for L
    using that stores_nth [OF law(1), of L] stores_nth [OF assms, of L] scopes.pops_look [OF assms, of ?n L] law(2) by (auto simp: D)
  then have "stores ?D = take (Suc (nat t)) (stores C)"
    using length_stores [OF law(1)] length_stores [OF assms] law(2) by (intro nth_equalityI) (simp_all add: less_Suc_eq_le)
  with law show ?thesis using fresh_pops [OF assms, of ?n] by (simp add: ctx_abs_def) (simp add: D)
qed

lemma new_CDO_refines:
  assumes "ctx_inv C"
  shows "ctx_inv (snd (new_CDO init v C)) \<and> ctx_abs (snd (new_CDO init v C)) = spec_step (NewCDO init v) (ctx_abs C)"
proof -
  obtain x D where D: "new_ContextObj (CDO init) C = (x, D)" by force
  from new_refines [OF assms _ D] have N: "x = ctx_fresh C" "ctx_inv D" "ctx_fresh D = Suc x"
    "stores D = spec_new x (CDO_value init) (stores C)" by (simp_all add: data_defs)
  have "ctx_fresh (CDO_set x v D) = ctx_fresh D" using fresh_change [OF N(2)] by (simp add: CDO_set_def)
  with N set_refines [OF N(2), of x v] show ?thesis by (simp add: new_CDO_def D ctx_abs_def spec_step_def)
qed

lemma new_CDList_refines:
  assumes "ctx_inv C"
  shows "ctx_inv (snd (new_CDList d C)) \<and> ctx_abs (snd (new_CDList d C)) = spec_step (NewCDList d) (ctx_abs C)"
proof -
  obtain x D where D: "new_CDList d C = (x, D)" by force
  from new_refines [OF assms _ D [unfolded new_CDList_def]] show ?thesis
    by (simp add: D ctx_abs_def spec_step_def data_defs cdlist_elements_def)
qed

lemma step_refines:
  assumes "ctx_inv C" and "op_ok max_size opn C"
  shows "ctx_inv (ctx_step max_size opn C) \<and> ctx_abs (ctx_step max_size opn C) = spec_step opn (ctx_abs C)"
proof (cases opn)
  case PushOp
  then show ?thesis using assms by (simp add: ctx_step_def push_inv spec_step_def ctx_abs_def stores_push) (simp add: context_push_def)
next
  case PopOp
  then show ?thesis using assms by (simp add: ctx_step_def pop_inv spec_step_def ctx_abs_def stores_pop op_ok_def pop_objects)
next
  case (PoptoOp t)
  then show ?thesis using popto_refines [OF assms(1), of t] by (simp add: ctx_step_def spec_step_def) (simp add: ctx_abs_def)
next
  case (NewCDO init v)
  then show ?thesis using new_CDO_refines [OF assms(1)] by (simp add: ctx_step_def)
next
  case (NewCDList d)
  then show ?thesis using new_CDList_refines [OF assms(1)] by (simp add: ctx_step_def)
next
  case (SetOp x v)
  then show ?thesis using set_refines [OF assms(1), of x v] fresh_change [OF assms(1)]
    by (simp add: ctx_step_def spec_step_def ctx_abs_def) (simp add: CDO_set_def)
next
  case (PushBackOp x v)
  then show ?thesis using push_back_refines [OF assms(1), of max_size x v] fresh_change [OF assms(1)] assms(2)
    by (simp add: ctx_step_def spec_step_def ctx_abs_def op_ok_def) (simp add: CDList_push_back_def)
next
  case (DeleteOp x)
  then show ?thesis using destroy_refines [OF assms(1), of x] stores_delete [OF assms(1), of x]
    by (simp add: ctx_step_def spec_step_def ctx_abs_def)
qed

section \<open>Undoing a sequence of operations\<close>

lemma spec_step_below:
  assumes "spec_step opn (S, f) = (S', f')" and "opn \<noteq> DeleteOp x" and "x < f" and "Suc L < length S" and "L < length S'"
  shows "(S' ! L) x = (S ! L) x"
  using assms by (cases opn; auto simp: spec_step_def spec_push_def spec_pop_def spec_change_def spec_new_def spec_delete_def
      nth_append nth_butlast)

lemma spec_step_fresh: "spec_step opn (S, f) = (S', f') \<Longrightarrow> f \<le> f'"
  by (cases opn) (auto simp: spec_step_def)

lemma step_fresh: "ctx_inv C \<Longrightarrow> op_ok max_size opn C \<Longrightarrow> ctx_fresh C \<le> ctx_fresh (ctx_step max_size opn C)"
  using step_refines [of C max_size opn] spec_step_fresh [OF sym, of "stores (ctx_step max_size opn C)"] by (simp add: ctx_abs_def)

lemma step_below:
  assumes "ctx_inv C" and "op_ok max_size opn C" and "opn \<noteq> DeleteOp x" and "x < ctx_fresh C" and "L < getLevel C"
    and "L \<le> getLevel (ctx_step max_size opn C)"
  shows "store_at (ctx_step max_size opn C) L x = store_at C L x"
proof -
  let ?D = "ctx_step max_size opn C"
  from step_refines [OF assms(1,2)]
  have D: "ctx_inv ?D" "spec_step opn (stores C, ctx_fresh C) = (stores ?D, ctx_fresh ?D)" by (simp_all add: ctx_abs_def)
  from spec_step_below [OF D(2) assms(3,4), of L] assms(4-6) length_stores [OF D(1)] length_stores [OF assms(1)]
  show ?thesis
    using stores_nth [OF D(1), of L] stores_nth [OF assms(1), of L] by auto
qed

text \<open>Every object that is not deleted is backtrackable.\<close>

interpretation object: backtracking_client "\<lambda>C. ctx_inv C \<and> x < ctx_fresh C" getLevel context_push context_pop "\<lambda>C L. store_at C L x"
    "ctx_step max_size" "\<lambda>opn C. op_ok max_size opn C \<and> opn \<noteq> DeleteOp x" for max_size x
proof unfold_locales
  show "ctx_inv (ctx_step max_size opn s) \<and> x < ctx_fresh (ctx_step max_size opn s)"
    if "ctx_inv s \<and> x < ctx_fresh s" "op_ok max_size opn s \<and> opn \<noteq> DeleteOp x" for opn :: "'a ctx_op" and s
    using that step_refines [of s max_size opn] step_fresh [of s max_size opn] by simp
qed (simp_all add: push_inv level_push pop_inv level_pop store_pop scopes.push_look pop_objects(3) step_below,
     simp_all add: context_push_def)

lemma run_above_deletes:
  "run_above (ctx_step max_size) (op_ok max_size) getLevel n ops C \<Longrightarrow> DeleteOp x \<notin> set ops \<Longrightarrow>
     run_above (ctx_step max_size) (\<lambda>opn C. op_ok max_size opn C \<and> opn \<noteq> DeleteOp x) getLevel n ops C"
  by (erule run_above_mono) auto

section \<open>What a client reads\<close>

definition reads_same :: "obj \<Rightarrow> 'a ctx \<Rightarrow> 'a ctx \<Rightarrow> bool" where
  "reads_same x C D \<longleftrightarrow> CDO_get x C = CDO_get x D \<and> CDList_size x C = CDList_size x D
     \<and> (\<forall>i. (\<exists>n. CDList_size x C = Some n \<and> i < n) \<longrightarrow> CDList_nth x i C = CDList_nth x i D)"

lemma same_elements:
  assumes "cl_size l \<le> length (cl_list l)" and "cl_size m \<le> length (cl_list m)" and "cdlist_elements l = cdlist_elements m"
  shows "cl_size l = cl_size m" and "i < cl_size m \<Longrightarrow> cl_list l ! i = cl_list m ! i"
proof -
  have "length (cdlist_elements l) = length (cdlist_elements m)" by (simp add: assms(3))
  with assms(1,2) show e: "cl_size l = cl_size m" by (simp add: cdlist_elements_def)
  show "cl_list l ! i = cl_list m ! i" if "i < cl_size m"
    using that assms(3) e unfolding cdlist_elements_def by (metis nth_take)
qed

lemma reads_same_store:
  assumes "ctx_inv C" and "ctx_inv D" and "store_at C (getLevel C) x = store_at D (getLevel D) x"
  shows "reads_same x C D"
proof (cases "ctx_objects C x")
  case Nil
  with assms(3) have "ctx_objects D x = []" using assms(2) ctx_scope_le [of D "fst (hd (ctx_objects D x))" x]
    by (cases "ctx_objects D x") (auto simp: store_at_def)
  with Nil show ?thesis by (simp add: reads_same_def CDO_get_def CDList_size_def)
next
  case (Cons v vs)
  then obtain k p where C: "ctx_objects C x = (k, p) # vs" by (cases v) simp
  with assms(1,3) have "store_at D (getLevel D) x = Some (data_value p)"
    using ctx_scope_le [of C k x] by (simp add: store_at_def)
  then obtain j q ws where D: "ctx_objects D x = (j, q) # ws" by (cases "ctx_objects D x") (auto simp: store_at_def)
  have same: "data_value p = data_value q"
    using \<open>store_at D (getLevel D) x = _\<close> ctx_scope_le [of D j x] assms(2) by (simp add: store_at_def D)
  note ok = current_data_ok [OF assms(1) C] current_data_ok [OF assms(2) D]
  show ?thesis
  proof (cases p)
    case (CDO v)
    with same show ?thesis by (cases q) (simp_all add: reads_same_def CDO_get_def CDList_size_def C D data_defs)
  next
    case (CDList l)
    with same obtain m where q: "q = CDList m" by (cases q) (simp_all add: data_defs)
    from same ok have l: "cl_size l \<le> length (cl_list l)" "cl_size m \<le> length (cl_list m)" "cdlist_elements l = cdlist_elements m"
      by (simp_all add: CDList q data_defs)
    from same_elements [OF l] l show ?thesis
      by (simp add: reads_same_def CDO_get_def CDList_size_def CDList_nth_def C D CDList q)
  qed
qed

end
