(* ===== verification/Context_Memory.thy ===== *)
theory Context_Memory
  imports Backtracking "HOL-Library.Multiset"
begin

text \<open>
  The region allocator of contexts (\<open>src/src/context/context_mm.cpp\<close>, \<open>context_mm.h\<close>): memory comes in chunks of 16384 bytes;
  \<open>newData\<close> hands out the next bytes of the current chunk or starts a new one, \<open>push\<close> remembers the position and \<open>pop\<close> returns to
  it and keeps the chunks it no longer needs for later. A chunk is a number, given by \<open>malloc\<close> in order, and a pointer is a chunk and an
  offset in it; \<open>malloc\<close> does not fail here. The vectors have their last element, \<open>back()\<close>, at the end of the list.
\<close>

type_synonym ptr = "nat \<times> nat"

record cmm =
  d_chunkList :: "nat list"
  d_freeChunks :: "nat list"
  d_indexChunkList :: nat
  d_nextFree :: ptr
  d_endChunk :: ptr
  d_nextFreeStack :: "ptr list"
  d_endChunkStack :: "ptr list"
  d_indexChunkListStack :: "nat list"
  cmm_mallocs :: nat

definition chunkSizeBytes :: nat where
  "chunkSizeBytes = 16384"

definition maxFreeChunks :: nat where
  "maxFreeChunks = 100"

definition ptr_add :: "ptr \<Rightarrow> nat \<Rightarrow> ptr" where
  "ptr_add p n = (fst p, snd p + n)"

definition new_ContextMemoryManager :: cmm where
  "new_ContextMemoryManager =
     \<lparr>d_chunkList = [0], d_freeChunks = [], d_indexChunkList = 0, d_nextFree = (0, 0), d_endChunk = ptr_add (0, 0) chunkSizeBytes,
      d_nextFreeStack = [], d_endChunkStack = [], d_indexChunkListStack = [], cmm_mallocs = 1\<rparr>"

definition delete_ContextMemoryManager :: "cmm \<Rightarrow> cmm" where
  "delete_ContextMemoryManager m = m\<lparr>d_chunkList := [], d_freeChunks := []\<rparr>"

definition newChunk :: "cmm \<Rightarrow> cmm" where
  "newChunk m =
     (let m = m\<lparr>d_indexChunkList := d_indexChunkList m + 1\<rparr>;
          m = (if d_freeChunks m = [] then m\<lparr>d_chunkList := d_chunkList m @ [cmm_mallocs m], cmm_mallocs := cmm_mallocs m + 1\<rparr>
               else m\<lparr>d_chunkList := d_chunkList m @ [last (d_freeChunks m)], d_freeChunks := butlast (d_freeChunks m)\<rparr>);
          m = m\<lparr>d_nextFree := (last (d_chunkList m), 0)\<rparr>
      in m\<lparr>d_endChunk := ptr_add (d_nextFree m) chunkSizeBytes\<rparr>)"

text \<open>\<open>d_nextFree\<close> and \<open>d_endChunk\<close> point into one chunk, so their comparison is that of the offsets.\<close>

definition newData :: "nat \<Rightarrow> cmm \<Rightarrow> (ptr \<times> cmm) exc" where
  "newData sz m =
     (let res = d_nextFree m; m = m\<lparr>d_nextFree := ptr_add (d_nextFree m) sz\<rparr>
      in if snd (d_nextFree m) > snd (d_endChunk m)
         then let m = newChunk m; res = d_nextFree m; m = m\<lparr>d_nextFree := ptr_add (d_nextFree m) sz\<rparr>
              in if snd (d_nextFree m) \<le> snd (d_endChunk m) then Inr (res, m) else Inl AssertionException
         else Inr (res, m))"

definition cmm_push :: "cmm \<Rightarrow> cmm" where
  "cmm_push m =
     m\<lparr>d_nextFreeStack := d_nextFreeStack m @ [d_nextFree m], d_endChunkStack := d_endChunkStack m @ [d_endChunk m],
       d_indexChunkListStack := d_indexChunkListStack m @ [d_indexChunkList m]\<rparr>"

function release_chunks :: "cmm \<Rightarrow> cmm" where
  "release_chunks m =
     (if d_indexChunkList m > last (d_indexChunkListStack m)
      then release_chunks
        (m\<lparr>d_freeChunks := d_freeChunks m @ [last (d_chunkList m)], d_chunkList := butlast (d_chunkList m),
           d_indexChunkList := d_indexChunkList m - 1\<rparr>)
      else m)"
  by pat_completeness auto

termination
  by (relation "measure d_indexChunkList") simp_all

declare release_chunks.simps [simp del]

fun free_excess :: "nat list \<Rightarrow> nat list" where
  "free_excess [] = []"
| "free_excess (c # cs) = (if length (c # cs) > maxFreeChunks then free_excess cs else c # cs)"

definition cmm_pop :: "cmm \<Rightarrow> cmm" where
  "cmm_pop m =
     (let m = m\<lparr>d_nextFree := last (d_nextFreeStack m), d_nextFreeStack := butlast (d_nextFreeStack m)\<rparr>;
          m = m\<lparr>d_endChunk := last (d_endChunkStack m), d_endChunkStack := butlast (d_endChunkStack m)\<rparr>;
          m = release_chunks m;
          m = m\<lparr>d_indexChunkListStack := butlast (d_indexChunkListStack m)\<rparr>
      in m\<lparr>d_freeChunks := free_excess (d_freeChunks m)\<rparr>)"

section \<open>Marks and the invariant\<close>

text \<open>The positions of the regions: those on the stack and the current one.\<close>

definition cmm_level :: "cmm \<Rightarrow> nat" where
  "cmm_level m = length (d_indexChunkListStack m)"

definition mark_index :: "cmm \<Rightarrow> nat \<Rightarrow> nat" where
  "mark_index m L = (d_indexChunkListStack m @ [d_indexChunkList m]) ! L"

definition mark_next :: "cmm \<Rightarrow> nat \<Rightarrow> ptr" where
  "mark_next m L = (d_nextFreeStack m @ [d_nextFree m]) ! L"

definition mark_end :: "cmm \<Rightarrow> nat \<Rightarrow> ptr" where
  "mark_end m L = (d_endChunkStack m @ [d_endChunk m]) ! L"

definition cmm_region :: "cmm \<Rightarrow> nat \<Rightarrow> nat list \<times> ptr \<times> ptr" where
  "cmm_region m L = (take (Suc (mark_index m L)) (d_chunkList m), mark_next m L, mark_end m L)"

definition region_bytes :: "nat list \<times> ptr \<times> ptr \<Rightarrow> ptr set" where
  "region_bytes = (\<lambda>(chunks, nextFree, endChunk).
     {(c, i). c \<in> set (butlast chunks) \<or> c = fst nextFree \<and> i < snd nextFree})"

definition live_bytes :: "cmm \<Rightarrow> ptr set" where
  "live_bytes m = region_bytes (cmm_region m (cmm_level m))"

definition mark_ok :: "cmm \<Rightarrow> nat \<Rightarrow> bool" where
  "mark_ok m L \<longleftrightarrow> mark_index m L < length (d_chunkList m) \<and> fst (mark_next m L) = d_chunkList m ! mark_index m L
     \<and> snd (mark_next m L) \<le> chunkSizeBytes \<and> mark_end m L = (d_chunkList m ! mark_index m L, chunkSizeBytes)"

definition mark_le :: "cmm \<Rightarrow> nat \<Rightarrow> nat \<Rightarrow> bool" where
  "mark_le m L K \<longleftrightarrow> mark_index m L \<le> mark_index m K
     \<and> (mark_index m L = mark_index m K \<longrightarrow> snd (mark_next m L) \<le> snd (mark_next m K))"

definition cmm_inv :: "cmm \<Rightarrow> bool" where
  "cmm_inv m \<longleftrightarrow>
     length (d_chunkList m) = Suc (d_indexChunkList m) \<and> distinct (d_chunkList m @ d_freeChunks m)
   \<and> (\<forall>c \<in> set (d_chunkList m @ d_freeChunks m). c < cmm_mallocs m) \<and> length (d_freeChunks m) \<le> maxFreeChunks
   \<and> length (d_nextFreeStack m) = cmm_level m \<and> length (d_endChunkStack m) = cmm_level m
   \<and> (\<forall>L \<le> cmm_level m. mark_ok m L)
   \<and> (\<forall>L < cmm_level m. mark_le m L (Suc L))"

lemmas mark_defs = mark_index_def mark_next_def mark_end_def cmm_level_def

lemma new_ContextMemoryManager_inv: "cmm_inv new_ContextMemoryManager"
  by (simp add: cmm_inv_def new_ContextMemoryManager_def mark_ok_def mark_defs ptr_add_def maxFreeChunks_def)

lemma cmm_invD:
  assumes "cmm_inv m"
  shows "length (d_chunkList m) = Suc (d_indexChunkList m)" and "distinct (d_chunkList m @ d_freeChunks m)"
    and "c \<in> set (d_chunkList m) \<union> set (d_freeChunks m) \<Longrightarrow> c < cmm_mallocs m" and "length (d_freeChunks m) \<le> maxFreeChunks"
    and "length (d_nextFreeStack m) = cmm_level m" and "length (d_endChunkStack m) = cmm_level m"
    and "L \<le> cmm_level m \<Longrightarrow> mark_ok m L" and "L < cmm_level m \<Longrightarrow> mark_le m L (Suc L)"
  using assms by (auto simp: cmm_inv_def)

lemma mark_top:
  assumes "length (d_nextFreeStack m) = cmm_level m" and "length (d_endChunkStack m) = cmm_level m"
  shows "mark_index m (cmm_level m) = d_indexChunkList m" and "mark_next m (cmm_level m) = d_nextFree m"
    and "mark_end m (cmm_level m) = d_endChunk m"
  using assms by (simp_all add: mark_defs nth_append)

lemma mark_le_trans: "mark_le m A B \<Longrightarrow> mark_le m B D \<Longrightarrow> mark_le m A D"
  by (auto simp: mark_le_def)

lemma mark_le_mono:
  assumes "cmm_inv m" and "L \<le> K" and "K \<le> cmm_level m"
  shows "mark_le m L K"
  using assms(2)
proof (induction rule: inc_induct)
  case (step n)
  then have "mark_le m n (Suc n)" using cmm_invD(8) [OF assms(1), of n] assms(3) by simp
  then show ?case using step.IH by (rule mark_le_trans)
qed (simp add: mark_le_def)

text \<open>A state that differs in its current region only: the marks below are the same.\<close>

lemma mark_lower:
  assumes "d_indexChunkListStack m' = d_indexChunkListStack m" "d_nextFreeStack m' = d_nextFreeStack m"
    "d_endChunkStack m' = d_endChunkStack m" and "cmm_inv m" and "L < cmm_level m"
  shows "mark_index m' L = mark_index m L" "mark_next m' L = mark_next m L" "mark_end m' L = mark_end m L"
  using assms cmm_invD(5,6) [OF assms(4)] by (simp_all add: mark_defs nth_append)

lemma grow_current:
  assumes "cmm_inv m" and "d_indexChunkListStack m' = d_indexChunkListStack m" "d_nextFreeStack m' = d_nextFreeStack m"
    "d_endChunkStack m' = d_endChunkStack m"
    and "d_chunkList m' = d_chunkList m @ cs" and "length (d_chunkList m') = Suc (d_indexChunkList m')"
    and "distinct (d_chunkList m' @ d_freeChunks m')" and "\<And>c. c \<in> set (d_chunkList m') \<union> set (d_freeChunks m') \<Longrightarrow> c < cmm_mallocs m'"
    and "length (d_freeChunks m') \<le> maxFreeChunks"
    and "d_endChunk m' = (last (d_chunkList m'), chunkSizeBytes)" and "fst (d_nextFree m') = last (d_chunkList m')"
    and "snd (d_nextFree m') \<le> chunkSizeBytes" and "cs = [] \<Longrightarrow> snd (d_nextFree m) \<le> snd (d_nextFree m')"
  shows "cmm_inv m'" and "\<And>L. L < cmm_level m \<Longrightarrow> cmm_region m' L = cmm_region m L"
proof -
  note I = cmm_invD [OF assms(1)] and low = mark_lower [OF assms(2,3,4,1)]
  have lev: "cmm_level m' = cmm_level m" using assms(2) by (simp add: cmm_level_def)
  have "length (d_nextFreeStack m') = cmm_level m'" "length (d_endChunkStack m') = cmm_level m'"
    using assms(3,4) I(5,6) lev by simp_all
  note st = this and top = mark_top [OF this] and top0 = mark_top [OF I(5,6)]
  have idx: "d_indexChunkList m' = d_indexChunkList m + length cs" using assms(5,6) I(1) by simp
  have last: "last (d_chunkList m') = d_chunkList m' ! d_indexChunkList m'"
    using assms(6) last_conv_nth [of "d_chunkList m'"] by (cases "d_chunkList m' = []") auto
  have bnd: "mark_index m L < length (d_chunkList m)" if "L \<le> cmm_level m" for L using I(7) [OF that] by (simp add: mark_ok_def)
  have "mark_ok m' L" if "L < cmm_level m" for L
    using I(7) [of L] that low [OF that] by (simp add: mark_ok_def assms(5) nth_append)
  moreover have "mark_ok m' (cmm_level m')" using top assms(6,10-12) last by (simp add: mark_ok_def)
  ultimately have oks: "mark_ok m' L" if "L \<le> cmm_level m'" for L using that lev by (cases "L = cmm_level m'") auto
  have "mark_le m' L (Suc L)" if "L < cmm_level m" for L
  proof (cases "Suc L = cmm_level m")
    case True
    have "mark_index m L \<le> d_indexChunkList m"
      "mark_index m L = d_indexChunkList m \<Longrightarrow> snd (mark_next m L) \<le> snd (d_nextFree m)"
      using I(8) [OF that] top0 True by (simp_all add: mark_le_def)
    then show ?thesis using low [OF that] top lev True assms(13) idx by (cases cs) (auto simp: mark_le_def)
  next
    case False
    with that I(8) [OF that] low [OF that] low [of "Suc L"] show ?thesis by (simp add: mark_le_def)
  qed
  with oks st show "cmm_inv m'" using assms(6-9) lev by (simp add: cmm_inv_def)
  show "cmm_region m' L = cmm_region m L" if "L < cmm_level m" for L
    using low [OF that] bnd [of L] that by (simp add: cmm_region_def assms(5))
qed

section \<open>Allocation\<close>

lemma current_region:
  assumes "cmm_inv m"
  shows "d_nextFree m = (last (d_chunkList m), snd (d_nextFree m))" and "snd (d_nextFree m) \<le> chunkSizeBytes"
    and "d_endChunk m = (last (d_chunkList m), chunkSizeBytes)"
    and "live_bytes m = {(c, i). c \<in> set (butlast (d_chunkList m)) \<or> c = last (d_chunkList m) \<and> i < snd (d_nextFree m)}"
proof -
  note I = cmm_invD [OF assms] and top = mark_top [OF cmm_invD(5,6) [OF assms]]
  have "d_chunkList m \<noteq> []" using I(1) by auto
  then have "last (d_chunkList m) = d_chunkList m ! d_indexChunkList m" using I(1) by (simp add: last_conv_nth)
  with I(7) [OF order_refl] top
  show "d_nextFree m = (last (d_chunkList m), snd (d_nextFree m))" and "snd (d_nextFree m) \<le> chunkSizeBytes"
    and "d_endChunk m = (last (d_chunkList m), chunkSizeBytes)" by (simp_all add: mark_ok_def prod_eq_iff)
  then show "live_bytes m = {(c, i). c \<in> set (butlast (d_chunkList m)) \<or> c = last (d_chunkList m) \<and> i < snd (d_nextFree m)}"
    using top I(1) by (simp add: live_bytes_def region_bytes_def cmm_region_def) (metis fst_conv)
qed

lemma newChunk_stacks:
  "d_indexChunkListStack (newChunk m) = d_indexChunkListStack m" "d_nextFreeStack (newChunk m) = d_nextFreeStack m"
  "d_endChunkStack (newChunk m) = d_endChunkStack m" "d_indexChunkList (newChunk m) = Suc (d_indexChunkList m)"
  by (simp_all add: newChunk_def Let_def)

lemma newChunk_facts:
  assumes "cmm_inv m"
  shows "\<exists>c. d_chunkList (newChunk m) = d_chunkList m @ [c] \<and> c \<notin> set (d_chunkList m)
    \<and> d_nextFree (newChunk m) = (c, 0) \<and> d_endChunk (newChunk m) = (c, chunkSizeBytes)
    \<and> distinct (d_chunkList (newChunk m) @ d_freeChunks (newChunk m))
    \<and> (\<forall>b \<in> set (d_chunkList (newChunk m)) \<union> set (d_freeChunks (newChunk m)). b < cmm_mallocs (newChunk m))
    \<and> length (d_freeChunks (newChunk m)) \<le> maxFreeChunks" (is "\<exists>c. ?P c")
proof -
  note I = cmm_invD [OF assms]
  show ?thesis
  proof (cases "d_freeChunks m" rule: rev_cases)
    case Nil
    have "cmm_mallocs m \<notin> set (d_chunkList m)" using I(3) [of "cmm_mallocs m"] by auto
    with Nil I(2-4) have "?P (cmm_mallocs m)" by (auto simp: newChunk_def ptr_add_def Let_def less_SucI)
    then show ?thesis ..
  next
    case (snoc fs c)
    with I(2-4) have "?P c" by (auto simp: newChunk_def ptr_add_def Let_def)
    then show ?thesis ..
  qed
qed

lemma newData_fits:
  assumes "cmm_inv m" and "snd (d_nextFree m) + sz \<le> chunkSizeBytes"
  defines "m' \<equiv> m\<lparr>d_nextFree := ptr_add (d_nextFree m) sz\<rparr>"
  shows "newData sz m = Inr (d_nextFree m, m')" and "cmm_inv m'" and "\<And>L. L < cmm_level m \<Longrightarrow> cmm_region m' L = cmm_region m L"
proof -
  note R = current_region [OF assms(1)] and I = cmm_invD [OF assms(1)]
  have "snd (d_endChunk m) = chunkSizeBytes" by (simp add: R(3))
  then show "newData sz m = Inr (d_nextFree m, m')" using assms(2) by (simp add: newData_def m'_def ptr_add_def Let_def)
  have "fst (d_nextFree m) = last (d_chunkList m)" using R(1) by (metis fst_conv)
  then have *: "cmm_inv m' \<and> (\<forall>L < cmm_level m. cmm_region m' L = cmm_region m L)"
    using grow_current [OF assms(1), of m' "[]"] I(1,2,3,4) R(3) assms(2) by (simp add: m'_def ptr_add_def)
  then show "cmm_inv m'" and "\<And>L. L < cmm_level m \<Longrightarrow> cmm_region m' L = cmm_region m L" by blast+
qed

lemma newData_new_chunk:
  assumes "cmm_inv m" and "chunkSizeBytes < snd (d_nextFree m) + sz" and "sz \<le> chunkSizeBytes"
  obtains c m' where "newData sz m = Inr ((c, 0), m')" "cmm_inv m'" "\<And>L. L < cmm_level m \<Longrightarrow> cmm_region m' L = cmm_region m L"
    "c \<notin> set (d_chunkList m)" "d_chunkList m' = d_chunkList m @ [c]" "d_nextFree m' = (c, sz)" "cmm_level m' = cmm_level m"
proof -
  note R = current_region [OF assms(1)] and I = cmm_invD [OF assms(1)]
  let ?n = "newChunk (m\<lparr>d_nextFree := ptr_add (d_nextFree m) sz\<rparr>)"
  have n: "?n = newChunk m" by (simp add: newChunk_def Let_def)
  from newChunk_facts [OF assms(1)] obtain c where N: "d_chunkList (newChunk m) = d_chunkList m @ [c]" "c \<notin> set (d_chunkList m)"
    "d_nextFree (newChunk m) = (c, 0)" "d_endChunk (newChunk m) = (c, chunkSizeBytes)"
    "distinct (d_chunkList (newChunk m) @ d_freeChunks (newChunk m))"
    "\<forall>b \<in> set (d_chunkList (newChunk m)) \<union> set (d_freeChunks (newChunk m)). b < cmm_mallocs (newChunk m)"
    "length (d_freeChunks (newChunk m)) \<le> maxFreeChunks" by blast
  define m' where "m' = (newChunk m)\<lparr>d_nextFree := (c, sz)\<rparr>"
  have "snd (d_endChunk m) = chunkSizeBytes" by (simp add: R(3))
  then have "newData sz m = Inr ((c, 0), m')"
    using assms(2,3) n N(3,4) by (simp add: newData_def m'_def ptr_add_def Let_def)
  moreover have "cmm_inv m' \<and> (\<forall>L < cmm_level m. cmm_region m' L = cmm_region m L)"
    using grow_current [OF assms(1), of m' "[c]"] N newChunk_stacks [of m] I(1) assms(3) by (simp add: m'_def)
  ultimately show thesis using that N newChunk_stacks [of m] by (simp add: m'_def cmm_level_def)
qed

lemma newData_too_big:
  assumes "cmm_inv m" and "chunkSizeBytes < sz"
  shows "newData sz m = Inl AssertionException"
proof -
  have "snd (d_endChunk m) = chunkSizeBytes" using current_region [OF assms(1)] by simp
  moreover have "snd (d_nextFree (newChunk x)) = 0 \<and> snd (d_endChunk (newChunk x)) = chunkSizeBytes" for x
    by (simp add: newChunk_def ptr_add_def Let_def)
  ultimately show ?thesis using assms(2) by (simp add: newData_def ptr_add_def Let_def)
qed

section \<open>Push and pop of regions\<close>

lemma cmm_push_marks:
  assumes "cmm_inv m"
  shows "cmm_level (cmm_push m) = Suc (cmm_level m)"
    and "L \<le> cmm_level m \<Longrightarrow> mark_index (cmm_push m) L = mark_index m L \<and> mark_next (cmm_push m) L = mark_next m L
      \<and> mark_end (cmm_push m) L = mark_end m L"
    and "mark_index (cmm_push m) (Suc (cmm_level m)) = d_indexChunkList m" "mark_next (cmm_push m) (Suc (cmm_level m)) = d_nextFree m"
      "mark_end (cmm_push m) (Suc (cmm_level m)) = d_endChunk m"
  using cmm_invD(5,6) [OF assms] by (auto simp: cmm_push_def mark_defs nth_append less_Suc_eq_le)

lemma cmm_push_inv:
  assumes "cmm_inv m"
  shows "cmm_inv (cmm_push m)"
proof -
  note I = cmm_invD [OF assms] and P = cmm_push_marks [OF assms] and top = mark_top [OF cmm_invD(5,6) [OF assms]]
  have same: "d_chunkList (cmm_push m) = d_chunkList m" by (simp add: cmm_push_def)
  have "mark_ok (cmm_push m) L" if "L \<le> Suc (cmm_level m)" for L
  proof (cases "L = Suc (cmm_level m)")
    case True
    with I(7) [OF order_refl] top P(3-5) show ?thesis by (simp add: mark_ok_def same)
  next
    case False
    with that I(7) [of L] P(2) [of L] show ?thesis by (simp add: mark_ok_def same)
  qed
  moreover have "mark_le (cmm_push m) L (Suc L)" if "L < Suc (cmm_level m)" for L
  proof (cases "L = cmm_level m")
    case True
    with P(2) [of L] P(3-5) top show ?thesis by (simp add: mark_le_def)
  next
    case False
    with that I(8) [of L] P(2) [of L] P(2) [of "Suc L"] show ?thesis by (simp add: mark_le_def)
  qed
  ultimately show ?thesis using I(1-6) P(1) by (simp add: cmm_inv_def) (auto simp: cmm_push_def)
qed

lemma release_chunks_facts:
  assumes "length (d_chunkList m) = Suc (d_indexChunkList m)" and "last (d_indexChunkListStack m) \<le> d_indexChunkList m"
  shows "\<exists>cs. release_chunks m = m\<lparr>d_freeChunks := d_freeChunks m @ cs,
      d_chunkList := take (Suc (last (d_indexChunkListStack m))) (d_chunkList m), d_indexChunkList := last (d_indexChunkListStack m)\<rparr>
    \<and> mset cs = mset (drop (Suc (last (d_indexChunkListStack m))) (d_chunkList m))"
  using assms
proof (induction m rule: release_chunks.induct)
  case (1 m)
  let ?t = "last (d_indexChunkListStack m)"
  show ?case
  proof (cases "d_indexChunkList m > ?t")
    case True
    let ?m = "m\<lparr>d_freeChunks := d_freeChunks m @ [last (d_chunkList m)], d_chunkList := butlast (d_chunkList m),
        d_indexChunkList := d_indexChunkList m - 1\<rparr>"
    have ne: "d_chunkList m \<noteq> []" using 1(2) by auto
    have "length (d_chunkList ?m) = Suc (d_indexChunkList ?m)" "?t \<le> d_indexChunkList ?m" using 1(2) True by simp_all
    from 1(1) [OF True this(1)] this(2) obtain cs where
      cs: "release_chunks ?m = ?m\<lparr>d_freeChunks := (d_freeChunks m @ [last (d_chunkList m)]) @ cs,
          d_chunkList := take (Suc ?t) (butlast (d_chunkList m)), d_indexChunkList := ?t\<rparr>"
      "mset cs = mset (drop (Suc ?t) (butlast (d_chunkList m)))" by auto
    have split: "d_chunkList m = butlast (d_chunkList m) @ [last (d_chunkList m)]" using ne by simp
    have len: "Suc ?t \<le> length (butlast (d_chunkList m))" using 1(2) True by simp
    have "take (Suc ?t) (d_chunkList m) = take (Suc ?t) (butlast (d_chunkList m))"
      "drop (Suc ?t) (d_chunkList m) = drop (Suc ?t) (butlast (d_chunkList m)) @ [last (d_chunkList m)]"
      using len by (subst split, simp)+
    then show ?thesis using True cs by (intro exI [of _ "last (d_chunkList m) # cs"]) (simp add: release_chunks.simps [of m])
  next
    case False
    then show ?thesis using 1(2,3) by (intro exI [of _ "[]"]) (simp add: release_chunks.simps [of m])
  qed
qed

lemma free_excess_facts: "length (free_excess cs) \<le> maxFreeChunks" "\<exists>n. free_excess cs = drop n cs"
proof -
  show "length (free_excess cs) \<le> maxFreeChunks" by (induction cs) auto
  show "\<exists>n. free_excess cs = drop n cs"
  proof (induction cs)
    case (Cons c cs)
    then show ?case by (metis drop0 drop_Suc_Cons free_excess.simps(2))
  qed simp
qed

lemma mset_take_drop: "mset (take n xs) + (M + mset (drop n xs)) = mset xs + M"
  by (metis append_take_drop_id mset_append union_assoc union_commute)

lemma pop_marks:
  assumes "cmm_inv m" and "0 < cmm_level m"
  shows "cmm_level (cmm_pop m) = cmm_level m - 1"
    and "length (d_nextFreeStack (cmm_pop m)) = cmm_level m - 1" and "length (d_endChunkStack (cmm_pop m)) = cmm_level m - 1"
    and "L < cmm_level m \<Longrightarrow> mark_index (cmm_pop m) L = mark_index m L \<and> mark_next (cmm_pop m) L = mark_next m L
      \<and> mark_end (cmm_pop m) L = mark_end m L"
    and "d_chunkList (cmm_pop m) = take (Suc (mark_index m (cmm_level m - 1))) (d_chunkList m)"
    and "d_indexChunkList (cmm_pop m) = mark_index m (cmm_level m - 1)"
    and "cmm_mallocs (cmm_pop m) = cmm_mallocs m"
    and "distinct (d_chunkList (cmm_pop m) @ d_freeChunks (cmm_pop m))"
    and "set (d_chunkList (cmm_pop m) @ d_freeChunks (cmm_pop m)) \<subseteq> set (d_chunkList m @ d_freeChunks m)"
    and "length (d_freeChunks (cmm_pop m)) \<le> maxFreeChunks"
proof -
  note I = cmm_invD [OF assms(1)]
  have ne: "d_indexChunkListStack m \<noteq> []" "d_nextFreeStack m \<noteq> []" "d_endChunkStack m \<noteq> []"
    using assms(2) I(5,6) by (auto simp: cmm_level_def)
  define k where "k = mark_index m (cmm_level m - 1)"
  have last: "last (d_indexChunkListStack m) = k"
    using ne(1) by (simp add: k_def mark_index_def nth_append cmm_level_def last_conv_nth)
  have k: "k \<le> d_indexChunkList m" using I(7) [of "cmm_level m - 1"] I(1) by (simp add: mark_ok_def k_def)
  let ?m = "m\<lparr>d_nextFree := last (d_nextFreeStack m), d_nextFreeStack := butlast (d_nextFreeStack m),
      d_endChunk := last (d_endChunkStack m), d_endChunkStack := butlast (d_endChunkStack m)\<rparr>"
  from release_chunks_facts [of ?m] I(1) k obtain cs where
    rel: "release_chunks ?m = ?m\<lparr>d_freeChunks := d_freeChunks m @ cs, d_chunkList := take (Suc k) (d_chunkList m), d_indexChunkList := k\<rparr>"
    "mset cs = mset (drop (Suc k) (d_chunkList m))" by (auto simp: last)
  let ?f = "free_excess (d_freeChunks m @ cs)"
  have pop: "cmm_pop m = ?m\<lparr>d_freeChunks := ?f, d_chunkList := take (Suc k) (d_chunkList m), d_indexChunkList := k,
      d_indexChunkListStack := butlast (d_indexChunkListStack m)\<rparr>"
    by (simp add: cmm_pop_def Let_def rel(1))
  show "cmm_level (cmm_pop m) = cmm_level m - 1" "length (d_nextFreeStack (cmm_pop m)) = cmm_level m - 1"
    "length (d_endChunkStack (cmm_pop m)) = cmm_level m - 1" "cmm_mallocs (cmm_pop m) = cmm_mallocs m"
    using I(5,6) by (simp_all add: pop cmm_level_def)
  show "d_chunkList (cmm_pop m) = take (Suc (mark_index m (cmm_level m - 1))) (d_chunkList m)"
    "d_indexChunkList (cmm_pop m) = mark_index m (cmm_level m - 1)" by (simp_all add: pop k_def)
  show "mark_index (cmm_pop m) L = mark_index m L \<and> mark_next (cmm_pop m) L = mark_next m L \<and> mark_end (cmm_pop m) L = mark_end m L"
    if "L < cmm_level m"
    using that ne I(5,6) by (simp add: pop mark_defs nth_append last [symmetric])
  obtain n where n: "?f = drop n (d_freeChunks m @ cs)" using free_excess_facts(2) by blast
  have "mset (take (Suc k) (d_chunkList m) @ d_freeChunks m @ cs) = mset (d_chunkList m @ d_freeChunks m)"
    by (simp add: rel(2) mset_take_drop)
  then have perm: "distinct (take (Suc k) (d_chunkList m) @ d_freeChunks m @ cs)"
    "set (take (Suc k) (d_chunkList m) @ d_freeChunks m @ cs) = set (d_chunkList m @ d_freeChunks m)"
    using I(2) by (metis mset_eq_imp_distinct_iff, metis set_mset_mset)
  from perm(1) show "distinct (d_chunkList (cmm_pop m) @ d_freeChunks (cmm_pop m))"
    by (auto simp: pop n dest: in_set_dropD)
  from perm(2) show "set (d_chunkList (cmm_pop m) @ d_freeChunks (cmm_pop m)) \<subseteq> set (d_chunkList m @ d_freeChunks m)"
    by (auto simp: pop n dest!: in_set_dropD)
  show "length (d_freeChunks (cmm_pop m)) \<le> maxFreeChunks" by (simp add: pop free_excess_facts(1))
qed

lemma cmm_pop_inv:
  assumes "cmm_inv m" and "0 < cmm_level m"
  shows "cmm_inv (cmm_pop m)"
proof -
  note I = cmm_invD [OF assms(1)] and P = pop_marks [OF assms]
  have le: "mark_index m L \<le> mark_index m (cmm_level m - 1)" if "L \<le> cmm_level m - 1" for L
    using mark_le_mono [OF assms(1) that] by (simp add: mark_le_def)
  have "mark_index m (cmm_level m - 1) < length (d_chunkList m)" using I(7) [of "cmm_level m - 1"] by (simp add: mark_ok_def)
  then have len: "length (d_chunkList (cmm_pop m)) = Suc (mark_index m (cmm_level m - 1))" by (simp add: P(5))
  have "mark_ok (cmm_pop m) L" if "L \<le> cmm_level m - 1" for L
    using that assms(2) P(4) [of L] I(7) [of L] le [OF that] len by (simp add: mark_ok_def P(5))
  moreover have "mark_le (cmm_pop m) L (Suc L)" if "L < cmm_level m - 1" for L
    using that P(4) [of L] P(4) [of "Suc L"] I(8) [of L] by (simp add: mark_le_def)
  ultimately show ?thesis using P(1,2,3,6-10) len I(3) by (auto simp: cmm_inv_def)
qed

lemma cmm_pop_region:
  assumes "cmm_inv m" and "L < cmm_level m"
  shows "cmm_region (cmm_pop m) L = cmm_region m L"
proof -
  have "0 < cmm_level m" using assms(2) by simp
  note P = pop_marks [OF assms(1) this] and I = cmm_invD [OF assms(1)]
  have "mark_index m L \<le> mark_index m (cmm_level m - 1)"
    using assms(2) mark_le_mono [OF assms(1), of L "cmm_level m - 1"] by (simp add: mark_le_def)
  then show ?thesis using P(4) [OF assms(2)] by (simp add: cmm_region_def P(5) min_def)
qed

interpretation region_stack: backtrackable cmm_inv cmm_level cmm_push cmm_pop cmm_region
proof
  show "cmm_region (cmm_push s) L = cmm_region s L" if "cmm_inv s" "L \<le> cmm_level s" for s L
    using cmm_push_marks(2) [OF that] by (simp add: cmm_region_def) (simp add: cmm_push_def)
qed (simp_all add: cmm_push_inv cmm_push_marks cmm_pop_inv pop_marks cmm_pop_region)

section \<open>What an allocation returns\<close>

definition block :: "ptr \<Rightarrow> nat \<Rightarrow> ptr set" where
  "block p sz = {(c, i). c = fst p \<and> snd p \<le> i \<and> i < snd p + sz}"

lemma newData_correct:
  assumes "cmm_inv m" and "sz \<le> chunkSizeBytes"
  obtains p m' where "newData sz m = Inr (p, m')" "cmm_inv m'" "cmm_level m' = cmm_level m"
    "\<And>L. L < cmm_level m \<Longrightarrow> cmm_region m' L = cmm_region m L"
    "fst p \<in> set (d_chunkList m')" "snd p + sz \<le> chunkSizeBytes"
    "block p sz \<inter> live_bytes m = {}" "block p sz \<union> live_bytes m \<subseteq> live_bytes m'"
proof (cases "snd (d_nextFree m) + sz \<le> chunkSizeBytes")
  case True
  note F = newData_fits [OF assms(1) True] and R = current_region [OF assms(1)]
  have ne: "d_chunkList m \<noteq> []" using cmm_invD(1) [OF assms(1)] by auto
  have fst: "fst (d_nextFree m) = last (d_chunkList m)" using R(1) by (metis fst_conv)
  have "last (d_chunkList m) \<notin> set (butlast (d_chunkList m))"
    using cmm_invD(2) [OF assms(1)] append_butlast_last_id [OF ne] by (metis distinct_append not_distinct_conv_prefix)
  then have "block (d_nextFree m) sz \<inter> live_bytes m = {}" by (auto simp: block_def R(4) fst)
  moreover have "block (d_nextFree m) sz \<union> live_bytes m \<subseteq> live_bytes (m\<lparr>d_nextFree := ptr_add (d_nextFree m) sz\<rparr>)"
    by (subst current_region(4) [OF F(2)]) (auto simp: block_def R(4) fst ptr_add_def)
  ultimately show ?thesis using that [OF F(1,2) _ F(3)] True ne by (simp add: fst cmm_level_def)
next
  case False
  then obtain c m' where N: "newData sz m = Inr ((c, 0), m')" "cmm_inv m'" "\<And>L. L < cmm_level m \<Longrightarrow> cmm_region m' L = cmm_region m L"
    "c \<notin> set (d_chunkList m)" "d_chunkList m' = d_chunkList m @ [c]" "d_nextFree m' = (c, sz)" "cmm_level m' = cmm_level m"
    using newData_new_chunk [OF assms(1) _ assms(2)] by (metis not_le)
  note R = current_region [OF assms(1)]
  have "d_chunkList m \<noteq> []" using cmm_invD(1) [OF assms(1)] by auto
  then have "block (c, 0) sz \<inter> live_bytes m = {}" "block (c, 0) sz \<union> live_bytes m \<subseteq> live_bytes m'"
    using N(4-6) by (auto simp: block_def R(4) current_region(4) [OF N(2)] dest: in_set_butlastD)
  then show ?thesis using that [OF N(1,2,7,3)] N(5) assms(2) by simp
qed

lemma current_state:
  "cmm_inv m \<Longrightarrow> cmm_region m (cmm_level m) = (d_chunkList m, d_nextFree m, d_endChunk m)"
  using cmm_invD(1) [of m] mark_top [OF cmm_invD(5,6), of m] by (simp add: cmm_region_def)

lemma lower_regions_live:
  assumes "cmm_inv m" and "L \<le> cmm_level m"
  shows "region_bytes (cmm_region m L) \<subseteq> live_bytes m"
proof -
  note I = cmm_invD [OF assms(1)] and le = mark_le_mono [OF assms order_refl]
  note top = mark_top [OF I(5,6)]
  let ?j = "mark_index m L"
  have ok: "?j < length (d_chunkList m)" "fst (mark_next m L) = d_chunkList m ! ?j" using I(7) [OF assms(2)] by (simp_all add: mark_ok_def)
  have ne: "d_chunkList m \<noteq> []" using ok(1) by auto
  have bl: "butlast (take (Suc ?j) (d_chunkList m)) = take ?j (d_chunkList m)" using ok(1) by (simp add: take_Suc_conv_app_nth)
  have cur: "butlast (d_chunkList m) = take (d_indexChunkList m) (d_chunkList m)" "last (d_chunkList m) = d_chunkList m ! d_indexChunkList m"
    using I(1) ne by (simp_all add: butlast_conv_take last_conv_nth)
  have j: "?j \<le> d_indexChunkList m" "?j = d_indexChunkList m \<Longrightarrow> snd (mark_next m L) \<le> snd (d_nextFree m)"
    using le top by (simp_all add: mark_le_def)
  have "set (take ?j (d_chunkList m)) \<subseteq> set (take (d_indexChunkList m) (d_chunkList m))" by (rule set_take_subset_set_take) (rule j(1))
  moreover have "d_chunkList m ! ?j \<in> set (take (d_indexChunkList m) (d_chunkList m))" if "?j < d_indexChunkList m"
    using that ok(1) by (force simp: in_set_conv_nth)
  ultimately show ?thesis using j unfolding current_region(4) [OF assms(1)] cur
    by (cases "?j = d_indexChunkList m") (use bl in \<open>auto simp: region_bytes_def cmm_region_def ok(2)\<close>)
qed

datatype cmm_op = Alloc nat | PushRegion | PopRegion

definition cmm_step :: "cmm_op \<Rightarrow> cmm \<Rightarrow> cmm" where
  "cmm_step opn m =
     (case opn of
        Alloc sz \<Rightarrow> (case newData sz m of Inr (p, m') \<Rightarrow> m' | Inl e \<Rightarrow> m)
      | PushRegion \<Rightarrow> cmm_push m
      | PopRegion \<Rightarrow> cmm_pop m)"

definition cmm_ok :: "cmm_op \<Rightarrow> cmm \<Rightarrow> bool" where
  "cmm_ok opn m = (case opn of Alloc sz \<Rightarrow> sz \<le> chunkSizeBytes | PushRegion \<Rightarrow> True | PopRegion \<Rightarrow> 0 < cmm_level m)"

lemma Alloc_step:
  assumes "cmm_inv m" and "sz \<le> chunkSizeBytes"
  shows "cmm_inv (cmm_step (Alloc sz) m) \<and> (\<forall>L < cmm_level m. cmm_region (cmm_step (Alloc sz) m) L = cmm_region m L)"
  by (rule newData_correct [OF assms]) (simp add: cmm_step_def)

interpretation regions: backtracking_client cmm_inv cmm_level cmm_push cmm_pop cmm_region cmm_step cmm_ok
proof
  show "cmm_inv (cmm_step opn m)" if "cmm_inv m" "cmm_ok opn m" for opn m
    using that Alloc_step by (cases opn) (simp_all add: cmm_ok_def, simp_all add: cmm_step_def cmm_push_inv cmm_pop_inv)
  show "cmm_region (cmm_step opn m) L = cmm_region m L"
    if "cmm_inv m" "cmm_ok opn m" "L < cmm_level m" "L \<le> cmm_level (cmm_step opn m)" for opn m L
    using that Alloc_step
    by (cases opn) (simp_all add: cmm_ok_def, simp_all add: cmm_step_def region_stack.push_look cmm_pop_region)
qed

end
