(* ===== verification/Spec2Isabelle.thy ===== *)
theory Spec2Isabelle
  imports Propositional_Rewriting Bitblaster Cnf_Correctness Context_Runs Context_Memory
begin

text \<open>
  The bit-vector core of CVC4: the arithmetic its constants are built on, the rewriter that normalises
  bit-vector terms, the bit-blasters that turn them into Boolean circuits, the CNF stream that turns formulas into
  clauses, and the SAT solver that stores and propagates them.

  \<^bold>\<open>The program.\<close> A bit-vector term is a node with a kind, children and possibly parameters; its constants
  are values of the class \<open>BitVector\<close>, a width and an \<open>Integer\<close>, which wraps GMP. The type rules give
  a term its type. \<open>TheoryBVRewriter\<close> rewrites a term by the function its table holds for the kind;
  each function runs rewrite rules in a fixed order. \<open>TheoryBoolRewriter\<close> simplifies the connectives. \<open>Rewriter::rewrite\<close>
  calls the rewriters of the theories until nothing changes, on a stack of its own and with caches, and spends a resource in every
  iteration; the \<open>ResourceManager\<close> counts resources and time and interrupts a call that passes its limits. The lazy and the eager bit-blaster translate a
  rewritten term by the strategy their tables hold for its kind; strategies call back into the
  bit-blaster for the children, use the circuits of \<open>bitblast_utils.h\<close>, and the bit-blaster caches
  the bits of terms and asserts the definition of each atom to the CNF stream. \<open>TseitinCnfStream\<close> gives every
  Boolean node a literal, defines the literals of connectives by clauses, and hands the clauses to a solver behind
  the interface \<open>SatSolver\<close>; for bit-vectors this is \<open>BVMinisatSatSolver\<close>, a wrapper of \<open>SimpSolver\<close>, which extends
  the core solver of Minisat. The state of the components is kept in contexts: objects that are saved when a scope is pushed and
  restored when it is popped, with memory by regions.

  \<^bold>\<open>The theories\<close>, from the bottom up; sources are under \<open>src/src\<close>.
  \<^item> \<open>Prelude\<close>: exceptions as values, the \<open>unsigned\<close> arithmetic of C++, lists of bits as numbers.
  \<^item> \<open>Integer_Util\<close>: \<open>util/integer_gmp_imp.h\<close> and \<open>.cpp\<close>. GMP is a record of functions; what its manual
    documents is the locale \<open>gmp_documented\<close>, interpreted on a reference implementation.
  \<^item> \<open>BV_Semantics\<close>: the SMT-LIB operations on numbers, the specification everything is proved against.
  \<^item> \<open>Bit_Vector\<close>: the class \<open>BitVector\<close> (\<open>util/bitvector.h\<close>), with the invariant \<open>bv_wf\<close> and the refinement
    of the SMT-LIB operations by its methods.
  \<^item> \<open>Nodes\<close>, \<open>Node_Semantics\<close>: terms; the type rules of \<open>theory/bv/theory_bv_type_rules.h\<close>, of the Boolean
    and of the builtin theory; \<open>typeOf\<close>, the intended typing, and \<open>eval\<close>, the value of a term under an
    interpretation of its variables and of division by zero.
  \<^item> \<open>BV_Utils\<close>: the term constructors and tests of \<open>theory/bv/theory_bv_utils.h\<close>.
  \<^item> \<open>Bitblast_Circuits\<close>: \<open>theory/bv/bitblast_utils.h\<close> and the divider and barrel shifters of the
    strategies, generic in the type of bits; the locale \<open>bit_sem\<close> says what bits mean, and is
    interpreted for nodes as bits.
  \<^item> \<open>Bitblast_Strategies\<close>: all strategies of \<open>theory/bv/bitblast_strategies_template.h\<close> and the tables of
    \<open>bitblaster_template.h\<close>, as stateful fallible functions; the locale \<open>bitblaster_contract\<close> is what
    a strategy relies on when it calls back, and \<open>bitblaster_simulation\<close> relates two bit-blasters whose calls agree.
  \<^item> \<open>BV_Rewrite_Rules\<close>: the rule framework of \<open>theory/bv/theory_bv_rewrite_rules.h\<close> and what soundness of
    a rule means; \<open>Concatenations\<close> and \<open>Nary_Terms\<close> are the algebra the proofs share (the locale
    \<open>width_monoid\<close> for the associative and commutative operators).
  \<^item> \<open>Rules_Constant_Evaluation\<close>, \<open>Rules_Core\<close>, \<open>Rules_Operator_Elimination\<close>, \<open>Rules_Simplification\<close> (with the
    proofs about arithmetic in \<open>Rules_Simplification_Arith\<close>): the rules of the headers of these names.
  \<^item> \<open>Rules_Normalization\<close>, \<open>Rules_Products\<close>, \<open>Rules_Linear\<close>, \<open>Rules_Bitwise\<close>: the rules of
    \<open>theory/bv/theory_bv_rewrite_rules_normalization.h\<close>, in this order: flattening and pushing extractions
    inwards; products; sums, with the maps that combine like terms; and, or, xor and slicing.
  \<^item> \<open>BV_Rewriter\<close>, \<open>BV_Rewrite_Table\<close>: the functions of the rewrite table, the table and its two entry
    points (\<open>theory/bv/theory_bv_rewriter.cpp\<close>), and the soundness of every entry.
  \<^item> \<open>Bool_Rewriter\<close>: the rewriter of the Boolean theory (\<open>theory/booleans/theory_bool_rewriter.cpp\<close>), with its soundness.
  \<^item> \<open>Resource_Manager\<close>: \<open>util/resource_manager.cpp\<close>, the listeners and options that set its limits; timers against clock
    readings that are an argument.
  \<^item> \<open>Generic_Rewriter\<close>: \<open>theory/rewriter.cpp\<close> with its caches and the dispatch to the theories, as partial functions; the
    locale \<open>theory_rewriters\<close> is what the rewriters of theories promise on a set of terms, and gives termination.
    \<open>Propositional_Rewriting\<close> interprets it on the Boolean rewriter; \<open>Rewriter_Soundness\<close> shows, without it, that a run
    keeps the meaning when the calls it records do.
  \<^item> \<open>Bitblaster\<close>: \<open>theory/bv/lazy_bitblaster.cpp\<close> and \<open>eager_bitblaster.cpp\<close> over that rewriter: state (term cache, atoms, variables, the
    calls on the CNF stream and its solver in order, the rewriter with the resource manager), \<open>bbTerm\<close>, \<open>bbAtom\<close>, the stores and the
    reachable states. The locale \<open>bb_range\<close> asks that rewriting keeps the meaning and gives the contract \<open>bitblaster_contract\<close>. The modelled
    rewriter does so for calls in its range; \<open>bb_program\<close> has sublocales of \<open>bb_range\<close> for the bit-blaster stopped at the first call
    out of range (\<open>ranged\<close>), which the bit-blaster itself simulates while its calls are in range, and for terms
    without shifts, where the rewriter is not called. It is interpreted on the rewriters of this development in the
    last theory.
  \<^item> \<open>Sat_Solver\<close>: literals, clauses and the interface of the solver (\<open>prop/sat_solver_types.h\<close>, \<open>sat_solver.h\<close>); the
    locale \<open>sat_solver\<close> is what the CNF stream relies on. \<open>Theory_Of\<close>: which theory owns a term
    (\<open>theory/theory.cpp\<close>).
  \<^item> \<open>Cnf_Stream\<close>, \<open>Cnf_Correctness\<close>: \<open>prop/cnf_stream.cpp\<close>, and its correctness over any solver that keeps the
    contract \<open>sat_solver\<close>.
  \<^item> \<open>Minisat_Core\<close>, \<open>Minisat_Correctness\<close>: \<open>prop/bvminisat/core/Solver.cc\<close>: clause database, watch lists, trail, unit
    propagation and \<open>addClause_\<close>, with the invariant \<open>ms_inv\<close> and the models of the database.
  \<^item> \<open>Simp_Solver\<close>: \<open>prop/bvminisat/simp/SimpSolver.cc\<close> and the wrapper \<open>prop/bvminisat/bvminisat.cpp\<close>, which keeps
    the contract \<open>sat_solver\<close>; the states while a problem is loaded, before the first \<open>solve\<close> or \<open>eliminate\<close>.

  \<^item> \<open>Context_Objects\<close>, \<open>Context_Correctness\<close>, \<open>Context_Runs\<close>: \<open>context/context.cpp\<close>, \<open>cdo.h\<close> and \<open>cdlist.h\<close>: scopes, objects with their
    saved versions, the invariant \<open>ctx_inv\<close> and the refinement of a stack of stores. \<open>Context_Memory\<close>: the region allocator
    \<open>context/context_mm.cpp\<close>. Both keep the contracts \<open>backtrackable\<close> and \<open>backtracking_client\<close> of \<open>Backtracking\<close>.

  \<^bold>\<open>What is shown\<close> (the theorems below, C1 to C40). From every state a sequence of calls can reach, what the bit-blasters
  return for a term spells its value under every interpretation, their cache is sound and the formulas they assert are valid, as long as
  the rewriters of the theories were called within their range; on supported terms without shifts they do return; the clauses the CNF stream adds are equisatisfiable with the formulas it is
  given, so that an inconsistent solver means unsatisfiable formulas; \<open>addClause_\<close> restricts the models by exactly
  its clause, and unit propagation ends in a state where no clause is unit or false; adder, multiplier, divider, comparators and shifters compute the
  operations; every modelled rule and table function keeps type and value, with the exact side
  conditions where there are some, as does the Boolean rewriter, and the generic rewriter that composes them; it ends on propositional
  formulas, by a weight that every rewrite lowers; resource limits interrupt a call exactly at its budget, while two limits are
  shown not to work as meant; contexts restore their objects and their memory when they are popped; one rule, \<open>UdivSelf\<close>, is shown to be wrong for zero; \<open>BitVector\<close>
  refines the SMT-LIB operations and rejects operands of different widths; the type rules compute the
  type and reject ill-typed terms; timers on the wall clock expire when they should; the conversions of \<open>Integer\<close> have the
  ranges stated.

  \<^bold>\<open>Fuel.\<close> The mutual recursion of strategies and bit-blaster is cut by a bound on the depth of calls. For terms without
  shifts the bound of the theorems, the size of the term, is enough because each call is on a child; the theorems state that these calls
  return. The strategy of a shift hands its guard to \<open>bbAtom\<close>, which rewrites it: there the theorems are about calls that return, at any
  depth.

  The loop of unit propagation is \<open>while_option\<close>; the theorems state that it returns, by a measure on the unassigned
  variables and the facts still to propagate. The recursion of the CNF stream is structural.

  The generic rewriter is \<open>partial_function (option)\<close>: where it would loop, its value is \<open>None\<close>. On propositional formulas it is
  shown to return; in general that depends on the rewriters of the theories, and soundness is about runs that return.

  \<^bold>\<open>Machine integers.\<close> Widths and amounts are C++ \<open>unsigned\<close>, kept as natural numbers with \<open>mod 2 ^ 32\<close>
  written out in \<open>u32\<close> and \<open>u32_sub\<close>; \<open>ExtractConcat\<close> computes with \<open>int\<close>, read by \<open>i32\<close>. SAT variables and
  literals are 64-bit words; Minisat numbers variables by \<open>int\<close>, so the CNF theorems are about formulas with
  fewer than \<open>2 ^ 30\<close> subterms, where twice a variable still fits. Resource counters and budgets are 64-bit words.

  \<^bold>\<open>Not modelled.\<close> The range of the theory rewriters (\<open>supported_call\<close>) is a condition on the calls a run makes: widths below
  \<open>2 ^ 31\<close>, Boolean nodes of fewer than \<open>2 ^ 26 - 2\<close> subterms (so that \<open>flattenNode\<close> never splits a node at its maximal arity), only the
  builtin, the Boolean and the bit-vector theory, and no total division on which \<open>UdivSelf\<close> fires, since that rule is wrong: an atom
  like \<open>(x udiv x) = y\<close> is translated to a definition that is not valid. Termination of rewriting beyond propositional formulas. The
  bit-blasters record their calls on the CNF stream; the resources these calls spend themselves are not counted there. Decision levels
  above zero of the SAT solver. Search, conflict analysis, assumptions, variable
  elimination and the decision heap of the SAT solver; call-backs of the registrar into the CNF stream; models,
  abstraction and proofs of the bit-blasters; the rules whose bodies begin with \<open>Unreachable()\<close>;
  objects that live in context memory, and the context-dependent maps beyond insertion; the conversions between bit-vectors and integers, which need the arithmetic theory. \<open>Assert\<close> and
  \<open>DebugCheckArgument\<close> expand to nothing in production builds and are no branch of the model. The rest of
  the system (other theories, engine, parsers, printers) does not take part in the behaviour above.
\<close>

abbreviation (input) ex_shift :: node where
  "ex_shift \<equiv> App BITVECTOR_SHL [Variable 0 (BITVECTOR_TYPE 4), Variable 1 (BITVECTOR_TYPE 4)]"

abbreviation (input) ex_const :: node where
  "ex_const \<equiv> CONST_BITVECTOR \<lparr>d_size = 8, d_value = 200\<rparr>"

section \<open>The circuits over nodes\<close>

text \<open>The number a list of Boolean nodes stands for under an interpretation.\<close>

definition bits_value :: "interp \<Rightarrow> node list \<Rightarrow> int" where
  "bits_value I bits = bits_val (map (sem_node I) bits)"

abbreviation (input) ok_bits :: "interp \<Rightarrow> nat \<Rightarrow> node list \<Rightarrow> bool" where
  "ok_bits I w bits \<equiv> list_all (ok_node I) bits \<and> length bits = w"

lemma repr_bits: "node_bits.repr I bits w v \<longleftrightarrow> ok_bits I w bits \<and> bits_value I bits = v"
  by (auto simp: node_bits.repr_def node_bits.bval_def bits_value_def)

lemma ok_bits_repr: "ok_bits I w bits \<Longrightarrow> node_bits.repr I bits w (bits_value I bits)"
  by (simp add: repr_bits)

abbreviation (input) ex_bits :: "bool list \<Rightarrow> node list" where
  "ex_bits bs \<equiv> map CONST_BOOLEAN bs"

lemma ex_bits_ok: "ok_bits I (length bs) (ex_bits bs)" "bits_value I (ex_bits bs) = bits_val bs"
  by (simp_all add: list_all_length ok_node_def bits_value_def sem_node_def comp_def)

text \<open>C16. \<open>rippleCarryAdder\<close> adds modulo the power of two, and its carry out says whether the sum overflowed.\<close>

theorem rippleCarryAdder_correct:
  assumes "ok_bits I w a" and "ok_bits I w b" and "ok_node I carry" and "rippleCarryAdder node_ops a b carry = (res, co)"
  shows "ok_bits I w res \<and>
    bits_value I res = (bits_value I a + bits_value I b + of_bool (sem_node I carry)) mod 2 ^ w \<and>
    (sem_node I co \<longleftrightarrow> 2 ^ w \<le> bits_value I a + bits_value I b + of_bool (sem_node I carry))"
  using node_bits.rippleCarryAdder_repr [OF ok_bits_repr [OF assms(1)] ok_bits_repr [OF assms(2)] assms(3,4)]
  by (simp add: repr_bits)

theorem rippleCarryAdder_correct_witness:
  "\<exists>res co. rippleCarryAdder node_ops (ex_bits [True, True, False]) (ex_bits [True, False, True]) (CONST_BOOLEAN True) = (res, co) \<and>
    bits_value default_interp res = 1 \<and> sem_node default_interp co"
proof -
  obtain res co where r: "rippleCarryAdder node_ops (ex_bits [True, True, False]) (ex_bits [True, False, True]) (CONST_BOOLEAN True) = (res, co)"
    by fastforce
  have "ok_node default_interp (CONST_BOOLEAN True)" by (auto simp: ok_node_def)
  from rippleCarryAdder_correct [where w = 3, OF _ _ this r] r show ?thesis
    using ex_bits_ok(1) [of default_interp "[True, True, False]"] ex_bits_ok(1) [of default_interp "[True, False, True]"]
      ex_bits_ok(2) [of default_interp "[True, True, False]"] ex_bits_ok(2) [of default_interp "[True, False, True]"]
    by (simp add: sem_node_def)
qed

text \<open>C15. \<open>shiftAddMultiplier\<close> multiplies modulo the power of two.\<close>

theorem shiftAddMultiplier_correct:
  assumes "ok_bits I w a" and "ok_bits I w b" and "0 < w"
  shows "ok_bits I w (shiftAddMultiplier node_ops a b) \<and>
    bits_value I (shiftAddMultiplier node_ops a b) = bits_value I a * bits_value I b mod 2 ^ w"
  using node_bits.shiftAddMultiplier_repr [OF ok_bits_repr [OF assms(1)] ok_bits_repr [OF assms(2)] assms(3)]
  by (simp add: repr_bits bvmul_def)

theorem shiftAddMultiplier_correct_witness:
  "bits_value default_interp (shiftAddMultiplier node_ops (ex_bits [True, True, False]) (ex_bits [True, False, True])) = 7"
  using shiftAddMultiplier_correct [where w = 3 and I = default_interp, of "ex_bits [True, True, False]" "ex_bits [True, False, True]"]
    ex_bits_ok(1) [of default_interp "[True, True, False]"] ex_bits_ok(1) [of default_interp "[True, False, True]"]
    ex_bits_ok(2) [of default_interp "[True, True, False]"] ex_bits_ok(2) [of default_interp "[True, False, True]"]
  by simp

text \<open>C14. \<open>uDivModRec\<close>, run for the full width, computes quotient and remainder by a divisor that is not zero.\<close>

theorem uDivModRec_correct:
  assumes "ok_bits I w a" and "ok_bits I w b" and "uDivModRec node_ops a b w = (q, r)" and "bits_value I b \<noteq> 0"
  shows "ok_bits I w q \<and> ok_bits I w r \<and> bits_value I q = bits_value I a div bits_value I b \<and>
    bits_value I r = bits_value I a mod bits_value I b"
proof -
  have "bits_value I a < 2 ^ w" "0 \<le> bits_value I b"
    using node_bits.bval_less [of I a] node_bits.bval_nonneg [of I b] assms(1) by (simp_all add: node_bits.bval_def bits_value_def)
  with node_bits.uDivModRec_repr [OF ok_bits_repr [OF assms(1)] ok_bits_repr [OF assms(2)] _ assms(3)] assms(4)
  show ?thesis by (auto simp: repr_bits)
qed

theorem uDivModRec_correct_witness:
  "\<exists>q r. uDivModRec node_ops (ex_bits [True, True, True]) (ex_bits [False, True, False]) 3 = (q, r) \<and>
    bits_value default_interp q = 3 \<and> bits_value default_interp r = 1"
proof -
  obtain q r where qr: "uDivModRec node_ops (ex_bits [True, True, True]) (ex_bits [False, True, False]) 3 = (q, r)" by fastforce
  from uDivModRec_correct [where w = 3 and I = default_interp, OF _ _ qr] qr show ?thesis
    using ex_bits_ok(1) [of default_interp "[True, True, True]"] ex_bits_ok(1) [of default_interp "[False, True, False]"]
      ex_bits_ok(2) [of default_interp "[True, True, True]"] ex_bits_ok(2) [of default_interp "[False, True, False]"]
    by simp
qed

text \<open>C17. The comparators \<open>uLessThanBB\<close> and \<open>sLessThanBB\<close>, strict or not, decide the unsigned and the two's
  complement order.\<close>

theorem lessThanBB_correct:
  assumes "ok_bits I w a" and "ok_bits I w b" and "0 < w"
  shows "sem_node I (uLessThanBB node_ops a b orEqual) =
      (if orEqual then bits_value I a \<le> bits_value I b else bits_value I a < bits_value I b) \<and>
    sem_node I (sLessThanBB node_ops a b orEqual) =
      (if orEqual then sval w (bits_value I a) \<le> sval w (bits_value I b)
       else sval w (bits_value I a) < sval w (bits_value I b))"
  using node_bits.uLessThanBB_sem(2) [OF ok_bits_repr [OF assms(1)] ok_bits_repr [OF assms(2)] assms(3)]
    node_bits.sLessThanBB_sem(2) [OF ok_bits_repr [OF assms(1)] ok_bits_repr [OF assms(2)] assms(3)]
  by simp_all

theorem lessThanBB_correct_witness:
  "\<not> sem_node default_interp (uLessThanBB node_ops (ex_bits [True, True, True]) (ex_bits [False, True, False]) False) \<and>
   sem_node default_interp (sLessThanBB node_ops (ex_bits [True, True, True]) (ex_bits [False, True, False]) False)"
  using lessThanBB_correct [where w = 3 and I = default_interp, of "ex_bits [True, True, True]" "ex_bits [False, True, False]" False]
    ex_bits_ok(1) [of default_interp "[True, True, True]"] ex_bits_ok(1) [of default_interp "[False, True, False]"]
    ex_bits_ok(2) [of default_interp "[True, True, True]"] ex_bits_ok(2) [of default_interp "[False, True, False]"]
  by (simp add: sval_def)

text \<open>C18. The barrel shifters read \<open>log2_size\<close> low bits of the amount: the left shifter multiplies, and the right
  shifter with a constant fill divides the value extended by the fill bit on the left.\<close>

theorem barrel_shifters_correct:
  assumes "ok_bits I w a" and "ok_bits I w b" and "k \<le> w"
  shows "bits_value I (shl_barrel node_ops a b k) = bits_value I a * 2 ^ nat (bits_value I b mod 2 ^ k) mod 2 ^ w \<and>
    bits_value I (shr_barrel node_ops (CONST_BOOLEAN fill) a b k) =
      (bits_value I a - of_bool fill * 2 ^ w) div 2 ^ nat (bits_value I b mod 2 ^ k) mod 2 ^ w"
proof -
  note a = ok_bits_repr [OF assms(1)] and b = ok_bits_repr [OF assms(2)]
  let ?z = "bits_value I a - of_bool fill * 2 ^ w"
  have in_w: "in_width w (bits_value I a)"
    using node_bits.bval_less [of I a] node_bits.bval_nonneg [of I a] assms(1) by (simp add: node_bits.bval_def bits_value_def in_width_def)
  then have za: "?z mod 2 ^ w = bits_value I a" by (simp add: mod_diff_right_eq [symmetric])
  have "bit ?z j = fill" if j: "w \<le> j" for j
  proof (cases fill)
    case True
    have "- (2 ^ j) \<le> ?z" "?z < 0"
      using in_w power_increasing [OF j, of "2 :: int"] True unfolding in_width_def by (simp_all only: of_bool_eq mult_1, linarith+)
    then have "?z div 2 ^ j = - 1" by (rule int_neg_div_pow2)
    then show ?thesis using True by (simp add: bit_iff_odd)
  qed (use in_width_not_bit [OF in_w j] in simp)
  then have "node_bits.repr I (shr_barrel node_ops (CONST_BOOLEAN fill) a b k) w (?z div 2 ^ nat (bits_value I b mod 2 ^ k) mod 2 ^ w)"
    using node_bits.shr_barrel_repr [OF _ b assms(3), of a ?z "CONST_BOOLEAN fill"] a
    by (simp add: za ok_node_def sem_node_def)
  then show ?thesis using node_bits.shl_barrel_repr [OF a b assms(3)] by (simp add: repr_bits)
qed

theorem barrel_shifters_correct_witness:
  "bits_value default_interp (shl_barrel node_ops (ex_bits [True, True, False, True]) (ex_bits [False, True, False, False]) 2) = 12 \<and>
   bits_value default_interp (shr_barrel node_ops (CONST_BOOLEAN True) (ex_bits [True, True, False, True]) (ex_bits [False, True, False, False]) 2) = 14"
  using barrel_shifters_correct [where w = 4 and I = default_interp and k = 2 and fill = True, of "ex_bits [True, True, False, True]" "ex_bits [False, True, False, False]"]
    ex_bits_ok(1) [of default_interp "[True, True, False, True]"] ex_bits_ok(1) [of default_interp "[False, True, False, False]"]
    ex_bits_ok(2) [of default_interp "[True, True, False, True]"] ex_bits_ok(2) [of default_interp "[False, True, False, False]"]
  by simp

section \<open>Types\<close>

text \<open>C37. For every well-typed term the type rules compute its type, with and without checking, and the term's
  value under every well-formed interpretation is of that type and fits its width.\<close>

theorem type_rules_compute_type:
  assumes "typeOf n = Some t" and "wf_interp I"
  shows "getType True n = Inr t \<and> getType False n = Inr t \<and> has_type (eval I n) t"
  using getType_typeOf [OF assms(1)] eval_has_type [OF assms] by blast

theorem type_rules_compute_type_witness:
  "getType True (App BITVECTOR_CONCAT [Variable 0 (BITVECTOR_TYPE 3), ex_const]) = Inr (BITVECTOR_TYPE 11)"
proof -
  have "typeOf (App BITVECTOR_CONCAT [Variable 0 (BITVECTOR_TYPE 3), ex_const]) = Some (BITVECTOR_TYPE 11)"
    by (simp add: typeOf_short type_op_iffs valid_width_def bv_wf_def in_width_def mk_bvtype_def)
  from type_rules_compute_type [OF this wf_interp_default] show ?thesis by blast
qed

text \<open>Turning the checks off changes no type: what the rules accept with checks they give the same type without.\<close>

definition keeps_results :: "typeNode exc list \<Rightarrow> typeNode exc list \<Rightarrow> bool" where
  "keeps_results ts us \<longleftrightarrow> list_all2 (\<lambda>a b. \<forall>t. a = Inr t \<longrightarrow> b = Inr t) ts us"

lemma keeps_child: "keeps_results ts us \<Longrightarrow> child ts i = Inr t \<Longrightarrow> child us i = Inr t"
  by (auto simp: keeps_results_def child_def list_all2_conv_all_nth split: if_splits)

lemma keeps_concat: "keeps_results ts us \<Longrightarrow> concatType_loop sz ts = Inr t \<Longrightarrow> concatType_loop sz us = Inr t"
proof (induction ts arbitrary: us sz)
  case (Cons a ts)
  then show ?case by (cases us) (auto simp: keeps_results_def split: if_splits)
qed (simp add: keeps_results_def)

lemma computeType_unchecked:
  assumes "keeps_results ts us" and "computeType True k ts = Inr t"
  shows "computeType False k us = Inr t"
proof -
  note rules = computeType_def type_rule_defs BitVectorFixedWidthTypeRule_def BitVectorConcatTypeRule_def BooleanTypeRule_def Let_def
  have all_bool: "allBoolean_loop ts = Inr u \<Longrightarrow> u = BOOLEAN_TYPE" for ts u by (induction ts) (auto split: if_splits)
  have same: "sameWidth_loop u ts = Inr v \<Longrightarrow> v = u" for u v ts by (induction ts) (auto split: if_splits)
  show ?thesis
    using assms(2) keeps_child [OF assms(1)] keeps_concat [OF assms(1)]
    by (cases k) (auto simp: rules split: if_splits dest: all_bool same)
qed

lemma getType_unchecked: "getType True n = Inr t \<Longrightarrow> getType False n = Inr t"
proof (induction n arbitrary: t)
  case (App k ns)
  then have "keeps_results (map (getType True) ns) (map (getType False) ns)" by (auto simp: keeps_results_def list_all2_conv_all_nth)
  with computeType_unchecked App.prems show ?case by simp
qed (auto simp: BitVectorConstantTypeRule_def split: if_splits)

lemma sameWidth_loop_outcome:
  "list_all2 (\<lambda>r t. r = Inr t) rs ts \<Longrightarrow>
    sameWidth_loop u rs = (if \<forall>t\<in>set ts. t = u then Inr u else throwType ''expecting bit-vector terms of the same width'')"
  by (induction rule: list_all2_induct) auto

text \<open>C38. What the type rules reject, over arguments that have types. With checks on, an operation on bit-vectors of one width is
  accepted if and only if all its arguments, however many, are bit-vectors of the same width, and otherwise a
  \<open>TypeCheckingExceptionPrivate\<close> says which condition fails; so are the comparisons; and a slice is rejected if it begins beyond the width.
  With checks off the operations take the type of their first argument and the comparisons are Boolean, whatever the other arguments. A slice
  whose high index is below its low index is rejected with checks on and off. And checks never change a type: what is accepted with
  checks has the same type without.\<close>

theorem type_rules_reject:
  assumes k: "k \<in> {BITVECTOR_AND, BITVECTOR_OR, BITVECTOR_XOR, BITVECTOR_NAND, BITVECTOR_NOR, BITVECTOR_XNOR, BITVECTOR_MULT, BITVECTOR_PLUS,
      BITVECTOR_SUB, BITVECTOR_UDIV, BITVECTOR_UREM, BITVECTOR_SDIV, BITVECTOR_SREM, BITVECTOR_SMOD, BITVECTOR_UDIV_TOTAL, BITVECTOR_UREM_TOTAL,
      BITVECTOR_SHL, BITVECTOR_LSHR, BITVECTOR_ASHR}"
    and p: "p \<in> {BITVECTOR_ULT, BITVECTOR_ULE, BITVECTOR_UGT, BITVECTOR_UGE, BITVECTOR_SLT, BITVECTOR_SLE, BITVECTOR_SGT, BITVECTOR_SGE}"
    and x: "getType True x = Inr t" and ys: "list_all2 (\<lambda>y u. getType True y = Inr u) ys us" and y: "getType True y = Inr u"
  shows "getType True (App k (x # ys)) =
      (if \<not> isBitVector t then throwType ''expecting bit-vector terms''
       else if \<forall>u\<in>set us. u = t then Inr t else throwType ''expecting bit-vector terms of the same width'') \<and>
    (getType True (App p [x, y]) = Inr BOOLEAN_TYPE \<longleftrightarrow> isBitVector t \<and> u = t) \<and>
    (\<not> (isBitVector t \<and> u = t) \<longrightarrow> (\<exists>msg. getType True (App p [x, y]) = throwType msg)) \<and>
    (lo \<le> hi \<and> t = BITVECTOR_TYPE w \<and> w \<le> hi \<longrightarrow>
      getType True (App (BITVECTOR_EXTRACT hi lo) [x]) = throwType ''high extract index is bigger than the size of the bit-vector'') \<and>
    (hi < lo \<longrightarrow> getType check (App (BITVECTOR_EXTRACT hi lo) [x]) = throwType ''high extract index is smaller than the low extract index'') \<and>
    getType False (App k (x # ys)) = Inr t \<and> getType False (App p [x, y]) = Inr BOOLEAN_TYPE \<and>
    (\<forall>n s. getType True n = Inr s \<longrightarrow> getType False n = Inr s)"
proof -
  have fixed: "computeType c k rs = BitVectorFixedWidthTypeRule c rs" and pred: "computeType c p rs = BitVectorPredicateTypeRule c rs"
    and slice: "computeType c (BITVECTOR_EXTRACT hi lo) rs = BitVectorExtractTypeRule c hi lo rs" for c rs
    using k p by (auto simp: computeType_def)
  have "list_all2 (\<lambda>r u. r = Inr u) (map (getType True) ys) us" using ys by (simp add: list_all2_map1)
  note loop = sameWidth_loop_outcome [OF this, of t]
  have "getType True (App k (x # ys)) = (if \<not> isBitVector t then throwType ''expecting bit-vector terms''
       else if \<forall>u\<in>set us. u = t then Inr t else throwType ''expecting bit-vector terms of the same width'')"
    using x loop by (simp add: fixed BitVectorFixedWidthTypeRule_def child_def)
  moreover have "getType False (App k (x # ys)) = Inr t"
    using getType_unchecked [OF x] by (simp add: fixed BitVectorFixedWidthTypeRule_def child_def)
  ultimately show ?thesis
    using x y getType_unchecked
    by (auto simp: pred slice BitVectorPredicateTypeRule_def BitVectorExtractTypeRule_def child_def isBitVector_def getBitVectorSize_def)
qed

theorem type_rules_reject_witness:
  "getType True (App BITVECTOR_PLUS [Variable 0 (BITVECTOR_TYPE 3), Variable 1 (BITVECTOR_TYPE 3), Variable 2 (BITVECTOR_TYPE 4)]) =
     throwType ''expecting bit-vector terms of the same width'' \<and>
   getType False (App BITVECTOR_PLUS [Variable 0 (BITVECTOR_TYPE 3), Variable 1 (BITVECTOR_TYPE 3), Variable 2 (BITVECTOR_TYPE 4)]) = Inr (BITVECTOR_TYPE 3)"
  using type_rules_reject [of BITVECTOR_PLUS BITVECTOR_ULT "Variable 0 (BITVECTOR_TYPE 3)" "BITVECTOR_TYPE 3"
      "[Variable 1 (BITVECTOR_TYPE 3), Variable 2 (BITVECTOR_TYPE 4)]" "[BITVECTOR_TYPE 3, BITVECTOR_TYPE 4]"
      "Variable 1 (BITVECTOR_TYPE 3)" "BITVECTOR_TYPE 3"] by (simp add: isBitVector_def)

text \<open>Widths are C++ \<open>unsigned\<close>: the rules for concatenation, repetition and extension compute them modulo
  \<open>2 ^ 32\<close> and never complain, so a term of \<open>2 ^ 32\<close> bits or more is given a smaller width.\<close>

lemma widths_wrap_around:
  assumes "getType check x = Inr (BITVECTOR_TYPE v)" and "getType check y = Inr (BITVECTOR_TYPE w)"
  shows "getType check (App BITVECTOR_CONCAT [x, y]) = Inr (BITVECTOR_TYPE ((v + w) mod 2 ^ 32)) \<and>
    getType check (App (BITVECTOR_REPEAT r) [x]) = Inr (BITVECTOR_TYPE ((r * v) mod 2 ^ 32)) \<and>
    getType check (App (BITVECTOR_SIGN_EXTEND r) [x]) = Inr (BITVECTOR_TYPE ((r + v) mod 2 ^ 32))"
  using assms
  by (simp add: computeType_def BitVectorConcatTypeRule_def BitVectorRepeatTypeRule_def BitVectorExtendTypeRule_def
      child_def isBitVector_def getBitVectorSize_def u32_def mod_simps)

section \<open>The class BitVector\<close>

text \<open>A fallible operation returns a well-formed bit-vector of a width and a value.\<close>

definition returns :: "bitvector exc \<Rightarrow> nat \<Rightarrow> int \<Rightarrow> bool" where
  "returns r w v \<longleftrightarrow> (\<exists>z. r = Inr z \<and> bv_wf z \<and> d_size z = w \<and> d_value z = v)"

lemma returns_BitVector:
  "gmp_documented G \<Longrightarrow> w < 2 ^ 32 \<Longrightarrow> in_width w v \<Longrightarrow> returns (Inr (BitVector G w v)) w v"
  by (simp add: returns_def gmp_documented.BitVector_fields gmp_documented.bv_wf_BitVector)

abbreviation (input) same_size :: "nat \<Rightarrow> bitvector \<Rightarrow> bitvector \<Rightarrow> bool" where
  "same_size w x y \<equiv> bv_wf x \<and> bv_wf y \<and> d_size x = w \<and> d_size y = w \<and> 0 < w"

text \<open>C33. The arithmetic and bitwise operators on well-formed bit-vectors of one width return a well-formed one
  with the value of the SMT-LIB operation: sums, differences, products and negation modulo the power of
  two, and division with all ones for a quotient, and the dividend for a remainder, by zero.\<close>

theorem BitVector_operators_refine:
  assumes "gmp_documented G" and "same_size w x y"
  shows "returns (BitVector_plus G x y) w ((d_value x + d_value y) mod 2 ^ w) \<and>
    returns (BitVector_minus G x y) w ((d_value x - d_value y) mod 2 ^ w) \<and>
    returns (BitVector_mult G x y) w ((d_value x * d_value y) mod 2 ^ w) \<and>
    returns (BitVector_neg G x) w ((- d_value x) mod 2 ^ w) \<and>
    returns (BitVector_unsignedDivTotal G x y) w (if d_value y = 0 then 2 ^ w - 1 else d_value x div d_value y) \<and>
    returns (BitVector_unsignedRemTotal G x y) w (if d_value y = 0 then d_value x else d_value x mod d_value y) \<and>
    returns (BitVector_and G x y) w (and (d_value x) (d_value y)) \<and>
    returns (BitVector_or G x y) w (or (d_value x) (d_value y)) \<and>
    returns (BitVector_xor G x y) w (xor (d_value x) (d_value y)) \<and>
    returns (Inr (BitVector_not G x)) w (2 ^ w - 1 - d_value x)"
proof -
  note G = assms(1) and R = returns_BitVector [OF assms(1)]
  have x: "bv_wf x" "bv_wf y" "d_size x = w" "d_size y = w" "0 < w" "w < 2 ^ 32" "d_size x = d_size y" "0 < d_size x"
    "in_width w (d_value x)" "in_width w (d_value y)"
    using assms(2) bv_wfD(1) [of x] bv_wfD(2) [of x] bv_wfD(2) [of y] by auto
  note ops = gmp_documented.plus_refines [OF G x(7)] gmp_documented.minus_refines [OF G x(2,7)] gmp_documented.mult_refines [OF G x(7)]
    gmp_documented.neg_refines [OF G x(1)] gmp_documented.unsignedDivTotal_refines [OF G x(1,2,7,8)]
    gmp_documented.unsignedRemTotal_refines [OF G x(1,2,7)] gmp_documented.bitwise_refines [OF G x(7)] gmp_documented.not_refines [OF G x(1)]
  show ?thesis
    unfolding ops x(3)
    using R [OF x(6)] x(9,10) in_width_division(1,2) [OF x(9,10)] in_width_bvnot [OF x(9)]
    by (auto simp: bvadd_def bvsub_def bvmul_def bvneg_def bvudiv_def bvurem_def bvnot_def)
qed

text \<open>The arithmetic of a 4-bit pair of operands, the second one zero.\<close>

abbreviation (input) ex_bv :: "int \<Rightarrow> bitvector" where
  "ex_bv v \<equiv> \<lparr>d_size = 4, d_value = v\<rparr>"

theorem BitVector_operators_refine_witness:
  "returns (BitVector_plus gmp_reference (ex_bv 9) (ex_bv 8)) 4 1 \<and>
   returns (BitVector_unsignedDivTotal gmp_reference (ex_bv 9) (ex_bv 0)) 4 15"
  using BitVector_operators_refine [OF reference.gmp_documented_axioms, of "ex_bv 9" "ex_bv 8" 4]
    BitVector_operators_refine [OF reference.gmp_documented_axioms, of "ex_bv 9" "ex_bv 0" 4]
  by (simp add: bv_wf_def in_width_def)

text \<open>C34. The three shifts return the shifted value for every amount: left shifts drop the high bits, right shifts
  fill with zeroes or with copies of the sign bit, and the amount saturates at the width.\<close>

theorem BitVector_shifts_refine:
  assumes "gmp_documented G" and "same_size w x y"
  shows "returns (BitVector_leftShift G x y) w (d_value x * 2 ^ nat (d_value y) mod 2 ^ w) \<and>
    returns (BitVector_logicalRightShift G x y) w (d_value x div 2 ^ nat (d_value y)) \<and>
    returns (BitVector_arithRightShift G x y) w (sval w (d_value x) div 2 ^ nat (d_value y) mod 2 ^ w)"
proof -
  note G = assms(1) and R = returns_BitVector [OF assms(1)]
  have x: "bv_wf x" "bv_wf y" "d_size x = w" "w < 2 ^ 32" "0 < d_size x" "in_width w (d_value x)" "in_width w (d_value y)"
    using assms(2) bv_wfD(1) [of x] bv_wfD(2) [of x] bv_wfD(2) [of y] by auto
  show ?thesis
    unfolding gmp_documented.leftShift_refines [OF G x(1,2)] gmp_documented.logicalRightShift_refines [OF G x(1,2)]
      gmp_documented.arithRightShift_refines [OF G x(1,2,5)] x(3)
    using R [OF x(4)] in_width_ops(5,6) [of w "d_value x" "d_value y"] in_width_division(5) [OF x(6,7)]
    by (simp add: bvshl_def bvlshr_def bvashr_def)
qed

theorem BitVector_shifts_refine_witness:
  "returns (BitVector_arithRightShift gmp_reference (ex_bv 9) (ex_bv 2)) 4 14"
  using BitVector_shifts_refine [OF reference.gmp_documented_axioms, of "ex_bv 9" "ex_bv 2" 4]
  by (simp add: bv_wf_def in_width_def sval_def)

text \<open>C35. Comparisons decide the unsigned and the signed order, with \<open>toSignedInt\<close> the two's complement reading.\<close>

theorem BitVector_comparisons:
  assumes "gmp_documented G" and "same_size w x y"
  shows "BitVector_unsignedLessThan x y = Inr (d_value x < d_value y) \<and>
    BitVector_unsignedLessThanEq x y = Inr (d_value x \<le> d_value y) \<and>
    BitVector_signedLessThan G x y = Inr (sval w (d_value x) < sval w (d_value y)) \<and>
    BitVector_signedLessThanEq G x y = Inr (sval w (d_value x) \<le> sval w (d_value y)) \<and>
    BitVector_toSignedInt G x = sval w (d_value x)"
proof -
  have x: "bv_wf x" "bv_wf y" "d_size x = d_size y" "0 < d_size x" "d_size x = w" using assms(2) by auto
  show ?thesis
    using gmp_documented.compare_refines [OF assms(1) x(1-4)] gmp_documented.toSignedInt_refines [OF assms(1) x(1,4)]
    by (simp add: x(5))
qed

theorem BitVector_comparisons_witness:
  "BitVector_signedLessThan gmp_reference (ex_bv 9) (ex_bv 2) = Inr True \<and> BitVector_unsignedLessThan (ex_bv 9) (ex_bv 2) = Inr False"
  using BitVector_comparisons [OF reference.gmp_documented_axioms, of "ex_bv 9" "ex_bv 2" 4]
  by (simp add: bv_wf_def in_width_def sval_def)

text \<open>Operands of different widths make every binary operator and comparison throw an
  \<open>IllegalArgumentException\<close>.\<close>

lemma BitVector_size_mismatch:
  assumes "d_size x \<noteq> d_size y"
  shows "list_all (\<lambda>f. f x y = Inl IllegalArgumentException)
      [BitVector_plus G, BitVector_minus G, BitVector_mult G, BitVector_and G, BitVector_or G, BitVector_xor G,
       BitVector_unsignedDivTotal G, BitVector_unsignedRemTotal G] \<and>
    list_all (\<lambda>f. f x y = Inl IllegalArgumentException)
      [BitVector_signedLessThan G, BitVector_signedLessThanEq G, BitVector_unsignedLessThan, BitVector_unsignedLessThanEq]"
  using assms
  by (simp add: BitVector_plus_def BitVector_minus_def BitVector_mult_def BitVector_and_def BitVector_or_def BitVector_xor_def
      BitVector_unsignedDivTotal_def BitVector_unsignedRemTotal_def BitVector_signedLessThan_def BitVector_signedLessThanEq_def
      BitVector_unsignedLessThan_def BitVector_unsignedLessThanEq_def check_compare_def)

text \<open>C36. Slicing a bit-vector in two and concatenating the slices gives it back, and slicing a concatenation gives
  the parts back.\<close>

theorem concat_extract_roundtrip:
  assumes "gmp_documented G" and "bv_wf x" and "0 < k" and "k < d_size x"
    and "bv_wf y" and "bv_wf z" and "0 < d_size y" and "0 < d_size z" and "d_size y + d_size z < 2 ^ 32"
  shows "BitVector_concat G (BitVector_extract G x (d_size x - 1) k) (BitVector_extract G x (k - 1) 0) = x \<and>
    BitVector_extract G (BitVector_concat G y z) (d_size y + d_size z - 1) (d_size z) = y \<and>
    BitVector_extract G (BitVector_concat G y z) (d_size z - 1) 0 = z"
proof -
  note G = assms(1)
  note F = gmp_documented.BitVector_fields [OF G] and W = gmp_documented.bv_wf_BitVector [OF G]
  let ?w = "d_size x" and ?v = "d_value x"
  have w: "?w < 2 ^ 32" "in_width ?w ?v" using bv_wfD [OF assms(2)] by auto
  have hi: "BitVector_extract G x (?w - 1) k = BitVector G (?w - k) (?v div 2 ^ k)"
    and lo: "BitVector_extract G x (k - 1) 0 = BitVector G k (?v mod 2 ^ k)"
    using gmp_documented.extract_refines [OF G assms(2), of k "?w - 1"] gmp_documented.extract_refines [OF G assms(2), of 0 "k - 1"]
      lshr_slices [OF w(2) assms(4)] bvextract_low [of 0 k ?v] assms(3,4) by (auto simp: bvconcat_def Suc_diff_Suc)
  have "?v div 2 ^ k < 2 ^ (?w - k)" 
    using w(2) assms(4) by (intro div_pow2_less) (simp add: in_width_def flip: power_add)
  then have in_hi: "in_width (?w - k) (?v div 2 ^ k)" using w(2) by (auto simp: in_width_def pos_imp_zdiv_nonneg_iff)
  have "BitVector_concat G (BitVector_extract G x (?w - 1) k) (BitVector_extract G x (k - 1) 0) = BitVector G ?w ?v"
    unfolding hi lo
    using gmp_documented.concat_refines [OF G, of "BitVector G (?w - k) (?v div 2 ^ k)" "BitVector G k (?v mod 2 ^ k)"]
      F W w(1) assms(4) in_hi div_mult_mod_eq [of ?v "2 ^ k"] by (simp add: bvconcat_def)
  moreover have "BitVector G ?w ?v = x" by (rule gmp_documented.BitVector_self [OF G assms(2)])
  moreover have "BitVector_extract G (BitVector_concat G y z) (d_size y + d_size z - 1) (d_size z) = y \<and>
    BitVector_extract G (BitVector_concat G y z) (d_size z - 1) 0 = z"
  proof -
    let ?c = "BitVector_concat G y z" and ?m = "d_size y" and ?n = "d_size z"
    have yz: "in_width ?m (d_value y)" "in_width ?n (d_value z)" using bv_wfD(2) assms(5,6) by auto
    have c: "?c = BitVector G (?m + ?n) (bvconcat ?n (d_value y) (d_value z))"
      by (rule gmp_documented.concat_refines [OF G assms(5,6,9)])
    have cw: "bv_wf ?c" "d_size ?c = ?m + ?n" "d_value ?c = d_value y * 2 ^ ?n + d_value z"
      using W [OF assms(9)] in_width_mod_id [OF in_width_bvconcat [OF yz]] unfolding c F by (auto simp: bvconcat_def)
    have "d_value ?c div 2 ^ ?n = d_value y" "d_value ?c mod 2 ^ ?n = d_value z" using yz(2) by (auto simp: cw(3) in_width_def)
    then have "bvextract (?m + ?n - 1) ?n (d_value ?c) = d_value y" "bvextract (?n - 1) 0 (d_value ?c) = d_value z"
      using bvextract_top [of ?n "?m + ?n"] bvextract_low [of 0 ?n] yz(1) assms(7,8) by auto
    then show ?thesis
      using gmp_documented.extract_refines [OF G cw(1), of ?n "?m + ?n - 1"] gmp_documented.extract_refines [OF G cw(1), of 0 "?n - 1"]
        gmp_documented.BitVector_self [OF G assms(5)] gmp_documented.BitVector_self [OF G assms(6)] cw(2) assms(7,8) by auto
  qed
  ultimately show ?thesis by simp
qed

theorem concat_extract_roundtrip_witness:
  "BitVector_concat gmp_reference (BitVector_extract gmp_reference (ex_bv 9) 3 1) (BitVector_extract gmp_reference (ex_bv 9) 0 0) = ex_bv 9"
  using concat_extract_roundtrip [OF reference.gmp_documented_axioms, of "ex_bv 9" 1 "ex_bv 9" "ex_bv 9"]
  by (simp add: bv_wf_def in_width_def)

section \<open>The class Integer\<close>

text \<open>C40. The conversions to machine integers either return the value or throw: \<open>getSignedInt\<close>, \<open>getLong\<close> and
  \<open>getUnsignedLong\<close> accept exactly the range of their type, but \<open>getUnsignedInt\<close> rejects the upper half of
  the range of \<open>unsigned int\<close>.\<close>

theorem machine_integer_ranges:
  assumes "gmp_documented G"
  shows "Integer_getSignedInt G x = (if - (2 ^ 31) \<le> x \<and> x < 2 ^ 31 then Inr x else Inl IllegalArgumentException) \<and>
    Integer_getUnsignedInt G x = (if 0 \<le> x \<and> x < 2 ^ 31 then Inr (nat x) else Inl IllegalArgumentException) \<and>
    Integer_getLong G x = (if - (2 ^ 63) \<le> x \<and> x < 2 ^ 63 then Inr x else Inl IllegalArgumentException) \<and>
    Integer_getUnsignedLong G x = (if 0 \<le> x \<and> x < 2 ^ 64 then Inr (nat x) else Inl IllegalArgumentException)"
  using gmp_documented.getSignedInt [OF assms] gmp_documented.getUnsignedInt [OF assms] gmp_documented.getLong [OF assms]
    gmp_documented.getUnsignedLong [OF assms] by blast

theorem machine_integer_ranges_witness:
  "Integer_getUnsignedInt gmp_reference (2 ^ 31) = Inl IllegalArgumentException \<and>
   Integer_getUnsignedLong gmp_reference (2 ^ 31) = Inr (2 ^ 31)"
  using machine_integer_ranges [OF reference.gmp_documented_axioms, of "2 ^ 31"] by simp

text \<open>\<open>isPow2\<close> answers one more than the exponent of a power of two, and zero for everything else.\<close>

lemma isPow2_roundtrip:
  assumes "gmp_documented G"
  shows "(k < 2 ^ 32 - 1 \<longrightarrow> Integer_isPow2 G (2 ^ k) = k + 1) \<and> ((\<nexists>j. x = 2 ^ j) \<longrightarrow> Integer_isPow2 G x = 0)"
  using gmp_documented.isPow2_power [OF assms] gmp_documented.isPow2_nonzero [OF assms] by blast

section \<open>Term utilities\<close>

text \<open>Euclid's algorithm on machine words ends and computes the greatest common divisor.\<close>

lemma gcd_correct: "utils_gcd a b = gcd a b"
  by (rule utils_gcd_gcd)

text \<open>\<open>mkSortedNode\<close> and \<open>mkNode\<close> on an associative and commutative operator build a term of the width of the
  children whose value is that of the plain application, whatever the node order used for sorting.\<close>

lemma mkSortedNode_meaning:
  assumes "k \<in> {BITVECTOR_AND, BITVECTOR_OR, BITVECTOR_XOR, BITVECTOR_MULT, BITVECTOR_PLUS}"
    and "ns \<noteq> []" and "list_all (\<lambda>n. typeOf n = Some (BITVECTOR_TYPE w)) ns"
  shows "typeOf (mkSortedNode lt k ns) = Some (BITVECTOR_TYPE w) \<and> typeOf (mkNode k ns) = Some (BITVECTOR_TYPE w) \<and>
    (\<forall>I. wf_interp I \<longrightarrow> eval I (mkSortedNode lt k ns) = eval I (App k ns) \<and> eval I (mkNode k ns) = eval I (App k ns))"
proof -
  have ns: "ns \<noteq> []" "all_of_width w ns" using assms(2,3) by (simp_all add: all_of_width_def)
  show ?thesis
    using mkSortedNode_nary [OF assms(1) ns] mkNode_nary [OF assms(1) ns] eval_nary [OF assms(1) ns]
    by (simp del: eval.simps)
qed

text \<open>\<open>utils::mkAnd\<close> and \<open>utils::mkOr\<close> on Boolean terms build the conjunction and the disjunction, duplicates
  removed; on no terms both build the constant true, which for \<open>mkOr\<close> is not the empty disjunction.\<close>

lemma mkAnd_mkOr_meaning:
  assumes "list_all (\<lambda>n. typeOf n = Some BOOLEAN_TYPE) ns" and "wf_interp I"
  shows "eval I (utils_mkAnd lt ns) = VBool (list_all (\<lambda>n. v_bool (eval I n)) ns) \<and>
    eval I (utils_mkOr lt ns) = VBool (ns = [] \<or> list_ex (\<lambda>n. v_bool (eval I n)) ns)"
proof -
  have v: "eval I n = VBool (v_bool (eval I n))" if "n \<in> set ns" for n
    using assms eval_has_type [of n BOOLEAN_TYPE I] that by (auto simp: list_all_iff)
  have one: "ns ! 0 = hd (node_set lt ns) \<and> set ns = {ns ! 0}" if l: "length (node_set lt ns) = 1"
  proof -
    from l obtain c where c: "node_set lt ns = [c]" by (auto simp: length_Suc_conv)
    then have "set ns = {c}" using node_set_properties(1) [of lt ns] by simp
    then show ?thesis using c nth_mem [of 0 ns] by (cases ns) auto
  qed
  have empty: "length (node_set lt ns) = 0 \<longleftrightarrow> ns = []" by (metis length_0_conv node_set_properties(1) set_empty)
  have sets: "set (node_set lt ns) = set ns" by simp
  show ?thesis
    using one empty sets v
    by (auto simp: utils_mkAnd_def utils_mkOr_def Let_def list_all_iff list_ex_iff)
qed

section \<open>The rewrite rules\<close>

text \<open>C25. The constant evaluation rules. Where one of the rules of the list applies to a typed term it returns a constant of the same type
  and the same value under every interpretation, and \<open>EvalEquals\<close> does on equalities of bit-vectors. \<open>EvalUdiv\<close> and \<open>EvalUrem\<close> do on the
  total divisions; on the partial ones \<open>BITVECTOR_UDIV\<close> and \<open>BITVECTOR_UREM\<close> they are sound if and only if the option
  \<open>bitvectorDivByZeroConst\<close> is on or the divisor is not the constant zero. (\<open>EvalAnd\<close>, \<open>EvalOr\<close> and \<open>EvalXor\<close> begin with
  \<open>Unreachable()\<close> and are not modelled.)\<close>

theorem constant_evaluation_sound:
  assumes "gmp_documented G"
  shows "list_all (rule_sound opt)
      [EvalNot G, EvalNeg G, EvalPlus G, EvalMult G, EvalShl G, EvalLshr G, EvalAshr G, EvalUlt G, EvalUle G, EvalSlt G,
       EvalSle G, EvalUltBv G, EvalSltBv G, EvalComp G, EvalITEBv G, EvalExtract G, EvalSignExtend G, EvalConcat G] \<and>
    (\<forall>n t. typeOf n = Some t \<longrightarrow>
      (applies (EvalEquals G) n \<and> bv_typed (children n ! 0) \<longrightarrow> sound_result opt n (apply_rule (EvalEquals G) n)) \<and>
      (applies (EvalUdiv G) n \<longrightarrow> (sound_result opt n (apply_rule (EvalUdiv G) n) \<longleftrightarrow>
         hasKind BITVECTOR_UDIV_TOTAL n \<or> opt \<or> d_value (getConst (children n ! 1)) \<noteq> 0)) \<and>
      (applies (EvalUrem G) n \<longrightarrow> (sound_result opt n (apply_rule (EvalUrem G) n) \<longleftrightarrow>
         hasKind BITVECTOR_UREM_TOTAL n \<or> opt \<or> d_value (getConst (children n ! 1)) \<noteq> 0)))"
proof (intro conjI allI impI)
  show "list_all (rule_sound opt)
      [EvalNot G, EvalNeg G, EvalPlus G, EvalMult G, EvalShl G, EvalLshr G, EvalAshr G, EvalUlt G, EvalUle G, EvalSlt G,
       EvalSle G, EvalUltBv G, EvalSltBv G, EvalComp G, EvalITEBv G, EvalExtract G, EvalSignExtend G, EvalConcat G]"
    using gmp_documented.evaluation_sound [OF assms] by simp
  fix n t assume n: "typeOf n = Some t"
  show "sound_result opt n (apply_rule (EvalEquals G) n)" if "applies (EvalEquals G) n \<and> bv_typed (children n ! 0)"
    using gmp_documented.EvalEquals_sound [OF assms n] that by (auto simp: bv_typed_def)
  have kinds: "hasKind BITVECTOR_UDIV n \<longleftrightarrow> \<not> hasKind BITVECTOR_UDIV_TOTAL n" if "applies (EvalUdiv G) n"
    using that by (auto simp: EvalUdiv_def hasKind_def split: node.splits)
  show "sound_result opt n (apply_rule (EvalUdiv G) n) \<longleftrightarrow> hasKind BITVECTOR_UDIV_TOTAL n \<or> opt \<or> d_value (getConst (children n ! 1)) \<noteq> 0"
    if "applies (EvalUdiv G) n"
    using kinds [OF that] gmp_documented.EvalUdiv_sound [OF assms n that, of opt] gmp_documented.EvalUdiv_unsound [OF assms n that] by (cases opt) auto
  have kinds: "hasKind BITVECTOR_UREM n \<longleftrightarrow> \<not> hasKind BITVECTOR_UREM_TOTAL n" if "applies (EvalUrem G) n"
    using that by (auto simp: EvalUrem_def hasKind_def split: node.splits)
  show "sound_result opt n (apply_rule (EvalUrem G) n) \<longleftrightarrow> hasKind BITVECTOR_UREM_TOTAL n \<or> opt \<or> d_value (getConst (children n ! 1)) \<noteq> 0"
    if "applies (EvalUrem G) n"
    using kinds [OF that] gmp_documented.EvalUrem_sound [OF assms n that, of opt] gmp_documented.EvalUrem_unsound [OF assms n that] by (cases opt) auto
qed

theorem constant_evaluation_sound_witness:
  "sound_result True (App BITVECTOR_MULT [ex_const, ex_const])
     (apply_rule (EvalMult gmp_reference) (App BITVECTOR_MULT [ex_const, ex_const])) \<and>
   \<not> sound_result False (App BITVECTOR_UDIV [ex_const, CONST_BITVECTOR \<lparr>d_size = 8, d_value = 0\<rparr>])
     (apply_rule (EvalUdiv gmp_reference) (App BITVECTOR_UDIV [ex_const, CONST_BITVECTOR \<lparr>d_size = 8, d_value = 0\<rparr>]))"
proof -
  let ?m = "App BITVECTOR_MULT [ex_const, ex_const]" and ?d = "App BITVECTOR_UDIV [ex_const, CONST_BITVECTOR \<lparr>d_size = 8, d_value = 0\<rparr>]"
  have "rule_sound True (EvalMult gmp_reference)" using constant_evaluation_sound [OF reference.gmp_documented_axioms] by simp
  moreover have t: "typeOf ?m = Some (BITVECTOR_TYPE 8)" "typeOf ?d = Some (BITVECTOR_TYPE 8)"
    by (simp_all add: typeOf_short type_op_iffs valid_width_def bv_wf_def in_width_def mk_bvtype_def)
  moreover have "applies (EvalMult gmp_reference) ?m" by (simp add: EvalMult_def hasKind_def isBVGroundTerm_def isConst_def)
  moreover have "applies (EvalUdiv gmp_reference) ?d" by (simp add: EvalUdiv_def hasKind_def isBVGroundTerm_def isConst_def)
  then have "\<not> sound_result False ?d (apply_rule (EvalUdiv gmp_reference) ?d)"
    using constant_evaluation_sound [OF reference.gmp_documented_axioms, of False] t(2) by (fastforce simp: hasKind_def)
  ultimately show ?thesis unfolding rule_sound_def by blast
qed

text \<open>C24. The core rules on concatenations, slices and equalities are sound; \<open>ExtractConcat\<close>, which computes with
  signed \<open>int\<close>, for widths below \<open>2 ^ 31\<close>.\<close>

theorem core_rules_sound:
  assumes "gmp_documented G"
  shows "list_all (rule_sound opt)
      [ConcatFlatten, ConcatExtractMerge, ConcatConstantMerge G, ExtractWhole, ExtractConstant G, ExtractExtract, FailEq,
       SimplifyEq, ReflexivityEq lt] \<and>
    (\<forall>n t. typeOf n = Some t \<longrightarrow> applies ExtractConcat n \<longrightarrow> getSize (children n ! 0) < 2 ^ 31 \<longrightarrow>
      sound_result opt n (apply_rule ExtractConcat n))"
  using gmp_documented.concat_sound [OF assms] gmp_documented.ExtractConstant_sound [OF assms]
  by (simp add: ConcatFlatten_sound ConcatExtractMerge_sound ExtractWhole_sound ExtractExtract_sound FailEq_sound
      SimplifyEq_sound ReflexivityEq_sound ExtractConcat_sound)

theorem core_rules_sound_witness:
  "sound_result False (mkExtract (App BITVECTOR_CONCAT [Variable 0 (BITVECTOR_TYPE 3), ex_const]) 9 2)
     (apply_rule ExtractConcat (mkExtract (App BITVECTOR_CONCAT [Variable 0 (BITVECTOR_TYPE 3), ex_const]) 9 2))"
proof -
  let ?c = "App BITVECTOR_CONCAT [Variable 0 (BITVECTOR_TYPE 3), ex_const]"
  have c: "typeOf ?c = Some (BITVECTOR_TYPE 11)"
    by (simp add: typeOf_short type_op_iffs valid_width_def bv_wf_def in_width_def mk_bvtype_def)
  have "typeOf (mkExtract ?c 9 2) = Some (BITVECTOR_TYPE 8)" using typeOf_mkExtract [OF c, of 2 9] by simp
  moreover have "applies ExtractConcat (mkExtract ?c 9 2)" by (simp add: ExtractConcat_def hasKind_def)
  moreover have "getSize (children (mkExtract ?c 9 2) ! 0) < 2 ^ 31" using getSize_typeOf [OF c] by simp
  ultimately show ?thesis using core_rules_sound [OF reference.gmp_documented_axioms, of False] by blast
qed

text \<open>C22. The operator elimination rules of the bit-vector operators are sound: every derived operator, the signed divisions included, is
  replaced by a term of the same value over the remaining operators. The two rules of the header that convert between bit-vectors and
  integers, \<open>BVToNatEliminate\<close> and \<open>IntToBVEliminate\<close>, build arithmetic terms, which the model does not have, and are excluded.\<close>

theorem operator_elimination_sound:
  assumes "gmp_documented G"
  shows "list_all (rule_sound opt)
    [UgtEliminate, UgeEliminate, SgtEliminate, SgeEliminate, SltEliminate G, SleEliminate, UleEliminate, CompEliminate G,
     SubEliminate, RepeatEliminate, RotateLeftEliminate, RotateRightEliminate, NandEliminate, NorEliminate, XnorEliminate,
     SdivEliminate G opt, SremEliminate G opt, SmodEliminate G, ZeroExtendEliminate G, SignExtendEliminate,
     RedorEliminate G, RedandEliminate G]"
  using gmp_documented.elimination_sound [OF assms] by simp

theorem operator_elimination_sound_witness:
  "sound_result True (App BITVECTOR_SDIV [ex_const, ex_const])
     (apply_rule (SdivEliminate gmp_reference True) (App BITVECTOR_SDIV [ex_const, ex_const]))"
proof -
  have "rule_sound True (SdivEliminate gmp_reference True)"
    using operator_elimination_sound [OF reference.gmp_documented_axioms, of True] by simp
  moreover have "typeOf (App BITVECTOR_SDIV [ex_const, ex_const]) = Some (BITVECTOR_TYPE 8)"
    by (simp add: typeOf_short type_op_iffs valid_width_def bv_wf_def in_width_def mk_bvtype_def)
  moreover have "applies (SdivEliminate gmp_reference True) (App BITVECTOR_SDIV [ex_const, ex_const])"
    by (simp add: SdivEliminate_def hasKind_def)
  ultimately show ?thesis unfolding rule_sound_def by blast
qed

text \<open>C23. The simplification rules that hold without a side condition are sound.\<close>

theorem simplification_rules_sound:
  assumes "gmp_documented G"
  shows "list_all (rule_sound opt)
    [ShlByConst G, LshrByConst G, AshrByConst G, NotXor lt, NotIdemp, LtSelf, LteSelf, ZeroUlt G, UltZero G, UltOne G,
     SltZero G, UltSelf, UleZero G, UleSelf, ZeroUle G, UleMax G, NotUlt, NotUle, UltPlusOne G, NegIdemp, UdivPow2 G,
     UdivOne G, UremPow2 G, UremOne G, UremSelf G, ShiftZero G, BBPlusNeg G, MergeSignExtend, MultSlice G]"
  using gmp_documented.simplification_sound [OF assms] by simp

theorem simplification_rules_sound_witness:
  "sound_result True (App BITVECTOR_UDIV_TOTAL [ex_const, CONST_BITVECTOR \<lparr>d_size = 8, d_value = 1\<rparr>])
     (apply_rule (UdivOne gmp_reference) (App BITVECTOR_UDIV_TOTAL [ex_const, CONST_BITVECTOR \<lparr>d_size = 8, d_value = 1\<rparr>]))"
proof -
  let ?n = "App BITVECTOR_UDIV_TOTAL [ex_const, CONST_BITVECTOR \<lparr>d_size = 8, d_value = 1\<rparr>]"
  have "rule_sound True (UdivOne gmp_reference)"
    using simplification_rules_sound [OF reference.gmp_documented_axioms, of True] by simp
  moreover have t: "typeOf ?n = Some (BITVECTOR_TYPE 8)"
    by (simp add: typeOf_short type_op_iffs valid_width_def bv_wf_def in_width_def mk_bvtype_def)
  moreover have "applies (UdivOne gmp_reference) ?n"
    using getSize_typeOf [OF t] reference.BitVector_self [of "\<lparr>d_size = 8, d_value = 1\<rparr>"]
    by (simp add: UdivOne_def hasKind_def reference.mkConst_BitVector bv_wf_def in_width_def)
  ultimately show ?thesis unfolding rule_sound_def by blast
qed

text \<open>C26. \<open>UdivSelf\<close> rewrites \<open>x udiv x\<close> to one. The value changes exactly when \<open>x\<close> is zero and wider than one bit,
  where the total division gives all ones; so the rule is not sound.\<close>

theorem UdivSelf_is_unsound:
  assumes "gmp_documented G"
  shows "\<not> rule_sound opt (UdivSelf G) \<and>
    (\<forall>x w I m. typeOf x = Some (BITVECTOR_TYPE w) \<longrightarrow> wf_interp I \<longrightarrow>
      apply_rule (UdivSelf G) (App BITVECTOR_UDIV_TOTAL [x, x]) = Inr m \<longrightarrow>
      (eval I m = eval I (App BITVECTOR_UDIV_TOTAL [x, x]) \<longleftrightarrow> v_int (eval I x) \<noteq> 0 \<or> w = 1))"
  using gmp_documented.UdivSelf_unsound [OF assms] gmp_documented.UdivSelf_value [OF assms] by blast

theorem UdivSelf_is_unsound_witness: "\<not> rule_sound True (UdivSelf gmp_reference)"
  using UdivSelf_is_unsound [OF reference.gmp_documented_axioms] by blast

text \<open>C20. The normalization rules are sound: flattening, combination of like terms, distribution, negation,
  simplification of bitwise operators by counting, equalities of one-bit terms, and, for widths below
  \<open>2 ^ 31\<close>, slicing; \<open>SolveEq\<close> is sound on equalities of bit-vectors when the order of nodes is total.
  \<open>NegMult\<close> fires on no well-typed term.\<close>

theorem normalization_rules_sound:
  assumes G: "gmp_documented G" and iter: "\<And>m. mset (iter m) = mset m" and total: "\<And>a b. \<not> lt a b \<Longrightarrow> \<not> lt b a \<Longrightarrow> a = b"
  shows "list_all (rule_sound opt)
      [ExtractBitwise lt, ExtractNot, ExtractSignExtend, ExtractArith, ExtractArith2, FlattenAssocCommut lt,
       FlattenAssocCommutNoDuplicates lt, MultSimplify G lt, MultDistribConst G, MultDistrib, ConcatToMult G, NegSub, NegPlus,
       BitwiseEq G, PlusCombineLikeTerms G lt, AndSimplify G lt iter, OrSimplify G lt iter, XorSimplify G lt iter] \<and>
    (\<forall>n w. typeOf n = Some (BITVECTOR_TYPE w) \<longrightarrow> w < 2 ^ 31 \<longrightarrow> applies (BitwiseSlicing G) n \<longrightarrow>
      sound_result opt n (apply_rule (BitwiseSlicing G) n)) \<and>
    (\<forall>n t w. typeOf n = Some t \<longrightarrow> typeOf (children n ! 0) = Some (BITVECTOR_TYPE w) \<longrightarrow> applies (SolveEq G lt) n \<longrightarrow>
      sound_result opt n (apply_rule (SolveEq G lt) n)) \<and>
    (\<forall>n t. typeOf n = Some t \<longrightarrow> \<not> applies (NegMult G) n)"
  using ExtractBitwise_sound ExtractNot_sound ExtractSignExtend_sound ExtractArith_sound ExtractArith2_sound FlattenAssocCommut_sound
    FlattenAssocCommutNoDuplicates_sound MultDistrib_sound NegSub_sound NegPlus_sound NegMult_never
    gmp_documented.MultSimplify_sound [OF G] gmp_documented.MultDistribConst_sound [OF G] gmp_documented.ConcatToMult_sound [OF G]
    gmp_documented.BitwiseEq_sound [OF G] gmp_documented.PlusCombineLikeTerms_sound [OF G]
    gmp_documented.AndSimplify_sound [where iter = iter, OF G iter] gmp_documented.OrSimplify_sound [where iter = iter, OF G iter]
    gmp_documented.XorSimplify_sound [where iter = iter, OF G iter] gmp_documented.BitwiseSlicing_sound [OF G]
    gmp_documented.SolveEq_sound [where lt = lt, OF G total] by simp

definition ex_sum :: node where
  "ex_sum = App BITVECTOR_PLUS [Variable 0 (BITVECTOR_TYPE 8), Variable 0 (BITVECTOR_TYPE 8)]"

theorem normalization_rules_sound_witness:
  "sound_result True ex_sum (apply_rule (PlusCombineLikeTerms gmp_reference (\<noteq>)) ex_sum) \<and>
   rule_sound True (XorSimplify gmp_reference (\<noteq>) (\<lambda>m. m))"
proof -
  have r: "rule_sound True (PlusCombineLikeTerms gmp_reference (\<noteq>))" "rule_sound True (XorSimplify gmp_reference (\<noteq>) (\<lambda>m. m))"
    using normalization_rules_sound [OF reference.gmp_documented_axioms, of "\<lambda>m. m" "(\<noteq>)" True] by simp_all
  have "typeOf ex_sum = Some (BITVECTOR_TYPE 8)" by (simp add: ex_sum_def typeOf_short type_op_iffs valid_width_def)
  then show ?thesis using r by (auto simp: rule_sound_def ex_sum_def PlusCombineLikeTerms_def hasKind_def)
qed

text \<open>\<open>NodeTemplate::hasSubterm\<close>, a breadth-first search that skips visited nodes, decides the subterm relation;
  strictly so when asked.\<close>

lemma hasSubterm_correct: "hasSubterm n t strict \<longleftrightarrow> subterm t n \<or> \<not> strict \<and> n = t"
  by (rule hasSubterm_iff)

text \<open>C19. The rewrite table of \<open>TheoryBVRewriter\<close>: on a well-typed term, \<open>preRewrite\<close> and \<open>postRewrite\<close> respond with a
  term of the same type and value. Widths are below \<open>2 ^ 31\<close>, an equality is one of bit-vectors, and a total
  division is one on which \<open>UdivSelf\<close> does not get to fire; the order of nodes is total and the iteration over
  a hash map lists its entries.\<close>

theorem rewrite_table_sound:
  assumes G: "gmp_documented (rw_gmp E)" and less: "\<And>a b. \<not> rw_less E a b \<Longrightarrow> \<not> rw_less E b a \<Longrightarrow> a = b"
    and iter: "\<And>m. mset (rw_iter E m) = mset m"
    and n: "typeOf n = Some t" "narrow n" "hasKind EQUAL n \<Longrightarrow> bv_typed (children n ! 0)"
    and self: "\<And>m. hasKind BITVECTOR_UDIV_TOTAL n \<Longrightarrow> LinearRewriteStrategy [EvalUdiv (rw_gmp E), UdivOne (rw_gmp E)] n = Inr m \<Longrightarrow>
      \<not> applies (UdivSelf (rw_gmp E)) m"
  shows "response_sound (rw_divByZeroConst E) n (preRewrite E n) \<and> response_sound (rw_divByZeroConst E) n (postRewrite E n)"
  using table_responses_sound [OF assms] by blast

definition ex_env :: rw_env where
  "ex_env = \<lparr>rw_gmp = gmp_reference, rw_less = (\<noteq>), rw_iter = (\<lambda>m. m), rw_divByZeroConst = True, rw_extractArith = True\<rparr>"

theorem rewrite_table_sound_witness:
  "response_sound True ex_shift (postRewrite ex_env ex_shift) \<and> response_sound True ex_sum (preRewrite ex_env ex_sum)"
proof -
  have E: "gmp_documented (rw_gmp ex_env)" "rw_less ex_env = (\<noteq>)" "rw_iter ex_env = (\<lambda>m. m)" "rw_divByZeroConst ex_env = True"
    using reference.gmp_documented_axioms by (simp_all add: ex_env_def)
  have t: "typeOf ex_shift = Some (BITVECTOR_TYPE 4)" "typeOf ex_sum = Some (BITVECTOR_TYPE 8)"
    by (simp_all add: ex_sum_def typeOf_short type_op_iffs valid_width_def)
  have narrow: "narrow ex_shift" "narrow ex_sum" using t by (simp_all add: ex_sum_def getSize_typeOf [of "Variable _ _"] valid_width_def)
  have kinds: "\<not> hasKind EQUAL ex_shift" "\<not> hasKind EQUAL ex_sum" "\<not> hasKind BITVECTOR_UDIV_TOTAL ex_shift" "\<not> hasKind BITVECTOR_UDIV_TOTAL ex_sum"
    by (simp_all add: hasKind_def ex_sum_def)
  have "response_sound (rw_divByZeroConst ex_env) ex_shift (postRewrite ex_env ex_shift)"
    by (rule rewrite_table_sound [OF E(1) _ _ t(1) narrow(1), THEN conjunct2]) (simp_all only: E kinds not_not simp_thms)
  moreover have "response_sound (rw_divByZeroConst ex_env) ex_sum (preRewrite ex_env ex_sum)"
    by (rule rewrite_table_sound [OF E(1) _ _ t(2) narrow(2), THEN conjunct1]) (simp_all only: E kinds not_not simp_thms)
  ultimately show ?thesis by (simp only: E simp_thms)
qed

text \<open>C21. The Boolean rewriter returns for every node it is called on (with fewer than \<open>2 ^ 26 - 2\<close> subterms), and the
  response has the type and the value of the node under every interpretation: the breadth-first flattening of
  conjunctions and disjunctions, the cases of implication, equivalence, exclusive or and conditional, and the comparison
  of one term with two constants, by the number of values of its type.\<close>

theorem bool_rewriter_sound:
  assumes "typeOf n = Some t" and "bool_rewritable n"
  shows "response_sound opt n (TheoryBoolRewriter_preRewrite n) \<and> response_sound opt n (TheoryBoolRewriter_postRewrite n)"
  using boolRewrite_sound [OF assms] by (simp add: TheoryBoolRewriter_postRewrite_def)

theorem bool_rewriter_sound_witness:
  "TheoryBoolRewriter_preRewrite (App AND [Variable 0 BOOLEAN_TYPE, App AND [Variable 1 BOOLEAN_TYPE, CONST_BOOLEAN True], Variable 1 BOOLEAN_TYPE]) =
     Inr \<lparr>status = REWRITE_DONE, rnode = App AND [Variable 0 BOOLEAN_TYPE, Variable 1 BOOLEAN_TYPE]\<rparr> \<and>
   same_meaning False (App AND [Variable 0 BOOLEAN_TYPE, Variable 1 BOOLEAN_TYPE])
     (App AND [Variable 0 BOOLEAN_TYPE, App AND [Variable 1 BOOLEAN_TYPE, CONST_BOOLEAN True], Variable 1 BOOLEAN_TYPE])"
proof -
  let ?n = "App AND [Variable 0 BOOLEAN_TYPE, App AND [Variable 1 BOOLEAN_TYPE, CONST_BOOLEAN True], Variable 1 BOOLEAN_TYPE]"
  have run: "TheoryBoolRewriter_preRewrite ?n = Inr \<lparr>status = REWRITE_DONE, rnode = App AND [Variable 0 BOOLEAN_TYPE, Variable 1 BOOLEAN_TYPE]\<rparr>"
    by (simp add: TheoryBoolRewriter_preRewrite_def boolRewrite_AND_def flattenNode_def hasKind_def MAX_CHILDREN_def)
  have "typeOf ?n = Some BOOLEAN_TYPE" by (simp add: typeOf_short type_op_iffs)
  moreover have "bool_rewritable ?n" by (simp add: bool_rewritable_def hasKind_def MAX_CHILDREN_def)
  ultimately have "response_sound False ?n (TheoryBoolRewriter_preRewrite ?n)" using bool_rewriter_sound by blast
  then show ?thesis using run by (auto simp: response_sound_def)
qed

section \<open>The generic rewriter\<close>

text \<open>C9. \<open>Rewriter::rewrite\<close> ends on propositional formulas. From a new rewriter, with any resource manager, any sequence of
  formulas of bounded weight is rewritten: every call returns a formula of the same meaning that is not larger, or the
  resource manager interrupts it, which happens only under a hard limit. The caches filled by earlier calls, and cleared by an
  interruption, are those of the code.\<close>

theorem generic_rewriter_terminates:
  assumes "list_all prop_good ns"
  shows "\<exists>st rs. rewrite_all (mk_rewriter_env R otherPre otherPost engine step clocks owner) ns (new_rewriter rm) = Some (st, rs) \<and>
    list_all2 (\<lambda>n r. (\<exists>m. r = Inr m \<and> same_meaning opt m n \<and> propositional m \<and> prop_weight m \<le> prop_weight n) \<or>
      r = Inl UnsafeInterruptException \<and> engine \<and> d_on rm \<and> d_isHardLimit rm) ns rs"
proof -
  let ?E = "mk_rewriter_env R otherPre otherPost engine step clocks owner" and ?H = "d_on rm \<and> d_isHardLimit rm"
  have new: "propositional.caches_ok opt ?H (new_rewriter rm)" by (rule propositional.new_rewriter_ok) simp
  from propositional.rewrite_all_returns [OF assms new, of R otherPre otherPost engine step clocks owner] obtain st rs
    where run: "rewrite_all ?E ns (new_rewriter rm) = Some (st, rs)" and rs: "list_all2 (\<lambda>n r. r = Inl UnsafeInterruptException \<and>
      hasSmtEngine ?E \<and> ?H \<or> (\<exists>m. r = Inr m \<and> improves opt prop_good prop_weight m n)) ns rs" by blast
  from rs have "list_all2 (\<lambda>n r. (\<exists>m. r = Inr m \<and> same_meaning opt m n \<and> propositional m \<and> prop_weight m \<le> prop_weight n) \<or>
      r = Inl UnsafeInterruptException \<and> engine \<and> d_on rm \<and> d_isHardLimit rm) ns rs"
    by (rule list_all2_mono) (auto simp: improves_def prop_good_def mk_rewriter_env_def)
  with run show ?thesis by blast
qed

definition ex_clocks :: "nat \<Rightarrow> nat \<Rightarrow> reading" where
  "ex_clocks i = at_cpu i"

abbreviation (input) ex_nested :: node where
  "ex_nested \<equiv> App IMPLIES [App AND [Variable 0 BOOLEAN_TYPE, App AND [Variable 1 BOOLEAN_TYPE, CONST_BOOLEAN True]],
     App ITE [Variable 0 BOOLEAN_TYPE, Variable 2 BOOLEAN_TYPE, App NOT [Variable 2 BOOLEAN_TYPE]]]"

theorem generic_rewriter_terminates_witness:
  "\<exists>st m k. rewrite_all (mk_rewriter_env ex_env (\<lambda>i n. doRewrite n) (\<lambda>i n. doRewrite n) True 1 ex_clocks THEORY_UF)
     [ex_nested, ex_nested] (new_rewriter new_ResourceManager) = Some (st, [Inr m, Inr k]) \<and> same_meaning False m ex_nested \<and> same_meaning False k ex_nested"
proof -
  have "prop_good ex_nested" by (simp add: prop_good_def typeOf_short type_op_iffs MAX_CHILDREN_def)
  then have "list_all prop_good [ex_nested, ex_nested]" by simp
  from generic_rewriter_terminates [OF this, of ex_env "\<lambda>i n. doRewrite n" "\<lambda>i n. doRewrite n" True 1 ex_clocks THEORY_UF new_ResourceManager False]
  show ?thesis by (fastforce simp: list_all2_Cons1 new_ResourceManager_def)
qed

text \<open>C10. The generic rewriter with the rewriters of the Boolean and the bit-vector theory keeps the meaning of every
  well-typed term: when a sequence of terms is rewritten, every result has the type and the value of its term under every
  interpretation, although calls share the caches and one theory hands terms to the other. What is asked of the run is that the
  theory rewriters were called within their range: widths below \<open>2 ^ 31\<close>, fewer than \<open>2 ^ 26 - 2\<close> subterms in a Boolean
  node, and no total division on which \<open>UdivSelf\<close> fires.\<close>

theorem generic_rewriter_sound:
  assumes "gmp_documented (rw_gmp R)" and "\<And>a b. \<not> rw_less R a b \<Longrightarrow> \<not> rw_less R b a \<Longrightarrow> a = b" and "\<And>m. mset (rw_iter R m) = mset m"
    and "rewrite_all (mk_rewriter_env R otherPre otherPost engine step clocks owner) ns (new_rewriter rm) = Some (st, rs)"
    and "list_all (\<lambda>n. typeOf n \<noteq> None) ns" and "list_all (supported_call R) (calls st)"
  shows "list_all2 (\<lambda>n r. \<forall>m. r = Inr m \<longrightarrow> same_meaning (rw_divByZeroConst R) m n) ns rs"
proof -
  let ?E = "mk_rewriter_env R otherPre otherPost engine step clocks owner" and ?opt = "rw_divByZeroConst R"
  have "call_sound ?E ?opt c" if "c \<in> set (calls st)" for c
    using supported_call_sound [OF assms(1-3)] assms(6) that by (simp add: list_all_iff)
  then have "logged ?E ?opt st" by (simp add: logged_def list_all_iff)
  then show ?thesis using rewrite_all_means [OF assms(4), of ?opt] caches_mean_new assms(5) by blast
qed

abbreviation (input) ex_equal :: node where
  "ex_equal \<equiv> App EQUAL [Variable 0 (BITVECTOR_TYPE 8), Variable 0 (BITVECTOR_TYPE 8)]"

abbreviation (input) ex_rewriter :: rewriter_env where
  "ex_rewriter \<equiv> mk_rewriter_env ex_env (\<lambda>i n. doRewrite n) (\<lambda>i n. doRewrite n) True 1 ex_clocks THEORY_UF"

text \<open>The bit-vector theory reduces the equality to a constant of the Boolean theory, which then owns the node.\<close>

lemma ex_equal_calls:
  "callPreRewrite ex_rewriter THEORY_BV ex_equal = Inr \<lparr>status = REWRITE_DONE, rnode = CONST_BOOLEAN True\<rparr>"
  "callPreRewrite ex_rewriter THEORY_BOOL (CONST_BOOLEAN True) = Inr \<lparr>status = REWRITE_DONE, rnode = CONST_BOOLEAN True\<rparr>"
  "callPostRewrite ex_rewriter THEORY_BOOL (CONST_BOOLEAN True) = Inr \<lparr>status = REWRITE_DONE, rnode = CONST_BOOLEAN True\<rparr>"
  "ownerOf ex_rewriter ex_equal = Inr THEORY_BV" "ownerOf ex_rewriter (CONST_BOOLEAN True) = Inr THEORY_BOOL"
  by (simp_all add: mk_rewriter_env_def theoryPreRewrite_def theoryPostRewrite_def preRewrite_def d_rewriteTable_def RewriteEqual_def
      FailEq_def SimplifyEq_def ReflexivityEq_def SolveEq_def RewriteRule_run_def hasKind_def isConst_def respond_def Let_def
      TheoryBoolRewriter_preRewrite_def TheoryBoolRewriter_postRewrite_def theoryOf.simps(4) theoryOf_type_def)

lemma ex_equal_typed: "typeOf ex_equal = Some BOOLEAN_TYPE"
  by (simp add: typeOf_short type_op_iffs type_op_mixed valid_width_def)

text \<open>A state in which the constant has not been rewritten and no limit is on.\<close>

definition ex_fresh :: "rewriter_state \<Rightarrow> bool" where
  "ex_fresh st \<longleftrightarrow> \<not> d_on (d_resourceManager st) \<and> getPostRewriteCache THEORY_BOOL (CONST_BOOLEAN True) st = None \<and>
     getPreRewriteCache THEORY_BOOL (CONST_BOOLEAN True) st = None"


lemma ex_equal_run:
  "\<exists>st. rewrite ex_rewriter ex_equal (new_rewriter new_ResourceManager) = Some (st, Inr (CONST_BOOLEAN True)) \<and>
     list_all (supported_call ex_env) (calls st) \<and> ex_fresh st"
proof -
  let ?st = "new_rewriter (fst (spendResource (ex_clocks 0) 1 new_ResourceManager))"
  have spend: "spend ex_rewriter (new_rewriter new_ResourceManager) = (?st, Inr ())"
    by (simp add: spend_def mk_rewriter_env_def new_rewriter_def new_ResourceManager_def spendResource_def s_resourceCount_def ex_clocks_def)
  have pre: "preRewrite_loop ex_rewriter THEORY_BV ex_equal ?st =
      Some (logCall True THEORY_BOOL (CONST_BOOLEAN True) (logCall True THEORY_BV ex_equal ?st), Inr (THEORY_BOOL, CONST_BOOLEAN True))"
    by (subst preRewrite_loop.simps, simp add: ex_equal_calls theoryOf_type_def, subst preRewrite_loop.simps,
      simp add: ex_equal_calls theoryOf_type_def)
  have post: "rewriter_run ex_rewriter (PostRewrite THEORY_BOOL (CONST_BOOLEAN True)) st =
      Some (logCall False THEORY_BOOL (CONST_BOOLEAN True) st, Inr (CONST_BOOLEAN True))" for st
    using run_PostRewrite [OF ex_equal_calls(3), of THEORY_BOOL st] by (simp add: theoryOf_type_def)
  have cache: "getPostRewriteCache i n (new_rewriter rm) = None" "getPreRewriteCache i n (new_rewriter rm) = None"
    "getPostRewriteCache i n (logCall b j m st) = getPostRewriteCache i n st"
    "getPostRewriteCache i n (setPreRewriteCache j m c st) = getPostRewriteCache i n st" for i n rm b j m c st
    by (simp_all add: getPostRewriteCache_def getPreRewriteCache_def new_rewriter_def getCache_def logCall_def setPreRewriteCache_def)
  have "\<exists>st. rewriter_run ex_rewriter (RewriteTo THEORY_BV ex_equal) (new_rewriter new_ResourceManager) = Some (st, Inr (CONST_BOOLEAN True)) \<and>
      calls st = [(True, THEORY_BV, ex_equal), (True, THEORY_BOOL, CONST_BOOLEAN True), (False, THEORY_BOOL, CONST_BOOLEAN True)] \<and> ex_fresh st"
    by (simp add: run_RewriteTo cache run_Loop spend preRewrite_top_def RewriteStackElement_def pre afterPre_def finishTop_def
        incorporateChildren_def takeChild_def post continue_def)
      (simp add: new_rewriter_def ex_fresh_def logCall_def setPostRewriteCache_def getPostRewriteCache_def setPreRewriteCache_def getPreRewriteCache_def
        getCache_setCache, simp add: getCache_def spendResource_def new_ResourceManager_def)
  then obtain st where run: "rewrite ex_rewriter ex_equal (new_rewriter new_ResourceManager) = Some (st, Inr (CONST_BOOLEAN True))"
    and calls: "calls st = [(True, THEORY_BV, ex_equal), (True, THEORY_BOOL, CONST_BOOLEAN True), (False, THEORY_BOOL, CONST_BOOLEAN True)]"
    and fresh: "ex_fresh st"
    by (auto simp: rewrite_def ex_equal_calls theoryOf_type_def)
  have "getSize ex_equal = 0" using getType_typeOf [OF ex_equal_typed, of False] by (simp add: getSize_def getBitVectorSize_def)
  then have "list_all (supported_call ex_env) (calls st)"
    unfolding calls using ex_equal_typed
    by (simp add: supported_call_def bool_rewritable_def hasKind_def MAX_CHILDREN_def bv_typed_def getSize_typeOf [of "Variable _ _"] getSize_typeOf valid_width_def)
  with run fresh show ?thesis by blast
qed

lemma ex_env_documented:
  "gmp_documented (rw_gmp ex_env)" "\<not> rw_less ex_env a b \<Longrightarrow> \<not> rw_less ex_env b a \<Longrightarrow> a = b" "mset (rw_iter ex_env m) = mset m"
  using reference.gmp_documented_axioms by (simp_all add: ex_env_def)

theorem generic_rewriter_sound_witness:
  "\<exists>st. rewrite_all ex_rewriter [ex_equal] (new_rewriter new_ResourceManager) = Some (st, [Inr (CONST_BOOLEAN True)]) \<and>
     same_meaning True (CONST_BOOLEAN True) ex_equal"
proof -
  obtain st where run: "rewrite_all ex_rewriter [ex_equal] (new_rewriter new_ResourceManager) = Some (st, [Inr (CONST_BOOLEAN True)])"
    and range: "list_all (supported_call ex_env) (calls st)"
    using ex_equal_run by auto
  have "list_all2 (\<lambda>n r. \<forall>m. r = Inr m \<longrightarrow> same_meaning (rw_divByZeroConst ex_env) m n) [ex_equal] [Inr (CONST_BOOLEAN True) :: node exc]"
    by (rule generic_rewriter_sound [OF ex_env_documented run _ range]) (simp_all add: ex_equal_typed)
  then show ?thesis using run by (simp add: ex_env_def)
qed

section \<open>The bit-blasters\<close>

text \<open>The program of the properties: the bit-blasters over the generic rewriter with the rewriters of the Boolean and the bit-vector theory.
  GMP is documented, the order of the nodes total, and the iteration over a map visits each entry once.\<close>

lemma bb_programI:
  assumes "gmp_documented (rw_gmp R)" and "\<And>a b. \<not> rw_less R a b \<Longrightarrow> \<not> rw_less R b a \<Longrightarrow> a = b" and "\<And>m. mset (rw_iter R m) = mset m"
    and "E = bb_environment (mk_rewriter_env R otherPre otherPost engine step clocks owner) pf eager bstep"
  shows "bb_program R (mk_rewriter_env R otherPre otherPost engine step clocks owner) E otherPre otherPost engine step clocks owner"
  using assms by (intro bb_program.intro) (simp_all add: bb_environment_def)

abbreviation (input) ex_bb :: bb_env where
  "ex_bb \<equiv> bb_environment ex_rewriter False True 1"

interpretation ex_program: bb_program ex_env ex_rewriter ex_bb "\<lambda>i n. doRewrite n" "\<lambda>i n. doRewrite n" True 1 ex_clocks THEORY_UF
  by (rule bb_programI [OF ex_env_documented refl])

interpretation ex_contract: bitblaster_contract "lazy_bb (rw_gmp ex_env) (ranged ex_env ex_bb) f" "ok_node default_interp" "sem_node default_interp"
  "rw_gmp ex_env" default_interp "bb_inv (rw_divByZeroConst ex_env) default_interp True" UNIV UNIV
  "rewriter_exns ex_bb \<union> table_exns \<union> interrupt_exns True" for f
  by (rule ex_program.lazy.contract [OF wf_interp_default zero_division_default])

text \<open>C1. \<open>TLazyBitblaster::bbTerm\<close> over the modelled rewriter, from every state the bit-blaster reaches by calls of \<open>bbTerm\<close> and
  \<open>bbAtom\<close> that returned. When it returns for a bit-vector term, the bits are Boolean terms, as many as the term is wide, and they spell its
  value under every interpretation (with the option \<open>bitvectorDivByZeroConst\<close> on, every one that divides by zero as the option says);
  asked of the run is only that the theory rewriters were called within their range (\<open>calls_in_range\<close>: widths below \<open>2 ^ 31\<close>, fewer than
  \<open>2 ^ 26 - 2\<close> subterms in a Boolean node, no total division on which \<open>UdivSelf\<close> fires). And it does return for a supported term without
  shifts, once the calls may nest as deep as the term is large, unless the resource manager interrupts under a hard limit. Shifts hand
  their guard to the rewriter, whose termination on bit-vector terms is not shown.\<close>

theorem lazy_bbTerm_correct:
  assumes "gmp_documented (rw_gmp R)" and "\<And>a b. \<not> rw_less R a b \<Longrightarrow> \<not> rw_less R b a \<Longrightarrow> a = b" and "\<And>m. mset (rw_iter R m) = mset m"
    and "E = bb_environment (mk_rewriter_env R otherPre otherPost engine step clocks owner) pf eager bstep"
    and "bb_reachable (lazy_bb (rw_gmp R) E) rm st" and "typeOf n = Some (BITVECTOR_TYPE w)"
  shows "(\<forall>bits st'. bbTerm (lazy_bb (rw_gmp R) E f) n st = Inr (bits, st') \<and> calls_in_range R st' \<longrightarrow> bits_spell (rw_divByZeroConst R) bits n w) \<and>
    (calls_in_range R st \<and> n \<in> bb_simple_terms f \<longrightarrow>
      (\<exists>bits st'. bbTerm (lazy_bb (rw_gmp R) E f) n st = Inr (bits, st') \<and> bits_spell (rw_divByZeroConst R) bits n w) \<or>
      hard_limited st \<and> bbTerm (lazy_bb (rw_gmp R) E f) n st = Inl UnsafeInterruptException)"
proof -
  have P: "bb_program R (mk_rewriter_env R otherPre otherPost engine step clocks owner) E otherPre otherPost engine step clocks owner"
    by (rule bb_programI [OF assms(1) _ assms(3,4)]) (rule assms(2))
  show ?thesis
    using bb_runs.reachable_term [OF bb_program.lazy_runs [OF P] assms(5) _ _ assms(6)] bb_program.simple_bbTerm_returns [OF P assms(5) _ assms(6)]
    by blast
qed

abbreviation (input) ex_bvsum :: node where
  "ex_bvsum \<equiv> App BITVECTOR_PLUS [Variable 0 (BITVECTOR_TYPE 8), App BITVECTOR_UDIV_TOTAL [Variable 1 (BITVECTOR_TYPE 8), Variable 2 (BITVECTOR_TYPE 8)]]"

theorem lazy_bbTerm_correct_witness:
  "\<exists>bits st'. bbTerm (lazy_bb gmp_reference ex_bb 5) ex_bvsum (bb_init new_ResourceManager) = Inr (bits, st') \<and> bits_spell True bits ex_bvsum 8"
proof -
  have "typeOf ex_bvsum = Some (BITVECTOR_TYPE 8)" by (simp add: typeOf_short type_op_iffs valid_width_def)
  moreover have "ex_bvsum \<in> bb_simple_terms 5" by (simp add: bb_simple_terms_def bb_throws_def bb_shift_def)
  moreover have "\<not> hard_limited (bb_init new_ResourceManager)"
    by (simp add: hard_limited_def bb_init_def new_rewriter_def new_ResourceManager_def)
  ultimately show ?thesis
    using lazy_bbTerm_correct [OF ex_env_documented refl bb_reachable.init, of ex_bvsum 8] calls_in_range_simps(6) by (fastforce simp: ex_env_def)
qed






text \<open>C4. The term cache is an invariant of the lazy bit-blaster over the modelled rewriter: in every state reached by calls that returned, with
  the theory rewriters called within their range, a cached entry has as many bits as its term is wide, and they spell the term's value
  under every interpretation (that divides by zero as the option \<open>bitvectorDivByZeroConst\<close> says, if it is on).\<close>

theorem lazy_cache_invariant:
  assumes "gmp_documented (rw_gmp R)" and "\<And>a b. \<not> rw_less R a b \<Longrightarrow> \<not> rw_less R b a \<Longrightarrow> a = b" and "\<And>m. mset (rw_iter R m) = mset m"
    and "E = bb_environment (mk_rewriter_env R otherPre otherPost engine step clocks owner) pf eager bstep"
    and "bb_reachable (lazy_bb (rw_gmp R) E) rm st" and "calls_in_range R st" and "d_termCache st n = Some bits"
  shows "typeOf n = Some (BITVECTOR_TYPE (length bits)) \<and> bits_spell (rw_divByZeroConst R) bits n (length bits)"
proof -
  have "bb_program R (mk_rewriter_env R otherPre otherPost engine step clocks owner) E otherPre otherPost engine step clocks owner"
    by (rule bb_programI [OF assms(1) _ assms(3,4)]) (rule assms(2))
  note inv = bb_runs.reachable_inv [OF bb_program.lazy_runs [OF this] assms(5,6)]
  obtain w where w: "typeOf n = Some (BITVECTOR_TYPE w)" "length bits = w"
    using inv [OF wf_interp_default zero_division_default] assms(7) unfolding bb_inv_def node_bits.repr_def by blast
  have "node_bits.repr I bits w (v_int (eval I n))" if "wf_interp I" "zero_division (rw_divByZeroConst R) I" for I
    using inv [OF that] assms(7) w(1) unfolding bb_inv_def by fastforce
  then have "bits_spell (rw_divByZeroConst R) bits n w" by (rule bits_spellI)
  with w show ?thesis by simp
qed

theorem lazy_cache_invariant_witness:
  "\<exists>st bits. bb_reachable (lazy_bb gmp_reference ex_bb) new_ResourceManager st \<and> d_termCache st (Variable 7 (BITVECTOR_TYPE 1)) = Some bits \<and>
    length bits = 1 \<and> bits_spell True bits (Variable 7 (BITVECTOR_TYPE 1)) (length bits)"
proof -
  let ?x = "Variable 7 (BITVECTOR_TYPE 1)" and ?start = "bb_init new_ResourceManager" and ?bb = "lazy_bb (rw_gmp ex_env) ex_bb"
  have t: "typeOf ?x = Some (BITVECTOR_TYPE 1)" by (simp add: valid_width_def)
  obtain st1 where st1: "TheoryBV_spendResource ex_bb ?start = Inr ((), st1)" "calls_in_range ex_env st1" "d_termCache st1 = Map.empty"
    by (simp add: TheoryBV_spendResource_def bb_init_def new_rewriter_def new_ResourceManager_def spendResource_def calls_in_range_def)
  let ?st = "TBitblaster_storeBBTerm ?x [mkBitOf ?x 0] (st1\<lparr>d_variables := List.insert ?x (d_variables st1)\<rparr>)"
  have "d_termCache ?start ?x = None" by (simp add: bb_init_def)
  then have "bbTerm (?bb 2) ?x ?start = Inr ([mkBitOf ?x 0], ?st)"
    using getSize_typeOf [OF t] getType_typeOf [OF t, of False] st1(1)
    by (simp add: numeral_2_eq_2 bb_object_def TLazyBitblaster_bbTerm_def d_termBBStrategies_def DefaultVarBB_def
        TBitblaster_makeVariable_def sbind_def smodify_def sreturn_def)
  then have r: "bb_reachable ?bb new_ResourceManager ?st" by (rule bb_reachable.call_term [OF bb_reachable.init t])
  have c: "d_termCache ?st ?x = Some [mkBitOf ?x 0]" by (simp add: TBitblaster_storeBBTerm_def st1(3))
  have "calls_in_range ex_env ?st" using st1(2) by simp
  from lazy_cache_invariant [OF ex_env_documented refl r this c] r c show ?thesis by (auto simp: ex_env_def)
qed

text \<open>A term of a kind the tables do not cover makes \<open>bbTerm\<close> throw, unless its bits were stored before: the
  kinds that the rewriter eliminates hit \<open>Unreachable()\<close> or \<open>Unimplemented()\<close>, whatever the bit-blaster.\<close>

lemma unsupported_terms_throw:
  assumes "bb_throws k" and "d_termCache st (App k ns) = None" and "TheoryBV_spendResource E st = Inr ((), st')"
  shows "TLazyBitblaster_bbTerm G E bb (App k ns) st \<in>
    {Inl UnreachableCodeException, Inl UnimplementedOperationException}"
  using assms
  by (cases k) (simp_all add: bb_throws_def TLazyBitblaster_bbTerm_def d_termBBStrategies_def sbind_def sthrow_def
      UndefinedTermBBStrategy_def DefaultNandBB_def DefaultNorBB_def DefaultRepeatBB_def DefaultZeroExtendBB_def
      DefaultRotateLeftBB_def DefaultRotateRightBB_def)

text \<open>Outside eager mode \<open>EagerBitblaster::bbAtom\<close> does the work of translating a new atom and then fails its
  \<open>AlwaysAssert\<close>: nothing is recorded or asserted.\<close>

lemma eager_mode_required:
  assumes "\<not> env_eagerMode E" and "strip_not a \<notin> set (d_bbAtoms st)"
    and "\<forall>i. \<not> hasKind (BITVECTOR_BITOF i) (strip_not a)"
    and "bbAtom_definition E bb (strip_not a) st = Inr (d, st')"
  shows "EagerBitblaster_bbAtom E bb a st = Inl AssertionException"
  using assms
  by (auto simp: EagerBitblaster_bbAtom_def Let_def sbind_def sthrow_def hasKind_def split: node.split kind.split)

section \<open>Resource limits\<close>

text \<open>C29. Resource limits are enforced exactly. With a hard limit on resources and none on time, the requests of a call are
  interrupted when and only when their sum reaches the budget of the call, and then every listener for hard limits is notified
  once. The budget is what the cumulative limit leaves, and without one the limit per call, unless a smaller budget of an earlier
  call is still in place.\<close>

theorem resource_limit_enforced:
  assumes "only_resources rm" and "d_isHardLimit rm" and "sum_list (map unat as) < 2 ^ 64"
  shows "\<exists>rm' rm'' r. beginCall now rm = Inr rm' \<and> spendResources now as rm' = (rm'', r) \<and>
    r = (if as \<noteq> [] \<and> unat (call_budget rm) \<le> sum_list (map unat as) then Inl UnsafeInterruptException else Inr ()) \<and>
    notified rm'' = notified rm @ (if r = Inr () then [] else d_hardListeners rm)"
proof -
  obtain rm' where rm': "beginCall now rm = Inr rm'" "only_resources rm'" "d_isHardLimit rm' = d_isHardLimit rm" "d_thisCallResourceUsed rm' = 0"
    "d_thisCallResourceBudget rm' = call_budget rm" "notified rm' = notified rm" "d_hardListeners rm' = d_hardListeners rm"
    by (rule beginCall_only_resources [OF assms(1)])
  obtain rm'' r where run: "spendResources now as rm' = (rm'', r)" by fastforce
  from spendResources_hard [OF rm'(2) _ _ run] rm' assms(2,3) run show ?thesis by auto
qed

abbreviation (input) ex_limited :: resource_manager where
  "ex_limited \<equiv> setResourceLimit 10 False (setHardLimit True (registerHardListener HardResourceOutListener new_ResourceManager))"

theorem resource_limit_enforced_witness:
  "\<exists>rm' rm''. beginCall (at_cpu 0) ex_limited = Inr rm' \<and> spendResources (at_cpu 0) [4, 6] rm' = (rm'', Inl UnsafeInterruptException) \<and>
    notified rm'' = [HardResourceOutListener]"
proof -
  have "only_resources ex_limited" "d_isHardLimit ex_limited" "call_budget ex_limited = 10" "notified ex_limited = []"
    "d_hardListeners ex_limited = [HardResourceOutListener]"
    by (simp_all add: only_resources_def setResourceLimit_def setHardLimit_def registerHardListener_def new_ResourceManager_def call_budget_def)
  with resource_limit_enforced [of ex_limited "[4, 6]" "at_cpu 0"] show ?thesis by auto
qed

text \<open>C30. A \<^emph>\<open>resource\<close> limit per call has no effect while a cumulative resource limit is set, with no time budgets set
  (\<open>only_resources\<close>). Whatever resource limit per call is set, a call is not interrupted before it has used up what the cumulative limit
  leaves: \<open>beginCall\<close> tests \<open>d_thisCallResourceUsed\<close>, which it has just set to zero, and returns before it looks at the limits per call. (A
  \<^emph>\<open>time\<close> limit per call does act beside a cumulative limit: its timer is set before that return.)\<close>

theorem per_call_limit_ignored:
  assumes "only_resources rm" and "d_isHardLimit rm" and "d_cumulativeResourceUsed rm < d_resourceBudgetCumulative rm"
    and "sum_list (map unat as) < unat (d_resourceBudgetCumulative rm - d_cumulativeResourceUsed rm)"
  shows "\<exists>rm' rm''. beginCall now (setResourceLimit perCall False rm) = Inr rm' \<and> spendResources now as rm' = (rm'', Inr ())"
proof -
  let ?rm = "setResourceLimit perCall False rm"
  have some: "d_resourceBudgetCumulative rm \<noteq> 0" using assms(3) by auto
  then have rm: "only_resources ?rm" "d_isHardLimit ?rm" using assms(1,2) by (simp_all add: only_resources_def setResourceLimit_def)
  obtain rm' where rm': "beginCall now ?rm = Inr rm'" "only_resources rm'" "d_isHardLimit rm' = d_isHardLimit ?rm" "d_thisCallResourceUsed rm' = 0"
    "d_thisCallResourceBudget rm' = call_budget ?rm" by (rule beginCall_only_resources [OF rm(1)])
  have budget: "call_budget ?rm = d_resourceBudgetCumulative rm - d_cumulativeResourceUsed rm"
    using some assms(3) by (auto simp: call_budget_def setResourceLimit_def)
  obtain rm'' r where run: "spendResources now as rm' = (rm'', r)" by fastforce
  have "sum_list (map unat as) < 2 ^ 64"
    using assms(4) unsigned_less [of "d_resourceBudgetCumulative rm - d_cumulativeResourceUsed rm", where ?'a = nat] by simp
  with spendResources_hard [OF rm'(2) _ _ run] rm' rm(2) budget assms(4) have "r = Inr ()" by simp
  with rm'(1) run show ?thesis by blast
qed

theorem per_call_limit_ignored_witness:
  "\<exists>rm' rm''. beginCall (at_cpu 0) (setResourceLimit 5 False (setResourceLimit 100 True ex_limited)) = Inr rm' \<and>
    spendResources (at_cpu 0) [40, 50] rm' = (rm'', Inr ())"
  by (rule per_call_limit_ignored)
    (simp_all add: only_resources_def setResourceLimit_def setHardLimit_def registerHardListener_def new_ResourceManager_def)



text \<open>C39. A timer set on the wall clock, for readings of a normalized clock that does not run backwards for less than \<open>2 ^ 63\<close>
  microseconds: it expires at the very microsecond its limit is reached, although \<open>set\<close> may leave a field of \<open>1000000\<close> microseconds, and
  \<open>elapsed\<close>, in whole milliseconds, is off by less than one.\<close>

theorem wall_timer_accurate:
  assumes "wf_reading start" and "wf_reading now" and "ms \<noteq> 0" and "wall_us start \<le> wall_us now" and "wall_us now - wall_us start < 2 ^ 63"
  shows "(Timer_expired now (Timer_set start ms True T) \<longleftrightarrow> wall_us start + uint ms * 1000 \<le> wall_us now) \<and>
    \<bar>uint (Timer_elapsed now (Timer_set start ms True T)) * 1000 - (wall_us now - wall_us start)\<bar> < 1000"
proof -
  have "d_wall_time (Timer_set start ms True T)" by (rule wall_limit(3) [OF refl])
  then show ?thesis using wall_timer_expired [OF assms(1-3)] wall_timer_elapsed [OF assms(1,2,4,5)] by (simp add: Timer_elapsed_def)
qed

theorem wall_timer_accurate_witness:
  "Timer_expired \<lparr>tv_sec = 2, tv_usec = 0, cpu_clock = 0\<rparr>
     (Timer_set \<lparr>tv_sec = 0, tv_usec = 500000, cpu_clock = 0\<rparr> 1500 True new_Timer) \<and>
   \<not> Timer_expired \<lparr>tv_sec = 1, tv_usec = 999999, cpu_clock = 0\<rparr>
     (Timer_set \<lparr>tv_sec = 0, tv_usec = 500000, cpu_clock = 0\<rparr> 1500 True new_Timer)"
  using wall_timer_accurate [of "\<lparr>tv_sec = 0, tv_usec = 500000, cpu_clock = 0\<rparr>" "\<lparr>tv_sec = 2, tv_usec = 0, cpu_clock = 0\<rparr>" 1500 new_Timer]
    wall_timer_accurate [of "\<lparr>tv_sec = 0, tv_usec = 500000, cpu_clock = 0\<rparr>" "\<lparr>tv_sec = 1, tv_usec = 999999, cpu_clock = 0\<rparr>" 1500 new_Timer]
  by (simp add: wf_reading_def wall_us_def)

section \<open>CNF conversion and the SAT solver\<close>

text \<open>C32. \<open>SatLiteral\<close> packs a variable below \<open>2 ^ 63\<close> and a sign into 64 bits and gives both back, and conversely every literal is the
  one packed from its variable and sign; negation is an involution on all literals that keeps the variable and flips the sign. For
  variables below \<open>2 ^ 30\<close> the translation to literals of Minisat and back is the identity. \<open>isNull\<close> is false of every literal, the
  undefined one included.\<close>

theorem literal_roundtrip:
  assumes "uint x < 2 ^ 63"
  shows "getSatVariable (SatLiteral x b) = x \<and> isNegated (SatLiteral x b) = b \<and>
    SatLiteral (getSatVariable l) (isNegated l) = l \<and> SatLiteral_not (SatLiteral_not l) = l \<and>
    getSatVariable (SatLiteral_not l) = getSatVariable l \<and> isNegated (SatLiteral_not l) = (\<not> isNegated l) \<and>
    (uint x < 2 ^ 30 \<longrightarrow> toSatLiteral (toMinisatLit (SatLiteral x b)) = SatLiteral x b) \<and>
    \<not> SatLiteral_isNull l \<and> \<not> SatLiteral_isNull undefSatLiteral"
proof -
  have small: "small_var x" using assms by (simp add: small_var_def)
  have "toSatLiteral (toMinisatLit (SatLiteral x b)) = SatLiteral x b" if "uint x < 2 ^ 30"
    using toMinisatLit_mkLit [of "SatLiteral x b"] small that by simp
  then show ?thesis using small not_isNull by simp
qed

theorem literal_roundtrip_witness:
  "getSatVariable (SatLiteral (2 ^ 62) True) = 2 ^ 62 \<and> getSatVariable (SatLiteral 7 True) = 7 \<and>
    toSatLiteral (toMinisatLit (SatLiteral 7 True)) = SatLiteral 7 True"
  using literal_roundtrip [of "2 ^ 62" True "SatLiteral 7 True"] literal_roundtrip [of 7 True "SatLiteral 7 True"] by simp

text \<open>C5. CNF conversion into the SAT solver. From a new solver, any sequence of Boolean formulas that fits the
  variable numbers can be asserted, and the clauses the solver then holds are equisatisfiable with the
  formulas, literal by literal: every model of the clauses gives a valuation of the atoms that
  satisfies all formulas and agrees with the literal of every translated node, and every valuation that
  satisfies the formulas extends to such a model.\<close>

theorem cnf_equisatisfiable:
  assumes "boolean_formulas fs" and "formulas_size fs + 2 \<le> 2 ^ 30"
  shows "\<exists>st. assert_formulas bvMinisat E fs (CnfStream (SimpSolver_init simp phase_saving)) = Inr ((), st) \<and>
    (\<forall>\<alpha>\<in>simp_models (d_satSolver st). \<exists>v. respects_constants v \<and> holds_all v fs \<and> agrees v \<alpha> (d_nodeToLiteralMap st)) \<and>
    (\<forall>v. respects_constants v \<longrightarrow> holds_all v fs \<longrightarrow> (\<exists>\<alpha>\<in>simp_models (d_satSolver st). agrees v \<alpha> (d_nodeToLiteralMap st)))"
  using bvminisat.assert_formulas_equisat [OF assms(1) SimpSolver_init_correct(1,2)] assms(2)
  by (simp add: SimpSolver_init_correct(3) add.commute)

definition ex_formulas :: "(node \<times> bool \<times> bool) list" where
  "ex_formulas =
     [(App OR [Variable 0 BOOLEAN_TYPE, App NOT [Variable 1 BOOLEAN_TYPE]], False, False),
      (App ITE [Variable 0 BOOLEAN_TYPE, CONST_BOOLEAN False, Variable 1 BOOLEAN_TYPE], True, True)]"

lemma ex_formulas: "boolean_formulas ex_formulas" "formulas_size ex_formulas = 8"
  by (simp_all add: ex_formulas_def boolean_formulas_def formulas_size_def typeOf_short type_op_iffs type_op_mixed)

definition ex_cnf :: cnf_env where
  "ex_cnf = \<lparr>d_fullLitToNodeMap = True, env_theoryOfMode = THEORY_OF_TYPE_BASED, env_sortOwner = THEORY_UF\<rparr>"

theorem cnf_equisatisfiable_witness:
  "\<exists>st. assert_formulas bvMinisat ex_cnf ex_formulas (CnfStream (SimpSolver_init True 2)) = Inr ((), st) \<and>
    (\<exists>\<alpha>\<in>simp_models (d_satSolver st). agrees (\<lambda>n. n = CONST_BOOLEAN True) \<alpha> (d_nodeToLiteralMap st))"
proof -
  have "formulas_size ex_formulas + 2 \<le> 2 ^ 30" by (simp add: ex_formulas)
  from cnf_equisatisfiable [OF ex_formulas(1) this, of ex_cnf True 2]
  obtain st where st: "assert_formulas bvMinisat ex_cnf ex_formulas (CnfStream (SimpSolver_init True 2)) = Inr ((), st)"
    "\<forall>v. respects_constants v \<longrightarrow> holds_all v ex_formulas \<longrightarrow> (\<exists>\<alpha>\<in>simp_models (d_satSolver st). agrees v \<alpha> (d_nodeToLiteralMap st))" by blast
  have "respects_constants (\<lambda>n. n = CONST_BOOLEAN True)" by (simp add: respects_constants_def)
  moreover have "holds_all (\<lambda>n. n = CONST_BOOLEAN True) ex_formulas"
    by (simp add: holds_all_def ex_formulas_def connective_App connect_def)
  ultimately show ?thesis using st by blast
qed

text \<open>C6. From formulas to the verdict of the solver: every interpretation that satisfies the formulas
  gives a model of the clauses in which each translated node has its value; when adding the clauses has made
  the solver inconsistent, no interpretation satisfies the formulas.\<close>

theorem conflict_means_unsatisfiable:
  assumes fs: "boolean_formulas fs" "formulas_size fs + 2 \<le> 2 ^ 30"
    and st: "assert_formulas bvMinisat E fs (CnfStream (SimpSolver_init simp phase_saving)) = Inr ((), st)"
  shows "(\<forall>I. wf_interp I \<longrightarrow> (\<forall>(n, removable, negated)\<in>set fs. v_bool (eval I n) \<noteq> negated) \<longrightarrow>
      (\<exists>\<alpha>\<in>simp_models (d_satSolver st). \<forall>n l. d_nodeToLiteralMap st n = Some l \<longrightarrow> lit_true \<alpha> l = v_bool (eval I n))) \<and>
    (\<not> BVMinisat_ok (d_satSolver st) \<longrightarrow> \<not> (\<exists>I. wf_interp I \<and> (\<forall>(n, removable, negated)\<in>set fs. v_bool (eval I n) \<noteq> negated)))"
proof -
  let ?C = "\<lambda>v. True \<and> holds_all v fs"
  have "card (simp_vars (SimpSolver_init simp phase_saving)) + formulas_size fs \<le> 2 ^ 30" using fs(2) by (simp add: SimpSolver_init_correct)
  then have "bvminisat.n_vars (CnfStream (SimpSolver_init simp phase_saving)) + formulas_size fs \<le> 2 ^ 30" by (simp add: CnfStream_def)
  from bvminisat.assert_formulas_spec [OF fs(1) bvminisat.cnf_inv_init [OF SimpSolver_init_correct(1,2)] this, of E] st
  have inv: "bvminisat.cnf_inv ?C st" by auto
  have model: "\<exists>\<alpha>\<in>simp_models (d_satSolver st). \<forall>n l. d_nodeToLiteralMap st n = Some l \<longrightarrow> lit_true \<alpha> l = v_bool (eval I n)"
    if I: "wf_interp I" "\<forall>(n, removable, negated)\<in>set fs. v_bool (eval I n) \<noteq> negated" for I
  proof -
    let ?v = "\<lambda>a. v_bool (eval I a)"
    have "holds_all ?v fs" using I(2) fs(1) skel_eval [OF I(1)] by (fastforce simp: holds_all_def boolean_formulas_def list_all_iff)
    moreover have "respects_constants ?v" by (simp add: respects_constants_def)
    ultimately obtain \<alpha> where "\<alpha> \<in> simp_models (d_satSolver st)" "agrees ?v \<alpha> (d_nodeToLiteralMap st)"
      using inv unfolding bvminisat.cnf_inv_def by blast
    moreover have "typeOf n = Some BOOLEAN_TYPE" if "d_nodeToLiteralMap st n = Some l" for n l
      using inv that unfolding bvminisat.cnf_inv_def bvminisat.maps_ok_def by blast
    ultimately show ?thesis using skel_eval [OF I(1)] unfolding agrees_def by metis
  qed
  moreover have "simp_models (d_satSolver st) = {}" if "\<not> BVMinisat_ok (d_satSolver st)"
    using that by (simp add: simp_models_def minisat_models_def db_models_def BVMinisat_ok_def)
  ultimately show ?thesis by blast
qed

definition ex_conflict :: "(node \<times> bool \<times> bool) list" where
  "ex_conflict =
     [(App OR [Variable 0 BOOLEAN_TYPE, Variable 1 BOOLEAN_TYPE], False, False), (Variable 0 BOOLEAN_TYPE, False, True),
      (Variable 1 BOOLEAN_TYPE, False, True)]"

theorem conflict_means_unsatisfiable_witness:
  "\<not> (\<exists>I. wf_interp I \<and> (\<forall>(n, removable, negated)\<in>set ex_conflict. v_bool (eval I n) \<noteq> negated))"
proof -
  have fs: "boolean_formulas ex_conflict" "formulas_size ex_conflict + 2 \<le> 2 ^ 30"
    by (simp_all add: ex_conflict_def boolean_formulas_def formulas_size_def typeOf_short type_op_iffs)
  have "case assert_formulas bvMinisat ex_cnf ex_conflict (CnfStream (SimpSolver_init True 2)) of
      Inr (u, st) \<Rightarrow> \<not> BVMinisat_ok (d_satSolver st) | Inl e \<Rightarrow> False" by code_simp
  then obtain st where st: "assert_formulas bvMinisat ex_cnf ex_conflict (CnfStream (SimpSolver_init True 2)) = Inr ((), st)" "\<not> BVMinisat_ok (d_satSolver st)"
    by (auto split: sum.splits)
  from conflict_means_unsatisfiable [OF fs st(1)] st(2) show ?thesis by blast
qed

text \<open>C27. \<open>ensureLiteral\<close>, in the type-based mode of \<open>theoryOf\<close>: after any sequence of assertions it returns for every Boolean
  node and asserts nothing. Unless the node is a double negation, \<open>d_nodeToLiteralMap\<close> then has a literal for it, and the literal has the
  value of the node in every model of the clauses, and in the models that every valuation of the atoms extends to. For a double
  negation \<open>NOT (NOT y)\<close> no literal is entered: only one negation is stripped, and \<open>newLiteral\<close> enters \<open>y\<close> and \<open>NOT y\<close>.\<close>

theorem ensureLiteral_correct:
  assumes fs: "boolean_formulas fs" and size: "formulas_size fs + node_size n + 2 \<le> 2 ^ 30" and n: "typeOf n = Some BOOLEAN_TYPE"
    and mode: "env_theoryOfMode E = THEORY_OF_TYPE_BASED"
    and st: "assert_formulas bvMinisat E fs (CnfStream (SimpSolver_init simp phase_saving)) = Inr ((), st)"
  shows "\<exists>st'. TseitinCnfStream_ensureLiteral bvMinisat E n noPreregistration st = Inr ((), st') \<and>
    (\<forall>\<alpha>\<in>simp_models (d_satSolver st'). \<exists>v. respects_constants v \<and> holds_all v fs \<and> agrees v \<alpha> (d_nodeToLiteralMap st')) \<and>
    (\<forall>v. respects_constants v \<longrightarrow> holds_all v fs \<longrightarrow> (\<exists>\<alpha>\<in>simp_models (d_satSolver st'). agrees v \<alpha> (d_nodeToLiteralMap st'))) \<and>
    (if \<exists>y. n = notNode (notNode y) then d_nodeToLiteralMap st' n = None
     else \<exists>l. d_nodeToLiteralMap st' n = Some l \<and> (\<forall>v \<alpha>. agrees v \<alpha> (d_nodeToLiteralMap st') \<longrightarrow> lit_true \<alpha> l = skel v n))"
proof -
  let ?C = "\<lambda>v. True \<and> holds_all v fs"
  have "card (simp_vars (SimpSolver_init simp phase_saving)) + formulas_size fs \<le> 2 ^ 30" using size by (simp add: SimpSolver_init_correct)
  then have "card (simp_vars (d_satSolver (CnfStream (SimpSolver_init simp phase_saving)))) + formulas_size fs \<le> 2 ^ 30" by (simp add: CnfStream_def)
  from bvminisat.assert_formulas_spec [OF fs bvminisat.cnf_inv_init [OF SimpSolver_init_correct(1,2)] this, of E] st
  have inv: "bvminisat.cnf_inv ?C st" and vars: "card (simp_vars (d_satSolver st)) \<le> 2 + formulas_size fs"
    by (auto simp: SimpSolver_init_correct CnfStream_def)
  from vars size have "card (simp_vars (d_satSolver st)) + node_size n \<le> 2 ^ 30" by simp
  from bvminisat.ensureLiteral_spec [OF n mode inv this, of noPreregistration]
  obtain st' where st': "TseitinCnfStream_ensureLiteral bvMinisat E n noPreregistration st = Inr ((), st')" "bvminisat.cnf_inv ?C st'"
    "d_nodeToLiteralMap st' n \<noteq> None \<or> (\<exists>l. bvminisat.lit_ok st' l (strip_not n) False)" unfolding swp_def by auto
  have paired: "paired (d_nodeToLiteralMap st')" using st'(2) unfolding bvminisat.cnf_inv_def bvminisat.maps_ok_def by blast
  have entry: "\<exists>l. d_nodeToLiteralMap st' n = Some l" if single: "\<nexists>y. n = notNode (notNode y)"
  proof (cases "d_nodeToLiteralMap st' n")
    case None
    then obtain l where l: "bvminisat.lit_ok st' l (strip_not n) False" using st'(3) by blast
    from strip_not_shape [OF n] have "d_nodeToLiteralMap st' (strip_not n) = Some l" "strip_not n = n \<or> n = notNode (strip_not n) \<and> (\<forall>x. strip_not n \<noteq> notNode x)"
      using l single unfolding bvminisat.lit_ok_def by auto
    then show ?thesis using paired by (auto simp: paired_def)
  qed simp
  have "\<exists>\<alpha>\<in>simp_models (d_satSolver st'). agrees v \<alpha> (d_nodeToLiteralMap st')" if "respects_constants v" "holds_all v fs" for v
    using st'(2) that unfolding bvminisat.cnf_inv_def by blast
  moreover have "if \<exists>y. n = notNode (notNode y) then d_nodeToLiteralMap st' n = None
     else \<exists>l. d_nodeToLiteralMap st' n = Some l \<and> (\<forall>v \<alpha>. agrees v \<alpha> (d_nodeToLiteralMap st') \<longrightarrow> lit_true \<alpha> l = skel v n)"
    using entry paired by (auto simp: paired_def agrees_def)
  moreover have "\<exists>v. respects_constants v \<and> holds_all v fs \<and> agrees v \<alpha> (d_nodeToLiteralMap st')" if "\<alpha> \<in> simp_models (d_satSolver st')" for \<alpha>
    using bvminisat.model_valuation [OF st'(2) that] by blast
  ultimately show ?thesis using st'(1) by (intro exI [of _ st'] conjI ballI allI impI) blast+
qed

theorem ensureLiteral_correct_witness:
  "\<exists>st st' l. assert_formulas bvMinisat ex_cnf [] (CnfStream (SimpSolver_init True 2)) = Inr ((), st) \<and>
    TseitinCnfStream_ensureLiteral bvMinisat ex_cnf (App NOT [Variable 0 BOOLEAN_TYPE]) False st = Inr ((), st') \<and>
    d_nodeToLiteralMap st' (App NOT [Variable 0 BOOLEAN_TYPE]) = Some l"
proof -
  have "boolean_formulas []" "formulas_size [] + node_size (App NOT [Variable 0 BOOLEAN_TYPE]) + 2 \<le> 2 ^ 30"
    "typeOf (App NOT [Variable 0 BOOLEAN_TYPE]) = Some BOOLEAN_TYPE" "env_theoryOfMode ex_cnf = THEORY_OF_TYPE_BASED"
    "assert_formulas bvMinisat ex_cnf [] (CnfStream (SimpSolver_init True 2)) = Inr ((), CnfStream (SimpSolver_init True 2))"
    by (simp_all add: boolean_formulas_def formulas_size_def typeOf_short type_op_iffs ex_cnf_def sreturn_def)
  from ensureLiteral_correct [OF this, of False] \<open>assert_formulas bvMinisat ex_cnf [] _ = _\<close> show ?thesis by (auto simp: notNode_def)
qed

text \<open>C8. \<open>addClause_\<close> of the SAT solver, with its sorting, its removal of duplicate and false literals, its test for
  tautologies and the unit propagation it starts, returns from every good state and restricts the
  models of the clause database to those of the clause; it answers whether the solver is still consistent.\<close>

theorem addClause_restricts_models:
  assumes "ms_inv s" and "\<forall>l\<in>set ps. in_range s l"
  shows "\<exists>r t. Solver_addClause ps s = Some (r, t) \<and> r = ms_ok t \<and> ms_inv t \<and> nVars t = nVars s \<and>
    db_models t = {\<alpha> \<in> db_models s. msat \<alpha> (set ps)}"
proof -
  from addClause_correct [OF assms]
  obtain r t where "Solver_addClause ps s = Some (r, t)" "r = ms_ok t" "ms_inv t" "nVars t = nVars s"
    "db_models t = {\<alpha> \<in> db_models s. msat \<alpha> (set ps)}" .
  then show ?thesis by (intro exI conjI)
qed

theorem addClause_restricts_models_witness:
  "\<exists>r t. Solver_addClause [mkLit 1 False, mkLit 0 True] (Solver_init 2) = Some (r, t) \<and> r = ms_ok t \<and> db_models t = {}"
proof -
  let ?s = "Solver_init 2" and ?c = "[mkLit 1 False, mkLit 0 True]"
  have "\<forall>l\<in>set ?c. in_range ?s l" by (simp add: in_range_def nVars_def Solver_init_fields)
  from addClause_restricts_models [OF Solver_init_correct(1) this]
  obtain r t where "Solver_addClause ?c ?s = Some (r, t)" "r = ms_ok t" "db_models t = {\<alpha> \<in> db_models ?s. msat \<alpha> (set ?c)}" by blast
  moreover have "{\<alpha> \<in> db_models ?s. msat \<alpha> (set ?c)} = {}" by (auto simp: db_models_def ms_models_def Solver_init_fields)
  ultimately show ?thesis by blast
qed

text \<open>C7. Unit propagation with two watched literals returns, and every fact that was enqueued has been
  propagated when it does; with no conflict it keeps the models, and every clause is then true or
  watches two unassigned literals, so none is unit or false; a conflict is reported only when there is no model.\<close>

theorem propagate_reaches_fixpoint:
  assumes s: "prop_inv s"
  shows "\<exists>confl t. Solver_propagate s = Some (confl, t) \<and> ms_qhead t = length (ms_trail t) \<and>
    (if confl = None
     then ms_models t = ms_models s \<and>
       (\<forall>cr\<in>set (ms_clauses t). mtrue t (ms_ca t ! cr) \<or>
         mvalue t (ms_ca t ! cr ! 0) = l_Undef \<and> mvalue t (ms_ca t ! cr ! 1) = l_Undef \<and> ms_ca t ! cr ! 0 \<noteq> ms_ca t ! cr ! 1)
     else ms_models s = {})"
proof -
  from propagate_correct [OF s] obtain confl t where t: "Solver_propagate s = Some (confl, t)" "loop_inv s (confl, t)" "ms_qhead t = length (ms_trail t)"
    by blast
  have "mtrue t (ms_ca t ! cr) \<or> mvalue t (ms_ca t ! cr ! 0) = l_Undef \<and> mvalue t (ms_ca t ! cr ! 1) = l_Undef \<and> ms_ca t ! cr ! 0 \<noteq> ms_ca t ! cr ! 1"
    if "confl = None" and cr: "cr \<in> set (ms_clauses t)" for cr
  proof -
    have inv: "prop_inv t" using t(2) that(1) by (simp add: loop_inv_def prop_inv_def)
    then have "distinct (ms_ca t ! cr)" "2 \<le> length (ms_ca t ! cr)" using cr by (auto simp: prop_inv_def clauses_ok_def)
    then have "ms_ca t ! cr ! 0 \<noteq> ms_ca t ! cr ! 1" by (intro nth_ne) linarith+
    with propagated_clause [OF inv t(3) cr] show ?thesis by blast
  qed
  with t show ?thesis by (auto simp: loop_inv_def split: if_splits)
qed

theorem propagate_reaches_fixpoint_witness: "\<exists>t. Solver_propagate (Solver_init 2) = Some (None, t) \<and> ms_qhead t = length (ms_trail t)"
proof -
  have "prop_inv (Solver_init 2)" using Solver_init_correct(1) [of 2] by (simp add: ms_inv_def prop_inv_def Solver_init_fields)
  moreover have "ms_models (Solver_init 2) \<noteq> {}" using Solver_init_correct(2) [of 2] by (auto simp: minisat_models_def db_models_def split: if_splits)
  moreover obtain confl t where "Solver_propagate (Solver_init 2) = Some (confl, t)" "ms_qhead t = length (ms_trail t)"
    "confl \<noteq> None \<longrightarrow> ms_models (Solver_init 2) = {}"
    using propagate_reaches_fixpoint [OF \<open>prop_inv _\<close>] by (auto split: if_splits)
  ultimately show ?thesis by (cases confl) auto
qed

text \<open>C28. While the problem is loaded, the bookkeeping for variable elimination describes the clause database: in every state \<open>SimpSolver\<close>
  reaches by its construction, new variables, added clauses and marking of variables (\<open>simp_loaded\<close>; before the first \<open>solve\<close> or
  \<open>eliminate\<close>, which remove and strengthen clauses and clean the lists lazily), \<open>n_occ\<close> counts the clauses that hold a literal, and the
  occurrence list of a variable holds the clauses it occurs in with either sign, although propagation has moved the literals within the
  clauses.\<close>

theorem occurrences_invariant:
  assumes "simp_loaded s" and "ss_use_simplification s" and "in_range (ss_core s) l"
  shows "ss_n_occ s ! nat l = length (filter (\<lambda>cr. l \<in> set (ms_ca (ss_core s) ! cr)) (ms_clauses (ss_core s))) \<and>
    set (ss_occurs s ! nat (lvar l)) =
      {cr \<in> set (ms_clauses (ss_core s)). l \<in> set (ms_ca (ss_core s) ! cr) \<or> lneg l \<in> set (ms_ca (ss_core s) ! cr)}"
  using simp_loaded_inv [OF assms(1)] assms(2,3) by (auto simp: ss_inv_def occurrences_ok_def clauses_with_def)

definition ex_simp :: simpSolver where
  "ex_simp = (let (x, s) = BVMinisat_newVar False False True (SimpSolver_init True 2); (y, s) = BVMinisat_newVar False False False s
     in BVMinisat_addClause [SatLiteral x False, SatLiteral y True] False s)"

theorem occurrences_invariant_witness: "ss_n_occ ex_simp ! 4 = 1 \<and> set (ss_occurs ex_simp ! 2) = set (ms_clauses (ss_core ex_simp))"
proof -
  let ?s0 = "SimpSolver_init True 2"
  obtain x s y t where s: "BVMinisat_newVar False False True ?s0 = (x, s)" "BVMinisat_newVar False False False s = (y, t)" by fastforce
  have n: "card (simp_vars ?s0) = 2" by (rule SimpSolver_init_correct(3))
  have 1: "simp_loaded s" by (rule reach_newVar [OF reach_init _ s(1)]) (simp add: n)
  note new1 = bvminisat.newVar_spec [of ?s0 False False True x s, OF SimpSolver_init_correct(1)]
  have v1: "simp_vars s = insert x (simp_vars ?s0)" using new1 s(1) n by (simp add: bvMinisat_def)
  then have c1: "card (simp_vars s) < 2 ^ 30" using n card_insert_le_m1 [of 3 "simp_vars ?s0" x] by simp
  have 2: "simp_loaded t" by (rule reach_newVar [OF 1 c1 s(2)])
  have v2: "simp_vars t = insert y (simp_vars s)"
    using bvminisat.newVar_spec [of s False False False y t, OF simp_loaded_inv [OF 1]] s(2) c1 by (simp add: bvMinisat_def)
  have ex: "ex_simp = BVMinisat_addClause [SatLiteral x False, SatLiteral y True] False t" by (simp add: ex_simp_def s Let_def)
  have small: "small_var x" "small_var y" using bvminisat.vars_small [OF simp_loaded_inv [OF 2]] v1 v2 by blast+
  then have reach: "simp_loaded ex_simp" unfolding ex by (intro reach_addClause 2) (simp add: v2 v1)
  have "ss_use_simplification ex_simp" "nVars (ss_core ex_simp) = 4" "ms_clauses (ss_core ex_simp) = [1]" "ms_ca (ss_core ex_simp) = [[- 2], [4, 7]]"
    by code_simp+
  moreover have "lvar 4 = 2" "in_range (ss_core ex_simp) 4" using \<open>nVars (ss_core ex_simp) = 4\<close> by (simp_all add: in_range_def lvar_div)
  ultimately show ?thesis using occurrences_invariant [OF reach, of 4] by simp (auto simp: Collect_conv_if)
qed

section \<open>Contexts\<close>

text \<open>C11. A context with its objects implements a stack of stores. Any sequence of pushes, pops, creations, deletions, assignments to
  \<open>CDO\<close> objects and additions to \<open>CDList\<close> objects keeps the invariant, and the values of all objects at all levels are those of the same
  operations on a stack of stores, where a push copies the top store, a pop drops it and a change affects it alone; although the code
  keeps one value per object and saves it only when it is first changed in a scope.\<close>

theorem context_refines_stores:
  assumes "ctx_inv C" and "run_ok max_size ops C"
  shows "ctx_inv (ctx_run max_size ops C) \<and> ctx_abs (ctx_run max_size ops C) = fold spec_step ops (ctx_abs C)"
  using assms
proof (induction ops arbitrary: C)
  case (Cons opn ops)
  then show ?case using step_refines [of C max_size opn] by (simp add: ctx_run_def)
qed (simp add: ctx_run_def)

definition ex_ctx_ops :: "nat ctx_op list" where
  "ex_ctx_ops = [NewCDO 0 4, PushOp, NewCDList True, SetOp 0 7, PushBackOp 1 3, PushOp, PushBackOp 1 5, SetOp 0 8, PopOp]"

theorem context_refines_stores_witness:
  "(stores (ctx_run 20 ex_ctx_ops new_Context) ! 1) 0 = Some (CDO_value 7) \<and>
   (stores (ctx_run 20 ex_ctx_ops new_Context) ! 1) 1 = Some (CDList_value [Some 3])"
proof -
  have ok: "run_ok 20 ex_ctx_ops new_Context" by code_simp
  have abs: "ctx_abs (new_Context :: nat ctx) = ([Map.empty], 0)"
    by (simp add: ctx_abs_def stores_def store_at_def new_Context_def fun_eq_iff)
  from context_refines_stores [OF new_Context_inv ok]
  have "stores (ctx_run 20 ex_ctx_ops new_Context) = fst (fold spec_step ex_ctx_ops ([Map.empty], 0))"
    by (simp add: abs) (metis ctx_abs_def fst_conv)
  then show ?thesis
    by (simp add: ex_ctx_ops_def spec_step_def spec_push_def spec_pop_def spec_change_def spec_new_def spec_set_def spec_append_def)
qed

text \<open>C12. Backtracking. After a push, whatever operations a client runs above the old level, popping to the old level gives back the old
  level and every object that was there before and was not deleted: \<open>CDO::get\<close>, \<open>CDList::size\<close> and the elements of lists read the same
  as before the push.\<close>

theorem context_restores:
  assumes "ctx_inv C" and "run_above (ctx_step max_size) (op_ok max_size) getLevel (getLevel C) ops (context_push C)"
    and "x < ctx_fresh C" and "DeleteOp x \<notin> set ops"
  shows "reads_same x (context_popto (int (getLevel C)) (ctx_run max_size ops (context_push C))) C \<and>
    getLevel (context_popto (int (getLevel C)) (ctx_run max_size ops (context_push C))) = getLevel C"
proof -
  let ?r = "ctx_run max_size ops (context_push C)"
  have "context_popto (int (getLevel C)) ?r = (context_pop ^^ (getLevel ?r - getLevel C)) ?r"
    by (simp add: context_popto_def popto_pops)
  with object.run_undone [OF conjI [OF assms(1,3)] run_above_deletes [OF assms(2,4)]]
  have D: "ctx_inv (context_popto (int (getLevel C)) ?r)" "getLevel (context_popto (int (getLevel C)) ?r) = getLevel C"
    "store_at (context_popto (int (getLevel C)) ?r) (getLevel C) x = store_at C (getLevel C) x"
    by (simp_all add: ctx_run_def)
  with reads_same_store [OF D(1) assms(1), of x] show ?thesis by simp
qed

theorem context_restores_witness:
  "CDO_get 0 (context_popto 0 (ctx_run 20 [SetOp 0 7, NewCDO 0 1, PushOp, SetOp 0 9] (context_push (snd (new_CDO (0 :: nat) 4 new_Context)))))
     = Some 4"
proof -
  let ?C = "snd (new_CDO (0 :: nat) 4 new_Context)" and ?ops = "[SetOp 0 7, NewCDO 0 1, PushOp, SetOp 0 9] :: nat ctx_op list"
  have inv: "ctx_inv ?C" by (rule conjunct1 [OF new_CDO_refines [OF new_Context_inv]])
  have f: "getLevel ?C = 0" "0 < ctx_fresh ?C" "CDO_get 0 ?C = Some 4" by code_simp+
  have "run_above (ctx_step 20) (op_ok 20) getLevel 0 ?ops (context_push ?C)" by code_simp
  with context_restores [OF inv, of 20 ?ops 0] f show ?thesis by (simp add: reads_same_def)
qed

text \<open>C13. The region allocator of contexts. After a push and any allocations, pushes and pops above that level, \<open>newData\<close> returns a
  block inside one chunk that no live block overlaps, those of the lower levels included; popping to the old level gives back
  exactly the memory that was in use there. A request larger than a chunk fails.\<close>

theorem context_memory_safe:
  assumes "cmm_inv m" and "run_above cmm_step cmm_ok cmm_level (cmm_level m) ops (cmm_push m)"
  defines "r \<equiv> fold cmm_step ops (cmm_push m)"
  defines "t \<equiv> (cmm_pop ^^ (cmm_level r - cmm_level m)) r"
  shows "(if sz \<le> chunkSizeBytes
      then \<exists>p m'. newData sz r = Inr (p, m') \<and> cmm_inv m' \<and> fst p \<in> set (d_chunkList m') \<and> snd p + sz \<le> chunkSizeBytes
        \<and> block p sz \<inter> live_bytes r = {} \<and> live_bytes m \<subseteq> live_bytes r \<and> block p sz \<subseteq> live_bytes m'
      else newData sz r = Inl AssertionException) \<and>
    cmm_inv t \<and> d_chunkList t = d_chunkList m \<and> d_nextFree t = d_nextFree m \<and> live_bytes t = live_bytes m"
proof -
  have r: "cmm_inv r" "cmm_level m < cmm_level r" "cmm_region r (cmm_level m) = cmm_region m (cmm_level m)"
    using regions.run_look [OF cmm_push_inv [OF assms(1)] assms(2)] region_stack.push_look [OF assms(1)] by (simp_all add: r_def)
  have sub: "live_bytes m \<subseteq> live_bytes r" using lower_regions_live [OF r(1), of "cmm_level m"] r(2,3) by (simp add: live_bytes_def)
  have t: "cmm_inv t" "cmm_level t = cmm_level m" "cmm_region t (cmm_level m) = cmm_region m (cmm_level m)"
    using regions.run_undone [OF assms(1,2)] by (simp_all add: t_def r_def)
  have "live_bytes t = live_bytes m" "d_chunkList t = d_chunkList m" "d_nextFree t = d_nextFree m"
    using t current_state [OF t(1)] current_state [OF assms(1)] by (simp_all add: live_bytes_def)
  moreover have "\<exists>p m'. newData sz r = Inr (p, m') \<and> cmm_inv m' \<and> fst p \<in> set (d_chunkList m') \<and> snd p + sz \<le> chunkSizeBytes
      \<and> block p sz \<inter> live_bytes r = {} \<and> live_bytes m \<subseteq> live_bytes r \<and> block p sz \<subseteq> live_bytes m'" if "sz \<le> chunkSizeBytes"
    by (rule newData_correct [OF r(1) that]) (use sub in auto)
  ultimately show ?thesis using newData_too_big [OF r(1), of sz] t(1) by simp
qed

theorem context_memory_safe_witness:
  "let r = fold cmm_step [Alloc 16000, Alloc 1000, PushRegion, Alloc 8] (cmm_push new_ContextMemoryManager)
   in (\<exists>p m'. newData 64 r = Inr (p, m') \<and> block p 64 \<inter> live_bytes r = {}) \<and> d_nextFree ((cmm_pop ^^ 2) r) = (0, 0)"
proof -
  let ?m = new_ContextMemoryManager and ?ops = "[Alloc 16000, Alloc 1000, PushRegion, Alloc 8]"
  note defs = cmm_step_def cmm_ok_def cmm_level_def cmm_push_def newData_def newChunk_def ptr_add_def chunkSizeBytes_def
    new_ContextMemoryManager_def Let_def
  have "run_above cmm_step cmm_ok cmm_level (cmm_level ?m) ?ops (cmm_push ?m)" by (simp add: defs)
  moreover have "cmm_level (fold cmm_step ?ops (cmm_push ?m)) = 2" by (simp add: defs)
  moreover have "cmm_level ?m = 0" "d_nextFree ?m = (0, 0)" "64 \<le> chunkSizeBytes" by (simp_all add: defs)
  ultimately show ?thesis using context_memory_safe [OF new_ContextMemoryManager_inv, of ?ops 64]
    unfolding Let_def by (simp del: fold_simps funpow.simps) metis
qed

end
